(* ===== verification/Prelude.thy ===== *)
theory Prelude
  imports Main "HOL-Library.Word" "HOL-Library.Monad_Syntax"
begin

text \<open>
  The vocabulary every component shares: the machine types of \<open>include/arch/ppc/types.h\<close>
  (32-bit cells, the configuration this development is about), the collections of rewrite rules
  the component proofs carry, and generic facts on options, words and bounded loops.

  A computation that may not return normally has an \<open>option\<close> result. \<open>None\<close> stands for what C
  leaves undefined (a read or a write outside an array or outside mapped memory, a division by
  zero, a shift by at least the width) and for a loop that never ends.
\<close>

unbundle bit_operations_syntax

type_synonym u8 = "8 word"
type_synonym u16 = "16 word"
type_synonym u32 = "32 word"
type_synonym u64 = "64 word"
type_synonym ucell = "32 word"
type_synonym cell = "32 word"
type_synonym ducell = "64 word"
type_synonym memory = "32 word \<Rightarrow> 8 word option"

abbreviation cellsize :: ucell where
  "cellsize \<equiv> 4"

named_theorems frame_rules "what an operation leaves unchanged"

text \<open>Flags: C's \<open>cell tmp = (a == b); PUSH(-tmp)\<close> leaves all ones or all zeros.\<close>

definition c_bool :: "bool \<Rightarrow> cell" where
  "c_bool b = (if b then 1 else 0)"

lemma c_bool_simps [simp]: "c_bool True = 1" "c_bool False = 0"
  by (simp_all add: c_bool_def)

lemma neg_c_bool: "- c_bool b = (if b then - 1 else 0)"
  by (simp add: c_bool_def)

subsection \<open>Options\<close>

lemma bind_eq_Some_iff: "Option.bind x f = Some y \<longleftrightarrow> (\<exists>z. x = Some z \<and> f z = Some y)"
  by (cases x) auto

lemma bind_option_cong_Some:
  assumes "x = Some a" and "f a = r"
  shows "Option.bind x f = r"
  using assms by simp

subsection \<open>Words\<close>

lemma unat_sub_word:
  fixes a b :: "'a::len word"
  assumes "b \<le> a"
  shows "unat (a - b) = unat a - unat b"
  using assms by (rule unat_sub)

lemma word_add_neq_self:
  fixes a :: "'a::len word"
  assumes "k \<noteq> 0"
  shows "a + k \<noteq> a" and "a \<noteq> a + k"
  using assms by simp_all

lemma unat_of_nat_small:
  assumes "n < 2 ^ LENGTH('a)"
  shows "unat (of_nat n :: 'a::len word) = n"
  using assms by (simp add: unsigned_of_nat take_bit_nat_eq_self)

lemma sint_eq_unat:
  assumes "unat (u :: 32 word) < 2 ^ 31"
  shows "sint u = int (unat u)"
proof -
  have "uint u = int (unat u)" by simp
  moreover have "int (unat u) < int (2 ^ 31)" using assms by (simp only: of_nat_less_iff)
  ultimately have lt: "uint u < 2 ^ 31" by simp
  have "- (2 ^ 31) \<le> uint u" by (rule order_trans [OF _ uint_ge_0]) simp
  then have "signed_take_bit 31 (uint u) = uint u" using lt by (rule signed_take_bit_int_eq_self)
  then show ?thesis by (simp add: sint_uint)
qed

lemma unat_add_no_wrap:
  fixes a b :: "'a::len word"
  assumes "unat a + unat b < 2 ^ LENGTH('a)"
  shows "unat (a + b) = unat a + unat b"
  using assms unat_add_lem by blast

lemma eq_of_nat: "unat w = n \<Longrightarrow> w = of_nat n"
  by auto

text \<open>A C \<open>int\<close> expression whose overflow is undefined.\<close>

definition cint :: "int \<Rightarrow> int option" where
  "cint i = (if - (2 ^ 31) \<le> i \<and> i < 2 ^ 31 then Some i else None)"

lemma cint_nat: "n < 2 ^ 31 \<Longrightarrow> cint (int n) = Some (int n)"
  by (simp add: cint_def)

end
