(* ===== verification/Memory.thy ===== *)
theory Memory
  imports Prelude
begin

text \<open>
  Byte-addressed memory and the access layer of \<open>kernel/cross.h\<close>, for a big-endian target whose
  bit width is that of the host (no \<open>SWAP_ENDIANNESS\<close>): a cell, a long and a word are the bytes
  at consecutive addresses, most significant first. A byte that is not mapped is \<open>None\<close>; touching
  it gives \<open>None\<close>. Below it, the block operations of \<open>libc/string.c\<close> that work on this memory.
\<close>

subsection \<open>Bytes of a value\<close>

definition byte_of :: "nat \<Rightarrow> 'a::len word \<Rightarrow> u8" where
  "byte_of i x = ucast (drop_bit (8 * i) x)"

definition cat16 :: "u8 \<Rightarrow> u8 \<Rightarrow> u16" where
  "cat16 h l = push_bit 8 (ucast h) OR ucast l"

definition cat32 :: "u8 \<Rightarrow> u8 \<Rightarrow> u8 \<Rightarrow> u8 \<Rightarrow> u32" where
  "cat32 b3 b2 b1 b0 =
     push_bit 24 (ucast b3) OR push_bit 16 (ucast b2) OR push_bit 8 (ucast b1) OR ucast b0"

lemma cat16_byte_of [simp]: "cat16 (byte_of (Suc 0) x) (byte_of 0 x) = x"
  by (rule bit_word_eqI) (auto simp: cat16_def byte_of_def bit_simps)

lemma cat32_byte_of [simp]:
  "cat32 (byte_of 3 x) (byte_of 2 x) (byte_of (Suc 0) x) (byte_of 0 x) = x"
proof (rule bit_word_eqI)
  fix n
  assume n: "n < LENGTH(32)"
  consider "n < 8" | "8 \<le> n" "n < 16" | "16 \<le> n" "n < 24" | "24 \<le> n" by linarith
  then show "bit (cat32 (byte_of 3 x) (byte_of 2 x) (byte_of (Suc 0) x) (byte_of 0 x)) n = bit x n"
    using n by cases (auto simp: cat32_def byte_of_def bit_simps)
qed

subsection \<open>Regions\<close>

text \<open>The \<open>n\<close> bytes from address \<open>a\<close> on; addresses wrap as 32-bit pointers do.\<close>

definition in_region :: "ucell \<Rightarrow> nat \<Rightarrow> ucell \<Rightarrow> bool" where
  "in_region a n x \<longleftrightarrow> unat (x - a) < n"

definition mapped :: "memory \<Rightarrow> ucell \<Rightarrow> nat \<Rightarrow> bool" where
  "mapped m a n \<longleftrightarrow> (\<forall>i < n. m (a + of_nat i) \<noteq> None)"

definition apart :: "ucell \<Rightarrow> nat \<Rightarrow> ucell \<Rightarrow> nat \<Rightarrow> bool" where
  "apart a n b k \<longleftrightarrow> (\<forall>x. in_region a n x \<longrightarrow> \<not> in_region b k x)"

lemma in_region_offset:
  assumes "n \<le> 2 ^ 32"
  shows "in_region a n x \<longleftrightarrow> (\<exists>i < n. x = a + of_nat i)"
proof
  assume "in_region a n x"
  then have "unat (x - a) < n" by (simp add: in_region_def)
  moreover have "x = a + of_nat (unat (x - a))" by simp
  ultimately show "\<exists>i < n. x = a + of_nat i" by blast
next
  assume "\<exists>i < n. x = a + of_nat i"
  then obtain i where i: "i < n" "x = a + of_nat i" by blast
  then have "unat (x - a) = i" using assms by (simp add: unat_of_nat_small)
  with i show "in_region a n x" by (simp add: in_region_def)
qed

lemma apart_sym: "apart a n b k \<longleftrightarrow> apart b k a n"
  by (auto simp: apart_def)

lemma apart_no_wrap:
  assumes "unat a + n \<le> unat b" and "unat b + k \<le> 2 ^ 32"
  shows "apart a n b k"
  unfolding apart_def in_region_def
proof (intro allI impI notI)
  fix x :: ucell
  assume x: "unat (x - a) < n" and y: "unat (x - b) < k"
  have ax: "unat x = (unat (x - a) + unat a) mod 2 ^ 32"
    using unat_word_ariths(1)[of "x - a" a] by simp
  have bx: "unat x = (unat (x - b) + unat b) mod 2 ^ 32"
    using unat_word_ariths(1)[of "x - b" b] by simp
  have "unat (x - a) + unat a < 2 ^ 32" using x assms by linarith
  with ax have "unat x < unat b" using x assms by simp
  moreover have "unat (x - b) + unat b < 2 ^ 32" using y assms by linarith
  with bx have "unat b \<le> unat x" by simp
  ultimately show False by simp
qed

lemma apart_sub:
  assumes "apart a n b k" and "i + j \<le> n" and "n \<le> 2 ^ 32"
  shows "apart (a + of_nat i) j b k"
proof -
  have "in_region a n x" if x: "in_region (a + of_nat i) j x" for x
  proof -
    from x assms obtain d where "d < j" "x = a + of_nat i + of_nat d"
      by (auto simp: in_region_offset [of j])
    then have "i + d < n" and "x = a + of_nat (i + d)" using assms(2) by simp_all
    then show ?thesis using in_region_offset [OF assms(3), of a x] by blast
  qed
  then show ?thesis using assms(1) by (auto simp: apart_def)
qed

lemma ex_less_2: "(\<exists>i < (2::nat). P i) \<longleftrightarrow> P 0 \<or> P 1"
proof -
  have "i < (2::nat) \<longleftrightarrow> i = 0 \<or> i = 1" for i by linarith
  then show ?thesis by metis
qed

lemma ex_less_4: "(\<exists>i < (4::nat). P i) \<longleftrightarrow> P 0 \<or> P 1 \<or> P 2 \<or> P 3"
proof -
  have "i < (4::nat) \<longleftrightarrow> i = 0 \<or> i = 1 \<or> i = 2 \<or> i = 3" for i by linarith
  then show ?thesis by metis
qed

lemma in_region_numeral_simps:
  "in_region a (Suc 0) x \<longleftrightarrow> x = a"
  "in_region a 2 x \<longleftrightarrow> x = a \<or> x = a + 1"
  "in_region a 4 x \<longleftrightarrow> x = a \<or> x = a + 1 \<or> x = a + 2 \<or> x = a + 3"
  by (simp_all add: in_region_offset ex_less_2 ex_less_4)

subsection \<open>The access layer of cross.h\<close>

definition read_byte :: "memory \<Rightarrow> ucell \<Rightarrow> u8 option" where
  "read_byte m a = m a"

definition read_word :: "memory \<Rightarrow> ucell \<Rightarrow> u16 option" where
  "read_word m a = do { h \<leftarrow> m a; l \<leftarrow> m (a + 1); Some (cat16 h l) }"

definition read_long :: "memory \<Rightarrow> ucell \<Rightarrow> u32 option" where
  "read_long m a =
     do { b3 \<leftarrow> m a; b2 \<leftarrow> m (a + 1); b1 \<leftarrow> m (a + 2); b0 \<leftarrow> m (a + 3); Some (cat32 b3 b2 b1 b0) }"

definition read_ucell :: "memory \<Rightarrow> ucell \<Rightarrow> ucell option" where
  "read_ucell m a = read_long m a"

definition write_byte :: "memory \<Rightarrow> ucell \<Rightarrow> u8 \<Rightarrow> memory option" where
  "write_byte m a v = (if m a = None then None else Some (m(a \<mapsto> v)))"

definition write_word :: "memory \<Rightarrow> ucell \<Rightarrow> u16 \<Rightarrow> memory option" where
  "write_word m a v =
     (if m a = None \<or> m (a + 1) = None then None
      else Some (m(a \<mapsto> byte_of 1 v, a + 1 \<mapsto> byte_of 0 v)))"

definition write_long :: "memory \<Rightarrow> ucell \<Rightarrow> u32 \<Rightarrow> memory option" where
  "write_long m a v =
     (if m a = None \<or> m (a + 1) = None \<or> m (a + 2) = None \<or> m (a + 3) = None then None
      else Some (m(a \<mapsto> byte_of 3 v, a + 1 \<mapsto> byte_of 2 v, a + 2 \<mapsto> byte_of 1 v,
                   a + 3 \<mapsto> byte_of 0 v)))"

definition write_ucell :: "memory \<Rightarrow> ucell \<Rightarrow> ucell \<Rightarrow> memory option" where
  "write_ucell m a v = write_long m a v"

text \<open>The byte-wise variants, for \<open>CONFIG_BIG_ENDIAN\<close>. The arguments are promoted to \<open>int\<close> width.\<close>

definition unaligned_read_word :: "memory \<Rightarrow> ucell \<Rightarrow> u32 option" where
  "unaligned_read_word m a =
     do { h \<leftarrow> read_byte m a; l \<leftarrow> read_byte m (a + 1); Some (push_bit 8 (ucast h) OR ucast l) }"

definition unaligned_read_long :: "memory \<Rightarrow> ucell \<Rightarrow> u32 option" where
  "unaligned_read_long m a =
     do { h \<leftarrow> unaligned_read_word m a; l \<leftarrow> unaligned_read_word m (a + 2);
          Some (push_bit 16 h OR l) }"

definition unaligned_write_word :: "memory \<Rightarrow> ucell \<Rightarrow> u32 \<Rightarrow> memory option" where
  "unaligned_write_word m a v =
     do { m1 \<leftarrow> write_byte m a (ucast (drop_bit 8 v)); write_byte m1 (a + 1) (ucast (v AND 0xff)) }"

definition unaligned_write_long :: "memory \<Rightarrow> ucell \<Rightarrow> u32 \<Rightarrow> memory option" where
  "unaligned_write_long m a v =
     do { m1 \<leftarrow> unaligned_write_word m a (drop_bit 16 v);
          unaligned_write_word m1 (a + 2) (v AND 0xffff) }"

text \<open>Memory that holds the given cells from address 0 on.\<close>

definition mem_of_cells :: "ucell list \<Rightarrow> memory" where
  "mem_of_cells cs a =
     (if unat a div 4 < length cs then Some (byte_of (3 - unat a mod 4) (cs ! (unat a div 4))) else None)"

lemmas access_defs = read_byte_def read_word_def read_long_def read_ucell_def
  write_byte_def write_word_def write_long_def write_ucell_def

subsection \<open>What an access width promises\<close>

text \<open>
  The contract of one access width: a write succeeds exactly on mapped bytes, is read back, keeps
  the bytes outside its span and the set of mapped addresses, and a read depends on its span only.
\<close>

locale accessor =
  fixes rd :: "memory \<Rightarrow> ucell \<Rightarrow> 'v option"
    and wr :: "memory \<Rightarrow> ucell \<Rightarrow> 'v \<Rightarrow> memory option"
    and span :: nat
  assumes wr_succeeds: "wr m a v \<noteq> None \<longleftrightarrow> (\<forall>x. in_region a span x \<longrightarrow> m x \<noteq> None)"
    and rd_succeeds: "rd m a \<noteq> None \<longleftrightarrow> (\<forall>x. in_region a span x \<longrightarrow> m x \<noteq> None)"
    and rd_wr_same: "wr m a v = Some m' \<Longrightarrow> rd m' a = Some v"
    and wr_frame: "wr m a v = Some m' \<Longrightarrow> \<not> in_region a span x \<Longrightarrow> m' x = m x"
    and wr_dom: "wr m a v = Some m' \<Longrightarrow> (m' x = None) = (m x = None)"
    and rd_local: "(\<And>x. in_region a span x \<Longrightarrow> m x = m' x) \<Longrightarrow> rd m a = rd m' a"
begin

lemma rd_wr_apart:
  assumes "wr m a v = Some m'" and "apart a span b span"
  shows "rd m' b = rd m b"
proof (rule rd_local)
  fix x
  assume "in_region b span x"
  with assms(2) have "\<not> in_region a span x" by (auto simp: apart_def)
  then show "m' x = m x" by (rule wr_frame [OF assms(1)])
qed

lemma read_modify_write:
  assumes "rd m a = Some v"
  shows "\<exists>m'. wr m a (f v) = Some m' \<and> rd m' a = Some (f v)"
proof -
  from assms have "rd m a \<noteq> None" by simp
  then have "wr m a (f v) \<noteq> None" by (simp only: wr_succeeds rd_succeeds)
  then show ?thesis using rd_wr_same by blast
qed

lemma wr_wr_same:
  assumes "wr m a v = Some m'"
  shows "\<exists>m''. wr m' a w = Some m'' \<and> rd m'' a = Some w"
proof -
  from assms have "rd m' a = Some v" by (rule rd_wr_same)
  then show ?thesis using read_modify_write [of m' a v "\<lambda>_. w"] by simp
qed

end

lemma bind_None_iff: "Option.bind x f = None \<longleftrightarrow> x = None \<or> (\<exists>y. x = Some y \<and> f y = None)"
  by (cases x) auto

interpretation byte_acc: accessor read_byte write_byte "Suc 0"
  by unfold_locales (auto simp: access_defs in_region_numeral_simps split: if_splits)

interpretation word_acc: accessor read_word write_word 2
proof
  fix m m' :: memory and a x v
  show "write_word m a v \<noteq> None \<longleftrightarrow> (\<forall>x. in_region a 2 x \<longrightarrow> m x \<noteq> None)"
    by (auto simp: access_defs in_region_numeral_simps)
  show "read_word m a \<noteq> None \<longleftrightarrow> (\<forall>x. in_region a 2 x \<longrightarrow> m x \<noteq> None)"
    by (auto simp: access_defs in_region_numeral_simps bind_None_iff simp del: not_None_eq)
  show "write_word m a v = Some m' \<Longrightarrow> read_word m' a = Some v"
    by (auto simp: access_defs split: if_splits)
  show "write_word m a v = Some m' \<Longrightarrow> \<not> in_region a 2 x \<Longrightarrow> m' x = m x"
    by (auto simp: access_defs in_region_numeral_simps split: if_splits)
  show "write_word m a v = Some m' \<Longrightarrow> (m' x = None) = (m x = None)"
    by (auto simp: access_defs split: if_splits)
  show "(\<And>x. in_region a 2 x \<Longrightarrow> m x = m' x) \<Longrightarrow> read_word m a = read_word m' a"
    by (simp add: access_defs in_region_numeral_simps)
qed

interpretation long_acc: accessor read_long write_long 4
proof
  fix m m' :: memory and a x v
  show "write_long m a v \<noteq> None \<longleftrightarrow> (\<forall>x. in_region a 4 x \<longrightarrow> m x \<noteq> None)"
    by (auto simp: access_defs in_region_numeral_simps)
  show "read_long m a \<noteq> None \<longleftrightarrow> (\<forall>x. in_region a 4 x \<longrightarrow> m x \<noteq> None)"
    by (auto simp: access_defs in_region_numeral_simps bind_None_iff simp del: not_None_eq)
  show "write_long m a v = Some m' \<Longrightarrow> read_long m' a = Some v"
    by (auto simp: access_defs split: if_splits)
  show "write_long m a v = Some m' \<Longrightarrow> \<not> in_region a 4 x \<Longrightarrow> m' x = m x"
    by (auto simp: access_defs in_region_numeral_simps split: if_splits)
  show "write_long m a v = Some m' \<Longrightarrow> (m' x = None) = (m x = None)"
    by (auto simp: access_defs split: if_splits)
  show "(\<And>x. in_region a 4 x \<Longrightarrow> m x = m' x) \<Longrightarrow> read_long m a = read_long m' a"
    by (simp add: access_defs in_region_numeral_simps)
qed

interpretation ucell_acc: accessor read_ucell write_ucell 4
  unfolding read_ucell_def write_ucell_def by unfold_locales

text \<open>On a big-endian machine the byte-wise accesses agree with the plain ones.\<close>

lemma unaligned_read_word_eq: "unaligned_read_word m a = map_option ucast (read_word m a)"
proof -
  have "ucast (cat16 h l) = push_bit 8 (ucast h) OR (ucast l :: u32)" for h l
    by (rule bit_word_eqI) (auto simp: cat16_def bit_simps dest: bit_imp_le_length)
  then show ?thesis
    by (simp add: unaligned_read_word_def read_word_def read_byte_def split: bind_splits)
qed

lemma unaligned_read_long_eq: "unaligned_read_long m a = read_long m a"
proof -
  have "push_bit 16 (push_bit 8 (ucast b3) OR ucast b2) OR (push_bit 8 (ucast b1) OR ucast b0)
          = cat32 b3 b2 b1 b0" for b3 b2 b1 b0 :: u8
    by (rule bit_word_eqI) (auto simp: cat32_def bit_simps)
  then show ?thesis
    by (simp add: unaligned_read_long_def unaligned_read_word_def read_long_def read_byte_def
        add.assoc split: bind_splits)
qed

lemma mask_byte: "(0xff :: u32) = mask 8"
  by (simp add: mask_eq_exp_minus_1)

lemma mask_word: "(0xffff :: u32) = mask 16"
  by (simp add: mask_eq_exp_minus_1)

lemma unaligned_write_word_eq: "unaligned_write_word m a v = write_word m a (ucast v)"
proof -
  have "ucast (drop_bit 8 v) = byte_of 1 (ucast v :: u16)"
    by (rule bit_word_eqI) (auto simp: byte_of_def bit_simps)
  moreover have "ucast (v AND 0xff) = byte_of 0 (ucast v :: u16)"
    unfolding mask_byte by (rule bit_word_eqI) (auto simp: byte_of_def bit_simps)
  ultimately show ?thesis
    by (auto simp: unaligned_write_word_def write_word_def write_byte_def)
qed

lemma unaligned_write_long_eq: "unaligned_write_long m a v = write_long m a v"
proof -
  have "byte_of 1 (ucast (drop_bit 16 v) :: u16) = byte_of 3 v"
       "byte_of 0 (ucast (drop_bit 16 v) :: u16) = byte_of 2 v"
       "byte_of 1 (ucast (v AND 0xffff) :: u16) = byte_of 1 v"
       "byte_of 0 (ucast (v AND 0xffff) :: u16) = byte_of 0 v"
    unfolding mask_word by (rule bit_word_eqI, auto simp: byte_of_def bit_simps)+
  then show ?thesis
    by (auto simp: unaligned_write_long_def unaligned_write_word_eq write_word_def write_long_def
        add.assoc)
qed

subsection \<open>Block operations of libc/string.c\<close>

text \<open>
  \<open>count\<close> is a \<open>size_t\<close>; the loops count it down, so they are structural in it. \<open>memmove\<close>
  copies upwards when \<open>dest <= src\<close> and downwards from the ends otherwise.
\<close>

fun memset_loop :: "memory \<Rightarrow> ucell \<Rightarrow> u8 \<Rightarrow> nat \<Rightarrow> memory option" where
  "memset_loop m xs c 0 = Some m"
| "memset_loop m xs c (Suc n) = do { m \<leftarrow> write_byte m xs c; memset_loop m (xs + 1) c n }"

definition memset :: "memory \<Rightarrow> ucell \<Rightarrow> u32 \<Rightarrow> u32 \<Rightarrow> memory option" where
  "memset m s c count = memset_loop m s (ucast c) (unat count)"

fun copy_up :: "memory \<Rightarrow> ucell \<Rightarrow> ucell \<Rightarrow> nat \<Rightarrow> memory option" where
  "copy_up m tmp s 0 = Some m"
| "copy_up m tmp s (Suc n) =
     do { v \<leftarrow> read_byte m s; m \<leftarrow> write_byte m tmp v; copy_up m (tmp + 1) (s + 1) n }"

fun copy_down :: "memory \<Rightarrow> ucell \<Rightarrow> ucell \<Rightarrow> nat \<Rightarrow> memory option" where
  "copy_down m tmp s 0 = Some m"
| "copy_down m tmp s (Suc n) =
     do { v \<leftarrow> read_byte m (s - 1); m \<leftarrow> write_byte m (tmp - 1) v; copy_down m (tmp - 1) (s - 1) n }"

definition memcpy :: "memory \<Rightarrow> ucell \<Rightarrow> ucell \<Rightarrow> u32 \<Rightarrow> memory option" where
  "memcpy m dest src count = copy_up m dest src (unat count)"

definition memmove :: "memory \<Rightarrow> ucell \<Rightarrow> ucell \<Rightarrow> u32 \<Rightarrow> memory option" where
  "memmove m dest src count =
     (if dest \<le> src then copy_up m dest src (unat count)
      else copy_down m (dest + count) (src + count) (unat count))"

fun memcmp_loop :: "memory \<Rightarrow> ucell \<Rightarrow> ucell \<Rightarrow> nat \<Rightarrow> int \<Rightarrow> int option" where
  "memcmp_loop m su1 su2 0 res = Some res"
| "memcmp_loop m su1 su2 (Suc n) res =
     do { a \<leftarrow> read_byte m su1; b \<leftarrow> read_byte m su2;
          let res = uint a - uint b;
          if res \<noteq> 0 then Some res else memcmp_loop m (su1 + 1) (su2 + 1) n res }"

definition memcmp :: "memory \<Rightarrow> ucell \<Rightarrow> ucell \<Rightarrow> u32 \<Rightarrow> int option" where
  "memcmp m cs ct count = memcmp_loop m cs ct (unat count) 0"

text \<open>
  A copy of \<open>n\<close> bytes from \<open>src\<close> to \<open>dest\<close>, stated on the memory before and after, whatever
  the overlap. \<open>linear\<close>: the region does not run past the end of the address space.
\<close>

definition linear :: "ucell \<Rightarrow> nat \<Rightarrow> bool" where
  "linear a n \<longleftrightarrow> unat a + n \<le> 2 ^ 32"

definition copied :: "memory \<Rightarrow> ucell \<Rightarrow> ucell \<Rightarrow> nat \<Rightarrow> memory \<Rightarrow> bool" where
  "copied m dest src n m' \<longleftrightarrow>
     (\<forall>x. m' x = (if in_region dest n x then m (src + (x - dest)) else m x))"

lemma in_region_0 [simp]: "\<not> in_region a 0 x"
  by (simp add: in_region_def)

lemma linear_Suc:
  assumes "linear a (Suc n)" and "n \<noteq> 0"
  shows "linear (a + 1) n" and "unat (a + 1) = unat a + 1"
proof -
  have "unat a + unat (1 :: ucell) < 2 ^ LENGTH(32)"
    using assms by (simp add: linear_def)
  then have "unat (a + 1) = unat a + unat (1 :: ucell)" by (rule unat_add_no_wrap)
  then show "unat (a + 1) = unat a + 1" by simp
  then show "linear (a + 1) n" using assms by (simp add: linear_def)
qed

lemma in_region_linear:
  assumes "linear a n"
  shows "in_region a n x \<longleftrightarrow> unat a \<le> unat x \<and> unat x < unat a + n"
proof (cases "a \<le> x")
  case True
  then have "unat (x - a) = unat x - unat a" and "unat a \<le> unat x"
    by (simp_all add: unat_sub word_le_nat_alt)
  then show ?thesis by (auto simp: in_region_def)
next
  case False
  then have xa: "unat x < unat a" by (simp add: word_le_nat_alt)
  have "unat (x - a) = 2 ^ 32 + unat x - unat a"
    using xa by (simp add: unat_sub_if')
  then have "n \<le> unat (x - a)" using assms by (simp add: linear_def)
  with xa show ?thesis by (simp add: in_region_def)
qed

lemma mapped_iff:
  assumes "n \<le> 2 ^ 32"
  shows "mapped m a n \<longleftrightarrow> (\<forall>x. in_region a n x \<longrightarrow> m x \<noteq> None)"
  unfolding mapped_def in_region_offset [OF assms] by blast

lemma linear_le: "linear a n \<Longrightarrow> n \<le> 2 ^ 32"
  by (simp add: linear_def)

lemma unat_offset_linear:
  assumes "linear a n" and "i < n"
  shows "unat (a + of_nat i) = unat a + i"
proof -
  have i: "unat (of_nat i :: ucell) = i"
    using assms by (intro unat_of_nat_small) (simp add: linear_def)
  then have "unat a + unat (of_nat i :: ucell) < 2 ^ LENGTH(32)"
    using assms by (simp add: linear_def)
  from unat_add_no_wrap [OF this] i show ?thesis by simp
qed

lemma in_region_imp_offset:
  assumes "linear a n" and "in_region a n x"
  obtains i where "i < n" and "x = a + of_nat i" and "unat x = unat a + i"
proof -
  from assms(2) obtain i where i: "i < n" "x = a + of_nat i"
    using in_region_offset [OF linear_le [OF assms(1)]] by blast
  then have "unat x = unat a + i" by (simp add: unat_offset_linear [OF assms(1)])
  with i that show ?thesis by blast
qed

lemma copy_source_neq:
  assumes "linear s n" and "i < n" and "unat s + i \<noteq> unat d"
  shows "s + of_nat i \<noteq> d"
  using assms unat_offset_linear [OF assms(1,2)] by metis

lemma copy_up_correct:
  assumes "linear d n" and "linear s n" and "mapped m d n" and "mapped m s n" and "d \<le> s"
  shows "\<exists>m'. copy_up m d s n = Some m' \<and> copied m d s n m'"
  using assms
proof (induction n arbitrary: m d s)
  case 0
  then show ?case by (simp add: copied_def)
next
  case (Suc n)
  note lin = Suc.prems(1,2)
  from Suc.prems(3,4) obtain v w where v: "m s = Some v" and w: "m d = Some w"
    by (fastforce simp: mapped_def)
  let ?m1 = "m(d \<mapsto> v)"
  have step: "copy_up m d s (Suc n) = copy_up ?m1 (d + 1) (s + 1) n"
    using v w by (simp add: read_byte_def write_byte_def)
  show ?case
  proof (cases "n = 0")
    case True
    then show ?thesis using step v
      by (auto simp: copied_def in_region_numeral_simps)
  next
    case False
    note ld = linear_Suc [OF lin(1) False] and ls = linear_Suc [OF lin(2) False]
    have map1: "mapped ?m1 (a + 1) n" if "mapped m a (Suc n)" for a
      using that by (fastforce simp: mapped_def add.assoc)
    have "d + 1 \<le> s + 1"
      using ld(2) ls(2) Suc.prems(5) by (simp add: word_le_nat_alt)
    from Suc.IH [OF ld(1) ls(1) map1 [OF Suc.prems(3)] map1 [OF Suc.prems(4)] this]
    obtain m' where m': "copy_up ?m1 (d + 1) (s + 1) n = Some m'"
      and c: "copied ?m1 (d + 1) (s + 1) n m'" by blast
    have "m' x = (if in_region d (Suc n) x then m (s + (x - d)) else m x)" for x
    proof (cases "in_region (d + 1) n x")
      case True
      then obtain i where i: "i < n" "x = d + 1 + of_nat i" "unat x = unat (d + 1) + i"
        using in_region_imp_offset [OF ld(1)] by metis
      have "s + of_nat (Suc i) \<noteq> d"
        using i Suc.prems(5) by (intro copy_source_neq [OF lin(2)]) (auto simp: word_le_nat_alt)
      then have "m' x = m (s + (x - d))"
        using c True i by (simp add: copied_def algebra_simps)
      moreover have "in_region d (Suc n) x"
        using i ld(2) by (simp add: in_region_linear [OF lin(1)])
      ultimately show ?thesis by simp
    next
      case False
      then have "m' x = ?m1 x" using c by (simp add: copied_def)
      moreover have "in_region d (Suc n) x \<longleftrightarrow> x = d"
        using False ld(2) word_unat_eq_iff [of x d]
        by (auto simp: in_region_linear [OF lin(1)] in_region_linear [OF ld(1)])
      ultimately show ?thesis using v by simp
    qed
    then show ?thesis using m' step by (simp add: copied_def)
  qed
qed

lemma copy_down_correct:
  assumes "linear d n" and "linear s n" and "mapped m d n" and "mapped m s n" and "s \<le> d"
  shows "\<exists>m'. copy_down m (d + of_nat n) (s + of_nat n) n = Some m' \<and> copied m d s n m'"
  using assms
proof (induction n arbitrary: m)
  case 0
  then show ?case by (simp add: copied_def)
next
  case (Suc n)
  note lin = Suc.prems(1,2)
  have ld: "linear d n" and ls: "linear s n" using lin by (simp_all add: linear_def)
  from Suc.prems(3,4) obtain v w where v: "m (s + of_nat n) = Some v" and w: "m (d + of_nat n) = Some w"
    by (fastforce simp: mapped_def)
  let ?m1 = "m(d + of_nat n \<mapsto> v)"
  have step: "copy_down m (d + of_nat (Suc n)) (s + of_nat (Suc n)) (Suc n)
                = copy_down ?m1 (d + of_nat n) (s + of_nat n) n"
    using v w by (simp add: read_byte_def write_byte_def)
  have map1: "mapped ?m1 a n" if "mapped m a (Suc n)" for a
    using that by (simp add: mapped_def)
  from Suc.IH [OF ld ls map1 [OF Suc.prems(3)] map1 [OF Suc.prems(4)] Suc.prems(5)]
  obtain m' where m': "copy_down ?m1 (d + of_nat n) (s + of_nat n) n = Some m'"
    and c: "copied ?m1 d s n m'" by blast
  have un: "unat (d + of_nat n) = unat d + n" by (rule unat_offset_linear [OF lin(1)]) simp
  have "m' x = (if in_region d (Suc n) x then m (s + (x - d)) else m x)" for x
  proof (cases "in_region d n x")
    case True
    then obtain i where i: "i < n" "x = d + of_nat i" "unat x = unat d + i"
      using in_region_imp_offset [OF ld] by metis
    have "s + of_nat i \<noteq> d + of_nat n"
      using i Suc.prems(5) un by (intro copy_source_neq [OF ls]) (auto simp: word_le_nat_alt)
    then have "m' x = m (s + (x - d))" using c True i by (simp add: copied_def)
    moreover have "in_region d (Suc n) x"
      using True by (simp add: in_region_def)
    ultimately show ?thesis by simp
  next
    case False
    then have "m' x = ?m1 x" using c by (simp add: copied_def)
    moreover have "in_region d (Suc n) x \<longleftrightarrow> x = d + of_nat n"
      using False un word_unat_eq_iff [of x "d + of_nat n"]
      by (auto simp: in_region_linear [OF lin(1)] in_region_linear [OF ld])
    ultimately show ?thesis using v by simp
  qed
  then show ?case using m' step by (simp add: copied_def)
qed

lemma memset_loop_correct:
  assumes "n \<le> 2 ^ 32" and "mapped m a n"
  shows "\<exists>m'. memset_loop m a c n = Some m' \<and>
           (\<forall>x. m' x = (if in_region a n x then Some c else m x))"
  using assms
proof (induction n arbitrary: m a)
  case 0
  then show ?case by simp
next
  case (Suc n)
  from Suc.prems obtain w where w: "m a = Some w" by (fastforce simp: mapped_def)
  have "mapped (m(a \<mapsto> c)) (a + 1) n"
    using Suc.prems(2) by (fastforce simp: mapped_def add.assoc)
  with Suc obtain m' where m': "memset_loop (m(a \<mapsto> c)) (a + 1) c n = Some m'"
    and c: "\<forall>x. m' x = (if in_region (a + 1) n x then Some c else (m(a \<mapsto> c)) x)"
    by fastforce
  have "in_region a (Suc n) x \<longleftrightarrow> in_region (a + 1) n x \<or> x = a" for x
  proof -
    have "(\<exists>i < Suc n. x = a + of_nat i) \<longleftrightarrow> x = a \<or> (\<exists>i < n. x = a + 1 + of_nat i)"
      by (auto simp: less_Suc_eq_0_disj add.assoc)
    then show ?thesis using Suc.prems(1) by (auto simp: in_region_offset)
  qed
  with c have "\<forall>x. m' x = (if in_region a (Suc n) x then Some c else m x)" by auto
  with m' w show ?case by (simp add: write_byte_def)
qed

subsection \<open>Copies between separate regions\<close>

lemma in_region_add:
  assumes "k < n" and "n \<le> 2 ^ 32"
  shows "in_region a n (a + of_nat k)"
  using assms in_region_offset [OF assms(2)] by blast

lemma in_region_Suc:
  assumes "Suc n \<le> 2 ^ 32"
  shows "in_region a (Suc n) x \<longleftrightarrow> x = a \<or> in_region (a + 1) n x"
proof -
  have "(\<exists>i < Suc n. x = a + of_nat i) \<longleftrightarrow> x = a \<or> (\<exists>i < n. x = a + 1 + of_nat i)"
    by (auto simp: less_Suc_eq_0_disj add.assoc)
  then show ?thesis using assms by (simp add: in_region_offset)
qed

lemma copy_up_apart:
  assumes "n \<le> 2 ^ 32" and "mapped m d n" and "mapped m s n" and "apart d n s n"
  shows "\<exists>m'. copy_up m d s n = Some m' \<and> copied m d s n m'"
  using assms
proof (induction n arbitrary: m d s)
  case 0
  then show ?case by (simp add: copied_def)
next
  case (Suc n)
  from Suc.prems(2,3) obtain v w where v: "m s = Some v" and w: "m d = Some w"
    by (fastforce simp: mapped_def)
  let ?m1 = "m(d \<mapsto> v)"
  have reg: "in_region a (Suc n) x \<longleftrightarrow> x = a \<or> in_region (a + 1) n x" for a x
    using Suc.prems(1) by (rule in_region_Suc)
  have step: "copy_up m d s (Suc n) = copy_up ?m1 (d + 1) (s + 1) n"
    using v w by (simp add: read_byte_def write_byte_def)
  have map1: "mapped ?m1 (a + 1) n" if "mapped m a (Suc n)" for a
    using that by (fastforce simp: mapped_def add.assoc)
  have "apart (d + 1) n (s + 1) n" using Suc.prems(4) by (auto simp: apart_def reg)
  with Suc.IH [OF Suc_leD [OF Suc.prems(1)] map1 [OF Suc.prems(2)] map1 [OF Suc.prems(3)]]
  obtain m' where m': "copy_up ?m1 (d + 1) (s + 1) n = Some m'" and c: "copied ?m1 (d + 1) (s + 1) n m'"
    by blast
  have "m' x = (if in_region d (Suc n) x then m (s + (x - d)) else m x)" for x
  proof (cases "in_region (d + 1) n x")
    case True
    have "in_region s (Suc n) (s + (x - d))" using True reg [of d x] by (simp add: in_region_def)
    moreover have "in_region d (Suc n) d" by (simp add: reg)
    ultimately have "s + (x - d) \<noteq> d" using Suc.prems(4) unfolding apart_def by metis
    moreover have "m' x = ?m1 (s + 1 + (x - (d + 1)))" using c True by (simp add: copied_def)
    moreover have "s + 1 + (x - (d + 1)) = s + (x - d)" by (simp add: algebra_simps)
    ultimately show ?thesis using True by (simp add: reg)
  next
    case False
    then have "m' x = ?m1 x" using c by (simp add: copied_def)
    then show ?thesis using False v by (simp add: reg)
  qed
  then show ?case using m' step by (simp add: copied_def)
qed

lemma memcpy_apart:
  assumes "n < 2 ^ 32" and "mapped m d n" and "mapped m s n" and "apart d n s n"
  shows "\<exists>m'. memcpy m d s (of_nat n) = Some m' \<and> copied m d s n m'"
  using copy_up_apart [of n m d s] assms by (simp add: memcpy_def unat_of_nat_small)

lemma mapped_sub: "mapped m a n \<Longrightarrow> o' + l \<le> n \<Longrightarrow> mapped m (a + of_nat o') l"
  unfolding mapped_def
proof (intro allI impI)
  fix i
  assume m: "\<forall>i<n. m (a + of_nat i) \<noteq> None" and le: "o' + l \<le> n" and i: "i < l"
  from m le i have "m (a + of_nat (o' + i)) \<noteq> None" by (meson add_less_cancel_left order_less_le_trans)
  then show "m (a + of_nat o' + of_nat i) \<noteq> None" by (simp add: add.assoc)
qed

end
