(* ===== verification/Forth_State.thy ===== *)
theory Forth_State
  imports Memory
begin

text \<open>
  The state of the Forth engine: the two stacks of \<open>kernel/stack.c\<close> with the access functions of
  \<open>include/kernel/stack.h\<close>, the program counter and debugger list of \<open>kernel/forth.c\<close>, the
  dictionary variables of \<open>kernel/dict.c\<close>, and the byte memory. The stacks are C arrays of 512
  cells: an index outside 0..511 gives \<open>None\<close>. Slot 0 is never used by a well-formed stack: the
  first item is \<open>dstack[1]\<close>.

  Configuration: \<open>BITS = 32\<close>, big-endian, host and target width equal, not \<open>FCOMPILER\<close> (the
  kernel that runs on the machine, not the bootstrap compiler), no debugging output. Signed cell
  arithmetic is the two's complement arithmetic of the machine.
\<close>

subsection \<open>State\<close>

text \<open>\<open>dx_id\<close> stands for the address of the list node.\<close>

record debug_xt =
  dx_id :: nat
  xt_docol :: ucell
  xt_semis :: ucell
  dbg_mode :: nat

record 'w fstate =
  dstackcnt :: int
  dstack :: "int \<Rightarrow> cell"
  rstackcnt :: int
  rstack :: "int \<Rightarrow> cell"
  dbgrstackcnt :: int
  PC :: ucell
  mem :: memory
  dict :: ucell
  dicthead :: cell
  dictlimit :: cell
  last_word :: ucell
  interruptforth :: "32 word"
  debug_xt_list :: "debug_xt list"
  dbg_fresh :: nat
  myselfptr :: ucell
  world :: 'w

text \<open>The sentinel \<open>debug_xt_eol\<close> ends the debugger's list; it is a member of the list here.\<close>

definition debug_xt_eol :: debug_xt where
  "debug_xt_eol = \<lparr>dx_id = 0, xt_docol = 0, xt_semis = 0, dbg_mode = 0\<rparr>"

text \<open>The static initialisers: the state before anything runs, over given memory and outside.\<close>

definition init_fstate :: "memory \<Rightarrow> 'w \<Rightarrow> 'w fstate" where
  "init_fstate m w =
     \<lparr>dstackcnt = 0, dstack = (\<lambda>_. 0), rstackcnt = 0, rstack = (\<lambda>_. 0), dbgrstackcnt = 0,
      PC = 0, mem = m, dict = 0, dicthead = 0, dictlimit = 0, last_word = 0,
      interruptforth = 0, debug_xt_list = [debug_xt_eol], dbg_fresh = 1, myselfptr = 0, world = w\<rparr>"

text \<open>
  What the kernel gets from outside: the addresses the linker gives to static objects (the
  trampoline, the data stack, the console buffer, the name buffer), the console and port routines of the
  architecture, and the C functions a \<open>call\<close> can reach. \<open>'w\<close> is the state of that outside.
\<close>

record 'w env =
  trampoline :: ucell
  dstack_addr :: ucell
  console_buf :: ucell
  xtname :: ucell
  putchar :: "32 word \<Rightarrow> 'w \<Rightarrow> 'w"
  getchar :: "'w \<Rightarrow> 32 word \<times> 'w"
  availchar :: "'w \<Rightarrow> 32 word \<times> 'w"
  inb :: "32 word \<Rightarrow> 'w \<Rightarrow> u8 \<times> 'w"
  inw :: "32 word \<Rightarrow> 'w \<Rightarrow> u16 \<times> 'w"
  inl :: "32 word \<Rightarrow> 'w \<Rightarrow> u32 \<times> 'w"
  outb :: "u8 \<Rightarrow> 32 word \<Rightarrow> 'w \<Rightarrow> 'w"
  outw :: "u16 \<Rightarrow> 32 word \<Rightarrow> 'w \<Rightarrow> 'w"
  outl :: "u32 \<Rightarrow> 32 word \<Rightarrow> 'w \<Rightarrow> 'w"
  printk :: "string \<Rightarrow> u32 list \<Rightarrow> 'w \<Rightarrow> 'w"
  cfunction :: "ucell \<Rightarrow> 'w fstate \<Rightarrow> 'w fstate option"

text \<open>
  The least such outside, with nothing attached: reads give 0, writes are lost, no C function can
  be called. The static objects lie in the first two kilobytes.
\<close>

definition bare_env :: "unit env" where
  "bare_env =
     \<lparr>trampoline = 0x100, dstack_addr = 0x1000, console_buf = 0x200, xtname = 0x400,
      putchar = (\<lambda>_ w. w), getchar = (\<lambda>w. (0, w)), availchar = (\<lambda>w. (1, w)),
      inb = (\<lambda>_ w. (0, w)), inw = (\<lambda>_ w. (0, w)), inl = (\<lambda>_ w. (0, w)),
      outb = (\<lambda>_ _ w. w), outw = (\<lambda>_ _ w. w), outl = (\<lambda>_ _ w. w),
      printk = (\<lambda>_ _ w. w), cfunction = (\<lambda>_ _. None)\<rparr>"

subsection \<open>Stack access: include/kernel/stack.h\<close>

abbreviation dstacksize :: int where
  "dstacksize \<equiv> 512"

abbreviation rstacksize :: int where
  "rstacksize \<equiv> 512"

definition in_stack :: "int \<Rightarrow> bool" where
  "in_stack i \<longleftrightarrow> 0 \<le> i \<and> i < 512"

definition dstack_get :: "int \<Rightarrow> 'w fstate \<Rightarrow> cell option" where
  "dstack_get i s = (if in_stack i then Some (dstack s i) else None)"

definition dstack_set :: "int \<Rightarrow> cell \<Rightarrow> 'w fstate \<Rightarrow> 'w fstate option" where
  "dstack_set i v s = (if in_stack i then Some (s\<lparr>dstack := (dstack s)(i := v)\<rparr>) else None)"

definition rstack_get :: "int \<Rightarrow> 'w fstate \<Rightarrow> cell option" where
  "rstack_get i s = (if in_stack i then Some (rstack s i) else None)"

definition PUSH :: "ucell \<Rightarrow> 'w fstate \<Rightarrow> 'w fstate option" where
  "PUSH v s = dstack_set (dstackcnt s + 1) v (s\<lparr>dstackcnt := dstackcnt s + 1\<rparr>)"

definition POP :: "'w fstate \<Rightarrow> (ucell \<times> 'w fstate) option" where
  "POP s = do { v \<leftarrow> dstack_get (dstackcnt s) s; Some (v, s\<lparr>dstackcnt := dstackcnt s - 1\<rparr>) }"

definition DROP :: "'w fstate \<Rightarrow> 'w fstate option" where
  "DROP s = Some (s\<lparr>dstackcnt := dstackcnt s - 1\<rparr>)"

definition DDROP :: "'w fstate \<Rightarrow> 'w fstate option" where
  "DDROP s = Some (s\<lparr>dstackcnt := dstackcnt s - 2\<rparr>)"

definition DPUSH :: "ducell \<Rightarrow> 'w fstate \<Rightarrow> 'w fstate option" where
  "DPUSH v s = do { s \<leftarrow> PUSH (ucast v) s; PUSH (ucast (drop_bit 32 v)) s }"

definition DPOP :: "'w fstate \<Rightarrow> (ducell \<times> 'w fstate) option" where
  "DPOP s = do { (hi, s) \<leftarrow> POP s; (lo, s) \<leftarrow> POP s; Some (push_bit 32 (ucast hi) OR ucast lo, s) }"

definition GETTOS :: "'w fstate \<Rightarrow> ucell option" where
  "GETTOS s = dstack_get (dstackcnt s) s"

definition GETITEM :: "int \<Rightarrow> 'w fstate \<Rightarrow> cell option" where
  "GETITEM n s = dstack_get (dstackcnt s - n) s"

definition PUSHR :: "ucell \<Rightarrow> 'w fstate \<Rightarrow> 'w fstate option" where
  "PUSHR v s =
     (if in_stack (rstackcnt s + 1)
      then Some (s\<lparr>rstackcnt := rstackcnt s + 1, rstack := (rstack s)(rstackcnt s + 1 := v)\<rparr>)
      else None)"

definition POPR :: "'w fstate \<Rightarrow> (ucell \<times> 'w fstate) option" where
  "POPR s = do { v \<leftarrow> rstack_get (rstackcnt s) s; Some (v, s\<lparr>rstackcnt := rstackcnt s - 1\<rparr>) }"

definition GETTORS :: "'w fstate \<Rightarrow> ucell option" where
  "GETTORS s = rstack_get (rstackcnt s) s"

lemmas stack_defs = dstack_get_def dstack_set_def rstack_get_def PUSH_def POP_def DROP_def DDROP_def
  DPUSH_def DPOP_def GETTOS_def GETITEM_def PUSHR_def POPR_def GETTORS_def in_stack_def

subsection \<open>The stacks as lists\<close>

text \<open>The items \<open>f c, f (c - 1), \<dots>, f 1\<close>, top first.\<close>

definition items :: "(int \<Rightarrow> 'a) \<Rightarrow> int \<Rightarrow> 'a list" where
  "items f c = map (\<lambda>i. f (c - int i)) [0..<nat c]"

definition ds :: "'w fstate \<Rightarrow> cell list" where
  "ds s = items (dstack s) (dstackcnt s)"

definition rs :: "'w fstate \<Rightarrow> cell list" where
  "rs s = items (rstack s) (rstackcnt s)"

definition ds_ok :: "'w fstate \<Rightarrow> bool" where
  "ds_ok s \<longleftrightarrow> 0 \<le> dstackcnt s \<and> dstackcnt s < dstacksize"

definition rs_ok :: "'w fstate \<Rightarrow> bool" where
  "rs_ok s \<longleftrightarrow> 0 \<le> rstackcnt s \<and> rstackcnt s < rstacksize"

lemma length_items [simp]: "length (items f c) = nat c"
  by (simp add: items_def)

lemma nth_items: "i < nat c \<Longrightarrow> items f c ! i = f (c - int i)"
  by (simp add: items_def)

lemma items_0 [simp]: "items f 0 = []"
  by (simp add: items_def)

lemma items_Suc:
  assumes "0 \<le> c"
  shows "items f (c + 1) = f (c + 1) # items f c"
proof (rule nth_equalityI)
  show "length (items f (c + 1)) = length (f (c + 1) # items f c)"
    using assms by simp
next
  fix i
  assume "i < length (items f (c + 1))"
  then show "items f (c + 1) ! i = (f (c + 1) # items f c) ! i"
    using assms by (cases i) (simp_all add: nth_items)
qed

lemma items_pred:
  assumes "0 < c"
  shows "items f c = f c # items f (c - 1)"
  using items_Suc [of "c - 1" f] assms by simp

lemma items_upd_above [simp]: "c < k \<Longrightarrow> items (f(k := v)) c = items f c"
  by (simp add: items_def)

lemma items_Cons_iff:
  assumes "0 \<le> c"
  shows "items f c = x # xs \<longleftrightarrow> 0 < c \<and> f c = x \<and> items f (c - 1) = xs"
  using assms items_pred [of c f] by (cases "c = 0") auto

lemma ds_update [simp]:
  "ds (s\<lparr>dstackcnt := c, dstack := f\<rparr>) = items f c"
  "ds (s\<lparr>dstackcnt := c\<rparr>) = items (dstack s) c"
  by (simp_all add: ds_def)

lemma rs_update [simp]:
  "rs (s\<lparr>rstackcnt := c, rstack := f\<rparr>) = items f c"
  "rs (s\<lparr>rstackcnt := c\<rparr>) = items (rstack s) c"
  by (simp_all add: rs_def)

lemma length_ds: "ds_ok s \<Longrightarrow> int (length (ds s)) = dstackcnt s"
  by (simp add: ds_ok_def ds_def)

lemma length_rs: "rs_ok s \<Longrightarrow> int (length (rs s)) = rstackcnt s"
  by (simp add: rs_ok_def rs_def)

subsection \<open>What a stack promises\<close>

text \<open>
  The contract both stacks satisfy: with at most 511 items (slots 1..511 of the array) a push
  succeeds exactly when there is room, a pop returns the last item pushed.
\<close>

locale bounded_stack =
  fixes push :: "'v \<Rightarrow> 's \<Rightarrow> 's option"
    and pop :: "'s \<Rightarrow> ('v \<times> 's) option"
    and view :: "'s \<Rightarrow> 'v list"
    and ok :: "'s \<Rightarrow> bool"
    and cap :: nat
  assumes view_le: "ok s \<Longrightarrow> length (view s) \<le> cap"
    and push_room: "ok s \<Longrightarrow> length (view s) < cap \<Longrightarrow> \<exists>s'. push v s = Some s' \<and> ok s' \<and> view s' = v # view s"
    and push_full: "ok s \<Longrightarrow> length (view s) = cap \<Longrightarrow> push v s = None"
    and pop_item: "ok s \<Longrightarrow> view s = v # vs \<Longrightarrow> \<exists>s'. pop s = Some (v, s') \<and> ok s' \<and> view s' = vs"
begin

lemma push_iff: "ok s \<Longrightarrow> push v s \<noteq> None \<longleftrightarrow> length (view s) < cap"
  using view_le [of s] push_full [of s v] push_room [of s v] by (cases "length (view s) = cap") auto

lemma push_pop:
  assumes "ok s" and "push v s = Some s'"
  shows "ok s' \<and> view s' = v # view s \<and> (\<exists>s''. pop s' = Some (v, s'') \<and> ok s'' \<and> view s'' = view s)"
proof -
  from assms push_iff [of s v] have "length (view s) < cap" by simp
  with push_room [OF assms(1), of v] assms(2) have s': "ok s'" "view s' = v # view s" by auto
  from pop_item [OF this] s' show ?thesis by blast
qed

lemma push2_pop2:
  assumes "ok s" and "push v s = Some s1" and "push w s1 = Some s2"
  shows "\<exists>s3 s4. pop s2 = Some (w, s3) \<and> pop s3 = Some (v, s4) \<and> ok s4 \<and> view s4 = view s"
proof -
  from push_pop [OF assms(1,2)] have 1: "ok s1" "view s1 = v # view s" by auto
  from push_pop [OF 1(1) assms(3)] obtain s3 where 3: "pop s2 = Some (w, s3)" "ok s3" "view s3 = view s1"
    by blast
  from pop_item [OF 3(2)] 1(2) 3(3) have "\<exists>s4. pop s3 = Some (v, s4) \<and> ok s4 \<and> view s4 = view s"
    by simp
  with 3(1) show ?thesis by blast
qed

end

interpretation dstk: bounded_stack PUSH POP ds ds_ok 511
proof
  fix s :: "'a fstate" and v vs
  show "ds_ok s \<Longrightarrow> length (ds s) \<le> 511"
    by (auto simp: ds_ok_def ds_def nat_le_iff)
  show "ds_ok s \<Longrightarrow> length (ds s) < 511 \<Longrightarrow> \<exists>s'. PUSH v s = Some s' \<and> ds_ok s' \<and> ds s' = v # ds s"
    by (auto simp: stack_defs ds_ok_def ds_def items_Suc)
  show "ds_ok s \<Longrightarrow> length (ds s) = 511 \<Longrightarrow> PUSH v s = None"
    by (simp add: stack_defs ds_ok_def ds_def)
  show "ds_ok s \<Longrightarrow> ds s = v # vs \<Longrightarrow> \<exists>s'. POP s = Some (v, s') \<and> ds_ok s' \<and> ds s' = vs"
    by (auto simp: stack_defs ds_ok_def ds_def items_Cons_iff)
qed

interpretation rstk: bounded_stack PUSHR POPR rs rs_ok 511
proof
  fix s :: "'a fstate" and v vs
  show "rs_ok s \<Longrightarrow> length (rs s) \<le> 511"
    by (auto simp: rs_ok_def rs_def nat_le_iff)
  show "rs_ok s \<Longrightarrow> length (rs s) < 511 \<Longrightarrow> \<exists>s'. PUSHR v s = Some s' \<and> rs_ok s' \<and> rs s' = v # rs s"
    by (auto simp: stack_defs rs_ok_def rs_def items_Suc)
  show "rs_ok s \<Longrightarrow> length (rs s) = 511 \<Longrightarrow> PUSHR v s = None"
    by (simp add: stack_defs rs_ok_def rs_def)
  show "rs_ok s \<Longrightarrow> rs s = v # vs \<Longrightarrow> \<exists>s'. POPR s = Some (v, s') \<and> rs_ok s' \<and> rs s' = vs"
    by (auto simp: stack_defs rs_ok_def rs_def items_Cons_iff)
qed

lemma double_cell_join: "push_bit 32 (ucast (ucast (drop_bit 32 v) :: ucell)) OR ucast (ucast v :: ucell) = (v :: ducell)"
  by (rule bit_word_eqI) (auto simp: bit_simps)

text \<open>
  C9: a double cell pushed with \<open>DPUSH\<close> takes two items, low cell first, and \<open>DPOP\<close> gives it back
  and leaves the stack as it was.
\<close>

theorem DPUSH_DPOP:
  assumes "ds_ok s" and "length (ds s) < 510"
  shows "\<exists>s' s''. DPUSH d s = Some s' \<and> ds s' = ucast (drop_bit 32 d) # ucast d # ds s \<and>
           DPOP s' = Some (d, s'') \<and> ds_ok s'' \<and> ds s'' = ds s"
proof -
  from assms dstk.push_room [of s "ucast d"] obtain s1 where
    1: "PUSH (ucast d) s = Some s1" "ds_ok s1" "ds s1 = ucast d # ds s" by auto
  from 1 assms dstk.push_room [of s1 "ucast (drop_bit 32 d)"] obtain s2 where
    2: "PUSH (ucast (drop_bit 32 d)) s1 = Some s2" "ds s2 = ucast (drop_bit 32 d) # ds s1" by auto
  from dstk.push2_pop2 [OF assms(1) 1(1) 2(1)] obtain s3 s4 where
    "POP s2 = Some (ucast (drop_bit 32 d), s3)" "POP s3 = Some (ucast d, s4)" "ds_ok s4" "ds s4 = ds s"
    by blast
  with 1 2 show ?thesis by (simp add: DPUSH_def DPOP_def double_cell_join)
qed

theorem DPUSH_DPOP_witness:
  "\<exists>s' s''. DPUSH 0x100000002 (init_fstate Map.empty ()) = Some s' \<and> ds s' = [1, 2] \<and>
     DPOP s' = Some (0x100000002, s'') \<and> ds s'' = []"
proof -
  have "ds_ok (init_fstate Map.empty ())" and "ds (init_fstate Map.empty ()) = []"
    by (simp_all add: init_fstate_def ds_ok_def ds_def)
  then show ?thesis using DPUSH_DPOP [of "init_fstate Map.empty ()" "0x100000002"] by auto
qed

end
