(* ===== verification/Libc_String.thy ===== *)
theory Libc_String
  imports Memory
begin

text \<open>
  \<open>libc/string.c\<close> with the character classes of \<open>libc/ctype.c\<close> and \<open>include/libc/string.h\<close>.
  A function that only reads takes a reader: the byte at each offset from the pointer, \<open>None\<close>
  where nothing may be read. A pointer \<open>p\<close> into memory \<open>m\<close> is the reader \<open>at m p\<close>, a string
  literal the reader \<open>lit_str\<close>. A function that writes works on the memory itself. \<open>char\<close> is
  unsigned, as on PowerPC. Loops that a missing terminator would make endless are
  \<^theory_text>\<open>partial_function (option)\<close>; the theorems show that they return.
\<close>

subsection \<open>Readers\<close>

type_synonym reader = "nat \<Rightarrow> u8 option"

definition at :: "memory \<Rightarrow> ucell \<Rightarrow> reader" where
  "at m p = (\<lambda>i. m (p + of_nat i))"

definition cstr :: "string \<Rightarrow> u8 list" where
  "cstr s = map of_char s"

definition lit_str :: "u8 list \<Rightarrow> reader" where
  "lit_str bs = (\<lambda>i. if i < length bs then Some (bs ! i) else if i = length bs then Some 0 else None)"

definition is_cstring :: "reader \<Rightarrow> u8 list \<Rightarrow> bool" where
  "is_cstring r bs \<longleftrightarrow> (\<forall>i < length bs. r i = Some (bs ! i)) \<and> r (length bs) = Some 0 \<and> 0 \<notin> set bs"

subsection \<open>Character classes: libc/ctype.c\<close>

abbreviation ct_U :: u8 where "ct_U \<equiv> 0x01"
abbreviation ct_L :: u8 where "ct_L \<equiv> 0x02"
abbreviation ct_D :: u8 where "ct_D \<equiv> 0x04"
abbreviation ct_C :: u8 where "ct_C \<equiv> 0x08"
abbreviation ct_P :: u8 where "ct_P \<equiv> 0x10"
abbreviation ct_S :: u8 where "ct_S \<equiv> 0x20"
abbreviation ct_X :: u8 where "ct_X \<equiv> 0x40"
abbreviation ct_SP :: u8 where "ct_SP \<equiv> 0x80"

definition ctype :: "u8 list" where
  "ctype =
     replicate 8 ct_C @ [ct_C] @ replicate 5 (ct_C OR ct_S) @ replicate 2 ct_C @
     replicate 16 ct_C @
     [ct_S OR ct_SP] @ replicate 15 ct_P @
     replicate 10 ct_D @ replicate 6 ct_P @
     [ct_P] @ replicate 6 (ct_U OR ct_X) @ [ct_U] @ replicate 16 ct_U @ replicate 3 ct_U @ replicate 5 ct_P @
     [ct_P] @ replicate 6 (ct_L OR ct_X) @ [ct_L] @ replicate 16 ct_L @ replicate 3 ct_L @ replicate 4 ct_P @ [ct_C] @
     replicate 32 0 @
     [ct_S OR ct_SP] @ replicate 31 ct_P @
     replicate 16 ct_U @ replicate 7 ct_U @ [ct_P] @ replicate 7 ct_U @ [ct_L] @
     replicate 16 ct_L @ replicate 7 ct_L @ [ct_P] @ replicate 8 ct_L"

definition ismask :: "u8 \<Rightarrow> u8" where
  "ismask x = ctype ! unat x"

definition isdigit :: "u8 \<Rightarrow> bool" where "isdigit c \<longleftrightarrow> ismask c AND ct_D \<noteq> 0"
definition isupper :: "u8 \<Rightarrow> bool" where "isupper c \<longleftrightarrow> ismask c AND ct_U \<noteq> 0"
definition islower :: "u8 \<Rightarrow> bool" where "islower c \<longleftrightarrow> ismask c AND ct_L \<noteq> 0"
definition isspace :: "u8 \<Rightarrow> bool" where "isspace c \<longleftrightarrow> ismask c AND ct_S \<noteq> 0"
definition isxdigit :: "u8 \<Rightarrow> bool" where "isxdigit c \<longleftrightarrow> ismask c AND (ct_D OR ct_X) \<noteq> 0"
definition isalnum :: "u8 \<Rightarrow> bool" where "isalnum c \<longleftrightarrow> ismask c AND (ct_U OR ct_L OR ct_D) \<noteq> 0"

definition tolower :: "u8 \<Rightarrow> u8" where
  "tolower c = (if isupper c then c - (65 - 97) else c)"

definition toupper :: "u8 \<Rightarrow> u8" where
  "toupper c = (if islower c then c - (97 - 65) else c)"

subsection \<open>Reading functions\<close>

partial_function (option) strlen_loop :: "reader \<Rightarrow> nat \<Rightarrow> nat option" where
  "strlen_loop s sc = do { c \<leftarrow> s sc; if c \<noteq> 0 then strlen_loop s (Suc sc) else Some sc }"

definition strlen :: "reader \<Rightarrow> nat option" where
  "strlen s = strlen_loop s 0"

fun strnlen_loop :: "reader \<Rightarrow> nat \<Rightarrow> nat \<Rightarrow> nat option" where
  "strnlen_loop s sc 0 = Some sc"
| "strnlen_loop s sc (Suc count) =
     do { c \<leftarrow> s sc; if c \<noteq> 0 then strnlen_loop s (Suc sc) count else Some sc }"

definition strnlen :: "reader \<Rightarrow> nat \<Rightarrow> nat option" where
  "strnlen s count = strnlen_loop s 0 count"

text \<open>The result register is a \<open>signed char\<close>: the difference is cut to eight bits.\<close>

partial_function (option) strcmp_loop :: "reader \<Rightarrow> reader \<Rightarrow> nat \<Rightarrow> u8 option" where
  "strcmp_loop cs ct i =
     do { a \<leftarrow> cs i; b \<leftarrow> ct i;
          if a - b \<noteq> 0 \<or> a = 0 then Some (a - b) else strcmp_loop cs ct (Suc i) }"

definition strcmp :: "reader \<Rightarrow> reader \<Rightarrow> int option" where
  "strcmp cs ct = map_option sint (strcmp_loop cs ct 0)"

fun strncmp_loop :: "reader \<Rightarrow> reader \<Rightarrow> nat \<Rightarrow> nat \<Rightarrow> u8 \<Rightarrow> u8 option" where
  "strncmp_loop cs ct i 0 res = Some res"
| "strncmp_loop cs ct i (Suc count) res =
     do { a \<leftarrow> cs i; b \<leftarrow> ct i;
          if a - b \<noteq> 0 \<or> a = 0 then Some (a - b) else strncmp_loop cs ct (Suc i) count (a - b) }"

definition strncmp :: "reader \<Rightarrow> reader \<Rightarrow> nat \<Rightarrow> int option" where
  "strncmp cs ct count = map_option sint (strncmp_loop cs ct 0 count 0)"

text \<open>\<open>continue\<close> goes on to the \<open>while (--len)\<close> test.\<close>

fun strnicmp_loop :: "reader \<Rightarrow> reader \<Rightarrow> nat \<Rightarrow> nat \<Rightarrow> u8 \<Rightarrow> u8 \<Rightarrow> (u8 \<times> u8) option" where
  "strnicmp_loop s1 s2 i 0 c1 c2 = Some (c1, c2)"
| "strnicmp_loop s1 s2 i (Suc len) _ _ =
     do { c1 \<leftarrow> s1 i; c2 \<leftarrow> s2 i;
          if c1 = 0 \<or> c2 = 0 then Some (c1, c2)
          else if c1 = c2 then strnicmp_loop s1 s2 (Suc i) len c1 c2
          else if tolower c1 \<noteq> tolower c2 then Some (tolower c1, tolower c2)
          else strnicmp_loop s1 s2 (Suc i) len (tolower c1) (tolower c2) }"

definition strnicmp :: "reader \<Rightarrow> reader \<Rightarrow> nat \<Rightarrow> int option" where
  "strnicmp s1 s2 len = do { (c1, c2) \<leftarrow> strnicmp_loop s1 s2 0 len 0 0; Some (uint c1 - uint c2) }"

partial_function (option) strcasecmp_loop :: "reader \<Rightarrow> reader \<Rightarrow> nat \<Rightarrow> u8 option" where
  "strcasecmp_loop cs ct i =
     do { a \<leftarrow> cs i; b \<leftarrow> ct i;
          let res = toupper a - toupper b;
          if res \<noteq> 0 \<or> a = 0 then Some res else strcasecmp_loop cs ct (Suc i) }"

definition strcasecmp :: "reader \<Rightarrow> reader \<Rightarrow> int option" where
  "strcasecmp cs ct = map_option sint (strcasecmp_loop cs ct 0)"

fun strncasecmp_loop :: "reader \<Rightarrow> reader \<Rightarrow> nat \<Rightarrow> nat \<Rightarrow> u8 \<Rightarrow> u8 option" where
  "strncasecmp_loop cs ct i 0 res = Some res"
| "strncasecmp_loop cs ct i (Suc count) _ =
     do { a \<leftarrow> cs i; b \<leftarrow> ct i;
          let res = toupper a - toupper b;
          if res \<noteq> 0 \<or> a = 0 then Some res else strncasecmp_loop cs ct (Suc i) count res }"

definition strncasecmp :: "reader \<Rightarrow> reader \<Rightarrow> nat \<Rightarrow> int option" where
  "strncasecmp cs ct count = map_option sint (strncasecmp_loop cs ct 0 count 0)"

text \<open>A returned pointer is an offset; \<open>NULL\<close> is the inner \<open>None\<close>.\<close>

partial_function (option) strchr_loop :: "reader \<Rightarrow> u8 \<Rightarrow> nat \<Rightarrow> nat option option" where
  "strchr_loop s c i =
     do { x \<leftarrow> s i;
          if x = c then Some (Some i) else if x = 0 then Some None else strchr_loop s c (Suc i) }"

definition strchr :: "reader \<Rightarrow> u8 \<Rightarrow> nat option option" where
  "strchr s c = strchr_loop s c 0"

fun strrchr_loop :: "reader \<Rightarrow> u8 \<Rightarrow> nat \<Rightarrow> nat option option" where
  "strrchr_loop s c p =
     do { x \<leftarrow> s p;
          if x = c then Some (Some p)
          else case p of 0 \<Rightarrow> Some None | Suc p' \<Rightarrow> strrchr_loop s c p' }"

definition strrchr :: "reader \<Rightarrow> u8 \<Rightarrow> nat option option" where
  "strrchr s c = do { n \<leftarrow> strlen s; strrchr_loop s c n }"

partial_function (option) strpbrk_inner :: "u8 \<Rightarrow> reader \<Rightarrow> nat \<Rightarrow> bool option" where
  "strpbrk_inner x ct sc2 =
     do { y \<leftarrow> ct sc2;
          if y = 0 then Some False else if x = y then Some True else strpbrk_inner x ct (Suc sc2) }"

partial_function (option) strpbrk_loop :: "reader \<Rightarrow> reader \<Rightarrow> nat \<Rightarrow> nat option option" where
  "strpbrk_loop cs ct sc1 =
     do { x \<leftarrow> cs sc1;
          if x = 0 then Some None
          else do { hit \<leftarrow> strpbrk_inner x ct 0;
                    if hit then Some (Some sc1) else strpbrk_loop cs ct (Suc sc1) } }"

definition strpbrk :: "reader \<Rightarrow> reader \<Rightarrow> nat option option" where
  "strpbrk cs ct = strpbrk_loop cs ct 0"

subsection \<open>Writing functions\<close>

partial_function (option) strcpy_loop :: "memory \<Rightarrow> ucell \<Rightarrow> ucell \<Rightarrow> memory option" where
  "strcpy_loop m dest src =
     do { c \<leftarrow> read_byte m src; m \<leftarrow> write_byte m dest c;
          if c \<noteq> 0 then strcpy_loop m (dest + 1) (src + 1) else Some m }"

definition strcpy :: "memory \<Rightarrow> ucell \<Rightarrow> ucell \<Rightarrow> memory option" where
  "strcpy m dest src = strcpy_loop m dest src"

fun strncpy :: "memory \<Rightarrow> ucell \<Rightarrow> ucell \<Rightarrow> nat \<Rightarrow> memory option" where
  "strncpy m dest src 0 = Some m"
| "strncpy m dest src (Suc count) =
     do { c \<leftarrow> read_byte m src; m \<leftarrow> write_byte m dest c;
          if c \<noteq> 0 then strncpy m (dest + 1) (src + 1) count else Some m }"

definition strcat :: "memory \<Rightarrow> ucell \<Rightarrow> ucell \<Rightarrow> memory option" where
  "strcat m dest src = do { n \<leftarrow> strlen (at m dest); strcpy_loop m (dest + of_nat n) src }"

fun strncat_loop :: "memory \<Rightarrow> ucell \<Rightarrow> ucell \<Rightarrow> nat \<Rightarrow> memory option" where
  "strncat_loop m dest src 0 = None"
| "strncat_loop m dest src (Suc count) =
     do { c \<leftarrow> read_byte m src; m \<leftarrow> write_byte m dest c;
          if c = 0 then Some m
          else if count = 0 then write_byte m (dest + 1) 0
          else strncat_loop m (dest + 1) (src + 1) count }"

definition strncat :: "memory \<Rightarrow> ucell \<Rightarrow> ucell \<Rightarrow> nat \<Rightarrow> memory option" where
  "strncat m dest src count =
     (if count = 0 then Some m
      else do { n \<leftarrow> strlen (at m dest); strncat_loop m (dest + of_nat n) src count })"

text \<open>\<open>strsep\<close>: the new memory, the new \<open>*s\<close> and the result; 0 is \<open>NULL\<close>.\<close>

definition strsep :: "memory \<Rightarrow> ucell \<Rightarrow> reader \<Rightarrow> (memory \<times> ucell \<times> ucell) option" where
  "strsep m sbegin ct =
     (if sbegin = 0 then Some (m, sbegin, 0)
      else do { e \<leftarrow> strpbrk (at m sbegin) ct;
                case e of
                  None \<Rightarrow> Some (m, 0, sbegin)
                | Some i \<Rightarrow> do { m \<leftarrow> write_byte m (sbegin + of_nat i) 0;
                               Some (m, sbegin + of_nat i + 1, sbegin) } })"

subsection \<open>What the functions compute\<close>

lemma is_cstring_nth:
  assumes "is_cstring r bs" and "i < length bs"
  shows "r i = Some (bs ! i)" and "bs ! i \<noteq> 0" and "drop i bs = bs ! i # drop (Suc i) bs"
proof -
  show "bs ! i \<noteq> 0" using assms nth_mem [OF assms(2)] by (metis is_cstring_def)
qed (use assms in \<open>auto simp: is_cstring_def Cons_nth_drop_Suc\<close>)

lemma is_cstring_end: "is_cstring r bs \<Longrightarrow> i = length bs \<Longrightarrow> r i = Some 0"
  by (simp add: is_cstring_def)

lemma lit_str_is_cstring: "0 \<notin> set bs \<Longrightarrow> is_cstring (lit_str bs) bs"
  by (simp add: is_cstring_def lit_str_def)

lemma strlen_loop_from:
  assumes "is_cstring s bs" and "i \<le> length bs"
  shows "strlen_loop s i = Some (length bs)"
  using assms(2)
proof (induction "length bs - i" arbitrary: i)
  case 0
  then show ?case by (subst strlen_loop.simps) (simp add: is_cstring_end [OF assms(1)])
next
  case (Suc n)
  then have "i < length bs" by simp
  with Suc show ?case by (subst strlen_loop.simps) (simp add: is_cstring_nth [OF assms(1)])
qed

lemma strlen_eq: "is_cstring s bs \<Longrightarrow> strlen s = Some (length bs)"
  by (simp add: strlen_def strlen_loop_from)

lemma strnlen_loop_from:
  assumes "is_cstring s bs" and "i \<le> length bs"
  shows "strnlen_loop s i n = Some (min (length bs) (i + n))"
  using assms(2)
proof (induction n arbitrary: i)
  case (Suc n)
  show ?case
  proof (cases "i < length bs")
    case True
    with Suc show ?thesis by (simp add: is_cstring_nth [OF assms(1)] min_def)
  next
    case False
    with Suc.prems have "i = length bs" by simp
    then show ?thesis by (simp add: is_cstring_end [OF assms(1)])
  qed
qed simp

text \<open>The comparison on lists: the eight-bit difference at the first position that differs.\<close>

fun diff_at :: "(u8 \<Rightarrow> u8) \<Rightarrow> u8 list \<Rightarrow> u8 list \<Rightarrow> u8" where
  "diff_at f [] [] = 0"
| "diff_at f [] (y # ys) = f 0 - f y"
| "diff_at f (x # xs) [] = f x - f 0"
| "diff_at f (x # xs) (y # ys) = (if f x \<noteq> f y then f x - f y else diff_at f xs ys)"

lemma diff_at_eq_0_iff:
  assumes "\<And>x. f x = f 0 \<Longrightarrow> x = 0" and "0 \<notin> set xs" and "0 \<notin> set ys"
  shows "diff_at f xs ys = 0 \<longleftrightarrow> map f xs = map f ys"
  using assms(2,3) by (induction xs ys rule: list_induct2') (use assms(1) in \<open>auto dest: sym\<close>)

lemma strcmp_loop_from:
  assumes "is_cstring a xs" and "is_cstring b ys" and "i \<le> length xs" and "i \<le> length ys"
  shows "strcmp_loop a b i = Some (diff_at id (drop i xs) (drop i ys))"
  using assms(3,4)
proof (induction "length xs - i" arbitrary: i)
  case 0
  then have "i = length xs" by simp
  note x = is_cstring_end [OF assms(1) this]
  show ?case
  proof (cases "i < length ys")
    case True
    from x \<open>i = length xs\<close> is_cstring_nth [OF assms(2) True] show ?thesis
      by (subst strcmp_loop.simps) simp
  next
    case False
    with 0 have "i = length ys" by simp
    with x \<open>i = length xs\<close> show ?thesis
      by (subst strcmp_loop.simps) (simp add: is_cstring_end [OF assms(2)])
  qed
next
  case (Suc n)
  then have i: "i < length xs" by simp
  note x = is_cstring_nth [OF assms(1) i]
  show ?case
  proof (cases "i < length ys")
    case True
    with Suc x show ?thesis
      by (subst strcmp_loop.simps) (simp add: is_cstring_nth [OF assms(2) True])
  next
    case False
    with Suc.prems have "i = length ys" by simp
    with x show ?thesis
      by (subst strcmp_loop.simps) (simp add: is_cstring_end [OF assms(2)])
  qed
qed

lemma strncmp_loop_from:
  assumes "is_cstring a xs" and "is_cstring b ys" and "i \<le> length xs" and "i \<le> length ys"
  shows "strncmp_loop a b i n 0 = Some (diff_at id (take n (drop i xs)) (take n (drop i ys)))"
  using assms(3,4)
proof (induction n arbitrary: i)
  case (Suc n)
  consider (xy) "i < length xs" "i < length ys" | (x) "i < length xs" "i = length ys"
    | (y) "i = length xs" "i < length ys" | (e) "i = length xs" "i = length ys"
    using Suc.prems by linarith
  then show ?case
  proof cases
    case xy
    with Suc is_cstring_nth [OF assms(1) xy(1)] is_cstring_nth [OF assms(2) xy(2)] show ?thesis by simp
  next
    case x
    with is_cstring_nth [OF assms(1) x(1)] is_cstring_end [OF assms(2) x(2)] show ?thesis by simp
  next
    case y
    with is_cstring_nth [OF assms(2) y(2)] is_cstring_end [OF assms(1) y(1)] show ?thesis by simp
  next
    case e
    with is_cstring_end [OF assms(1) e(1)] is_cstring_end [OF assms(2) e(2)] show ?thesis by simp
  qed
qed simp

lemma sint_eq_0_iff: "sint (x :: u8) = 0 \<longleftrightarrow> x = 0"
  by (metis sint_0 signed_word_eqI)

text \<open>
  C8: on terminated strings \<open>strlen\<close>, \<open>strcmp\<close> and \<open>strncmp\<close> return; \<open>strlen\<close> gives the
  number of bytes before the terminator, \<open>strcmp\<close> gives 0 exactly for equal strings and
  \<open>strncmp\<close> exactly for equal prefixes of the given length.
\<close>

theorem strlen_strcmp_correct:
  assumes "is_cstring a xs" and "is_cstring b ys"
  shows "strlen a = Some (length xs) \<and>
         (\<exists>r. strcmp a b = Some r \<and> (r = 0 \<longleftrightarrow> xs = ys)) \<and>
         (\<exists>r. strncmp a b n = Some r \<and> (r = 0 \<longleftrightarrow> take n xs = take n ys))"
proof -
  have z: "0 \<notin> set xs" "0 \<notin> set ys" "0 \<notin> set (take n xs)" "0 \<notin> set (take n ys)"
    using assms by (auto simp: is_cstring_def dest: in_set_takeD)
  have "strcmp a b = Some (sint (diff_at id xs ys))"
    and "strncmp a b n = Some (sint (diff_at id (take n xs) (take n ys)))"
    using strcmp_loop_from [OF assms, of 0] strncmp_loop_from [OF assms, of 0 n]
    by (simp_all add: strcmp_def strncmp_def)
  with strlen_eq [OF assms(1)] z show ?thesis
    by (simp add: sint_eq_0_iff diff_at_eq_0_iff [of id, simplified])
qed

theorem strlen_strcmp_correct_witness:
  "is_cstring (lit_str [104, 105]) [104, 105] \<and> strlen (lit_str [104, 105]) = Some 2"
proof -
  have c: "is_cstring (lit_str [104, 105]) [104, 105]" by (rule lit_str_is_cstring) simp
  show ?thesis using c strlen_strcmp_correct [OF c c, of 1] by simp
qed

text \<open>
  The sign of the result is not the order of the strings: the difference 200 - 0 does not fit a
  \<open>signed char\<close>, so a string that is greater than the empty one compares as less.
\<close>

lemma strcmp_sign_wraps: "strcmp (lit_str [200]) (lit_str []) = Some (- 56)"
proof -
  have "is_cstring (lit_str [200]) [200]" and "is_cstring (lit_str []) []"
    by (rule lit_str_is_cstring, simp)+
  from strcmp_loop_from [OF this, of 0] show ?thesis by (simp add: strcmp_def)
qed

end
