(* ===== verification/Dict.thy ===== *)
theory Dict
  imports Forth_State Libc_String
begin

text \<open>
  \<open>kernel/dict.c\<close>: the dictionary as it lies in memory. A word's header is its name, a byte with
  the name's length plus 128, zero padding, a flag byte, the link field (the address of the link
  field of the word before it, 0 for the first) and the code field. \<open>last\<close> points to a cell with
  the address of the newest visible link field.

  Walks over memory that a malformed dictionary would make endless are
  \<^theory_text>\<open>partial_function (option)\<close>.
\<close>

subsection \<open>Headers\<close>

partial_function (option) skip_pad :: "memory \<Rightarrow> ucell \<Rightarrow> ucell \<Rightarrow> ucell option" where
  "skip_pad m d ilfa =
     do { let ilfa = ilfa - 1; b \<leftarrow> m (d + ilfa);
          if b = 0 then skip_pad m d ilfa else Some ilfa }"

definition lfa2nfa :: "'w fstate \<Rightarrow> ucell \<Rightarrow> ucell option" where
  "lfa2nfa s ilfa =
     do { let ilfa = ilfa - dict s;
          let ilfa = ilfa - 1;
          ilfa \<leftarrow> skip_pad (mem s) (dict s) ilfa;
          b \<leftarrow> mem s (dict s + ilfa);
          let ilfa = ilfa - (ucast b - 128);
          Some (ilfa + dict s) }"

definition lfa2cfa :: "ucell \<Rightarrow> ucell" where
  "lfa2cfa ilfa = ilfa + cellsize"

partial_function (option) fstrlen_loop :: "memory \<Rightarrow> ucell \<Rightarrow> ucell \<Rightarrow> ucell option" where
  "fstrlen_loop m d fstr =
     do { let fstr = fstr + 1; b \<leftarrow> m (d + fstr);
          if b < 128 then fstrlen_loop m d fstr else Some (ucast b - 128) }"

definition fstrlen :: "'w fstate \<Rightarrow> ucell \<Rightarrow> ucell option" where
  "fstrlen s fstr = fstrlen_loop (mem s) (dict s) (fstr - (dict s + 1))"

definition to_lower :: "u8 \<Rightarrow> u8" where
  "to_lower c = (if 65 \<le> c \<and> c \<le> 90 then c - 65 + 97 else c)"

text \<open>\<open>s1\<close> is a terminated C string, given by its bytes; the Forth string has no terminator.\<close>

fun fstrcmp :: "u8 list \<Rightarrow> memory \<Rightarrow> ucell \<Rightarrow> int option" where
  "fstrcmp [] m s2 = Some 0"
| "fstrcmp (c # s1) m s2 =
     do { b \<leftarrow> m s2; if to_lower c \<noteq> to_lower b then Some (- 1) else fstrcmp s1 m (s2 + 1) }"

definition fstrncpy :: "ucell \<Rightarrow> ucell \<Rightarrow> u32 \<Rightarrow> 'w fstate \<Rightarrow> 'w fstate option" where
  "fstrncpy dest src maxlen s =
     do { l \<leftarrow> fstrlen s src;
          let len = (if maxlen \<le> l then maxlen - 1 else l);
          m \<leftarrow> memcpy (mem s) dest src len;
          m \<leftarrow> write_byte m (dest + len) 0;
          Some (s\<lparr>mem := m\<rparr>) }"

subsection \<open>Search\<close>

definition word_matches :: "'w fstate \<Rightarrow> u8 list \<Rightarrow> ucell \<Rightarrow> bool option" where
  "word_matches s s1 tmplfa =
     do { nfa \<leftarrow> lfa2nfa s tmplfa;
          l \<leftarrow> fstrlen s nfa;
          if of_nat (length s1) = l then do { r \<leftarrow> fstrcmp s1 (mem s) nfa; Some (r = 0) }
          else Some False }"

partial_function (option) findword_loop :: "'w fstate \<Rightarrow> u8 list \<Rightarrow> ucell \<Rightarrow> ucell option" where
  "findword_loop s s1 tmplfa =
     (if tmplfa = 0 then Some 0
      else do { hit \<leftarrow> word_matches s s1 tmplfa;
                if hit then Some (lfa2cfa tmplfa)
                else do { tmplfa \<leftarrow> read_ucell (mem s) tmplfa; findword_loop s s1 tmplfa } })"

definition findword :: "'w fstate \<Rightarrow> u8 list \<Rightarrow> ucell option" where
  "findword s s1 =
     (if last_word s = 0 then Some 0
      else do { tmplfa \<leftarrow> read_ucell (mem s) (last_word s); findword_loop s s1 tmplfa })"

partial_function (option) findsemis_loop :: "'w fstate \<Rightarrow> ucell \<Rightarrow> ucell \<Rightarrow> ucell option" where
  "findsemis_loop s xt tmplfa =
     (if tmplfa = 0 then Some 0
      else do { nextlfa \<leftarrow> read_ucell (mem s) tmplfa;
                if lfa2cfa nextlfa = xt then do { nfa \<leftarrow> lfa2nfa s tmplfa; Some (nfa - cellsize) }
                else findsemis_loop s xt nextlfa })"

definition findsemis_wordlist :: "'w fstate \<Rightarrow> ucell \<Rightarrow> ucell \<Rightarrow> ucell option" where
  "findsemis_wordlist s xt wordlist =
     (if wordlist = 0 then Some 0
      else do { tmplfa \<leftarrow> read_ucell (mem s) wordlist;
                if lfa2cfa tmplfa = xt then Some (dict s + dicthead s - cellsize)
                else findsemis_loop s xt tmplfa })"

partial_function (option) findxt_loop :: "'w fstate \<Rightarrow> ucell \<Rightarrow> ucell \<Rightarrow> ucell option" where
  "findxt_loop s incell tmplfa =
     (if tmplfa = 0 then Some 0
      else if tmplfa < incell then Some (lfa2cfa tmplfa)
      else do { tmplfa \<leftarrow> read_ucell (mem s) tmplfa; findxt_loop s incell tmplfa })"

definition findxtfromcell_wordlist :: "'w fstate \<Rightarrow> ucell \<Rightarrow> ucell \<Rightarrow> ucell option" where
  "findxtfromcell_wordlist s incell wordlist =
     (if wordlist = 0 then Some 0
      else do { tmplfa \<leftarrow> read_ucell (mem s) wordlist; findxt_loop s incell tmplfa })"

text \<open>
  \<open>findsemis\<close> and \<open>findxtfromcell\<close> run the same loop over the vocabularies, up to the first
  result that is not 0. The loop's bound is read again on every turn from unchanged memory.
\<close>

fun vocab_loop :: "'w fstate \<Rightarrow> (ucell \<Rightarrow> ucell option) \<Rightarrow> nat list \<Rightarrow> ucell option" where
  "vocab_loop s f [] = Some 0"
| "vocab_loop s f (i # is) =
     do { v \<leftarrow> findword s (cstr ''vocabularies'');
          let vocabs = v + 2 * cellsize;
          w \<leftarrow> read_ucell (mem s) (vocabs + of_nat i * cellsize);
          semis \<leftarrow> f w;
          if semis \<noteq> 0 then Some semis else vocab_loop s f is }"

definition findsemis :: "'w fstate \<Rightarrow> ucell \<Rightarrow> ucell option" where
  "findsemis s xt =
     do { u \<leftarrow> findword s (cstr ''vocabularies?'');
          uses \<leftarrow> read_ucell (mem s) (u + cellsize);
          if uses \<noteq> 0 then
            do { v \<leftarrow> findword s (cstr ''#order'');
                 n \<leftarrow> read_ucell (mem s) (v + cellsize);
                 vocab_loop s (findsemis_wordlist s xt) [0..<unat n] }
          else do { w \<leftarrow> read_ucell (mem s) (last_word s); findsemis_wordlist s xt w } }"

definition findxtfromcell :: "'w fstate \<Rightarrow> ucell \<Rightarrow> ucell option" where
  "findxtfromcell s incell =
     do { u \<leftarrow> findword s (cstr ''vocabularies?'');
          uses \<leftarrow> read_ucell (mem s) (u + cellsize);
          if uses \<noteq> 0 then
            do { v \<leftarrow> findword s (cstr ''#order'');
                 n \<leftarrow> read_ucell (mem s) (v + cellsize);
                 vocab_loop s (findxtfromcell_wordlist s incell) [0..<unat n] }
          else do { w \<leftarrow> read_ucell (mem s) (last_word s); findxtfromcell_wordlist s incell w } }"

subsection \<open>Loading a dictionary image\<close>

text \<open>
  The packed header: signature (8 bytes), version, cell size, endianness, compression, relocation
  (a byte each), three reserved bytes, checksum, length and last (a long each): 28 bytes.
\<close>

abbreviation header_size :: ucell where "header_size \<equiv> 28"
abbreviation header_length_off :: ucell where "header_length_off \<equiv> 20"
abbreviation header_last_off :: ucell where "header_last_off \<equiv> 24"

partial_function (option) checksum_loop :: "memory \<Rightarrow> ucell \<Rightarrow> ucell \<Rightarrow> u32 \<Rightarrow> u32 option" where
  "checksum_loop m walk lim checksum =
     (if walk < lim then do { v \<leftarrow> read_long m walk; checksum_loop m (walk + 4) lim (checksum + v) }
      else Some checksum)"

partial_function (option) reloc_loop :: "ucell \<Rightarrow> ucell \<Rightarrow> ucell \<Rightarrow> ucell \<Rightarrow> memory \<Rightarrow> memory option" where
  "reloc_loop d reloc_table lim walk m =
     (if walk < lim then
        do { let l = (walk - d) div cellsize;
             let pos = l div 32;
             let bit = l AND 31;
             r \<leftarrow> read_ucell m (reloc_table + pos * cellsize);
             m \<leftarrow> (if r AND push_bit (unat bit) 1 \<noteq> 0
                   then do { v \<leftarrow> read_ucell m walk; write_ucell m walk (v + d) }
                   else Some m);
             reloc_loop d reloc_table lim (walk + cellsize) m }
      else Some m)"

text \<open>The result is 0 (nothing changed but a message) or -1.\<close>

definition load_dictionary :: "'w env \<Rightarrow> ucell \<Rightarrow> ucell \<Rightarrow> 'w fstate \<Rightarrow> (ucell \<times> 'w fstate) option" where
  "load_dictionary E data len s =
     (if len \<le> header_size then Some (0, s)
      else do { c \<leftarrow> strncmp (lit_str (cstr ''OpenBIOS'')) (at (mem s) data) 8;
        if c \<noteq> 0 then Some (0, s)
        else do { checksum \<leftarrow> checksum_loop (mem s) data (data + len) 0;
          if checksum \<noteq> 0 then Some (0, s\<lparr>world := printk E (''Checksum invalid (%08x)!'' @ [CHR 0x0A]) [checksum] (world s)\<rparr>)
          else do { dh \<leftarrow> read_long (mem s) (data + header_length_off);
            m \<leftarrow> memcpy (mem s) (dict s) (data + header_size) dh;
            m \<leftarrow> reloc_loop (dict s) (data + header_size + dh) (dict s + dh) (dict s) m;
            l \<leftarrow> read_ucell m (data + header_last_off);
            Some (- 1, s\<lparr>dicthead := dh, mem := m, last_word := dict s + l\<rparr>) } } })"

end
