(* ===== verification/Libgcc.thy ===== *)
theory Libgcc
  imports Prelude
begin

text \<open>
  The 64-bit arithmetic support of \<open>libgcc/\<close>, which the compiler calls for \<open>ducell\<close> division and
  shifts on 32-bit targets: \<open>__udivmoddi4\<close> and its clients \<open>__udivdi3\<close>, \<open>__umoddi3\<close> and
  \<open>__divdi3\<close>, and the shifts \<open>__ashldi3\<close>, \<open>__lshrdi3\<close>, \<open>__ashrdi3\<close> on the big-endian
  layout of their union (\<open>high\<close> before \<open>low\<close>). The theorems show that they compute division,
  remainder and shift.
\<close>

subsection \<open>Division: libgcc/__udivmoddi4.c\<close>

text \<open>The first loop left-justifies the denominator. With a zero denominator it would not end.\<close>

partial_function (option) justify :: "u64 \<Rightarrow> u64 \<Rightarrow> (u64 \<times> u64) option" where
  "justify den qbit =
     (if 0 \<le> sint den then justify (push_bit 1 den) (push_bit 1 qbit) else Some (den, qbit))"

lemma unat_drop_bit_1: "unat (drop_bit 1 (x :: u64)) = unat x div 2"
  by (simp add: unat_div drop_bit_Suc)

lemma drop_bit_decreases:
  assumes "q \<noteq> (0 :: u64)"
  shows "unat (drop_bit 1 q) < unat q"
proof -
  have "0 < unat q" using assms unat_gt_0 by blast
  then show ?thesis unfolding unat_drop_bit_1 by simp
qed

function div_loop :: "u64 \<Rightarrow> u64 \<Rightarrow> u64 \<Rightarrow> u64 \<Rightarrow> u64 \<times> u64" where
  "div_loop den qbit num quot =
     (if qbit \<noteq> 0 then
        if den \<le> num then div_loop (drop_bit 1 den) (drop_bit 1 qbit) (num - den) (quot + qbit)
        else div_loop (drop_bit 1 den) (drop_bit 1 qbit) num quot
      else (quot, num))"
  by pat_completeness auto
termination
  by (relation "measure (\<lambda>(den, qbit, num, quot). unat qbit)") (use drop_bit_decreases in \<open>auto simp del: drop_bit_Suc\<close>)

declare div_loop.simps [simp del]

text \<open>
  The result is the quotient and what \<open>*rem_p\<close> receives. On a zero denominator
  \<open>__divide_error\<close> is called and, where it returns (as in \<open>arch/ppc/wii/init.c\<close>), the quotient
  is 0 and \<open>*rem_p\<close> is not written.
\<close>

definition udivmoddi4 :: "u64 \<Rightarrow> u64 \<Rightarrow> (u64 \<times> u64 option) option" where
  "udivmoddi4 num den =
     (if den = 0 then Some (0, None)
      else do { (den', qbit) \<leftarrow> justify den 1;
                let (quot, num') = div_loop den' qbit num 0;
                Some (quot, Some num') })"

definition udivdi3 :: "u64 \<Rightarrow> u64 \<Rightarrow> u64 option" where
  "udivdi3 num den = do { (quot, _) \<leftarrow> udivmoddi4 num den; Some quot }"

text \<open>\<open>__umoddi3\<close> returns its local \<open>v\<close>, which a zero denominator leaves without a value.\<close>

definition umoddi3 :: "u64 \<Rightarrow> u64 \<Rightarrow> u64 option" where
  "umoddi3 num den = do { (_, v) \<leftarrow> udivmoddi4 num den; v }"

definition divdi3 :: "u64 \<Rightarrow> u64 \<Rightarrow> u64 option" where
  "divdi3 num den =
     (let (num', minus1) = (if sint num < 0 then (- num, True) else (num, False));
          (den', minus2) = (if sint den < 0 then (- den, \<not> minus1) else (den, minus1))
      in do { (v, _) \<leftarrow> udivmoddi4 num' den'; Some (if minus2 then - v else v) })"

subsection \<open>Shifts: libgcc/ashldi3.c, __lshrdi3.c, ashrdi3.c\<close>

definition DI_high :: "u64 \<Rightarrow> u32" where
  "DI_high u = ucast (drop_bit 32 u)"

definition DI_low :: "u64 \<Rightarrow> u32" where
  "DI_low u = ucast u"

definition DI_make :: "u32 \<Rightarrow> u32 \<Rightarrow> u64" where
  "DI_make high low = push_bit 32 (ucast high) OR ucast low"

text \<open>A 32-bit shift by an amount outside 0..31 is undefined in C.\<close>

definition shl32 :: "u32 \<Rightarrow> int \<Rightarrow> u32 option" where
  "shl32 x n = (if 0 \<le> n \<and> n < 32 then Some (push_bit (nat n) x) else None)"

definition shr32 :: "u32 \<Rightarrow> int \<Rightarrow> u32 option" where
  "shr32 x n = (if 0 \<le> n \<and> n < 32 then Some (drop_bit (nat n) x) else None)"

definition sar32 :: "u32 \<Rightarrow> int \<Rightarrow> u32 option" where
  "sar32 x n = (if 0 \<le> n \<and> n < 32 then Some (signed_drop_bit (nat n) x) else None)"

definition ashldi3 :: "u64 \<Rightarrow> int \<Rightarrow> u64 option" where
  "ashldi3 u b =
     (if b = 0 then Some u
      else let bm = 32 - b in
        if bm \<le> 0 then do { h \<leftarrow> shl32 (DI_low u) (- bm); Some (DI_make h 0) }
        else do { carries \<leftarrow> shr32 (DI_low u) bm;
                  l \<leftarrow> shl32 (DI_low u) b;
                  h \<leftarrow> shl32 (DI_high u) b;
                  Some (DI_make (h OR carries) l) })"

definition lshrdi3 :: "u64 \<Rightarrow> int \<Rightarrow> u64 option" where
  "lshrdi3 u b =
     (if b = 0 then Some u
      else let bm = 32 - b in
        if bm \<le> 0 then do { l \<leftarrow> shr32 (DI_high u) (- bm); Some (DI_make 0 l) }
        else do { carries \<leftarrow> shl32 (DI_high u) bm;
                  h \<leftarrow> shr32 (DI_high u) b;
                  l \<leftarrow> shr32 (DI_low u) b;
                  Some (DI_make h (l OR carries)) })"

definition ashrdi3 :: "u64 \<Rightarrow> int \<Rightarrow> u64 option" where
  "ashrdi3 u b =
     (if b = 0 then Some u
      else let bm = 32 - b in
        if bm \<le> 0 then do { h \<leftarrow> sar32 (DI_high u) 31; l \<leftarrow> sar32 (DI_high u) (- bm);
                            Some (DI_make h l) }
        else do { carries \<leftarrow> shl32 (DI_high u) bm;
                  h \<leftarrow> sar32 (DI_high u) b;
                  l \<leftarrow> shr32 (DI_low u) b;
                  Some (DI_make h (l OR carries)) })"

lemmas shift_defs = ashldi3_def lshrdi3_def ashrdi3_def shl32_def shr32_def sar32_def
  DI_high_def DI_low_def DI_make_def

subsection \<open>Correctness\<close>

lemma sint_nonneg_iff: "0 \<le> sint (x :: u64) \<longleftrightarrow> unat x < 2 ^ 63"
proof -
  have "uint x < 2 ^ 64" using uint_lt2p [of x] by simp
  have "0 \<le> uint x" by simp
  have "0 \<le> sint x \<longleftrightarrow> \<not> bit (uint x) 63"
    by (simp add: sint_uint signed_take_bit_nonnegative_iff)
  also have "\<dots> \<longleftrightarrow> even (uint x div 2 ^ 63)"
    by (simp add: bit_iff_odd)
  also have "\<dots> \<longleftrightarrow> uint x < 2 ^ 63"
  proof (cases "uint x < 2 ^ 63")
    case True
    then show ?thesis using \<open>0 \<le> uint x\<close> by (simp add: div_pos_pos_trivial)
  next
    case False
    then have "uint x div 2 ^ 63 = (uint x - 2 ^ 63) div 2 ^ 63 + 1"
      using div_pos_geq [of "2 ^ 63" "uint x"] by simp
    also have "(uint x - 2 ^ 63) div 2 ^ 63 = 0"
      using False \<open>uint x < 2 ^ 64\<close> by (intro div_pos_pos_trivial) simp_all
    finally have "uint x div 2 ^ 63 = 1" by simp
    with False show ?thesis by simp
  qed
  also have "\<dots> \<longleftrightarrow> int (unat x) < int (2 ^ 63)" by simp
  finally show ?thesis by (simp only: of_nat_less_iff)
qed

lemma unat_push_bit_1:
  assumes "unat (x :: u64) < 2 ^ 63"
  shows "unat (push_bit 1 x) = 2 * unat x"
  using assms by (simp add: push_bit_eq_mult unat_word_ariths)

lemma justify_spec:
  assumes "den \<noteq> 0"
  shows "\<exists>k < 64. justify den q = Some (push_bit k den, push_bit k q) \<and>
           2 ^ 63 \<le> unat den * 2 ^ k \<and> unat den * 2 ^ k < 2 ^ 64"
  using assms
proof (induction "2 ^ 64 - unat den" arbitrary: den q rule: less_induct)
  case less
  have pos: "0 < unat den" using less.prems unat_gt_0 by blast
  have lt: "unat den < 2 ^ 64" using unsigned_less [of den] by simp
  show ?case
  proof (cases "unat den < 2 ^ 63")
    case False
    then have "justify den q = Some (den, q)"
      by (subst justify.simps) (simp add: sint_nonneg_iff)
    with False lt show ?thesis by (intro exI [of _ 0]) simp
  next
    case True
    note u = unat_push_bit_1 [OF True]
    have "push_bit 1 den \<noteq> 0" using u pos by fastforce
    moreover have "2 ^ 64 - unat (push_bit 1 den) < 2 ^ 64 - unat den"
      using u pos True by simp
    ultimately obtain k where k: "k < 64"
        "justify (push_bit 1 den) (push_bit 1 q) = Some (push_bit k (push_bit 1 den), push_bit k (push_bit 1 q))"
        "2 ^ 63 \<le> 2 * unat den * 2 ^ k" "2 * unat den * 2 ^ k < 2 ^ 64"
      using less.hyps [of "push_bit 1 den" "push_bit 1 q"] u by auto
    have eq: "justify den q = Some (push_bit (Suc k) den, push_bit (Suc k) q)"
      using True k(2) by (subst justify.simps) (simp add: sint_nonneg_iff)
    have "2 ^ Suc k \<le> unat den * 2 ^ Suc k" using pos by simp
    also have "\<dots> < 2 ^ 64" using k(4) by (simp add: mult.commute mult.left_commute)
    finally have "Suc k < 64" by (rule power_less_imp_less_exp [rotated]) simp
    with eq k show ?thesis by (intro exI [of _ "Suc k"]) (simp add: mult.commute mult.left_commute)
  qed
qed

lemma div_loop_spec:
  assumes "unat den = D * 2 ^ k" and "unat qbit = 2 ^ k" and "unat num < D * 2 ^ Suc k"
    and "unat quot + 2 ^ Suc k \<le> 2 ^ 64" and "0 < D"
  shows "unat (fst (div_loop den qbit num quot)) = unat quot + unat num div D \<and>
         unat (snd (div_loop den qbit num quot)) = unat num mod D"
  using assms
proof (induction k arbitrary: den qbit num quot)
  case 0
  have q: "qbit = 1" using "0.prems"(2) by (metis power_0 unat_1 word_unat_eq_iff)
  have dn: "den \<le> num \<longleftrightarrow> D \<le> unat num" using "0.prems"(1) by (simp add: word_le_nat_alt)
  have base: "div_loop d 0 n r = (r, n)" for d n r by (subst div_loop.simps) simp
  have "(drop_bit 1 (1 :: u64)) = 0" by simp
  then have step: "div_loop den qbit num quot = (if den \<le> num then (quot + 1, num - den) else (quot, num))"
    unfolding q by (subst div_loop.simps) (simp add: base)
  show ?case
  proof (cases "D \<le> unat num")
    case True
    have "unat (quot + 1) = unat quot + 1"
      using "0.prems"(4) by (subst unat_add_no_wrap) simp_all
    moreover have "unat (num - den) = unat num - D"
      using True dn "0.prems"(1) by (simp add: unat_sub)
    moreover have "unat num div D = 1" and "unat num mod D = unat num - D"
      using True "0.prems"(3,5) by (simp_all add: div_nat_eqI mod_if)
    ultimately show ?thesis using step True dn by simp
  next
    case False
    then show ?thesis using step dn by simp
  qed
next
  case (Suc k)
  have q0: "qbit \<noteq> 0" using Suc.prems(2) by fastforce
  let ?d = "drop_bit 1 den" and ?q = "drop_bit 1 qbit"
  have d: "unat ?d = D * 2 ^ k" and q: "unat ?q = 2 ^ k"
    unfolding unat_drop_bit_1 using Suc.prems(1,2) by simp_all
  show ?case
  proof (cases "den \<le> num")
    case True
    let ?n = "num - den" and ?r = "quot + qbit"
    have n: "unat ?n = unat num - D * 2 ^ Suc k"
      using True Suc.prems(1) by (simp add: unat_sub)
    have le: "D * 2 ^ Suc k \<le> unat num" using True Suc.prems(1) by (simp add: word_le_nat_alt)
    have "(0 :: nat) < 2 ^ k" by (rule zero_less_power) simp
    with Suc.prems(2,4) have "unat quot + unat qbit < 2 ^ 64" by (simp only: power_Suc)
    then have "unat quot + unat qbit < 2 ^ LENGTH(64)"
      by simp
    then have r: "unat ?r = unat quot + 2 ^ Suc k"
      using Suc.prems(2) by (simp add: unat_add_no_wrap)
    have ih: "unat (fst (div_loop ?d ?q ?n ?r)) = unat ?r + unat ?n div D \<and>
              unat (snd (div_loop ?d ?q ?n ?r)) = unat ?n mod D"
      using Suc.prems(3,4,5) n r le by (intro Suc.IH d q) simp_all
    have num: "unat num = unat ?n + 2 ^ Suc k * D" using n le by (simp add: mult.commute)
    have "unat num div D = unat ?n div D + 2 ^ Suc k" and "unat num mod D = unat ?n mod D"
      unfolding num using Suc.prems(5) by simp_all
    moreover have "div_loop den qbit num quot = div_loop ?d ?q ?n ?r"
      using True q0 by (subst div_loop.simps) simp
    ultimately show ?thesis using ih r by simp
  next
    case False
    then have "unat num < D * 2 ^ Suc k" using Suc.prems(1) by (simp add: word_le_nat_alt)
    then have "unat (fst (div_loop ?d ?q num quot)) = unat quot + unat num div D \<and>
              unat (snd (div_loop ?d ?q num quot)) = unat num mod D"
      using Suc.prems(4,5) by (intro Suc.IH d q) simp_all
    moreover have "div_loop den qbit num quot = div_loop ?d ?q num quot"
      using False q0 by (subst div_loop.simps) simp
    ultimately show ?thesis by simp
  qed
qed

lemma udivmoddi4_quot_rem:
  assumes "den \<noteq> 0"
  shows "udivmoddi4 num den = Some (num div den, Some (num mod den))"
proof -
  from justify_spec [OF assms, of 1] obtain k where k: "k < 64"
    and j: "justify den 1 = Some (push_bit k den, push_bit k 1)"
    and lo: "2 ^ 63 \<le> unat den * 2 ^ k" and hi: "unat den * 2 ^ k < 2 ^ 64" by blast
  have d: "unat (push_bit k den) = unat den * 2 ^ k"
    using hi unsigned_push_bit_eq [of k den, where 'a = nat]
    by (simp add: take_bit_nat_eq_self push_bit_eq_mult)
  have q: "unat (push_bit k (1 :: u64)) = 2 ^ k"
    using k unsigned_push_bit_eq [of k "1 :: u64", where 'a = nat]
    by (simp add: take_bit_nat_eq_self push_bit_eq_mult power_strict_increasing)
  have "unat num < 2 ^ 64" using unsigned_less [of num] by simp
  then have n: "unat num < unat den * 2 ^ Suc k" using lo by simp
  have "(2 :: nat) ^ Suc k \<le> 2 ^ 64" using k by (intro power_increasing) simp_all
  then have s: "unat (0 :: u64) + 2 ^ Suc k \<le> 2 ^ 64" by simp
  have pos: "0 < unat den" using assms unat_gt_0 by blast
  note sp = div_loop_spec [OF d q n s pos]
  have "div_loop (push_bit k den) (push_bit k 1) num 0 = (num div den, num mod den)"
    using sp by (intro prod_eqI) (simp_all add: word_unat_eq_iff unat_div unat_mod)
  then show ?thesis using assms j by (simp add: udivmoddi4_def)
qed

text \<open>
  C6: for every nonzero denominator the shift-and-subtract loops of \<open>__udivmoddi4\<close> end and give
  the quotient and the remainder; \<open>__udivdi3\<close> and \<open>__umoddi3\<close> return them.
\<close>

theorem udivmoddi4_correct:
  assumes "den \<noteq> 0"
  shows "udivmoddi4 num den = Some (num div den, Some (num mod den)) \<and>
         udivdi3 num den = Some (num div den) \<and> umoddi3 num den = Some (num mod den)"
  using assms by (simp_all add: udivdi3_def umoddi3_def udivmoddi4_quot_rem)

theorem udivmoddi4_correct_witness:
  "(7 :: u64) \<noteq> 0 \<and> udivmoddi4 100 7 = Some (14, Some 2)"
  using udivmoddi4_correct [of 7 100] by simp

lemma udivdi3_eq: "den \<noteq> 0 \<Longrightarrow> udivdi3 num den = Some (num div den)"
  by (simp add: udivdi3_def udivmoddi4_quot_rem)

lemma umoddi3_eq: "den \<noteq> 0 \<Longrightarrow> umoddi3 num den = Some (num mod den)"
  by (simp add: umoddi3_def udivmoddi4_quot_rem)

lemma div_by_zero: "udivdi3 num 0 = Some 0" "umoddi3 num 0 = None"
  by (simp_all add: udivdi3_def umoddi3_def udivmoddi4_def)

text \<open>
  One argument for the three shifts: for amounts 1..31 the two halves exchange \<open>carries\<close>, for
  32..63 one half is the other one shifted.
\<close>

lemma len32: "LENGTH(32) = 32"
  by simp

lemma DI_make_eqI:
  assumes "h = DI_high u" and "l = DI_low u"
  shows "DI_make h l = u"
proof (rule bit_word_eqI)
  fix n
  assume "n < LENGTH(64)"
  then show "bit (DI_make h l) n = bit u n"
    by (cases "n < 32") (auto simp: assms DI_make_def DI_high_def DI_low_def bit_simps)
qed

lemma carry_shl:
  assumes "0 < b" and "b < 32"
  shows "DI_make (push_bit b (DI_high u) OR drop_bit (32 - b) (DI_low u)) (push_bit b (DI_low u))
           = push_bit b u"
  using assms by (intro DI_make_eqI bit_word_eqI)
    (auto simp: DI_high_def DI_low_def bit_simps not_le)

lemma carry_low:
  assumes "0 < b" and "b < 32" and "n < 32"
  shows "bit (drop_bit b (DI_low u) OR push_bit (32 - b) (DI_high u)) n = bit u (b + n)"
  using assms by (cases "b + n < 32") (auto simp: DI_high_def DI_low_def bit_simps add.commute [of n b])

lemma carry_shr:
  assumes "0 < b" and "b < 32"
  shows "DI_make (drop_bit b (DI_high u)) (drop_bit b (DI_low u) OR push_bit (32 - b) (DI_high u))
           = drop_bit b u"
proof (intro DI_make_eqI bit_word_eqI)
  fix n
  assume n: "n < LENGTH(32)"
  show "bit (drop_bit b (DI_high u)) n = bit (DI_high (drop_bit b u)) n"
    using n by (auto simp: DI_high_def bit_simps ac_simps dest: bit_imp_le_length)
  show "bit (drop_bit b (DI_low u) OR push_bit (32 - b) (DI_high u)) n = bit (DI_low (drop_bit b u)) n"
    using n assms by (simp only: carry_low len32) (simp add: DI_low_def bit_simps)
qed

lemma carry_sar:
  assumes "0 < b" and "b < 32"
  shows "DI_make (signed_drop_bit b (DI_high u)) (drop_bit b (DI_low u) OR push_bit (32 - b) (DI_high u))
           = signed_drop_bit b u"
proof (intro DI_make_eqI bit_word_eqI)
  fix n
  assume n: "n < LENGTH(32)"
  show "bit (signed_drop_bit b (DI_high u)) n = bit (DI_high (signed_drop_bit b u)) n"
  proof (cases "32 - b \<le> n")
    case True
    then have "64 - b \<le> 32 + n" using assms by linarith
    with True n assms show ?thesis
      by (simp add: DI_high_def bit_signed_drop_bit_iff bit_unsigned_iff bit_drop_bit_eq)
  next
    case False
    then have "\<not> 64 - b \<le> 32 + n" and "b + n < 32" using assms by linarith+
    with False n assms show ?thesis
      by (simp add: DI_high_def bit_signed_drop_bit_iff bit_unsigned_iff bit_drop_bit_eq
          add.left_commute)
  qed
  show "bit (drop_bit b (DI_low u) OR push_bit (32 - b) (DI_high u)) n
          = bit (DI_low (signed_drop_bit b u)) n"
  proof -
    have "\<not> 64 - b \<le> n" using n assms by simp
    then show ?thesis
      using n assms by (simp only: carry_low len32) (simp add: DI_low_def bit_simps)
  qed
qed

lemma halves_shl:
  assumes "32 \<le> b" and "b < 64"
  shows "DI_make (push_bit (b - 32) (DI_low u)) 0 = push_bit b u"
  using assms by (intro DI_make_eqI bit_word_eqI)
    (auto simp: DI_high_def DI_low_def bit_simps add.commute [of _ 32])

lemma halves_shr:
  assumes "32 \<le> b" and "b < 64"
  shows "DI_make 0 (drop_bit (b - 32) (DI_high u)) = drop_bit b u"
  using assms by (intro DI_make_eqI bit_word_eqI)
    (auto simp: DI_high_def DI_low_def bit_simps dest: bit_imp_le_length)

lemma halves_sar:
  assumes "32 \<le> b" and "b < 64"
  shows "DI_make (signed_drop_bit 31 (DI_high u)) (signed_drop_bit (b - 32) (DI_high u))
           = signed_drop_bit b u"
  using assms by (intro DI_make_eqI bit_word_eqI)
    (auto simp: DI_high_def DI_low_def bit_simps Suc_le_eq)

text \<open>
  C7: for every amount below 64 the three double-word shifts are the left, the logical right
  and the arithmetic right shift of the 64-bit value.
\<close>

theorem double_shifts_correct:
  assumes "b < 64"
  shows "ashldi3 u (int b) = Some (push_bit b u) \<and> lshrdi3 u (int b) = Some (drop_bit b u) \<and>
         ashrdi3 u (int b) = Some (signed_drop_bit b u)"
proof -
  consider "b = 0" | "0 < b" "b < 32" | "32 \<le> b" by linarith
  then show ?thesis
  proof cases
    case 1
    then show ?thesis by (simp add: shift_defs)
  next
    case 2
    then have "nat (32 - int b) = 32 - b" by simp
    with 2 show ?thesis
      by (simp add: ashldi3_def lshrdi3_def ashrdi3_def shl32_def shr32_def sar32_def Let_def
          carry_shl carry_shr carry_sar)
  next
    case 3
    then have "nat (int b - 32) = b - 32" by simp
    with 3 assms show ?thesis
      by (simp add: ashldi3_def lshrdi3_def ashrdi3_def shl32_def shr32_def sar32_def Let_def
          halves_shl halves_shr halves_sar)
  qed
qed

theorem double_shifts_correct_witness:
  "(36 :: nat) < 64 \<and> ashldi3 3 36 = Some (push_bit 36 3)"
  using double_shifts_correct [of 36 3] by simp

end
