(* ===== verification/Forth_Prims.thy ===== *)
theory Forth_Prims
  imports Dict Libgcc
begin

text \<open>
  The primitive words of \<open>kernel/forth.c\<close> that need nothing of the interpreter loop, in the order of
  the source, each as a function on the engine's state: the code-field actions (\<open>docol\<close>,
  \<open>semis\<close>, \<open>lit\<close>, the loop and branch words, \<open>execute\<close>), stack and return stack words,
  arithmetic, memory access, comparison, port and console words. \<open>POP() + POP()\<close> evaluates its
  operands from left to right, as the compiler does; C leaves the order open.
\<close>

subsection \<open>Code fields\<close>

definition init_trampoline :: "ucell \<Rightarrow> memory \<Rightarrow> memory option" where
  "init_trampoline tramp m =
     do { m \<leftarrow> write_ucell m tramp 1;
          m \<leftarrow> write_ucell m (tramp + cellsize) 0;
          m \<leftarrow> write_ucell m (tramp + 2 * cellsize) (tramp + 3 * cellsize);
          write_ucell m (tramp + 3 * cellsize) 0 }"

definition forth_init :: "'w env \<Rightarrow> 'w fstate \<Rightarrow> 'w fstate option" where
  "forth_init E s = do { m \<leftarrow> init_trampoline (trampoline E) (mem s); Some (s\<lparr>mem := m\<rparr>) }"

definition docol :: "'w fstate \<Rightarrow> 'w fstate option" where
  "docol s =
     do { s \<leftarrow> PUSHR (PC s) s;
          pc \<leftarrow> read_ucell (mem s) (PC s);
          Some (s\<lparr>PC := pc\<rparr>) }"

definition semis :: "'w fstate \<Rightarrow> 'w fstate option" where
  "semis s =
     do { (pc, s) \<leftarrow> POPR s;
          Some (s\<lparr>PC := pc\<rparr>) }"

definition lit :: "'w fstate \<Rightarrow> 'w fstate option" where
  "lit s =
     do { let s = s\<lparr>PC := PC s + cellsize\<rparr>;
          v \<leftarrow> read_ucell (mem s) (PC s);
          PUSH v s }"

definition docon :: "'w fstate \<Rightarrow> 'w fstate option" where
  "docon s =
     do { a \<leftarrow> read_ucell (mem s) (PC s);
          tmp \<leftarrow> read_ucell (mem s) (a + cellsize);
          PUSH tmp s }"

definition dovar :: "'w fstate \<Rightarrow> 'w fstate option" where
  "dovar s =
     do { a \<leftarrow> read_ucell (mem s) (PC s);
          PUSH (a + cellsize) s }"

definition dobranch :: "'w fstate \<Rightarrow> 'w fstate option" where
  "dobranch s =
     do { let s = s\<lparr>PC := PC s + cellsize\<rparr>;
          off \<leftarrow> read_ucell (mem s) (PC s);
          Some (s\<lparr>PC := PC s + off\<rparr>) }"

definition docbranch :: "'w fstate \<Rightarrow> 'w fstate option" where
  "docbranch s =
     do { let s = s\<lparr>PC := PC s + cellsize\<rparr>;
          (flag, s) \<leftarrow> POP s;
          if flag \<noteq> 0 then Some s
          else do { off \<leftarrow> read_ucell (mem s) (PC s); Some (s\<lparr>PC := PC s + off\<rparr>) } }"

definition execute :: "'w env \<Rightarrow> 'w fstate \<Rightarrow> 'w fstate option" where
  "execute E s =
     do { (address, s) \<leftarrow> POP s;
          s \<leftarrow> PUSHR (PC s) s;
          m \<leftarrow> write_ucell (mem s) (trampoline E + cellsize) address;
          Some (s\<lparr>mem := m, PC := trampoline E\<rparr>) }"

definition call :: "'w env \<Rightarrow> 'w fstate \<Rightarrow> 'w fstate option" where
  "call E s =
     do { (fp, s) \<leftarrow> POP s;
          cfunction E fp s }"

definition sysdebug :: "'w fstate \<Rightarrow> 'w fstate option" where
  "sysdebug s =
     do { (_, s) \<leftarrow> POP s;
          Some s }"

definition dodoes :: "'w env \<Rightarrow> 'w fstate \<Rightarrow> 'w fstate option" where
  "dodoes E s =
     do { a \<leftarrow> read_ucell (mem s) (PC s);
          let data = a + 2 * cellsize;
          word \<leftarrow> read_ucell (mem s) (a + cellsize);
          s \<leftarrow> PUSH data s;
          s \<leftarrow> PUSH word s;
          execute E s }"

definition dodefer :: "'w fstate \<Rightarrow> 'w fstate option" where
  "dodefer s =
     docol s"

definition dodo :: "'w fstate \<Rightarrow> 'w fstate option" where
  "dodo s =
     do { (startval, s) \<leftarrow> POP s;
          (endval, s) \<leftarrow> POP s;
          s \<leftarrow> PUSHR endval s;
          PUSHR startval s }"

definition doisdo :: "'w fstate \<Rightarrow> 'w fstate option" where
  "doisdo s =
     do { (startval, s) \<leftarrow> POP s;
          (endval, s) \<leftarrow> POP s;
          let s = s\<lparr>PC := PC s + cellsize\<rparr>;
          if startval = endval
          then do { off \<leftarrow> read_ucell (mem s) (PC s); Some (s\<lparr>PC := PC s + off\<rparr>) }
          else do { s \<leftarrow> PUSHR endval s; PUSHR startval s } }"

definition doloop :: "'w fstate \<Rightarrow> 'w fstate option" where
  "doloop s =
     do { (v, s) \<leftarrow> POPR s;
          let startval = v + 1;
          (endval, s) \<leftarrow> POPR s;
          let s = s\<lparr>PC := PC s + cellsize\<rparr>;
          if sint startval < sint endval
          then do { off \<leftarrow> read_ucell (mem s) (PC s);
                    let s = s\<lparr>PC := PC s + off\<rparr>;
                    s \<leftarrow> PUSHR endval s; PUSHR startval s }
          else Some s }"

definition doplusloop :: "'w fstate \<Rightarrow> 'w fstate option" where
  "doplusloop s =
     do { (increment, s) \<leftarrow> POP s;
          (startval0, s) \<leftarrow> POPR s;
          (endval, s) \<leftarrow> POPR s;
          let startval = startval0 + increment;
          let s = s\<lparr>PC := PC s + cellsize\<rparr>;
          let (low, high) = (if 0 \<le> sint increment then (startval0, startval) else (startval, startval0));
          if high - low \<le> endval - (low + 1)
          then do { off \<leftarrow> read_ucell (mem s) (PC s);
                    let s = s\<lparr>PC := PC s + off\<rparr>;
                    s \<leftarrow> PUSHR endval s; PUSHR startval s }
          else Some s }"

text \<open>Instance words. \<open>myselfptr\<close> caches the address of the value cell of \<open>my-self\<close>.\<close>

definition get_myself :: "'w fstate \<Rightarrow> (ucell \<times> 'w fstate) option" where
  "get_myself s =
     do { p \<leftarrow> (if myselfptr s = 0 then do { xt \<leftarrow> findword s (cstr ''my-self''); Some (xt + cellsize) }
                else Some (myselfptr s));
          let s = s\<lparr>myselfptr := p\<rparr>;
          myself \<leftarrow> read_ucell (mem s) p;
          r \<leftarrow> (if myself \<noteq> 0 then read_ucell (mem s) myself else Some 0);
          Some (r, s) }"

definition instance_addr :: "ucell \<Rightarrow> ucell \<Rightarrow> 'w fstate \<Rightarrow> ucell option" where
  "instance_addr ibase p s =
     (if ibase \<noteq> 0 then do { off \<leftarrow> read_ucell (mem s) p; Some (ibase + off) }
      else Some (p + 2 * cellsize))"

definition doivar :: "'w fstate \<Rightarrow> 'w fstate option" where
  "doivar s =
     do { a \<leftarrow> read_ucell (mem s) (PC s);
          (ibase, s) \<leftarrow> get_myself s;
          r \<leftarrow> instance_addr ibase (a + cellsize) s;
          PUSH r s }"

definition doival :: "'w fstate \<Rightarrow> 'w fstate option" where
  "doival s =
     do { a \<leftarrow> read_ucell (mem s) (PC s);
          (ibase, s) \<leftarrow> get_myself s;
          r \<leftarrow> instance_addr ibase (a + cellsize) s;
          v \<leftarrow> read_ucell (mem s) r;
          PUSH v s }"

definition doidefer :: "'w fstate \<Rightarrow> 'w fstate option" where
  "doidefer s =
     do { a \<leftarrow> read_ucell (mem s) (PC s);
          (ibase, s) \<leftarrow> get_myself s;
          s \<leftarrow> PUSHR (PC s) s;
          r \<leftarrow> instance_addr ibase (a + cellsize) s;
          Some (s\<lparr>PC := r - cellsize\<rparr>) }"

text \<open>\<open>string_relay\<close> drops its two arguments outside the bootstrap compiler.\<close>

definition do_include :: "'w fstate \<Rightarrow> 'w fstate option" where
  "do_include s =
     do { s \<leftarrow> DROP s;
          DROP s }"

definition do_encode_file :: "'w fstate \<Rightarrow> 'w fstate option" where
  "do_encode_file s =
     do { s \<leftarrow> DROP s;
          DROP s }"

subsection \<open>Stack words\<close>

definition fdup :: "'w fstate \<Rightarrow> 'w fstate option" where
  "fdup s =
     do { tmp \<leftarrow> GETTOS s;
          PUSH tmp s }"

definition twodup :: "'w fstate \<Rightarrow> 'w fstate option" where
  "twodup s =
     do { tmp \<leftarrow> GETITEM 1 s;
          s \<leftarrow> PUSH tmp s;
          tmp \<leftarrow> GETITEM 1 s;
          PUSH tmp s }"

definition isdup :: "'w fstate \<Rightarrow> 'w fstate option" where
  "isdup s =
     do { tmp \<leftarrow> GETTOS s;
          if tmp \<noteq> 0 then PUSH tmp s else Some s }"

definition over :: "'w fstate \<Rightarrow> 'w fstate option" where
  "over s =
     do { tmp \<leftarrow> GETITEM 1 s;
          PUSH tmp s }"

definition twoover :: "'w fstate \<Rightarrow> 'w fstate option" where
  "twoover s =
     do { tmp \<leftarrow> GETITEM 3 s;
          tmp2 \<leftarrow> GETITEM 2 s;
          s \<leftarrow> PUSH tmp s;
          PUSH tmp2 s }"

definition pick :: "'w fstate \<Rightarrow> 'w fstate option" where
  "pick s =
     do { (u, s) \<leftarrow> POP s;
          if sint u \<le> dstackcnt s
          then do { tmp \<leftarrow> dstack_get (dstackcnt s - sint u) s; PUSH tmp s }
          else Some s }"

definition drop_w :: "'w fstate \<Rightarrow> 'w fstate option" where
  "drop_w s =
     do { (_, s) \<leftarrow> POP s;
          Some s }"

definition twodrop :: "'w fstate \<Rightarrow> 'w fstate option" where
  "twodrop s =
     do { (_, s) \<leftarrow> POP s;
          (_, s) \<leftarrow> POP s;
          Some s }"

definition nip :: "'w fstate \<Rightarrow> 'w fstate option" where
  "nip s =
     do { (tmp, s) \<leftarrow> POP s;
          (_, s) \<leftarrow> POP s;
          PUSH tmp s }"

fun roll_loop :: "int \<Rightarrow> nat \<Rightarrow> 'w fstate \<Rightarrow> 'w fstate option" where
  "roll_loop i 0 s = Some s"
| "roll_loop i (Suc n) s =
     do { v \<leftarrow> dstack_get (i + 1) s; s \<leftarrow> dstack_set i v s; roll_loop (i + 1) n s }"

definition roll :: "'w fstate \<Rightarrow> 'w fstate option" where
  "roll s =
     do { (u, s) \<leftarrow> POP s;
          if sint u \<le> dstackcnt s
          then do { xu \<leftarrow> dstack_get (dstackcnt s - sint u) s;
                    s \<leftarrow> roll_loop (dstackcnt s - sint u) (nat (sint u)) s;
                    dstack_set (dstackcnt s) xu s }
          else Some s }"

definition rot :: "'w fstate \<Rightarrow> 'w fstate option" where
  "rot s =
     do { (tmp, s) \<leftarrow> POP s;
          (tmp2, s) \<leftarrow> POP s;
          (tmp3, s) \<leftarrow> POP s;
          s \<leftarrow> PUSH tmp2 s;
          s \<leftarrow> PUSH tmp s;
          PUSH tmp3 s }"

definition minusrot :: "'w fstate \<Rightarrow> 'w fstate option" where
  "minusrot s =
     do { (tmp, s) \<leftarrow> POP s;
          (tmp2, s) \<leftarrow> POP s;
          (tmp3, s) \<leftarrow> POP s;
          s \<leftarrow> PUSH tmp s;
          s \<leftarrow> PUSH tmp3 s;
          PUSH tmp2 s }"

definition swap :: "'w fstate \<Rightarrow> 'w fstate option" where
  "swap s =
     do { (tmp, s) \<leftarrow> POP s;
          (tmp2, s) \<leftarrow> POP s;
          s \<leftarrow> PUSH tmp s;
          PUSH tmp2 s }"

definition twoswap :: "'w fstate \<Rightarrow> 'w fstate option" where
  "twoswap s =
     do { (tmp, s) \<leftarrow> POP s;
          (tmp2, s) \<leftarrow> POP s;
          (tmp3, s) \<leftarrow> POP s;
          (tmp4, s) \<leftarrow> POP s;
          s \<leftarrow> PUSH tmp2 s;
          s \<leftarrow> PUSH tmp s;
          s \<leftarrow> PUSH tmp4 s;
          PUSH tmp3 s }"

definition tor :: "'w fstate \<Rightarrow> 'w fstate option" where
  "tor s =
     do { (tmp, s) \<leftarrow> POP s;
          PUSHR tmp s }"

definition rto :: "'w fstate \<Rightarrow> 'w fstate option" where
  "rto s =
     do { (tmp, s) \<leftarrow> POPR s;
          PUSH tmp s }"

definition rfetch :: "'w fstate \<Rightarrow> 'w fstate option" where
  "rfetch s =
     do { tmp \<leftarrow> GETTORS s;
          PUSH tmp s }"

definition depth :: "'w fstate \<Rightarrow> 'w fstate option" where
  "depth s =
     PUSH (word_of_int (dstackcnt s)) s"

definition depthwrite :: "'w fstate \<Rightarrow> 'w fstate option" where
  "depthwrite s =
     do { (tmp, s) \<leftarrow> POP s;
          Some (s\<lparr>dstackcnt := sint tmp\<rparr>) }"

definition rdepth :: "'w fstate \<Rightarrow> 'w fstate option" where
  "rdepth s =
     PUSH (word_of_int (rstackcnt s)) s"

definition rdepthwrite :: "'w fstate \<Rightarrow> 'w fstate option" where
  "rdepthwrite s =
     do { (tmp, s) \<leftarrow> POP s;
          Some (s\<lparr>rstackcnt := sint tmp\<rparr>) }"

subsection \<open>Arithmetic\<close>

definition plus_w :: "'w fstate \<Rightarrow> 'w fstate option" where
  "plus_w s =
     do { (a, s) \<leftarrow> POP s;
          (b, s) \<leftarrow> POP s;
          PUSH (a + b) s }"

definition minus_w :: "'w fstate \<Rightarrow> 'w fstate option" where
  "minus_w s =
     do { (nu2, s) \<leftarrow> POP s;
          (nu1, s) \<leftarrow> POP s;
          PUSH (nu1 - nu2) s }"

definition mult :: "'w fstate \<Rightarrow> 'w fstate option" where
  "mult s =
     do { (nu2, s) \<leftarrow> POP s;
          (nu1, s) \<leftarrow> POP s;
          PUSH (nu1 * nu2) s }"

definition umult :: "'w fstate \<Rightarrow> 'w fstate option" where
  "umult s =
     do { (a, s) \<leftarrow> POP s;
          (b, s) \<leftarrow> POP s;
          PUSH (a * b) s }"

definition mudivmod :: "'w fstate \<Rightarrow> 'w fstate option" where
  "mudivmod s =
     do { (b, s) \<leftarrow> POP s;
          (a, s) \<leftarrow> DPOP s;
          r \<leftarrow> umoddi3 a (ucast b);
          s \<leftarrow> PUSH (ucast r) s;
          q \<leftarrow> udivdi3 a (ucast b);
          DPUSH q s }"

definition forthabs :: "'w fstate \<Rightarrow> 'w fstate option" where
  "forthabs s =
     do { tmp \<leftarrow> GETTOS s;
          if sint tmp < 0 then do { (_, s) \<leftarrow> POP s; PUSH (- tmp) s } else Some s }"

definition negate :: "'w fstate \<Rightarrow> 'w fstate option" where
  "negate s =
     do { (tmp, s) \<leftarrow> POP s;
          PUSH (- tmp) s }"

definition max_w :: "'w fstate \<Rightarrow> 'w fstate option" where
  "max_w s =
     do { (tmp, s) \<leftarrow> POP s;
          (tmp2, s) \<leftarrow> POP s;
          PUSH (if sint tmp2 < sint tmp then tmp else tmp2) s }"

definition min_w :: "'w fstate \<Rightarrow> 'w fstate option" where
  "min_w s =
     do { (tmp, s) \<leftarrow> POP s;
          (tmp2, s) \<leftarrow> POP s;
          PUSH (if sint tmp < sint tmp2 then tmp else tmp2) s }"

definition lshift :: "'w fstate \<Rightarrow> 'w fstate option" where
  "lshift s =
     do { (u, s) \<leftarrow> POP s;
          (x1, s) \<leftarrow> POP s;
          x2 \<leftarrow> shl32 x1 (uint u);
          PUSH x2 s }"

definition rshift :: "'w fstate \<Rightarrow> 'w fstate option" where
  "rshift s =
     do { (u, s) \<leftarrow> POP s;
          (x1, s) \<leftarrow> POP s;
          x2 \<leftarrow> shr32 x1 (uint u);
          PUSH x2 s }"

definition rshifta :: "'w fstate \<Rightarrow> 'w fstate option" where
  "rshifta s =
     do { (u, s) \<leftarrow> POP s;
          (x1, s) \<leftarrow> POP s;
          x2 \<leftarrow> sar32 x1 (sint u);
          PUSH x2 s }"

definition and_w :: "'w fstate \<Rightarrow> 'w fstate option" where
  "and_w s =
     do { (x1, s) \<leftarrow> POP s;
          (x2, s) \<leftarrow> POP s;
          PUSH (x1 AND x2) s }"

definition or_w :: "'w fstate \<Rightarrow> 'w fstate option" where
  "or_w s =
     do { (x1, s) \<leftarrow> POP s;
          (x2, s) \<leftarrow> POP s;
          PUSH (x1 OR x2) s }"

definition xor_w :: "'w fstate \<Rightarrow> 'w fstate option" where
  "xor_w s =
     do { (x1, s) \<leftarrow> POP s;
          (x2, s) \<leftarrow> POP s;
          PUSH (x1 XOR x2) s }"

definition invert :: "'w fstate \<Rightarrow> 'w fstate option" where
  "invert s =
     do { (x1, s) \<leftarrow> POP s;
          PUSH (x1 XOR - 1) s }"

definition dplus :: "'w fstate \<Rightarrow> 'w fstate option" where
  "dplus s =
     do { (d2, s) \<leftarrow> DPOP s;
          (d1, s) \<leftarrow> DPOP s;
          DPUSH (d1 + d2) s }"

definition dminus :: "'w fstate \<Rightarrow> 'w fstate option" where
  "dminus s =
     do { (d2, s) \<leftarrow> DPOP s;
          (d1, s) \<leftarrow> DPOP s;
          DPUSH (d1 - d2) s }"

definition mmult :: "'w fstate \<Rightarrow> 'w fstate option" where
  "mmult s =
     do { (u2, s) \<leftarrow> POP s;
          (u1, s) \<leftarrow> POP s;
          DPUSH (scast u1 * scast u2) s }"

definition ummult :: "'w fstate \<Rightarrow> 'w fstate option" where
  "ummult s =
     do { (u2, s) \<leftarrow> POP s;
          (u1, s) \<leftarrow> POP s;
          DPUSH (ucast u1 * ucast u2) s }"

subsection \<open>Memory words\<close>

definition fetch :: "'w fstate \<Rightarrow> 'w fstate option" where
  "fetch s =
     do { (aaddr, s) \<leftarrow> POP s;
          v \<leftarrow> read_ucell (mem s) aaddr;
          PUSH v s }"

definition cfetch :: "'w fstate \<Rightarrow> 'w fstate option" where
  "cfetch s =
     do { (aaddr, s) \<leftarrow> POP s;
          v \<leftarrow> read_byte (mem s) aaddr;
          PUSH (ucast v) s }"

definition wfetch :: "'w fstate \<Rightarrow> 'w fstate option" where
  "wfetch s =
     do { (aaddr, s) \<leftarrow> POP s;
          v \<leftarrow> read_word (mem s) aaddr;
          PUSH (ucast v) s }"

definition lfetch :: "'w fstate \<Rightarrow> 'w fstate option" where
  "lfetch s =
     do { (aaddr, s) \<leftarrow> POP s;
          v \<leftarrow> read_long (mem s) aaddr;
          PUSH v s }"

definition store :: "'w fstate \<Rightarrow> 'w fstate option" where
  "store s =
     do { (aaddr, s) \<leftarrow> POP s;
          (x, s) \<leftarrow> POP s;
          m \<leftarrow> write_ucell (mem s) aaddr x;
          Some (s\<lparr>mem := m\<rparr>) }"

definition plusstore :: "'w fstate \<Rightarrow> 'w fstate option" where
  "plusstore s =
     do { (aaddr, s) \<leftarrow> POP s;
          (nu, s) \<leftarrow> POP s;
          v \<leftarrow> read_ucell (mem s) aaddr;
          m \<leftarrow> write_ucell (mem s) aaddr (v + nu);
          Some (s\<lparr>mem := m\<rparr>) }"

definition cstore :: "'w fstate \<Rightarrow> 'w fstate option" where
  "cstore s =
     do { (aaddr, s) \<leftarrow> POP s;
          (byte, s) \<leftarrow> POP s;
          m \<leftarrow> write_byte (mem s) aaddr (ucast byte);
          Some (s\<lparr>mem := m\<rparr>) }"

definition wstore :: "'w fstate \<Rightarrow> 'w fstate option" where
  "wstore s =
     do { (aaddr, s) \<leftarrow> POP s;
          (word, s) \<leftarrow> POP s;
          m \<leftarrow> write_word (mem s) aaddr (ucast word);
          Some (s\<lparr>mem := m\<rparr>) }"

definition lstore :: "'w fstate \<Rightarrow> 'w fstate option" where
  "lstore s =
     do { (aaddr, s) \<leftarrow> POP s;
          (longval, s) \<leftarrow> POP s;
          m \<leftarrow> write_long (mem s) aaddr longval;
          Some (s\<lparr>mem := m\<rparr>) }"

subsection \<open>Comparison\<close>

definition equals :: "'w fstate \<Rightarrow> 'w fstate option" where
  "equals s =
     do { (a, s) \<leftarrow> POP s;
          (b, s) \<leftarrow> POP s;
          PUSH (- c_bool (a = b)) s }"

definition greater_w :: "'w fstate \<Rightarrow> 'w fstate option" where
  "greater_w s =
     do { (a, s) \<leftarrow> POP s;
          (b, s) \<leftarrow> POP s;
          PUSH (- c_bool (sint a < sint b)) s }"

definition less_w :: "'w fstate \<Rightarrow> 'w fstate option" where
  "less_w s =
     do { (a, s) \<leftarrow> POP s;
          (b, s) \<leftarrow> POP s;
          PUSH (- c_bool (sint b < sint a)) s }"

definition ugreater :: "'w fstate \<Rightarrow> 'w fstate option" where
  "ugreater s =
     do { (a, s) \<leftarrow> POP s;
          (b, s) \<leftarrow> POP s;
          PUSH (- c_bool (a < b)) s }"

definition uless :: "'w fstate \<Rightarrow> 'w fstate option" where
  "uless s =
     do { (a, s) \<leftarrow> POP s;
          (b, s) \<leftarrow> POP s;
          PUSH (- c_bool (b < a)) s }"

subsection \<open>Blocks and unaligned access\<close>

definition spfetch :: "'w env \<Rightarrow> 'w fstate \<Rightarrow> 'w fstate option" where
  "spfetch E s =
     PUSH (dstack_addr E + cellsize * word_of_int (dstackcnt s)) s"

definition fmove :: "'w fstate \<Rightarrow> 'w fstate option" where
  "fmove s =
     do { (count, s) \<leftarrow> POP s;
          (dest, s) \<leftarrow> POP s;
          (src, s) \<leftarrow> POP s;
          m \<leftarrow> memmove (mem s) dest src count;
          Some (s\<lparr>mem := m\<rparr>) }"

definition ffill :: "'w fstate \<Rightarrow> 'w fstate option" where
  "ffill s =
     do { (v, s) \<leftarrow> POP s;
          (count, s) \<leftarrow> POP s;
          (src, s) \<leftarrow> POP s;
          m \<leftarrow> memset (mem s) src v count;
          Some (s\<lparr>mem := m\<rparr>) }"

definition unalignedwordread :: "'w fstate \<Rightarrow> 'w fstate option" where
  "unalignedwordread s =
     do { (addr, s) \<leftarrow> POP s;
          v \<leftarrow> unaligned_read_word (mem s) addr;
          PUSH v s }"

definition unalignedwordwrite :: "'w fstate \<Rightarrow> 'w fstate option" where
  "unalignedwordwrite s =
     do { (addr, s) \<leftarrow> POP s;
          (v, s) \<leftarrow> POP s;
          m \<leftarrow> unaligned_write_word (mem s) addr (ucast (ucast v :: u16));
          Some (s\<lparr>mem := m\<rparr>) }"

definition unalignedlongread :: "'w fstate \<Rightarrow> 'w fstate option" where
  "unalignedlongread s =
     do { (addr, s) \<leftarrow> POP s;
          v \<leftarrow> unaligned_read_long (mem s) addr;
          PUSH v s }"

definition unalignedlongwrite :: "'w fstate \<Rightarrow> 'w fstate option" where
  "unalignedlongwrite s =
     do { (addr, s) \<leftarrow> POP s;
          (l, s) \<leftarrow> POP s;
          m \<leftarrow> unaligned_write_long (mem s) addr l;
          Some (s\<lparr>mem := m\<rparr>) }"

definition here :: "'w fstate \<Rightarrow> 'w fstate option" where
  "here s =
     PUSH (dict s + dicthead s) s"

definition herewrite :: "'w env \<Rightarrow> 'w fstate \<Rightarrow> 'w fstate option" where
  "herewrite E s =
     do { (tmp, s) \<leftarrow> POP s;
          let s = s\<lparr>dicthead := tmp - dict s\<rparr>;
          if dictlimit s \<noteq> 0 \<and> sint (dictlimit s) \<le> sint (dicthead s)
          then Some (s\<lparr>world := printk E (''Dictionary space overflow: dicthead=%08x dictlimit=%08x'' @ [CHR 0x0A])
                                         [dicthead s, dictlimit s] (world s)\<rparr>)
          else Some s }"

subsection \<open>Console and ports\<close>

definition emit :: "'w env \<Rightarrow> 'w fstate \<Rightarrow> 'w fstate option" where
  "emit E s =
     do { (tmp, s) \<leftarrow> POP s;
          Some (s\<lparr>world := putchar E tmp (world s)\<rparr>) }"

definition iskey :: "'w env \<Rightarrow> 'w fstate \<Rightarrow> 'w fstate option" where
  "iskey E s =
     do { let (v, w) = availchar E (world s);
          PUSH v (s\<lparr>world := w\<rparr>) }"

partial_function (option) key_wait :: "'w env \<Rightarrow> 'w \<Rightarrow> 'w option" where
  "key_wait E w = (let (v, w) = availchar E w in if v = 0 then key_wait E w else Some w)"

definition key :: "'w env \<Rightarrow> 'w fstate \<Rightarrow> 'w fstate option" where
  "key E s =
     do { w \<leftarrow> key_wait E (world s);
          let (c, w) = getchar E w;
          PUSH c (s\<lparr>world := w\<rparr>) }"

definition iocfetch :: "'w env \<Rightarrow> 'w fstate \<Rightarrow> 'w fstate option" where
  "iocfetch E s =
     do { (reg, s) \<leftarrow> POP s;
          let (v, w) = inb E reg (world s);
          PUSH (ucast v) (s\<lparr>world := w\<rparr>) }"

definition iowfetch :: "'w env \<Rightarrow> 'w fstate \<Rightarrow> 'w fstate option" where
  "iowfetch E s =
     do { (reg, s) \<leftarrow> POP s;
          let (v, w) = inw E reg (world s);
          PUSH (ucast v) (s\<lparr>world := w\<rparr>) }"

definition iolfetch :: "'w env \<Rightarrow> 'w fstate \<Rightarrow> 'w fstate option" where
  "iolfetch E s =
     do { (reg, s) \<leftarrow> POP s;
          let (v, w) = inl E reg (world s);
          PUSH v (s\<lparr>world := w\<rparr>) }"

definition iocstore :: "'w env \<Rightarrow> 'w fstate \<Rightarrow> 'w fstate option" where
  "iocstore E s =
     do { (reg, s) \<leftarrow> POP s;
          (val, s) \<leftarrow> POP s;
          Some (s\<lparr>world := outb E (ucast val) reg (world s)\<rparr>) }"

definition iowstore :: "'w env \<Rightarrow> 'w fstate \<Rightarrow> 'w fstate option" where
  "iowstore E s =
     do { (reg, s) \<leftarrow> POP s;
          (val, s) \<leftarrow> POP s;
          Some (s\<lparr>world := outw E (ucast val) reg (world s)\<rparr>) }"

definition iolstore :: "'w env \<Rightarrow> 'w fstate \<Rightarrow> 'w fstate option" where
  "iolstore E s =
     do { (reg, s) \<leftarrow> POP s;
          (val, s) \<leftarrow> POP s;
          Some (s\<lparr>world := outl E val reg (world s)\<rparr>) }"

definition loop_i :: "'w fstate \<Rightarrow> 'w fstate option" where
  "loop_i s =
     do { v \<leftarrow> rstack_get (rstackcnt s) s;
          PUSH v s }"

definition loop_j :: "'w fstate \<Rightarrow> 'w fstate option" where
  "loop_j s =
     do { v \<leftarrow> rstack_get (rstackcnt s - 2) s;
          PUSH v s }"

end
