(* ===== verification/Forth_Interp.thy ===== *)
theory Forth_Interp
  imports Forth_Prims
begin

text \<open>
  The inner interpreter and the source debugger of \<open>kernel/forth.c\<close>: \<open>next\<close>, \<open>processxt\<close> over
  the table \<open>words[]\<close>, \<open>enterforth\<close>, and the debugger's variants. The debugger's console
  routines run Forth words themselves (\<open>while (rstackcnt > tmp) next();\<close>), and words of the table
  call the debugger, so the functions are mutually recursive. They take that loop as the argument
  \<open>con\<close>; \<open>con_run\<close> ties the knot with fuel, one unit for each step. Running out of fuel is
  \<open>None\<close>, and every theorem about a run shows how much fuel is enough.
\<close>

type_synonym 'w runner = "int \<Rightarrow> 'w fstate \<Rightarrow> 'w fstate option"

abbreviation DOSEMIS :: ucell where "DOSEMIS \<equiv> 0"
abbreviation DOCOL :: ucell where "DOCOL \<equiv> 1"
abbreviation DEBUG_MODE_NONE :: nat where "DEBUG_MODE_NONE \<equiv> 0"
abbreviation DEBUG_MODE_STEP :: nat where "DEBUG_MODE_STEP \<equiv> 1"
abbreviation DEBUG_MODE_TRACE :: nat where "DEBUG_MODE_TRACE \<equiv> 2"
abbreviation DEBUG_MODE_STEPUP :: nat where "DEBUG_MODE_STEPUP \<equiv> 3"
abbreviation FORTH_INTSTAT_STOP :: "32 word" where "FORTH_INTSTAT_STOP \<equiv> 1"
abbreviation FORTH_INTSTAT_DBG :: "32 word" where "FORTH_INTSTAT_DBG \<equiv> 2"
abbreviation MAXNFALEN :: u32 where "MAXNFALEN \<equiv> 128"

subsection \<open>Console output and input through Forth words\<close>

fun write_bytes :: "memory \<Rightarrow> ucell \<Rightarrow> u8 list \<Rightarrow> memory option" where
  "write_bytes m a [] = Some m"
| "write_bytes m a (b # bs) = do { m \<leftarrow> write_byte m a b; write_bytes m (a + 1) bs }"

text \<open>Enter a named word through the trampoline and run until the return stack is back.\<close>

definition run_named :: "'w env \<Rightarrow> 'w runner \<Rightarrow> string \<Rightarrow> int \<Rightarrow> 'w fstate \<Rightarrow> 'w fstate option" where
  "run_named E con name tmp s =
     do { xt \<leftarrow> findword s (cstr name);
          m \<leftarrow> write_ucell (mem s) (trampoline E + cellsize) xt;
          s \<leftarrow> PUSHR (PC s) (s\<lparr>mem := m\<rparr>);
          con tmp (s\<lparr>PC := trampoline E\<rparr>) }"

text \<open>\<open>printf_console\<close> on text already formatted; the buffer takes 511 bytes and a terminator.\<close>

definition printf_console :: "'w env \<Rightarrow> 'w runner \<Rightarrow> u8 list \<Rightarrow> 'w fstate \<Rightarrow> 'w fstate option" where
  "printf_console E con txt s =
     do { let buf = take 511 txt;
          m \<leftarrow> write_bytes (mem s) (console_buf E) (buf @ [0]);
          let s = s\<lparr>mem := m\<rparr>;
          let tmp = rstackcnt s;
          s \<leftarrow> PUSH (console_buf E) s;
          s \<leftarrow> PUSH (of_nat (length buf)) s;
          run_named E con ''type'' tmp s }"

definition getchar_console :: "'w env \<Rightarrow> 'w runner \<Rightarrow> 'w fstate \<Rightarrow> (ucell \<times> 'w fstate) option" where
  "getchar_console E con s = do { s \<leftarrow> run_named E con ''key'' (rstackcnt s) s; POP s }"

text \<open>\<open>%x\<close> and \<open>%p\<close> of a 32-bit value.\<close>

definition hex_digit :: "nat \<Rightarrow> u8" where
  "hex_digit d = (if d < 10 then 48 + of_nat d else 87 + of_nat d)"

fun hex_nat :: "nat \<Rightarrow> u8 list" where
  "hex_nat n = (if n < 16 then [hex_digit n] else hex_nat (n div 16) @ [hex_digit (n mod 16)])"

declare hex_nat.simps [simp del]

definition fmt_x :: "ucell \<Rightarrow> u8 list" where
  "fmt_x v = hex_nat (unat v)"

definition fmt_p :: "ucell \<Rightarrow> u8 list" where
  "fmt_p v = replicate (8 - length (fmt_x v)) 48 @ fmt_x v"

text \<open>The loops that show a stack: items 1 up to the count, a blank between two of them.\<close>

partial_function (option) show_cells ::
  "'w env \<Rightarrow> 'w runner \<Rightarrow> ('w fstate \<Rightarrow> int) \<Rightarrow> (int \<Rightarrow> 'w fstate \<Rightarrow> cell option) \<Rightarrow> int \<Rightarrow> 'w fstate \<Rightarrow> 'w fstate option" where
  "show_cells E con cnt get i s =
     (if i \<le> cnt s then
        do { s \<leftarrow> (if i \<noteq> 1 then printf_console E con (cstr '' '') s else Some s);
             v \<leftarrow> get i s;
             s \<leftarrow> printf_console E con (fmt_x v) s;
             show_cells E con cnt get (i + 1) s }
      else Some s)"

definition display_dbg_dstack :: "'w env \<Rightarrow> 'w runner \<Rightarrow> 'w fstate \<Rightarrow> 'w fstate option" where
  "display_dbg_dstack E con s =
     (if dstackcnt s = 0 then printf_console E con (cstr '' ( Empty ) '') s
      else do { s \<leftarrow> printf_console E con (cstr '' ( '') s;
                s \<leftarrow> show_cells E con dstackcnt dstack_get 1 s;
                printf_console E con (cstr '' ) '') s })"

definition display_dbg_rstack :: "'w env \<Rightarrow> 'w runner \<Rightarrow> 'w fstate \<Rightarrow> 'w fstate option" where
  "display_dbg_rstack E con s =
     (if rstackcnt s = 0 then printf_console E con (cstr '' ( Empty ) '') s
      else do { s \<leftarrow> printf_console E con (10 # cstr ''R: ( '') s;
                s \<leftarrow> show_cells E con rstackcnt rstack_get 1 s;
                printf_console E con (cstr '' ) '' @ [10]) s })"

text \<open>\<open>fstrncpy(xtname, lfa2nfa(lfa), MAXNFALEN)\<close> and the text then read from \<open>xtname\<close>.\<close>

definition load_xtname :: "'w env \<Rightarrow> ucell \<Rightarrow> 'w fstate \<Rightarrow> (u8 list \<times> 'w fstate) option" where
  "load_xtname E lfa s =
     do { nfa \<leftarrow> lfa2nfa s lfa;
          s \<leftarrow> fstrncpy (xtname E) nfa MAXNFALEN s;
          n \<leftarrow> strlen (at (mem s) (xtname E));
          Some (map (\<lambda>i. the (mem s (xtname E + of_nat i))) [0..<n], s) }"

definition debug_banner :: "u8 list" where
  "debug_banner = 10 # cstr ''Stepper keys: <space>/<enter> Up Down Trace Rstack Forth'' @ [10]"

subsection \<open>The list of debugged words\<close>

definition dbg_deref :: "'w fstate \<Rightarrow> nat \<Rightarrow> (debug_xt \<times> debug_xt list) option" where
  "dbg_deref s k =
     (case dropWhile (\<lambda>n. dx_id n \<noteq> k) (debug_xt_list s) of [] \<Rightarrow> None | n # rest \<Rightarrow> Some (n, rest))"

definition dbg_set_mode :: "nat \<Rightarrow> nat \<Rightarrow> 'w fstate \<Rightarrow> 'w fstate" where
  "dbg_set_mode k md s =
     s\<lparr>debug_xt_list := map (\<lambda>n. if dx_id n = k then n\<lparr>dbg_mode := md\<rparr> else n) (debug_xt_list s)\<rparr>"

definition add_debug_xt :: "'w env \<Rightarrow> 'w runner \<Rightarrow> ucell \<Rightarrow> 'w fstate \<Rightarrow> (bool \<times> 'w fstate) option" where
  "add_debug_xt E con xt s =
     do { v \<leftarrow> read_ucell (mem s) xt;
          if v \<noteq> DOCOL
          then do { s \<leftarrow> printf_console E con (10 # cstr ''primitive words cannot be debugged'' @ [10]) s;
                    Some (False, s) }
          else if xt \<in> set (map xt_docol (butlast (debug_xt_list s))) then Some (True, s)
          else do { e \<leftarrow> findsemis s xt;
                    let item = \<lparr>dx_id = dbg_fresh s, xt_docol = xt, xt_semis = e, dbg_mode = DEBUG_MODE_NONE\<rparr>;
                    Some (True, s\<lparr>debug_xt_list := item # debug_xt_list s,
                                  dbg_fresh := Suc (dbg_fresh s),
                                  interruptforth := interruptforth s OR FORTH_INTSTAT_DBG\<rparr>) } }"

text \<open>
  The removal loop looks at the node after the current one; having unlinked it, it moves on to the
  node after that, and following a \<open>NULL\<close> link is undefined.
\<close>

fun del_loop :: "ucell \<Rightarrow> debug_xt list \<Rightarrow> debug_xt list option" where
  "del_loop xt [] = None"
| "del_loop xt [item] = Some [item]"
| "del_loop xt (item # n # rest) =
     (if xt_docol n = xt then do { r \<leftarrow> del_loop xt rest; Some (item # r) }
      else do { r \<leftarrow> del_loop xt (n # rest); Some (item # r) })"

definition del_debug_xt :: "ucell \<Rightarrow> 'w fstate \<Rightarrow> 'w fstate option" where
  "del_debug_xt xt s =
     (case debug_xt_list s of
        [] \<Rightarrow> None
      | item # rest \<Rightarrow>
          if xt_docol item = xt then Some (s\<lparr>debug_xt_list := rest\<rparr>)
          else do { l \<leftarrow> del_loop xt (item # rest);
                    let s = s\<lparr>debug_xt_list := l\<rparr>;
                    Some (if tl l = [] then s\<lparr>interruptforth := interruptforth s OR FORTH_INTSTAT_DBG\<rparr>
                          else s) })"

text \<open>A walk along the list; the links are followed in the list as it is then.\<close>

partial_function (option) dbg_walk :: "(nat \<Rightarrow> 'w fstate \<Rightarrow> 'w fstate option) \<Rightarrow> nat \<Rightarrow> 'w fstate \<Rightarrow> 'w fstate option" where
  "dbg_walk body k s =
     do { (n, rest) \<leftarrow> dbg_deref s k;
          if rest = [] then Some s
          else do { s \<leftarrow> body k s;
                    (n, rest) \<leftarrow> dbg_deref s k;
                    case rest of [] \<Rightarrow> None | r # _ \<Rightarrow> dbg_walk body (dx_id r) s } }"

definition dbg_head :: "'w fstate \<Rightarrow> nat option" where
  "dbg_head s = (case debug_xt_list s of [] \<Rightarrow> None | n # _ \<Rightarrow> Some (dx_id n))"

subsection \<open>The source debugger\<close>

partial_function (option) source_dbg_keys :: "'w env \<Rightarrow> 'w runner \<Rightarrow> nat \<Rightarrow> u8 \<Rightarrow> 'w fstate \<Rightarrow> 'w fstate option" where
  "source_dbg_keys E con item k s =
     (if k = 32 \<or> k = 10 then Some s
      else if k = 117 \<or> k = 85 then Some (dbg_set_mode item DEBUG_MODE_STEPUP s)
      else if k = 100 \<or> k = 68 then
        do { xt \<leftarrow> read_ucell (mem s) (PC s);
             (done, s) \<leftarrow> add_debug_xt E con xt s;
             if done then Some s
             else do { (c, s) \<leftarrow> getchar_console E con s; source_dbg_keys E con item (ucast c) s } }
      else if k = 116 \<or> k = 84 then Some (dbg_set_mode item DEBUG_MODE_TRACE s)
      else if k = 114 \<or> k = 82 then
        do { s \<leftarrow> display_dbg_rstack E con s;
             (c, s) \<leftarrow> getchar_console E con s; source_dbg_keys E con item (ucast c) s }
      else if k = 102 \<or> k = 70 then
        do { s \<leftarrow> PUSHR (PC s - cellsize) s;
             xt \<leftarrow> findword s (cstr ''outer-interpreter'');
             Some (s\<lparr>PC := xt + cellsize, dbgrstackcnt := rstackcnt s\<rparr>) }
      else
        do { s \<leftarrow> printf_console E con debug_banner s;
             (c, s) \<leftarrow> getchar_console E con s; source_dbg_keys E con item (ucast c) s })"

definition do_source_dbg :: "'w env \<Rightarrow> 'w runner \<Rightarrow> nat \<Rightarrow> 'w fstate \<Rightarrow> 'w fstate option" where
  "do_source_dbg E con item s =
     do { s \<leftarrow> display_dbg_dstack E con s;
          s \<leftarrow> printf_console E con [10] s;
          xt \<leftarrow> read_ucell (mem s) (PC s);
          (name, s) \<leftarrow> load_xtname E (xt - cellsize) s;
          s \<leftarrow> printf_console E con (fmt_p (PC s) @ cstr '': '' @ name @ cstr '' '') s;
          (n, _) \<leftarrow> dbg_deref s item;
          if dbg_mode n = DEBUG_MODE_TRACE then Some s
          else do { (c, s) \<leftarrow> getchar_console E con s; source_dbg_keys E con item (ucast c) s } }"

definition docol_dbg :: "'w env \<Rightarrow> 'w runner \<Rightarrow> 'w fstate \<Rightarrow> 'w fstate option" where
  "docol_dbg E con s =
     do { s \<leftarrow> PUSHR (PC s) s;
          pc \<leftarrow> read_ucell (mem s) (PC s);
          let s = s\<lparr>PC := pc\<rparr>;
          h \<leftarrow> dbg_head s;
          dbg_walk (\<lambda>k s. do { (n, _) \<leftarrow> dbg_deref s k;
                               if xt_docol n = PC s
                               then do { (name, s) \<leftarrow> load_xtname E (PC s - cellsize) s;
                                         s \<leftarrow> printf_console E con (10 # cstr '': '' @ name @ cstr '' '') s;
                                         Some (dbg_set_mode k DEBUG_MODE_STEP s) }
                               else Some s }) h s }"

partial_function (option) semis_walk :: "'w env \<Rightarrow> 'w runner \<Rightarrow> nat option \<Rightarrow> nat \<Rightarrow> 'w fstate \<Rightarrow> (nat option \<times> 'w fstate) option" where
  "semis_walk E con up k s =
     do { (n, rest) \<leftarrow> dbg_deref s k;
          if rest = [] then Some (up, s)
          else do { (up, s) \<leftarrow>
                      (if xt_semis n = PC s then
                         if dbg_mode n \<noteq> DEBUG_MODE_STEPUP
                         then do { (name, s) \<leftarrow> load_xtname E (xt_docol n - cellsize) s;
                                   s \<leftarrow> printf_console E con (10 # cstr ''[ Finished '' @ name @ cstr '' ] '') s;
                                   Some (up, dbg_set_mode k DEBUG_MODE_STEP s) }
                         else Some (Some k, s)
                       else Some (up, s));
                    (n, rest) \<leftarrow> dbg_deref s k;
                    case rest of [] \<Rightarrow> None | r # _ \<Rightarrow> semis_walk E con up (dx_id r) s } }"

definition semis_dbg :: "'w env \<Rightarrow> 'w runner \<Rightarrow> 'w fstate \<Rightarrow> 'w fstate option" where
  "semis_dbg E con s =
     do { h \<leftarrow> dbg_head s;
          (up, s) \<leftarrow> semis_walk E con None h s;
          s \<leftarrow> (case up of
                  None \<Rightarrow> Some s
                | Some k \<Rightarrow>
                    do { top \<leftarrow> rstack_get (rstackcnt s) s;
                         (n, _) \<leftarrow> dbg_deref s k;
                         if top \<noteq> trampoline E + cellsize
                         then do { s \<leftarrow> del_debug_xt (xt_docol n) s;
                                   xt \<leftarrow> findxtfromcell s top;
                                   (_, s) \<leftarrow> add_debug_xt E con xt s;
                                   top \<leftarrow> rstack_get (rstackcnt s) s;
                                   xt \<leftarrow> findxtfromcell s top;
                                   (name, s) \<leftarrow> load_xtname E (xt - cellsize) s;
                                   printf_console E con (10 # cstr ''[ Up to '' @ name @ cstr '' ] '') s }
                         else do { xt \<leftarrow> findxtfromcell s (xt_docol n);
                                   (name, s) \<leftarrow> load_xtname E (xt - cellsize) s;
                                   s \<leftarrow> printf_console E con
                                     (10 # cstr ''[ Finished '' @ name @ cstr '' (Unable to go up, hit trampoline) ] '') s;
                                   del_debug_xt (xt_docol n) s } });
          (pc, s) \<leftarrow> POPR s;
          Some (s\<lparr>PC := pc\<rparr>) }"

definition do_debug_xt :: "'w env \<Rightarrow> 'w runner \<Rightarrow> 'w fstate \<Rightarrow> 'w fstate option" where
  "do_debug_xt E con s =
     do { (xt, s) \<leftarrow> POP s;
          (ok, s) \<leftarrow> add_debug_xt E con xt s;
          if ok then do { s \<leftarrow> printf_console E con debug_banner s;
                          Some (s\<lparr>interruptforth := interruptforth s OR FORTH_INTSTAT_DBG\<rparr>) }
          else Some s }"

partial_function (option) do_debug_off :: "'w fstate \<Rightarrow> 'w fstate option" where
  "do_debug_off s =
     (case debug_xt_list s of
        [] \<Rightarrow> None
      | item # rest \<Rightarrow> if rest = [] then Some s
                     else do { s \<leftarrow> del_debug_xt (xt_docol item) s; do_debug_off s })"

subsection \<open>The table of native words and the inner interpreter\<close>

definition words :: "'w env \<Rightarrow> 'w runner \<Rightarrow> ('w fstate \<Rightarrow> 'w fstate option) list" where
  "words E con =
     [semis, docol, lit, docon, dovar, dodefer, dodoes E, dodo, doisdo, doloop, doplusloop,
      doival, doivar, doidefer,
      fdup, twodup, isdup, over, twoover, pick, drop_w, twodrop, nip, roll, rot, minusrot, swap,
      twoswap, tor, rto, rfetch, depth, depthwrite, rdepth, rdepthwrite, plus_w, minus_w, mult,
      umult, mudivmod, forthabs, negate, max_w, min_w, lshift, rshift, rshifta, and_w, or_w, xor_w,
      invert, dplus, dminus, mmult, ummult, fetch, cfetch, wfetch, lfetch, store, plusstore, cstore,
      wstore, lstore, equals, greater_w, less_w, ugreater, uless, spfetch E, fmove, ffill, emit E,
      iskey E, key E, execute E, here, herewrite E, dobranch, docbranch, unalignedwordread,
      unalignedwordwrite, unalignedlongread, unalignedlongwrite, iocfetch E, iowfetch E, iolfetch E,
      iocstore E, iowstore E, iolstore E, loop_i, loop_j, call E, sysdebug, do_include,
      do_encode_file, do_debug_xt E con, do_debug_off]"

definition processxt :: "'w env \<Rightarrow> 'w runner \<Rightarrow> ucell \<Rightarrow> 'w fstate \<Rightarrow> 'w fstate option" where
  "processxt E con xt s =
     (if unat xt < length (words E con) then (words E con ! unat xt) s else None)"

definition next_xt :: "'w env \<Rightarrow> 'w runner \<Rightarrow> 'w fstate \<Rightarrow> 'w fstate option" where
  "next_xt E con s =
     do { let s = s\<lparr>PC := PC s + cellsize\<rparr>;
          a \<leftarrow> read_ucell (mem s) (PC s);
          xt \<leftarrow> read_ucell (mem s) a;
          processxt E con xt s }"

definition next_dbg :: "'w env \<Rightarrow> 'w runner \<Rightarrow> 'w fstate \<Rightarrow> 'w fstate option" where
  "next_dbg E con s =
     do { let s = s\<lparr>PC := PC s + cellsize\<rparr>;
          h \<leftarrow> dbg_head s;
          s \<leftarrow> dbg_walk (\<lambda>k s. do { (n, _) \<leftarrow> dbg_deref s k;
                                    if xt_docol n \<le> PC s \<and> PC s \<le> xt_semis n \<and> dbg_mode n \<noteq> DEBUG_MODE_STEPUP
                                    then do_source_dbg E con k s else Some s }) h s;
          a \<leftarrow> read_ucell (mem s) (PC s);
          xt \<leftarrow> read_ucell (mem s) a;
          if xt = DOCOL then docol_dbg E con s
          else if xt = DOSEMIS then semis_dbg E con s
          else processxt E con xt s }"

fun con_run :: "'w env \<Rightarrow> nat \<Rightarrow> int \<Rightarrow> 'w fstate \<Rightarrow> 'w fstate option" where
  "con_run E 0 tmp s = None"
| "con_run E (Suc n) tmp s =
     (if rstackcnt s > tmp then do { s \<leftarrow> next_xt E (con_run E n) s; con_run E n tmp s } else Some s)"

text \<open>The inner loop of \<open>enterforth\<close>, with or without the debugger, and the loop around it.\<close>

fun enter_inner :: "'w env \<Rightarrow> nat \<Rightarrow> bool \<Rightarrow> int \<Rightarrow> 'w fstate \<Rightarrow> 'w fstate option" where
  "enter_inner E 0 dbg tmp s = None"
| "enter_inner E (Suc n) dbg tmp s =
     (if rstackcnt s > tmp \<and> interruptforth s = 0
      then do { s \<leftarrow> (if dbg then next_dbg E (con_run E n) s else next_xt E (con_run E n) s);
                enter_inner E n dbg tmp s }
      else Some s)"

fun enter_outer :: "'w env \<Rightarrow> nat \<Rightarrow> int \<Rightarrow> 'w fstate \<Rightarrow> 'w fstate option" where
  "enter_outer E 0 tmp s = None"
| "enter_outer E (Suc n) tmp s =
     (if rstackcnt s > tmp \<and> interruptforth s AND FORTH_INTSTAT_STOP = 0
      then do { s \<leftarrow> enter_inner E n (tl (debug_xt_list s) \<noteq> []) tmp s;
                enter_outer E n tmp (s\<lparr>interruptforth := interruptforth s AND NOT FORTH_INTSTAT_DBG\<rparr>) }
      else Some s)"

definition enterforth :: "'w env \<Rightarrow> nat \<Rightarrow> ucell \<Rightarrow> 'w fstate \<Rightarrow> (bool \<times> 'w fstate) option" where
  "enterforth E fuel xt s =
     do { v \<leftarrow> read_ucell (mem s) xt;
          (cfa, s) \<leftarrow> (if v \<noteq> DOCOL
                       then do { m \<leftarrow> write_ucell (mem s) (trampoline E + cellsize) xt;
                                 Some (trampoline E, s\<lparr>mem := m\<rparr>) }
                       else Some (xt, s));
          let s = (if rstackcnt s < 0 then s\<lparr>rstackcnt := 0\<rparr> else s);
          let tmp = rstackcnt s;
          let s = s\<lparr>interruptforth := 0\<rparr>;
          s \<leftarrow> PUSHR (PC s) s;
          s \<leftarrow> enter_outer E fuel tmp (s\<lparr>PC := cfa\<rparr>);
          Some (rstackcnt s \<noteq> tmp, s) }"

end
