(* ===== verification/Forth_Spec.thy ===== *)
theory Forth_Spec
  imports Forth_Interp
begin

text \<open>
  What the Forth words promise, stated on the stack as a list, top first, and keyed by the names
  under which \<open>kernel/bootstrap.c\<close> enters the primitives into the dictionary; and the refinement:
  the entry of \<open>words[]\<close> with the same index implements it and changes nothing but the data stack.
\<close>

subsection \<open>Names and specifications\<close>

definition wordnames :: "string list" where
  "wordnames =
     [''(semis)'', '''', ''(lit)'', '''', '''', '''', '''', ''(do)'', ''(?do)'', ''(loop)'',
      ''(+loop)'', '''', '''', '''', ''dup'', ''2dup'', ''?dup'', ''over'', ''2over'', ''pick'', ''drop'',
      ''2drop'', ''nip'', ''roll'', ''rot'', ''-rot'', ''swap'', ''2swap'', ''>r'', ''r>'',
      ''r@'', ''depth'', ''depth!'', ''rdepth'', ''rdepth!'', ''+'', ''-'', ''*'', ''u*'',
      ''mu/mod'', ''abs'', ''negate'', ''max'', ''min'', ''lshift'', ''rshift'', ''>>a'',
      ''and'', ''or'', ''xor'', ''invert'', ''d+'', ''d-'', ''m*'', ''um*'', ''@'', ''c@'',
      ''w@'', ''l@'', ''!'', ''+!'', ''c!'', ''w!'', ''l!'', ''='', ''>'', ''<'', ''u>'', ''u<'',
      ''sp@'', ''move'', ''fill'', ''(emit)'', ''(key?)'', ''(key)'', ''execute'',
      ''here'', ''here!'', ''dobranch'', ''do?branch'', ''unaligned-w@'',
      ''unaligned-w!'', ''unaligned-l@'', ''unaligned-l!'', ''ioc@'', ''iow@'',
      ''iol@'', ''ioc!'', ''iow!'', ''iol!'', ''i'', ''j'', ''call'', ''sys-debug'',
      ''$include'', ''$encode-file'', ''(debug'', ''(debug-off)'']"

type_synonym stack_fn = "cell list \<Rightarrow> cell list option"

definition flag :: "bool \<Rightarrow> cell" where
  "flag b = (if b then - 1 else 0)"

definition unop :: "(cell \<Rightarrow> cell) \<Rightarrow> stack_fn" where
  "unop g st = (case st of a # r \<Rightarrow> Some (g a # r) | _ \<Rightarrow> None)"

definition binop :: "(cell \<Rightarrow> cell \<Rightarrow> cell) \<Rightarrow> stack_fn" where
  "binop g st = (case st of b # a # r \<Rightarrow> Some (g a b # r) | _ \<Rightarrow> None)"

definition shiftop :: "(nat \<Rightarrow> cell \<Rightarrow> cell) \<Rightarrow> stack_fn" where
  "shiftop g st = (case st of u # x # r \<Rightarrow> if unat u < 32 then Some (g (unat u) x # r) else None | _ \<Rightarrow> None)"

text \<open>A double cell has its high half on top.\<close>

definition double :: "cell \<Rightarrow> cell \<Rightarrow> ducell" where
  "double hi lo = push_bit 32 (ucast hi) OR ucast lo"

definition dhi :: "ducell \<Rightarrow> cell" where "dhi d = ucast (drop_bit 32 d)"
definition dlo :: "ducell \<Rightarrow> cell" where "dlo d = ucast d"

definition dbinop :: "(ducell \<Rightarrow> ducell \<Rightarrow> ducell) \<Rightarrow> stack_fn" where
  "dbinop g st =
     (case st of h2 # l2 # h1 # l1 # r \<Rightarrow>
        let d = g (double h1 l1) (double h2 l2) in Some (dhi d # dlo d # r) | _ \<Rightarrow> None)"

definition prodop :: "(cell \<Rightarrow> cell \<Rightarrow> ducell) \<Rightarrow> stack_fn" where
  "prodop g st = (case st of b # a # r \<Rightarrow> Some (dhi (g a b) # dlo (g a b) # r) | _ \<Rightarrow> None)"

definition stack_words :: "(string \<times> stack_fn) list" where
  "stack_words =
     [(''dup'', \<lambda>st. case st of x # r \<Rightarrow> Some (x # x # r) | _ \<Rightarrow> None),
      (''2dup'', \<lambda>st. case st of x2 # x1 # r \<Rightarrow> Some (x2 # x1 # x2 # x1 # r) | _ \<Rightarrow> None),
      (''?dup'', \<lambda>st. case st of x # r \<Rightarrow> Some (if x = 0 then x # r else x # x # r) | _ \<Rightarrow> None),
      (''over'', \<lambda>st. case st of y # x # r \<Rightarrow> Some (x # y # x # r) | _ \<Rightarrow> None),
      (''2over'', \<lambda>st. case st of x4 # x3 # x2 # x1 # r \<Rightarrow> Some (x2 # x1 # x4 # x3 # x2 # x1 # r) | _ \<Rightarrow> None),
      (''pick'', \<lambda>st. case st of u # r \<Rightarrow> if unat u < length r then Some (r ! unat u # r) else None | _ \<Rightarrow> None),
      (''drop'', \<lambda>st. case st of x # r \<Rightarrow> Some r | _ \<Rightarrow> None),
      (''2drop'', \<lambda>st. case st of x2 # x1 # r \<Rightarrow> Some r | _ \<Rightarrow> None),
      (''nip'', \<lambda>st. case st of x2 # x1 # r \<Rightarrow> Some (x2 # r) | _ \<Rightarrow> None),
      (''roll'', \<lambda>st. case st of u # r \<Rightarrow> if unat u < length r
                   then Some (r ! unat u # take (unat u) r @ drop (Suc (unat u)) r) else None | _ \<Rightarrow> None),
      (''rot'', \<lambda>st. case st of x3 # x2 # x1 # r \<Rightarrow> Some (x1 # x3 # x2 # r) | _ \<Rightarrow> None),
      (''-rot'', \<lambda>st. case st of x3 # x2 # x1 # r \<Rightarrow> Some (x2 # x1 # x3 # r) | _ \<Rightarrow> None),
      (''swap'', \<lambda>st. case st of x2 # x1 # r \<Rightarrow> Some (x1 # x2 # r) | _ \<Rightarrow> None),
      (''2swap'', \<lambda>st. case st of x4 # x3 # x2 # x1 # r \<Rightarrow> Some (x2 # x1 # x4 # x3 # r) | _ \<Rightarrow> None),
      (''depth'', \<lambda>st. Some (of_nat (length st) # st)),
      (''+'', binop (+)), (''-'', binop (-)), (''*'', binop (*)), (''u*'', binop (*)),
      (''mu/mod'', \<lambda>st. case st of b # hi # lo # r \<Rightarrow>
                     if b = 0 then None
                     else let q = double hi lo div ucast b in
                       Some (dhi q # dlo q # ucast (double hi lo mod ucast b) # r) | _ \<Rightarrow> None),
      (''abs'', unop (\<lambda>x. if sint x < 0 then - x else x)), (''negate'', unop uminus),
      (''max'', binop (\<lambda>a b. if sint a \<le> sint b then b else a)),
      (''min'', binop (\<lambda>a b. if sint a \<le> sint b then a else b)),
      (''lshift'', shiftop push_bit), (''rshift'', shiftop drop_bit), (''>>a'', shiftop signed_drop_bit),
      (''and'', binop (AND)), (''or'', binop (OR)), (''xor'', binop (XOR)), (''invert'', unop NOT),
      (''d+'', dbinop (+)), (''d-'', dbinop (-)),
      (''m*'', prodop (\<lambda>a b. word_of_int (sint a * sint b))),
      (''um*'', prodop (\<lambda>a b. word_of_int (uint a * uint b))),
      (''='', binop (\<lambda>a b. flag (a = b))),
      (''>'', binop (\<lambda>a b. flag (sint b < sint a))), (''<'', binop (\<lambda>a b. flag (sint a < sint b))),
      (''u>'', binop (\<lambda>a b. flag (b < a))), (''u<'', binop (\<lambda>a b. flag (a < b)))]"

subsection \<open>Refinement\<close>

definition setds :: "'w fstate \<Rightarrow> int \<Rightarrow> (int \<Rightarrow> cell) \<Rightarrow> 'w fstate" where
  "setds s c f = s\<lparr>dstackcnt := c, dstack := f\<rparr>"

definition refines :: "('w fstate \<Rightarrow> 'w fstate option) \<Rightarrow> stack_fn \<Rightarrow> bool" where
  "refines w g \<longleftrightarrow>
     (\<forall>s ys. ds_ok s \<longrightarrow> g (ds s) = Some ys \<longrightarrow> length ys \<le> 511 \<longrightarrow>
        (\<exists>c f. w s = Some (setds s c f) \<and> ds_ok (setds s c f) \<and> ds (setds s c f) = ys))"

lemma setds_self: "setds s (dstackcnt s) (dstack s) = s"
  by (simp add: setds_def)

lemma setds_simps [simp]:
  "dstackcnt (setds s c f) = c" "dstack (setds s c f) = f"
  "setds (setds s c f) c' f' = setds s c' f'"
  "ds (setds s c f) = items f c" "ds_ok (setds s c f) \<longleftrightarrow> 0 \<le> c \<and> c < 512"
  by (simp_all add: setds_def ds_ok_def ds_def)

lemma setds_ops:
  "POP (setds s c f) = (if in_stack c then Some (f c, setds s (c - 1) f) else None)"
  "PUSH v (setds s c f) = (if in_stack (c + 1) then Some (setds s (c + 1) (f(c + 1 := v))) else None)"
  "GETTOS (setds s c f) = (if in_stack c then Some (f c) else None)"
  "GETITEM n (setds s c f) = (if in_stack (c - n) then Some (f (c - n)) else None)"
  "dstack_get i (setds s c f) = (if in_stack i then Some (f i) else None)"
  "dstack_set i v (setds s c f) = (if in_stack i then Some (setds s c (f(i := v))) else None)"
  by (simp_all add: stack_defs setds_def)

text \<open>
  A small calculus of stack words. \<open>st s xs t\<close>: \<open>t\<close> differs from \<open>s\<close> in the data stack only, which
  holds \<open>xs\<close>; \<open>leaves s ys r\<close>: the computation \<open>r\<close> ends in such a state. One rule for each way a
  word touches the stack; a word's proof is a walk through its text.
\<close>

definition st :: "'w fstate \<Rightarrow> cell list \<Rightarrow> 'w fstate \<Rightarrow> bool" where
  "st s xs t \<longleftrightarrow> t = setds s (dstackcnt t) (dstack t) \<and> ds_ok t \<and> ds t = xs"

definition leaves :: "'w fstate \<Rightarrow> cell list \<Rightarrow> 'w fstate option \<Rightarrow> bool" where
  "leaves s ys r \<longleftrightarrow> (\<exists>t. r = Some t \<and> st s ys t)"

lemma st_iff: "st s xs t \<longleftrightarrow> (\<exists>c f. t = setds s c f \<and> 0 \<le> c \<and> c < 512 \<and> items f c = xs)"
proof
  assume "st s xs t"
  then have "t = setds s (dstackcnt t) (dstack t)" and "0 \<le> dstackcnt t \<and> dstackcnt t < 512 \<and>
      items (dstack t) (dstackcnt t) = xs"
    by (simp_all add: st_def ds_ok_def ds_def)
  then show "\<exists>c f. t = setds s c f \<and> 0 \<le> c \<and> c < 512 \<and> items f c = xs" by metis
qed (auto simp: st_def)

lemma refinesI:
  assumes "\<And>s t xs ys. st s xs t \<Longrightarrow> g xs = Some ys \<Longrightarrow> length ys \<le> 511 \<Longrightarrow> leaves s ys (w t)"
  shows "refines w g"
  unfolding refines_def
proof (intro allI impI)
  fix s :: "'a fstate" and ys
  assume "ds_ok s" and "g (ds s) = Some ys" and "length ys \<le> 511"
  moreover from this have "st s (ds s) s" by (simp add: st_def setds_self)
  ultimately have "leaves s ys (w s)" using assms by blast
  then show "\<exists>c f. w s = Some (setds s c f) \<and> ds_ok (setds s c f) \<and> ds (setds s c f) = ys"
    by (auto simp: leaves_def st_iff)
qed

lemma wp_Some: "st s ys t \<Longrightarrow> leaves s ys (Some t)"
  by (simp add: leaves_def)

lemma st_POP:
  assumes "st s (x # xs) t"
  shows "\<exists>t'. POP t = Some (x, t') \<and> st s xs t'"
proof -
  from assms(1) obtain c f where t: "t = setds s c f" "0 \<le> c" "c < 512" "items f c = x # xs"
    by (auto simp: st_iff)
  then have c: "0 < c" "f c = x" "items f (c - 1) = xs" by (simp_all add: items_Cons_iff)
  then have "st s xs (setds s (c - 1) f)"
    using t unfolding st_iff by (intro exI [of _ "c - 1"] exI [of _ f]) simp
  with t c show ?thesis by (simp add: setds_ops in_stack_def)
qed

lemma wp_POP:
  assumes "st s (x # xs) t" and "\<And>t'. st s xs t' \<Longrightarrow> leaves s ys (k x t')"
  shows "leaves s ys (Option.bind (POP t) (\<lambda>(v, u). k v u))"
  using st_POP [OF assms(1)] assms(2) by auto

lemma wp_PUSH:
  assumes "st s xs t" and "length xs < 511" and "\<And>t'. st s (v # xs) t' \<Longrightarrow> leaves s ys (k t')"
  shows "leaves s ys (Option.bind (PUSH v t) k)"
proof -
  from assms(1) obtain c f where t: "t = setds s c f" "0 \<le> c" "c < 512" "items f c = xs"
    by (auto simp: st_iff)
  with assms(2) have c: "c < 511" by auto
  have "items (f(c + 1 := v)) (c + 1) = v # xs" using t items_Suc [of c "f(c + 1 := v)"] by simp
  with t(2) c have "st s (v # xs) (setds s (c + 1) (f(c + 1 := v)))"
    unfolding st_iff by (intro exI [of _ "c + 1"] exI [of _ "f(c + 1 := v)"]) simp
  with t c assms(3) show ?thesis by (simp add: setds_ops in_stack_def)
qed

lemma wp_PUSH_last:
  assumes "st s xs t" and "length xs < 511" and "v # xs = ys"
  shows "leaves s ys (PUSH v t)"
  using wp_PUSH [OF assms(1,2), of v ys Some] assms(3) wp_Some by fastforce

lemma wp_GETITEM:
  assumes "st s xs t" and "0 \<le> n" and "nat n < length xs" and "leaves s ys (k (xs ! nat n))"
  shows "leaves s ys (Option.bind (GETITEM n t) k)"
proof -
  from assms(1) obtain c f where t: "t = setds s c f" "0 \<le> c" "c < 512" "items f c = xs"
    by (auto simp: st_iff)
  with assms(2,3) have "xs ! nat n = f (c - n)" and "0 \<le> c - n" and "c - n < 512"
    using nth_items [of "nat n" c f] by auto
  with t assms(4) show ?thesis by (simp add: setds_ops in_stack_def)
qed

lemma GETTOS_GETITEM: "GETTOS t = GETITEM 0 t"
  by (simp add: GETTOS_def GETITEM_def)

lemmas wps = wp_Some wp_POP wp_PUSH wp_PUSH_last wp_GETITEM

lemmas spec_defs = unop_def binop_def shiftop_def dbinop_def prodop_def

lemma wp_DPOP:
  assumes "st s (h # l # xs) t" and "\<And>t'. st s xs t' \<Longrightarrow> leaves s ys (k (double h l) t')"
  shows "leaves s ys (Option.bind (DPOP t) (\<lambda>(v, u). k v u))"
proof -
  from st_POP [OF assms(1)] obtain t1 where 1: "POP t = Some (h, t1)" "st s (l # xs) t1" by blast
  from st_POP [OF 1(2)] obtain t2 where 2: "POP t1 = Some (l, t2)" "st s xs t2" by blast
  from 1 2 assms(2) show ?thesis by (simp add: DPOP_def double_def)
qed

lemma wp_DPUSH_last:
  assumes "st s xs t" and "length xs < 510" and "dhi v # dlo v # xs = ys"
  shows "leaves s ys (DPUSH v t)"
  unfolding DPUSH_def using assms
  by (auto simp: dhi_def dlo_def intro!: wp_PUSH [of s xs] wp_PUSH_last)

lemma sint_inject: "sint a = sint b \<longleftrightarrow> a = (b :: ucell)"
  by (auto intro: signed_word_eqI)

lemma max_min_simps:
  "(if sint a < sint b then b else a) = (if sint a \<le> sint b then b else (a :: ucell))"
  "(if sint b < sint a then b else a) = (if sint a \<le> sint b then a else (b :: ucell))"
  using sint_inject [of a b] by auto

lemma shift32_unat:
  fixes u :: ucell
  shows
  "unat u < 32 \<Longrightarrow> shl32 x (uint u) = Some (push_bit (unat u) x)"
  "unat u < 32 \<Longrightarrow> shr32 x (uint u) = Some (drop_bit (unat u) x)"
  "unat u < 32 \<Longrightarrow> sar32 x (sint u) = Some (signed_drop_bit (unat u) x)"
proof -
  assume u: "unat u < 32"
  have "uint u = int (unat u)" by simp
  with u have v: "0 \<le> uint u" "uint u < 32" by linarith+
  have "sint u = uint u" using u sint_eq_unat [of u] by simp
  with v show "sar32 x (sint u) = Some (signed_drop_bit (unat u) x)"
    by (simp add: sar32_def)
  show "shl32 x (uint u) = Some (push_bit (unat u) x)" "shr32 x (uint u) = Some (drop_bit (unat u) x)"
    using v by (simp_all add: shl32_def shr32_def)
qed


lemma fdup_refines: "refines fdup (\<lambda>st. case st of x # r \<Rightarrow> Some (x # x # r) | _ \<Rightarrow> None)"
  by (rule refinesI) (auto simp: fdup_def spec_defs Let_def GETTOS_GETITEM intro!: wps wp_DPOP wp_DPUSH_last split: list.splits if_splits)

lemma twodup_refines: "refines twodup (\<lambda>st. case st of x2 # x1 # r \<Rightarrow> Some (x2 # x1 # x2 # x1 # r) | _ \<Rightarrow> None)"
  by (rule refinesI) (auto simp: twodup_def spec_defs Let_def  intro!: wps wp_DPOP wp_DPUSH_last split: list.splits if_splits)

lemma isdup_refines: "refines isdup (\<lambda>st. case st of x # r \<Rightarrow> Some (if x = 0 then x # r else x # x # r) | _ \<Rightarrow> None)"
  by (rule refinesI) (auto simp: isdup_def spec_defs Let_def GETTOS_GETITEM intro!: wps wp_DPOP wp_DPUSH_last split: list.splits if_splits)

lemma over_refines: "refines over (\<lambda>st. case st of y # x # r \<Rightarrow> Some (x # y # x # r) | _ \<Rightarrow> None)"
  by (rule refinesI) (auto simp: over_def spec_defs Let_def  intro!: wps wp_DPOP wp_DPUSH_last split: list.splits if_splits)

lemma twoover_refines: "refines twoover (\<lambda>st. case st of x4 # x3 # x2 # x1 # r \<Rightarrow> Some (x2 # x1 # x4 # x3 # x2 # x1 # r) | _ \<Rightarrow> None)"
  by (rule refinesI) (auto simp: twoover_def spec_defs Let_def  intro!: wps wp_DPOP wp_DPUSH_last split: list.splits if_splits)

lemma drop_w_refines: "refines drop_w (\<lambda>st. case st of x # r \<Rightarrow> Some r | _ \<Rightarrow> None)"
  by (rule refinesI) (auto simp: drop_w_def spec_defs Let_def  intro!: wps wp_DPOP wp_DPUSH_last split: list.splits if_splits)

lemma twodrop_refines: "refines twodrop (\<lambda>st. case st of x2 # x1 # r \<Rightarrow> Some r | _ \<Rightarrow> None)"
  by (rule refinesI) (auto simp: twodrop_def spec_defs Let_def  intro!: wps wp_DPOP wp_DPUSH_last split: list.splits if_splits)

lemma nip_refines: "refines nip (\<lambda>st. case st of x2 # x1 # r \<Rightarrow> Some (x2 # r) | _ \<Rightarrow> None)"
  by (rule refinesI) (auto simp: nip_def spec_defs Let_def  intro!: wps wp_DPOP wp_DPUSH_last split: list.splits if_splits)

lemma rot_refines: "refines rot (\<lambda>st. case st of x3 # x2 # x1 # r \<Rightarrow> Some (x1 # x3 # x2 # r) | _ \<Rightarrow> None)"
  by (rule refinesI) (auto simp: rot_def spec_defs Let_def  intro!: wps wp_DPOP wp_DPUSH_last split: list.splits if_splits)

lemma minusrot_refines: "refines minusrot (\<lambda>st. case st of x3 # x2 # x1 # r \<Rightarrow> Some (x2 # x1 # x3 # r) | _ \<Rightarrow> None)"
  by (rule refinesI) (auto simp: minusrot_def spec_defs Let_def  intro!: wps wp_DPOP wp_DPUSH_last split: list.splits if_splits)

lemma swap_refines: "refines swap (\<lambda>st. case st of x2 # x1 # r \<Rightarrow> Some (x1 # x2 # r) | _ \<Rightarrow> None)"
  by (rule refinesI) (auto simp: swap_def spec_defs Let_def  intro!: wps wp_DPOP wp_DPUSH_last split: list.splits if_splits)

lemma twoswap_refines: "refines twoswap (\<lambda>st. case st of x4 # x3 # x2 # x1 # r \<Rightarrow> Some (x2 # x1 # x4 # x3 # r) | _ \<Rightarrow> None)"
  by (rule refinesI) (auto simp: twoswap_def spec_defs Let_def  intro!: wps wp_DPOP wp_DPUSH_last split: list.splits if_splits)

lemma plus_w_refines: "refines plus_w (binop (+))"
  by (rule refinesI) (auto simp: plus_w_def spec_defs Let_def add.commute intro!: wps wp_DPOP wp_DPUSH_last split: list.splits if_splits)

lemma minus_w_refines: "refines minus_w (binop (-))"
  by (rule refinesI) (auto simp: minus_w_def spec_defs Let_def  intro!: wps wp_DPOP wp_DPUSH_last split: list.splits if_splits)

lemma mult_refines: "refines mult (binop (*))"
  by (rule refinesI) (auto simp: mult_def spec_defs Let_def  intro!: wps wp_DPOP wp_DPUSH_last split: list.splits if_splits)

lemma umult_refines: "refines umult (binop (*))"
  by (rule refinesI) (auto simp: umult_def spec_defs Let_def mult.commute intro!: wps wp_DPOP wp_DPUSH_last split: list.splits if_splits)

lemma forthabs_refines: "refines forthabs (unop (\<lambda>x. if sint x < 0 then - x else x))"
  by (rule refinesI) (auto simp: forthabs_def spec_defs Let_def GETTOS_GETITEM intro!: wps wp_DPOP wp_DPUSH_last split: list.splits if_splits)

lemma negate_refines: "refines negate (unop uminus)"
  by (rule refinesI) (auto simp: negate_def spec_defs Let_def  intro!: wps wp_DPOP wp_DPUSH_last split: list.splits if_splits)

lemma max_w_refines: "refines max_w (binop (\<lambda>a b. if sint a \<le> sint b then b else a))"
  by (rule refinesI) (auto simp: max_w_def spec_defs Let_def max_min_simps intro!: wps wp_DPOP wp_DPUSH_last split: list.splits if_splits)

lemma min_w_refines: "refines min_w (binop (\<lambda>a b. if sint a \<le> sint b then a else b))"
  by (rule refinesI) (auto simp: min_w_def spec_defs Let_def max_min_simps intro!: wps wp_DPOP wp_DPUSH_last split: list.splits if_splits)

lemma lshift_refines: "refines lshift (shiftop push_bit)"
  by (rule refinesI) (auto simp: lshift_def spec_defs Let_def shift32_unat intro!: wps wp_DPOP wp_DPUSH_last split: list.splits if_splits)

lemma rshift_refines: "refines rshift (shiftop drop_bit)"
  by (rule refinesI) (auto simp: rshift_def spec_defs Let_def shift32_unat intro!: wps wp_DPOP wp_DPUSH_last split: list.splits if_splits)

lemma rshifta_refines: "refines rshifta (shiftop signed_drop_bit)"
  by (rule refinesI) (auto simp: rshifta_def spec_defs Let_def shift32_unat intro!: wps wp_DPOP wp_DPUSH_last split: list.splits if_splits)

lemma and_w_refines: "refines and_w (binop (AND))"
  by (rule refinesI) (auto simp: and_w_def spec_defs Let_def and.commute intro!: wps wp_DPOP wp_DPUSH_last split: list.splits if_splits)

lemma or_w_refines: "refines or_w (binop (OR))"
  by (rule refinesI) (auto simp: or_w_def spec_defs Let_def or.commute intro!: wps wp_DPOP wp_DPUSH_last split: list.splits if_splits)

lemma xor_w_refines: "refines xor_w (binop (XOR))"
  by (rule refinesI) (auto simp: xor_w_def spec_defs Let_def xor.commute intro!: wps wp_DPOP wp_DPUSH_last split: list.splits if_splits)

lemma invert_refines: "refines invert (unop NOT)"
  by (rule refinesI) (auto simp: invert_def spec_defs Let_def  intro!: wps wp_DPOP wp_DPUSH_last split: list.splits if_splits)

lemma dplus_refines: "refines dplus (dbinop (+))"
  by (rule refinesI) (auto simp: dplus_def spec_defs Let_def  intro!: wps wp_DPOP wp_DPUSH_last split: list.splits if_splits)

lemma dminus_refines: "refines dminus (dbinop (-))"
  by (rule refinesI) (auto simp: dminus_def spec_defs Let_def  intro!: wps wp_DPOP wp_DPUSH_last split: list.splits if_splits)

lemma mmult_refines: "refines mmult (prodop (\<lambda>a b. word_of_int (sint a * sint b)))"
  by (rule refinesI) (auto simp: mmult_def spec_defs Let_def  intro!: wps wp_DPOP wp_DPUSH_last split: list.splits if_splits)

lemma ummult_refines: "refines ummult (prodop (\<lambda>a b. word_of_int (uint a * uint b)))"
  by (rule refinesI) (auto simp: ummult_def spec_defs Let_def  intro!: wps wp_DPOP wp_DPUSH_last split: list.splits if_splits)

lemma equals_refines: "refines equals (binop (\<lambda>a b. flag (a = b)))"
  by (rule refinesI) (auto simp: equals_def spec_defs Let_def neg_c_bool flag_def intro!: wps wp_DPOP wp_DPUSH_last split: list.splits if_splits)

lemma greater_w_refines: "refines greater_w (binop (\<lambda>a b. flag (sint b < sint a)))"
  by (rule refinesI) (auto simp: greater_w_def spec_defs Let_def neg_c_bool flag_def intro!: wps wp_DPOP wp_DPUSH_last split: list.splits if_splits)

lemma less_w_refines: "refines less_w (binop (\<lambda>a b. flag (sint a < sint b)))"
  by (rule refinesI) (auto simp: less_w_def spec_defs Let_def neg_c_bool flag_def intro!: wps wp_DPOP wp_DPUSH_last split: list.splits if_splits)

lemma ugreater_refines: "refines ugreater (binop (\<lambda>a b. flag (b < a)))"
  by (rule refinesI) (auto simp: ugreater_def spec_defs Let_def neg_c_bool flag_def intro!: wps wp_DPOP wp_DPUSH_last split: list.splits if_splits)

lemma uless_refines: "refines uless (binop (\<lambda>a b. flag (a < b)))"
  by (rule refinesI) (auto simp: uless_def spec_defs Let_def neg_c_bool flag_def intro!: wps wp_DPOP wp_DPUSH_last split: list.splits if_splits)

lemma st_depth: "st s xs t \<Longrightarrow> dstackcnt t = int (length xs)"
  by (auto simp: st_iff)

lemma depth_refines: "refines depth (\<lambda>st. Some (of_nat (length st) # st))"
  by (rule refinesI) (auto simp: depth_def st_depth intro!: wps)

lemma ucast64_eq_0: "ucast (b :: ucell) = (0 :: u64) \<longleftrightarrow> b = 0"
proof
  assume "ucast b = (0 :: u64)"
  then have "bit (ucast b :: u64) n = bit (0 :: u64) n" for n by simp
  then have "\<not> bit b n" if "n < 32" for n using that by (auto simp: bit_simps)
  then show "b = 0" by (intro bit_word_eqI) simp
qed simp

lemma mudivmod_refines: "refines mudivmod (\<lambda>st. case st of b # hi # lo # r \<Rightarrow>
     if b = 0 then None
     else let q = double hi lo div ucast b in
       Some (dhi q # dlo q # ucast (double hi lo mod ucast b) # r) | _ \<Rightarrow> None)"
  by (rule refinesI)
    (auto simp: mudivmod_def Let_def umoddi3_eq udivdi3_eq ucast64_eq_0
      intro!: wps wp_DPOP wp_DPUSH_last split: list.splits if_splits)

text \<open>For an index inside the stack, the signed comparison of \<open>pick\<close> and \<open>roll\<close> is the unsigned one.\<close>

lemma sint_index:
  assumes "unat (u :: ucell) < length r" and "st s r t"
  shows "sint u = int (unat u)" and "sint u \<le> dstackcnt t"
proof -
  from assms(2) have "length r \<le> 511" by (auto simp: st_iff)
  then have "unat u < 2 ^ 31" using assms(1) by simp
  then show "sint u = int (unat u)" by (rule sint_eq_unat)
  then show "sint u \<le> dstackcnt t" using assms(1) st_depth [OF assms(2)] by linarith
qed

lemma pick_refines: "refines pick (\<lambda>st. case st of u # r \<Rightarrow>
     if unat u < length r then Some (r ! unat u # r) else None | _ \<Rightarrow> None)"
proof (rule refinesI)
  fix s t :: "'a fstate" and xs ys
  assume t: "st s xs t" and g: "(case xs of [] \<Rightarrow> None | u # r \<Rightarrow>
     if unat u < length r then Some (r ! unat u # r) else None) = Some ys" and l: "length ys \<le> 511"
  then obtain u r where x: "xs = u # r" "unat u < length r" "ys = r ! unat u # r"
    by (auto split: list.splits if_splits)
  from st_POP [of s u r t] t x(1) obtain t' where p: "POP t = Some (u, t')" and t': "st s r t'" by auto
  note i = sint_index [OF x(2) t']
  have "leaves s ys (Option.bind (GETITEM (int (unat u)) t') (\<lambda>tmp. PUSH tmp t'))"
    using x l t' by (intro wp_GETITEM [OF t'] wp_PUSH_last) auto
  then show "leaves s ys (pick t)"
    using p i by (simp add: pick_def GETITEM_def)
qed

lemma roll_loop_eq:
  assumes "0 \<le> i" and "i + int n < 512"
  shows "roll_loop i n (setds s c f) = Some (setds s c (\<lambda>k. if i \<le> k \<and> k < i + int n then f (k + 1) else f k))"
  using assms
proof (induction n arbitrary: i f)
  case (Suc n)
  have "(\<lambda>k. if i + 1 \<le> k \<and> k < i + 1 + int n then (f(i := f (i + 1))) (k + 1) else (f(i := f (i + 1))) k)
          = (\<lambda>k. if i \<le> k \<and> k < i + int (Suc n) then f (k + 1) else f k)"
    by (rule ext) auto
  with Suc show ?case by (simp add: setds_ops in_stack_def)
next
  case 0
  have "(\<lambda>k. if i \<le> k \<and> k < i + int 0 then f (k + 1) else f k) = f" by (rule ext) auto
  then show ?case by simp
qed

lemma items_rolled:
  assumes "u < length r" and "items f c = r" and "0 \<le> c"
  shows "items ((\<lambda>k. if c - int u \<le> k \<and> k < c then f (k + 1) else f k)(c := f (c - int u))) c
           = r ! u # take u r @ drop (Suc u) r" (is "items ?g c = ?ys")
proof (rule nth_equalityI)
  have len: "nat c = length r" using assms(2) by auto
  show "length (items ?g c) = length ?ys" using assms(1) len by simp
  fix j
  assume "j < length (items ?g c)"
  then have j: "j < length r" using len by simp
  have r: "r ! i = f (c - int i)" if "i < length r" for i
    using nth_items [of i c f] that len assms(2) by simp
  consider "j = 0" | i where "j = Suc i" "i < u" | i where "j = Suc i" "u \<le> i"
    by (metis not0_implies_Suc not_le)
  then show "items ?g c ! j = ?ys ! j"
    using assms(1) j len by cases (auto simp: nth_items r nth_append algebra_simps)
qed

lemma roll_refines: "refines roll (\<lambda>st. case st of u # r \<Rightarrow>
     if unat u < length r then Some (r ! unat u # take (unat u) r @ drop (Suc (unat u)) r) else None
     | _ \<Rightarrow> None)"
proof (rule refinesI)
  fix s t :: "'a fstate" and xs ys
  assume t: "st s xs t" and g: "(case xs of [] \<Rightarrow> None | u # r \<Rightarrow>
     if unat u < length r then Some (r ! unat u # take (unat u) r @ drop (Suc (unat u)) r) else None) = Some ys"
  then obtain u r where x: "xs = u # r" "unat u < length r"
      "ys = r ! unat u # take (unat u) r @ drop (Suc (unat u)) r"
    by (auto split: list.splits if_splits)
  from st_POP [of s u r t] t x(1) obtain t' where p: "POP t = Some (u, t')" and t': "st s r t'" by auto
  note i = sint_index [OF x(2) t']
  from t' obtain c f where c: "t' = setds s c f" "0 \<le> c" "c < 512" "items f c = r"
    by (auto simp: st_iff)
  then have u: "int (unat u) < c" using x(2) by (auto simp: zless_nat_eq_int_zless)
  let ?g = "(\<lambda>k. if c - int (unat u) \<le> k \<and> k < c then f (k + 1) else f k)(c := f (c - int (unat u)))"
  have "roll t = Some (setds s c ?g)"
  proof -
    have b: "in_stack c" "in_stack (c - int (unat u))"
      unfolding in_stack_def using c(2,3) u by linarith+
    have l: "roll_loop (c - int (unat u)) (unat u) (setds s c f)
        = Some (setds s c (\<lambda>k. if c - int (unat u) \<le> k \<and> k < c then f (k + 1) else f k))"
      using roll_loop_eq [of "c - int (unat u)" "unat u" s c f] c(2,3) u by simp
    show ?thesis unfolding roll_def using p i b l by (simp add: c(1) setds_ops)
  qed
  moreover have "st s ys (setds s c ?g)"
    using items_rolled [OF x(2) c(4,2)] c(2,3) x(3) unfolding st_iff by blast
  ultimately show "leaves s ys (roll t)" by (simp add: leaves_def)
qed

lemmas word_refines = fdup_refines twodup_refines isdup_refines over_refines twoover_refines
  pick_refines drop_w_refines twodrop_refines nip_refines roll_refines rot_refines minusrot_refines
  swap_refines twoswap_refines depth_refines plus_w_refines minus_w_refines mult_refines
  umult_refines mudivmod_refines forthabs_refines negate_refines max_w_refines min_w_refines
  lshift_refines rshift_refines rshifta_refines and_w_refines or_w_refines xor_w_refines
  invert_refines dplus_refines dminus_refines mmult_refines ummult_refines equals_refines
  greater_w_refines less_w_refines ugreater_refines uless_refines

text \<open>
  The names and the table agree in length, and the index of each specified name leads to a word
  that implements its specification. The table is walked once, as a list of pairs.
\<close>

lemma words_length: "length wordnames = 98" "length (words E con) = 98"
  by (simp_all add: wordnames_def words_def)

lemma table_refines:
  "list_all (\<lambda>(name, w). case map_of stack_words name of None \<Rightarrow> True | Some g \<Rightarrow> refines w g)
     (zip wordnames (words E con))"
  by (simp add: wordnames_def words_def stack_words_def word_refines
      mmult_refines [simplified] ummult_refines [simplified])

text \<open>
  C2: the refinement of the stack words. For every index of the name table whose name has a
  specification, the entry of \<open>words[]\<close> at that index, run on a state with a well-formed data
  stack on which the specification gives \<open>ys\<close> (at most 511 items), returns; the stack then
  holds \<open>ys\<close>, is well-formed, and nothing but the data stack has changed.
\<close>

theorem words_refine_spec:
  assumes "i < length wordnames" and "map_of stack_words (wordnames ! i) = Some g"
    and "ds_ok s" and "g (ds s) = Some ys" and "length ys \<le> 511"
  shows "\<exists>c f. (words E con ! i) s = Some (s\<lparr>dstackcnt := c, dstack := f\<rparr>) \<and>
           ds_ok (s\<lparr>dstackcnt := c, dstack := f\<rparr>) \<and> ds (s\<lparr>dstackcnt := c, dstack := f\<rparr>) = ys"
proof -
  have "i < length (zip wordnames (words E con))" using assms(1) by (simp add: words_length)
  then have "refines (words E con ! i) g"
    using table_refines [of E con] assms(1,2) by (auto simp: list_all_length)
  with assms(3-5) show ?thesis by (auto simp: refines_def setds_def)
qed

theorem words_refine_spec_witness:
  "\<exists>c f. (words bare_env (\<lambda>_ _. None) ! 26)
            ((init_fstate Map.empty ())\<lparr>dstackcnt := 2, dstack := (\<lambda>i. word_of_int i)\<rparr>)
          = Some ((init_fstate Map.empty ())\<lparr>dstackcnt := c, dstack := f\<rparr>) \<and> items f c = [1, 2]"
proof -
  let ?s = "(init_fstate Map.empty ())\<lparr>dstackcnt := 2, dstack := (\<lambda>i. word_of_int i)\<rparr>"
  let ?g = "\<lambda>st. case st of x2 # x1 # r \<Rightarrow> Some (x1 # x2 # r) | _ \<Rightarrow> None"
  have 1: "26 < length wordnames" by (simp add: words_length)
  have 2: "map_of stack_words (wordnames ! 26) = Some ?g"
    by (simp add: wordnames_def stack_words_def)
  have d: "ds ?s = [2, 1]" by (simp add: items_pred)
  have 3: "ds_ok ?s" by (simp add: ds_ok_def)
  have 4: "?g (ds ?s) = Some [1, 2]" by (simp only: d list.case)
  show ?thesis
    using words_refine_spec [OF 1 2 3 4, of bare_env "\<lambda>_ _. None"] by simp blast
qed

text \<open>
  The guard of \<open>pick\<close> (and of \<open>roll\<close>) is \<open>dstackcnt >= u\<close>. It lets \<open>u\<close> equal to the depth
  through, one item more than there is: the word then reads slot 0, below the stack.
\<close>

lemma pick_below_stack:
  assumes "ds_ok s" and "ds s = u # r" and "unat u = length r"
  shows "\<exists>t. pick s = Some t \<and> ds t = dstack s 0 # r"
proof -
  have "st s (u # r) s" using assms by (simp add: st_def setds_self)
  from st_POP [OF this] obtain t where p: "POP s = Some (u, t)" and t: "st s r t" by blast
  then obtain c f where c: "t = setds s c f" "0 \<le> c" "c < 512" "items f c = r" by (auto simp: st_iff)
  have f: "f = dstack s"
    using p c(1) by (auto simp: POP_def dstack_get_def setds_def bind_eq_Some_iff split: if_splits dest!: arg_cong [where f = dstack])
  have lr: "int (length r) = c" and "length r \<le> 511" using c by auto
  then have u: "sint u = c" using assms(3) sint_eq_unat [of u] by simp
  have i: "in_stack 0" "in_stack (c + 1)" if "length r < 511"
    using that lr by (auto simp: in_stack_def)
  have "length r < 511" using assms(1,2) dstk.view_le [of s] by simp
  then show ?thesis
    using p u c f i items_Suc [of c "(dstack s)(c + 1 := dstack s 0)"]
    by (simp add: pick_def setds_ops)
qed

end
