(* ===== verification/Forth_Run.thy ===== *)
theory Forth_Run
  imports Forth_Spec
begin

text \<open>
  Threaded code. A colon definition is compiled to a sequence of cells that the inner interpreter
  follows. Here the source side is a small structured language of stack words, numbers, calls of
  other colon definitions, conditionals and counted loops, with its meaning on the stack as a list;
  \<open>compiled\<close> says that memory holds the code the Forth compiler lays out for it. The theorems
  show that the interpreter of \<open>kernel/forth.c\<close>, started by \<open>enterforth\<close>, computes that meaning
  and leaves the rest of the engine as it was.
\<close>

subsection \<open>Structured programs\<close>

datatype item =
    SWord nat
  | Num ucell
  | LoopI
  | Colon "item list"
  | Cond "item list" "item list"
  | DoLoop "item list"

definition apply_word :: "nat \<Rightarrow> cell list \<Rightarrow> cell list option" where
  "apply_word i sk =
     (if i < length wordnames then
        case map_of stack_words (wordnames ! i) of
          None \<Rightarrow> None
        | Some g \<Rightarrow> (case g sk of None \<Rightarrow> None | Some ys \<Rightarrow> if length ys \<le> 511 then Some ys else None)
      else None)"

definition push_item :: "cell \<Rightarrow> cell list \<Rightarrow> cell list option" where
  "push_item v sk = (if length sk < 511 then Some (v # sk) else None)"

fun iterate :: "(cell \<Rightarrow> cell list \<Rightarrow> cell list option) \<Rightarrow> nat \<Rightarrow> cell \<Rightarrow> cell list \<Rightarrow> cell list option" where
  "iterate f 0 i sk = Some sk"
| "iterate f (Suc n) i sk = do { sk \<leftarrow> f i sk; iterate f n (i + 1) sk }"

text \<open>The number of turns of \<open>do \<dots> loop\<close>: at least one, and up to the limit.\<close>

definition turns :: "cell \<Rightarrow> cell \<Rightarrow> nat" where
  "turns start lim = (if sint start < sint lim then nat (sint lim - sint start) else 1)"

text \<open>\<open>li\<close> is the index of the innermost loop of the current definition.\<close>

fun run_items :: "cell option \<Rightarrow> item list \<Rightarrow> cell list \<Rightarrow> cell list option" where
  "run_items li [] sk = Some sk"
| "run_items li (SWord i # its) sk = do { sk \<leftarrow> apply_word i sk; run_items li its sk }"
| "run_items li (Num v # its) sk = do { sk \<leftarrow> push_item v sk; run_items li its sk }"
| "run_items li (LoopI # its) sk = do { i \<leftarrow> li; sk \<leftarrow> push_item i sk; run_items li its sk }"
| "run_items li (Colon body # its) sk = do { sk \<leftarrow> run_items None body sk; run_items li its sk }"
| "run_items li (Cond t e # its) sk =
     (case sk of [] \<Rightarrow> None
      | x # r \<Rightarrow> do { sk \<leftarrow> (if x \<noteq> 0 then run_items li t r else run_items li e r); run_items li its sk })"
| "run_items li (DoLoop body # its) sk =
     (case sk of start # lim # r \<Rightarrow>
        if sint start + 1 < 2 ^ 31
        then do { sk \<leftarrow> iterate (\<lambda>i sk. run_items (Some i) body sk) (turns start lim) start r;
                  run_items li its sk }
        else None
      | _ \<Rightarrow> None)"

text \<open>Return stack cells in use at the deepest point, beyond those at the start.\<close>

fun rneed :: "item list \<Rightarrow> nat" where
  "rneed [] = 0"
| "rneed (SWord i # its) = rneed its"
| "rneed (Num v # its) = rneed its"
| "rneed (LoopI # its) = rneed its"
| "rneed (Colon body # its) = max (Suc (rneed body)) (rneed its)"
| "rneed (Cond t e # its) = max (max (rneed t) (rneed e)) (rneed its)"
| "rneed (DoLoop body # its) = max (Suc (Suc (rneed body))) (rneed its)"

subsection \<open>Compiled code\<close>

definition tok_at :: "memory \<Rightarrow> ucell \<Rightarrow> nat \<Rightarrow> bool" where
  "tok_at m a i \<longleftrightarrow> i < 98 \<and> (case read_ucell m a of None \<Rightarrow> False | Some c \<Rightarrow> read_ucell m c = Some (of_nat i))"

fun csize :: "item list \<Rightarrow> ucell" where
  "csize [] = 0"
| "csize (SWord i # its) = 4 + csize its"
| "csize (Num v # its) = 8 + csize its"
| "csize (LoopI # its) = 4 + csize its"
| "csize (Colon body # its) = 4 + csize its"
| "csize (Cond t e # its) = 16 + csize t + csize e + csize its"
| "csize (DoLoop body # its) = 12 + csize body + csize its"

fun compiled :: "memory \<Rightarrow> ucell \<Rightarrow> item list \<Rightarrow> bool" where
  "compiled m a [] \<longleftrightarrow> True"
| "compiled m a (SWord i # its) \<longleftrightarrow> tok_at m a i \<and> compiled m (a + 4) its"
| "compiled m a (Num v # its) \<longleftrightarrow> tok_at m a 2 \<and> read_ucell m (a + 4) = Some v \<and> compiled m (a + 8) its"
| "compiled m a (LoopI # its) \<longleftrightarrow> tok_at m a 90 \<and> compiled m (a + 4) its"
| "compiled m a (Colon body # its) \<longleftrightarrow>
     (case read_ucell m a of None \<Rightarrow> False
      | Some c \<Rightarrow> read_ucell m c = Some 1 \<and> compiled m (c + 4) body \<and> tok_at m (c + 4 + csize body) 0) \<and>
     compiled m (a + 4) its"
| "compiled m a (Cond t e # its) \<longleftrightarrow>
     tok_at m a 79 \<and> read_ucell m (a + 4) = Some (csize t + 8) \<and> compiled m (a + 8) t \<and>
     tok_at m (a + 8 + csize t) 78 \<and> read_ucell m (a + 12 + csize t) = Some (csize e) \<and>
     compiled m (a + 16 + csize t) e \<and> compiled m (a + 16 + csize t + csize e) its"
| "compiled m a (DoLoop body # its) \<longleftrightarrow>
     tok_at m a 7 \<and> compiled m (a + 4) body \<and> tok_at m (a + 4 + csize body) 9 \<and>
     read_ucell m (a + 8 + csize body) = Some (- (csize body + 8)) \<and>
     compiled m (a + 12 + csize body) its"

lemma control_tokens:
  "wordnames ! 0 = ''(semis)''" "wordnames ! 2 = ''(lit)''" "wordnames ! 7 = ''(do)''"
  "wordnames ! 9 = ''(loop)''" "wordnames ! 78 = ''dobranch''" "wordnames ! 79 = ''do?branch''"
  "wordnames ! 90 = ''i''"
  by (simp_all add: wordnames_def)

lemma words_nth:
  "words E con ! 0 = semis" "words E con ! 1 = docol" "words E con ! 2 = lit" "words E con ! 7 = dodo"
  "words E con ! 9 = doloop" "words E con ! 78 = dobranch" "words E con ! 79 = docbranch"
  "words E con ! 90 = loop_i"
  by (simp_all add: words_def)

lemma words_split:
  "words E con = take 96 (words E (\<lambda>_ _. None)) @ [do_debug_xt E con, do_debug_off]"
  by (simp add: words_def)

lemma words_con_irrelevant:
  assumes "i < 96"
  shows "words E con ! i = words E con' ! i"
proof -
  have "words E c ! i = take 96 (words E (\<lambda>_ _. None)) ! i" for c
    using assms by (subst words_split) (simp add: nth_append words_length)
  then show ?thesis by simp
qed

lemma apply_word_refines:
  assumes "apply_word i sk = Some ys"
  obtains g where "i < 96" and "refines (words E con ! i) g" and "g sk = Some ys" and "length ys \<le> 511"
proof -
  from assms obtain g where i: "i < length wordnames" and g: "map_of stack_words (wordnames ! i) = Some g"
    and ys: "g sk = Some ys" "length ys \<le> 511"
    by (auto simp: apply_word_def split: if_splits option.splits)
  have "i \<noteq> 96" using g by (auto simp: wordnames_def stack_words_def)
  moreover have "i \<noteq> 97" using g by (auto simp: wordnames_def stack_words_def)
  ultimately have "i < 96" using i by (simp add: words_length)
  moreover have "refines (words E con ! i) g"
    using table_refines [of E con] i g by (auto simp: list_all_length words_length)
  ultimately show ?thesis using that ys by blast
qed

subsection \<open>Runs of the inner interpreter\<close>

inductive steps :: "'w env \<Rightarrow> int \<Rightarrow> nat \<Rightarrow> 'w fstate \<Rightarrow> 'w fstate \<Rightarrow> bool" for E tmp where
  steps_0: "steps E tmp 0 s s"
| steps_Suc: "tmp < rstackcnt s \<Longrightarrow> interruptforth s = 0 \<Longrightarrow> (\<And>con. next_xt E con s = Some t) \<Longrightarrow>
    steps E tmp n t u \<Longrightarrow> steps E tmp (Suc n) s u"

lemma steps_trans: "steps E tmp n s t \<Longrightarrow> steps E tmp k t u \<Longrightarrow> steps E tmp (n + k) s u"
  by (induction rule: steps.induct) (auto intro: steps.intros)

lemma steps_one:
  assumes "tmp < rstackcnt s" "interruptforth s = 0" "\<And>con. next_xt E con s = Some t"
  shows "steps E tmp 1 s t"
  using steps_Suc [OF assms steps_0] by simp

lemma steps_inner:
  "steps E tmp n s u \<Longrightarrow> enter_inner E (n + fuel) False tmp s = enter_inner E fuel False tmp u"
  by (induction rule: steps.induct) simp_all

lemma steps_con_run:
  "steps E tmp n s u \<Longrightarrow> con_run E (n + fuel) tmp s = con_run E fuel tmp u"
  by (induction rule: steps.induct) simp_all

text \<open>
  \<open>base s t\<close>: \<open>t\<close> differs from \<open>s\<close> in the program counter and the stacks only, its data stack is
  well-formed and the return stack of \<open>s\<close> is intact below. \<open>goes E tmp s p d ys\<close>: the interpreter
  takes \<open>s\<close> to such a state with \<open>PC\<close> at \<open>p\<close>, \<open>d\<close> more cells on the return stack and \<open>ys\<close> on the
  data stack.
\<close>

definition erase :: "'w fstate \<Rightarrow> 'w fstate" where
  "erase s = s\<lparr>PC := 0, dstackcnt := 0, dstack := (\<lambda>_. 0), rstackcnt := 0, rstack := (\<lambda>_. 0)\<rparr>"

definition base :: "'w fstate \<Rightarrow> 'w fstate \<Rightarrow> bool" where
  "base s t \<longleftrightarrow> erase t = erase s \<and> ds_ok t \<and> (\<forall>i \<le> rstackcnt s. rstack t i = rstack s i)"

definition goes :: "'w env \<Rightarrow> int \<Rightarrow> 'w fstate \<Rightarrow> ucell \<Rightarrow> cell list \<Rightarrow> bool" where
  "goes E tmp s p ys \<longleftrightarrow> (\<exists>n t. steps E tmp n s t \<and> base s t \<and> rstackcnt t = rstackcnt s \<and> PC t = p \<and> ds t = ys)"

definition ready :: "int \<Rightarrow> 'w fstate \<Rightarrow> bool" where
  "ready tmp s \<longleftrightarrow> 0 \<le> tmp \<and> tmp < rstackcnt s \<and> interruptforth s = 0 \<and> ds_ok s"

lemma erase_kept:
  assumes "erase t = erase s"
  shows "mem t = mem s" "interruptforth t = interruptforth s" "debug_xt_list t = debug_xt_list s"
    "t = s\<lparr>PC := PC t, dstackcnt := dstackcnt t, dstack := dstack t, rstackcnt := rstackcnt t, rstack := rstack t\<rparr>"
  using assms by (cases s; cases t; simp add: erase_def)+

lemma base_refl: "ds_ok s \<Longrightarrow> base s s"
  by (simp add: base_def)

lemma base_kept:
  assumes "base s t"
  shows "mem t = mem s" "interruptforth t = interruptforth s" "ds_ok t"
    "i \<le> rstackcnt s \<Longrightarrow> rstack t i = rstack s i"
  using assms erase_kept [of t s] by (auto simp: base_def)

lemma base_trans:
  assumes "base s t" and "base t u" and "rstackcnt s \<le> rstackcnt t"
  shows "base s u"
  using assms by (simp add: base_def)

lemma ready_base: "ready tmp s \<Longrightarrow> base s t \<Longrightarrow> rstackcnt s \<le> rstackcnt t \<Longrightarrow> ready tmp t"
  by (auto simp: ready_def base_kept)

lemma goes_refl: "ready tmp s \<Longrightarrow> goes E tmp s (PC s) (ds s)"
  unfolding goes_def ready_def by (metis base_refl steps_0)

lemma goes_trans:
  assumes "goes E tmp s p xs"
    and "\<And>t. base s t \<Longrightarrow> rstackcnt t = rstackcnt s \<Longrightarrow> PC t = p \<Longrightarrow> ds t = xs \<Longrightarrow> goes E tmp t q ys"
  shows "goes E tmp s q ys"
proof -
  from assms(1) obtain n t where 1: "steps E tmp n s t" "base s t" "rstackcnt t = rstackcnt s" "PC t = p" "ds t = xs"
    by (auto simp: goes_def)
  from assms(2) [OF 1(2-5)] obtain k u where 2: "steps E tmp k t u" "base t u" "rstackcnt u = rstackcnt t" "PC u = q" "ds u = ys"
    by (auto simp: goes_def)
  have "steps E tmp (n + k) s u" using 1 2 steps_trans by blast
  moreover have "base s u" using 1 2 base_trans [of s t u] by simp
  ultimately show ?thesis using 1 2 unfolding goes_def by metis
qed

lemma goes_step:
  assumes "ready tmp s" and "\<And>con. next_xt E con s = Some t" and "base s t" and "rstackcnt t = rstackcnt s"
  shows "goes E tmp s (PC t) (ds t)"
proof -
  have "steps E tmp 1 s t" by (rule steps_one) (use assms in \<open>auto simp: ready_def\<close>)
  then show ?thesis using assms unfolding goes_def by blast
qed

subsection \<open>One cell of code\<close>

lemma next_xt_token:
  assumes "tok_at (mem s) a i" and "PC s = a - 4" and "i < 96"
  shows "next_xt E con s = (words E (\<lambda>_ _. None) ! i) (s\<lparr>PC := a\<rparr>)"
proof -
  from assms(1) obtain c where "read_ucell (mem s) a = Some c" "read_ucell (mem s) c = Some (of_nat i)"
    by (auto simp: tok_at_def split: option.splits)
  moreover have "unat (of_nat i :: ucell) = i" using assms(3) by (intro unat_of_nat_small) simp
  ultimately show ?thesis
    using assms by (simp add: next_xt_def processxt_def words_length words_con_irrelevant [of i E con "\<lambda>_ _. None"])
qed

lemma ds_PC [simp]: "ds (s\<lparr>PC := p\<rparr>) = ds s" "ds_ok (s\<lparr>PC := p\<rparr>) = ds_ok s"
  by (simp_all add: ds_def ds_ok_def)

lemma goes_word:
  assumes "ready tmp s" and "apply_word i (ds s) = Some ys" and "tok_at (mem s) a i" and "PC s = a - 4"
  shows "goes E tmp s a ys"
proof -
  from apply_word_refines [OF assms(2), of E "\<lambda>_ _. None"] obtain g where
    g: "i < 96" "refines (words E (\<lambda>_ _. None) ! i) g" "g (ds s) = Some ys" "length ys \<le> 511" by metis
  from g(2-4) assms(1) obtain c f where
    w: "(words E (\<lambda>_ _. None) ! i) (s\<lparr>PC := a\<rparr>) = Some (setds (s\<lparr>PC := a\<rparr>) c f)" and
    ok: "ds_ok (setds (s\<lparr>PC := a\<rparr>) c f)" "ds (setds (s\<lparr>PC := a\<rparr>) c f) = ys"
    unfolding refines_def ready_def by (metis ds_PC)
  have "goes E tmp s (PC (setds (s\<lparr>PC := a\<rparr>) c f)) (ds (setds (s\<lparr>PC := a\<rparr>) c f))"
  proof (rule goes_step [OF assms(1)])
    show "next_xt E con s = Some (setds (s\<lparr>PC := a\<rparr>) c f)" for con
      using next_xt_token [OF assms(3,4) g(1)] w by simp
    show "base s (setds (s\<lparr>PC := a\<rparr>) c f)"
      using ok(1) by (simp add: base_def erase_def setds_def)
  qed (simp add: setds_def)
  with ok show ?thesis by (simp add: setds_def)
qed

text \<open>The engine's own words, by their effect on the state record.\<close>

lemma token_step:
  assumes "ready tmp s" and "tok_at (mem s) a i" and "PC s = a - 4" and "i < 96"
    and "(words E (\<lambda>_ _. None) ! i) (s\<lparr>PC := a\<rparr>) = Some t" and "base s t" and "rstackcnt t = rstackcnt s"
  shows "goes E tmp s (PC t) (ds t)"
  using goes_step [OF assms(1) _ assms(6,7)] next_xt_token [OF assms(2-4)] assms(5) by simp

lemma goes_push:
  assumes "ready tmp s" and "push_item v (ds s) = Some ys" and "tok_at (mem s) a i" and "PC s = a - 4" and "i < 96"
    and "(words E (\<lambda>_ _. None) ! i) (s\<lparr>PC := a\<rparr>) = PUSH v (s\<lparr>PC := b\<rparr>)"
  shows "goes E tmp s b ys"
proof -
  have ok: "ds_ok s" and len: "length (ds s) < 511" and ys: "ys = v # ds s"
    using assms(1,2) by (auto simp: ready_def push_item_def split: if_splits)
  then have b: "0 \<le> dstackcnt s" "dstackcnt s < 511" by (auto simp: ds_ok_def ds_def nat_less_iff)
  let ?t = "s\<lparr>PC := b, dstackcnt := dstackcnt s + 1, dstack := (dstack s)(dstackcnt s + 1 := v)\<rparr>"
  have "PUSH v (s\<lparr>PC := b\<rparr>) = Some ?t" using b by (simp add: stack_defs)
  moreover have "base s ?t" using b by (simp add: base_def erase_def ds_ok_def)
  ultimately have "goes E tmp s (PC ?t) (ds ?t)" using token_step [OF assms(1,3,4,5), of E ?t] assms(6) by simp
  then show ?thesis using b ys by (simp add: ds_def items_Suc)
qed

lemma goes_lit:
  assumes "ready tmp s" and "push_item v (ds s) = Some ys" and "tok_at (mem s) a 2"
    and "read_ucell (mem s) (a + 4) = Some v" and "PC s = a - 4"
  shows "goes E tmp s (a + 4) ys"
  by (rule goes_push [OF assms(1-3,5)]) (use assms(4) in \<open>simp_all add: words_nth lit_def\<close>)

lemma goes_loop_i:
  assumes "ready tmp s" and "push_item (rstack s (rstackcnt s)) (ds s) = Some ys" and "tok_at (mem s) a 90"
    and "PC s = a - 4" and "rstackcnt s \<le> 511"
  shows "goes E tmp s a ys"
  by (rule goes_push [OF assms(1-4)])
     (use assms(1,5) in \<open>simp_all add: words_nth loop_i_def rstack_get_def in_stack_def ready_def\<close>)

lemma goes_branch:
  assumes "ready tmp s" and "tok_at (mem s) a 78" and "read_ucell (mem s) (a + 4) = Some off" and "PC s = a - 4"
  shows "goes E tmp s (a + 4 + off) (ds s)"
  using token_step [OF assms(1,2,4), of E "s\<lparr>PC := a + 4 + off\<rparr>"] assms(1,3)
  by (simp add: words_nth dobranch_def base_def erase_def ready_def)

lemma goes_cbranch:
  assumes "ready tmp s" and "tok_at (mem s) a 79" and "read_ucell (mem s) (a + 4) = Some off" and "PC s = a - 4"
    and "ds s = x # xs"
  shows "goes E tmp s (if x \<noteq> 0 then a + 4 else a + 4 + off) xs"
proof -
  have b: "0 < dstackcnt s" "dstackcnt s < 512" "dstack s (dstackcnt s) = x" "items (dstack s) (dstackcnt s - 1) = xs"
    using assms(1,5) by (auto simp: ready_def ds_ok_def ds_def items_Cons_iff)
  let ?t = "s\<lparr>PC := (if x \<noteq> 0 then a + 4 else a + 4 + off), dstackcnt := dstackcnt s - 1\<rparr>"
  have "goes E tmp s (PC ?t) (ds ?t)"
    by (rule token_step [OF assms(1,2,4)])
       (use b assms(3) in \<open>simp_all add: words_nth docbranch_def base_def erase_def ds_ok_def stack_defs\<close>)
  then show ?thesis using b by (simp add: ds_def)
qed

text \<open>
  A subroutine: a step that pushes \<open>d\<close> cells on the return stack, a run above them, and a step
  that takes them off.
\<close>

lemma goes_sub:
  assumes "ready tmp s" and "\<And>con. next_xt E con s = Some t" and "base s t" and "rstackcnt s \<le> rstackcnt t"
    and "goes E tmp t p xs"
    and "\<And>u. base t u \<Longrightarrow> rstackcnt u = rstackcnt t \<Longrightarrow> PC u = p \<Longrightarrow> ds u = xs \<Longrightarrow>
          \<exists>n v. steps E tmp n u v \<and> base s v \<and> rstackcnt v = rstackcnt s \<and> PC v = q \<and> ds v = ys"
  shows "goes E tmp s q ys"
proof -
  have 1: "steps E tmp 1 s t" by (rule steps_one) (use assms(1,2) in \<open>auto simp: ready_def\<close>)
  from assms(5) obtain n u where 2: "steps E tmp n t u" and
    u: "base t u" "rstackcnt u = rstackcnt t" "PC u = p" "ds u = xs"
    by (auto simp: goes_def)
  from assms(6) [OF u] obtain k v where 3: "steps E tmp k u v"
    and v: "base s v" "rstackcnt v = rstackcnt s" "PC v = q" "ds v = ys" by blast
  from steps_trans [OF steps_trans [OF 1 2] 3] v show ?thesis unfolding goes_def by blast
qed

lemma semis_step:
  assumes "tok_at (mem u) b 0" and "PC u = b - 4" and "tmp < rstackcnt u" and "interruptforth u = 0"
    and "0 \<le> rstackcnt u" and "rstackcnt u \<le> 511"
  shows "steps E tmp 1 u (u\<lparr>PC := rstack u (rstackcnt u), rstackcnt := rstackcnt u - 1\<rparr>)"
  by (rule steps_one [OF assms(3,4)])
     (use next_xt_token [OF assms(1,2)] assms(5,6) in \<open>simp add: words_nth semis_def stack_defs\<close>)

lemma goes_colon:
  assumes "ready tmp s" and "PC s = a - 4" and "rstackcnt s < 511"
    and "read_ucell (mem s) a = Some c" and "read_ucell (mem s) c = Some 1"
    and "tok_at (mem s) (c + 4 + csize body) 0"
    and "\<And>t. base s t \<Longrightarrow> rstackcnt t = rstackcnt s + 1 \<Longrightarrow> ds t = ds s \<Longrightarrow> PC t = c \<Longrightarrow>
          goes E tmp t (c + csize body) ys"
  shows "goes E tmp s a ys"
proof -
  let ?t = "s\<lparr>rstackcnt := rstackcnt s + 1, rstack := (rstack s)(rstackcnt s + 1 := a), PC := c\<rparr>"
  have r: "0 \<le> tmp" "tmp < rstackcnt s" "ds_ok s" "interruptforth s = 0" using assms(1) by (auto simp: ready_def)
  have t: "base s ?t" using r by (simp add: base_def erase_def ds_ok_def)
  show ?thesis
  proof (rule goes_sub [OF assms(1) _ t _ assms(7) [OF t]])
    show "next_xt E con s = Some ?t" for con
      using assms(2-5) r by (simp add: next_xt_def processxt_def words_length words_nth docol_def stack_defs del: One_nat_def)
    fix u
    assume u: "base ?t u" "rstackcnt u = rstackcnt ?t" "PC u = c + csize body" "ds u = ys"
    let ?v = "u\<lparr>PC := rstack u (rstackcnt u), rstackcnt := rstackcnt u - 1\<rparr>"
    have "steps E tmp 1 u ?v"
      by (rule semis_step [of u "c + 4 + csize body"]) (use u assms(3,6) r in \<open>simp_all add: base_kept [OF u(1)]\<close>)
    moreover have "base s ?v" and "PC ?v = a"
      using u(1,2) by (simp_all add: base_def erase_def ds_ok_def)
    ultimately show "\<exists>n v. steps E tmp n u v \<and> base s v \<and> rstackcnt v = rstackcnt s \<and> PC v = a \<and> ds v = ys"
      using u by (intro exI [of _ 1] exI [of _ ?v]) (simp add: ds_def)
  qed (simp_all add: ds_def)
qed

subsection \<open>Counted loops\<close>

lemma turns_step:
  assumes "sint i + 1 < 2 ^ 31"
  shows "sint (i + 1) = sint i + 1"
    "turns i lim = (if sint (i + 1) < sint lim then Suc (turns (i + 1) lim) else 1)"
proof -
  have "- (2 ^ 31) \<le> sint i" using sint_greater_eq [of i] by simp
  then show s: "sint (i + 1) = sint i + 1"
    using assms signed_take_bit_int_eq_self [of 31 "sint i + 1"] sint_word_ariths(1) [of i 1] by simp
  show "turns i lim = (if sint (i + 1) < sint lim then Suc (turns (i + 1) lim) else 1)"
    unfolding turns_def s by auto
qed

lemma doloop_step:
  assumes "tok_at (mem u) b 9" and "PC u = b - 4" and "tmp < rstackcnt u" and "interruptforth u = 0"
    and "2 \<le> rstackcnt u" and "rstackcnt u \<le> 511"
    and "rstack u (rstackcnt u) = i" and "rstack u (rstackcnt u - 1) = lim"
    and "read_ucell (mem u) (b + 4) = Some off"
  shows "steps E tmp 1 u
    (if sint (i + 1) < sint lim
     then u\<lparr>PC := b + 4 + off, rstack := (rstack u)(rstackcnt u - 1 := lim, rstackcnt u := i + 1)\<rparr>
     else u\<lparr>PC := b + 4, rstackcnt := rstackcnt u - 2\<rparr>)"
  by (rule steps_one [OF assms(3,4)])
     (use next_xt_token [OF assms(1,2)] assms(5-9) in \<open>simp add: words_nth doloop_def stack_defs\<close>)

text \<open>
  The loop, from the head of its body: \<open>t\<close> is the state there, \<open>s\<close> the state before \<open>do\<close>; the body's
  own behaviour is the hypothesis.
\<close>

lemma loop_turns:
  assumes "ready tmp s" and "rstackcnt s + 2 \<le> 511"
    and "tok_at (mem s) (a + 4 + csize body) 9"
    and "read_ucell (mem s) (a + 8 + csize body) = Some (- (csize body + 8))"
    and body: "\<And>t i sk ys. base s t \<Longrightarrow> rstackcnt t = rstackcnt s + 2 \<Longrightarrow> PC t = a \<Longrightarrow>
      rstack t (rstackcnt t) = i \<Longrightarrow> g i (ds t) = Some ys \<Longrightarrow> goes E tmp t (a + csize body) ys"
  shows "base s t \<Longrightarrow> rstackcnt t = rstackcnt s + 2 \<Longrightarrow> PC t = a \<Longrightarrow> rstack t (rstackcnt t) = i \<Longrightarrow>
    rstack t (rstackcnt t - 1) = lim \<Longrightarrow> sint i + 1 < 2 ^ 31 \<Longrightarrow>
    iterate g (turns i lim) i (ds t) = Some ys \<Longrightarrow>
    \<exists>n v. steps E tmp n t v \<and> base s v \<and> rstackcnt v = rstackcnt s \<and> PC v = a + 8 + csize body \<and> ds v = ys"
proof (induction "turns i lim" arbitrary: t i)
  case 0
  then show ?case by (simp add: turns_def split: if_splits)
next
  case (Suc m)
  from Suc.prems(7) have "iterate g (Suc m) i (ds t) = Some ys" by (simp only: Suc.hyps(2))
  then obtain sk where g: "g i (ds t) = Some sk" and it: "iterate g m (i + 1) sk = Some ys"
    by (auto simp: bind_eq_Some_iff)
  from body [OF Suc.prems(1-4) g] obtain n u where
    u: "steps E tmp n t u" "base t u" "rstackcnt u = rstackcnt t" "PC u = a + csize body" "ds u = sk"
    by (auto simp: goes_def)
  have su: "base s u" using base_trans [OF Suc.prems(1) u(2)] Suc.prems(2) by simp
  have r: "0 \<le> tmp" "tmp < rstackcnt s" "interruptforth s = 0" using assms(1) by (auto simp: ready_def)
  have ru: "rstackcnt u = rstackcnt s + 2" "rstack u (rstackcnt u) = i" "rstack u (rstackcnt u - 1) = lim"
    using u(3) Suc.prems(2,4,5) base_kept(4) [OF u(2)] by simp_all
  note ku = base_kept [OF su]
  have ok: "ds_ok u" by (rule ku)
  have e: "a + 4 + csize body + 4 = a + 8 + csize body" "a + 8 + csize body + - (csize body + 8) = a"
    "a + 4 + csize body - 4 = a + csize body"
    by simp_all
  have step: "steps E tmp 1 u
    (if sint (i + 1) < sint lim
     then u\<lparr>PC := a, rstack := (rstack u)(rstackcnt u - 1 := lim, rstackcnt u := i + 1)\<rparr>
     else u\<lparr>PC := a + 8 + csize body, rstackcnt := rstackcnt u - 2\<rparr>)"
    by (rule doloop_step [of u "a + 4 + csize body" tmp i lim "- (csize body + 8)" E, unfolded e])
       (use assms(2-4) r ru u(4) ku in simp_all)
  show ?case
  proof (cases "sint (i + 1) < sint lim")
    case True
    let ?t = "u\<lparr>PC := a, rstack := (rstack u)(rstackcnt u - 1 := lim, rstackcnt u := i + 1)\<rparr>"
    have m: "m = turns (i + 1) lim" using turns_step(2) [OF Suc.prems(6), of lim] True Suc.hyps(2) by simp
    have "sint lim < 2 ^ 31" using sint_less [of lim] by simp
    then have "sint (i + 1) + 1 < 2 ^ 31" using True by simp
    moreover have "base s ?t" using su ru(1) by (auto simp: base_def erase_def ds_ok_def)
    moreover have "ds ?t = sk" using u(5) by (simp add: ds_def)
    ultimately obtain k v where "steps E tmp k ?t v" "base s v" "rstackcnt v = rstackcnt s"
      "PC v = a + 8 + csize body" "ds v = ys"
      using Suc.hyps(1) [OF m, of ?t] ru it m by auto
    with steps_trans [OF u(1) steps_trans [OF step]] True show ?thesis by fastforce
  next
    case False
    let ?v = "u\<lparr>PC := a + 8 + csize body, rstackcnt := rstackcnt u - 2\<rparr>"
    have "m = 0" using turns_step(2) [OF Suc.prems(6), of lim] False Suc.hyps(2) by simp
    then have "sk = ys" using it by simp
    moreover have "base s ?v" using su by (simp add: base_def erase_def ds_ok_def)
    ultimately show ?thesis using steps_trans [OF u(1) step] False ru u(5)
      by (intro exI [of _ "n + 1"] exI [of _ ?v]) (simp add: ds_def)
  qed
qed

lemma goes_do:
  assumes "ready tmp s" and "rstackcnt s + 2 \<le> 511" and "PC s = a - 4"
    and "tok_at (mem s) a 7" and "tok_at (mem s) (a + 4 + csize body) 9"
    and "read_ucell (mem s) (a + 8 + csize body) = Some (- (csize body + 8))"
    and "ds s = i # lim # xs" and "sint i + 1 < 2 ^ 31"
    and "iterate g (turns i lim) i xs = Some ys"
    and body: "\<And>t i sk ys. base s t \<Longrightarrow> rstackcnt t = rstackcnt s + 2 \<Longrightarrow> PC t = a \<Longrightarrow>
      rstack t (rstackcnt t) = i \<Longrightarrow> g i (ds t) = Some ys \<Longrightarrow> goes E tmp t (a + csize body) ys"
  shows "goes E tmp s (a + 8 + csize body) ys"
proof -
  have r: "0 \<le> tmp" "tmp < rstackcnt s" "interruptforth s = 0" "ds_ok s" using assms(1) by (auto simp: ready_def)
  have c: "0 \<le> dstackcnt s" "dstackcnt s < 512" using r(4) by (simp_all add: ds_ok_def)
  with assms(7) have d: "1 < dstackcnt s" "dstack s (dstackcnt s) = i" "dstack s (dstackcnt s - 1) = lim"
    "items (dstack s) (dstackcnt s - 2) = xs"
    by (auto simp: ds_def items_Cons_iff)
  let ?t = "s\<lparr>PC := a, dstackcnt := dstackcnt s - 2, rstackcnt := rstackcnt s + 2,
              rstack := (rstack s)(rstackcnt s + 1 := lim, rstackcnt s + 2 := i)\<rparr>"
  have 1: "steps E tmp 1 s ?t"
    by (rule steps_one [OF r(2,3)])
       (use next_xt_token [OF assms(4,3)] assms(2) r c d in \<open>simp add: words_nth dodo_def stack_defs add.commute [of 2 "rstackcnt s"]\<close>)
  have t: "base s ?t" using c d by (simp add: base_def erase_def ds_ok_def)
  have "\<exists>n v. steps E tmp n ?t v \<and> base s v \<and> rstackcnt v = rstackcnt s \<and> PC v = a + 8 + csize body \<and> ds v = ys"
    by (rule loop_turns [OF assms(1,2,5,6) body t, where g = g and i = i and lim = lim]) (use assms(8,9) d in \<open>simp_all add: ds_def\<close>)
  then show ?thesis using steps_trans [OF 1] unfolding goes_def by blast
qed

subsection \<open>Compiled programs run to their meaning\<close>

definition index_ok :: "cell option \<Rightarrow> 'w fstate \<Rightarrow> bool" where
  "index_ok li s \<longleftrightarrow> (\<forall>i. li = Some i \<longrightarrow> rstack s (rstackcnt s) = i)"

lemma index_ok_base: "index_ok li s \<Longrightarrow> base s t \<Longrightarrow> rstackcnt t = rstackcnt s \<Longrightarrow> index_ok li t"
  by (simp add: index_ok_def base_kept)

text \<open>The state at the start of a piece of code, and the rest of a program after its first item.\<close>

definition at_code :: "int \<Rightarrow> cell option \<Rightarrow> ucell \<Rightarrow> item list \<Rightarrow> 'w fstate \<Rightarrow> bool" where
  "at_code tmp li a its s \<longleftrightarrow> compiled (mem s) a its \<and> ready tmp s \<and>
     rstackcnt s + int (rneed its) \<le> 511 \<and> index_ok li s"

lemma at_code_base:
  assumes "at_code tmp li a its s" and "base s t" and "rstackcnt t = rstackcnt s"
  shows "at_code tmp li a its t"
  using assms ready_base [of tmp s t] index_ok_base [of li s t] by (simp add: at_code_def base_kept)

lemma goes_rest:
  assumes "goes E tmp s (b - 4) zs" and "at_code tmp li b its s"
    and "\<And>t. ds t = zs \<Longrightarrow> PC t = b - 4 \<Longrightarrow> at_code tmp li b its t \<Longrightarrow> goes E tmp t (b + csize its - 4) ys"
    and "p = b + csize its - 4"
  shows "goes E tmp s p ys"
  unfolding assms(4)
  by (rule goes_trans [OF assms(1)]) (use assms(3) at_code_base [OF assms(2)] in blast)

lemma exec_items:
  "run_items li its sk = Some ys \<Longrightarrow> ds s = sk \<Longrightarrow> PC s = a - 4 \<Longrightarrow> at_code tmp li a its s \<Longrightarrow>
   goes E tmp s (a + csize its - 4) ys"
proof (induction li its sk arbitrary: s a ys rule: run_items.induct)
  case (1 li)
  then show ?case using goes_refl [of tmp s E] by (simp add: at_code_def)
next
  case (2 li i its sk)
  from 2(2) obtain zs where zs: "apply_word i sk = Some zs" "run_items li its zs = Some ys"
    by (auto simp: bind_eq_Some_iff)
  have "goes E tmp s a zs" by (rule goes_word) (use 2 zs in \<open>auto simp: at_code_def\<close>)
  then show ?case
    by (intro goes_rest [where b = "a + 4", OF _ _ 2(1) [OF zs]]) (use 2 in \<open>auto simp: at_code_def\<close>)
next
  case (3 li v its sk)
  from 3(2) obtain zs where zs: "push_item v sk = Some zs" "run_items li its zs = Some ys"
    by (auto simp: bind_eq_Some_iff)
  have "goes E tmp s (a + 4) zs" by (rule goes_lit) (use 3 zs in \<open>auto simp: at_code_def\<close>)
  then show ?case
    by (intro goes_rest [where b = "a + 8", OF _ _ 3(1) [OF zs]])
       (use 3 in \<open>auto simp: at_code_def add.commute [of a]\<close>)
next
  case (4 li its sk)
  from 4(2) obtain i zs where i: "li = Some i" and zs: "push_item i sk = Some zs" "run_items li its zs = Some ys"
    by (auto simp: bind_eq_Some_iff)
  have "goes E tmp s a zs" by (rule goes_loop_i) (use 4 i zs in \<open>auto simp: at_code_def index_ok_def\<close>)
  then show ?case
    by (intro goes_rest [where b = "a + 4", OF _ _ 4(1) [OF i zs]]) (use 4 in \<open>auto simp: at_code_def\<close>)
next
  case (5 li body its sk)
  from 5(3) obtain zs where zs: "run_items None body sk = Some zs" "run_items li its zs = Some ys"
    by (auto simp: bind_eq_Some_iff)
  from 5(6) obtain c where c: "read_ucell (mem s) a = Some c" "read_ucell (mem s) c = Some 1"
    "compiled (mem s) (c + 4) body" "tok_at (mem s) (c + 4 + csize body) 0"
    by (auto simp: at_code_def split: option.splits)
  have "goes E tmp s a zs"
  proof (rule goes_colon [where c = c and body = body])
    fix t
    assume t: "base s t" "rstackcnt t = rstackcnt s + 1" "ds t = ds s" "PC t = c"
    then have "at_code tmp None (c + 4) body t"
      using 5(6) c(3) ready_base [OF _ t(1)] by (auto simp: at_code_def base_kept [OF t(1)] index_ok_def of_nat_max)
    then show "goes E tmp t (c + csize body) zs"
      using 5(1) [OF zs(1), of t "c + 4"] t 5(4) by simp
  qed (use 5 c in \<open>auto simp: at_code_def\<close>)
  then show ?case
    by (intro goes_rest [where b = "a + 4", OF _ _ 5(2) [OF zs]]) (use 5 in \<open>auto simp: at_code_def\<close>)
next
  case (6 li t e its sk)
  from 6(4) obtain x r zs where sk: "sk = x # r"
    and zs: "(if x \<noteq> 0 then run_items li t r else run_items li e r) = Some zs" "run_items li its zs = Some ys"
    by (auto simp: bind_eq_Some_iff split: list.splits)
  let ?b = "a + 16 + csize t + csize e"
  have c: "at_code tmp li (a + 8) t s" "at_code tmp li (a + 16 + csize t) e s" "at_code tmp li ?b its s"
    using 6(7) by (auto simp: at_code_def)
  have br: "goes E tmp s (if x \<noteq> 0 then a + 4 else a + 4 + (csize t + 8)) r"
    by (rule goes_cbranch) (use 6 sk in \<open>auto simp: at_code_def\<close>)
  have "goes E tmp s (?b - 4) zs"
  proof (cases "x = 0")
    case True
    then have g: "goes E tmp s (a + 16 + csize t - 4) r" using br by (simp add: add.assoc add.commute [of 12])
    have e: "\<not> x \<noteq> 0" "run_items li e r = Some zs" using True zs(1) by simp_all
    show ?thesis by (rule goes_rest [OF g c(2) 6(2) [OF sk e] refl])
  next
    case False
    then have g: "goes E tmp s (a + 8 - 4) r" using br by (simp add: add.commute [of a])
    have "run_items li t r = Some zs" using False zs(1) by simp
    from goes_rest [OF g c(1) 6(1) [OF sk False this] refl]
    have "goes E tmp s (a + 8 + csize t - 4) zs" .
    then show ?thesis
    proof (rule goes_trans)
      fix u
      assume u: "base s u" "rstackcnt u = rstackcnt s" "PC u = a + 8 + csize t - 4" "ds u = zs"
      have "goes E tmp u (a + 8 + csize t + 4 + csize e) (ds u)"
        by (rule goes_branch) (use 6(7) u ready_base [OF _ u(1)] in \<open>auto simp: at_code_def base_kept [OF u(1)] ac_simps\<close>)
      then show "goes E tmp u (?b - 4) zs" using u(4) by (simp add: add.assoc add.left_commute)
    qed
  qed
  then show ?case
    by (rule goes_rest [OF _ c(3) 6(3) [OF sk zs]]) (simp_all add: add.assoc)
next
  case (7 li body its sk)
  from 7(3) obtain i lim r zs where sk: "sk = i # lim # r" and i: "sint i + 1 < 2 ^ 31"
    and zs: "iterate (\<lambda>i sk. run_items (Some i) body sk) (turns i lim) i r = Some zs" "run_items li its zs = Some ys"
    by (auto simp: bind_eq_Some_iff split: list.splits if_splits)
  have "goes E tmp s (a + 8 + csize body) zs"
  proof (rule goes_do [OF _ _ 7(5) _ _ _ _ i zs(1)])
    fix t j sk' zs'
    assume t: "base s t" "rstackcnt t = rstackcnt s + 2" "PC t = a" "rstack t (rstackcnt t) = j"
      "run_items (Some j) body (ds t) = Some zs'"
    then have "at_code tmp (Some j) (a + 4) body t"
      using 7(6) ready_base [OF _ t(1)] by (auto simp: at_code_def base_kept [OF t(1)] index_ok_def of_nat_max)
    then show "goes E tmp t (a + csize body) zs'"
      using 7(1) [OF sk refl i, of j "ds t" zs' t "a + 4"] t by simp
  qed (use 7 sk in \<open>auto simp: at_code_def\<close>)
  then show ?case
    by (intro goes_rest [where b = "a + 12 + csize body", OF _ _ 7(2) [OF sk refl i zs]])
       (use 7 in \<open>auto simp: at_code_def algebra_simps\<close>)
qed

subsection \<open>enterforth\<close>

lemma enter_outer_steps:
  assumes "steps E tmp n s u" and "rstackcnt u = tmp" and "interruptforth u = 0" and "tl (debug_xt_list s) = []"
    and "tmp < rstackcnt s" and "interruptforth s = 0"
  shows "enter_outer E (n + 2 + fuel) tmp s = Some u"
proof -
  have "enter_inner E (n + Suc fuel) False tmp s = Some u"
    using steps_inner [OF assms(1), of "Suc fuel"] assms(2) by simp
  then show ?thesis using assms(2-) by (simp add: add.commute)
qed

lemma enter_run:
  assumes "compiled (mem s) (cfa + 4) body" and "tok_at (mem s) (cfa + 4 + csize body) 0"
    and "run_items None body (ds s) = Some ys"
    and "ds_ok s" and "0 \<le> rstackcnt s" and "rstackcnt s + int (rneed body) < 511"
    and "tl (debug_xt_list s) = []"
  shows "\<exists>N c f r. (\<forall>fuel \<ge> N. enter_outer E fuel (rstackcnt s)
             (s\<lparr>interruptforth := 0, rstackcnt := rstackcnt s + 1, rstack := (rstack s)(rstackcnt s + 1 := PC s), PC := cfa\<rparr>) =
           Some (s\<lparr>interruptforth := 0, dstackcnt := c, dstack := f, rstack := r\<rparr>)) \<and>
           0 \<le> c \<and> c < 512 \<and> items f c = ys \<and> (\<forall>i \<le> rstackcnt s. r i = rstack s i)"
proof -
  let ?tmp = "rstackcnt s"
  let ?t = "s\<lparr>interruptforth := 0, rstackcnt := ?tmp + 1, rstack := (rstack s)(?tmp + 1 := PC s), PC := cfa\<rparr>"
  have ready: "ready ?tmp ?t" using assms(4,5) by (simp add: ready_def ds_ok_def)
  have ds: "ds ?t = ds s" by (simp add: ds_def)
  have "at_code ?tmp None (cfa + 4) body ?t"
    using ready assms(1,6) by (simp add: at_code_def index_ok_def)
  from exec_items [OF assms(3) ds _ this, of E] obtain n u where
    u: "steps E ?tmp n ?t u" "base ?t u" "rstackcnt u = ?tmp + 1" "PC u = cfa + csize body" "ds u = ys"
    by (auto simp: goes_def)
  let ?u = "u\<lparr>PC := rstack u (rstackcnt u), rstackcnt := rstackcnt u - 1\<rparr>"
  have "steps E ?tmp 1 u ?u"
    by (rule semis_step [of u "cfa + 4 + csize body"])
       (use u(3,4) assms(2,5,6) base_kept [OF u(2)] in simp_all)
  with u(1) have st: "steps E ?tmp (n + 1) ?t ?u" by (rule steps_trans)
  have PC: "rstack u (?tmp + 1) = PC s" and r: "\<forall>i \<le> ?tmp. rstack u i = rstack s i"
    using base_kept(4) [OF u(2)] by simp_all
  have "u = ?t\<lparr>PC := PC u, dstackcnt := dstackcnt u, dstack := dstack u, rstackcnt := rstackcnt u, rstack := rstack u\<rparr>"
    using u(2) by (intro erase_kept) (simp add: base_def)
  then have "?u = s\<lparr>interruptforth := 0, dstackcnt := dstackcnt u, dstack := dstack u, rstack := rstack u\<rparr>"
    (is "_ = ?v") using u(3) PC by (cases s; cases u; simp)
  with st have st: "steps E ?tmp (n + 1) ?t ?v" by simp
  have run: "enter_outer E fuel ?tmp ?t = Some ?v" if "n + 3 \<le> fuel" for fuel
  proof -
    have "enter_outer E (n + 1 + 2 + (fuel - (n + 3))) ?tmp ?t = Some ?v"
      by (rule enter_outer_steps [OF st]) (use assms(7) in simp_all)
    moreover have "n + 1 + 2 + (fuel - (n + 3)) = fuel" using that by simp
    ultimately show ?thesis by (simp only:)
  qed
  have "0 \<le> dstackcnt u \<and> dstackcnt u < 512 \<and> items (dstack u) (dstackcnt u) = ys"
    using base_kept(3) [OF u(2)] u(5) by (simp add: ds_ok_def ds_def)
  with run r show ?thesis by blast
qed

lemma enter_colon:
  assumes "read_ucell (mem s) xt = Some DOCOL" and "compiled (mem s) (xt + 4) body"
    and "tok_at (mem s) (xt + 4 + csize body) 0"
    and "run_items None body (ds s) = Some ys"
    and "ds_ok s" and "rs_ok s" and "rstackcnt s + int (rneed body) < 511"
    and "tl (debug_xt_list s) = []"
  shows "\<exists>N c f r. (\<forall>fuel \<ge> N. enterforth E fuel xt s =
           Some (False, s\<lparr>interruptforth := 0, dstackcnt := c, dstack := f, rstack := r\<rparr>)) \<and>
           0 \<le> c \<and> c < 512 \<and> items f c = ys \<and> items r (rstackcnt s) = rs s"
proof -
  have "0 \<le> rstackcnt s" using assms(6) by (simp add: rs_ok_def)
  from enter_run [OF assms(2-5) this assms(7,8), of E] obtain N c f r where
    run: "\<forall>fuel \<ge> N. enter_outer E fuel (rstackcnt s)
             (s\<lparr>interruptforth := 0, rstackcnt := rstackcnt s + 1, rstack := (rstack s)(rstackcnt s + 1 := PC s), PC := xt\<rparr>) =
           Some (s\<lparr>interruptforth := 0, dstackcnt := c, dstack := f, rstack := r\<rparr>)"
    and c: "0 \<le> c \<and> c < 512 \<and> items f c = ys" and r: "\<forall>i \<le> rstackcnt s. r i = rstack s i" by blast
  have "items r (rstackcnt s) = rs s" using r by (simp add: items_def rs_def)
  moreover have "enterforth E fuel xt s = Some (False, s\<lparr>interruptforth := 0, dstackcnt := c, dstack := f, rstack := r\<rparr>)"
    if "N \<le> fuel" for fuel
    using run that assms(1,7) \<open>0 \<le> rstackcnt s\<close> by (simp add: enterforth_def PUSHR_def in_stack_def Let_def)
  ultimately show ?thesis using c by blast
qed

text \<open>
  C1: \<open>enterforth\<close> on a colon definition compiled from a structured program (stack words, numbers,
  loop indices, calls of other definitions, conditionals, counted loops) returns, with any large
  enough amount of fuel, with success; the data stack holds what the program means, and nothing
  else has changed: memory, program counter, return stack depth and items, the world outside.
\<close>

theorem enterforth_colon:
  assumes "read_ucell (mem s) xt = Some DOCOL" and "compiled (mem s) (xt + 4) body"
    and "tok_at (mem s) (xt + 4 + csize body) 0"
    and "run_items None body (ds s) = Some ys"
    and "ds_ok s" and "rs_ok s" and "rstackcnt s + int (rneed body) < 511"
    and "tl (debug_xt_list s) = []"
  shows "\<exists>N c f r. (\<forall>fuel \<ge> N. enterforth E fuel xt s =
           Some (False, s\<lparr>interruptforth := 0, dstackcnt := c, dstack := f, rstack := r\<rparr>)) \<and>
           0 \<le> c \<and> c < 512 \<and> items f c = ys \<and> items r (rstackcnt s) = rs s"
  by (rule enter_colon [OF assms])

definition sum_image :: memory where
  "sum_image = mem_of_cells [0, 2, 7, 9, 90, 35, 1, 4, 0, 4, 3, 4, 0, 8, 16, 20, 12, - 16, 0]"

definition sum_body :: "item list" where
  "sum_body = [Num 0, Num 3, Num 0, DoLoop [LoopI, SWord 35]]"

theorem enterforth_colon_witness:
  "\<exists>N c f r. (\<forall>fuel \<ge> N. enterforth bare_env fuel 24 (init_fstate sum_image ()) =
           Some (False, (init_fstate sum_image ())\<lparr>interruptforth := 0, dstackcnt := c, dstack := f, rstack := r\<rparr>)) \<and>
           items f c = [3]"
proof -
  let ?s = "init_fstate sum_image ()"
  have d: "ds ?s = []" by (simp add: init_fstate_def ds_def)
  have m: "mem ?s = sum_image" by (simp add: init_fstate_def)
  have 1: "read_ucell (mem ?s) 24 = Some DOCOL" unfolding m by code_simp
  have 2: "compiled (mem ?s) (24 + 4) sum_body" unfolding m by code_simp
  have 3: "tok_at (mem ?s) (24 + 4 + csize sum_body) 0" unfolding m by code_simp
  have 4: "run_items None sum_body (ds ?s) = Some [3]" unfolding d by code_simp
  have 5: "ds_ok ?s" "rs_ok ?s" "rstackcnt ?s + int (rneed sum_body) < 511" "tl (debug_xt_list ?s) = []"
    by (simp_all add: init_fstate_def ds_ok_def rs_ok_def sum_body_def)
  from enterforth_colon [OF 1 2 3 4 5, of bare_env] show ?thesis by blast
qed

text \<open>A word that is not a colon definition is entered through the trampoline.\<close>

lemma cells_apart:
  fixes a :: ucell
  shows "apart (a + 4) 4 (a + 8) 4" "apart (a + 4) 4 (a + 12) 4"
  by (auto simp: apart_def in_region_numeral_simps)

lemma forth_init_trampoline:
  assumes "forth_init E s0 = Some s"
  shows "read_ucell (mem s) (trampoline E) = Some DOCOL" "read_ucell (mem s) (trampoline E + 8) = Some (trampoline E + 12)"
    "read_ucell (mem s) (trampoline E + 12) = Some DOSEMIS" "write_ucell (mem s) (trampoline E + 4) v \<noteq> None"
proof -
  let ?T = "trampoline E"
  from assms obtain m1 m2 m3 where
    w: "write_ucell (mem s0) ?T 1 = Some m1" "write_ucell m1 (?T + 4) 0 = Some m2"
      "write_ucell m2 (?T + 8) (?T + 12) = Some m3" "write_ucell m3 (?T + 12) 0 = Some (mem s)"
    by (auto simp: forth_init_def init_trampoline_def bind_eq_Some_iff)
  note rw = ucell_acc.rd_wr_apart [OF w(4)] ucell_acc.rd_wr_apart [OF w(3)] ucell_acc.rd_wr_apart [OF w(2)]
    ucell_acc.rd_wr_same [OF w(1)] ucell_acc.rd_wr_same [OF w(2)] ucell_acc.rd_wr_same [OF w(3)] ucell_acc.rd_wr_same [OF w(4)]
  have ap: "apart (?T + 12) 4 ?T 4" "apart (?T + 12) 4 (?T + 4) 4" "apart (?T + 12) 4 (?T + 8) 4"
    "apart (?T + 8) 4 ?T 4" "apart (?T + 4) 4 ?T 4"  "apart (?T + 8) 4 (?T + 4) 4"
    by (auto simp: apart_def in_region_numeral_simps)
  show "read_ucell (mem s) ?T = Some DOCOL" "read_ucell (mem s) (?T + 8) = Some (?T + 12)"
    "read_ucell (mem s) (?T + 12) = Some DOSEMIS"
    by (simp_all add: rw ap)
  have "read_ucell (mem s) (?T + 4) \<noteq> None" by (simp add: rw ap)
  then show "write_ucell (mem s) (?T + 4) v \<noteq> None" by (simp only: ucell_acc.wr_succeeds ucell_acc.rd_succeeds)
qed

lemma enter_primitive:
  assumes "forth_init E s0 = Some s"
    and "read_ucell (mem s) xt = Some (of_nat i)" and "i \<noteq> 1" and "apart (trampoline E) 16 xt 4"
    and "apply_word i (ds s) = Some ys"
    and "ds_ok s" and "rs_ok s" and "rstackcnt s < 511" and "tl (debug_xt_list s) = []"
  shows "\<exists>N c f r m. (\<forall>fuel \<ge> N. enterforth E fuel xt s =
             Some (False, s\<lparr>mem := m, interruptforth := 0, dstackcnt := c, dstack := f, rstack := r\<rparr>)) \<and>
           write_ucell (mem s) (trampoline E + 4) xt = Some m \<and>
           0 \<le> c \<and> c < 512 \<and> items f c = ys \<and> items r (rstackcnt s) = rs s"
proof -
  let ?T = "trampoline E"
  note ini = forth_init_trampoline [OF assms(1)]
  from ini(4) obtain m where m: "write_ucell (mem s) (?T + 4) xt = Some m" by blast
  let ?s = "s\<lparr>mem := m\<rparr>"
  have i: "i < 96" using apply_word_refines [OF assms(5)] by metis
  have "apart (?T + 4) 4 xt 4"
    using apart_sub [OF assms(4), of 4 4] by simp
  then have "read_ucell m xt = Some (of_nat i)" using ucell_acc.rd_wr_apart [OF m] assms(2) by simp
  then have c: "compiled (mem ?s) (?T + 4) [SWord i]"
    using i ucell_acc.rd_wr_same [OF m] by (simp add: tok_at_def)
  have t: "tok_at (mem ?s) (?T + 4 + csize [SWord i]) 0"
    using ini(2,3) ucell_acc.rd_wr_apart [OF m] cells_apart [of ?T] by (simp add: tok_at_def add.commute [of 8])
  have "0 \<le> rstackcnt s" using assms(7) by (simp add: rs_ok_def)
  moreover have "run_items None [SWord i] (ds ?s) = Some ys" using assms(5) by (simp add: ds_def)
  ultimately obtain N c f r where
    run: "\<forall>fuel \<ge> N. enter_outer E fuel (rstackcnt ?s)
             (?s\<lparr>interruptforth := 0, rstackcnt := rstackcnt ?s + 1, rstack := (rstack ?s)(rstackcnt ?s + 1 := PC ?s), PC := ?T\<rparr>) =
           Some (?s\<lparr>interruptforth := 0, dstackcnt := c, dstack := f, rstack := r\<rparr>)"
    and cf: "0 \<le> c \<and> c < 512 \<and> items f c = ys" and r: "\<forall>i \<le> rstackcnt ?s. r i = rstack ?s i"
    using enter_run [OF c t, of ys E] assms(6,8,9) by (auto simp: ds_ok_def)
  have "items r (rstackcnt s) = rs s" using r by (simp add: items_def rs_def)
  moreover have "of_nat i \<noteq> (1 :: ucell)" using assms(3) i by (simp add: word_unat_eq_iff unat_of_nat_small)
  then have "enterforth E fuel xt s = Some (False, s\<lparr>mem := m, interruptforth := 0, dstackcnt := c, dstack := f, rstack := r\<rparr>)"
    if "N \<le> fuel" for fuel
    using run that assms(2,8) m \<open>0 \<le> rstackcnt s\<close> by (simp add: enterforth_def PUSHR_def in_stack_def Let_def)
  ultimately show ?thesis using m cf by blast
qed

text \<open>
  C4: after \<open>forth_init\<close>, \<open>enterforth\<close> on the code field of a primitive stack word returns with
  success, the data stack holds what the word's specification gives, and the one cell of memory
  that has changed is the trampoline's slot for the execution token.
\<close>

theorem enterforth_primitive:
  assumes "forth_init E s0 = Some s"
    and "read_ucell (mem s) xt = Some (of_nat i)" and "i \<noteq> 1" and "apart (trampoline E) 16 xt 4"
    and "apply_word i (ds s) = Some ys"
    and "ds_ok s" and "rs_ok s" and "rstackcnt s < 511" and "tl (debug_xt_list s) = []"
  shows "\<exists>N c f r m. (\<forall>fuel \<ge> N. enterforth E fuel xt s =
             Some (False, s\<lparr>mem := m, interruptforth := 0, dstackcnt := c, dstack := f, rstack := r\<rparr>)) \<and>
           write_ucell (mem s) (trampoline E + 4) xt = Some m \<and>
           0 \<le> c \<and> c < 512 \<and> items f c = ys \<and> items r (rstackcnt s) = rs s"
  by (rule enter_primitive [OF assms])

definition prim_image :: memory where
  "prim_image = mem_of_cells [0, 0, 0, 0, 31]"

definition low_env :: "unit env" where
  "low_env = bare_env\<lparr>trampoline := 0\<rparr>"

theorem enterforth_primitive_witness:
  "\<exists>s N c f r m. forth_init low_env (init_fstate prim_image ()) = Some s \<and>
     (\<forall>fuel \<ge> N. enterforth low_env fuel 16 s =
        Some (False, s\<lparr>mem := m, interruptforth := 0, dstackcnt := c, dstack := f, rstack := r\<rparr>)) \<and>
     items f c = [0]"
proof -
  let ?s0 = "init_fstate prim_image ()"
  have "forth_init low_env ?s0 \<noteq> None" by code_simp
  then obtain s where s: "forth_init low_env ?s0 = Some s" by blast
  then obtain m where m: "s = ?s0\<lparr>mem := m\<rparr>" by (auto simp: forth_init_def bind_eq_Some_iff)
  have "map_option (\<lambda>s. read_ucell (mem s) 16) (forth_init low_env ?s0) = Some (Some 31)" by code_simp
  then have 1: "read_ucell (mem s) 16 = Some (of_nat 31)" using s by simp
  have 2: "apart (trampoline low_env) 16 16 4"
    using apart_no_wrap [of 0 16 16 4] by (simp add: low_env_def)
  have 3: "ds s = []" "ds_ok s" "rs_ok s" "rstackcnt s < 511" "tl (debug_xt_list s) = []"
    by (simp_all add: m init_fstate_def ds_def ds_ok_def rs_ok_def)
  have 4: "apply_word 31 (ds s) = Some [0]" unfolding 3(1) by code_simp
  from enterforth_primitive [OF s 1 _ 2 4 3(2-5)] s show ?thesis by fastforce
qed

end
