(* ===== verification/Forth_Mem.thy ===== *)
theory Forth_Mem
  imports Forth_Run
begin

text \<open>
  The words that touch memory, specified like the stack words but on memory and stack together:
  the fetches and stores of each width, \<open>+!\<close>, the byte-wise accesses and the block words \<open>move\<close>
  and \<open>fill\<close>, the last two by what memory holds afterwards and not by how it is copied.
\<close>

subsection \<open>Specifications\<close>

type_synonym mem_fn = "memory \<Rightarrow> cell list \<Rightarrow> (memory \<times> cell list) option"

definition fetch_spec :: "(memory \<Rightarrow> ucell \<Rightarrow> cell option) \<Rightarrow> mem_fn" where
  "fetch_spec rd m sk = (case sk of a # r \<Rightarrow> map_option (\<lambda>v. (m, v # r)) (rd m a) | _ \<Rightarrow> None)"

definition store_spec :: "(memory \<Rightarrow> ucell \<Rightarrow> cell \<Rightarrow> memory option) \<Rightarrow> mem_fn" where
  "store_spec wr m sk = (case sk of a # x # r \<Rightarrow> map_option (\<lambda>m'. (m', r)) (wr m a x) | _ \<Rightarrow> None)"

definition all_mapped :: "memory \<Rightarrow> ucell \<Rightarrow> nat \<Rightarrow> bool" where
  "all_mapped m a n \<longleftrightarrow> list_all (\<lambda>i. m (a + of_nat i) \<noteq> None) [0..<n]"

definition move_spec :: mem_fn where
  "move_spec m sk =
     (case sk of n # dest # src # r \<Rightarrow>
        if linear dest (unat n) \<and> linear src (unat n) \<and> all_mapped m dest (unat n) \<and> all_mapped m src (unat n)
        then Some (\<lambda>x. if x - dest < n then m (src + (x - dest)) else m x, r) else None
      | _ \<Rightarrow> None)"

definition fill_spec :: mem_fn where
  "fill_spec m sk =
     (case sk of b # n # a # r \<Rightarrow>
        if all_mapped m a (unat n) then Some (\<lambda>x. if x - a < n then Some (ucast b) else m x, r) else None
      | _ \<Rightarrow> None)"

definition mem_words :: "(string \<times> mem_fn) list" where
  "mem_words =
     [(''@'', fetch_spec read_ucell), (''l@'', fetch_spec read_ucell),
      (''c@'', fetch_spec (\<lambda>m a. map_option ucast (read_byte m a))),
      (''w@'', fetch_spec (\<lambda>m a. map_option ucast (read_word m a))),
      (''unaligned-w@'', fetch_spec (\<lambda>m a. map_option ucast (read_word m a))),
      (''unaligned-l@'', fetch_spec read_ucell),
      (''!'', store_spec write_ucell), (''l!'', store_spec write_ucell),
      (''c!'', store_spec (\<lambda>m a x. write_byte m a (ucast x))),
      (''w!'', store_spec (\<lambda>m a x. write_word m a (ucast x))),
      (''unaligned-w!'', store_spec (\<lambda>m a x. write_word m a (ucast x))),
      (''unaligned-l!'', store_spec write_ucell),
      (''+!'', store_spec (\<lambda>m a x. Option.bind (read_ucell m a) (\<lambda>v. write_ucell m a (v + x)))),
      (''move'', move_spec), (''fill'', fill_spec)]"

subsection \<open>Refinement\<close>

definition mrefines :: "('w fstate \<Rightarrow> 'w fstate option) \<Rightarrow> mem_fn \<Rightarrow> bool" where
  "mrefines w g \<longleftrightarrow>
     (\<forall>s m' ys. ds_ok s \<longrightarrow> g (mem s) (ds s) = Some (m', ys) \<longrightarrow>
        (\<exists>c f. w s = Some (s\<lparr>mem := m', dstackcnt := c, dstack := f\<rparr>) \<and> 0 \<le> c \<and> c < 512 \<and> items f c = ys))"

lemma POP_ds:
  assumes "ds_ok s" and "ds s = x # xs"
  shows "POP s = Some (x, s\<lparr>dstackcnt := dstackcnt s - 1\<rparr>)" and "ds_ok (s\<lparr>dstackcnt := dstackcnt s - 1\<rparr>)"
    and "ds (s\<lparr>dstackcnt := dstackcnt s - 1\<rparr>) = xs"
  using assms by (auto simp: ds_ok_def ds_def items_Cons_iff POP_def dstack_get_def in_stack_def)

lemma fetch_refines:
  assumes "\<And>s. w s = do { (a, s) \<leftarrow> POP s; v \<leftarrow> rd (mem s) a; PUSH (h v) s }"
    and "rd' = (\<lambda>m a. map_option h (rd m a))"
  shows "mrefines w (fetch_spec rd')"
  unfolding mrefines_def
proof (intro allI impI)
  fix s :: "'a fstate" and m' ys
  assume ok: "ds_ok s" and "fetch_spec rd' (mem s) (ds s) = Some (m', ys)"
  then obtain a r v where d: "ds s = a # r" and v: "rd (mem s) a = Some v" and m': "m' = mem s" and ys: "ys = h v # r"
    by (auto simp: fetch_spec_def assms(2) split: list.splits)
  note p = POP_ds [OF ok d]
  then have c: "0 \<le> dstackcnt s - 1" "dstackcnt s < 512" "items (dstack s) (dstackcnt s - 1) = r"
    using ok by (auto simp: ds_ok_def)
  then have "items ((dstack s)(dstackcnt s := h v)) (dstackcnt s) = h v # r"
    using items_Suc [of "dstackcnt s - 1" "(dstack s)(dstackcnt s := h v)"] by simp
  moreover have "w s = Some (s\<lparr>dstack := (dstack s)(dstackcnt s := h v)\<rparr>)"
    using c p(1) v assms(1) by (simp add: PUSH_def dstack_set_def in_stack_def)
  ultimately show "\<exists>c f. w s = Some (s\<lparr>mem := m', dstackcnt := c, dstack := f\<rparr>) \<and> 0 \<le> c \<and> c < 512 \<and> items f c = ys"
    using c m' ys by (intro exI [of _ "dstackcnt s"] exI [of _ "(dstack s)(dstackcnt s := h v)"]) simp
qed

lemma store_refines:
  assumes "\<And>s. w s = do { (a, s) \<leftarrow> POP s; (x, s) \<leftarrow> POP s; m \<leftarrow> wr (mem s) a x; Some (s\<lparr>mem := m\<rparr>) }"
  shows "mrefines w (store_spec wr)"
  unfolding mrefines_def
proof (intro allI impI)
  fix s :: "'a fstate" and m' ys
  assume ok: "ds_ok s" and "store_spec wr (mem s) (ds s) = Some (m', ys)"
  then obtain a x where d: "ds s = a # x # ys" and v: "wr (mem s) a x = Some m'"
    by (auto simp: store_spec_def split: list.splits)
  note p = POP_ds [OF ok d]
  note q = POP_ds [OF p(2,3)]
  have "w s = Some (s\<lparr>mem := m', dstackcnt := dstackcnt s - 2, dstack := dstack s\<rparr>)"
    using p(1) q(1) v assms(1) by simp
  then show "\<exists>c f. w s = Some (s\<lparr>mem := m', dstackcnt := c, dstack := f\<rparr>) \<and> 0 \<le> c \<and> c < 512 \<and> items f c = ys"
    using q(2,3) by (intro exI [of _ "dstackcnt s - 2"] exI [of _ "dstack s"]) (simp add: ds_ok_def)
qed

lemma block_refines:
  assumes "\<And>s. w s = do { (a, s) \<leftarrow> POP s; (b, s) \<leftarrow> POP s; (c, s) \<leftarrow> POP s; m \<leftarrow> h (mem s) a b c; Some (s\<lparr>mem := m\<rparr>) }"
    and "\<And>m sk m' ys. g m sk = Some (m', ys) \<Longrightarrow> \<exists>a b c. sk = a # b # c # ys \<and> h m a b c = Some m'"
  shows "mrefines w g"
  unfolding mrefines_def
proof (intro allI impI)
  fix s :: "'a fstate" and m' ys
  assume ok: "ds_ok s" and "g (mem s) (ds s) = Some (m', ys)"
  from assms(2) [OF this(2)] obtain a b c where d: "ds s = a # b # c # ys" and h: "h (mem s) a b c = Some m'"
    by blast
  note p = POP_ds [OF ok d]
  note q = POP_ds [OF p(2,3)]
  note r = POP_ds [OF q(2,3)]
  have "w s = Some (s\<lparr>mem := m', dstackcnt := dstackcnt s - 3, dstack := dstack s\<rparr>)"
    using p(1) q(1) r(1) h assms(1) by simp
  then show "\<exists>c f. w s = Some (s\<lparr>mem := m', dstackcnt := c, dstack := f\<rparr>) \<and> 0 \<le> c \<and> c < 512 \<and> items f c = ys"
    using r(2,3) by (intro exI [of _ "dstackcnt s - 3"] exI [of _ "dstack s"]) (simp add: ds_ok_def)
qed

lemma all_mapped_iff: "all_mapped m a n \<longleftrightarrow> mapped m a n"
  by (auto simp: all_mapped_def mapped_def list_all_iff)

lemma in_region_word: "in_region a (unat n) x \<longleftrightarrow> x - a < n"
  by (simp add: in_region_def word_less_nat_alt)

lemma memmove_copies:
  assumes "linear dest (unat n)" "linear src (unat n)" "mapped m dest (unat n)" "mapped m src (unat n)"
  shows "\<exists>m'. memmove m dest src n = Some m' \<and> copied m dest src (unat n) m'"
  using copy_up_correct [OF assms] copy_down_correct [OF assms] by (auto simp: memmove_def)

lemma fmove_refines: "mrefines fmove move_spec"
proof (rule block_refines [where h = "\<lambda>m n d s. memmove m d s n"])
  fix m sk m' ys
  assume "move_spec m sk = Some (m', ys)"
  then obtain n d s where sk: "sk = n # d # s # ys" and pre: "linear d (unat n)" "linear s (unat n)"
    "mapped m d (unat n)" "mapped m s (unat n)" and m': "m' = (\<lambda>x. if x - d < n then m (s + (x - d)) else m x)"
    by (auto simp: move_spec_def all_mapped_iff split: list.splits if_splits)
  from memmove_copies [OF pre] obtain m1 where "memmove m d s n = Some m1" "copied m d s (unat n) m1" by blast
  moreover from this have "m1 = m'" by (intro ext) (simp add: m' copied_def in_region_word)
  ultimately show "\<exists>n d s. sk = n # d # s # ys \<and> memmove m d s n = Some m'" using sk by blast
qed (simp add: fmove_def)

lemma ffill_refines: "mrefines ffill fill_spec"
proof (rule block_refines [where h = "\<lambda>m v n a. memset m a v n"])
  fix m sk m' ys
  assume "fill_spec m sk = Some (m', ys)"
  then obtain b n a where sk: "sk = b # n # a # ys" and pre: "mapped m a (unat n)"
    and m': "m' = (\<lambda>x. if x - a < n then Some (ucast b) else m x)"
    by (auto simp: fill_spec_def all_mapped_iff split: list.splits if_splits)
  have "unat n \<le> 2 ^ 32" using unsigned_less [of n, where ?'a = nat] by simp
  from memset_loop_correct [OF this pre, of "ucast b"] obtain m1 where
    "memset m a b n = Some m1" "\<forall>x. m1 x = (if x - a < n then Some (ucast b) else m x)"
    by (auto simp: memset_def in_region_word)
  moreover from this(2) have "m1 = m'" by (intro ext) (simp add: m')
  ultimately show "\<exists>b n a. sk = b # n # a # ys \<and> memset m a b n = Some m'" using sk by blast
qed (simp add: ffill_def)

lemma map_option_self: "map_option (\<lambda>x. x) v = v"
  by (cases v) simp_all

lemma at_refines: "mrefines fetch (fetch_spec read_ucell)"
  by (rule fetch_refines [of _ "read_ucell" "\<lambda>x. x"]) (simp_all add: fetch_def map_option_self)

lemma lfetch_refines: "mrefines lfetch (fetch_spec read_ucell)"
  by (rule fetch_refines [of _ "read_long" "\<lambda>x. x"]) (simp_all add: lfetch_def read_ucell_def map_option_self fun_eq_iff)

lemma cfetch_refines: "mrefines cfetch (fetch_spec (\<lambda>m a. map_option ucast (read_byte m a)))"
  by (rule fetch_refines [of _ "read_byte" "ucast"]) (simp_all add: cfetch_def)

lemma wfetch_refines: "mrefines wfetch (fetch_spec (\<lambda>m a. map_option ucast (read_word m a)))"
  by (rule fetch_refines [of _ "read_word" "ucast"]) (simp_all add: wfetch_def)

lemma unalignedwordread_refines: "mrefines unalignedwordread (fetch_spec (\<lambda>m a. map_option ucast (read_word m a)))"
  by (rule fetch_refines [of _ "unaligned_read_word" "\<lambda>x. x"]) (simp_all add: unalignedwordread_def unaligned_read_word_eq map_option_self)

lemma unalignedlongread_refines: "mrefines unalignedlongread (fetch_spec read_ucell)"
  by (rule fetch_refines [of _ "unaligned_read_long" "\<lambda>x. x"]) (simp_all add: unalignedlongread_def unaligned_read_long_eq read_ucell_def map_option_self fun_eq_iff)

lemma bang_refines: "mrefines store (store_spec write_ucell)"
  by (rule store_refines) (simp add: store_def)

lemma lstore_refines: "mrefines lstore (store_spec write_ucell)"
  by (rule store_refines) (simp add: lstore_def write_ucell_def)

lemma cstore_refines: "mrefines cstore (store_spec (\<lambda>m a x. write_byte m a (ucast x)))"
  by (rule store_refines) (simp add: cstore_def)

lemma wstore_refines: "mrefines wstore (store_spec (\<lambda>m a x. write_word m a (ucast x)))"
  by (rule store_refines) (simp add: wstore_def)

lemma ucast_u16_u32: "ucast (ucast (ucast (v :: u32) :: u16) :: u32) = (ucast v :: u16)"
  by (rule bit_word_eqI) (auto simp: bit_simps)

lemma unalignedwordwrite_refines: "mrefines unalignedwordwrite (store_spec (\<lambda>m a x. write_word m a (ucast x)))"
  by (rule store_refines) (simp add: unalignedwordwrite_def unaligned_write_word_eq ucast_u16_u32)

lemma unalignedlongwrite_refines: "mrefines unalignedlongwrite (store_spec write_ucell)"
  by (rule store_refines) (simp add: unalignedlongwrite_def unaligned_write_long_eq write_ucell_def)

lemma plusstore_refines: "mrefines plusstore (store_spec (\<lambda>m a x. Option.bind (read_ucell m a) (\<lambda>v. write_ucell m a (v + x))))"
  by (rule store_refines) (simp add: plusstore_def)

lemmas mem_word_refines = at_refines lfetch_refines cfetch_refines wfetch_refines unalignedwordread_refines unalignedlongread_refines bang_refines lstore_refines cstore_refines wstore_refines unalignedwordwrite_refines unalignedlongwrite_refines plusstore_refines
  fmove_refines ffill_refines


lemma mem_table_refines:
  "list_all (\<lambda>(name, w). case map_of mem_words name of None \<Rightarrow> True | Some g \<Rightarrow> mrefines w g)
     (zip wordnames (words E con))"
  by (simp add: wordnames_def words_def mem_words_def mem_word_refines)

text \<open>
  C3: the refinement of the memory words. For every index of the name table whose name has a memory
  specification, the entry of \<open>words[]\<close> at that index, run on a state whose memory and data stack
  the specification takes to \<open>m'\<close> and \<open>ys\<close>, returns with that memory and that stack and changes
  nothing else. In particular \<open>move\<close> copies correctly whatever the overlap of its regions, and the
  byte-wise accesses agree with the plain ones.
\<close>

theorem memory_words_refine_spec:
  assumes "i < length wordnames" and "map_of mem_words (wordnames ! i) = Some g"
    and "ds_ok s" and "g (mem s) (ds s) = Some (m', ys)"
  shows "\<exists>c f. (words E con ! i) s = Some (s\<lparr>mem := m', dstackcnt := c, dstack := f\<rparr>) \<and>
           0 \<le> c \<and> c < 512 \<and> items f c = ys"
proof -
  have "mrefines (words E con ! i) g"
    using mem_table_refines [of E con] assms(1,2) by (auto simp: list_all_length words_length)
  with assms(3,4) show ?thesis by (auto simp: mrefines_def)
qed

theorem memory_words_refine_spec_witness:
  "\<exists>m' c f. write_ucell (mem_of_cells [5, 6]) 4 9 = Some m' \<and>
     (words bare_env (\<lambda>_ _. None) ! 59)
       ((init_fstate (mem_of_cells [5, 6]) ())\<lparr>dstackcnt := 2, dstack := (\<lambda>i. if i = 2 then 4 else 9)\<rparr>)
     = Some ((init_fstate m' ())\<lparr>dstackcnt := c, dstack := f\<rparr>) \<and> items f c = []"
proof -
  let ?s = "(init_fstate (mem_of_cells [5, 6]) ())\<lparr>dstackcnt := 2, dstack := (\<lambda>i. if i = 2 then 4 else 9)\<rparr>"
  have 1: "59 < length wordnames" by (simp add: words_length)
  have 2: "map_of mem_words (wordnames ! 59) = Some (store_spec write_ucell)"
    by (simp add: wordnames_def mem_words_def)
  have 3: "ds_ok ?s" by (simp add: ds_ok_def)
  have "write_ucell (mem_of_cells [5, 6]) 4 9 \<noteq> None" by code_simp
  then obtain m' where m': "write_ucell (mem_of_cells [5, 6]) 4 9 = Some m'" by blast
  have "ds ?s = [4, 9]" by (simp add: items_pred)
  then have 4: "store_spec write_ucell (mem ?s) (ds ?s) = Some (m', [])"
    using m' by (simp add: store_spec_def init_fstate_def)
  show ?thesis
    using memory_words_refine_spec [OF 1 2 3 4, of bare_env "\<lambda>_ _. None"] m' by (simp add: init_fstate_def) blast
qed

end
