(* ===== verification/Forth_Types.thy ===== *)
theory Forth_Types
  imports Forth_Run
begin

text \<open>
  Stack effects. Forth has no types, but a definition whose words agree on how deep the stack is cannot
  underflow or overflow it. A checker infers the shape of the stack after a structured program; a number
  just written is a literal type, so that words whose argument must be in some set (shift counts, divisors, the
  depth for \<open>pick\<close> and \<open>roll\<close>, the start of a loop) are accepted after a suitable number. A definition it
  accepts runs on the engine of \<open>kernel/forth.c\<close> without leaving the stacks.
\<close>

subsection \<open>The checker\<close>

datatype ty = Any | Lit cell

fun inhabits :: "cell \<Rightarrow> ty \<Rightarrow> bool" where
  "inhabits x Any = True"
| "inhabits x (Lit v) = (x = v)"

abbreviation typed :: "cell list \<Rightarrow> ty list \<Rightarrow> bool" where
  "typed \<equiv> list_all2 inhabits"

text \<open>Items taken and items left by the words that accept any cells.\<close>

definition signatures :: "(string \<times> nat \<times> nat) list" where
  "signatures =
     [(''dup'', 1, 2), (''2dup'', 2, 4), (''over'', 2, 3), (''2over'', 4, 6), (''drop'', 1, 0), (''2drop'', 2, 0), (''nip'', 2, 1),
      (''rot'', 3, 3), (''-rot'', 3, 3), (''swap'', 2, 2), (''2swap'', 4, 4), (''depth'', 0, 1), (''+'', 2, 1), (''-'', 2, 1),
      (''*'', 2, 1), (''u*'', 2, 1), (''abs'', 1, 1), (''negate'', 1, 1), (''max'', 2, 1), (''min'', 2, 1), (''and'', 2, 1),
      (''or'', 2, 1), (''xor'', 2, 1), (''invert'', 1, 1), (''d+'', 4, 2), (''d-'', 4, 2), (''m*'', 2, 2), (''um*'', 2, 2),
      (''='', 2, 1), (''>'', 2, 1), (''<'', 2, 1), (''u>'', 2, 1), (''u<'', 2, 1)]"

text \<open>The words that restrict their topmost argument.\<close>

definition literal_word :: "string \<Rightarrow> cell \<Rightarrow> ty list \<Rightarrow> ty list option" where
  "literal_word w u ts =
     (if w = ''pick'' then if unat u < length ts then Some (ts ! unat u # ts) else None
      else if w = ''roll'' then if unat u < length ts then Some (ts ! unat u # take (unat u) ts @ drop (Suc (unat u)) ts) else None
      else if w \<in> {''lshift'', ''rshift'', ''>>a''} then if unat u < 32 \<and> 1 \<le> length ts then Some (Any # drop 1 ts) else None
      else if w = ''mu/mod'' then if u \<noteq> 0 \<and> 2 \<le> length ts then Some (Any # Any # Any # drop 2 ts) else None
      else None)"

definition word_type :: "nat \<Rightarrow> ty list \<Rightarrow> ty list option" where
  "word_type i ts =
     (if i < length wordnames
      then case map_of signatures (wordnames ! i) of
          Some (n, m) \<Rightarrow> if n \<le> length ts then Some (replicate m Any @ drop n ts) else None
        | None \<Rightarrow> (case ts of Lit u # us \<Rightarrow> literal_word (wordnames ! i) u us | _ \<Rightarrow> None)
      else None)"

definition anys :: "ty list \<Rightarrow> ty list" where
  "anys ts = map (\<lambda>_. Any) ts"

definition join :: "ty list \<Rightarrow> ty list \<Rightarrow> ty list option" where
  "join us vs = (if us = vs then Some us else if length us = length vs then Some (anys us) else None)"

text \<open>\<open>l\<close>: inside a loop; \<open>cap\<close>: the depth never to be passed.\<close>

fun check :: "bool \<Rightarrow> nat \<Rightarrow> item list \<Rightarrow> ty list \<Rightarrow> ty list option" where
  "check l cap [] ts = Some ts"
| "check l cap (SWord i # its) ts = do { us \<leftarrow> word_type i ts; if length us \<le> cap then check l cap its us else None }"
| "check l cap (Num v # its) ts = (if length ts < cap then check l cap its (Lit v # ts) else None)"
| "check l cap (LoopI # its) ts = (if l \<and> length ts < cap then check l cap its (Any # ts) else None)"
| "check l cap (Colon body # its) ts = do { us \<leftarrow> check False cap body ts; check l cap its us }"
| "check l cap (Cond t e # its) ts =
     (case ts of x # r \<Rightarrow> do { us \<leftarrow> check l cap t r; vs \<leftarrow> check l cap e r; ws \<leftarrow> join us vs; check l cap its ws } | _ \<Rightarrow> None)"
| "check l cap (DoLoop body # its) ts =
     (case ts of Lit start # lim # r \<Rightarrow>
        if sint start + 1 < 2 ^ 31
        then do { us \<leftarrow> check True cap body (anys r); if length us = length r then check l cap its (anys r) else None }
        else None
      | _ \<Rightarrow> None)"

subsection \<open>Soundness of the table\<close>

definition takes_leaves :: "stack_fn \<Rightarrow> nat \<Rightarrow> nat \<Rightarrow> bool" where
  "takes_leaves g n m \<longleftrightarrow>
     (\<forall>xs below. length xs = n \<longrightarrow> (case g (xs @ below) of None \<Rightarrow> False | Some zs \<Rightarrow> m \<le> length zs \<and> drop m zs = below))"

lemma takes_leavesD:
  assumes "takes_leaves g n m" and "length xs = n"
  shows "\<exists>ys. g (xs @ below) = Some (ys @ below) \<and> length ys = m"
proof -
  from assms obtain zs where zs: "g (xs @ below) = Some zs" "m \<le> length zs" "drop m zs = below"
    by (auto simp: takes_leaves_def split: option.splits)
  then have "zs = take m zs @ below" by (metis append_take_drop_id)
  then show ?thesis using zs by (intro exI [of _ "take m zs"]) simp
qed

lemma takes_leaves_ops:
  "takes_leaves (unop f) (Suc 0) (Suc 0)" "takes_leaves (binop h) 2 (Suc 0)" "takes_leaves (dbinop d) 4 2" "takes_leaves (prodop p) 2 2"
  by (auto simp: takes_leaves_def length_Suc_conv eval_nat_numeral spec_defs Let_def)

definition sig_ok :: "string \<times> nat \<times> nat \<Rightarrow> bool" where
  "sig_ok z = (case z of (w, n, m) \<Rightarrow> case map_of stack_words w of None \<Rightarrow> False | Some g \<Rightarrow> takes_leaves g n m)"

lemma signatures_ok: "list_all sig_ok signatures"
  unfolding signatures_def sig_ok_def
  by (simp add: stack_words_def takes_leaves_ops) (auto simp: takes_leaves_def length_Suc_conv eval_nat_numeral)

lemma signature_sound:
  assumes "map_of signatures w = Some (n, m)"
  shows "\<exists>g. map_of stack_words w = Some g \<and> takes_leaves g n m"
proof -
  have "sig_ok (w, n, m)" using map_of_SomeD [OF assms] signatures_ok by (auto simp: list_all_iff)
  then show ?thesis by (auto simp: sig_ok_def split: option.splits)
qed

lemma literal_sound:
  assumes "literal_word w u ts = Some us" and "typed xs ts"
  shows "\<exists>g ys. map_of stack_words w = Some g \<and> g (u # xs @ below) = Some (ys @ below) \<and> typed ys us"
proof -
  have len: "length xs = length ts" using assms(2) by (rule list_all2_lengthD)
  have nth: "inhabits (xs ! k) (ts ! k)" if "k < length ts" for k using assms(2) that by (simp add: list_all2_nthD2)
  have sub: "typed (take k xs) (take k ts)" "typed (drop k xs) (drop k ts)" for k
    using assms(2) by (rule list_all2_takeI, rule list_all2_dropI)
  have ne: "w \<in> {''pick'', ''roll'', ''lshift'', ''rshift'', ''>>a'', ''mu/mod''}"
    using assms(1) by (auto simp: literal_word_def split: if_splits)
  consider (pick) "w = ''pick''" "unat u < length ts" "us = ts ! unat u # ts"
    | (roll) "w = ''roll''" "unat u < length ts" "us = ts ! unat u # take (unat u) ts @ drop (Suc (unat u)) ts"
    | (shift) "w \<in> {''lshift'', ''rshift'', ''>>a''}" "unat u < 32" "1 \<le> length ts" "us = Any # drop 1 ts"
    | (div) "w = ''mu/mod''" "u \<noteq> 0" "2 \<le> length ts" "us = Any # Any # Any # drop 2 ts"
    using assms(1) by (auto simp: literal_word_def split: if_splits)
  then show ?thesis
  proof cases
    case pick
    have "map_of stack_words w = Some (\<lambda>st. case st of u # r \<Rightarrow> if unat u < length r then Some (r ! unat u # r) else None | _ \<Rightarrow> None)"
      by (simp add: stack_words_def pick(1))
    moreover have "typed (xs ! unat u # xs) us" using pick(2,3) nth [of "unat u"] assms(2) by simp
    ultimately show ?thesis using pick(2) len by (intro exI conjI) (assumption, simp add: nth_append, assumption)
  next
    case roll
    have "typed (xs ! unat u # take (unat u) xs @ drop (Suc (unat u)) xs) us"
      using roll nth [of "unat u"] sub by (auto intro: list_all2_appendI)
    moreover have "map_of stack_words w = Some (\<lambda>st. case st of u # r \<Rightarrow> if unat u < length r
         then Some (r ! unat u # take (unat u) r @ drop (Suc (unat u)) r) else None | _ \<Rightarrow> None)"
      by (simp add: stack_words_def roll(1))
    ultimately show ?thesis using roll(2) len
      by (intro exI conjI) (assumption, simp add: nth_append, assumption)
  next
    case shift
    then obtain x r where x: "xs = x # r" using len by (cases xs) auto
    then have "typed r (drop 1 ts)" using sub(2) [of 1] by simp
    moreover obtain g where "map_of stack_words w = Some (shiftop g)" using shift(1) by (auto simp: stack_words_def)
    moreover have "shiftop g (u # xs @ below) = Some ((g (unat u) x # r) @ below)" using shift(2) by (simp add: shiftop_def x)
    ultimately show ?thesis using shift(4) by (intro exI conjI) (assumption, assumption, simp)
  next
    case div
    then obtain x y r where x: "xs = x # y # r" using len by (cases xs; cases "tl xs") auto
    then have "typed r (drop 2 ts)" using sub(2) [of 2] by simp
    moreover obtain g where g: "map_of stack_words w = Some g" and "g (u # xs @ below) = Some ([dhi (double x y div ucast u),
        dlo (double x y div ucast u), ucast (double x y mod ucast u)] @ r @ below)"
      using div(1,2) by (simp add: stack_words_def x Let_def)
    ultimately show ?thesis using div(4)
      by (intro exI [of _ g] exI [of _ "[dhi (double x y div ucast u), dlo (double x y div ucast u), ucast (double x y mod ucast u)] @ r"]) simp
  qed
qed

lemma word_type_sound:
  assumes "word_type i ts = Some us" and "typed xs ts" and "length us + length below \<le> 511"
  shows "\<exists>ys. apply_word i (xs @ below) = Some (ys @ below) \<and> typed ys us"
proof -
  from assms(1) have i: "i < length wordnames" by (simp add: word_type_def split: if_splits)
  have "\<exists>g ys. map_of stack_words (wordnames ! i) = Some g \<and> g (xs @ below) = Some (ys @ below) \<and> typed ys us"
  proof (cases "map_of signatures (wordnames ! i)")
    case None
    then obtain u ts' where "ts = Lit u # ts'" "literal_word (wordnames ! i) u ts' = Some us"
      using assms(1) by (auto simp: word_type_def split: if_splits list.splits ty.splits)
    moreover from this obtain xs' where "xs = u # xs'" "typed xs' ts'" using assms(2) by (auto simp: list_all2_Cons2)
    ultimately show ?thesis using literal_sound by fastforce
  next
    case (Some nm)
    obtain n m where nm: "nm = (n, m)" by (cases nm)
    then have us: "n \<le> length ts" "us = replicate m Any @ drop n ts" using Some assms(1) i by (auto simp: word_type_def split: if_splits)
    from signature_sound Some nm obtain g where g: "map_of stack_words (wordnames ! i) = Some g" "takes_leaves g n m" by blast
    have "length (take n xs) = n" using us(1) list_all2_lengthD [OF assms(2)] by simp
    from takes_leavesD [OF g(2) this, of "drop n xs @ below"] obtain ys where
      ys: "g (xs @ below) = Some (ys @ drop n xs @ below)" "length ys = m" by (auto simp flip: append_assoc)
    have "typed ys (replicate m Any)" using ys(2) by (simp add: list_all2_conv_all_nth)
    moreover have "typed (drop n xs) (drop n ts)" using assms(2) by (rule list_all2_dropI)
    ultimately show ?thesis using g(1) ys(1) us(2) by (intro exI [of _ g] exI [of _ "ys @ drop n xs"]) (simp add: list_all2_appendI)
  qed
  then obtain g ys where g: "map_of stack_words (wordnames ! i) = Some g" "g (xs @ below) = Some (ys @ below)" "typed ys us" by blast
  then show ?thesis using i assms(3) list_all2_lengthD [OF g(3)] by (simp add: apply_word_def)
qed

subsection \<open>Soundness of the checker\<close>

lemma typed_anys: "typed xs ts \<Longrightarrow> typed xs (anys ts)"
  by (auto simp: anys_def list_all2_conv_all_nth)

lemma typed_any_length: "typed xs (anys ts) \<longleftrightarrow> length xs = length ts"
  by (auto simp: anys_def list_all2_conv_all_nth)

lemma join_sound: "join us vs = Some ws \<Longrightarrow> typed xs us \<or> typed xs vs \<Longrightarrow> typed xs ws"
  by (auto simp: join_def typed_any_length dest: list_all2_lengthD split: if_splits)

lemma iterate_typed:
  assumes "\<And>i xs. typed xs (anys ts) \<Longrightarrow> \<exists>ys. f i (xs @ below) = Some (ys @ below) \<and> typed ys (anys ts)"
  shows "typed xs (anys ts) \<Longrightarrow> \<exists>ys. iterate f n i (xs @ below) = Some (ys @ below) \<and> typed ys (anys ts)"
proof (induction n arbitrary: i xs)
  case (Suc n)
  from assms [OF Suc.prems, of i] obtain ys where ys: "f i (xs @ below) = Some (ys @ below)" "typed ys (anys ts)" by blast
  from Suc.IH [OF ys(2), of "i + 1"] ys(1) show ?case by auto
qed auto

lemma check_sound:
  "check l cap its ts = Some us \<Longrightarrow> length below + cap \<le> 511 \<Longrightarrow> (l \<longrightarrow> li \<noteq> None) \<Longrightarrow> typed xs ts \<Longrightarrow>
    \<exists>ys. run_items li its (xs @ below) = Some (ys @ below) \<and> typed ys us"
proof (induction l cap its ts arbitrary: li xs us rule: check.induct)
  case (2 l cap i its ts)
  from "2.prems"(1) obtain vs where vs: "word_type i ts = Some vs" "length vs \<le> cap" "check l cap its vs = Some us"
    by (auto simp: bind_eq_Some_iff split: if_splits)
  from word_type_sound [OF vs(1) "2.prems"(4), of below] vs(2) "2.prems"(2) obtain ys where
    ys: "apply_word i (xs @ below) = Some (ys @ below)" "typed ys vs" by auto
  from "2.IH" [OF vs(1,2,3) "2.prems"(2,3) ys(2)] ys(1) show ?case by auto
next
  case (3 l cap v its ts)
  then have "length ts < cap" "check l cap its (Lit v # ts) = Some us" by (simp_all split: if_splits)
  moreover have "typed (v # xs) (Lit v # ts)" using "3.prems"(4) by simp
  ultimately show ?case using "3.IH" [of us li "v # xs"] "3.prems" list_all2_lengthD [OF "3.prems"(4)] by (auto simp: push_item_def)
next
  case (4 l cap its ts)
  then have l: l "length ts < cap" "check l cap its (Any # ts) = Some us" by (simp_all split: if_splits)
  with "4.prems"(3) obtain i where "li = Some i" by auto
  moreover have "typed (i # xs) (Any # ts)" using "4.prems"(4) by simp
  ultimately show ?case using "4.IH" [of us li "i # xs"] l "4.prems" list_all2_lengthD [OF "4.prems"(4)] by (auto simp: push_item_def)
next
  case (5 l cap body its ts)
  from "5.prems"(1) obtain vs where vs: "check False cap body ts = Some vs" "check l cap its vs = Some us" by (auto simp: bind_eq_Some_iff)
  from "5.IH"(1) [OF vs(1) "5.prems"(2) _ "5.prems"(4), of None] obtain ys where
    ys: "run_items None body (xs @ below) = Some (ys @ below)" "typed ys vs" by auto
  from "5.IH"(2) [OF vs "5.prems"(2,3) ys(2)] ys(1) show ?case by auto
next
  case (6 l cap t e its ts)
  from "6.prems"(1) obtain x r where ts: "ts = x # r" by (cases ts) auto
  from "6.prems"(1) obtain ws vs zs where c: "check l cap t r = Some ws" "check l cap e r = Some vs" "join ws vs = Some zs" "check l cap its zs = Some us"
    by (auto simp: ts bind_eq_Some_iff)
  from "6.prems"(4) obtain y ys where xs: "xs = y # ys" "typed ys r" by (auto simp: ts list_all2_Cons2)
  have "\<exists>qs. (if y \<noteq> 0 then run_items li t (ys @ below) else run_items li e (ys @ below)) = Some (qs @ below) \<and> typed qs zs"
    using "6.IH"(1) [OF ts c(1) "6.prems"(2,3) xs(2)] "6.IH"(2) [OF ts c(1,2) "6.prems"(2,3) xs(2)] join_sound [OF c(3)] by (cases "y = 0") auto
  then obtain qs where qs: "(if y \<noteq> 0 then run_items li t (ys @ below) else run_items li e (ys @ below)) = Some (qs @ below)" "typed qs zs" by blast
  from "6.IH"(3) [OF ts c "6.prems"(2,3) qs(2)] qs(1) xs(1) show ?case by (auto split: if_splits)
next
  case (7 l cap body its ts)
  from "7.prems"(1) obtain start lim r where ts: "ts = Lit start # lim # r" "sint start + 1 < 2 ^ 31"
    by (auto split: list.splits ty.splits if_splits)
  from "7.prems"(1) ts obtain vs where c: "check True cap body (anys r) = Some vs" "length vs = length r" "check l cap its (anys r) = Some us"
    by (auto simp: bind_eq_Some_iff split: if_splits)
  from "7.prems"(4) obtain y ys where xs: "xs = start # y # ys" "typed ys r" by (auto simp: ts list_all2_Cons2)
  have "\<exists>qs. run_items (Some i) body (zs @ below) = Some (qs @ below) \<and> typed qs (anys r)" if "typed zs (anys r)" for i zs
    using "7.IH"(1) [OF ts(1) refl refl ts(2) c(1) "7.prems"(2) _ that, of "Some i"] c(2) by (auto simp: typed_any_length dest: list_all2_lengthD)
  from iterate_typed [where f = "\<lambda>i. run_items (Some i) body" and n = "turns start y" and i = start, OF this typed_anys [OF xs(2)]] obtain qs where
    qs: "iterate (\<lambda>i sk. run_items (Some i) body sk) (turns start y) start (ys @ below) = Some (qs @ below)" "typed qs (anys r)" by blast
  from "7.IH"(2) [OF ts(1) refl refl ts(2) c "7.prems"(2,3) qs(2)] qs(1) xs(1) ts(2) show ?case by auto
qed simp


text \<open>
  C5: Type soundness of stack effects. If the checker accepts the body of a colon definition at stack types \<open>ts\<close> within
  depth \<open>cap\<close>, and the stack is of those types with room for \<open>cap\<close>, then \<open>enterforth\<close> on the compiled definition
  returns, with any large enough fuel and success: no word meets an empty or a full stack, a zero divisor, or a shift
  count, depth or loop start out of range. The stack has the inferred types, what lay below is untouched, and so is
  the rest of the engine.
\<close>

theorem checked_code_runs:
  assumes "read_ucell (mem s) xt = Some DOCOL" and "compiled (mem s) (xt + 4) body"
    and "tok_at (mem s) (xt + 4 + csize body) 0"
    and "check False cap body ts = Some us" and "ds s = xs @ below" and "typed xs ts" and "length below + cap \<le> 511"
    and "ds_ok s" and "rs_ok s" and "rstackcnt s + int (rneed body) < 511" and "tl (debug_xt_list s) = []"
  shows "\<exists>N c f r ys. (\<forall>fuel \<ge> N. enterforth E fuel xt s =
           Some (False, s\<lparr>interruptforth := 0, dstackcnt := c, dstack := f, rstack := r\<rparr>)) \<and>
           items f c = ys @ below \<and> typed ys us \<and> items r (rstackcnt s) = rs s"
proof -
  from check_sound [OF assms(4,7) _ assms(6), of None] assms(5) obtain ys where
    ys: "run_items None body (ds s) = Some (ys @ below)" "typed ys us" by auto
  have r0: "0 \<le> rstackcnt s" using assms(9) by (simp add: rs_ok_def)
  from enter_run [OF assms(2,3) ys(1) assms(8) r0 assms(10,11), of E] obtain N c f r where
    run: "\<forall>fuel \<ge> N. enter_outer E fuel (rstackcnt s)
             (s\<lparr>interruptforth := 0, rstackcnt := rstackcnt s + 1, rstack := (rstack s)(rstackcnt s + 1 := PC s), PC := xt\<rparr>) =
           Some (s\<lparr>interruptforth := 0, dstackcnt := c, dstack := f, rstack := r\<rparr>)"
    and c: "items f c = ys @ below" and r: "\<forall>i \<le> rstackcnt s. r i = rstack s i" by blast
  have "items r (rstackcnt s) = rs s" using r by (simp add: items_def rs_def)
  moreover have "enterforth E fuel xt s = Some (False, s\<lparr>interruptforth := 0, dstackcnt := c, dstack := f, rstack := r\<rparr>)"
    if "N \<le> fuel" for fuel
    using run that assms(1,10) r0 by (simp add: enterforth_def PUSHR_def in_stack_def Let_def)
  ultimately show ?thesis using c ys(2) by blast
qed

theorem checked_code_runs_witness:
  "check False 3 sum_body [] = Some [Any] \<and> check False 2 sum_body [] = None \<and> check False 9 [SWord 35] [Any] = None \<and>
   (\<exists>N c f r y. (\<forall>fuel \<ge> N. enterforth bare_env fuel 24 (init_fstate sum_image ()) =
           Some (False, (init_fstate sum_image ())\<lparr>interruptforth := 0, dstackcnt := c, dstack := f, rstack := r\<rparr>)) \<and> items f c = [y])"
proof -
  let ?s = "init_fstate sum_image ()"
  have m: "mem ?s = sum_image" by (simp add: init_fstate_def)
  have 1: "read_ucell (mem ?s) 24 = Some DOCOL" unfolding m by code_simp
  have 2: "compiled (mem ?s) (24 + 4) sum_body" unfolding m by code_simp
  have 3: "tok_at (mem ?s) (24 + 4 + csize sum_body) 0" unfolding m by code_simp
  have 4: "check False 3 sum_body [] = Some [Any]" "check False 2 sum_body [] = None" "check False 9 [SWord 35] [Any] = None" by code_simp+
  have 5: "ds ?s = [] @ []" "typed [] []" "length ([] :: cell list) + 3 \<le> 511" "ds_ok ?s" "rs_ok ?s"
    "rstackcnt ?s + int (rneed sum_body) < 511" "tl (debug_xt_list ?s) = []"
    by (simp_all add: init_fstate_def ds_def ds_ok_def rs_ok_def sum_body_def)
  from checked_code_runs [OF 1 2 3 4(1) 5, of bare_env] obtain N c f r ys where
    r: "\<forall>fuel \<ge> N. enterforth bare_env fuel 24 ?s = Some (False, ?s\<lparr>interruptforth := 0, dstackcnt := c, dstack := f, rstack := r\<rparr>)"
    "items f c = ys @ []" "typed ys [Any]" by blast
  from r(3) obtain y where "ys = [y]" by (auto simp: list_all2_Cons2)
  with r 4 show ?thesis by auto
qed

end
