(* ===== verification/Dict_Spec.thy ===== *)
theory Dict_Spec
  imports Dict
begin

text \<open>
  What the search of \<open>kernel/dict.c\<close> promises: on a well-formed chain of headers \<open>findword\<close> ends and
  returns the code field of the newest word with the given name, letter case ignored, or 0.
\<close>

subsection \<open>Headers and chains\<close>

text \<open>
  A header at offset \<open>no\<close> of the dictionary at \<open>d\<close>: the name, its length with the high bit set, \<open>k\<close>
  zero bytes, the flag byte; then the link field and the code field.
\<close>

definition header_at :: "memory \<Rightarrow> ucell \<Rightarrow> nat \<Rightarrow> nat \<Rightarrow> u8 list \<Rightarrow> bool" where
  "header_at m d no k name \<longleftrightarrow>
     (\<forall>i < length name. m (d + of_nat (no + i)) = Some (name ! i)) \<and>
     m (d + of_nat (no + length name)) = Some (of_nat (length name) + 128) \<and>
     (\<forall>j < k. m (d + of_nat (no + length name + 1 + j)) = Some 0)"

definition good_name :: "u8 list \<Rightarrow> bool" where
  "good_name name \<longleftrightarrow> name \<noteq> [] \<and> length name \<le> 127 \<and> list_all (\<lambda>c. c < 128) name"

text \<open>
  The words reachable from the link field at \<open>lfa\<close>, newest first, each with the address of its link
  field and the contents of its code field. All headers lie below offset \<open>h\<close> and away from the addresses in \<open>H\<close>.
\<close>

fun chain :: "memory \<Rightarrow> ucell \<Rightarrow> nat \<Rightarrow> ucell set \<Rightarrow> ucell \<Rightarrow> (u8 list \<times> ucell \<times> ucell) list \<Rightarrow> bool" where
  "chain m d h H lfa [] \<longleftrightarrow> lfa = 0"
| "chain m d h H lfa ((name, l, v) # ws) \<longleftrightarrow> lfa = l \<and> l \<noteq> 0 \<and> good_name name \<and>
     (\<exists>no k. l = d + of_nat (no + length name + 2 + k) \<and> no + length name + k + 10 \<le> h \<and> header_at m d no k name \<and>
        (\<forall>j. no \<le> j \<and> j < no + length name + k + 10 \<longrightarrow> d + of_nat j \<notin> H)) \<and>
     read_ucell m (l + 4) = Some v \<and> (\<exists>next. read_ucell m l = Some next \<and> chain m d h H next ws)"

definition same_name :: "u8 list \<Rightarrow> u8 list \<Rightarrow> bool" where
  "same_name a b \<longleftrightarrow> map to_lower a = map to_lower b"

definition find_spec :: "(u8 list \<times> ucell \<times> ucell) list \<Rightarrow> u8 list \<Rightarrow> ucell" where
  "find_spec ws s1 = (case find (\<lambda>(n, _). same_name s1 n) ws of None \<Rightarrow> 0 | Some (n, l, v) \<Rightarrow> l + 4)"

subsection \<open>One header\<close>

lemma length_byte:
  assumes "n \<le> 127"
  shows "ucast (of_nat n + 128 :: u8) = (of_nat n + 128 :: ucell)" "\<not> of_nat n + 128 < (128 :: u8)"
    "of_nat n + 128 \<noteq> (0 :: u8)"
proof -
  have u: "unat (of_nat n :: u8) = n" using assms by (intro unat_of_nat_small) simp
  then have s: "unat (of_nat n + 128 :: u8) = n + 128"
    using assms unat_add_no_wrap [of "of_nat n :: u8" 128] by simp
  have "ucast (of_nat n + 128 :: u8) = (of_nat (unat (of_nat n + 128 :: u8)) :: ucell)" by simp
  then show "ucast (of_nat n + 128 :: u8) = (of_nat n + 128 :: ucell)" unfolding s by simp
  show "\<not> of_nat n + 128 < (128 :: u8)" by (simp add: word_less_nat_alt s)
  show "of_nat n + 128 \<noteq> (0 :: u8)" using s by (metis add_is_0 unsigned_0 zero_neq_numeral)
qed

lemma skip_pad_header:
  assumes "length name \<le> 127"
  shows "header_at m d no k name \<Longrightarrow>
    skip_pad m d (of_nat (no + length name + 1 + k)) = Some (of_nat (no + length name))"
proof (induction k)
  case 0
  then show ?case
    using length_byte(3) [OF assms] by (subst skip_pad.simps) (simp add: header_at_def Let_def)
next
  case (Suc k)
  have "m (d + of_nat (no + length name + 1 + k)) = Some 0" using Suc.prems by (simp add: header_at_def)
  moreover have "header_at m d no k name" using Suc.prems by (simp add: header_at_def)
  ultimately show ?case
    using Suc.IH by (subst skip_pad.simps) (simp add: Let_def algebra_simps)
qed

lemma lfa2nfa_header:
  assumes "header_at (mem s) (dict s) no k name" and "good_name name"
    and "lfa = dict s + of_nat (no + length name + 2 + k)"
  shows "lfa2nfa s lfa = Some (dict s + of_nat no)"
proof -
  have l: "length name \<le> 127" using assms(2) by (simp add: good_name_def)
  have e: "lfa - dict s - 1 = of_nat (no + length name + 1 + k)" using assms(3) by simp
  have b: "mem s (dict s + of_nat (no + length name)) = Some (of_nat (length name) + 128)"
    using assms(1) by (simp add: header_at_def)
  show ?thesis
    by (simp only: lfa2nfa_def Let_def e skip_pad_header [OF l assms(1)] b bind.bind_lunit length_byte(1) [OF l]) simp
qed

lemma fstrlen_loop_header:
  assumes "header_at m d no k name" and "good_name name"
  shows "j \<le> length name \<Longrightarrow> fstrlen_loop m d (of_nat (no + j) - 1) = Some (of_nat (length name))"
proof (induction "length name - j" arbitrary: j)
  case 0
  have l: "length name \<le> 127" using assms(2) by (simp add: good_name_def)
  show ?case
    using 0 assms(1) length_byte [OF l] by (subst fstrlen_loop.simps) (simp add: header_at_def Let_def)
next
  case (Suc i)
  then have j: "j < length name" by simp
  have "m (d + of_nat (no + j)) = Some (name ! j)" using assms(1) j by (simp add: header_at_def)
  moreover have "name ! j < 128" using assms(2) j by (auto simp: good_name_def list_all_length)
  moreover have "fstrlen_loop m d (of_nat (no + Suc j) - 1) = Some (of_nat (length name))"
    using Suc j by (intro Suc.hyps(1)) simp_all
  ultimately show ?case by (subst fstrlen_loop.simps) (simp add: Let_def)
qed

lemma fstrlen_header:
  assumes "header_at (mem s) (dict s) no k name" and "good_name name"
  shows "fstrlen s (dict s + of_nat no) = Some (of_nat (length name))"
  using fstrlen_loop_header [OF assms, of 0] by (simp add: fstrlen_def)

lemma fstrcmp_bytes:
  assumes "\<And>i. i < length name \<Longrightarrow> m (a + of_nat i) = Some (name ! i)" and "length s1 = length name"
  shows "fstrcmp s1 m a = Some (if same_name s1 name then 0 else - 1)"
  using assms(2,1)
proof (induction s1 name arbitrary: a rule: list_induct2)
  case (Cons c s1 b name)
  have "m a = Some b" using Cons.prems [of 0] by simp
  moreover have "m (a + 1 + of_nat i) = Some (name ! i)" if "i < length name" for i
    using Cons.prems [of "Suc i"] that by (simp add: add.assoc)
  ultimately show ?case using Cons.IH [of "a + 1"] by (auto simp: same_name_def)
qed (simp add: same_name_def)

lemma word_matches_header:
  assumes "header_at (mem s) (dict s) no k name" and "good_name name"
    and "lfa = dict s + of_nat (no + length name + 2 + k)" and "length s1 < 2 ^ 32"
  shows "word_matches s s1 lfa = Some (same_name s1 name)"
proof (cases "length s1 = length name")
  case True
  have "fstrcmp s1 (mem s) (dict s + of_nat no) = Some (if same_name s1 name then 0 else - 1)"
    by (rule fstrcmp_bytes) (use assms(1) True in \<open>simp_all add: header_at_def add.assoc\<close>)
  then show ?thesis
    using lfa2nfa_header [OF assms(1-3)] fstrlen_header [OF assms(1,2)] True by (simp add: word_matches_def)
next
  case False
  have "unat (of_nat (length s1) :: ucell) = length s1" using assms(4) by (intro unat_of_nat_small) simp
  moreover have "unat (of_nat (length name) :: ucell) = length name"
    using assms(2) by (intro unat_of_nat_small) (simp add: good_name_def)
  ultimately have "of_nat (length s1) \<noteq> (of_nat (length name) :: ucell)" using False by metis
  moreover have "\<not> same_name s1 name" using False by (auto simp: same_name_def dest: map_eq_imp_length_eq)
  ultimately show ?thesis
    using lfa2nfa_header [OF assms(1-3)] fstrlen_header [OF assms(1,2)] by (simp add: word_matches_def)
qed

subsection \<open>The search\<close>

lemma findword_loop_chain:
  assumes "length s1 < 2 ^ 32"
  shows "chain (mem s) (dict s) h H lfa ws \<Longrightarrow> findword_loop s s1 lfa = Some (find_spec ws s1)"
proof (induction ws arbitrary: lfa)
  case Nil
  then show ?case by (subst findword_loop.simps) (simp add: find_spec_def)
next
  case (Cons w ws)
  obtain name l v where w: "w = (name, l, v)" by (cases w)
  from Cons.prems w obtain no k nxt where l: "lfa = l" "l \<noteq> 0" "good_name name"
    "l = dict s + of_nat (no + length name + 2 + k)" "header_at (mem s) (dict s) no k name"
    and n: "read_ucell (mem s) l = Some nxt" "chain (mem s) (dict s) h H nxt ws" by auto
  from word_matches_header [OF l(5,3,4) assms] Cons.IH [OF n(2)] n(1) l(1,2) show ?case
    by (subst findword_loop.simps) (simp add: w find_spec_def lfa2cfa_def)
qed

lemma chain_frame:
  assumes "\<And>j. j < h \<Longrightarrow> d + of_nat j \<notin> H \<Longrightarrow> m' (d + of_nat j) = m (d + of_nat j)"
  shows "chain m d h H lfa ws \<Longrightarrow> h \<le> h' \<Longrightarrow> chain m' d h' H lfa ws"
proof (induction ws arbitrary: lfa)
  case (Cons w ws)
  obtain name l v where w: "w = (name, l, v)" by (cases w)
  from Cons.prems w obtain no k nxt where l: "lfa = l" "l \<noteq> 0" "good_name name"
    and o: "l = d + of_nat (no + length name + 2 + k)" "no + length name + k + 10 \<le> h" "header_at m d no k name"
    and av: "\<And>j. no \<le> j \<Longrightarrow> j < no + length name + k + 10 \<Longrightarrow> d + of_nat j \<notin> H"
    and n: "read_ucell m l = Some nxt" "chain m d h H nxt ws" "read_ucell m (l + 4) = Some v" by auto
  have eq: "m' (d + of_nat (no + i)) = m (d + of_nat (no + i))" if "i < length name + k + 10" for i
    by (rule assms) (use that o(2) av [of "no + i"] in auto)
  have "header_at m' d no k name"
    unfolding header_at_def
  proof (intro conjI allI impI)
    show "m' (d + of_nat (no + i)) = Some (name ! i)" if "i < length name" for i
      using eq [of i] o(3) that by (simp add: header_at_def)
    show "m' (d + of_nat (no + length name)) = Some (of_nat (length name) + 128)"
      using eq [of "length name"] o(3) by (simp add: header_at_def)
    show "m' (d + of_nat (no + length name + 1 + j)) = Some 0" if "j < k" for j
      using eq [of "length name + 1 + j"] o(3) that by (simp add: header_at_def ac_simps)
  qed
  moreover have rd: "read_ucell m' (l + of_nat c) = read_ucell m (l + of_nat c)" if "c \<le> 4" for c
  proof (rule ucell_acc.rd_local)
    fix x
    assume "in_region (l + of_nat c) 4 x"
    then obtain i where "i < 4" "x = l + of_nat c + of_nat i" by (auto simp: in_region_offset)
    then show "m' x = m x" using eq [of "length name + 2 + k + c + i"] o(1) that by (simp add: ac_simps)
  qed
  then have "read_ucell m' l = Some nxt" "read_ucell m' (l + 4) = Some v" using rd [of 0] rd [of 4] n by simp_all
  moreover have "no + length name + k + 10 \<le> h'" using o(2) Cons.prems(2) by simp
  ultimately show ?case
    using Cons.IH [OF n(2) Cons.prems(2)] l o(1) av unfolding w chain.simps by metis
qed simp

lemma chain_avoid:
  assumes "\<And>j. j < h \<Longrightarrow> d + of_nat j \<notin> H'" and "h \<le> h'"
  shows "chain m d h H lfa ws \<Longrightarrow> chain m d h' (H \<union> H') lfa ws"
proof (induction ws arbitrary: lfa)
  case (Cons w ws)
  obtain name l v where w: "w = (name, l, v)" by (cases w)
  from Cons.prems w obtain no k nxt where l: "lfa = l" "l \<noteq> 0" "good_name name"
    and o: "l = d + of_nat (no + length name + 2 + k)" "no + length name + k + 10 \<le> h" "header_at m d no k name"
    and av: "\<And>j. no \<le> j \<Longrightarrow> j < no + length name + k + 10 \<Longrightarrow> d + of_nat j \<notin> H"
    and n: "read_ucell m l = Some nxt" "chain m d h H nxt ws" "read_ucell m (l + 4) = Some v" by auto
  have "d + of_nat j \<notin> H \<union> H'" if "no \<le> j" "j < no + length name + k + 10" for j
    using that av [of j] assms(1) [of j] o(2) by simp
  moreover have "no + length name + k + 10 \<le> h'" using o(2) assms(2) by simp
  ultimately show ?case
    using Cons.IH [OF n(2)] l o(1,3) n(1,3) unfolding w chain.simps by metis
qed simp

text \<open>
  C10: \<open>findword\<close> on a well-formed dictionary. If \<open>last\<close> names the first link field of a chain of
  well-formed headers, the search ends and gives the code field of the newest word of that name,
  letter case ignored, or 0 if there is none.
\<close>

theorem findword_finds_newest:
  assumes "last_word s \<noteq> 0" and "read_ucell (mem s) (last_word s) = Some lfa"
    and "chain (mem s) (dict s) h H lfa ws" and "length s1 < 2 ^ 32"
  shows "findword s s1 = Some (find_spec ws s1)"
  using findword_loop_chain [OF assms(4,3)] assms(1,2) by (simp add: findword_def)

text \<open>Two words, \<open>ab\<close> and \<open>i\<close>, in a dictionary at address 0; the variable \<open>last\<close> is at 24.\<close>

definition two_words :: memory where
  "two_words = mem_of_cells [0x61628280, 0, 35, 0x69810080, 4, 90, 16]"

theorem findword_finds_newest_witness:
  "findword ((init_fstate two_words ())\<lparr>last_word := 24\<rparr>) (cstr ''AB'') = Some 8"
proof -
  let ?s = "(init_fstate two_words ())\<lparr>last_word := 24\<rparr>"
  let ?ws = "[(cstr ''i'', 16, 90), (cstr ''ab'', 4, 35)]"
  have m: "mem ?s = two_words" "dict ?s = 0" by (simp_all add: init_fstate_def)
  have 1: "read_ucell (mem ?s) (last_word ?s) = Some 16" unfolding m by simp code_simp
  have h: "header_at two_words 0 12 1 (cstr ''i'')" "header_at two_words 0 0 0 (cstr ''ab'')"
    "good_name (cstr ''i'')" "good_name (cstr ''ab'')" "read_ucell two_words 16 = Some 4" "read_ucell two_words 4 = Some 0"
    "read_ucell two_words 20 = Some 90" "read_ucell two_words 8 = Some 35"
    by code_simp+
  have l: "length (cstr ''i'') = 1" "length (cstr ''ab'') = 2" by code_simp+
  have "chain two_words 0 28 {} 4 [(cstr ''ab'', 4, 35)]"
    using h l by (simp, intro exI [of _ 0] conjI) simp_all
  moreover have "\<exists>no k. (16 :: ucell) = 0 + of_nat (no + length (cstr ''i'') + 2 + k) \<and> no + length (cstr ''i'') + k + 10 \<le> 28 \<and>
      header_at two_words 0 no k (cstr ''i'') \<and> (\<forall>j. no \<le> j \<and> j < no + length (cstr ''i'') + k + 10 \<longrightarrow> 0 + of_nat j \<notin> ({} :: ucell set))"
    using h l by (intro exI [of _ 12] exI [of _ 1]) simp
  ultimately have 2: "chain (mem ?s) (dict ?s) 28 {} 16 ?ws"
    using h unfolding m by (simp del: of_nat_add)
  have "find_spec ?ws (cstr ''AB'') = 8" by code_simp
  moreover have "length (cstr ''AB'') < 2 ^ 32" by (simp add: cstr_def)
  ultimately show ?thesis using findword_finds_newest [OF _ 1 2, of "cstr ''AB''"] by simp
qed

end
