(* ===== verification/Bootstrap.thy ===== *)
theory Bootstrap
  imports Forth_Run Dict_Spec
begin

text \<open>
  The dictionary builder of \<open>kernel/bootstrap.c\<close>, the part of the bootstrap compiler that lays out
  words in memory: the writers, \<open>fcreate\<close> and the \<open>build\<close> functions, up to \<open>build_dictionary\<close>, which
  enters the primitives, and the relocation table. The compiler's target is taken to have the
  width and the byte order of its host, so the access layer is that of \<open>Memory\<close>.
\<close>

subsection \<open>State\<close>

text \<open>The static pointers of the builder beside the engine's state.\<close>

record 'w boot =
  eng :: "'w fstate"
  latest :: ucell
  state_ptr :: ucell
  base_ptr :: ucell

definition here_addr :: "'w boot \<Rightarrow> ucell" where
  "here_addr b = dict (eng b) + dicthead (eng b)"

definition set_mem :: "memory \<Rightarrow> 'w boot \<Rightarrow> 'w boot" where
  "set_mem m b = b\<lparr>eng := (eng b)\<lparr>mem := m\<rparr>\<rparr>"

definition add_head :: "cell \<Rightarrow> 'w boot \<Rightarrow> 'w boot" where
  "add_head n b = b\<lparr>eng := (eng b)\<lparr>dicthead := dicthead (eng b) + n\<rparr>\<rparr>"

subsection \<open>Writers\<close>

fun write_chars :: "memory \<Rightarrow> ucell \<Rightarrow> u8 list \<Rightarrow> memory option" where
  "write_chars m a [] = Some m"
| "write_chars m a (c # cs) = do { m \<leftarrow> write_byte m a c; write_chars m (a + 1) cs }"

definition writestring :: "u8 list \<Rightarrow> 'w boot \<Rightarrow> 'w boot option" where
  "writestring str b =
     do { m \<leftarrow> write_chars (mem (eng b)) (here_addr b) str;
          let b = add_head (of_nat (length str) + 1) (set_mem m b);
          m \<leftarrow> write_byte (mem (eng b)) (here_addr b - 1) (of_nat (length str) + 128);
          Some (set_mem m b) }"

definition writebyte :: "u8 \<Rightarrow> 'w boot \<Rightarrow> 'w boot option" where
  "writebyte v b =
     do { m \<leftarrow> write_byte (mem (eng b)) (here_addr b) v; Some (add_head 1 (set_mem m b)) }"

definition writecell :: "cell \<Rightarrow> 'w boot \<Rightarrow> 'w boot option" where
  "writecell v b =
     do { m \<leftarrow> write_ucell (mem (eng b)) (here_addr b) v; Some (add_head cellsize (set_mem m b)) }"

definition reveal :: "'w boot \<Rightarrow> 'w boot option" where
  "reveal b =
     do { v \<leftarrow> read_ucell (mem (eng b)) (latest b);
          m \<leftarrow> write_ucell (mem (eng b)) (last_word (eng b)) v;
          Some (set_mem m b) }"

partial_function (option) paddict :: "ucell \<Rightarrow> 'w boot \<Rightarrow> 'w boot option" where
  "paddict align b =
     (if dicthead (eng b) mod align \<noteq> 0 then do { b \<leftarrow> writebyte 0 b; paddict align b } else Some b)"

definition fcreate :: "'w env \<Rightarrow> u8 list \<Rightarrow> ucell \<Rightarrow> 'w boot \<Rightarrow> 'w boot option" where
  "fcreate E word cfaval b =
     (if word = [] then
        Some (b\<lparr>eng := (eng b)\<lparr>world := printk E (''WARNING: tried to create unnamed word.'' @ [CHR 0x0A]) []
                                            (world (eng b))\<rparr>\<rparr>)
      else do { b \<leftarrow> writestring word b;
                b \<leftarrow> writebyte 0 b;
                b \<leftarrow> paddict cellsize b;
                m \<leftarrow> write_byte (mem (eng b)) (here_addr b - 1) 128;
                let b = set_mem m b;
                v \<leftarrow> read_ucell (mem (eng b)) (latest b);
                b \<leftarrow> writecell v b;
                m \<leftarrow> write_ucell (mem (eng b)) (latest b) (here_addr b - cellsize);
                writecell cfaval (set_mem m b) })"

definition buildvariable :: "'w env \<Rightarrow> u8 list \<Rightarrow> cell \<Rightarrow> 'w boot \<Rightarrow> (ucell \<times> 'w boot) option" where
  "buildvariable E name defval b =
     do { b \<leftarrow> fcreate E name 4 b;
          b \<leftarrow> writecell defval b;
          Some (here_addr b - cellsize, b) }"

definition buildconstant :: "'w env \<Rightarrow> u8 list \<Rightarrow> cell \<Rightarrow> 'w boot \<Rightarrow> 'w boot option" where
  "buildconstant E name defval b = do { b \<leftarrow> fcreate E name 3 b; writecell defval b }"

definition builddefer :: "'w env \<Rightarrow> u8 list \<Rightarrow> 'w boot \<Rightarrow> 'w boot option" where
  "builddefer E name b =
     do { b \<leftarrow> fcreate E name 5 b;
          b \<leftarrow> writecell 0 b;
          w \<leftarrow> findword (eng b) (cstr ''(semis)'');
          writecell w b }"

fun build_prims :: "'w env \<Rightarrow> nat \<Rightarrow> string list \<Rightarrow> 'w boot \<Rightarrow> 'w boot option" where
  "build_prims E i [] b = Some b"
| "build_prims E i (n # ns) b =
     do { b \<leftarrow> (if n \<noteq> [] then fcreate E (cstr n) (of_nat i) b else Some b); build_prims E (Suc i) ns b }"

text \<open>
  \<open>build_dictionary\<close> in three parts: the primitives, the variables up to \<open>latest\<close>, which from then on
  lives in the dictionary, and \<open>base\<close> with the constants. \<open>lfa\<close> is the address of the local
  variable that holds \<open>latest\<close> until its word exists.
\<close>

definition build_vars :: "'w env \<Rightarrow> 'w boot \<Rightarrow> 'w boot option" where
  "build_vars E b =
     do { (p, b) \<leftarrow> buildvariable E (cstr ''state'') 0 b;
          let b = b\<lparr>state_ptr := p\<rparr>;
          (p, b) \<leftarrow> buildvariable E (cstr ''forth-last'') 0 b;
          let b = b\<lparr>eng := (eng b)\<lparr>last_word := p\<rparr>\<rparr>;
          (p, b) \<leftarrow> buildvariable E (cstr ''latest'') 0 b;
          let b = b\<lparr>latest := p\<rparr>;
          m \<leftarrow> write_ucell (mem (eng b)) (latest b) (latest b - 2 * cellsize);
          Some (set_mem m b) }"

definition build_consts :: "'w env \<Rightarrow> 'w boot \<Rightarrow> 'w boot option" where
  "build_consts E b =
     do { (p, b) \<leftarrow> buildvariable E (cstr ''base'') 10 b;
          let b = b\<lparr>base_ptr := p\<rparr>;
          b \<leftarrow> buildconstant E (cstr ''/c'') 1 b;
          b \<leftarrow> buildconstant E (cstr ''/w'') 2 b;
          b \<leftarrow> buildconstant E (cstr ''/l'') 4 b;
          b \<leftarrow> buildconstant E (cstr ''/n'') 4 b;
          buildconstant E (cstr ''/x'') 8 b }"

definition build_dictionary :: "'w env \<Rightarrow> ucell \<Rightarrow> 'w boot \<Rightarrow> 'w boot option" where
  "build_dictionary E lfa b =
     do { m \<leftarrow> write_ucell (mem (eng b)) lfa 0;
          let b = (set_mem m b)\<lparr>latest := lfa\<rparr>;
          let b = b\<lparr>eng := (eng b)\<lparr>dicthead := 0\<rparr>\<rparr>;
          b \<leftarrow> build_prims E 0 wordnames b;
          b \<leftarrow> build_vars E b;
          b \<leftarrow> build_consts E b;
          reveal b }"

subsection \<open>What the writers append\<close>

fun put :: "memory \<Rightarrow> ucell \<Rightarrow> u8 list \<Rightarrow> memory" where
  "put m a [] = m"
| "put m a (x # xs) = put (m(a \<mapsto> x)) (a + 1) xs"

definition emitted :: "u8 list \<Rightarrow> 'w boot \<Rightarrow> 'w boot" where
  "emitted bs b = add_head (of_nat (length bs)) (set_mem (put (mem (eng b)) (here_addr b) bs) b)"

definition cell_bytes :: "cell \<Rightarrow> u8 list" where
  "cell_bytes v = [byte_of 3 v, byte_of 2 v, byte_of 1 v, byte_of 0 v]"

text \<open>\<open>n\<close> more bytes are mapped at \<open>here\<close>.\<close>

definition room :: "nat \<Rightarrow> 'w boot \<Rightarrow> bool" where
  "room n b \<longleftrightarrow> n \<le> 2 ^ 32 \<and> mapped (mem (eng b)) (here_addr b) n"

lemma put_append: "put m a (xs @ ys) = put (put m a xs) (a + of_nat (length xs)) ys"
  by (induction xs arbitrary: m a) (simp_all add: add.assoc)

lemma put_other:
  assumes "length bs \<le> 2 ^ 32" and "\<not> in_region a (length bs) x"
  shows "put m a bs x = m x"
  using assms
proof (induction bs arbitrary: m a)
  case (Cons c bs)
  from Cons.prems have r: "\<And>i. i < Suc (length bs) \<Longrightarrow> x \<noteq> a + of_nat i"
    by (auto simp: in_region_offset)
  have "x \<noteq> a" using r [of 0] by simp
  moreover have "\<not> in_region (a + 1) (length bs) x"
    using Cons.prems(1) r [of "Suc _"] by (auto simp: in_region_offset add.assoc)
  ultimately show ?case using Cons.IH [of "a + 1"] Cons.prems(1) by simp
qed simp

lemma put_get:
  assumes "length bs \<le> 2 ^ 32" and "i < length bs"
  shows "put m a bs (a + of_nat i) = Some (bs ! i)"
  using assms
proof (induction bs arbitrary: m a i)
  case (Cons c bs)
  show ?case
  proof (cases i)
    case 0
    have "\<not> in_region (a + 1) (length bs) a"
    proof
      assume "in_region (a + 1) (length bs) a"
      then obtain j where "j < length bs" "a = a + 1 + of_nat j"
        using Cons.prems(1) by (auto simp: in_region_offset)
      then have "of_nat (Suc j) = (0 :: ucell)" and "Suc j < 2 ^ 32" using Cons.prems(1) by (simp_all add: add.assoc)
      then show False using unat_of_nat_small [where 'a = 32, of "Suc j"] by simp
    qed
    then show ?thesis using 0 Cons.prems(1) by (simp add: put_other)
  next
    case (Suc j)
    have "put (m(a \<mapsto> c)) (a + 1) bs (a + 1 + of_nat j) = Some (bs ! j)"
      by (rule Cons.IH) (use Cons.prems Suc in simp_all)
    then show ?thesis using Suc by (simp add: add.assoc)
  qed
qed simp

lemma emitted_simps [simp]:
  "dict (eng (emitted bs b)) = dict (eng b)" "latest (emitted bs b) = latest b"
  "last_word (eng (emitted bs b)) = last_word (eng b)"
  "dicthead (eng (emitted bs b)) = dicthead (eng b) + of_nat (length bs)"
  "here_addr (emitted bs b) = here_addr b + of_nat (length bs)"
  "mem (eng (emitted bs b)) = put (mem (eng b)) (here_addr b) bs"
  by (simp_all add: emitted_def add_head_def set_mem_def here_addr_def add.assoc)

lemma emitted_emitted: "emitted ys (emitted xs b) = emitted (xs @ ys) b"
  by (simp add: emitted_def add_head_def set_mem_def here_addr_def put_append ac_simps)

lemma emitted_Nil [simp]: "emitted [] b = b"
  by (simp add: emitted_def add_head_def set_mem_def)

lemma put_dom: "m x \<noteq> None \<Longrightarrow> put m a bs x \<noteq> None"
  by (induction bs arbitrary: m a) auto

lemma room_mono: "room n b \<Longrightarrow> k \<le> n \<Longrightarrow> room k b"
  by (simp add: room_def mapped_def)

lemma room_emitted:
  assumes "room n b" and "length bs + k \<le> n"
  shows "room k (emitted bs b)"
proof -
  have "put (mem (eng b)) (here_addr b) bs (here_addr b + of_nat (length bs + i)) \<noteq> None" if "i < k" for i
    using assms that by (intro put_dom) (simp add: room_def mapped_def del: of_nat_add)
  then show ?thesis using assms by (simp add: room_def mapped_def add.assoc)
qed

lemma write_chars_put: "mapped m a (length cs) \<Longrightarrow> write_chars m a cs = Some (put m a cs)"
proof (induction cs arbitrary: m a)
  case (Cons c cs)
  have "mapped (m(a \<mapsto> c)) (a + 1) (length cs)"
    using Cons.prems by (fastforce simp: mapped_def add.assoc)
  moreover have "m a \<noteq> None" using Cons.prems by (fastforce simp: mapped_def)
  ultimately show ?case using Cons.IH by (simp add: write_byte_def)
qed simp

lemma writebyte_emits: "room 1 b \<Longrightarrow> writebyte v b = Some (emitted [v] b)"
  by (simp add: writebyte_def room_def mapped_def write_byte_def emitted_def)

lemma write_ucell_put:
  assumes "mapped m a 4"
  shows "write_ucell m a v = Some (put m a (cell_bytes v))"
proof -
  have "m a \<noteq> None" "m (a + 1) \<noteq> None" "m (a + 2) \<noteq> None" "m (a + 3) \<noteq> None"
    using assms ex_less_4 [of "\<lambda>i. m (a + of_nat i) = None"] by (auto simp: mapped_def)
  then show ?thesis by (simp add: write_ucell_def write_long_def cell_bytes_def add.assoc)
qed

lemma writecell_emits: "room 4 b \<Longrightarrow> writecell v b = Some (emitted (cell_bytes v) b)"
  by (simp add: writecell_def room_def write_ucell_put emitted_def) (simp add: cell_bytes_def)

lemma writestring_emits:
  assumes "room (Suc (length str)) b"
  shows "writestring str b = Some (emitted (str @ [of_nat (length str) + 128]) b)"
proof -
  let ?m = "put (mem (eng b)) (here_addr b) str"
  have "write_chars (mem (eng b)) (here_addr b) str = Some ?m"
    using assms by (intro write_chars_put) (simp add: room_def mapped_def)
  moreover have "?m (here_addr b + of_nat (length str)) \<noteq> None"
    using assms by (intro put_dom) (simp add: room_def mapped_def)
  ultimately show ?thesis
    by (simp add: writestring_def write_byte_def emitted_def put_append add_head_def set_mem_def here_addr_def Let_def ac_simps)
qed

text \<open>How many zero bytes bring \<open>dicthead\<close> to the next multiple of four.\<close>

definition pad_of :: "cell \<Rightarrow> nat" where
  "pad_of h = (if unat h mod 4 = 0 then 0 else 4 - unat h mod 4)"

lemma pad_of_less: "pad_of h < 4"
  by (simp add: pad_of_def)

lemma pad_of_step:
  assumes "h mod 4 \<noteq> 0"
  shows "pad_of h = Suc (pad_of (h + 1))"
proof -
  have "unat h mod 4 \<noteq> 0" using assms by (simp add: unat_mod_distrib flip: unat_eq_zero)
  moreover have "unat (h + 1) mod 4 = (unat h + 1) mod 4"
  proof (cases "h + 1 = 0")
    case True
    then have "h = - 1" by (simp add: eq_neg_iff_add_eq_0)
    then show ?thesis by (simp add: unsigned_minus_1_eq_mask mask_eq_exp_minus_1)
  next
    case False
    then show ?thesis by (simp add: unat_word_ariths mod_mod_cancel unatSuc)
  qed
  ultimately show ?thesis by (auto simp: pad_of_def mod_Suc)
qed

lemma paddict_emits:
  "room (pad_of (dicthead (eng b))) b \<Longrightarrow> paddict cellsize b = Some (emitted (replicate (pad_of (dicthead (eng b))) 0) b)"
proof (induction "pad_of (dicthead (eng b))" arbitrary: b)
  case 0
  have "dicthead (eng b) mod 4 = 0" using 0(1) pad_of_step [of "dicthead (eng b)"] by auto
  then show ?case using 0 by (subst paddict.simps) (simp flip: 0(1))
next
  case (Suc n)
  have nz: "dicthead (eng b) mod 4 \<noteq> 0"
    using Suc.hyps(2) by (auto simp: pad_of_def unat_mod_distrib split: if_splits simp flip: unat_eq_zero)
  then have p: "pad_of (dicthead (eng (emitted [0] b))) = n" using pad_of_step Suc.hyps(2) by simp
  moreover have "room n (emitted [0] b)" using Suc.prems Suc.hyps(2) by (intro room_emitted) auto
  ultimately have "paddict cellsize (emitted [0] b) = Some (emitted (replicate n 0) (emitted [0] b))"
    using Suc.hyps(1) by simp
  moreover have "room 1 b" using Suc.prems Suc.hyps(2) room_mono [of _ b 1] by auto
  ultimately show ?case
    using nz Suc.hyps(2) [symmetric] by (subst paddict.simps) (simp add: writebyte_emits emitted_emitted)
qed

lemma set_mem_simps [simp]:
  "mem (eng (set_mem m b)) = m" "dict (eng (set_mem m b)) = dict (eng b)"
  "dicthead (eng (set_mem m b)) = dicthead (eng b)" "last_word (eng (set_mem m b)) = last_word (eng b)"
  "latest (set_mem m b) = latest b" "here_addr (set_mem m b) = here_addr b" "set_mem m (set_mem m' b) = set_mem m b"
  by (simp_all add: set_mem_def here_addr_def)

lemma put_value:
  assumes "length bs \<le> 2 ^ 32"
  shows "put m a bs x = (if in_region a (length bs) x then Some (bs ! unat (x - a)) else m x)"
proof (cases "in_region a (length bs) x")
  case True
  then have "unat (x - a) < length bs" by (simp add: in_region_def)
  from put_get [OF assms this, of m a] True show ?thesis by simp
qed (simp add: put_other [OF assms])

lemma put_commute:
  assumes "length xs \<le> 2 ^ 32" and "length ys \<le> 2 ^ 32" and "apart a (length xs) b (length ys)"
  shows "put (put m a xs) b ys = put (put m b ys) a xs"
  using assms by (intro ext) (auto simp: put_value apart_def)

lemma read_ucell_put_other:
  assumes "length bs \<le> 2 ^ 32" and "apart a (length bs) x 4"
  shows "read_ucell (put m a bs) x = read_ucell m x"
  by (rule ucell_acc.rd_local, rule put_other [OF assms(1)]) (use assms(2) in \<open>auto simp: apart_def\<close>)

lemma length_cell_bytes [simp]: "length (cell_bytes v) = 4"
  by (simp add: cell_bytes_def)

lemma read_ucell_put_cell: "mapped m x 4 \<Longrightarrow> read_ucell (put m x (cell_bytes v)) x = Some v"
  using write_ucell_put [of m x v] by (auto dest: ucell_acc.rd_wr_same)

lemma read_mapped: "read_ucell m x = Some v \<Longrightarrow> mapped m x 4"
  using ucell_acc.rd_succeeds [of m x] by (simp add: mapped_iff)

lemma emitted_last:
  assumes "room (Suc (length xs)) b"
  shows "write_byte (mem (eng (emitted (xs @ [x]) b))) (here_addr (emitted (xs @ [x]) b) - 1) y
           = Some (mem (eng (emitted (xs @ [y]) b)))"
    and "set_mem (mem (eng (emitted (xs @ [y]) b))) (emitted (xs @ [x]) b) = emitted (xs @ [y]) b"
proof -
  have "put (mem (eng b)) (here_addr b) xs (here_addr b + of_nat (length xs)) \<noteq> None"
    using assms by (intro put_dom) (simp add: room_def mapped_def)
  then show "write_byte (mem (eng (emitted (xs @ [x]) b))) (here_addr (emitted (xs @ [x]) b) - 1) y
           = Some (mem (eng (emitted (xs @ [y]) b)))"
    by (simp add: put_append write_byte_def algebra_simps)
  show "set_mem (mem (eng (emitted (xs @ [y]) b))) (emitted (xs @ [x]) b) = emitted (xs @ [y]) b"
    by (simp add: emitted_def add_head_def set_mem_def)
qed

text \<open>The bytes of a new header up to its link field, and the whole of it.\<close>

definition name_bytes :: "u8 list \<Rightarrow> nat \<Rightarrow> u8 list" where
  "name_bytes word k = word @ [of_nat (length word) + 128] @ replicate k 0 @ [128]"

definition word_bytes :: "u8 list \<Rightarrow> nat \<Rightarrow> ucell \<Rightarrow> ucell \<Rightarrow> u8 list" where
  "word_bytes word k link cfaval = name_bytes word k @ cell_bytes link @ cell_bytes cfaval"

definition new_pad :: "u8 list \<Rightarrow> 'w boot \<Rightarrow> nat" where
  "new_pad word b = pad_of (dicthead (eng b) + of_nat (length word + 2))"

definition new_lfa :: "u8 list \<Rightarrow> 'w boot \<Rightarrow> ucell" where
  "new_lfa word b = here_addr b + of_nat (length word + 2 + new_pad word b)"

lemma length_name_bytes [simp]: "length (name_bytes word k) = length word + 2 + k"
  by (simp add: name_bytes_def)

lemma length_word_bytes [simp]: "length (word_bytes word k l c) = length word + 10 + k"
  by (simp add: word_bytes_def)

lemma fcreate_name:
  assumes "word \<noteq> []" and "room (length word + 2 + new_pad word b) b"
  shows "do { b \<leftarrow> writestring word b; b \<leftarrow> writebyte 0 b; b \<leftarrow> paddict cellsize b;
              m \<leftarrow> write_byte (mem (eng b)) (here_addr b - 1) 128; Some (set_mem m b) }
         = Some (emitted (name_bytes word (new_pad word b)) b)"
proof -
  let ?k = "new_pad word b" and ?s = "word @ [of_nat (length word) + 128]"
  have 1: "writestring word b = Some (emitted ?s b)"
    using assms by (intro writestring_emits) (auto intro: room_mono)
  have 2: "writebyte 0 (emitted ?s b) = Some (emitted (?s @ [0]) b)"
    using assms by (subst writebyte_emits) (auto intro: room_emitted simp: emitted_emitted)
  have "pad_of (dicthead (eng (emitted (?s @ [0]) b))) = ?k" by (simp add: new_pad_def add.assoc)
  then have "paddict cellsize (emitted (?s @ [0]) b) = Some (emitted (replicate ?k 0) (emitted (?s @ [0]) b))"
    using assms by (subst paddict_emits) (auto intro: room_emitted)
  also have "emitted (replicate ?k 0) (emitted (?s @ [0]) b) = emitted ((?s @ replicate ?k 0) @ [0]) b"
    by (simp add: emitted_emitted replicate_append_same)
  finally have 3: "paddict cellsize (emitted (?s @ [0]) b) = Some (emitted ((?s @ replicate ?k 0) @ [0]) b)" .
  have "room (Suc (length (?s @ replicate ?k 0))) b" using assms(2) by simp
  note 4 = emitted_last [OF this, where x = 0 and y = 128]
  from 1 2 3 4 show ?thesis by (simp add: name_bytes_def)
qed

text \<open>
  \<open>fcreate\<close> appends the whole header, linked to the word \<open>*latest\<close> names, and makes \<open>*latest\<close> name
  the new link field.
\<close>

definition created :: "u8 list \<Rightarrow> ucell \<Rightarrow> ucell \<Rightarrow> 'w boot \<Rightarrow> 'w boot" where
  "created word cfaval link b =
     (let b' = emitted (word_bytes word (new_pad word b) link cfaval) b
      in set_mem (put (mem (eng b')) (latest b) (cell_bytes (new_lfa word b))) b')"

lemma fcreate_creates:
  assumes "word \<noteq> []" and "room (length word + 10 + new_pad word b) b"
    and "apart (here_addr b) (length word + 10 + new_pad word b) (latest b) 4"
    and "read_ucell (mem (eng b)) (latest b) = Some link"
  shows "fcreate E word cfaval b = Some (created word cfaval link b)"
proof -
  let ?k = "new_pad word b"
  let ?b1 = "emitted (name_bytes word ?k) b" and ?b2 = "emitted (name_bytes word ?k @ cell_bytes link) b"
  let ?n = "length word + 2 + ?k"
  have n: "?n + 8 \<le> 2 ^ 32" using assms(2) by (simp add: room_def)
  have sub: "apart (here_addr b + of_nat i) j (latest b) 4" if "i + j \<le> ?n + 8" for i j
    by (rule apart_sub [OF assms(3)]) (use that n in simp_all)
  have rd: "read_ucell (put (mem (eng b)) (here_addr b) bs) (latest b) = Some link" if "length bs \<le> ?n + 8" for bs
    using read_ucell_put_other [of bs "here_addr b" "latest b"] that n sub [of 0 "length bs"] assms(4) by simp
  have mp: "mapped (mem (eng ?b2)) (latest b) 4"
    by (rule read_mapped) (use rd in simp)
  have a: "do { b \<leftarrow> writestring word b; b \<leftarrow> writebyte 0 b; b \<leftarrow> paddict cellsize b;
              m \<leftarrow> write_byte (mem (eng b)) (here_addr b - 1) 128; Some (set_mem m b) } = Some ?b1"
    by (rule fcreate_name [OF assms(1)]) (rule room_mono [OF assms(2)], simp)
  have w1: "writecell link ?b1 = Some ?b2"
    using assms(2) by (subst writecell_emits) (auto intro: room_emitted simp: emitted_emitted)
  have lfa: "here_addr ?b2 - 4 = new_lfa word b" by (simp add: new_lfa_def)
  let ?b3 = "set_mem (put (mem (eng ?b2)) (latest b) (cell_bytes (new_lfa word b))) ?b2"
  have w2: "write_ucell (mem (eng ?b2)) (latest b) (here_addr ?b2 - 4) = Some (mem (eng ?b3))"
    unfolding lfa using mp by (simp add: write_ucell_put)
  have "room 4 ?b2" using assms(2) by (auto intro: room_emitted)
  then have "room 4 ?b3" using put_dom by (auto simp: room_def mapped_def)
  then have w3: "writecell cfaval ?b3 = Some (emitted (cell_bytes cfaval) ?b3)" by (rule writecell_emits)
  have "put (put (mem (eng ?b2)) (latest b) (cell_bytes (new_lfa word b))) (here_addr b + of_nat (?n + 4)) (cell_bytes cfaval)
      = put (put (mem (eng ?b2)) (here_addr b + of_nat (?n + 4)) (cell_bytes cfaval)) (latest b) (cell_bytes (new_lfa word b))"
    using sub [of "?n + 4" 4] by (intro put_commute) (simp_all add: apart_sym del: of_nat_add)
  then have c: "emitted (cell_bytes cfaval) ?b3 = created word cfaval link b"
    by (simp add: created_def word_bytes_def emitted_def add_head_def set_mem_def here_addr_def put_append Let_def ac_simps)
  from a obtain z1 z2 z3 m where z: "writestring word b = Some z1" "writebyte 0 z1 = Some z2"
    "paddict cellsize z2 = Some z3" "write_byte (mem (eng z3)) (here_addr z3 - 1) 128 = Some m"
    and b1: "set_mem m z3 = ?b1" by (auto simp: bind_eq_Some_iff)
  have "m = mem (eng ?b1)" "latest z3 = latest b"
    using arg_cong [OF b1, of "\<lambda>b. mem (eng b)"] arg_cong [OF b1, of latest] by simp_all
  then show ?thesis using z b1 assms(1) w1 w2 w3 c rd [of "name_bytes word ?k"]
    by (simp add: fcreate_def Let_def)
qed

subsection \<open>The dictionary under construction\<close>

text \<open>
  \<open>H\<close> holds the addresses of the variables that are written outside of \<open>here\<close> (the cell \<open>latest\<close>
  points to, later also \<open>forth-last\<close>). The dictionary's \<open>lim\<close> bytes are mapped, the words of \<open>ws\<close>
  are chained from \<open>*latest\<close>, and the bytes from \<open>here\<close> on are free.
\<close>

definition boot_inv :: "nat \<Rightarrow> ucell set \<Rightarrow> (u8 list \<times> ucell \<times> ucell) list \<Rightarrow> 'w boot \<Rightarrow> bool" where
  "boot_inv lim H ws b \<longleftrightarrow>
     linear (dict (eng b)) lim \<and> lim < 2 ^ 31 \<and> mapped (mem (eng b)) (dict (eng b)) lim \<and>
     unat (dicthead (eng b)) \<le> lim \<and> unat (dicthead (eng b)) mod 4 = 0 \<and>
     (\<forall>x. in_region (latest b) 4 x \<longrightarrow> x \<in> H) \<and>
     (\<forall>j. unat (dicthead (eng b)) \<le> j \<and> j < lim \<longrightarrow> dict (eng b) + of_nat j \<notin> H) \<and>
     (\<exists>lfa. read_ucell (mem (eng b)) (latest b) = Some lfa \<and>
        chain (mem (eng b)) (dict (eng b)) (unat (dicthead (eng b))) H lfa ws)"

lemma here_offset: "here_addr b + of_nat i = dict (eng b) + of_nat (unat (dicthead (eng b)) + i)"
  by (simp add: here_addr_def add.assoc)

lemma boot_inv_room:
  assumes "boot_inv lim H ws b" and "unat (dicthead (eng b)) + n \<le> lim"
  shows "room n b" and "apart (here_addr b) n (latest b) 4"
proof -
  have n: "n \<le> 2 ^ 32" using assms by (simp add: boot_inv_def)
  show "room n b" using assms n by (simp add: room_def mapped_def here_offset boot_inv_def del: of_nat_add)
  have "x \<notin> H" if "in_region (here_addr b) n x" for x
  proof -
    from that n obtain i where "i < n" "x = here_addr b + of_nat i" by (auto simp: in_region_offset)
    then show ?thesis using assms by (simp add: here_offset boot_inv_def del: of_nat_add)
  qed
  then show "apart (here_addr b) n (latest b) 4" using assms(1) by (auto simp: apart_def boot_inv_def)
qed

lemma header_at_put:
  assumes "length bs \<le> 2 ^ 32" and "bs = name_bytes name k @ rest" and "a = d + of_nat no"
  shows "header_at (put m a bs) d no k name"
proof -
  have g: "put m a bs (d + of_nat (no + i)) = Some (bs ! i)" if "i < length bs" for i
    using put_get [OF assms(1) that, of m a] assms(3) by (simp add: add.assoc)
  have "bs ! i = name ! i" if "i < length name" for i
    using that assms(2) by (simp add: name_bytes_def nth_append)
  moreover have "bs ! length name = of_nat (length name) + 128"
    using assms(2) by (simp add: name_bytes_def nth_append)
  moreover have "bs ! (length name + 1 + j) = 0" if "j < k" for j
    using that assms(2) by (simp add: name_bytes_def nth_append)
  ultimately show ?thesis
    using g [of "length name"] g assms(2) g [of "length name + 1 + j" for j]
    unfolding header_at_def by (simp add: add.assoc del: of_nat_add)
qed

lemma read_ucell_put_inner:
  assumes "length bs \<le> 2 ^ 32" and "bs = xs @ cell_bytes v @ ys"
  shows "read_ucell (put m a bs) (a + of_nat (length xs)) = Some v"
proof -
  have g: "put m a bs (a + of_nat (length xs) + of_nat i) = Some (cell_bytes v ! i)" if "i < 4" for i
    using put_get [OF assms(1), of "length xs + i" m a] that assms(2) by (simp add: nth_append add.assoc)
  show ?thesis
    using g [of 0] g [of 1] g [of 2] g [of 3] by (simp add: read_ucell_def read_long_def cell_bytes_def)
qed

lemma pad_total:
  assumes "unat h mod 4 = 0" and "unat h + n + 2 < 2 ^ 32"
  shows "(unat h + n + 2 + pad_of (h + of_nat (n + 2))) mod 4 = 0"
proof -
  have "unat (of_nat (n + 2) :: ucell) = n + 2" using assms(2) by (intro unat_of_nat_small) simp
  then have u: "unat (h + of_nat (n + 2)) = unat h + n + 2"
    using unat_add_no_wrap [of h "of_nat (n + 2)"] assms(2) by (simp del: of_nat_add)
  show ?thesis unfolding pad_of_def u by (auto simp: mod_simps) presburger
qed

lemma put_below:
  assumes "linear d lim" and "h + length bs \<le> lim" and "j < h"
  shows "put m (d + of_nat h) bs (d + of_nat j) = m (d + of_nat j)"
proof (rule put_other)
  have l: "lim \<le> 2 ^ 32" using assms(1) by (rule linear_le)
  then show "length bs \<le> 2 ^ 32" using assms(2) by simp
  show "\<not> in_region (d + of_nat h) (length bs) (d + of_nat j)"
  proof
    assume "in_region (d + of_nat h) (length bs) (d + of_nat j)"
    then obtain i where "i < length bs" "d + of_nat j = d + of_nat h + of_nat i"
      using l assms(2) by (auto simp: in_region_offset)
    then have "of_nat j = (of_nat (h + i) :: ucell)" and "h + i < 2 ^ 32" using l assms(2) by simp_all
    moreover from this(2) have "unat (of_nat j :: ucell) = j" "unat (of_nat (h + i) :: ucell) = h + i"
      by (rule_tac unat_of_nat_small; use assms(3) in simp)+
    ultimately have "j = h + i" by metis
    then show False using assms(3) by simp
  qed
qed

lemma unat_add_small:
  assumes "unat (h :: ucell) + n < 2 ^ 32"
  shows "unat (h + of_nat n) = unat h + n"
proof -
  have "unat (of_nat n :: ucell) = n" using assms by (intro unat_of_nat_small) simp
  then show ?thesis using unat_add_no_wrap [of h "of_nat n"] assms by simp
qed

text \<open>The new header, linked before the old ones.\<close>

lemma chain_extend:
  assumes "chain m d h H link ws" and "linear d lim" and "h + length word + 10 + k \<le> lim" and "good_name word"
    and "\<And>j. h \<le> j \<Longrightarrow> j < lim \<Longrightarrow> d + of_nat j \<notin> H"
    and "lfa = d + of_nat (h + length word + 2 + k)"
  shows "chain (put m (d + of_nat h) (word_bytes word k link v)) d (h + length word + 10 + k) H lfa ((word, lfa, v) # ws)"
proof -
  let ?bs = "word_bytes word k link v"
  let ?m = "put m (d + of_nat h) ?bs"
  have lim: "lim \<le> 2 ^ 32" using assms(2) by (rule linear_le)
  then have len: "length ?bs \<le> 2 ^ 32" using assms(3) by simp
  have old: "chain ?m d (h + length word + 10 + k) H link ws"
    by (rule chain_frame [OF _ assms(1)]) (use put_below [OF assms(2), of h ?bs] assms(3) in simp_all)
  have "unat lfa = unat d + (h + length word + 2 + k)"
    unfolding assms(6) by (rule unat_offset_linear [OF assms(2)]) (use assms(3) in simp)
  then have nz: "lfa \<noteq> 0" by auto
  have hd: "header_at ?m d h k word"
    by (rule header_at_put [OF len]) (simp_all add: word_bytes_def)
  have "read_ucell ?m (d + of_nat h + of_nat (length (name_bytes word k))) = Some link"
    by (rule read_ucell_put_inner [OF len]) (simp add: word_bytes_def)
  then have r1: "read_ucell ?m lfa = Some link" by (simp add: assms(6) ac_simps)
  have "read_ucell ?m (d + of_nat h + of_nat (length (name_bytes word k @ cell_bytes link))) = Some v"
    by (rule read_ucell_put_inner [OF len]) (simp add: word_bytes_def)
  then have r2: "read_ucell ?m (lfa + 4) = Some v" by (simp add: assms(6) ac_simps)
  have "\<exists>no k'. lfa = d + of_nat (no + length word + 2 + k') \<and> no + length word + k' + 10 \<le> h + length word + 10 + k \<and>
      header_at ?m d no k' word \<and> (\<forall>j. no \<le> j \<and> j < no + length word + k' + 10 \<longrightarrow> d + of_nat j \<notin> H)"
    using hd assms(3,5,6) by (intro exI [of _ h] exI [of _ k]) auto
  then show ?thesis using old nz r1 r2 assms(4) by simp
qed

text \<open>
  \<open>grows b b' n\<close>: \<open>b'\<close> is \<open>b\<close> after \<open>n\<close> more bytes at \<open>here\<close>; no other memory has changed but the
  cell \<open>latest\<close> points to. \<open>no_less\<close>: no byte is unmapped.
\<close>

definition no_less :: "'w boot \<Rightarrow> 'w boot \<Rightarrow> bool" where
  "no_less b b' \<longleftrightarrow> (\<forall>x. mem (eng b) x \<noteq> None \<longrightarrow> mem (eng b') x \<noteq> None)"

definition grows :: "'w boot \<Rightarrow> 'w boot \<Rightarrow> nat \<Rightarrow> bool" where
  "grows b b' n \<longleftrightarrow> unat (dicthead (eng b')) = unat (dicthead (eng b)) + n \<and> no_less b b' \<and>
     dict (eng b') = dict (eng b) \<and> latest b' = latest b \<and> last_word (eng b') = last_word (eng b) \<and>
     (\<forall>x. \<not> in_region (latest b) 4 x \<longrightarrow> \<not> in_region (here_addr b) n x \<longrightarrow> mem (eng b') x = mem (eng b) x)"

lemma fcreate_inv:
  assumes inv: "boot_inv lim H ws b" and word: "good_name word"
    and rm: "unat (dicthead (eng b)) + length word + 10 + new_pad word b \<le> lim"
  shows "\<exists>b'. fcreate E word cfaval b = Some b' \<and> boot_inv lim H ((word, new_lfa word b, cfaval) # ws) b' \<and>
     grows b b' (length word + 10 + new_pad word b)"
proof -
  let ?d = "dict (eng b)" and ?h = "unat (dicthead (eng b))" and ?k = "new_pad word b" and ?m = "mem (eng b)"
  let ?n = "length word + 10 + ?k"
  from inv obtain link where lin: "linear ?d lim" and lim: "lim < 2 ^ 31" and al: "?h mod 4 = 0"
    and lat: "\<And>x. in_region (latest b) 4 x \<Longrightarrow> x \<in> H"
    and free: "\<And>j. ?h \<le> j \<Longrightarrow> j < lim \<Longrightarrow> ?d + of_nat j \<notin> H"
    and link: "read_ucell ?m (latest b) = Some link" and ch: "chain ?m ?d ?h H link ws"
    and mp: "mapped ?m ?d lim" by (auto simp: boot_inv_def)
  have rm': "?h + ?n \<le> lim" using rm by simp
  note room = boot_inv_room [OF inv rm']
  have ne: "word \<noteq> []" using word by (simp add: good_name_def)
  let ?lfa = "new_lfa word b" and ?bs = "word_bytes word ?k link cfaval"
  let ?m1 = "put ?m (here_addr b) ?bs"
  let ?m2 = "put ?m1 (latest b) (cell_bytes ?lfa)"
  let ?b = "created word cfaval link b"
  have cr: "fcreate E word cfaval b = Some ?b" by (rule fcreate_creates [OF ne room link])
  have b: "mem (eng ?b) = ?m2" "dict (eng ?b) = ?d" "latest ?b = latest b" "last_word (eng ?b) = last_word (eng b)"
    "dicthead (eng ?b) = dicthead (eng b) + of_nat ?n"
    by (simp_all add: created_def Let_def)
  have h': "unat (dicthead (eng ?b)) = ?h + ?n" unfolding b(5) using rm' lim by (intro unat_add_small) simp
  have here: "here_addr b = ?d + of_nat ?h" by (simp add: here_addr_def)
  have lfa: "?lfa = ?d + of_nat (?h + length word + 2 + ?k)" by (simp add: new_lfa_def here ac_simps)
  have "chain ?m1 ?d (?h + ?n) H ?lfa ((word, ?lfa, cfaval) # ws)"
    using chain_extend [OF ch lin _ word free lfa, of cfaval] rm' by (simp add: here add.assoc)
  then have ch2: "chain ?m2 ?d (?h + ?n) H ?lfa ((word, ?lfa, cfaval) # ws)"
    by (rule chain_frame [rotated]) (use lat put_other [of "cell_bytes ?lfa" "latest b" _ ?m1] in auto)
  have "mapped ?m1 (latest b) 4"
    using read_mapped [OF link] put_dom by (auto simp: mapped_def)
  then have rl: "read_ucell ?m2 (latest b) = Some ?lfa" by (rule read_ucell_put_cell)
  have "(?h + ?n) mod 4 = 0"
    using pad_total [OF al, of "length word"] rm' lim by (simp add: new_pad_def) presburger
  then have "boot_inv lim H ((word, ?lfa, cfaval) # ws) ?b"
    unfolding boot_inv_def h' b(1-3) using lin lim rm' lat free rl ch2 mp put_dom by (auto simp: mapped_def)
  moreover have "?m2 x = ?m x" if "\<not> in_region (latest b) 4 x" "\<not> in_region (here_addr b) ?n x" for x
    using put_other [of "cell_bytes ?lfa" "latest b" x ?m1] put_other [of ?bs "here_addr b" x ?m] that rm' lim by simp
  moreover have "no_less b ?b" using put_dom b(1) by (auto simp: no_less_def)
  ultimately show ?thesis using cr h' b by (simp add: grows_def)
qed

lemma grows_here:
  assumes "grows b b1 n"
  shows "here_addr b1 = here_addr b + of_nat n"
proof -
  have "dicthead (eng b1) = dicthead (eng b) + of_nat n"
  proof (rule word_unat_eq_iff [THEN iffD2])
    have u: "unat (dicthead (eng b1)) = unat (dicthead (eng b)) + n" using assms by (simp add: grows_def)
    moreover have "unat (dicthead (eng b1)) < 2 ^ 32" using unsigned_less [of "dicthead (eng b1)", where ?'a = nat] by simp
    ultimately show "unat (dicthead (eng b1)) = unat (dicthead (eng b) + of_nat n)"
      by (simp add: unat_add_small)
  qed
  then show ?thesis using assms by (simp add: here_addr_def grows_def)
qed

lemma writecell_inv:
  assumes inv: "boot_inv lim H ws b" and rm: "unat (dicthead (eng b)) + 4 \<le> lim"
  shows "\<exists>b'. writecell v b = Some b' \<and> boot_inv lim (H \<union> {x. in_region (here_addr b) 4 x}) ws b' \<and> grows b b' 4 \<and>
     read_ucell (mem (eng b')) (here_addr b) = Some v"
proof -
  let ?d = "dict (eng b)" and ?h = "unat (dicthead (eng b))" and ?m = "mem (eng b)"
  from inv obtain link where lin: "linear ?d lim" and lim: "lim < 2 ^ 31" and al: "?h mod 4 = 0"
    and lat: "\<And>x. in_region (latest b) 4 x \<Longrightarrow> x \<in> H"
    and free: "\<And>j. ?h \<le> j \<Longrightarrow> j < lim \<Longrightarrow> ?d + of_nat j \<notin> H"
    and link: "read_ucell ?m (latest b) = Some link" and ch: "chain ?m ?d ?h H link ws"
    and mp: "mapped ?m ?d lim" by (auto simp: boot_inv_def)
  note room = boot_inv_room [OF inv rm]
  let ?b = "emitted (cell_bytes v) b" and ?R = "{x. in_region (here_addr b) 4 x}"
  let ?m1 = "put ?m (here_addr b) (cell_bytes v)"
  have here: "here_addr b = ?d + of_nat ?h" by (simp add: here_addr_def)
  have h': "unat (dicthead (eng ?b)) = ?h + 4" using rm lim unat_add_small [of "dicthead (eng b)" 4] by simp
  have out: "?d + of_nat j \<notin> ?R" if "j < ?h \<or> ?h + 4 \<le> j" "j < lim" for j
  proof
    assume "?d + of_nat j \<in> ?R"
    then obtain i where i: "i < 4" "?d + of_nat j = ?d + of_nat (?h + i)"
      by (auto simp: in_region_offset here add.assoc)
    then have "unat ?d + j = unat ?d + (?h + i)"
      using unat_offset_linear [OF lin, of j] unat_offset_linear [OF lin, of "?h + i"] that(2) rm by simp
    then show False using i(1) that(1) by auto
  qed
  have ch1: "chain ?m1 ?d ?h H link ws"
    by (rule chain_frame [OF _ ch]) (use put_below [OF lin, of ?h "cell_bytes v"] rm here in auto)
  have "chain ?m1 ?d (?h + 4) (H \<union> ?R) link ws"
    by (rule chain_avoid [OF _ _ ch1]) (use out rm in auto)
  moreover have "read_ucell ?m1 (latest b) = Some link"
    using read_ucell_put_other [of "cell_bytes v" "here_addr b" "latest b" ?m] room(2) link by simp
  ultimately have "boot_inv lim (H \<union> ?R) ws ?b"
    unfolding boot_inv_def h' emitted_simps(1,2,6)
    using lin lim mp put_dom rm al lat free out by (auto simp: mapped_def)
  moreover have "no_less b ?b" using put_dom by (auto simp: no_less_def)
  then have "grows b ?b 4" unfolding grows_def h' by (simp add: put_other)
  moreover have "read_ucell (mem (eng ?b)) (here_addr b) = Some v"
    using room(1) by (simp add: read_ucell_put_cell room_def)
  ultimately show ?thesis using writecell_emits [OF room(1)] by blast
qed

subsection \<open>Building the initial dictionary\<close>

definition entry :: "u8 list \<times> ucell \<times> ucell \<Rightarrow> u8 list \<times> ucell" where
  "entry w = (case w of (n, l, v) \<Rightarrow> (n, v))"

lemma entry_simp [simp]: "entry (n, l, v) = (n, v)"
  by (simp add: entry_def)

text \<open>
  \<open>stage lim K H ws b\<close>: the invariant, with at most \<open>K\<close> bytes used. \<open>keeps\<close>: the pointers a step
  leaves alone. \<open>in_dict\<close>: a cell of the dictionary, not its first.
\<close>

definition stage :: "nat \<Rightarrow> nat \<Rightarrow> ucell set \<Rightarrow> (u8 list \<times> ucell \<times> ucell) list \<Rightarrow> 'w boot \<Rightarrow> bool" where
  "stage lim K H ws b \<longleftrightarrow> boot_inv lim H ws b \<and> unat (dicthead (eng b)) \<le> K"

definition keeps :: "'w boot \<Rightarrow> 'w boot \<Rightarrow> bool" where
  "keeps b b' \<longleftrightarrow> no_less b b' \<and> dict (eng b') = dict (eng b) \<and> latest b' = latest b \<and> last_word (eng b') = last_word (eng b)"

definition in_dict :: "nat \<Rightarrow> ucell \<Rightarrow> ucell \<Rightarrow> bool" where
  "in_dict lim d p \<longleftrightarrow> (\<exists>j. 0 < j \<and> j + 4 \<le> lim \<and> p = d + of_nat j)"

lemma keeps_trans: "keeps b b1 \<Longrightarrow> keeps b1 b2 \<Longrightarrow> keeps b b2"
  by (simp add: keeps_def no_less_def)

lemma fcreate_stage:
  assumes "stage lim K H ws b" and "good_name word" and "K + length word + 13 \<le> lim"
  shows "\<exists>b'. fcreate E word v b = Some b' \<and> stage lim (K + length word + 13) H ((word, new_lfa word b, v) # ws) b' \<and>
     keeps b b' \<and> here_addr b' = new_lfa word b + 8 \<and> 0 < unat (dicthead (eng b'))"
proof -
  have inv: "boot_inv lim H ws b" and K: "unat (dicthead (eng b)) \<le> K" using assms(1) by (simp_all add: stage_def)
  have "unat (dicthead (eng b)) + length word + 10 + new_pad word b \<le> lim"
    using K assms(3) pad_of_less [of "dicthead (eng b) + of_nat (length word + 2)"] by (simp add: new_pad_def)
  from fcreate_inv [OF inv assms(2) this, of E v] obtain b' where
    b': "fcreate E word v b = Some b'" "boot_inv lim H ((word, new_lfa word b, v) # ws) b'"
    "grows b b' (length word + 10 + new_pad word b)" by blast
  have "here_addr b' = new_lfa word b + 8"
    using grows_here [OF b'(3)] by (simp add: new_lfa_def)
  moreover have "unat (dicthead (eng b')) \<le> K + length word + 13" "0 < unat (dicthead (eng b'))"
    using b'(3) K pad_of_less [of "dicthead (eng b) + of_nat (length word + 2)"] by (simp_all add: grows_def new_pad_def)
  ultimately show ?thesis using b' by (simp add: stage_def keeps_def grows_def)
qed

lemma writecell_stage:
  assumes "stage lim K H ws b" and "K + 4 \<le> lim" and "0 < unat (dicthead (eng b))"
  shows "\<exists>b'. writecell v b = Some b' \<and> stage lim (K + 4) (H \<union> {x. in_region (here_addr b) 4 x}) ws b' \<and>
     keeps b b' \<and> here_addr b' = here_addr b + 4 \<and> in_dict lim (dict (eng b)) (here_addr b)"
proof -
  have inv: "boot_inv lim H ws b" and K: "unat (dicthead (eng b)) \<le> K" using assms(1) by (simp_all add: stage_def)
  have "unat (dicthead (eng b)) + 4 \<le> lim" using K assms(2) by simp
  from writecell_inv [OF inv this, of v] obtain b' where
    b': "writecell v b = Some b'" "boot_inv lim (H \<union> {x. in_region (here_addr b) 4 x}) ws b'" "grows b b' 4" by blast
  have "in_dict lim (dict (eng b)) (here_addr b)"
    unfolding in_dict_def using assms(2,3) K
    by (intro exI [of _ "unat (dicthead (eng b))"]) (simp add: here_addr_def)
  then show ?thesis using b' K grows_here [OF b'(3)] by (simp add: stage_def keeps_def grows_def)
qed

lemma buildvariable_stage:
  assumes "stage lim K H ws b" and "good_name name" and "K + length name + 17 \<le> lim"
  shows "\<exists>b' l H'. buildvariable E name v b = Some (l + 8, b') \<and> stage lim (K + length name + 17) H' ((name, l, 4) # ws) b' \<and>
     keeps b b' \<and> H \<subseteq> H' \<and> {x. in_region (l + 8) 4 x} \<subseteq> H' \<and> in_dict lim (dict (eng b)) (l + 8)"
proof -
  from fcreate_stage [OF assms(1,2), of E 4] assms(3) obtain b1 where
    b1: "fcreate E name 4 b = Some b1" "stage lim (K + length name + 13) H ((name, new_lfa name b, 4) # ws) b1"
    "keeps b b1" "here_addr b1 = new_lfa name b + 8" "0 < unat (dicthead (eng b1))" by auto
  from writecell_stage [OF b1(2) _ b1(5), of v] assms(3) obtain b2 where
    b2: "writecell v b1 = Some b2" "stage lim (K + length name + 17) (H \<union> {x. in_region (here_addr b1) 4 x}) ((name, new_lfa name b, 4) # ws) b2"
    "keeps b1 b2" "here_addr b2 = here_addr b1 + 4" "in_dict lim (dict (eng b1)) (here_addr b1)"
    by (auto simp: add.commute [of 17])
  have "buildvariable E name v b = Some (new_lfa name b + 8, b2)"
    using b1(1,4) b2(1,4) by (simp add: buildvariable_def)
  moreover have "dict (eng b1) = dict (eng b)" using b1(3) by (simp add: keeps_def)
  ultimately show ?thesis
    using b2(2,5) keeps_trans [OF b1(3) b2(3)] b1(4)
    by (intro exI [of _ b2] exI [of _ "new_lfa name b"] exI [of _ "H \<union> {x. in_region (here_addr b1) 4 x}"]) auto
qed

lemma buildconstant_stage:
  assumes "stage lim K H ws b" and "good_name name" and "K + length name + 17 \<le> lim"
  shows "\<exists>b' l H'. buildconstant E name v b = Some b' \<and> stage lim (K + length name + 17) H' ((name, l, 3) # ws) b' \<and>
     keeps b b' \<and> H \<subseteq> H'"
proof -
  from fcreate_stage [OF assms(1,2), of E 3] assms(3) obtain b1 where
    b1: "fcreate E name 3 b = Some b1" "stage lim (K + length name + 13) H ((name, new_lfa name b, 3) # ws) b1"
    "keeps b b1" "0 < unat (dicthead (eng b1))" by auto
  from writecell_stage [OF b1(2) _ b1(4), of v] assms(3) obtain b2 where
    b2: "writecell v b1 = Some b2" "stage lim (K + length name + 17) (H \<union> {x. in_region (here_addr b1) 4 x}) ((name, new_lfa name b, 3) # ws) b2"
    "keeps b1 b2" by (auto simp: add.commute [of 17])
  show ?thesis
    using b1(1) b2(1,2) keeps_trans [OF b1(3) b2(3)]
    by (intro exI [of _ b2] exI [of _ "new_lfa name b"] exI [of _ "H \<union> {x. in_region (here_addr b1) 4 x}"])
       (auto simp: buildconstant_def)
qed

text \<open>The names and code fields the primitives get, first to last.\<close>

fun prim_entries :: "nat \<Rightarrow> string list \<Rightarrow> (u8 list \<times> ucell) list" where
  "prim_entries i [] = []"
| "prim_entries i (n # ns) = (if n \<noteq> [] then [(cstr n, of_nat i)] else []) @ prim_entries (Suc i) ns"

definition names_size :: "string list \<Rightarrow> nat" where
  "names_size ns = sum_list (map (\<lambda>n. length (cstr n) + 13) ns)"

lemma build_prims_stage:
  assumes "\<And>n. n \<in> set ns \<Longrightarrow> n \<noteq> [] \<Longrightarrow> good_name (cstr n)"
  shows "stage lim K H ws b \<Longrightarrow> K + names_size ns \<le> lim \<Longrightarrow>
    \<exists>b' es. build_prims E i ns b = Some b' \<and> stage lim (K + names_size ns) H (es @ ws) b' \<and> keeps b b' \<and>
      map entry es = rev (prim_entries i ns)"
  using assms
proof (induction ns arbitrary: b ws K i)
  case Nil
  then show ?case by (auto simp: names_size_def keeps_def no_less_def)
next
  case (Cons n ns)
  show ?case
  proof (cases "n = []")
    case True
    then have "stage lim (K + 13) H ws b" using Cons.prems(1) by (auto simp: stage_def)
    from Cons.IH [OF this, of "Suc i"] Cons.prems(2,3) True show ?thesis
      by (auto simp: names_size_def cstr_def add.assoc)
  next
    case False
    have g: "good_name (cstr n)" using Cons.prems(3) False by simp
    have s: "K + length (cstr n) + 13 + names_size ns \<le> lim" using Cons.prems(2) by (simp add: names_size_def)
    from fcreate_stage [OF Cons.prems(1) g, of E "of_nat i"] s obtain b1 where
      b1: "fcreate E (cstr n) (of_nat i) b = Some b1" "keeps b b1"
      "stage lim (K + length (cstr n) + 13) H ((cstr n, new_lfa (cstr n) b, of_nat i) # ws) b1" by auto
    from Cons.IH [OF b1(3) s, of "Suc i"] Cons.prems(3) obtain b2 es where
      b2: "build_prims E (Suc i) ns b1 = Some b2" "keeps b1 b2" "map entry es = rev (prim_entries (Suc i) ns)"
      "stage lim (K + length (cstr n) + 13 + names_size ns) H (es @ (cstr n, new_lfa (cstr n) b, of_nat i) # ws) b2" by auto
    show ?thesis
      using b1(1) b2 False keeps_trans [OF b1(2) b2(2)]
      by (intro exI [of _ b2] exI [of _ "es @ [(cstr n, new_lfa (cstr n) b, of_nat i)]"])
         (simp add: names_size_def add.assoc)
  qed
qed

text \<open>From here on \<open>latest\<close> lives in the dictionary.\<close>

lemma in_dict_mapped:
  assumes "boot_inv lim H ws b" and "in_dict lim (dict (eng b)) p"
  shows "mapped (mem (eng b)) p 4"
  using assms by (auto simp: boot_inv_def in_dict_def mapped_def add.assoc simp flip: of_nat_add)

lemma chain_same_outside:
  assumes "boot_inv lim H ws b" and "{x. in_region p 4 x} \<subseteq> H" and "write_ucell (mem (eng b)) p v = Some m"
    and "chain (mem (eng b)) (dict (eng b)) h H lfa ws"
  shows "chain m (dict (eng b)) h H lfa ws"
proof (rule chain_frame [OF _ assms(4) order_refl])
  fix j
  assume "dict (eng b) + of_nat j \<notin> H"
  with assms(2) have "\<not> in_region p 4 (dict (eng b) + of_nat j)" by blast
  then show "m (dict (eng b) + of_nat j) = mem (eng b) (dict (eng b) + of_nat j)"
    by (rule ucell_acc.wr_frame [OF assms(3)])
qed

lemma latest_moves:
  assumes st: "stage lim K H ((name, l, v) # ws) b" and p: "in_dict lim (dict (eng b)) p" "{x. in_region p 4 x} \<subseteq> H"
  shows "\<exists>m. write_ucell (mem (eng b)) p l = Some m \<and> stage lim K H ((name, l, v) # ws) (set_mem m (b\<lparr>latest := p\<rparr>))"
proof -
  have inv: "boot_inv lim H ((name, l, v) # ws) b" using st by (simp add: stage_def)
  then have ch: "chain (mem (eng b)) (dict (eng b)) (unat (dicthead (eng b))) H l ((name, l, v) # ws)"
    by (auto simp: boot_inv_def)
  from in_dict_mapped [OF inv p(1)] obtain m where m: "write_ucell (mem (eng b)) p l = Some m"
    using write_ucell_put by blast
  note ch2 = chain_same_outside [OF inv p(2) m ch]
  have "mapped m (dict (eng b)) lim"
    using inv ucell_acc.wr_dom [OF m] by (simp add: boot_inv_def mapped_def)
  then have "boot_inv lim H ((name, l, v) # ws) (set_mem m (b\<lparr>latest := p\<rparr>))"
    using inv ch2 p(2) ucell_acc.rd_wr_same [OF m] unfolding boot_inv_def by (auto simp: set_mem_def)
  then show ?thesis using m st by (simp add: stage_def set_mem_def)
qed

text \<open>A finished dictionary: \<open>last\<close> is a cell of it and leads to the words \<open>ws\<close>.\<close>

definition dict_ready :: "nat \<Rightarrow> (u8 list \<times> ucell \<times> ucell) list \<Rightarrow> 'w fstate \<Rightarrow> bool" where
  "dict_ready lim ws s \<longleftrightarrow> linear (dict s) lim \<and> in_dict lim (dict s) (last_word s) \<and>
     (\<exists>first h H. h \<le> lim \<and> read_ucell (mem s) (last_word s) = Some first \<and> chain (mem s) (dict s) h H first ws)"

lemma reveal_shows:
  assumes inv: "boot_inv lim H ws b" and p: "in_dict lim (dict (eng b)) (last_word (eng b))" "{x. in_region (last_word (eng b)) 4 x} \<subseteq> H"
  shows "\<exists>b'. reveal b = Some b' \<and> dict (eng b') = dict (eng b) \<and> no_less b b' \<and> dict_ready lim ws (eng b')"
proof -
  from inv obtain lfa where l: "read_ucell (mem (eng b)) (latest b) = Some lfa"
    and ch: "chain (mem (eng b)) (dict (eng b)) (unat (dicthead (eng b))) H lfa ws" by (auto simp: boot_inv_def)
  from in_dict_mapped [OF inv p(1)] obtain m where m: "write_ucell (mem (eng b)) (last_word (eng b)) lfa = Some m"
    using write_ucell_put by blast
  have "dict_ready lim ws (eng (set_mem m b))"
    unfolding dict_ready_def using chain_same_outside [OF inv p(2) m ch] ucell_acc.rd_wr_same [OF m] inv p(1)
    by (auto simp: boot_inv_def intro!: exI [of _ lfa] exI [of _ "unat (dicthead (eng b))"])
  moreover have "no_less b (set_mem m b)" using ucell_acc.wr_dom [OF m] by (simp add: no_less_def)
  ultimately show ?thesis using l m by (simp add: reveal_def)
qed

lemma dict_ready_frame:
  assumes "dict_ready lim ws s" and "dict s' = dict s" and "last_word s' = last_word s"
    and "\<And>j. j < lim \<Longrightarrow> mem s' (dict s + of_nat j) = mem s (dict s + of_nat j)"
  shows "dict_ready lim ws s'"
proof -
  from assms(1) obtain first h H j where h: "h \<le> lim" "read_ucell (mem s) (last_word s) = Some first"
    "chain (mem s) (dict s) h H first ws" and j: "j + 4 \<le> lim" "last_word s = dict s + of_nat j"
    by (auto simp: dict_ready_def in_dict_def)
  have "read_ucell (mem s') (last_word s) = read_ucell (mem s) (last_word s)"
  proof (rule ucell_acc.rd_local)
    fix x
    assume "in_region (last_word s) 4 x"
    then obtain i where "i < 4" "x = dict s + of_nat (j + i)" by (auto simp: in_region_offset j(2) add.assoc)
    then show "mem s' x = mem s x" using assms(4) [of "j + i"] j(1) by simp
  qed
  moreover have "chain (mem s') (dict s) h H first ws"
    by (rule chain_frame [OF _ h(3)]) (use assms(4) h(1) in auto)
  ultimately show ?thesis using assms(1-3) h(1,2) by (auto simp: dict_ready_def)
qed

text \<open>The search in a finished dictionary, and the code field it returns.\<close>

lemma find_entry:
  assumes "chain m d h H lfa ws" and "find (\<lambda>(n, v). same_name s1 n) (map entry ws) = Some (n, v)" and "h \<le> lim"
  shows "read_ucell m (find_spec ws s1) = Some v \<and> in_dict lim d (find_spec ws s1)"
  using assms(1,2)
proof (induction ws arbitrary: lfa)
  case (Cons w ws)
  obtain name l u where w: "w = (name, l, u)" by (cases w)
  show ?case
  proof (cases "same_name s1 name")
    case True
    from Cons.prems(1) w obtain no k where l: "l = d + of_nat (no + length name + 2 + k)" "no + length name + k + 10 \<le> h"
      and v: "read_ucell m (l + 4) = Some u" by auto
    have "l + 4 = d + of_nat (no + length name + 6 + k)" using l(1) by simp
    then have "in_dict lim d (l + 4)"
      unfolding in_dict_def using l(2) assms(3) by (intro exI [of _ "no + length name + 6 + k"]) simp
    then show ?thesis using True v Cons.prems(2) by (simp add: w find_spec_def)
  next
    case False
    then show ?thesis using Cons by (auto simp: w find_spec_def)
  qed
qed simp

lemma in_dict_nonzero:
  assumes "linear d lim" and "in_dict lim d p"
  shows "p \<noteq> 0"
proof -
  from assms(2) obtain j where j: "0 < j" "j + 4 \<le> lim" "p = d + of_nat j" by (auto simp: in_dict_def)
  then have "unat p = unat d + j" using unat_offset_linear [OF assms(1), of j] by simp
  then show ?thesis using j(1) by auto
qed

lemma dict_ready_find:
  assumes "dict_ready lim ws s" and "length s1 < 2 ^ 32"
  shows "findword s s1 = Some (find_spec ws s1)"
proof -
  have "last_word s \<noteq> 0" using assms(1) in_dict_nonzero by (auto simp: dict_ready_def)
  then show ?thesis using assms findword_loop_chain [OF assms(2)] by (auto simp: dict_ready_def findword_def)
qed

definition var_entries :: "(u8 list \<times> ucell) list" where
  "var_entries =
     [(cstr ''/x'', 3), (cstr ''/n'', 3), (cstr ''/l'', 3), (cstr ''/w'', 3), (cstr ''/c'', 3), (cstr ''base'', 4),
      (cstr ''latest'', 4), (cstr ''forth-last'', 4), (cstr ''state'', 4)]"

definition dict_entries :: "(u8 list \<times> ucell) list" where
  "dict_entries = var_entries @ rev (prim_entries 0 wordnames)"

lemma wordnames_good: "list_all (\<lambda>n. n = [] \<or> good_name (cstr n)) wordnames"
  by code_simp

lemma var_names_good: "list_all (\<lambda>(n, v). good_name n) var_entries"
  by code_simp

lemma names_size_wordnames: "names_size wordnames \<le> 2000"
  by code_simp

lemma initial_stage:
  assumes "linear (dict (eng b)) lim" and "lim < 2 ^ 31" and "mapped (mem (eng b)) (dict (eng b)) lim"
    and "mapped (mem (eng b)) lfa 4" and "apart (dict (eng b)) lim lfa 4"
  shows "\<exists>m. write_ucell (mem (eng b)) lfa 0 = Some m \<and>
     stage lim 0 {x. in_region lfa 4 x} [] ((set_mem m b)\<lparr>latest := lfa, eng := (eng (set_mem m b))\<lparr>dicthead := 0\<rparr>\<rparr>)"
proof -
  from assms(4) obtain m where m: "write_ucell (mem (eng b)) lfa 0 = Some m" using write_ucell_put by blast
  have "mapped m (dict (eng b)) lim" using assms(3) ucell_acc.wr_dom [OF m] by (simp add: mapped_def)
  moreover have "dict (eng b) + of_nat j \<notin> {x. in_region lfa 4 x}" if "j < lim" for j
  proof -
    have "in_region (dict (eng b)) lim (dict (eng b) + of_nat j)"
      using in_region_offset [OF linear_le [OF assms(1)]] that by blast
    then show ?thesis using assms(5) by (auto simp: apart_def)
  qed
  ultimately show ?thesis
    using m assms(1,2) ucell_acc.rd_wr_same [OF m] by (auto simp: stage_def boot_inv_def set_mem_def)
qed

lemma stage_upd [simp]:
  "stage lim K H ws (b\<lparr>state_ptr := p\<rparr>) \<longleftrightarrow> stage lim K H ws b"
  "stage lim K H ws (b\<lparr>base_ptr := p\<rparr>) \<longleftrightarrow> stage lim K H ws b"
  "stage lim K H ws (b\<lparr>eng := (eng b)\<lparr>last_word := p\<rparr>\<rparr>) \<longleftrightarrow> stage lim K H ws b"
  by (simp_all add: stage_def boot_inv_def)

lemma stage_mono: "stage lim K H ws b \<Longrightarrow> K \<le> K' \<Longrightarrow> stage lim K' H ws b"
  by (simp add: stage_def)

text \<open>A fixed allowance of 30 bytes for each of the nine variables and constants.\<close>

lemma variable_step:
  assumes "stage lim K H ws b" and "good_name name" and "length name \<le> 13" and "K + 30 \<le> lim"
  shows "\<exists>b' l H'. buildvariable E name v b = Some (l + 8, b') \<and> stage lim (K + 30) H' ((name, l, 4) # ws) b' \<and>
     keeps b b' \<and> H \<subseteq> H' \<and> {x. in_region (l + 8) 4 x} \<subseteq> H' \<and> in_dict lim (dict (eng b)) (l + 8)"
proof -
  have K: "K + length name + 17 \<le> K + 30" using assms(3) by simp
  then have "K + length name + 17 \<le> lim" using assms(4) by simp
  from buildvariable_stage [OF assms(1,2) this, of E v] show ?thesis
    using stage_mono [OF _ K] by metis
qed

lemma constant_step:
  assumes "stage lim K H ws b" and "good_name name" and "length name \<le> 13" and "K + 30 \<le> lim"
  shows "\<exists>b' l H'. buildconstant E name v b = Some b' \<and> stage lim (K + 30) H' ((name, l, 3) # ws) b' \<and>
     keeps b b' \<and> H \<subseteq> H'"
proof -
  have K: "K + length name + 17 \<le> K + 30" using assms(3) by simp
  then have "K + length name + 17 \<le> lim" using assms(4) by simp
  from buildconstant_stage [OF assms(1,2) this, of E v] K show ?thesis
    using stage_mono [OF _ K] by blast
qed

lemma names_fit [simp]: "length (cstr n) = length n"
  by (simp add: cstr_def)

lemma var_names:
  "good_name (cstr ''/x'')" "good_name (cstr ''/n'')" "good_name (cstr ''/l'')" "good_name (cstr ''/w'')"
  "good_name (cstr ''/c'')" "good_name (cstr ''base'')" "good_name (cstr ''latest'')" "good_name (cstr ''forth-last'')"
  "good_name (cstr ''state'')"
  using var_names_good by (simp_all add: var_entries_def)

lemma build_vars_stage:
  assumes "stage lim K H ws b" and "K + 90 \<le> lim"
  shows "\<exists>b' es H'. build_vars E b = Some b' \<and> stage lim (K + 90) H' (es @ ws) b' \<and>
     dict (eng b') = dict (eng b) \<and> no_less b b' \<and> map entry es = [(cstr ''latest'', 4), (cstr ''forth-last'', 4), (cstr ''state'', 4)] \<and>
     in_dict lim (dict (eng b')) (last_word (eng b')) \<and> {x. in_region (last_word (eng b')) 4 x} \<subseteq> H'"
proof -
  from variable_step [OF assms(1) var_names(9), of E 0] assms(2) obtain b2 l2 H2 where
    b2: "buildvariable E (cstr ''state'') 0 b = Some (l2 + 8, b2)" "stage lim (K + 30) H2 ((cstr ''state'', l2, 4) # ws) b2"
    "keeps b b2" by auto
  let ?b2 = "b2\<lparr>state_ptr := l2 + 8\<rparr>"
  have "stage lim (K + 30) H2 ((cstr ''state'', l2, 4) # ws) ?b2" using b2(2) by simp
  from variable_step [OF this var_names(8), of E 0] assms(2) obtain b3 l3 H3 where
    b3: "buildvariable E (cstr ''forth-last'') 0 ?b2 = Some (l3 + 8, b3)"
    "stage lim (K + 60) H3 ((cstr ''forth-last'', l3, 4) # (cstr ''state'', l2, 4) # ws) b3"
    "keeps ?b2 b3" "{x. in_region (l3 + 8) 4 x} \<subseteq> H3" "in_dict lim (dict (eng ?b2)) (l3 + 8)"
    by (auto simp: add.assoc)
  let ?b3 = "b3\<lparr>eng := (eng b3)\<lparr>last_word := l3 + 8\<rparr>\<rparr>"
  have "stage lim (K + 60) H3 ((cstr ''forth-last'', l3, 4) # (cstr ''state'', l2, 4) # ws) ?b3" using b3(2) by simp
  from variable_step [OF this var_names(7), of E 0] assms(2) obtain b4 l4 H4 where
    b4: "buildvariable E (cstr ''latest'') 0 ?b3 = Some (l4 + 8, b4)"
    "stage lim (K + 90) H4 ((cstr ''latest'', l4, 4) # (cstr ''forth-last'', l3, 4) # (cstr ''state'', l2, 4) # ws) b4"
    "keeps ?b3 b4" "H3 \<subseteq> H4" "{x. in_region (l4 + 8) 4 x} \<subseteq> H4" "in_dict lim (dict (eng ?b3)) (l4 + 8)"
    by (auto simp: add.assoc)
  have d: "dict (eng b4) = dict (eng b3)" "dict (eng b3) = dict (eng b2)" "last_word (eng b4) = l3 + 8"
    "dict (eng b2) = dict (eng b)"
    using b2(3) b3(3) b4(3) by (simp_all add: keeps_def)
  from latest_moves [OF b4(2), of "l4 + 8"] b4(5,6) d obtain m where
    m: "write_ucell (mem (eng b4)) (l4 + 8) l4 = Some m"
    "stage lim (K + 90) H4 ((cstr ''latest'', l4, 4) # (cstr ''forth-last'', l3, 4) # (cstr ''state'', l2, 4) # ws)
       (set_mem m (b4\<lparr>latest := l4 + 8\<rparr>))" by auto
  have "build_vars E b = Some (set_mem m (b4\<lparr>latest := l4 + 8\<rparr>))"
    using b2(1) b3(1) b4(1) m(1) by (simp add: build_vars_def)
  moreover have "no_less b b4" using b2(3) b3(3) b4(3) by (simp add: keeps_def no_less_def)
  then have "no_less b (set_mem m (b4\<lparr>latest := l4 + 8\<rparr>))"
    using ucell_acc.wr_dom [OF m(1)] by (simp add: no_less_def)
  ultimately show ?thesis
    using m(2) b3(4,5) b4(4) d
    by (intro exI [of _ "set_mem m (b4\<lparr>latest := l4 + 8\<rparr>)"] exI [of _ H4]
        exI [of _ "[(cstr ''latest'', l4, 4), (cstr ''forth-last'', l3, 4), (cstr ''state'', l2, 4)]"]) auto
qed

lemma constant_steps:
  assumes "stage lim K H ws b" and "list_all (\<lambda>(n, v). good_name n \<and> length n \<le> 13) cs" and "K + 30 * length cs \<le> lim"
  shows "\<exists>b' es H'. fold (\<lambda>(n, v) r. do { b \<leftarrow> r; buildconstant E n v b }) cs (Some b) = Some b' \<and>
     stage lim (K + 30 * length cs) H' (es @ ws) b' \<and> map entry es = rev (map (\<lambda>(n, v). (n, 3)) cs) \<and> keeps b b' \<and> H \<subseteq> H'"
  using assms
proof (induction cs arbitrary: K H ws b)
  case Nil
  then show ?case by (auto simp: keeps_def no_less_def)
next
  case (Cons c cs)
  obtain n v where c: "c = (n, v)" by fastforce
  from Cons.prems c constant_step [OF Cons.prems(1), of n E v] obtain b1 l H1 where
    b1: "buildconstant E n v b = Some b1" "stage lim (K + 30) H1 ((n, l, 3) # ws) b1" "keeps b b1" "H \<subseteq> H1" by auto
  from Cons.IH [OF b1(2)] Cons.prems(2,3) c obtain b2 es H2 where
    b2: "fold (\<lambda>(n, v) r. do { b \<leftarrow> r; buildconstant E n v b }) cs (Some b1) = Some b2"
    "stage lim (K + 30 + 30 * length cs) H2 (es @ (n, l, 3) # ws) b2" "map entry es = rev (map (\<lambda>(n, v). (n, 3)) cs)"
    "keeps b1 b2" "H1 \<subseteq> H2" by auto
  then show ?case
    using b1 c keeps_trans [OF b1(3) b2(4)]
    by (intro exI [of _ b2] exI [of _ "es @ [(n, l, 3)]"] exI [of _ H2]) (auto simp: add.assoc)
qed

lemma build_consts_stage:
  assumes "stage lim K H ws b" and "K + 180 \<le> lim"
  shows "\<exists>b' es H'. build_consts E b = Some b' \<and> stage lim (K + 180) H' (es @ ws) b' \<and>
     map entry es = [(cstr ''/x'', 3), (cstr ''/n'', 3), (cstr ''/l'', 3), (cstr ''/w'', 3), (cstr ''/c'', 3), (cstr ''base'', 4)] \<and>
     keeps b b' \<and> H \<subseteq> H'"
proof -
  from variable_step [OF assms(1) var_names(6), of E 10] assms(2) obtain b1 l1 H1 where
    b1: "buildvariable E (cstr ''base'') 10 b = Some (l1 + 8, b1)" "stage lim (K + 30) H1 ((cstr ''base'', l1, 4) # ws) b1"
    "keeps b b1" "H \<subseteq> H1" by auto
  let ?b1 = "b1\<lparr>base_ptr := l1 + 8\<rparr>"
  let ?cs = "[(cstr ''/c'', 1 :: cell), (cstr ''/w'', 2), (cstr ''/l'', 4), (cstr ''/n'', 4), (cstr ''/x'', 8)]"
  have s: "stage lim (K + 30) H1 ((cstr ''base'', l1, 4) # ws) ?b1" using b1(2) by simp
  have "list_all (\<lambda>(n, v). good_name n \<and> length n \<le> 13) ?cs" "K + 30 + 30 * length ?cs \<le> lim"
    using var_names assms(2) by simp_all
  from constant_steps [OF s this, of E] obtain b2 es H2 where
    b2: "fold (\<lambda>(n, v) r. do { b \<leftarrow> r; buildconstant E n v b }) ?cs (Some ?b1) = Some b2"
    "stage lim (K + 30 + 30 * length ?cs) H2 (es @ (cstr ''base'', l1, 4) # ws) b2"
    "map entry es = rev (map (\<lambda>(n, v). (n, 3)) ?cs)" "keeps ?b1 b2" "H1 \<subseteq> H2" by blast
  have "build_consts E b = Some b2" using b1(1) b2(1) by (simp add: build_consts_def)
  moreover have "stage lim (K + 180) H2 (es @ (cstr ''base'', l1, 4) # ws) b2" using b2(2) by (simp add: add.commute)
  moreover have "keeps b b2" using b1(3) b2(4) by (simp add: keeps_def no_less_def)
  ultimately show ?thesis
    using b1(4) b2(3,5) by (intro exI [of _ b2] exI [of _ "es @ [(cstr ''base'', l1, 4)]"] exI [of _ H2]) simp
qed

lemma build_dictionary_chain:
  assumes "linear (dict (eng b)) lim" and "lim < 2 ^ 31" and "4096 \<le> lim" and "mapped (mem (eng b)) (dict (eng b)) lim"
    and "mapped (mem (eng b)) lfa 4" and "apart (dict (eng b)) lim lfa 4"
  shows "\<exists>b' ws. build_dictionary E lfa b = Some b' \<and> dict (eng b') = dict (eng b) \<and> no_less b b' \<and> dict_ready lim ws (eng b') \<and>
     map entry ws = dict_entries"
proof -
  define K where "K = names_size wordnames"
  have K: "K + 270 \<le> lim" unfolding K_def using names_size_wordnames assms(3) by simp
  from initial_stage [OF assms(1,2,4,5,6)] obtain m where m: "write_ucell (mem (eng b)) lfa 0 = Some m"
    and s0: "stage lim 0 {x. in_region lfa 4 x} [] ((set_mem m b)\<lparr>latest := lfa, eng := (eng (set_mem m b))\<lparr>dicthead := 0\<rparr>\<rparr>)"
    (is "stage lim 0 ?H0 [] ?b0") by blast
  have "\<And>n. n \<in> set wordnames \<Longrightarrow> n \<noteq> [] \<Longrightarrow> good_name (cstr n)"
    using wordnames_good by (auto simp: list_all_iff)
  from build_prims_stage [OF this s0] K obtain b1 es1 where
    b1: "build_prims E 0 wordnames ?b0 = Some b1" "stage lim K ?H0 es1 b1" "keeps ?b0 b1"
    and es1: "map entry es1 = rev (prim_entries 0 wordnames)" by (fastforce simp: K_def)
  have "K + 90 \<le> lim" using K by simp
  from build_vars_stage [OF b1(2) this, of E] obtain b2 es2 H2 where
    b2: "build_vars E b1 = Some b2" "stage lim (K + 90) H2 (es2 @ es1) b2" and d2: "dict (eng b2) = dict (eng b1)" "no_less b1 b2"
    and es2: "map entry es2 = [(cstr ''latest'', 4), (cstr ''forth-last'', 4), (cstr ''state'', 4)]"
    and l2: "in_dict lim (dict (eng b2)) (last_word (eng b2))" "{x. in_region (last_word (eng b2)) 4 x} \<subseteq> H2"
    by (elim exE conjE)
  have "K + 90 + 180 \<le> lim" using K by simp
  from build_consts_stage [OF b2(2) this, of E] obtain b3 es3 H3 where
    b3: "build_consts E b2 = Some b3" "stage lim (K + 90 + 180) H3 (es3 @ es2 @ es1) b3" "keeps b2 b3" "H2 \<subseteq> H3"
    and es3: "map entry es3 = [(cstr ''/x'', 3), (cstr ''/n'', 3), (cstr ''/l'', 3), (cstr ''/w'', 3), (cstr ''/c'', 3), (cstr ''base'', 4)]"
    by (elim exE conjE)
  have inv: "boot_inv lim H3 (es3 @ es2 @ es1) b3" using b3(2) by (simp add: stage_def)
  have "last_word (eng b3) = last_word (eng b2)" "dict (eng b3) = dict (eng b2)" using b3(3) by (simp_all add: keeps_def)
  then have "in_dict lim (dict (eng b3)) (last_word (eng b3))" "{x. in_region (last_word (eng b3)) 4 x} \<subseteq> H3"
    using l2 b3(4) by (simp, simp only:)
  from reveal_shows [OF inv this] obtain b4 where
    b4: "reveal b3 = Some b4" "dict (eng b4) = dict (eng b3)" "no_less b3 b4" "dict_ready lim (es3 @ es2 @ es1) (eng b4)" by blast
  have "build_dictionary E lfa b = Some b4"
    using m b1(1) b2(1) b3(1) b4(1) by (simp add: build_dictionary_def set_mem_def)
  moreover have "map entry (es3 @ es2 @ es1) = dict_entries"
    using es1 es2 es3 by (simp add: dict_entries_def var_entries_def)
  moreover have "dict (eng b4) = dict (eng b)"
    using b4(2) b3(3) d2(1) b1(3) by (simp add: keeps_def set_mem_def)
  moreover have "no_less b b4"
    using b4(3) b3(3) d2(2) b1(3) ucell_acc.wr_dom [OF m] by (simp add: keeps_def no_less_def set_mem_def)
  ultimately show ?thesis using b4(4) by blast
qed

text \<open>No two words of the initial dictionary have the same name, so each primitive is found.\<close>

lemma entries_distinct: "distinct (map (\<lambda>(n, v). map to_lower n) dict_entries)"
  by code_simp

lemma find_unique:
  "distinct (map f xs) \<Longrightarrow> x \<in> set xs \<Longrightarrow> find (\<lambda>y. f x = f y) xs = Some x"
  by (induction xs) (auto intro: rev_image_eqI)

lemma prim_entries_nth:
  "j < length ns \<Longrightarrow> ns ! j \<noteq> [] \<Longrightarrow> (cstr (ns ! j), of_nat (i + j)) \<in> set (prim_entries i ns)"
proof (induction ns arbitrary: i j)
  case (Cons n ns)
  then show ?case using Cons.IH [of "j - 1" "Suc i"] by (cases j) auto
qed simp

lemma primitive_found:
  assumes "dict_ready lim ws s" and "map entry ws = dict_entries" and "i < length wordnames" and "wordnames ! i \<noteq> []"
  shows "\<exists>xt. findword s (cstr (wordnames ! i)) = Some xt \<and> in_dict lim (dict s) xt \<and> read_ucell (mem s) xt = Some (of_nat i)"
proof -
  let ?n = "cstr (wordnames ! i)"
  have "(?n, of_nat i) \<in> set dict_entries" using prim_entries_nth [OF assms(3,4), of 0] by (simp add: dict_entries_def)
  from find_unique [OF entries_distinct this]
  have f: "find (\<lambda>(n, v). same_name ?n n) (map entry ws) = Some (?n, of_nat i)"
    by (simp add: assms(2) same_name_def case_prod_unfold)
  have "length ?n < 2 ^ 32" using wordnames_good assms(3,4) by (auto simp: list_all_length good_name_def)
  then have "findword s ?n = Some (find_spec ws ?n)" by (rule dict_ready_find [OF assms(1)])
  then show ?thesis using assms(1) find_entry [OF _ f] by (auto simp: dict_ready_def)
qed

text \<open>
  C11: \<open>build_dictionary\<close> ends and enters the primitives. Given a dictionary of 256 kilobytes of
  mapped memory that does not wrap around and a local cell outside it, it returns, and in the
  dictionary it leaves \<open>findword\<close> finds every named primitive: the result is not 0 and is a code
  field holding the primitive's index in \<open>words[]\<close>.
\<close>

theorem build_dictionary_primitives:
  assumes "linear (dict (eng b)) 0x40000" and "mapped (mem (eng b)) (dict (eng b)) 0x40000"
    and "mapped (mem (eng b)) lfa 4" and "apart (dict (eng b)) 0x40000 lfa 4"
  shows "\<exists>b'. build_dictionary E lfa b = Some b' \<and>
     (\<forall>i < length wordnames. wordnames ! i \<noteq> [] \<longrightarrow>
        (\<exists>xt. findword (eng b') (cstr (wordnames ! i)) = Some xt \<and> xt \<noteq> 0 \<and>
           read_ucell (mem (eng b')) xt = Some (of_nat i)))"
proof -
  from build_dictionary_chain [OF assms(1) _ _ assms(2-4), of E] obtain b' ws where
    b': "build_dictionary E lfa b = Some b'" "dict_ready 0x40000 ws (eng b')" "map entry ws = dict_entries" by auto
  with primitive_found [OF b'(2,3)] in_dict_nonzero show ?thesis by (metis dict_ready_def)
qed

theorem build_dictionary_primitives_witness:
  "\<exists>b' xt. build_dictionary bare_env 16
       \<lparr>eng = (init_fstate (\<lambda>_. Some 0) ())\<lparr>dict := 0x100000\<rparr>, latest = 0, state_ptr = 0, base_ptr = 0\<rparr> = Some b' \<and>
     findword (eng b') (cstr ''+'') = Some xt \<and> xt \<noteq> 0 \<and> read_ucell (mem (eng b')) xt = Some 35"
proof -
  let ?b = "\<lparr>eng = (init_fstate (\<lambda>_. Some 0) ())\<lparr>dict := 0x100000\<rparr>, latest = 0, state_ptr = 0, base_ptr = 0\<rparr> :: unit boot"
  have m: "mapped (mem (eng ?b)) (dict (eng ?b)) 0x40000" "mapped (mem (eng ?b)) 16 4"
    by (simp_all add: mapped_def init_fstate_def)
  have l: "linear (dict (eng ?b)) 0x40000" by (simp add: linear_def)
  have a: "apart (dict (eng ?b)) 0x40000 16 4"
    by (subst apart_sym, rule apart_no_wrap) simp_all
  have "35 < length wordnames" "wordnames ! 35 = ''+''" by (simp_all add: wordnames_def)
  then show ?thesis
    using build_dictionary_primitives [where E = bare_env, OF l m a] by (metis of_nat_numeral list.discI)
qed

end
