(* ===== verification/Dict_File.thy ===== *)
theory Dict_File
  imports Bootstrap "HOL-Library.Signed_Division"
begin

text \<open>
  Dictionary files of \<open>kernel/bootstrap.c\<close>. The bootstrap compiler builds the dictionary twice, at two
  addresses; \<open>relocation_table\<close> compares the copies, cell by cell, and turns the cells that differ into
  offsets; \<open>write_dictionary\<close> writes header, cells and table with a checksum; \<open>read_dictionary\<close> hands a file to
  \<open>load_dictionary\<close> of \<open>dict.c\<close>, which adds the new address back. The theorem of this theory is that a
  dictionary comes out of its file as if it had been built where it is loaded.
\<close>

subsection \<open>Definitions\<close>

text \<open>
  The host: its allocator, on the program's memory, and its files, in the outside world. \<open>h_store\<close> is \<open>fopen\<close>
  for writing with \<open>fwrite\<close> and \<open>fclose\<close>, \<open>None\<close> when the file cannot be opened; \<open>h_stat\<close> gives the size, \<open>h_fetch\<close> the
  contents, \<open>None\<close> when \<open>fopen\<close> fails and \<open>Some None\<close> when \<open>fread\<close> does. The option \<open>verbose\<close> is off.
\<close>

record 'w host =
  h_malloc :: "u32 \<Rightarrow> memory \<Rightarrow> (ucell \<times> memory) option"
  h_free :: "ucell \<Rightarrow> memory \<Rightarrow> memory option"
  h_store :: "string \<Rightarrow> u8 list \<Rightarrow> 'w \<Rightarrow> 'w option"
  h_stat :: "string \<Rightarrow> 'w \<Rightarrow> nat option"
  h_fetch :: "string \<Rightarrow> 'w \<Rightarrow> u8 list option option"

record 'w strap =
  bt :: "'w boot"
  relocation_address :: ucell
  relocation_length :: int

abbreviation emem :: "'w strap \<Rightarrow> memory" where "emem s \<equiv> mem (eng (bt s))"

definition set_emem :: "memory \<Rightarrow> 'w strap \<Rightarrow> 'w strap" where
  "set_emem m s = s\<lparr>bt := set_mem m (bt s)\<rparr>"

definition say :: "'w env \<Rightarrow> string \<Rightarrow> u32 list \<Rightarrow> 'w strap \<Rightarrow> 'w strap" where
  "say E txt as s = s\<lparr>bt := (bt s)\<lparr>eng := (eng (bt s))\<lparr>world := printk E txt as (world (eng (bt s)))\<rparr>\<rparr>\<rparr>"

text \<open>A function returns, or the process ends with a status.\<close>

datatype 'a ending = Return 'a | Exit int

fun reloc_scan :: "ucell \<Rightarrow> ucell \<Rightarrow> ucell \<Rightarrow> nat \<Rightarrow> nat \<Rightarrow> memory \<Rightarrow> memory option" where
  "reloc_scan d1 d2 reloc_table i 0 m = Some m"
| "reloc_scan d1 d2 reloc_table i (Suc n) m =
     do { a \<leftarrow> read_ucell m (d1 + of_nat (4 * i));
          b \<leftarrow> read_ucell m (d2 + of_nat (4 * i));
          let pos = reloc_table + of_nat (4 * (i div 32));
          let bit = push_bit (i mod 32) (1 :: ucell);
          r \<leftarrow> read_ucell m pos;
          m \<leftarrow> (if a = b then write_ucell m pos (r AND NOT bit)
                else do { m \<leftarrow> write_ucell m pos (r OR bit); write_ucell m (d2 + of_nat (4 * i)) (b - d2) });
          reloc_scan d1 d2 reloc_table (Suc i) n m }"

definition relocation_table :: "'w host \<Rightarrow> ucell \<Rightarrow> ucell \<Rightarrow> u32 \<Rightarrow> 'w strap \<Rightarrow> 'w strap option" where
  "relocation_table H dict_one dict_two len s =
     do { let l = (len + 3) div 4;
          n \<leftarrow> cint (sint len + 31);
          let rl = n sdiv 32;
          (reloc_table, m) \<leftarrow> h_malloc H (word_of_int rl * 4) (emem s);
          m \<leftarrow> memset m reloc_table 0 (word_of_int rl * 4);
          m \<leftarrow> reloc_scan dict_one dict_two reloc_table 0 (unat l) m;
          Some ((set_emem m s)\<lparr>relocation_length := rl, relocation_address := reloc_table\<rparr>) }"

text \<open>The initialised header; the fields not named are zero.\<close>

definition dict_header :: "ucell \<Rightarrow> ucell \<Rightarrow> u8 list" where
  "dict_header len lst =
     cstr ''OpenBIOS'' @ [2, 4, 255, 0, 255, 0, 0, 0] @ cell_bytes 0 @ cell_bytes len @ cell_bytes lst"

fun bytes_at :: "memory \<Rightarrow> ucell \<Rightarrow> nat \<Rightarrow> u8 list option" where
  "bytes_at m p 0 = Some []"
| "bytes_at m p (Suc n) = do { b \<leftarrow> m p; bs \<leftarrow> bytes_at m (p + 1) n; Some (b # bs) }"

definition fill_dictionary :: "'w host \<Rightarrow> ucell \<Rightarrow> ucell \<Rightarrow> 'w strap \<Rightarrow> 'w strap option" where
  "fill_dictionary H write_data write_len s =
     do { let d = dict (eng (bt s));
          let dh = dicthead (eng (bt s));
          m \<leftarrow> memset (emem s) write_data 0 write_len;
          m \<leftarrow> write_chars m write_data (dict_header dh (last_word (eng (bt s)) - d));
          m \<leftarrow> memcpy m (write_data + 28) d dh;
          (ra, m) \<leftarrow>
            (if relocation_address s \<noteq> 0
             then do { m \<leftarrow> memcpy m (write_data + 28 + dh) (relocation_address s) (word_of_int (relocation_length s) * 4);
                       m \<leftarrow> h_free H (relocation_address s) m;
                       Some (0, m) }
             else do { m \<leftarrow> write_byte m (write_data + 12) 0; Some (0, m) });
          checksum \<leftarrow> checksum_loop m write_data (write_data + write_len) 0;
          m \<leftarrow> write_long m (write_data + 16) (- checksum);
          Some ((set_emem m s)\<lparr>relocation_address := ra\<rparr>) }"

definition write_dictionary :: "'w env \<Rightarrow> 'w host \<Rightarrow> string \<Rightarrow> 'w strap \<Rightarrow> (unit ending \<times> 'w strap) option" where
  "write_dictionary E H filename s =
     do { let write_len = 28 + dicthead (eng (bt s)) + word_of_int (relocation_length s) * 4;
          (write_data, m) \<leftarrow> h_malloc H write_len (emem s);
          let s = set_emem m s;
          if write_data = 0
          then Some (Exit 1, say E (''panic: can't allocate memory for output dictionary (%d bytes'' @ [CHR 0x0A]) [write_len] s)
          else do {
            s \<leftarrow> fill_dictionary H write_data write_len s;
            data \<leftarrow> bytes_at (emem s) write_data (unat write_len);
            case h_store H filename data (world (eng (bt s))) of
              None \<Rightarrow> Some (Exit 1, say E (''panic: can't write to dictionary '' @ [CHR 0x27] @ filename @ [CHR 0x27] @ ''.'' @ [CHR 0x0A]) [] s)
            | Some w \<Rightarrow>
                do { let s = s\<lparr>bt := (bt s)\<lparr>eng := (eng (bt s))\<lparr>world := w\<rparr>\<rparr>\<rparr>;
                     m \<leftarrow> h_free H write_data (emem s);
                     Some (Return (), set_emem m s) } } }"

definition read_dictionary :: "'w env \<Rightarrow> 'w host \<Rightarrow> string \<Rightarrow> 'w strap \<Rightarrow> (ucell ending \<times> 'w strap) option" where
  "read_dictionary E H fil s =
     (case h_stat H fil (world (eng (bt s))) of
        None \<Rightarrow> Some (Return 0, s)
      | Some ilen \<Rightarrow>
          do { (p, m) \<leftarrow> h_malloc H (of_nat ilen) (emem s);
               let s = set_emem m s;
               if p = 0 then Some (Exit 1, say E (''panic: not enough memory.'' @ [CHR 0x0A]) [] s)
               else (case h_fetch H fil (world (eng (bt s))) of
                   None \<Rightarrow> Some (Exit 1, say E (''panic: can't open dictionary.'' @ [CHR 0x0A]) [] s)
                 | Some None \<Rightarrow> Some (Exit 1, say E (''panic: can't read dictionary.'' @ [CHR 0x0A]) [] s)
                 | Some (Some data) \<Rightarrow>
                     do { m \<leftarrow> write_chars (emem s) p (take ilen data);
                          (ret, e) \<leftarrow> load_dictionary E p (of_nat ilen) (eng (bt (set_emem m s)));
                          m \<leftarrow> h_free H p (mem e);
                          Some (Return ret, s\<lparr>bt := (bt s)\<lparr>eng := e\<lparr>mem := m\<rparr>\<rparr>\<rparr>) }) })"

subsection \<open>Memory as cells\<close>

definition cellimg :: "memory \<Rightarrow> ucell \<Rightarrow> nat \<Rightarrow> (nat \<Rightarrow> ucell) \<Rightarrow> bool" where
  "cellimg m a n f \<longleftrightarrow> (\<forall>i < n. read_ucell m (a + of_nat (4 * i)) = Some (f i))"

lemma cellimgD: "cellimg m a n f \<Longrightarrow> i < n \<Longrightarrow> read_ucell m (a + of_nat (4 * i)) = Some (f i)"
  by (simp add: cellimg_def)

lemma cells_apart_offset:
  assumes "i < n" and "j < n" and "i \<noteq> j" and "4 * n \<le> 2 ^ 32"
  shows "apart (a + of_nat (4 * i)) 4 (a + of_nat (4 * j)) 4"
proof -
  have "\<not> in_region (a + of_nat (4 * j)) 4 x" if "in_region (a + of_nat (4 * i)) 4 x" for x
  proof
    assume "in_region (a + of_nat (4 * j)) 4 x"
    then obtain l where l: "l < 4" "x = a + (of_nat (4 * j) + of_nat l)" by (auto simp: in_region_offset add.assoc)
    from that obtain k where k: "k < 4" "x = a + (of_nat (4 * i) + of_nat k)" by (auto simp: in_region_offset add.assoc)
    from l(2) k(2) have "(of_nat (4 * i + k) :: ucell) = of_nat (4 * j + l)" by simp
    moreover have "4 * i + k < 2 ^ 32" "4 * j + l < 2 ^ 32" using l k assms by linarith+
    ultimately have "4 * i + k = 4 * j + l"
      using unat_of_nat_small [where 'a = 32, of "4 * i + k"] unat_of_nat_small [where 'a = 32, of "4 * j + l"] by simp
    then show False using l(1) k(1) assms(3) by presburger
  qed
  then show ?thesis by (simp add: apart_def)
qed

definition only_in :: "ucell \<Rightarrow> nat \<Rightarrow> memory \<Rightarrow> memory \<Rightarrow> bool" where
  "only_in a n m m' \<longleftrightarrow> (\<forall>x. (m' x = None) = (m x = None)) \<and> (\<forall>x. \<not> in_region a n x \<longrightarrow> m' x = m x)"

lemma only_in_trans: "only_in a n m m' \<Longrightarrow> only_in a n m' m'' \<Longrightarrow> only_in a n m m''"
  by (simp add: only_in_def)

lemma only_in_mapped: "only_in a n m m' \<Longrightarrow> mapped m' b k = mapped m b k"
  by (simp add: only_in_def mapped_def)

lemma cell_region:
  assumes "in_region (a + of_nat (4 * k)) 4 x" and "k < n" and "4 * n \<le> 2 ^ 32"
  shows "in_region a (4 * n) x"
proof -
  from assms(1) obtain j where j: "j < 4" "x = a + of_nat (4 * k) + of_nat j" by (auto simp: in_region_offset)
  then have "x = a + of_nat (4 * k + j)" by (simp add: add.assoc)
  moreover have "4 * k + j < 4 * n" using j(1) assms(2) by simp
  ultimately show ?thesis using in_region_offset [OF assms(3)] by blast
qed

lemma cellimg_write:
  assumes "cellimg m a n f" and "k < n" and "4 * n \<le> 2 ^ 32"
  shows "\<exists>m'. write_ucell m (a + of_nat (4 * k)) v = Some m' \<and> cellimg m' a n (f(k := v)) \<and> only_in a (4 * n) m m'"
proof -
  have "read_ucell m (a + of_nat (4 * k)) \<noteq> None" using cellimgD [OF assms(1,2)] by simp
  then have "write_ucell m (a + of_nat (4 * k)) v \<noteq> None" by (simp only: ucell_acc.wr_succeeds ucell_acc.rd_succeeds)
  then obtain m' where m': "write_ucell m (a + of_nat (4 * k)) v = Some m'" by blast
  have "read_ucell m' (a + of_nat (4 * i)) = Some ((f(k := v)) i)" if "i < n" for i
    using ucell_acc.rd_wr_apart [OF m' cells_apart_offset [OF assms(2) that _ assms(3)]] ucell_acc.rd_wr_same [OF m'] cellimgD [OF assms(1) that]
    by (cases "i = k") auto
  moreover have "only_in a (4 * n) m m'"
    using ucell_acc.wr_frame [OF m'] ucell_acc.wr_dom [OF m'] cell_region [OF _ assms(2,3)] by (auto simp: only_in_def)
  ultimately show ?thesis using m' by (auto simp: cellimg_def)
qed

lemma cellimg_same:
  assumes "cellimg m a n f" and "4 * n \<le> 2 ^ 32" and "\<And>x. in_region a (4 * n) x \<Longrightarrow> m' x = m x"
  shows "cellimg m' a n f"
proof -
  have "read_ucell m' (a + of_nat (4 * i)) = read_ucell m (a + of_nat (4 * i))" if "i < n" for i
    by (rule ucell_acc.rd_local, rule assms(3)) (rule cell_region [OF _ that assms(2)])
  then show ?thesis using assms(1) by (simp add: cellimg_def)
qed

lemma cellimg_frame:
  assumes "only_in b k m m'" and "apart b k a (4 * n)" and "4 * n \<le> 2 ^ 32" and "cellimg m a n f"
  shows "cellimg m' a n f"
  by (rule cellimg_same [OF assms(4,3)]) (use assms(1,2) in \<open>auto simp: only_in_def apart_def\<close>)

lemma cellimg_cong: "cellimg m a n f \<Longrightarrow> (\<And>i. i < n \<Longrightarrow> f i = g i) \<Longrightarrow> cellimg m a n g"
  by (simp add: cellimg_def)

lemma cellimg_mapped:
  assumes "cellimg m a n f" and "4 * n \<le> 2 ^ 32"
  shows "mapped m a (4 * n)"
  unfolding mapped_def
proof (intro allI impI)
  fix i assume "i < 4 * n"
  then have k: "i div 4 < n" by simp
  have "mapped m (a + of_nat (4 * (i div 4))) 4" using cellimgD [OF assms(1) k] by (rule read_mapped)
  then have "m (a + of_nat (4 * (i div 4)) + of_nat (i mod 4)) \<noteq> None" by (simp add: mapped_def)
  moreover have "of_nat (4 * (i div 4)) + of_nat (i mod 4) = (of_nat i :: ucell)" by (simp only: of_nat_add [symmetric] mult_div_mod_eq)
  ultimately show "m (a + of_nat i) \<noteq> None" by (simp only: add.assoc not_False_eq_True)
qed

subsection \<open>The relocation table\<close>

definition marks :: "nat \<Rightarrow> (nat \<Rightarrow> ucell) \<Rightarrow> (nat \<Rightarrow> bool) \<Rightarrow> bool" where
  "marks n tab P \<longleftrightarrow> (\<forall>k < n. bit (tab (k div 32)) (k mod 32) = P k)"

lemma set_mark:
  fixes r :: ucell
  assumes "b < 32" and "c < 32"
  shows "bit (r OR push_bit c 1) b \<longleftrightarrow> bit r b \<or> b = c" "bit (r AND NOT (push_bit c 1)) b \<longleftrightarrow> bit r b \<and> b \<noteq> c"
  using assms by (auto simp: bit_simps)

lemma marks_set:
  assumes "marks n tab P" and "\<And>b. b < 32 \<Longrightarrow> bit r b = (if b = i mod 32 then v else bit (tab (i div 32)) b)"
  shows "marks n (tab(i div 32 := r)) (P(i := v))"
  unfolding marks_def
proof (intro allI impI)
  fix k assume k: "k < n"
  have "k = i \<longleftrightarrow> k div 32 = i div 32 \<and> k mod 32 = i mod 32" by (metis div_mult_mod_eq)
  then show "bit ((tab(i div 32 := r)) (k div 32)) (k mod 32) = (P(i := v)) k"
    using assms(1) k assms(2) [of "k mod 32"] by (auto simp: marks_def)
qed

lemma reloc_scan_ok:
  assumes sz: "4 * N \<le> 2 ^ 32" "4 * R \<le> 2 ^ 32" "N \<le> 32 * R"
    and ap: "apart d1 (4 * N) d2 (4 * N)" "apart d1 (4 * N) rt (4 * R)" "apart d2 (4 * N) rt (4 * R)"
  shows "i + n = N \<Longrightarrow> cellimg m d1 N f \<Longrightarrow> cellimg m d2 N g \<Longrightarrow> cellimg m rt R tab \<Longrightarrow> marks N tab P \<Longrightarrow>
    \<exists>m' tab'. reloc_scan d1 d2 rt i n m = Some m' \<and> cellimg m' d1 N f \<and>
      cellimg m' d2 N (\<lambda>k. if i \<le> k \<and> f k \<noteq> g k then g k - d2 else g k) \<and>
      cellimg m' rt R tab' \<and> marks N tab' (\<lambda>k. if i \<le> k then f k \<noteq> g k else P k) \<and>
      (\<forall>x. \<not> in_region d2 (4 * N) x \<and> \<not> in_region rt (4 * R) x \<longrightarrow> m' x = m x) \<and> (\<forall>x. (m' x = None) = (m x = None))"
proof (induction n arbitrary: i m g tab P)
  case 0
  moreover have "cellimg m d2 N (\<lambda>k. if i \<le> k \<and> f k \<noteq> g k then g k - d2 else g k)" by (rule cellimg_cong [OF "0.prems"(3)]) (use "0.prems"(1) in auto)
  moreover have "marks N tab (\<lambda>k. if i \<le> k then f k \<noteq> g k else P k)" using "0.prems"(1,5) by (simp add: marks_def)
  ultimately show ?case by (intro exI [of _ m] exI [of _ tab]) simp
next
  case (Suc n)
  let ?p = "i div 32" and ?bit = "push_bit (i mod 32) (1 :: ucell)"
  have i: "i < N" using Suc.prems(1) by simp
  have p: "?p < R" using i sz(3) by (simp add: less_mult_imp_div_less mult.commute)
  let ?r = "if f i = g i then tab ?p AND NOT ?bit else tab ?p OR ?bit"
  let ?tab = "tab(?p := ?r)" and ?P = "P(i := f i \<noteq> g i)" and ?g = "g(i := if f i = g i then g i else g i - d2)"
  from cellimg_write [OF Suc.prems(4) p sz(2), of ?r] obtain m1 where
    m1: "write_ucell m (rt + of_nat (4 * ?p)) ?r = Some m1" "cellimg m1 rt R ?tab" "only_in rt (4 * R) m m1" by blast
  have m1i: "cellimg m1 d1 N f" "cellimg m1 d2 N g"
    using cellimg_frame [OF m1(3) _ sz(1)] ap Suc.prems(2,3) by (auto simp: apart_sym)
  from cellimg_write [OF m1i(2) i sz(1), of "g i - d2"] obtain m2 where
    m2: "write_ucell m1 (d2 + of_nat (4 * i)) (g i - d2) = Some m2" "cellimg m2 d2 N (g(i := g i - d2))" "only_in d2 (4 * N) m1 m2" by blast
  define m3 where "m3 = (if f i = g i then m1 else m2)"
  have m3: "cellimg m3 d1 N f" "cellimg m3 d2 N ?g" "cellimg m3 rt R ?tab"
    using m1i m1(2) m2(2) cellimg_frame [OF m2(3) _ sz(1) m1i(1)] cellimg_frame [OF m2(3) _ sz(2) m1(2)] ap by (auto simp: m3_def apart_sym)
  have "bit ?r b = (if b = i mod 32 then f i \<noteq> g i else bit (tab ?p) b)" if "b < 32" for b
    using set_mark [OF that, of "i mod 32" "tab ?p"] by (cases "f i = g i") simp_all
  then have mk: "marks N ?tab ?P" by (rule marks_set [OF Suc.prems(5)])
  have step: "reloc_scan d1 d2 rt i (Suc n) m = reloc_scan d1 d2 rt (Suc i) n m3"
    using cellimgD [OF Suc.prems(2) i] cellimgD [OF Suc.prems(3) i] cellimgD [OF Suc.prems(4) p] m1(1) m2(1)
    by (auto simp: m3_def Let_def simp del: of_nat_mult)
  have "Suc i + n = N" using Suc.prems(1) by simp
  from Suc.IH [OF this m3 mk] obtain m' tab' where
    m': "reloc_scan d1 d2 rt (Suc i) n m3 = Some m'" "cellimg m' d1 N f" "cellimg m' d2 N (\<lambda>k. if Suc i \<le> k \<and> f k \<noteq> ?g k then ?g k - d2 else ?g k)"
      "cellimg m' rt R tab'" "marks N tab' (\<lambda>k. if Suc i \<le> k then f k \<noteq> ?g k else ?P k)"
      "\<And>x. \<not> in_region d2 (4 * N) x \<Longrightarrow> \<not> in_region rt (4 * R) x \<Longrightarrow> m' x = m3 x" "\<And>x. (m' x = None) = (m3 x = None)" by blast
  have "cellimg m' d2 N (\<lambda>k. if i \<le> k \<and> f k \<noteq> g k then g k - d2 else g k)" by (rule cellimg_cong [OF m'(3)]) (auto simp: Suc_le_eq)
  moreover have "marks N tab' (\<lambda>k. if i \<le> k then f k \<noteq> g k else P k)" using m'(5) by (auto simp: marks_def Suc_le_eq)
  moreover have "m3 x = m x" if "\<not> in_region d2 (4 * N) x" "\<not> in_region rt (4 * R) x" for x
    using m1(3) m2(3) that by (simp add: m3_def only_in_def)
  moreover have "(m3 x = None) = (m x = None)" for x using m1(3) m2(3) by (simp add: m3_def only_in_def)
  ultimately show ?case using step m' by (intro exI [of _ m'] exI [of _ tab']) simp
qed


subsection \<open>Checksum and loading\<close>

lemma checksum_loop_sum:
  assumes "unat a + 4 * n < 2 ^ 32"
  shows "i + k = n \<Longrightarrow> cellimg m a n f \<Longrightarrow>
    checksum_loop m (a + of_nat (4 * i)) (a + of_nat (4 * n)) c = Some (c + (\<Sum>j \<in> {i ..< n}. f j))"
proof (induction k arbitrary: i c)
  case 0
  then show ?case by (subst checksum_loop.simps) simp
next
  case (Suc k)
  have i: "i < n" using Suc.prems(1) by simp
  have u: "unat (a + of_nat (4 * j)) = unat a + 4 * j" if "j \<le> n" for j
  proof -
    have "4 * j < 2 ^ 32" "unat a + 4 * j < 2 ^ 32" using that assms by linarith+
    then show ?thesis using unat_of_nat_small [where 'a = 32, of "4 * j"] unat_add_no_wrap [of a "of_nat (4 * j)"] by simp
  qed
  have "a + of_nat (4 * i) < a + of_nat (4 * n)" using u [of i] u [of n] i by (simp add: word_less_nat_alt)
  moreover have "read_long m (a + of_nat (4 * i)) = Some (f i)" using cellimgD [OF Suc.prems(2) i] by (simp add: read_ucell_def)
  moreover have "a + (of_nat (4 * i) + 4) = a + of_nat (4 * Suc i)" by simp
  moreover have "(\<Sum>j \<in> {i ..< n}. f j) = f i + (\<Sum>j \<in> {Suc i ..< n}. f j)" using i by (simp add: sum.atLeast_Suc_lessThan)
  moreover have "Suc i + k = n" using Suc.prems(1) by simp
  ultimately show ?case using Suc.IH [of "Suc i" "c + f i"] Suc.prems(2)
    by (subst checksum_loop.simps) (simp add: add.assoc del: of_nat_mult mult_Suc_right)
qed

lemma reloc_loop_ok:
  assumes sz: "unat d + 4 * N < 2 ^ 32" "4 * R \<le> 2 ^ 32" "N \<le> 32 * R" and ap: "apart d (4 * N) rt (4 * R)"
  shows "i + k = N \<Longrightarrow> cellimg m d N g \<Longrightarrow> cellimg m rt R tab \<Longrightarrow> marks N tab P \<Longrightarrow>
    \<exists>m'. reloc_loop d rt (d + of_nat (4 * N)) (d + of_nat (4 * i)) m = Some m' \<and>
      cellimg m' d N (\<lambda>j. if i \<le> j \<and> P j then g j + d else g j) \<and> only_in d (4 * N) m m'"
proof (induction k arbitrary: i m g)
  case 0
  then have "cellimg m d N (\<lambda>j. if i \<le> j \<and> P j then g j + d else g j)" by (auto intro: cellimg_cong [OF "0.prems"(2)])
  then show ?case using "0.prems"(1) by (subst reloc_loop.simps) (simp add: only_in_def)
next
  case (Suc k)
  have i: "i < N" "4 * N \<le> 2 ^ 32" "4 * i < 2 ^ 32" using Suc.prems(1) sz(1) by auto
  have p: "i div 32 < R" using i(1) sz(3) by (simp add: less_mult_imp_div_less mult.commute)
  have u: "unat (of_nat (4 * j) :: ucell) = 4 * j" "unat (d + of_nat (4 * j)) = unat d + 4 * j" if "j \<le> N" for j
  proof -
    have j: "4 * j < 2 ^ 32" "unat d + 4 * j < 2 ^ 32" using that sz(1) by linarith+
    then show "unat (of_nat (4 * j) :: ucell) = 4 * j" using unat_of_nat_small [where 'a = 32, of "4 * j"] by simp
    then show "unat (d + of_nat (4 * j)) = unat d + 4 * j" using j unat_add_no_wrap [of d "of_nat (4 * j)"] by simp
  qed
  have lt: "d + of_nat (4 * i) < d + of_nat (4 * N)" using u(2) [of i] u(2) [of N] i by (simp add: word_less_nat_alt)
  have l: "(d + of_nat (4 * i) - d) div 4 = (of_nat i :: ucell)" using u(1) [of i] i by (simp add: word_arith_nat_div)
  have ui: "unat (of_nat i :: ucell) = i" using i(3) by (intro unat_of_nat_small) simp
  have pos: "of_nat i div 32 * 4 = (of_nat (4 * (i div 32)) :: ucell)" using ui by (simp add: word_arith_nat_div)
  have "(of_nat i :: ucell) AND 31 = take_bit 5 (of_nat i)" by (simp add: take_bit_eq_mask mask_eq_exp_minus_1)
  then have b: "unat ((of_nat i :: ucell) AND 31) = i mod 32"
    by (simp only: unsigned_take_bit_eq ui) (simp add: take_bit_eq_mod)
  have bit: "tab (i div 32) AND push_bit (i mod 32) 1 \<noteq> 0 \<longleftrightarrow> P i"
    using Suc.prems(4) i(1) by (simp add: marks_def and_exp_eq_0_iff_not_bit)
  let ?g = "if P i then g(i := g i + d) else g"
  obtain m1 where m1: "(if P i then write_ucell m (d + of_nat (4 * i)) (g i + d) else Some m) = Some m1" "cellimg m1 d N ?g"
    "only_in d (4 * N) m m1"
    using cellimg_write [OF Suc.prems(2) i(1,2), of "g i + d"] Suc.prems(2) by (cases "P i") (auto simp: only_in_def)
  have rt1: "cellimg m1 rt R tab" using cellimg_frame [OF m1(3) ap sz(2) Suc.prems(3)] .
  have "Suc i + k = N" using Suc.prems(1) by simp
  from Suc.IH [OF this m1(2) rt1 Suc.prems(4)] obtain m' where
    m': "reloc_loop d rt (d + of_nat (4 * N)) (d + of_nat (4 * Suc i)) m1 = Some m'"
      "cellimg m' d N (\<lambda>j. if Suc i \<le> j \<and> P j then ?g j + d else ?g j)" "only_in d (4 * N) m1 m'" by blast
  have rd: "read_ucell m (rt + (of_nat i div 32) * 4) = Some (tab (i div 32))" "read_ucell m (d + of_nat (4 * i)) = Some (g i)"
    using cellimgD [OF Suc.prems(3) p] cellimgD [OF Suc.prems(2) i(1)] by (simp_all only: pos)
  have nx: "d + of_nat (4 * i) + 4 = d + of_nat (4 * Suc i)" by (simp add: add_ac)
  have "reloc_loop d rt (d + of_nat (4 * N)) (d + of_nat (4 * i)) m = Some m'"
    using m1(1) m'(1) by (subst reloc_loop.simps) (simp only: lt l if_True Let_def rd(1) b bit Option.bind_lunit rd(2) nx)
  moreover have "cellimg m' d N (\<lambda>j. if i \<le> j \<and> P j then g j + d else g j)"
    by (rule cellimg_cong [OF m'(2)]) (auto simp: Suc_le_eq)
  ultimately show ?case using only_in_trans [OF m1(3) m'(3)] by blast
qed


subsection \<open>The file\<close>

lemma apart_inner:
  assumes "i + a \<le> j" and "j + b \<le> n" and "n \<le> 2 ^ 32"
  shows "apart (p + of_nat i) a (p + of_nat j) b"
proof -
  have "\<not> in_region (p + of_nat j) b x" if "in_region (p + of_nat i) a x" for x
  proof
    assume "in_region (p + of_nat j) b x"
    then obtain l where l: "l < b" "x = p + of_nat (j + l)" using assms by (auto simp: in_region_offset add.assoc)
    from that obtain k where k: "k < a" "x = p + of_nat (i + k)" using assms by (auto simp: in_region_offset add.assoc)
    have "i + k < 2 ^ 32" "j + l < 2 ^ 32" using l k assms by linarith+
    moreover have "(of_nat (i + k) :: ucell) = of_nat (j + l)" using l(2) k(2) by (simp del: of_nat_add)
    ultimately have "i + k = j + l"
      using unat_of_nat_small [where 'a = 32, of "i + k"] unat_of_nat_small [where 'a = 32, of "j + l"] by simp
    then show False using l(1) k(1) assms(1) by simp
  qed
  then show ?thesis by (simp add: apart_def)
qed

lemma region_sub:
  assumes "in_region (p + of_nat i) j x" and "i + j \<le> n" and "n \<le> 2 ^ 32"
  shows "in_region p n x"
proof -
  from assms obtain k where "k < j" "x = p + of_nat (i + k)" by (auto simp: in_region_offset add.assoc)
  then show ?thesis using in_region_offset [OF assms(3), of p x] assms(2) by (auto intro!: exI [of _ "i + k"])
qed

lemma copied_only_in:
  assumes "copied m d s n m'" and "n \<le> 2 ^ 32" and "mapped m s n" and "mapped m d n"
  shows "only_in d n m m'"
proof -
  have "(m' x = None) = (m x = None)" for x
  proof (cases "in_region d n x")
    case True
    then have "in_region s n (s + (x - d))" by (simp add: in_region_def)
    then have "m (s + (x - d)) \<noteq> None" "m x \<noteq> None" using True assms(2-4) by (simp_all add: mapped_iff)
    then show ?thesis using True assms(1) by (auto simp: copied_def)
  qed (use assms in \<open>simp add: copied_def\<close>)
  then show ?thesis using assms(1) by (simp add: only_in_def copied_def)
qed

lemma copied_cells:
  assumes "copied m d s (4 * n) m'" and "4 * n \<le> 2 ^ 32" and "cellimg m s n f"
  shows "cellimg m' d n f"
proof -
  have b: "m' (d + of_nat j) = m (s + of_nat j)" if "j < 4 * n" for j
    using assms(1,2) that by (simp add: copied_def in_region_def unat_of_nat_small)
  have "read_ucell m' (d + of_nat (4 * i)) = read_ucell m (s + of_nat (4 * i))" if "i < n" for i
    using b [of "4 * i"] b [of "4 * i + 1"] b [of "4 * i + 2"] b [of "4 * i + 3"] that
    by (simp add: read_ucell_def read_long_def add_ac)
  then show ?thesis using assms(3) by (simp add: cellimg_def)
qed

lemma cellimg_append:
  assumes "cellimg m p a f" and "cellimg m (p + of_nat (4 * a)) b g"
  shows "cellimg m p (a + b) (\<lambda>i. if i < a then f i else g (i - a))"
  unfolding cellimg_def
proof (intro allI impI)
  fix i assume i: "i < a + b"
  show "read_ucell m (p + of_nat (4 * i)) = Some (if i < a then f i else g (i - a))"
  proof (cases "i < a")
    case True
    then show ?thesis using cellimgD [OF assms(1)] by simp
  next
    case False
    have "p + of_nat (4 * a) + of_nat (4 * (i - a)) = p + of_nat (4 * i)" using False by (simp flip: of_nat_add add: add.assoc)
    then show ?thesis using cellimgD [OF assms(2), of "i - a"] False i by simp
  qed
qed

lemma mapped_cells: "mapped m p (4 * n) \<Longrightarrow> 4 * n \<le> 2 ^ 32 \<Longrightarrow> cellimg m p n (\<lambda>i. the (read_ucell m (p + of_nat (4 * i))))"
proof -
  assume a: "mapped m p (4 * n)" "4 * n \<le> 2 ^ 32"
  have "read_ucell m (p + of_nat (4 * i)) \<noteq> None" if "i < n" for i
    unfolding ucell_acc.rd_succeeds using a cell_region [OF _ that a(2)] by (auto simp: mapped_iff)
  then show ?thesis by (auto simp: cellimg_def)
qed

lemma put_cells_only_in: "length bs \<le> 2 ^ 32 \<Longrightarrow> mapped m a (length bs) \<Longrightarrow> only_in a (length bs) m (put m a bs)"
  by (auto simp: only_in_def put_value mapped_iff)

lemma header_length [simp]: "length (dict_header len lst) = 28"
  by (simp add: dict_header_def cstr_def)

lemma header_fields:
  assumes "mapped m p 28" and "m1 = put m p (dict_header len lst)"
  shows "\<And>i. i < 8 \<Longrightarrow> m1 (p + of_nat i) = Some (cstr ''OpenBIOS'' ! i)"
    and "read_ucell m1 (p + 16) = Some 0" "read_ucell m1 (p + 20) = Some len" "read_ucell m1 (p + 24) = Some lst"
proof -
  have g: "m1 (p + of_nat i) = Some (dict_header len lst ! i)" if "i < 28" for i
    using put_get [of "dict_header len lst" i m p] that by (simp add: assms(2))
  show "m1 (p + of_nat i) = Some (cstr ''OpenBIOS'' ! i)" if "i < 8" for i
    using g [of i] that by (simp add: dict_header_def nth_append)
  show "read_ucell m1 (p + 16) = Some 0" "read_ucell m1 (p + 20) = Some len" "read_ucell m1 (p + 24) = Some lst"
    using g [of 16] g [of 17] g [of 18] g [of 19] g [of 20] g [of 21] g [of 22] g [of 23] g [of 24] g [of 25] g [of 26] g [of 27]
    by (simp_all add: read_ucell_def read_long_def dict_header_def cstr_def cell_bytes_def add.assoc)
qed


text \<open>The contract of the host's allocator: block \<open>p\<close> serves a request of \<open>n\<close> bytes; no other byte changes.\<close>

definition serves :: "'w host \<Rightarrow> nat \<Rightarrow> ucell \<Rightarrow> bool" where
  "serves H n p \<longleftrightarrow> p \<noteq> 0 \<and> unat p + n < 2 ^ 32 \<and>
     (\<forall>m. mapped m p n \<longrightarrow> (\<exists>m'. h_malloc H (of_nat n) m = Some (p, m') \<and> only_in p n m m')) \<and>
     (\<forall>m. mapped m p n \<longrightarrow> (\<exists>m'. h_free H p m = Some m' \<and> only_in p n m m'))"

text \<open>A file in memory: the signature and cells that sum to zero, of known length, last word, contents and relocation table.\<close>

definition dict_file :: "memory \<Rightarrow> ucell \<Rightarrow> nat \<Rightarrow> nat \<Rightarrow> ucell \<Rightarrow> (nat \<Rightarrow> ucell) \<Rightarrow> (nat \<Rightarrow> ucell) \<Rightarrow> bool" where
  "dict_file m p N R lst g tab \<longleftrightarrow>
     (\<forall>i < 8. m (p + of_nat i) = Some (cstr ''OpenBIOS'' ! i)) \<and>
     (\<exists>F. cellimg m p (7 + N + R) F \<and> (\<Sum>j < 7 + N + R. F j) = 0 \<and> F 5 = of_nat (4 * N) \<and> F 6 = lst \<and>
        (\<forall>i < N. F (7 + i) = g i) \<and> (\<forall>j < R. F (7 + N + j) = tab j))"

lemma sum_fix:
  fixes F :: "nat \<Rightarrow> ucell"
  assumes "k < n" and "F k = 0"
  shows "(\<Sum>j < n. (F(k := - (\<Sum>j < n. F j))) j) = 0"
proof -
  have "(\<Sum>j < n. (F(k := c)) j) = c + (\<Sum>j \<in> {..< n} - {k}. F j)" for c
    using assms(1) by (simp add: sum.remove [of "{..< n}" k])
  moreover have "(\<Sum>j < n. F j) = F k + (\<Sum>j \<in> {..< n} - {k}. F j)"
    using assms(1) by (simp add: sum.remove [of "{..< n}" k])
  ultimately show ?thesis using assms(2) by simp
qed

lemma fill_layout:
  assumes sz: "unat p + 4 * (7 + N + R) < 2 ^ 32"
    and mp: "mapped m p (4 * (7 + N + R))" and d: "cellimg m d N g" and ra: "cellimg m ra R tab"
    and ap: "apart p (4 * (7 + N + R)) d (4 * N)" "apart p (4 * (7 + N + R)) ra (4 * R)" "apart d (4 * N) ra (4 * R)"
    and sv: "serves H (4 * R) ra"
  shows "\<exists>m1 m2 m3 m4 F. write_chars m p (dict_header (of_nat (4 * N)) lst) = Some m1 \<and>
     memcpy m1 (p + 28) d (of_nat (4 * N)) = Some m2 \<and> memcpy m2 (p + 28 + of_nat (4 * N)) ra (of_nat (4 * R)) = Some m3 \<and>
     h_free H ra m3 = Some m4 \<and> cellimg m4 p (7 + N + R) F \<and> F 4 = 0 \<and> F 5 = of_nat (4 * N) \<and> F 6 = lst \<and>
     (\<forall>i < N. F (7 + i) = g i) \<and> (\<forall>j < R. F (7 + N + j) = tab j) \<and> (\<forall>i < 8. m4 (p + of_nat i) = Some (cstr ''OpenBIOS'' ! i)) \<and>
     (\<forall>x. \<not> in_region p (4 * (7 + N + R)) x \<and> \<not> in_region ra (4 * R) x \<longrightarrow> m4 x = m x) \<and> (\<forall>x. (m4 x = None) = (m x = None))"
proof -
  let ?K = "7 + N + R"
  let ?pd = "p + of_nat 28" and ?pr = "p + of_nat (28 + 4 * N)"
  have le: "4 * ?K \<le> 2 ^ 32" "4 * N < 2 ^ 32" "4 * R < 2 ^ 32" using sz by auto
  have mpd: "mapped m p 28" "mapped m ?pd (4 * N)" "mapped m ?pr (4 * R)"
    using mapped_sub [OF mp, of 0 28] mapped_sub [OF mp, of 28 "4 * N"] mapped_sub [OF mp, of "28 + 4 * N" "4 * R"] by simp_all
  have in1: "apart p 28 ?pd (4 * N)" "apart p 28 ?pr (4 * R)" "apart ?pd (4 * N) ?pr (4 * R)"
    using apart_inner [OF _ _ le(1), of 0 28 28 "4 * N" p] apart_inner [OF _ _ le(1), of 0 28 "28 + 4 * N" "4 * R" p]
      apart_inner [OF _ _ le(1), of 28 "4 * N" "28 + 4 * N" "4 * R" p] by simp_all
  have out: "apart p 28 b k" "apart ?pd (4 * N) b k" "apart ?pr (4 * R) b k" if "apart p (4 * ?K) b k" for b k
    using apart_sub [OF that, of 0 28] apart_sub [OF that, of 28 "4 * N"] apart_sub [OF that, of "28 + 4 * N" "4 * R"] le by simp_all
  let ?h = "dict_header (of_nat (4 * N)) lst"
  define m1 where "m1 = put m p ?h"
  have w1: "write_chars m p ?h = Some m1" using write_chars_put [of m p ?h] mpd(1) by (simp add: m1_def)
  have o1: "only_in p 28 m m1" using put_cells_only_in [of ?h m p] mpd(1) by (simp add: m1_def)
  note hf = header_fields [OF mpd(1) m1_def]
  have d1: "cellimg m1 d N g" "cellimg m1 ra R tab"
    using cellimg_frame [OF o1 out(1) [OF ap(1)] _ d] cellimg_frame [OF o1 out(1) [OF ap(2)] _ ra] le by simp_all
  from memcpy_apart [OF le(2), of m1 ?pd d] obtain m2 where w2: "memcpy m1 ?pd d (of_nat (4 * N)) = Some m2" "copied m1 ?pd d (4 * N) m2"
    using cellimg_mapped [OF d1(1)] only_in_mapped [OF o1] mpd(2) out(2) [OF ap(1)] le by auto
  have o2: "only_in ?pd (4 * N) m1 m2"
    using copied_only_in [OF w2(2)] cellimg_mapped [OF d1(1)] only_in_mapped [OF o1] mpd(2) le by simp
  have d2: "cellimg m2 ?pd N g" "cellimg m2 ra R tab"
    using copied_cells [OF w2(2) _ d1(1)] cellimg_frame [OF o2 out(2) [OF ap(2)] _ d1(2)] le by simp_all
  from memcpy_apart [OF le(3), of m2 ?pr ra] obtain m3 where w3: "memcpy m2 ?pr ra (of_nat (4 * R)) = Some m3" "copied m2 ?pr ra (4 * R) m3"
    using cellimg_mapped [OF d2(2)] only_in_mapped [OF o1] only_in_mapped [OF o2] mpd(3) out(3) [OF ap(2)] le by auto
  have o3: "only_in ?pr (4 * R) m2 m3"
    using copied_only_in [OF w3(2)] cellimg_mapped [OF d2(2)] only_in_mapped [OF o1] only_in_mapped [OF o2] mpd(3) le by simp
  have d3: "cellimg m3 ?pd N g" "cellimg m3 ?pr R tab"
    using copied_cells [OF w3(2) _ d2(2)] cellimg_frame [OF o3 _ _ d2(1)] in1(3) le by (simp_all add: apart_sym)
  have "mapped m3 ra (4 * R)" using cellimg_mapped [OF d2(2)] only_in_mapped [OF o3] le by simp
  with sv obtain m4 where w4: "h_free H ra m3 = Some m4" "only_in ra (4 * R) m3 m4" unfolding serves_def by blast
  have d4: "cellimg m4 ?pd N g" "cellimg m4 ?pr R tab"
    using cellimg_frame [OF w4(2) _ _ d3(1)] cellimg_frame [OF w4(2) _ _ d3(2)] out(2,3) [OF ap(2)] le by (simp_all add: apart_sym)
  have dom: "(m4 x = None) = (m x = None)" for x using o1 o2 o3 w4(2) by (simp add: only_in_def)
  have hd: "m4 x = m1 x" if "in_region p 28 x" for x
  proof -
    have "\<not> in_region ?pd (4 * N) x" "\<not> in_region ?pr (4 * R) x" "\<not> in_region ra (4 * R) x"
      using that in1(1,2) out(1) [OF ap(2)] by (simp_all add: apart_def)
    then show ?thesis using o2 o3 w4(2) by (simp add: only_in_def)
  qed
  define h where "h i = the (read_ucell m4 (p + of_nat (4 * i)))" for i
  have h7: "cellimg m4 p 7 h" unfolding h_def by (rule mapped_cells) (use mpd(1) dom in \<open>simp_all add: mapped_def\<close>)
  have rd4: "read_ucell m4 (p + of_nat (4 * i)) = read_ucell m1 (p + of_nat (4 * i))" if "i < 7" for i
    by (rule ucell_acc.rd_local, rule hd) (use cell_region [of p i _ 7] that in simp)
  have h456: "h 4 = 0" "h 5 = of_nat (4 * N)" "h 6 = lst" using rd4 [of 4] rd4 [of 5] rd4 [of 6] hf(2-4) by (simp_all add: h_def)
  have c1: "cellimg m4 p (7 + N) (\<lambda>i. if i < 7 then h i else g (i - 7))" using cellimg_append [OF h7, of N g] d4(1) by simp
  let ?F = "\<lambda>i. if i < 7 + N then (if i < 7 then h i else g (i - 7)) else tab (i - (7 + N))"
  have F: "cellimg m4 p ?K ?F" using cellimg_append [OF c1, of R tab] d4(2) by (simp add: add_ac)
  have sg: "m4 (p + of_nat i) = Some (cstr ''OpenBIOS'' ! i)" if "i < 8" for i
    using hf(1) [OF that] hd [of "p + of_nat i"] that by (simp add: in_region_def unat_of_nat_small)
  have fr: "m4 x = m x" if "\<not> in_region p (4 * ?K) x" "\<not> in_region ra (4 * R) x" for x
  proof -
    have "\<not> in_region p 28 x" "\<not> in_region ?pd (4 * N) x" "\<not> in_region ?pr (4 * R) x"
      using that(1) region_sub [of p 0 28 x, OF _ _ le(1)] region_sub [OF _ _ le(1), of p 28 "4 * N" x]
        region_sub [OF _ _ le(1), of p "28 + 4 * N" "4 * R" x] by auto
    then show ?thesis using that(2) o1 o2 o3 w4(2) by (simp add: only_in_def)
  qed
  show ?thesis
    using w1 w2(1) w3(1) w4(1) F h456 sg fr dom
    by (intro exI [of _ m1] exI [of _ m2] exI [of _ m3] exI [of _ m4] exI [of _ ?F]) (simp add: add.assoc)
qed


lemma fill_ok:
  assumes e: "dict (eng (bt s)) = d" "dicthead (eng (bt s)) = of_nat (4 * N)" "relocation_address s = ra" "relocation_length s = int R"
    and sz: "unat p + 4 * (7 + N + R) < 2 ^ 32"
    and mp: "mapped (emem s) p (4 * (7 + N + R))" and d: "cellimg (emem s) d N g" and ra: "cellimg (emem s) ra R tab"
    and ap: "apart p (4 * (7 + N + R)) d (4 * N)" "apart p (4 * (7 + N + R)) ra (4 * R)" "apart d (4 * N) ra (4 * R)"
    and sv: "serves H (4 * R) ra"
  shows "\<exists>m'. fill_dictionary H p (of_nat (4 * (7 + N + R))) s = Some ((set_emem m' s)\<lparr>relocation_address := 0\<rparr>) \<and>
     dict_file m' p N R (last_word (eng (bt s)) - d) g tab \<and> mapped m' p (4 * (7 + N + R))"
proof -
  let ?K = "7 + N + R" and ?lst = "last_word (eng (bt s)) - d"
  have le: "4 * ?K \<le> 2 ^ 32" "4 * N \<le> 2 ^ 32" "4 * R \<le> 2 ^ 32" using sz by auto
  have K: "unat (of_nat (4 * ?K) :: ucell) = 4 * ?K" using sz by (intro unat_of_nat_small) simp
  from memset_loop_correct [OF le(1) mp, of 0] obtain m0 where
    m0: "memset (emem s) p 0 (of_nat (4 * ?K)) = Some m0" "\<And>x. m0 x = (if in_region p (4 * ?K) x then Some 0 else emem s x)"
    using K by (auto simp: memset_def)
  have "emem s x \<noteq> None" if "in_region p (4 * ?K) x" for x using mp that unfolding mapped_iff [OF le(1)] by blast
  then have o0: "only_in p (4 * ?K) (emem s) m0" using m0(2) by (simp add: only_in_def)
  have i0: "cellimg m0 d N g" "cellimg m0 ra R tab" "mapped m0 p (4 * ?K)"
    using cellimg_frame [OF o0 ap(1) le(2) d] cellimg_frame [OF o0 ap(2) le(3) ra] only_in_mapped [OF o0] mp by simp_all
  from fill_layout [OF sz i0(3,1,2) ap sv, of ?lst] obtain m1 m2 m3 m4 F where
    w: "write_chars m0 p (dict_header (of_nat (4 * N)) ?lst) = Some m1" "memcpy m1 (p + 28) d (of_nat (4 * N)) = Some m2"
      "memcpy m2 (p + 28 + of_nat (4 * N)) ra (of_nat (4 * R)) = Some m3" "h_free H ra m3 = Some m4"
    and F: "cellimg m4 p ?K F" "F 4 = 0" "F 5 = of_nat (4 * N)" "F 6 = ?lst" "\<And>i. i < N \<Longrightarrow> F (7 + i) = g i" "\<And>j. j < R \<Longrightarrow> F (7 + N + j) = tab j"
    and sg: "\<And>i. i < 8 \<Longrightarrow> m4 (p + of_nat i) = Some (cstr ''OpenBIOS'' ! i)" and dom: "\<And>x. (m4 x = None) = (m0 x = None)" by blast
  have cs: "checksum_loop m4 p (p + of_nat (4 * ?K)) 0 = Some (\<Sum>j < ?K. F j)"
    using checksum_loop_sum [OF sz, of 0 ?K m4 F 0] F(1) by (simp add: atLeast0LessThan del: of_nat_mult)
  from cellimg_write [OF F(1) _ le(1), of 4 "- (\<Sum>j < ?K. F j)"] obtain m5 where
    m5: "write_ucell m4 (p + 16) (- (\<Sum>j < ?K. F j)) = Some m5" "cellimg m5 p ?K (F(4 := - (\<Sum>j < ?K. F j)))" by auto
  have sg5: "m5 (p + of_nat i) = Some (cstr ''OpenBIOS'' ! i)" if "i < 8" for i
  proof -
    have "apart (p + of_nat 0) 8 (p + of_nat 16) 4" by (rule apart_inner [of _ _ _ _ 20]) simp_all
    moreover have "in_region p 8 (p + of_nat i)" using that by (simp add: in_region_def unat_of_nat_small)
    ultimately have "m5 (p + of_nat i) = m4 (p + of_nat i)" using ucell_acc.wr_frame [OF m5(1)] by (simp add: apart_def)
    then show ?thesis using sg [OF that] by simp
  qed
  have "dict_file m5 p N R ?lst g tab"
    unfolding dict_file_def using sg5 m5(2) sum_fix [of 4 ?K F] F(2-6)
    by (intro conjI allI impI exI [of _ "F(4 := - (\<Sum>j < ?K. F j))"]) auto
  moreover have "mapped m5 p (4 * ?K)" using cellimg_mapped [OF m5(2) le(1)] .
  moreover have L: "word_of_int (relocation_length s) * 4 = (of_nat (4 * R) :: ucell)" using e(4) by simp
  have "fill_dictionary H p (of_nat (4 * ?K)) s = Some ((set_emem m5 s)\<lparr>relocation_address := 0\<rparr>)"
    using m0(1) w cs m5(1) sv L by (simp add: fill_dictionary_def e(1-3) Let_def serves_def write_ucell_def del: of_nat_mult of_nat_add)
  ultimately show ?thesis by blast
qed


lemma bytes_at_ok:
  "mapped m p n \<Longrightarrow> \<exists>bs. bytes_at m p n = Some bs \<and> length bs = n \<and> (\<forall>i < n. m (p + of_nat i) = Some (bs ! i))"
proof (induction n arbitrary: p)
  case (Suc n)
  have "mapped m (p + 1) n" using mapped_sub [OF Suc.prems, of 1 n] by simp
  from Suc.IH [OF this] obtain bs where bs: "bytes_at m (p + 1) n = Some bs" "length bs = n"
    "\<And>i. i < n \<Longrightarrow> m (p + 1 + of_nat i) = Some (bs ! i)" by blast
  from Suc.prems obtain b where b: "m p = Some b" by (fastforce simp: mapped_def)
  have "m (p + of_nat i) = Some ((b # bs) ! i)" if "i < Suc n" for i
    using bs(3) [of "i - 1"] b that by (cases i) (simp_all add: add_ac)
  then show ?case using bs b by (intro exI [of _ "b # bs"]) simp
qed simp

text \<open>Only bytes matter: a file read back at another address is the same file.\<close>

lemma dict_file_moved:
  assumes "dict_file m p N R lst g tab" and "\<And>i. i < 4 * (7 + N + R) \<Longrightarrow> m' (q + of_nat i) = m (p + of_nat i)"
  shows "dict_file m' q N R lst g tab"
proof -
  let ?K = "7 + N + R"
  from assms(1) obtain F where sg: "\<And>i. i < 8 \<Longrightarrow> m (p + of_nat i) = Some (cstr ''OpenBIOS'' ! i)" and
    F: "cellimg m p ?K F" "(\<Sum>j < ?K. F j) = 0" "F 5 = of_nat (4 * N)" "F 6 = lst" "\<And>i. i < N \<Longrightarrow> F (7 + i) = g i"
      "\<And>j. j < R \<Longrightarrow> F (7 + N + j) = tab j" unfolding dict_file_def by blast
  have "read_ucell m' (q + of_nat (4 * i)) = read_ucell m (p + of_nat (4 * i))" if "i < ?K" for i
    using assms(2) [of "4 * i"] assms(2) [of "4 * i + 1"] assms(2) [of "4 * i + 2"] assms(2) [of "4 * i + 3"] that
    by (simp add: read_ucell_def read_long_def add_ac)
  then have "cellimg m' q ?K F" using F(1) by (simp add: cellimg_def)
  moreover have "m' (q + of_nat i) = Some (cstr ''OpenBIOS'' ! i)" if "i < 8" for i using sg [OF that] assms(2) [of i] that by simp
  ultimately show ?thesis unfolding dict_file_def using F(2-6) by blast
qed

lemma signature_matches:
  assumes "\<And>i. i < 8 \<Longrightarrow> m (p + of_nat i) = Some (cstr ''OpenBIOS'' ! i)"
  shows "strncmp (lit_str (cstr ''OpenBIOS'')) (at m p) 8 = Some 0"
proof -
  have "strncmp_loop (lit_str (cstr ''OpenBIOS'')) (at m p) i n 0 = Some 0" if "i + n = 8" for i n
    using that
  proof (induction n arbitrary: i)
    case (Suc n)
    have i: "i < 8" using Suc.prems by simp
    have "list_all (\<lambda>b. b \<noteq> 0) (cstr ''OpenBIOS'')" by code_simp
    then have "cstr ''OpenBIOS'' ! i \<noteq> 0" using i by (simp add: list_all_length)
    then show ?case using Suc assms [OF i] i by (simp add: at_def lit_str_def)
  qed simp
  from this [of 0 8] show ?thesis by (simp add: strncmp_def)
qed

lemma load_ok:
  assumes f: "dict_file (mem s) p N R lst g tab" "marks N tab P" and N: "0 < N" "N \<le> 32 * R"
    and sz: "unat p + 4 * (7 + N + R) < 2 ^ 32" "unat (dict s) + 4 * N < 2 ^ 32"
    and d: "mapped (mem s) (dict s) (4 * N)" "apart p (4 * (7 + N + R)) (dict s) (4 * N)"
  shows "\<exists>m'. load_dictionary E p (of_nat (4 * (7 + N + R))) s =
      Some (- 1, s\<lparr>dicthead := of_nat (4 * N), mem := m', last_word := dict s + lst\<rparr>) \<and>
    cellimg m' (dict s) N (\<lambda>i. if P i then g i + dict s else g i) \<and> only_in (dict s) (4 * N) (mem s) m'"
proof -
  let ?K = "7 + N + R" and ?d = "dict s"
  from f(1) obtain F where sg: "\<And>i. i < 8 \<Longrightarrow> mem s (p + of_nat i) = Some (cstr ''OpenBIOS'' ! i)" and
    F: "cellimg (mem s) p ?K F" "(\<Sum>j < ?K. F j) = 0" "F 5 = of_nat (4 * N)" "F 6 = lst" "\<And>i. i < N \<Longrightarrow> F (7 + i) = g i"
      "\<And>j. j < R \<Longrightarrow> F (7 + N + j) = tab j" unfolding dict_file_def by blast
  have le: "4 * ?K \<le> 2 ^ 32" "4 * N < 2 ^ 32" "4 * R \<le> 2 ^ 32" "4 * ?K < 2 ^ 32" using sz by auto
  let ?pd = "p + of_nat 28" and ?pr = "p + of_nat (28 + 4 * N)"
  have pd: "cellimg (mem s) ?pd N g"
    unfolding cellimg_def using cellimgD [OF F(1), of "7 + _"] F(5) by (auto simp: add.assoc)
  have pr: "cellimg (mem s) ?pr R tab"
    unfolding cellimg_def using cellimgD [OF F(1), of "7 + N + _"] F(6) by (auto simp: add.assoc)
  have out: "apart ?pd (4 * N) ?d (4 * N)" "apart ?pr (4 * R) ?d (4 * N)"
    using apart_sub [OF d(2) _ le(1), of 28 "4 * N"] apart_sub [OF d(2) _ le(1), of "28 + 4 * N" "4 * R"] by simp_all
  have "mapped (mem s) ?pd (4 * N)" using cellimg_mapped [OF pd] le by simp
  from memcpy_apart [OF le(2) d(1) this] out(1) obtain m1 where
    m1: "memcpy (mem s) ?d ?pd (of_nat (4 * N)) = Some m1" "copied (mem s) ?d ?pd (4 * N) m1" by (auto simp: apart_sym)
  have o1: "only_in ?d (4 * N) (mem s) m1" using copied_only_in [OF m1(2)] cellimg_mapped [OF pd] d(1) le by simp
  have i1: "cellimg m1 ?d N g" "cellimg m1 ?pr R tab"
    using copied_cells [OF m1(2) _ pd] cellimg_frame [OF o1 _ le(3) pr] out(2) le by (simp_all add: apart_sym)
  from reloc_loop_ok [OF sz(2) le(3) N(2) _ _ i1 f(2), of 0 N] out(2) obtain m2 where
    m2: "reloc_loop ?d ?pr (?d + of_nat (4 * N)) ?d m1 = Some m2" "cellimg m2 ?d N (\<lambda>i. if P i then g i + ?d else g i)"
      "only_in ?d (4 * N) m1 m2" by (auto simp: apart_sym)
  have o2: "only_in ?d (4 * N) (mem s) m2" by (rule only_in_trans [OF o1 m2(3)])
  have "cellimg m2 p ?K F" by (rule cellimg_frame [OF o2 _ le(1) F(1)]) (use d(2) in \<open>simp add: apart_sym\<close>)
  from cellimgD [OF this, of 6] F(4) have l: "read_ucell m2 (p + 24) = Some lst" by simp
  have dh: "read_long (mem s) (p + 20) = Some (of_nat (4 * N))" using cellimgD [OF F(1), of 5] F(3) by (simp add: read_ucell_def)
  have cs: "checksum_loop (mem s) p (p + of_nat (4 * ?K)) 0 = Some 0"
    using checksum_loop_sum [OF sz(1), of 0 ?K "mem s" F 0] F(1,2) by (simp add: atLeast0LessThan del: of_nat_mult)
  have "unat (of_nat (4 * ?K) :: ucell) = 4 * ?K" by (rule unat_of_nat_small) (use le(4) in simp)
  then have "\<not> of_nat (4 * ?K) \<le> (28 :: ucell)" using N(1) by (simp add: word_le_nat_alt del: of_nat_mult of_nat_add)
  moreover have pe: "?pr = p + 28 + of_nat (4 * N)" by (simp add: add.assoc)
  ultimately have "load_dictionary E p (of_nat (4 * ?K)) s = Some (- 1, s\<lparr>dicthead := of_nat (4 * N), mem := m2, last_word := ?d + lst\<rparr>)"
    using signature_matches [OF sg] cs dh m1(1) m2(1) [unfolded pe] l
    by (simp add: load_dictionary_def del: of_nat_mult of_nat_add)
  then show ?thesis using m2(2) o2 by blast
qed


subsection \<open>From the compiler to the firmware\<close>

text \<open>A dictionary built at \<open>a\<close>: cell \<open>i\<close> is an address within it if \<open>P i\<close>, else a value that does not depend on \<open>a\<close>.\<close>

definition built :: "(nat \<Rightarrow> ucell) \<Rightarrow> (nat \<Rightarrow> bool) \<Rightarrow> ucell \<Rightarrow> nat \<Rightarrow> ucell" where
  "built v P a i = (if P i then v i + a else v i)"

lemma relocation_table_ok:
  assumes N: "4 * N \<le> 0x40000" "R = (4 * N + 31) div 32" and ne: "d1 \<noteq> d2"
    and b: "cellimg (emem s) d1 N (built v P d1)" "cellimg (emem s) d2 N (built v P d2)"
    and sv: "serves H (4 * R) rt" and mp: "mapped (emem s) rt (4 * R)"
    and ap: "apart d1 (4 * N) d2 (4 * N)" "apart d1 (4 * N) rt (4 * R)" "apart d2 (4 * N) rt (4 * R)"
  shows "\<exists>m tab. relocation_table H d1 d2 (of_nat (4 * N)) s = Some ((set_emem m s)\<lparr>relocation_length := int R, relocation_address := rt\<rparr>) \<and>
    cellimg m d2 N v \<and> cellimg m rt R tab \<and> marks N tab P \<and> (\<forall>x. (m x = None) = (emem s x = None))"
proof -
  have le: "4 * N < 2 ^ 32" "4 * R < 2 ^ 32" "N \<le> 32 * R" using N by auto
  have u: "unat (of_nat (4 * N) :: u32) = 4 * N" by (rule unat_of_nat_small) (use le in simp)
  have si: "sint (of_nat (4 * N) :: u32) = int (4 * N)" by (rule sint_eq_unat [of "of_nat (4 * N)", unfolded u]) (use N(1) in simp)
  have "unat (of_nat (4 * N) + 3 :: u32) = 4 * N + 3" using unat_add_no_wrap [of "of_nat (4 * N) :: u32" 3] u N(1) by simp
  then have l: "unat ((of_nat (4 * N) + 3) div 4 :: u32) = N" by (simp add: unat_div)
  have c: "cint (sint (of_nat (4 * N) :: u32) + 31) = Some (int (4 * N + 31))" unfolding si using N(1) by (simp add: cint_def)
  have rl: "int (4 * N + 31) sdiv 32 = int R" by (simp add: N(2) signed_divide_int_def zdiv_int)
  have w: "word_of_int (int R) * 4 = (of_nat (4 * R) :: u32)" by simp
  have R: "unat (of_nat (4 * R) :: u32) = 4 * R" by (rule unat_of_nat_small) (use le in simp)
  from sv mp obtain m1 where m1: "h_malloc H (of_nat (4 * R)) (emem s) = Some (rt, m1)" "only_in rt (4 * R) (emem s) m1"
    unfolding serves_def by blast
  have mp1: "mapped m1 rt (4 * R)" using only_in_mapped [OF m1(2)] mp by simp
  from memset_loop_correct [OF _ mp1, of 0] le obtain m2 where
    m2: "memset m1 rt 0 (of_nat (4 * R)) = Some m2" "\<And>x. m2 x = (if in_region rt (4 * R) x then Some 0 else m1 x)"
    using R by (auto simp: memset_def)
  have "m1 x \<noteq> None" if "in_region rt (4 * R) x" for x using mp1 that le mapped_iff [of "4 * R" m1 rt] by simp
  then have o2: "only_in rt (4 * R) m1 m2" using m2(2) by (simp add: only_in_def)
  note o = only_in_trans [OF m1(2) o2]
  have b2: "cellimg m2 d1 N (built v P d1)" "cellimg m2 d2 N (built v P d2)"
    using cellimg_frame [OF o _ _ b(1)] cellimg_frame [OF o _ _ b(2)] ap le by (simp_all add: apart_sym)
  have z: "cellimg m2 rt R (\<lambda>_. 0)"
    unfolding cellimg_def
  proof (intro allI impI)
    fix i assume i: "i < R"
    have "m2 x = Some 0" if "in_region (rt + of_nat (4 * i)) 4 x" for x using cell_region [OF that i] le m2(2) by simp
    then have "\<forall>j < 4. m2 (rt + of_nat (4 * i) + of_nat j) = Some 0" by (auto simp: in_region_offset)
    from this [rule_format, of 0] this [rule_format, of 1] this [rule_format, of 2] this [rule_format, of 3]
    show "read_ucell m2 (rt + of_nat (4 * i)) = Some 0" by (simp add: read_ucell_def read_long_def cat32_def)
  qed
  have mk: "marks N (\<lambda>_. 0) (\<lambda>_. False)" by (simp add: marks_def)
  from reloc_scan_ok [OF _ _ le(3) ap _ b2 z mk, of 0 N] le obtain m3 tab where
    m3: "reloc_scan d1 d2 rt 0 N m2 = Some m3" "cellimg m3 d2 N (\<lambda>k. if built v P d1 k \<noteq> built v P d2 k then built v P d2 k - d2 else built v P d2 k)"
      "cellimg m3 rt R tab" "marks N tab (\<lambda>k. built v P d1 k \<noteq> built v P d2 k)" "\<And>x. (m3 x = None) = (m2 x = None)" by auto
  have P: "built v P d1 k \<noteq> built v P d2 k \<longleftrightarrow> P k" for k using ne by (simp add: built_def)
  have "cellimg m3 d2 N v" by (rule cellimg_cong [OF m3(2)]) (auto simp: P, auto simp: built_def)
  moreover have "relocation_table H d1 d2 (of_nat (4 * N)) s = Some ((set_emem m3 s)\<lparr>relocation_length := int R, relocation_address := rt\<rparr>)"
    using m1(1) m2(1) m3(1) by (simp only: relocation_table_def Let_def c Option.bind_lunit rl w l split)
  moreover have "(m3 x = None) = (emem s x = None)" for x using m3(5) o by (simp add: only_in_def)
  ultimately show ?thesis using m3(3,4) by (auto simp: P)
qed

lemma write_ok:
  assumes e: "dict (eng (bt s)) = d" "dicthead (eng (bt s)) = of_nat (4 * N)" "relocation_address s = ra" "relocation_length s = int R"
    and d: "cellimg (emem s) d N g" and ra: "cellimg (emem s) ra R tab"
    and sv: "serves H (4 * R) ra" "serves H (4 * (7 + N + R)) p" and mp: "mapped (emem s) p (4 * (7 + N + R))"
    and ap: "apart p (4 * (7 + N + R)) d (4 * N)" "apart p (4 * (7 + N + R)) ra (4 * R)" "apart d (4 * N) ra (4 * R)"
    and st: "\<And>bs w. \<exists>w'. h_store H fn bs w = Some w' \<and> h_stat H fn w' = Some (length bs) \<and> h_fetch H fn w' = Some (Some bs)"
  shows "\<exists>s' bs m. write_dictionary E H fn s = Some (Return (), s') \<and> h_stat H fn (world (eng (bt s'))) = Some (4 * (7 + N + R)) \<and>
    h_fetch H fn (world (eng (bt s'))) = Some (Some bs) \<and> length bs = 4 * (7 + N + R) \<and>
    (\<forall>i < length bs. m (p + of_nat i) = Some (bs ! i)) \<and> dict_file m p N R (last_word (eng (bt s)) - d) g tab"
proof -
  let ?K = "7 + N + R"
  have p: "p \<noteq> 0" "unat p + 4 * ?K < 2 ^ 32" using sv(2) by (auto simp: serves_def)
  have le: "4 * ?K \<le> 2 ^ 32" "4 * N \<le> 2 ^ 32" "4 * R \<le> 2 ^ 32" using p(2) by auto
  from sv(2) mp obtain m1 where m1: "h_malloc H (of_nat (4 * ?K)) (emem s) = Some (p, m1)" "only_in p (4 * ?K) (emem s) m1"
    unfolding serves_def by blast
  let ?s1 = "set_emem m1 s"
  have em: "emem ?s1 = m1" by (simp add: set_emem_def)
  have e1: "dict (eng (bt ?s1)) = d" "dicthead (eng (bt ?s1)) = of_nat (4 * N)" "relocation_address ?s1 = ra" "relocation_length ?s1 = int R"
    "last_word (eng (bt ?s1)) = last_word (eng (bt s))"
    using e by (simp_all add: set_emem_def)
  have i1: "mapped (emem ?s1) p (4 * ?K)" "cellimg (emem ?s1) d N g" "cellimg (emem ?s1) ra R tab"
    unfolding em using only_in_mapped [OF m1(2)] mp cellimg_frame [OF m1(2) ap(1) le(2) d] cellimg_frame [OF m1(2) ap(2) le(3) ra] by simp_all
  from fill_ok [OF e1(1-4) p(2) i1 ap sv(1)] e1(5) obtain m2 where
    m2: "fill_dictionary H p (of_nat (4 * ?K)) ?s1 = Some ((set_emem m2 ?s1)\<lparr>relocation_address := 0\<rparr>)"
      "dict_file m2 p N R (last_word (eng (bt s)) - d) g tab" "mapped m2 p (4 * ?K)" by auto
  let ?s2 = "(set_emem m2 ?s1)\<lparr>relocation_address := 0\<rparr>"
  from bytes_at_ok [OF m2(3)] obtain bs where bs: "bytes_at m2 p (4 * ?K) = Some bs" "length bs = 4 * ?K"
    "\<And>i. i < 4 * ?K \<Longrightarrow> m2 (p + of_nat i) = Some (bs ! i)" by blast
  from st obtain w' where w': "h_store H fn bs (world (eng (bt s))) = Some w'" "h_stat H fn w' = Some (length bs)" "h_fetch H fn w' = Some (Some bs)" by blast
  from sv(2) m2(3) obtain m3 where m3: "h_free H p m2 = Some m3" unfolding serves_def by blast
  let ?s3 = "set_emem m3 (?s2\<lparr>bt := (bt ?s2)\<lparr>eng := (eng (bt ?s2))\<lparr>world := w'\<rparr>\<rparr>\<rparr>)"
  have len: "28 + of_nat (4 * N) + word_of_int (int R) * 4 = (of_nat (4 * ?K) :: ucell)" by simp
  have K: "unat (of_nat (4 * ?K) :: ucell) = 4 * ?K" by (rule unat_of_nat_small) (use p(2) in simp)
  have f2: "emem ?s2 = m2" "world (eng (bt ?s2)) = world (eng (bt s))" by (simp_all add: set_emem_def set_mem_def)
  have f3: "emem (?s2\<lparr>bt := (bt ?s2)\<lparr>eng := (eng (bt ?s2))\<lparr>world := w'\<rparr>\<rparr>\<rparr>) = m2" using f2(1) by simp
  have "write_dictionary E H fn s = Some (Return (), ?s3)"
    unfolding write_dictionary_def Let_def e(2,4) len m1(1) Option.bind_lunit prod.case if_not_P [OF p(1)] m2(1) K f2(1) bs(1) f2(2) w'(1)
      option.case f3 m3 by simp
  moreover have "world (eng (bt ?s3)) = w'" by (simp add: set_emem_def set_mem_def)
  ultimately show ?thesis using w'(2,3) bs m2(2) by (intro exI [of _ ?s3] exI [of _ bs] exI [of _ m2]) simp
qed


lemma read_ok:
  assumes f: "h_stat H fn (world (eng (bt t))) = Some (4 * (7 + N + R))" "h_fetch H fn (world (eng (bt t))) = Some (Some bs)"
      "length bs = 4 * (7 + N + R)" "\<And>i. i < length bs \<Longrightarrow> m0 (p0 + of_nat i) = Some (bs ! i)" "dict_file m0 p0 N R lst g tab" "marks N tab P"
    and N: "0 < N" "N \<le> 32 * R" and sv: "serves H (4 * (7 + N + R)) p"
    and d: "unat (dict (eng (bt t))) + 4 * N < 2 ^ 32" "mapped (emem t) (dict (eng (bt t))) (4 * N)" "mapped (emem t) p (4 * (7 + N + R))"
      "apart p (4 * (7 + N + R)) (dict (eng (bt t))) (4 * N)"
  shows "\<exists>t'. read_dictionary E H fn t = Some (Return (- 1), t') \<and> dict (eng (bt t')) = dict (eng (bt t)) \<and>
    cellimg (emem t') (dict (eng (bt t))) N (\<lambda>i. if P i then g i + dict (eng (bt t)) else g i) \<and>
    dicthead (eng (bt t')) = of_nat (4 * N) \<and> last_word (eng (bt t')) = dict (eng (bt t)) + lst"
proof -
  let ?K = "7 + N + R" and ?d = "dict (eng (bt t))"
  have p: "p \<noteq> 0" "unat p + 4 * ?K < 2 ^ 32" using sv by (auto simp: serves_def)
  have le: "4 * ?K \<le> 2 ^ 32" "4 * N \<le> 2 ^ 32" using p(2) by auto
  from sv d(3) obtain m1 where m1: "h_malloc H (of_nat (4 * ?K)) (emem t) = Some (p, m1)" "only_in p (4 * ?K) (emem t) m1"
    unfolding serves_def by blast
  let ?t1 = "set_emem m1 t"
  have em: "emem ?t1 = m1" "world (eng (bt ?t1)) = world (eng (bt t))" by (simp_all add: set_emem_def set_mem_def)
  have mp1: "mapped m1 p (length bs)" "mapped m1 ?d (4 * N)" using only_in_mapped [OF m1(2)] d f(3) by simp_all
  define m2 where "m2 = put m1 p bs"
  have w2: "write_chars m1 p bs = Some m2" using write_chars_put [OF mp1(1)] by (simp add: m2_def)
  have o2: "only_in p (4 * ?K) m1 m2" using put_cells_only_in [of bs m1 p] mp1(1) f(3) le by (simp add: m2_def)
  have "m2 (p + of_nat i) = m0 (p0 + of_nat i)" if "i < 4 * ?K" for i
    using put_get [of bs i m1 p] f(3) f(4) [of i] that le by (simp add: m2_def)
  from dict_file_moved [OF f(5) this] have df: "dict_file m2 p N R lst g tab" .
  let ?e = "eng (bt (set_emem m2 ?t1))"
  have e: "mem ?e = m2" "dict ?e = ?d" by (simp_all add: set_emem_def set_mem_def)
  have mp2: "mapped (mem ?e) (dict ?e) (4 * N)" unfolding e using only_in_mapped [OF o2] mp1(2) by simp
  from load_ok [of ?e p N R lst g tab P E] df f(6) N p(2) d(1,4) mp2 obtain m3 where
    m3: "load_dictionary E p (of_nat (4 * ?K)) ?e = Some (- 1, ?e\<lparr>dicthead := of_nat (4 * N), mem := m3, last_word := ?d + lst\<rparr>)"
      "cellimg m3 ?d N (\<lambda>i. if P i then g i + ?d else g i)" "only_in ?d (4 * N) m2 m3" unfolding e by blast
  have "mapped m3 p (4 * ?K)" using only_in_mapped [OF m1(2)] only_in_mapped [OF o2] only_in_mapped [OF m3(3)] d(3) by simp
  with sv obtain m4 where m4: "h_free H p m3 = Some m4" "only_in p (4 * ?K) m3 m4" unfolding serves_def by blast
  have i4: "cellimg m4 ?d N (\<lambda>i. if P i then g i + ?d else g i)" by (rule cellimg_frame [OF m4(2) d(4) le(2) m3(2)])
  let ?t4 = "?t1\<lparr>bt := (bt ?t1)\<lparr>eng := ?e\<lparr>dicthead := of_nat (4 * N), mem := m3, last_word := ?d + lst, mem := m4\<rparr>\<rparr>\<rparr>"
  have "take (4 * ?K) bs = bs" using f(3) by simp
  then have "read_dictionary E H fn t = Some (Return (- 1), ?t4)"
    unfolding read_dictionary_def Let_def f(1) option.case m1(1) Option.bind_lunit prod.case if_not_P [OF p(1)] em(2) f(2) em(1)
    using w2 m3(1) m4(1) by (simp del: of_nat_mult of_nat_add)
  then show ?thesis using i4 e(2) by (intro exI [of _ ?t4]) (simp add: set_emem_def set_mem_def)
qed

text \<open>
  C33: Dictionary files. A dictionary of \<open>N\<close> cells, compiled at two addresses, whose cells are addresses within it or
  do not depend on where it lies, goes through \<open>relocation_table\<close> and \<open>write_dictionary\<close>, which return, into a
  file. Wherever a later run has its dictionary, \<open>read_dictionary\<close> of that file returns -1 and leaves there the dictionary
  as the compiler would have built it at that address, with the length and the last word of the original.
\<close>

theorem dictionary_file_roundtrip:
  assumes "0 < N" and "4 * N \<le> 0x40000" and "R = (4 * N + 31) div 32" and "d1 \<noteq> d2"
    and "dict (eng (bt s)) = d2" and "dicthead (eng (bt s)) = of_nat (4 * N)"
    and "cellimg (emem s) d1 N (built v P d1)" and "cellimg (emem s) d2 N (built v P d2)"
    and "serves H (4 * R) rt" and "serves H (4 * (7 + N + R)) wd"
    and "mapped (emem s) rt (4 * R)" and "mapped (emem s) wd (4 * (7 + N + R))"
    and "apart d1 (4 * N) d2 (4 * N)" and "apart d1 (4 * N) rt (4 * R)" and "apart d2 (4 * N) rt (4 * R)"
    and "apart wd (4 * (7 + N + R)) d2 (4 * N)" and "apart wd (4 * (7 + N + R)) rt (4 * R)"
    and "\<And>bs w. \<exists>w'. h_store H fn bs w = Some w' \<and> h_stat H fn w' = Some (length bs) \<and> h_fetch H fn w' = Some (Some bs)"
  shows "\<exists>s1 s2. relocation_table H d1 d2 (of_nat (4 * N)) s = Some s1 \<and> write_dictionary E H fn s1 = Some (Return (), s2) \<and>
    (\<forall>t d3. dict (eng (bt t)) = d3 \<and> world (eng (bt t)) = world (eng (bt s2)) \<and> unat d3 + 4 * N < 2 ^ 32 \<and> mapped (emem t) d3 (4 * N) \<and>
       mapped (emem t) wd (4 * (7 + N + R)) \<and> apart wd (4 * (7 + N + R)) d3 (4 * N) \<longrightarrow>
       (\<exists>t'. read_dictionary E H fn t = Some (Return (- 1), t') \<and> dict (eng (bt t')) = d3 \<and> cellimg (emem t') d3 N (built v P d3) \<and>
          dicthead (eng (bt t')) = of_nat (4 * N) \<and> last_word (eng (bt t')) = d3 + (last_word (eng (bt s)) - d2)))"
proof -
  from relocation_table_ok [OF assms(2,3,4,7,8,9,11,13,14,15)] obtain m tab where
    r: "relocation_table H d1 d2 (of_nat (4 * N)) s = Some ((set_emem m s)\<lparr>relocation_length := int R, relocation_address := rt\<rparr>)"
      "cellimg m d2 N v" "cellimg m rt R tab" "marks N tab P" "\<And>x. (m x = None) = (emem s x = None)" by blast
  let ?s1 = "(set_emem m s)\<lparr>relocation_length := int R, relocation_address := rt\<rparr>"
  have em: "emem ?s1 = m" by (simp add: set_emem_def)
  have e: "dict (eng (bt ?s1)) = d2" "dicthead (eng (bt ?s1)) = of_nat (4 * N)" "relocation_address ?s1 = rt" "relocation_length ?s1 = int R"
    "last_word (eng (bt ?s1)) = last_word (eng (bt s))" using assms(5,6) by (simp_all add: set_emem_def)
  have i: "cellimg (emem ?s1) d2 N v" "cellimg (emem ?s1) rt R tab" "mapped (emem ?s1) wd (4 * (7 + N + R))"
    unfolding em using r(2,3,5) assms(12) by (simp_all add: mapped_def)
  from write_ok [OF e(1-4) i(1,2) assms(9,10) i(3) assms(16,17,15,18), of E] obtain s2 bs m0 where
    w: "write_dictionary E H fn ?s1 = Some (Return (), s2)" "h_stat H fn (world (eng (bt s2))) = Some (4 * (7 + N + R))"
      "h_fetch H fn (world (eng (bt s2))) = Some (Some bs)" "length bs = 4 * (7 + N + R)" "\<And>i. i < length bs \<Longrightarrow> m0 (wd + of_nat i) = Some (bs ! i)"
      "dict_file m0 wd N R (last_word (eng (bt ?s1)) - d2) v tab" by blast
  have "N \<le> 32 * R" using assms(3) by simp
  note rd = read_ok [OF _ _ w(4,5,6) r(4) assms(1) this assms(10)]
  have bu: "(\<lambda>i. if P i then v i + a else v i) = built v P a" for a by (simp add: built_def fun_eq_iff)
  show ?thesis
  proof (rule exI [of _ ?s1], rule exI [of _ s2], intro conjI allI impI)
    show "relocation_table H d1 d2 (of_nat (4 * N)) s = Some ?s1" "write_dictionary E H fn ?s1 = Some (Return (), s2)" by (fact r(1), fact w(1))
    fix t d3
    assume t: "dict (eng (bt t)) = d3 \<and> world (eng (bt t)) = world (eng (bt s2)) \<and> unat d3 + 4 * N < 2 ^ 32 \<and> mapped (emem t) d3 (4 * N) \<and>
       mapped (emem t) wd (4 * (7 + N + R)) \<and> apart wd (4 * (7 + N + R)) d3 (4 * N)"
    then show "\<exists>t'. read_dictionary E H fn t = Some (Return (- 1), t') \<and> dict (eng (bt t')) = d3 \<and> cellimg (emem t') d3 N (built v P d3) \<and>
          dicthead (eng (bt t')) = of_nat (4 * N) \<and> last_word (eng (bt t')) = d3 + (last_word (eng (bt s)) - d2)"
      using rd [where t = t and E = E] w(2,3) e(5) by (simp add: bu)
  qed
qed


definition demo_host :: "u8 list host" where
  "demo_host = \<lparr>h_malloc = (\<lambda>sz m. Some (if sz = 4 then 0x300 else 0x400, m)), h_free = (\<lambda>p m. Some m),
     h_store = (\<lambda>fn bs w. Some bs), h_stat = (\<lambda>fn w. Some (length w)), h_fetch = (\<lambda>fn w. Some (Some w))\<rparr>"

definition demo_dicts :: memory where
  "demo_dicts x = Some (if x = 0x102 then 1 else if x = 0x202 then 2 else if x = 0x103 \<or> x = 0x203 then 4 else if x = 0x107 \<or> x = 0x207 then 7 else 0)"

definition demo_strap :: "ucell \<Rightarrow> cell \<Rightarrow> u8 list \<Rightarrow> u8 list strap" where
  "demo_strap d h w = \<lparr>bt = \<lparr>eng = (init_fstate demo_dicts w)\<lparr>dict := d, dicthead := h, last_word := d + 4\<rparr>, latest = 0, state_ptr = 0, base_ptr = 0\<rparr>,
     relocation_address = 0, relocation_length = 0\<rparr>"

theorem dictionary_file_roundtrip_witness:
  "\<forall>E. \<exists>s1 s2 t'. relocation_table demo_host 0x100 0x200 8 (demo_strap 0x200 8 []) = Some s1 \<and>
     write_dictionary E demo_host ''boot.dict'' s1 = Some (Return (), s2) \<and>
     read_dictionary E demo_host ''boot.dict'' (demo_strap 0x500 0 (world (eng (bt s2)))) = Some (Return (- 1), t') \<and>
     read_ucell (emem t') 0x500 = Some 0x504 \<and> read_ucell (emem t') 0x504 = Some 7 \<and> last_word (eng (bt t')) = 0x504"
proof
  fix E :: "u8 list env"
  let ?s = "demo_strap 0x200 8 []" and ?v = "\<lambda>i. if i = (0 :: nat) then 4 else (7 :: ucell)" and ?P = "\<lambda>i. i = (0 :: nat)"
  have em: "emem (demo_strap d h w) = demo_dicts" "dict (eng (bt (demo_strap d h w))) = d" "dicthead (eng (bt (demo_strap d h w))) = h"
    "world (eng (bt (demo_strap d h w))) = w" "last_word (eng (bt (demo_strap d h w))) = d + 4" for d h w
    by (simp_all add: demo_strap_def init_fstate_def)
  have mp: "mapped demo_dicts a n" for a n by (simp add: mapped_def demo_dicts_def)
  have c: "read_ucell demo_dicts 0x100 = Some 0x104" "read_ucell demo_dicts 0x104 = Some 7" "read_ucell demo_dicts 0x200 = Some 0x204"
    "read_ucell demo_dicts 0x204 = Some 7" by code_simp+
  have b: "cellimg (emem ?s) 0x100 2 (built ?v ?P 0x100)" "cellimg (emem ?s) 0x200 2 (built ?v ?P 0x200)"
    unfolding em using c by (simp_all add: cellimg_def built_def less_2_cases_iff)
  have sv: "serves demo_host (4 * 1) 0x300" "serves demo_host (4 * (7 + 2 + 1)) 0x400" by (auto simp: serves_def demo_host_def only_in_def)
  have ap: "apart 0x100 (4 * 2) 0x200 (4 * 2)" "apart 0x100 (4 * 2) 0x300 (4 * 1)" "apart 0x200 (4 * 2) 0x300 (4 * 1)"
    "apart 0x400 (4 * (7 + 2 + 1)) 0x200 (4 * 2)" "apart 0x400 (4 * (7 + 2 + 1)) 0x300 (4 * 1)" "apart 0x400 (4 * (7 + 2 + 1)) 0x500 (4 * 2)"
    using apart_no_wrap [of "0x100" 8 "0x200" 8] apart_no_wrap [of "0x100" 8 "0x300" 4] apart_no_wrap [of "0x200" 8 "0x300" 4]
      apart_no_wrap [of "0x200" 8 "0x400" 40] apart_no_wrap [of "0x300" 4 "0x400" 40] apart_no_wrap [of "0x400" 40 "0x500" 8]
    by (simp_all add: apart_sym)
  have fs: "\<exists>w'. h_store demo_host fn bs w = Some w' \<and> h_stat demo_host fn w' = Some (length bs) \<and> h_fetch demo_host fn w' = Some (Some bs)" for fn bs w
    by (simp add: demo_host_def)
  have m: "mapped (emem ?s) 0x300 (4 * 1)" "mapped (emem ?s) 0x400 (4 * (7 + 2 + 1))" using mp em by simp_all
  have h: "0 < (2 :: nat)" "4 * 2 \<le> (0x40000 :: nat)" "1 = (4 * 2 + 31) div (32 :: nat)" "(0x100 :: ucell) \<noteq> 0x200" "dict (eng (bt ?s)) = 0x200"
    "dicthead (eng (bt ?s)) = of_nat (4 * 2)" using em by simp_all
  from dictionary_file_roundtrip [where E = E and fn = "''boot.dict''", OF h b sv m ap(1-5) fs] obtain s1 s2 where
    w: "relocation_table demo_host 0x100 0x200 8 ?s = Some s1" "write_dictionary E demo_host ''boot.dict'' s1 = Some (Return (), s2)" and
    rd: "\<And>t d3. dict (eng (bt t)) = d3 \<and> world (eng (bt t)) = world (eng (bt s2)) \<and> unat d3 + 4 * 2 < 2 ^ 32 \<and> mapped (emem t) d3 (4 * 2) \<and>
       mapped (emem t) 0x400 (4 * (7 + 2 + 1)) \<and> apart 0x400 (4 * (7 + 2 + 1)) d3 (4 * 2) \<Longrightarrow>
       \<exists>t'. read_dictionary E demo_host ''boot.dict'' t = Some (Return (- 1), t') \<and> dict (eng (bt t')) = d3 \<and> cellimg (emem t') d3 2 (built ?v ?P d3) \<and>
          dicthead (eng (bt t')) = of_nat (4 * 2) \<and> last_word (eng (bt t')) = d3 + (last_word (eng (bt ?s)) - 0x200)" by auto
  from rd [of "demo_strap 0x500 0 (world (eng (bt s2)))" "0x500"] mp em ap(6) obtain t' where
    t': "read_dictionary E demo_host ''boot.dict'' (demo_strap 0x500 0 (world (eng (bt s2)))) = Some (Return (- 1), t')"
      "cellimg (emem t') 0x500 2 (built ?v ?P 0x500)" "last_word (eng (bt t')) = 0x504" by auto
  have "read_ucell (emem t') 0x500 = Some 0x504" "read_ucell (emem t') 0x504 = Some 7"
    using cellimgD [OF t'(2), of 0] cellimgD [OF t'(2), of 1] by (simp_all add: built_def)
  with w t' show "\<exists>s1 s2 t'. relocation_table demo_host 0x100 0x200 8 ?s = Some s1 \<and>
     write_dictionary E demo_host ''boot.dict'' s1 = Some (Return (), s2) \<and>
     read_dictionary E demo_host ''boot.dict'' (demo_strap 0x500 0 (world (eng (bt s2)))) = Some (Return (- 1), t') \<and>
     read_ucell (emem t') 0x500 = Some 0x504 \<and> read_ucell (emem t') 0x504 = Some 7 \<and> last_word (eng (bt t')) = 0x504" by blast
qed


subsection \<open>Files that are not dictionaries\<close>

lemma signature_decides:
  assumes "mapped m p 8"
  shows "\<exists>c. strncmp (lit_str (cstr ''OpenBIOS'')) (at m p) 8 = Some c \<and>
    (c = 0 \<longrightarrow> (\<forall>i < 8. m (p + of_nat i) = Some (cstr ''OpenBIOS'' ! i)))"
proof -
  have nz: "cstr ''OpenBIOS'' ! i \<noteq> 0" if "i < 8" for i
  proof -
    have "list_all (\<lambda>b. b \<noteq> 0) (cstr ''OpenBIOS'')" by code_simp
    then show ?thesis using that by (simp add: list_all_length)
  qed
  have "\<exists>r. strncmp_loop (lit_str (cstr ''OpenBIOS'')) (at m p) i n 0 = Some r \<and>
      (r = 0 \<longrightarrow> (\<forall>k. i \<le> k \<and> k < 8 \<longrightarrow> m (p + of_nat k) = Some (cstr ''OpenBIOS'' ! k)))" if "i + n = 8" for i n
    using that
  proof (induction n arbitrary: i)
    case (Suc n)
    have i: "i < 8" using Suc.prems by simp
    with assms obtain b where b: "m (p + of_nat i) = Some b" by (auto simp: mapped_def)
    from Suc.IH [of "Suc i"] Suc.prems obtain r where r: "strncmp_loop (lit_str (cstr ''OpenBIOS'')) (at m p) (Suc i) n 0 = Some r"
      "r = 0 \<longrightarrow> (\<forall>k. Suc i \<le> k \<and> k < 8 \<longrightarrow> m (p + of_nat k) = Some (cstr ''OpenBIOS'' ! k))" by auto
    show ?case
    proof (cases "cstr ''OpenBIOS'' ! i = b")
      case True
      have "strncmp_loop (lit_str (cstr ''OpenBIOS'')) (at m p) i (Suc n) 0 = Some r"
        using True b r(1) i nz [OF i] by (simp add: at_def lit_str_def)
      moreover have "m (p + of_nat k) = Some (cstr ''OpenBIOS'' ! k)" if "r = 0" "i \<le> k" "k < 8" for k
        using r(2) that True b by (cases "k = i") auto
      ultimately show ?thesis by blast
    next
      case False
      then show ?thesis using b i by (simp add: at_def lit_str_def)
    qed
  qed auto
  from this [of 0 8] obtain r where "strncmp_loop (lit_str (cstr ''OpenBIOS'')) (at m p) 0 8 0 = Some r"
    "r = 0 \<longrightarrow> (\<forall>k < 8. m (p + of_nat k) = Some (cstr ''OpenBIOS'' ! k))" by auto
  moreover have "sint r = 0 \<longleftrightarrow> r = 0"
    by (rule sint_eq_0_iff)
  ultimately show ?thesis by (simp add: strncmp_def)
qed

text \<open>
  C34: Bad files are refused. Whatever lies in memory, \<open>load_dictionary\<close> of a file of whole cells that is no longer than the
  header, does not start with the signature, or whose cells do not sum to zero returns 0 and leaves the engine as
  it was, but for a message to the outside.
\<close>

theorem load_dictionary_rejects:
  assumes "cellimg (mem s) p K F" and "unat p + 4 * K < 2 ^ 32"
    and "K \<le> 7 \<or> (\<exists>i < 8. mem s (p + of_nat i) \<noteq> Some (cstr ''OpenBIOS'' ! i)) \<or> (\<Sum>j < K. F j) \<noteq> 0"
  shows "\<exists>w. load_dictionary E p (of_nat (4 * K)) s = Some (0, s\<lparr>world := w\<rparr>)"
proof -
  have K: "unat (of_nat (4 * K) :: ucell) = 4 * K" by (rule unat_of_nat_small) (use assms(2) in simp)
  have mp: "mapped (mem s) p (4 * K)" by (rule cellimg_mapped [OF assms(1)]) (use assms(2) in simp)
  have cs: "checksum_loop (mem s) p (p + of_nat (4 * K)) 0 = Some (\<Sum>j < K. F j)"
    using checksum_loop_sum [OF assms(2), of 0 K "mem s" F 0] assms(1) by (simp add: atLeast0LessThan del: of_nat_mult)
  show ?thesis
  proof (cases "K \<le> 7")
    case True
    then have "of_nat (4 * K) \<le> (28 :: ucell)" using K by (simp add: word_le_nat_alt del: of_nat_mult)
    then show ?thesis by (intro exI [of _ "world s"]) (simp add: load_dictionary_def)
  next
    case False
    then have long: "\<not> of_nat (4 * K) \<le> (28 :: ucell)" using K by (simp add: word_le_nat_alt del: of_nat_mult)
    have "mapped (mem s) p 8" using mapped_sub [OF mp, of 0 8] False by simp
    from signature_decides [OF this] obtain c where c: "strncmp (lit_str (cstr ''OpenBIOS'')) (at (mem s) p) 8 = Some c"
      "c = 0 \<longrightarrow> (\<forall>i < 8. mem s (p + of_nat i) = Some (cstr ''OpenBIOS'' ! i))" by blast
    show ?thesis
    proof (cases "c = 0")
      case True
      then have "(\<Sum>j < K. F j) \<noteq> 0" using assms(3) c(2) False by blast
      then show ?thesis using long c(1) cs True by (auto simp: load_dictionary_def simp del: of_nat_mult)
    next
      case False
      then show ?thesis using long c(1) by (intro exI [of _ "world s"]) (simp add: load_dictionary_def del: of_nat_mult)
    qed
  qed
qed

theorem load_dictionary_rejects_witness:
  "\<exists>w. load_dictionary bare_env 0 (of_nat (4 * 8)) (init_fstate (\<lambda>_. Some 0) ()) = Some (0, (init_fstate (\<lambda>_. Some 0) ())\<lparr>world := w\<rparr>)"
proof -
  let ?s = "init_fstate (\<lambda>_. Some 0) ()"
  have m: "mem ?s = (\<lambda>_. Some 0)" by (simp add: init_fstate_def)
  have "cellimg (mem ?s) 0 8 (\<lambda>_. 0)" unfolding m by (simp add: cellimg_def read_ucell_def read_long_def cat32_def)
  moreover have "unat (0 :: ucell) + 4 * 8 < 2 ^ 32" by simp
  moreover have "cstr ''OpenBIOS'' ! 0 \<noteq> 0" by code_simp
  then have "\<exists>i < 8. mem ?s (0 + of_nat i) \<noteq> Some (cstr ''OpenBIOS'' ! i)" unfolding m by (intro exI [of _ 0]) simp
  ultimately show ?thesis by (intro load_dictionary_rejects) auto
qed

end
