(* ===== verification/Forthstrap.thy ===== *)
theory Forthstrap
  imports Dict_File
begin

text \<open>
  The source interpreter of the bootstrap compiler, \<open>kernel/bootstrap.c\<close>: reading words from source files,
  the handful of words it knows itself (comments, \<open>:\<close>, \<open>;\<close>, \<open>variable\<close>, \<open>constant\<close>, \<open>value\<close>, \<open>defer\<close>, \<open>include\<close>,
  \<open>[']\<close> and \<open>s"\<close>), words of the dictionary, which are compiled or executed, and numbers. A program of colon
  definitions is compiled to threaded code that the engine runs to the program's meaning.
\<close>

subsection \<open>Source files\<close>

text \<open>
  An open file is what is left to read and the end-of-file indicator; a \<open>FILE *\<close> is the index it was given in
  \<open>srcfiles\<close>. \<open>include_path\<close> lists the include path, \<open>depfile\<close> what was written to the dependency file if there is one.
\<close>

record stream =
  rest :: "u8 list"
  at_end :: bool

record 'w comp =
  sp :: "'w strap"
  srcfiles :: "nat \<Rightarrow> stream"
  srcfilenames :: "nat \<Rightarrow> u8 list"
  srclines :: "nat \<Rightarrow> int"
  cursrc :: nat
  errors :: int
  include_path :: "u8 list list"
  depfile :: "u8 list option"

abbreviation boot_of :: "'w comp \<Rightarrow> 'w boot" where "boot_of c \<equiv> bt (sp c)"
abbreviation eng_of :: "'w comp \<Rightarrow> 'w fstate" where "eng_of c \<equiv> eng (bt (sp c))"

definition set_boot :: "'w boot \<Rightarrow> 'w comp \<Rightarrow> 'w comp" where
  "set_boot b c = c\<lparr>sp := (sp c)\<lparr>bt := b\<rparr>\<rparr>"

definition on_boot :: "('w boot \<Rightarrow> 'w boot option) \<Rightarrow> 'w comp \<Rightarrow> 'w comp option" where
  "on_boot f c = do { b \<leftarrow> f (boot_of c); Some (set_boot b c) }"

definition on_eng :: "('w fstate \<Rightarrow> 'w fstate option) \<Rightarrow> 'w comp \<Rightarrow> 'w comp option" where
  "on_eng f c = do { s \<leftarrow> f (eng_of c); Some (set_boot ((boot_of c)\<lparr>eng := s\<rparr>) c) }"

definition tell :: "'w env \<Rightarrow> string \<Rightarrow> u32 list \<Rightarrow> 'w comp \<Rightarrow> 'w comp" where
  "tell E txt as c = c\<lparr>sp := say E txt as (sp c)\<rparr>"

definition text_of :: "u8 list \<Rightarrow> string" where
  "text_of bs = map (\<lambda>b. char_of (unat b)) bs"

definition feof :: "nat \<Rightarrow> 'w comp \<Rightarrow> bool" where
  "feof f c = at_end (srcfiles c f)"

definition getc :: "nat \<Rightarrow> 'w comp \<Rightarrow> int \<times> 'w comp" where
  "getc f c =
     (case rest (srcfiles c f) of
        [] \<Rightarrow> (- 1, c\<lparr>srcfiles := (srcfiles c)(f := \<lparr>rest = [], at_end = True\<rparr>)\<rparr>)
      | x # r \<Rightarrow> (uint x, c\<lparr>srcfiles := (srcfiles c)(f := \<lparr>rest = r, at_end = at_end (srcfiles c f)\<rparr>)\<rparr>))"

definition ungetc :: "int \<Rightarrow> nat \<Rightarrow> 'w comp \<Rightarrow> 'w comp" where
  "ungetc ch f c =
     (if ch = - 1 then c
      else c\<lparr>srcfiles := (srcfiles c)(f := \<lparr>rest = word_of_int ch # rest (srcfiles c f), at_end = False\<rparr>)\<rparr>)"

definition next_line :: "'w comp \<Rightarrow> 'w comp" where
  "next_line c = c\<lparr>srclines := (srclines c)(cursrc c - 1 := srclines c (cursrc c - 1) + 1)\<rparr>"

lemma getc_rest [simp]:
  "getc f c = (ch, c') \<Longrightarrow> ch \<noteq> - 1 \<Longrightarrow> length (rest (srcfiles c' f)) < length (rest (srcfiles c f))"
  by (auto simp: getc_def split: list.splits)

function skipws :: "nat \<Rightarrow> 'w comp \<Rightarrow> 'w comp" where
  "skipws f c =
     (if feof f c then c
      else case getc f c of (ch, c) \<Rightarrow>
        if ch = 32 \<or> ch = 9 then skipws f c
        else if ch = 10 then skipws f (next_line c)
        else ungetc ch f c)"
  by auto
termination
  by (relation "measure (\<lambda>(f, c). length (rest (srcfiles c f)))")
     (auto simp: next_line_def dest: sym [of "(_, _)"])

function parse_loop :: "nat \<Rightarrow> u8 \<Rightarrow> u8 list \<Rightarrow> int \<Rightarrow> 'w comp \<Rightarrow> (u8 list \<times> int \<times> 'w comp) option" where
  "parse_loop f delim line lc c =
     (if feof f c then Some (line, lc, c)
      else case getc f c of (ch, c) \<Rightarrow>
        if delim \<noteq> 0 \<and> ch = uint delim then Some (line, ch, c)
        else if delim = 0 \<and> (ch = 32 \<or> ch = 9 \<or> ch = 10) then Some (line, ch, c)
        else if 160 \<le> length line then None
        else parse_loop f delim (line @ [word_of_int ch]) ch c)"
  by auto
termination
  by (relation "measure (\<lambda>(f, delim, line, lc, c). if feof f c then 0 else Suc (length (rest (srcfiles c f))))")
     (auto simp: feof_def getc_def split: list.splits)

text \<open>\<open>line\<close> has room for 160 characters, the terminator included; the result is what was stored before it.\<close>

definition parse :: "nat \<Rightarrow> u8 \<Rightarrow> 'w comp \<Rightarrow> (u8 list \<times> 'w comp) option" where
  "parse f delim c =
     do { (line, lc, c) \<leftarrow> parse_loop f delim [] 0 c;
          if 160 \<le> length line then None
          else Some (line, if lc = 10 then next_line c else c) }"

definition c_str :: "u8 list \<Rightarrow> u8 list" where
  "c_str line = takeWhile (\<lambda>b. b \<noteq> 0) line"

definition parse_word :: "nat \<Rightarrow> 'w comp \<Rightarrow> (u8 list \<times> 'w comp) option" where
  "parse_word f c = do { (line, c) \<leftarrow> parse f 0 (skipws f c); Some (c_str line, c) }"

subsection \<open>Include files\<close>

definition add_includepath :: "u8 list \<Rightarrow> 'w comp \<Rightarrow> 'w comp" where
  "add_includepath path c = c\<lparr>include_path := include_path c @ [path]\<rparr>"

text \<open>\<open>fopen\<close> is the host's, for reading: the contents of a file by its name.\<close>

type_synonym 'w files = "u8 list \<Rightarrow> 'w \<Rightarrow> u8 list option"

definition include_name :: "u8 list \<Rightarrow> u8 list \<Rightarrow> u8 list" where
  "include_name path fil = take 255 (path @ [47] @ fil)"

fun open_first :: "'w files \<Rightarrow> u8 list list \<Rightarrow> u8 list \<Rightarrow> 'w comp \<Rightarrow> (nat option \<times> 'w comp) option" where
  "open_first fopen [] fil c = Some (None, c)"
| "open_first fopen (p # ps) fil c =
     (case fopen (include_name p fil) (world (eng_of c)) of
        None \<Rightarrow> open_first fopen ps fil c
      | Some bs \<Rightarrow>
          let k = cursrc c in
          if 128 \<le> k then None
          else Some (Some k, c\<lparr>srcfilenames := (srcfilenames c)(k := fil), srclines := (srclines c)(k := 1),
                 srcfiles := (srcfiles c)(k := \<lparr>rest = bs, at_end = False\<rparr>), cursrc := k + 1,
                 depfile := map_option (\<lambda>d. d @ [32] @ include_name p fil) (depfile c)\<rparr>))"

definition fopen_include :: "'w files \<Rightarrow> u8 list \<Rightarrow> 'w comp \<Rightarrow> (nat option \<times> 'w comp) option" where
  "fopen_include fopen fil c = open_first fopen (include_path c) fil c"

subsection \<open>Numbers\<close>

text \<open>
  The host's \<open>strtoll\<close> and \<open>strtoull\<close>: white space, a sign, an optional prefix for the bases 16 and 0, digits; the
  value and what follows the number, the whole string if there is none. A base that is not 0 or 2 to 36 leaves
  the end pointer unset.
\<close>

definition digit_val :: "u8 \<Rightarrow> nat" where
  "digit_val ch =
     (if 48 \<le> ch \<and> ch \<le> 57 then unat ch - 48
      else if 97 \<le> ch \<and> ch \<le> 122 then unat ch - 87
      else if 65 \<le> ch \<and> ch \<le> 90 then unat ch - 55
      else 99)"

fun digits :: "nat \<Rightarrow> nat \<Rightarrow> u8 list \<Rightarrow> nat \<times> u8 list" where
  "digits b acc [] = (acc, [])"
| "digits b acc (ch # s) = (if digit_val ch < b then digits b (acc * b + digit_val ch) s else (acc, ch # s))"

definition has_prefix :: "u8 list \<Rightarrow> bool" where
  "has_prefix s \<longleftrightarrow> (case s of z # x # h # _ \<Rightarrow> z = 48 \<and> (x = 120 \<or> x = 88) \<and> digit_val h < 16 | _ \<Rightarrow> False)"

definition magnitude :: "nat \<Rightarrow> u8 list \<Rightarrow> (nat \<times> u8 list) option" where
  "magnitude b s =
     (let (b, s) = (if (b = 0 \<or> b = 16) \<and> has_prefix s then (16, drop 2 s)
                    else if b = 0 then (if s \<noteq> [] \<and> hd s = 48 then 8 else 10, s)
                    else (b, s))
      in case s of [] \<Rightarrow> None | ch # _ \<Rightarrow> if digit_val ch < b then Some (digits b 0 s) else None)"

definition strtonum :: "bool \<Rightarrow> u8 list \<Rightarrow> int \<Rightarrow> (int \<times> u8 list) option" where
  "strtonum signed_num str b =
     (if b = 1 \<or> b < 0 \<or> 36 < b then None
      else
        let s = dropWhile (\<lambda>ch. ch = 32 \<or> (9 \<le> ch \<and> ch \<le> 13)) str;
            neg = (s \<noteq> [] \<and> hd s = 45);
            s = (if s \<noteq> [] \<and> (hd s = 45 \<or> hd s = 43) then tl s else s)
        in case magnitude (nat b) s of
             None \<Rightarrow> Some (0, str)
           | Some (v, r) \<Rightarrow>
               let i = (if signed_num then max (- (2 ^ 63)) (min (2 ^ 63 - 1) (if neg then - int v else int v))
                        else if 2 ^ 64 \<le> v then 2 ^ 64 - 1 else if neg then - int v else int v)
               in Some (i, r))"

subsection \<open>The interpreter\<close>

definition caseeq :: "u8 list \<Rightarrow> u8 list \<Rightarrow> bool" where
  "caseeq a b \<longleftrightarrow> map to_lower a = map to_lower b"

definition set_state :: "ucell \<Rightarrow> 'w boot \<Rightarrow> 'w boot option" where
  "set_state v b = do { m \<leftarrow> write_ucell (mem (eng b)) (state_ptr b) v; Some (set_mem m b) }"

record tokens =
  SEMIS :: ucell
  LIT :: ucell
  DOBRANCH :: ucell

datatype verdict = Continue | Include "u8 list" | Undefined

definition compile_string :: "tokens \<Rightarrow> u8 list \<Rightarrow> 'w boot \<Rightarrow> 'w boot option" where
  "compile_string k line b =
     do { let loco = dicthead (eng b) + 24;
          b \<leftarrow> writecell (LIT k) b;
          b \<leftarrow> writecell (dict (eng b) + loco) b;
          b \<leftarrow> writecell (LIT k) b;
          b \<leftarrow> writecell (of_nat (length line)) b;
          b \<leftarrow> writecell (DOBRANCH k) b;
          let loco = (of_nat (length line) + 3) AND NOT 3;
          b \<leftarrow> writecell loco b;
          m \<leftarrow> write_chars (mem (eng b)) (here_addr b) line;
          paddict cellsize (add_head (of_nat (length line)) (set_mem m b)) }"

definition known_word :: "'w env \<Rightarrow> nat \<Rightarrow> ucell \<Rightarrow> 'w comp \<Rightarrow> 'w comp option" where
  "known_word E fuel res c =
     do { flags \<leftarrow> mem (eng_of c) (res - cellsize - 1);
          st \<leftarrow> read_ucell (mem (eng_of c)) (state_ptr (boot_of c));
          if st = 0 \<or> flags AND 3 \<noteq> 0
          then on_eng (\<lambda>s. map_option snd (enterforth E fuel res (s\<lparr>PC := res\<rparr>))) c
          else on_boot (writecell res) c }"

definition number_word :: "'w env \<Rightarrow> tokens \<Rightarrow> u8 list \<Rightarrow> 'w comp \<Rightarrow> (verdict \<times> 'w comp) option" where
  "number_word E k tib c =
     do { b \<leftarrow> read_ucell (mem (eng_of c)) (base_ptr (boot_of c));
          (num, test) \<leftarrow> strtonum (hd tib = 45) tib (sint b);
          if test \<noteq> [] then
            Some (Undefined, (tell E (text_of (srcfilenames c (cursrc c - 1)) @ '':%d: '' @ text_of tib @ '' is not defined.'' @ [CHR 0x0A, CHR 0x0A])
                    [word_of_int (srclines c (cursrc c - 1))] c)\<lparr>errors := errors c + 1\<rparr>)
          else do {
            st \<leftarrow> read_ucell (mem (eng_of c)) (state_ptr (boot_of c));
            c \<leftarrow> (if st = 0 then on_eng (PUSH (word_of_int num)) c
                  else on_boot (\<lambda>b. do { b \<leftarrow> writecell (LIT k) b; writecell (word_of_int num) b }) c);
            Some (Continue, c) } }"

definition with_pop :: "(cell \<Rightarrow> 'w boot \<Rightarrow> 'w boot option) \<Rightarrow> 'w boot \<Rightarrow> 'w boot option" where
  "with_pop g b = do { (v, s) \<leftarrow> POP (eng b); g v (b\<lparr>eng := s\<rparr>) }"

definition defining :: "nat \<Rightarrow> (u8 list \<Rightarrow> 'w boot \<Rightarrow> 'w boot option) \<Rightarrow> 'w comp \<Rightarrow> (verdict \<times> 'w comp) option" where
  "defining f g c = do { (w, c) \<leftarrow> parse_word f c; c \<leftarrow> on_boot (g w) c; c \<leftarrow> on_boot reveal c; Some (Continue, c) }"

definition token :: "'w env \<Rightarrow> nat \<Rightarrow> nat \<Rightarrow> tokens \<Rightarrow> u8 list \<Rightarrow> 'w comp \<Rightarrow> (verdict \<times> 'w comp) option" where
  "token E fuel f k tib c =
     (if tib = cstr ''('' then do { (_, c) \<leftarrow> parse f 41 c; Some (Continue, c) }
      else if tib = [92] then do { (_, c) \<leftarrow> parse f 10 c; Some (Continue, c) }
      else if tib = cstr '':'' then
        do { (w, c) \<leftarrow> parse_word f c;
             c \<leftarrow> on_boot (fcreate E w DOCOL) c;
             c \<leftarrow> on_boot (set_state (- 1)) c;
             Some (Continue, c) }
      else if tib = cstr '';'' then
        do { c \<leftarrow> on_boot (writecell (SEMIS k)) c;
             c \<leftarrow> on_boot (set_state 0) c;
             c \<leftarrow> on_boot reveal c;
             Some (Continue, c) }
      else if caseeq tib (cstr ''variable'') then defining f (\<lambda>w b. map_option snd (buildvariable E w 0 b)) c
      else if caseeq tib (cstr ''constant'') then defining f (\<lambda>w. with_pop (buildconstant E w)) c
      else if caseeq tib (cstr ''value'') then defining f (\<lambda>w. with_pop (buildconstant E w)) c
      else if caseeq tib (cstr ''defer'') then defining f (builddefer E) c
      else if caseeq tib (cstr ''include'') then do { (w, c) \<leftarrow> parse_word f c; Some (Include w, c) }
      else if tib = [91, 39, 93] then
        do { (w, c) \<leftarrow> parse_word f c;
             xt \<leftarrow> findword (eng_of c) w;
             st \<leftarrow> read_ucell (mem (eng_of c)) (state_ptr (boot_of c));
             c \<leftarrow> (if st = 0 then on_eng (PUSH xt) c
                   else on_boot (\<lambda>b. do { b \<leftarrow> writecell (LIT k) b; writecell xt b }) c);
             Some (Continue, c) }
      else if caseeq tib [115, 34] then
        do { (line, c) \<leftarrow> parse f 34 c; c \<leftarrow> on_boot (compile_string k line) c; Some (Continue, c) }
      else do { res \<leftarrow> findword (eng_of c) tib;
                if res \<noteq> 0 then do { c \<leftarrow> known_word E fuel res c; Some (Continue, c) }
                else number_word E k tib c })"

text \<open>
  The loop and the recursion of \<open>interpret_source\<close> take fuel, the number of words read and files entered, which
  also bounds each run of the engine.
\<close>

fun interpret_source :: "'w env \<Rightarrow> 'w files \<Rightarrow> nat \<Rightarrow> u8 list \<Rightarrow> 'w comp \<Rightarrow> (int ending \<times> 'w comp) option"
  and interpret_loop :: "'w env \<Rightarrow> 'w files \<Rightarrow> nat \<Rightarrow> nat \<Rightarrow> tokens \<Rightarrow> 'w comp \<Rightarrow> (int ending \<times> 'w comp) option" where
  "interpret_source E fopen 0 fil c = None"
| "interpret_source E fopen (Suc fuel) fil c =
     do { semis \<leftarrow> findword (eng_of c) (cstr ''(semis)'');
          lit \<leftarrow> findword (eng_of c) (cstr ''(lit)'');
          dobranch \<leftarrow> findword (eng_of c) (cstr ''dobranch'');
          (f, c) \<leftarrow> fopen_include fopen fil c;
          case f of
            None \<Rightarrow> Some (Exit 1, (tell E (''error while loading source file '' @ [CHR 0x27] @ text_of fil @ [CHR 0x27, CHR 0x0A]) [] c)
                             \<lparr>errors := errors c + 1\<rparr>)
          | Some f \<Rightarrow> interpret_loop E fopen fuel f \<lparr>SEMIS = semis, LIT = lit, DOBRANCH = dobranch\<rparr> c }"
| "interpret_loop E fopen 0 f k c = None"
| "interpret_loop E fopen (Suc fuel) f k c =
     (if feof f c then Some (Return 0, c\<lparr>cursrc := cursrc c - 1\<rparr>)
      else do {
        (tib, c) \<leftarrow> parse_word f c;
        if tib = [] then interpret_loop E fopen fuel f k c
        else do {
          (v, c) \<leftarrow> token E fuel f k tib c;
          case v of
            Continue \<Rightarrow> interpret_loop E fopen fuel f k c
          | Undefined \<Rightarrow> Some (Return (- 1), c)
          | Include fil \<Rightarrow>
              do { (r, c) \<leftarrow> interpret_source E fopen fuel fil c;
                   case r of Exit n \<Rightarrow> Some (Exit n, c) | Return _ \<Rightarrow> interpret_loop E fopen fuel f k c } } })"


subsection \<open>Input of the running program\<close>

text \<open>
  While Forth code runs, \<open>key\<close> and \<open>key?\<close> read the source files, the last opened first; at the end of one the next
  goes on. With none left the engine is told to stop.
\<close>

definition stop_forth :: "'w comp \<Rightarrow> 'w comp" where
  "stop_forth c = set_boot ((boot_of c)\<lparr>eng := (eng_of c)\<lparr>interruptforth := interruptforth (eng_of c) OR 1\<rparr>\<rparr>) c"

lemma getc_cursrc [simp]: "getc f c = (ch, c') \<Longrightarrow> cursrc c' = cursrc c"
  by (auto simp: getc_def split: list.splits)

function src_availchar :: "'w comp \<Rightarrow> int \<times> 'w comp" where
  "src_availchar c =
     (if cursrc c < 1 then (- 1, stop_forth c)
      else case getc (cursrc c - 1) c of (tmp, c') \<Rightarrow>
        if tmp \<noteq> - 1 then (- 1, ungetc tmp (cursrc c - 1) c')
        else src_availchar (c'\<lparr>cursrc := cursrc c - 1\<rparr>))"
  by auto
termination
  by (relation "measure cursrc") auto

function get_inputbyte :: "'w comp \<Rightarrow> int \<times> 'w comp" where
  "get_inputbyte c =
     (if cursrc c < 1 then (0, stop_forth c)
      else case getc (cursrc c - 1) c of (tmp, c') \<Rightarrow>
        let c' = (if tmp = 10 then next_line c' else c') in
        if tmp \<noteq> - 1 then (tmp, c')
        else get_inputbyte (c'\<lparr>cursrc := cursrc c - 1\<rparr>))"
  by auto
termination
  by (relation "measure cursrc") auto

subsection \<open>Words of the bootstrap kernel\<close>

definition exception_text :: "int \<Rightarrow> string" where
  "exception_text no =
     (if no = - 1 \<or> no = - 2 then ''Aborted.''
      else if no = - 3 then ''Stack Overflow.''
      else if no = - 4 then ''Stack Underflow.''
      else if no = - 5 then ''Return Stack Overflow.''
      else if no = - 6 then ''Return Stack Underflow.''
      else if no = - 19 then ''undefined word.''
      else if no = - 21 then ''out of memory.''
      else if no = - 33 then ''undefined method.''
      else if no = - 34 then ''no such device.''
      else ''error %d occurred.'') @ [CHR 0x0A]"

definition exception :: "'w env \<Rightarrow> cell \<Rightarrow> 'w comp \<Rightarrow> unit ending \<times> 'w comp" where
  "exception E no c =
     (let c = tell E (text_of (srcfilenames c (cursrc c - 1)) @ '':%d: '') [word_of_int (srclines c (cursrc c - 1))] c
      in (Exit 1, tell E (exception_text (sint no)) [no] c))"

definition include_file :: "'w env \<Rightarrow> 'w files \<Rightarrow> u8 list \<Rightarrow> 'w comp \<Rightarrow> (unit ending \<times> 'w comp) option" where
  "include_file E fopen name c =
     (if 128 \<le> cursrc c then Some (Exit 1, tell E ([CHR 0x0A] @ ''panic: Maximum include depth reached!'' @ [CHR 0x0A]) [] c)
      else do { (f, c) \<leftarrow> fopen_include fopen name c;
                case f of
                  None \<Rightarrow> Some (Exit 1, tell E ([CHR 0x0A] @ ''panic: Failed opening file '' @ [CHR 0x27] @ text_of name @ [CHR 0x27, CHR 0x0A]) [] c)
                | Some _ \<Rightarrow> Some (Return (), c) })"

text \<open>The whole file goes to \<open>here\<close>; \<open>fread\<close> of one item of size 0 gives 0, so an empty file counts as unreadable.\<close>

definition encode_file :: "'w env \<Rightarrow> 'w files \<Rightarrow> u8 list \<Rightarrow> 'w comp \<Rightarrow> (unit ending \<times> 'w comp) option" where
  "encode_file E fopen name c =
     do { (f, c) \<leftarrow> fopen_include fopen name c;
          case f of
            None \<Rightarrow> Some (Exit 1, tell E ([CHR 0x0A] @ ''panic: Can't open '' @ [CHR 0x27] @ text_of name @ [CHR 0x27, CHR 0x0A]) [] c)
          | Some f \<Rightarrow>
              do { let data = rest (srcfiles c f);
                   if data = [] then Some (Exit 1, tell E (''panic: Can't read dictionary.'' @ [CHR 0x0A]) [] c)
                   else do {
                     let c = c\<lparr>srcfiles := (srcfiles c)(f := \<lparr>rest = [], at_end = False\<rparr>)\<rparr>;
                     c \<leftarrow> on_boot (\<lambda>b. do { m \<leftarrow> write_chars (mem (eng b)) (here_addr b) data; Some (set_mem m b) }) c;
                     let a = here_addr (boot_of c);
                     c \<leftarrow> on_eng (PUSH a) c;
                     c \<leftarrow> on_eng (PUSH (of_nat (length data))) c;
                     c \<leftarrow> on_boot (\<lambda>b. paddict cellsize (add_head (of_nat (length data)) b)) c;
                     Some (Return (), c) } } }"

text \<open>\<open>memory\<close> is the megabyte at \<open>a\<close>.\<close>

definition init_memory :: "ucell \<Rightarrow> 'w fstate \<Rightarrow> 'w fstate option" where
  "init_memory a s =
     do { m \<leftarrow> memset (mem s) a 0 0x100000;
          s \<leftarrow> PUSH (a + cellsize) (s\<lparr>mem := m\<rparr>);
          PUSH (a + 0x100000 - 1) s }"

definition new_dictionary :: "'w env \<Rightarrow> 'w files \<Rightarrow> nat \<Rightarrow> ucell \<Rightarrow> u8 list \<Rightarrow> 'w comp \<Rightarrow> (unit ending \<times> 'w comp) option" where
  "new_dictionary E fopen fuel lfa source c =
     do { c \<leftarrow> on_boot (build_dictionary E lfa) c;
          (r, c) \<leftarrow> interpret_source E fopen fuel source c;
          case r of
            Exit n \<Rightarrow> Some (Exit n, c)
          | Return _ \<Rightarrow> Some (Return (), if 0 < errors c then tell E (''interpretion finished. %d errors occurred.'' @ [CHR 0x0A]) [word_of_int (errors c)] c else c) }"

text \<open>
  The work of \<open>main\<close> without a base dictionary: the source is compiled at each of the two addresses, unless the
  first pass has errors; without errors the relocation table is made and the dictionary written. The result is the exit
  status. The dependency file is closed after the first pass.
\<close>

definition one_pass :: "'w env \<Rightarrow> 'w files \<Rightarrow> nat \<Rightarrow> ucell \<Rightarrow> u8 list \<Rightarrow> ucell \<Rightarrow> 'w comp \<Rightarrow> (unit ending \<times> 'w comp) option" where
  "one_pass E fopen fuel lfa source d c =
     do { (r, c) \<leftarrow> new_dictionary E fopen fuel lfa source (set_boot ((boot_of c)\<lparr>eng := (eng_of c)\<lparr>dict := d\<rparr>\<rparr>) c);
          Some (r, c\<lparr>depfile := None\<rparr>) }"

definition finish :: "'w env \<Rightarrow> 'w host \<Rightarrow> string \<Rightarrow> ucell \<Rightarrow> ucell \<Rightarrow> 'w comp \<Rightarrow> (int ending \<times> 'w comp) option" where
  "finish E H dictname d0 d1 c =
     (if errors c \<noteq> 0 then Some (Return 1, tell E (''dictionary not dumped to file.'' @ [CHR 0x0A]) [] c)
      else do { s \<leftarrow> relocation_table H d0 d1 (dicthead (eng_of c)) (sp c);
                (r, s) \<leftarrow> write_dictionary E H dictname s;
                case r of Exit n \<Rightarrow> Some (Exit n, c\<lparr>sp := s\<rparr>) | Return _ \<Rightarrow> Some (Return 0, c\<lparr>sp := s\<rparr>) })"

definition forthstrap :: "'w env \<Rightarrow> 'w files \<Rightarrow> 'w host \<Rightarrow> nat \<Rightarrow> ucell \<Rightarrow> u8 list \<Rightarrow> string \<Rightarrow> ucell \<Rightarrow> ucell \<Rightarrow> 'w comp \<Rightarrow> (int ending \<times> 'w comp) option" where
  "forthstrap E fopen H fuel lfa source dictname d0 d1 c =
     do { (r, c) \<leftarrow> one_pass E fopen fuel lfa source d0 c;
          case r of
            Exit n \<Rightarrow> Some (Exit n, c)
          | Return _ \<Rightarrow>
              (if errors c \<noteq> 0 then finish E H dictname d0 d1 c
               else do { (r, c) \<leftarrow> one_pass E fopen fuel lfa source d1 c;
                         case r of Exit n \<Rightarrow> Some (Exit n, c) | Return _ \<Rightarrow> finish E H dictname d0 d1 c }) }"

end
