(* ===== verification/Forth_Layout.thy ===== *)
theory Forth_Layout
  imports Bootstrap
begin

text \<open>
  The dictionary while it is compiled into. \<open>layout d lim g vs h m\<close>: of the \<open>lim\<close> bytes at \<open>d\<close> the first
  \<open>h\<close> are in use; \<open>g\<close> is the part of memory that is never written again, headers and code; \<open>vs\<close> maps the addresses
  of variables to their values; everything from \<open>h\<close> on is free. Code that lies in \<open>g\<close> stays what it is whatever is
  compiled later, since reading is monotone in the memory.
\<close>

subsection \<open>Reading is monotone\<close>

lemma map_leD: "g \<subseteq>\<^sub>m m \<Longrightarrow> g x = Some v \<Longrightarrow> m x = Some v"
  by (metis domI map_le_def)

lemma read_ucell_mono: "g \<subseteq>\<^sub>m m \<Longrightarrow> read_ucell g a = Some v \<Longrightarrow> read_ucell m a = Some v"
  by (auto simp: read_ucell_def read_long_def bind_eq_Some_iff map_leD)

lemma tok_at_mono: "g \<subseteq>\<^sub>m m \<Longrightarrow> tok_at g a i \<Longrightarrow> tok_at m a i"
  by (auto simp: tok_at_def read_ucell_mono split: option.splits dest!: read_ucell_mono)

lemma compiled_mono: "g \<subseteq>\<^sub>m m \<Longrightarrow> compiled g a its \<Longrightarrow> compiled m a its"
  by (induction g a its rule: compiled.induct)
     (auto simp: read_ucell_mono tok_at_mono split: option.splits dest: read_ucell_mono)

lemma header_at_mono: "g \<subseteq>\<^sub>m m \<Longrightarrow> header_at g d no k name \<Longrightarrow> header_at m d no k name"
  by (simp add: header_at_def map_leD)

lemma chain_mono: "g \<subseteq>\<^sub>m m \<Longrightarrow> h \<le> h' \<Longrightarrow> chain g d h {} lfa ws \<Longrightarrow> chain m d h' {} lfa ws"
proof (induction ws arbitrary: lfa)
  case (Cons w ws)
  obtain n l v where w: "w = (n, l, v)" by (cases w)
  from Cons.prems(3) w obtain no k nx where c: "lfa = l" "l \<noteq> 0" "good_name n" "l = d + of_nat (no + length n + 2 + k)"
    "no + length n + k + 10 \<le> h" "header_at g d no k n" "read_ucell g (l + 4) = Some v" "read_ucell g l = Some nx" "chain g d h {} nx ws"
    by auto
  have "no + length n + k + 10 \<le> h'" using c(5) Cons.prems(2) by simp
  with c header_at_mono [OF Cons.prems(1) c(6)] read_ucell_mono [OF Cons.prems(1)] Cons.IH [OF Cons.prems(1,2)]
  show ?case unfolding w by fastforce
qed simp

subsection \<open>The layout\<close>

definition layout :: "ucell \<Rightarrow> nat \<Rightarrow> memory \<Rightarrow> (ucell \<rightharpoonup> ucell) \<Rightarrow> nat \<Rightarrow> memory \<Rightarrow> bool" where
  "layout d lim g vs h m \<longleftrightarrow>
     linear d lim \<and> lim < 2 ^ 31 \<and> mapped m d lim \<and> h \<le> lim \<and> g \<subseteq>\<^sub>m m \<and> (\<forall>x \<in> dom g. in_region d h x) \<and>
     (\<forall>p v. vs p = Some v \<longrightarrow> read_ucell m p = Some v \<and> apart (d + of_nat h) (lim - h) p 4 \<and> (\<forall>x. in_region p 4 x \<longrightarrow> x \<notin> dom g)) \<and>
     (\<forall>p q. p \<in> dom vs \<longrightarrow> q \<in> dom vs \<longrightarrow> p \<noteq> q \<longrightarrow> apart p 4 q 4)"

lemma layoutD:
  assumes "layout d lim g vs h m"
  shows "linear d lim" "lim < 2 ^ 31" "mapped m d lim" "h \<le> lim" "g \<subseteq>\<^sub>m m" "x \<in> dom g \<Longrightarrow> in_region d h x"
    "vs p = Some v \<Longrightarrow> read_ucell m p = Some v" "vs p = Some v \<Longrightarrow> apart (d + of_nat h) (lim - h) p 4"
    "vs p = Some v \<Longrightarrow> in_region p 4 x \<Longrightarrow> x \<notin> dom g"
    "p \<in> dom vs \<Longrightarrow> q \<in> dom vs \<Longrightarrow> p \<noteq> q \<Longrightarrow> apart p 4 q 4"
  using assms by (simp_all add: layout_def)

lemma layout_write:
  assumes "layout d lim g vs h m" and "vs p = Some v"
  shows "\<exists>m'. write_ucell m p v' = Some m' \<and> layout d lim g (vs(p \<mapsto> v')) h m' \<and> (\<forall>x. m x \<noteq> None \<longrightarrow> m' x \<noteq> None)"
proof -
  note L = layoutD [OF assms(1)]
  have "mapped m p 4" using read_mapped [OF L(7) [OF assms(2)]] .
  then obtain m' where w: "write_ucell m p v' = Some m'" using write_ucell_put by blast
  have dm: "(m' x = None) = (m x = None)" for x by (rule ucell_acc.wr_dom [OF w])
  have "g \<subseteq>\<^sub>m m'"
    unfolding map_le_def
  proof
    fix x assume x: "x \<in> dom g"
    then have "\<not> in_region p 4 x" using L(9) [OF assms(2)] by blast
    then have "m' x = m x" by (rule ucell_acc.wr_frame [OF w])
    then show "g x = m' x" using L(5) x by (simp add: map_le_def)
  qed
  moreover have "read_ucell m' q = Some u" if "vs q = Some u" "q \<noteq> p" for q u
  proof -
    have "apart p 4 q 4" using L(10) [of p q] that assms(2) by auto
    then have "read_ucell m' q = read_ucell m q" by (rule ucell_acc.rd_wr_apart [OF w])
    then show ?thesis using L(7) [OF that(1)] by simp
  qed
  moreover have "mapped m' d lim" using L(3) dm by (simp add: mapped_def)
  moreover have "dom (vs(p \<mapsto> v')) = dom vs" using assms(2) by auto
  ultimately have "layout d lim g (vs(p \<mapsto> v')) h m'"
    unfolding layout_def using L assms(2) ucell_acc.rd_wr_same [OF w] by auto
  moreover have "\<forall>x. m x \<noteq> None \<longrightarrow> m' x \<noteq> None" using dm by simp
  ultimately show ?thesis using w by blast
qed

lemma in_region_mono: "in_region a n x \<Longrightarrow> n \<le> k \<Longrightarrow> in_region a k x"
  by (simp add: in_region_def)

lemma dom_put: "length bs \<le> 2 ^ 32 \<Longrightarrow> dom (put m a bs) = dom m \<union> {x. in_region a (length bs) x}"
  by (auto simp: put_value split: if_splits)

lemma in_region_split:
  assumes "linear d lim" and "h + n \<le> lim"
  shows "in_region d (h + n) x \<longleftrightarrow> in_region d h x \<or> in_region (d + of_nat h) n x"
proof (cases "n = 0")
  case False
  then have u: "unat (d + of_nat h) = unat d + h" using unat_offset_linear [OF assms(1), of h] assms(2) by simp
  then have "linear d (h + n)" "linear d h" "linear (d + of_nat h) n" using assms by (simp_all add: linear_def)
  then show ?thesis using u by (simp add: in_region_linear) linarith
qed (simp add: in_region_def)

lemma in_free_apart:
  assumes "linear d lim" and "h + n \<le> lim"
  shows "apart d h (d + of_nat h) n"
proof (cases "n = 0")
  case False
  then have "unat (d + of_nat h) = unat d + h" using unat_offset_linear [OF assms(1), of h] assms(2) by simp
  then show ?thesis using assms by (intro apart_no_wrap) (simp_all add: linear_def)
qed (simp add: apart_def in_region_def)


lemma layout_below:
  assumes "layout d lim g vs h m" and "h + n \<le> lim"
  shows "x \<in> dom g \<Longrightarrow> \<not> in_region (d + of_nat h) n x" "vs p = Some v \<Longrightarrow> apart (d + of_nat h) n p 4"
    "vs p = Some v \<Longrightarrow> apart (d + of_nat (h + n)) (lim - (h + n)) p 4" "n \<le> 2 ^ 32"
proof -
  note L = layoutD [OF assms(1)]
  show n: "n \<le> 2 ^ 32" using linear_le [OF L(1)] assms(2) by simp
  show "\<not> in_region (d + of_nat h) n x" if "x \<in> dom g"
    using L(6) [OF that] in_free_apart [OF L(1) assms(2)] by (auto simp: apart_def)
  have l: "lim - h \<le> 2 ^ 32" using linear_le [OF L(1)] by simp
  show "apart (d + of_nat h) n p 4" if "vs p = Some v"
    using apart_sub [OF L(8) [OF that], of 0 n] assms(2) l by simp
  show "apart (d + of_nat (h + n)) (lim - (h + n)) p 4" if "vs p = Some v"
    using apart_sub [OF L(8) [OF that], of n "lim - (h + n)"] assms(2) l by (simp add: add.assoc)
qed

lemma map_le_put:
  assumes "length bs \<le> 2 ^ 32" and "\<And>x. x \<in> dom g \<Longrightarrow> \<not> in_region a (length bs) x" and "g \<subseteq>\<^sub>m m"
  shows "g \<subseteq>\<^sub>m put m a bs"
  unfolding map_le_def using assms put_other [OF assms(1)] by (auto simp: map_le_def)

lemma put_map_le: "length bs \<le> 2 ^ 32 \<Longrightarrow> g \<subseteq>\<^sub>m m \<Longrightarrow> put g a bs \<subseteq>\<^sub>m put m a bs"
  by (auto simp: map_le_def put_value split: if_splits)

text \<open>Bytes that stay: headers and code.\<close>

lemma layout_code:
  assumes "layout d lim g vs h m" and "h + length bs \<le> lim"
  shows "layout d lim (put g (d + of_nat h) bs) vs (h + length bs) (put m (d + of_nat h) bs)"
    and "g \<subseteq>\<^sub>m put g (d + of_nat h) bs"
proof -
  note L = layoutD [OF assms(1)] and B = layout_below [OF assms]
  let ?a = "d + of_nat h"
  show "g \<subseteq>\<^sub>m put g ?a bs" by (rule map_le_put) (use B in auto)
  have "put g ?a bs \<subseteq>\<^sub>m put m ?a bs" by (rule put_map_le [OF B(4) L(5)])
  moreover have "\<forall>x \<in> dom (put g ?a bs). in_region d (h + length bs) x"
    using dom_put [OF B(4)] L(6) in_region_split [OF L(1) assms(2)] by auto
  moreover have "read_ucell (put m ?a bs) p = Some v" if "vs p = Some v" for p v
    using read_ucell_put_other [OF B(4) B(2) [OF that]] L(7) [OF that] by simp
  moreover have "x \<notin> dom (put g ?a bs)" if "vs p = Some v" "in_region p 4 x" for p v x
    using that L(9) [OF that] B(2) [OF that(1)] dom_put [OF B(4)] by (auto simp: apart_def)
  moreover have "mapped (put m ?a bs) d lim" using L(3) put_dom by (simp add: mapped_def)
  ultimately show "layout d lim (put g ?a bs) vs (h + length bs) (put m ?a bs)"
    unfolding layout_def using L(1,2) assms(2) B(3) L(10) by blast
qed

text \<open>A new variable.\<close>

lemma layout_var:
  assumes "layout d lim g vs h m" and "h + 4 \<le> lim"
  shows "layout d lim g (vs(d + of_nat h \<mapsto> v)) (h + 4) (put m (d + of_nat h) (cell_bytes v))"
    and "d + of_nat h \<notin> dom vs"
proof -
  note L = layoutD [OF assms(1)] and B = layout_below [OF assms]
  let ?a = "d + of_nat h" and ?bs = "cell_bytes v"
  have own: "in_region ?a 4 ?a" by (simp add: in_region_def)
  show new: "?a \<notin> dom vs"
  proof
    assume "?a \<in> dom vs"
    then obtain u where "vs ?a = Some u" by blast
    from B(2) [OF this] own show False by (auto simp: apart_def)
  qed
  have "g \<subseteq>\<^sub>m put m ?a ?bs" by (rule map_le_put) (use B L(5) in auto)
  moreover have "\<forall>x \<in> dom g. in_region d (h + 4) x" using L(6) in_region_mono [of d h _ "h + 4"] by auto
  moreover have "mapped m ?a 4" using mapped_sub [OF L(3), of h 4] assms(2) by simp
  then have "read_ucell (put m ?a ?bs) ?a = Some v" by (rule read_ucell_put_cell)
  moreover have "apart (d + of_nat (h + 4)) (lim - (h + 4)) ?a 4"
  proof -
    have "unat ?a = unat d + h" "unat (d + of_nat (h + 4)) = unat d + (h + 4) \<or> lim = h + 4"
      using unat_offset_linear [OF L(1), of h] unat_offset_linear [OF L(1), of "h + 4"] assms(2) by (auto simp del: of_nat_add)
    then show ?thesis using L(1) assms(2) apart_no_wrap [of ?a 4 "d + of_nat (h + 4)" "lim - (h + 4)"]
      by (auto simp: linear_def apart_sym [of _ _ ?a] apart_def in_region_def simp del: of_nat_add)
  qed
  moreover have "read_ucell (put m ?a ?bs) p = Some u" if "vs p = Some u" for p u
    using read_ucell_put_other [of ?bs ?a p m] B(2) [OF that] L(7) [OF that] by simp
  moreover have "\<forall>p q. p \<in> dom (vs(?a \<mapsto> v)) \<longrightarrow> q \<in> dom (vs(?a \<mapsto> v)) \<longrightarrow> p \<noteq> q \<longrightarrow> apart p 4 q 4"
    using L(10) B(2) by (auto simp: apart_sym)
  moreover have "mapped (put m ?a ?bs) d lim" using L(3) put_dom by (simp add: mapped_def)
  moreover have "x \<notin> dom g" if "in_region ?a 4 x" for x using B(1) that by blast
  ultimately show "layout d lim g (vs(?a \<mapsto> v)) (h + 4) (put m ?a ?bs)"
    unfolding layout_def using L(1,2) assms(2) B(3) L(9) new by auto
qed


subsection \<open>The builder's steps on a layout\<close>

text \<open>
  The builder changes the memory and \<open>dicthead\<close> only. \<open>shape\<close>: the layout, with the words \<open>ws\<close> chained from the
  variable \<open>latest\<close>, all with clear flags.
\<close>

definition upd :: "memory \<Rightarrow> cell \<Rightarrow> 'w boot \<Rightarrow> 'w boot" where
  "upd m h b = b\<lparr>eng := (eng b)\<lparr>mem := m, dicthead := h\<rparr>\<rparr>"

lemma upd_simps [simp]:
  "mem (eng (upd m h b)) = m" "dicthead (eng (upd m h b)) = h" "dict (eng (upd m h b)) = dict (eng b)"
  "last_word (eng (upd m h b)) = last_word (eng b)" "latest (upd m h b) = latest b" "state_ptr (upd m h b) = state_ptr b"
  "base_ptr (upd m h b) = base_ptr b" "upd m h (upd m' h' b) = upd m h b"
  "here_addr (upd m h b) = dict (eng b) + h"
  by (simp_all add: upd_def here_addr_def)

lemma set_mem_upd: "set_mem m b = upd m (dicthead (eng b)) b"
  by (simp add: set_mem_def upd_def)

lemma emitted_upd: "emitted bs b = upd (put (mem (eng b)) (here_addr b) bs) (dicthead (eng b) + of_nat (length bs)) b"
  by (simp add: emitted_def add_head_def set_mem_def upd_def)

abbreviation used :: "'w boot \<Rightarrow> nat" where "used b \<equiv> unat (dicthead (eng b))"

definition shape :: "nat \<Rightarrow> memory \<Rightarrow> (ucell \<rightharpoonup> ucell) \<Rightarrow> (u8 list \<times> ucell \<times> ucell) list \<Rightarrow> 'w boot \<Rightarrow> bool" where
  "shape lim g vs ws b \<longleftrightarrow>
     layout (dict (eng b)) lim g vs (used b) (mem (eng b)) \<and> used b mod 4 = 0 \<and>
     (\<exists>lfa. vs (latest b) = Some lfa \<and> chain g (dict (eng b)) (used b) {} lfa ws) \<and>
     (\<forall>n l v. (n, l, v) \<in> set ws \<longrightarrow> g (l - 1) = Some 128)"

lemma here_used: "here_addr b = dict (eng b) + of_nat (used b)"
  by (simp add: here_addr_def)

lemma used_add: "used b + n < 2 ^ 31 \<Longrightarrow> unat (dicthead (eng b) + of_nat n) = used b + n"
  by (rule unat_add_small) simp

lemma layout_room: "layout (dict (eng b)) lim g vs (used b) (mem (eng b)) \<Longrightarrow> used b + n \<le> lim \<Longrightarrow> room n b"
  using mapped_sub [of "mem (eng b)" "dict (eng b)" lim "used b" n] layout_below(4) [of "dict (eng b)" lim g vs "used b" "mem (eng b)" n]
  by (simp add: room_def here_used layoutD(3))

lemma writecell_code:
  assumes "shape lim g vs ws b" and "used b + 4 \<le> lim"
  shows "\<exists>m h g'. writecell v b = Some (upd m h b) \<and> shape lim g' vs ws (upd m h b) \<and> g \<subseteq>\<^sub>m g' \<and>
    read_ucell g' (here_addr b) = Some v \<and> unat h = used b + 4 \<and> dict (eng b) + h = here_addr b + 4"
proof -
  let ?g = "put g (here_addr b) (cell_bytes v)" and ?h = "dicthead (eng b) + 4" and ?m = "put (mem (eng b)) (here_addr b) (cell_bytes v)"
  have L: "layout (dict (eng b)) lim g vs (used b) (mem (eng b))" using assms(1) by (simp add: shape_def)
  from assms(1) obtain lfa where s: "used b mod 4 = 0" "vs (latest b) = Some lfa" "chain g (dict (eng b)) (used b) {} lfa ws"
    "\<And>n l v. (n, l, v) \<in> set ws \<Longrightarrow> g (l - 1) = Some 128" by (auto simp: shape_def)
  have u: "unat ?h = used b + 4" using used_add [of b 4] layoutD(2) [OF L] assms(2) by simp
  note C = layout_code [OF L, of "cell_bytes v"]
  have l: "layout (dict (eng b)) lim ?g vs (used b + 4) ?m" and g: "g \<subseteq>\<^sub>m ?g"
    using C assms(2) by (simp_all add: here_used)
  have "writecell v b = Some (upd ?m ?h b)"
    using writecell_emits [OF layout_room [OF L assms(2)]] by (simp add: emitted_upd)
  moreover have "shape lim ?g vs ws (upd ?m ?h b)"
    unfolding shape_def upd_simps u using l s chain_mono [OF g _ s(3), of "used b + 4"] map_leD [OF g] by (auto simp: mod_simps)
  moreover have "read_ucell ?g (here_addr b) = Some v"
    using read_ucell_put_inner [of "cell_bytes v" "[]" v "[]" g "here_addr b"] by simp
  ultimately show ?thesis using g u by (intro exI [of _ ?m] exI [of _ ?h] exI [of _ ?g]) (simp add: here_addr_def)
qed

lemma writecell_var:
  assumes "shape lim g vs ws b" and "used b + 4 \<le> lim"
  shows "\<exists>m h. writecell v b = Some (upd m h b) \<and> shape lim g (vs(here_addr b \<mapsto> v)) ws (upd m h b) \<and>
    here_addr b \<notin> dom vs \<and> unat h = used b + 4 \<and> dict (eng b) + h = here_addr b + 4"
proof -
  let ?h = "dicthead (eng b) + 4" and ?m = "put (mem (eng b)) (here_addr b) (cell_bytes v)"
  have L: "layout (dict (eng b)) lim g vs (used b) (mem (eng b))" using assms(1) by (simp add: shape_def)
  from assms(1) obtain lfa where s: "used b mod 4 = 0" "vs (latest b) = Some lfa" "chain g (dict (eng b)) (used b) {} lfa ws"
    "\<And>n l v. (n, l, v) \<in> set ws \<Longrightarrow> g (l - 1) = Some 128" by (auto simp: shape_def)
  have u: "unat ?h = used b + 4" using used_add [of b 4] layoutD(2) [OF L] assms(2) by simp
  note C = layout_var(1) [OF L assms(2), of v, folded here_used] layout_var(2) [OF L assms(2), folded here_used]
  have "latest b \<noteq> here_addr b" using C(2) s(2) by auto
  then have "shape lim g (vs(here_addr b \<mapsto> v)) ws (upd ?m ?h b)"
    unfolding shape_def upd_simps u using C(1) s chain_mono [OF map_le_refl _ s(3), of "used b + 4"] by (auto simp: mod_simps)
  moreover have "writecell v b = Some (upd ?m ?h b)"
    using writecell_emits [OF layout_room [OF L assms(2)]] by (simp add: emitted_upd)
  ultimately show ?thesis using C(2) u by (intro exI [of _ ?m] exI [of _ ?h]) (simp add: here_addr_def)
qed

lemma write_variable:
  assumes "shape lim g vs ws b" and "vs p = Some u" and "p \<noteq> latest b"
  shows "\<exists>m. write_ucell (mem (eng b)) p v = Some m \<and> shape lim g (vs(p \<mapsto> v)) ws (upd m (dicthead (eng b)) b)"
proof -
  have "layout (dict (eng b)) lim g vs (used b) (mem (eng b))" using assms(1) by (simp add: shape_def)
  from layout_write [OF this assms(2), of v] show ?thesis
    using assms(1,3) by (auto simp: shape_def)
qed

lemma fcreate_shape:
  assumes "shape lim g vs ws b" and "good_name word" and "used b + length word + 13 \<le> lim"
  shows "\<exists>m h g' lfa. fcreate E word v b = Some (upd m h b) \<and> shape lim g' (vs(latest b \<mapsto> lfa)) ((word, lfa, v) # ws) (upd m h b) \<and>
    g \<subseteq>\<^sub>m g' \<and> dict (eng b) + h = lfa + 8 \<and> unat h \<le> used b + length word + 13 \<and> used b < unat h"
proof -
  let ?d = "dict (eng b)" and ?k = "new_pad word b" and ?lfa = "new_lfa word b"
  let ?n = "length word + 10 + ?k"
  have L: "layout ?d lim g vs (used b) (mem (eng b))" using assms(1) by (simp add: shape_def)
  note D = layoutD [OF L]
  from assms(1) obtain link where s: "used b mod 4 = 0" "vs (latest b) = Some link" "chain g ?d (used b) {} link ws"
    "\<And>n l v. (n, l, v) \<in> set ws \<Longrightarrow> g (l - 1) = Some 128" by (auto simp: shape_def)
  have k: "?k < 4" by (simp add: new_pad_def pad_of_less)
  have n: "used b + ?n \<le> lim" using k assms(3) by simp
  note B = layout_below [OF L n]
  let ?bs = "word_bytes word ?k link v"
  let ?m1 = "put (mem (eng b)) (here_addr b) ?bs" and ?g = "put g (here_addr b) ?bs"
  let ?m2 = "put ?m1 (latest b) (cell_bytes ?lfa)" and ?h = "dicthead (eng b) + of_nat ?n"
  have "word \<noteq> []" using assms(2) by (auto simp: good_name_def)
  from fcreate_creates [OF this layout_room [OF L n] B(2) [OF s(2), folded here_used] D(7) [OF s(2)], of E v]
  have "fcreate E word v b = Some (created word v link b)" .
  also have "created word v link b = upd ?m2 ?h b"
    by (simp add: created_def Let_def emitted_upd set_mem_upd add.assoc)
  finally have f: "fcreate E word v b = Some (upd ?m2 ?h b)" .
  have u: "unat ?h = used b + ?n" using used_add [of b ?n] D(2) n by (simp del: of_nat_add)
  have "used b + length ?bs \<le> lim" using n by simp
  note C = layout_code [OF L this, folded here_used]
  from layout_write [OF C(1) s(2), of ?lfa] write_ucell_put [OF read_mapped [OF layoutD(7) [OF C(1) s(2)]], of ?lfa]
  have l: "layout ?d lim ?g (vs(latest b \<mapsto> ?lfa)) (used b + ?n) ?m2" by (simp add: add.assoc)
  have lfa: "?lfa = ?d + of_nat (used b + length word + 2 + ?k)" by (simp add: new_lfa_def here_addr_def ac_simps)
  have ch: "chain ?g ?d (used b + ?n) {} ?lfa ((word, ?lfa, v) # ws)"
    using chain_extend [OF s(3) D(1) _ assms(2) _ lfa, of v] n by (simp add: here_used add.assoc)
  have "put g (here_addr b) ?bs (here_addr b + of_nat (length word + 1 + ?k)) = Some (?bs ! (length word + 1 + ?k))"
    using B(4) by (intro put_get) simp_all
  moreover have "here_addr b + of_nat (length word + 1 + ?k) = ?lfa - 1" by (simp add: new_lfa_def)
  moreover have "?bs ! (length word + 1 + ?k) = 128" by (simp add: word_bytes_def name_bytes_def nth_append)
  ultimately have fl: "?g (?lfa - 1) = Some 128" by (simp only:)
  have "(used b + ?n) mod 4 = 0"
    using pad_total [OF s(1), of "length word"] n D(2) by (simp add: new_pad_def) presburger
  then have "shape lim ?g (vs(latest b \<mapsto> ?lfa)) ((word, ?lfa, v) # ws) (upd ?m2 ?h b)"
    unfolding shape_def upd_simps u using l ch fl s(4) map_leD [OF C(2)] by auto
  moreover have "?d + ?h = ?lfa + 8" by (simp add: lfa)
  ultimately show ?thesis using f C(2) u k by (intro exI [of _ ?m2] exI [of _ ?h] exI [of _ ?g] exI [of _ ?lfa]) simp
qed


subsection \<open>The initial dictionary\<close>

lemma build_prims_shape:
  assumes "\<And>n. n \<in> set ns \<Longrightarrow> n \<noteq> [] \<Longrightarrow> good_name (cstr n)"
  shows "shape lim g vs ws b \<Longrightarrow> used b + names_size ns \<le> lim \<Longrightarrow>
    \<exists>m h g' lfa es. build_prims E i ns b = Some (upd m h b) \<and> shape lim g' (vs(latest b \<mapsto> lfa)) (es @ ws) (upd m h b) \<and>
      g \<subseteq>\<^sub>m g' \<and> map entry es = rev (prim_entries i ns) \<and> unat h \<le> used b + names_size ns"
  using assms
proof (induction ns arbitrary: b ws g vs i)
  case Nil
  then obtain lfa where "vs (latest b) = Some lfa" by (auto simp: shape_def)
  then have "vs(latest b \<mapsto> lfa) = vs" by (rule fun_upd_idem)
  moreover have b: "upd (mem (eng b)) (dicthead (eng b)) b = b" by (simp add: upd_def)
  ultimately have "shape lim g (vs(latest b \<mapsto> lfa)) ([] @ ws) (upd (mem (eng b)) (dicthead (eng b)) b)" using Nil.prems(1) by simp
  moreover have "build_prims E i [] b = Some (upd (mem (eng b)) (dicthead (eng b)) b)" using b by simp
  moreover have "map entry [] = rev (prim_entries i [])" "used b \<le> used b + names_size []" by simp_all
  ultimately show ?case using map_le_refl by blast
next
  case (Cons n ns)
  show ?case
  proof (cases "n = []")
    case True
    have size: "names_size (n # ns) = 13 + names_size ns" using True by (simp add: names_size_def)
    have pre: "used b + names_size ns \<le> lim" "\<And>n. n \<in> set ns \<Longrightarrow> n \<noteq> [] \<Longrightarrow> good_name (cstr n)"
      using Cons.prems(2,3) size by simp_all
    from Cons.IH [OF Cons.prems(1) pre, of "Suc i"] obtain m h g' lfa es where
      r: "build_prims E (Suc i) ns b = Some (upd m h b)" "shape lim g' (vs(latest b \<mapsto> lfa)) (es @ ws) (upd m h b)" "g \<subseteq>\<^sub>m g'"
      "map entry es = rev (prim_entries (Suc i) ns)" "unat h \<le> used b + names_size ns" by blast
    have "build_prims E i (n # ns) b = Some (upd m h b)" "map entry es = rev (prim_entries i (n # ns))"
      "unat h \<le> used b + names_size (n # ns)" using r True size by simp_all
    then show ?thesis using r(2,3) by blast
  next
    case False
    have g: "good_name (cstr n)" using Cons.prems(3) False by simp
    have s: "used b + length (cstr n) + 13 + names_size ns \<le> lim" using Cons.prems(2) by (simp add: names_size_def)
    from fcreate_shape [OF Cons.prems(1) g, of E "of_nat i"] s obtain m1 h1 g1 l1 where
      1: "fcreate E (cstr n) (of_nat i) b = Some (upd m1 h1 b)"
      "shape lim g1 (vs(latest b \<mapsto> l1)) ((cstr n, l1, of_nat i) # ws) (upd m1 h1 b)" "g \<subseteq>\<^sub>m g1"
      "unat h1 \<le> used b + length (cstr n) + 13" by auto
    have pre: "used (upd m1 h1 b) + names_size ns \<le> lim" "\<And>n. n \<in> set ns \<Longrightarrow> n \<noteq> [] \<Longrightarrow> good_name (cstr n)"
      using 1(4) s Cons.prems(3) by simp_all
    from Cons.IH [OF 1(2) pre, of "Suc i", unfolded upd_simps fun_upd_upd] obtain m h g2 l es where
      2: "build_prims E (Suc i) ns (upd m1 h1 b) = Some (upd m h b)" "g1 \<subseteq>\<^sub>m g2" "map entry es = rev (prim_entries (Suc i) ns)"
      "shape lim g2 (vs(latest b \<mapsto> l)) (es @ (cstr n, l1, of_nat i) # ws) (upd m h b)" "unat h \<le> unat h1 + names_size ns" by blast
    let ?es = "es @ [(cstr n, l1, of_nat i)]"
    have "build_prims E i (n # ns) b = Some (upd m h b)" "map entry ?es = rev (prim_entries i (n # ns))"
      "unat h \<le> used b + names_size (n # ns)" using 1(1,4) 2(1,3,5) False by (simp_all add: names_size_def)
    moreover have "shape lim g2 (vs(latest b \<mapsto> l)) (?es @ ws) (upd m h b)" using 2(4) by simp
    ultimately show ?thesis using map_le_trans [OF 1(3) 2(2)] by blast
  qed
qed

lemma buildvariable_shape:
  assumes "shape lim g vs ws b" and "good_name name" and "used b + length name + 17 \<le> lim" and "used b + length name + 17 \<le> n"
  shows "\<exists>m h g' lfa. buildvariable E name v b = Some (lfa + 8, upd m h b) \<and>
    shape lim g' (vs(latest b \<mapsto> lfa, lfa + 8 \<mapsto> v)) ((name, lfa, 4) # ws) (upd m h b) \<and> g \<subseteq>\<^sub>m g' \<and>
    lfa + 8 \<notin> dom vs \<and> lfa + 8 \<noteq> 0 \<and> lfa + 8 \<noteq> latest b \<and> unat h \<le> n"
proof -
  from fcreate_shape [OF assms(1,2), of E 4] assms(3) obtain m1 h1 g1 l where
    1: "fcreate E name 4 b = Some (upd m1 h1 b)" "shape lim g1 (vs(latest b \<mapsto> l)) ((name, l, 4) # ws) (upd m1 h1 b)" "g \<subseteq>\<^sub>m g1"
    "dict (eng b) + h1 = l + 8" "unat h1 \<le> used b + length name + 13" "used b < unat h1" by auto
  have "linear (dict (eng b)) lim" using assms(1) by (auto simp: shape_def layout_def)
  then have "unat (dict (eng b) + of_nat (unat h1)) = unat (dict (eng b)) + unat h1"
    by (rule unat_offset_linear) (use 1(5) assms(3) in simp)
  then have nz: "l + 8 \<noteq> 0" using 1(4,6) by auto
  have "used (upd m1 h1 b) + 4 \<le> lim" using 1(5) assms(3) by simp
  from writecell_var [OF 1(2) this, of v, unfolded upd_simps 1(4)] obtain m h where
    2: "writecell v (upd m1 h1 b) = Some (upd m h b)" "shape lim g1 (vs(latest b \<mapsto> l, l + 8 \<mapsto> v)) ((name, l, 4) # ws) (upd m h b)"
    "l + 8 \<notin> dom (vs(latest b \<mapsto> l))" "unat h = unat h1 + 4" "dict (eng b) + h = l + 8 + 4" by (elim exE conjE)
  have "buildvariable E name v b = Some (l + 8, upd m h b)" using 1(1) 2(1,5) by (simp add: buildvariable_def)
  moreover have "l + 8 \<notin> dom vs" "l + 8 \<noteq> latest b" using 2(3) by auto
  moreover have "unat h \<le> n" using 1(5) 2(4) assms(4) by simp
  ultimately show ?thesis using 1(3) 2(2) nz by blast
qed

lemma buildconstant_shape:
  assumes "shape lim g vs ws b" and "good_name name" and "used b + length name + 17 \<le> lim"
  shows "\<exists>m h g' lfa. buildconstant E name v b = Some (upd m h b) \<and>
    shape lim g' (vs(latest b \<mapsto> lfa)) ((name, lfa, 3) # ws) (upd m h b) \<and> g \<subseteq>\<^sub>m g' \<and> read_ucell g' (lfa + 8) = Some v \<and>
    unat h \<le> used b + length name + 17"
proof -
  from fcreate_shape [OF assms(1,2), of E 3] assms(3) obtain m1 h1 g1 l where
    1: "fcreate E name 3 b = Some (upd m1 h1 b)" "shape lim g1 (vs(latest b \<mapsto> l)) ((name, l, 3) # ws) (upd m1 h1 b)" "g \<subseteq>\<^sub>m g1"
    "dict (eng b) + h1 = l + 8" "unat h1 \<le> used b + length name + 13" by auto
  have here: "here_addr (upd m1 h1 b) = l + 8" using 1(4) by simp
  have "used (upd m1 h1 b) + 4 \<le> lim" using 1(5) assms(3) by simp
  from writecell_code [OF 1(2) this, of v, unfolded here] obtain m h g2 where
    2: "writecell v (upd m1 h1 b) = Some (upd m h b)" "shape lim g2 (vs(latest b \<mapsto> l)) ((name, l, 3) # ws) (upd m h b)"
    "g1 \<subseteq>\<^sub>m g2" "read_ucell g2 (l + 8) = Some v" "unat h = unat h1 + 4" by auto
  show ?thesis
    using 1 2 map_le_trans [OF 1(3) 2(3)]
    by (intro exI [of _ m] exI [of _ h] exI [of _ g2] exI [of _ l]) (auto simp: buildconstant_def)
qed

lemma shape_ptrs [simp]:
  "shape lim g vs ws (b\<lparr>state_ptr := p\<rparr>) \<longleftrightarrow> shape lim g vs ws b"
  "shape lim g vs ws (b\<lparr>base_ptr := p\<rparr>) \<longleftrightarrow> shape lim g vs ws b"
  "shape lim g vs ws (b\<lparr>eng := (eng b)\<lparr>last_word := p\<rparr>\<rparr>) \<longleftrightarrow> shape lim g vs ws b"
  by (simp_all add: shape_def)

text \<open>\<open>latest\<close> moves to a variable that gets its value.\<close>

lemma shape_latest:
  assumes "shape lim g vs ws b" and "vs p = Some u" and "vs (latest b) = Some lfa"
  shows "\<exists>m. write_ucell (mem (eng b)) p lfa = Some m \<and> shape lim g (vs(p \<mapsto> lfa)) ws (upd m (dicthead (eng b)) (b\<lparr>latest := p\<rparr>))"
proof -
  have "layout (dict (eng b)) lim g vs (used b) (mem (eng b))" using assms(1) by (simp add: shape_def)
  from layout_write [OF this assms(2), of lfa] show ?thesis
    using assms(1,3) by (auto simp: shape_def upd_def)
qed

text \<open>The pointers of the compiler: four different variables.\<close>

definition pointers :: "(ucell \<rightharpoonup> ucell) \<Rightarrow> ucell \<Rightarrow> 'w boot \<Rightarrow> bool" where
  "pointers vs q b \<longleftrightarrow> vs (state_ptr b) = Some q \<and> vs (base_ptr b) = Some 10 \<and> last_word (eng b) \<in> dom vs \<and>
     distinct [latest b, last_word (eng b), state_ptr b, base_ptr b]"

text \<open>\<open>visible\<close>: the words \<open>us\<close> that \<open>findword\<close> sees.\<close>

definition visible :: "memory \<Rightarrow> (ucell \<rightharpoonup> ucell) \<Rightarrow> (u8 list \<times> ucell \<times> ucell) list \<Rightarrow> 'w boot \<Rightarrow> bool" where
  "visible g vs us b \<longleftrightarrow> last_word (eng b) \<noteq> 0 \<and>
     (\<exists>lfa. vs (last_word (eng b)) = Some lfa \<and> chain g (dict (eng b)) (used b) {} lfa us)"

lemma reveal_shape:
  assumes "shape lim g vs ws b" and "pointers vs q b" and "last_word (eng b) \<noteq> 0"
  shows "\<exists>m vs'. reveal b = Some (upd m (dicthead (eng b)) b) \<and> shape lim g vs' ws (upd m (dicthead (eng b)) b) \<and>
     pointers vs' q (upd m (dicthead (eng b)) b) \<and> visible g vs' ws (upd m (dicthead (eng b)) b)"
proof -
  from assms(1) obtain lfa where l: "vs (latest b) = Some lfa" "chain g (dict (eng b)) (used b) {} lfa ws"
    and L: "layout (dict (eng b)) lim g vs (used b) (mem (eng b))" by (auto simp: shape_def)
  from assms(2) obtain u where u: "vs (last_word (eng b)) = Some u" "last_word (eng b) \<noteq> latest b" by (auto simp: pointers_def)
  from write_variable [OF assms(1) u, of lfa] obtain m where
    m: "write_ucell (mem (eng b)) (last_word (eng b)) lfa = Some m"
    "shape lim g (vs(last_word (eng b) \<mapsto> lfa)) ws (upd m (dicthead (eng b)) b)" by blast
  have "reveal b = Some (upd m (dicthead (eng b)) b)"
    using layoutD(7) [OF L l(1)] m(1) by (simp add: reveal_def set_mem_upd)
  moreover have "pointers (vs(last_word (eng b) \<mapsto> lfa)) q (upd m (dicthead (eng b)) b)"
    using assms(2) by (auto simp: pointers_def)
  moreover have "visible g (vs(last_word (eng b) \<mapsto> lfa)) ws (upd m (dicthead (eng b)) b)"
    using l(2) assms(3) by (simp add: visible_def)
  ultimately show ?thesis using m(2) by blast
qed


lemma build_vars_shape:
  assumes "shape lim g vs ws b" and "used b + 90 \<le> lim"
  shows "\<exists>b' g' vs' es. build_vars E b = Some b' \<and> shape lim g' vs' (es @ ws) b' \<and> g \<subseteq>\<^sub>m g' \<and>
    map entry es = [(cstr ''latest'', 4), (cstr ''forth-last'', 4), (cstr ''state'', 4)] \<and> dict (eng b') = dict (eng b) \<and>
    used b' \<le> used b + 90 \<and> vs' (state_ptr b') = Some 0 \<and> last_word (eng b') \<in> dom vs' \<and> last_word (eng b') \<noteq> 0 \<and>
    distinct [latest b', last_word (eng b'), state_ptr b']"
proof -
  have "used b + length (cstr ''state'') + 17 \<le> lim" "used b + length (cstr ''state'') + 17 \<le> used b + 22" using assms(2) by simp_all
  from buildvariable_shape [OF assms(1) var_names(9) this, of E 0] obtain m1 h1 g1 l1 where
    1: "buildvariable E (cstr ''state'') 0 b = Some (l1 + 8, upd m1 h1 b)"
    "shape lim g1 (vs(latest b \<mapsto> l1, l1 + 8 \<mapsto> 0)) ((cstr ''state'', l1, 4) # ws) (upd m1 h1 b)" "g \<subseteq>\<^sub>m g1"
    "l1 + 8 \<noteq> latest b" "unat h1 \<le> used b + 22" by blast
  let ?b1 = "(upd m1 h1 b)\<lparr>state_ptr := l1 + 8\<rparr>" and ?vs1 = "vs(latest b \<mapsto> l1, l1 + 8 \<mapsto> 0)"
  have f1: "latest ?b1 = latest b" by simp
  have s1: "shape lim g1 ?vs1 ((cstr ''state'', l1, 4) # ws) ?b1" using 1(2) by simp
  have "used ?b1 + length (cstr ''forth-last'') + 17 \<le> lim" "used ?b1 + length (cstr ''forth-last'') + 17 \<le> used b + 49" using assms(2) 1(5) by simp_all
  from buildvariable_shape [OF s1 var_names(8) this, of E 0, unfolded f1] obtain m2 h2 g2 l2 where
    2: "buildvariable E (cstr ''forth-last'') 0 ?b1 = Some (l2 + 8, upd m2 h2 ?b1)"
    "shape lim g2 (?vs1(latest b \<mapsto> l2, l2 + 8 \<mapsto> 0)) ((cstr ''forth-last'', l2, 4) # (cstr ''state'', l1, 4) # ws) (upd m2 h2 ?b1)" "g1 \<subseteq>\<^sub>m g2"
    "l2 + 8 \<notin> dom ?vs1" "l2 + 8 \<noteq> 0" "l2 + 8 \<noteq> latest b" "unat h2 \<le> used b + 49" by blast
  let ?b2 = "(upd m2 h2 ?b1)\<lparr>eng := (eng (upd m2 h2 ?b1))\<lparr>last_word := l2 + 8\<rparr>\<rparr>" and ?vs2 = "?vs1(latest b \<mapsto> l2, l2 + 8 \<mapsto> 0)"
  have f2: "latest ?b2 = latest b" by simp
  have s2: "shape lim g2 ?vs2 ((cstr ''forth-last'', l2, 4) # (cstr ''state'', l1, 4) # ws) ?b2" using 2(2) by simp
  have "used ?b2 + length (cstr ''latest'') + 17 \<le> lim" "used ?b2 + length (cstr ''latest'') + 17 \<le> used b + 72" using assms(2) 2(7) by simp_all
  from buildvariable_shape [OF s2 var_names(7) this, of E 0, unfolded f2] obtain m3 h3 g3 l3 where
    3: "buildvariable E (cstr ''latest'') 0 ?b2 = Some (l3 + 8, upd m3 h3 ?b2)"
    "shape lim g3 (?vs2(latest b \<mapsto> l3, l3 + 8 \<mapsto> 0)) ((cstr ''latest'', l3, 4) # (cstr ''forth-last'', l2, 4) # (cstr ''state'', l1, 4) # ws) (upd m3 h3 ?b2)"
    "g2 \<subseteq>\<^sub>m g3" "l3 + 8 \<notin> dom ?vs2" "l3 + 8 \<noteq> latest b" "unat h3 \<le> used b + 72" by blast
  let ?b3 = "upd m3 h3 ?b2" and ?vs3 = "?vs2(latest b \<mapsto> l3, l3 + 8 \<mapsto> 0)"
  have dh: "dicthead (eng ?b3) = h3" by simp
  have "?vs3 (l3 + 8) = Some 0" "?vs3 (latest ?b3) = Some l3" using 3(5) by simp_all
  from shape_latest [OF 3(2) this, unfolded dh] obtain m where
    4: "write_ucell (mem (eng ?b3)) (l3 + 8) l3 = Some m"
    "shape lim g3 (?vs3(l3 + 8 \<mapsto> l3)) ((cstr ''latest'', l3, 4) # (cstr ''forth-last'', l2, 4) # (cstr ''state'', l1, 4) # ws)
       (upd m h3 (?b3\<lparr>latest := l3 + 8\<rparr>))" by blast
  let ?b' = "upd m h3 (?b3\<lparr>latest := l3 + 8\<rparr>)" and ?vs' = "?vs3(l3 + 8 \<mapsto> l3)"
  have bv: "build_vars E b = Some ?b'" using 1(1) 2(1) 3(1) 4(1) by (simp add: build_vars_def set_mem_upd)
  have "l1 + 8 \<noteq> l2 + 8" "l1 + 8 \<noteq> l3 + 8" "l2 + 8 \<noteq> l3 + 8" using 2(4) 3(4) by auto
  then have p: "?vs' (l1 + 8) = Some 0" "l2 + 8 \<in> dom ?vs'" "distinct [l3 + 8, l2 + 8, l1 + 8]"
    using 1(4) by auto
  have f: "state_ptr ?b' = l1 + 8" "last_word (eng ?b') = l2 + 8" "latest ?b' = l3 + 8" "dict (eng ?b') = dict (eng b)" "used ?b' = unat h3"
    by (simp_all add: upd_def)
  let ?es = "[(cstr ''latest'', l3, 4), (cstr ''forth-last'', l2, 4), (cstr ''state'', l1, 4)]"
  have "shape lim g3 ?vs' (?es @ ws) ?b'" using 4(2) by simp
  moreover have "g \<subseteq>\<^sub>m g3" using 1(3) 2(3) 3(3) map_le_trans by blast
  moreover have "map entry ?es = [(cstr ''latest'', 4), (cstr ''forth-last'', 4), (cstr ''state'', 4)]" by simp
  moreover have "used ?b' \<le> used b + 90" using f(5) 3(6) by simp
  moreover have "?vs' (state_ptr ?b') = Some 0" "last_word (eng ?b') \<in> dom ?vs'" "last_word (eng ?b') \<noteq> 0"
    "distinct [latest ?b', last_word (eng ?b'), state_ptr ?b']" unfolding f by (rule p(1), rule p(2), rule 2(5), rule p(3))
  ultimately show ?thesis using bv f(4)
    by - (rule exI [of _ ?b'], rule exI [of _ g3], rule exI [of _ ?vs'], rule exI [of _ ?es], intro conjI, assumption+)
qed


lemma constants_shape:
  assumes "list_all (\<lambda>(n, v). good_name n \<and> length n \<le> 13) cs"
  shows "shape lim g vs ws b \<Longrightarrow> used b + 30 * length cs \<le> lim \<Longrightarrow>
    \<exists>m h g' lfa es. fold (\<lambda>(n, v) r. do { b \<leftarrow> r; buildconstant E n v b }) cs (Some b) = Some (upd m h b) \<and>
      shape lim g' (vs(latest b \<mapsto> lfa)) (es @ ws) (upd m h b) \<and> g \<subseteq>\<^sub>m g' \<and> map entry es = rev (map (\<lambda>(n, v). (n, 3)) cs) \<and>
      unat h \<le> used b + 30 * length cs"
  using assms
proof (induction cs arbitrary: g vs ws b)
  case Nil
  then obtain lfa where "vs (latest b) = Some lfa" by (auto simp: shape_def)
  then have "vs(latest b \<mapsto> lfa) = vs" by (rule fun_upd_idem)
  moreover have b: "upd (mem (eng b)) (dicthead (eng b)) b = b" by (simp add: upd_def)
  ultimately have "shape lim g (vs(latest b \<mapsto> lfa)) ([] @ ws) (upd (mem (eng b)) (dicthead (eng b)) b)" using Nil.prems(1) by simp
  moreover have "fold (\<lambda>(n, v) r. do { b \<leftarrow> r; buildconstant E n v b }) [] (Some b) = Some (upd (mem (eng b)) (dicthead (eng b)) b)" using b by simp
  moreover have "map entry [] = rev (map (\<lambda>(n, v). (n, 3)) [])" "used b \<le> used b + 30 * length []" by simp_all
  ultimately show ?case using map_le_refl by blast
next
  case (Cons c cs)
  obtain n v where c: "c = (n, v)" by fastforce
  have n: "good_name n" "length n \<le> 13" "list_all (\<lambda>(n, v). good_name n \<and> length n \<le> 13) cs" using Cons.prems(3) c by simp_all
  have "used b + length n + 17 \<le> lim" using Cons.prems(2) n(2) by simp
  from buildconstant_shape [OF Cons.prems(1) n(1) this, of E v] obtain m1 h1 g1 l1 where
    1: "buildconstant E n v b = Some (upd m1 h1 b)" "shape lim g1 (vs(latest b \<mapsto> l1)) ((n, l1, 3) # ws) (upd m1 h1 b)" "g \<subseteq>\<^sub>m g1"
    "unat h1 \<le> used b + length n + 17" by blast
  have "used (upd m1 h1 b) + 30 * length cs \<le> lim" using 1(4) n(2) Cons.prems(2) by simp
  from Cons.IH [OF 1(2) this n(3), unfolded upd_simps fun_upd_upd] obtain m h g2 l es where
    2: "fold (\<lambda>(n, v) r. do { b \<leftarrow> r; buildconstant E n v b }) cs (Some (upd m1 h1 b)) = Some (upd m h b)"
    "shape lim g2 (vs(latest b \<mapsto> l)) (es @ (n, l1, 3) # ws) (upd m h b)" "g1 \<subseteq>\<^sub>m g2" "map entry es = rev (map (\<lambda>(n, v). (n, 3)) cs)"
    "unat h \<le> unat h1 + 30 * length cs" by blast
  let ?es = "es @ [(n, l1, 3)]"
  have "fold (\<lambda>(n, v) r. do { b \<leftarrow> r; buildconstant E n v b }) (c # cs) (Some b) = Some (upd m h b)"
    "map entry ?es = rev (map (\<lambda>(n, v). (n, 3)) (c # cs))" "unat h \<le> used b + 30 * length (c # cs)"
    using 1(1,4) 2(1,4,5) c n(2) by simp_all
  moreover have "shape lim g2 (vs(latest b \<mapsto> l)) (?es @ ws) (upd m h b)" using 2(2) by simp
  ultimately show ?case using map_le_trans [OF 1(3) 2(3)] by blast
qed


lemma build_consts_shape:
  assumes "shape lim g vs ws b" and "used b + 180 \<le> lim"
  shows "\<exists>b' g' l0 lfa p es. build_consts E b = Some b' \<and> shape lim g' (vs(latest b \<mapsto> l0, p \<mapsto> 10, latest b \<mapsto> lfa)) (es @ ws) b' \<and> g \<subseteq>\<^sub>m g' \<and>
    map entry es = [(cstr ''/x'', 3), (cstr ''/n'', 3), (cstr ''/l'', 3), (cstr ''/w'', 3), (cstr ''/c'', 3), (cstr ''base'', 4)] \<and>
    used b' \<le> used b + 180 \<and> p \<notin> dom vs \<and> p \<noteq> latest b \<and> base_ptr b' = p \<and> latest b' = latest b \<and> state_ptr b' = state_ptr b \<and>
    last_word (eng b') = last_word (eng b) \<and> dict (eng b') = dict (eng b)"
proof -
  have "used b + length (cstr ''base'') + 17 \<le> lim" "used b + length (cstr ''base'') + 17 \<le> used b + 30" using assms(2) by simp_all
  from buildvariable_shape [OF assms(1) var_names(6) this, of E 10] obtain m1 h1 g1 l1 where
    1: "buildvariable E (cstr ''base'') 10 b = Some (l1 + 8, upd m1 h1 b)"
    "shape lim g1 (vs(latest b \<mapsto> l1, l1 + 8 \<mapsto> 10)) ((cstr ''base'', l1, 4) # ws) (upd m1 h1 b)" "g \<subseteq>\<^sub>m g1"
    "l1 + 8 \<notin> dom vs" "l1 + 8 \<noteq> latest b" "unat h1 \<le> used b + 30" by blast
  let ?b1 = "(upd m1 h1 b)\<lparr>base_ptr := l1 + 8\<rparr>"
  let ?cs = "[(cstr ''/c'', 1 :: cell), (cstr ''/w'', 2), (cstr ''/l'', 4), (cstr ''/n'', 4), (cstr ''/x'', 8)]"
  have s: "shape lim g1 (vs(latest b \<mapsto> l1, l1 + 8 \<mapsto> 10)) ((cstr ''base'', l1, 4) # ws) ?b1" using 1(2) by simp
  have cs: "list_all (\<lambda>(n, v). good_name n \<and> length n \<le> 13) ?cs" "used ?b1 + 30 * length ?cs \<le> lim"
    using var_names assms(2) 1(6) by simp_all
  have f1: "latest ?b1 = latest b" by simp
  from constants_shape [OF cs(1) s cs(2), of E, unfolded f1] obtain m h g2 l es where
    2: "fold (\<lambda>(n, v) r. do { b \<leftarrow> r; buildconstant E n v b }) ?cs (Some ?b1) = Some (upd m h ?b1)"
    "shape lim g2 (vs(latest b \<mapsto> l1, l1 + 8 \<mapsto> 10, latest b \<mapsto> l)) (es @ (cstr ''base'', l1, 4) # ws) (upd m h ?b1)" "g1 \<subseteq>\<^sub>m g2"
    "map entry es = rev (map (\<lambda>(n, v). (n, 3)) ?cs)" "unat h \<le> used ?b1 + 30 * length ?cs" by blast
  let ?es = "es @ [(cstr ''base'', l1, 4)]" and ?b' = "upd m h ?b1"
  have "build_consts E b = Some ?b'" using 1(1) 2(1) by (simp add: build_consts_def)
  moreover have "shape lim g2 (vs(latest b \<mapsto> l1, l1 + 8 \<mapsto> 10, latest b \<mapsto> l)) (?es @ ws) ?b'" using 2(2) by simp
  moreover have "g \<subseteq>\<^sub>m g2" using 1(3) 2(3) map_le_trans by blast
  moreover have "map entry ?es = [(cstr ''/x'', 3), (cstr ''/n'', 3), (cstr ''/l'', 3), (cstr ''/w'', 3), (cstr ''/c'', 3), (cstr ''base'', 4)]"
    using 2(4) by simp
  moreover have "used ?b' \<le> used b + 180" using 1(6) 2(5) by simp
  moreover have "base_ptr ?b' = l1 + 8" "latest ?b' = latest b" "state_ptr ?b' = state_ptr b" "last_word (eng ?b') = last_word (eng b)"
    "dict (eng ?b') = dict (eng b)" by simp_all
  ultimately show ?thesis using 1(4,5)
    by - (rule exI [of _ ?b'], rule exI [of _ g2], rule exI [of _ l1], rule exI [of _ l], rule exI [of _ "l1 + 8"], rule exI [of _ ?es],
        intro conjI, assumption+)
qed

lemma initial_shape:
  assumes "linear (dict (eng b)) lim" and "lim < 2 ^ 31" and "mapped (mem (eng b)) (dict (eng b)) lim"
    and "mapped (mem (eng b)) lfa 4" and "apart (dict (eng b)) lim lfa 4"
  shows "\<exists>m. write_ucell (mem (eng b)) lfa 0 = Some m \<and>
     shape lim Map.empty [lfa \<mapsto> 0] [] ((set_mem m b)\<lparr>latest := lfa, eng := (eng (set_mem m b))\<lparr>dicthead := 0\<rparr>\<rparr>)"
proof -
  from assms(4) obtain m where m: "write_ucell (mem (eng b)) lfa 0 = Some m" using write_ucell_put by blast
  have "mapped m (dict (eng b)) lim" using assms(3) ucell_acc.wr_dom [OF m] by (simp add: mapped_def)
  then have "layout (dict (eng b)) lim Map.empty [lfa \<mapsto> 0] 0 m"
    unfolding layout_def using assms(1,2,5) ucell_acc.rd_wr_same [OF m] by (auto split: if_splits)
  then show ?thesis using m by (auto simp: shape_def set_mem_def)
qed

lemma pointersI:
  assumes "vs (state_ptr b) = Some q" and "vs (base_ptr b) = Some 10" and "last_word (eng b) \<in> dom vs"
    and "distinct [latest b, last_word (eng b), state_ptr b]" and "base_ptr b \<notin> {latest b, last_word (eng b), state_ptr b}"
  shows "pointers vs q b"
  using assms by (auto simp: pointers_def)

lemma build_dictionary_shape:
  assumes "linear (dict (eng b)) lim" and "lim < 2 ^ 31" and "4096 \<le> lim" and "mapped (mem (eng b)) (dict (eng b)) lim"
    and "mapped (mem (eng b)) lfa 4" and "apart (dict (eng b)) lim lfa 4"
  shows "\<exists>b' g vs ws. build_dictionary E lfa b = Some b' \<and> shape lim g vs ws b' \<and> pointers vs 0 b' \<and> visible g vs ws b' \<and>
     map entry ws = dict_entries \<and> dict (eng b') = dict (eng b) \<and> used b' \<le> 2300"
proof -
  from initial_shape [OF assms(1,2,4-6)] obtain m where m: "write_ucell (mem (eng b)) lfa 0 = Some m"
    and s0: "shape lim Map.empty [lfa \<mapsto> 0] [] ((set_mem m b)\<lparr>latest := lfa, eng := (eng (set_mem m b))\<lparr>dicthead := 0\<rparr>\<rparr>)"
    (is "shape lim _ _ [] ?b0") by blast
  have good: "\<And>n. n \<in> set wordnames \<Longrightarrow> n \<noteq> [] \<Longrightarrow> good_name (cstr n)"
    using wordnames_good by (auto simp: list_all_iff)
  have u0: "used ?b0 = 0" "dict (eng ?b0) = dict (eng b)" by (simp_all add: set_mem_def)
  have "used ?b0 + names_size wordnames \<le> lim" using names_size_wordnames assms(3) u0 by simp
  from build_prims_shape [OF good s0 this, of E 0] obtain m1 h1 g1 l1 es1 where
    1: "build_prims E 0 wordnames ?b0 = Some (upd m1 h1 ?b0)" "shape lim g1 ([lfa \<mapsto> 0, latest ?b0 \<mapsto> l1]) (es1 @ []) (upd m1 h1 ?b0)"
    "map entry es1 = rev (prim_entries 0 wordnames)" "unat h1 \<le> used ?b0 + names_size wordnames" by blast
  let ?b1 = "upd m1 h1 ?b0"
  have u1: "used ?b1 \<le> 2000" "dict (eng ?b1) = dict (eng b)" using 1(4) u0 names_size_wordnames by simp_all
  have "used ?b1 + 90 \<le> lim" using u1 assms(3) by simp
  from build_vars_shape [OF 1(2) this, of E] obtain b2 g2 vs2 es2 where
    2: "build_vars E ?b1 = Some b2" "shape lim g2 vs2 (es2 @ es1 @ []) b2" and "g1 \<subseteq>\<^sub>m g2" and
    e2: "map entry es2 = [(cstr ''latest'', 4), (cstr ''forth-last'', 4), (cstr ''state'', 4)]" "dict (eng b2) = dict (eng ?b1)"
    "used b2 \<le> used ?b1 + 90" and p2: "vs2 (state_ptr b2) = Some 0" "last_word (eng b2) \<in> dom vs2" "last_word (eng b2) \<noteq> 0"
    "distinct [latest b2, last_word (eng b2), state_ptr b2]" by (elim exE conjE)
  have "used b2 + 180 \<le> lim" using e2(3) u1 assms(3) by simp
  from build_consts_shape [OF 2(2) this, of E] obtain b3 g3 l0 l3 p es3 where
    3: "build_consts E b2 = Some b3" "shape lim g3 (vs2(latest b2 \<mapsto> l0, p \<mapsto> 10, latest b2 \<mapsto> l3)) (es3 @ es2 @ es1 @ []) b3" and "g2 \<subseteq>\<^sub>m g3" and
    e3: "map entry es3 = [(cstr ''/x'', 3), (cstr ''/n'', 3), (cstr ''/l'', 3), (cstr ''/w'', 3), (cstr ''/c'', 3), (cstr ''base'', 4)]"
    "used b3 \<le> used b2 + 180" "p \<notin> dom vs2" "p \<noteq> latest b2" and
    f3: "base_ptr b3 = p" "latest b3 = latest b2" "state_ptr b3 = state_ptr b2" "last_word (eng b3) = last_word (eng b2)"
    "dict (eng b3) = dict (eng b2)" by (elim exE conjE)
  have "pointers (vs2(latest b2 \<mapsto> l0, p \<mapsto> 10, latest b2 \<mapsto> l3)) 0 b3"
    by (rule pointersI) (use p2(1,2,4) e3(3,4) in \<open>auto simp: f3\<close>)
  from reveal_shape [OF 3(2) this] p2(3) f3(4) obtain m4 vs4 where
    4: "reveal b3 = Some (upd m4 (dicthead (eng b3)) b3)" "shape lim g3 vs4 (es3 @ es2 @ es1 @ []) (upd m4 (dicthead (eng b3)) b3)"
    "pointers vs4 0 (upd m4 (dicthead (eng b3)) b3)" "visible g3 vs4 (es3 @ es2 @ es1 @ []) (upd m4 (dicthead (eng b3)) b3)" by auto
  have "build_dictionary E lfa b = Some (upd m4 (dicthead (eng b3)) b3)"
    using m 1(1) 2(1) 3(1) 4(1) by (simp add: build_dictionary_def set_mem_def)
  moreover have "map entry (es3 @ es2 @ es1 @ []) = dict_entries" using 1(3) e2(1) e3(1) by (simp add: dict_entries_def var_entries_def)
  moreover have "dict (eng (upd m4 (dicthead (eng b3)) b3)) = dict (eng b)" "used (upd m4 (dicthead (eng b3)) b3) \<le> 2300"
    using f3(5) e2(2,3) e3(2) u1 by simp_all
  ultimately show ?thesis using 4(2-4) by blast
qed

end
