(* ===== verification/Forthstrap_Spec.thy ===== *)
theory Forthstrap_Spec
  imports Forthstrap Forth_Layout
begin

text \<open>
  What the source interpreter makes of a file of colon definitions: the reading of words, the meaning of a
  program as items of \<open>Forth_Run\<close>, and the theorem that compiling and running gives that meaning.
\<close>

subsection \<open>Words of a text\<close>

definition blank :: "u8 \<Rightarrow> bool" where
  "blank ch \<longleftrightarrow> ch = 32 \<or> ch = 9 \<or> ch = 10"

function words_of :: "u8 list \<Rightarrow> u8 list list" where
  "words_of bs =
     (case dropWhile blank bs of
        [] \<Rightarrow> []
      | x # r \<Rightarrow> (x # takeWhile (\<lambda>ch. \<not> blank ch) r) # words_of (dropWhile (\<lambda>ch. \<not> blank ch) r))"
  by auto
termination
proof (relation "measure length", goal_cases)
  case (2 bs x r)
  have "length (dropWhile (\<lambda>ch. \<not> blank ch) r) \<le> length r" by (rule length_dropWhile_le)
  moreover have "length (dropWhile blank bs) \<le> length bs" by (rule length_dropWhile_le)
  ultimately show ?case using 2 by simp
qed simp

declare words_of.simps [simp del]

text \<open>A text in which every word is followed by a separator and no byte is zero.\<close>

definition closed_text :: "u8 list \<Rightarrow> bool" where
  "closed_text r \<longleftrightarrow> (r = [] \<or> blank (last r)) \<and> 0 \<notin> set r"

lemma words_of_blank: "blank x \<Longrightarrow> words_of (x # r) = words_of r"
  by (subst (1 2) words_of.simps) simp

lemma words_of_first:
  assumes "words_of r = w # ws" and "closed_text r"
  shows "\<exists>x r'. dropWhile blank r = w @ x # r' \<and> w \<noteq> [] \<and> (\<forall>ch \<in> set w. \<not> blank ch \<and> ch \<noteq> 0) \<and> blank x \<and> words_of r' = ws \<and> closed_text r'"
proof -
  obtain y s where d: "dropWhile blank r = y # s"
    using assms(1) by (cases "dropWhile blank r") (simp_all add: words_of.simps [of r])
  let ?t = "takeWhile (\<lambda>ch. \<not> blank ch) s" and ?d = "dropWhile (\<lambda>ch. \<not> blank ch) s"
  have w: "w = y # ?t" "ws = words_of ?d" using assms(1) d by (simp_all add: words_of.simps [of r])
  have y: "\<not> blank y" using d by (metis hd_dropWhile list.distinct(1) list.sel(1))
  have suf: "r = takeWhile blank r @ y # s" using d by (metis takeWhile_dropWhile_id)
  then have l: "last (y # s) = last r" by (metis last_appendR list.distinct(1))
  have "set (y # s) \<subseteq> set r" using d by (metis set_dropWhileD subsetI)
  then have z: "0 \<notin> set (y # s)" using assms(2) by (auto simp: closed_text_def)
  have "blank (last (y # s))" using assms(2) suf l by (auto simp: closed_text_def)
  then have "?d \<noteq> []" using y by (metis dropWhile_eq_Nil_conv last.simps last_in_set)
  then obtain x r' where x: "?d = x # r'" by (cases ?d) auto
  have bx: "blank x" using x hd_dropWhile [of "\<lambda>ch. \<not> blank ch" s] by simp
  have s: "s = ?t @ x # r'" using x by (metis takeWhile_dropWhile_id)
  have "last s = last (x # r')" using s by (metis last_appendR list.distinct(1))
  moreover have "last (y # s) = last s" using s by (metis append_is_Nil_conv last_ConsR list.distinct(1))
  ultimately have "r' = [] \<or> blank (last r')" using \<open>blank (last (y # s))\<close> by (auto split: if_splits)
  moreover have "0 \<notin> set r'" "0 \<notin> set ?t" "y \<noteq> 0" using z s by (metis (no_types) Un_iff list.set_intros set_append set_ConsD)+
  ultimately have "closed_text r'" by (simp add: closed_text_def)
  moreover have "\<forall>ch \<in> set w. \<not> blank ch \<and> ch \<noteq> 0" using w(1) y \<open>0 \<notin> set ?t\<close> \<open>y \<noteq> 0\<close> by (auto dest: set_takeWhileD)
  moreover have "dropWhile blank r = w @ x # r'" using d s w(1) by simp
  moreover have "words_of r' = ws" using w(2) x words_of_blank [OF bx] by simp
  ultimately show ?thesis using w(1) bx by blast
qed

lemma words_of_none: "words_of r = [] \<Longrightarrow> dropWhile blank r = []"
  by (cases "dropWhile blank r") (simp_all add: words_of.simps [of r])

subsection \<open>Reading words\<close>

definition reading :: "nat \<Rightarrow> stream \<Rightarrow> (nat \<Rightarrow> int) \<Rightarrow> 'w boot \<Rightarrow> 'w comp \<Rightarrow> 'w comp" where
  "reading f s ls b c = c\<lparr>sp := (sp c)\<lparr>bt := b\<rparr>, srcfiles := (srcfiles c)(f := s), srclines := ls\<rparr>"

abbreviation open_at :: "u8 list \<Rightarrow> stream" where
  "open_at r \<equiv> \<lparr>rest = r, at_end = False\<rparr>"

lemma reading_simps [simp]:
  "boot_of (reading f s ls b c) = b" "srcfiles (reading f s ls b c) f = s" "cursrc (reading f s ls b c) = cursrc c"
  "set_boot b' (reading f s ls b c) = reading f s ls b' c" "srclines (reading f s ls b c) = ls"
  "errors (reading f s ls b c) = errors c" "include_path (reading f s ls b c) = include_path c"
  by (simp_all add: reading_def set_boot_def)

lemma getc_reading:
  "getc f (reading f (open_at []) ls b c) = (- 1, reading f \<lparr>rest = [], at_end = True\<rparr> ls b c)"
  "getc f (reading f (open_at (x # r)) ls b c) = (uint x, reading f (open_at r) ls b c)"
  by (simp_all add: getc_def) (simp_all add: reading_def)

lemma feof_reading [simp]: "feof f (reading f s ls b c) = at_end s"
  by (simp add: feof_def)

lemma next_line_reading: "\<exists>ls'. next_line (reading f s ls b c) = reading f s ls' b c"
  by (simp add: next_line_def) (simp add: reading_def, blast)

lemma uint_char: "uint (x :: u8) \<noteq> - 1" "uint x = 32 \<longleftrightarrow> x = 32" "uint x = 9 \<longleftrightarrow> x = 9" "uint x = 10 \<longleftrightarrow> x = 10"
proof -
  show "uint x \<noteq> - 1" using uint_ge_0 [of x] by linarith
  show "uint x = 32 \<longleftrightarrow> x = 32" "uint x = 9 \<longleftrightarrow> x = 9" "uint x = 10 \<longleftrightarrow> x = 10"
    by (simp_all add: word_uint_eq_iff)
qed

lemma skipws_reading:
  "\<exists>ls'. skipws f (reading f (open_at r) ls b c) =
     reading f \<lparr>rest = dropWhile blank r, at_end = (dropWhile blank r = [])\<rparr> ls' b c"
proof (induction r arbitrary: ls)
  case Nil
  have "skipws f (reading f (open_at []) ls b c) = reading f \<lparr>rest = [], at_end = True\<rparr> ls b c"
    by (subst skipws.simps) (simp add: getc_reading ungetc_def)
  then show ?case by auto
next
  case (Cons x r)
  show ?case
  proof (cases "blank x")
    case True
    from next_line_reading obtain ls1 where n: "next_line (reading f (open_at r) ls b c) = reading f (open_at r) ls1 b c" by blast
    have "skipws f (reading f (open_at (x # r)) ls b c) =
        (if x = 10 then skipws f (reading f (open_at r) ls1 b c) else skipws f (reading f (open_at r) ls b c))"
      using True n by (subst skipws.simps) (auto simp: getc_reading uint_char blank_def)
    then show ?thesis using True Cons.IH [of ls1] Cons.IH [of ls] by (cases "x = 10") auto
  next
    case False
    have "skipws f (reading f (open_at (x # r)) ls b c) = reading f (open_at (x # r)) ls b c"
      using False by (subst skipws.simps) (simp add: getc_reading uint_char blank_def ungetc_def, simp add: reading_def)
    then show ?thesis using False by auto
  qed
qed

lemma parse_loop_reading:
  assumes "\<forall>ch \<in> set w. \<not> blank ch" and "blank x"
  shows "length line + length w \<le> 160 \<Longrightarrow>
    parse_loop f 0 line lc (reading f (open_at (w @ x # r)) ls b c) = Some (line @ w, uint x, reading f (open_at r) ls b c)"
  using assms
proof (induction w arbitrary: line lc)
  case Nil
  then show ?case by (subst parse_loop.simps) (auto simp: getc_reading uint_char blank_def)
next
  case (Cons y w)
  have "parse_loop f 0 line lc (reading f (open_at ((y # w) @ x # r)) ls b c) =
      parse_loop f 0 (line @ [y]) (uint y) (reading f (open_at (w @ x # r)) ls b c)"
    using Cons.prems by (subst parse_loop.simps) (simp add: getc_reading uint_char blank_def)
  then show ?case using Cons.IH [of "line @ [y]" "uint y"] Cons.prems by simp
qed

lemma parse_word_some:
  assumes "words_of r = w # ws" and "closed_text r" and "length w < 160"
  shows "\<exists>r' ls'. parse_word f (reading f (open_at r) ls b c) = Some (w, reading f (open_at r') ls' b c) \<and>
    words_of r' = ws \<and> closed_text r'"
proof -
  from words_of_first [OF assms(1,2)] obtain x r' where
    d: "dropWhile blank r = w @ x # r'" "w \<noteq> []" "\<forall>ch \<in> set w. \<not> blank ch \<and> ch \<noteq> 0" "blank x" "words_of r' = ws" "closed_text r'" by blast
  from skipws_reading [of f r ls b c] d(1) obtain l1 where
    1: "skipws f (reading f (open_at r) ls b c) = reading f (open_at (w @ x # r')) l1 b c" by auto
  have 2: "parse_loop f 0 [] 0 (reading f (open_at (w @ x # r')) l1 b c) = Some (w, uint x, reading f (open_at r') l1 b c)"
    using parse_loop_reading [of w x "[]" f 0 r' l1 b c] d(3,4) assms(3) by simp
  from next_line_reading obtain l2 where n: "next_line (reading f (open_at r') l1 b c) = reading f (open_at r') l2 b c" by blast
  have "c_str w = w" using d(3) by (simp add: c_str_def takeWhile_eq_all_conv)
  then have "parse_word f (reading f (open_at r) ls b c) = Some (w, reading f (open_at r') (if uint x = 10 then l2 else l1) b c)"
    using 1 2 n assms(3) by (simp add: parse_word_def parse_def)
  then show ?thesis using d(5,6) by blast
qed

lemma parse_word_none:
  assumes "words_of r = []"
  shows "\<exists>ls'. parse_word f (reading f (open_at r) ls b c) = Some ([], reading f \<lparr>rest = [], at_end = True\<rparr> ls' b c)"
proof -
  from skipws_reading [of f r ls b c] words_of_none [OF assms] obtain l1 where
    1: "skipws f (reading f (open_at r) ls b c) = reading f \<lparr>rest = [], at_end = True\<rparr> l1 b c" by auto
  have "parse_loop f 0 [] 0 (reading f \<lparr>rest = [], at_end = True\<rparr> l1 b c) = Some ([], 0, reading f \<lparr>rest = [], at_end = True\<rparr> l1 b c)"
    by (subst parse_loop.simps) simp
  then show ?thesis using 1 by (auto simp: parse_word_def parse_def c_str_def)
qed


subsection \<open>The meaning of a source\<close>

text \<open>
  The words the interpreter treats itself; decimal numbers; the meaning of a word in an environment of words
  defined before, newest first; the meaning of a list of colon definitions.
\<close>

definition builtin :: "u8 list \<Rightarrow> bool" where
  "builtin w \<longleftrightarrow> w \<in> {cstr ''('', [92], cstr '':'', cstr '';'', [91, 39, 93]} \<or>
     (\<exists>k \<in> {cstr ''variable'', cstr ''constant'', cstr ''value'', cstr ''defer'', cstr ''include'', [115, 34]}. caseeq w k)"

definition value_of :: "u8 list \<Rightarrow> nat" where
  "value_of nn = foldl (\<lambda>v ch. v * 10 + (unat ch - 48)) 0 nn"

definition decimal :: "u8 list \<Rightarrow> cell option" where
  "decimal w =
     (let neg = (w \<noteq> [] \<and> hd w = 45); nn = (if neg then tl w else w)
      in if nn \<noteq> [] \<and> list_all (\<lambda>ch. 48 \<le> ch \<and> ch \<le> 57) nn \<and> value_of nn < 2 ^ 63
         then Some (if neg then - of_nat (value_of nn) else of_nat (value_of nn)) else None)"

type_synonym scope = "(u8 list \<times> item) list"

definition elab_word :: "scope \<Rightarrow> u8 list \<Rightarrow> item option" where
  "elab_word G w =
     (case find (\<lambda>(n, _). same_name w n) G of Some (_, it) \<Rightarrow> Some it | None \<Rightarrow> map_option Num (decimal w))"

fun elab_body :: "scope \<Rightarrow> u8 list list \<Rightarrow> item list option" where
  "elab_body G [] = Some []"
| "elab_body G (w # ws) = do { it \<leftarrow> elab_word G w; its \<leftarrow> elab_body G ws; Some (it # its) }"

fun elab_defs :: "scope \<Rightarrow> (u8 list \<times> u8 list list) list \<Rightarrow> scope option" where
  "elab_defs G [] = Some G"
| "elab_defs G ((n, body) # nn) = do { its \<leftarrow> elab_body G body; elab_defs ((n, Colon its) # G) nn }"

text \<open>The words of the source of a program, their number of turns of the interpreter, and the space they may need.\<close>

definition def_words :: "u8 list \<times> u8 list list \<Rightarrow> u8 list list" where
  "def_words p = [cstr '':'', fst p] @ snd p @ [cstr '';'']"

definition turns_of :: "(u8 list \<times> u8 list list) list \<Rightarrow> nat" where
  "turns_of ps = sum_list (map (\<lambda>p. length (snd p) + 2) ps)"

definition space_of :: "(u8 list \<times> u8 list list) list \<Rightarrow> nat" where
  "space_of ps = sum_list (map (\<lambda>p. length (fst p) + 13 + 8 * length (snd p) + 4) ps)"

definition plain_defs :: "(u8 list \<times> u8 list list) list \<Rightarrow> bool" where
  "plain_defs ps \<longleftrightarrow> (\<forall>p \<in> set ps. good_name (fst p) \<and> (\<forall>w \<in> set (snd p). \<not> builtin w \<and> length w < 160))"

subsection \<open>Numbers\<close>

lemma digit_val_digit:
  assumes "48 \<le> ch" and "ch \<le> 57"
  shows "digit_val ch = unat ch - 48" and "unat ch - 48 < 10"
  using assms by (simp_all add: digit_val_def word_le_nat_alt)

lemma digits_all: "list_all (\<lambda>ch. 48 \<le> ch \<and> ch \<le> 57) nn \<Longrightarrow> digits 10 a nn = (foldl (\<lambda>v ch. v * 10 + (unat ch - 48)) a nn, [])"
  by (induction nn arbitrary: a) (simp_all add: digit_val_digit)

lemma magnitude_decimal:
  assumes "nn \<noteq> []" and "list_all (\<lambda>ch. 48 \<le> ch \<and> ch \<le> 57) nn"
  shows "magnitude 10 nn = Some (value_of nn, [])"
  using assms digits_all [OF assms(2), of 0] by (cases nn) (simp_all add: magnitude_def digit_val_digit value_of_def split: if_splits)

lemma strtonum_decimal:
  assumes "decimal w = Some v"
  shows "\<exists>i. strtonum (hd w = 45) w 10 = Some (i, []) \<and> word_of_int i = v"
proof -
  define neg where "neg \<longleftrightarrow> w \<noteq> [] \<and> hd w = 45"
  define nn where "nn = (if neg then tl w else w)"
  from assms have d: "nn \<noteq> []" "list_all (\<lambda>ch. 48 \<le> ch \<and> ch \<le> 57) nn" "value_of nn < 2 ^ 63"
    and v: "v = (if neg then - of_nat (value_of nn) else of_nat (value_of nn))"
    by (auto simp: decimal_def neg_def nn_def Let_def split: if_splits)
  have h: "48 \<le> hd nn" "hd nn \<le> 57" using d(1,2) by (cases nn; simp)+
  have w: "w \<noteq> []" using d(1) by (auto simp: nn_def split: if_splits)
  have sp: "\<not> (hd w = 32 \<or> (9 \<le> hd w \<and> hd w \<le> 13)) \<and> (\<not> neg \<longrightarrow> hd w \<noteq> 45 \<and> hd w \<noteq> 43)"
  proof (cases neg)
    case True
    then have "hd w = 45" by (simp add: neg_def)
    then show ?thesis using True by simp
  next
    case False
    then have e: "hd w = hd nn" by (simp add: nn_def)
    have "\<not> hd nn \<le> 13" "hd nn \<noteq> 32" "hd nn \<noteq> 45" "hd nn \<noteq> 43" using h by (auto simp: word_le_nat_alt)
    then show ?thesis unfolding e by blast
  qed
  have s: "dropWhile (\<lambda>ch. ch = 32 \<or> (9 \<le> ch \<and> ch \<le> 13)) w = w" using sp w by (cases w) auto
  have r: "(if w \<noteq> [] \<and> (hd w = 45 \<or> hd w = 43) then tl w else w) = nn" "(w \<noteq> [] \<and> hd w = 45) = neg"
    using sp w by (auto simp: neg_def nn_def)
  have "strtonum (hd w = 45) w 10 = Some (if neg then - int (value_of nn) else int (value_of nn), [])"
    using d(3) w r(2) magnitude_decimal [OF d(1,2)] unfolding strtonum_def s Let_def r by auto
  then show ?thesis using v by auto
qed


subsection \<open>Meanings in the dictionary\<close>

fun denotes :: "memory \<Rightarrow> ucell \<Rightarrow> item \<Rightarrow> bool" where
  "denotes g l (SWord i) \<longleftrightarrow> i < 98 \<and> read_ucell g (l + 4) = Some (of_nat i)"
| "denotes g l (Colon body) \<longleftrightarrow> read_ucell g (l + 4) = Some 1 \<and> compiled g (l + 8) body \<and> tok_at g (l + 8 + csize body) 0"
| "denotes g l _ \<longleftrightarrow> False"

definition means :: "memory \<Rightarrow> (u8 list \<times> ucell \<times> ucell) list \<Rightarrow> scope \<Rightarrow> bool" where
  "means g ws G \<longleftrightarrow> list_all2 (\<lambda>w e. fst w = fst e \<and> denotes g (fst (snd w)) (snd e)) ws G"

lemma denotes_mono: "g \<subseteq>\<^sub>m g' \<Longrightarrow> denotes g l it \<Longrightarrow> denotes g' l it"
  by (cases it) (auto simp: read_ucell_mono compiled_mono tok_at_mono)

lemma means_mono: "g \<subseteq>\<^sub>m g' \<Longrightarrow> means g ws G \<Longrightarrow> means g' ws G"
  unfolding means_def by (erule list.rel_mono_strong) (auto intro: denotes_mono)

lemma means_find:
  assumes "means g ws G"
  shows "(case find (\<lambda>(n, _). same_name w n) G of
            None \<Rightarrow> find_spec ws w = 0
          | Some (n, it) \<Rightarrow> \<exists>l v. (n, l, v) \<in> set ws \<and> find_spec ws w = l + 4 \<and> denotes g l it)"
  using assms unfolding means_def
proof (induction rule: list_all2_induct)
  case (Cons x xs y ys)
  obtain n l v where x: "x = (n, l, v)" by (cases x)
  obtain it where y: "y = (n, it)" using Cons.hyps(1) x by (cases y) auto
  show ?case
  proof (cases "same_name w n")
    case True
    then show ?thesis using Cons.hyps(1) x y by (auto simp: find_spec_def)
  next
    case False
    then have "find_spec (x # xs) w = find_spec xs w" by (simp add: find_spec_def x)
    then show ?thesis using Cons.IH False x y by (auto split: option.splits)
  qed
qed (simp add: find_spec_def)

lemma csize_append: "csize (xs @ ys) = csize xs + csize ys"
proof (induction xs)
  case (Cons x xs)
  then show ?case by (cases x) (simp_all add: add.assoc)
qed simp

lemma compiled_append: "compiled m a (xs @ ys) \<longleftrightarrow> compiled m a xs \<and> compiled m (a + csize xs) ys"
proof (induction xs arbitrary: a)
  case (Cons x xs)
  then show ?case by (cases x) (auto simp: add.assoc add.left_commute)
qed simp

text \<open>
  Between definitions: the words \<open>ws\<close> are visible and mean \<open>G\<close>, \<open>state\<close> is 0. Within one: a header of name \<open>n\<close> is
  there, not yet visible, followed by the code of \<open>its\<close>, up to \<open>here\<close>.
\<close>

definition toks_ok :: "memory \<Rightarrow> tokens \<Rightarrow> bool" where
  "toks_ok g k \<longleftrightarrow> read_ucell g (SEMIS k) = Some 0 \<and> read_ucell g (LIT k) = Some 2"

definition idle :: "nat \<Rightarrow> memory \<Rightarrow> tokens \<Rightarrow> scope \<Rightarrow> 'w boot \<Rightarrow> bool" where
  "idle lim g k G b \<longleftrightarrow> (\<exists>vs ws. shape lim g vs ws b \<and> pointers vs 0 b \<and> visible g vs ws b \<and> means g ws G \<and> toks_ok g k)"

definition defining_at :: "nat \<Rightarrow> memory \<Rightarrow> tokens \<Rightarrow> scope \<Rightarrow> u8 list \<Rightarrow> ucell \<Rightarrow> (ucell \<rightharpoonup> ucell) \<Rightarrow> (u8 list \<times> ucell \<times> ucell) list \<Rightarrow> 'w boot \<Rightarrow> bool" where
  "defining_at lim g k G n l vs ws b \<longleftrightarrow>
     shape lim g vs ((n, l, 1) # ws) b \<and> pointers vs (- 1) b \<and> visible g vs ws b \<and> means g ws G \<and> toks_ok g k"

definition compiling :: "nat \<Rightarrow> memory \<Rightarrow> tokens \<Rightarrow> scope \<Rightarrow> u8 list \<Rightarrow> item list \<Rightarrow> 'w boot \<Rightarrow> bool" where
  "compiling lim g k G n its b \<longleftrightarrow>
     (\<exists>vs ws l. defining_at lim g k G n l vs ws b \<and> compiled g (l + 8) its \<and> here_addr b = l + 8 + csize its)"

lemma toks_ok_mono: "g \<subseteq>\<^sub>m g' \<Longrightarrow> toks_ok g k \<Longrightarrow> toks_ok g' k"
  by (simp add: toks_ok_def read_ucell_mono)

lemma visible_upd:
  assumes "visible g vs us b" and "g \<subseteq>\<^sub>m g'" and "vs' (last_word (eng b)) = vs (last_word (eng b))" and "used b \<le> unat h"
  shows "visible g' vs' us (upd m h b)"
  using assms chain_mono [OF assms(2,4)] by (auto simp: visible_def)

lemma findword_visible_in:
  assumes "visible g vs us b" and "shape lim g vs ws b" and "length w < 2 ^ 32"
    and "mem s = mem (eng b)" and "dict s = dict (eng b)" and "last_word s = last_word (eng b)"
  shows "findword s w = Some (find_spec us w)"
proof -
  from assms(1) obtain lfa where l: "last_word (eng b) \<noteq> 0" "vs (last_word (eng b)) = Some lfa" "chain g (dict (eng b)) (used b) {} lfa us"
    by (auto simp: visible_def)
  have L: "layout (dict (eng b)) lim g vs (used b) (mem (eng b))" using assms(2) by (simp add: shape_def)
  have "chain (mem s) (dict s) (used b) {} lfa us"
    unfolding assms(4,5) by (rule chain_mono [OF layoutD(5) [OF L] order_refl l(3)])
  from findword_loop_chain [OF assms(3) this] show ?thesis using l(1) layoutD(7) [OF L l(2)] by (simp add: findword_def assms(4,6))
qed

lemmas findword_visible = findword_visible_in [OF _ _ _ refl refl refl]

lemma set_state_shape:
  assumes "shape lim g vs ws b" and "pointers vs q b"
  shows "\<exists>m. set_state v b = Some (upd m (dicthead (eng b)) b) \<and> shape lim g (vs(state_ptr b \<mapsto> v)) ws (upd m (dicthead (eng b)) b) \<and>
    pointers (vs(state_ptr b \<mapsto> v)) v (upd m (dicthead (eng b)) b)"
proof -
  from assms(2) have "vs (state_ptr b) = Some q" "state_ptr b \<noteq> latest b" by (auto simp: pointers_def)
  from write_variable [OF assms(1) this, of v] obtain m where
    m: "write_ucell (mem (eng b)) (state_ptr b) v = Some m" "shape lim g (vs(state_ptr b \<mapsto> v)) ws (upd m (dicthead (eng b)) b)" by blast
  have "pointers (vs(state_ptr b \<mapsto> v)) v (upd m (dicthead (eng b)) b)"
    using assms(2) by (auto simp: pointers_def)
  then show ?thesis using m by (auto simp: set_state_def set_mem_upd)
qed

lemma colon_step:
  assumes "idle lim g k G b" and "good_name n" and "used b + length n + 13 \<le> lim"
  shows "\<exists>b' g'. do { b \<leftarrow> fcreate E n DOCOL b; set_state (- 1) b } = Some b' \<and> compiling lim g' k G n [] b' \<and>
    used b' \<le> used b + length n + 13"
proof -
  from assms(1) obtain vs ws where i: "shape lim g vs ws b" "pointers vs 0 b" "visible g vs ws b" "means g ws G" "toks_ok g k"
    by (auto simp: idle_def)
  from fcreate_shape [OF i(1) assms(2,3), of E 1] obtain m h g1 l where
    1: "fcreate E n 1 b = Some (upd m h b)" "shape lim g1 (vs(latest b \<mapsto> l)) ((n, l, 1) # ws) (upd m h b)" "g \<subseteq>\<^sub>m g1"
    "dict (eng b) + h = l + 8" "unat h \<le> used b + length n + 13" "used b < unat h" by blast
  have p: "pointers (vs(latest b \<mapsto> l)) 0 (upd m h b)" using i(2) by (auto simp: pointers_def)
  have v: "visible g1 (vs(latest b \<mapsto> l)) ws (upd m h b)"
    using i(2) by (intro visible_upd [OF i(3) 1(3) _ less_imp_le [OF 1(6)]]) (auto simp: pointers_def)
  from set_state_shape [OF 1(2) p, of "- 1"] obtain m2 where
    2: "set_state (- 1) (upd m h b) = Some (upd m2 h b)" "shape lim g1 (vs(latest b \<mapsto> l, state_ptr b \<mapsto> - 1)) ((n, l, 1) # ws) (upd m2 h b)"
    "pointers (vs(latest b \<mapsto> l, state_ptr b \<mapsto> - 1)) (- 1) (upd m2 h b)" by auto
  have "visible g1 (vs(latest b \<mapsto> l, state_ptr b \<mapsto> - 1)) ws (upd m2 h (upd m h b))"
    using i(2) by (intro visible_upd [OF v map_le_refl]) (auto simp: pointers_def)
  then have "compiling lim g1 k G n [] (upd m2 h b)"
    unfolding compiling_def defining_at_def using 2(2,3) means_mono [OF 1(3) i(4)] toks_ok_mono [OF 1(3) i(5)] 1(4)
    by (intro exI [of _ "vs(latest b \<mapsto> l, state_ptr b \<mapsto> - 1)"] exI [of _ ws] exI [of _ l]) simp
  moreover have "do { b \<leftarrow> fcreate E n DOCOL b; set_state (- 1) b } = Some (upd m2 h b)" using 1(1) 2(1) by simp
  ultimately show ?thesis using 1(5) by (intro exI [of _ "upd m2 h b"] exI [of _ g1]) simp
qed

lemma chain_word:
  assumes "chain g d h H lfa ws" and "(n, l, v) \<in> set ws"
  shows "\<exists>j. l + 4 = d + of_nat j \<and> 0 < j \<and> j + 4 \<le> h"
  using assms
proof (induction ws arbitrary: lfa)
  case (Cons w ws)
  obtain n' l' v' where w: "w = (n', l', v')" by (cases w)
  from Cons.prems(1) w obtain no i nx where c: "l' = d + of_nat (no + length n' + 2 + i)" "no + length n' + i + 10 \<le> h" "chain g d h H nx ws"
    by auto
  show ?case
  proof (cases "(n, l, v) = w")
    case True
    then have "l + 4 = d + of_nat (no + length n' + 6 + i)" using c(1) w by simp
    then show ?thesis using c(2) by (intro exI [of _ "no + length n' + 6 + i"]) simp
  qed (use Cons.IH [OF c(3)] Cons.prems(2) in simp)
qed simp

lemma cell_step:
  assumes "defining_at lim g k G n l vs ws b" and "used b + 4 \<le> lim"
  shows "\<exists>b' g'. writecell v b = Some b' \<and> defining_at lim g' k G n l vs ws b' \<and> g \<subseteq>\<^sub>m g' \<and>
    read_ucell g' (here_addr b) = Some v \<and> here_addr b' = here_addr b + 4 \<and> used b' = used b + 4"
proof -
  have d: "shape lim g vs ((n, l, 1) # ws) b" "pointers vs (- 1) b" "visible g vs ws b" "means g ws G" "toks_ok g k"
    using assms(1) by (simp_all add: defining_at_def)
  from writecell_code [OF d(1) assms(2), of v] obtain m h g' where
    w: "writecell v b = Some (upd m h b)" "shape lim g' vs ((n, l, 1) # ws) (upd m h b)" "g \<subseteq>\<^sub>m g'"
    "read_ucell g' (here_addr b) = Some v" "unat h = used b + 4" "dict (eng b) + h = here_addr b + 4" by blast
  have "visible g' vs ws (upd m h b)" by (rule visible_upd [OF d(3) w(3)]) (use w(5) in simp_all)
  moreover have "pointers vs (- 1) (upd m h b)" using d(2) by (simp add: pointers_def)
  ultimately have "defining_at lim g' k G n l vs ws (upd m h b)"
    using w(2) means_mono [OF w(3) d(4)] toks_ok_mono [OF w(3) d(5)] by (simp add: defining_at_def)
  then show ?thesis using w by (intro exI [of _ "upd m h b"] exI [of _ g']) simp
qed

lemma word_step:
  assumes "compiling lim g k G n its b" and "find (\<lambda>(n, _). same_name w n) G = Some (nm, it)" and "used b + 4 \<le> lim"
    and "length w < 160"
  shows "\<exists>b' g' xt. findword (eng b) w = Some xt \<and> xt \<noteq> 0 \<and> mem (eng b) (xt - 5) = Some 128 \<and>
    read_ucell (mem (eng b)) (state_ptr b) = Some (- 1) \<and> writecell xt b = Some b' \<and> compiling lim g' k G n (its @ [it]) b' \<and>
    used b' = used b + 4"
proof -
  from assms(1) obtain vs ws l where d: "defining_at lim g k G n l vs ws b" and c: "compiled g (l + 8) its" "here_addr b = l + 8 + csize its"
    by (auto simp: compiling_def)
  then have s: "shape lim g vs ((n, l, 1) # ws) b" "visible g vs ws b" "means g ws G" "vs (state_ptr b) = Some (- 1)"
    by (simp_all add: defining_at_def pointers_def)
  have L: "layout (dict (eng b)) lim g vs (used b) (mem (eng b))" using s(1) by (simp add: shape_def)
  from means_find [OF s(3), of w] assms(2) obtain l' v' where
    f: "(nm, l', v') \<in> set ws" "find_spec ws w = l' + 4" "denotes g l' it" by auto
  have fw: "findword (eng b) w = Some (l' + 4)" using findword_visible [OF s(2,1), of w] assms(4) f(2) by simp
  have nz: "l' + 4 \<noteq> 0"
  proof -
    obtain lfa where "chain g (dict (eng b)) (used b) {} lfa ws" using s(2) by (auto simp: visible_def)
    from chain_word [OF this f(1)] obtain j where "l' + 4 = dict (eng b) + of_nat j" "0 < j" "j + 4 \<le> used b" by blast
    then have "in_dict lim (dict (eng b)) (l' + 4)"
      unfolding in_dict_def using layoutD(4) [OF L] by (intro exI [of _ j]) simp
    then show ?thesis by (rule in_dict_nonzero [OF layoutD(1) [OF L]])
  qed
  have fl: "mem (eng b) (l' + 4 - 5) = Some 128"
    using s(1) f(1) map_leD [OF layoutD(5) [OF L], of "l' - 1" 128] by (auto simp: shape_def algebra_simps)
  from cell_step [OF d assms(3), of "l' + 4"] obtain b' g' where
    w: "writecell (l' + 4) b = Some b'" "defining_at lim g' k G n l vs ws b'" "g \<subseteq>\<^sub>m g'" "read_ucell g' (here_addr b) = Some (l' + 4)"
    "here_addr b' = here_addr b + 4" "used b' = used b + 4" by blast
  have "denotes g' l' it" by (rule denotes_mono [OF w(3) f(3)])
  then have "compiled g' (here_addr b) [it] \<and> csize [it] = 4"
    using w(4) by (cases it) (auto simp: tok_at_def ac_simps)
  then have "compiled g' (l + 8) (its @ [it])" "here_addr b' = l + 8 + csize (its @ [it])"
    using compiled_mono [OF w(3) c(1)] c(2) w(5) by (simp_all add: compiled_append csize_append add.assoc)
  then have "compiling lim g' k G n (its @ [it]) b'" using w(2) by (auto simp: compiling_def)
  then show ?thesis using fw nz fl w(1,6) layoutD(7) [OF L s(4)] by blast
qed

lemma number_step:
  assumes "compiling lim g k G n its b" and "find (\<lambda>(n, _). same_name w n) G = None" and "decimal w = Some v"
    and "used b + 8 \<le> lim" and "length w < 160"
  shows "\<exists>b' g' i. findword (eng b) w = Some 0 \<and> read_ucell (mem (eng b)) (state_ptr b) = Some (- 1) \<and>
    read_ucell (mem (eng b)) (base_ptr b) = Some 10 \<and> strtonum (hd w = 45) w 10 = Some (i, []) \<and>
    do { b \<leftarrow> writecell (LIT k) b; writecell (word_of_int i) b } = Some b' \<and> compiling lim g' k G n (its @ [Num v]) b' \<and> used b' = used b + 8"
proof -
  from assms(1) obtain vs ws l where d: "defining_at lim g k G n l vs ws b" and c: "compiled g (l + 8) its" "here_addr b = l + 8 + csize its"
    by (auto simp: compiling_def)
  then have s: "shape lim g vs ((n, l, 1) # ws) b" "visible g vs ws b" "means g ws G" "vs (state_ptr b) = Some (- 1)" "vs (base_ptr b) = Some 10"
    by (simp_all add: defining_at_def pointers_def)
  have L: "layout (dict (eng b)) lim g vs (used b) (mem (eng b))" using s(1) by (simp add: shape_def)
  have fw: "findword (eng b) w = Some 0"
    using findword_visible [OF s(2,1), of w] means_find [OF s(3), of w] assms(2,5) by simp
  from strtonum_decimal [OF assms(3)] obtain i where i: "strtonum (hd w = 45) w 10 = Some (i, [])" "word_of_int i = v" by blast
  have "used b + 4 \<le> lim" using assms(4) by simp
  from cell_step [OF d this, of "LIT k"] obtain b1 g1 where
    1: "writecell (LIT k) b = Some b1" "defining_at lim g1 k G n l vs ws b1" "g \<subseteq>\<^sub>m g1" "read_ucell g1 (here_addr b) = Some (LIT k)"
    "here_addr b1 = here_addr b + 4" "used b1 = used b + 4" by blast
  have "used b1 + 4 \<le> lim" using 1(6) assms(4) by simp
  from cell_step [OF 1(2) this, of v] obtain b2 g2 where
    2: "writecell v b1 = Some b2" "defining_at lim g2 k G n l vs ws b2" "g1 \<subseteq>\<^sub>m g2" "read_ucell g2 (here_addr b1) = Some v"
    "here_addr b2 = here_addr b1 + 4" "used b2 = used b1 + 4" by blast
  have g: "g \<subseteq>\<^sub>m g2" using 1(3) 2(3) map_le_trans by blast
  have "read_ucell g2 (LIT k) = Some 2" using 2(2) by (simp add: defining_at_def toks_ok_def)
  then have "compiled g2 (here_addr b) [Num v]"
    using 2(4) 1(5) read_ucell_mono [OF 2(3) 1(4)] by (simp add: tok_at_def)
  then have "compiled g2 (l + 8) (its @ [Num v])" "here_addr b2 = l + 8 + csize (its @ [Num v])"
    using compiled_mono [OF g c(1)] c(2) 1(5) 2(5) by (simp_all add: compiled_append csize_append add.assoc)
  then have "compiling lim g2 k G n (its @ [Num v]) b2" using 2(2) by (auto simp: compiling_def)
  moreover have "do { b \<leftarrow> writecell (LIT k) b; writecell (word_of_int i) b } = Some b2" using 1(1) 2(1) i(2) by simp
  ultimately show ?thesis using fw i(1) 1(6) 2(6) layoutD(7) [OF L s(4)] layoutD(7) [OF L s(5)]
    by (intro exI [of _ b2] exI [of _ g2] exI [of _ i]) simp
qed

lemma semi_step:
  assumes "compiling lim g k G n its b" and "used b + 4 \<le> lim"
  shows "\<exists>b' g'. do { b \<leftarrow> writecell (SEMIS k) b; b \<leftarrow> set_state 0 b; reveal b } = Some b' \<and> idle lim g' k ((n, Colon its) # G) b' \<and>
    used b' = used b + 4"
proof -
  from assms(1) obtain vs ws l where d: "defining_at lim g k G n l vs ws b" and c: "compiled g (l + 8) its" "here_addr b = l + 8 + csize its"
    by (auto simp: compiling_def)
  from cell_step [OF d assms(2), of "SEMIS k"] obtain b1 g1 where
    1: "writecell (SEMIS k) b = Some b1" "defining_at lim g1 k G n l vs ws b1" "g \<subseteq>\<^sub>m g1" "read_ucell g1 (here_addr b) = Some (SEMIS k)"
    "used b1 = used b + 4" by blast
  then have s: "shape lim g1 vs ((n, l, 1) # ws) b1" "pointers vs (- 1) b1" "means g1 ws G" "toks_ok g1 k" "visible g1 vs ws b1"
    by (simp_all add: defining_at_def)
  from set_state_shape [OF s(1,2), of 0] obtain m2 where
    2: "set_state 0 b1 = Some (upd m2 (dicthead (eng b1)) b1)" "shape lim g1 (vs(state_ptr b1 \<mapsto> 0)) ((n, l, 1) # ws) (upd m2 (dicthead (eng b1)) b1)"
    "pointers (vs(state_ptr b1 \<mapsto> 0)) 0 (upd m2 (dicthead (eng b1)) b1)" by blast
  have "last_word (eng (upd m2 (dicthead (eng b1)) b1)) \<noteq> 0" using s(5) by (simp add: visible_def)
  from reveal_shape [OF 2(2,3) this] obtain m3 vs3 where
    3: "reveal (upd m2 (dicthead (eng b1)) b1) = Some (upd m3 (dicthead (eng b1)) b1)"
    "shape lim g1 vs3 ((n, l, 1) # ws) (upd m3 (dicthead (eng b1)) b1)" "pointers vs3 0 (upd m3 (dicthead (eng b1)) b1)"
    "visible g1 vs3 ((n, l, 1) # ws) (upd m3 (dicthead (eng b1)) b1)" by auto
  have "read_ucell g1 (l + 4) = Some 1" using 3(2) by (auto simp: shape_def)
  moreover have "tok_at g1 (l + 8 + csize its) 0" using 1(4) c(2) s(4) by (simp add: tok_at_def toks_ok_def)
  ultimately have "means g1 ((n, l, 1) # ws) ((n, Colon its) # G)"
    using s(3) compiled_mono [OF 1(3) c(1)] by (simp add: means_def)
  then have "idle lim g1 k ((n, Colon its) # G) (upd m3 (dicthead (eng b1)) b1)" using 3(2-4) s(4) by (auto simp: idle_def)
  then show ?thesis using 1(1,5) 2(1) 3(1) by (intro exI [of _ "upd m3 (dicthead (eng b1)) b1"] exI [of _ g1]) simp
qed


subsection \<open>The interpreter on definitions\<close>

text \<open>One turn of the loop: the interpreter goes from one place of the file and state of the dictionary to another.\<close>

definition turn :: "'w env \<Rightarrow> 'w files \<Rightarrow> nat \<Rightarrow> tokens \<Rightarrow> 'w comp \<Rightarrow> nat \<Rightarrow> 'w comp \<Rightarrow> bool" where
  "turn E fopen f k c n c' \<longleftrightarrow> (\<forall>fuel. interpret_loop E fopen (n + fuel) f k c = interpret_loop E fopen fuel f k c')"

lemma turn_refl: "turn E fopen f k c 0 c"
  by (simp add: turn_def)

lemma turn_trans: "turn E fopen f k c n c' \<Longrightarrow> turn E fopen f k c' n' c'' \<Longrightarrow> turn E fopen f k c (n + n') c''"
  by (simp add: turn_def add.assoc)

lemma turn_token:
  assumes "parse_word f c = Some (w, c1)" and "w \<noteq> []" and "\<not> feof f c" and "\<And>fuel. token E fuel f k w c1 = Some (Continue, c')"
  shows "turn E fopen f k c 1 c'"
  using assms by (simp add: turn_def)

lemma on_boot_reading: "g b = Some b' \<Longrightarrow> on_boot g (reading f s ls b c) = Some (reading f s ls b' c)"
  by (simp add: on_boot_def)

lemma token_plain:
  assumes "\<not> builtin w"
  shows "token E fuel f k w c =
    do { res \<leftarrow> findword (eng_of c) w;
         if res \<noteq> 0 then do { c \<leftarrow> known_word E fuel res c; Some (Continue, c) } else number_word E k w c }"
  using assms by (simp add: token_def builtin_def)

lemma colon_semi_distinct:
  "cstr '':'' \<noteq> cstr ''(''" "cstr '':'' \<noteq> [92]" "cstr '';'' \<noteq> cstr ''(''" "cstr '';'' \<noteq> [92]" "cstr '';'' \<noteq> cstr '':''"
  "cstr '':'' \<noteq> []" "cstr '';'' \<noteq> []" "length (cstr '':'') < 160" "length (cstr '';'') < 160"
  by code_simp+

lemma turn_colon:
  assumes "words_of r = cstr '':'' # n # ws" and "closed_text r" and "idle lim g k G b" and "good_name n" and "used b + length n + 13 \<le> lim"
  shows "\<exists>r' ls' b' g'. turn E fopen f k (reading f (open_at r) ls b c) 1 (reading f (open_at r') ls' b' c) \<and> words_of r' = ws \<and> closed_text r' \<and>
    compiling lim g' k G n [] b' \<and> used b' \<le> used b + length n + 13"
proof -
  from parse_word_some [OF assms(1,2) colon_semi_distinct(8), of f ls b c] obtain r1 l1 where
    1: "parse_word f (reading f (open_at r) ls b c) = Some (cstr '':'', reading f (open_at r1) l1 b c)" "words_of r1 = n # ws" "closed_text r1" by blast
  have "length n < 160" using assms(4) by (simp add: good_name_def)
  from parse_word_some [OF 1(2,3) this, of f l1 b c] obtain r2 l2 where
    2: "parse_word f (reading f (open_at r1) l1 b c) = Some (n, reading f (open_at r2) l2 b c)" "words_of r2 = ws" "closed_text r2" by blast
  from colon_step [OF assms(3-5), of E] obtain b' g' where
    3: "do { b \<leftarrow> fcreate E n DOCOL b; set_state (- 1) b } = Some b'" "compiling lim g' k G n [] b'" "used b' \<le> used b + length n + 13" by blast
  then obtain b1 where b1: "fcreate E n DOCOL b = Some b1" "set_state (- 1) b1 = Some b'" by (auto simp: bind_eq_Some_iff)
  have "token E fuel f k (cstr '':'') (reading f (open_at r1) l1 b c) = Some (Continue, reading f (open_at r2) l2 b' c)" for fuel
    using 2(1) on_boot_reading [of "fcreate E n DOCOL", OF b1(1)] on_boot_reading [of "set_state (- 1)", OF b1(2)]
    by (simp add: token_def colon_semi_distinct)
  from turn_token [OF 1(1) colon_semi_distinct(6) _ this] have "turn E fopen f k (reading f (open_at r) ls b c) 1 (reading f (open_at r2) l2 b' c)" by simp
  then show ?thesis using 2(2,3) 3(2,3) by blast
qed

lemma turn_semi:
  assumes "words_of r = cstr '';'' # ws" and "closed_text r" and "compiling lim g k G n its b" and "used b + 4 \<le> lim"
  shows "\<exists>r' ls' b' g'. turn E fopen f k (reading f (open_at r) ls b c) 1 (reading f (open_at r') ls' b' c) \<and> words_of r' = ws \<and> closed_text r' \<and>
    idle lim g' k ((n, Colon its) # G) b' \<and> used b' = used b + 4"
proof -
  from parse_word_some [OF assms(1,2) colon_semi_distinct(9), of f ls b c] obtain r1 l1 where
    1: "parse_word f (reading f (open_at r) ls b c) = Some (cstr '';'', reading f (open_at r1) l1 b c)" "words_of r1 = ws" "closed_text r1" by blast
  from semi_step [OF assms(3,4)] obtain b' g' where
    2: "do { b \<leftarrow> writecell (SEMIS k) b; b \<leftarrow> set_state 0 b; reveal b } = Some b'" "idle lim g' k ((n, Colon its) # G) b'" "used b' = used b + 4" by blast
  then obtain b1 b2 where b: "writecell (SEMIS k) b = Some b1" "set_state 0 b1 = Some b2" "reveal b2 = Some b'" by (auto simp: bind_eq_Some_iff)
  have "token E fuel f k (cstr '';'') (reading f (open_at r1) l1 b c) = Some (Continue, reading f (open_at r1) l1 b' c)" for fuel
    using on_boot_reading [of "writecell (SEMIS k)", OF b(1)] on_boot_reading [of "set_state 0", OF b(2)] on_boot_reading [of reveal, OF b(3)]
    by (simp add: token_def colon_semi_distinct)
  from turn_token [OF 1(1) colon_semi_distinct(7) _ this] have "turn E fopen f k (reading f (open_at r) ls b c) 1 (reading f (open_at r1) l1 b' c)" by simp
  then show ?thesis using 1(2,3) 2(2,3) by blast
qed

lemma turn_word:
  assumes "words_of r = w # ws" and "closed_text r" and "compiling lim g k G n its b" and "used b + 8 \<le> lim"
    and "\<not> builtin w" and "length w < 160" and "elab_word G w = Some it"
  shows "\<exists>r' ls' b' g'. turn E fopen f k (reading f (open_at r) ls b c) 1 (reading f (open_at r') ls' b' c) \<and> words_of r' = ws \<and> closed_text r' \<and>
    compiling lim g' k G n (its @ [it]) b' \<and> used b' \<le> used b + 8"
proof -
  from parse_word_some [OF assms(1,2,6), of f ls b c] obtain r1 l1 where
    1: "parse_word f (reading f (open_at r) ls b c) = Some (w, reading f (open_at r1) l1 b c)" "words_of r1 = ws" "closed_text r1" by blast
  have w: "w \<noteq> []" using words_of_first [OF assms(1,2)] by blast
  have "\<exists>b' g'. (\<forall>fuel. token E fuel f k w (reading f (open_at r1) l1 b c) = Some (Continue, reading f (open_at r1) l1 b' c)) \<and>
    compiling lim g' k G n (its @ [it]) b' \<and> used b' \<le> used b + 8"
  proof (cases "find (\<lambda>(n, _). same_name w n) G")
    case None
    then obtain v where v: "decimal w = Some v" "it = Num v" using assms(7) by (auto simp: elab_word_def)
    from number_step [OF assms(3) None v(1) assms(4,6)] obtain b' g' i where
      2: "findword (eng b) w = Some 0" "read_ucell (mem (eng b)) (state_ptr b) = Some (- 1)" "read_ucell (mem (eng b)) (base_ptr b) = Some 10"
      "strtonum (hd w = 45) w 10 = Some (i, [])" "do { b \<leftarrow> writecell (LIT k) b; writecell (word_of_int i) b } = Some b'"
      "compiling lim g' k G n (its @ [Num v]) b'" "used b' = used b + 8" by blast
    have "token E fuel f k w (reading f (open_at r1) l1 b c) = Some (Continue, reading f (open_at r1) l1 b' c)" for fuel
      using 2(1-4) on_boot_reading [of "\<lambda>b. do { b \<leftarrow> writecell (LIT k) b; writecell (word_of_int i) b }", OF 2(5)]
      by (simp add: token_plain [OF assms(5)] number_word_def)
    then show ?thesis using 2(6,7) v(2) by (intro exI [of _ b'] exI [of _ g']) simp
  next
    case (Some p)
    then obtain nm where p: "find (\<lambda>(n, _). same_name w n) G = Some (nm, it)" using assms(7) by (cases p) (simp add: elab_word_def)
    have "used b + 4 \<le> lim" using assms(4) by simp
    from word_step [OF assms(3) p this assms(6)] obtain b' g' xt where
      2: "findword (eng b) w = Some xt" "xt \<noteq> 0" "mem (eng b) (xt - 5) = Some 128" "read_ucell (mem (eng b)) (state_ptr b) = Some (- 1)"
      "writecell xt b = Some b'" "compiling lim g' k G n (its @ [it]) b'" "used b' = used b + 4" by blast
    have "token E fuel f k w (reading f (open_at r1) l1 b c) = Some (Continue, reading f (open_at r1) l1 b' c)" for fuel
      using 2(1-4) on_boot_reading [of "writecell xt", OF 2(5)] by (simp add: token_plain [OF assms(5)] known_word_def)
    then show ?thesis using 2(6,7) by (intro exI [of _ b'] exI [of _ g']) simp
  qed
  then obtain b' g' where t: "\<And>fuel. token E fuel f k w (reading f (open_at r1) l1 b c) = Some (Continue, reading f (open_at r1) l1 b' c)"
    and r: "compiling lim g' k G n (its @ [it]) b'" "used b' \<le> used b + 8" by blast
  from turn_token [OF 1(1) w _ t] have "turn E fopen f k (reading f (open_at r) ls b c) 1 (reading f (open_at r1) l1 b' c)" by simp
  then show ?thesis using 1(2,3) r by blast
qed

lemma turn_body:
  "words_of r = body @ ws \<Longrightarrow> closed_text r \<Longrightarrow> compiling lim g k G n its b \<Longrightarrow> used b + 8 * length body \<le> lim \<Longrightarrow>
   \<forall>w \<in> set body. \<not> builtin w \<and> length w < 160 \<Longrightarrow> elab_body G body = Some its' \<Longrightarrow>
   \<exists>r' ls' b' g'. turn E fopen f k (reading f (open_at r) ls b c) (length body) (reading f (open_at r') ls' b' c) \<and> words_of r' = ws \<and> closed_text r' \<and>
     compiling lim g' k G n (its @ its') b' \<and> used b' \<le> used b + 8 * length body"
proof (induction body arbitrary: r ls b g its its')
  case Nil
  then show ?case using turn_refl by fastforce
next
  case (Cons w body)
  from Cons.prems(6) obtain it its2 where e: "elab_word G w = Some it" "elab_body G body = Some its2" "its' = it # its2"
    by (auto simp: bind_eq_Some_iff)
  have w: "words_of r = w # (body @ ws)" "used b + 8 \<le> lim" "\<not> builtin w" "length w < 160" using Cons.prems(1,4,5) by simp_all
  from turn_word [OF w(1) Cons.prems(2,3) w(2-4) e(1), of E fopen f ls c] obtain r1 l1 b1 g1 where
    1: "turn E fopen f k (reading f (open_at r) ls b c) 1 (reading f (open_at r1) l1 b1 c)" "words_of r1 = body @ ws" "closed_text r1"
    "compiling lim g1 k G n (its @ [it]) b1" "used b1 \<le> used b + 8" by blast
  have s: "used b1 + 8 * length body \<le> lim" "\<forall>w \<in> set body. \<not> builtin w \<and> length w < 160" using 1(5) Cons.prems(4,5) by simp_all
  from Cons.IH [OF 1(2-4) s e(2), of l1] obtain r2 l2 b2 g2 where
    2: "turn E fopen f k (reading f (open_at r1) l1 b1 c) (length body) (reading f (open_at r2) l2 b2 c)" "words_of r2 = ws" "closed_text r2"
    "compiling lim g2 k G n ((its @ [it]) @ its2) b2" "used b2 \<le> used b1 + 8 * length body" by blast
  have "turn E fopen f k (reading f (open_at r) ls b c) (length (w # body)) (reading f (open_at r2) l2 b2 c)"
    using turn_trans [OF 1(1) 2(1)] by simp
  moreover have "compiling lim g2 k G n (its @ its') b2" "used b2 \<le> used b + 8 * length (w # body)" using 2(4,5) 1(5) e(3) by simp_all
  ultimately show ?case using 2(2,3) by blast
qed

lemma turn_defs:
  "words_of r = concat (map def_words ps) @ tail \<Longrightarrow> closed_text r \<Longrightarrow> idle lim g k G b \<Longrightarrow> used b + space_of ps \<le> lim \<Longrightarrow>
   plain_defs ps \<Longrightarrow> elab_defs G ps = Some G' \<Longrightarrow>
   \<exists>r' ls' b' g'. turn E fopen f k (reading f (open_at r) ls b c) (turns_of ps) (reading f (open_at r') ls' b' c) \<and> words_of r' = tail \<and> closed_text r' \<and>
     idle lim g' k G' b'"
proof (induction ps arbitrary: r ls b g G)
  case Nil
  then show ?case using turn_refl by (fastforce simp: turns_of_def)
next
  case (Cons p ps)
  obtain n body where p: "p = (n, body)" by (cases p)
  let ?ws = "concat (map def_words ps) @ tail"
  from Cons.prems(6) p obtain its where e: "elab_body G body = Some its" "elab_defs ((n, Colon its) # G) ps = Some G'" by (auto simp: bind_eq_Some_iff)
  have pl: "good_name n" "\<forall>w \<in> set body. \<not> builtin w \<and> length w < 160" "plain_defs ps" using Cons.prems(5) p by (simp_all add: plain_defs_def)
  have sp: "used b + (length n + 13 + 8 * length body + 4 + space_of ps) \<le> lim" using Cons.prems(4) p by (simp add: space_of_def)
  have w: "words_of r = cstr '':'' # n # (body @ (cstr '';'' # ?ws))"
    using Cons.prems(1) def_words_def [of p] p by simp
  have s1: "used b + length n + 13 \<le> lim" using sp by simp
  from turn_colon [OF w Cons.prems(2,3) pl(1) s1, of E fopen f ls c] obtain r1 l1 b1 g1 where
    1: "turn E fopen f k (reading f (open_at r) ls b c) 1 (reading f (open_at r1) l1 b1 c)" "words_of r1 = body @ (cstr '';'' # ?ws)" "closed_text r1"
    "compiling lim g1 k G n [] b1" "used b1 \<le> used b + length n + 13" by blast
  have s2: "used b1 + 8 * length body \<le> lim" using sp 1(5) by simp
  from turn_body [OF 1(2-4) s2 pl(2) e(1), of E fopen f l1 c] obtain r2 l2 b2 g2 where
    2: "turn E fopen f k (reading f (open_at r1) l1 b1 c) (length body) (reading f (open_at r2) l2 b2 c)" "words_of r2 = cstr '';'' # ?ws" "closed_text r2"
    "compiling lim g2 k G n ([] @ its) b2" "used b2 \<le> used b1 + 8 * length body" by blast
  have s3: "used b2 + 4 \<le> lim" using sp 1(5) 2(5) by simp
  from turn_semi [OF 2(2,3) _ s3, of g2 k G n its E fopen f l2 c] 2(4) obtain r3 l3 b3 g3 where
    3: "turn E fopen f k (reading f (open_at r2) l2 b2 c) 1 (reading f (open_at r3) l3 b3 c)" "words_of r3 = ?ws" "closed_text r3"
    "idle lim g3 k ((n, Colon its) # G) b3" "used b3 = used b2 + 4" by auto
  have s4: "used b3 + space_of ps \<le> lim" using sp 1(5) 2(5) 3(5) by simp
  from Cons.IH [OF 3(2-4) s4 pl(3) e(2), of l3] obtain r4 l4 b4 g4 where
    4: "turn E fopen f k (reading f (open_at r3) l3 b3 c) (turns_of ps) (reading f (open_at r4) l4 b4 c)" "words_of r4 = tail" "closed_text r4"
    "idle lim g4 k G' b4" by blast
  have "1 + length body + 1 + turns_of ps = turns_of (p # ps)" using p by (simp add: turns_of_def)
  then have "turn E fopen f k (reading f (open_at r) ls b c) (turns_of (p # ps)) (reading f (open_at r4) l4 b4 c)"
    using turn_trans [OF turn_trans [OF turn_trans [OF 1(1) 2(1)] 3(1)] 4(1)] by (simp only:)
  then show ?case using 4(2-4) by blast
qed


subsection \<open>From source to result\<close>

lemma loop_end:
  assumes "words_of r = []"
  shows "\<exists>ls'. \<forall>fuel. interpret_loop E fopen (2 + fuel) f k (reading f (open_at r) ls b c) =
    Some (Return 0, (reading f \<lparr>rest = [], at_end = True\<rparr> ls' b c)\<lparr>cursrc := cursrc c - 1\<rparr>)"
proof -
  from parse_word_none [OF assms, of f ls b c] obtain ls' where
    "parse_word f (reading f (open_at r) ls b c) = Some ([], reading f \<lparr>rest = [], at_end = True\<rparr> ls' b c)" by blast
  then show ?thesis by (intro exI [of _ ls']) (simp add: numeral_2_eq_2)
qed

text \<open>The scope the initial dictionary gives: every word executes an entry of \<open>words[]\<close>.\<close>

definition initial_scope :: scope where
  "initial_scope = map (\<lambda>(n, v). (n, SWord (unat v))) dict_entries"

lemma entries_small: "list_all (\<lambda>(n, v). unat v < 98) dict_entries"
  by code_simp

lemma chain_cfa: "chain g d h H lfa ws \<Longrightarrow> (n, l, v) \<in> set ws \<Longrightarrow> read_ucell g (l + 4) = Some v"
proof (induction ws arbitrary: lfa)
  case (Cons w ws)
  obtain n' l' v' where "w = (n', l', v')" by (cases w)
  then show ?case using Cons by auto
qed simp

lemma means_initial:
  assumes "shape lim g vs ws b" and "map entry ws = dict_entries"
  shows "means g ws initial_scope"
proof -
  obtain lfa where ch: "chain g (dict (eng b)) (used b) {} lfa ws" using assms(1) by (auto simp: shape_def)
  have sc: "initial_scope = map (\<lambda>(n, l, v). (n, SWord (unat v))) ws"
    unfolding initial_scope_def assms(2) [symmetric] by (simp add: entry_def case_prod_unfold comp_def)
  have "denotes g l (SWord (unat v))" if "(n, l, v) \<in> set ws" for n l v
  proof -
    have "(n, v) \<in> set dict_entries" unfolding assms(2) [symmetric] using that by (force simp: entry_def)
    then show ?thesis using entries_small chain_cfa [OF ch that] by (auto simp: list_all_iff)
  qed
  then show ?thesis unfolding means_def sc by (auto simp: list_all2_map2 list.rel_refl_strong intro!: list.rel_refl_strong)
qed

lemma find_map_snd:
  "find (\<lambda>(n, _). P n) (map (\<lambda>(n, v). (n, h v)) xs) = map_option (\<lambda>(n, v). (n, h v)) (find (\<lambda>(n, _). P n) xs)"
  by (induction xs) auto

lemma scope_primitive:
  assumes "i < length wordnames" and "wordnames ! i = name" and "name \<noteq> []"
  shows "find (\<lambda>(n, _). same_name (cstr name) n) initial_scope = Some (cstr name, SWord i)"
proof -
  have "(cstr name, of_nat i) \<in> set dict_entries" using prim_entries_nth [of i wordnames 0] assms by (simp add: dict_entries_def)
  from find_unique [OF entries_distinct this]
  have "find (\<lambda>(n, _). same_name (cstr name) n) dict_entries = Some (cstr name, of_nat i)"
    by (simp add: same_name_def case_prod_unfold)
  then have "find (\<lambda>(n, _). same_name (cstr name) n) initial_scope = Some (cstr name, SWord (unat (of_nat i :: ucell)))"
    unfolding initial_scope_def find_map_snd by simp
  moreover have "unat (of_nat i :: ucell) = i" by (rule unat_of_nat_small) (use assms(1) in \<open>simp add: wordnames_def\<close>)
  ultimately show ?thesis by simp
qed

lemmas scope_tokens = scope_primitive [of 0 "''(semis)''"] scope_primitive [of 2 "''(lit)''"]

lemma initial_idle:
  assumes "shape lim g vs ws b" and "pointers vs 0 b" and "visible g vs ws b" and "map entry ws = dict_entries"
  shows "\<exists>k. findword (eng b) (cstr ''(semis)'') = Some (SEMIS k) \<and> findword (eng b) (cstr ''(lit)'') = Some (LIT k) \<and>
    findword (eng b) (cstr ''dobranch'') = Some (DOBRANCH k) \<and> idle lim g k initial_scope b"
proof -
  note m = means_initial [OF assms(1,4)]
  let ?k = "\<lparr>SEMIS = find_spec ws (cstr ''(semis)''), LIT = find_spec ws (cstr ''(lit)''), DOBRANCH = find_spec ws (cstr ''dobranch'')\<rparr>"
  have "toks_ok g ?k"
    using means_find [OF m, of "cstr ''(semis)''"] means_find [OF m, of "cstr ''(lit)''"] scope_tokens
    by (auto simp: toks_ok_def control_tokens wordnames_def)
  then have "idle lim g ?k initial_scope b" using assms(1-3) m by (auto simp: idle_def)
  moreover have "findword (eng b) (cstr n) = Some (find_spec ws (cstr n))" if "length n < 2 ^ 32" for n
    using findword_visible [OF assms(3,1), of "cstr n"] that by simp
  ultimately show ?thesis by (intro exI [of _ ?k]) simp
qed

lemma idle_runs:
  assumes "idle lim g k G b" and "find (\<lambda>(m, _). same_name n m) G = Some (nm, Colon its)" and "length n < 160"
    and "mem s = mem (eng b)" and "dict s = dict (eng b)" and "last_word s = last_word (eng b)"
    and "run_items None its (ds s) = Some ys" and "ds_ok s" and "rs_ok s" and "rstackcnt s + int (rneed its) < 511" and "tl (debug_xt_list s) = []"
  shows "\<exists>xt N c f r. findword s n = Some xt \<and>
    (\<forall>fuel \<ge> N. enterforth E fuel xt s = Some (False, s\<lparr>interruptforth := 0, dstackcnt := c, dstack := f, rstack := r\<rparr>)) \<and>
    items f c = ys \<and> items r (rstackcnt s) = rs s"
proof -
  from assms(1) obtain vs ws where i: "shape lim g vs ws b" "visible g vs ws b" "means g ws G" by (auto simp: idle_def)
  have le: "g \<subseteq>\<^sub>m mem s" unfolding assms(4) using i(1) layoutD(5) by (auto simp: shape_def)
  from means_find [OF i(3), of n] assms(2) obtain l where l: "find_spec ws n = l + 4" "denotes g l (Colon its)" by auto
  have fw: "findword s n = Some (l + 4)" using findword_visible_in [OF i(2,1) _ assms(4-6), of n] l(1) assms(3) by simp
  have "denotes (mem s) l (Colon its)" by (rule denotes_mono [OF le l(2)])
  then have "read_ucell (mem s) (l + 4) = Some DOCOL" "compiled (mem s) (l + 4 + 4) its" "tok_at (mem s) (l + 4 + 4 + csize its) 0"
    by (simp_all add: add.assoc)
  from enter_colon [OF this assms(7-11), of E] fw show ?thesis by blast
qed


text \<open>The file is opened and its definitions are compiled, up to the words \<open>tail\<close> that follow them.\<close>

lemma interpret_prefix:
  assumes "shape lim g vs ws b" and "pointers vs 0 b" and "visible g vs ws b" and "map entry ws = dict_entries"
    and "boot_of c = b" and "include_path c = p # ps" and "\<And>w. fopen (include_name p fil) w = Some bs" and "cursrc c < 128"
    and "closed_text bs" and "words_of bs = concat (map def_words prog) @ tail" and "plain_defs prog" and "used b + space_of prog \<le> lim"
    and "elab_defs initial_scope prog = Some G"
  shows "\<exists>c1 r ls b' g' k. (\<forall>fuel. interpret_source E fopen (Suc (turns_of prog + fuel)) fil c =
      interpret_loop E fopen fuel (cursrc c) k (reading (cursrc c) (open_at r) ls b' c1)) \<and> errors c1 = errors c \<and> cursrc c1 = cursrc c + 1 \<and>
    words_of r = tail \<and> closed_text r \<and> idle lim g' k G b'"
proof -
  from initial_idle [OF assms(1-4)] obtain k where
    k: "findword (eng b) (cstr ''(semis)'') = Some (SEMIS k)" "findword (eng b) (cstr ''(lit)'') = Some (LIT k)"
    "findword (eng b) (cstr ''dobranch'') = Some (DOBRANCH k)" "idle lim g k initial_scope b" by blast
  define f where "f = cursrc c"
  define c1 where "c1 = c\<lparr>srcfilenames := (srcfilenames c)(f := fil), srclines := (srclines c)(f := 1),
    srcfiles := (srcfiles c)(f := open_at bs), cursrc := f + 1, depfile := map_option (\<lambda>d. d @ [32] @ include_name p fil) (depfile c)\<rparr>"
  have c1: "c1 = reading f (open_at bs) (srclines c1) b c1" using assms(5) by (simp add: c1_def reading_def)
  have o: "fopen_include fopen fil c = Some (Some f, c1)"
    using assms(6-8) by (simp add: fopen_include_def c1_def f_def Let_def)
  from turn_defs [OF assms(10,9) k(4) assms(12,11,13), of E fopen f "srclines c1" c1] obtain r' ls' b' g' where
    t: "turn E fopen f k c1 (turns_of prog) (reading f (open_at r') ls' b' c1)" "words_of r' = tail" "closed_text r'" "idle lim g' k G b'"
    using c1 by metis
  have "interpret_source E fopen (Suc (turns_of prog + fuel)) fil c = interpret_loop E fopen fuel f k (reading f (open_at r') ls' b' c1)" for fuel
  proof -
    define i where "i = turns_of prog + fuel"
    have "interpret_loop E fopen i f k c1 = interpret_loop E fopen fuel f k (reading f (open_at r') ls' b' c1)"
      unfolding i_def using t(1) by (simp only: turn_def)
    moreover have kk: "\<lparr>SEMIS = SEMIS k, LIT = LIT k, DOBRANCH = DOBRANCH k\<rparr> = k" by simp
    ultimately show ?thesis unfolding i_def [symmetric] using k(1-3) o assms(5) by (simp add: kk)
  qed
  moreover have "errors c1 = errors c" "cursrc c1 = cursrc c + 1" by (simp_all add: c1_def f_def)
  ultimately show ?thesis using t(2-4) unfolding f_def by blast
qed

lemma interpret_definitions:
  assumes "shape lim g vs ws b" and "pointers vs 0 b" and "visible g vs ws b" and "map entry ws = dict_entries"
    and "boot_of c = b" and "include_path c = p # ps" and "\<And>w. fopen (include_name p fil) w = Some bs" and "cursrc c < 128"
    and "closed_text bs" and "words_of bs = concat (map def_words prog)" and "plain_defs prog" and "used b + space_of prog \<le> lim"
    and "elab_defs initial_scope prog = Some G"
  shows "\<exists>c' g' k. (\<forall>fuel \<ge> turns_of prog + 3. interpret_source E fopen fuel fil c = Some (Return 0, c')) \<and> errors c' = errors c \<and>
    cursrc c' = cursrc c \<and> idle lim g' k G (boot_of c')"
proof -
  let ?f = "cursrc c"
  have w: "words_of bs = concat (map def_words prog) @ []" using assms(10) by simp
  from interpret_prefix [where fopen = fopen, OF assms(1-9) w assms(11-13), of E] obtain c1 r ls b' g' k where
    t: "\<forall>fuel. interpret_source E fopen (Suc (turns_of prog + fuel)) fil c = interpret_loop E fopen fuel ?f k (reading ?f (open_at r) ls b' c1)"
    "errors c1 = errors c" "cursrc c1 = cursrc c + 1" "words_of r = []" "idle lim g' k G b'" by blast
  from loop_end [OF t(4), of E fopen ?f k ls b' c1] obtain l2 where
    e: "\<And>fuel. interpret_loop E fopen (2 + fuel) ?f k (reading ?f (open_at r) ls b' c1) =
      Some (Return 0, (reading ?f \<lparr>rest = [], at_end = True\<rparr> l2 b' c1)\<lparr>cursrc := cursrc c1 - 1\<rparr>)" by blast
  let ?c' = "(reading ?f \<lparr>rest = [], at_end = True\<rparr> l2 b' c1)\<lparr>cursrc := cursrc c1 - 1\<rparr>"
  have "interpret_source E fopen fuel fil c = Some (Return 0, ?c')" if fuel: "turns_of prog + 3 \<le> fuel" for fuel
  proof -
    obtain j where j: "fuel = Suc (turns_of prog + (2 + j))" using fuel by (auto simp: le_iff_add)
    show ?thesis unfolding j t(1) [rule_format] by (rule e)
  qed
  moreover have "errors ?c' = errors c" "cursrc ?c' = cursrc c" "boot_of ?c' = b'" using t(2,3) by simp_all
  ultimately show ?thesis using t(5) by (intro exI [of _ ?c'] exI [of _ g'] exI [of _ k]) simp
qed

text \<open>
  C12: From source text to result. Build the initial dictionary in 256 kilobytes of mapped memory and let
  \<open>interpret_source\<close> read a file, found on the include path, whose words are colon definitions
  of numbers and words defined before them; the layout of the text is free. It returns 0 after the given number of
  words, with no error counted and the file left. In the dictionary it leaves every name leads through \<open>findword\<close> to an
  execution token on which \<open>enterforth\<close> computes what the newest definition of that name means, whatever is on the stack.
\<close>

theorem source_program_runs:
  assumes "linear (dict (eng b)) 0x40000" and "mapped (mem (eng b)) (dict (eng b)) 0x40000"
    and "mapped (mem (eng b)) lfa 4" and "apart (dict (eng b)) 0x40000 lfa 4"
    and "include_path c = p # ps" and "\<And>w. fopen (include_name p fil) w = Some bs" and "cursrc c < 128"
    and "closed_text bs" and "words_of bs = concat (map def_words prog)" and "plain_defs prog" and "2300 + space_of prog \<le> 0x40000"
    and "elab_defs initial_scope prog = Some G"
  shows "\<exists>b' c'. build_dictionary E lfa b = Some b' \<and>
     (\<forall>fuel \<ge> turns_of prog + 3. interpret_source E fopen fuel fil (set_boot b' c) = Some (Return 0, c')) \<and>
     errors c' = errors c \<and> cursrc c' = cursrc c \<and>
     (\<forall>n nm its s ys. find (\<lambda>(m, _). same_name n m) G = Some (nm, Colon its) \<and> length n < 160 \<and>
        mem s = mem (eng_of c') \<and> dict s = dict (eng_of c') \<and> last_word s = last_word (eng_of c') \<and>
        run_items None its (ds s) = Some ys \<and> ds_ok s \<and> rs_ok s \<and> rstackcnt s + int (rneed its) < 511 \<and> tl (debug_xt_list s) = [] \<longrightarrow>
        (\<exists>xt N cn f r. findword s n = Some xt \<and>
           (\<forall>fuel \<ge> N. enterforth E fuel xt s = Some (False, s\<lparr>interruptforth := 0, dstackcnt := cn, dstack := f, rstack := r\<rparr>)) \<and>
           items f cn = ys \<and> items r (rstackcnt s) = rs s))"
proof -
  from build_dictionary_shape [OF assms(1) _ _ assms(2-4), of E] obtain b' g vs ws where
    d: "build_dictionary E lfa b = Some b'" "shape 0x40000 g vs ws b'" "pointers vs 0 b'" "visible g vs ws b'" "map entry ws = dict_entries"
    "used b' \<le> 2300" by auto
  have bt: "boot_of (set_boot b' c) = b'" "include_path (set_boot b' c) = p # ps" "cursrc (set_boot b' c) < 128"
    using assms(5,7) by (simp_all add: set_boot_def)
  have sp: "used b' + space_of prog \<le> 0x40000" using d(6) assms(11) by simp
  from interpret_definitions [where fopen = fopen, OF d(2-5) bt(1,2) assms(6) bt(3) assms(8-10) sp assms(12), of E] obtain c' g' k where
    i: "\<forall>fuel \<ge> turns_of prog + 3. interpret_source E fopen fuel fil (set_boot b' c) = Some (Return 0, c')"
    "errors c' = errors (set_boot b' c)" "cursrc c' = cursrc (set_boot b' c)" "idle 0x40000 g' k G (boot_of c')" by blast
  have "errors c' = errors c" "cursrc c' = cursrc c" using i(2,3) by (simp_all add: set_boot_def)
  then show ?thesis using d(1) i(1) idle_runs [OF i(4)] by blast
qed


text \<open>\<open>sq\<close> squares, \<open>quad\<close> raises to the fourth power, \<open>f\<close> computes 7 less than that; two definitions on one line, a tab and a newline.\<close>

definition demo_source :: "u8 list" where
  "demo_source = cstr '': sq dup * ; : QUAD sq'' @ [9] @ cstr ''SQ ;'' @ [10] @ cstr '': f quad 7 - ; '' @ [10]"

definition demo_defs :: "(u8 list \<times> u8 list list) list" where
  "demo_defs = [(cstr ''sq'', [cstr ''dup'', cstr ''*'']), (cstr ''QUAD'', [cstr ''sq'', cstr ''SQ'']),
     (cstr ''f'', [cstr ''quad'', cstr ''7'', cstr ''-''])]"

definition demo_comp :: "unit comp" where
  "demo_comp = \<lparr>sp = \<lparr>bt = \<lparr>eng = init_fstate (\<lambda>_. Some 0) (), latest = 0, state_ptr = 0, base_ptr = 0\<rparr>, relocation_address = 0, relocation_length = 0\<rparr>,
     srcfiles = (\<lambda>_. \<lparr>rest = [], at_end = True\<rparr>), srcfilenames = (\<lambda>_. []), srclines = (\<lambda>_. 0), cursrc = 0, errors = 0,
     include_path = [cstr ''.''], depfile = None\<rparr>"

definition demo_meaning :: "item list" where
  "demo_meaning = (let sq = Colon [SWord 14, SWord 37] in [Colon [sq, sq], Num 7, SWord 36])"

lemma demo_lookups:
  "find (\<lambda>(n, _). same_name (cstr ''dup'') n) initial_scope = Some (cstr ''dup'', SWord 14)"
  "find (\<lambda>(n, _). same_name (cstr ''*'') n) initial_scope = Some (cstr ''*'', SWord 37)"
  "find (\<lambda>(n, _). same_name (cstr ''-'') n) initial_scope = Some (cstr ''-'', SWord 36)"
  by (rule scope_primitive; simp add: wordnames_def)+

lemma demo_number: "elab_word initial_scope (cstr ''7'') = Some (Num 7)" "decimal (cstr ''7'') = Some 7"
proof -
  have "map to_lower (cstr ''7'') \<notin> set (map (\<lambda>(n, v). map to_lower n) dict_entries)" by code_simp
  then have "find (\<lambda>(n, _). same_name (cstr ''7'') n) dict_entries = None" by (auto simp: find_None_iff same_name_def)
  then have "find (\<lambda>(n, _). same_name (cstr ''7'') n) initial_scope = None" unfolding initial_scope_def find_map_snd by simp
  moreover show "decimal (cstr ''7'') = Some 7" by (simp add: decimal_def value_of_def cstr_def Let_def)
  ultimately show "elab_word initial_scope (cstr ''7'') = Some (Num 7)" by (simp add: elab_word_def)
qed

lemma demo_names:
  "same_name (cstr ''sq'') (cstr ''sq'')" "same_name (cstr ''SQ'') (cstr ''sq'')" "same_name (cstr ''quad'') (cstr ''QUAD'')"
  "\<not> same_name (cstr ''7'') (cstr ''QUAD'')" "\<not> same_name (cstr ''-'') (cstr ''QUAD'')" "\<not> same_name (cstr ''7'') (cstr ''sq'')"
  "\<not> same_name (cstr ''-'') (cstr ''sq'')" "same_name (cstr ''F'') (cstr ''f'')"
  by code_simp+

lemma demo_elab:
  "\<exists>G. elab_defs initial_scope demo_defs = Some ((cstr ''f'', Colon demo_meaning) # G)"
  using demo_number by (simp add: demo_defs_def elab_word_def demo_lookups demo_names demo_meaning_def Let_def)

theorem source_program_runs_witness:
  "\<exists>b' c' xt N cn f r. build_dictionary bare_env 16
       \<lparr>eng = (init_fstate (\<lambda>_. Some 0) ())\<lparr>dict := 0x100000\<rparr>, latest = 0, state_ptr = 0, base_ptr = 0\<rparr> = Some b' \<and>
     interpret_source bare_env (\<lambda>nm w. Some demo_source) 20 (cstr ''x'') (set_boot b' demo_comp) = Some (Return 0, c') \<and> errors c' = 0 \<and>
     (let s = (init_fstate (mem (eng_of c')) ())\<lparr>dict := dict (eng_of c'), last_word := last_word (eng_of c'), dstackcnt := 1, dstack := (\<lambda>_. 3)\<rparr>
      in findword s (cstr ''F'') = Some xt \<and>
         (\<forall>fuel \<ge> N. enterforth bare_env fuel xt s = Some (False, s\<lparr>interruptforth := 0, dstackcnt := cn, dstack := f, rstack := r\<rparr>)) \<and>
         items f cn = [74])"
proof -
  let ?b = "\<lparr>eng = (init_fstate (\<lambda>_. Some 0) ())\<lparr>dict := 0x100000\<rparr>, latest = 0, state_ptr = 0, base_ptr = 0\<rparr> :: unit boot"
  have m: "mapped (mem (eng ?b)) (dict (eng ?b)) 0x40000" "mapped (mem (eng ?b)) 16 4"
    by (simp_all add: mapped_def init_fstate_def)
  have l: "linear (dict (eng ?b)) 0x40000" by (simp add: linear_def)
  have a: "apart (dict (eng ?b)) 0x40000 16 4"
    by (subst apart_sym, rule apart_no_wrap) simp_all
  have p: "include_path demo_comp = cstr ''.'' # []" "cursrc demo_comp < 128" "errors demo_comp = 0" by (simp_all add: demo_comp_def)
  have t: "closed_text demo_source" unfolding closed_text_def by code_simp
  have w: "words_of demo_source = concat (map def_words demo_defs)" by code_simp
  have d: "plain_defs demo_defs" "turns_of demo_defs = 13" by code_simp+
  have d2: "2300 + space_of demo_defs \<le> 0x40000" by (simp add: space_of_def demo_defs_def cstr_def)
  obtain G0 where G: "elab_defs initial_scope demo_defs = Some ((cstr ''f'', Colon demo_meaning) # G0)" using demo_elab by blast
  let ?G = "(cstr ''f'', Colon demo_meaning) # G0"
  have F: "find (\<lambda>(m, _). same_name (cstr ''F'') m) ?G = Some (cstr ''f'', Colon demo_meaning)" by (simp add: demo_names)
  from source_program_runs [where E = bare_env and fopen = "\<lambda>nm w. Some demo_source" and fil = "cstr ''x''", OF l m a p(1) refl p(2) t w d(1) d2 G]
  obtain b' c' where
    b: "build_dictionary bare_env 16 ?b = Some b'" and
    i: "\<And>fuel. fuel \<ge> turns_of demo_defs + 3 \<Longrightarrow> interpret_source bare_env (\<lambda>nm w. Some demo_source) fuel (cstr ''x'') (set_boot b' demo_comp) = Some (Return 0, c')"
      "errors c' = errors demo_comp" and
    run: "\<And>n nm its s ys. find (\<lambda>(m, _). same_name n m) ?G = Some (nm, Colon its) \<and> length n < 160 \<and>
        mem s = mem (eng_of c') \<and> dict s = dict (eng_of c') \<and> last_word s = last_word (eng_of c') \<and>
        run_items None its (ds s) = Some ys \<and> ds_ok s \<and> rs_ok s \<and> rstackcnt s + int (rneed its) < 511 \<and> tl (debug_xt_list s) = [] \<Longrightarrow>
        \<exists>xt N cn f r. findword s n = Some xt \<and>
           (\<forall>fuel \<ge> N. enterforth bare_env fuel xt s = Some (False, s\<lparr>interruptforth := 0, dstackcnt := cn, dstack := f, rstack := r\<rparr>)) \<and>
           items f cn = ys \<and> items r (rstackcnt s) = rs s" by blast
  let ?s = "(init_fstate (mem (eng_of c')) ())\<lparr>dict := dict (eng_of c'), last_word := last_word (eng_of c'), dstackcnt := 1, dstack := (\<lambda>_. 3)\<rparr>"
  have s: "ds ?s = [3]" "ds_ok ?s" "rs_ok ?s" "rstackcnt ?s = 0" "tl (debug_xt_list ?s) = []" "mem ?s = mem (eng_of c')"
    by (simp_all add: init_fstate_def ds_def items_def ds_ok_def rs_ok_def)
  have y: "run_items None demo_meaning [3] = Some [74]" "rneed demo_meaning = 2" "length (cstr ''F'') < 160" by code_simp+
  from run [of "cstr ''F''" "cstr ''f''" demo_meaning ?s "[74]"] F s y obtain xt N cn f r where
    "findword ?s (cstr ''F'') = Some xt"
    "\<forall>fuel \<ge> N. enterforth bare_env fuel xt ?s = Some (False, ?s\<lparr>interruptforth := 0, dstackcnt := cn, dstack := f, rstack := r\<rparr>)"
    "items f cn = [74]" by (auto simp: s)
  then show ?thesis using b i(1) [of 20] i(2) p(3) d(2) unfolding Let_def by auto
qed


lemma undefined_turn:
  assumes "idle lim g k G b" and "find (\<lambda>(n, _). same_name w n) G = None" and "\<not> builtin w" and "length w < 160"
    and "strtonum (hd w = 45) w 10 = Some (i, x # y)" and "words_of r = w # ws" and "closed_text r"
  shows "\<exists>c'. (\<forall>fuel. interpret_loop E fopen (Suc fuel) f k (reading f (open_at r) ls b c) = Some (Return (- 1), c')) \<and>
    errors c' = errors c + 1 \<and> cursrc c' = cursrc c"
proof -
  from assms(1) obtain vs us where v: "shape lim g vs us b" "pointers vs 0 b" "visible g vs us b" "means g us G" by (auto simp: idle_def)
  have L: "layout (dict (eng b)) lim g vs (used b) (mem (eng b))" using v(1) by (simp add: shape_def)
  have fw: "findword (eng b) w = Some 0"
    using findword_visible [OF v(3,1), of w] means_find [OF v(4), of w] assms(2,4) by simp
  have bs: "read_ucell (mem (eng b)) (base_ptr b) = Some 10" using layoutD(7) [OF L, of "base_ptr b"] v(2) by (simp add: pointers_def)
  from parse_word_some [OF assms(6,7,4), of f ls b c] obtain r' l' where
    p: "parse_word f (reading f (open_at r) ls b c) = Some (w, reading f (open_at r') l' b c)" by blast
  have "w \<noteq> []" using words_of_first [OF assms(6,7)] by blast
  let ?c = "reading f (open_at r') l' b c"
  let ?c' = "(tell E (text_of (srcfilenames ?c (cursrc ?c - 1)) @ '':%d: '' @ text_of w @ '' is not defined.'' @ [CHR 0x0A, CHR 0x0A])
      [word_of_int (srclines ?c (cursrc ?c - 1))] ?c)\<lparr>errors := errors ?c + 1\<rparr>"
  have "token E fuel f k w ?c = Some (Undefined, ?c')" for fuel
    using fw bs assms(5) by (simp add: token_plain [OF assms(3)] number_word_def)
  then have "interpret_loop E fopen (Suc fuel) f k (reading f (open_at r) ls b c) = Some (Return (- 1), ?c')" for fuel
    using p \<open>w \<noteq> []\<close> by simp
  moreover have "errors ?c' = errors c + 1" "cursrc ?c' = cursrc c" by (simp_all add: tell_def)
  ultimately show ?thesis by blast
qed

lemma undefined_word_returns:
  assumes "linear (dict (eng b)) 0x40000" and "mapped (mem (eng b)) (dict (eng b)) 0x40000"
    and "mapped (mem (eng b)) lfa 4" and "apart (dict (eng b)) 0x40000 lfa 4"
    and "include_path c = p # ps" and "\<And>w. fopen (include_name p fil) w = Some bs" and "cursrc c < 128"
    and "closed_text bs" and "words_of bs = concat (map def_words prog) @ w # ws" and "plain_defs prog" and "2300 + space_of prog \<le> 0x40000"
    and "elab_defs initial_scope prog = Some G" and "find (\<lambda>(n, _). same_name w n) G = None" and "\<not> builtin w" and "length w < 160"
    and "strtonum (hd w = 45) w 10 = Some (i, x # y)"
  shows "\<exists>b' c'. build_dictionary E lfa b = Some b' \<and>
     (\<forall>fuel \<ge> turns_of prog + 2. interpret_source E fopen fuel fil (set_boot b' c) = Some (Return (- 1), c')) \<and>
     errors c' = errors c + 1 \<and> cursrc c' = cursrc c + 1"
proof -
  from build_dictionary_shape [OF assms(1) _ _ assms(2-4), of E] obtain b' g vs us where
    d: "build_dictionary E lfa b = Some b'" "shape 0x40000 g vs us b'" "pointers vs 0 b'" "visible g vs us b'" "map entry us = dict_entries"
    "used b' \<le> 2300" by auto
  let ?c = "set_boot b' c"
  have bt: "boot_of ?c = b'" "include_path ?c = p # ps" "cursrc ?c < 128" "cursrc ?c = cursrc c" "errors ?c = errors c"
    using assms(5,7) by (simp_all add: set_boot_def)
  have sp: "used b' + space_of prog \<le> 0x40000" using d(6) assms(11) by simp
  from interpret_prefix [where fopen = fopen, OF d(2-5) bt(1,2) assms(6) bt(3) assms(8-10) sp assms(12), of E] obtain c1 r ls b1 g1 k where
    t: "\<forall>fuel. interpret_source E fopen (Suc (turns_of prog + fuel)) fil ?c =
      interpret_loop E fopen fuel (cursrc ?c) k (reading (cursrc ?c) (open_at r) ls b1 c1)" "errors c1 = errors ?c" "cursrc c1 = cursrc ?c + 1"
    "words_of r = w # ws" "closed_text r" "idle 0x40000 g1 k G b1" by blast
  from undefined_turn [OF t(6) assms(13-16) t(4,5), of E fopen "cursrc ?c" ls c1] obtain c' where
    u: "\<And>fuel. interpret_loop E fopen (Suc fuel) (cursrc ?c) k (reading (cursrc ?c) (open_at r) ls b1 c1) = Some (Return (- 1), c')"
    "errors c' = errors c1 + 1" "cursrc c' = cursrc c1" by blast
  have "interpret_source E fopen fuel fil ?c = Some (Return (- 1), c')" if fuel: "turns_of prog + 2 \<le> fuel" for fuel
  proof -
    obtain j where j: "fuel = Suc (turns_of prog + Suc j)" using fuel by (auto simp: le_iff_add)
    show ?thesis unfolding j t(1) [rule_format] by (rule u(1))
  qed
  then show ?thesis using d(1) t(2,3) u(2,3) bt(4,5) by (intro exI [of _ b'] exI [of _ c']) simp
qed

text \<open>
  C35: Undefined words. If the definitions of a source file are followed by a word that is neither defined nor a
  number, \<open>forthstrap\<close> ends with status 1 after the first pass, with one error counted, and writes no dictionary: the
  outcome is the same whatever the host's files and allocator do. The file is left open: \<open>cursrc\<close> is one more than before.
\<close>

theorem undefined_word_stops_forthstrap:
  assumes "linear d0 0x40000" and "mapped (mem (eng_of c)) d0 0x40000"
    and "mapped (mem (eng_of c)) lfa 4" and "apart d0 0x40000 lfa 4"
    and "include_path c = p # ps" and "\<And>w. fopen (include_name p fil) w = Some bs" and "cursrc c < 128" and "errors c = 0"
    and "closed_text bs" and "words_of bs = concat (map def_words prog) @ w # ws" and "plain_defs prog" and "2300 + space_of prog \<le> 0x40000"
    and "elab_defs initial_scope prog = Some G" and "find (\<lambda>(n, _). same_name w n) G = None" and "\<not> builtin w" and "length w < 160"
    and "strtonum (hd w = 45) w 10 = Some (i, x # y)"
  shows "\<exists>c'. (\<forall>fuel \<ge> turns_of prog + 2. \<forall>H name. forthstrap E fopen H fuel lfa fil name d0 d1 c = Some (Return 1, c')) \<and>
     errors c' = 1 \<and> cursrc c' = cursrc c + 1"
proof -
  let ?b = "(boot_of c)\<lparr>eng := (eng_of c)\<lparr>dict := d0\<rparr>\<rparr>"
  have b: "linear (dict (eng ?b)) 0x40000" "mapped (mem (eng ?b)) (dict (eng ?b)) 0x40000" "mapped (mem (eng ?b)) lfa 4"
    "apart (dict (eng ?b)) 0x40000 lfa 4" using assms(1-4) by simp_all
  from undefined_word_returns [where fopen = fopen, OF b assms(5-7,9-17), of E] obtain b1 c1 where
    r: "build_dictionary E lfa ?b = Some b1"
    "\<And>fuel. fuel \<ge> turns_of prog + 2 \<Longrightarrow> interpret_source E fopen fuel fil (set_boot b1 c) = Some (Return (- 1), c1)"
    "errors c1 = errors c + 1" "cursrc c1 = cursrc c + 1" by blast
  let ?c2 = "(tell E (''interpretion finished. %d errors occurred.'' @ [CHR 0x0A]) [word_of_int (errors c1)] c1)\<lparr>depfile := None\<rparr>"
  have e: "errors ?c2 = 1" "errors c1 = 1" "cursrc ?c2 = cursrc c + 1" using r(3,4) assms(8) by (simp_all add: tell_def)
  have "one_pass E fopen fuel lfa fil d0 c = Some (Return (), ?c2)" if "fuel \<ge> turns_of prog + 2" for fuel
    using r(1) r(2) [OF that] e(2) by (simp add: one_pass_def new_dictionary_def on_boot_def set_boot_def)
  then have "forthstrap E fopen H fuel lfa fil name d0 d1 c = Some (Return 1, tell E (''dictionary not dumped to file.'' @ [CHR 0x0A]) [] ?c2)"
    if "fuel \<ge> turns_of prog + 2" for fuel H name
    using that e(1) by (simp add: forthstrap_def finish_def)
  moreover have "errors (tell E (''dictionary not dumped to file.'' @ [CHR 0x0A]) [] ?c2) = 1"
    "cursrc (tell E (''dictionary not dumped to file.'' @ [CHR 0x0A]) [] ?c2) = cursrc c + 1" using e by (simp_all add: tell_def)
  ultimately show ?thesis by blast
qed

theorem undefined_word_stops_forthstrap_witness:
  "\<exists>c'. (\<forall>H name. forthstrap bare_env (\<lambda>nm w. Some (cstr ''nope '')) H 20 16 (cstr ''x'') name 0x100000 0x140000 demo_comp = Some (Return 1, c')) \<and>
     errors c' = 1"
proof -
  have m: "mapped (mem (eng_of demo_comp)) 0x100000 0x40000" "mapped (mem (eng_of demo_comp)) 16 4"
    by (simp_all add: mapped_def demo_comp_def init_fstate_def)
  have l: "linear 0x100000 0x40000" by (simp add: linear_def)
  have a: "apart 0x100000 0x40000 16 4"
    by (subst apart_sym, rule apart_no_wrap) simp_all
  have p: "include_path demo_comp = cstr ''.'' # []" "cursrc demo_comp < 128" "errors demo_comp = 0" by (simp_all add: demo_comp_def)
  have t: "closed_text (cstr ''nope '')" unfolding closed_text_def by code_simp
  have w: "words_of (cstr ''nope '') = concat (map def_words []) @ cstr ''nope'' # []" by code_simp
  have d: "plain_defs []" "2300 + space_of [] \<le> 0x40000" "elab_defs initial_scope [] = Some initial_scope" "turns_of [] = 0"
    by (simp_all add: plain_defs_def space_of_def turns_of_def)
  have "map to_lower (cstr ''nope'') \<notin> set (map (\<lambda>(n, v). map to_lower n) dict_entries)" by code_simp
  then have "find (\<lambda>(n, _). same_name (cstr ''nope'') n) dict_entries = None" by (auto simp: find_None_iff same_name_def)
  then have f: "find (\<lambda>(n, _). same_name (cstr ''nope'') n) initial_scope = None" unfolding initial_scope_def find_map_snd by simp
  have b: "\<not> builtin (cstr ''nope'')" "length (cstr ''nope'') < 160" by code_simp+
  have s: "strtonum (hd (cstr ''nope'') = 45) (cstr ''nope'') 10 = Some (0, 110 # [111, 112, 101])"
    by (simp add: strtonum_def magnitude_def digit_val_def has_prefix_def cstr_def Let_def)
  from undefined_word_stops_forthstrap [where E = bare_env and fopen = "\<lambda>nm w. Some (cstr ''nope '')" and fil = "cstr ''x''" and ?d1.0 = "0x140000",
      OF l m a p(1) refl p(2,3) t w d(1-3) f b s]
  obtain c' where "\<forall>fuel \<ge> turns_of [] + 2. \<forall>H name. forthstrap bare_env (\<lambda>nm w. Some (cstr ''nope '')) H fuel 16 (cstr ''x'') name 0x100000 0x140000 demo_comp = Some (Return 1, c')"
    "errors c' = 1" by blast
  moreover have "turns_of [] + 2 \<le> 20" using d(4) by simp
  ultimately show ?thesis by blast
qed

end
