(* ===== verification/Ofmem_Heap.thy ===== *)
theory Ofmem_Heap
  imports Memory
begin

text \<open>
  The private allocator of \<open>libopenbios/ofmem_common.c\<close> (\<open>ofmem_posix_memalign\<close>, \<open>ofmem_malloc\<close>,
  \<open>ofmem_free\<close>, \<open>ofmem_realloc\<close>) on byte memory, for the Wii port, whose \<open>arch/ppc/wii/ofmem.c\<close>
  gives the heap's ends and a one-to-one mapping of virtual and physical addresses. A block is an
  \<open>alloc_desc_t\<close> (the link of the free list and the block's size, two cells) followed by the bytes
  of the caller. The free list is threaded through the descriptors and walked there.

  The invariant \<open>heap_ok\<close> names the free blocks and the blocks in use. The allocator keeps it, hands
  out zeroed blocks apart from all others, and writes to no block in use.
\<close>

subsection \<open>The Wii port\<close>

datatype wii_platform = WII_RVL | WII_CAFE

text \<open>
  What lies outside: the linker's \<open>_end\<close>, the processor found at start, the console behind \<open>printk\<close>
  and the Forth word \<open>encode-property\<close>, called with a buffer, its length, a name and a package.
\<close>

record 'w ofenv =
  of_end :: ucell
  of_platform :: wii_platform
  of_printk :: "string \<Rightarrow> ucell list \<Rightarrow> 'w \<Rightarrow> 'w"
  of_encode_property :: "memory \<Rightarrow> ucell \<Rightarrow> ucell \<Rightarrow> string \<Rightarrow> ucell \<Rightarrow> 'w \<Rightarrow> 'w"

abbreviation MEM1_MAP_BASE :: ucell where "MEM1_MAP_BASE \<equiv> 0x11200000"
abbreviation HASH_SIZE :: ucell where "HASH_SIZE \<equiv> 0x10000"
abbreviation HASH_BASE :: ucell where "HASH_BASE \<equiv> MEM1_MAP_BASE - HASH_SIZE"

definition ofmem_arch_get_malloc_base :: "'w ofenv \<Rightarrow> ucell" where
  "ofmem_arch_get_malloc_base e = of_end e"

definition get_heap_top :: ucell where
  "get_heap_top = HASH_BASE"

definition ofmem_arch_get_heap_top :: ucell where
  "ofmem_arch_get_heap_top = get_heap_top"

definition va2pa :: "ucell \<Rightarrow> ucell" where
  "va2pa va = va"

definition pa2va :: "ucell \<Rightarrow> ucell" where
  "pa2va pa = pa"

subsection \<open>The allocator\<close>

record 'w heap =
  next_malloc :: ucell
  mfree :: ucell
  hmem :: memory
  hworld :: 'w

datatype errno = ENOMEM

abbreviation sizeof_alloc_desc :: ucell where "sizeof_alloc_desc \<equiv> 8"
abbreviation CONFIG_OFMEM_MALLOC_ALIGN :: ucell where "CONFIG_OFMEM_MALLOC_ALIGN \<equiv> 4"

definition align_size :: "u32 \<Rightarrow> u32 \<Rightarrow> u32" where
  "align_size x a = (x + a - 1) AND NOT (a - 1)"

definition align_ptr :: "u32 \<Rightarrow> u32 \<Rightarrow> u32" where
  "align_ptr x a = (x + a - 1) AND NOT (a - 1)"

text \<open>The fields of the descriptor at \<open>d\<close>.\<close>

definition desc_next :: "memory \<Rightarrow> ucell \<Rightarrow> ucell option" where
  "desc_next m d = read_ucell m d"

definition desc_size :: "memory \<Rightarrow> ucell \<Rightarrow> ucell option" where
  "desc_size m d = read_ucell m (d + 4)"

definition set_desc_next :: "memory \<Rightarrow> ucell \<Rightarrow> ucell \<Rightarrow> memory option" where
  "set_desc_next m d v = write_ucell m d v"

definition set_desc_size :: "memory \<Rightarrow> ucell \<Rightarrow> ucell \<Rightarrow> memory option" where
  "set_desc_size m d v = write_ucell m (d + 4) v"

text \<open>
  The pointer \<open>pp\<close> that walks the free list: to \<open>ofmem->mfree\<close> or to the \<open>next\<close> of a descriptor.
  A walk goes on while the current descriptor passes the test; on a cyclic list it may not end.
\<close>

datatype link = Head | Next ucell

partial_function (option) walk ::
  "memory \<Rightarrow> (memory \<Rightarrow> ucell \<Rightarrow> bool option) \<Rightarrow> link \<Rightarrow> ucell \<Rightarrow> (link \<times> ucell) option" where
  "walk m on pp p =
     (if p = 0 then Some (pp, p)
      else do { go \<leftarrow> on m p;
                if go then do { n \<leftarrow> desc_next m p; walk m on (Next p) n } else Some (pp, p) })"

definition set_link :: "link \<Rightarrow> ucell \<Rightarrow> ('w, 'a) heap_scheme \<Rightarrow> ('w, 'a) heap_scheme option" where
  "set_link pp v h = (case pp of Head \<Rightarrow> Some (h\<lparr>mfree := v\<rparr>)
     | Next q \<Rightarrow> do { m \<leftarrow> set_desc_next (hmem h) q v; Some (h\<lparr>hmem := m\<rparr>) })"

definition ofmem_posix_memalign ::
  "'w ofenv \<Rightarrow> ucell \<Rightarrow> ucell \<Rightarrow> ('w, 'a) heap_scheme \<Rightarrow> ((errno + ucell) \<times> ('w, 'a) heap_scheme) option" where
  "ofmem_posix_memalign e alignment sz h =
     (if sz = 0 then Some (Inl ENOMEM, h)
      else
        let h = (if next_malloc h = 0 then h\<lparr>next_malloc := ofmem_arch_get_malloc_base e\<rparr> else h);
            total_size = align_size (sz + sizeof_alloc_desc) alignment
        in do {
          (pp, p) \<leftarrow> walk (hmem h) (\<lambda>m p. do { z \<leftarrow> desc_size m p; Some (z < total_size) }) Head (mfree h);
          z \<leftarrow> (if p = 0 then Some 0 else desc_size (hmem h) p);
          let pa = va2pa (p + sizeof_alloc_desc);
          if p \<noteq> 0 \<and> z = total_size \<and> pa = align_ptr pa alignment
          then do {
            let ret = pa2va pa;
            n \<leftarrow> desc_next (hmem h) p;
            h \<leftarrow> set_link pp n h;
            m \<leftarrow> set_desc_next (hmem h) p 0;
            m \<leftarrow> memset m ret 0 sz;
            Some (Inr ret, h\<lparr>hmem := m\<rparr>) }
          else if p \<noteq> 0 \<and> total_size + 0x1000 < z
          then do {
            let ret = pa2va (align_ptr pa alignment);
            m \<leftarrow> memset (hmem h) ret 0 sz;
            n \<leftarrow> desc_next m p;
            h \<leftarrow> set_link pp n (h\<lparr>hmem := m\<rparr>);
            Some (Inr ret, h) }
          else do {
            let top = ofmem_arch_get_heap_top;
            let pa = align_ptr (va2pa (next_malloc h + sizeof_alloc_desc)) alignment;
            let ret = pa2va pa;
            if top < ret + total_size
            then Some (Inl ENOMEM, h\<lparr>hworld := of_printk e ''out of malloc memory (%x)!\<newline>'' [total_size] (hworld h)\<rparr>)
            else do {
              let d = ret - sizeof_alloc_desc;
              m \<leftarrow> set_desc_next (hmem h) d 0;
              m \<leftarrow> set_desc_size m d total_size;
              m \<leftarrow> memset m ret 0 sz;
              Some (Inr ret, h\<lparr>next_malloc := next_malloc h + total_size, hmem := m\<rparr>) } } })"

definition ofmem_malloc :: "'w ofenv \<Rightarrow> ucell \<Rightarrow> ('w, 'a) heap_scheme \<Rightarrow> (ucell \<times> ('w, 'a) heap_scheme) option" where
  "ofmem_malloc e sz h =
     do { (res, h) \<leftarrow> ofmem_posix_memalign e CONFIG_OFMEM_MALLOC_ALIGN sz h;
          Some (case res of Inl _ \<Rightarrow> 0 | Inr memptr \<Rightarrow> memptr, h) }"

definition ofmem_free :: "ucell \<Rightarrow> ('w, 'a) heap_scheme \<Rightarrow> ('w, 'a) heap_scheme option" where
  "ofmem_free ptr h =
     (if ptr = 0 then Some h
      else do {
        let d = ptr - sizeof_alloc_desc;
        (pp, p) \<leftarrow> walk (hmem h) (\<lambda>_ p. Some (p < d)) Head (mfree h);
        m \<leftarrow> set_desc_next (hmem h) d p;
        set_link pp d (h\<lparr>hmem := m\<rparr>) })"

definition ofmem_realloc :: "'w ofenv \<Rightarrow> ucell \<Rightarrow> ucell \<Rightarrow> ('w, 'a) heap_scheme \<Rightarrow> (ucell \<times> ('w, 'a) heap_scheme) option" where
  "ofmem_realloc e ptr sz h =
     (let d = ptr - sizeof_alloc_desc
      in if ptr = 0 then ofmem_malloc e sz h
         else if sz = 0 then do { h \<leftarrow> ofmem_free ptr h; Some (0, h) }
         else do {
           (p, h) \<leftarrow> ofmem_malloc e sz h;
           z \<leftarrow> desc_size (hmem h) d;
           m \<leftarrow> memcpy (hmem h) p ptr (min (z - sizeof_alloc_desc) sz);
           h \<leftarrow> ofmem_free ptr (h\<lparr>hmem := m\<rparr>);
           Some (p, h) })"

subsection \<open>Rounding to a power of two\<close>

lemma mask_pow: "(2 ^ p - 1 :: ucell) = mask p"
  by (simp add: mask_eq_exp_minus_1)

lemma align_down: "b - (b AND (2 ^ p - 1)) = b AND NOT (2 ^ p - 1 :: ucell)"
proof -
  have "b = (b AND NOT (mask p)) + (b AND mask p)"
    by (subst disjunctive_add) (auto simp: bit_simps intro!: bit_word_eqI)
  then show ?thesis unfolding mask_pow by (metis add_diff_cancel_right')
qed

lemma unat_diff: "unat n \<le> unat m \<Longrightarrow> unat (m - n :: ucell) = unat m - unat n"
  by (simp add: unat_sub word_le_nat_alt)

lemma unat_align_down: "unat (b AND NOT (2 ^ p - 1 :: ucell)) = unat b div 2 ^ p * 2 ^ p"
proof -
  have t: "unat (b AND (2 ^ p - 1)) = unat b mod 2 ^ p"
    using unsigned_take_bit_eq [of p b] by (simp add: mask_pow take_bit_eq_mask [symmetric] take_bit_eq_mod)
  then have "unat (b - (b AND (2 ^ p - 1))) = unat b - unat b mod 2 ^ p" by (subst unat_diff) simp_all
  then show ?thesis by (simp add: align_down minus_mod_eq_div_mult)
qed

lemma align_size_4:
  assumes "unat x + 3 < 2 ^ 32"
  shows "unat (align_size x 4) mod 4 = 0" and "unat x \<le> unat (align_size x 4)" and "unat (align_size x 4) \<le> unat x + 3"
proof -
  have u: "unat (x + 3) = unat x + unat (3 :: ucell)" using assms by (intro unat_add_no_wrap) simp
  have "x + 4 - 1 = x + 3" by simp
  then have "unat (x + 4 - 1) = unat x + 3" using u by (simp only:) simp
  then have "unat (align_size x 4) = (unat x + 3) div 4 * 4"
    using unat_align_down [of "x + 4 - 1" 2] by (simp add: align_size_def)
  then show "unat (align_size x 4) mod 4 = 0" "unat x \<le> unat (align_size x 4)" "unat (align_size x 4) \<le> unat x + 3" by simp_all
qed

lemma align_ptr_4:
  assumes "unat x mod 4 = 0" and "unat x + 3 < 2 ^ 32"
  shows "align_ptr x 4 = x"
proof -
  have "align_ptr x 4 = align_size x 4" by (simp add: align_ptr_def align_size_def)
  moreover have "unat (align_size x 4) = unat x" using align_size_4 [OF assms(2)] assms(1) by presburger
  ultimately show ?thesis by (simp add: word_unat_eq_iff)
qed

subsection \<open>Blocks and the free list\<close>

type_synonym block = "ucell \<times> ucell"

definition ext :: "block \<Rightarrow> nat set" where
  "ext b = {unat (fst b) ..< unat (fst b) + unat (snd b)}"

text \<open>Blocks between \<open>base\<close> and \<open>lim\<close>, each with its size in its descriptor, that do not overlap.\<close>

definition blocks_ok :: "memory \<Rightarrow> nat \<Rightarrow> nat \<Rightarrow> block set \<Rightarrow> bool" where
  "blocks_ok m base lim B \<longleftrightarrow>
     (\<forall>(d, z) \<in> B. desc_size m d = Some z \<and> 8 \<le> unat z \<and> unat d mod 4 = 0 \<and> base \<le> unat d \<and> unat d + unat z \<le> lim) \<and>
     (\<forall>b \<in> B. \<forall>c \<in> B. b \<noteq> c \<longrightarrow> ext b \<inter> ext c = {})"

fun flink :: "memory \<Rightarrow> ucell \<Rightarrow> block list \<Rightarrow> bool" where
  "flink m p [] \<longleftrightarrow> p = 0"
| "flink m p (b # bs) \<longleftrightarrow> p = fst b \<and> p \<noteq> 0 \<and> (\<exists>n. desc_next m p = Some n \<and> flink m n bs)"

definition heap_start :: "'w ofenv \<Rightarrow> ('w, 'a) heap_scheme \<Rightarrow> ucell" where
  "heap_start e h = (if next_malloc h = 0 then of_end e else next_malloc h)"

lemma heap_start_frame [simp]:
  "heap_start e (h\<lparr>hworld := w\<rparr>) = heap_start e h" "heap_start e (h\<lparr>hmem := m\<rparr>) = heap_start e h"
  "heap_start e (h\<lparr>mfree := p\<rparr>) = heap_start e h"
  by (simp_all add: heap_start_def)

text \<open>
  The invariant, with the free blocks in the order of the list and the set of blocks in use: the
  list is sorted by address, the blocks lie between \<open>_end\<close> and \<open>next_malloc\<close> and the memory from
  \<open>_end\<close> to the top of the heap is there.
\<close>

definition heap_ok :: "'w ofenv \<Rightarrow> ('w, 'a) heap_scheme \<Rightarrow> block list \<Rightarrow> block set \<Rightarrow> bool" where
  "heap_ok e h fl bl \<longleftrightarrow>
     of_end e \<noteq> 0 \<and> unat (of_end e) mod 4 = 0 \<and> unat (of_end e) \<le> unat (heap_start e h) \<and>
     unat (heap_start e h) mod 4 = 0 \<and> unat (heap_start e h) \<le> unat HASH_BASE \<and>
     (\<forall>x. unat (of_end e) \<le> unat x \<and> unat x < unat HASH_BASE \<longrightarrow> hmem h x \<noteq> None) \<and>
     flink (hmem h) (mfree h) fl \<and> sorted_wrt (<) (map (unat \<circ> fst) fl) \<and> set fl \<inter> bl = {} \<and>
     blocks_ok (hmem h) (unat (of_end e)) (unat (heap_start e h)) (set fl \<union> bl)"

lemma desc_frame:
  assumes "\<And>x. in_region d 8 x \<Longrightarrow> m' x = m x"
  shows "desc_next m' d = desc_next m d" and "desc_size m' d = desc_size m d"
proof -
  have "in_region d 8 x" if "in_region d 4 x \<or> in_region (d + 4) 4 x" for x
  proof (cases "in_region d 4 x")
    case False
    then have lt: "unat (x - (d + 4)) < 4" using that by (simp add: in_region_def)
    then have "unat (x - (d + 4) + 4) = unat (x - (d + 4)) + unat (4 :: ucell)" by (intro unat_add_no_wrap) simp
    moreover have "x - (d + 4) + 4 = x - d" by simp
    ultimately show ?thesis using lt by (simp add: in_region_def)
  qed (simp add: in_region_def)
  then have "\<And>x. in_region d 4 x \<Longrightarrow> m' x = m x" "\<And>x. in_region (d + 4) 4 x \<Longrightarrow> m' x = m x" using assms by blast+
  then show "desc_next m' d = desc_next m d" "desc_size m' d = desc_size m d"
    unfolding desc_next_def desc_size_def by (auto intro: ucell_acc.rd_local)
qed

lemma flink_frame:
  "flink m p bs \<Longrightarrow> (\<And>d z x. (d, z) \<in> set bs \<Longrightarrow> in_region d 8 x \<Longrightarrow> m' x = m x) \<Longrightarrow> flink m' p bs"
proof (induction bs arbitrary: p)
  case (Cons b bs)
  have "desc_next m' (fst b) = desc_next m (fst b)"
    using Cons.prems(2) [of "fst b" "snd b"] by (intro desc_frame(1)) simp
  moreover have "flink m' n bs" if "flink m n bs" for n using Cons.IH [OF that] Cons.prems(2) by (metis list.set_intros(2))
  ultimately show ?case using Cons.prems(1) by auto
qed simp

fun fseg :: "memory \<Rightarrow> ucell \<Rightarrow> block list \<Rightarrow> ucell \<Rightarrow> bool" where
  "fseg m p [] q \<longleftrightarrow> p = q"
| "fseg m p (b # bs) q \<longleftrightarrow> p = fst b \<and> p \<noteq> 0 \<and> (\<exists>n. desc_next m p = Some n \<and> fseg m n bs q)"

lemma flink_append: "flink m p (xs @ ys) \<longleftrightarrow> (\<exists>q. fseg m p xs q \<and> flink m q ys)"
  by (induction xs arbitrary: p) auto

text \<open>Where the walk stands after the blocks \<open>xs\<close>.\<close>

definition link_after :: "link \<Rightarrow> block list \<Rightarrow> link" where
  "link_after pp xs = (if xs = [] then pp else Next (fst (last xs)))"

lemma walk_flink:
  assumes "flink m p fl" and "\<And>b. b \<in> set fl \<Longrightarrow> on m (fst b) = Some (t b)"
  shows "walk m on pp p = Some (link_after pp (takeWhile t fl), case dropWhile t fl of [] \<Rightarrow> 0 | b # _ \<Rightarrow> fst b)"
  using assms
proof (induction fl arbitrary: p pp)
  case Nil
  then show ?case by (simp add: walk.simps link_after_def)
next
  case (Cons b bs)
  then obtain n where n: "p = fst b" "p \<noteq> 0" "desc_next m p = Some n" "flink m n bs" by auto
  have "on m p = Some (t b)" using Cons.prems(2) [of b] n(1) by simp
  then show ?case using n Cons.IH [OF n(4), of "Next p"] Cons.prems(2)
    by (subst walk.simps) (auto simp: link_after_def)
qed

lemma fseg_append: "fseg m p (xs @ ys) q \<longleftrightarrow> (\<exists>r. fseg m p xs r \<and> fseg m r ys q)"
  by (induction xs arbitrary: p) auto

lemma fseg_frame:
  "fseg m p bs q \<Longrightarrow> (\<And>d z x. (d, z) \<in> set bs \<Longrightarrow> in_region d 8 x \<Longrightarrow> m' x = m x) \<Longrightarrow> fseg m' p bs q"
proof (induction bs arbitrary: p)
  case (Cons b bs)
  have "desc_next m' (fst b) = desc_next m (fst b)"
    using Cons.prems(2) [of "fst b" "snd b"] by (intro desc_frame(1)) simp
  moreover have "fseg m' n bs q" if "fseg m n bs q" for n using Cons.IH [OF that] Cons.prems(2) by (metis list.set_intros(2))
  ultimately show ?case using Cons.prems(1) by auto
qed simp

lemma blocks_okD:
  assumes "blocks_ok m base lim B" and "(d, z) \<in> B"
  shows "desc_size m d = Some z" and "8 \<le> unat z" and "unat d mod 4 = 0" and "base \<le> unat d" and "unat d + unat z \<le> lim"
  using assms by (auto simp: blocks_ok_def)

lemma in_desc_ext:
  assumes "blocks_ok m base lim B" and "(d, z) \<in> B" and "lim \<le> 2 ^ 32" and "in_region d 8 x"
  shows "unat x \<in> ext (d, z)"
proof -
  note b = blocks_okD [OF assms(1,2)]
  then have "linear d 8" using assms(3) by (simp add: linear_def)
  then show ?thesis using assms(4) b(2) by (simp add: in_region_linear ext_def)
qed

lemma in_region_desc: "in_region d 4 x \<Longrightarrow> in_region d 8 x"
  by (simp add: in_region_def)

lemma blocks_disjoint:
  assumes "blocks_ok m base lim B" and "b \<in> B" and "c \<in> B" and "n \<in> ext b" and "n \<in> ext c"
  shows "b = c"
  using assms by (auto simp: blocks_ok_def)

lemma other_desc:
  assumes "blocks_ok m base lim B" and "lim \<le> 2 ^ 32" and "b \<in> B" and "c \<in> B" and "c \<noteq> b" and "in_region (fst c) 8 x"
  shows "\<not> in_region (fst b) 8 x" and "unat x \<notin> ext b"
proof -
  have c: "unat x \<in> ext c" using in_desc_ext [OF assms(1) _ assms(2,6), of "snd c"] assms(4) by simp
  then show "unat x \<notin> ext b" using blocks_disjoint [OF assms(1,3,4)] assms(5) by blast
  then show "\<not> in_region (fst b) 8 x" using in_desc_ext [OF assms(1) _ assms(2), of "fst b" "snd b"] assms(3) by auto
qed

lemma blocks_frame:
  assumes "blocks_ok m base lim B" and "\<And>d z. (d, z) \<in> B \<Longrightarrow> desc_size m' d = desc_size m d"
  shows "blocks_ok m' base lim B"
  using assms unfolding blocks_ok_def by (auto simp: case_prod_beta)

text \<open>Writing one link: what it changes, and that the sizes of the blocks stay.\<close>

lemma set_desc_next_ok:
  assumes "blocks_ok m base lim B" and "lim \<le> 2 ^ 32" and "(d, z) \<in> B" and "\<And>x. in_region d 4 x \<Longrightarrow> m x \<noteq> None"
  shows "\<exists>m'. set_desc_next m d v = Some m' \<and> desc_next m' d = Some v \<and> blocks_ok m' base lim B \<and>
    (\<forall>x. \<not> in_region d 4 x \<longrightarrow> m' x = m x) \<and> (\<forall>x. (m' x = None) = (m x = None))"
proof -
  have "\<forall>x. in_region d 4 x \<longrightarrow> m x \<noteq> None" using assms(4) by blast
  then have "write_ucell m d v \<noteq> None" by (simp only: ucell_acc.wr_succeeds)
  then obtain m' where w: "write_ucell m d v = Some m'" by blast
  have fr: "m' x = m x" if "\<not> in_region d 4 x" for x by (rule ucell_acc.wr_frame [OF w that])
  have "desc_size m' c = desc_size m c" if c: "(c, y) \<in> B" for c y
    unfolding desc_size_def
  proof (rule ucell_acc.rd_local, rule fr, rule notI)
    fix x assume x: "in_region (c + 4) 4 x" "in_region d 4 x"
    have l: "linear (c + 4) 4" "unat (c + 4) = unat c + 4"
    proof -
      have "unat c + unat (4 :: ucell) < 2 ^ LENGTH(32)" using blocks_okD [OF assms(1) c] assms(2) by simp
      from unat_add_no_wrap [OF this] show "unat (c + 4) = unat c + 4" by simp
      then show "linear (c + 4) 4" using blocks_okD [OF assms(1) c] assms(2) by (simp add: linear_def)
    qed
    then have xc: "unat c + 4 \<le> unat x" "unat x < unat c + 8" using x(1) by (simp_all add: in_region_linear)
    then have "unat x \<in> ext (c, y)" using blocks_okD [OF assms(1) c] by (simp add: ext_def)
    moreover have "unat x \<in> ext (d, z)" by (rule in_desc_ext [OF assms(1,3,2) in_region_desc [OF x(2)]])
    ultimately have "c = d" using blocks_disjoint [OF assms(1) c assms(3)] by simp
    moreover have "linear d 4" using blocks_okD [OF assms(1,3)] assms(2) by (simp add: linear_def)
    ultimately show False using x(2) xc by (simp add: in_region_linear)
  qed
  then have "blocks_ok m' base lim B" by (rule blocks_frame [OF assms(1)])
  then show ?thesis using w fr ucell_acc.rd_wr_same [OF w] ucell_acc.wr_dom [OF w]
    by (auto simp: set_desc_next_def desc_next_def)
qed

lemma fseg_mapped: "fseg m p xs q \<Longrightarrow> b \<in> set xs \<Longrightarrow> in_region (fst b) 4 x \<Longrightarrow> m x \<noteq> None"
proof (induction xs arbitrary: p)
  case (Cons c xs)
  then show ?case
  proof (cases "b = c")
    case True
    then have "read_ucell m (fst b) \<noteq> None" using Cons.prems(1) by (auto simp: desc_next_def)
    then have "\<forall>x. in_region (fst b) 4 x \<longrightarrow> m x \<noteq> None" by (simp only: ucell_acc.rd_succeeds)
    then show ?thesis using Cons.prems(3) by blast
  qed auto
qed simp

lemma set_link_splice:
  assumes "fseg (hmem h) (mfree h) xs q" and "flink (hmem h) v zs" and B: "blocks_ok (hmem h) base lim B" "lim \<le> 2 ^ 32"
    and sub: "set xs \<subseteq> B" "set zs \<subseteq> B" and dist: "distinct xs" "set xs \<inter> set zs = {}"
  shows "\<exists>h'. set_link (link_after Head xs) v h = Some h' \<and> flink (hmem h') (mfree h') (xs @ zs) \<and>
    blocks_ok (hmem h') base lim B \<and> (\<forall>x. (\<forall>b \<in> set xs. unat x \<notin> ext b) \<longrightarrow> hmem h' x = hmem h x) \<and>
    (\<forall>x. (hmem h' x = None) = (hmem h x = None)) \<and> h' = h\<lparr>mfree := mfree h', hmem := hmem h'\<rparr>"
proof (cases xs rule: rev_cases)
  case Nil
  then show ?thesis using assms by (simp add: link_after_def set_link_def)
next
  case (snoc ys b)
  obtain d z where b: "b = (d, z)" by (cases b)
  have bB: "(d, z) \<in> B" using sub(1) snoc b by simp
  have "hmem h x \<noteq> None" if "in_region d 4 x" for x using fseg_mapped [OF assms(1), of b] that snoc b by simp
  from set_desc_next_ok [OF B bB this, of v] obtain m' where m': "set_desc_next (hmem h) d v = Some m'"
    "desc_next m' d = Some v" "blocks_ok m' base lim B" "\<And>x. \<not> in_region d 4 x \<Longrightarrow> m' x = hmem h x"
    "\<And>x. (m' x = None) = (hmem h x = None)" by auto
  have keep: "m' x = hmem h x" if c: "(c, y) \<in> B" "(c, y) \<noteq> (d, z)" "in_region c 8 x" for c y x
    using other_desc(1) [OF B bB c(1,2)] c(3) by (intro m'(4)) (auto dest: in_region_desc)
  from assms(1) obtain r where r: "fseg (hmem h) (mfree h) ys r" "r = d" "d \<noteq> 0" by (auto simp: snoc b fseg_append)
  have "fseg m' (mfree h) ys d"
    using dist(1) sub(1) snoc b by (intro fseg_frame [OF r(1) [unfolded r(2)]]) (rule keep, auto)
  then have "fseg m' (mfree h) xs v" using m'(2) r(3) by (auto simp: snoc b fseg_append)
  moreover have "flink m' v zs"
    using dist(2) sub(2) snoc b by (intro flink_frame [OF assms(2)]) (rule keep, auto)
  ultimately have "flink m' (mfree h) (xs @ zs)" unfolding flink_append by blast
  moreover have "m' x = hmem h x" if "\<forall>b \<in> set xs. unat x \<notin> ext b" for x
    using that in_desc_ext [OF B(1) bB B(2) in_region_desc] snoc b by (intro m'(4)) auto
  ultimately show ?thesis using m' snoc b by (simp add: link_after_def set_link_def)
qed

subsection \<open>Allocating and freeing\<close>

lemma heap_okD:
  assumes "heap_ok e h fl bl"
  shows "flink (hmem h) (mfree h) fl" and "sorted_wrt (<) (map (unat \<circ> fst) fl)" and "set fl \<inter> bl = {}"
    and "blocks_ok (hmem h) (unat (of_end e)) (unat (heap_start e h)) (set fl \<union> bl)"
    and "unat (heap_start e h) \<le> 2 ^ 32" and "unat (heap_start e h) mod 4 = 0" and "unat (heap_start e h) \<le> unat HASH_BASE"
    and "unat (of_end e) \<le> unat (heap_start e h)" and "of_end e \<noteq> 0"
    and "unat (of_end e) \<le> unat x \<Longrightarrow> unat x < unat HASH_BASE \<Longrightarrow> hmem h x \<noteq> None"
  using assms unsigned_less [of "heap_start e h", where ?'a = nat] by (auto simp: heap_ok_def)

lemma sorted_distinct: "sorted_wrt (<) (map (unat \<circ> fst) (fl :: block list)) \<Longrightarrow> distinct fl"
  by (induction fl) auto

lemma memset_area:
  assumes "linear a (unat n)" and "\<And>x. unat a \<le> unat x \<Longrightarrow> unat x < unat a + unat n \<Longrightarrow> m x \<noteq> None"
  shows "\<exists>m'. memset m a c n = Some m' \<and>
    (\<forall>x. m' x = (if unat a \<le> unat x \<and> unat x < unat a + unat n then Some (ucast c) else m x))"
proof -
  have "mapped m a (unat n)"
    using assms linear_le [OF assms(1)] by (simp add: mapped_iff in_region_linear del: not_None_eq)
  from memset_loop_correct [OF linear_le [OF assms(1)] this, of "ucast c"] show ?thesis
    by (simp add: memset_def in_region_linear [OF assms(1)])
qed

lemma sorted_insert_block:
  assumes "sorted_wrt (<) (map (unat \<circ> fst) (fl :: block list))" and "d \<notin> fst ` set fl"
  shows "sorted_wrt (<) (map (unat \<circ> fst) (takeWhile (\<lambda>c. fst c < d) fl @ (d, z) # dropWhile (\<lambda>c. fst c < d) fl))"
  using assms
proof (induction fl)
  case (Cons c fl)
  show ?case
  proof (cases "fst c < d")
    case True
    then show ?thesis using Cons by (auto simp: word_less_nat_alt dest: set_takeWhileD set_dropWhileD)
  next
    case False
    then have "d < fst c" using Cons.prems(2) by (auto simp: not_less le_less)
    then show ?thesis using False Cons.prems(1) by (auto simp: word_less_nat_alt)
  qed
qed simp

text \<open>
  Freeing a block in use: the call returns, the block moves to the free list in its place, no other
  block's bytes and no byte after its descriptor changes.
\<close>

lemma free_correct:
  assumes H: "heap_ok e h fl bl" and b: "(d, z) \<in> bl"
  defines "t \<equiv> (\<lambda>c. fst c < d)"
  shows "\<exists>h'. ofmem_free (d + 8) h = Some h' \<and>
    heap_ok e h' (takeWhile t fl @ (d, z) # dropWhile t fl) (bl - {(d, z)}) \<and>
    (\<forall>x. (\<forall>c \<in> insert (d, z) (set fl). unat x \<notin> ext c) \<longrightarrow> hmem h' x = hmem h x) \<and>
    h' = h\<lparr>mfree := mfree h', hmem := hmem h'\<rparr>"
proof -
  let ?xs = "takeWhile t fl" and ?ys = "dropWhile t fl" and ?B = "set fl \<union> bl"
  let ?p = "case ?ys of [] \<Rightarrow> 0 | c # _ \<Rightarrow> fst c"
  note D = heap_okD [OF H]
  note bd = blocks_okD [OF D(4), of d z]
  have dB: "(d, z) \<in> ?B" using b by simp
  have lin: "linear d 8" using bd [OF dB] D(5) by (simp add: linear_def)
  have "unat (d + 8) = unat d + unat (8 :: ucell)" using bd [OF dB] D(7) by (intro unat_add_no_wrap) simp
  then have d8: "d + 8 \<noteq> 0" by auto
  have w: "walk (hmem h) (\<lambda>_ p. Some (p < d)) Head (mfree h) = Some (link_after Head ?xs, ?p)"
    by (rule walk_flink [OF D(1)]) (simp add: t_def)
  from D(1) obtain q where q: "fseg (hmem h) (mfree h) ?xs q" "flink (hmem h) q ?ys"
    by (metis flink_append takeWhile_dropWhile_id)
  have qp: "q = ?p" using q(2) by (cases ?ys) (simp_all del: dropWhile_eq_Nil_conv)
  have nfl: "(d, z) \<notin> set fl" using D(3) b by auto
  have "hmem h x \<noteq> None" if "in_region d 4 x" for x
    using in_desc_ext [OF D(4) dB D(5) in_region_desc [OF that]] bd [OF dB] D(7) by (intro D(10)) (auto simp: ext_def)
  from set_desc_next_ok [OF D(4,5) dB this, of q] obtain m1 where m1: "set_desc_next (hmem h) d q = Some m1"
    "desc_next m1 d = Some q" "blocks_ok m1 (unat (of_end e)) (unat (heap_start e h)) ?B"
    "\<And>x. \<not> in_region d 4 x \<Longrightarrow> m1 x = hmem h x" "\<And>x. (m1 x = None) = (hmem h x = None)" by auto
  have keep: "m1 x = hmem h x" if "(c, y) \<in> set fl" "in_region c 8 x" for c y x
    using other_desc(1) [OF D(4,5) dB, of "(c, y)"] that nfl by (intro m1(4)) (auto dest: in_region_desc)
  have xs: "fseg m1 (mfree h) ?xs q" by (rule fseg_frame [OF q(1)], rule keep) (auto dest: set_takeWhileD)
  have ys: "flink m1 q ?ys" by (rule flink_frame [OF q(2)], rule keep) (auto dest: set_dropWhileD)
  have d0: "d \<noteq> 0" using bd [OF dB] D(9) by (auto simp: unat_eq_zero)
  let ?zs = "(d, z) # ?ys" and ?h1 = "h\<lparr>hmem := m1\<rparr>"
  have pre: "fseg (hmem ?h1) (mfree ?h1) ?xs q" "flink (hmem ?h1) d ?zs"
    "blocks_ok (hmem ?h1) (unat (of_end e)) (unat (heap_start e h)) ?B" using xs ys m1(2,3) d0 by simp_all
  have sub: "set ?xs \<subseteq> ?B" "set ?zs \<subseteq> ?B" using dB by (auto dest: set_takeWhileD set_dropWhileD)
  have dis: "distinct ?xs" "set ?xs \<inter> set ?zs = {}"
    using sorted_distinct [OF D(2)] nfl by (auto dest: set_takeWhileD) (metis disjoint_iff distinct_append takeWhile_dropWhile_id)
  from set_link_splice [OF pre D(5) sub dis] obtain h' where h': "set_link (link_after Head ?xs) d ?h1 = Some h'"
    "flink (hmem h') (mfree h') (?xs @ ?zs)" "blocks_ok (hmem h') (unat (of_end e)) (unat (heap_start e h)) ?B"
    "\<And>x. \<forall>b \<in> set ?xs. unat x \<notin> ext b \<Longrightarrow> hmem h' x = m1 x"
    "\<And>x. (hmem h' x = None) = (m1 x = None)" "h' = ?h1\<lparr>mfree := mfree h', hmem := hmem h'\<rparr>" by auto
  have "d \<notin> fst ` set fl"
  proof
    assume "d \<in> fst ` set fl"
    then obtain y where y: "(d, y) \<in> set fl" by auto
    then have "unat d \<in> ext (d, y)" "unat d \<in> ext (d, z)"
      using bd [OF dB] blocks_okD(2) [OF D(4), of d y] by (auto simp: ext_def)
    then have "(d, y) = (d, z)" using blocks_disjoint [OF D(4) _ dB, of "(d, y)"] y by auto
    then show False using y nfl by simp
  qed
  from sorted_insert_block [OF D(2) this] have so: "sorted_wrt (<) (map (unat \<circ> fst) (?xs @ ?zs))"
    by (simp add: t_def)
  have "next_malloc h' = next_malloc h" by (subst h'(6)) simp
  then have hs: "heap_start e h' = heap_start e h" by (simp add: heap_start_def)
  have fl: "set fl = set ?xs \<union> set ?ys" by (metis set_append takeWhile_dropWhile_id)
  then have st: "set (?xs @ ?zs) \<union> (bl - {(d, z)}) = ?B" using b by auto
  have "set (?xs @ ?zs) \<inter> (bl - {(d, z)}) = {}" using D(3) fl by auto
  moreover have "\<forall>x. unat (of_end e) \<le> unat x \<and> unat x < unat HASH_BASE \<longrightarrow> hmem h' x \<noteq> None"
    using H h'(5) m1(5) by (simp add: heap_ok_def)
  ultimately have "heap_ok e h' (?xs @ ?zs) (bl - {(d, z)})"
    unfolding heap_ok_def st hs using H h'(2,3) so by (simp add: heap_ok_def)
  moreover have "hmem h' x = hmem h x" if "\<forall>c \<in> insert (d, z) (set fl). unat x \<notin> ext c" for x
  proof -
    have "hmem h' x = m1 x" using that by (intro h'(4)) (auto dest: set_takeWhileD)
    also have "\<dots> = hmem h x" using that in_desc_ext [OF D(4) dB D(5) in_region_desc] by (intro m1(4)) auto
    finally show ?thesis .
  qed
  moreover have "ofmem_free (d + 8) h = Some h'" using d8 w m1(1) h'(1) qp by (simp add: ofmem_free_def Let_def)
  moreover have "h' = h\<lparr>mfree := mfree h', hmem := hmem h'\<rparr>" by (subst h'(6)) simp
  ultimately show ?thesis by blast
qed

text \<open>Writes that leave the descriptors alone, but for the links of blocks in use, keep the invariant.\<close>

lemma heap_write:
  assumes "heap_ok e h fl bl" and "\<And>x. (m' x = None) = (hmem h x = None)"
    and "\<And>b. b \<in> set fl \<union> bl \<Longrightarrow> desc_size m' (fst b) = desc_size (hmem h) (fst b)"
    and "\<And>b. b \<in> set fl \<Longrightarrow> desc_next m' (fst b) = desc_next (hmem h) (fst b)"
  shows "heap_ok e (h\<lparr>hmem := m'\<rparr>) fl bl"
proof -
  have "flink m' p bs" if "flink (hmem h) p bs" "set bs \<subseteq> set fl" for p bs
    using that by (induction bs arbitrary: p) (auto simp: assms(4))
  moreover have "blocks_ok m' (unat (of_end e)) (unat (heap_start e h)) (set fl \<union> bl)"
    using assms(3) by (intro blocks_frame [OF heap_okD(4) [OF assms(1)]]) force
  moreover have "heap_start e (h\<lparr>hmem := m'\<rparr>) = heap_start e h" by (simp add: heap_start_def)
  ultimately show ?thesis using assms(1,2) by (simp add: heap_ok_def del: not_None_eq)
qed

lemma user_write_desc:
  assumes "blocks_ok m base lim B" and "lim \<le> 2 ^ 32" and "(d, z) \<in> B" and "b \<in> B"
    and "\<And>x. unat x < unat d + 8 \<or> unat d + unat z \<le> unat x \<Longrightarrow> m' x = m x"
  shows "desc_size m' (fst b) = desc_size m (fst b)" and "desc_next m' (fst b) = desc_next m (fst b)"
proof -
  have "m' x = m x" if x: "in_region (fst b) 8 x" for x
  proof (cases "b = (d, z)")
    case True
    have "linear d 8" using blocks_okD [OF assms(1,3)] assms(2) by (simp add: linear_def)
    then show ?thesis using x True by (intro assms(5)) (simp add: in_region_linear)
  next
    case False
    then show ?thesis using other_desc(2) [OF assms(1-4) False x] by (intro assms(5)) (auto simp: ext_def)
  qed
  from desc_frame [OF this] show "desc_size m' (fst b) = desc_size m (fst b)" "desc_next m' (fst b) = desc_next m (fst b)" by simp_all
qed

text \<open>Clearing the bytes of a caller.\<close>

lemma clear_user:
  assumes "heap_ok e h fl bl" and "(d, z) \<in> set fl \<union> bl" and "unat sz + 8 \<le> unat z"
  shows "\<exists>m'. memset (hmem h) (d + 8) 0 sz = Some m' \<and> heap_ok e (h\<lparr>hmem := m'\<rparr>) fl bl \<and>
    (\<forall>x. m' x = (if unat d + 8 \<le> unat x \<and> unat x < unat d + 8 + unat sz then Some 0 else hmem h x)) \<and>
    desc_next m' d = desc_next (hmem h) d"
proof -
  note D = heap_okD [OF assms(1)]
  note b = blocks_okD [OF D(4) assms(2)]
  have u: "unat (d + 8) = unat d + unat (8 :: ucell)" using b D(7) by (intro unat_add_no_wrap) simp
  have "linear (d + 8) (unat sz)" using u b D(5) assms(3) by (simp add: linear_def)
  from memset_area [OF this, of "hmem h" 0] obtain m' where m': "memset (hmem h) (d + 8) 0 sz = Some m'"
    "\<And>x. m' x = (if unat d + 8 \<le> unat x \<and> unat x < unat d + 8 + unat sz then Some 0 else hmem h x)"
    using D(10) b D(7) u assms(3) by fastforce
  have keep: "m' x = hmem h x" if "unat x < unat d + 8 \<or> unat d + unat z \<le> unat x" for x using m'(2) that assms(3) by auto
  note k = user_write_desc [OF D(4,5) assms(2) _ keep]
  have "hmem h x \<noteq> None" if "unat d + 8 \<le> unat x \<and> unat x < unat d + 8 + unat sz" for x
    using that b D(7) assms(3) by (intro D(10)) simp_all
  then have "(m' x = None) = (hmem h x = None)" for x using m'(2) by simp
  then have "heap_ok e (h\<lparr>hmem := m'\<rparr>) fl bl" by (rule heap_write [OF assms(1)]) (use k in auto)
  moreover have "desc_next m' d = desc_next (hmem h) d" using k(2) [OF assms(2)] by simp
  ultimately show ?thesis using m' by blast
qed

text \<open>Taking a block off the free list.\<close>

lemma unlink_block:
  assumes H: "heap_ok e h (xs @ (d, z) # ys) bl"
  shows "\<exists>n h'. desc_next (hmem h) d = Some n \<and> set_link (link_after Head xs) n h = Some h' \<and>
    heap_ok e h' (xs @ ys) (insert (d, z) bl) \<and>
    (\<forall>x. (\<forall>b \<in> set xs. unat x \<notin> ext b) \<longrightarrow> hmem h' x = hmem h x) \<and> h' = h\<lparr>mfree := mfree h', hmem := hmem h'\<rparr>"
proof -
  note D = heap_okD [OF H]
  from D(1) obtain n where n: "fseg (hmem h) (mfree h) xs d" "desc_next (hmem h) d = Some n" "flink (hmem h) n ys"
    by (auto simp: flink_append)
  have dist: "distinct (xs @ (d, z) # ys)" by (rule sorted_distinct [OF D(2)])
  let ?B = "set (xs @ (d, z) # ys) \<union> bl"
  have "set xs \<subseteq> ?B" "set ys \<subseteq> ?B" "distinct xs" "set xs \<inter> set ys = {}" using dist by auto
  from set_link_splice [OF n(1,3) D(4,5) this] obtain h' where h': "set_link (link_after Head xs) n h = Some h'"
    "flink (hmem h') (mfree h') (xs @ ys)" "blocks_ok (hmem h') (unat (of_end e)) (unat (heap_start e h)) ?B"
    "\<And>x. \<forall>b \<in> set xs. unat x \<notin> ext b \<Longrightarrow> hmem h' x = hmem h x"
    "\<And>x. (hmem h' x = None) = (hmem h x = None)" "h' = h\<lparr>mfree := mfree h', hmem := hmem h'\<rparr>" by auto
  have "next_malloc h' = next_malloc h" by (subst h'(6)) simp
  then have hs: "heap_start e h' = heap_start e h" by (simp add: heap_start_def)
  have st: "set (xs @ ys) \<union> insert (d, z) bl = ?B" by auto
  have "set (xs @ ys) \<inter> insert (d, z) bl = {}" using D(3) dist by auto
  moreover have "\<forall>x. unat (of_end e) \<le> unat x \<and> unat x < unat HASH_BASE \<longrightarrow> hmem h' x \<noteq> None"
    using H h'(5) by (simp add: heap_ok_def)
  moreover have "sorted_wrt (<) (map (unat \<circ> fst) (xs @ ys))" using D(2) by (auto simp: sorted_wrt_append)
  ultimately have "heap_ok e h' (xs @ ys) (insert (d, z) bl)"
    unfolding heap_ok_def st hs using H h'(2,3) by (simp add: heap_ok_def)
  then show ?thesis using n(2) h'(1,4,6) by blast
qed

text \<open>
  What an allocation of \<open>sz\<close> bytes that gives \<open>p\<close> promises: a block not in use before, apart from all
  others, with room for the request, its bytes zero, and the bytes of the blocks in use untouched.
\<close>

definition allocated :: "'w ofenv \<Rightarrow> ucell \<Rightarrow> ('w, 'a) heap_scheme \<Rightarrow> block list \<Rightarrow> block set \<Rightarrow> ucell \<Rightarrow> ('w, 'a) heap_scheme \<Rightarrow> bool" where
  "allocated e sz h fl bl p h' \<longleftrightarrow>
     (\<exists>z fl'. (p - 8, z) \<notin> bl \<and> unat sz + 8 \<le> unat z \<and> set fl' \<subseteq> set fl \<and> heap_ok e h' fl' (insert (p - 8, z) bl) \<and>
       (\<forall>x. unat p \<le> unat x \<and> unat x < unat p + unat sz \<longrightarrow> hmem h' x = Some 0) \<and>
       (\<forall>b \<in> bl. \<forall>x. unat x \<in> ext b \<longrightarrow> hmem h' x = hmem h x) \<and>
       unat (heap_start e h') \<le> unat (heap_start e h) + unat sz + 11 \<and> hworld h' = hworld h \<and> heap.more h' = heap.more h)"

lemma unat_add_8:
  assumes "blocks_ok m base lim B" and "(d, z) \<in> B" and "lim < 2 ^ 32"
  shows "unat (d + 8) = unat d + 8"
proof -
  have "unat d + unat (8 :: ucell) < 2 ^ LENGTH(32)" using blocks_okD [OF assms(1,2)] assms(3) by simp
  from unat_add_no_wrap [OF this] show ?thesis by simp
qed

lemma exact_fit:
  assumes H: "heap_ok e h (xs @ (d, z) # ys) bl" and sz: "unat sz + 8 \<le> unat z"
  shows "\<exists>n h1 m1 m2. desc_next (hmem h) d = Some n \<and> set_link (link_after Head xs) n h = Some h1 \<and>
    set_desc_next (hmem h1) d 0 = Some m1 \<and> memset m1 (d + 8) 0 sz = Some m2 \<and>
    allocated e sz h (xs @ (d, z) # ys) bl (d + 8) (h1\<lparr>hmem := m2\<rparr>)"
proof -
  note D = heap_okD [OF H]
  let ?B = "set (xs @ (d, z) # ys) \<union> bl"
  from unlink_block [OF H] obtain n h1 where h1: "desc_next (hmem h) d = Some n" "set_link (link_after Head xs) n h = Some h1"
    "heap_ok e h1 (xs @ ys) (insert (d, z) bl)" "\<And>x. \<forall>b \<in> set xs. unat x \<notin> ext b \<Longrightarrow> hmem h1 x = hmem h x"
    "h1 = h\<lparr>mfree := mfree h1, hmem := hmem h1\<rparr>" by auto
  note D1 = heap_okD [OF h1(3)]
  have dB: "(d, z) \<in> set (xs @ ys) \<union> insert (d, z) bl" by simp
  have "hmem h1 x \<noteq> None" if "in_region d 4 x" for x
    using in_desc_ext [OF D1(4) dB D1(5) in_region_desc [OF that]] blocks_okD [OF D1(4) dB] D1(7) by (intro D1(10)) (auto simp: ext_def)
  from set_desc_next_ok [OF D1(4,5) dB this, of 0] obtain m1 where m1: "set_desc_next (hmem h1) d 0 = Some m1"
    "blocks_ok m1 (unat (of_end e)) (unat (heap_start e h1)) (set (xs @ ys) \<union> insert (d, z) bl)"
    "\<And>x. \<not> in_region d 4 x \<Longrightarrow> m1 x = hmem h1 x" "\<And>x. (m1 x = None) = (hmem h1 x = None)" by auto
  have k1: "heap_ok e (h1\<lparr>hmem := m1\<rparr>) (xs @ ys) (insert (d, z) bl)"
  proof (rule heap_write [OF h1(3) m1(4)])
    fix b assume b: "b \<in> set (xs @ ys) \<union> insert (d, z) bl"
    show "desc_size m1 (fst b) = desc_size (hmem h1) (fst b)"
      using blocks_okD(1) [OF m1(2), of "fst b" "snd b"] blocks_okD(1) [OF D1(4), of "fst b" "snd b"] b by simp
  next
    fix b assume b: "b \<in> set (xs @ ys)"
    then have "b \<noteq> (d, z)" using D1(3) by auto
    with b show "desc_next m1 (fst b) = desc_next (hmem h1) (fst b)"
      using other_desc(1) [OF D1(4,5) dB, of b] by (intro desc_frame(1) m1(3)) (auto dest: in_region_desc)
  qed
  from clear_user [OF k1, of d z sz] sz obtain m2 where m2: "memset m1 (d + 8) 0 sz = Some m2"
    "heap_ok e (h1\<lparr>hmem := m2\<rparr>) (xs @ ys) (insert (d, z) bl)"
    "\<And>x. m2 x = (if unat d + 8 \<le> unat x \<and> unat x < unat d + 8 + unat sz then Some 0 else m1 x)" by auto
  have keep: "m2 x = hmem h x" if b: "b \<in> bl" "unat x \<in> ext b" for b x
  proof -
    have "b \<noteq> (d, z)" using b D(3) by auto
    then have nd: "unat x \<notin> ext (d, z)" using blocks_disjoint [OF D1(4) _ dB _, of b "unat x"] b by auto
    have "\<forall>c \<in> set xs. unat x \<notin> ext c" using blocks_disjoint [OF D(4), of b] b D(3) by fastforce
    moreover have "\<not> in_region d 4 x" using in_desc_ext [OF D1(4) dB D1(5) in_region_desc] nd by blast
    moreover have "\<not> (unat d + 8 \<le> unat x \<and> unat x < unat d + 8 + unat sz)" using nd sz by (auto simp: ext_def)
    ultimately show ?thesis using m2(3) m1(3) h1(4) by metis
  qed
  have "unat HASH_BASE < 2 ^ 32" by simp
  then have "unat (d + 8) = unat d + 8" using D1(7) by (intro unat_add_8 [OF D1(4) dB]) linarith
  moreover have "hworld h1 = hworld h" "heap.more h1 = heap.more h" "heap_start e h1 = heap_start e h"
    by (subst h1(5), simp)+
  ultimately have "allocated e sz h (xs @ (d, z) # ys) bl (d + 8) (h1\<lparr>hmem := m2\<rparr>)"
    unfolding allocated_def using sz m2 keep D(3)
    by (intro exI [of _ z] exI [of _ "xs @ ys"]) (auto simp: add.commute)
  then show ?thesis using h1(1,2) m1(1) m2(1) by blast
qed

lemma waste_fit:
  assumes H: "heap_ok e h (xs @ (d, z) # ys) bl" and sz: "unat sz + 8 \<le> unat z"
  shows "\<exists>m1 n h1. memset (hmem h) (d + 8) 0 sz = Some m1 \<and> desc_next m1 d = Some n \<and>
    set_link (link_after Head xs) n (h\<lparr>hmem := m1\<rparr>) = Some h1 \<and> allocated e sz h (xs @ (d, z) # ys) bl (d + 8) h1"
proof -
  note D = heap_okD [OF H]
  have dB: "(d, z) \<in> set (xs @ (d, z) # ys) \<union> bl" by simp
  from clear_user [OF H dB sz] obtain m1 where m1: "memset (hmem h) (d + 8) 0 sz = Some m1"
    "heap_ok e (h\<lparr>hmem := m1\<rparr>) (xs @ (d, z) # ys) bl"
    "\<And>x. m1 x = (if unat d + 8 \<le> unat x \<and> unat x < unat d + 8 + unat sz then Some 0 else hmem h x)" by auto
  from unlink_block [OF m1(2)] obtain n h1 where h1: "desc_next m1 d = Some n" "set_link (link_after Head xs) n (h\<lparr>hmem := m1\<rparr>) = Some h1"
    "heap_ok e h1 (xs @ ys) (insert (d, z) bl)" "\<And>x. \<forall>b \<in> set xs. unat x \<notin> ext b \<Longrightarrow> hmem h1 x = m1 x"
    "h1 = h\<lparr>hmem := m1, mfree := mfree h1, hmem := hmem h1\<rparr>" by auto
  have out: "hmem h1 x = m1 x" if b: "b \<in> insert (d, z) bl" "unat x \<in> ext b" for b x
  proof (rule h1(4), rule ballI, rule notI)
    fix c assume c: "c \<in> set xs" "unat x \<in> ext c"
    have "c = b" by (rule blocks_disjoint [OF D(4) _ _ c(2) b(2)]) (use b c in auto)
    then show False using b(1) c(1) D(3) sorted_distinct [OF D(2)] by auto
  qed
  have keep: "hmem h1 x = hmem h x" if b: "b \<in> bl" "unat x \<in> ext b" for b x
  proof -
    have "b \<noteq> (d, z)" using b D(3) by auto
    then have "unat x \<notin> ext (d, z)" using blocks_disjoint [OF D(4) _ dB _, of b "unat x"] b by auto
    then have "\<not> (unat d + 8 \<le> unat x \<and> unat x < unat d + 8 + unat sz)" using sz by (auto simp: ext_def)
    then show ?thesis using m1(3) out [of b x] b by auto
  qed
  have zero: "hmem h1 x = Some 0" if "unat d + 8 \<le> unat x" "unat x < unat d + 8 + unat sz" for x
    using that m1(3) out [of "(d, z)" x] sz by (simp add: ext_def)
  have "unat HASH_BASE < 2 ^ 32" by simp
  then have "unat (d + 8) = unat d + 8" using D(7) by (intro unat_add_8 [OF D(4) dB]) linarith
  moreover have "hworld h1 = hworld h" "heap.more h1 = heap.more h" "heap_start e h1 = heap_start e h"
    by (subst h1(5), simp)+
  ultimately have "allocated e sz h (xs @ (d, z) # ys) bl (d + 8) h1"
    unfolding allocated_def using sz h1(3) zero keep D(3)
    by (intro exI [of _ z] exI [of _ "xs @ ys"]) (auto simp: add.commute)
  then show ?thesis using m1(1) h1(1,2) by blast
qed

text \<open>A new block above all others.\<close>

lemma blocks_above:
  assumes "blocks_ok m base (unat p) B" and "desc_size m p = Some z" and "8 \<le> unat z" and "unat p mod 4 = 0" and "base \<le> unat p"
    and "unat p + unat z \<le> lim"
  shows "blocks_ok m base lim (insert (p, z) B)" and "(p, z) \<notin> B"
proof -
  have below: "ext b \<subseteq> {..< unat p}" if "b \<in> B" for b
    using blocks_okD(5) [OF assms(1), of "fst b" "snd b"] that by (auto simp: ext_def)
  have new: "ext (p, z) \<inter> {..< unat p} = {}" by (auto simp: ext_def)
  have "ext b \<inter> ext c = {}" if bc: "b \<in> insert (p, z) B" "c \<in> insert (p, z) B" "b \<noteq> c" for b c
  proof (cases "b = (p, z) \<or> c = (p, z)")
    case True
    then show ?thesis using bc below new by blast
  next
    case False
    then show ?thesis using bc assms(1) by (auto simp: blocks_ok_def)
  qed
  moreover have "unat p \<in> ext (p, z)" using assms(3) by (simp add: ext_def)
  then have "(p, z) \<notin> B" using below [of "(p, z)"] by auto
  moreover have "unat d + unat y \<le> lim" if "(d, y) \<in> B" for d y using blocks_okD(5) [OF assms(1) that] assms(6) by simp
  ultimately show "blocks_ok m base lim (insert (p, z) B)" "(p, z) \<notin> B"
    using assms unfolding blocks_ok_def by auto
qed

lemma new_desc:
  assumes "unat p + 8 \<le> 2 ^ 32" and "\<And>x. in_region p 8 x \<Longrightarrow> m x \<noteq> None"
  shows "\<exists>m1 m2. set_desc_next m p n = Some m1 \<and> set_desc_size m1 p z = Some m2 \<and> desc_size m2 p = Some z \<and>
    (\<forall>x. \<not> in_region p 8 x \<longrightarrow> m2 x = m x) \<and> (\<forall>x. (m2 x = None) = (m x = None))"
proof -
  have lin: "linear p 4" "linear p 8" using assms(1) by (simp_all add: linear_def)
  have "unat p + unat (4 :: ucell) < 2 ^ LENGTH(32)" using assms(1) by simp
  from unat_add_no_wrap [OF this] have u: "unat (p + 4) = unat p + 4" by simp
  then have lin4: "linear (p + 4) 4" using assms(1) by (simp add: linear_def)
  have sub: "in_region p 8 x" if "in_region p 4 x \<or> in_region (p + 4) 4 x" for x
    using that u by (auto simp: in_region_linear [OF lin(1)] in_region_linear [OF lin(2)] in_region_linear [OF lin4])
  have "\<forall>x. in_region p 4 x \<longrightarrow> m x \<noteq> None" using sub assms(2) by blast
  then have "write_ucell m p n \<noteq> None" by (simp only: ucell_acc.wr_succeeds)
  then obtain m1 where m1: "write_ucell m p n = Some m1" by blast
  have "\<forall>x. in_region (p + 4) 4 x \<longrightarrow> m1 x \<noteq> None" using sub assms(2) ucell_acc.wr_dom [OF m1] by blast
  then have "write_ucell m1 (p + 4) z \<noteq> None" by (simp only: ucell_acc.wr_succeeds)
  then obtain m2 where m2: "write_ucell m1 (p + 4) z = Some m2" by blast
  have "m2 x = m x" if "\<not> in_region p 8 x" for x
    using ucell_acc.wr_frame [OF m1, of x] ucell_acc.wr_frame [OF m2, of x] sub [of x] that by metis
  then show ?thesis
    using m1 m2 ucell_acc.rd_wr_same [OF m2] ucell_acc.wr_dom [OF m1] ucell_acc.wr_dom [OF m2]
    by (auto simp: set_desc_next_def set_desc_size_def desc_size_def)
qed

lemma bump:
  assumes H: "heap_ok e h fl bl" and p: "next_malloc h = p" "p \<noteq> 0" and t: "unat t mod 4 = 0" "unat sz + 8 \<le> unat t"
    and room: "unat p + 8 + unat t \<le> unat HASH_BASE" and tsz: "unat t \<le> unat sz + 11"
  shows "\<exists>m1 m2 m3. set_desc_next (hmem h) p 0 = Some m1 \<and> set_desc_size m1 p t = Some m2 \<and>
    memset m2 (p + 8) 0 sz = Some m3 \<and> allocated e sz h fl bl (p + 8) (h\<lparr>next_malloc := p + t, hmem := m3\<rparr>)"
proof -
  note D = heap_okD [OF H]
  have hs: "heap_start e h = p" using p by (simp add: heap_start_def)
  note D = D [unfolded hs]
  have hb: "unat HASH_BASE < 2 ^ 32" by simp
  then have lin: "linear p 8" using room by (simp add: linear_def)
  have "hmem h x \<noteq> None" if "in_region p 8 x" for x
    using that room D(8) by (intro D(10)) (simp_all add: in_region_linear [OF lin])
  from new_desc [where m = "hmem h" and p = p and n = 0 and z = t, OF _ this] lin obtain m1 m2 where m: "set_desc_next (hmem h) p 0 = Some m1" "set_desc_size m1 p t = Some m2"
    "desc_size m2 p = Some t" "\<And>x. \<not> in_region p 8 x \<Longrightarrow> m2 x = hmem h x" "\<And>x. (m2 x = None) = (hmem h x = None)"
    unfolding linear_def by blast
  have low: "m2 x = hmem h x" if "unat x < unat p" for x using that by (intro m(4)) (simp add: in_region_linear [OF lin])
  have out: "m2 x = hmem h x" if "b \<in> set fl \<union> bl" "unat x \<in> ext b" for b x
    using blocks_okD(5) [OF D(4), of "fst b" "snd b"] that by (intro low) (auto simp: ext_def)
  have out8: "m2 x = hmem h x" if "b \<in> set fl \<union> bl" "in_region (fst b) 8 x" for b x
    using in_desc_ext [OF D(4) _ D(5), of "fst b" "snd b" x] that by (intro out) auto
  have h2: "heap_ok e (h\<lparr>hmem := m2\<rparr>) fl bl"
    by (rule heap_write [OF H m(5)]) (auto intro!: desc_frame out8)
  note D2 = heap_okD [OF h2]
  have ut: "unat (p + t) = unat p + unat t" using room hb by (intro unat_add_no_wrap) simp
  have pt0: "p + t \<noteq> 0" using ut p(2) by (auto simp: unat_eq_zero [symmetric])
  let ?h = "h\<lparr>next_malloc := p + t, hmem := m2\<rparr>"
  have hs2: "heap_start e ?h = p + t" using pt0 by (simp add: heap_start_def)
  have b2: "blocks_ok m2 (unat (of_end e)) (unat p) (set fl \<union> bl)" using D2(4) p by (simp add: heap_start_def)
  note ab = blocks_above [OF b2 m(3) _ D(6,8), of "unat (p + t)"]
  have blk: "blocks_ok m2 (unat (of_end e)) (unat (p + t)) (set fl \<union> insert (p, t) bl)" using ab(1) t(2) ut by simp
  have new: "(p, t) \<notin> set fl \<union> bl" using ab(2) t(2) ut by simp
  have "heap_ok e ?h fl (insert (p, t) bl)"
    unfolding heap_ok_def hs2 using h2 blk new room t(1) D(6,8) ut by (simp add: heap_ok_def mod_add_eq [symmetric])
  from clear_user [OF this, of p t sz] t(2) obtain m3 where m3: "memset m2 (p + 8) 0 sz = Some m3"
    "heap_ok e (?h\<lparr>hmem := m3\<rparr>) fl (insert (p, t) bl)"
    "\<And>x. m3 x = (if unat p + 8 \<le> unat x \<and> unat x < unat p + 8 + unat sz then Some 0 else m2 x)" by auto
  have "m3 x = hmem h x" if b: "b \<in> bl" "unat x \<in> ext b" for b x
  proof -
    have "unat x < unat p" using blocks_okD(5) [OF D(4), of "fst b" "snd b"] b by (auto simp: ext_def)
    then show ?thesis using m3(3) low by simp
  qed
  moreover have "unat (p + 8) = unat p + 8" using unat_add_no_wrap [of p 8] room hb by simp
  ultimately have "allocated e sz h fl bl (p + 8) (h\<lparr>next_malloc := p + t, hmem := m3\<rparr>)"
    unfolding allocated_def using t m3 new hs hs2 ut tsz by (intro exI [of _ t] exI [of _ fl]) auto
  then show ?thesis using m(1,2) m3(1) by blast
qed

text \<open>
  An allocation returns. It gives no block only when the space above \<open>next_malloc\<close> is too small, and
  then it changes neither memory nor lists; otherwise it keeps what \<open>allocated\<close> says. The code compares
  \<open>ret + total_size\<close> with the top of the heap; \<open>no_wrap\<close> says that this sum stays below \<open>2 ^ 32\<close>.
\<close>

definition no_wrap :: "'w ofenv \<Rightarrow> ucell \<Rightarrow> ('w, 'a) heap_scheme \<Rightarrow> bool" where
  "no_wrap e sz h \<longleftrightarrow> unat (heap_start e h) + unat sz + 19 < 2 ^ 32"

lemma malloc_correct:
  assumes H: "heap_ok e h fl bl" and sz: "sz \<noteq> 0" "no_wrap e sz h"
  shows "\<exists>p h'. ofmem_malloc e sz h = Some (p, h') \<and>
    (if p = 0 then unat HASH_BASE < unat (heap_start e h) + unat sz + 19 \<and> heap_ok e h' fl bl \<and> hmem h' = hmem h \<and> heap.more h' = heap.more h
     else allocated e sz h fl bl p h')"
proof -
  define h0 where "h0 = (if next_malloc h = 0 then h\<lparr>next_malloc := ofmem_arch_get_malloc_base e\<rparr> else h)"
  define t where "t = align_size (sz + 8) 4"
  have e0: "of_end e \<noteq> 0" by (rule heap_okD(9) [OF H])
  have nm: "next_malloc h0 = heap_start e h" "heap_start e h0 = heap_start e h" "hmem h0 = hmem h" "mfree h0 = mfree h"
    "heap.more h0 = heap.more h" "hworld h0 = hworld h"
    using e0 by (simp_all add: h0_def heap_start_def ofmem_arch_get_malloc_base_def)
  have H0: "heap_ok e h0 fl bl" using H by (simp add: heap_ok_def nm)
  note D = heap_okD [OF H0]
  have al: "allocated e sz h0 fl bl p h' \<Longrightarrow> allocated e sz h fl bl p h'" for p h'
    unfolding allocated_def nm .
  have nw: "unat (heap_start e h) + unat sz + 19 < 2 ^ 32" using sz(2) by (simp add: no_wrap_def)
  then have "unat (sz + 8) = unat sz + unat (8 :: ucell)" by (intro unat_add_no_wrap) simp
  then have t: "unat t mod 4 = 0" "unat sz + 8 \<le> unat t" "unat t \<le> unat sz + 11"
    unfolding t_def using align_size_4 [of "sz + 8"] nw by simp_all
  define f where "f = (\<lambda>c :: block. snd c < t)"
  let ?xs = "takeWhile f fl" and ?ys = "dropWhile f fl"
  let ?q = "case ?ys of [] \<Rightarrow> 0 | c # _ \<Rightarrow> fst c"
  have w: "walk (hmem h0) (\<lambda>m p. do { z \<leftarrow> desc_size m p; Some (z < t) }) Head (mfree h0) = Some (link_after Head ?xs, ?q)"
  proof (rule walk_flink [OF D(1)])
    fix b assume "b \<in> set fl"
    then show "(desc_size (hmem h0) (fst b) \<bind> (\<lambda>z. Some (z < t))) = Some (f b)"
      using blocks_okD(1) [OF D(4), of "fst b" "snd b"] by (simp add: f_def)
  qed
  have fl: "fl = ?xs @ ?ys" by simp
  have hd: "fl = ?xs @ (d, z) # ys \<and> (d, z) \<in> set fl \<union> bl \<and> \<not> z < t" if "?ys = (d, z) # ys" for d z ys
    using that fl by (metis Un_iff f_def dropWhile_eq_Cons_conv in_set_conv_decomp snd_conv)
  note unf = ofmem_malloc_def ofmem_posix_memalign_def h0_def [symmetric] t_def [symmetric] Let_def w va2pa_def pa2va_def sz(1)
  have hb: "unat HASH_BASE < 2 ^ 32" by simp
  have used: ?thesis if y: "?ys = (d, z) # ys" and c: "z = t \<or> t + 0x1000 < z" for d z ys
  proof -
    note b = hd [OF y]
    note bo = blocks_okD [OF D(4) conjunct1 [OF conjunct2 [OF b]]]
    have d8: "unat (d + 8) = unat d + 8" by (rule unat_add_8 [OF D(4)]) (use b D(7) hb in auto)
    then have p0: "d + 8 \<noteq> 0" by auto
    have d0: "d \<noteq> 0" using bo e0 by (auto simp: unat_eq_zero)
    have "unat (d + 8) mod 4 = 0" "unat (d + 8) + 3 < 2 ^ 32" using d8 bo D(7) by simp_all presburger
    then have ap: "align_ptr (d + 8) 4 = d + 8" by (rule align_ptr_4)
    have fit: "unat sz + 8 \<le> unat z" using t(2) b by (simp add: word_less_nat_alt)
    have Hx: "heap_ok e h0 (?xs @ (d, z) # ys) bl" using H0 b by simp
    show ?thesis
    proof (cases "z = t")
      case True
      from exact_fit [OF Hx fit] obtain n h1 m1 m2 where r: "desc_next (hmem h0) d = Some n" "set_link (link_after Head ?xs) n h0 = Some h1"
        "set_desc_next (hmem h1) d 0 = Some m1" "memset m1 (d + 8) 0 sz = Some m2"
        "allocated e sz h0 (?xs @ (d, z) # ys) bl (d + 8) (h1\<lparr>hmem := m2\<rparr>)" by blast
      have "ofmem_malloc e sz h = Some (d + 8, h1\<lparr>hmem := m2\<rparr>)" using True y r(1-4) d0 ap bo(1) by (simp add: unf)
      then show ?thesis using r(5) b al p0 by fastforce
    next
      case False
      from waste_fit [OF Hx fit] obtain n h1 m1 where r: "memset (hmem h0) (d + 8) 0 sz = Some m1" "desc_next m1 d = Some n"
        "set_link (link_after Head ?xs) n (h0\<lparr>hmem := m1\<rparr>) = Some h1" "allocated e sz h0 (?xs @ (d, z) # ys) bl (d + 8) h1" by blast
      have "ofmem_malloc e sz h = Some (d + 8, h1)" using False c y r(1-3) d0 ap bo(1) by (simp add: unf)
      then show ?thesis using r(4) b al p0 by fastforce
    qed
  qed
  show ?thesis
  proof (cases "\<exists>d z ys. ?ys = (d, z) # ys \<and> (z = t \<or> t + 0x1000 < z)")
    case True
    then show ?thesis using used by blast
  next
    case False
    let ?s = "heap_start e h"
    note Ds = D [unfolded nm(2)]
    have s0: "?s \<noteq> 0" using e0 by (simp add: heap_start_def)
    have u8: "unat (?s + 8) = unat ?s + 8" using unat_add_no_wrap [of ?s 8] Ds(7) by simp
    have "unat (?s + 8) mod 4 = 0" "unat (?s + 8) + 3 < 2 ^ 32" using u8 Ds(6,7) by simp_all presburger
    then have ap: "align_ptr (?s + 8) 4 = ?s + 8" by (rule align_ptr_4)
    have "unat (?s + 8) + unat t < 2 ^ LENGTH(32)" using u8 t(3) nw by simp
    from unat_add_no_wrap [OF this] have ut: "unat (?s + 8 + t) = unat ?s + 8 + unat t" using u8 by simp
    have skip: "\<not> (z = t)" "\<not> t + 0x1000 < z" if "?ys = (d, z) # ys" for d z ys using False that by auto
    have un: "ofmem_malloc e sz h = (if HASH_BASE < ?s + 8 + t
        then Some (0, h0\<lparr>hworld := of_printk e ''out of malloc memory (%x)!\<newline>'' [t] (hworld h0)\<rparr>)
        else do { m \<leftarrow> set_desc_next (hmem h0) ?s 0; m \<leftarrow> set_desc_size m ?s t; m \<leftarrow> memset m (?s + 8) 0 sz;
                  Some (?s + 8, h0\<lparr>next_malloc := ?s + t, hmem := m\<rparr>) })"
    proof (cases ?ys)
      case Nil
      then show ?thesis using ap nm(1) by (simp add: unf ofmem_arch_get_heap_top_def get_heap_top_def del: dropWhile_eq_Nil_conv)
    next
      case (Cons c ys)
      obtain d z where "c = (d, z)" by (cases c)
      then have y: "?ys = (d, z) # ys" using Cons by simp
      have "desc_size (hmem h0) d = Some z" using hd [OF y] by (intro blocks_okD(1) [OF D(4)]) blast
      then show ?thesis using y skip [OF y] ap nm(1) by (simp add: unf ofmem_arch_get_heap_top_def get_heap_top_def)
    qed
    show ?thesis
    proof (cases "HASH_BASE < ?s + 8 + t")
      case True
      then have "unat HASH_BASE < unat ?s + unat sz + 19" using ut t(3) by (simp add: word_less_nat_alt)
      moreover have "heap_ok e (h0\<lparr>hworld := w\<rparr>) fl bl" for w using H0 by (simp add: heap_ok_def)
      ultimately show ?thesis using un True nm(3,5) by simp
    next
      case False
      then have room: "unat ?s + 8 + unat t \<le> unat HASH_BASE" using ut by (simp add: word_less_nat_alt)
      from bump [OF H0 nm(1) s0 t(1,2) room t(3)] obtain m1 m2 m3 where m: "set_desc_next (hmem h0) ?s 0 = Some m1"
        "set_desc_size m1 ?s t = Some m2" "memset m2 (?s + 8) 0 sz = Some m3"
        "allocated e sz h0 fl bl (?s + 8) (h0\<lparr>next_malloc := ?s + t, hmem := m3\<rparr>)" by blast
      have "?s + 8 \<noteq> 0" using u8 by auto
      then show ?thesis using un False m al by simp
    qed
  qed
qed

subsection \<open>Any sequence of calls\<close>

text \<open>
  A client of the heap, with the areas it holds as pairs of address and size: it allocates sizes for which the code's
  out-of-memory test does not wrap around, it frees what it holds, and it writes what it likes to the bytes it asked for.
\<close>

inductive heap_step :: "'w ofenv \<Rightarrow> 'w heap \<times> block set \<Rightarrow> 'w heap \<times> block set \<Rightarrow> bool" for e where
  alloc: "ofmem_malloc e sz h = Some (p, h') \<Longrightarrow> p \<noteq> 0 \<Longrightarrow> no_wrap e sz h \<Longrightarrow> heap_step e (h, L) (h', insert (p, sz) L)"
| alloc_fails: "ofmem_malloc e sz h = Some (0, h') \<Longrightarrow> no_wrap e sz h \<Longrightarrow> heap_step e (h, L) (h', L)"
| free: "(p, sz) \<in> L \<Longrightarrow> ofmem_free p h = Some h' \<Longrightarrow> heap_step e (h, L) (h', L - {(p, sz)})"
| use: "(p, sz) \<in> L \<Longrightarrow> (\<And>x. unat x \<notin> ext (p, sz) \<Longrightarrow> m x = hmem h x) \<Longrightarrow> (\<And>x. m x = None \<longleftrightarrow> hmem h x = None) \<Longrightarrow>
    heap_step e (h, L) (h\<lparr>hmem := m\<rparr>, L)"

definition fresh_heap :: "'w ofenv \<Rightarrow> 'w heap \<Rightarrow> bool" where
  "fresh_heap e h \<longleftrightarrow> of_end e \<noteq> 0 \<and> unat (of_end e) mod 4 = 0 \<and> unat (of_end e) \<le> unat HASH_BASE \<and> next_malloc h = 0 \<and> mfree h = 0 \<and>
     (\<forall>x. unat (of_end e) \<le> unat x \<and> unat x < unat HASH_BASE \<longrightarrow> hmem h x \<noteq> None)"

text \<open>The areas a client holds, and the blocks they lie in: \<open>z\<close> is the size in the descriptor.\<close>

definition held :: "'w ofenv \<Rightarrow> ('w, 'a) heap_scheme \<Rightarrow> block set \<Rightarrow> (ucell \<Rightarrow> ucell) \<Rightarrow> bool" where
  "held e h L z \<longleftrightarrow> (\<exists>fl. heap_ok e h fl ((\<lambda>(p, sz). (p - 8, z p)) ` L)) \<and>
     (\<forall>p sz. (p, sz) \<in> L \<longrightarrow> unat sz + 8 \<le> unat (z p) \<and> sz \<noteq> 0) \<and> (\<forall>p s t. (p, s) \<in> L \<longrightarrow> (p, t) \<in> L \<longrightarrow> s = t)"

lemma held_area:
  assumes "heap_ok e h fl bl" and "(p - 8, z) \<in> bl" and "unat sz + 8 \<le> unat z"
  shows "ext (p, sz) \<subseteq> ext (p - 8, z)" and "unat p = unat (p - 8) + 8"
proof -
  note D = heap_okD [OF assms(1)]
  have hb: "unat HASH_BASE < 2 ^ 32" by simp
  have "unat (p - 8 + 8) = unat (p - 8) + 8" by (rule unat_add_8 [OF D(4)]) (use assms(2) D(7) hb in auto)
  then show u: "unat p = unat (p - 8) + 8" by simp
  show "ext (p, sz) \<subseteq> ext (p - 8, z)" using u assms(3) by (auto simp: ext_def)
qed

lemma held_disjoint:
  assumes "held e h L z" and "(p, s) \<in> L" and "(q, t) \<in> L" and "(p, s) \<noteq> (q, t)"
  shows "ext (p, s) \<inter> ext (q - 8, z q) = {}"
proof -
  from assms(1) obtain fl where H: "heap_ok e h fl ((\<lambda>(p, sz). (p - 8, z p)) ` L)" and f: "unat s + 8 \<le> unat (z p)"
    using assms(2) by (auto simp: held_def)
  have "p \<noteq> q" using assms by (auto simp: held_def)
  then have "(p - 8, z p) \<noteq> (q - 8, z q)" by auto
  moreover have "(p - 8, z p) \<in> (\<lambda>(p, sz). (p - 8, z p)) ` L" "(q - 8, z q) \<in> (\<lambda>(p, sz). (p - 8, z p)) ` L"
    using assms(2,3) by force+
  ultimately have "ext (p - 8, z p) \<inter> ext (q - 8, z q) = {}" using heap_okD(4) [OF H] unfolding blocks_ok_def by blast
  moreover have "ext (p, s) \<subseteq> ext (p - 8, z p)" by (rule held_area(1) [OF H _ f]) (use assms(2) in force)
  ultimately show ?thesis by blast
qed

lemma malloc_zero: "ofmem_malloc e 0 h = Some (0, h)"
  by (simp add: ofmem_malloc_def ofmem_posix_memalign_def)

abbreviation in_blocks :: "block set \<Rightarrow> (ucell \<Rightarrow> ucell) \<Rightarrow> block set" where
  "in_blocks L z \<equiv> (\<lambda>(p, sz). (p - 8, z p)) ` L"

lemma malloc_held:
  assumes h: "held e h L z" and m: "ofmem_malloc e sz h = Some (p, h')" and sz: "no_wrap e sz h"
  shows "if p = 0 then held e h' L z \<and> hmem h' = hmem h
    else (\<exists>y. held e h' (insert (p, sz) L) (z(p := y))) \<and> p \<notin> fst ` L \<and> (\<forall>x. unat x \<in> ext (p, sz) \<longrightarrow> hmem h' x = Some 0) \<and>
      (\<forall>a \<in> L. \<forall>x. unat x \<in> ext a \<longrightarrow> hmem h' x = hmem h x)"
proof (cases "sz = 0")
  case True
  then show ?thesis using assms malloc_zero [of e h] by simp
next
  case False
  from h obtain fl where H: "heap_ok e h fl (in_blocks L z)" and f: "\<And>p s. (p, s) \<in> L \<Longrightarrow> unat s + 8 \<le> unat (z p)"
    by (auto simp: held_def)
  from malloc_correct [OF H False sz] m
  have r: "if p = 0 then heap_ok e h' fl (in_blocks L z) \<and> hmem h' = hmem h else allocated e sz h fl (in_blocks L z) p h'"
    by (auto split: if_splits)
  show ?thesis
  proof (cases "p = 0")
    case True
    then show ?thesis using r h by (auto simp: held_def)
  next
    case p0: False
    then have "allocated e sz h fl (in_blocks L z) p h'" using r by simp
    then obtain y fl' where y: "(p - 8, y) \<notin> in_blocks L z" "unat sz + 8 \<le> unat y"
      "heap_ok e h' fl' (insert (p - 8, y) (in_blocks L z))"
      "\<And>x. unat p \<le> unat x \<and> unat x < unat p + unat sz \<Longrightarrow> hmem h' x = Some 0"
      "\<And>b x. b \<in> in_blocks L z \<Longrightarrow> unat x \<in> ext b \<Longrightarrow> hmem h' x = hmem h x"
      unfolding allocated_def by blast
    note D = heap_okD [OF y(3)]
    have new: "p \<notin> fst ` L"
    proof
      assume "p \<in> fst ` L"
      then have old: "(p - 8, z p) \<in> in_blocks L z" by force
      then have "8 \<le> unat (z p)" by (intro blocks_okD(2) [OF D(4)]) blast
      then have "unat (p - 8) \<in> ext (p - 8, z p)" "unat (p - 8) \<in> ext (p - 8, y)"
        using y(2) by (simp_all add: ext_def)
      then have "(p - 8, z p) = (p - 8, y)" using old by (intro blocks_disjoint [OF D(4)]) auto
      then show False using y(1) old by simp
    qed
    have "in_blocks (insert (p, sz) L) (z(p := y)) = insert (p - 8, y) (in_blocks L z)"
      using new by (force simp: image_iff)
    then have "held e h' (insert (p, sz) L) (z(p := y))"
      unfolding held_def using y(2,3) False new h by (auto simp: held_def image_iff)
    moreover have "hmem h' x = hmem h x" if a: "a \<in> L" "unat x \<in> ext a" for a x
    proof -
      have b: "(fst a - 8, z (fst a)) \<in> in_blocks L z" using a(1) by (cases a) force
      have "ext a \<subseteq> ext (fst a - 8, z (fst a))" using held_area(1) [OF H b f, of "snd a"] a(1) by simp
      then show ?thesis using a(2) by (intro y(5) [OF b]) blast
    qed
    ultimately show ?thesis using p0 new y(4) by (auto simp: ext_def)
  qed
qed

lemma free_held:
  assumes h: "held e h L z" and p: "(p, sz) \<in> L"
  shows "\<exists>h'. ofmem_free p h = Some h' \<and> held e h' (L - {(p, sz)}) z \<and>
    heap.more h' = heap.more h \<and> hworld h' = hworld h \<and> heap_start e h' = heap_start e h \<and>
    (\<forall>a \<in> L - {(p, sz)}. \<forall>x. unat x \<in> ext a \<longrightarrow> hmem h' x = hmem h x)"
proof -
  from h obtain fl where H: "heap_ok e h fl (in_blocks L z)" and f: "\<And>p s. (p, s) \<in> L \<Longrightarrow> unat s + 8 \<le> unat (z p)"
    by (auto simp: held_def)
  have b: "(p - 8, z p) \<in> in_blocks L z" using p by force
  from free_correct [OF H b] obtain h' fl' where h': "ofmem_free p h = Some h'"
    "heap_ok e h' fl' (in_blocks L z - {(p - 8, z p)})"
    "\<And>x. \<forall>c \<in> insert (p - 8, z p) (set fl). unat x \<notin> ext c \<Longrightarrow> hmem h' x = hmem h x"
    "h' = h\<lparr>mfree := mfree h', hmem := hmem h'\<rparr>" by auto
  have fr: "heap.more h' = heap.more h" "hworld h' = hworld h" "heap_start e h' = heap_start e h" by (subst h'(4), simp)+
  have un: "s = sz" if "(p, s) \<in> L" for s using h p that by (auto simp: held_def)
  have "in_blocks L z - {(p - 8, z p)} = in_blocks (L - {(p, sz)}) z" using un by (auto simp: image_iff)
  then have "held e h' (L - {(p, sz)}) z" unfolding held_def using h'(2) h by (auto simp: held_def)
  moreover have "hmem h' x = hmem h x" if a: "a \<in> L - {(p, sz)}" "unat x \<in> ext a" for a x
  proof (rule h'(3), rule ballI, rule notI)
    fix c assume c: "c \<in> insert (p - 8, z p) (set fl)" "unat x \<in> ext c"
    have ab: "(fst a - 8, z (fst a)) \<in> in_blocks L z" using a(1) by (cases a) force
    have xb: "unat x \<in> ext (fst a - 8, z (fst a))"
      using held_area(1) [OF H ab f, of "snd a"] a by auto
    have "c = (fst a - 8, z (fst a))"
      by (rule blocks_disjoint [OF heap_okD(4) [OF H] _ _ c(2) xb]) (use c(1) ab b in auto)
    moreover have "c \<noteq> (fst a - 8, z (fst a))"
      using c(1) heap_okD(3) [OF H] ab a(1) un [of "snd a"] by (cases a) auto
    ultimately show False by blast
  qed
  ultimately show ?thesis using h'(1) fr by blast
qed

text \<open>With room above \<open>next_malloc\<close> an allocation succeeds.\<close>

lemma malloc_room:
  assumes h: "held e h L z" and sz: "sz \<noteq> 0"
    and room: "unat (heap_start e h) + unat sz + 19 \<le> unat HASH_BASE"
  shows "\<exists>p h' y. ofmem_malloc e sz h = Some (p, h') \<and> p \<noteq> 0 \<and> p \<notin> fst ` L \<and> held e h' (insert (p, sz) L) (z(p := y)) \<and>
    (\<forall>a \<in> L. \<forall>x. unat x \<in> ext a \<longrightarrow> hmem h' x = hmem h x) \<and> heap.more h' = heap.more h \<and> hworld h' = hworld h \<and>
    unat (heap_start e h') \<le> unat (heap_start e h) + unat sz + 11"
proof -
  from h obtain fl where H: "heap_ok e h fl (in_blocks L z)" by (auto simp: held_def)
  have nw: "no_wrap e sz h" using room by (simp add: no_wrap_def)
  have no: "\<not> unat HASH_BASE < unat (heap_start e h) + unat sz + 19" using room by linarith
  from malloc_correct [OF H sz nw] obtain p h' where r: "ofmem_malloc e sz h = Some (p, h')"
    and c: "if p = 0 then unat HASH_BASE < unat (heap_start e h) + unat sz + 19 \<and> heap_ok e h' fl (in_blocks L z) \<and>
        hmem h' = hmem h \<and> heap.more h' = heap.more h else allocated e sz h fl (in_blocks L z) p h'" by blast
  have p0: "p \<noteq> 0"
  proof
    assume "p = 0"
    then have "unat HASH_BASE < unat (heap_start e h) + unat sz + 19" using c by (simp only: if_True simp_thms)
    then show False using no by blast
  qed
  then have al: "allocated e sz h fl (in_blocks L z) p h'" using c by (simp only: if_False)
  have fr: "heap.more h' = heap.more h" "hworld h' = hworld h" "unat (heap_start e h') \<le> unat (heap_start e h) + unat sz + 11"
    using al unfolding allocated_def by blast+
  from malloc_held [OF h r nw] p0 obtain y where "held e h' (insert (p, sz) L) (z(p := y))" "p \<notin> fst ` L"
    "\<forall>a \<in> L. \<forall>x. unat x \<in> ext a \<longrightarrow> hmem h' x = hmem h x" by auto
  then show ?thesis using r p0 fr by blast
qed

text \<open>A client may write what it likes to the bytes it asked for.\<close>

lemma use_held:
  assumes h: "held e h L z" and p: "(p, sz) \<in> L" and m: "\<And>x. unat x \<notin> ext (p, sz) \<Longrightarrow> m x = hmem h x"
    and d: "\<And>x. m x = None \<longleftrightarrow> hmem h x = None"
  shows "held e (h\<lparr>hmem := m\<rparr>) L z"
proof -
  from h obtain fl where H: "heap_ok e h fl (in_blocks L z)" and f: "unat sz + 8 \<le> unat (z p)"
    using p by (auto simp: held_def)
  have b: "(p - 8, z p) \<in> set fl \<union> in_blocks L z" using p by force
  have "m x = hmem h x" if "unat x < unat (p - 8) + 8 \<or> unat (p - 8) + unat (z p) \<le> unat x" for x
    using that held_area(2) [OF H _ f] p f by (intro m) (force simp: ext_def)
  from user_write_desc [OF heap_okD(4,5) [OF H] b _ this]
  have "heap_ok e (h\<lparr>hmem := m\<rparr>) fl (in_blocks L z)" by (intro heap_write [OF H d]) auto
  then show ?thesis using h by (auto simp: held_def)
qed

lemma step_held:
  assumes "heap_step e a b" and "held e (fst a) (snd a) z"
  shows "\<exists>z'. held e (fst b) (snd b) z'"
  using assms
proof cases
  case (alloc sz h p h' L)
  then show ?thesis using malloc_held [of e h L z sz p h'] assms(2) by auto
next
  case (alloc_fails sz h h' L)
  then show ?thesis using malloc_held [of e h L z sz 0 h'] assms(2) by auto
next
  case (free p sz L h h')
  then show ?thesis using free_held [of e h L z p sz] assms(2) by auto
next
  case (use p sz L m h)
  then show ?thesis using use_held [of e h L z p sz m] assms(2) by auto
qed

lemma reachable_held:
  assumes "fresh_heap e h0" and "(heap_step e)\<^sup>*\<^sup>* (h0, {}) s"
  shows "\<exists>z. held e (fst s) (snd s) z"
  using assms(2)
proof induction
  case base
  have "heap_ok e h0 [] {}" using assms(1) by (simp add: fresh_heap_def heap_ok_def heap_start_def blocks_ok_def)
  then show ?case by (auto simp: held_def)
next
  case (step s t)
  then show ?case using step_held by blast
qed

lemma held_apart:
  assumes "held e h L z" and "a \<in> L" and "b \<in> L" and "a \<noteq> b"
  shows "ext a \<inter> ext b = {}"
proof -
  from assms(1,3) obtain fl where "heap_ok e h fl (in_blocks L z)" "(fst b - 8, z (fst b)) \<in> in_blocks L z"
    "unat (snd b) + 8 \<le> unat (z (fst b))" by (cases b) (force simp: held_def)
  from held_area(1) [OF this] show ?thesis
    using held_disjoint [OF assms(1), of "fst a" "snd a" "fst b" "snd b"] assms by auto
qed

text \<open>
  C14: Whatever sequence of allocations, releases and writes to its own bytes a client makes from a
  fresh heap, each allocation of a size with \<open>no_wrap\<close>, the areas it holds never overlap and lie between
  \<open>_end\<close> and the hash table. A further allocation of such a size returns; a block it gives is zeroed and apart from every
  area held. A release of an area held returns. Neither changes a byte of another area. \<open>no_wrap\<close> holds of a size exactly
  when the end of the block, counted from the break of the heap, is an address below \<open>2 ^ 32\<close>: for larger requests the
  sum in the out-of-memory test wraps around and the test may let them pass; nothing is claimed of them.
\<close>

theorem heap_safe:
  assumes "fresh_heap e h0" and "(heap_step e)\<^sup>*\<^sup>* (h0, {}) (h, L)"
  shows "(\<forall>a \<in> L. \<forall>b \<in> L. a \<noteq> b \<longrightarrow> ext a \<inter> ext b = {}) \<and>
    (\<forall>a \<in> L. ext a \<subseteq> {unat (of_end e) ..< unat HASH_BASE}) \<and>
    (\<forall>sz. no_wrap e sz h \<longrightarrow> (\<exists>p h'. ofmem_malloc e sz h = Some (p, h') \<and>
       (p \<noteq> 0 \<longrightarrow> (\<forall>a \<in> L. ext (p, sz) \<inter> ext a = {}) \<and> (\<forall>x. unat x \<in> ext (p, sz) \<longrightarrow> hmem h' x = Some 0)) \<and>
       (\<forall>a \<in> L. \<forall>x. unat x \<in> ext a \<longrightarrow> hmem h' x = hmem h x))) \<and>
    (\<forall>p sz. (p, sz) \<in> L \<longrightarrow> (\<exists>h'. ofmem_free p h = Some h' \<and>
       (\<forall>a \<in> L - {(p, sz)}. \<forall>x. unat x \<in> ext a \<longrightarrow> hmem h' x = hmem h x)))"
proof -
  from reachable_held [OF assms] obtain z where z: "held e h L z" by auto
  then obtain fl where H: "heap_ok e h fl (in_blocks L z)" and f: "\<And>p s. (p, s) \<in> L \<Longrightarrow> unat s + 8 \<le> unat (z p)"
    by (auto simp: held_def)
  have blk: "(fst a - 8, z (fst a)) \<in> in_blocks L z \<and> ext a \<subseteq> ext (fst a - 8, z (fst a))" if "a \<in> L" for a
  proof -
    obtain p s where a: "a = (p, s)" by (cases a)
    then have "(p - 8, z p) \<in> in_blocks L z" using that by force
    from held_area(1) [OF H this f] this a that show ?thesis by simp
  qed
  have 2: "ext a \<subseteq> {unat (of_end e) ..< unat HASH_BASE}" if "a \<in> L" for a
  proof -
    note b = blocks_okD [OF heap_okD(4) [OF H], of "fst a - 8" "z (fst a)"]
    have "ext (fst a - 8, z (fst a)) \<subseteq> {unat (of_end e) ..< unat HASH_BASE}"
      using b(4,5) blk [OF that] heap_okD(7) [OF H] by (auto simp: ext_def)
    then show ?thesis using blk [OF that] by blast
  qed
  have 3: "\<exists>p h'. ofmem_malloc e sz h = Some (p, h') \<and>
       (p \<noteq> 0 \<longrightarrow> (\<forall>a \<in> L. ext (p, sz) \<inter> ext a = {}) \<and> (\<forall>x. unat x \<in> ext (p, sz) \<longrightarrow> hmem h' x = Some 0)) \<and>
       (\<forall>a \<in> L. \<forall>x. unat x \<in> ext a \<longrightarrow> hmem h' x = hmem h x)" if "no_wrap e sz h" for sz
  proof -
    obtain p h' where r: "ofmem_malloc e sz h = Some (p, h')"
      using malloc_correct [OF H, of sz] \<open>no_wrap e sz h\<close> malloc_zero [of e h] by (cases "sz = 0") blast+
    have "ext (p, sz) \<inter> ext a = {}" if "p \<noteq> 0" "a \<in> L" for a
    proof -
      from malloc_held [OF z r \<open>no_wrap e sz h\<close>] that(1)
      obtain y where y: "held e h' (insert (p, sz) L) (z(p := y))" "p \<notin> fst ` L" by auto
      have "(p, sz) \<noteq> a" using y(2) that(2) by (metis fst_conv imageI)
      then show ?thesis using held_apart [OF y(1)] that(2) by blast
    qed
    then show ?thesis using r malloc_held [OF z r that] by (auto split: if_splits)
  qed
  have 4: "\<exists>h'. ofmem_free p h = Some h' \<and> (\<forall>a \<in> L - {(p, sz)}. \<forall>x. unat x \<in> ext a \<longrightarrow> hmem h' x = hmem h x)"
    if "(p, sz) \<in> L" for p sz using free_held [OF z that] by metis
  show ?thesis using held_apart [OF z] 2 3 4 by blast
qed

definition demo_env :: "unit ofenv" where
  "demo_env = \<lparr>of_end = 0x11100000, of_platform = WII_RVL, of_printk = (\<lambda>_ _ w. w), of_encode_property = (\<lambda>_ _ _ _ _ w. w)\<rparr>"

definition demo_heap :: "unit heap" where
  "demo_heap = \<lparr>next_malloc = 0, mfree = 0,
     hmem = (\<lambda>x. if 0x11100000 \<le> x \<and> x < 0x111f0000 then Some 0xff else None), hworld = ()\<rparr>"

lemma demo_fresh: "fresh_heap demo_env demo_heap"
  by (simp add: fresh_heap_def demo_env_def demo_heap_def word_le_nat_alt word_less_nat_alt)

theorem heap_safe_witness:
  "\<exists>h p. p \<noteq> 0 \<and> (heap_step demo_env)\<^sup>*\<^sup>* (demo_heap, {}) (h, {(p, 12)}) \<and>
     (\<exists>q h'. ofmem_malloc demo_env 20 h = Some (q, h') \<and> (q \<noteq> 0 \<longrightarrow> ext (q, 20) \<inter> ext (p, 12) = {}))"
proof -
  have "heap_ok demo_env demo_heap [] {}"
    using demo_fresh by (simp add: fresh_heap_def heap_ok_def heap_start_def blocks_ok_def)
  note mc = malloc_correct [OF this, of 12]
  have room: "\<not> unat HASH_BASE < unat (heap_start demo_env demo_heap) + unat (12 :: ucell) + 19"
    by (simp add: heap_start_def demo_heap_def demo_env_def)
  have nw: "(12 :: ucell) \<noteq> 0" "no_wrap demo_env 12 demo_heap"
    by (simp_all add: no_wrap_def heap_start_def demo_heap_def demo_env_def)
  from mc [OF nw] room obtain p h where h: "ofmem_malloc demo_env 12 demo_heap = Some (p, h)" "p \<noteq> 0" by metis
  have "heap_step demo_env (demo_heap, {}) (h, insert (p, 12) {})" by (rule alloc [OF h nw(2)])
  then have r: "(heap_step demo_env)\<^sup>*\<^sup>* (demo_heap, {}) (h, {(p, 12)})" by (rule r_into_rtranclp)
  from reachable_held [OF demo_fresh r] have "unat (heap_start demo_env h) \<le> unat HASH_BASE" by (auto simp: held_def heap_ok_def)
  then have "no_wrap demo_env 20 h" by (simp add: no_wrap_def)
  from mp [OF spec [OF conjunct1 [OF conjunct2 [OF conjunct2 [OF heap_safe [OF demo_fresh r]]]], of 20] this]
  obtain q h' where q: "ofmem_malloc demo_env 20 h = Some (q, h')" "q \<noteq> 0 \<longrightarrow> (\<forall>a \<in> {(p, 12)}. ext (q, 20) \<inter> ext a = {})" by metis
  then have "\<exists>q h'. ofmem_malloc demo_env 20 h = Some (q, h') \<and> (q \<noteq> 0 \<longrightarrow> ext (q, 20) \<inter> ext (p, 12) = {})"
    by (intro exI conjI) simp_all
  then show ?thesis using r h(2) by blast
qed

end
