(* ===== verification/Ofmem_Ranges.thy ===== *)
theory Ofmem_Ranges
  imports Ofmem_Heap
begin

text \<open>
  The range lists of \<open>libopenbios/ofmem_common.c\<close>: which addresses are claimed. A list of \<open>range_t\<close>
  nodes is a list of records; \<open>rg_node\<close> is the address \<open>malloc\<close> gave for the node, so that \<open>free\<close> can
  be given it back. \<open>phys_addr_t\<close>, \<open>ucell\<close> and \<open>size_t\<close> are 32 bits wide, as on PowerPC; sums wrap.
\<close>

subsection \<open>Definitions\<close>

abbreviation PAGE_SIZE :: ucell where "PAGE_SIZE \<equiv> 4096"
abbreviation PAGE_MASK :: ucell where "PAGE_MASK \<equiv> NOT 4095"

record range =
  rg_node :: ucell
  rg_start :: ucell
  rg_size :: ucell

fun is_free_loop :: "ucell \<Rightarrow> ucell \<Rightarrow> range list \<Rightarrow> bool" where
  "is_free_loop ea sz [] = True"
| "is_free_loop ea sz (r # rs) =
     (if ea \<le> rg_start r + rg_size r - 1 \<and> rg_start r \<le> ea then False
      else if ea \<le> rg_start r \<and> rg_start r \<le> ea + sz - 1 then False
      else is_free_loop ea sz rs)"

definition is_free :: "ucell \<Rightarrow> ucell \<Rightarrow> range list \<Rightarrow> bool" where
  "is_free ea sz rs = (if sz = 0 then True else is_free_loop ea sz rs)"

text \<open>\<open>add_entry_\<close> once its node \<open>nr\<close> is allocated: in front of the first range not below it.\<close>

fun insert_range :: "range \<Rightarrow> range list \<Rightarrow> range list" where
  "insert_range nr [] = [nr]"
| "insert_range nr (r # rs) = (if rg_start r < rg_start nr then r # insert_range nr rs else nr # r # rs)"

text \<open>The alignment as \<open>find_area\<close> takes it: at least a page, rounded up to a power of two.\<close>

definition smear :: "ucell \<Rightarrow> ucell" where
  "smear a = fold (\<lambda>i a. a OR drop_bit i a) [1, 2, 4, 8, 16] a"

definition round_align :: "ucell \<Rightarrow> ucell" where
  "round_align align =
     (let align = (if align < PAGE_SIZE then PAGE_SIZE else align)
      in if align AND (align - 1) \<noteq> 0 then smear (align - 1) + 1 else align)"

fun find_up :: "ucell \<Rightarrow> ucell \<Rightarrow> range list \<Rightarrow> ucell \<Rightarrow> ucell \<Rightarrow> ucell \<Rightarrow> range list \<Rightarrow> ucell" where
  "find_up align sz r mn mx base r2 =
     (let base = (base + align - 1) AND NOT (align - 1);
          base = (if base < mn then mn else base)
      in if mx - 1 \<le> base + sz - 1 then - 1
         else if is_free base sz r then base
         else case r2 of [] \<Rightarrow> - 1 | x # xs \<Rightarrow> find_up align sz r mn mx (rg_start x + rg_size x) xs)"

text \<open>\<open>rp\<close> is the list before \<open>r2\<close>, nearest range first: the search for the predecessor walks it.\<close>

fun find_down :: "ucell \<Rightarrow> ucell \<Rightarrow> range list \<Rightarrow> ucell \<Rightarrow> ucell \<Rightarrow> range list \<Rightarrow> ucell" where
  "find_down align sz r mx base rp =
     (let base = (if mx - sz < base then mx - sz else base);
          base = base - (base AND (align - 1))
      in if is_free base sz r then base
         else case rp of [] \<Rightarrow> - 1 | x # xs \<Rightarrow> find_down align sz r mx (rg_start x - sz) xs)"

declare find_up.simps [simp del] find_down.simps [simp del]

definition find_area :: "ucell \<Rightarrow> ucell \<Rightarrow> range list \<Rightarrow> ucell \<Rightarrow> ucell \<Rightarrow> bool \<Rightarrow> ucell" where
  "find_area align sz r mn mx reverse =
     (let align = round_align align
      in if reverse then find_down align sz r mx (mx - sz) (rev r)
         else find_up align sz r mn mx mn r)"

text \<open>
  The two loops of \<open>remove_range_\<close>. The first splits a range that contains \<open>ea\<close> inside it (the new
  part gets its node from \<open>mk\<close>, the allocator) and goes on after the part it made; the second drops
  the first range that contains the area and gives its node.
\<close>

fun split_ranges :: "('s \<Rightarrow> (ucell \<times> 's) option) \<Rightarrow> ucell \<Rightarrow> ucell \<Rightarrow> range list \<Rightarrow> 's \<Rightarrow> (range list \<times> 's) option" where
  "split_ranges mk ea sz [] s = Some ([], s)"
| "split_ranges mk ea sz (r # rs) s =
     (if rg_start r < ea \<and> ea < rg_start r + rg_size r - 1
      then do { (u, s) \<leftarrow> mk s;
                (rs, s) \<leftarrow> split_ranges mk ea sz rs s;
                Some (r\<lparr>rg_size := rg_size r - sz\<rparr> # \<lparr>rg_node = u, rg_start = ea, rg_size = sz\<rparr> # rs, s) }
      else do { (rs, s) \<leftarrow> split_ranges mk ea sz rs s; Some (r # rs, s) })"

fun drop_range :: "ucell \<Rightarrow> ucell \<Rightarrow> range list \<Rightarrow> ucell option \<times> range list" where
  "drop_range ea sz [] = (None, [])"
| "drop_range ea sz (r # rs) =
     (if rg_start r \<le> ea \<and> ea + sz \<le> rg_start r + rg_size r then (Some (rg_node r), rs)
      else case drop_range ea sz rs of (u, rs) \<Rightarrow> (u, r # rs))"

subsection \<open>Ranges as sets of addresses\<close>

definition cells_of :: "range \<Rightarrow> nat set" where
  "cells_of r = {unat (rg_start r) ..< unat (rg_start r) + unat (rg_size r)}"

definition claimed :: "range list \<Rightarrow> nat set" where
  "claimed rs = (\<Union>r \<in> set rs. cells_of r)"

text \<open>A well-formed list: no empty range, none past the last address, sorted, no overlap.\<close>

fun wf_ranges :: "range list \<Rightarrow> bool" where
  "wf_ranges [] = True"
| "wf_ranges (r # rs) = (rg_size r \<noteq> 0 \<and> unat (rg_start r) + unat (rg_size r) \<le> 2 ^ 32 \<and>
     list_all (\<lambda>q. unat (rg_start r) + unat (rg_size r) \<le> unat (rg_start q)) rs \<and> wf_ranges rs)"

lemma unat_last:
  fixes a n :: ucell
  assumes "n \<noteq> 0" and "unat a + unat n \<le> 2 ^ 32"
  shows "unat (a + n - 1) = unat a + unat n - 1"
proof -
  have "0 < unat n" using assms(1) by (simp add: unat_gt_0)
  have "unat (n - 1) = unat n - 1" using assms(1) by (simp add: unat_minus_one)
  moreover have "unat a + unat (n - 1) < 2 ^ LENGTH(32)" using calculation assms \<open>0 < unat n\<close> by simp
  ultimately have "unat (a + (n - 1)) = unat a + (unat n - 1)" using unat_add_no_wrap by metis
  then show ?thesis using \<open>0 < unat n\<close> by (simp add: algebra_simps)
qed

lemma le_last_iff:
  fixes a n x :: ucell
  assumes "n \<noteq> 0" and "unat a + unat n \<le> 2 ^ 32"
  shows "x \<le> a + n - 1 \<longleftrightarrow> unat x < unat a + unat n"
proof -
  have "0 < unat n" using assms(1) by (simp add: unat_gt_0)
  then show ?thesis using unat_last [OF assms] by (auto simp: word_le_nat_alt)
qed

abbreviation ok_range :: "range \<Rightarrow> bool" where
  "ok_range r \<equiv> rg_size r \<noteq> 0 \<and> unat (rg_start r) + unat (rg_size r) \<le> 2 ^ 32"

lemma is_free_loop_iff:
  assumes "sz \<noteq> 0" and "unat ea + unat sz \<le> 2 ^ 32"
  shows "list_all ok_range rs \<Longrightarrow> is_free_loop ea sz rs \<longleftrightarrow> {unat ea ..< unat ea + unat sz} \<inter> claimed rs = {}"
proof (induction rs)
  case (Cons r rs)
  have pos: "0 < unat sz" "0 < unat (rg_size r)" using assms(1) Cons.prems by (simp_all add: unat_gt_0)
  have "(ea \<le> rg_start r + rg_size r - 1 \<and> rg_start r \<le> ea) \<or> (ea \<le> rg_start r \<and> rg_start r \<le> ea + sz - 1) \<longleftrightarrow>
      {unat ea ..< unat ea + unat sz} \<inter> cells_of r \<noteq> {}"
    using Cons.prems le_last_iff [OF assms] le_last_iff [of "rg_size r" "rg_start r"] pos
    by (auto simp: cells_of_def word_le_nat_alt)
  then show ?case using Cons by (auto simp: claimed_def)
qed (simp add: claimed_def)

lemma is_free_iff:
  assumes "list_all ok_range rs" and "unat ea + unat sz \<le> 2 ^ 32"
  shows "is_free ea sz rs \<longleftrightarrow> {unat ea ..< unat ea + unat sz} \<inter> claimed rs = {}"
  using is_free_loop_iff [OF _ assms(2,1)] by (simp add: is_free_def)

lemma wf_ranges_ok: "wf_ranges rs \<Longrightarrow> list_all ok_range rs"
  by (induction rs) auto

lemma insert_range_set: "set (insert_range nr rs) = insert nr (set rs)"
  by (induction rs) auto

lemma claimed_insert: "claimed (insert_range nr rs) = cells_of nr \<union> claimed rs"
  by (auto simp: claimed_def insert_range_set)

lemma insert_range_wf:
  assumes "ok_range nr"
  shows "wf_ranges rs \<Longrightarrow> cells_of nr \<inter> claimed rs = {} \<Longrightarrow> wf_ranges (insert_range nr rs)"
proof (induction rs)
  case Nil
  then show ?case using assms by simp
next
  case (Cons r rs)
  have pos: "0 < unat (rg_size nr)" "0 < unat (rg_size r)" using assms Cons.prems(1) by (simp_all add: unat_gt_0)
  have dis: "cells_of nr \<inter> cells_of r = {}" "cells_of nr \<inter> claimed rs = {}"
    using Cons.prems(2) by (auto simp: claimed_def)
  have sep: "unat (rg_start r) + unat (rg_size r) \<le> unat (rg_start nr) \<or> unat (rg_start nr) + unat (rg_size nr) \<le> unat (rg_start r)"
    using dis(1) pos by (auto simp: cells_of_def)
  show ?case
  proof (cases "rg_start r < rg_start nr")
    case True
    then have "unat (rg_start r) + unat (rg_size r) \<le> unat (rg_start nr)" using sep pos by (simp add: word_less_nat_alt)
    then show ?thesis using True Cons.IH dis(2) Cons.prems(1) by (auto simp: list_all_iff insert_range_set)
  next
    case False
    then have "unat (rg_start nr) + unat (rg_size nr) \<le> unat (rg_start r)" using sep pos by (simp add: word_less_nat_alt)
    then show ?thesis using False assms Cons.prems(1) by (auto simp: list_all_iff)
  qed
qed

subsection \<open>Rounding an alignment\<close>

lemma or_shift_bits:
  fixes z y :: ucell
  assumes "\<And>n. bit z n \<longleftrightarrow> (\<exists>k < m. bit y (n + k))"
  shows "bit (z OR drop_bit m z) n \<longleftrightarrow> (\<exists>k < m + m. bit y (n + k))"
proof -
  have "(\<exists>k < m. bit y (m + n + k)) \<longleftrightarrow> (\<exists>k. m \<le> k \<and> k < m + m \<and> bit y (n + k))"
  proof
    assume "\<exists>k < m. bit y (m + n + k)"
    then obtain k where "k < m" "bit y (m + n + k)" by blast
    then show "\<exists>k. m \<le> k \<and> k < m + m \<and> bit y (n + k)" by (intro exI [of _ "m + k"]) (simp add: ac_simps)
  next
    assume "\<exists>k. m \<le> k \<and> k < m + m \<and> bit y (n + k)"
    then obtain k where "m \<le> k" "k < m + m" "bit y (n + k)" by blast
    then show "\<exists>k < m. bit y (m + n + k)" by (intro exI [of _ "k - m"]) (simp add: ac_simps)
  qed
  then show ?thesis using assms [of n] assms [of "m + n"]
    by (auto simp: bit_or_iff bit_drop_bit_eq intro: trans_less_add1) (metis not_less)+
qed

lemma smear_bits: "bit (smear y) n \<longleftrightarrow> (\<exists>k < 32. bit y (n + k))"
proof -
  have 1: "bit y n \<longleftrightarrow> (\<exists>k < 1. bit y (n + k))" for n by auto
  note 2 = or_shift_bits [OF 1]
  note 3 = or_shift_bits [OF 2]
  note 4 = or_shift_bits [OF 3]
  note 5 = or_shift_bits [OF 4]
  note 6 = or_shift_bits [OF 5]
  from 6 show ?thesis by (simp add: smear_def numeral_eq_Suc)
qed

lemma top_bit:
  fixes x :: ucell
  assumes "2 ^ p \<le> unat x" and "unat x < 2 ^ Suc p"
  shows "bit x p" and "p < n \<Longrightarrow> \<not> bit x n" and "p < 32"
proof -
  have "unat x < 2 ^ 32" using unsigned_less [of x, where ?'a = nat] by simp
  then have "2 ^ p < (2 :: nat) ^ 32" using assms(1) by (rule le_less_trans [rotated])
  from power_less_imp_less_exp [OF _ this] show p: "p < 32" by simp
  have "unat x div 2 ^ p = 1" using assms by (intro div_nat_eqI) simp_all
  then have "bit (unat x) p" by (simp add: bit_iff_odd)
  then show "bit x p" by (simp add: bit_unsigned_iff)
  show "\<not> bit x n" if "p < n"
  proof
    assume "bit x n"
    then have "bit (unat x) n" by (auto simp: bit_unsigned_iff dest: bit_imp_le_length)
    then have "odd (unat x div 2 ^ n)" by (simp add: bit_iff_odd)
    then have "0 < unat x div 2 ^ n" by (rule odd_pos)
    then have "2 ^ n \<le> unat x" by (metis div_less less_irrefl not_less)
    moreover have "2 ^ Suc p \<le> (2 :: nat) ^ n" using that by (intro power_increasing) simp_all
    ultimately show False using assms(2) by simp
  qed
qed

lemma smear_top:
  fixes x :: ucell
  assumes "2 ^ p \<le> unat x" and "unat x < 2 ^ Suc p"
  shows "smear x = mask (Suc p)"
proof (rule bit_word_eqI)
  fix n
  assume n: "n < LENGTH(32)"
  note t = top_bit [OF assms]
  have "(\<exists>k < 32. bit x (n + k)) \<longleftrightarrow> n \<le> p"
  proof
    assume "\<exists>k < 32. bit x (n + k)"
    then obtain k where "bit x (n + k)" by blast
    then show "n \<le> p" using t(2) [of "n + k"] by (metis le_add1 le_trans not_less)
  next
    assume "n \<le> p"
    then show "\<exists>k < 32. bit x (n + k)" using t(1,3) by (intro exI [of _ "p - n"]) simp
  qed
  then show "bit (smear x) n \<longleftrightarrow> bit (mask (Suc p) :: ucell) n"
    using n by (simp add: smear_bits bit_mask_iff less_Suc_eq_le)
qed

lemma unat_pow: "p < 32 \<Longrightarrow> unat (2 ^ p :: ucell) = 2 ^ p"
proof -
  assume "p < 32"
  then have "(2 :: nat) ^ p < 2 ^ LENGTH(32)" by (intro power_strict_increasing) simp_all
  then have "unat (of_nat (2 ^ p) :: ucell) = 2 ^ p" by (rule unat_of_nat_small)
  then show ?thesis by simp
qed

lemma low_bit_power:
  fixes x :: ucell
  assumes "x AND (x - 1) = 0" and "2 ^ p \<le> unat x" and "unat x < 2 ^ Suc p"
  shows "x = 2 ^ p"
proof (rule ccontr)
  assume "x \<noteq> 2 ^ p"
  note t = top_bit [OF assms(2,3)]
  have "unat x \<noteq> 2 ^ p" using \<open>x \<noteq> 2 ^ p\<close> unat_pow [OF t(3)] by (metis word_unat_eq_iff)
  then have lt: "2 ^ p < unat x" using assms(2) by simp
  have "x \<noteq> 0" using assms(2) by (auto simp: not_le)
  then have u: "unat (x - 1) = unat x - 1" by (simp add: unat_minus_one)
  have "bit (x - 1) p" by (rule top_bit(1)) (use lt assms(3) u in simp_all)
  then have "bit (x AND (x - 1)) p" using t(1) by (simp add: bit_and_iff)
  then show False using assms(1) by simp
qed

text \<open>The alignment \<open>find_area\<close> works with is the least power of two, at least a page, not below the request.\<close>

lemma round_align_power:
  assumes "unat align \<le> 2 ^ 31"
  shows "\<exists>p. 12 \<le> p \<and> p \<le> 31 \<and> round_align align = 2 ^ p \<and> unat align \<le> 2 ^ p \<and> 2 ^ p < 2 * max 4096 (unat align)"
proof -
  define x where "x = (if align < PAGE_SIZE then PAGE_SIZE else align)"
  have ux: "unat x = max 4096 (unat align)" by (auto simp: x_def word_less_nat_alt)
  have ra: "round_align align = (if x AND (x - 1) \<noteq> 0 then smear (x - 1) + 1 else x)"
    by (simp add: round_align_def x_def Let_def)
  have x0: "x \<noteq> 0" using ux by auto
  have "1 \<le> unat x" using ux by simp
  then obtain p where p: "2 ^ p \<le> unat x" "unat x < 2 ^ Suc p"
    using ex_power_ivl1 [of 2 "unat x"] by auto
  have p12: "12 \<le> p"
  proof (rule ccontr)
    assume "\<not> 12 \<le> p"
    then have "2 ^ Suc p \<le> (2 :: nat) ^ 12" by (intro power_increasing) simp_all
    then show False using p(2) ux by simp
  qed
  show ?thesis
  proof (cases "x AND (x - 1) = 0")
    case True
    have "x = 2 ^ p" by (rule low_bit_power [OF True p])
    moreover have "p \<le> 31" using top_bit(3) [OF p] by simp
    ultimately show ?thesis using ra True ux p12 unat_pow [of p] by (intro exI [of _ p]) (auto simp: max_def split: if_splits)
  next
    case False
    have ne: "unat x \<noteq> 2 ^ p"
    proof
      assume "unat x = 2 ^ p"
      then have "x = 2 ^ p" using unat_pow top_bit(3) [OF p] by (metis word_unat_eq_iff)
      then have "x AND (x - 1) = 0" by (simp add: mask_eq_exp_minus_1 [symmetric] and_exp_eq_0_iff_not_bit bit_mask_iff and.commute)
      then show False using False by simp
    qed
    have u: "unat (x - 1) = unat x - 1" using x0 by (simp add: unat_minus_one)
    have "smear (x - 1) = mask (Suc p)" by (rule smear_top) (use p ne u in simp_all)
    then have r: "round_align align = 2 ^ Suc p" using ra False by (simp add: mask_eq_exp_minus_1)
    have "unat x \<noteq> 2 ^ 31"
    proof
      assume e: "unat x = 2 ^ 31"
      then have "p = 31"
        using p power_less_imp_less_exp [of "2 :: nat" 31 "Suc p"] power_le_imp_le_exp [of "2 :: nat" p 31] by simp
      then show False using ne e by simp
    qed
    then have "unat x < 2 ^ 31" using assms ux by simp
    then have "2 ^ p < (2 :: nat) ^ 31" using p(1) by (rule le_less_trans [rotated])
    from power_less_imp_less_exp [OF _ this] have "p < 31" by simp
    then show ?thesis using r p ne ux p12 by (intro exI [of _ "Suc p"]) (auto simp: max_def split: if_splits)
  qed
qed

subsection \<open>The search for an area\<close>

definition aligned_to :: "nat \<Rightarrow> ucell \<Rightarrow> bool" where
  "aligned_to p b \<longleftrightarrow> take_bit p b = 0"

lemma aligned_and_not: "aligned_to p (b AND NOT (2 ^ p - 1 :: ucell))"
  unfolding aligned_to_def mask_pow by (rule bit_word_eqI) (auto simp: bit_simps)

lemma and_not_le: "b AND NOT m \<le> (b :: ucell)"
  by (rule word_and_le2)

text \<open>A downward search stays below \<open>mx - sz\<close> and yields a free, aligned area or -1.\<close>

lemma find_down_result:
  assumes "unat sz \<le> unat mx"
  shows "find_down (2 ^ p) sz r mx base rp = b \<Longrightarrow> b = - 1 \<or>
    is_free b sz r \<and> aligned_to p b \<and> unat b + unat sz \<le> unat mx"
proof (induction rp arbitrary: base)
  define down where "down base = (if mx - sz < base then mx - sz else base) AND NOT (2 ^ p - 1)" for base
  have step: "find_down (2 ^ p) sz r mx base rp = (if is_free (down base) sz r then down base
      else case rp of [] \<Rightarrow> - 1 | x # xs \<Rightarrow> find_down (2 ^ p) sz r mx (rg_start x - sz) xs)" for base rp
    by (subst find_down.simps) (simp add: Let_def align_down down_def)
  have "down base \<le> mx - sz" for base
    unfolding down_def by (rule order_trans [OF and_not_le]) (simp add: not_less)
  then have d: "unat (down base) + unat sz \<le> unat mx" "aligned_to p (down base)" for base
    using assms by (auto simp: word_le_nat_alt unat_diff le_diff_conv2 down_def aligned_and_not)
  {
    case Nil
    then show ?case using d [of base] step [of base "[]"] by (auto split: if_splits)
  next
    case (Cons x xs)
    then show ?case using d [of base] step [of base "x # xs"] by (auto split: if_splits)
  }
qed

text \<open>
  An upward search yields -1 or a free area at or above \<open>mn\<close> whose end is below \<open>mx\<close> (below the end of the address
  space, when \<open>mx\<close> is 0), and which is aligned or starts at \<open>mn\<close>. The bound \<open>t\<close> on \<open>mn\<close> and the ranges keeps the
  candidates from wrapping around.
\<close>

lemma align_up_bounds:
  fixes b :: ucell
  assumes "p < 32" and "unat b + 2 ^ p \<le> 2 ^ 32"
  shows "unat ((b + 2 ^ p - 1) AND NOT (2 ^ p - 1)) \<le> unat b + 2 ^ p - 1"
proof -
  have "unat (b + 2 ^ p - 1) = unat b + unat (2 ^ p :: ucell) - 1"
    using assms by (intro unat_last) (simp_all add: unat_pow)
  then show ?thesis
    using and_not_le [of "b + 2 ^ p - 1" "2 ^ p - 1"] assms(1) by (simp add: word_le_nat_alt unat_pow)
qed

definition up_limit :: "ucell \<Rightarrow> nat" where
  "up_limit mx = (if mx = 0 then 2 ^ 32 else unat mx)"

lemma up_limit_last: "unat (mx - 1) = up_limit mx - 1" "0 < up_limit mx"
proof -
  have "(- 1 :: ucell) = 0xFFFFFFFF" by simp
  then have "unat (- 1 :: ucell) = 2 ^ 32 - 1" by (simp only:) simp
  then show "unat (mx - 1) = up_limit mx - 1" "0 < up_limit mx"
    by (auto simp: up_limit_def unat_minus_one unat_gt_0)
qed

lemma find_up_result:
  assumes p: "p < 32" and mn: "unat mn \<le> t" and t: "t + 2 ^ p + unat sz \<le> 2 ^ 32" and sz: "sz \<noteq> 0"
  shows "find_up (2 ^ p) sz r mn mx base r2 = b \<Longrightarrow> unat base \<le> t \<Longrightarrow>
    list_all (\<lambda>x. unat (rg_start x) + unat (rg_size x) \<le> t) r2 \<Longrightarrow> b = - 1 \<or>
    is_free b sz r \<and> (aligned_to p b \<or> b = mn) \<and> unat mn \<le> unat b \<and> unat b + unat sz < up_limit mx \<and> unat b + unat sz \<le> 2 ^ 32"
proof (induction r2 arbitrary: base)
  define up where "up base = (let b = (base + 2 ^ p - 1) AND NOT (2 ^ p - 1) in if b < mn then mn else b)" for base
  have step: "find_up (2 ^ p) sz r mn mx base r2 = (if mx - 1 \<le> up base + sz - 1 then - 1
      else if is_free (up base) sz r then up base
      else case r2 of [] \<Rightarrow> - 1 | x # xs \<Rightarrow> find_up (2 ^ p) sz r mn mx (rg_start x + rg_size x) xs)" for base r2
    by (subst find_up.simps) (simp add: Let_def up_def)
  have al: "aligned_to p (up base) \<or> up base = mn" "unat mn \<le> unat (up base)" for base
    using aligned_and_not by (auto simp: up_def Let_def word_less_nat_alt)
  have p1: "1 \<le> (2 :: nat) ^ p" by simp
  have hi: "unat (up base) + unat sz < up_limit mx \<and> unat (up base) + unat sz \<le> 2 ^ 32"
    if b: "unat base \<le> t" and c: "\<not> mx - 1 \<le> up base + sz - 1" for base
  proof -
    have "unat mn \<le> t + 2 ^ p - 1" using p1 mn by linarith
    moreover have "unat ((base + 2 ^ p - 1) AND NOT (2 ^ p - 1)) \<le> t + 2 ^ p - 1"
      using align_up_bounds [OF p, of base] t b p1 by linarith
    ultimately have "unat (up base) \<le> t + 2 ^ p - 1" by (simp add: up_def Let_def)
    then have w: "unat (up base) + unat sz \<le> 2 ^ 32" using t by (simp add: le_diff_conv2)
    then have "unat (up base + sz - 1) = unat (up base) + unat sz - 1" by (rule unat_last [OF sz])
    moreover have "0 < unat sz" using sz by (simp add: unat_gt_0)
    ultimately show ?thesis using c w up_limit_last [of mx] by (simp add: word_le_nat_alt)
  qed
  {
    case Nil
    then show ?case using al [of base] hi [of base] step [of base "[]"] by (auto split: if_splits)
  next
    case (Cons x xs)
    have "0 < unat sz" using sz by (simp add: unat_gt_0)
    then have "unat (rg_start x + rg_size x) = unat (rg_start x) + unat (rg_size x)"
      using Cons.prems(3) t by (intro unat_add_no_wrap) auto
    then show ?case
      using Cons al [of base] hi [of base] step [of base "x # xs"] by (auto split: if_splits)
  }
qed



end
