(* ===== verification/Ofmem.thy ===== *)
theory Ofmem
  imports Ofmem_Ranges
begin

text \<open>
  The memory manager of \<open>libopenbios/ofmem_common.c\<close>: claims of physical, virtual and I/O ranges,
  virtual-to-physical translations, and the properties that publish them; with the hooks and the
  page-fault path of \<open>arch/ppc/wii/ofmem.c\<close>.

  The state extends the heap's by the fields of \<open>ofmem_t\<close> and the static variables. A linked list of
  nodes is a list of records, each with the address \<open>malloc\<close> gave for its node; the fields of the nodes
  live in the records, the property buffers and the hash table live in memory. Using the result of
  a failed \<open>malloc\<close> as a node is undefined (\<open>None\<close>).
\<close>

subsection \<open>State\<close>

record translation =
  tr_node :: ucell
  tr_virt :: ucell
  tr_size :: ucell
  tr_phys :: ucell
  tr_mode :: ucell

record 'w ofmem = "'w heap" +
  ramsize :: ucell
  phys_range :: "range list"
  virt_range :: "range list"
  io_range :: "range list"
  trans :: "translation list"
  s_phandle_memory :: ucell
  s_phandle_mmu :: ucell
  trans_prop :: ucell
  trans_prop_size :: int
  trans_prop_used :: int
  phys_range_prop :: ucell
  phys_range_prop_size :: int
  phys_range_prop_used :: int
  virt_range_prop :: ucell
  virt_range_prop_size :: int
  virt_range_prop_used :: int
  next_grab_slot :: int

abbreviation sizeof_range :: ucell where "sizeof_range \<equiv> 12"
abbreviation sizeof_translation :: ucell where "sizeof_translation \<equiv> 20"

definition get_ram_size :: "'w ofmem \<Rightarrow> ucell" where
  "get_ram_size s = ramsize s"

text \<open>A node: the address \<open>malloc\<close> gives, which the caller uses without a test.\<close>

definition new_node :: "'w ofenv \<Rightarrow> ucell \<Rightarrow> 'w ofmem \<Rightarrow> (ucell \<times> 'w ofmem) option" where
  "new_node e sz s = do { (p, s) \<leftarrow> ofmem_malloc e sz s; if p = 0 then None else Some (p, s) }"

subsection \<open>Hooks of the Wii port\<close>

abbreviation IO_BASE :: ucell where "IO_BASE \<equiv> 0x80000000"
abbreviation OF_CODE_START :: ucell where "OF_CODE_START \<equiv> 0x11000000"
abbreviation WII_IO_BASE :: ucell where "WII_IO_BASE \<equiv> 0x0c000000"
abbreviation WII_MEM2_BASE :: ucell where "WII_MEM2_BASE \<equiv> 0x10000000"
abbreviation CAFE_GFX_BASE :: ucell where "CAFE_GFX_BASE \<equiv> 0x8f000000"
abbreviation FREE_BASE_1 :: ucell where "FREE_BASE_1 \<equiv> 0x4000"
abbreviation SEGR_BASE :: ucell where "SEGR_BASE \<equiv> 0x400"

definition is_wii_rvl :: "'w ofenv \<Rightarrow> bool" where
  "is_wii_rvl e \<longleftrightarrow> of_platform e = WII_RVL"

definition is_wii_cafe :: "'w ofenv \<Rightarrow> bool" where
  "is_wii_cafe e \<longleftrightarrow> of_platform e = WII_CAFE"

definition ofmem_arch_get_virt_top :: ucell where
  "ofmem_arch_get_virt_top = IO_BASE"

definition ofmem_arch_unmap_pages :: "ucell \<Rightarrow> ucell \<Rightarrow> 'w ofmem \<Rightarrow> 'w ofmem" where
  "ofmem_arch_unmap_pages virt sz s = s"

definition ofmem_arch_map_pages :: "ucell \<Rightarrow> ucell \<Rightarrow> ucell \<Rightarrow> ucell \<Rightarrow> 'w ofmem \<Rightarrow> 'w ofmem" where
  "ofmem_arch_map_pages phys virt sz mode s = s"

definition ofmem_arch_get_iomem_base :: ucell where
  "ofmem_arch_get_iomem_base = 0"

definition ofmem_arch_get_iomem_top :: ucell where
  "ofmem_arch_get_iomem_top = 0"

definition ofmem_arch_get_retained :: ucell where
  "ofmem_arch_get_retained = 0"

definition ofmem_arch_get_physaddr_cellsize :: nat where
  "ofmem_arch_get_physaddr_cellsize = 1"

definition ofmem_arch_encode_physaddr :: "memory \<Rightarrow> ucell \<Rightarrow> ucell \<Rightarrow> (nat \<times> memory) option" where
  "ofmem_arch_encode_physaddr m p v = do { m \<leftarrow> write_ucell m p v; Some (1, m) }"

definition ofmem_arch_get_translation_entry_size :: nat where
  "ofmem_arch_get_translation_entry_size = 3 + ofmem_arch_get_physaddr_cellsize"

definition ofmem_arch_create_translation_entry :: "memory \<Rightarrow> ucell \<Rightarrow> translation \<Rightarrow> memory option" where
  "ofmem_arch_create_translation_entry m transentry t =
     do { m \<leftarrow> write_ucell m transentry (tr_virt t);
          m \<leftarrow> write_ucell m (transentry + 4) (tr_size t);
          (n, m) \<leftarrow> ofmem_arch_encode_physaddr m (transentry + 8) (tr_phys t);
          write_ucell m (transentry + 8 + of_nat (4 * n)) (tr_mode t) }"

definition ofmem_arch_get_available_entry_size :: "ucell \<Rightarrow> 'w ofmem \<Rightarrow> nat" where
  "ofmem_arch_get_available_entry_size ph s =
     (if ph = s_phandle_memory s then 1 + ofmem_arch_get_physaddr_cellsize else 1 + 1)"

definition ofmem_arch_create_available_entry :: "ucell \<Rightarrow> 'w ofmem \<Rightarrow> ucell \<Rightarrow> ucell \<Rightarrow> ucell \<Rightarrow> memory option" where
  "ofmem_arch_create_available_entry ph s availentry start sz =
     do { (i, m) \<leftarrow> (if ph = s_phandle_memory s then ofmem_arch_encode_physaddr (hmem s) availentry start
                     else do { m \<leftarrow> write_ucell (hmem s) availentry start; Some (1, m) });
          write_ucell m (availentry + of_nat (4 * i)) sz }"

definition ofmem_arch_default_translation_mode :: "'w ofenv \<Rightarrow> ucell \<Rightarrow> ucell" where
  "ofmem_arch_default_translation_mode e phys =
     (if WII_IO_BASE \<le> phys \<and> phys < WII_MEM2_BASE then 0x6a
      else if (is_wii_cafe e \<and> CAFE_GFX_BASE \<le> phys) \<or> (is_wii_rvl e \<and> WII_MEM2_BASE \<le> phys \<and> phys < OF_CODE_START) then 0x6a
      else if phys < IO_BASE \<or> 0xffc00000 \<le> phys then 0x02
      else 0x6a)"

definition ofmem_arch_io_translation_mode :: "ucell \<Rightarrow> ucell" where
  "ofmem_arch_io_translation_mode phys = 0x6a"

subsection \<open>Properties\<close>

definition ofmem_set_property :: "'w ofenv \<Rightarrow> ucell \<Rightarrow> string \<Rightarrow> ucell \<Rightarrow> ucell \<Rightarrow> 'w ofmem \<Rightarrow> 'w ofmem" where
  "ofmem_set_property e ph name buf len s =
     (if ph = 0 then s\<lparr>hworld := of_printk e ''ofmem_set_property: NULL phandle\<newline>'' [] (hworld s)\<rparr>
      else s\<lparr>hworld := of_encode_property e (hmem s) buf len name ph (hworld s)\<rparr>)"

text \<open>
  The loop that doubles a buffer's size until the property fits. It does not end when the size is not
  positive; an \<open>int\<close> that overflows is undefined.
\<close>

partial_function (option) grow_prop :: "int \<Rightarrow> int \<Rightarrow> int option" where
  "grow_prop prop_size prop_used =
     (if prop_size < prop_used
      then (if 2 ^ 31 \<le> prop_size * 2 then None else grow_prop (prop_size * 2) prop_used)
      else Some prop_size)"

fun put_translations :: "memory \<Rightarrow> ucell \<Rightarrow> nat \<Rightarrow> translation list \<Rightarrow> (nat \<times> memory) option" where
  "put_translations m prop ncells [] = Some (ncells, m)"
| "put_translations m prop ncells (t # ts) =
     do { m \<leftarrow> ofmem_arch_create_translation_entry m (prop + of_nat (4 * ncells)) t;
          put_translations m prop (ncells + ofmem_arch_get_translation_entry_size) ts }"

definition ofmem_update_mmu_translations :: "'w ofenv \<Rightarrow> 'w ofmem \<Rightarrow> 'w ofmem option" where
  "ofmem_update_mmu_translations e s =
     (if s_phandle_mmu s = 0 then Some s
      else do {
        let prop_used = sint (of_nat (length (trans s)) * 4 * of_nat ofmem_arch_get_translation_entry_size :: u32);
        s \<leftarrow> (if trans_prop_size s < prop_used
              then do { prop_size \<leftarrow> grow_prop (trans_prop_size s) prop_used;
                        (p, s) \<leftarrow> ofmem_realloc e (trans_prop s) (word_of_int prop_size) s;
                        Some (s\<lparr>trans_prop := p, trans_prop_size := prop_size, trans_prop_used := prop_used\<rparr>) }
              else Some s);
        if trans_prop s = 0
        then Some (s\<lparr>hworld := of_printk e ''Unable to allocate memory for translations property!\<newline>'' [] (hworld s)\<rparr>)
        else do { (ncells, m) \<leftarrow> put_translations (hmem s) (trans_prop s) 0 (trans s);
                  Some (ofmem_set_property e (s_phandle_mmu s) ''translations'' (trans_prop s) (of_nat (4 * ncells)) (s\<lparr>hmem := m\<rparr>)) } })"

text \<open>
  The gaps between the ranges, up to \<open>top_address\<close>, which callers pass as a 32-bit value. \<open>start\<close> is
  the end of the range before.
\<close>

fun put_available :: "ucell \<Rightarrow> ucell \<Rightarrow> ucell \<Rightarrow> ucell \<Rightarrow> nat \<Rightarrow> range list \<Rightarrow> 'w ofmem \<Rightarrow> (ucell \<times> nat \<times> 'w ofmem) option" where
  "put_available ph prop tp start ncells [] s = Some (start, ncells, s)"
| "put_available ph prop tp start ncells (r # rs) s =
     (if tp \<le> rg_start r then Some (start, ncells, s)
      else do {
        let sz = rg_start r - start;
        (ncells, s) \<leftarrow> (if sz \<noteq> 0
            then do { m \<leftarrow> ofmem_arch_create_available_entry ph s (prop + of_nat (4 * ncells)) start sz;
                      Some (ncells + ofmem_arch_get_available_entry_size ph s, s\<lparr>hmem := m\<rparr>) }
            else Some (ncells, s));
        put_available ph prop tp (rg_start r + rg_size r) ncells rs s })"

text \<open>
  \<open>ofmem_update_memory_available\<close>; the buffer, its size and the number of bytes used are the static
  variables whose addresses the C function takes, handed in and returned.
\<close>

definition ofmem_update_memory_available ::
  "'w ofenv \<Rightarrow> ucell \<Rightarrow> range list \<Rightarrow> ucell \<times> int \<times> int \<Rightarrow> ucell \<Rightarrow> 'w ofmem \<Rightarrow> ((ucell \<times> int \<times> int) \<times> 'w ofmem) option" where
  "ofmem_update_memory_available e ph rng mem_prop top_address s =
     (if s_phandle_memory s = 0 then Some (mem_prop, s)
      else do {
        let (prop, mem_prop_size, mem_prop_used) = mem_prop;
        let prop_used = sint (of_nat (length rng + 1) * 4 * of_nat (ofmem_arch_get_available_entry_size ph s) + 1 :: u32);
        ((prop, mem_prop_size, mem_prop_used), s) \<leftarrow>
          (if mem_prop_size < prop_used
           then do { prop_size \<leftarrow> grow_prop mem_prop_size prop_used;
                     (p, s) \<leftarrow> ofmem_realloc e prop (word_of_int prop_size) s;
                     Some ((p, prop_size, prop_used), s) }
           else Some ((prop, mem_prop_size, mem_prop_used), s));
        if prop = 0
        then Some ((prop, mem_prop_size, mem_prop_used),
                   s\<lparr>hworld := of_printk e ''Unable to allocate memory for memory range property!\<newline>'' [] (hworld s)\<rparr>)
        else do {
          (start, ncells, s) \<leftarrow> put_available ph prop top_address 0 0 rng s;
          (ncells, s) \<leftarrow> (if start - 1 < top_address
              then do { m \<leftarrow> ofmem_arch_create_available_entry ph s (prop + of_nat (4 * ncells)) start (top_address - start + 1);
                        Some (ncells + ofmem_arch_get_available_entry_size ph s, s\<lparr>hmem := m\<rparr>) }
              else Some (ncells, s));
          Some ((prop, mem_prop_size, mem_prop_used),
                ofmem_set_property e ph ''available'' prop (of_nat (4 * ncells)) s) } })"

definition ofmem_update_translations :: "'w ofenv \<Rightarrow> 'w ofmem \<Rightarrow> 'w ofmem option" where
  "ofmem_update_translations e s =
     do { ((p, z, u), s) \<leftarrow> ofmem_update_memory_available e (s_phandle_memory s) (phys_range s)
             (phys_range_prop s, phys_range_prop_size s, phys_range_prop_used s) (get_ram_size s - 1) s;
          let s = s\<lparr>phys_range_prop := p, phys_range_prop_size := z, phys_range_prop_used := u\<rparr>;
          ((p, z, u), s) \<leftarrow> ofmem_update_memory_available e (s_phandle_mmu s) (virt_range s)
             (virt_range_prop s, virt_range_prop_size s, virt_range_prop_used s) (ofmem_arch_get_virt_top - 1) s;
          let s = s\<lparr>virt_range_prop := p, virt_range_prop_size := z, virt_range_prop_used := u\<rparr>;
          ofmem_update_mmu_translations e s }"

subsection \<open>Claims\<close>

text \<open>
  Each list of ranges is a field of the state; \<open>(get, put)\<close> stands for the \<open>range_t **\<close> argument.
\<close>

type_synonym 'w rlist = "('w ofmem \<Rightarrow> range list) \<times> (range list \<Rightarrow> 'w ofmem \<Rightarrow> 'w ofmem)"

abbreviation phys_r :: "'w rlist" where "phys_r \<equiv> (phys_range, \<lambda>rs. phys_range_update (\<lambda>_. rs))"
abbreviation virt_r :: "'w rlist" where "virt_r \<equiv> (virt_range, \<lambda>rs. virt_range_update (\<lambda>_. rs))"
abbreviation io_r :: "'w rlist" where "io_r \<equiv> (io_range, \<lambda>rs. io_range_update (\<lambda>_. rs))"

definition add_entry_raw :: "'w ofenv \<Rightarrow> ucell \<Rightarrow> ucell \<Rightarrow> 'w rlist \<Rightarrow> 'w ofmem \<Rightarrow> 'w ofmem option" where
  "add_entry_raw e ea sz r s =
     do { (nr, s) \<leftarrow> new_node e sizeof_range s;
          Some (snd r (insert_range \<lparr>rg_node = nr, rg_start = ea, rg_size = sz\<rparr> (fst r s)) s) }"

definition add_entry :: "'w ofenv \<Rightarrow> ucell \<Rightarrow> ucell \<Rightarrow> 'w rlist \<Rightarrow> 'w ofmem \<Rightarrow> (int \<times> 'w ofmem) option" where
  "add_entry e ea sz r s =
     (if \<not> is_free ea sz (fst r s) then Some (- 1, s)
      else do { s \<leftarrow> add_entry_raw e ea sz r s; Some (0, s) })"

definition ofmem_claim_phys_raw ::
  "'w ofenv \<Rightarrow> ucell \<Rightarrow> ucell \<Rightarrow> ucell \<Rightarrow> ucell \<Rightarrow> ucell \<Rightarrow> bool \<Rightarrow> 'w ofmem \<Rightarrow> (ucell \<times> 'w ofmem) option" where
  "ofmem_claim_phys_raw e phys sz align mn mx reverse s =
     (if align = 0
      then if \<not> is_free phys sz (phys_range s) then Some (- 1, s)
           else do { (_, s) \<leftarrow> add_entry e phys sz phys_r s; s \<leftarrow> ofmem_update_translations e s; Some (phys, s) }
      else let phys = find_area align sz (phys_range s) mn mx reverse
           in if phys = - 1
              then Some (- 1, s\<lparr>hworld := of_printk e ''ofmem_claim_phys - out of space (failed request for %08x bytes)\<newline>'' [sz] (hworld s)\<rparr>)
              else do { (_, s) \<leftarrow> add_entry e phys sz phys_r s; s \<leftarrow> ofmem_update_translations e s; Some (phys, s) })"

definition ofmem_claim_phys :: "'w ofenv \<Rightarrow> ucell \<Rightarrow> ucell \<Rightarrow> ucell \<Rightarrow> 'w ofmem \<Rightarrow> (ucell \<times> 'w ofmem) option" where
  "ofmem_claim_phys e phys sz align s = ofmem_claim_phys_raw e phys sz align 0 (get_ram_size s) True s"

definition ofmem_claim_virt_raw ::
  "'w ofenv \<Rightarrow> ucell \<Rightarrow> ucell \<Rightarrow> ucell \<Rightarrow> ucell \<Rightarrow> ucell \<Rightarrow> bool \<Rightarrow> 'w ofmem \<Rightarrow> (ucell \<times> 'w ofmem) option" where
  "ofmem_claim_virt_raw e virt sz align mn mx reverse s =
     (if align = 0
      then if \<not> is_free virt sz (virt_range s) then Some (- 1, s)
           else do { (_, s) \<leftarrow> add_entry e virt sz virt_r s; s \<leftarrow> ofmem_update_translations e s; Some (virt, s) }
      else let virt = find_area align sz (virt_range s) mn mx reverse
           in if virt = - 1
              then Some (- 1, s\<lparr>hworld := of_printk e ''ofmem_claim_virt - out of space (failed request for %08x bytes)\<newline>'' [sz] (hworld s)\<rparr>)
              else do { (_, s) \<leftarrow> add_entry e virt sz virt_r s; s \<leftarrow> ofmem_update_translations e s; Some (virt, s) })"

definition ofmem_claim_virt :: "'w ofenv \<Rightarrow> ucell \<Rightarrow> ucell \<Rightarrow> ucell \<Rightarrow> 'w ofmem \<Rightarrow> (ucell \<times> 'w ofmem) option" where
  "ofmem_claim_virt e virt sz align s =
     ofmem_claim_virt_raw e virt sz align (get_ram_size s) ofmem_arch_get_virt_top True s"

definition ofmem_claim_io_raw ::
  "'w ofenv \<Rightarrow> ucell \<Rightarrow> ucell \<Rightarrow> ucell \<Rightarrow> ucell \<Rightarrow> ucell \<Rightarrow> bool \<Rightarrow> 'w ofmem \<Rightarrow> (ucell \<times> 'w ofmem) option" where
  "ofmem_claim_io_raw e virt sz align mn mx reverse s =
     (if align = 0
      then if \<not> is_free virt sz (io_range s) then Some (- 1, s)
           else do { (_, s) \<leftarrow> add_entry e virt sz io_r s; Some (virt, s) }
      else let virt = find_area align sz (io_range s) mn mx reverse
           in if virt = - 1
              then Some (- 1, s\<lparr>hworld := of_printk e ''ofmem_claim_io - out of space (failed request for %08x bytes)\<newline>'' [sz] (hworld s)\<rparr>)
              else do { (_, s) \<leftarrow> add_entry e virt sz io_r s; Some (virt, s) })"

definition ofmem_claim_io :: "'w ofenv \<Rightarrow> ucell \<Rightarrow> ucell \<Rightarrow> ucell \<Rightarrow> 'w ofmem \<Rightarrow> (ucell \<times> 'w ofmem) option" where
  "ofmem_claim_io e virt sz align s =
     ofmem_claim_io_raw e virt sz align ofmem_arch_get_iomem_base ofmem_arch_get_iomem_top False s"

text \<open>\<open>retain_t\<close>: a magic number, the count of entries, then up to eight nodes of three cells.\<close>

definition ofmem_retain :: "'w ofenv \<Rightarrow> ucell \<Rightarrow> ucell \<Rightarrow> ucell \<Rightarrow> 'w ofmem \<Rightarrow> (ucell \<times> 'w ofmem) option" where
  "ofmem_retain e phys sz align s =
     do { let retained = ofmem_arch_get_retained;
          (retain_phys, s) \<leftarrow> ofmem_claim_phys_raw e phys sz align 0 (get_ram_size s) True s;
          n \<leftarrow> read_ucell (hmem s) (retained + 4);
          let ent = retained + 8 + n * sizeof_range;
          m \<leftarrow> write_ucell (hmem s) ent 0;
          m \<leftarrow> write_ucell m (ent + 4) retain_phys;
          m \<leftarrow> write_ucell m (ent + 8) sz;
          n \<leftarrow> read_ucell m (retained + 4);
          m \<leftarrow> write_ucell m (retained + 4) (n + 1);
          Some (retain_phys, s\<lparr>hmem := m\<rparr>) }"

subsection \<open>Translations\<close>

fun split_loop :: "'w ofenv \<Rightarrow> ucell \<Rightarrow> translation list \<Rightarrow> 'w ofmem \<Rightarrow> (translation list \<times> 'w ofmem) option" where
  "split_loop e virt [] s = Some ([], s)"
| "split_loop e virt (t # ts) s =
     (if tr_virt t < virt \<and> virt < tr_virt t + tr_size t - 1
      then do { (u, s) \<leftarrow> new_node e sizeof_translation s;
                let t2 = \<lparr>tr_node = u, tr_virt = virt, tr_size = tr_size t - (virt - tr_virt t),
                          tr_phys = tr_phys t + (virt - tr_virt t), tr_mode = tr_mode t\<rparr>;
                (ts, s) \<leftarrow> split_loop e virt ts s;
                Some (t\<lparr>tr_size := virt - tr_virt t\<rparr> # t2 # ts, s) }
      else do { (ts, s) \<leftarrow> split_loop e virt ts s; Some (t # ts, s) })"

definition split_trans :: "'w ofenv \<Rightarrow> ucell \<Rightarrow> 'w ofmem \<Rightarrow> 'w ofmem option" where
  "split_trans e virt s = do { (ts, s) \<leftarrow> split_loop e virt (trans s) s; Some (s\<lparr>trans := ts\<rparr>) }"

text \<open>
  The loop over remappings: each translation that starts in the new range is unlinked and freed. The C
  loop starts over at the head after each; what it passes again it has found not to match.
\<close>

definition remapped :: "ucell \<Rightarrow> ucell \<Rightarrow> translation \<Rightarrow> bool" where
  "remapped virt sz t \<longleftrightarrow> virt = tr_virt t \<or> (virt < tr_virt t \<and> tr_virt t < virt + sz)"

fun drop_remapped :: "ucell \<Rightarrow> ucell \<Rightarrow> translation list \<Rightarrow> 'w ofmem \<Rightarrow> (translation list \<times> 'w ofmem) option" where
  "drop_remapped virt sz [] s = Some ([], s)"
| "drop_remapped virt sz (t # ts) s =
     (if remapped virt sz t
      then do { s \<leftarrow> ofmem_free (tr_node t) (ofmem_arch_unmap_pages (tr_virt t) (tr_size t) s); drop_remapped virt sz ts s }
      else do { (ts, s) \<leftarrow> drop_remapped virt sz ts s; Some (t # ts, s) })"

fun insert_trans :: "translation \<Rightarrow> translation list \<Rightarrow> translation list" where
  "insert_trans n [] = [n]"
| "insert_trans n (t # ts) = (if tr_virt t < tr_virt n then t # insert_trans n ts else n # t # ts)"

definition ofmem_map_page_range :: "'w ofenv \<Rightarrow> ucell \<Rightarrow> ucell \<Rightarrow> ucell \<Rightarrow> ucell \<Rightarrow> 'w ofmem \<Rightarrow> (int \<times> 'w ofmem) option" where
  "ofmem_map_page_range e phys virt sz mode s =
     do { s \<leftarrow> split_trans e virt s;
          s \<leftarrow> split_trans e (virt + sz) s;
          (ts, s) \<leftarrow> drop_remapped virt sz (trans s) s;
          (t, s) \<leftarrow> new_node e sizeof_translation (s\<lparr>trans := ts\<rparr>);
          let s = s\<lparr>trans := insert_trans \<lparr>tr_node = t, tr_virt = virt, tr_size = sz, tr_phys = phys, tr_mode = mode\<rparr> (trans s)\<rparr>;
          s \<leftarrow> ofmem_update_translations e s;
          Some (0, s) }"

text \<open>
  The loop of \<open>unmap_page_range\<close>. \<open>plink\<close> points to the link of the entry passed last, also when that
  entry was just unlinked and freed (\<open>gone\<close>): the link is still readable, but unlinking the next
  entry through it does not take that entry off the list, which then holds a freed node. The list
  is not followed from there on (\<open>None\<close>).
\<close>

fun unmap_loop :: "ucell \<Rightarrow> ucell \<Rightarrow> bool \<Rightarrow> translation list \<Rightarrow> 'w ofmem \<Rightarrow> (translation list \<times> 'w ofmem) option" where
  "unmap_loop virt sz gone [] s = Some ([], s)"
| "unmap_loop virt sz gone (t # ts) s =
     (if tr_virt t < virt + sz
      then if virt \<le> tr_virt t \<and> tr_virt t + tr_size t \<le> virt + sz
           then if gone then None
                else do { s \<leftarrow> ofmem_free (tr_node t) (ofmem_arch_unmap_pages (tr_virt t) (tr_size t) s);
                          unmap_loop virt sz True ts s }
           else do { (ts, s) \<leftarrow> unmap_loop virt sz False ts s; Some (t # ts, s) }
      else Some (t # ts, s))"

definition unmap_page_range :: "'w ofenv \<Rightarrow> ucell \<Rightarrow> ucell \<Rightarrow> 'w ofmem \<Rightarrow> (int \<times> 'w ofmem) option" where
  "unmap_page_range e virt sz s =
     do { s \<leftarrow> split_trans e virt s;
          s \<leftarrow> split_trans e (virt + sz) s;
          (ts, s) \<leftarrow> unmap_loop virt sz False (trans s) s;
          s \<leftarrow> ofmem_update_translations e (s\<lparr>trans := ts\<rparr>);
          Some (0, s) }"

definition ofmem_map :: "'w ofenv \<Rightarrow> ucell \<Rightarrow> ucell \<Rightarrow> ucell \<Rightarrow> ucell \<Rightarrow> 'w ofmem \<Rightarrow> (int \<times> 'w ofmem) option" where
  "ofmem_map e phys virt sz mode s =
     (let (phys, virt, sz) =
        (if phys AND (PAGE_SIZE - 1) \<noteq> 0 \<or> virt AND (PAGE_SIZE - 1) \<noteq> 0 \<or> sz AND (PAGE_SIZE - 1) \<noteq> 0
         then (phys AND PAGE_MASK, virt AND PAGE_MASK, (sz + (PAGE_SIZE - 1)) AND PAGE_MASK)
         else (phys, virt, sz));
        mode = (if mode = - 1 then ofmem_arch_default_translation_mode e phys else mode)
      in do { (_, s) \<leftarrow> ofmem_map_page_range e phys virt sz mode s;
              Some (0, ofmem_arch_map_pages phys virt sz mode s) })"

definition ofmem_unmap :: "'w ofenv \<Rightarrow> ucell \<Rightarrow> ucell \<Rightarrow> 'w ofmem \<Rightarrow> (int \<times> 'w ofmem) option" where
  "ofmem_unmap e virt sz s =
     (let (virt, sz) =
        (if virt AND (PAGE_SIZE - 1) \<noteq> 0 \<or> sz AND (PAGE_SIZE - 1) \<noteq> 0
         then (virt AND PAGE_MASK, (sz + (PAGE_SIZE - 1)) AND PAGE_MASK) else (virt, sz))
      in do { (_, s) \<leftarrow> unmap_page_range e virt sz s; Some (0, s) })"

definition ofmem_claim :: "'w ofenv \<Rightarrow> ucell \<Rightarrow> ucell \<Rightarrow> ucell \<Rightarrow> 'w ofmem \<Rightarrow> (ucell \<times> 'w ofmem) option" where
  "ofmem_claim e addr sz align s =
     do { let offs = addr AND (PAGE_SIZE - 1);
          (pv, s) \<leftarrow>
            (if align = 0
             then if is_free addr sz (virt_range s) \<and> is_free addr sz (phys_range s) \<and> addr < get_ram_size s
                  then do { (_, s) \<leftarrow> ofmem_claim_phys_raw e addr sz 0 0 0 False s;
                            (_, s) \<leftarrow> ofmem_claim_virt_raw e addr sz 0 0 0 False s;
                            Some (Some (addr, addr), s) }
                  else Some (None, s)
             else do { let align = (if align < PAGE_SIZE then PAGE_SIZE else align);
                       (phys, s) \<leftarrow> ofmem_claim_phys_raw e (- 1) sz align 0 (get_ram_size s) True s;
                       (virt, s) \<leftarrow> ofmem_claim_virt_raw e phys sz 0 0 0 False s;
                       Some (if phys = - 1 \<or> virt = - 1 then None else Some (phys, virt), s) });
          case pv of
            None \<Rightarrow> Some (- 1, s)
          | Some (phys, virt) \<Rightarrow>
              do { let lo = phys AND (PAGE_SIZE - 1);
                   let (phys, virt, sz) = (if lo \<noteq> 0 then (phys AND PAGE_MASK, virt - lo, sz + lo) else (phys, virt, sz));
                   let sz = (if sz AND (PAGE_SIZE - 1) \<noteq> 0 then (sz + (PAGE_SIZE - 1)) AND PAGE_MASK else sz);
                   (_, s) \<leftarrow> ofmem_map e phys virt sz (- 1) s;
                   Some (virt + offs, s) } }"

definition ofmem_map_io :: "'w ofenv \<Rightarrow> ucell \<Rightarrow> ucell \<Rightarrow> 'w ofmem \<Rightarrow> (ucell \<times> 'w ofmem) option" where
  "ofmem_map_io e phys sz s =
     do { let off = phys AND (PAGE_SIZE - 1);
          let npages = (off + sz - 1) div PAGE_SIZE + 1;
          let phys = phys AND NOT (PAGE_SIZE - 1);
          (virt, s) \<leftarrow> ofmem_claim_io e (- 1) (npages * PAGE_SIZE) PAGE_SIZE s;
          let mode = ofmem_arch_io_translation_mode off;
          (_, s) \<leftarrow> ofmem_map_page_range e phys virt (npages * PAGE_SIZE) mode s;
          let s = ofmem_arch_map_pages phys virt (npages * PAGE_SIZE) mode s;
          Some (virt + off, s) }"

text \<open>The result, and what \<open>*mode\<close> holds afterwards.\<close>

fun translate_loop :: "ucell \<Rightarrow> translation list \<Rightarrow> ucell \<Rightarrow> ucell \<times> ucell" where
  "translate_loop virt [] mode = (- 1, mode)"
| "translate_loop virt (t # ts) mode =
     (if tr_virt t \<le> virt
      then if tr_virt t + tr_size t - 1 < virt then translate_loop virt ts mode
           else (tr_phys t + (virt - tr_virt t), tr_mode t)
      else (- 1, mode))"

definition ofmem_translate :: "ucell \<Rightarrow> ucell \<Rightarrow> 'w ofmem \<Rightarrow> ucell \<times> ucell" where
  "ofmem_translate virt mode s = translate_loop virt (trans s) mode"

subsection \<open>Releases\<close>

definition remove_range_raw :: "'w ofenv \<Rightarrow> ucell \<Rightarrow> ucell \<Rightarrow> 'w rlist \<Rightarrow> 'w ofmem \<Rightarrow> 'w ofmem option" where
  "remove_range_raw e ea sz r s =
     do { (rs, s) \<leftarrow> split_ranges (new_node e sizeof_range) ea sz (fst r s) s;
          case drop_range ea sz rs of
            (None, rs) \<Rightarrow> Some (snd r rs s)
          | (Some u, rs) \<Rightarrow> ofmem_free u (snd r rs s) }"

definition remove_range :: "'w ofenv \<Rightarrow> ucell \<Rightarrow> ucell \<Rightarrow> 'w rlist \<Rightarrow> 'w ofmem \<Rightarrow> (int \<times> 'w ofmem) option" where
  "remove_range e ea sz r s =
     (if is_free ea sz (fst r s) then Some (- 1, s)
      else do { s \<leftarrow> remove_range_raw e ea sz r s; Some (0, s) })"

definition ofmem_release_phys :: "'w ofenv \<Rightarrow> ucell \<Rightarrow> ucell \<Rightarrow> 'w ofmem \<Rightarrow> 'w ofmem option" where
  "ofmem_release_phys e phys sz s = do { (_, s) \<leftarrow> remove_range e phys sz phys_r s; Some s }"

definition ofmem_release_virt :: "'w ofenv \<Rightarrow> ucell \<Rightarrow> ucell \<Rightarrow> 'w ofmem \<Rightarrow> 'w ofmem option" where
  "ofmem_release_virt e virt sz s = do { (_, s) \<leftarrow> remove_range e virt sz virt_r s; Some s }"

definition ofmem_release_io :: "'w ofenv \<Rightarrow> ucell \<Rightarrow> ucell \<Rightarrow> 'w ofmem \<Rightarrow> 'w ofmem option" where
  "ofmem_release_io e virt sz s = do { (_, s) \<leftarrow> remove_range e virt sz io_r s; Some s }"

definition ofmem_release :: "'w ofenv \<Rightarrow> ucell \<Rightarrow> ucell \<Rightarrow> 'w ofmem \<Rightarrow> 'w ofmem option" where
  "ofmem_release e virt sz s =
     (let (phys, mode) = ofmem_translate virt 0 s
      in if phys = - 1 then Some s
         else do { (_, s) \<leftarrow> ofmem_unmap e virt sz s;
                   s \<leftarrow> ofmem_release_virt e virt sz s;
                   ofmem_release_phys e phys sz s })"

subsection \<open>Start-up and page faults\<close>

definition OFMEM_DEFAULT_PROP_SIZE :: int where
  "OFMEM_DEFAULT_PROP_SIZE = 2048"

definition ofmem_register :: "'w ofenv \<Rightarrow> ucell \<Rightarrow> ucell \<Rightarrow> 'w ofmem \<Rightarrow> 'w ofmem option" where
  "ofmem_register e ph_memory ph_mmu s =
     do { let s = s\<lparr>s_phandle_memory := ph_memory, s_phandle_mmu := ph_mmu, trans_prop_size := OFMEM_DEFAULT_PROP_SIZE,
                    phys_range_prop_size := OFMEM_DEFAULT_PROP_SIZE, virt_range_prop_size := OFMEM_DEFAULT_PROP_SIZE\<rparr>;
          (p, s) \<leftarrow> ofmem_malloc e (word_of_int (trans_prop_size s)) s;
          let s = s\<lparr>trans_prop := p\<rparr>;
          (p, s) \<leftarrow> ofmem_malloc e (word_of_int (phys_range_prop_size s)) s;
          let s = s\<lparr>phys_range_prop := p\<rparr>;
          (p, s) \<leftarrow> ofmem_malloc e (word_of_int (virt_range_prop_size s)) s;
          let s = s\<lparr>virt_range_prop := p\<rparr>;
          ofmem_update_translations e s }"

text \<open>\<open>ofmem_init\<close> clears \<open>ofmem_t\<close>, not the static variables of the properties.\<close>

definition ofmem_init :: "'w ofenv \<Rightarrow> 'w ofmem \<Rightarrow> 'w ofmem option" where
  "ofmem_init e s =
     do { let s = s\<lparr>next_malloc := 0, mfree := 0, ramsize := 0, phys_range := [], virt_range := [], io_range := [], trans := []\<rparr>;
          let s = (if is_wii_rvl e then s\<lparr>ramsize := 0x01800000\<rparr> else if is_wii_cafe e then s\<lparr>ramsize := 0x02000000\<rparr> else s);
          (_, s) \<leftarrow> ofmem_claim_phys e 0 FREE_BASE_1 0 s;
          (_, s) \<leftarrow> ofmem_claim_virt e 0 FREE_BASE_1 0 s;
          (_, s) \<leftarrow> (if is_wii_rvl e then ofmem_map e MEM1_MAP_BASE 0x01800000 0x02800000 (- 1) s
                     else if is_wii_cafe e then ofmem_map e MEM1_MAP_BASE 0x02000000 0x06000000 (- 1) s
                     else Some (0, s));
          Some s }"

definition ea_to_phys :: "'w ofenv \<Rightarrow> ucell \<Rightarrow> ucell \<Rightarrow> 'w ofmem \<Rightarrow> ucell \<times> ucell" where
  "ea_to_phys e ea mode s =
     (if OF_CODE_START \<le> ea \<and> ea < MEM1_MAP_BASE then (ea, ofmem_arch_default_translation_mode e ea)
      else let (phys, mode) = ofmem_translate ea mode s
           in if phys = - 1 then (ea, ofmem_arch_default_translation_mode e ea) else (phys, mode))"

text \<open>
  The group of eight entries, two cells each, at \<open>pp\<close>. \<open>find_slot\<close> is either search loop from index \<open>i\<close>
  on, with the final \<open>i\<close> of the C loop: one past the entry found.
\<close>

fun find_slot :: "(ucell \<Rightarrow> bool) \<Rightarrow> memory \<Rightarrow> ucell \<Rightarrow> nat \<Rightarrow> nat \<Rightarrow> (bool \<times> int) option" where
  "find_slot P m pp i 0 = Some (False, int i)"
| "find_slot P m pp i (Suc n) =
     do { w \<leftarrow> read_ucell m (pp + of_nat (8 * i));
          if P w then Some (True, int i + 1) else find_slot P m pp (Suc i) n }"

definition hash_page :: "ucell \<Rightarrow> ucell \<Rightarrow> ucell \<Rightarrow> 'w ofmem \<Rightarrow> 'w ofmem option" where
  "hash_page ea phys mode s =
     do { let vsid = drop_bit 28 ea + SEGR_BASE;
          let cmp = 0x80000000 OR push_bit 7 vsid OR drop_bit 22 (ea AND 0x0fffffff);
          let hash1 = (vsid XOR (drop_bit 12 ea AND 0xffff)) AND drop_bit 6 (HASH_SIZE - 1);
          let pp = HASH_BASE + push_bit 6 hash1;
          (found, i) \<leftarrow> find_slot (\<lambda>w. w = cmp) (hmem s) pp 0 8;
          (found, i) \<leftarrow> (if found then Some (found, 0) else find_slot (\<lambda>w. \<not> bit w 31) (hmem s) pp 0 8);
          let (i, s) = (if found then (i, s)
                        else (next_grab_slot s + 1, s\<lparr>next_grab_slot := (next_grab_slot s + 1) mod 8\<rparr>));
          let i = i - 1;
          m \<leftarrow> write_ucell (hmem s) (pp + of_int (8 * i)) cmp;
          m \<leftarrow> write_ucell m (pp + of_int (8 * i) + 4) ((phys AND NOT 0xfff) OR mode);
          Some (s\<lparr>hmem := m\<rparr>) }"

text \<open>The exception handlers, with the register each reads; \<open>mode\<close> is uninitialised before.\<close>

definition dsi_exception :: "'w ofenv \<Rightarrow> ucell \<Rightarrow> ucell \<Rightarrow> 'w ofmem \<Rightarrow> 'w ofmem option" where
  "dsi_exception e dar mode s = (let (phys, mode) = ea_to_phys e dar mode s in hash_page dar phys mode s)"

definition isi_exception :: "'w ofenv \<Rightarrow> ucell \<Rightarrow> ucell \<Rightarrow> 'w ofmem \<Rightarrow> 'w ofmem option" where
  "isi_exception e nip mode s = (let (phys, mode) = ea_to_phys e nip mode s in hash_page nip phys mode s)"

end
