(* ===== verification/Ofmem_Props.thy ===== *)
theory Ofmem_Props
  imports Ofmem
begin

text \<open>
  The properties the memory manager publishes. The cells of \<open>available\<close> are the gaps between the
  claimed ranges, those of \<open>translations\<close> the entries of the list; they are written to a buffer of
  the heap, whose size covers them, and handed to \<open>encode-property\<close> from there.
\<close>

subsection \<open>Cells in a buffer\<close>

definition cells_at :: "memory \<Rightarrow> ucell \<Rightarrow> ucell list \<Rightarrow> bool" where
  "cells_at m a cs \<longleftrightarrow> (\<forall>i < length cs. read_ucell m (a + of_nat (4 * i)) = Some (cs ! i))"

fun put_cells :: "memory \<Rightarrow> ucell \<Rightarrow> ucell list \<Rightarrow> memory option" where
  "put_cells m a [] = Some m"
| "put_cells m a (c # cs) = do { m \<leftarrow> write_ucell m a c; put_cells m (a + 4) cs }"

lemma put_cells_append: "put_cells m a (xs @ ys) = do { m \<leftarrow> put_cells m a xs; put_cells m (a + of_nat (4 * length xs)) ys }"
proof (induction xs arbitrary: m a)
  case (Cons x xs)
  have "a + 4 + of_nat (4 * length xs) = a + of_nat (4 * length (x # xs))" by (simp add: algebra_simps)
  then show ?case using Cons by (simp add: add.assoc del: of_nat_mult split: bind_splits)
qed simp

lemma cells_at_Cons: "cells_at m a (c # cs) \<longleftrightarrow> read_ucell m a = Some c \<and> cells_at m (a + 4) cs"
  by (simp add: cells_at_def All_less_Suc2 add.assoc)

lemma linear_cells:
  assumes "linear a (4 * Suc n)"
  shows "linear a 4" and "n \<noteq> 0 \<Longrightarrow> linear (a + 4) (4 * n)" and "n \<noteq> 0 \<Longrightarrow> unat (a + 4) = unat a + 4"
proof -
  show "linear a 4" using assms by (simp add: linear_def)
  show u: "unat (a + 4) = unat a + 4" if "n \<noteq> 0" using assms that unat_add_no_wrap [of a 4] by (simp add: linear_def)
  show "linear (a + 4) (4 * n)" if "n \<noteq> 0" using assms u [OF that] by (simp add: linear_def)
qed

lemma put_cells_ok:
  assumes "linear a (4 * length cs)" and "\<And>x. in_region a (4 * length cs) x \<Longrightarrow> m x \<noteq> None"
  shows "\<exists>m'. put_cells m a cs = Some m' \<and> cells_at m' a cs \<and> (\<forall>x. \<not> in_region a (4 * length cs) x \<longrightarrow> m' x = m x) \<and>
    (\<forall>x. (m' x = None) = (m x = None))"
  using assms
proof (induction cs arbitrary: m a)
  case Nil
  then show ?case by (simp add: cells_at_def)
next
  case (Cons c cs)
  let ?n = "length cs"
  have lin: "linear a (4 * Suc ?n)" using Cons.prems(1) by simp
  note l = linear_cells [OF lin]
  have "in_region a (4 * Suc ?n) x" if "in_region a 4 x" for x using that by (simp add: in_region_def)
  then have "\<forall>x. in_region a 4 x \<longrightarrow> m x \<noteq> None" using Cons.prems(2) by auto
  then have "write_ucell m a c \<noteq> None" by (simp only: ucell_acc.wr_succeeds)
  then obtain m1 where m1: "write_ucell m a c = Some m1" by blast
  note fr = ucell_acc.wr_frame [OF m1] and dm = ucell_acc.wr_dom [OF m1]
  show ?case
  proof (cases "?n = 0")
    case True
    then show ?thesis using m1 fr dm ucell_acc.rd_wr_same [OF m1] by (simp add: cells_at_def)
  next
    case False
    have sub: "in_region a (4 * Suc ?n) x \<longleftrightarrow> in_region a 4 x \<or> in_region (a + 4) (4 * ?n) x" for x
      unfolding in_region_linear [OF lin] in_region_linear [OF l(1)] in_region_linear [OF l(2) [OF False]] l(3) [OF False] by auto
    have "m1 x \<noteq> None" if "in_region (a + 4) (4 * ?n) x" for x using that sub Cons.prems(2) [of x] dm by simp
    from Cons.IH [OF l(2) [OF False], of m1, OF this] obtain m' where m': "put_cells m1 (a + 4) cs = Some m'" "cells_at m' (a + 4) cs"
      "\<And>x. \<not> in_region (a + 4) (4 * ?n) x \<Longrightarrow> m' x = m1 x" "\<And>x. (m' x = None) = (m1 x = None)" by blast
    have "read_ucell m' a = read_ucell m1 a"
    proof (rule ucell_acc.rd_local, rule m'(3))
      fix x assume "in_region a 4 x"
      then show "\<not> in_region (a + 4) (4 * ?n) x"
        using l(3) [OF False] by (simp add: in_region_linear [OF l(1)] in_region_linear [OF l(2) [OF False]])
    qed
    then have "cells_at m' a (c # cs)" using m'(2) ucell_acc.rd_wr_same [OF m1] by (simp add: cells_at_Cons)
    moreover have "m' x = m x" if "\<not> in_region a (4 * Suc ?n) x" for x using that sub m'(3) fr by simp
    ultimately show ?thesis using m1 m'(1,4) dm by simp
  qed
qed

lemma create_translation_entry_cells:
  "ofmem_arch_create_translation_entry m p t = put_cells m p [tr_virt t, tr_size t, tr_phys t, tr_mode t]"
  by (simp add: ofmem_arch_create_translation_entry_def ofmem_arch_encode_physaddr_def add.assoc)

lemma create_available_entry_cells:
  "ofmem_arch_create_available_entry ph s p start sz = put_cells (hmem s) p [start, sz]"
  by (simp add: ofmem_arch_create_available_entry_def ofmem_arch_encode_physaddr_def)

lemma available_entry_size: "ofmem_arch_get_available_entry_size ph s = 2"
  by (simp add: ofmem_arch_get_available_entry_size_def ofmem_arch_get_physaddr_cellsize_def)

subsection \<open>What the properties hold\<close>

definition trans_cells :: "translation list \<Rightarrow> ucell list" where
  "trans_cells ts = concat (map (\<lambda>t. [tr_virt t, tr_size t, tr_phys t, tr_mode t]) ts)"

lemma put_translations_cells:
  "put_translations m p n ts =
     do { m \<leftarrow> put_cells m (p + of_nat (4 * n)) (trans_cells ts); Some (n + length (trans_cells ts), m) }"
proof (induction ts arbitrary: m n)
  case (Cons t ts)
  have e: "ofmem_arch_get_translation_entry_size = 4"
    by (simp add: ofmem_arch_get_translation_entry_size_def ofmem_arch_get_physaddr_cellsize_def)
  have a: "p + of_nat (4 * (n + 4)) = p + of_nat (4 * n) + of_nat (4 * length [tr_virt t, tr_size t, tr_phys t, tr_mode t])" by simp
  have "put_cells m (p + of_nat (4 * n)) (trans_cells (t # ts)) =
      do { m \<leftarrow> put_cells m (p + of_nat (4 * n)) [tr_virt t, tr_size t, tr_phys t, tr_mode t];
           put_cells m (p + of_nat (4 * (n + 4))) (trans_cells ts) }"
    unfolding a trans_cells_def by (simp only: put_cells_append list.map concat.simps)
  then show ?case
    using Cons.IH [of _ "n + 4"] by (simp add: create_translation_entry_cells e trans_cells_def del: put_cells.simps of_nat_mult split: bind_splits)
qed (simp add: trans_cells_def)

fun gaps :: "ucell \<Rightarrow> ucell \<Rightarrow> range list \<Rightarrow> ucell \<times> ucell list" where
  "gaps tp start [] = (start, [])"
| "gaps tp start (r # rs) =
     (if tp \<le> rg_start r then (start, [])
      else let (st, g) = gaps tp (rg_start r + rg_size r) rs
           in (st, (if rg_start r - start \<noteq> 0 then [start, rg_start r - start] else []) @ g))"

definition available :: "ucell \<Rightarrow> range list \<Rightarrow> ucell list" where
  "available tp rs = (let (st, g) = gaps tp 0 rs in g @ (if st - 1 < tp then [st, tp - st + 1] else []))"

lemma put_available_cells:
  "put_available ph p tp start n rs s =
     do { m \<leftarrow> put_cells (hmem s) (p + of_nat (4 * n)) (snd (gaps tp start rs));
          Some (fst (gaps tp start rs), n + length (snd (gaps tp start rs)), s\<lparr>hmem := m\<rparr>) }"
proof (induction rs arbitrary: start n s)
  case (Cons r rs)
  let ?e = "rg_start r + rg_size r" and ?z = "rg_start r - start"
  show ?case
  proof (cases "tp \<le> rg_start r \<or> ?z = 0")
    case True
    then show ?thesis using Cons.IH by (auto simp: case_prod_beta Let_def)
  next
    case False
    have a: "p + of_nat (4 * (n + 2)) = p + of_nat (4 * n) + of_nat (4 * length [start, ?z])" by simp
    have g: "gaps tp start (r # rs) = (fst (gaps tp ?e rs), [start, ?z] @ snd (gaps tp ?e rs))"
      using False by (simp add: case_prod_beta Let_def)
    have p: "put_cells (hmem s) (p + of_nat (4 * n)) ([start, ?z] @ snd (gaps tp ?e rs)) =
        do { m \<leftarrow> put_cells (hmem s) (p + of_nat (4 * n)) [start, ?z]; put_cells m (p + of_nat (4 * (n + 2))) (snd (gaps tp ?e rs)) }"
      unfolding a by (rule put_cells_append)
    show ?thesis unfolding g fst_conv snd_conv p using False Cons.IH [of ?e "n + 2"]
      by (simp add: create_available_entry_cells available_entry_size Let_def del: put_cells.simps of_nat_mult split: bind_splits)
  qed
qed simp

subsection \<open>The gaps are what is not claimed\<close>

text \<open>The addresses a list of (start, size) cells stands for.\<close>

fun pair_addrs :: "ucell list \<Rightarrow> nat set" where
  "pair_addrs (a # n # cs) = {unat a ..< unat a + unat n} \<union> pair_addrs cs"
| "pair_addrs cs = {}"

lemma pair_addrs_append: "even (length xs) \<Longrightarrow> pair_addrs (xs @ ys) = pair_addrs xs \<union> pair_addrs ys"
  by (induction xs rule: pair_addrs.induct) auto

lemma gaps_length: "length (snd (gaps tp start rs)) \<le> 2 * length rs \<and> even (length (snd (gaps tp start rs)))"
proof (induction rs arbitrary: start)
  case (Cons r rs)
  show ?case using Cons.IH [of "rg_start r + rg_size r"] by (auto simp: case_prod_beta Let_def)
qed simp

text \<open>
  From \<open>start\<close>, at or below the first range, the gaps up to \<open>top\<close> and the tail after the last range that
  starts below it cover what is not claimed. \<open>open_end\<close>: where the tail starts, as a number.
\<close>

fun open_end :: "ucell \<Rightarrow> nat \<Rightarrow> range list \<Rightarrow> nat" where
  "open_end tp st [] = st"
| "open_end tp st (r # rs) = (if tp \<le> rg_start r then st else open_end tp (unat (rg_start r) + unat (rg_size r)) rs)"

lemma gaps_cover:
  assumes "wf_ranges rs" and "\<forall>r \<in> set rs. rg_start r \<noteq> tp \<and> unat start \<le> unat (rg_start r)"
  shows "pair_addrs (snd (gaps tp start rs)) = {unat start ..< open_end tp (unat start) rs} - claimed rs \<and>
    unat (fst (gaps tp start rs)) = open_end tp (unat start) rs mod 2 ^ 32 \<and>
    (\<forall>n. open_end tp (unat start) rs \<le> n \<and> n \<le> unat tp \<longrightarrow> n \<notin> claimed rs) \<and>
    unat start \<le> open_end tp (unat start) rs \<and> open_end tp (unat start) rs \<le> 2 ^ 32"
  using assms
proof (induction rs arbitrary: start)
  case Nil
  have "unat start < 2 ^ 32" using unsigned_less [of start, where ?'a = nat] by simp
  then show ?case by (simp add: claimed_def)
next
  case (Cons r rs)
  let ?e = "unat (rg_start r) + unat (rg_size r)"
  have r: "unat start \<le> unat (rg_start r)" "rg_start r \<noteq> tp" "?e \<le> 2 ^ 32" and wf: "wf_ranges rs"
    and nxt: "\<forall>q \<in> set rs. ?e \<le> unat (rg_start q)" using Cons.prems by (simp_all add: list_all_iff)
  have lt: "unat start < 2 ^ 32" using unsigned_less [of start, where ?'a = nat] by simp
  have above: "n < ?e \<Longrightarrow> n \<notin> claimed rs" for n using nxt by (auto simp: claimed_def cells_of_def)
  have split: "claimed (r # rs) = cells_of r \<union> claimed rs" by (auto simp: claimed_def)
  show ?case
  proof (cases "tp \<le> rg_start r")
    case True
    then have "unat tp < unat (rg_start r)" using r(2) by (simp add: word_le_nat_alt word_unat_eq_iff le_less)
    then have "n \<notin> claimed (r # rs)" if "n \<le> unat tp" for n using that above [of n] unfolding split by (auto simp: cells_of_def)
    then show ?thesis using True lt by simp
  next
    case False
    have d: "unat (rg_start r - start) = unat (rg_start r) - unat start" by (rule unat_diff [OF r(1)])
    then have fst_gap: "pair_addrs (if rg_start r - start \<noteq> 0 then [start, rg_start r - start] else []) = {unat start ..< unat (rg_start r)}"
      using r(1) by (auto simp: unat_eq_zero [symmetric])
    have g: "snd (gaps tp start (r # rs)) = (if rg_start r - start \<noteq> 0 then [start, rg_start r - start] else []) @ snd (gaps tp (rg_start r + rg_size r) rs)"
      "fst (gaps tp start (r # rs)) = fst (gaps tp (rg_start r + rg_size r) rs)" using False by (simp_all add: case_prod_beta Let_def)
    have pg: "pair_addrs (snd (gaps tp start (r # rs))) = {unat start ..< unat (rg_start r)} \<union> pair_addrs (snd (gaps tp (rg_start r + rg_size r) rs))"
      unfolding g(1) by (subst pair_addrs_append) (simp_all only: fst_gap, simp_all)
    show ?thesis
    proof (cases "?e = 2 ^ 32")
      case True
      have "rs = []"
      proof (cases rs)
        case (Cons q qs)
        then show ?thesis using nxt True unsigned_less [of "rg_start q", where ?'a = nat] by simp
      qed
      moreover have "rg_start r + rg_size r = 0" using True unat_word_ariths(1) [of "rg_start r" "rg_size r"] by (simp add: unat_eq_zero [symmetric])
      ultimately have gg: "gaps tp (rg_start r + rg_size r) rs = (0, [])" and cl: "claimed (r # rs) = {unat (rg_start r) ..< ?e}"
        and oe: "open_end tp (unat start) (r # rs) = ?e" using False by (simp_all add: claimed_def cells_of_def)
      have "unat tp < ?e" using True unsigned_less [of tp, where ?'a = nat] by simp
      moreover have "{unat start ..< unat (rg_start r)} = {unat start ..< ?e} - {unat (rg_start r) ..< ?e}" using r(1) by auto
      moreover have "unat (0 :: ucell) = ?e mod 2 ^ 32" using True by simp
      ultimately show ?thesis unfolding oe pg g(2) gg cl using r(1,3) by simp
    next
      case e: False
      then have ue: "unat (rg_start r + rg_size r) = ?e" using r(3) by (intro unat_add_no_wrap) simp
      have "\<forall>q \<in> set rs. rg_start q \<noteq> tp \<and> unat (rg_start r + rg_size r) \<le> unat (rg_start q)" using Cons.prems(2) nxt ue by simp
      note IH = Cons.IH [OF wf this, unfolded ue]
      have oe: "open_end tp (unat start) (r # rs) = open_end tp ?e rs" using False by simp
      have "pair_addrs (snd (gaps tp start (r # rs))) = {unat start ..< open_end tp ?e rs} - claimed (r # rs)"
        unfolding pg split using IH r(1) above by (auto simp: cells_of_def not_less)
      moreover have "n \<notin> claimed (r # rs)" if "open_end tp ?e rs \<le> n" "n \<le> unat tp" for n
        using IH that unfolding split by (auto simp: cells_of_def)
      ultimately show ?thesis unfolding oe g(2) using IH r(1) by simp
    qed
  qed
qed

lemma open_end_claimed:
  assumes "wf_ranges rs" and "st \<le> n" and "n < open_end tp st rs" and "unat tp \<le> n"
  shows "n \<in> claimed rs"
  using assms
proof (induction rs arbitrary: st)
  case (Cons r rs)
  let ?e = "unat (rg_start r) + unat (rg_size r)"
  have lt: "\<not> tp \<le> rg_start r" using Cons.prems(2,3) by (auto split: if_splits)
  show ?case
  proof (cases "n < ?e")
    case True
    then have "n \<in> cells_of r" using lt Cons.prems(4) by (auto simp: cells_of_def word_le_nat_alt)
    then show ?thesis by (simp add: claimed_def)
  next
    case False
    have "n \<in> claimed rs" using Cons.IH [of ?e] Cons.prems lt False by simp
    then show ?thesis by (simp add: claimed_def)
  qed
qed simp

lemma available_complement:
  assumes wf: "wf_ranges rs" and tp: "\<forall>r \<in> set rs. rg_start r \<noteq> tp" and some: "\<exists>r \<in> set rs. rg_start r < tp"
  shows "pair_addrs (available tp rs) = {.. unat tp} - claimed rs"
proof -
  define oe where "oe = open_end tp 0 rs"
  define st where "st = fst (gaps tp 0 rs)"
  have c: "pair_addrs (snd (gaps tp 0 rs)) = {..< oe} - claimed rs" "unat st = oe mod 2 ^ 32" "oe \<le> 2 ^ 32"
    "\<And>n. oe \<le> n \<Longrightarrow> n \<le> unat tp \<Longrightarrow> n \<notin> claimed rs"
    using gaps_cover [OF wf, of tp 0] tp by (auto simp: oe_def st_def lessThan_atLeast0)
  have oc: "n \<in> claimed rs" if "unat tp \<le> n" "n < oe" for n using open_end_claimed [OF wf _ _ that(1), of 0] that(2) by (simp add: oe_def)
  have av: "available tp rs = snd (gaps tp 0 rs) @ (if st - 1 < tp then [st, tp - st + 1] else [])"
    by (simp add: available_def st_def case_prod_beta)
  have tplt: "unat tp < 2 ^ 32" using unsigned_less [of tp, where ?'a = nat] by simp
  have "oe \<noteq> 0"
  proof -
    obtain r rs' where rs: "rs = r # rs'" using some by (cases rs) auto
    then have "rg_start r < tp" using some wf by (auto simp: list_all_iff word_less_nat_alt)
    moreover have "0 < unat (rg_size r)" using wf rs by (simp add: unat_gt_0)
    moreover have "unat (rg_start r) + unat (rg_size r) \<le> open_end tp (unat (rg_start r) + unat (rg_size r)) rs'"
    proof (cases "unat (rg_start r) + unat (rg_size r) = 2 ^ 32")
      case True
      then have "rs' = []" using wf rs unsigned_less [of "rg_start (hd rs')", where ?'a = nat] by (cases rs') auto
      then show ?thesis by simp
    next
      case False
      then have "unat (rg_start r + rg_size r) = unat (rg_start r) + unat (rg_size r)" using wf rs by (intro unat_add_no_wrap) simp
      then show ?thesis using gaps_cover [of rs' tp "rg_start r + rg_size r"] wf rs tp by (auto simp: list_all_iff)
    qed
    ultimately show ?thesis using rs by (simp add: oe_def not_le)
  qed
  have tail: "pair_addrs (if st - 1 < tp then [st, tp - st + 1] else []) = {oe .. unat tp}"
  proof (cases "oe = 2 ^ 32")
    case True
    then have "st = 0" using c(2) by (simp add: unat_eq_zero [symmetric])
    then have "\<not> st - 1 < tp" by (simp add: word_order.not_eq_extremum [symmetric] not_less)
    then show ?thesis using True tplt by simp
  next
    case False
    then have st: "unat st = oe" using c(2,3) by simp
    then have "unat (st - 1) = oe - 1" using \<open>oe \<noteq> 0\<close> by (subst unat_minus_one) auto
    then have "st - 1 < tp \<longleftrightarrow> oe \<le> unat tp" using \<open>oe \<noteq> 0\<close> by (auto simp: word_less_nat_alt)
    moreover have "unat (tp - st + 1) = unat tp - oe + 1" if "oe \<le> unat tp"
    proof -
      have "unat (tp - st) = unat tp - oe" using that st by (subst unat_diff) simp_all
      then show ?thesis using tplt \<open>oe \<noteq> 0\<close> that unat_add_no_wrap [of "tp - st" 1] by simp
    qed
    ultimately show ?thesis using st by auto
  qed
  have "pair_addrs (available tp rs) = ({..< oe} - claimed rs) \<union> {oe .. unat tp}"
    unfolding av pair_addrs_append [OF conjunct2 [OF gaps_length]] c(1) tail by (rule refl)
  also have "\<dots> = {.. unat tp} - claimed rs" using c(4) oc by (auto simp: not_less) (meson leI less_imp_le_nat)+
  finally show ?thesis .
qed

text \<open>The loop stops at the first range at or above \<open>tp\<close>: only those that start below it count.\<close>

definition below :: "ucell \<Rightarrow> range list \<Rightarrow> range list" where
  "below tp rs = filter (\<lambda>r. rg_start r < tp) rs"

lemma gaps_below: "wf_ranges rs \<Longrightarrow> gaps tp start rs = gaps tp start (below tp rs)"
proof (induction rs arbitrary: start)
  case (Cons r rs)
  show ?case
  proof (cases "tp \<le> rg_start r")
    case True
    have "unat tp \<le> unat (rg_start q)" if "q \<in> set rs" for q
    proof -
      have "unat (rg_start r) + unat (rg_size r) \<le> unat (rg_start q)" using Cons.prems that by (simp add: list_all_iff)
      then show ?thesis using True by (simp add: word_le_nat_alt)
    qed
    then have "below tp (r # rs) = []" using True by (auto simp: below_def filter_empty_conv not_less word_le_nat_alt)
    then show ?thesis using True by simp
  next
    case False
    then have "below tp (r # rs) = r # below tp rs" by (simp add: below_def)
    moreover have "wf_ranges rs" using Cons.prems by simp
    from Cons.IH [OF this, of "rg_start r + rg_size r"]
    have "gaps tp (rg_start r + rg_size r) (below tp rs) = gaps tp (rg_start r + rg_size r) rs" ..
    ultimately show ?thesis by simp
  qed
qed (simp add: below_def)

lemma wf_below: "wf_ranges rs \<Longrightarrow> wf_ranges (below tp rs)"
  by (induction rs) (auto simp: below_def list_all_iff)

lemma available_below:
  assumes "wf_ranges rs"
  shows "pair_addrs (available tp rs) = (if below tp rs = [] then {} else {.. unat tp} - claimed (below tp rs))"
proof -
  have av: "available tp rs = available tp (below tp rs)" using gaps_below [OF assms] by (simp add: available_def)
  show ?thesis
  proof (cases "below tp rs = []")
    case True
    have "\<not> (- 1 :: ucell) < tp" by (simp add: not_less)
    then have "available tp (below tp rs) = []" using True by (simp add: available_def)
    then show ?thesis using True unfolding av by simp
  next
    case False
    have "\<forall>r \<in> set (below tp rs). rg_start r \<noteq> tp" "\<exists>r \<in> set (below tp rs). rg_start r < tp"
      using False by (auto simp: below_def filter_empty_conv)
    from available_complement [OF wf_below [OF assms] this] show ?thesis using False unfolding av by simp
  qed
qed

lemma claimed_below:
  assumes "\<forall>r \<in> set rs. rg_start r \<noteq> tp"
  shows "{.. unat tp} - claimed (below tp rs) = {.. unat tp} - claimed rs"
proof -
  have "unat tp < unat (rg_start r)" if "r \<in> set rs" "\<not> rg_start r < tp" for r
    using assms that by (metis antisym_conv3 word_less_nat_alt)
  then have "n \<in> claimed (below tp rs) \<longleftrightarrow> n \<in> claimed rs" if "n \<le> unat tp" for n
    using that by (fastforce simp: claimed_def cells_of_def below_def)
  then show ?thesis by auto
qed

subsection \<open>Publishing\<close>

lemma sint_small: "n < 2 ^ 31 \<Longrightarrow> sint (of_nat n :: u32) = int n"
  using sint_eq_unat [of "of_nat n"] unat_of_nat_small [of n, where ?'a = 32] by simp

lemma available_length: "length (available tp rs) \<le> 2 * (length rs + 1)"
  using gaps_length [of tp 0 rs] by (auto simp: available_def case_prod_beta Let_def)

lemma put_available_all:
  "do { (start, ncells, s) \<leftarrow> put_available ph prop tp 0 0 rs s;
        (ncells, s) \<leftarrow> (if start - 1 < tp
            then do { m \<leftarrow> ofmem_arch_create_available_entry ph s (prop + of_nat (4 * ncells)) start (tp - start + 1);
                      Some (ncells + ofmem_arch_get_available_entry_size ph s, s\<lparr>hmem := m\<rparr>) }
            else Some (ncells, s));
        f ncells s } =
   do { m \<leftarrow> put_cells (hmem s) prop (available tp rs); f (length (available tp rs)) (s\<lparr>hmem := m\<rparr>) }"
  by (simp add: put_available_cells create_available_entry_cells available_entry_size available_def case_prod_beta Let_def put_cells_append
      del: put_cells.simps(2) of_nat_mult split: bind_splits)

text \<open>A buffer of \<open>n\<close> bytes at \<open>p\<close> that memory backs.\<close>

definition buffer :: "memory \<Rightarrow> ucell \<Rightarrow> nat \<Rightarrow> bool" where
  "buffer m p n \<longleftrightarrow> linear p n \<and> (\<forall>x. in_region p n x \<longrightarrow> m x \<noteq> None)"

lemma put_cells_buffer:
  assumes "buffer m p n" and "4 * length cs \<le> n"
  shows "\<exists>m'. put_cells m p cs = Some m' \<and> cells_at m' p cs \<and> (\<forall>x. \<not> in_region p n x \<longrightarrow> m' x = m x) \<and> (\<forall>x. (m' x = None) = (m x = None))"
proof -
  have sub: "in_region p n x" if "in_region p (4 * length cs) x" for x using that assms(2) by (simp add: in_region_def)
  have "linear p (4 * length cs)" using assms by (simp add: buffer_def linear_def)
  from put_cells_ok [OF this, of m] show ?thesis using sub assms(1) by (auto simp: buffer_def)
qed

lemma update_available_ok:
  assumes ph: "s_phandle_memory s \<noteq> 0" "ph \<noteq> 0" and bf: "prop \<noteq> 0" "buffer (hmem s) prop (nat z)"
    and z: "8 * int (length rs + 1) + 1 \<le> z" "z < 2 ^ 31"
  shows "\<exists>m. ofmem_update_memory_available e ph rs (prop, z, u) tp s = Some ((prop, z, u),
      s\<lparr>hmem := m, hworld := of_encode_property e m prop (of_nat (4 * length (available tp rs))) ''available'' ph (hworld s)\<rparr>) \<and>
    cells_at m prop (available tp rs) \<and> (\<forall>x. \<not> in_region prop (nat z) x \<longrightarrow> m x = hmem s x) \<and> (\<forall>x. (m x = None) = (hmem s x = None))"
proof -
  have "4 * length (available tp rs) \<le> nat z" using available_length [of tp rs] z(1) by linarith
  from put_cells_buffer [OF bf(2) this] obtain m where m: "put_cells (hmem s) prop (available tp rs) = Some m"
    "cells_at m prop (available tp rs)" "\<And>x. \<not> in_region prop (nat z) x \<Longrightarrow> m x = hmem s x" "\<And>x. (m x = None) = (hmem s x = None)" by blast
  have used: "sint (of_nat (length rs + 1) * 4 * of_nat (ofmem_arch_get_available_entry_size ph s) + 1 :: u32) = 8 * int (length rs + 1) + 1"
  proof -
    have "of_nat (length rs + 1) * 4 * of_nat (ofmem_arch_get_available_entry_size ph s) + 1 = (of_nat (8 * (length rs + 1) + 1) :: u32)"
      by (simp add: available_entry_size)
    moreover have "int (8 * (length rs + 1) + 1) < int (2 ^ 31)" using z by simp
    then have "8 * (length rs + 1) + 1 < 2 ^ 31" by (simp only: of_nat_less_iff)
    ultimately show ?thesis using sint_small [of "8 * (length rs + 1) + 1"] by simp
  qed
  have "\<not> z < 8 * int (length rs + 1) + 1" using z(1) by simp
  then have "ofmem_update_memory_available e ph rs (prop, z, u) tp s =
      do { m \<leftarrow> put_cells (hmem s) prop (available tp rs);
           Some ((prop, z, u), ofmem_set_property e ph ''available'' prop (of_nat (4 * length (available tp rs))) (s\<lparr>hmem := m\<rparr>)) }"
    unfolding ofmem_update_memory_available_def put_available_all Let_def used using ph(1) bf(1) by simp
  then show ?thesis using m ph(2) by (auto simp: ofmem_set_property_def)
qed

lemma held_world [simp]: "held e (h\<lparr>hworld := w\<rparr>) L z = held e h L z"
  by (simp add: held_def heap_ok_def)

lemma held_buffer:
  assumes "held e h L z" and "(p, sz) \<in> L"
  shows "buffer (hmem h) p (unat sz)" and "p \<noteq> 0" and "in_region p (unat sz) x \<longleftrightarrow> unat x \<in> ext (p, sz)"
proof -
  from assms obtain fl where H: "heap_ok e h fl (in_blocks L z)" and f: "unat sz + 8 \<le> unat (z p)" by (auto simp: held_def)
  have b: "(p - 8, z p) \<in> in_blocks L z" using assms(2) by force
  note D = heap_okD [OF H]
  have bk: "8 \<le> unat (z p)" "unat (of_end e) \<le> unat (p - 8)" "unat (p - 8) + unat (z p) \<le> unat (heap_start e h)"
    using blocks_okD [OF D(4) UnI2 [OF b]] by simp_all
  note a = held_area [OF H b f]
  have top: "unat p + unat sz \<le> unat HASH_BASE" using a(2) bk(3) f D(7) by linarith
  then have lin: "linear p (unat sz)" by (simp add: linear_def)
  show "in_region p (unat sz) x \<longleftrightarrow> unat x \<in> ext (p, sz)" for x by (simp add: in_region_linear [OF lin] ext_def)
  have "hmem h x \<noteq> None" if "in_region p (unat sz) x" for x
    using that top a(2) bk(2) unfolding in_region_linear [OF lin] by (intro D(10)) linarith+
  then show "buffer (hmem h) p (unat sz)" using lin by (simp add: buffer_def)
  show "p \<noteq> 0" using a(2) by auto
qed

text \<open>
  A property's buffer, as the static variables describe it: an area of the heap of \<open>n\<close> bytes, at
  least the \<open>need\<close>.
\<close>

definition prop_buffer :: "block set \<Rightarrow> ucell \<Rightarrow> int \<Rightarrow> int \<Rightarrow> bool" where
  "prop_buffer L p n need \<longleftrightarrow> (p, word_of_int n) \<in> L \<and> need \<le> n \<and> 0 \<le> n \<and> n < 2 ^ 31"

lemma unat_prop_size: "0 \<le> n \<Longrightarrow> n < 2 ^ 31 \<Longrightarrow> unat (word_of_int n :: ucell) = nat n"
  by (simp add: unsigned_of_int take_bit_int_eq_self nat_take_bit_eq)

lemma update_available_held:
  assumes h: "held e s L z" and ph: "s_phandle_memory s \<noteq> 0" "ph \<noteq> 0" and b: "prop_buffer L p n (8 * int (length rs + 1) + 1)"
  shows "\<exists>m w. ofmem_update_memory_available e ph rs (p, n, u) tp s = Some ((p, n, u), s\<lparr>hmem := m, hworld := w\<rparr>) \<and>
    held e (s\<lparr>hmem := m, hworld := w\<rparr>) L z \<and> (\<forall>x. unat x \<notin> ext (p, word_of_int n) \<longrightarrow> m x = hmem s x)"
proof -
  have n: "(p, word_of_int n) \<in> L" "8 * int (length rs + 1) + 1 \<le> n" "n < 2 ^ 31" "0 \<le> n" using b by (simp_all add: prop_buffer_def)
  note hb = held_buffer [OF h n(1), unfolded unat_prop_size [OF n(4,3)]]
  from update_available_ok [OF ph hb(2,1) n(2,3), of e u tp] obtain m w where
    m: "ofmem_update_memory_available e ph rs (p, n, u) tp s = Some ((p, n, u), s\<lparr>hmem := m, hworld := w\<rparr>)"
    "\<And>x. \<not> in_region p (nat n) x \<Longrightarrow> m x = hmem s x" "\<And>x. (m x = None) = (hmem s x = None)" by blast
  have "held e (s\<lparr>hmem := m\<rparr>) L z" using m(2,3) hb(3) by (intro use_held [OF h n(1)]) auto
  then have "held e (s\<lparr>hmem := m, hworld := w\<rparr>) L z" using held_world [where h = "s\<lparr>hmem := m\<rparr>" and w = w] by simp
  then show ?thesis using m(1,2) hb(3) by blast
qed

lemma trans_cells_length: "length (trans_cells ts) = 4 * length ts"
  by (induction ts) (simp_all add: trans_cells_def)

lemma update_mmu_held:
  assumes h: "held e s L z" and ph: "s_phandle_mmu s \<noteq> 0" and b: "prop_buffer L (trans_prop s) (trans_prop_size s) (16 * int (length (trans s)))"
  shows "\<exists>m w. ofmem_update_mmu_translations e s = Some (s\<lparr>hmem := m, hworld := w\<rparr>) \<and>
    w = of_encode_property e m (trans_prop s) (of_nat (16 * length (trans s))) ''translations'' (s_phandle_mmu s) (hworld s) \<and>
    cells_at m (trans_prop s) (trans_cells (trans s)) \<and> held e (s\<lparr>hmem := m, hworld := w\<rparr>) L z \<and>
    (\<forall>x. unat x \<notin> ext (trans_prop s, word_of_int (trans_prop_size s)) \<longrightarrow> m x = hmem s x)"
proof -
  let ?p = "trans_prop s" and ?n = "trans_prop_size s" and ?k = "length (trans s)"
  have n: "(?p, word_of_int ?n) \<in> L" "16 * int ?k \<le> ?n" "?n < 2 ^ 31" "0 \<le> ?n" using b by (simp_all add: prop_buffer_def)
  note hb = held_buffer [OF h n(1), unfolded unat_prop_size [OF n(4,3)]]
  have "4 * length (trans_cells (trans s)) \<le> nat ?n" using n(2) by (simp add: trans_cells_length)
  from put_cells_buffer [OF hb(1) this] obtain m where m: "put_cells (hmem s) ?p (trans_cells (trans s)) = Some m"
    "cells_at m ?p (trans_cells (trans s))" "\<And>x. \<not> in_region ?p (nat ?n) x \<Longrightarrow> m x = hmem s x" "\<And>x. (m x = None) = (hmem s x = None)" by blast
  have "int (16 * ?k) < int (2 ^ 31)" using n by simp
  then have "16 * ?k < 2 ^ 31" by (simp only: of_nat_less_iff)
  from sint_small [OF this] have "sint (of_nat ?k * 4 * of_nat ofmem_arch_get_translation_entry_size :: u32) = 16 * int ?k"
    by (simp add: ofmem_arch_get_translation_entry_size_def ofmem_arch_get_physaddr_cellsize_def)
  then have "ofmem_update_mmu_translations e s = Some (ofmem_set_property e (s_phandle_mmu s) ''translations'' ?p (of_nat (4 * (4 * ?k))) (s\<lparr>hmem := m\<rparr>))"
    using ph n(2) hb(2) m(1) by (simp add: ofmem_update_mmu_translations_def put_translations_cells trans_cells_length Let_def)
  moreover have "held e (s\<lparr>hmem := m\<rparr>) L z" using m(3,4) hb(3) by (intro use_held [OF h n(1)]) auto
  then have "held e (s\<lparr>hmem := m, hworld := w\<rparr>) L z" for w using held_world [where h = "s\<lparr>hmem := m\<rparr>" and w = w] by simp
  ultimately show ?thesis using m(2,3) hb(3) ph by (intro exI [of _ m] exI conjI) (auto simp: ofmem_set_property_def)
qed

text \<open>
  Before \<open>ofmem_register\<close> both packages are 0 and nothing is published. After it, each property has a
  buffer of the heap; \<open>fits\<close>: one that is large enough for \<open>k\<close> more entries.
\<close>

definition bufs :: "'w ofmem \<Rightarrow> block set" where
  "bufs s = {(phys_range_prop s, word_of_int (phys_range_prop_size s)), (virt_range_prop s, word_of_int (virt_range_prop_size s)),
     (trans_prop s, word_of_int (trans_prop_size s))}"

definition fits :: "nat \<Rightarrow> block set \<Rightarrow> 'w ofmem \<Rightarrow> bool" where
  "fits k L s \<longleftrightarrow> s_phandle_memory s = 0 \<and> s_phandle_mmu s = 0 \<or>
     s_phandle_memory s \<noteq> 0 \<and> s_phandle_mmu s \<noteq> 0 \<and>
     prop_buffer L (phys_range_prop s) (phys_range_prop_size s) (8 * int (length (phys_range s) + k + 1) + 1) \<and>
     prop_buffer L (virt_range_prop s) (virt_range_prop_size s) (8 * int (length (virt_range s) + k + 1) + 1) \<and>
     prop_buffer L (trans_prop s) (trans_prop_size s) (16 * int (length (trans s) + k))"

lemma update_translations_held:
  assumes h: "held e s L z" and f: "fits 0 L s"
  shows "\<exists>m w. ofmem_update_translations e s = Some (s\<lparr>hmem := m, hworld := w\<rparr>) \<and> held e (s\<lparr>hmem := m, hworld := w\<rparr>) L z \<and>
    (\<forall>x. (\<forall>a \<in> bufs s. unat x \<notin> ext a) \<longrightarrow> m x = hmem s x)"
proof (cases "s_phandle_memory s = 0")
  case True
  then have "ofmem_update_translations e s = Some (s\<lparr>hmem := hmem s, hworld := hworld s\<rparr>)"
    using f by (simp add: fits_def ofmem_update_translations_def ofmem_update_memory_available_def ofmem_update_mmu_translations_def)
  moreover have "held e (s\<lparr>hmem := hmem s, hworld := hworld s\<rparr>) L z" using h by simp
  ultimately show ?thesis by blast
next
  case False
  then have ph: "s_phandle_memory s \<noteq> 0" "s_phandle_mmu s \<noteq> 0" using f by (simp_all add: fits_def)
  have b: "prop_buffer L (phys_range_prop s) (phys_range_prop_size s) (8 * int (length (phys_range s) + 1) + 1)"
    "prop_buffer L (virt_range_prop s) (virt_range_prop_size s) (8 * int (length (virt_range s) + 1) + 1)"
    "prop_buffer L (trans_prop s) (trans_prop_size s) (16 * int (length (trans s)))" using f False by (simp_all add: fits_def)
  from update_available_held [OF h ph(1,1) b(1), of "phys_range_prop_used s" "get_ram_size s - 1"] obtain m1 w1 where 1:
    "ofmem_update_memory_available e (s_phandle_memory s) (phys_range s) (phys_range_prop s, phys_range_prop_size s, phys_range_prop_used s) (get_ram_size s - 1) s =
       Some ((phys_range_prop s, phys_range_prop_size s, phys_range_prop_used s), s\<lparr>hmem := m1, hworld := w1\<rparr>)"
    "held e (s\<lparr>hmem := m1, hworld := w1\<rparr>) L z"
    "\<And>x. unat x \<notin> ext (phys_range_prop s, word_of_int (phys_range_prop_size s)) \<Longrightarrow> m1 x = hmem s x" by blast
  let ?s1 = "s\<lparr>hmem := m1, hworld := w1\<rparr>"
  have "s_phandle_memory ?s1 \<noteq> 0" "s_phandle_mmu s \<noteq> 0" using ph by simp_all
  from update_available_held [OF 1(2) this b(2), of "virt_range_prop_used s" "ofmem_arch_get_virt_top - 1"] obtain m2 w2 where 2:
    "ofmem_update_memory_available e (s_phandle_mmu s) (virt_range s) (virt_range_prop s, virt_range_prop_size s, virt_range_prop_used s) (ofmem_arch_get_virt_top - 1) ?s1 =
       Some ((virt_range_prop s, virt_range_prop_size s, virt_range_prop_used s), s\<lparr>hmem := m2, hworld := w2\<rparr>)"
    "held e (s\<lparr>hmem := m2, hworld := w2\<rparr>) L z"
    "\<And>x. unat x \<notin> ext (virt_range_prop s, word_of_int (virt_range_prop_size s)) \<Longrightarrow> m2 x = m1 x" by auto
  let ?s2 = "s\<lparr>hmem := m2, hworld := w2\<rparr>"
  have "s_phandle_mmu ?s2 \<noteq> 0" "prop_buffer L (trans_prop ?s2) (trans_prop_size ?s2) (16 * int (length (trans ?s2)))" using ph b(3) by simp_all
  from update_mmu_held [OF 2(2) this] obtain m3 w3 where 3: "ofmem_update_mmu_translations e ?s2 = Some (?s2\<lparr>hmem := m3, hworld := w3\<rparr>)"
    "held e (?s2\<lparr>hmem := m3, hworld := w3\<rparr>) L z" "\<And>x. unat x \<notin> ext (trans_prop ?s2, word_of_int (trans_prop_size ?s2)) \<Longrightarrow> m3 x = hmem ?s2 x"
    by blast
  have "ofmem_update_translations e s = Some (s\<lparr>hmem := m3, hworld := w3\<rparr>)"
    using 1(1) 2(1) 3(1) by (simp add: ofmem_update_translations_def Let_def)
  moreover have "held e (s\<lparr>hmem := m3, hworld := w3\<rparr>) L z" using 3(2) by simp
  moreover have "\<forall>x. (\<forall>a \<in> bufs s. unat x \<notin> ext a) \<longrightarrow> m3 x = hmem s x" using 1(3) 2(3) 3(3) by (simp add: bufs_def)
  ultimately show ?thesis by blast
qed

text \<open>
  C19: The \<open>available\<close> property. With both packages registered and a buffer large enough, the update
  returns; \<open>encode-property\<close> is given the buffer, which holds pairs of cells, start and size, and only the buffer's bytes
  change. The pairs stand for the addresses up to \<open>top\<close> that no range starting below \<open>top\<close> claims, if there is such a
  range; when none of these ranges starts at \<open>top\<close> itself these are exactly the free addresses up to \<open>top\<close>. The two other
  cases are defects of the code: with no range below \<open>top\<close> no pair is written, though all is free, and a range that starts
  at \<open>top\<close> does not keep the address \<open>top\<close> from being listed.
\<close>

theorem available_published:
  assumes "wf_ranges rs" and "s_phandle_memory s \<noteq> 0" and "ph \<noteq> 0" and "held e s L z"
    and "prop_buffer L p n (8 * int (length rs + 1) + 1)"
  shows "\<exists>m cs. ofmem_update_memory_available e ph rs (p, n, u) tp s = Some ((p, n, u),
      s\<lparr>hmem := m, hworld := of_encode_property e m p (of_nat (4 * length cs)) ''available'' ph (hworld s)\<rparr>) \<and>
    cells_at m p cs \<and> even (length cs) \<and> (\<forall>x. unat x \<notin> ext (p, word_of_int n) \<longrightarrow> m x = hmem s x) \<and>
    pair_addrs cs = (if below tp rs = [] then {} else {.. unat tp} - claimed (below tp rs)) \<and>
    ((\<forall>r \<in> set rs. rg_start r \<noteq> tp) \<and> below tp rs \<noteq> [] \<longrightarrow> pair_addrs cs = {.. unat tp} - claimed rs)"
proof -
  have n: "(p, word_of_int n) \<in> L" "8 * int (length rs + 1) + 1 \<le> n" "n < 2 ^ 31" "0 \<le> n" using assms(5) by (simp_all add: prop_buffer_def)
  note hb = held_buffer [OF assms(4) n(1), unfolded unat_prop_size [OF n(4,3)]]
  have ev: "even (length (available tp rs))" using gaps_length [of tp 0 rs] by (simp add: available_def case_prod_beta Let_def)
  note ab = available_below [OF assms(1), of tp]
  from update_available_ok [OF assms(2,3) hb(2,1) n(2,3), of e u tp] hb(3) obtain m where
    "ofmem_update_memory_available e ph rs (p, n, u) tp s = Some ((p, n, u),
      s\<lparr>hmem := m, hworld := of_encode_property e m p (of_nat (4 * length (available tp rs))) ''available'' ph (hworld s)\<rparr>)"
    "cells_at m p (available tp rs)" "\<forall>x. unat x \<notin> ext (p, word_of_int n) \<longrightarrow> m x = hmem s x" by blast
  then show ?thesis using ev ab claimed_below [of rs tp] by (intro exI [of _ m] exI [of _ "available tp rs"] conjI) auto
qed

definition demo_ofmem :: "ucell \<Rightarrow> unit ofmem" where
  "demo_ofmem ph = \<lparr>next_malloc = 0, mfree = 0, hmem = hmem demo_heap, hworld = (), ramsize = 0x1800000, phys_range = [], virt_range = [],
     io_range = [], trans = [], s_phandle_memory = ph, s_phandle_mmu = ph, trans_prop = 0, trans_prop_size = 0, trans_prop_used = 0,
     phys_range_prop = 0, phys_range_prop_size = 0, phys_range_prop_used = 0, virt_range_prop = 0, virt_range_prop_size = 0,
     virt_range_prop_used = 0, next_grab_slot = 0\<rparr>"

lemma demo_held: "held demo_env (demo_ofmem ph) {} z"
proof -
  have "heap_ok demo_env (demo_ofmem ph) [] {}"
    using demo_fresh by (simp add: demo_ofmem_def fresh_heap_def heap_ok_def heap_start_def blocks_ok_def)
  then show ?thesis by (auto simp: held_def)
qed

lemma demo_room: "unat (heap_start demo_env (demo_ofmem ph)) = 0x11100000"
  by (simp add: heap_start_def demo_ofmem_def demo_env_def)

theorem available_published_witness:
  "\<exists>s p m cs. ofmem_update_memory_available demo_env 5 [\<lparr>rg_node = 0, rg_start = 0, rg_size = 0x4000\<rparr>] (p, 2048, 0) 0x17fffff s =
       Some ((p, 2048, 0), s\<lparr>hmem := m, hworld := ()\<rparr>) \<and> cells_at m p cs \<and> pair_addrs cs = {.. 0x17fffff} - {..< 0x4000}"
proof -
  let ?rs = "[\<lparr>rg_node = 0, rg_start = 0, rg_size = 0x4000\<rparr>] :: range list"
  have "(2048 :: ucell) \<noteq> 0" "unat (heap_start demo_env (demo_ofmem 5)) + unat (2048 :: ucell) + 19 \<le> unat HASH_BASE"
    by (simp_all add: demo_room)
  from malloc_room [OF demo_held [where z = id] this] obtain p s y where s: "held demo_env s {(p, 2048)} (id(p := y))" "heap.more s = heap.more (demo_ofmem 5)" by blast
  have ph: "s_phandle_memory s \<noteq> 0" using arg_cong [OF s(2), of "\<lambda>r. s_phandle_memory (heap.extend undefined r)"]
    by (cases s) (simp add: demo_ofmem_def heap.defs)
  have h: "wf_ranges ?rs" "(\<forall>r \<in> set ?rs. rg_start r \<noteq> 0x17fffff) \<and> below 0x17fffff ?rs \<noteq> []" "(5 :: ucell) \<noteq> 0"
    by (simp_all add: below_def)
  have b: "prop_buffer {(p, 2048)} p 2048 (8 * int (length ?rs + 1) + 1)" by (simp add: prop_buffer_def)
  from available_published [OF h(1) ph h(3) s(1) b, of 0 "0x17fffff"] h(2) obtain m cs where
    m: "ofmem_update_memory_available demo_env 5 ?rs (p, 2048, 0) 0x17fffff s = Some ((p, 2048, 0),
      s\<lparr>hmem := m, hworld := of_encode_property demo_env m p (of_nat (4 * length cs)) ''available'' 5 (hworld s)\<rparr>)"
    "cells_at m p cs" "pair_addrs cs = {.. unat (0x17fffff :: ucell)} - claimed ?rs" by blast
  have c: "claimed ?rs = {..< 0x4000}" by (auto simp: claimed_def cells_of_def)
  have u: "unat (0x17fffff :: ucell) = 0x17fffff" by simp
  have w: "of_encode_property demo_env m p (of_nat (4 * length cs)) ''available'' 5 (hworld s) = ()" by simp
  show ?thesis using m(1) [unfolded w] m(2) m(3) [unfolded c u] by blast
qed

end
