(* ===== verification/Ofmem_Trans.thy ===== *)
theory Ofmem_Trans
  imports Ofmem_Props "HOL-Library.Multiset"
begin

text \<open>
  Translations. The list of translations is a finite map from virtual addresses to physical
  addresses and modes; \<open>ofmem_map\<close> is an update of that map on a range, \<open>ofmem_unmap\<close> of part of one
  mapping a removal, \<open>ofmem_translate\<close> its lookup. The list stays sorted and free of overlaps. The nodes
  of the list are blocks of the heap: splitting allocates, dropping frees.
\<close>

subsection \<open>The list as a map\<close>

definition tr_span :: "translation \<Rightarrow> nat set" where
  "tr_span t = {unat (tr_virt t) ..< unat (tr_virt t) + unat (tr_size t)}"

definition tr_at :: "ucell \<Rightarrow> translation \<Rightarrow> ucell \<times> ucell" where
  "tr_at v t = (tr_phys t + (v - tr_virt t), tr_mode t)"

fun xlate :: "translation list \<Rightarrow> ucell \<Rightarrow> (ucell \<times> ucell) option" where
  "xlate [] v = None"
| "xlate (t # ts) v = (if unat v \<in> tr_span t then Some (tr_at v t) else xlate ts v)"

definition page_aligned :: "ucell \<Rightarrow> bool" where
  "page_aligned v \<longleftrightarrow> 4096 dvd unat v"

text \<open>A well-formed list: whole pages, none empty or past the last address, sorted, no overlap.\<close>

definition ok_trans :: "translation \<Rightarrow> bool" where
  "ok_trans t \<longleftrightarrow> page_aligned (tr_virt t) \<and> page_aligned (tr_size t) \<and> tr_size t \<noteq> 0 \<and> unat (tr_virt t) + unat (tr_size t) \<le> 2 ^ 32"

fun wf_trans :: "translation list \<Rightarrow> bool" where
  "wf_trans [] = True"
| "wf_trans (t # ts) = (ok_trans t \<and> list_all (\<lambda>u. unat (tr_virt t) + unat (tr_size t) \<le> unat (tr_virt u)) ts \<and> wf_trans ts)"

lemma wf_trans_ok: "wf_trans ts \<Longrightarrow> t \<in> set ts \<Longrightarrow> ok_trans t"
  by (induction ts) auto

lemma xlate_Some: "xlate ts v = Some r \<Longrightarrow> \<exists>t \<in> set ts. unat v \<in> tr_span t \<and> r = tr_at v t"
  by (induction ts) (auto split: if_splits)

lemma xlate_None: "xlate ts v = None \<longleftrightarrow> (\<forall>t \<in> set ts. unat v \<notin> tr_span t)"
  by (induction ts) auto

lemma xlate_append: "xlate (xs @ ys) v = (case xlate xs v of None \<Rightarrow> xlate ys v | Some r \<Rightarrow> Some r)"
  by (induction xs) auto

lemma wf_trans_append:
  "wf_trans (xs @ ys) \<longleftrightarrow> wf_trans xs \<and> wf_trans ys \<and>
     (\<forall>t \<in> set xs. \<forall>u \<in> set ys. unat (tr_virt t) + unat (tr_size t) \<le> unat (tr_virt u))"
  by (induction xs) (auto simp: list_all_iff)

text \<open>The lookup of the code is the lookup of the map.\<close>

lemma translate_loop_xlate:
  "wf_trans ts \<Longrightarrow> translate_loop v ts mode = (case xlate ts v of None \<Rightarrow> (- 1, mode) | Some r \<Rightarrow> r)"
proof (induction ts)
  case (Cons t ts)
  have ok: "tr_size t \<noteq> 0" "unat (tr_virt t) + unat (tr_size t) \<le> 2 ^ 32" using Cons.prems by (simp_all add: ok_trans_def)
  have last: "tr_virt t + tr_size t - 1 < v \<longleftrightarrow> unat (tr_virt t) + unat (tr_size t) \<le> unat v"
    using le_last_iff [OF ok, of v] by (simp add: not_le [symmetric] not_less)
  show ?case
  proof (cases "tr_virt t \<le> v")
    case True
    then show ?thesis using Cons last by (auto simp: tr_span_def tr_at_def word_le_nat_alt)
  next
    case False
    then have v: "unat v < unat (tr_virt t)" by (simp add: word_le_nat_alt)
    have "unat v \<notin> tr_span u" if "u \<in> set (t # ts)" for u
      using that v Cons.prems by (auto simp: tr_span_def list_all_iff)
    then have "xlate (t # ts) v = None" by (simp add: xlate_None)
    then show ?thesis using False by simp
  qed
qed simp

subsection \<open>Nodes\<close>

text \<open>
  The state \<open>s\<close> holds the areas \<open>R\<close> and a node for every entry of \<open>ts\<close>; \<open>kept\<close> relates it to a later
  state in which the bytes of \<open>R\<close> and all but the heap are as before.
\<close>

definition tr_nodes :: "translation list \<Rightarrow> block set" where
  "tr_nodes ts = (\<lambda>t. (tr_node t, sizeof_translation)) ` set ts"

definition own :: "'w ofenv \<Rightarrow> 'w ofmem \<Rightarrow> block set \<Rightarrow> translation list \<Rightarrow> bool" where
  "own e s R ts \<longleftrightarrow> (\<exists>z. held e s (R \<union> tr_nodes ts) z) \<and> distinct (map tr_node ts) \<and> fst ` R \<inter> tr_node ` set ts = {}"

definition kept :: "block set \<Rightarrow> 'w ofmem \<Rightarrow> 'w ofmem \<Rightarrow> bool" where
  "kept R s s' \<longleftrightarrow> heap.more s' = heap.more s \<and> hworld s' = hworld s \<and> (\<forall>a \<in> R. \<forall>x. unat x \<in> ext a \<longrightarrow> hmem s' x = hmem s x)"

definition room_for :: "'w ofenv \<Rightarrow> nat \<Rightarrow> 'w ofmem \<Rightarrow> bool" where
  "room_for e n s \<longleftrightarrow> unat (heap_start e s) + n \<le> unat HASH_BASE"

lemma kept_refl [simp]: "kept R s s"
  by (simp add: kept_def)

lemma kept_trans: "kept R s s' \<Longrightarrow> kept R s' s'' \<Longrightarrow> kept R s s''"
  by (simp add: kept_def)

lemma kept_subset: "kept R s s' \<Longrightarrow> Q \<subseteq> R \<Longrightarrow> kept Q s s'"
  by (auto simp: kept_def)

lemma own_Cons: "own e s R (t # ts) \<longleftrightarrow> own e s (insert (tr_node t, sizeof_translation) R) ts \<and> tr_node t \<notin> fst ` R"
  by (auto simp: own_def tr_nodes_def)

lemma own_mset:
  assumes "image_mset tr_node (mset ts') = image_mset tr_node (mset ts)"
  shows "own e s R ts' = own e s R ts"
proof -
  have m: "mset (map tr_node ts') = mset (map tr_node ts)" using assms by simp
  have st: "tr_node ` set ts' = tr_node ` set ts" using arg_cong [OF m, of set_mset] by simp
  have "tr_nodes us = (\<lambda>u. (u, sizeof_translation)) ` (tr_node ` set us)" for us by (simp add: tr_nodes_def image_image)
  then have "tr_nodes ts' = tr_nodes ts" by (simp only: st)
  moreover have "distinct (map tr_node ts') = distinct (map tr_node ts)" by (rule mset_eq_imp_distinct_iff [OF m])
  ultimately show ?thesis using st by (simp add: own_def)
qed

lemma own_new:
  assumes "own e s R ts" and "room_for e 39 s"
  shows "\<exists>u s'. new_node e sizeof_translation s = Some (u, s') \<and> (\<forall>t. tr_node t = u \<longrightarrow> own e s' R (t # ts)) \<and> kept R s s' \<and>
    unat (heap_start e s') \<le> unat (heap_start e s) + 31"
proof -
  from assms(1) obtain z where z: "held e s (R \<union> tr_nodes ts) z" by (auto simp: own_def)
  have "unat (heap_start e s) + unat sizeof_translation + 19 \<le> unat HASH_BASE" using assms(2) by (simp add: room_for_def)
  from malloc_room [OF z _ this] obtain u s' y where u: "ofmem_malloc e sizeof_translation s = Some (u, s')" "u \<noteq> 0"
    "u \<notin> fst ` (R \<union> tr_nodes ts)" "held e s' (insert (u, sizeof_translation) (R \<union> tr_nodes ts)) (z(u := y))"
    "\<forall>a \<in> R \<union> tr_nodes ts. \<forall>x. unat x \<in> ext a \<longrightarrow> hmem s' x = hmem s x" "heap.more s' = heap.more s" "hworld s' = hworld s"
    "unat (heap_start e s') \<le> unat (heap_start e s) + unat sizeof_translation + 11" by auto
  have "own e s' R (t # ts)" if "tr_node t = u" for t
  proof -
    have "R \<union> tr_nodes (t # ts) = insert (u, sizeof_translation) (R \<union> tr_nodes ts)" using that by (auto simp: tr_nodes_def)
    then have "\<exists>z. held e s' (R \<union> tr_nodes (t # ts)) z" using u(4) by auto
    moreover have "u \<notin> fst ` R" "u \<notin> tr_node ` set ts" using u(3) by (auto simp: tr_nodes_def image_Un image_image)
    ultimately show ?thesis using assms(1) that by (auto simp: own_def)
  qed
  then show ?thesis using u by (auto simp: new_node_def kept_def)
qed

lemma own_free:
  assumes "own e s R (t # ts)"
  shows "\<exists>s'. ofmem_free (tr_node t) s = Some s' \<and> own e s' R ts \<and> kept R s s' \<and> heap_start e s' = heap_start e s"
proof -
  let ?L = "R \<union> tr_nodes (t # ts)"
  from assms obtain z where z: "held e s ?L z" by (auto simp: own_def)
  have "(tr_node t, sizeof_translation) \<in> ?L" by (simp add: tr_nodes_def)
  from free_held [OF z this] obtain s' where s': "ofmem_free (tr_node t) s = Some s'" "held e s' (?L - {(tr_node t, sizeof_translation)}) z"
    "heap.more s' = heap.more s" "hworld s' = hworld s" "heap_start e s' = heap_start e s"
    "\<And>a x. a \<in> ?L - {(tr_node t, sizeof_translation)} \<Longrightarrow> unat x \<in> ext a \<Longrightarrow> hmem s' x = hmem s x" by blast
  have "?L - {(tr_node t, sizeof_translation)} = R \<union> tr_nodes ts" using assms by (auto simp: own_def tr_nodes_def image_iff)
  then show ?thesis using s' assms by (auto simp: own_def kept_def)
qed

text \<open>Dropping translations frees their nodes.\<close>

lemma drop_remapped_ok:
  "own e s R ts \<Longrightarrow> \<exists>s'. drop_remapped v sz ts s = Some (filter (\<lambda>t. \<not> remapped v sz t) ts, s') \<and>
    own e s' R (filter (\<lambda>t. \<not> remapped v sz t) ts) \<and> kept R s s' \<and> heap_start e s' = heap_start e s"
proof (induction ts arbitrary: R s)
  case (Cons t ts)
  show ?case
  proof (cases "remapped v sz t")
    case True
    from own_free [OF Cons.prems] obtain s1 where s1: "ofmem_free (tr_node t) s = Some s1" "own e s1 R ts" "kept R s s1"
      "heap_start e s1 = heap_start e s" by blast
    from Cons.IH [OF s1(2)] s1 True show ?thesis by (auto simp: ofmem_arch_unmap_pages_def intro: kept_trans)
  next
    case False
    from Cons.prems have o: "own e s (insert (tr_node t, sizeof_translation) R) ts" "tr_node t \<notin> fst ` R" by (simp_all add: own_Cons)
    from Cons.IH [OF o(1)] obtain s' where "drop_remapped v sz ts s = Some (filter (\<lambda>t. \<not> remapped v sz t) ts, s')"
      "own e s' (insert (tr_node t, sizeof_translation) R) (filter (\<lambda>t. \<not> remapped v sz t) ts)"
      "kept (insert (tr_node t, sizeof_translation) R) s s'" "heap_start e s' = heap_start e s" by blast
    then show ?thesis using False o(2) by (auto simp: own_Cons elim: kept_subset)
  qed
qed simp

subsection \<open>Splitting\<close>

text \<open>No translation has \<open>v\<close> strictly inside.\<close>

definition cut :: "ucell \<Rightarrow> translation list \<Rightarrow> bool" where
  "cut v ts \<longleftrightarrow> (\<forall>t \<in> set ts. \<not> (unat (tr_virt t) < unat v \<and> unat v < unat (tr_virt t) + unat (tr_size t)))"

lemma split_test:
  assumes "ok_trans t" and "page_aligned v"
  shows "tr_virt t < v \<and> v < tr_virt t + tr_size t - 1 \<longleftrightarrow> unat (tr_virt t) < unat v \<and> unat v < unat (tr_virt t) + unat (tr_size t)"
proof -
  have ok: "tr_size t \<noteq> 0" "unat (tr_virt t) + unat (tr_size t) \<le> 2 ^ 32" using assms(1) by (simp_all add: ok_trans_def)
  have pos: "0 < unat (tr_size t)" using ok(1) by (simp add: unat_gt_0)
  have al: "4096 dvd unat (tr_virt t) + unat (tr_size t)" "4096 dvd unat v"
    using assms by (simp_all add: ok_trans_def page_aligned_def)
  have "unat v \<noteq> unat (tr_virt t) + unat (tr_size t) - 1"
  proof
    assume "unat v = unat (tr_virt t) + unat (tr_size t) - 1"
    then have "Suc (unat v) = unat (tr_virt t) + unat (tr_size t)" using pos by simp
    then have "4096 dvd Suc (unat v) - unat v" using al by (intro dvd_diff_nat) simp_all
    then show False by simp
  qed
  then show ?thesis using unat_last [OF ok] pos by (auto simp: word_less_nat_alt)
qed

lemma split_loop_id: "\<forall>t \<in> set ts. v \<le> tr_virt t \<Longrightarrow> split_loop e v ts s = Some (ts, s)"
  by (induction ts) auto

text \<open>An interval within one translation stays within one when the list is split outside it.\<close>

definition within :: "nat \<Rightarrow> nat \<Rightarrow> translation list \<Rightarrow> bool" where
  "within a b ts \<longleftrightarrow> (\<exists>t \<in> set ts. {a ..< b} \<subseteq> tr_span t)"

definition keeps_within :: "ucell \<Rightarrow> translation list \<Rightarrow> translation list \<Rightarrow> bool" where
  "keeps_within v ts ts' \<longleftrightarrow> (\<forall>a b. within a b ts \<longrightarrow> unat v \<le> a \<or> b \<le> unat v \<longrightarrow> within a b ts')"

text \<open>The two halves of a translation split at \<open>v\<close>.\<close>

definition lower :: "ucell \<Rightarrow> translation \<Rightarrow> translation" where
  "lower v t = t\<lparr>tr_size := v - tr_virt t\<rparr>"

definition upper :: "ucell \<Rightarrow> ucell \<Rightarrow> translation \<Rightarrow> translation" where
  "upper u v t = \<lparr>tr_node = u, tr_virt = v, tr_size = tr_size t - (v - tr_virt t), tr_phys = tr_phys t + (v - tr_virt t), tr_mode = tr_mode t\<rparr>"

lemma halves:
  assumes "ok_trans t" and "page_aligned v" and "unat (tr_virt t) < unat v" and "unat v < unat (tr_virt t) + unat (tr_size t)"
  shows "ok_trans (lower v t)" and "ok_trans (upper u v t)"
    and "unat (tr_virt t) + unat (tr_size (lower v t)) = unat v"
    and "unat v + unat (tr_size (upper u v t)) = unat (tr_virt t) + unat (tr_size t)"
    and "xlate [lower v t, upper u v t] w = xlate [t] w"
proof -
  have d: "unat (v - tr_virt t) = unat v - unat (tr_virt t)" using assms(3) by (intro unat_diff) simp
  then have d2: "unat (tr_size t - (v - tr_virt t)) = unat (tr_size t) - (unat v - unat (tr_virt t))"
    using assms(3,4) by (subst unat_diff) simp_all
  show l: "unat (tr_virt t) + unat (tr_size (lower v t)) = unat v" using d assms(3) by (simp add: lower_def)
  show r: "unat v + unat (tr_size (upper u v t)) = unat (tr_virt t) + unat (tr_size t)" using d2 assms(3,4) by (simp add: upper_def)
  have al: "4096 dvd unat (tr_virt t)" "4096 dvd unat (tr_size t)" "4096 dvd unat v"
    using assms(1,2) by (simp_all add: ok_trans_def page_aligned_def)
  have "unat (tr_size (lower v t)) = unat v - unat (tr_virt t)" using l by simp
  then have "4096 dvd unat (tr_size (lower v t))" using al by (simp add: dvd_diff_nat)
  moreover have "tr_size (lower v t) \<noteq> 0" using l assms(3) by auto
  ultimately show "ok_trans (lower v t)" using assms(1,4) l by (auto simp: ok_trans_def page_aligned_def lower_def)
  have "unat (tr_size (upper u v t)) = unat (tr_virt t) + unat (tr_size t) - unat v" using r by simp
  then have "4096 dvd unat (tr_size (upper u v t))" using al by (simp add: dvd_diff_nat)
  moreover have "tr_size (upper u v t) \<noteq> 0" using r assms(4) by auto
  ultimately show "ok_trans (upper u v t)" using assms(1,2) r by (auto simp: ok_trans_def page_aligned_def upper_def)
  have "tr_at w (upper u v t) = tr_at w t" "tr_at w (lower v t) = tr_at w t" by (simp_all add: tr_at_def upper_def lower_def)
  moreover have "tr_span t = tr_span (lower v t) \<union> tr_span (upper u v t)"
    using l r assms(3,4) by (auto simp: tr_span_def lower_def upper_def)
  ultimately show "xlate [lower v t, upper u v t] w = xlate [t] w" by simp
qed

lemma split_loop_ok:
  assumes al: "page_aligned v"
  shows "own e s R ts \<Longrightarrow> wf_trans ts \<Longrightarrow> room_for e 39 s \<Longrightarrow>
    \<exists>ts' s'. split_loop e v ts s = Some (ts', s') \<and> own e s' R ts' \<and> kept R s s' \<and> unat (heap_start e s') \<le> unat (heap_start e s) + 31 \<and>
      wf_trans ts' \<and> length ts' \<le> Suc (length ts) \<and> keeps_within v ts ts' \<and> xlate ts' = xlate ts \<and> cut v ts' \<and> (\<forall>w. cut w ts \<longrightarrow> cut w ts') \<and>
      (\<forall>n. (\<forall>t \<in> set ts. n \<le> unat (tr_virt t)) \<longrightarrow> (\<forall>t \<in> set ts'. n \<le> unat (tr_virt t)))"
proof (induction ts arbitrary: R s)
  case Nil
  then show ?case by (auto simp: cut_def keeps_within_def)
next
  case (Cons t ts)
  have ok: "ok_trans t" and wf: "wf_trans ts" and nxt: "\<forall>u \<in> set ts. unat (tr_virt t) + unat (tr_size t) \<le> unat (tr_virt u)"
    using Cons.prems(2) by (simp_all add: list_all_iff)
  note o = Cons.prems(1) [unfolded own_Cons]
  show ?case
  proof (cases "unat (tr_virt t) < unat v \<and> unat v < unat (tr_virt t) + unat (tr_size t)")
    case True
    from own_new [OF Cons.prems(1,3)] obtain u s1 where s1: "new_node e sizeof_translation s = Some (u, s1)"
      "\<And>x. tr_node x = u \<Longrightarrow> own e s1 R (x # t # ts)" "kept R s s1" "unat (heap_start e s1) \<le> unat (heap_start e s) + 31" by blast
    note h = halves(1,3) [OF ok al conjunct1 [OF True] conjunct2 [OF True]]
      halves(2,4,5) [OF ok al conjunct1 [OF True] conjunct2 [OF True], where u = u]
    have idl: "split_loop e v ts s1 = Some (ts, s1)"
      using nxt True by (intro split_loop_id) (auto simp: word_le_nat_alt)
    have "split_loop e v (t # ts) s = Some (lower v t # upper u v t # ts, s1)"
      using split_test [OF ok al] True s1(1) idl by (simp add: lower_def upper_def Let_def)
    moreover have "own e s1 R (lower v t # upper u v t # ts)"
    proof -
      have "own e s1 R (lower v t # upper u v t # ts) = own e s1 R (upper u v t # t # ts)"
        by (rule own_mset) (simp add: upper_def lower_def add_mset_commute)
      then show ?thesis using s1(2) [of "upper u v t"] by (simp add: upper_def)
    qed
    moreover have "wf_trans (lower v t # upper u v t # ts)"
      using h wf nxt True by (auto simp: list_all_iff upper_def lower_def)
    moreover have "xlate (lower v t # upper u v t # ts) = xlate (t # ts)"
      using h(5) xlate_append [of "[lower v t, upper u v t]" ts] xlate_append [of "[t]" ts] by (auto simp: fun_eq_iff)
    moreover have "cut v (lower v t # upper u v t # ts)"
      using h(2) nxt True by (auto simp: cut_def upper_def lower_def)
    moreover have "cut w (t # ts) \<longrightarrow> cut w (lower v t # upper u v t # ts)" for w
      using h(2,4) True by (auto simp: cut_def upper_def lower_def)
    moreover have "\<forall>x \<in> set (lower v t # upper u v t # ts). n \<le> unat (tr_virt x)" if "\<forall>x \<in> set (t # ts). n \<le> unat (tr_virt x)" for n
      using that True by (auto simp: upper_def lower_def)
    moreover have "length (lower v t # upper u v t # ts) \<le> Suc (length (t # ts))" by simp
    moreover have "keeps_within v (t # ts) (lower v t # upper u v t # ts)"
      using h(2,4) True by (auto simp: keeps_within_def within_def tr_span_def upper_def lower_def subset_eq)
    ultimately show ?thesis using s1(3,4) by blast
  next
    case False
    from Cons.IH [OF conjunct1 [OF o] wf Cons.prems(3)] obtain ts' s' where r: "split_loop e v ts s = Some (ts', s')"
      "own e s' (insert (tr_node t, sizeof_translation) R) ts'" "kept (insert (tr_node t, sizeof_translation) R) s s'"
      "unat (heap_start e s') \<le> unat (heap_start e s) + 31" "wf_trans ts'" "xlate ts' = xlate ts" "cut v ts'" "\<And>w. cut w ts \<Longrightarrow> cut w ts'"
      "length ts' \<le> Suc (length ts)" "\<And>n. \<forall>t \<in> set ts. n \<le> unat (tr_virt t) \<Longrightarrow> \<forall>t \<in> set ts'. n \<le> unat (tr_virt t)"
      "keeps_within v ts ts'" by blast
    have "split_loop e v (t # ts) s = Some (t # ts', s')" using split_test [OF ok al] False r(1) by auto
    moreover have "own e s' R (t # ts')" using r(2) o by (simp add: own_Cons)
    moreover have "wf_trans (t # ts')" using ok r(5) r(10) [OF nxt] by (simp add: list_all_iff)
    moreover have "kept R s s'" using r(3) by (rule kept_subset) blast
    moreover have "cut v (t # ts')" using False r(7) by (auto simp: cut_def)
    moreover have "cut w (t # ts')" if "cut w (t # ts)" for w using that r(8) [of w] by (auto simp: cut_def)
    moreover have "\<forall>x \<in> set (t # ts'). n \<le> unat (tr_virt x)" if "\<forall>x \<in> set (t # ts). n \<le> unat (tr_virt x)" for n
      using that r(10) [of n] by simp
    moreover have "xlate (t # ts') = xlate (t # ts)" using r(6) by (simp add: fun_eq_iff)
    moreover have "length (t # ts') \<le> Suc (length (t # ts))" "keeps_within v (t # ts) (t # ts')"
      using r(9,11) by (auto simp: keeps_within_def within_def)
    ultimately show ?thesis using r(4) by blast
  qed
qed

subsection \<open>A new mapping\<close>

lemma unat_end: "unat v + unat sz < 2 ^ 32 \<Longrightarrow> unat (v + sz :: ucell) = unat v + unat sz"
  by (rule unat_add_no_wrap) simp

text \<open>Between two cuts, the translations that start in the range are those that lie in it.\<close>

lemma remapped_iff:
  assumes "cut v ts" and "unat v + unat sz < 2 ^ 32" and "sz \<noteq> 0" and "t \<in> set ts" and "ok_trans t"
  shows "remapped v sz t \<longleftrightarrow> unat v \<le> unat (tr_virt t) \<and> unat (tr_virt t) < unat v + unat sz"
    and "\<not> remapped v sz t \<Longrightarrow> unat (tr_virt t) + unat (tr_size t) \<le> unat v \<or> unat v + unat sz \<le> unat (tr_virt t)"
proof -
  have "0 < unat sz" "0 < unat (tr_size t)" using assms(3,5) by (simp_all add: unat_gt_0 ok_trans_def)
  then show r: "remapped v sz t \<longleftrightarrow> unat v \<le> unat (tr_virt t) \<and> unat (tr_virt t) < unat v + unat sz"
    using unat_end [OF assms(2)] by (auto simp: remapped_def word_less_nat_alt word_unat_eq_iff)
  have "\<not> (unat (tr_virt t) < unat v \<and> unat v < unat (tr_virt t) + unat (tr_size t))" using assms(1,4) by (auto simp: cut_def)
  then show "unat (tr_virt t) + unat (tr_size t) \<le> unat v \<or> unat v + unat sz \<le> unat (tr_virt t)" if "\<not> remapped v sz t"
    using that r by linarith
qed

lemma wf_filter: "wf_trans ts \<Longrightarrow> wf_trans (filter P ts)"
  by (induction ts) (auto simp: list_all_iff)

lemma insert_trans_mset: "mset (insert_trans n ts) = add_mset n (mset ts)"
  by (induction ts) auto

lemma insert_trans_length: "length (insert_trans n ts) = Suc (length ts)"
  by (induction ts) auto

lemma insert_trans_set: "set (insert_trans n ts) = insert n (set ts)"
  using arg_cong [OF insert_trans_mset, of set_mset] by simp

lemma insert_trans_wf:
  assumes "ok_trans n"
  shows "wf_trans ts \<Longrightarrow> \<forall>t \<in> set ts. unat (tr_virt t) + unat (tr_size t) \<le> unat (tr_virt n) \<or> unat (tr_virt n) + unat (tr_size n) \<le> unat (tr_virt t) \<Longrightarrow>
    wf_trans (insert_trans n ts) \<and> xlate (insert_trans n ts) w = xlate (n # ts) w"
proof (induction ts)
  case Nil
  then show ?case using assms by simp
next
  case (Cons t ts)
  have pos: "0 < unat (tr_size n)" "0 < unat (tr_size t)" using assms Cons.prems(1) by (simp_all add: ok_trans_def unat_gt_0)
  have sep: "unat (tr_virt t) + unat (tr_size t) \<le> unat (tr_virt n) \<or> unat (tr_virt n) + unat (tr_size n) \<le> unat (tr_virt t)"
    using Cons.prems(2) by simp
  show ?case
  proof (cases "tr_virt t < tr_virt n")
    case True
    then have lt: "unat (tr_virt t) + unat (tr_size t) \<le> unat (tr_virt n)" using sep pos by (simp add: word_less_nat_alt)
    then have "\<not> (unat w \<in> tr_span t \<and> unat w \<in> tr_span n)" by (auto simp: tr_span_def)
    then show ?thesis using Cons True lt by (auto simp: list_all_iff insert_trans_set)
  next
    case False
    then have "unat (tr_virt n) + unat (tr_size n) \<le> unat (tr_virt t)" using sep pos by (simp add: word_less_nat_alt)
    then show ?thesis using False Cons.prems(1) assms by (auto simp: list_all_iff)
  qed
qed

definition xlate_set :: "ucell \<Rightarrow> ucell \<Rightarrow> ucell \<Rightarrow> ucell \<Rightarrow> (ucell \<Rightarrow> (ucell \<times> ucell) option) \<Rightarrow> ucell \<Rightarrow> (ucell \<times> ucell) option" where
  "xlate_set phys v sz mode f w =
     (if unat v \<le> unat w \<and> unat w < unat v + unat sz then Some (phys + (w - v), mode) else f w)"

lemma mapping_list:
  assumes wf: "wf_trans ts" and cuts: "cut v ts" "cut (v + sz) ts" and v: "page_aligned v" "page_aligned sz" "sz \<noteq> 0" "unat v + unat sz < 2 ^ 32"
    and n: "tr_virt n = v" "tr_size n = sz" "tr_phys n = phys" "tr_mode n = mode"
  shows "wf_trans (insert_trans n (filter (\<lambda>t. \<not> remapped v sz t) ts)) \<and>
    xlate (insert_trans n (filter (\<lambda>t. \<not> remapped v sz t) ts)) = xlate_set phys v sz mode (xlate ts)"
proof -
  let ?ts = "filter (\<lambda>t. \<not> remapped v sz t) ts"
  have okn: "ok_trans n" using v n by (simp add: ok_trans_def)
  note rm = remapped_iff [OF cuts(1) v(4,3)]
  have sep: "\<forall>t \<in> set ?ts. unat (tr_virt t) + unat (tr_size t) \<le> unat (tr_virt n) \<or> unat (tr_virt n) + unat (tr_size n) \<le> unat (tr_virt t)"
    using rm(2) wf_trans_ok [OF wf] n by auto
  have "xlate (n # ?ts) w = xlate_set phys v sz mode (xlate ts) w" for w
  proof (cases "unat v \<le> unat w \<and> unat w < unat v + unat sz")
    case True
    then show ?thesis using n by (simp add: xlate_set_def tr_span_def tr_at_def)
  next
    case False
    have "unat w \<notin> tr_span t" if t: "t \<in> set ts" "remapped v sz t" for t
    proof -
      have "unat v \<le> unat (tr_virt t) \<and> unat (tr_virt t) < unat v + unat sz" using rm(1) t wf_trans_ok [OF wf] by blast
      moreover have "\<not> (unat (tr_virt t) < unat v + unat sz \<and> unat v + unat sz < unat (tr_virt t) + unat (tr_size t))"
        using cuts(2) t(1) unat_end [OF v(4)] by (auto simp: cut_def)
      ultimately show ?thesis using False by (auto simp: tr_span_def)
    qed
    then have "xlate ?ts w = xlate ts w" by (induction ts) auto
    then show ?thesis using False n by (auto simp: xlate_set_def tr_span_def)
  qed
  then show ?thesis using insert_trans_wf [OF okn wf_filter [OF wf] sep] by (auto simp: fun_eq_iff)
qed

subsection \<open>The operations\<close>

text \<open>All of the state but the heap and the translations.\<close>

definition rest :: "'w ofmem \<Rightarrow> _" where
  "rest s = heap.more (s\<lparr>trans := []\<rparr>)"

lemma rest_simps [simp]:
  "rest (s\<lparr>trans := ts\<rparr>) = rest s" "rest (s\<lparr>hmem := m\<rparr>) = rest s" "rest (s\<lparr>hworld := w\<rparr>) = rest s"
  by (cases s; simp add: rest_def)+

lemma more_eqD:
  assumes "heap.more s' = heap.more s"
  shows "trans s' = trans s" and "rest s' = rest s" and "phys_range s' = phys_range s" and "virt_range s' = virt_range s" and "io_range s' = io_range s"
    and "ramsize s' = ramsize s"
  using assms by (cases s; cases s'; simp add: rest_def)+

lemma restD:
  assumes "rest s' = rest s"
  shows "phys_range s' = phys_range s" and "virt_range s' = virt_range s" and "io_range s' = io_range s" and "ramsize s' = ramsize s"
    and "s_phandle_memory s' = s_phandle_memory s" and "s_phandle_mmu s' = s_phandle_mmu s" and "bufs s' = bufs s"
    and "trans_prop s' = trans_prop s" and "trans_prop_size s' = trans_prop_size s" and "phys_range_prop s' = phys_range_prop s"
    and "phys_range_prop_size s' = phys_range_prop_size s" and "virt_range_prop s' = virt_range_prop s" and "virt_range_prop_size s' = virt_range_prop_size s"
  using assms by (cases s; cases s'; simp add: rest_def bufs_def)+

lemma held_trans [simp]: "held e (s\<lparr>trans := ts\<rparr>) L z = held e s L z"
  by (simp add: held_def heap_ok_def heap_start_def)

lemma own_trans [simp]: "own e (s\<lparr>trans := ts\<rparr>) R us = own e s R us"
  by (simp add: own_def)

lemma heap_start_trans [simp]: "heap_start e (s\<lparr>trans := ts\<rparr>) = heap_start e s"
  by (simp add: heap_start_def)

lemma room_for_trans [simp]: "room_for e n (s\<lparr>trans := ts\<rparr>) = room_for e n s"
  by (simp add: room_for_def)

text \<open>
  A state with a well-formed list of translations whose nodes it owns beside the areas \<open>R\<close>, among them
  the buffers of the properties with room for \<open>k\<close> more entries, and \<open>n\<close> bytes of heap left.
\<close>

definition trans_ok :: "'w ofenv \<Rightarrow> block set \<Rightarrow> nat \<Rightarrow> nat \<Rightarrow> 'w ofmem \<Rightarrow> bool" where
  "trans_ok e R k n s \<longleftrightarrow> own e s R (trans s) \<and> wf_trans (trans s) \<and> fits k R s \<and> room_for e n s"

lemma fits_mono:
  assumes "fits k R s" and "rest s' = rest s" and "length (trans s') + k' \<le> length (trans s) + k" and "k' \<le> k"
  shows "fits k' R s'"
  using assms(1,3,4) restD [OF assms(2)] by (auto simp: fits_def prop_buffer_def)

lemma split_trans_ok:
  assumes s: "trans_ok e R (Suc k) (n + 39) s" and v: "page_aligned v"
  shows "\<exists>s'. split_trans e v s = Some s' \<and> trans_ok e R k n s' \<and> rest s' = rest s \<and> xlate (trans s') = xlate (trans s) \<and>
    cut v (trans s') \<and> (\<forall>w. cut w (trans s) \<longrightarrow> cut w (trans s')) \<and> keeps_within v (trans s) (trans s')"
proof -
  have "room_for e 39 s" using s by (simp add: trans_ok_def room_for_def)
  with s split_loop_ok [OF v, of e s R "trans s"] obtain ts' s' where r: "split_loop e v (trans s) s = Some (ts', s')" "own e s' R ts'"
    "kept R s s'" "unat (heap_start e s') \<le> unat (heap_start e s) + 31" "wf_trans ts'" "length ts' \<le> Suc (length (trans s))"
    "xlate ts' = xlate (trans s)" "cut v ts'" "\<And>w. cut w (trans s) \<Longrightarrow> cut w ts'"
    "keeps_within v (trans s) ts'" unfolding trans_ok_def by blast
  have rs: "rest (s'\<lparr>trans := ts'\<rparr>) = rest s" using r(3) more_eqD(2) [of s' s] by (simp add: kept_def)
  have "fits k R (s'\<lparr>trans := ts'\<rparr>)"
    using s r(6) by (intro fits_mono [OF _ rs, of "Suc k"]) (simp_all add: trans_ok_def)
  then have "trans_ok e R k n (s'\<lparr>trans := ts'\<rparr>)" using r(2,4,5) s by (simp add: trans_ok_def room_for_def)
  then show ?thesis using r rs by (simp add: split_trans_def)
qed

lemma publish_ok:
  assumes "trans_ok e R k n s"
  shows "\<exists>s'. ofmem_update_translations e s = Some s' \<and> trans_ok e R k n s' \<and> rest s' = rest s \<and> trans s' = trans s"
proof -
  have o: "own e s R (trans s)" and f: "fits k R s" using assms by (simp_all add: trans_ok_def)
  from o obtain z where z: "held e s (R \<union> tr_nodes (trans s)) z" by (auto simp: own_def)
  have "fits 0 (R \<union> tr_nodes (trans s)) s" using fits_mono [OF f refl, of 0] by (auto simp: fits_def prop_buffer_def)
  from update_translations_held [OF z this] obtain m w where up: "ofmem_update_translations e s = Some (s\<lparr>hmem := m, hworld := w\<rparr>)"
    "held e (s\<lparr>hmem := m, hworld := w\<rparr>) (R \<union> tr_nodes (trans s)) z" by blast
  let ?s = "s\<lparr>hmem := m, hworld := w\<rparr>"
  have "own e ?s R (trans ?s)" using o up(2) by (auto simp: own_def)
  moreover have "fits k R ?s" "room_for e n ?s" "wf_trans (trans ?s)" using assms by (simp_all add: trans_ok_def fits_def room_for_def)
  ultimately have "trans_ok e R k n ?s" by (simp add: trans_ok_def)
  then show ?thesis using up(1) by (intro exI [of _ ?s]) simp
qed

text \<open>Mapping whole pages: the call returns, and the map is updated on the range.\<close>

lemma map_page_range_ok:
  assumes s: "trans_ok e R (Suc (Suc (Suc k))) (n + 39 + 39 + 39) s" and v: "page_aligned v" "page_aligned sz" "sz \<noteq> 0" "unat v + unat sz < 2 ^ 32"
  shows "\<exists>s'. ofmem_map_page_range e phys v sz mode s = Some (0, s') \<and> trans_ok e R k n s' \<and> rest s' = rest s \<and>
    xlate (trans s') = xlate_set phys v sz mode (xlate (trans s)) \<and> within (unat v) (unat v + unat sz) (trans s')"
proof -
  have e: "page_aligned (v + sz)" using v unat_end [OF v(4)] by (simp add: page_aligned_def)
  from split_trans_ok [OF s v(1)] obtain s1 where s1: "split_trans e v s = Some s1" "trans_ok e R (Suc (Suc k)) (n + 39 + 39) s1"
    "rest s1 = rest s" "xlate (trans s1) = xlate (trans s)" "cut v (trans s1)" by auto
  from split_trans_ok [OF s1(2) e] obtain s2 where s2: "split_trans e (v + sz) s1 = Some s2" "trans_ok e R (Suc k) (n + 39) s2"
    "rest s2 = rest s1" "xlate (trans s2) = xlate (trans s1)" "cut (v + sz) (trans s2)" "cut v (trans s2)" using s1(5) by auto
  let ?ts = "filter (\<lambda>t. \<not> remapped v sz t) (trans s2)"
  have o2: "own e s2 R (trans s2)" using s2(2) by (simp add: trans_ok_def)
  from drop_remapped_ok [OF o2, of v sz] obtain s3 where s3: "drop_remapped v sz (trans s2) s2 = Some (?ts, s3)" "own e s3 R ?ts"
    "kept R s2 s3" "heap_start e s3 = heap_start e s2" by blast
  have "own e (s3\<lparr>trans := ?ts\<rparr>) R ?ts" "room_for e 39 (s3\<lparr>trans := ?ts\<rparr>)"
    using s3 s2(2) by (simp_all add: trans_ok_def room_for_def)
  from own_new [OF this] obtain u s4 where s4: "new_node e sizeof_translation (s3\<lparr>trans := ?ts\<rparr>) = Some (u, s4)"
    "\<And>t. tr_node t = u \<Longrightarrow> own e s4 R (t # ?ts)" "kept R (s3\<lparr>trans := ?ts\<rparr>) s4"
    "unat (heap_start e s4) \<le> unat (heap_start e s3) + 31" by auto
  let ?n = "\<lparr>tr_node = u, tr_virt = v, tr_size = sz, tr_phys = phys, tr_mode = mode\<rparr>"
  let ?ts4 = "insert_trans ?n ?ts"
  let ?s5 = "s4\<lparr>trans := ?ts4\<rparr>"
  have t4: "trans s4 = ?ts" "rest s4 = rest s"
    using more_eqD(1,2) [of s4 "s3\<lparr>trans := ?ts\<rparr>"] more_eqD(2) [of s3 s2] s4(3) s3(3) s2(3) s1(3) by (simp_all add: kept_def)
  have wf2: "wf_trans (trans s2)" using s2(2) by (simp add: trans_ok_def)
  have ml: "wf_trans ?ts4" "xlate ?ts4 = xlate_set phys v sz mode (xlate (trans s))"
    using mapping_list [OF wf2 s2(6,5) v, of ?n phys mode] s2(4) s1(4) by simp_all
  have "own e s4 R ?ts4 = own e s4 R (?n # ?ts)" by (rule own_mset) (simp add: insert_trans_mset)
  then have own5: "own e ?s5 R ?ts4" using s4(2) [of ?n] by simp
  have len: "length ?ts4 \<le> length (trans s2) + 1"
    using length_filter_le [of "\<lambda>t. \<not> remapped v sz t" "trans s2"] by (simp add: insert_trans_length)
  have fits5: "fits k R ?s5"
  proof (rule fits_mono)
    show "fits (Suc k) R s2" using s2(2) by (simp add: trans_ok_def)
    show "rest ?s5 = rest s2" using t4(2) s2(3) s1(3) by simp
    show "length (trans ?s5) + k \<le> length (trans s2) + Suc k" using len by simp
  qed simp
  have "trans_ok e R k n ?s5" using own5 fits5 ml(1) s2(2) s3(4) s4(4) by (simp add: trans_ok_def room_for_def)
  from publish_ok [OF this] obtain s6 where s6: "ofmem_update_translations e ?s5 = Some s6" "trans_ok e R k n s6" "rest s6 = rest s"
    "trans s6 = ?ts4" using t4(2) by auto
  have "ofmem_map_page_range e phys v sz mode s = Some (0, s6)"
    using s1(1) s2(1) s3(1) s4(1) t4(1) s6(1) by (simp add: ofmem_map_page_range_def Let_def)
  moreover have "within (unat v) (unat v + unat sz) (trans s6)" using s6(4) by (auto simp: within_def insert_trans_set tr_span_def)
  ultimately show ?thesis using s6 ml(2) by auto
qed

lemma page_mask: "unat (x AND PAGE_MASK) = unat x div 4096 * 4096"
proof -
  have e: "(4095 :: ucell) = 2 ^ 12 - 1" by simp
  show ?thesis using unat_align_down [of x 12] unfolding e by simp
qed

lemma page_aligned_mask: "page_aligned (x AND PAGE_MASK)"
  unfolding page_aligned_def page_mask by simp

lemma page_low: "x AND (PAGE_SIZE - 1) = 0 \<longleftrightarrow> x AND PAGE_MASK = (x :: ucell)"
proof -
  have "x - (x AND (2 ^ 12 - 1)) = x AND NOT (2 ^ 12 - 1)" by (rule align_down)
  moreover have "(2 ^ 12 - 1 :: ucell) = 4095" "(PAGE_SIZE - 1 :: ucell) = 4095" by simp_all
  ultimately have "x AND PAGE_MASK = x - (x AND (PAGE_SIZE - 1))" by (simp only:)
  then show ?thesis by (simp only: diff_eq_eq) simp
qed

lemma page_round_up:
  fixes sz :: ucell
  assumes "sz AND PAGE_MASK = sz"
  shows "(sz + (PAGE_SIZE - 1)) AND PAGE_MASK = sz"
proof -
  have al: "4096 dvd unat sz" using page_aligned_mask [of sz] assms by (simp add: page_aligned_def)
  then obtain k where k: "unat sz = 4096 * k" by blast
  have "unat sz < 2 ^ 32" using unsigned_less [of sz, where ?'a = nat] by simp
  then have "unat sz + 4095 < 2 ^ 32" using k by simp
  then have "unat (sz + 4095) = unat sz + 4095" using unat_add_no_wrap [of sz 4095] by simp
  then have "unat ((sz + 4095) AND PAGE_MASK) = unat sz" unfolding page_mask using k by simp
  then have "(sz + 4095) AND PAGE_MASK = sz" by (simp only: word_unat_eq_iff)
  moreover have "(PAGE_SIZE - 1 :: ucell) = 4095" by simp
  ultimately show ?thesis by (simp only:)
qed

text \<open>The rounding of \<open>ofmem_map\<close> and \<open>ofmem_unmap\<close>, whether or not it is needed.\<close>

lemma ofmem_map_eq:
  "ofmem_map e phys virt sz mode s =
     (let phys = phys AND PAGE_MASK; virt = virt AND PAGE_MASK; sz = (sz + (PAGE_SIZE - 1)) AND PAGE_MASK;
          mode = (if mode = - 1 then ofmem_arch_default_translation_mode e phys else mode)
      in do { (_, s) \<leftarrow> ofmem_map_page_range e phys virt sz mode s; Some (0, s) })"
proof (cases "phys AND (PAGE_SIZE - 1) \<noteq> 0 \<or> virt AND (PAGE_SIZE - 1) \<noteq> 0 \<or> sz AND (PAGE_SIZE - 1) \<noteq> 0")
  case True
  then show ?thesis by (simp only: ofmem_map_def if_True Let_def prod.case ofmem_arch_map_pages_def)
next
  case False
  then have "phys AND PAGE_MASK = phys" "virt AND PAGE_MASK = virt" "(sz + (PAGE_SIZE - 1)) AND PAGE_MASK = sz"
    using page_low page_round_up by blast+
  then show ?thesis using False by (simp only: ofmem_map_def if_False Let_def prod.case ofmem_arch_map_pages_def simp_thms)
qed

text \<open>
  C17: Mapping memory. For a range that stays, rounded to pages, below the last address, and a state
  with heap and property buffers to spare, \<open>ofmem_map\<close> returns 0. From then on \<open>ofmem_translate\<close> gives,
  for every address of the rounded range, the physical address at the same offset with the mode
  asked for (or the default of the platform), and for every other address what it gave before. The
  list stays well-formed, the claimed ranges are untouched.
\<close>

theorem ofmem_map_translates:
  assumes "trans_ok e R 3 117 s"
    and "phys0 = phys AND PAGE_MASK" and "virt0 = virt AND PAGE_MASK" and "sz0 = (sz + (PAGE_SIZE - 1)) AND PAGE_MASK"
    and "sz0 \<noteq> 0" and "unat virt0 + unat sz0 < 2 ^ 32"
  shows "\<exists>s'. ofmem_map e phys virt sz mode s = Some (0, s') \<and> trans_ok e R 0 0 s' \<and>
    (\<forall>w old. ofmem_translate w old s' =
       (if unat virt0 \<le> unat w \<and> unat w < unat virt0 + unat sz0
        then (phys0 + (w - virt0), if mode = - 1 then ofmem_arch_default_translation_mode e phys0 else mode)
        else ofmem_translate w old s)) \<and>
    phys_range s' = phys_range s \<and> virt_range s' = virt_range s \<and> io_range s' = io_range s"
proof -
  let ?mode = "if mode = - 1 then ofmem_arch_default_translation_mode e phys0 else mode"
  have s: "trans_ok e R (Suc (Suc (Suc 0))) (0 + 39 + 39 + 39) s" using assms(1) by (simp add: numeral_3_eq_3)
  have al: "page_aligned virt0" "page_aligned sz0" using assms(3,4) page_aligned_mask by simp_all
  from map_page_range_ok [OF s al assms(5,6), of phys0 ?mode] obtain s' where s': "ofmem_map_page_range e phys0 virt0 sz0 ?mode s = Some (0, s')"
    "trans_ok e R 0 0 s'" "rest s' = rest s" "xlate (trans s') = xlate_set phys0 virt0 sz0 ?mode (xlate (trans s))" by blast
  have "ofmem_map e phys virt sz mode s = Some (0, s')"
    unfolding ofmem_map_eq Let_def assms(2-4) [symmetric] using s'(1) by simp
  moreover have "wf_trans (trans s)" "wf_trans (trans s')" using s s'(2) by (simp_all add: trans_ok_def)
  then have "ofmem_translate w old s' = (if unat virt0 \<le> unat w \<and> unat w < unat virt0 + unat sz0 then (phys0 + (w - virt0), ?mode)
      else ofmem_translate w old s)" for w old
    by (simp add: ofmem_translate_def translate_loop_xlate s'(4) xlate_set_def)
  ultimately show ?thesis using s'(2) restD(1-3) [OF s'(3)] by blast
qed

lemma demo_trans_ok: "n \<le> 0xf0000 \<Longrightarrow> trans_ok demo_env {} k n (demo_ofmem 0)"
proof -
  assume n: "n \<le> 0xf0000"
  have f: "trans (demo_ofmem 0) = []" "s_phandle_memory (demo_ofmem 0) = 0" "s_phandle_mmu (demo_ofmem 0) = 0"
    by (simp_all add: demo_ofmem_def)
  have "\<exists>z. held demo_env (demo_ofmem 0) {} z" using demo_held by blast
  then show ?thesis using n f demo_room [of 0] by (simp add: trans_ok_def own_def tr_nodes_def room_for_def fits_def)
qed

theorem ofmem_map_translates_witness:
  "\<exists>s'. ofmem_map demo_env 0x11200000 0x1800000 0x2800000 (- 1) (demo_ofmem 0) = Some (0, s') \<and>
     ofmem_translate 0x1800123 0 s' = (0x11200123, 0x02)"
proof -
  have h: "(0x11200000 :: ucell) = 0x11200000 AND PAGE_MASK" "(0x1800000 :: ucell) = 0x1800000 AND PAGE_MASK"
    "(0x2800000 :: ucell) = (0x2800000 + (PAGE_SIZE - 1)) AND PAGE_MASK" "(0x2800000 :: ucell) \<noteq> 0"
    "unat (0x1800000 :: ucell) + unat (0x2800000 :: ucell) < 2 ^ 32" by simp_all
  have "trans_ok demo_env {} 3 117 (demo_ofmem 0)" by (rule demo_trans_ok) simp
  from ofmem_map_translates [OF this h, of "- 1"] obtain s' where
    s': "ofmem_map demo_env 0x11200000 0x1800000 0x2800000 (- 1) (demo_ofmem 0) = Some (0, s')"
    "\<forall>w old. ofmem_translate w old s' = (if unat (0x1800000 :: ucell) \<le> unat w \<and> unat w < unat (0x1800000 :: ucell) + unat (0x2800000 :: ucell)
       then (0x11200000 + (w - 0x1800000), if (- 1 :: ucell) = - 1 then ofmem_arch_default_translation_mode demo_env 0x11200000 else - 1)
       else ofmem_translate w old (demo_ofmem 0))" by blast
  have "ofmem_arch_default_translation_mode demo_env 0x11200000 = 0x02"
    by (simp add: ofmem_arch_default_translation_mode_def demo_env_def is_wii_cafe_def is_wii_rvl_def)
  then have "ofmem_translate 0x1800123 0 s' = (0x11200123, 0x02)" using s'(2) [rule_format, of "0x1800123" 0] by simp
  then show ?thesis using s'(1) by blast
qed

subsection \<open>Unmapping\<close>

definition xlate_del :: "ucell \<Rightarrow> ucell \<Rightarrow> (ucell \<Rightarrow> (ucell \<times> ucell) option) \<Rightarrow> ucell \<Rightarrow> (ucell \<times> ucell) option" where
  "xlate_del v sz f w = (if unat v \<le> unat w \<and> unat w < unat v + unat sz then None else f w)"

lemma unmap_loop_one:
  assumes "unat v + unat sz < 2 ^ 32" and "tr_virt t = v" and "tr_size t = sz" and "sz \<noteq> 0"
    and "\<forall>u \<in> set ys. unat v + unat sz \<le> unat (tr_virt u)"
  shows "\<forall>u \<in> set xs. ok_trans u \<and> unat (tr_virt u) + unat (tr_size u) \<le> unat v \<Longrightarrow> own e s R (xs @ t # ys) \<Longrightarrow>
    \<exists>s'. unmap_loop v sz False (xs @ t # ys) s = Some (xs @ ys, s') \<and> own e s' R (xs @ ys) \<and> kept R s s' \<and> heap_start e s' = heap_start e s"
proof (induction xs arbitrary: R s)
  case Nil
  from own_free [of e s R t ys] Nil.prems(2) obtain s' where s': "ofmem_free (tr_node t) s = Some s'" "own e s' R ys" "kept R s s'"
    "heap_start e s' = heap_start e s" by auto
  have "unmap_loop v sz True ys s' = Some (ys, s')"
    using assms(5) unat_end [OF assms(1)] by (cases ys) (auto simp: word_less_nat_alt)
  moreover have "tr_virt t < v + sz" using assms(2,4) unat_end [OF assms(1)] by (simp add: word_less_nat_alt unat_gt_0)
  ultimately show ?case using s' assms(2,3) by (auto simp: ofmem_arch_unmap_pages_def)
next
  case (Cons x xs)
  have x: "ok_trans x" "unat (tr_virt x) + unat (tr_size x) \<le> unat v" using Cons.prems(1) by simp_all
  then have "0 < unat (tr_size x)" by (simp add: ok_trans_def unat_gt_0)
  then have c: "tr_virt x < v + sz" "\<not> v \<le> tr_virt x" using x(2) unat_end [OF assms(1)] by (simp_all add: word_less_nat_alt word_le_nat_alt)
  from Cons.prems(2) have o: "own e s (insert (tr_node x, sizeof_translation) R) (xs @ t # ys)" "tr_node x \<notin> fst ` R" by (simp_all add: own_Cons)
  from Cons.IH [OF _ o(1)] Cons.prems(1) obtain s' where "unmap_loop v sz False (xs @ t # ys) s = Some (xs @ ys, s')"
    "own e s' (insert (tr_node x, sizeof_translation) R) (xs @ ys)" "kept (insert (tr_node x, sizeof_translation) R) s s'"
    "heap_start e s' = heap_start e s" by auto
  then show ?case using c o(2) by (auto simp: own_Cons elim: kept_subset)
qed

text \<open>Between two cuts, a mapping that contains the range is exactly the range.\<close>

lemma cuts_exact:
  assumes wf: "wf_trans ts" and cuts: "cut v ts" "cut (v + sz) ts" and sz: "sz \<noteq> 0" "unat v + unat sz < 2 ^ 32"
    and w: "within (unat v) (unat v + unat sz) ts"
  shows "\<exists>xs t ys. ts = xs @ t # ys \<and> tr_virt t = v \<and> tr_size t = sz"
proof -
  from w obtain t where t: "t \<in> set ts" "{unat v ..< unat v + unat sz} \<subseteq> tr_span t" by (auto simp: within_def)
  have "0 < unat sz" using sz(1) by (simp add: unat_gt_0)
  then have "unat (tr_virt t) \<le> unat v" "unat v + unat sz \<le> unat (tr_virt t) + unat (tr_size t)"
    using t(2) by (auto simp: tr_span_def ivl_subset)
  moreover have "\<not> (unat (tr_virt t) < unat v \<and> unat v < unat (tr_virt t) + unat (tr_size t))"
    "\<not> (unat (tr_virt t) < unat v + unat sz \<and> unat v + unat sz < unat (tr_virt t) + unat (tr_size t))"
    using cuts t(1) unat_end [OF sz(2)] by (auto simp: cut_def)
  ultimately have "unat (tr_virt t) = unat v" "unat (tr_size t) = unat sz" using \<open>0 < unat sz\<close> by linarith+
  then have "tr_virt t = v" "tr_size t = sz" by (simp_all only: word_unat_eq_iff)
  then show ?thesis using split_list [OF t(1)] by blast
qed

lemma xlate_remove:
  assumes "wf_trans (xs @ t # ys)" and "tr_virt t = v" and "tr_size t = sz"
  shows "xlate (xs @ ys) = xlate_del v sz (xlate (xs @ t # ys))"
proof
  fix w
  show "xlate (xs @ ys) w = xlate_del v sz (xlate (xs @ t # ys)) w"
  proof (cases "unat w \<in> tr_span t")
    case True
    have "unat w \<notin> tr_span u" if "u \<in> set (xs @ ys)" for u
      using that True assms(1) by (fastforce simp: wf_trans_append list_all_iff tr_span_def)
    then have "xlate (xs @ ys) w = None" by (simp add: xlate_None)
    then show ?thesis using True assms(2,3) by (simp add: xlate_del_def tr_span_def)
  next
    case False
    then show ?thesis using assms(2,3) by (auto simp: xlate_del_def xlate_append tr_span_def split: option.splits)
  qed
qed

lemma wf_remove: "wf_trans (xs @ t # ys) \<Longrightarrow> wf_trans (xs @ ys)"
  by (simp add: wf_trans_append)

lemma unmap_page_range_ok:
  assumes s: "trans_ok e R (Suc (Suc k)) (n + 39 + 39) s" and v: "page_aligned v" "page_aligned sz" "sz \<noteq> 0" "unat v + unat sz < 2 ^ 32"
    and w: "within (unat v) (unat v + unat sz) (trans s)"
  shows "\<exists>s'. unmap_page_range e v sz s = Some (0, s') \<and> trans_ok e R k n s' \<and> rest s' = rest s \<and>
    xlate (trans s') = xlate_del v sz (xlate (trans s))"
proof -
  have e: "page_aligned (v + sz)" using v unat_end [OF v(4)] by (simp add: page_aligned_def)
  from split_trans_ok [OF s v(1)] obtain s1 where s1: "split_trans e v s = Some s1" "trans_ok e R (Suc k) (n + 39) s1"
    "rest s1 = rest s" "xlate (trans s1) = xlate (trans s)" "cut v (trans s1)" "keeps_within v (trans s) (trans s1)" by auto
  from split_trans_ok [OF s1(2) e] obtain s2 where s2: "split_trans e (v + sz) s1 = Some s2" "trans_ok e R k n s2"
    "rest s2 = rest s1" "xlate (trans s2) = xlate (trans s1)" "cut (v + sz) (trans s2)" "cut v (trans s2)"
    "keeps_within (v + sz) (trans s1) (trans s2)" using s1(5) by auto
  have wf2: "wf_trans (trans s2)" using s2(2) by (simp add: trans_ok_def)
  have "within (unat v) (unat v + unat sz) (trans s1)" using s1(6) w unfolding keeps_within_def by blast
  then have "within (unat v) (unat v + unat sz) (trans s2)" using s2(7) unat_end [OF v(4)] unfolding keeps_within_def by auto
  from cuts_exact [OF wf2 s2(6,5) v(3,4) this] obtain xs t ys where t: "trans s2 = xs @ t # ys" "tr_virt t = v" "tr_size t = sz" by blast
  have xs: "\<forall>u \<in> set xs. ok_trans u \<and> unat (tr_virt u) + unat (tr_size u) \<le> unat v"
    and ys: "\<forall>u \<in> set ys. unat v + unat sz \<le> unat (tr_virt u)"
    using wf2 wf_trans_ok [OF wf2] t by (auto simp: wf_trans_append list_all_iff)
  have "own e s2 R (xs @ t # ys)" using s2(2) t(1) by (simp add: trans_ok_def)
  from unmap_loop_one [OF v(4) t(2,3) v(3) ys xs this] obtain s3 where s3: "unmap_loop v sz False (xs @ t # ys) s2 = Some (xs @ ys, s3)"
    "own e s3 R (xs @ ys)" "kept R s2 s3" "heap_start e s3 = heap_start e s2" by blast
  let ?s4 = "s3\<lparr>trans := xs @ ys\<rparr>"
  have r4: "rest ?s4 = rest s2" using s3(3) more_eqD(2) [of s3 s2] by (simp add: kept_def)
  have wf: "wf_trans (xs @ ys)" using wf2 t(1) by (auto intro: wf_remove)
  have "fits k R ?s4" using s2(2) t(1) by (intro fits_mono [OF _ r4, of k]) (simp_all add: trans_ok_def)
  then have "trans_ok e R k n ?s4" using s3(2,4) wf s2(2) by (simp add: trans_ok_def room_for_def)
  from publish_ok [OF this] obtain s5 where s5: "ofmem_update_translations e ?s4 = Some s5" "trans_ok e R k n s5" "rest s5 = rest ?s4"
    "trans s5 = xs @ ys" by auto
  have "unmap_page_range e v sz s = Some (0, s5)" using s1(1) s2(1) s3(1) t(1) s5(1) by (simp add: unmap_page_range_def)
  moreover have "xlate (trans s5) = xlate_del v sz (xlate (trans s))"
    using xlate_remove [OF wf2 [unfolded t(1)] t(2,3)] s5(4) t(1) s2(4) s1(4) by simp
  ultimately show ?thesis using s5(2,3) r4 s2(3) s1(3) by auto
qed

lemma ofmem_unmap_eq:
  "ofmem_unmap e virt sz s =
     (let virt = virt AND PAGE_MASK; sz = (sz + (PAGE_SIZE - 1)) AND PAGE_MASK
      in do { (_, s) \<leftarrow> unmap_page_range e virt sz s; Some (0, s) })"
proof (cases "virt AND (PAGE_SIZE - 1) \<noteq> 0 \<or> sz AND (PAGE_SIZE - 1) \<noteq> 0")
  case True
  then show ?thesis by (simp only: ofmem_unmap_def if_True Let_def prod.case)
next
  case False
  then have "virt AND PAGE_MASK = virt" "(sz + (PAGE_SIZE - 1)) AND PAGE_MASK = sz"
    using page_low page_round_up by blast+
  then show ?thesis using False by (simp only: ofmem_unmap_def if_False Let_def prod.case simp_thms)
qed

text \<open>
  C18: Unmapping memory. When the range, rounded to pages, lies within one translation, \<open>ofmem_unmap\<close>
  returns 0, splitting the translation around the range. From then on \<open>ofmem_translate\<close> finds no
  physical address (it gives -1 and leaves the mode) in the range, and gives everywhere else what it gave before.
\<close>

theorem ofmem_unmap_translates:
  assumes "trans_ok e R 2 78 s"
    and "virt0 = virt AND PAGE_MASK" and "sz0 = (sz + (PAGE_SIZE - 1)) AND PAGE_MASK"
    and "sz0 \<noteq> 0" and "unat virt0 + unat sz0 < 2 ^ 32" and "within (unat virt0) (unat virt0 + unat sz0) (trans s)"
  shows "\<exists>s'. ofmem_unmap e virt sz s = Some (0, s') \<and> trans_ok e R 0 0 s' \<and>
    (\<forall>w old. ofmem_translate w old s' =
       (if unat virt0 \<le> unat w \<and> unat w < unat virt0 + unat sz0 then (- 1, old) else ofmem_translate w old s)) \<and>
    phys_range s' = phys_range s \<and> virt_range s' = virt_range s \<and> io_range s' = io_range s"
proof -
  have s: "trans_ok e R (Suc (Suc 0)) (0 + 39 + 39) s" using assms(1) by (simp add: numeral_2_eq_2)
  have al: "page_aligned virt0" "page_aligned sz0" using assms(2,3) page_aligned_mask by simp_all
  from unmap_page_range_ok [OF s al assms(4,5,6)] obtain s' where s': "unmap_page_range e virt0 sz0 s = Some (0, s')"
    "trans_ok e R 0 0 s'" "rest s' = rest s" "xlate (trans s') = xlate_del virt0 sz0 (xlate (trans s))" by blast
  have "ofmem_unmap e virt sz s = Some (0, s')"
    unfolding ofmem_unmap_eq Let_def assms(2,3) [symmetric] using s'(1) by simp
  moreover have "wf_trans (trans s)" "wf_trans (trans s')" using s s'(2) by (simp_all add: trans_ok_def)
  then have "ofmem_translate w old s' = (if unat virt0 \<le> unat w \<and> unat w < unat virt0 + unat sz0 then (- 1, old)
      else ofmem_translate w old s)" for w old
    by (simp add: ofmem_translate_def translate_loop_xlate s'(4) xlate_del_def)
  ultimately show ?thesis using s'(2) restD(1-3) [OF s'(3)] by blast
qed

lemma within_mono: "within a b ts \<Longrightarrow> a \<le> c \<Longrightarrow> d \<le> b \<Longrightarrow> within c d ts"
  by (fastforce simp: within_def)

text \<open>Forty megabytes of MEM2 mapped, and a page in the middle of them taken back.\<close>

theorem ofmem_unmap_translates_witness:
  "\<exists>s s'. ofmem_map_page_range demo_env 0x11200000 0x1800000 0x2800000 2 (demo_ofmem 0) = Some (0, s) \<and>
     ofmem_unmap demo_env 0x1900000 0x800 s = Some (0, s') \<and>
     ofmem_translate 0x1900123 7 s' = (- 1, 7) \<and> ofmem_translate 0x1901000 7 s' = ofmem_translate 0x1901000 7 s"
proof -
  have m: "trans_ok demo_env {} (Suc (Suc (Suc 2))) (78 + 39 + 39 + 39) (demo_ofmem 0)" by (rule demo_trans_ok) simp
  have v: "page_aligned 0x1800000" "page_aligned 0x2800000" "(0x2800000 :: ucell) \<noteq> 0"
    "unat (0x1800000 :: ucell) + unat (0x2800000 :: ucell) < 2 ^ 32" by (simp_all add: page_aligned_def)
  from map_page_range_ok [OF m v, of "0x11200000" 2] obtain s where
    s: "ofmem_map_page_range demo_env 0x11200000 0x1800000 0x2800000 2 (demo_ofmem 0) = Some (0, s)" "trans_ok demo_env {} 2 78 s"
    "within (unat (0x1800000 :: ucell)) (unat (0x1800000 :: ucell) + unat (0x2800000 :: ucell)) (trans s)" by blast
  have h: "(0x1900000 :: ucell) = 0x1900000 AND PAGE_MASK" "(0x1000 :: ucell) = (0x800 + (PAGE_SIZE - 1)) AND PAGE_MASK" "(0x1000 :: ucell) \<noteq> 0"
    "unat (0x1900000 :: ucell) + unat (0x1000 :: ucell) < 2 ^ 32" by simp_all
  have "within (unat (0x1900000 :: ucell)) (unat (0x1900000 :: ucell) + unat (0x1000 :: ucell)) (trans s)"
    using s(3) by (rule within_mono) simp_all
  from ofmem_unmap_translates [OF s(2) h this] obtain s' where
    s': "ofmem_unmap demo_env 0x1900000 0x800 s = Some (0, s')"
    "\<forall>w old. ofmem_translate w old s' = (if unat (0x1900000 :: ucell) \<le> unat w \<and> unat w < unat (0x1900000 :: ucell) + unat (0x1000 :: ucell)
       then (- 1, old) else ofmem_translate w old s)" by blast
  have "ofmem_translate 0x1900123 7 s' = (- 1, 7)" "ofmem_translate 0x1901000 7 s' = ofmem_translate 0x1901000 7 s"
    using s'(2) [rule_format, of "0x1900123" 7] s'(2) [rule_format, of "0x1901000" 7] by simp_all
  then show ?thesis using s(1) s'(1) by blast
qed

end
