(* ===== verification/Ofmem_Claims.thy ===== *)
theory Ofmem_Claims
  imports Ofmem_Trans
begin

text \<open>
  Claims and releases of \<open>libopenbios/ofmem_common.c\<close> as a client sees them: sessions of calls on the three
  lists of ranges, physical, virtual and I/O memory. The invariant says which areas are held; every list stays
  sorted and without overlap, and every node of a list is an area of the heap that nothing else owns.
\<close>

subsection \<open>The three lists\<close>

datatype space = Phys | Virt | Io

fun ranges :: "space \<Rightarrow> 'w ofmem \<Rightarrow> range list" where
  "ranges Phys s = phys_range s"
| "ranges Virt s = virt_range s"
| "ranges Io s = io_range s"

fun rlist :: "space \<Rightarrow> 'w rlist" where
  "rlist Phys = phys_r"
| "rlist Virt = virt_r"
| "rlist Io = io_r"

fun publish :: "space \<Rightarrow> 'w ofenv \<Rightarrow> 'w ofmem \<Rightarrow> 'w ofmem option" where
  "publish Io e s = Some s"
| "publish _ e s = ofmem_update_translations e s"

fun limit :: "space \<Rightarrow> 'w ofmem \<Rightarrow> ucell" where
  "limit Phys s = get_ram_size s"
| "limit Virt s = ofmem_arch_get_virt_top"
| "limit Io s = ofmem_arch_get_iomem_top"

fun claim :: "space \<Rightarrow> 'w ofenv \<Rightarrow> ucell \<Rightarrow> ucell \<Rightarrow> ucell \<Rightarrow> 'w ofmem \<Rightarrow> (ucell \<times> 'w ofmem) option" where
  "claim Phys e a sz align s = ofmem_claim_phys e a sz align s"
| "claim Virt e a sz align s = ofmem_claim_virt e a sz align s"
| "claim Io e a sz align s = ofmem_claim_io e a sz align s"

fun release :: "space \<Rightarrow> 'w ofenv \<Rightarrow> ucell \<Rightarrow> ucell \<Rightarrow> 'w ofmem \<Rightarrow> 'w ofmem option" where
  "release Phys e a sz s = ofmem_release_phys e a sz s"
| "release Virt e a sz s = ofmem_release_virt e a sz s"
| "release Io e a sz s = ofmem_release_io e a sz s"

abbreviation put_ranges :: "space \<Rightarrow> range list \<Rightarrow> 'w ofmem \<Rightarrow> 'w ofmem" where
  "put_ranges k rs s \<equiv> snd (rlist k) rs s"

lemma rlist_get [simp]: "fst (rlist k) s = ranges k s"
  by (cases k) simp_all

lemma put_ranges_get [simp]: "ranges j (put_ranges k rs s) = (if j = k then rs else ranges j s)"
  by (cases k; cases j) simp_all

lemma put_ranges_frame [simp]:
  "trans (put_ranges k rs s) = trans s" "held e (put_ranges k rs s) L z = held e s L z"
  "heap_start e (put_ranges k rs s) = heap_start e s" "ramsize (put_ranges k rs s) = ramsize s"
  by (cases k; simp add: held_def heap_ok_def heap_start_def)+

lemma limit_put [simp]: "limit j (put_ranges k rs s) = limit j s"
  by (cases j) (simp_all add: get_ram_size_def)

lemma own_put [simp]: "own e (put_ranges k rs s) R ts = own e s R ts"
  by (simp add: own_def)

lemma fits_put:
  assumes "fits (Suc i) R s" and "length rs \<le> Suc (length (ranges k s))"
  shows "fits i R (put_ranges k rs s)"
  using assms by (cases k) (auto simp: fits_def prop_buffer_def)

text \<open>The body the three claims share, for a request at an address or, with an alignment, of an area to be found.\<close>

definition grant :: "space \<Rightarrow> 'w ofenv \<Rightarrow> ucell \<Rightarrow> ucell \<Rightarrow> 'w ofmem \<Rightarrow> (ucell \<times> 'w ofmem) option" where
  "grant k e a sz s = do { (_, s) \<leftarrow> add_entry e a sz (rlist k) s; s \<leftarrow> publish k e s; Some (a, s) }"

lemma claim_at: "claim k e a sz 0 s = (if is_free a sz (ranges k s) then grant k e a sz s else Some (- 1, s))"
  by (cases k) (simp_all add: grant_def ofmem_claim_phys_def ofmem_claim_virt_def ofmem_claim_io_def ofmem_claim_phys_raw_def
    ofmem_claim_virt_raw_def ofmem_claim_io_raw_def)

lemma claim_find:
  assumes "align \<noteq> 0" and "k \<noteq> Io"
  shows "\<exists>mn w. claim k e a sz align s = (let b = find_area align sz (ranges k s) mn (limit k s) True
     in if b = - 1 then Some (- 1, s\<lparr>hworld := w\<rparr>) else grant k e b sz s)"
  using assms by (cases k) (auto simp: grant_def ofmem_claim_phys_def ofmem_claim_virt_def ofmem_claim_phys_raw_def
    ofmem_claim_virt_raw_def Let_def)

lemma release_eq: "release k e a sz s = do { (_, s) \<leftarrow> remove_range e a sz (rlist k) s; Some s }"
  by (cases k) (simp_all add: ofmem_release_phys_def ofmem_release_virt_def ofmem_release_io_def)

subsection \<open>The invariant\<close>

definition nodes :: "'w ofmem \<Rightarrow> ucell list" where
  "nodes s = map rg_node (phys_range s @ virt_range s @ io_range s)"

definition node_blocks :: "'w ofmem \<Rightarrow> block set" where
  "node_blocks s = (\<lambda>u. (u, sizeof_range)) ` set (nodes s)"

definition below_top :: "range list \<Rightarrow> bool" where
  "below_top rs \<longleftrightarrow> (\<forall>r \<in> set rs. unat (rg_start r) + unat (rg_size r) < 2 ^ 32)"

definition claims_ok :: "'w ofenv \<Rightarrow> block set \<Rightarrow> nat \<Rightarrow> nat \<Rightarrow> 'w ofmem \<Rightarrow> bool" where
  "claims_ok e R k n s \<longleftrightarrow> (\<forall>j. wf_ranges (ranges j s) \<and> below_top (ranges j s)) \<and> distinct (nodes s) \<and>
     fst ` R \<inter> set (nodes s) = {} \<and> own e s (R \<union> node_blocks s) (trans s) \<and> wf_trans (trans s) \<and> fits k R s \<and> room_for e n s"

lemma nodes_put: "mset (nodes (put_ranges k rs s)) + mset (map rg_node (ranges k s)) = mset (nodes s) + mset (map rg_node rs)"
  by (cases k) (simp_all add: nodes_def)

lemma own_alloc:
  assumes "own e s R ts" and "room_for e 31 s"
  shows "\<exists>u s'. new_node e sizeof_range s = Some (u, s') \<and> own e s' (insert (u, sizeof_range) R) ts \<and> u \<notin> fst ` R \<and>
    heap.more s' = heap.more s \<and> unat (heap_start e s') \<le> unat (heap_start e s) + 23"
proof -
  from assms(1) obtain z where z: "held e s (R \<union> tr_nodes ts) z" by (auto simp: own_def)
  have "unat (heap_start e s) + unat sizeof_range + 19 \<le> unat HASH_BASE" using assms(2) by (simp add: room_for_def)
  from malloc_room [OF z _ this] obtain u s' y where u: "ofmem_malloc e sizeof_range s = Some (u, s')" "u \<noteq> 0"
    "u \<notin> fst ` (R \<union> tr_nodes ts)" "held e s' (insert (u, sizeof_range) (R \<union> tr_nodes ts)) (z(u := y))"
    "heap.more s' = heap.more s" "unat (heap_start e s') \<le> unat (heap_start e s) + unat sizeof_range + 11" by auto
  have "own e s' (insert (u, sizeof_range) R) ts"
    using assms(1) u(3,4) by (auto simp: own_def tr_nodes_def image_Un image_image)
  then show ?thesis using u by (auto simp: new_node_def)
qed

lemma own_release:
  assumes "own e s (insert (u, sz) R) ts" and "u \<notin> fst ` R"
  shows "\<exists>s'. ofmem_free u s = Some s' \<and> own e s' R ts \<and> heap.more s' = heap.more s \<and> heap_start e s' = heap_start e s"
proof -
  let ?L = "insert (u, sz) R \<union> tr_nodes ts"
  from assms obtain z where z: "held e s ?L z" by (auto simp: own_def)
  have "(u, sz) \<in> ?L" by simp
  from free_held [OF z this] obtain s' where s': "ofmem_free u s = Some s'" "held e s' (?L - {(u, sz)}) z"
    "heap.more s' = heap.more s" "heap_start e s' = heap_start e s" by blast
  have "?L - {(u, sz)} = R \<union> tr_nodes ts" using assms by (auto simp: own_def tr_nodes_def image_iff)
  then show ?thesis using s' assms by (auto simp: own_def)
qed

lemma more_ranges: "heap.more s' = heap.more s \<Longrightarrow> ranges k s' = ranges k s"
  using more_eqD(3-5) [of s' s] by (cases k) simp_all

lemma more_nodes: "heap.more s' = heap.more s \<Longrightarrow> nodes s' = nodes s"
  using more_eqD(3-5) [of s' s] by (simp add: nodes_def)

lemma more_fits: "heap.more s' = heap.more s \<Longrightarrow> fits k R s' = fits k R s"
  by (cases s; cases s'; simp add: fits_def)


lemma insert_range_mset: "mset (insert_range r rs) = add_mset r (mset rs)"
  by (induction rs) auto

lemma add_entry_claims:
  assumes c: "claims_ok e R (Suc i) (n + 31) s" and free: "is_free a sz (ranges k s)" and sz: "sz \<noteq> 0" "unat a + unat sz < 2 ^ 32"
  shows "\<exists>r s'. add_entry e a sz (rlist k) s = Some (0, s') \<and> claims_ok e R i n s' \<and> rg_start r = a \<and> rg_size r = sz \<and>
    ranges k s' = insert_range r (ranges k s) \<and> (\<forall>j. j \<noteq> k \<longrightarrow> ranges j s' = ranges j s) \<and> trans s' = trans s \<and> ramsize s' = ramsize s"
proof -
  have o: "own e s (R \<union> node_blocks s) (trans s)" "room_for e 31 s" using c by (simp_all add: claims_ok_def room_for_def)
  from own_alloc [OF this] obtain u s1 where u: "new_node e sizeof_range s = Some (u, s1)"
    "own e s1 (insert (u, sizeof_range) (R \<union> node_blocks s)) (trans s)" "u \<notin> fst ` (R \<union> node_blocks s)"
    "heap.more s1 = heap.more s" "unat (heap_start e s1) \<le> unat (heap_start e s) + 23" by blast
  let ?r = "\<lparr>rg_node = u, rg_start = a, rg_size = sz\<rparr>"
  let ?rs = "insert_range ?r (ranges k s1)"
  let ?s = "put_ranges k ?rs s1"
  note m = more_ranges [OF u(4)] more_nodes [OF u(4)] more_eqD(1,6) [OF u(4)] more_fits [OF u(4)]
  have wf: "wf_ranges (ranges k s)" using c by (simp add: claims_ok_def)
  have dis: "cells_of ?r \<inter> claimed (ranges k s) = {}"
    using is_free_iff [OF wf_ranges_ok [OF wf], of a sz] free sz(2) by (simp add: cells_of_def)
  have "wf_ranges ?rs" using insert_range_wf [OF _ wf dis] sz m(1) by simp
  moreover have "below_top ?rs" using c sz m(1) by (simp add: claims_ok_def below_top_def insert_range_set)
  moreover have ms: "mset (map rg_node ?rs) = add_mset u (mset (map rg_node (ranges k s1)))"
    by (simp add: insert_range_mset)
  then have "mset (nodes ?s) = add_mset u (mset (nodes s))" using nodes_put [of k ?rs s1] m(2) by simp
  then have nd: "set (nodes ?s) = insert u (set (nodes s))" "distinct (nodes ?s) \<longleftrightarrow> u \<notin> set (nodes s) \<and> distinct (nodes s)"
    using mset_eq_setD [of "nodes ?s" "u # nodes s"] mset_eq_imp_distinct_iff [of "nodes ?s" "u # nodes s"] by auto
  moreover have "R \<union> node_blocks ?s = insert (u, sizeof_range) (R \<union> node_blocks s)" using nd(1) by (auto simp: node_blocks_def)
  moreover have "u \<notin> fst ` R" "u \<notin> set (nodes s)" using u(3) by (auto simp: node_blocks_def image_Un image_image)
  moreover have "length ?rs = Suc (length (ranges k s1))" using arg_cong [OF ms, of size] by simp
  then have "fits i R ?s" using c m(5) by (intro fits_put) (simp_all add: claims_ok_def)
  ultimately have "claims_ok e R i n ?s" using c u m by (simp add: claims_ok_def room_for_def)
  then show ?thesis using free u(1) m by (intro exI [of _ ?r] exI [of _ ?s]) (simp add: add_entry_def add_entry_raw_def)
qed

lemma publish_claims:
  assumes c: "claims_ok e R i n s"
  shows "\<exists>s'. publish k e s = Some s' \<and> claims_ok e R i n s' \<and> (\<forall>j. ranges j s' = ranges j s) \<and> trans s' = trans s \<and> ramsize s' = ramsize s"
proof (cases "k = Io")
  case False
  from c obtain z where z: "held e s (R \<union> node_blocks s \<union> tr_nodes (trans s)) z" by (auto simp: claims_ok_def own_def)
  have "fits 0 (R \<union> node_blocks s \<union> tr_nodes (trans s)) s" using c fits_mono [of i R s s 0] by (auto simp: claims_ok_def fits_def prop_buffer_def)
  from update_translations_held [OF z this] obtain m w where up: "ofmem_update_translations e s = Some (s\<lparr>hmem := m, hworld := w\<rparr>)"
    "held e (s\<lparr>hmem := m, hworld := w\<rparr>) (R \<union> node_blocks s \<union> tr_nodes (trans s)) z" by blast
  let ?s = "s\<lparr>hmem := m, hworld := w\<rparr>"
  have r: "ranges j ?s = ranges j s" for j by (cases j) simp_all
  have "own e ?s (R \<union> node_blocks s) (trans s)" using c up(2) by (auto simp: claims_ok_def own_def)
  moreover have "nodes ?s = nodes s" by (simp add: nodes_def)
  moreover have "node_blocks ?s = node_blocks s" using \<open>nodes ?s = nodes s\<close> by (simp add: node_blocks_def)
  ultimately have "claims_ok e R i n ?s" using c r by (simp add: claims_ok_def fits_def room_for_def)
  then show ?thesis using up(1) r False by (cases k) auto
qed (use c in auto)

lemma grant_claims:
  assumes "claims_ok e R (Suc i) (n + 31) s" and "is_free a sz (ranges k s)" and "sz \<noteq> 0" "unat a + unat sz < 2 ^ 32"
  shows "\<exists>r s'. grant k e a sz s = Some (a, s') \<and> claims_ok e R i n s' \<and> rg_start r = a \<and> rg_size r = sz \<and>
    ranges k s' = insert_range r (ranges k s) \<and> (\<forall>j. j \<noteq> k \<longrightarrow> ranges j s' = ranges j s) \<and> trans s' = trans s \<and> ramsize s' = ramsize s"
proof -
  from add_entry_claims [OF assms] obtain r s1 where s1: "add_entry e a sz (rlist k) s = Some (0, s1)" "claims_ok e R i n s1"
    "rg_start r = a" "rg_size r = sz" "ranges k s1 = insert_range r (ranges k s)" "\<And>j. j \<noteq> k \<Longrightarrow> ranges j s1 = ranges j s"
    "trans s1 = trans s" "ramsize s1 = ramsize s" by blast
  from publish_claims [OF s1(2), of k] obtain s2 where "publish k e s1 = Some s2" "claims_ok e R i n s2" "\<And>j. ranges j s2 = ranges j s1"
    "trans s2 = trans s1" "ramsize s2 = ramsize s1" by blast
  with s1 show ?thesis by (intro exI [of _ r] exI [of _ s2]) (simp add: grant_def)
qed


text \<open>Releasing a range of the list: nothing is split, and exactly that range leaves the list.\<close>

lemma split_ranges_id:
  assumes "\<forall>q \<in> set rs. ok_range q \<and> (unat ea \<le> unat (rg_start q) \<or> unat (rg_start q) + unat (rg_size q) \<le> unat ea)"
  shows "split_ranges mk ea sz rs s = Some (rs, s)"
  using assms
proof (induction rs)
  case (Cons q rs)
  have "unat (rg_start q + rg_size q - 1) = unat (rg_start q) + unat (rg_size q) - 1" using unat_last [of "rg_size q"] Cons.prems by simp
  then have "\<not> (rg_start q < ea \<and> ea < rg_start q + rg_size q - 1)" using Cons.prems by (auto simp: word_less_nat_alt)
  then show ?case using Cons by auto
qed simp

lemma wf_ranges_append:
  "wf_ranges (xs @ ys) \<longleftrightarrow> wf_ranges xs \<and> wf_ranges ys \<and>
     (\<forall>x \<in> set xs. \<forall>y \<in> set ys. unat (rg_start x) + unat (rg_size x) \<le> unat (rg_start y))"
  by (induction xs) (auto simp: list_all_iff)

lemma drop_range_at:
  assumes "wf_ranges (xs @ r # ys)" and "below_top (xs @ r # ys)"
  shows "drop_range (rg_start r) (rg_size r) (xs @ r # ys) = (Some (rg_node r), xs @ ys)"
  using assms
proof (induction xs)
  case (Cons x xs)
  have e: "unat (rg_start q + rg_size q) = unat (rg_start q) + unat (rg_size q)" if "q = x \<or> q = r" for q
    using Cons.prems(2) that by (intro unat_add_no_wrap) (auto simp: below_top_def)
  have "unat (rg_start x) + unat (rg_size x) \<le> unat (rg_start r)" "0 < unat (rg_size r)"
    using Cons.prems(1) by (auto simp: unat_gt_0 wf_ranges_append list_all_iff)
  then have "\<not> rg_start r + rg_size r \<le> rg_start x + rg_size x" by (simp add: word_le_nat_alt e)
  then show ?case using Cons by (auto simp: below_top_def)
qed simp

lemma release_list:
  assumes wf: "wf_ranges rs" "below_top rs" and rs: "rs = xs @ r # ys"
  shows "split_ranges mk (rg_start r) (rg_size r) rs s = Some (rs, s)" and "drop_range (rg_start r) (rg_size r) rs = (Some (rg_node r), xs @ ys)"
    and "\<not> is_free (rg_start r) (rg_size r) rs" and "wf_ranges (xs @ ys)" and "claimed rs = cells_of r \<union> claimed (xs @ ys)"
    and "cells_of r \<inter> claimed (xs @ ys) = {}"
proof -
  have o: "\<forall>q \<in> set xs. unat (rg_start q) + unat (rg_size q) \<le> unat (rg_start r)"
    "\<forall>q \<in> set ys. unat (rg_start r) + unat (rg_size r) \<le> unat (rg_start q)"
    using wf(1) by (auto simp: rs wf_ranges_append list_all_iff)
  have ok: "\<forall>q \<in> set rs. ok_range q" using wf_ranges_ok [OF wf(1)] by (auto simp: list_all_iff)
  show "split_ranges mk (rg_start r) (rg_size r) rs s = Some (rs, s)" using o ok by (intro split_ranges_id) (auto simp: rs)
  show "drop_range (rg_start r) (rg_size r) rs = (Some (rg_node r), xs @ ys)" unfolding rs by (rule drop_range_at) (use wf in \<open>simp_all add: rs\<close>)
  show "wf_ranges (xs @ ys)" using wf(1) by (auto simp: rs wf_ranges_append)
  show "claimed rs = cells_of r \<union> claimed (xs @ ys)" by (auto simp: rs claimed_def)
  show "cells_of r \<inter> claimed (xs @ ys) = {}" using o by (fastforce simp: claimed_def cells_of_def)
  have "unat (rg_start r) \<in> cells_of r" using ok by (auto simp: rs cells_of_def unat_gt_0)
  then show "\<not> is_free (rg_start r) (rg_size r) rs"
    using is_free_iff [OF wf_ranges_ok [OF wf(1)], of "rg_start r" "rg_size r"] ok by (auto simp: rs claimed_def cells_of_def)
qed

lemma release_claims:
  assumes c: "claims_ok e R i n s" and rs: "ranges k s = xs @ r # ys"
  shows "\<exists>s'. release k e (rg_start r) (rg_size r) s = Some s' \<and> claims_ok e R i n s' \<and> ranges k s' = xs @ ys \<and>
    (\<forall>j. j \<noteq> k \<longrightarrow> ranges j s' = ranges j s) \<and> trans s' = trans s \<and> ramsize s' = ramsize s"
proof -
  have wf: "wf_ranges (ranges k s)" "below_top (ranges k s)" using c by (simp_all add: claims_ok_def)
  note rl = release_list [OF wf rs]
  let ?s = "put_ranges k (xs @ ys) s"
  let ?u = "rg_node r"
  have "mset (nodes s) = add_mset ?u (mset (nodes ?s))" using nodes_put [of k "xs @ ys" s] by (simp add: rs)
  then have nd: "set (nodes s) = insert ?u (set (nodes ?s))" "distinct (nodes s) \<longleftrightarrow> ?u \<notin> set (nodes ?s) \<and> distinct (nodes ?s)"
    using mset_eq_setD [of "nodes s" "?u # nodes ?s"] mset_eq_imp_distinct_iff [of "nodes s" "?u # nodes ?s"] by auto
  have nb: "R \<union> node_blocks s = insert (?u, sizeof_range) (R \<union> node_blocks ?s)" using nd(1) by (auto simp: node_blocks_def)
  have u: "?u \<notin> fst ` (R \<union> node_blocks ?s)" using nd c by (auto simp: claims_ok_def node_blocks_def image_Un image_image)
  have "own e ?s (insert (?u, sizeof_range) (R \<union> node_blocks ?s)) (trans s)" using c nb by (simp add: claims_ok_def)
  from own_release [OF this u] obtain s' where s': "ofmem_free ?u ?s = Some s'" "own e s' (R \<union> node_blocks ?s) (trans s)"
    "heap.more s' = heap.more ?s" "heap_start e s' = heap_start e ?s" by blast
  note m = more_ranges [OF s'(3)] more_nodes [OF s'(3)] more_eqD(1,6) [OF s'(3)] more_fits [OF s'(3)]
  have "release k e (rg_start r) (rg_size r) s = Some s'"
    using rl(1) [of "new_node e sizeof_range" s] rl(2,3) s'(1) by (simp add: release_eq remove_range_def remove_range_raw_def)
  moreover have "fits i R ?s" using c rs by (cases k) (auto simp: claims_ok_def fits_def prop_buffer_def)
  then have "claims_ok e R i n s'"
    using c s'(2,4) m nd rl(4) rs wf(2) by (auto simp: claims_ok_def room_for_def node_blocks_def below_top_def)
  ultimately show ?thesis using m by auto
qed


subsection \<open>Sessions\<close>

text \<open>
  A request a client may make: of at least one byte, and either at an address, ending below the top of the address
  space, or aligned, of no more than the space has. (On this port I/O space has no bounds; its requests are at an address.)
\<close>

definition fair :: "space \<Rightarrow> ucell \<Rightarrow> ucell \<Rightarrow> ucell \<Rightarrow> 'w ofmem \<Rightarrow> bool" where
  "fair k a sz align s \<longleftrightarrow> sz \<noteq> 0 \<and>
     (if align = 0 then unat a + unat sz < 2 ^ 32 else k \<noteq> Io \<and> unat align \<le> 2 ^ 31 \<and> unat sz \<le> unat (limit k s))"

definition areas :: "'w ofmem \<Rightarrow> (space \<times> ucell \<times> ucell) set" where
  "areas s = (\<Union>k. (\<lambda>r. (k, rg_start r, rg_size r)) ` set (ranges k s))"

definition span :: "ucell \<Rightarrow> ucell \<Rightarrow> nat set" where
  "span a sz = {unat a ..< unat a + unat sz}"

inductive session :: "'w ofenv \<Rightarrow> 'w ofmem \<Rightarrow> nat \<Rightarrow> (space \<times> ucell \<times> ucell) set \<Rightarrow> 'w ofmem \<Rightarrow> bool" for e s0 where
  start: "session e s0 0 (areas s0) s0"
| claim: "session e s0 n G s \<Longrightarrow> fair k a sz align s \<Longrightarrow> claim k e a sz align s = Some (b, s') \<Longrightarrow>
    session e s0 (Suc n) (if b = - 1 then G else insert (k, b, sz) G) s'"
| release: "session e s0 n G s \<Longrightarrow> (k, a, sz) \<in> G \<Longrightarrow> release k e a sz s = Some s' \<Longrightarrow>
    session e s0 (Suc n) (G - {(k, a, sz)}) s'"

inductive_cases session_stepE: "session e s0 (Suc n) G s"

lemma areas_iff: "(k, a, sz) \<in> areas s \<longleftrightarrow> (\<exists>r \<in> set (ranges k s). a = rg_start r \<and> sz = rg_size r)"
  by (auto simp: areas_def)

lemma area_pairs_eq: "areas s' = H \<longleftrightarrow> (\<forall>k a sz. (k, a, sz) \<in> areas s' \<longleftrightarrow> (k, a, sz) \<in> H)"
  by auto

lemma claimed_areas: "claimed (ranges k s) = (\<Union>(a, sz) \<in> {(a, sz). (k, a, sz) \<in> areas s}. span a sz)"
  by (auto simp: claimed_def areas_iff span_def cells_of_def)

lemma areas_claim:
  assumes "ranges k s' = insert_range r (ranges k s)" and "\<And>j. j \<noteq> k \<Longrightarrow> ranges j s' = ranges j s"
  shows "areas s' = insert (k, rg_start r, rg_size r) (areas s)"
proof -
  have "(j, a, sz) \<in> areas s' \<longleftrightarrow> (j, a, sz) \<in> insert (k, rg_start r, rg_size r) (areas s)" for j a sz
    using assms by (cases "j = k") (auto simp: areas_iff insert_range_set)
  then show ?thesis by auto
qed

lemma areas_release:
  assumes "wf_ranges (ranges k s)" and "ranges k s = xs @ r # ys" and "ranges k s' = xs @ ys" and "\<And>j. j \<noteq> k \<Longrightarrow> ranges j s' = ranges j s"
  shows "areas s' = areas s - {(k, rg_start r, rg_size r)}"
proof -
  have pos: "0 < unat (rg_size q)" if "q \<in> set (ranges k s)" for q
    using wf_ranges_ok [OF assms(1)] that by (auto simp: list_all_iff unat_gt_0)
  have ne: "rg_start q \<noteq> rg_start r" if "q \<in> set xs \<or> q \<in> set ys" for q
    using that assms(1) pos [of q] pos [of r] by (fastforce simp: assms(2) wf_ranges_append list_all_iff)
  have "(j, a, sz) \<in> areas s' \<longleftrightarrow> (j, a, sz) \<in> areas s - {(k, rg_start r, rg_size r)}" for j a sz
    using assms(2-4) ne by (cases "j = k") (auto simp: areas_iff)
  then show ?thesis by auto
qed

lemma aligned_area:
  assumes "wf_ranges rs" and "sz \<noteq> 0" and "unat sz \<le> unat mx" and "unat align \<le> 2 ^ 31"
    and "find_area align sz rs mn mx True = b" and "b \<noteq> - 1"
  shows "is_free b sz rs \<and> unat b + unat sz < 2 ^ 32"
proof -
  from round_align_power [OF assms(4)] obtain p where p: "round_align align = 2 ^ p" by blast
  have "find_down (2 ^ p) sz rs mx (mx - sz) (rev rs) = b" using assms(5) p by (simp add: find_area_def)
  from find_down_result [OF assms(3) this] assms(6) have "is_free b sz rs" "unat b + unat sz \<le> unat mx" by blast+
  then show ?thesis using unsigned_less [of mx, where ?'a = nat] by simp
qed

definition granted :: "space \<Rightarrow> ucell \<Rightarrow> ucell \<Rightarrow> ucell \<Rightarrow> 'w ofmem \<Rightarrow> ucell \<Rightarrow> 'w ofmem \<Rightarrow> bool" where
  "granted k a sz align s b s' \<longleftrightarrow> (align = 0 \<longrightarrow> b = (if span a sz \<inter> claimed (ranges k s) = {} then a else - 1)) \<and>
     (b \<noteq> - 1 \<longrightarrow> span b sz \<inter> claimed (ranges k s) = {} \<and> areas s' = insert (k, b, sz) (areas s)) \<and>
     (b = - 1 \<longrightarrow> areas s' = areas s)"

lemma claim_claims:
  assumes c: "claims_ok e R (Suc i) (n + 31) s" and f: "fair k a sz align s"
  shows "\<exists>b s'. claim k e a sz align s = Some (b, s') \<and> claims_ok e R i n s' \<and> granted k a sz align s b s' \<and> trans s' = trans s"
proof -
  have wf: "wf_ranges (ranges k s)" using c by (simp add: claims_ok_def)
  have weak: "claims_ok e R i n s" using c fits_mono [of "Suc i" R s s i] by (auto simp: claims_ok_def room_for_def)
  have free: "is_free b sz (ranges k s) \<longleftrightarrow> span b sz \<inter> claimed (ranges k s) = {}" if "unat b + unat sz < 2 ^ 32" for b
    using is_free_iff [OF wf_ranges_ok [OF wf], of b sz] that by (simp add: span_def)
  have g: "\<exists>s'. grant k e b sz s = Some (b, s') \<and> claims_ok e R i n s' \<and> areas s' = insert (k, b, sz) (areas s) \<and> trans s' = trans s \<and> b \<noteq> - 1"
    if "is_free b sz (ranges k s)" "unat b + unat sz < 2 ^ 32" for b
  proof -
    have sz: "sz \<noteq> 0" using f by (simp add: fair_def)
    then have "b \<noteq> - 1" using that(2) by (auto simp: unsigned_minus_1_eq_mask mask_eq_exp_minus_1 simp flip: unat_gt_0)
    from grant_claims [OF c that(1) sz that(2)] obtain r s' where "grant k e b sz s = Some (b, s')" "claims_ok e R i n s'"
      "rg_start r = b" "rg_size r = sz" "ranges k s' = insert_range r (ranges k s)" "\<And>j. j \<noteq> k \<Longrightarrow> ranges j s' = ranges j s" "trans s' = trans s" by blast
    with areas_claim [of k s' r s] \<open>b \<noteq> - 1\<close> show ?thesis by auto
  qed
  show ?thesis
  proof (cases "align = 0")
    case True
    then have a: "unat a + unat sz < 2 ^ 32" using f by (simp add: fair_def)
    show ?thesis
      using g [OF _ a] weak True free [OF a] by (cases "is_free a sz (ranges k s)") (auto simp: claim_at granted_def)
  next
    case False
    then have k: "k \<noteq> Io" "sz \<noteq> 0" "unat align \<le> 2 ^ 31" "unat sz \<le> unat (limit k s)" using f by (simp_all add: fair_def)
    from claim_find [OF False k(1), of e a sz s] obtain mn w where cl: "claim k e a sz align s = (let b = find_area align sz (ranges k s) mn (limit k s) True
      in if b = - 1 then Some (- 1, s\<lparr>hworld := w\<rparr>) else grant k e b sz s)" by blast
    define b where "b = find_area align sz (ranges k s) mn (limit k s) True"
    show ?thesis
    proof (cases "b = - 1")
      case True
      have r: "ranges j (s\<lparr>hworld := w\<rparr>) = ranges j s" for j by (cases j) simp_all
      then have "areas (s\<lparr>hworld := w\<rparr>) = areas s" by (simp add: areas_def)
      moreover have "claims_ok e R i n (s\<lparr>hworld := w\<rparr>)"
        using weak r by (simp add: claims_ok_def nodes_def node_blocks_def own_def fits_def room_for_def)
      ultimately show ?thesis using True False by (simp add: cl b_def [symmetric] granted_def)
    next
      case b1: False
      from aligned_area [OF wf k(2,4,3) b_def [symmetric] b1] have fb: "is_free b sz (ranges k s)" "unat b + unat sz < 2 ^ 32" by blast+
      from g [OF this] free [OF fb(2)] fb b1 False show ?thesis by (auto simp: cl b_def [symmetric] granted_def)
    qed
  qed
qed


lemma session_invariant:
  assumes "session e s0 n G s"
  shows "claims_ok e R (i + n) (j + 31 * n) s0 \<Longrightarrow> claims_ok e R i j s \<and> areas s = G \<and> trans s = trans s0"
  using assms
proof (induction arbitrary: i j)
  case start
  then show ?case by simp
next
  case (claim n G s k a sz align b s')
  have "claims_ok e R (Suc i + n) (j + 31 + 31 * n) s0" using claim.prems by (simp add: add_ac)
  from claim.IH [OF this] have s: "claims_ok e R (Suc i) (j + 31) s" "areas s = G" "trans s = trans s0" by simp_all
  from claim_claims [OF s(1) claim.hyps(2)] claim.hyps(3) have "claims_ok e R i j s'" "granted k a sz align s b s'" "trans s' = trans s" by auto
  then show ?case using s by (simp add: granted_def)
next
  case (release n G s k a sz s')
  have "claims_ok e R (i + 1 + n) (j + 31 + 31 * n) s0" using release.prems by (simp add: add_ac)
  from release.IH [OF this] have s: "claims_ok e R (i + 1) (j + 31) s" "areas s = G" "trans s = trans s0" by simp_all
  have weak: "claims_ok e R i j s" using s(1) fits_mono [of "Suc i" R s s i] by (auto simp: claims_ok_def room_for_def)
  from release.hyps(2) s(2) obtain r where r: "r \<in> set (ranges k s)" "a = rg_start r" "sz = rg_size r" by (auto simp: areas_iff)
  from split_list [OF r(1)] obtain xs ys where rs: "ranges k s = xs @ r # ys" by blast
  have "wf_ranges (ranges k s)" using weak by (simp add: claims_ok_def)
  with release_claims [OF weak rs] areas_release [of k s xs r ys s'] release.hyps(3) r rs s show ?case by auto
qed

lemma areas_disjoint:
  assumes "claims_ok e R i n s" and "(k, a, sz) \<in> areas s" and "(k, b, tz) \<in> areas s" and "(a, sz) \<noteq> (b, tz)"
  shows "span a sz \<inter> span b tz = {}"
proof -
  from assms(2,3) obtain q r where qr: "q \<in> set (ranges k s)" "r \<in> set (ranges k s)" "a = rg_start q" "sz = rg_size q" "b = rg_start r" "tz = rg_size r"
    by (auto simp: areas_iff)
  then have ne: "q \<noteq> r" using assms(4) by auto
  from split_list [OF qr(1)] obtain xs ys where rs: "ranges k s = xs @ q # ys" by blast
  have "cells_of q \<inter> claimed (xs @ ys) = {}" using assms(1) by (intro release_list(6) [OF _ _ rs]) (simp_all add: claims_ok_def)
  moreover have "cells_of r \<subseteq> claimed (xs @ ys)" using qr(2) ne rs by (auto simp: claimed_def)
  moreover have "span a sz = cells_of q" "span b tz = cells_of r" using qr by (simp_all add: cells_of_def span_def)
  ultimately show ?thesis by auto
qed


lemma demo_ranges: "ranges j (demo_ofmem ph) = []"
  by (cases j) (simp_all add: demo_ofmem_def)

lemma demo_claims_ok: "31 * n \<le> 0xf0000 \<Longrightarrow> claims_ok demo_env {} k (31 * n) (demo_ofmem 0)"
proof -
  assume n: "31 * n \<le> 0xf0000"
  have "nodes (demo_ofmem 0) = []" by (simp add: nodes_def demo_ofmem_def)
  then show ?thesis using demo_ranges demo_trans_ok [OF n, of k] by (simp add: claims_ok_def trans_ok_def below_top_def node_blocks_def)
qed


end
