(* ===== verification/Libc_Format.thy ===== *)
theory Libc_Format
  imports Libc_String
begin

text \<open>
  \<open>libc/vsprintf.c\<close>. The output goes through \<open>put_char\<close>: a character is stored where the pointer has
  not passed the last byte of the buffer, and the pointer advances in any case. The format is a
  reader with a position (it is \<open>const\<close> and must not lie in the buffer); the strings of \<open>%s\<close> are read
  from the memory as it is when they are reached. A \<open>va_list\<close> is the list of the arguments left,
  each of one word or of two; asking for the wrong one is undefined, as is an \<open>int\<close> that overflows.
\<close>

subsection \<open>Numbers\<close>

datatype va_item = W32 ucell | W64 u64

type_synonym va_list = "va_item list"
type_synonym sink = "memory \<times> ucell"

abbreviation ZEROPAD :: u32 where "ZEROPAD \<equiv> 1"
abbreviation SIGN :: u32 where "SIGN \<equiv> 2"
abbreviation PLUS :: u32 where "PLUS \<equiv> 4"
abbreviation SPACE :: u32 where "SPACE \<equiv> 8"
abbreviation LEFT :: u32 where "LEFT \<equiv> 16"
abbreviation SPECIAL :: u32 where "SPECIAL \<equiv> 32"
abbreviation LARGE :: u32 where "LARGE \<equiv> 64"

abbreviation INT_MIN :: int where "INT_MIN \<equiv> - 0x80000000"
abbreviation INT_MAX :: int where "INT_MAX \<equiv> 0x7fffffff"

definition has :: "u32 \<Rightarrow> u32 \<Rightarrow> bool" where
  "has type flag \<longleftrightarrow> type AND flag \<noteq> 0"

abbreviation ch :: "char \<Rightarrow> u8" where
  "ch \<equiv> of_char"

definition put_char :: "ucell \<Rightarrow> u8 \<Rightarrow> sink \<Rightarrow> sink option" where
  "put_char lim c = (\<lambda>(m, str). do { m \<leftarrow> (if str \<le> lim then write_byte m str c else Some m); Some (m, str + 1) })"

text \<open>\<open>while (lo < n--) put (c)\<close>, with the value of \<open>n\<close> after the loop.\<close>

function fill :: "ucell \<Rightarrow> u8 \<Rightarrow> int \<Rightarrow> int \<Rightarrow> sink \<Rightarrow> (int \<times> sink) option" where
  "fill lim c lo n ms =
     (if lo < n then do { ms \<leftarrow> put_char lim c ms; fill lim c lo (n - 1) ms }
      else if n = INT_MIN then None else Some (n - 1, ms))"
  by pat_completeness auto
termination
  by (relation "measure (\<lambda>(lim, c, lo, n, ms). nat (n - lo))") auto

declare fill.simps [simp del]

definition small_digits :: "u8 list" where
  "small_digits = cstr ''0123456789abcdefghijklmnopqrstuvwxyz''"

definition large_digits :: "u8 list" where
  "large_digits = cstr ''0123456789ABCDEFGHIJKLMNOPQRSTUVWXYZ''"

text \<open>The digits in the order of \<open>tmp\<close>, the lowest first; \<open>tmp\<close> has 66 places.\<close>

function digit_loop :: "u8 list \<Rightarrow> u64 \<Rightarrow> u64 \<Rightarrow> u8 list \<Rightarrow> u8 list option" where
  "digit_loop digits base num tmp =
     (if num = 0 then Some tmp
      else if 66 \<le> length tmp then None
      else digit_loop digits base (num div base) (tmp @ [digits ! unat (num mod base)]))"
  by pat_completeness auto
termination
  by (relation "measure (\<lambda>(digits, base, num, tmp). 66 - length tmp)") auto

declare digit_loop.simps [simp del]

text \<open>\<open>while (i-- > 0) put (tmp[i])\<close>\<close>

fun put_tmp :: "ucell \<Rightarrow> u8 list \<Rightarrow> nat \<Rightarrow> sink \<Rightarrow> sink option" where
  "put_tmp lim tmp 0 ms = Some ms"
| "put_tmp lim tmp (Suc i) ms = do { ms \<leftarrow> put_char lim (tmp ! i) ms; put_tmp lim tmp i ms }"

text \<open>The second half of \<open>number\<close>, from the digits in \<open>tmp\<close> on.\<close>

definition number_out :: "ucell \<Rightarrow> u8 list \<Rightarrow> int \<Rightarrow> u8 \<Rightarrow> u8 \<Rightarrow> u8 list \<Rightarrow> int \<Rightarrow> int \<Rightarrow> u32 \<Rightarrow> sink \<Rightarrow> sink option" where
  "number_out lim digits base c sign tmp sz precision type ms =
     (let i = int (length tmp);
          precision = (if precision < i then i else precision);
          sz = sz - precision
      in if sz < INT_MIN then None else do {
        (sz, ms) \<leftarrow> (if \<not> has type (ZEROPAD + LEFT) then fill lim (ch CHR '' '') 0 sz ms else Some (sz, ms));
        ms \<leftarrow> (if sign \<noteq> 0 then put_char lim sign ms else Some ms);
        ms \<leftarrow> (if has type SPECIAL
               then if base = 8 then put_char lim (ch CHR ''0'') ms
                    else if base = 16
                    then do { ms \<leftarrow> put_char lim (ch CHR ''0'') ms; put_char lim (digits ! 33) ms }
                    else Some ms
               else Some ms);
        (sz, ms) \<leftarrow> (if \<not> has type LEFT then fill lim c 0 sz ms else Some (sz, ms));
        (precision, ms) \<leftarrow> fill lim (ch CHR ''0'') i precision ms;
        ms \<leftarrow> put_tmp lim tmp (length tmp) ms;
        (sz, ms) \<leftarrow> fill lim (ch CHR '' '') 0 sz ms;
        Some ms })"

definition number :: "ucell \<Rightarrow> u64 \<Rightarrow> int \<Rightarrow> int \<Rightarrow> int \<Rightarrow> u32 \<Rightarrow> sink \<Rightarrow> sink option" where
  "number lim num base sz precision type ms =
     (let digits = (if has type LARGE then large_digits else small_digits);
          type = (if has type LEFT then type AND NOT ZEROPAD else type)
      in if base < 2 \<or> 36 < base then Some (fst ms, 0)
      else do {
        let c = (if has type ZEROPAD then ch CHR ''0'' else ch CHR '' '');
        (sign, num, sz) \<leftarrow>
          (if has type SIGN
           then if sint num < 0 then if num = 0x8000000000000000 then None else Some (ch CHR ''-'', - num, sz - 1)
                else if has type PLUS then Some (ch CHR ''+'', num, sz - 1)
                else if has type SPACE then Some (ch CHR '' '', num, sz - 1)
                else Some (0, num, sz)
           else Some (0, num, sz));
        let sz = (if has type SPECIAL then if base = 16 then sz - 2 else if base = 8 then sz - 1 else sz else sz);
        tmp \<leftarrow> (if num = 0 then Some [ch CHR ''0''] else digit_loop digits (word_of_int base) num []);
        number_out lim digits base c sign tmp sz precision type ms })"

subsection \<open>The format\<close>

partial_function (option) skip_atoi :: "reader \<Rightarrow> nat \<Rightarrow> int \<Rightarrow> (int \<times> nat) option" where
  "skip_atoi s p i =
     do { c \<leftarrow> s p;
          if isdigit c
          then if INT_MAX < i * 10 + uint c then None else skip_atoi s (Suc p) (i * 10 + uint c - 48)
          else Some (i, p) }"

partial_function (option) flags_loop :: "reader \<Rightarrow> nat \<Rightarrow> u32 \<Rightarrow> (u32 \<times> nat) option" where
  "flags_loop fmt p flags =
     do { let p = Suc p;
          c \<leftarrow> fmt p;
          if c = ch CHR ''-'' then flags_loop fmt p (flags OR LEFT)
          else if c = ch CHR ''+'' then flags_loop fmt p (flags OR PLUS)
          else if c = ch CHR '' '' then flags_loop fmt p (flags OR SPACE)
          else if c = ch CHR ''#'' then flags_loop fmt p (flags OR SPECIAL)
          else if c = ch CHR ''0'' then flags_loop fmt p (flags OR ZEROPAD)
          else Some (flags, p) }"

fun va_arg32 :: "va_list \<Rightarrow> (ucell \<times> va_list) option" where
  "va_arg32 (W32 v # args) = Some (v, args)"
| "va_arg32 _ = None"

fun va_arg64 :: "va_list \<Rightarrow> (u64 \<times> va_list) option" where
  "va_arg64 (W64 v # args) = Some (v, args)"
| "va_arg64 _ = None"

definition get_width :: "reader \<Rightarrow> nat \<Rightarrow> u32 \<Rightarrow> va_list \<Rightarrow> (int \<times> u32 \<times> nat \<times> va_list) option" where
  "get_width fmt p flags args =
     do { c \<leftarrow> fmt p;
          if isdigit c then do { (w, p) \<leftarrow> skip_atoi fmt p 0; Some (w, flags, p, args) }
          else if c = ch CHR ''*''
          then do { (v, args) \<leftarrow> va_arg32 args;
                    if sint v < 0
                    then if sint v = INT_MIN then None else Some (- sint v, flags OR LEFT, Suc p, args)
                    else Some (sint v, flags, Suc p, args) }
          else Some (- 1, flags, p, args) }"

definition get_precision :: "reader \<Rightarrow> nat \<Rightarrow> va_list \<Rightarrow> (int \<times> nat \<times> va_list) option" where
  "get_precision fmt p args =
     do { c \<leftarrow> fmt p;
          if c = ch CHR ''.''
          then do { let p = Suc p;
                    c \<leftarrow> fmt p;
                    (precision, p, args) \<leftarrow>
                      (if isdigit c then do { (n, p) \<leftarrow> skip_atoi fmt p 0; Some (n, p, args) }
                       else if c = ch CHR ''*'' then do { (v, args) \<leftarrow> va_arg32 args; Some (sint v, Suc p, args) }
                       else Some (- 1, p, args));
                    Some (if precision < 0 then 0 else precision, p, args) }
          else Some (- 1, p, args) }"

definition get_qualifier :: "reader \<Rightarrow> nat \<Rightarrow> (u8 option \<times> nat) option" where
  "get_qualifier fmt p =
     do { c \<leftarrow> fmt p;
          if c = ch CHR ''h'' \<or> c = ch CHR ''l'' \<or> c = ch CHR ''L'' \<or> c = ch CHR ''Z'' \<or> c = ch CHR ''z''
          then do { let p = Suc p;
                    d \<leftarrow> fmt p;
                    Some (if c = ch CHR ''l'' \<and> d = ch CHR ''l'' then (Some (ch CHR ''L''), Suc p) else (Some c, p)) }
          else Some (None, p) }"

partial_function (option) mstrlen_loop :: "reader \<Rightarrow> nat \<Rightarrow> int \<Rightarrow> int option" where
  "mstrlen_loop str p i =
     do { c \<leftarrow> str p; if c \<noteq> 0 then if i = INT_MAX then None else mstrlen_loop str (Suc p) (i + 1) else Some i }"

definition mstrlen :: "reader \<Rightarrow> int option" where
  "mstrlen str = mstrlen_loop str 0 0"

text \<open>\<open>for (i = 0; i < len; ++i) put (*s++)\<close>; the string is read as the output grows.\<close>

fun put_str :: "ucell \<Rightarrow> (memory \<Rightarrow> reader) \<Rightarrow> nat \<Rightarrow> nat \<Rightarrow> sink \<Rightarrow> sink option" where
  "put_str lim s i 0 ms = Some ms"
| "put_str lim s i (Suc n) ms = do { c \<leftarrow> s (fst ms) i; ms \<leftarrow> put_char lim c ms; put_str lim s (Suc i) n ms }"

text \<open>\<open>while (--n > 0) put (' ')\<close>\<close>

function fill_c :: "ucell \<Rightarrow> int \<Rightarrow> sink \<Rightarrow> (int \<times> sink) option" where
  "fill_c lim n ms =
     (if n = INT_MIN then None
      else if n - 1 > 0 then do { ms \<leftarrow> put_char lim (ch CHR '' '') ms; fill_c lim (n - 1) ms }
      else Some (n - 1, ms))"
  by pat_completeness auto
termination
  by (relation "measure (\<lambda>(lim, n, ms). nat n)") auto

declare fill_c.simps [simp del]

definition conv_char :: "ucell \<Rightarrow> u32 \<Rightarrow> int \<Rightarrow> va_list \<Rightarrow> sink \<Rightarrow> (va_list \<times> sink) option" where
  "conv_char lim flags field_width args ms =
     do { (field_width, ms) \<leftarrow> (if \<not> has flags LEFT then fill_c lim field_width ms else Some (field_width, ms));
          (v, args) \<leftarrow> va_arg32 args;
          ms \<leftarrow> put_char lim (ucast v) ms;
          (_, ms) \<leftarrow> fill_c lim field_width ms;
          Some (args, ms) }"

definition conv_string :: "ucell \<Rightarrow> u32 \<Rightarrow> int \<Rightarrow> int \<Rightarrow> va_list \<Rightarrow> sink \<Rightarrow> (va_list \<times> sink) option" where
  "conv_string lim flags field_width precision args ms =
     do { (v, args) \<leftarrow> va_arg32 args;
          let s = (if v < 4096 then (\<lambda>_. lit_str (cstr ''<NULL>'')) else (\<lambda>m. at m v));
          len \<leftarrow> mstrlen (s (fst ms));
          let len = (if len < precision then precision else len);
          (field_width, ms) \<leftarrow> (if \<not> has flags LEFT then fill lim (ch CHR '' '') len field_width ms else Some (field_width, ms));
          ms \<leftarrow> put_str lim s 0 (nat len) ms;
          (_, ms) \<leftarrow> fill lim (ch CHR '' '') len field_width ms;
          Some (args, ms) }"

definition get_number :: "u8 option \<Rightarrow> u32 \<Rightarrow> va_list \<Rightarrow> (u64 \<times> va_list) option" where
  "get_number qualifier flags args =
     (if qualifier = Some (ch CHR ''L'') then va_arg64 args
      else do {
        (v, args) \<leftarrow> va_arg32 args;
        Some (if qualifier = Some (ch CHR ''l'') then if has flags SIGN then scast v else ucast v
              else if qualifier = Some (ch CHR ''Z'') \<or> qualifier = Some (ch CHR ''z'') then ucast v
              else if qualifier = Some (ch CHR ''h'')
              then if has flags SIGN then scast (ucast v :: u16) else ucast (ucast v :: u16)
              else if has flags SIGN then scast v else ucast v, args) })"

definition conv_number :: "ucell \<Rightarrow> u32 \<Rightarrow> int \<Rightarrow> int \<Rightarrow> u8 option \<Rightarrow> int \<Rightarrow> va_list \<Rightarrow> sink \<Rightarrow> (va_list \<times> sink) option" where
  "conv_number lim flags field_width precision qualifier base args ms =
     do { (num, args) \<leftarrow> get_number qualifier flags args;
          ms \<leftarrow> number lim num base field_width precision flags ms;
          Some (args, ms) }"

text \<open>One turn of the loop: the position after it is the one the \<open>++fmt\<close> of the loop starts from.\<close>

definition conversion :: "ucell \<Rightarrow> ucell \<Rightarrow> reader \<Rightarrow> nat \<Rightarrow> va_list \<Rightarrow> sink \<Rightarrow> (nat \<times> va_list \<times> sink) option" where
  "conversion lim buf fmt p args ms =
     do { (flags, p) \<leftarrow> flags_loop fmt p 0;
          (field_width, flags, p, args) \<leftarrow> get_width fmt p flags args;
          (precision, p, args) \<leftarrow> get_precision fmt p args;
          (qualifier, p) \<leftarrow> get_qualifier fmt p;
          c \<leftarrow> fmt p;
          if c = ch CHR ''c'' then do { r \<leftarrow> conv_char lim flags field_width args ms; Some (p, r) }
          else if c = ch CHR ''s'' then do { r \<leftarrow> conv_string lim flags field_width precision args ms; Some (p, r) }
          else if c = ch CHR ''p'' then do {
            let (field_width, flags) = (if field_width = - 1 then (8, flags OR ZEROPAD) else (field_width, flags));
            (v, args) \<leftarrow> va_arg32 args;
            ms \<leftarrow> number lim (ucast v) 16 field_width precision flags ms;
            Some (p, args, ms) }
          else if c = ch CHR ''n'' then do {
            (ip, args) \<leftarrow> va_arg32 args;
            m \<leftarrow> write_ucell (fst ms) ip (snd ms - buf);
            Some (p, args, m, snd ms) }
          else if c = ch CHR ''%'' then do { ms \<leftarrow> put_char lim (ch CHR ''%'') ms; Some (p, args, ms) }
          else if c = ch CHR ''o'' then do { r \<leftarrow> conv_number lim flags field_width precision qualifier 8 args ms; Some (p, r) }
          else if c = ch CHR ''X'' then do { r \<leftarrow> conv_number lim (flags OR LARGE) field_width precision qualifier 16 args ms; Some (p, r) }
          else if c = ch CHR ''x'' then do { r \<leftarrow> conv_number lim flags field_width precision qualifier 16 args ms; Some (p, r) }
          else if c = ch CHR ''d'' \<or> c = ch CHR ''i''
          then do { r \<leftarrow> conv_number lim (flags OR SIGN) field_width precision qualifier 10 args ms; Some (p, r) }
          else if c = ch CHR ''u'' then do { r \<leftarrow> conv_number lim flags field_width precision qualifier 10 args ms; Some (p, r) }
          else do {
            ms \<leftarrow> put_char lim (ch CHR ''%'') ms;
            if c \<noteq> 0 then do { ms \<leftarrow> put_char lim c ms; Some (p, args, ms) }
            else Some (p - 1, args, ms) } }"

partial_function (option) vsn_loop :: "ucell \<Rightarrow> ucell \<Rightarrow> reader \<Rightarrow> nat \<Rightarrow> va_list \<Rightarrow> sink \<Rightarrow> sink option" where
  "vsn_loop lim buf fmt p args ms =
     do { c \<leftarrow> fmt p;
          if c = 0 then Some ms
          else if c \<noteq> ch CHR ''%'' then do { ms \<leftarrow> put_char lim c ms; vsn_loop lim buf fmt (Suc p) args ms }
          else do { (p, args, ms) \<leftarrow> conversion lim buf fmt p args ms; vsn_loop lim buf fmt (Suc p) args ms } }"

definition vsnprintf :: "memory \<Rightarrow> ucell \<Rightarrow> ucell \<Rightarrow> reader \<Rightarrow> va_list \<Rightarrow> (int \<times> memory) option" where
  "vsnprintf m buf sz fmt args =
     (let lim = buf + sz - 1;
          (lim, sz) = (if lim < buf - 1 then (- 1, - 1 - buf + 1) else (lim, sz))
      in do { (m, str) \<leftarrow> vsn_loop lim buf fmt 0 args (m, buf);
              m \<leftarrow> (if str \<le> lim then write_byte m str 0
                     else if 0 < sz then write_byte m lim 0
                     else Some m);
              Some (sint (str - buf), m) })"

definition snprintf :: "memory \<Rightarrow> ucell \<Rightarrow> ucell \<Rightarrow> reader \<Rightarrow> va_list \<Rightarrow> (int \<times> memory) option" where
  "snprintf m buf sz fmt args = vsnprintf m buf sz fmt args"

definition vsprintf :: "memory \<Rightarrow> ucell \<Rightarrow> reader \<Rightarrow> va_list \<Rightarrow> (int \<times> memory) option" where
  "vsprintf m buf fmt args = vsnprintf m buf 0x7fffffff fmt args"

definition sprintf :: "memory \<Rightarrow> ucell \<Rightarrow> reader \<Rightarrow> va_list \<Rightarrow> (int \<times> memory) option" where
  "sprintf m buf fmt args = vsprintf m buf fmt args"

end
