(* ===== verification/Libc_Format_Spec.thy ===== *)
theory Libc_Format_Spec
  imports Libc_Format
begin

text \<open>
  What \<open>vsnprintf\<close> promises. The specification is a function on lists: \<open>render\<close> takes the format and
  the arguments to the text, \<open>number_text\<close> a number to its digits, sign, prefix and padding. The code
  writes that text, cut to the buffer and terminated, returns its full length, and touches nothing
  outside the buffer.
\<close>

subsection \<open>Emitting a text\<close>

fun emit :: "ucell \<Rightarrow> u8 list \<Rightarrow> sink \<Rightarrow> sink option" where
  "emit lim [] ms = Some ms"
| "emit lim (c # cs) ms = do { ms \<leftarrow> put_char lim c ms; emit lim cs ms }"

lemma emit_append: "emit lim (xs @ ys) ms = do { ms \<leftarrow> emit lim xs ms; emit lim ys ms }"
  by (induction xs arbitrary: ms) (auto split: bind_splits)

lemma emit_Nil [simp]: "emit lim [] = Some"
  by (rule ext) simp

lemma emit_single [simp]: "emit lim [c] = put_char lim c"
  by (rule ext) simp

lemma fill_emit:
  assumes "0 \<le> lo" and "INT_MIN < n"
  shows "fill lim c lo n ms = do { ms \<leftarrow> emit lim (replicate (nat (n - lo)) c) ms; Some (min n lo - 1, ms) }"
  using assms(2)
proof (induction "nat (n - lo)" arbitrary: n ms)
  case 0
  then show ?case by (subst fill.simps) auto
next
  case (Suc k)
  then have "k = nat (n - 1 - lo)" "lo < n" by simp_all
  moreover have "nat (n - lo) = Suc k" using Suc by simp
  ultimately show ?case using Suc.hyps(1) [of "n - 1"] assms(1) by (subst fill.simps) (auto split: bind_splits)
qed

lemma fill_c_emit:
  "INT_MIN < n \<Longrightarrow> fill_c lim n ms = do { ms \<leftarrow> emit lim (replicate (nat (n - 1)) (ch CHR '' '')) ms; Some (min (n - 1) 0, ms) }"
proof (induction "nat (n - 1)" arbitrary: n ms)
  case 0
  then show ?case by (subst fill_c.simps) auto
next
  case (Suc k)
  then have "k = nat (n - 1 - 1)" "1 < n" by simp_all
  moreover have "nat (n - 1) = Suc k" using Suc by simp
  ultimately show ?case using Suc.hyps(1) [of "n - 1"] by (subst fill_c.simps) (auto split: bind_splits)
qed

lemma put_tmp_emit: "n \<le> length tmp \<Longrightarrow> put_tmp lim tmp n ms = emit lim (rev (take n tmp)) ms"
  by (induction n arbitrary: ms) (auto simp: take_Suc_conv_app_nth split: bind_splits)

subsection \<open>Numbers\<close>

fun nat_digits :: "nat \<Rightarrow> nat \<Rightarrow> nat list" where
  "nat_digits b n = (if b < 2 \<or> n < b then [n] else nat_digits b (n div b) @ [n mod b])"

declare nat_digits.simps [simp del]

lemma nat_digits_len: "2 \<le> b \<Longrightarrow> n < b ^ k \<Longrightarrow> 0 < k \<Longrightarrow> length (nat_digits b n) \<le> k"
proof (induction k arbitrary: n)
  case (Suc k)
  show ?case
  proof (cases "n < b")
    case True
    then show ?thesis by (subst nat_digits.simps) simp
  next
    case False
    then have "k \<noteq> 0" using Suc.prems by (cases k) auto
    moreover have "n div b < b ^ k" using Suc.prems by (intro less_mult_imp_div_less) (simp add: mult.commute)
    ultimately show ?thesis using Suc.IH [of "n div b"] False Suc.prems(1) by (subst nat_digits.simps) simp
  qed
qed simp

lemma nat_digits_len64:
  assumes "2 \<le> b"
  shows "length (nat_digits b (unat (x :: u64))) \<le> 64"
proof (rule nat_digits_len [OF assms])
  have "unat x < 2 ^ 64" using unsigned_less [of x, where ?'a = nat] by simp
  also have "2 ^ 64 \<le> b ^ 64" using assms by (rule power_mono) simp
  finally show "unat x < b ^ 64" .
qed simp

definition digit_chars :: "u32 \<Rightarrow> nat list \<Rightarrow> u8 list" where
  "digit_chars type = map ((!) (if has type LARGE then large_digits else small_digits))"

lemma digit_loop_eq:
  "2 \<le> b \<Longrightarrow> b \<le> 36 \<Longrightarrow> num \<noteq> 0 \<Longrightarrow> length tmp + length (nat_digits b (unat num)) \<le> 66 \<Longrightarrow>
    digit_loop digits (of_nat b) num tmp = Some (tmp @ rev (map ((!) digits) (nat_digits b (unat num))))"
proof (induction b "unat num" arbitrary: num tmp rule: nat_digits.induct)
  case (1 b)
  note assms = "1.prems"(1,2)
  let ?q = "num div of_nat b" let ?r = "num mod of_nat b"
  have b: "unat (of_nat b :: u64) = b" using assms by (intro unat_of_nat_small) simp
  have q: "unat ?q = unat num div b" "unat ?r = unat num mod b" by (simp_all add: unat_div unat_mod b)
  have tmp: "length tmp < 66" using "1.prems"(4) by (subst (asm) nat_digits.simps) (auto split: if_splits)
  show ?case
  proof (cases "unat num < b")
    case True
    then have "?q = 0" "unat ?r = unat num" using q by (simp_all add: unat_eq_zero)
    moreover have "nat_digits b (unat num) = [unat num]" using True by (subst nat_digits.simps) simp
    ultimately show ?thesis using "1.prems"(3) tmp by (subst digit_loop.simps, subst digit_loop.simps) simp
  next
    case False
    then have "0 < unat num div b" using assms(1) by (simp add: div_greater_zero_iff)
    then have "?q \<noteq> 0" using q(1) by auto
    moreover have d: "nat_digits b (unat num) = nat_digits b (unat ?q) @ [unat ?r]" using False assms(1) q by (subst nat_digits.simps) simp
    ultimately show ?thesis using "1.hyps" [of ?q] q "1.prems" tmp False assms(1) by (subst digit_loop.simps) simp
  qed
qed

definition number_text :: "u64 \<Rightarrow> nat \<Rightarrow> int \<Rightarrow> int \<Rightarrow> u32 \<Rightarrow> u8 list" where
  "number_text num base width precision type =
     (let ds = digit_chars type (nat_digits base (nat (if has type SIGN then \<bar>sint num\<bar> else uint num)));
          sg = (if \<not> has type SIGN then [] else if sint num < 0 then cstr ''-'' else if has type PLUS then cstr ''+''
                else if has type SPACE then cstr '' '' else []);
          pre = (if \<not> has type SPECIAL then [] else if base = 8 then cstr ''0''
                 else if base = 16 then if has type LARGE then cstr ''0X'' else cstr ''0x'' else []);
          body = replicate (nat (precision - int (length ds))) (ch CHR ''0'') @ ds;
          n = nat (width - int (length sg + length pre + length body))
      in if has type LEFT then sg @ pre @ body @ replicate n (ch CHR '' '')
         else if has type ZEROPAD then sg @ pre @ replicate n (ch CHR ''0'') @ body
         else replicate n (ch CHR '' '') @ sg @ pre @ body)"

lemma has_zeropad:
  "has (t AND - 2) f = has t f" if "f \<in> {SIGN, PLUS, SPACE, LEFT, SPECIAL, LARGE}"
  using that by (auto simp: has_def and.assoc)

lemma has_no_zeropad: "\<not> has (t AND - 2) ZEROPAD" "has t 17 \<longleftrightarrow> has t ZEROPAD \<or> has t LEFT"
proof -
  show "\<not> has (t AND - 2) ZEROPAD" by (simp add: has_def and.assoc)
  have "t AND 17 = (t AND 1) OR (t AND 16)" by (simp add: bit.conj_disj_distrib [symmetric])
  then show "has t 17 \<longleftrightarrow> has t ZEROPAD \<or> has t LEFT" by (simp add: has_def or_eq_0_iff)
qed

lemma sint_nonneg:
  assumes "0 \<le> sint (num :: u64)"
  shows "sint num = uint num"
proof -
  have "uint (word_of_int (sint num) :: u64) = sint num" using assms sint_lt [of num] by (simp only: uint_word_of_int_eq) (simp add: take_bit_int_eq_self)
  then show ?thesis by simp
qed

lemma abs_unat:
  assumes "sint (num :: u64) < 0" and "num \<noteq> 0x8000000000000000"
  shows "unat (- num) = nat \<bar>sint num\<bar>"
proof -
  have "- num = word_of_int (- sint num)" by simp
  moreover have "- (2 ^ 63) \<le> sint num" using sint_ge [of num] by simp
  then have "uint (word_of_int (- sint num) :: u64) = - sint num" using assms(1) by (simp add: uint_word_of_int_eq take_bit_int_eq_self del: word_of_int_minus of_int_minus)
  ultimately show ?thesis using assms(1) by (simp add: unat_eq_nat_uint)
qed

text \<open>The half of \<open>number\<close> that writes, as one text.\<close>

lemma number_out_eq:
  assumes sz: "- 8 \<le> sz" "sz \<le> INT_MAX" and pr: "precision \<le> 0x40000000" and len: "length tmp \<le> 64"
  shows "number_out lim digits base c sign tmp sz precision type ms = emit lim
    (let sg = (if sign = 0 then [] else [sign]);
         pre = (if \<not> has type SPECIAL then [] else if base = 8 then [ch CHR ''0''] else if base = 16 then [ch CHR ''0'', digits ! 33] else []);
         body = replicate (nat (precision - int (length tmp))) (ch CHR ''0'') @ rev tmp;
         n = nat (sz - int (length body))
     in if has type LEFT then sg @ pre @ body @ replicate n (ch CHR '' '')
        else if has type ZEROPAD then sg @ pre @ replicate n c @ body
        else replicate n (ch CHR '' '') @ sg @ pre @ body) ms"
proof -
  define P where "P = (if precision < int (length tmp) then int (length tmp) else precision)"
  have P: "INT_MIN + 8 < sz - P" "0 \<le> P" "INT_MIN < P" using sz pr len by (auto simp: P_def)
  have body: "int (length (replicate (nat (precision - int (length tmp))) (ch CHR ''0'') @ rev tmp)) = P" by (simp add: P_def)
  have z: "nat (P - int (length tmp)) = nat (precision - int (length tmp))" by (simp add: P_def)
  define sg pre where "sg = (if sign = 0 then [] else [sign])" and
    "pre = (if \<not> has type SPECIAL then [] else if base = 8 then [ch CHR ''0''] else if base = 16 then [ch CHR ''0'', digits ! 33] else [])"
  have sg: "(if sign \<noteq> 0 then put_char lim sign ms else Some ms) = emit lim sg ms" for ms by (simp add: sg_def)
  have pre: "(if has type SPECIAL then if base = 8 then put_char lim (ch CHR ''0'') ms
     else if base = 16 then do { ms \<leftarrow> put_char lim (ch CHR ''0'') ms; put_char lim (digits ! 33) ms } else Some ms else Some ms) = emit lim pre ms" for ms
    by (simp add: pre_def)
  note seq = emit_append Option.bind_assoc Option.bind_runit
  show ?thesis
  proof (cases "has type LEFT")
    case True
    then show ?thesis
      unfolding number_out_def Let_def P_def [symmetric] body sg pre sg_def [symmetric] pre_def [symmetric]
      using P by (simp add: fill_emit put_tmp_emit seq z has_no_zeropad(2))
  next
    case False
    then show ?thesis
      unfolding number_out_def Let_def P_def [symmetric] body sg pre sg_def [symmetric] pre_def [symmetric]
      using P by (cases "has type ZEROPAD") (simp_all add: fill_emit put_tmp_emit seq z has_no_zeropad(2) min_def)
  qed
qed

lemma number_eq:
  assumes b: "2 \<le> base" "base \<le> 36" and sz: "- 1 \<le> sz" "sz \<le> INT_MAX" and pr: "precision \<le> 0x40000000"
    and ov: "has type SIGN \<Longrightarrow> num \<noteq> 0x8000000000000000"
  shows "number lim num (int base) sz precision type ms = emit lim (number_text num base sz precision type) ms"
proof -
  let ?dg = "if has type LARGE then large_digits else small_digits"
  let ?type = "if has type LEFT then type AND NOT ZEROPAD else type"
  define num' where "num' = (if has type SIGN \<and> sint num < 0 then - num else num)"
  define sign :: u8 where "sign = (if \<not> has type SIGN then 0 else if sint num < 0 then ch CHR ''-'' else if has type PLUS then ch CHR ''+''
    else if has type SPACE then ch CHR '' '' else 0)"
  define sz' where "sz' = sz - (if sign = 0 then 0 else 1) - (if has type SPECIAL then if base = 16 then 2 else if base = 8 then 1 else 0 else 0)"
  have d: "?dg ! 0 = ch CHR ''0''" "?dg ! 33 = (if has type LARGE then ch CHR ''X'' else ch CHR ''x'')"
    by (simp_all add: large_digits_def small_digits_def cstr_def)
  have flg: "has ?type SIGN = has type SIGN" "has ?type PLUS = has type PLUS" "has ?type SPACE = has type SPACE"
    "has ?type LEFT = has type LEFT" "has ?type SPECIAL = has type SPECIAL" by (simp_all add: has_zeropad)
  have zp: "\<not> has type LEFT \<Longrightarrow> has ?type ZEROPAD = has type ZEROPAD" by simp
  have tmp: "(if num' = 0 then Some [ch CHR ''0''] else digit_loop ?dg (word_of_int (int base)) num' []) =
      Some (rev (digit_chars type (nat_digits base (unat num'))))"
  proof (cases "num' = 0")
    case True
    then show ?thesis using b d(1) by (simp add: digit_chars_def nat_digits.simps [of base 0])
  next
    case False
    have "length (nat_digits base (unat num')) \<le> 66" using nat_digits_len64 [OF b(1), of num'] by simp
    then show ?thesis using digit_loop_eq [OF b False, of "[]" ?dg] False by (simp add: digit_chars_def)
  qed
  have len: "length (rev (digit_chars type (nat_digits base (unat num')))) \<le> 64"
    using nat_digits_len64 [OF b(1), of num'] by (simp add: digit_chars_def)
  have mag: "nat (if has type SIGN then \<bar>sint num\<bar> else uint num) = unat num'"
  proof (cases "has type SIGN \<and> sint num < 0")
    case True
    then show ?thesis using abs_unat [of num] ov by (simp add: num'_def)
  next
    case False
    then have "has type SIGN \<Longrightarrow> sint num = uint num" by (simp add: sint_nonneg)
    then show ?thesis using False by (cases "has type SIGN") (simp_all add: num'_def)
  qed
  have trip: "(if has type SIGN
           then if sint num < 0 then if num = 0x8000000000000000 then None else Some (ch CHR ''-'', - num, sz - 1)
                else if has type PLUS then Some (ch CHR ''+'', num, sz - 1)
                else if has type SPACE then Some (ch CHR '' '', num, sz - 1)
                else Some (0, num, sz)
           else Some (0, num, sz)) = Some (sign, num', sz - (if sign = 0 then 0 else 1))"
    using ov by (simp add: sign_def num'_def)
  have sp: "(if has type SPECIAL then if int base = 16 then x - 2 else if int base = 8 then x - 1 else x else x) =
      x - (if has type SPECIAL then if base = 16 then 2 else if base = 8 then 1 else 0 else 0)" for x :: int by simp
  have rng: "(int base < 2 \<or> 36 < int base) = False" using b by simp
  have "number lim num (int base) sz precision type ms = number_out lim ?dg (int base) (if has ?type ZEROPAD then ch CHR ''0'' else ch CHR '' '')
      sign (rev (digit_chars type (nat_digits base (unat num')))) sz' precision ?type ms"
    by (simp only: number_def Let_def flg trip sp rng tmp sz'_def bind.bind_lunit prod.case if_False)
  also have "\<dots> = emit lim (number_text num base sz precision type) ms"
  proof -
    let ?sg = "if \<not> has type SIGN then [] else if sint num < 0 then cstr ''-'' else if has type PLUS then cstr ''+''
                else if has type SPACE then cstr '' '' else []"
    let ?pre = "if \<not> has type SPECIAL then [] else if base = 8 then cstr ''0''
                 else if base = 16 then if has type LARGE then cstr ''0X'' else cstr ''0x'' else []"
    have sg: "(if sign = 0 then [] else [sign]) = ?sg" by (simp add: sign_def cstr_def)
    have pre: "(if \<not> has type SPECIAL then [] else if int base = 8 then [ch CHR ''0'']
        else if int base = 16 then [ch CHR ''0'', if has type LARGE then ch CHR ''X'' else ch CHR ''x''] else []) = ?pre"
      by (simp add: cstr_def)
    have "length ?sg = (if sign = 0 then 0 else 1)" by (simp add: sg [symmetric])
    moreover have "length ?pre = (if has type SPECIAL then if base = 16 then 2 else if base = 8 then 1 else 0 else 0)" by (simp add: cstr_def)
    ultimately have n: "sz' - int (length b) = sz - int (length ?sg + length ?pre + length b)" for b :: "u8 list"
      unfolding sz'_def by (simp only: of_nat_add) simp
    have "- 8 \<le> sz'" "sz' \<le> INT_MAX" using sz by (simp_all add: sz'_def)
    note out = number_out_eq [OF this pr len, of lim ?dg "int base" "if has ?type ZEROPAD then ch CHR ''0'' else ch CHR '' ''" sign ?type ms,
        unfolded Let_def flg d(2) sg pre n length_rev rev_rev_ident]
    show ?thesis unfolding out number_text_def mag Let_def by (cases "has type LEFT") simp_all
  qed
  finally show ?thesis .
qed

subsection \<open>The text of a format\<close>

fun read_flags :: "u32 \<Rightarrow> u8 list \<Rightarrow> u32 \<times> u8 list" where
  "read_flags f [] = (f, [])"
| "read_flags f (c # cs) =
     (if c = ch CHR ''-'' then read_flags (f OR LEFT) cs
      else if c = ch CHR ''+'' then read_flags (f OR PLUS) cs
      else if c = ch CHR '' '' then read_flags (f OR SPACE) cs
      else if c = ch CHR ''#'' then read_flags (f OR SPECIAL) cs
      else if c = ch CHR ''0'' then read_flags (f OR ZEROPAD) cs
      else (f, c # cs))"

definition digits_value :: "nat \<Rightarrow> u8 list \<Rightarrow> nat" where
  "digits_value = foldl (\<lambda>n c. 10 * n + (unat c - 48))"

text \<open>Widths and precisions are specified up to 2^30.\<close>

definition read_num :: "u8 list \<Rightarrow> (int \<times> u8 list) option" where
  "read_num cs = (let n = digits_value 0 (takeWhile isdigit cs)
     in if n \<le> 0x40000000 then Some (int n, dropWhile isdigit cs) else None)"

fun read_width :: "u32 \<Rightarrow> u8 list \<Rightarrow> va_list \<Rightarrow> (int \<times> u32 \<times> u8 list \<times> va_list) option" where
  "read_width f [] args = Some (- 1, f, [], args)"
| "read_width f (c # cs) args =
     (if isdigit c then do { (n, cs) \<leftarrow> read_num (c # cs); Some (n, f, cs, args) }
      else if c = ch CHR ''*'' then do {
        (v, args) \<leftarrow> va_arg32 args;
        if \<bar>sint v\<bar> \<le> 0x40000000 then Some (\<bar>sint v\<bar>, if sint v < 0 then f OR LEFT else f, cs, args) else None }
      else Some (- 1, f, c # cs, args))"

fun read_precision :: "u8 list \<Rightarrow> va_list \<Rightarrow> (int \<times> u8 list \<times> va_list) option" where
  "read_precision (c # cs) args =
     (if c \<noteq> ch CHR ''.'' then Some (- 1, c # cs, args)
      else case cs of
        [] \<Rightarrow> Some (0, [], args)
      | d # ds \<Rightarrow>
          if isdigit d then do { (n, cs) \<leftarrow> read_num cs; Some (n, cs, args) }
          else if d = ch CHR ''*'' then do {
            (v, args) \<leftarrow> va_arg32 args;
            if sint v \<le> 0x40000000 then Some (max 0 (sint v), ds, args) else None }
          else Some (0, cs, args))"
| "read_precision [] args = Some (- 1, [], args)"

fun read_qualifier :: "u8 list \<Rightarrow> u8 option \<times> u8 list" where
  "read_qualifier (c # cs) =
     (if c \<in> {ch CHR ''h'', ch CHR ''l'', ch CHR ''L'', ch CHR ''Z'', ch CHR ''z''}
      then case cs of
        d # ds \<Rightarrow> if c = ch CHR ''l'' \<and> d = ch CHR ''l'' then (Some (ch CHR ''L''), ds) else (Some c, cs)
      | [] \<Rightarrow> (Some c, [])
      else (None, c # cs))"
| "read_qualifier [] = (None, [])"

definition pad_text :: "u32 \<Rightarrow> int \<Rightarrow> u8 list \<Rightarrow> u8 list" where
  "pad_text f width txt =
     (let sp = replicate (nat (width - int (length txt))) (ch CHR '' '') in if has f LEFT then txt @ sp else sp @ txt)"

text \<open>
  The text of \<open>%s\<close> as the code makes it: as many characters as the larger of the length and the precision, so that a precision
  never cuts and one beyond the length goes on after the terminator. The comment on \<open>precision\<close> in \<open>vsnprintf\<close> says
  otherwise (\<open>string_documented\<close>: at most so many characters); \<open>string_text_documented\<close> says when the two agree.
\<close>

definition string_text :: "memory \<Rightarrow> ucell \<Rightarrow> int \<Rightarrow> u8 list option" where
  "string_text m v precision =
     do { let s = (if v < 4096 then lit_str (cstr ''<NULL>'') else at m v);
          n \<leftarrow> strlen s;
          if n \<le> 0x40000000 then those (map s [0..<max n (nat precision)]) else None }"

definition string_documented :: "memory \<Rightarrow> ucell \<Rightarrow> int \<Rightarrow> u8 list option" where
  "string_documented m v precision =
     do { let s = (if v < 4096 then lit_str (cstr ''<NULL>'') else at m v);
          n \<leftarrow> strlen s;
          if n \<le> 0x40000000 then those (map s [0..<if precision < 0 then n else min n (nat precision)]) else None }"

lemma those_length: "those xs = Some ys \<Longrightarrow> length ys = length xs"
  by (induction xs arbitrary: ys) (auto split: option.splits)

lemma string_text_documented:
  assumes "string_text m v precision = Some txt" and "strlen (if v < 4096 then lit_str (cstr ''<NULL>'') else at m v) = Some n"
  shows "string_documented m v precision = Some txt \<longleftrightarrow> precision < 0 \<or> nat precision = n"
proof -
  let ?s = "if v < 4096 then lit_str (cstr ''<NULL>'') else at m v"
  have t: "n \<le> 0x40000000" "those (map ?s [0..<max n (nat precision)]) = Some txt"
    using assms by (simp_all add: string_text_def split: if_splits)
  have d: "string_documented m v precision = those (map ?s [0..<if precision < 0 then n else min n (nat precision)])"
    using assms(2) t(1) by (simp add: string_documented_def)
  show ?thesis
  proof (cases "precision < 0 \<or> nat precision = n")
    case True
    then have "(if precision < 0 then n else min n (nat precision)) = max n (nat precision)" by auto
    then show ?thesis using True d t(2) by simp
  next
    case False
    then have "length txt \<noteq> min n (nat precision)" using those_length [OF t(2)] by auto
    moreover have "length txt = min n (nat precision)" if "string_documented m v precision = Some txt"
      using those_length [OF that [unfolded d]] False by simp
    ultimately show ?thesis using False by blast
  qed
qed

definition num_text :: "nat \<Rightarrow> u32 \<Rightarrow> int \<Rightarrow> int \<Rightarrow> u8 option \<Rightarrow> va_list \<Rightarrow> (u8 list \<times> va_list) option" where
  "num_text base f width precision q args =
     do { (num, args) \<leftarrow> get_number q f args;
          if has f SIGN \<and> num = 0x8000000000000000 then None else Some (number_text num base width precision f, args) }"

text \<open>The text of one conversion; \<open>%n\<close> is not part of the specification.\<close>

definition conv_text :: "memory \<Rightarrow> u8 \<Rightarrow> u32 \<Rightarrow> int \<Rightarrow> int \<Rightarrow> u8 option \<Rightarrow> va_list \<Rightarrow> (u8 list \<times> va_list) option" where
  "conv_text m c f width precision q args =
     (if c = ch CHR ''c'' then do { (v, args) \<leftarrow> va_arg32 args; Some (pad_text f width [ucast v], args) }
      else if c = ch CHR ''s'' then do {
        (v, args) \<leftarrow> va_arg32 args; txt \<leftarrow> string_text m v precision; Some (pad_text f width txt, args) }
      else if c = ch CHR ''p'' then do {
        (v, args) \<leftarrow> va_arg32 args;
        Some (if width = - 1 then number_text (ucast v) 16 8 precision (f OR ZEROPAD)
              else number_text (ucast v) 16 width precision f, args) }
      else if c = ch CHR ''n'' then None
      else if c = ch CHR ''%'' then Some ([c], args)
      else if c = ch CHR ''o'' then num_text 8 f width precision q args
      else if c = ch CHR ''X'' then num_text 16 (f OR LARGE) width precision q args
      else if c = ch CHR ''x'' then num_text 16 f width precision q args
      else if c = ch CHR ''d'' \<or> c = ch CHR ''i'' then num_text 10 (f OR SIGN) width precision q args
      else if c = ch CHR ''u'' then num_text 10 f width precision q args
      else Some ([ch CHR ''%'', c], args))"

definition directive :: "u8 list \<Rightarrow> va_list \<Rightarrow> (u32 \<times> int \<times> int \<times> u8 option \<times> u8 list \<times> va_list) option" where
  "directive cs args =
     do { let (f, cs) = read_flags 0 cs;
          (width, f, cs, args) \<leftarrow> read_width f cs args;
          (precision, cs, args) \<leftarrow> read_precision cs args;
          let (q, cs) = read_qualifier cs;
          Some (f, width, precision, q, cs, args) }"

lemma read_flags_len: "read_flags f cs = (f', r) \<Longrightarrow> length r \<le> length cs"
  by (induction f cs rule: read_flags.induct) (auto split: if_splits)

lemma read_num_len: "read_num cs = Some (n, r) \<Longrightarrow> length r \<le> length cs"
  by (auto simp: read_num_def Let_def length_dropWhile_le split: if_splits)

lemma read_width_len: "read_width f cs args = Some (w, f', r, args') \<Longrightarrow> length r \<le> length cs"
proof (induction f cs args rule: read_width.induct)
  case (2 f c cs args)
  consider "isdigit c" | "\<not> isdigit c" "c = ch CHR ''*''" | "\<not> isdigit c" "c \<noteq> ch CHR ''*''" by blast
  then show ?case
  proof cases
    case 1
    with 2 show ?thesis using read_num_len [of "c # cs"] by (cases "read_num (c # cs)") auto
  next
    case 2
    with \<open>read_width f (c # cs) args = _\<close> show ?thesis
      by (cases "va_arg32 args") (auto simp del: abs_le_iff split: if_split_asm)
  next
    case 3
    with 2 show ?thesis by simp
  qed
qed simp

lemma read_precision_len: "read_precision cs args = Some (w, r, args') \<Longrightarrow> length r \<le> length cs"
proof (induction cs args rule: read_precision.induct)
  case (1 c cs args)
  show ?case
  proof (cases "c = ch CHR ''.''")
    case dot: True
    show ?thesis
    proof (cases cs)
      case (Cons d ds)
      consider "isdigit d" | "\<not> isdigit d" "d = ch CHR ''*''" | "\<not> isdigit d" "d \<noteq> ch CHR ''*''" by blast
      then show ?thesis
      proof cases
        case 1
        with \<open>read_precision (c # cs) args = _\<close> dot Cons obtain n where "read_num (d # ds) = Some (n, r)"
          by (cases "read_num (d # ds)") auto
        then show ?thesis using read_num_len Cons by fastforce
      qed (use 1 dot Cons in \<open>auto simp: bind_eq_Some_iff split: if_splits\<close>)
    qed (use 1 dot in auto)
  qed (use 1 in auto)
qed simp

lemma read_qualifier_len: "read_qualifier cs = (q, r) \<Longrightarrow> length r \<le> length cs"
  by (cases cs) (auto split: if_splits list.splits)

lemma directive_cases:
  assumes "directive cs args = Some (f, w, pr, q, r, args')"
  obtains f1 r1 r2 args2 r3 where "read_flags 0 cs = (f1, r1)" "read_width f1 r1 args = Some (w, f, r2, args2)"
    "read_precision r2 args2 = Some (pr, r3, args')" "read_qualifier r3 = (q, r)"
proof -
  obtain f1 r1 where 1: "read_flags 0 cs = (f1, r1)" by (cases "read_flags 0 cs")
  with assms obtain w2 f2 r2 args2 where 2: "read_width f1 r1 args = Some (w2, f2, r2, args2)"
    by (cases "read_width f1 r1 args") (auto simp: directive_def)
  with assms 1 obtain pr3 r3 args3 where 3: "read_precision r2 args2 = Some (pr3, r3, args3)"
    by (cases "read_precision r2 args2") (auto simp: directive_def)
  obtain q4 r4 where 4: "read_qualifier r3 = (q4, r4)" by (cases "read_qualifier r3")
  show ?thesis using that [OF 1 _ _ _] assms 1 2 3 4 by (auto simp: directive_def)
qed

lemma directive_len:
  assumes "directive cs args = Some (f, w, pr, q, r, args')"
  shows "length r \<le> length cs"
proof -
  from assms obtain f1 r1 r2 args2 r3 where d: "read_flags 0 cs = (f1, r1)" "read_width f1 r1 args = Some (w, f, r2, args2)"
    "read_precision r2 args2 = Some (pr, r3, args')" "read_qualifier r3 = (q, r)" by (rule directive_cases)
  show ?thesis
    using read_flags_len [OF d(1)] read_width_len [OF d(2)] read_precision_len [OF d(3)] read_qualifier_len [OF d(4)] by simp
qed

function render :: "memory \<Rightarrow> u8 list \<Rightarrow> va_list \<Rightarrow> u8 list option" where
  "render m [] args = Some []"
| "render m (c # cs) args =
     (if c \<noteq> ch CHR ''%'' then map_option ((#) c) (render m cs args)
      else case directive cs args of
        None \<Rightarrow> None
      | Some (f, width, precision, q, r, args) \<Rightarrow>
          (case r of
             [] \<Rightarrow> Some [c]
           | d # r \<Rightarrow>
               (case conv_text m d f width precision q args of
                  None \<Rightarrow> None
                | Some (txt, args) \<Rightarrow> map_option ((@) txt) (render m r args))))"
  by pat_completeness auto
termination
  by (relation "measure (\<lambda>(m, cs, args). length cs)") (auto dest!: directive_len)

declare render.simps(2) [simp del]

subsection \<open>Reading the format\<close>

text \<open>The reader \<open>s\<close> holds \<open>cs\<close> from position \<open>p\<close> to its terminator.\<close>

definition tail_at :: "reader \<Rightarrow> nat \<Rightarrow> u8 list \<Rightarrow> bool" where
  "tail_at s p cs \<longleftrightarrow> is_cstring (\<lambda>i. s (p + i)) cs"

lemma tail_at_Nil: "tail_at s p [] \<longleftrightarrow> s p = Some 0"
  by (simp add: tail_at_def is_cstring_def)

lemma tail_at_Cons: "tail_at s p (c # cs) \<longleftrightarrow> s p = Some c \<and> c \<noteq> 0 \<and> tail_at s (Suc p) cs"
  by (auto simp: tail_at_def is_cstring_def All_less_Suc2)

lemmas tail_at_simps = tail_at_Nil tail_at_Cons

text \<open>The character at the position, the terminator at the end of the text.\<close>

lemma tail_at_head: "tail_at s p cs \<Longrightarrow> s p = Some (case cs of [] \<Rightarrow> 0 | c # _ \<Rightarrow> c)"
  by (cases cs) (simp_all add: tail_at_simps)

lemma flags_loop_eq:
  "tail_at s (Suc p) cs \<Longrightarrow> read_flags f cs = (f', r) \<Longrightarrow>
    \<exists>p'. flags_loop s p f = Some (f', p') \<and> tail_at s p' r \<and> p < p'"
proof (induction cs arbitrary: p f)
  case Nil
  then show ?case by (subst flags_loop.simps) (simp add: tail_at_simps)
next
  case (Cons c cs)
  have h: "s (Suc p) = Some c" "tail_at s (Suc (Suc p)) cs" using Cons.prems(1) by (simp_all add: tail_at_simps)
  have step: "\<exists>p'. flags_loop s (Suc p) g = Some (f', p') \<and> tail_at s p' r \<and> p < p'" if "read_flags g cs = (f', r)" for g
    using Cons.IH [OF h(2) that] by auto
  show ?case
    using Cons.prems h(1) step by (subst flags_loop.simps) (auto simp: Let_def split: if_splits)
qed

lemma u8_cases: "list_all P (map of_nat [0..<256]) \<Longrightarrow> P (c :: u8)"
proof -
  assume "list_all P (map of_nat [0..<256])"
  moreover have "unat c \<in> set [0..<256]" using unsigned_less [of c, where ?'a = nat] by simp
  then have "of_nat (unat c) \<in> set (map of_nat [0..<256] :: u8 list)" unfolding set_map by (rule imageI)
  ultimately have "P (of_nat (unat c))" by (simp only: list_all_iff)
  then show "P c" by simp
qed

lemma isdigit_iff: "isdigit c \<longleftrightarrow> 48 \<le> c \<and> c \<le> 57"
  by (rule u8_cases [of "\<lambda>c. isdigit c \<longleftrightarrow> 48 \<le> c \<and> c \<le> 57"]) code_simp

lemma isdigit_range: "isdigit c \<Longrightarrow> 48 \<le> unat c \<and> unat c \<le> 57"
  by (simp add: isdigit_iff word_le_nat_alt)

lemma skip_atoi_eq:
  "tail_at s p cs \<Longrightarrow> digits_value n (takeWhile isdigit cs) \<le> 0x40000000 \<Longrightarrow>
    \<exists>p'. skip_atoi s p (int n) = Some (int (digits_value n (takeWhile isdigit cs)), p') \<and> tail_at s p' (dropWhile isdigit cs) \<and> p \<le> p'"
proof (induction cs arbitrary: p n)
  case Nil
  have "\<not> isdigit 0" using isdigit_range [of 0] by auto
  then show ?case using Nil by (subst skip_atoi.simps) (auto simp: tail_at_simps digits_value_def)
next
  case (Cons c cs)
  have h: "s p = Some c" "tail_at s (Suc p) cs" using Cons.prems(1) by (simp_all add: tail_at_simps)
  show ?case
  proof (cases "isdigit c")
    case True
    have mono: "n \<le> digits_value n xs" for n xs
    proof (induction xs arbitrary: n)
      case (Cons x xs)
      show ?case using Cons [of "10 * n + (unat x - 48)"] by (simp add: digits_value_def)
    qed (simp add: digits_value_def)
    let ?n = "10 * n + (unat c - 48)"
    have v: "digits_value n (takeWhile isdigit (c # cs)) = digits_value ?n (takeWhile isdigit cs)" using True by (simp add: digits_value_def)
    then have "?n \<le> 0x40000000" using Cons.prems(2) mono [of ?n "takeWhile isdigit cs"] by simp
    moreover have n: "int n * 10 + uint c - 48 = int ?n" using isdigit_range [OF True] by (simp add: of_nat_diff)
    ultimately have "\<not> INT_MAX < int n * 10 + uint c" by linarith
    then have "skip_atoi s p (int n) = skip_atoi s (Suc p) (int ?n)" by (subst skip_atoi.simps) (simp only: h(1) True n bind.bind_lunit if_True if_False)
    moreover have "dropWhile isdigit (c # cs) = dropWhile isdigit cs" using True by simp
    ultimately show ?thesis using Cons.IH [OF h(2), of ?n] Cons.prems(2) unfolding v by (auto dest: Suc_leD)
  next
    case False
    then show ?thesis using Cons.prems(1) h by (subst skip_atoi.simps) (simp add: digits_value_def)
  qed
qed

lemma read_num_eq:
  assumes "tail_at s p cs" and "read_num cs = Some (n, r)"
  shows "\<exists>p'. skip_atoi s p 0 = Some (n, p') \<and> tail_at s p' r \<and> p \<le> p'" and "0 \<le> n" "n \<le> 0x40000000"
proof -
  have n: "digits_value 0 (takeWhile isdigit cs) \<le> 0x40000000" "n = int (digits_value 0 (takeWhile isdigit cs))" "r = dropWhile isdigit cs"
    using assms(2) by (auto simp: read_num_def Let_def split: if_splits)
  show "\<exists>p'. skip_atoi s p 0 = Some (n, p') \<and> tail_at s p' r \<and> p \<le> p'" using skip_atoi_eq [OF assms(1) n(1)] n(2,3) by simp
  show "0 \<le> n" "n \<le> 0x40000000" using n(1,2) by simp_all
qed

lemma not_isdigit_0: "\<not> isdigit 0"
  by (simp add: isdigit_iff)

lemma get_width_eq:
  assumes "tail_at s p cs" and "read_width f cs args = Some (w, f', r, args')"
  shows "(\<exists>p'. get_width s p f args = Some (w, f', p', args') \<and> tail_at s p' r \<and> p \<le> p') \<and> - 1 \<le> w \<and> w \<le> 0x40000000"
proof (cases cs)
  case Nil
  then show ?thesis using assms not_isdigit_0 by (simp add: get_width_def tail_at_simps)
next
  case (Cons c ds)
  then have h: "s p = Some c" "tail_at s (Suc p) ds" using assms(1) by (simp_all add: tail_at_simps)
  consider "isdigit c" | "\<not> isdigit c" "c = ch CHR ''*''" | "\<not> isdigit c" "c \<noteq> ch CHR ''*''" by blast
  then show ?thesis
  proof cases
    case 1
    with assms(2) Cons have "read_num cs = Some (w, r)" "f' = f" "args' = args" by (cases "read_num cs"; auto)+
    then show ?thesis using read_num_eq [OF assms(1), of w r] 1 h(1) by (auto simp: get_width_def)
  next
    case 2
    with assms(2) Cons obtain v where v: "va_arg32 args = Some (v, args')" "\<bar>sint v\<bar> \<le> 0x40000000"
      "w = \<bar>sint v\<bar>" "f' = (if sint v < 0 then f OR LEFT else f)" "r = ds"
      by (cases "va_arg32 args") (auto simp del: abs_le_iff split: if_split_asm)
    then show ?thesis using 2 h by (auto simp: get_width_def)
  next
    case 3
    with assms Cons h show ?thesis by (auto simp: get_width_def)
  qed
qed

lemma get_precision_eq:
  assumes "tail_at s p cs" and "read_precision cs args = Some (n, r, args')"
  shows "(\<exists>p'. get_precision s p args = Some (n, p', args') \<and> tail_at s p' r \<and> p \<le> p') \<and> n \<le> 0x40000000"
proof (cases "\<exists>ds. cs = ch CHR ''.'' # ds")
  case False
  then show ?thesis using assms tail_at_head [OF assms(1)] by (cases cs) (auto simp: get_precision_def)
next
  case True
  then obtain ds where cs: "cs = ch CHR ''.'' # ds" by blast
  then have h: "s p = Some (ch CHR ''.'')" "tail_at s (Suc p) ds" using assms(1) by (simp_all only: tail_at_simps)
  show ?thesis
  proof (cases ds)
    case Nil
    then show ?thesis using assms cs h not_isdigit_0 by (auto simp: get_precision_def tail_at_simps)
  next
    case (Cons d es)
    then have d: "s (Suc p) = Some d" "tail_at s (Suc (Suc p)) es" using h(2) by (simp_all add: tail_at_simps)
    consider "isdigit d" | "\<not> isdigit d" "d = ch CHR ''*''" | "\<not> isdigit d" "d \<noteq> ch CHR ''*''" by blast
    then show ?thesis
    proof cases
      case 1
      with assms(2) cs Cons have "read_num ds = Some (n, r)" "args' = args" by (cases "read_num ds"; auto)+
      then show ?thesis using read_num_eq [OF h(2), of n r] 1 h(1) d(1) by (auto simp: get_precision_def dest: Suc_leD)
    next
      case 2
      with assms(2) cs Cons obtain v where v: "va_arg32 args = Some (v, args')" "sint v \<le> 0x40000000" "n = max 0 (sint v)" "r = es"
        by (cases "va_arg32 args") (auto split: if_split_asm)
      then show ?thesis using 2 h d by (auto simp: get_precision_def)
    next
      case 3
      with assms(2) cs Cons h d show ?thesis by (auto simp: get_precision_def)
    qed
  qed
qed

lemma get_qualifier_eq:
  assumes "tail_at s p cs" and "read_qualifier cs = (q, r)"
  shows "\<exists>p'. get_qualifier s p = Some (q, p') \<and> tail_at s p' r \<and> p \<le> p'"
proof (cases cs)
  case Nil
  then show ?thesis using assms by (simp add: get_qualifier_def tail_at_simps)
next
  case (Cons c ds)
  then have h: "s p = Some c" "tail_at s (Suc p) ds" "c \<noteq> 0" using assms(1) by (simp_all add: tail_at_simps)
  show ?thesis using assms(2) Cons h tail_at_head [OF h(2)]
    by (cases ds) (auto simp: get_qualifier_def tail_at_simps split: if_splits)
qed

subsection \<open>Reading strings while writing\<close>

text \<open>
  The memory \<open>h\<close> is part of the memory of the sink, and none of it lies where the next \<open>n\<close> characters
  go.
\<close>

definition clear :: "memory \<Rightarrow> ucell \<Rightarrow> nat \<Rightarrow> sink \<Rightarrow> bool" where
  "clear h lim n ms \<longleftrightarrow> (\<forall>x b. h x = Some b \<longrightarrow> fst ms x = Some b) \<and> (\<forall>k < n. snd ms + of_nat k \<le> lim \<longrightarrow> h (snd ms + of_nat k) = None)"

lemma clear_put:
  assumes "clear h lim (Suc n) ms" and "put_char lim c ms = Some ms'"
  shows "clear h lim n ms'"
proof -
  obtain m str where ms: "ms = (m, str)" by (cases ms)
  have str: "str \<le> lim \<Longrightarrow> h str = None" using assms(1) by (auto simp: clear_def ms dest: spec [of _ 0])
  have m': "fst ms' x = m x" if "x \<noteq> str \<or> \<not> str \<le> lim" for x
    using assms(2) that by (auto simp: put_char_def ms write_byte_def bind_eq_Some_iff split: if_splits)
  have "snd ms' = str + 1" using assms(2) by (auto simp: put_char_def ms bind_eq_Some_iff)
  moreover have "h (str + 1 + of_nat k) = None" if "k < n" "str + 1 + of_nat k \<le> lim" for k
    using assms(1) that by (auto simp: clear_def ms add.assoc dest: spec [of _ "Suc k"])
  moreover have "fst ms' x = Some b" if "h x = Some b" for x b
    using that assms(1) m' [of x] str by (cases "x = str") (auto simp: clear_def ms)
  ultimately show ?thesis by (simp add: clear_def)
qed

lemma clear_mono: "clear h lim n ms \<Longrightarrow> k \<le> n \<Longrightarrow> clear h lim k ms"
  by (simp add: clear_def)

lemma clear_emit: "clear h lim (length cs + n) ms \<Longrightarrow> emit lim cs ms = Some ms' \<Longrightarrow> clear h lim n ms'"
proof (induction cs arbitrary: ms)
  case (Cons c cs)
  then obtain ms1 where "put_char lim c ms = Some ms1" "emit lim cs ms1 = Some ms'" by (auto simp: bind_eq_Some_iff)
  then show ?case using Cons.IH [of ms1] clear_put [of h lim "length cs + n" ms c ms1] Cons.prems(1) by simp
qed simp

lemma strlen_loop_Some:
  assumes "strlen_loop s i = Some n"
  shows "i \<le> n \<and> s n = Some 0 \<and> (\<forall>j. i \<le> j \<and> j < n \<longrightarrow> (\<exists>c. s j = Some c \<and> c \<noteq> 0))"
proof (rule strlen_loop.raw_induct [OF _ assms])
  fix strlen_loop :: "reader \<Rightarrow> nat \<Rightarrow> nat option" and s :: reader and i n :: nat
  assume IH: "\<And>s i n. strlen_loop s i = Some n \<Longrightarrow> i \<le> n \<and> s n = Some 0 \<and> (\<forall>j. i \<le> j \<and> j < n \<longrightarrow> (\<exists>c. s j = Some c \<and> c \<noteq> 0))"
    and "do { c \<leftarrow> s i; if c \<noteq> 0 then strlen_loop s (Suc i) else Some i } = Some n"
  then obtain c where c: "s i = Some c" "(if c \<noteq> 0 then strlen_loop s (Suc i) else Some i) = Some n" by (auto simp: bind_eq_Some_iff)
  show "i \<le> n \<and> s n = Some 0 \<and> (\<forall>j. i \<le> j \<and> j < n \<longrightarrow> (\<exists>c. s j = Some c \<and> c \<noteq> 0))"
  proof (cases "c = 0")
    case False
    with c IH [of s "Suc i" n] have r: "Suc i \<le> n" "s n = Some 0" "\<forall>j. Suc i \<le> j \<and> j < n \<longrightarrow> (\<exists>c. s j = Some c \<and> c \<noteq> 0)" by auto
    have "\<exists>c. s j = Some c \<and> c \<noteq> 0" if "i \<le> j" "j < n" for j using that r(3) c(1) False by (cases "j = i") auto
    then show ?thesis using r by auto
  qed (use c in auto)
qed

lemma mstrlen_loop_eq:
  assumes "s n = Some 0" and "\<forall>j < n. \<exists>c. s j = Some c \<and> c \<noteq> 0" and "int n \<le> INT_MAX"
  shows "i \<le> n \<Longrightarrow> mstrlen_loop s i (int i) = Some (int n)"
proof (induction "n - i" arbitrary: i)
  case 0
  then show ?case using assms(1) by (subst mstrlen_loop.simps) simp
next
  case (Suc k)
  then obtain c where "s i = Some c" "c \<noteq> 0" using assms(2) by (metis diff_is_0_eq not_less old.nat.distinct(2))
  moreover have "mstrlen_loop s (Suc i) (int (Suc i)) = Some (int n)" using Suc.hyps(1) [of "Suc i"] Suc.hyps(2) Suc.prems by simp
  moreover have "int i \<noteq> INT_MAX" using Suc assms(3) by simp
  ultimately show ?case by (subst mstrlen_loop.simps) (simp add: add.commute)
qed

lemma put_str_eq:
  "those (map (\<lambda>k. s k) [i..<i + n]) = Some cs \<Longrightarrow> (\<And>ms k b. clear h lim 0 ms \<Longrightarrow> s k = Some b \<Longrightarrow> r (fst ms) k = Some b) \<Longrightarrow>
    clear h lim n ms \<Longrightarrow> put_str lim r i n ms = emit lim cs ms"
proof (induction n arbitrary: i cs ms)
  case (Suc n)
  from Suc.prems(1) obtain c ds where c: "s i = Some c" "those (map s [Suc i..<Suc i + n]) = Some ds" "cs = c # ds"
    by (auto simp: upt_conv_Cons simp del: upt_Suc split: option.splits)
  have "r (fst ms) i = Some c" using Suc.prems(2,3) c(1) clear_mono by blast
  then show ?case using Suc.IH [OF c(2) Suc.prems(2)] clear_put [OF Suc.prems(3)] c(3) by (cases "put_char lim c ms") auto
qed simp

lemma conv_char_eq:
  assumes "- 1 \<le> w" and "va_arg32 args = Some (v, args')"
  shows "conv_char lim f w args ms = do { ms \<leftarrow> emit lim (pad_text f w [ucast v]) ms; Some (args', ms) }"
proof -
  have n: "nat (w - int (length [ucast v :: u8])) = nat (w - 1)" by simp
  show ?thesis
    unfolding conv_char_def pad_text_def Let_def n using assms
    by (cases "has f LEFT") (simp_all add: fill_c_emit emit_append Option.bind_assoc min_def)
qed

lemma conv_string_eq:
  assumes w: "- 1 \<le> w" "w \<le> 0x40000000" and pr: "precision \<le> 0x40000000" and arg: "va_arg32 args = Some (v, args')"
    and tx: "string_text h v precision = Some txt" and cl: "clear h lim (length (pad_text f w txt)) ms"
  shows "conv_string lim f w precision args ms = do { ms \<leftarrow> emit lim (pad_text f w txt) ms; Some (args', ms) }"
proof -
  define s where "s = (if v < 4096 then lit_str (cstr ''<NULL>'') else at h v)"
  define r where "r = (if v < 4096 then (\<lambda>_. lit_str (cstr ''<NULL>'')) else (\<lambda>m. at m v))"
  have sr: "r (fst ms) k = Some b" if "clear h lim 0 ms" "s k = Some b" for ms k b
    using that by (auto simp: s_def r_def at_def clear_def)
  from tx obtain n where n: "strlen s = Some n" "n \<le> 0x40000000" "those (map s [0..<max n (nat precision)]) = Some txt"
    by (auto simp: string_text_def s_def [symmetric] Let_def bind_eq_Some_iff split: if_splits)
  let ?len = "max n (nat precision)"
  have len: "length txt = ?len" using those_length [OF n(3)] by simp
  have st: "s n = Some 0" "\<forall>j < n. \<exists>c. s j = Some c \<and> c \<noteq> 0" using strlen_loop_Some [of s 0 n] n(1) by (auto simp: strlen_def)
  have c0: "clear h lim 0 ms" using cl clear_mono by blast
  have "mstrlen (r (fst ms)) = Some (int n)"
    unfolding mstrlen_def using mstrlen_loop_eq [of "r (fst ms)" n 0] sr [OF c0] st n(2) by fastforce
  moreover have mx: "(if int n < precision then precision else int n) = int ?len" by simp
  have ps: "put_str lim r 0 ?len ms' = emit lim txt ms'" if "clear h lim ?len ms'" for ms'
    using put_str_eq [of s 0 ?len "txt" h lim r ms'] n(3) sr that by simp
  ultimately have e: "conv_string lim f w precision args ms =
     do { (w, ms) \<leftarrow> (if \<not> has f LEFT then fill lim (ch CHR '' '') (int ?len) w ms else Some (w, ms));
          ms \<leftarrow> put_str lim r 0 ?len ms;
          (_, ms) \<leftarrow> fill lim (ch CHR '' '') (int ?len) w ms;
          Some (args', ms) }"
    unfolding conv_string_def using arg by (simp only: r_def [symmetric] Let_def bind.bind_lunit prod.case nat_int mx)
  let ?sp = "replicate (nat (w - int ?len)) (ch CHR '' '')"
  show ?thesis
  proof (cases "has f LEFT")
    case True
    then have "clear h lim ?len ms" using cl len by (auto simp: pad_text_def Let_def elim: clear_mono)
    then show ?thesis unfolding e using True w ps len by (simp add: fill_emit pad_text_def Let_def emit_append Option.bind_assoc)
  next
    case False
    show ?thesis
    proof (cases "emit lim ?sp ms")
      case None
      then show ?thesis unfolding e using False w len by (simp add: fill_emit pad_text_def Let_def emit_append)
    next
      case (Some ms1)
      have "clear h lim (length ?sp + ?len) ms" using cl False len by (simp add: pad_text_def Let_def)
      then have "clear h lim ?len ms1" using Some clear_emit by blast
      then show ?thesis unfolding e using False w ps len Some by (simp add: fill_emit pad_text_def Let_def emit_append Option.bind_assoc min_def)
    qed
  qed
qed

lemma conv_number_eq:
  assumes "2 \<le> base" "base \<le> 36" "- 1 \<le> w" "w \<le> 0x40000000" "pr \<le> 0x40000000"
    and "num_text base f w pr q args = Some (txt, args')"
  shows "conv_number lim f w pr q (int base) args ms = do { ms \<leftarrow> emit lim txt ms; Some (args', ms) }"
proof -
  from assms(6) obtain num where n: "get_number q f args = Some (num, args')" "has f SIGN \<Longrightarrow> num \<noteq> 0x8000000000000000"
    "txt = number_text num base w pr f" by (auto simp: num_text_def bind_eq_Some_iff split: if_splits)
  show ?thesis using number_eq [OF assms(1-3) _ assms(5) n(2)] assms(4) n(1,3) by (simp add: conv_number_def)
qed

subsection \<open>The loop\<close>

lemma conversion_parts:
  assumes "tail_at s (Suc p) cs" and "directive cs args = Some (f, w, pr, q, r, args')"
  obtains f1 p1 p2 args2 p3 p4 where "flags_loop s p 0 = Some (f1, p1)" "get_width s p1 f1 args = Some (w, f, p2, args2)"
    "get_precision s p2 args2 = Some (pr, p3, args')" "get_qualifier s p3 = Some (q, p4)" "tail_at s p4 r" "p < p4"
    "- 1 \<le> w" "w \<le> 0x40000000" "pr \<le> 0x40000000"
proof -
  from assms(2) obtain f1 r1 r2 args2 r3 where d: "read_flags 0 cs = (f1, r1)" "read_width f1 r1 args = Some (w, f, r2, args2)"
    "read_precision r2 args2 = Some (pr, r3, args')" "read_qualifier r3 = (q, r)" by (rule directive_cases)
  from flags_loop_eq [OF assms(1) d(1)] obtain p1 where 1: "flags_loop s p 0 = Some (f1, p1)" "tail_at s p1 r1" "p < p1" by blast
  from get_width_eq [OF 1(2) d(2)] obtain p2 where 2: "get_width s p1 f1 args = Some (w, f, p2, args2)" "tail_at s p2 r2" "p1 \<le> p2"
    "- 1 \<le> w" "w \<le> 0x40000000" by blast
  from get_precision_eq [OF 2(2) d(3)] obtain p3 where 3: "get_precision s p2 args2 = Some (pr, p3, args')" "tail_at s p3 r3" "p2 \<le> p3"
    "pr \<le> 0x40000000" by blast
  from get_qualifier_eq [OF 3(2) d(4)] obtain p4 where 4: "get_qualifier s p3 = Some (q, p4)" "tail_at s p4 r" "p3 \<le> p4" by blast
  show ?thesis using that [OF 1(1) 2(1) 3(1) 4(1,2) _ 2(4,5) 3(4)] 1(3) 2(3) 3(3) 4(3) by simp
qed

lemma conversion_eq:
  assumes "tail_at s (Suc p) cs" and "directive cs args = Some (f, w, pr, q, d # r, args')"
    and ct: "conv_text h d f w pr q args' = Some (tx, args'')" and cl: "clear h lim (length tx) ms"
  shows "\<exists>p'. conversion lim buf s p args ms = do { ms \<leftarrow> emit lim tx ms; Some (p', args'', ms) } \<and> tail_at s (Suc p') r"
proof -
  from conversion_parts [OF assms(1,2)] obtain f1 p1 p2 args2 p3 p4 where
    ps: "flags_loop s p 0 = Some (f1, p1)" "get_width s p1 f1 args = Some (w, f, p2, args2)"
    "get_precision s p2 args2 = Some (pr, p3, args')" "get_qualifier s p3 = Some (q, p4)" "tail_at s p4 (d # r)"
    and w: "- 1 \<le> w" "w \<le> 0x40000000" "pr \<le> 0x40000000" by metis
  have d: "s p4 = Some d" "d \<noteq> 0" "tail_at s (Suc p4) r" using ps(5) by (simp_all add: tail_at_simps)
  note parts = conversion_def ps(1-4) d(1) bind.bind_lunit prod.case
  have num: "do { r \<leftarrow> conv_number lim g w pr q (int b) args' ms; Some (p4, r) } = do { ms \<leftarrow> emit lim tx ms; Some (p4, args'', ms) }"
    if "num_text b g w pr q args' = Some (tx, args'')" "2 \<le> b" "b \<le> 36" for b g
    using conv_number_eq [OF that(2,3) w that(1)] by (simp add: Option.bind_assoc)
  have "conversion lim buf s p args ms = do { ms \<leftarrow> emit lim tx ms; Some (p4, args'', ms) }"
  proof -
    consider "d = ch CHR ''c''" | "d = ch CHR ''s''" | "d = ch CHR ''p''" | "d = ch CHR ''%''" | "d = ch CHR ''o''" | "d = ch CHR ''X''"
      | "d = ch CHR ''x''" | "d = ch CHR ''d'' \<or> d = ch CHR ''i''" | "d = ch CHR ''u''"
      | "d \<notin> {ch CHR ''c'', ch CHR ''s'', ch CHR ''p'', ch CHR ''n'', ch CHR ''%'', ch CHR ''o'', ch CHR ''X'', ch CHR ''x'', ch CHR ''d'', ch CHR ''i'', ch CHR ''u''}"
      using ct by (auto simp: conv_text_def split: if_split_asm)
    then show ?thesis
    proof cases
      case 1
      then obtain v where "va_arg32 args' = Some (v, args'')" "tx = pad_text f w [ucast v]" using ct by (auto simp: conv_text_def bind_eq_Some_iff)
      then show ?thesis using 1 conv_char_eq [OF w(1)] unfolding parts by (simp add: Option.bind_assoc)
    next
      case 2
      then obtain v t where "va_arg32 args' = Some (v, args'')" "string_text h v pr = Some t" "tx = pad_text f w t"
        using ct by (auto simp: conv_text_def bind_eq_Some_iff)
      then show ?thesis using 2 conv_string_eq [OF w] cl unfolding parts by (simp add: Option.bind_assoc)
    next
      case 3
      then obtain v where v: "va_arg32 args' = Some (v, args'')"
        "tx = (if w = - 1 then number_text (ucast v) 16 8 pr (f OR ZEROPAD) else number_text (ucast v) 16 w pr f)"
        using ct by (auto simp: conv_text_def bind_eq_Some_iff)
      have n: "(ucast v :: u64) \<noteq> 0x8000000000000000"
      proof
        assume "(ucast v :: u64) = 0x8000000000000000"
        then have "unat (ucast v :: u64) = 0x8000000000000000" by simp
        moreover have "unat v < 2 ^ 32" using unsigned_less [of v, where ?'a = nat] by simp
        moreover from this have "unat (ucast v :: u64) = unat v" by (simp add: unsigned_ucast_eq take_bit_nat_eq_self)
        ultimately show False by simp
      qed
      show ?thesis using 3 v number_eq [of 16 8 pr "f OR ZEROPAD" "ucast v"] number_eq [of 16 w pr f "ucast v"] w n unfolding parts by auto
    next
      case 4
      then show ?thesis using ct unfolding parts by (auto simp: conv_text_def)
    next
      case 5
      then show ?thesis using ct num [of 8 f] unfolding parts by (simp add: conv_text_def)
    next
      case 6
      then show ?thesis using ct num [of 16 "f OR LARGE"] unfolding parts by (simp add: conv_text_def)
    next
      case 7
      then show ?thesis using ct num [of 16 f] unfolding parts by (simp add: conv_text_def)
    next
      case 8
      then show ?thesis using ct num [of 10 "f OR SIGN"] unfolding parts by (auto simp: conv_text_def)
    next
      case 9
      then show ?thesis using ct num [of 10 f] unfolding parts by (simp add: conv_text_def)
    next
      case 10
      then show ?thesis using ct d(2) unfolding parts by (auto simp: conv_text_def Option.bind_assoc)
    qed
  qed
  then show ?thesis using d(3) by blast
qed

lemma conversion_end:
  assumes "tail_at s (Suc p) cs" and "directive cs args = Some (f, w, pr, q, [], args')"
  shows "\<exists>p'. conversion lim buf s p args ms = do { ms \<leftarrow> put_char lim (ch CHR ''%'') ms; Some (p', args', ms) } \<and> tail_at s (Suc p') []"
proof -
  from conversion_parts [OF assms] obtain f1 p1 p2 args2 p3 p4 where
    ps: "flags_loop s p 0 = Some (f1, p1)" "get_width s p1 f1 args = Some (w, f, p2, args2)"
    "get_precision s p2 args2 = Some (pr, p3, args')" "get_qualifier s p3 = Some (q, p4)" "tail_at s p4 []" "p < p4" by metis
  have d: "s p4 = Some 0" using ps(5) by (simp add: tail_at_simps)
  have "conversion lim buf s p args ms = do { ms \<leftarrow> put_char lim (ch CHR ''%'') ms; Some (p4 - 1, args', ms) }"
    unfolding conversion_def ps(1-4) d bind.bind_lunit prod.case by simp
  moreover have "tail_at s (Suc (p4 - 1)) []" using ps(5,6) by simp
  ultimately show ?thesis by blast
qed

lemma vsn_loop_eq:
  "tail_at s p cs \<Longrightarrow> render h cs args = Some out \<Longrightarrow> clear h lim (length out) ms \<Longrightarrow> vsn_loop lim buf s p args ms = emit lim out ms"
proof (induction h cs args arbitrary: p out ms rule: render.induct)
  case (1 h args)
  then show ?case by (subst vsn_loop.simps) (simp add: tail_at_simps)
next
  case (2 h c cs args)
  have c: "s p = Some c" "c \<noteq> 0" "tail_at s (Suc p) cs" using "2.prems"(1) by (simp_all add: tail_at_simps)
  show ?case
  proof (cases "c = ch CHR ''%''")
    case False
    with "2.prems"(2) obtain o' where o': "render h cs args = Some o'" "out = c # o'" by (auto simp: render.simps(2))
    show ?thesis
    proof (cases "put_char lim c ms")
      case None
      then show ?thesis using c o' False by (subst vsn_loop.simps) simp
    next
      case (Some ms1)
      then have "clear h lim (length o') ms1" using clear_put [of h lim "length o'" ms c ms1] "2.prems"(3) o'(2) by simp
      then show ?thesis using "2.IH"(1) [OF False c(3) o'(1)] c o'(2) False Some by (subst vsn_loop.simps) simp
    qed
  next
    case True
    with "2.prems"(2) obtain f w pr q r args' where d: "directive cs args = Some (f, w, pr, q, r, args')"
      by (cases "directive cs args") (auto simp: render.simps(2))
    show ?thesis
    proof (cases r)
      case Nil
      then have o: "out = [c]" using "2.prems"(2) True d by (simp add: render.simps(2))
      from conversion_end [OF c(3) d [unfolded Nil], of lim buf ms, unfolded tail_at_simps] obtain p' where
        p': "conversion lim buf s p args ms = do { ms \<leftarrow> put_char lim (ch CHR ''%'') ms; Some (p', args', ms) }" "s (Suc p') = Some 0" by blast
      have "vsn_loop lim buf s (Suc p') args' ms1 = Some ms1" for ms1 using p'(2) by (subst vsn_loop.simps) simp
      then show ?thesis using c p'(1) o True by (subst vsn_loop.simps) (simp add: Option.bind_assoc Option.bind_runit)
    next
      case (Cons e r')
      with "2.prems"(2) True d obtain tx args'' o' where t: "conv_text h e f w pr q args' = Some (tx, args'')" "render h r' args'' = Some o'" "out = tx @ o'"
        by (auto simp: render.simps(2) split: option.splits prod.splits)
      have cl: "clear h lim (length tx + length o') ms" using "2.prems"(3) t(3) by simp
      from conversion_eq [OF c(3) d [unfolded Cons] t(1) clear_mono [OF cl], of buf] obtain p' where
        p': "conversion lim buf s p args ms = do { ms \<leftarrow> emit lim tx ms; Some (p', args'', ms) }" "tail_at s (Suc p') r'" by auto
      have IH: "vsn_loop lim buf s (Suc p') args'' ms1 = emit lim o' ms1" if "emit lim tx ms = Some ms1" for ms1
        using "2.IH"(2) [OF _ d refl refl refl refl refl Cons t(1) refl p'(2) t(2) clear_emit [OF cl that]] True by simp
      show ?thesis using c p'(1) t(3) True IH by (subst vsn_loop.simps) (cases "emit lim tx ms"; simp add: emit_append)
    qed
  qed
qed

subsection \<open>The buffer\<close>

lemma emit_mem:
  "unat str + length cs < 2 ^ 32 \<Longrightarrow> \<forall>x. unat str \<le> unat x \<and> unat x < unat str + length cs \<and> x \<le> lim \<longrightarrow> m x \<noteq> None \<Longrightarrow>
   \<exists>m'. emit lim cs (m, str) = Some (m', str + of_nat (length cs)) \<and>
     (\<forall>x. m' x = (if unat str \<le> unat x \<and> unat x < unat str + length cs \<and> x \<le> lim then Some (cs ! (unat x - unat str)) else m x))"
proof (induction cs arbitrary: m str)
  case (Cons c cs)
  let ?m = "if str \<le> lim then m(str \<mapsto> c) else m"
  have s1: "unat (str + 1) = unat str + 1" using Cons.prems(1) unat_add_no_wrap [of str 1] by simp
  have "str \<le> lim \<Longrightarrow> m str \<noteq> None" using Cons.prems(2) by simp
  then have put: "put_char lim c (m, str) = Some (?m, str + 1)" by (auto simp: put_char_def write_byte_def)
  have "\<forall>x. unat (str + 1) \<le> unat x \<and> unat x < unat (str + 1) + length cs \<and> x \<le> lim \<longrightarrow> ?m x \<noteq> None"
    using Cons.prems(2) s1 by auto
  from Cons.IH [OF _ this] Cons.prems(1) s1 obtain m' where m': "emit lim cs (?m, str + 1) = Some (m', str + 1 + of_nat (length cs))"
    "\<forall>x. m' x = (if unat (str + 1) \<le> unat x \<and> unat x < unat (str + 1) + length cs \<and> x \<le> lim then Some (cs ! (unat x - unat (str + 1))) else ?m x)"
    by auto
  have "m' x = (if unat str \<le> unat x \<and> unat x < unat str + length (c # cs) \<and> x \<le> lim then Some ((c # cs) ! (unat x - unat str)) else m x)" for x
  proof (cases "x = str")
    case True
    then show ?thesis using m'(2) s1 by simp
  next
    case False
    then have "unat x \<noteq> unat str" using word_unat_eq_iff by blast
    then have "unat str \<le> unat x \<longleftrightarrow> Suc (unat str) \<le> unat x" by linarith
    then show ?thesis using m'(2) s1 False by (auto simp: nth_Cons' Suc_diff_le)
  qed
  then show ?case using put m'(1) by (simp add: add.assoc add.commute)
qed auto

definition hide :: "ucell \<Rightarrow> nat \<Rightarrow> memory \<Rightarrow> memory" where
  "hide buf n m x = (if in_region buf n x then None else m x)"

lemma vsnprintf_text:
  assumes "is_cstring fmt cs" and "render (hide buf (unat sz) m) cs args = Some out"
    and "buf \<noteq> 0" and "sz \<noteq> 0" and "linear buf (unat sz)" and "mapped m buf (unat sz)"
    and "unat buf + length out < 2 ^ 32" and "length out < 2 ^ 31" and "n = min (length out) (unat sz - 1)"
  shows "\<exists>m'. vsnprintf m buf sz fmt args = Some (int (length out), m') \<and>
    (\<forall>i < n. m' (buf + of_nat i) = Some (out ! i)) \<and> m' (buf + of_nat n) = Some 0 \<and>
    (\<forall>x. \<not> in_region buf (unat sz) x \<longrightarrow> m' x = m x)"
proof -
  let ?lim = "buf + sz - 1" let ?h = "hide buf (unat sz) m"
  have sz: "0 < unat sz" using assms(4) by (simp add: unat_gt_0)
  have off: "unat (buf + of_nat i) = unat buf + i" if "i < unat sz" for i by (rule unat_offset_linear [OF assms(5) that])
  have lim': "buf + of_nat (unat sz - 1) = ?lim" using sz by (simp add: of_nat_diff)
  have lim: "unat ?lim = unat buf + unat sz - 1" using off [of "unat sz - 1"] sz unfolding lim' by simp
  have le: "x \<le> ?lim \<longleftrightarrow> unat x < unat buf + unat sz" for x unfolding word_le_nat_alt lim using sz by linarith
  have in_buf: "in_region buf (unat sz) x \<longleftrightarrow> unat buf \<le> unat x \<and> x \<le> ?lim" for x
    unfolding le by (rule in_region_linear [OF assms(5)])
  have mp: "m x \<noteq> None" if "unat buf \<le> unat x" "x \<le> ?lim" for x
    using assms(6) that in_buf mapped_iff [OF linear_le [OF assms(5)]] by blast
  have "0 < unat buf" using assms(3) by (simp add: unat_gt_0)
  then have "unat (buf - 1) = unat buf - 1" using unat_sub_word [of 1 buf] by (simp add: word_le_nat_alt)
  then have nl: "\<not> ?lim < buf - 1" using lim sz by (simp add: word_less_nat_alt)
  have "clear ?h ?lim (length out) (m, buf)"
    using assms(7) unat_offset_linear [of buf "Suc (length out)"]
    by (auto simp: clear_def hide_def in_buf linear_def split: if_splits)
  from vsn_loop_eq [OF _ assms(2) this, of fmt 0 buf] assms(1)
  have loop: "vsn_loop ?lim buf fmt 0 args (m, buf) = emit ?lim out (m, buf)" by (simp add: tail_at_def)
  from emit_mem [OF assms(7), of ?lim m] mp obtain m1 where m1: "emit ?lim out (m, buf) = Some (m1, buf + of_nat (length out))"
    "\<And>x. m1 x = (if unat buf \<le> unat x \<and> unat x < unat buf + length out \<and> x \<le> ?lim then Some (out ! (unat x - unat buf)) else m x)" by auto
  let ?str = "buf + of_nat (length out)"
  have ustr: "unat ?str = unat buf + length out" using unat_offset_linear [of buf "Suc (length out)"] assms(7) by (simp add: linear_def)
  define z where "z = (if ?str \<le> ?lim then ?str else ?lim)"
  have zn: "z = buf + of_nat n" "n < unat sz" "n \<le> length out"
    unfolding z_def le ustr using assms(9) sz lim' by (auto simp: min_def)
  have uz: "unat z = unat buf + n" using off [OF zn(2)] zn(1) by simp
  have zb: "unat buf \<le> unat z \<and> z \<le> ?lim" unfolding le using uz zn(2) by simp
  then have "m1 z \<noteq> None" using m1(2) [of z] mp [of z] by simp
  then have w: "(if ?str \<le> ?lim then write_byte m1 ?str 0 else if 0 < sz then write_byte m1 ?lim 0 else Some m1) = Some (m1(z \<mapsto> 0))"
    using assms(4) by (auto simp: z_def write_byte_def word_gt_0 split: if_splits)
  have ret: "sint (?str - buf) = int (length out)"
  proof -
    have "unat (of_nat (length out) :: ucell) = length out" using assms(8) by (intro unat_of_nat_small) simp
    then show ?thesis using sint_eq_unat [of "of_nat (length out)"] assms(8) by simp
  qed
  have "vsnprintf m buf sz fmt args = Some (int (length out), m1(z \<mapsto> 0))"
    unfolding vsnprintf_def Let_def using nl loop m1(1) w ret by simp
  moreover have "(m1(z \<mapsto> 0)) (buf + of_nat i) = Some (out ! i)" if "i < n" for i
  proof -
    have u: "unat (buf + of_nat i) = unat buf + i" using off that zn(2) by simp
    then have "buf + of_nat i \<noteq> z" using uz that by auto
    moreover have "buf + of_nat i \<le> ?lim" unfolding le using u that zn(2) by simp
    ultimately show ?thesis using m1(2) [of "buf + of_nat i"] u that zn(3) by simp
  qed
  moreover have "(m1(z \<mapsto> 0)) x = m x" if "\<not> in_region buf (unat sz) x" for x
    using that m1(2) [of x] zb in_buf by auto
  ultimately show ?thesis using zn(1) by (intro exI [of _ "m1(z \<mapsto> 0)"]) (simp add: fun_upd_same)
qed

text \<open>
  C20: \<open>vsnprintf\<close>. Let \<open>out\<close> be the text of the format for the arguments, with the strings read outside
  the buffer. The call returns its length; the buffer holds the text, cut to leave room for the
  terminator, and the terminator; nothing outside the buffer is written, however long the text is. The text of a \<open>%s\<close> is that
  of the code: as many characters as the larger of its length and its precision. The comment in the source calls the precision
  the maximum number of characters taken; the code departs from it whenever a precision is given that is not
  the length (\<open>string_text_documented\<close>).
\<close>

theorem vsnprintf_correct:
  assumes "is_cstring fmt cs" and "render (hide buf (unat sz) m) cs args = Some out"
    and "buf \<noteq> 0" and "sz \<noteq> 0" and "linear buf (unat sz)" and "mapped m buf (unat sz)"
    and "unat buf + length out < 2 ^ 32" and "length out < 2 ^ 31" and "n = min (length out) (unat sz - 1)"
  shows "\<exists>m'. vsnprintf m buf sz fmt args = Some (int (length out), m') \<and>
    (\<forall>i < n. m' (buf + of_nat i) = Some (out ! i)) \<and> m' (buf + of_nat n) = Some 0 \<and>
    (\<forall>x. \<not> in_region buf (unat sz) x \<longrightarrow> m' x = m x)"
  using assms by (rule vsnprintf_text)

lemma replicate_num: "replicate (numeral k) x = x # replicate (pred_numeral k) x"
  by (simp add: numeral_eq_Suc)

text \<open>\<open>snprintf (buf, 8, "%-5d|%#06x", -42, 255)\<close>, which is cut after seven characters.\<close>

lemma demo_render:
  "render h (cstr ''%-5d|%#06x'') [W32 (- 42), W32 255] = Some (cstr ''-42  |0x00ff'')"
proof -
  note ev = directive_def cstr_def isdigit_iff read_num_def digits_value_def
  have 1: "directive (cstr ''-5d|%#06x'') [W32 (- 42), W32 255] = Some (LEFT, 5, - 1, None, cstr ''d|%#06x'', [W32 (- 42), W32 255])"
    by (simp add: ev)
  have 2: "directive (cstr ''#06x'') [W32 255] = Some (SPECIAL OR ZEROPAD, 6, - 1, None, cstr ''x'', [W32 255])"
    by (simp add: ev)
  have d: "nat_digits 10 42 = [4, 2]" "nat_digits 16 255 = [15, 15]" by (simp_all add: nat_digits.simps)
  have 3: "number_text (- 42) 10 5 (- 1) (LEFT OR SIGN) = cstr ''-42  ''"
    by (simp add: has_def number_text_def d digit_chars_def small_digits_def cstr_def Let_def replicate_num)
  have 4: "number_text 255 16 6 (- 1) (SPECIAL OR ZEROPAD) = cstr ''0x00ff''"
    by (simp add: has_def number_text_def d digit_chars_def small_digits_def cstr_def Let_def replicate_num)
  have 5: "conv_text h (ch CHR ''d'') LEFT 5 (- 1) None [W32 (- 42), W32 255] = Some (cstr ''-42  '', [W32 255])"
    using 3 by (simp add: conv_text_def num_text_def get_number_def has_def)
  have 6: "conv_text h (ch CHR ''x'') (SPECIAL OR ZEROPAD) 6 (- 1) None [W32 255] = Some (cstr ''0x00ff'', [])"
    using 4 by (simp add: conv_text_def num_text_def get_number_def has_def)
  show ?thesis using 1 2 5 6 by (simp add: render.simps(2) cstr_def)
qed

lemma lit_str_cstring: "0 \<notin> set bs \<Longrightarrow> is_cstring (lit_str bs) bs"
  by (simp add: is_cstring_def lit_str_def)

theorem vsnprintf_correct_witness:
  "\<exists>m'. vsnprintf (\<lambda>_. Some 0) 0x100000 8 (lit_str (cstr ''%-5d|%#06x'')) [W32 (- 42), W32 255] = Some (12, m') \<and>
     (\<forall>i < 7. m' (0x100000 + of_nat i) = Some (cstr ''-42  |0'' ! i)) \<and> m' 0x100007 = Some 0 \<and> m' 0x100008 = Some 0"
proof -
  let ?out = "cstr ''-42  |0x00ff''" let ?fmt = "cstr ''%-5d|%#06x''"
  have f: "is_cstring (lit_str ?fmt) ?fmt" by (rule lit_str_cstring) (simp add: cstr_def)
  have s: "(0x100000 :: ucell) \<noteq> 0" "(8 :: ucell) \<noteq> 0" "linear 0x100000 (unat (8 :: ucell))"
    "mapped (\<lambda>_. Some 0) 0x100000 (unat (8 :: ucell))" "unat (0x100000 :: ucell) + length ?out < 2 ^ 32" "length ?out < 2 ^ 31"
    "(7 :: nat) = min (length ?out) (unat (8 :: ucell) - 1)"
    by (simp_all add: linear_def mapped_def cstr_def)
  from vsnprintf_correct [OF f demo_render s] obtain m' where
    m': "vsnprintf (\<lambda>_. Some 0) 0x100000 8 (lit_str ?fmt) [W32 (- 42), W32 255] = Some (int (length ?out), m')"
    "\<forall>i < 7. m' (0x100000 + of_nat i) = Some (?out ! i)" "m' (0x100000 + of_nat 7) = Some 0"
    "\<forall>x. \<not> in_region 0x100000 (unat (8 :: ucell)) x \<longrightarrow> m' x = Some 0" by blast
  have "int (length ?out) = 12" "m' 0x100007 = Some 0" using m'(3) by (simp_all add: cstr_def)
  moreover have "m' 0x100008 = Some 0" using m'(4) by (simp add: in_region_def)
  moreover have "?out ! i = cstr ''-42  |0'' ! i" if "i < 7" for i using that by (simp add: cstr_def less_Suc_eq numeral_eq_Suc) auto
  ultimately show ?thesis using m'(1,2) by auto
qed
end
