(* ===== verification/Libc_Misc.thy ===== *)
theory Libc_Misc
  imports Libc_Format_Spec "HOL-Library.Multiset"
begin

text \<open>
  \<open>libc/misc.c\<close>: \<open>qsort\<close> on byte memory, \<open>strtol\<close> and \<open>strtoll\<close>. \<open>qsort\<close> is a bubble sort; it ends because
  every pass that swaps removes inversions, and sorts stably. \<open>strtol\<close> reads back what
  \<open>snprintf\<close> wrote.
\<close>

subsection \<open>qsort\<close>

text \<open>The comparison function of the caller reads the memory at two addresses.\<close>

type_synonym compar = "memory \<Rightarrow> ucell \<Rightarrow> ucell \<Rightarrow> int option"

fun swap_loop :: "memory \<Rightarrow> ucell \<Rightarrow> ucell \<Rightarrow> ucell \<Rightarrow> nat \<Rightarrow> memory option" where
  "swap_loop m p sz j 0 = Some m"
| "swap_loop m p sz j (Suc n) =
     do { c \<leftarrow> read_byte m (p + j);
          d \<leftarrow> read_byte m (p + (j + sz));
          m \<leftarrow> write_byte m (p + j) d;
          m \<leftarrow> write_byte m (p + (j + sz)) c;
          swap_loop m p sz (j + 1) n }"

fun qsort_pass :: "compar \<Rightarrow> ucell \<Rightarrow> memory \<Rightarrow> ucell \<Rightarrow> bool \<Rightarrow> nat \<Rightarrow> (memory \<times> bool) option" where
  "qsort_pass cmp sz m p worked 0 = Some (m, worked)"
| "qsort_pass cmp sz m p worked (Suc n) =
     do { r \<leftarrow> cmp m p (p + sz);
          if 0 < r
          then do { m \<leftarrow> swap_loop m p sz 0 (unat sz); qsort_pass cmp sz m (p + sz) True n }
          else qsort_pass cmp sz m (p + sz) worked n }"

text \<open>\<open>nmemb - 1\<close> is unsigned: an empty array is one of 2^32 elements.\<close>

partial_function (option) qsort :: "compar \<Rightarrow> ucell \<Rightarrow> ucell \<Rightarrow> ucell \<Rightarrow> memory \<Rightarrow> memory option" where
  "qsort cmp base nmemb sz m =
     do { (m, worked) \<leftarrow> qsort_pass cmp sz m base False (unat (nmemb - 1));
          if worked then qsort cmp base nmemb sz m else Some m }"

subsection \<open>strtol, strtoll\<close>

partial_function (option) skip_space :: "reader \<Rightarrow> nat \<Rightarrow> nat option" where
  "skip_space s p = do { c \<leftarrow> s p; if isspace c then skip_space s (Suc p) else Some p }"

text \<open>The digits; \<open>lim\<close> is the largest value of the type of the sum \<open>acc\<close>.\<close>

partial_function (option) strto_loop :: "int \<Rightarrow> reader \<Rightarrow> int \<Rightarrow> nat \<Rightarrow> int \<Rightarrow> (int \<times> nat) option" where
  "strto_loop lim s base p acc =
     do { c \<leftarrow> s p;
          if \<not> isalnum c then Some (acc, p)
          else do {
            let n = (if isdigit c then uint c - 48 else uint (toupper c) - 65 + 10);
            if base \<le> n \<or> n < 0 then Some (acc, p)
            else if lim < \<bar>acc * base\<bar> \<or> lim < \<bar>acc * base + n\<bar> then None
            else strto_loop lim s base (Suc p) (acc * base + n) } }"

definition strto_base :: "reader \<Rightarrow> int \<Rightarrow> nat \<Rightarrow> (int \<times> nat) option" where
  "strto_base s base p =
     (if base = 16 \<or> base = 0
      then do { c \<leftarrow> s p;
                let base = (if base = 0 then if c = ch CHR ''0'' then 8 else 10 else base);
                if c = ch CHR ''0''
                then do { d \<leftarrow> s (Suc p); Some (if d = ch CHR ''x'' then (16, p + 2) else (base, p)) }
                else Some (base, p) }
      else Some (base, p))"

definition strto :: "int \<Rightarrow> reader \<Rightarrow> int \<Rightarrow> (int \<times> nat) option" where
  "strto lim s base =
     do { p \<leftarrow> skip_space s 0;
          c \<leftarrow> s p;
          let (sign, p) = (if c = ch CHR ''-'' \<or> c = ch CHR ''+'' then (if c = ch CHR ''-'' then - 1 else 1, Suc p) else (1, p));
          (base, p) \<leftarrow> strto_base s base p;
          (acc, p) \<leftarrow> strto_loop lim s base p 0;
          Some (acc * sign, p) }"

definition strtol :: "reader \<Rightarrow> int \<Rightarrow> (int \<times> nat) option" where
  "strtol nptr base = strto 0x7fffffff nptr base"

definition strtoll :: "reader \<Rightarrow> int \<Rightarrow> (int \<times> nat) option" where
  "strtoll nptr base = strto 0x7fffffffffffffff nptr base"

text \<open>\<open>strncpy_nopad\<close> of \<open>libc/extra.c\<close>; \<open>len\<close> is an \<open>int\<close>.\<close>

definition strncpy_nopad :: "memory \<Rightarrow> ucell \<Rightarrow> ucell \<Rightarrow> ucell \<Rightarrow> memory option" where
  "strncpy_nopad m dest src n =
     do { k \<leftarrow> strlen (at m src); memcpy m dest src (min n (of_nat k + 1)) }"

subsection \<open>A pass on lists\<close>

fun bubble :: "('a \<Rightarrow> 'a \<Rightarrow> int) \<Rightarrow> 'a list \<Rightarrow> 'a list" where
  "bubble c (x # y # xs) = (if 0 < c x y then y # bubble c (x # xs) else x # bubble c (y # xs))"
| "bubble c xs = xs"

fun descents :: "('a \<Rightarrow> 'a \<Rightarrow> int) \<Rightarrow> 'a list \<Rightarrow> bool" where
  "descents c (x # y # xs) = (if 0 < c x y then True else descents c (y # xs))"
| "descents c xs = False"

fun inversions :: "('a \<Rightarrow> 'a \<Rightarrow> int) \<Rightarrow> 'a list \<Rightarrow> nat" where
  "inversions c [] = 0"
| "inversions c (x # xs) = length (filter (\<lambda>y. 0 < c x y) xs) + inversions c xs"

lemma bubble_induct [case_names Nil single pair]:
  assumes "P []" and "\<And>x. P [x]" and "\<And>x y xs. P (x # xs) \<Longrightarrow> P (y # xs) \<Longrightarrow> P (x # y # xs)"
  shows "P xs"
proof (induction "length xs" arbitrary: xs rule: less_induct)
  case less
  show ?case
  proof (cases xs)
    case (Cons x ys)
    then show ?thesis using less assms(2,3) by (cases ys) simp_all
  qed (use assms(1) in simp)
qed

text \<open>What \<open>qsort\<close> asks of a comparison: a total order on the elements, up to equals.\<close>

locale comparison =
  fixes c :: "'a \<Rightarrow> 'a \<Rightarrow> int"
  assumes asym: "0 < c x y \<Longrightarrow> c y x \<le> 0"
    and trans: "c x y \<le> 0 \<Longrightarrow> c y z \<le> 0 \<Longrightarrow> c x z \<le> 0"
begin

lemma bubble_mset: "mset (bubble c xs) = mset xs"
  by (induction xs rule: bubble_induct) auto

lemma bubble_length: "length (bubble c xs) = length xs"
  using arg_cong [OF bubble_mset, of size] by simp

lemma filter_bubble: "length (filter P (bubble c xs)) = length (filter P xs)"
  using arg_cong [OF bubble_mset [of xs], of "\<lambda>m. size (filter_mset P m)"] by (metis mset_filter size_mset)

lemma bubble_inversions: "inversions c (bubble c xs) + (if descents c xs then 1 else 0) \<le> inversions c xs"
proof (induction xs rule: bubble_induct)
  case (pair x y xs)
  then show ?case using filter_bubble [of "\<lambda>z. 0 < c y z" "x # xs"] filter_bubble [of "\<lambda>z. 0 < c x z" "y # xs"] asym [of x y]
    by (auto split: if_splits)
qed auto

lemma no_descents: "\<not> descents c xs \<Longrightarrow> bubble c xs = xs \<and> sorted_wrt (\<lambda>x y. c x y \<le> 0) xs"
proof (induction xs rule: bubble_induct)
  case (pair x y xs)
  then show ?case using trans [of x y] by (auto split: if_splits)
qed auto

text \<open>Elements that compare equal to \<open>z\<close> keep their order.\<close>

definition same :: "'a \<Rightarrow> 'a \<Rightarrow> bool" where
  "same z y \<longleftrightarrow> c z y \<le> 0 \<and> c y z \<le> 0"

lemma bubble_stable: "filter (same z) (bubble c xs) = filter (same z) xs"
proof (induction xs rule: bubble_induct)
  case (pair x y xs)
  have "\<not> 0 < c x y" if "same z x" "same z y" using that trans [of x z y] by (simp add: same_def)
  then show ?case using pair by auto
qed auto

end

subsection \<open>Arrays in memory\<close>

definition arr :: "memory \<Rightarrow> ucell \<Rightarrow> nat \<Rightarrow> u8 list list \<Rightarrow> bool" where
  "arr m p n xs \<longleftrightarrow> (\<forall>k < length xs. length (xs ! k) = n \<and> (\<forall>j < n. m (p + of_nat (k * n + j)) = Some (xs ! k ! j)))"

lemma arr_Nil [simp]: "arr m p n []"
  by (simp add: arr_def)

lemma arr_Cons: "arr m p n (x # xs) \<longleftrightarrow> length x = n \<and> (\<forall>j < n. m (p + of_nat j) = Some (x ! j)) \<and> arr m (p + of_nat n) n xs"
proof -
  have "p + of_nat (Suc k * n + j) = p + of_nat n + of_nat (k * n + j)" for k j by (simp add: algebra_simps)
  then show ?thesis by (simp only: arr_def length_Cons All_less_Suc2 nth_Cons_0 nth_Cons_Suc mult_0 add_0 conj_assoc)
qed

lemma arr_frame:
  assumes "arr m p n xs" and "\<And>x. in_region p (length xs * n) x \<Longrightarrow> m' x = m x" and "length xs * n \<le> 2 ^ 32"
  shows "arr m' p n xs"
proof -
  have "m' (p + of_nat (k * n + j)) = m (p + of_nat (k * n + j))" if "k < length xs" "j < n" for k j
  proof (rule assms(2))
    have "k * n + j < Suc k * n" using that by simp
    also have "\<dots> \<le> length xs * n" using that by (intro mult_le_mono1) simp
    finally show "in_region p (length xs * n) (p + of_nat (k * n + j))" using in_region_offset [OF assms(3)] by blast
  qed
  then show ?thesis using assms(1) by (simp add: arr_def)
qed

text \<open>Two blocks of \<open>sz\<close> bytes side by side, exchanged byte by byte.\<close>

lemma swap_loop_eq:
  assumes "linear p (2 * unat sz)"
  shows "j + n = unat sz \<Longrightarrow> mapped m p (2 * unat sz) \<Longrightarrow>
    \<exists>m'. swap_loop m p sz (of_nat j) n = Some m' \<and>
      (\<forall>i < unat sz. m' (p + of_nat i) = m (p + of_nat (if i < j then i else i + unat sz)) \<and>
                     m' (p + of_nat (i + unat sz)) = m (p + of_nat (if i < j then i + unat sz else i))) \<and>
      (\<forall>x. \<not> in_region p (2 * unat sz) x \<longrightarrow> m' x = m x)"
proof (induction n arbitrary: j m)
  case 0
  then show ?case by auto
next
  case (Suc n)
  let ?s = "unat sz"
  have off: "unat (p + of_nat i) = unat p + i" if "i < 2 * ?s" for i by (rule unat_offset_linear [OF assms that])
  have neq: "p + of_nat i = p + of_nat k \<longleftrightarrow> i = k" if "i < 2 * ?s" "k < 2 * ?s" for i k
    using off [OF that(1)] off [OF that(2)] by (metis add_left_cancel)
  have js: "j < ?s" "p + (of_nat j + sz) = p + of_nat (j + ?s)" "of_nat j + 1 = (of_nat (Suc j) :: ucell)" using Suc.prems(1) by simp_all
  obtain a b where ab: "m (p + of_nat j) = Some a" "m (p + of_nat (j + ?s)) = Some b"
    using Suc.prems(2) js(1) unfolding mapped_def by (metis add_less_cancel_right mult_2 not_None_eq trans_less_add1)
  let ?m = "m(p + of_nat j \<mapsto> b, p + of_nat (j + ?s) \<mapsto> a)"
  have mk: "?m (p + of_nat k) = (if k = j + ?s then Some a else if k = j then Some b else m (p + of_nat k))" if "k < 2 * ?s" for k
    using that js(1) neq [of k j] neq [of k "j + ?s"] by simp
  have ne: "p + of_nat (j + ?s) \<noteq> p + of_nat j" using neq [of "j + ?s" j] js(1) by simp
  have step: "swap_loop m p sz (of_nat j) (Suc n) = swap_loop ?m p sz (of_nat (Suc j)) n"
  proof -
    have "(m(p + of_nat j \<mapsto> b)) (p + of_nat (j + ?s)) = Some b" using ab(2) ne by (simp only: fun_upd_other not_False_eq_True)
    then show ?thesis by (simp only: swap_loop.simps js(2,3) read_byte_def write_byte_def ab bind.bind_lunit option.distinct if_False)
  qed
  have "Suc j + n = ?s" "mapped ?m p (2 * ?s)" using Suc.prems by (simp_all add: mapped_def)
  from Suc.IH [OF this] obtain m' where m': "swap_loop ?m p sz (of_nat (Suc j)) n = Some m'"
    "\<And>i. i < ?s \<Longrightarrow> m' (p + of_nat i) = ?m (p + of_nat (if i < Suc j then i else i + ?s))"
    "\<And>i. i < ?s \<Longrightarrow> m' (p + of_nat (i + ?s)) = ?m (p + of_nat (if i < Suc j then i + ?s else i))"
    "\<And>x. \<not> in_region p (2 * ?s) x \<Longrightarrow> m' x = ?m x" by blast
  have "m' (p + of_nat i) = m (p + of_nat (if i < j then i else i + ?s))"
    "m' (p + of_nat (i + ?s)) = m (p + of_nat (if i < j then i + ?s else i))" if "i < ?s" for i
    using that js(1) m'(2,3) [OF that] ab mk [of i] mk [of "i + ?s"] by (auto split: if_splits simp del: of_nat_add)
  moreover have "m' x = m x" if "\<not> in_region p (2 * ?s) x" for x
  proof -
    have jb: "j < 2 * ?s" "j + ?s < 2 * ?s" using js(1) by simp_all
    have "in_region p (2 * ?s) (p + of_nat j)" "in_region p (2 * ?s) (p + of_nat (j + ?s))"
      using in_region_offset [OF linear_le [OF assms]] jb by blast+
    then show ?thesis using m'(4) [OF that] that by auto
  qed
  ultimately show ?case using step m'(1) by auto
qed

lemma swap_arr:
  assumes lin: "linear p (2 * unat sz)" and a: "arr m p (unat sz) [x, y]"
  shows "\<exists>m'. swap_loop m p sz 0 (unat sz) = Some m' \<and> arr m' p (unat sz) [y, x] \<and> (\<forall>a. \<not> in_region p (2 * unat sz) a \<longrightarrow> m' a = m a)"
proof -
  let ?s = "unat sz"
  have l: "length x = ?s" "length y = ?s" and xy: "\<And>j. j < ?s \<Longrightarrow> m (p + of_nat j) = Some (x ! j)"
    "\<And>j. j < ?s \<Longrightarrow> m (p + of_nat (j + ?s)) = Some (y ! j)"
    using a by (simp_all add: arr_Cons algebra_simps)
  have "mapped m p (2 * ?s)"
    unfolding mapped_def
  proof (intro allI impI)
    fix i assume "i < 2 * ?s"
    then show "m (p + of_nat i) \<noteq> None" using xy(1) [of i] xy(2) [of "i - ?s"] by (cases "i < ?s") simp_all
  qed
  from swap_loop_eq [OF lin, of 0 ?s m] this obtain m' where m': "swap_loop m p sz 0 ?s = Some m'"
    "\<And>i. i < ?s \<Longrightarrow> m' (p + of_nat i) = m (p + of_nat (i + ?s))" "\<And>i. i < ?s \<Longrightarrow> m' (p + of_nat (i + ?s)) = m (p + of_nat i)"
    "\<And>a. \<not> in_region p (2 * ?s) a \<Longrightarrow> m' a = m a" by auto
  have "arr m' p ?s [y, x]" using l xy m'(2,3) by (simp add: arr_Cons algebra_simps)
  then show ?thesis using m'(1,4) by blast
qed

text \<open>The comparison of the caller, as a function of the two elements.\<close>

definition compares :: "compar \<Rightarrow> nat \<Rightarrow> (u8 list \<Rightarrow> u8 list \<Rightarrow> int) \<Rightarrow> bool" where
  "compares cmp n c \<longleftrightarrow> (\<forall>m p q x y. arr m p n [x] \<longrightarrow> arr m q n [y] \<longrightarrow> cmp m p q = Some (c x y))"

lemma region_step:
  assumes "linear p (k + n)"
  shows "linear (p + of_nat k) n" and "in_region (p + of_nat k) n x \<Longrightarrow> in_region p (k + n) x \<and> \<not> in_region p k x"
proof -
  have u: "unat (p + of_nat k) = unat p + k" if "0 < n" using unat_offset_linear [OF assms, of k] that by simp
  have "unat (p + of_nat k) \<le> 2 ^ 32" using unsigned_less [of "p + of_nat k", where ?'a = nat] by simp
  then show l: "linear (p + of_nat k) n" using assms u by (cases "n = 0") (simp_all add: linear_def)
  have lk: "linear p k" using assms by (simp add: linear_def)
  show "in_region (p + of_nat k) n x \<Longrightarrow> in_region p (k + n) x \<and> \<not> in_region p k x"
    using in_region_linear [OF l] in_region_linear [OF assms] in_region_linear [OF lk] u by (cases "n = 0") auto
qed

lemma pass_arr:
  assumes c: "compares cmp (unat sz) c" and sz: "sz \<noteq> 0"
  shows "linear p (length (x # xs) * unat sz) \<Longrightarrow> arr m p (unat sz) (x # xs) \<Longrightarrow>
    \<exists>m'. qsort_pass cmp sz m p w (length xs) = Some (m', w \<or> descents c (x # xs)) \<and> arr m' p (unat sz) (bubble c (x # xs)) \<and>
      (\<forall>a. \<not> in_region p (length (x # xs) * unat sz) a \<longrightarrow> m' a = m a)"
proof (induction xs arbitrary: x m p w)
  case Nil
  then show ?case by simp
next
  case (Cons y xs)
  let ?s = "unat sz"
  have s: "0 < ?s" "of_nat ?s = sz" using sz by (simp_all add: unat_gt_0)
  have lin2: "linear p (2 * ?s)" using Cons.prems(1) by (simp add: linear_def)
  have lins: "linear (p + sz) (length (z # xs) * ?s)" for z
    using region_step(1) [of p ?s "length (y # xs) * ?s"] Cons.prems(1) s(2) by simp
  have out: "in_region (p + sz) (length (y # xs) * ?s) a \<Longrightarrow> in_region p (length (x # y # xs) * ?s) a \<and> \<not> in_region p ?s a" for a
    using region_step(2) [of p ?s "length (y # xs) * ?s" a] Cons.prems(1) s(2) by simp
  have a: "arr m p ?s [x]" "arr m (p + sz) ?s [y]" "arr m (p + sz) ?s (y # xs)" "arr m p ?s [x, y]"
    using Cons.prems(2) s(2) by (simp_all add: arr_Cons)
  have cmp: "cmp m p (p + sz) = Some (c x y)" using c a(1,2) by (simp add: compares_def)
  show ?case
  proof (cases "0 < c x y")
    case True
    from swap_arr [OF lin2 a(4)] obtain m1 where m1: "swap_loop m p sz 0 ?s = Some m1" "arr m1 p ?s [y, x]"
      "\<And>a. \<not> in_region p (2 * ?s) a \<Longrightarrow> m1 a = m a" by blast
    have l2: "linear p (2 * ?s + length xs * ?s)" using Cons.prems(1) by (simp add: linear_def)
    have fr: "m1 a = m a" if "in_region (p + of_nat (2 * ?s)) (length xs * ?s) a" for a
      using m1(3) region_step(2) [OF l2 that] by blast
    have a0: "arr m (p + of_nat (2 * ?s)) ?s xs" using Cons.prems(2) s(2) by (simp add: arr_Cons algebra_simps)
    have "arr m1 (p + of_nat (2 * ?s)) ?s xs" by (rule arr_frame [OF a0 fr]) (use Cons.prems(1) in \<open>simp_all add: linear_def\<close>)
    then have a1: "arr m1 (p + sz) ?s (x # xs)" "arr m1 p ?s [y]" using m1(2) s(2) by (simp_all add: arr_Cons algebra_simps)
    from Cons.IH [OF lins a1(1), of True] obtain m' where m': "qsort_pass cmp sz m1 (p + sz) True (length xs) = Some (m', True)"
      "arr m' (p + sz) ?s (bubble c (x # xs))" "\<And>a. \<not> in_region (p + sz) (length (y # xs) * ?s) a \<Longrightarrow> m' a = m1 a" by auto
    have "m' a = m a" if "\<not> in_region p (length (x # y # xs) * ?s) a" for a
    proof -
      have "\<not> in_region p (2 * ?s) a" using that by (auto simp: in_region_def)
      then show ?thesis using m'(3) [of a] out [of a] m1(3) [of a] that by auto
    qed
    moreover have "m' a = m1 a" if "in_region p ?s a" for a using m'(3) out that by blast
    then have "arr m' p ?s [y]" using arr_frame [OF a1(2)] lin2 by (simp add: linear_def)
    then have "arr m' p ?s (y # bubble c (x # xs))" using m'(2) s(2) by (simp add: arr_Cons)
    ultimately show ?thesis using True cmp m1(1) m'(1) by auto
  next
    case False
    from Cons.IH [OF lins a(3), of w] obtain m' where m': "qsort_pass cmp sz m (p + sz) w (length xs) = Some (m', w \<or> descents c (y # xs))"
      "arr m' (p + sz) ?s (bubble c (y # xs))" "\<And>a. \<not> in_region (p + sz) (length (y # xs) * ?s) a \<Longrightarrow> m' a = m a" by blast
    have "m' a = m a" if "\<not> in_region p (length (x # y # xs) * ?s) a" for a using m'(3) out that by blast
    moreover have "m' a = m a" if "in_region p ?s a" for a using m'(3) out that by blast
    then have "arr m' p ?s [x]" using arr_frame [OF a(1)] lin2 by (simp add: linear_def)
    then have "arr m' p ?s (x # bubble c (y # xs))" using m'(2) s(2) by (simp add: arr_Cons)
    ultimately show ?thesis using False cmp m'(1) by auto
  qed
qed

text \<open>
  C21: \<open>qsort\<close> ends and sorts, given at least one element. Of a comparison that depends on the elements only and orders them,
  and of an array in mapped memory of one or more elements of one or more bytes: the call returns, the array holds the same elements, sorted,
  with equal elements in their old order, and no other byte has changed. Of an empty array nothing is
  claimed: the code runs its first pass over \<open>nmemb - 1\<close>, that is \<open>2 ^ 32 - 1\<close>, elements.
\<close>

theorem qsort_correct:
  assumes "compares cmp (unat sz) c" and "comparison c" and "sz \<noteq> 0" and "xs \<noteq> []" and "unat nmemb = length xs"
    and "linear base (length xs * unat sz)" and "arr m base (unat sz) xs"
  shows "\<exists>m' ys. qsort cmp base nmemb sz m = Some m' \<and> arr m' base (unat sz) ys \<and> mset ys = mset xs \<and>
    sorted_wrt (\<lambda>x y. c x y \<le> 0) ys \<and> (\<forall>z. filter (comparison.same c z) ys = filter (comparison.same c z) xs) \<and>
    (\<forall>a. \<not> in_region base (length xs * unat sz) a \<longrightarrow> m' a = m a)"
  using assms(4-7)
proof (induction "inversions c xs" arbitrary: xs m rule: less_induct)
  case less
  from less.prems(1) obtain x zs where xs: "xs = x # zs" by (cases xs) auto
  have n: "unat (nmemb - 1) = length zs" using less.prems(2) xs unat_sub_word [of 1 nmemb] by (simp add: word_le_nat_alt)
  let ?ys = "bubble c xs"
  from pass_arr [OF assms(1,3), of base x zs m False] less.prems(3,4) xs obtain m1 where
    m1: "qsort_pass cmp sz m base False (length zs) = Some (m1, descents c xs)" "arr m1 base (unat sz) ?ys"
      "\<And>a. \<not> in_region base (length xs * unat sz) a \<Longrightarrow> m1 a = m a" by auto
  note bub = comparison.bubble_inversions [OF assms(2), of xs] comparison.bubble_length [OF assms(2), of xs]
    comparison.bubble_mset [OF assms(2), of xs] comparison.bubble_stable [OF assms(2), of _ xs]
  show ?case
  proof (cases "descents c xs")
    case True
    have "?ys \<noteq> []" using bub(2) less.prems(1) by auto
    from less.hyps [of ?ys m1, OF _ this] bub True less.prems m1(2) obtain m' ys where
      "qsort cmp base nmemb sz m1 = Some m'" "arr m' base (unat sz) ys" "mset ys = mset xs" "sorted_wrt (\<lambda>x y. c x y \<le> 0) ys"
      "\<forall>z. filter (comparison.same c z) ys = filter (comparison.same c z) xs" "\<forall>a. \<not> in_region base (length xs * unat sz) a \<longrightarrow> m' a = m1 a"
      by auto
    moreover from this have "qsort cmp base nmemb sz m = Some m'" using True m1(1) n by (subst qsort.simps) simp
    ultimately show ?thesis using m1(3) by auto
  next
    case False
    then have "?ys = xs" "sorted_wrt (\<lambda>x y. c x y \<le> 0) xs" using comparison.no_descents [OF assms(2)] by blast+
    moreover have "qsort cmp base nmemb sz m = Some m1" using False m1(1) n by (subst qsort.simps) simp
    ultimately show ?thesis using m1(2,3) by auto
  qed
qed

subsection \<open>The comparison of bytes\<close>

fun byte_cmp :: "u8 list \<Rightarrow> u8 list \<Rightarrow> int" where
  "byte_cmp [] [] = 0"
| "byte_cmp [] (b # bs) = - 1"
| "byte_cmp (a # as) [] = 1"
| "byte_cmp (a # as) (b # bs) = (if a \<noteq> b then uint a - uint b else byte_cmp as bs)"

lemma byte_cmp_le_0: "byte_cmp x y \<le> 0 \<longleftrightarrow> x = y \<or> byte_cmp x y < 0"
  by (induction x y rule: byte_cmp.induct) (auto simp: word_uint_eq_iff)

interpretation memcmp_order: comparison byte_cmp
proof
  show "byte_cmp y x \<le> 0" if "0 < byte_cmp x y" for x y
    using that by (induction x y rule: byte_cmp.induct) (auto split: if_splits)
  show "byte_cmp x z \<le> 0" if "byte_cmp x y \<le> 0" "byte_cmp y z \<le> 0" for x y z
    using that
  proof (induction x y arbitrary: z rule: byte_cmp.induct)
    case (2 b bs)
    then show ?case by (cases z) auto
  next
    case (4 a as b bs)
    then show ?case by (cases z) (auto simp: word_uint_eq_iff split: if_splits)
  qed auto
qed

lemma memcmp_loop_arr:
  "length x = n \<Longrightarrow> length y = n \<Longrightarrow> \<forall>j < n. m (p + of_nat j) = Some (x ! j) \<Longrightarrow> \<forall>j < n. m (q + of_nat j) = Some (y ! j) \<Longrightarrow>
    memcmp_loop m p q n 0 = Some (byte_cmp x y)"
proof (induction n arbitrary: p q x y)
  case (Suc n)
  from Suc.prems(1,2) obtain a as b bs where xy: "x = a # as" "y = b # bs" "length as = n" "length bs = n" by (auto simp: length_Suc_conv)
  have h: "m p = Some a" "m q = Some b" using Suc.prems(3,4) xy by (auto dest: spec [of _ 0])
  have t: "\<forall>j < n. m (p + 1 + of_nat j) = Some (as ! j)" "\<forall>j < n. m (q + 1 + of_nat j) = Some (bs ! j)"
    using Suc.prems(3,4) xy by (auto simp: add.assoc dest: spec [of _ "Suc _"])
  have d: "uint a - uint b = 0 \<longleftrightarrow> a = b" by (simp add: word_uint_eq_iff)
  show ?case using Suc.IH [OF xy(3,4) t] h xy d by (simp add: read_byte_def Let_def)
qed simp

lemma memcmp_compares: "compares (\<lambda>m p q. memcmp m p q sz) (unat sz) byte_cmp"
  using memcmp_loop_arr by (auto simp: compares_def memcmp_def arr_Cons)

lemma all_less_2: "(\<forall>j < (2 :: nat). P j) \<longleftrightarrow> P 0 \<and> P 1"
  by (auto simp: less_2_cases_iff)

theorem qsort_correct_witness:
  "\<exists>m' ys. qsort (\<lambda>m p q. memcmp m p q 2) 0x1000 3 2 (\<lambda>x. Some (if x = 0x1002 then 1 else if x = 0x1005 then 9 else 5)) = Some m' \<and>
     arr m' 0x1000 2 ys \<and> mset ys = {# [5, 5], [1, 5], [5, 9] #} \<and> sorted_wrt (\<lambda>x y. byte_cmp x y \<le> 0) ys"
proof -
  let ?m = "\<lambda>x :: ucell. Some (if x = 0x1002 then 1 else if x = 0x1005 then 9 else 5 :: u8)" let ?xs = "[[5, 5], [1, 5], [5, 9]] :: u8 list list"
  have c: "compares (\<lambda>m p q. memcmp m p q 2) (unat (2 :: ucell)) byte_cmp" by (rule memcmp_compares)
  have h: "(2 :: ucell) \<noteq> 0" "?xs \<noteq> []" "unat (3 :: ucell) = length ?xs" "linear 0x1000 (length ?xs * unat (2 :: ucell))"
    "arr ?m 0x1000 (unat (2 :: ucell)) ?xs" by (simp_all add: linear_def arr_Cons all_less_2)
  from qsort_correct [OF c memcmp_order.comparison_axioms h] show ?thesis by auto
qed

subsection \<open>Reading numbers back\<close>

definition char_digit :: "u8 \<Rightarrow> int" where
  "char_digit c = (if isdigit c then uint c - 48 else uint (toupper c) - 65 + 10)"

lemma digit_char_value:
  assumes "d < 36" and "c = (if big then large_digits else small_digits) ! d"
  shows "isalnum c \<and> char_digit c = int d \<and> \<not> isspace c \<and> c \<noteq> ch CHR ''-'' \<and> c \<noteq> ch CHR ''+'' \<and> (c = ch CHR ''x'' \<longrightarrow> d = 33) \<and>
    (c = ch CHR ''0'' \<longrightarrow> d = 0) \<and> c \<noteq> 0"
proof -
  have "list_all (\<lambda>d. list_all (\<lambda>ds. let c = ds ! d in isalnum c \<and> char_digit c = int d \<and> \<not> isspace c \<and> c \<noteq> ch CHR ''-'' \<and> c \<noteq> ch CHR ''+'' \<and>
     (c = ch CHR ''x'' \<longrightarrow> d = 33) \<and> (c = ch CHR ''0'' \<longrightarrow> d = 0) \<and> c \<noteq> 0) [large_digits, small_digits]) [0..<36]"
    by code_simp
  then show ?thesis using assms by (auto simp: list_all_iff Let_def)
qed

definition digs_value :: "nat \<Rightarrow> nat \<Rightarrow> nat list \<Rightarrow> nat" where
  "digs_value b = foldl (\<lambda>n d. n * b + d)"

lemma digs_value_append: "digs_value b n (xs @ ys) = digs_value b (digs_value b n xs) ys"
  by (simp add: digs_value_def)

lemma nat_digits_value: "2 \<le> b \<Longrightarrow> digs_value b 0 (nat_digits b n) = n"
proof (induction b n rule: nat_digits.induct)
  case (1 b n)
  then show ?case by (subst nat_digits.simps) (auto simp: digs_value_append digs_value_def)
qed

lemma nat_digits_less: "2 \<le> b \<Longrightarrow> d \<in> set (nat_digits b n) \<Longrightarrow> d < b"
proof (induction b n rule: nat_digits.induct)
  case (1 b n)
  then show ?case by (subst (asm) (2) nat_digits.simps) (auto split: if_splits)
qed

lemma nat_digits_ne: "nat_digits b n \<noteq> []"
  by (subst nat_digits.simps) simp

lemma digs_value_mono: "0 < b \<Longrightarrow> n \<le> digs_value b n xs"
proof (induction xs arbitrary: n)
  case (Cons x xs)
  have "n \<le> n * b + x" using Cons.prems by (cases b) auto
  then show ?case using Cons.IH [OF Cons.prems, of "n * b + x"] by (simp add: digs_value_def)
qed (simp add: digs_value_def)

lemma digit_chars_nth: "k < length ds \<Longrightarrow> digit_chars f ds ! k = (if has f LARGE then large_digits else small_digits) ! (ds ! k)"
  by (simp add: digit_chars_def)

lemma not_isalnum_0: "\<not> isalnum 0"
  by code_simp

lemma strto_loop_digits:
  assumes b: "2 \<le> b" "b \<le> 36"
  shows "tail_at s p (digit_chars f ds) \<Longrightarrow> \<forall>d \<in> set ds. d < b \<Longrightarrow> int (digs_value b n ds) \<le> lim \<Longrightarrow>
    strto_loop lim s (int b) p (int n) = Some (int (digs_value b n ds), p + length ds)"
proof (induction ds arbitrary: p n)
  case Nil
  then show ?case using not_isalnum_0 by (subst strto_loop.simps) (simp add: digit_chars_def tail_at_simps digs_value_def)
next
  case (Cons d ds)
  define c where "c = (if has f LARGE then large_digits else small_digits) ! d"
  have h: "s p = Some c" "tail_at s (Suc p) (digit_chars f ds)" using Cons.prems(1) by (simp_all add: digit_chars_def tail_at_simps c_def)
  have "d < b" using Cons.prems(2) by simp
  then have c: "isalnum c" "char_digit c = int d" using digit_char_value [of d c "has f LARGE"] b(2) c_def by auto
  let ?n = "n * b + d"
  have v: "digs_value b n (d # ds) = digs_value b ?n ds" by (simp add: digs_value_def)
  then have lim: "int ?n \<le> lim" using Cons.prems(3) digs_value_mono [of b ?n ds] b(1) by linarith
  have e: "int n * int b + int d = int ?n" by simp
  have "\<bar>int n * int b\<bar> = int (n * b)" by simp
  moreover have "int (n * b) \<le> int ?n" by simp
  ultimately have "\<not> lim < \<bar>int n * int b\<bar>" "\<not> lim < \<bar>int ?n\<bar>" using lim by linarith+
  then have g: "(lim < \<bar>int n * int b\<bar> \<or> lim < \<bar>int ?n\<bar>) = False" by simp
  have g': "(int b \<le> int d \<or> int d < 0) = False" using \<open>d < b\<close> by simp
  have "strto_loop lim s (int b) p (int n) = strto_loop lim s (int b) (Suc p) (int ?n)"
    by (subst strto_loop.simps)
      (simp only: h(1) bind.bind_lunit c Let_def char_digit_def [symmetric] g g' e if_False not_True_eq_False)
  then show ?case using Cons.IH [OF h(2), of ?n] Cons.prems(2,3) v by simp
qed

text \<open>A decimal or hexadecimal number with an optional minus sign, read whole.\<close>

lemma strto_number:
  assumes b: "b \<in> {10, 16}" and s: "is_cstring s ((if neg then cstr ''-'' else []) @ digit_chars f (nat_digits b k))" and k: "int k \<le> lim"
  shows "strto lim s (int b) = Some (if neg then - int k else int k, (if neg then 1 else 0) + length (nat_digits b k))"
proof -
  let ?ds = "nat_digits b k" let ?p = "if neg then 1 else 0 :: nat"
  have b2: "2 \<le> b" "b \<le> 36" using b by auto
  have lt: "\<forall>d \<in> set ?ds. d < b" using nat_digits_less [OF b2(1)] by blast
  obtain d ds where ds: "?ds = d # ds" using nat_digits_ne by (cases ?ds) auto
  have ta: "tail_at s ?p (digit_chars f ?ds)" "neg \<Longrightarrow> s 0 = Some (ch CHR ''-'')"
  proof -
    have "tail_at s 0 ((if neg then cstr ''-'' else []) @ digit_chars f ?ds)" using s by (simp add: tail_at_def)
    then show "tail_at s ?p (digit_chars f ?ds)" "neg \<Longrightarrow> s 0 = Some (ch CHR ''-'')" by (cases neg; simp add: tail_at_simps cstr_def)+
  qed
  define c where "c = (if has f LARGE then large_digits else small_digits) ! d"
  have c: "\<not> isspace c" "c \<noteq> ch CHR ''-''" "c \<noteq> ch CHR ''+''"
    using digit_char_value [of d c "has f LARGE"] lt ds b2 c_def by auto
  have p: "s ?p = Some c" using ta(1) ds by (simp add: digit_chars_def tail_at_simps c_def)
  have sk: "skip_space s 0 = Some 0"
  proof -
    have "\<not> isspace (ch CHR ''-'')" by code_simp
    then show ?thesis using p ta(2) c(1) by (subst skip_space.simps) (cases neg; simp)
  qed
  have nx: "\<exists>e. s (Suc ?p) = Some e \<and> e \<noteq> ch CHR ''x''" if "b = 16"
  proof (cases ds)
    case Nil
    then show ?thesis using ta(1) ds by (simp add: digit_chars_def tail_at_simps)
  next
    case (Cons d' ds')
    then have "s (Suc ?p) = Some ((if has f LARGE then large_digits else small_digits) ! d')" "d' < 16"
      using ta(1) ds lt that by (simp_all add: digit_chars_def tail_at_simps)
    then show ?thesis using digit_char_value [of d' _ "has f LARGE"] by fastforce
  qed
  have loop: "strto_loop lim s (int b) ?p 0 = Some (int k, ?p + length ?ds)"
    using strto_loop_digits [OF b2 ta(1) lt, of 0 lim] nat_digits_value [OF b2(1), of k] k by simp
  have pre: "strto_base s (int b) ?p = Some (int b, ?p)" using b nx p by (auto simp: strto_base_def Let_def)
  show ?thesis
  proof (cases neg)
    case True
    then show ?thesis using sk ta(2) pre loop by (simp add: strto_def)
  next
    case False
    then show ?thesis using sk p c pre loop by (simp add: strto_def)
  qed
qed

lemma sint_scast: "sint (scast (v :: u32) :: u64) = sint v"
proof -
  have "- (2 ^ 63) \<le> sint v" "sint v < 2 ^ 63" using sint_ge [of v] sint_lt [of v] by simp_all
  then have "signed_take_bit 63 (sint v) = sint v" by (intro signed_take_bit_int_eq_self) simp_all
  then show ?thesis by (simp add: signed_scast_eq)
qed

text \<open>The text of \<open>%d\<close> and of \<open>%x\<close>.\<close>

lemma render_conv:
  "render h (cstr ''%d'') [W32 v] = Some (number_text (scast v) 10 (- 1) (- 1) SIGN)"
  "render h (cstr ''%x'') [W32 v] = Some (number_text (ucast v) 16 (- 1) (- 1) 0)"
proof -
  have d: "directive (cstr ''d'') args = Some (0, - 1, - 1, None, cstr ''d'', args)"
    "directive (cstr ''x'') args = Some (0, - 1, - 1, None, cstr ''x'', args)" for args
    by (simp_all add: directive_def cstr_def isdigit_iff)
  have "(scast v :: u64) \<noteq> 0x8000000000000000"
  proof
    assume "(scast v :: u64) = 0x8000000000000000"
    then have "sint v = sint (0x8000000000000000 :: u64)" by (simp only: sint_scast [symmetric])
    then show False using sint_ge [of v] by simp
  qed
  then have "conv_text h (ch CHR ''d'') 0 (- 1) (- 1) None [W32 v] = Some (number_text (scast v) 10 (- 1) (- 1) SIGN, [])"
    by (simp add: conv_text_def num_text_def get_number_def has_def)
  moreover have "conv_text h (ch CHR ''x'') 0 (- 1) (- 1) None [W32 v] = Some (number_text (ucast v) 16 (- 1) (- 1) 0, [])"
    by (simp add: conv_text_def num_text_def get_number_def has_def)
  ultimately show "render h (cstr ''%d'') [W32 v] = Some (number_text (scast v) 10 (- 1) (- 1) SIGN)"
    "render h (cstr ''%x'') [W32 v] = Some (number_text (ucast v) 16 (- 1) (- 1) 0)"
    using d by (simp_all add: render.simps(2) cstr_def)
qed

lemma plain_text:
  "number_text num b (- 1) (- 1) f = (if has f SIGN \<and> sint num < 0 then cstr ''-'' else []) @
     digit_chars f (nat_digits b (nat (if has f SIGN then \<bar>sint num\<bar> else uint num)))" if "f \<in> {0, SIGN}"
  using that by (auto simp: number_text_def Let_def has_def)

text \<open>Printed into a buffer of twelve bytes and read from there.\<close>

lemma print_then_scan:
  assumes buf: "buf \<noteq> 0" "linear buf 12" "mapped m buf 12" and fmt: "is_cstring fmt cs" "render (hide buf 12 m) cs [W32 v] = Some out"
    and out: "out = (if neg then cstr ''-'' else []) @ digit_chars f (nat_digits b k)" and b: "b \<in> {10, 16}" and k: "k \<le> 0x7fffffff"
  shows "\<exists>n m'. snprintf m buf 12 fmt [W32 v] = Some (n, m') \<and> strtol (at m' buf) (int b) = Some (if neg then - int k else int k, nat n)"
proof -
  have "k < b ^ 10" using b k by auto
  moreover have b2: "2 \<le> b" "b \<le> 36" using b by auto
  ultimately have len: "length (nat_digits b k) \<le> 10" by (intro nat_digits_len) simp_all
  then have lo: "length out \<le> 11" "length out = (if neg then 1 else 0) + length (nat_digits b k)" by (auto simp: out cstr_def digit_chars_def)
  have "12 = unat (12 :: ucell)" by simp
  note h = this buf fmt
  have "unat buf + length out < 2 ^ 32" "length out < 2 ^ 31" using buf(2) lo(1) by (simp_all add: linear_def)
  with vsnprintf_text [OF fmt(1), where sz = 12 and buf = buf and m = m and args = "[W32 v]" and out = out and n = "length out"] buf fmt(2) lo(1)
  obtain m' where m': "vsnprintf m buf 12 fmt [W32 v] = Some (int (length out), m')" "\<forall>i < length out. m' (buf + of_nat i) = Some (out ! i)"
    "m' (buf + of_nat (length out)) = Some 0" by auto
  have "0 \<notin> set (digit_chars f (nat_digits b k))"
    using digit_char_value [of _ 0 "has f LARGE"] nat_digits_less [OF b2(1)] b2(2) by (fastforce simp: digit_chars_def)
  then have "0 \<notin> set out" by (auto simp: out cstr_def)
  then have "is_cstring (at m' buf) out" using m'(2,3) by (simp add: is_cstring_def at_def)
  then have "strto 0x7fffffff (at m' buf) (int b) = Some (if neg then - int k else int k, length out)"
    using strto_number [OF b, of "at m' buf" neg f k "0x7fffffff"] k lo(2) out by simp
  then show ?thesis using m'(1) by (auto simp: snprintf_def strtol_def)
qed

text \<open>
  C22: printing and reading back. Every \<open>int\<close> but the least one printed with \<open>%d\<close>, and every unsigned number
  below 2^31 printed with \<open>%x\<close>, is what \<open>strtol\<close> in base 10, or 16, makes of the text, and the end it
  reports is the end of the text.
\<close>

theorem print_scan_roundtrip:
  assumes "buf \<noteq> 0" and "linear buf 12" and "mapped m buf 12"
  shows "(v \<noteq> 0x80000000 \<longrightarrow> (\<exists>n m'. snprintf m buf 12 (lit_str (cstr ''%d'')) [W32 v] = Some (n, m') \<and> strtol (at m' buf) 10 = Some (sint v, nat n))) \<and>
    (uint v < 2 ^ 31 \<longrightarrow> (\<exists>n m'. snprintf m buf 12 (lit_str (cstr ''%x'')) [W32 v] = Some (n, m') \<and> strtol (at m' buf) 16 = Some (uint v, nat n)))"
proof (intro conjI impI)
  assume v: "v \<noteq> 0x80000000"
  have "sint v \<noteq> - (2 ^ 31)"
  proof
    assume "sint v = - (2 ^ 31)"
    moreover have "v = word_of_int (sint v)" by simp
    ultimately have "v = word_of_int (- (2 ^ 31))" by simp
    then show False using v by simp
  qed
  then have k: "nat \<bar>sint v\<bar> \<le> 0x7fffffff" using sint_ge [of v] sint_lt [of v] by simp
  have f: "is_cstring (lit_str (cstr ''%d'')) (cstr ''%d'')" by (rule lit_str_cstring) (simp add: cstr_def)
  have "number_text (scast v) 10 (- 1) (- 1) SIGN = (if sint v < 0 then cstr ''-'' else []) @ digit_chars SIGN (nat_digits 10 (nat \<bar>sint v\<bar>))"
    using plain_text [of SIGN "scast v" 10] by (simp add: has_def sint_scast)
  from print_then_scan [OF assms f render_conv(1) this _ k]
  show "\<exists>n m'. snprintf m buf 12 (lit_str (cstr ''%d'')) [W32 v] = Some (n, m') \<and> strtol (at m' buf) 10 = Some (sint v, nat n)"
    by (simp add: abs_if split: if_splits)
next
  assume v: "uint v < 2 ^ 31"
  then have "int (unat v) < int (2 ^ 31)" by simp
  then have "unat v < 2 ^ 31" by (simp only: of_nat_less_iff)
  then have k: "unat v \<le> 0x7fffffff" by simp
  have f: "is_cstring (lit_str (cstr ''%x'')) (cstr ''%x'')" by (rule lit_str_cstring) (simp add: cstr_def)
  have u: "uint (ucast v :: u64) = uint v"
  proof -
    have "uint v < 2 ^ 64" using v by simp
    then show ?thesis by (simp add: unsigned_ucast_eq take_bit_int_eq_self)
  qed
  have "number_text (ucast v) 16 (- 1) (- 1) 0 = (if False then cstr ''-'' else []) @ digit_chars 0 (nat_digits 16 (unat v))"
    using plain_text [of 0 "ucast v" 16] u by (simp add: has_def)
  from print_then_scan [OF assms f render_conv(2) this _ k]
  show "\<exists>n m'. snprintf m buf 12 (lit_str (cstr ''%x'')) [W32 v] = Some (n, m') \<and> strtol (at m' buf) 16 = Some (uint v, nat n)" by simp
qed

theorem print_scan_roundtrip_witness:
  "\<exists>n m'. snprintf (\<lambda>_. Some 0) 0x1000 12 (lit_str (cstr ''%d'')) [W32 (- 12345)] = Some (n, m') \<and>
     strtol (at m' 0x1000) 10 = Some (- 12345, nat n)"
  using print_scan_roundtrip [of "0x1000" "\<lambda>_. Some 0" "- 12345"] by (simp add: linear_def mapped_def)

end
