(* ===== verification/Nvram.thy ===== *)
theory Nvram
  imports Forth_State Libc_String
begin

text \<open>
  \<open>packages/nvram.c\<close>: the partitions of the non-volatile memory. The contents (\<open>nvram.data\<close>) are a list of
  bytes whose length is \<open>nvram.size\<close>; a pointer to a partition is the offset of its header, \<open>NULL\<close> is
  \<open>None\<close>; an access outside the list is undefined. The device (\<open>arch_nvram_get\<close>, \<open>arch_nvram_put\<close>) and
  the Forth words that load and store the configuration are fields of an environment. The theorems: \<open>nvconf_init\<close> returns whatever the device holds and leaves a
  well-formed chain of partitions with a system partition; the package's methods read back what
  they wrote.
\<close>

record 'w nvenv =
  arch_nvram_get :: "'w \<Rightarrow> u8 list \<times> 'w"
  arch_nvram_put :: "u8 list \<Rightarrow> 'w \<Rightarrow> 'w"
  nvram_load_configs :: "u8 list \<Rightarrow> int \<Rightarrow> 'w \<Rightarrow> 'w"
  nvram_store_configs :: "int \<Rightarrow> 'w \<Rightarrow> u8 list \<times> 'w"
  set_defaults :: "'w \<Rightarrow> 'w"
  nv_printk :: "string \<Rightarrow> 'w \<Rightarrow> 'w"

record 'w nvram =
  nv_data :: "u8 list"
  nv_config :: "nat option"
  nv_config_size :: int
  nv_world :: 'w

abbreviation DEF_SYSTEM_SIZE :: nat where "DEF_SYSTEM_SIZE \<equiv> 0xc10"
abbreviation NV_SIG_SYSTEM :: u8 where "NV_SIG_SYSTEM \<equiv> 0x70"
abbreviation NV_SIG_FREE :: u8 where "NV_SIG_FREE \<equiv> 0x7f"

subsection \<open>Bytes\<close>

definition get_byte :: "u8 list \<Rightarrow> nat \<Rightarrow> u8 option" where
  "get_byte d i = (if i < length d then Some (d ! i) else None)"

definition set_bytes :: "nat \<Rightarrow> u8 list \<Rightarrow> u8 list \<Rightarrow> u8 list option" where
  "set_bytes i bs d = (if i + length bs \<le> length d then Some (take i d @ bs @ drop (i + length bs) d) else None)"

subsection \<open>Partitions\<close>

fun nvsum :: "u8 list \<Rightarrow> nat \<Rightarrow> nat \<Rightarrow> int \<Rightarrow> int option" where
  "nvsum d i 0 val = Some val"
| "nvsum d i (Suc n) val =
     do { b \<leftarrow> get_byte d i;
          let val = val + uint b;
          nvsum d (Suc i) n (if 255 < val then (val - 256 + 1) AND 0xff else val) }"

definition nvpart_checksum :: "u8 list \<Rightarrow> nat \<Rightarrow> int option" where
  "nvpart_checksum d p = do { b \<leftarrow> get_byte d p; nvsum d (p + 2) 14 (uint b) }"

definition nvpart_size :: "u8 list \<Rightarrow> nat \<Rightarrow> nat option" where
  "nvpart_size d p = do { hi \<leftarrow> get_byte d (p + 2); lo \<leftarrow> get_byte d (p + 3); Some ((unat lo OR push_bit 8 (unat hi)) * 16) }"

text \<open>The new position with the result: 1 there is a partition, 0 the end, -1 an error.\<close>

definition next_nvpart :: "'w nvenv \<Rightarrow> nat option \<Rightarrow> 'w nvram \<Rightarrow> (int \<times> nat \<times> 'w nvram) option" where
  "next_nvpart e p s =
     (case p of
        None \<Rightarrow> Some (1, 0, s)
      | Some p \<Rightarrow>
          do { len \<leftarrow> nvpart_size (nv_data s) p;
               if len = 0
               then Some (- 1, p, s\<lparr>nv_world := nv_printk e (''invalid nvram partition length'' @ [CHR 0x0A]) (nv_world s)\<rparr>)
               else let p = p + len; fin = length (nv_data s)
                    in Some (if p < fin then 1 else if p = fin then 0 else - 1, p, s) })"

text \<open>\<open>strncpy\<close> of a literal to the name: up to its terminator, at most twelve bytes.\<close>

definition put_name :: "nat \<Rightarrow> string \<Rightarrow> u8 list \<Rightarrow> u8 list option" where
  "put_name p name d = set_bytes (p + 4) (take 12 (cstr name @ [0])) d"

definition put_checksum :: "nat \<Rightarrow> u8 list \<Rightarrow> u8 list option" where
  "put_checksum p d = do { c \<leftarrow> nvpart_checksum d p; set_bytes (p + 1) [word_of_int c] d }"

definition create_free_part :: "nat \<Rightarrow> nat \<Rightarrow> u8 list \<Rightarrow> u8 list option" where
  "create_free_part p sz d =
     do { d \<leftarrow> set_bytes p (replicate sz 0) d;
          d \<leftarrow> put_name p ''77777777777'' d;
          d \<leftarrow> set_bytes p [NV_SIG_FREE] d;
          d \<leftarrow> set_bytes (p + 2) [of_nat (sz div 16 div 256)] d;
          d \<leftarrow> set_bytes (p + 3) [of_nat (sz div 16)] d;
          put_checksum p d }"

definition take_free_part :: "u8 \<Rightarrow> string \<Rightarrow> nat \<Rightarrow> nat \<Rightarrow> nat \<Rightarrow> u8 list \<Rightarrow> u8 list option" where
  "take_free_part signature name sz fs p d =
     do { d \<leftarrow> set_bytes p [signature] d;
          d \<leftarrow> set_bytes (p + 4) (replicate 12 0) d;
          d \<leftarrow> put_name p name d;
          d \<leftarrow> set_bytes (p + 2) [of_nat (sz div 256 div 16)] d;
          d \<leftarrow> set_bytes (p + 3) [of_nat (sz div 16)] d;
          d \<leftarrow> put_checksum p d;
          if sz < fs then create_free_part (p + sz) (fs - sz) d else Some d }"

partial_function (option) create_nv_part :: "'w nvenv \<Rightarrow> u8 \<Rightarrow> string \<Rightarrow> nat \<Rightarrow> nat option \<Rightarrow> 'w nvram \<Rightarrow> (int \<times> 'w nvram) option" where
  "create_nv_part e signature name sz p s =
     do { (r, p, s) \<leftarrow> next_nvpart e p s;
          if 0 < r
          then do { sig \<leftarrow> get_byte (nv_data s) p;
                    if sig \<noteq> NV_SIG_FREE then create_nv_part e signature name sz (Some p) s
                    else do { fs \<leftarrow> nvpart_size (nv_data s) p;
                              let sz = (if fs < sz then fs else sz);
                              d \<leftarrow> take_free_part signature name sz fs p (nv_data s);
                              Some (int sz, s\<lparr>nv_data := d\<rparr>) } }
          else Some (- 1, s\<lparr>nv_world := nv_printk e (''create-failed'' @ [CHR 0x0A]) (nv_world s)\<rparr>) }"

definition zap_nvram :: "'w nvenv \<Rightarrow> 'w nvram \<Rightarrow> 'w nvram option" where
  "zap_nvram e s =
     do { d \<leftarrow> create_free_part 0 (length (nv_data s)) (nv_data s);
          (_, s) \<leftarrow> create_nv_part e NV_SIG_SYSTEM ''common'' DEF_SYSTEM_SIZE None (s\<lparr>nv_data := d\<rparr>);
          Some s }"

definition update_nvram :: "'w nvenv \<Rightarrow> 'w nvram \<Rightarrow> 'w nvram option" where
  "update_nvram e s =
     do { p \<leftarrow> nv_config s;
          let (bs, w) = nvram_store_configs e (nv_config_size s) (nv_world s);
          d \<leftarrow> set_bytes (p + 16) bs (nv_data s);
          Some (s\<lparr>nv_data := d, nv_world := arch_nvram_put e d w\<rparr>) }"

text \<open>One pass over the partitions: the error code and whether the configuration was loaded.\<close>

partial_function (option) nvconf_scan :: "'w nvenv \<Rightarrow> nat option \<Rightarrow> nat \<Rightarrow> 'w nvram \<Rightarrow> (int \<times> nat \<times> 'w nvram) option" where
  "nvconf_scan e p once s =
     do { (err, p, s) \<leftarrow> next_nvpart e p s;
          if 0 < err
          then do { c \<leftarrow> nvpart_checksum (nv_data s) p;
                    b \<leftarrow> get_byte (nv_data s) (p + 1);
                    if c \<noteq> uint b then Some (- 1, once, s)
                    else do {
                      sig \<leftarrow> get_byte (nv_data s) p;
                      if sig = NV_SIG_SYSTEM
                      then do { n \<leftarrow> nvpart_size (nv_data s) p;
                                let s = s\<lparr>nv_config := Some p, nv_config_size := int n - 16\<rparr>;
                                let s = (if once = 0
                                         then s\<lparr>nv_world := nvram_load_configs e (drop (p + 16) (nv_data s)) (int n - 16) (nv_world s)\<rparr>
                                         else s);
                                nvconf_scan e (Some p) (Suc once) s }
                      else nvconf_scan e (Some p) once s } }
          else Some (err, once, s) }"

partial_function (option) nvconf_loop :: "'w nvenv \<Rightarrow> nat \<Rightarrow> 'w nvram \<Rightarrow> 'w nvram option" where
  "nvconf_loop e once s =
     do { (err, once, s) \<leftarrow> nvconf_scan e None once s;
          if err \<noteq> 0 \<or> nv_config s = None
          then do { let s = s\<lparr>nv_world := nv_printk e (''nvram error detected, zapping pram'' @ [CHR 0x0A]) (nv_world s)\<rparr>;
                    s \<leftarrow> zap_nvram e s;
                    let s = (if once = 0 then s\<lparr>nv_world := set_defaults e (nv_world s)\<rparr> else s);
                    nvconf_loop e (Suc once) s }
          else Some s }"

definition nvconf_init :: "'w nvenv \<Rightarrow> 'w \<Rightarrow> 'w nvram option" where
  "nvconf_init e w =
     (let (d, w) = arch_nvram_get e w
      in nvconf_loop e 0 \<lparr>nv_data = d, nv_config = None, nv_config_size = 0, nv_world = w\<rparr>)"

subsection \<open>The package\<close>

text \<open>The methods of the node: the engine's stack and memory, the contents and the instance's mark.\<close>

record nvram_ibuf =
  mark_hi :: u32
  mark_lo :: u32

definition nvram_seek :: "u8 list \<Rightarrow> nvram_ibuf \<Rightarrow> 'w fstate \<Rightarrow> (nvram_ibuf \<times> 'w fstate) option" where
  "nvram_seek d nd s =
     do { (pos_hi, s) \<leftarrow> POP s;
          (pos_lo, s) \<leftarrow> POP s;
          let nd = nd\<lparr>mark_lo := pos_lo, mark_hi := pos_hi\<rparr>;
          s \<leftarrow> PUSH (if of_nat (length d) \<le> mark_lo nd then - 1 else 0) s;
          Some (nd, s) }"

function read_loop :: "u8 list \<Rightarrow> u32 \<Rightarrow> ucell \<Rightarrow> int \<Rightarrow> int \<Rightarrow> memory \<Rightarrow> (u32 \<times> int \<times> memory) option" where
  "read_loop d mark p n len m =
     (if mark < of_nat (length d) \<and> n < len
      then do { b \<leftarrow> get_byte d (unat mark); m \<leftarrow> write_byte m p b; read_loop d (mark + 1) (p + 1) (n + 1) len m }
      else Some (mark, n, m))"
  by pat_completeness auto
termination
  by (relation "measure (\<lambda>(d, mark, p, n, len, m). nat (len - n))") auto

definition nvram_read :: "u8 list \<Rightarrow> nvram_ibuf \<Rightarrow> 'w fstate \<Rightarrow> (nvram_ibuf \<times> 'w fstate) option" where
  "nvram_read d nd s =
     do { (len, s) \<leftarrow> POP s;
          (p, s) \<leftarrow> POP s;
          (mark, n, m) \<leftarrow> read_loop d (mark_lo nd) p 0 (sint len) (mem s);
          s \<leftarrow> PUSH (word_of_int n) (s\<lparr>mem := m\<rparr>);
          Some (nd\<lparr>mark_lo := mark\<rparr>, s) }"

function write_loop :: "u8 list \<Rightarrow> u32 \<Rightarrow> ucell \<Rightarrow> int \<Rightarrow> int \<Rightarrow> memory \<Rightarrow> (u8 list \<times> u32 \<times> int) option" where
  "write_loop d mark p n len m =
     (if mark < of_nat (length d) \<and> n < len
      then do { b \<leftarrow> read_byte m p; d \<leftarrow> set_bytes (unat mark) [b] d; write_loop d (mark + 1) (p + 1) (n + 1) len m }
      else Some (d, mark, n))"
  by pat_completeness auto
termination
  by (relation "measure (\<lambda>(d, mark, p, n, len, m). nat (len - n))") auto

declare read_loop.simps [simp del] write_loop.simps [simp del]

definition nvram_write :: "u8 list \<Rightarrow> nvram_ibuf \<Rightarrow> 'w fstate \<Rightarrow> (u8 list \<times> nvram_ibuf \<times> 'w fstate) option" where
  "nvram_write d nd s =
     do { (len, s) \<leftarrow> POP s;
          (p, s) \<leftarrow> POP s;
          (d, mark, n) \<leftarrow> write_loop d (mark_lo nd) p 0 (sint len) (mem s);
          s \<leftarrow> PUSH (word_of_int n) s;
          Some (d, nd\<lparr>mark_lo := mark\<rparr>, s) }"

definition nvram_size :: "u8 list \<Rightarrow> 'w fstate \<Rightarrow> 'w fstate option" where
  "nvram_size d s = PUSH (of_nat (length d)) s"

definition nvram_open :: "'w fstate \<Rightarrow> 'w fstate option" where
  "nvram_open s = PUSH (- 1) s"

subsection \<open>Bytes, read and written\<close>

lemma set_bytes_Some:
  assumes "i + length bs \<le> length d"
  shows "\<exists>d'. set_bytes i bs d = Some d' \<and> length d' = length d \<and>
    (\<forall>j. get_byte d' j = (if i \<le> j \<and> j < i + length bs then Some (bs ! (j - i)) else get_byte d j))"
  using assms by (auto simp: set_bytes_def get_byte_def nth_append min_def)

lemma set_byte:
  assumes "i < length d"
  obtains d' where "set_bytes i [b] d = Some d'" "length d' = length d" "\<And>j. get_byte d' j = (if j = i then Some b else get_byte d j)"
  using set_bytes_Some [of i "[b]" d] assms by (auto simp: less_Suc_eq_le)

lemma nvsum_range: "0 \<le> val \<Longrightarrow> val \<le> 255 \<Longrightarrow> nvsum d i n val = Some r \<Longrightarrow> 0 \<le> r \<and> r \<le> 255"
proof (induction n arbitrary: i val)
  case (Suc n)
  from Suc.prems(3) obtain b where b: "get_byte d i = Some b"
    "nvsum d (Suc i) n (if 255 < val + uint b then (val + uint b - 256 + 1) AND 0xff else val + uint b) = Some r"
    by (auto simp: bind_eq_Some_iff Let_def)
  have "uint b \<le> 255" "0 \<le> uint b" using unsigned_less [of b, where ?'a = int] by simp_all
  moreover have "(x :: int) AND 0xff = x mod 256" for x using take_bit_eq_mask [of 8 x] by (simp add: take_bit_eq_mod mask_eq_exp_minus_1)
  ultimately show ?case using Suc.IH [OF _ _ b(2)] Suc.prems(1,2) by (auto split: if_splits)
qed simp

lemma nvsum_Some: "i + n \<le> length d \<Longrightarrow> \<exists>r. nvsum d i n val = Some r"
  by (induction n arbitrary: i val) (auto simp: get_byte_def Let_def)

lemma nvsum_cong: "(\<And>j. i \<le> j \<Longrightarrow> j < i + n \<Longrightarrow> get_byte d' j = get_byte d j) \<Longrightarrow> nvsum d' i n val = nvsum d i n val"
proof (induction n arbitrary: i val)
  case (Suc n)
  have "get_byte d' i = get_byte d i" using Suc.prems by simp
  moreover have "nvsum d' (Suc i) n v = nvsum d (Suc i) n v" for v using Suc.prems by (intro Suc.IH) simp
  ultimately show ?case by simp
qed simp

text \<open>The checksum does not cover its own byte, so that writing it makes the header good.\<close>

definition good_sum :: "u8 list \<Rightarrow> nat \<Rightarrow> bool" where
  "good_sum d p \<longleftrightarrow> (\<exists>c. get_byte d (p + 1) = Some c \<and> nvpart_checksum d p = Some (uint c))"

lemma header_cong:
  assumes "\<And>j. p \<le> j \<Longrightarrow> j < p + 16 \<Longrightarrow> get_byte d' j = get_byte d j"
  shows "nvpart_checksum d' p = nvpart_checksum d p" and "nvpart_size d' p = nvpart_size d p" and "good_sum d' p = good_sum d p"
proof -
  have "nvsum d' (p + 2) 14 v = nvsum d (p + 2) 14 v" for v by (intro nvsum_cong assms) simp_all
  then show "nvpart_checksum d' p = nvpart_checksum d p" using assms [of p] by (simp add: nvpart_checksum_def)
  then show "good_sum d' p = good_sum d p" using assms [of "p + 1"] by (simp add: good_sum_def)
  show "nvpart_size d' p = nvpart_size d p" using assms [of "p + 2"] assms [of "p + 3"] by (simp add: nvpart_size_def)
qed

lemma put_checksum_ok:
  assumes "p + 16 \<le> length d"
  obtains d' where "put_checksum p d = Some d'" "length d' = length d" "\<And>j. j \<noteq> p + 1 \<Longrightarrow> get_byte d' j = get_byte d j" "good_sum d' p"
proof -
  obtain b where b: "get_byte d p = Some b" using assms by (simp add: get_byte_def)
  obtain c where c: "nvsum d (p + 2) 14 (uint b) = Some c" using nvsum_Some [of "p + 2" 14 d] assms by auto
  have "uint b \<le> 255" using unsigned_less [of b, where ?'a = int] by simp
  then have r: "0 \<le> c" "c \<le> 255" using nvsum_range [OF _ _ c] by auto
  obtain d' where d': "set_bytes (p + 1) [word_of_int c] d = Some d'" "length d' = length d"
    "\<And>j. get_byte d' j = (if j = p + 1 then Some (word_of_int c) else get_byte d j)" using assms set_byte [of "p + 1" d] by auto
  have "nvsum d' (p + 2) 14 (uint b) = nvsum d (p + 2) 14 (uint b)" by (rule nvsum_cong) (simp add: d'(3))
  then have "nvpart_checksum d' p = Some c" using b c d'(3) [of p] by (simp add: nvpart_checksum_def)
  moreover have "uint (word_of_int c :: u8) = c" using r by (simp only: uint_word_of_int_eq) (simp add: take_bit_int_eq_self)
  ultimately have "good_sum d' p" using d'(3) [of "p + 1"] by (simp add: good_sum_def)
  moreover have "put_checksum p d = Some d'" using b c d'(1) by (simp add: put_checksum_def nvpart_checksum_def)
  ultimately show ?thesis using that d'(2,3) by simp
qed

lemma size_bytes:
  assumes "x < 2 ^ 16"
  shows "unat (of_nat x :: u8) OR push_bit 8 (unat (of_nat (x div 256) :: u8)) = x"
proof -
  have "unat (of_nat x :: u8) = take_bit 8 x" by (simp add: unsigned_of_nat)
  moreover have "x div 256 < 256" using assms by (simp add: less_mult_imp_div_less)
  then have "unat (of_nat (x div 256) :: u8) = drop_bit 8 x" by (subst unat_of_nat_small) (simp_all add: drop_bit_eq_div)
  moreover have "take_bit 8 x OR push_bit 8 (drop_bit 8 x) = x"
  proof (rule bit_eqI)
    fix n
    show "bit (take_bit 8 x OR push_bit 8 (drop_bit 8 x)) n = bit x n"
      by (cases "n < 8") (simp_all add: bit_or_iff bit_take_bit_iff bit_push_bit_iff bit_drop_bit_eq)
  qed
  ultimately show ?thesis by simp
qed

text \<open>
  A header written: the bytes of the partition from \<open>p\<close> to \<open>q\<close> may change, the header gives size and
  signature with a good checksum.
\<close>

definition header :: "nat \<Rightarrow> nat \<Rightarrow> u8 \<Rightarrow> u8 list \<Rightarrow> bool" where
  "header p sz sig d \<longleftrightarrow> nvpart_size d p = Some sz \<and> get_byte d p = Some sig \<and> good_sum d p"

lemma header_frame: "header p sz sig d \<Longrightarrow> (\<And>j. p \<le> j \<Longrightarrow> j < p + 16 \<Longrightarrow> get_byte d' j = get_byte d j) \<Longrightarrow> header p sz sig d'"
  using header_cong [of p d' d] by (simp add: header_def)

lemma set_size_ok:
  assumes p: "p + 16 \<le> length d" and sz: "sz < 2 ^ 20" "16 dvd sz" and sig: "get_byte d p = Some sig"
  obtains d' where "do { d \<leftarrow> set_bytes (p + 2) [of_nat (sz div 16 div 256)] d; d \<leftarrow> set_bytes (p + 3) [of_nat (sz div 16)] d; put_checksum p d } = Some d'"
    "length d' = length d" "\<And>j. j < p \<or> p + 16 \<le> j \<Longrightarrow> get_byte d' j = get_byte d j" "header p sz sig d'"
proof -
  obtain d1 where d1: "set_bytes (p + 2) [of_nat (sz div 16 div 256)] d = Some d1" "length d1 = length d"
    "\<And>j. get_byte d1 j = (if j = p + 2 then Some (of_nat (sz div 16 div 256)) else get_byte d j)" using p set_byte [of "p + 2" d] by auto
  obtain d2 where d2: "set_bytes (p + 3) [of_nat (sz div 16)] d1 = Some d2" "length d2 = length d"
    "\<And>j. get_byte d2 j = (if j = p + 3 then Some (of_nat (sz div 16)) else get_byte d1 j)" using p d1(2) set_byte [of "p + 3" d1] by auto
  obtain d3 where d3: "put_checksum p d2 = Some d3" "length d3 = length d" "\<And>j. j \<noteq> p + 1 \<Longrightarrow> get_byte d3 j = get_byte d2 j" "good_sum d3 p"
    using put_checksum_ok [of p d2] p d2(2) by auto
  have "sz div 16 < 2 ^ 16" using sz(1) by (simp add: less_mult_imp_div_less)
  then have "nvpart_size d3 p = Some (sz div 16 * 16)"
    using d1(3) d2(3) d3(3) size_bytes [of "sz div 16"] by (simp add: nvpart_size_def)
  then have "header p sz sig d3" using sz(2) sig d1(3) d2(3) d3(3,4) by (simp add: header_def)
  moreover have "get_byte d3 j = get_byte d j" if "j < p \<or> p + 16 \<le> j" for j using that d1(3) d2(3) d3(3) by auto
  ultimately show ?thesis using that [of d3] d1(1) d2(1) d3(1,2) by simp
qed

lemma create_free_part_ok:
  assumes p: "p + sz \<le> length d" and sz: "16 \<le> sz" "sz < 2 ^ 20" "16 dvd sz"
  obtains d' where "create_free_part p sz d = Some d'" "length d' = length d" "\<And>j. j < p \<or> p + sz \<le> j \<Longrightarrow> get_byte d' j = get_byte d j"
    "header p sz NV_SIG_FREE d'"
proof -
  obtain d1 where d1: "set_bytes p (replicate sz 0) d = Some d1" "length d1 = length d"
    "\<And>j. j < p \<or> p + sz \<le> j \<Longrightarrow> get_byte d1 j = get_byte d j" using set_bytes_Some [of p "replicate sz 0" d] p by fastforce
  obtain d2 where d2: "put_name p ''77777777777'' d1 = Some d2" "length d2 = length d"
    "\<And>j. j < p + 4 \<or> p + 16 \<le> j \<Longrightarrow> get_byte d2 j = get_byte d1 j"
    using set_bytes_Some [of "p + 4" "take 12 (cstr ''77777777777'' @ [0])" d1] p sz(1) d1(2) by (fastforce simp: put_name_def cstr_def)
  obtain d3 where d3: "set_bytes p [NV_SIG_FREE] d2 = Some d3" "length d3 = length d"
    "\<And>j. get_byte d3 j = (if j = p then Some NV_SIG_FREE else get_byte d2 j)" using p sz(1) d2(2) set_byte [of p d2] by auto
  obtain d4 where d4: "do { d \<leftarrow> set_bytes (p + 2) [of_nat (sz div 16 div 256)] d3; d \<leftarrow> set_bytes (p + 3) [of_nat (sz div 16)] d; put_checksum p d } = Some d4"
    "length d4 = length d" "\<And>j. j < p \<or> p + 16 \<le> j \<Longrightarrow> get_byte d4 j = get_byte d3 j" "header p sz NV_SIG_FREE d4"
    using set_size_ok [of p d3 sz NV_SIG_FREE] p sz d3 by auto
  have "create_free_part p sz d = Some d4" using d1(1) d2(1) d3(1) d4(1) by (simp add: create_free_part_def)
  moreover have "get_byte d4 j = get_byte d j" if "j < p \<or> p + sz \<le> j" for j using that sz(1) d1(3) d2(3) d3(3) d4(3) by auto
  ultimately show ?thesis using that d4 by blast
qed

lemma take_free_part_ok:
  assumes p: "p + fs \<le> length d" and sz: "16 \<le> sz" "sz \<le> fs" "fs < 2 ^ 20" "16 dvd sz" "16 dvd fs" and nm: "length name < 12"
  obtains d' where "take_free_part sig name sz fs p d = Some d'" "length d' = length d" "\<And>j. j < p \<or> p + fs \<le> j \<Longrightarrow> get_byte d' j = get_byte d j"
    "header p sz sig d'" "sz < fs \<Longrightarrow> header (p + sz) (fs - sz) NV_SIG_FREE d'"
proof -
  have p16: "p + 16 \<le> length d" using p sz(1,2) by simp
  obtain d1 where d1: "set_bytes p [sig] d = Some d1" "length d1 = length d"
    "\<And>j. get_byte d1 j = (if j = p then Some sig else get_byte d j)" using p16 set_byte [of p d] by auto
  obtain d2 where d2: "set_bytes (p + 4) (replicate 12 0) d1 = Some d2" "length d2 = length d"
    "\<And>j. j < p + 4 \<or> p + 16 \<le> j \<Longrightarrow> get_byte d2 j = get_byte d1 j"
    using set_bytes_Some [of "p + 4" "replicate 12 0" d1] p16 d1(2) by fastforce
  obtain d3 where d3: "put_name p name d2 = Some d3" "length d3 = length d"
    "\<And>j. j < p + 4 \<or> p + 16 \<le> j \<Longrightarrow> get_byte d3 j = get_byte d2 j"
    using set_bytes_Some [of "p + 4" "take 12 (cstr name @ [0])" d2] p16 d2(2) nm by (fastforce simp: put_name_def cstr_def)
  obtain d4 where d4: "do { d \<leftarrow> set_bytes (p + 2) [of_nat (sz div 16 div 256)] d3; d \<leftarrow> set_bytes (p + 3) [of_nat (sz div 16)] d; put_checksum p d } = Some d4"
    "length d4 = length d" "\<And>j. j < p \<or> p + 16 \<le> j \<Longrightarrow> get_byte d4 j = get_byte d3 j" "header p sz sig d4"
    using set_size_ok [of p d3 sz sig] p16 sz d1(3) d2(3) d3 by auto
  have frame: "get_byte d4 j = get_byte d j" if "j < p \<or> p + 16 \<le> j" for j using that d1(3) d2(3) d3(3) d4(3) by auto
  have hd: "sz div 256 div 16 = sz div 16 div 256" by (simp add: div_mult2_eq [symmetric])
  have eq: "take_free_part sig name sz fs p d = (if sz < fs then create_free_part (p + sz) (fs - sz) d4 else Some d4)"
    unfolding take_free_part_def hd using d1(1) d2(1) d3(1) d4(1) by (auto simp: bind_eq_Some_iff)
  show ?thesis
  proof (cases "sz < fs")
    case False
    moreover have "get_byte d4 j = get_byte d j" if "j < p \<or> p + fs \<le> j" for j using that frame sz(1,2) by auto
    ultimately show ?thesis using that [of d4] eq d4(2,4) by simp
  next
    case True
    have "16 dvd fs - sz" using sz(4,5) by (simp add: dvd_diff_nat)
    then have "16 \<le> fs - sz" using True by (simp add: dvd_imp_le)
    moreover have "p + sz + (fs - sz) \<le> length d4" "fs - sz < 2 ^ 20" using p sz d4(2) by simp_all
    moreover note \<open>16 dvd fs - sz\<close>
    ultimately obtain d5 where d5: "create_free_part (p + sz) (fs - sz) d4 = Some d5" "length d5 = length d4"
      "\<And>j. j < p + sz \<or> p + sz + (fs - sz) \<le> j \<Longrightarrow> get_byte d5 j = get_byte d4 j" "header (p + sz) (fs - sz) NV_SIG_FREE d5"
      using create_free_part_ok [of "p + sz" "fs - sz" d4] by blast
    have "header p sz sig d5" using d4(4) by (rule header_frame) (use d5(3) sz(1) in auto)
    moreover have "get_byte d5 j = get_byte d j" if "j < p \<or> p + fs \<le> j" for j using that d5(3) frame sz(1,2) by auto
    ultimately show ?thesis using that [of d5] eq True d5(1,2,4) d4(2) by simp
  qed
qed

subsection \<open>Chains of partitions\<close>

text \<open>From \<open>p\<close> to the end of the memory, partitions with good headers, one after the other.\<close>

inductive nvchain :: "u8 list \<Rightarrow> nat \<Rightarrow> nat list \<Rightarrow> bool" for d where
  chain_end: "nvchain d (length d) []"
| chain_part: "p < length d \<Longrightarrow> nvpart_size d p = Some n \<Longrightarrow> 0 < n \<Longrightarrow> good_sum d p \<Longrightarrow> nvchain d (p + n) ps \<Longrightarrow> nvchain d p (p # ps)"

inductive_cases nvchain_cases: "nvchain d p ps"

definition sys_parts :: "u8 list \<Rightarrow> nat list \<Rightarrow> nat list" where
  "sys_parts d ps = filter (\<lambda>p. get_byte d p = Some NV_SIG_SYSTEM) ps"

lemma nvpart_size_dvd: "nvpart_size d p = Some n \<Longrightarrow> 16 dvd n"
  by (auto simp: nvpart_size_def bind_eq_Some_iff)

lemma header_in: "p + 16 \<le> length d \<Longrightarrow> (\<exists>n. nvpart_size d p = Some n) \<and> (\<exists>c. nvpart_checksum d p = Some c) \<and> (\<exists>b. get_byte d (p + 1) = Some b) \<and> (\<exists>b. get_byte d p = Some b)"
  using nvsum_Some [of "p + 2" 14 d] by (auto simp: nvpart_size_def nvpart_checksum_def get_byte_def)

text \<open>What a pass does from a partition on: it ends; it reports no error exactly on a chain, and then the last system partition is the configuration.\<close>

definition scanned :: "nat \<Rightarrow> 'w nvram \<Rightarrow> int \<Rightarrow> 'w nvram \<Rightarrow> bool" where
  "scanned p s err s' \<longleftrightarrow> nv_data s' = nv_data s \<and> (err = 0 \<longleftrightarrow> (\<exists>ps. nvchain (nv_data s) p ps)) \<and>
     (\<forall>ps. nvchain (nv_data s) p ps \<longrightarrow>
        (let qs = sys_parts (nv_data s) ps
         in if qs = [] then nv_config s' = nv_config s \<and> nv_config_size s' = nv_config_size s
            else nv_config s' = Some (last qs) \<and> (\<exists>n. nvpart_size (nv_data s) (last qs) = Some n \<and> nv_config_size s' = int n - 16)))"

lemma chain_unique: "nvchain d p ps \<Longrightarrow> nvchain d p qs \<Longrightarrow> ps = qs"
proof (induction arbitrary: qs rule: nvchain.induct)
  case chain_end
  then show ?case by (auto elim: nvchain.cases)
next
  case (chain_part p n ps)
  from chain_part.prems show ?case
  proof (cases rule: nvchain.cases)
    case chain_end
    then show ?thesis using chain_part.hyps(1) by simp
  next
    case (chain_part n' ps')
    then show ?thesis using chain_part.IH \<open>nvpart_size d p = Some n\<close> by auto
  qed
qed

lemma chain_le: "nvchain d p ps \<Longrightarrow> p \<le> length d"
  by (auto elim: nvchain.cases)

lemma chain_iff:
  assumes "p < length d" and "nvpart_size d p = Some n" and "good_sum d p"
  shows "nvchain d p qs \<longleftrightarrow> 0 < n \<and> (\<exists>ps. qs = p # ps \<and> nvchain d (p + n) ps)"
  using assms by (auto elim: nvchain.cases intro: nvchain.intros)

lemma scan_from:
  assumes "16 dvd length (nv_data s)"
  shows "16 dvd p \<Longrightarrow> p < length (nv_data s) \<Longrightarrow> next_nvpart e q s = Some (1, p, s) \<Longrightarrow>
    \<exists>err once' s'. nvconf_scan e q once s = Some (err, once', s') \<and> scanned p s err s' \<and> once \<le> once'"
  using assms
proof (induction "length (nv_data s) - p" arbitrary: p q once s rule: less_induct)
  case less
  let ?d = "nv_data s"
  have p16: "p + 16 \<le> length ?d"
  proof -
    have "16 dvd length ?d - p" using less.prems(1,4) by (simp add: dvd_diff_nat)
    then have "16 \<le> length ?d - p" using less.prems(2) by (simp add: dvd_imp_le)
    then show ?thesis by simp
  qed
  from header_in [OF p16] obtain n c b sig where h: "nvpart_size ?d p = Some n" "nvpart_checksum ?d p = Some c"
    "get_byte ?d (p + 1) = Some b" "get_byte ?d p = Some sig" by auto
  show ?case
  proof (cases "c = uint b")
    case False
    then have "\<not> nvchain ?d p ps" for ps using h less.prems(2) by (auto simp: good_sum_def elim: nvchain.cases)
    then have "scanned p s (- 1) s" by (simp add: scanned_def)
    moreover have "nvconf_scan e q once s = Some (- 1, once, s)" using False h less.prems(3) by (subst nvconf_scan.simps) simp
    ultimately show ?thesis by blast
  next
    case True
    define t where "t = (if sig = NV_SIG_SYSTEM then s\<lparr>nv_config := Some p, nv_config_size := int n - 16,
      nv_world := (if once = 0 then nvram_load_configs e (drop (p + 16) ?d) (int n - 16) (nv_world s) else nv_world s)\<rparr> else s)"
    define o1 where "o1 = (if sig = NV_SIG_SYSTEM then Suc once else once)"
    have step: "nvconf_scan e q once s = nvconf_scan e (Some p) o1 t"
      using True h less.prems(3) by (subst nvconf_scan.simps) (simp add: Let_def t_def o1_def)
    have conf: "nv_config t = (if sig = NV_SIG_SYSTEM then Some p else nv_config s)"
      "nv_config_size t = (if sig = NV_SIG_SYSTEM then int n - 16 else nv_config_size s)" by (simp_all add: t_def)
    have good: "good_sum ?d p" using h(2,3) True by (simp add: good_sum_def)
    note ch = chain_iff [OF less.prems(2) h(1) good]
    have d: "nv_data t = ?d" "once \<le> o1" by (simp_all add: t_def o1_def)
    have one: "scanned p s 0 t" if "p + n = length ?d" "0 < n"
    proof -
      have "nvchain ?d p qs \<longleftrightarrow> qs = [p]" for qs
        unfolding ch using that by (auto elim: nvchain.cases intro: nvchain.intros)
      then show ?thesis using h(1,4) d(1) conf by (auto simp: scanned_def sys_parts_def Let_def)
    qed
    have none: "scanned p s (- 1) s'" if "nv_data s' = ?d" "n = 0 \<or> length ?d < p + n" for s'
    proof -
      have "\<not> nvchain ?d p qs" for qs unfolding ch using that(2) chain_le [of ?d "p + n"] by fastforce
      then show ?thesis using that(1) by (simp add: scanned_def)
    qed
    consider "n = 0" | "0 < n" "p + n < length ?d" | "0 < n" "p + n = length ?d" | "length ?d < p + n" by linarith
    then show ?thesis
    proof cases
      case 1
      let ?u = "t\<lparr>nv_world := nv_printk e (''invalid nvram partition length'' @ [CHR 0x0A]) (nv_world t)\<rparr>"
      have "next_nvpart e (Some p) t = Some (- 1, p, ?u)" using 1 h(1) d(1) by (simp add: next_nvpart_def)
      then have "nvconf_scan e (Some p) o1 t = Some (- 1, o1, ?u)" by (subst nvconf_scan.simps) simp
      moreover have "scanned p s (- 1) ?u" using 1 d(1) by (intro none) simp_all
      ultimately show ?thesis using step d(2) by auto
    next
      case 2
      have nx: "next_nvpart e (Some p) t = Some (1, p + n, t)" using 2 h(1) d(1) by (simp add: next_nvpart_def)
      have "16 dvd p + n" using less.prems(1) nvpart_size_dvd [OF h(1)] by simp
      moreover have "length (nv_data t) - (p + n) < length ?d - p" "p + n < length (nv_data t)" "16 dvd length (nv_data t)"
        using 2 less.prems(4) d(1) by simp_all
      ultimately obtain err once' s' where
        r: "nvconf_scan e (Some p) o1 t = Some (err, once', s')" "scanned (p + n) t err s'" "o1 \<le> once'"
        using less.hyps [of t "p + n" "Some p" o1] nx by blast
      have "scanned p s err s'"
        unfolding scanned_def
      proof (intro conjI allI impI)
        show "nv_data s' = ?d" using r(2) d(1) by (simp add: scanned_def)
        show "err = 0 \<longleftrightarrow> (\<exists>ps. nvchain ?d p ps)" using r(2) 2(1) unfolding ch scanned_def d(1) by blast
        fix qs assume "nvchain ?d p qs"
        then obtain ps where ps: "qs = p # ps" "nvchain ?d (p + n) ps" unfolding ch by blast
        then show "let qs = sys_parts ?d qs in if qs = [] then nv_config s' = nv_config s \<and> nv_config_size s' = nv_config_size s
            else nv_config s' = Some (last qs) \<and> (\<exists>n. nvpart_size ?d (last qs) = Some n \<and> nv_config_size s' = int n - 16)"
          using r(2) h(1,4) conf unfolding scanned_def d(1) by (auto simp: sys_parts_def Let_def split: if_splits)
      qed
      then show ?thesis using r step d(2) by auto
    next
      case 3
      have "next_nvpart e (Some p) t = Some (0, p + n, t)" using 3 h(1) d(1) by (simp add: next_nvpart_def)
      then have "nvconf_scan e (Some p) o1 t = Some (0, o1, t)" by (subst nvconf_scan.simps) simp
      then show ?thesis using step one [OF 3(2,1)] d(2) by auto
    next
      case 4
      then have "next_nvpart e (Some p) t = Some (- 1, p + n, t)" using less.prems(2) h(1) d(1) by (simp add: next_nvpart_def)
      then have "nvconf_scan e (Some p) o1 t = Some (- 1, o1, t)" by (subst nvconf_scan.simps) simp
      then show ?thesis using step none [of t] 4 d by auto
    qed
  qed
qed

subsection \<open>Starting up\<close>

text \<open>The memory after a reset: a system partition and, where there is room, a free one.\<close>

definition zapped :: "u8 list \<Rightarrow> bool" where
  "zapped d \<longleftrightarrow> (\<exists>ps. nvchain d 0 ps \<and> sys_parts d ps = [0] \<and> length ps \<le> 2 \<and> nvpart_size d 0 = Some (min DEF_SYSTEM_SIZE (length d)))"

lemma header_chain: "p < length d \<Longrightarrow> header p n sig d \<Longrightarrow> 0 < n \<Longrightarrow> nvchain d (p + n) ps \<Longrightarrow> nvchain d p (p # ps)"
  by (auto simp: header_def intro: nvchain.intros)

lemma zap_ok:
  assumes n: "16 dvd length (nv_data s)" "16 \<le> length (nv_data s)" "length (nv_data s) < 2 ^ 20"
  shows "\<exists>d. zap_nvram e s = Some (s\<lparr>nv_data := d\<rparr>) \<and> length d = length (nv_data s) \<and> zapped d"
proof -
  let ?n = "length (nv_data s)" let ?sz = "min DEF_SYSTEM_SIZE ?n"
  obtain d1 where d1: "create_free_part 0 ?n (nv_data s) = Some d1" "length d1 = ?n" "header 0 ?n NV_SIG_FREE d1"
    using create_free_part_ok [of 0 ?n "nv_data s"] n by auto
  have ne: "nv_data s \<noteq> []" using n(2) by auto
  have sz: "16 \<le> ?sz" "?sz \<le> ?n" "16 dvd ?sz" using n(1,2) by (auto simp: min_def)
  have "0 + ?n \<le> length d1" "length ''common'' < 12" using d1(2) by simp_all
  then obtain d2 where d2: "take_free_part NV_SIG_SYSTEM ''common'' ?sz ?n 0 d1 = Some d2" "length d2 = ?n"
    "header 0 ?sz NV_SIG_SYSTEM d2" "?sz < ?n \<Longrightarrow> header ?sz (?n - ?sz) NV_SIG_FREE d2"
    using take_free_part_ok [OF _ sz(1,2) n(3) sz(3) n(1), of 0 d1 "''common''" NV_SIG_SYSTEM] d1(2) by auto
  have "create_nv_part e NV_SIG_SYSTEM ''common'' DEF_SYSTEM_SIZE None (s\<lparr>nv_data := d1\<rparr>) = Some (int ?sz, s\<lparr>nv_data := d2\<rparr>)"
    using d1(3) d2(1) by (subst create_nv_part.simps) (simp add: next_nvpart_def header_def Let_def min_def split: if_splits)
  then have zap: "zap_nvram e s = Some (s\<lparr>nv_data := d2\<rparr>)" using d1(1) by (simp add: zap_nvram_def)
  have "zapped d2"
  proof (cases "?sz < ?n")
    case True
    have "nvchain d2 (?sz + (?n - ?sz)) []" using chain_end [of d2] d2(2) sz(2) by simp
    then have "nvchain d2 ?sz [?sz]" using header_chain [of ?sz d2 _ _ "[]"] d2(2) d2(4) [OF True] True by auto
    then have "nvchain d2 0 [0, ?sz]" using header_chain [of 0 d2 ?sz NV_SIG_SYSTEM "[?sz]"] d2(2,3) sz(1,2) ne by auto
    moreover have "sys_parts d2 [0, ?sz] = [0]" using d2(3) d2(4) [OF True] by (simp add: sys_parts_def header_def)
    ultimately show ?thesis using d2(2,3) unfolding zapped_def header_def by (intro exI [of _ "[0, ?sz]"]) simp
  next
    case False
    then have eq: "?sz = ?n" using sz(2) by simp
    then have "nvchain d2 0 [0]" using header_chain [of 0 d2 ?n NV_SIG_SYSTEM "[]"] chain_end [of d2] d2(2,3) n(2) ne by simp
    then show ?thesis using d2(2,3) unfolding zapped_def header_def by (intro exI [of _ "[0]"]) (simp add: sys_parts_def)
  qed
  then show ?thesis using zap d2(2) by blast
qed

lemma scan_ok:
  assumes "16 dvd length (nv_data s)" and "16 \<le> length (nv_data s)"
  shows "\<exists>err once' s'. nvconf_scan e None once s = Some (err, once', s') \<and> scanned 0 s err s' \<and> once \<le> once'"
  using assms by (intro scan_from) (auto simp: next_nvpart_def)

text \<open>The state a start-up leaves: a chain of partitions, the configuration the last system partition of it.\<close>

definition nv_ready :: "'w nvram \<Rightarrow> bool" where
  "nv_ready s \<longleftrightarrow> (\<exists>ps c n. nvchain (nv_data s) 0 ps \<and> sys_parts (nv_data s) ps \<noteq> [] \<and> c = last (sys_parts (nv_data s) ps) \<and>
     nv_config s = Some c \<and> nvpart_size (nv_data s) c = Some n \<and> nv_config_size s = int n - 16)"

lemma scanned_ready: "scanned 0 s 0 s' \<Longrightarrow> nvchain (nv_data s) 0 ps \<Longrightarrow> sys_parts (nv_data s) ps \<noteq> [] \<Longrightarrow> nv_ready s' \<and> nv_config s' \<noteq> None"
  unfolding scanned_def nv_ready_def by (auto simp: Let_def)

text \<open>
  C23: \<open>nvconf_init\<close> returns, whatever bytes the device delivers (a multiple of 16 of them, from 16 to
  just under a megabyte). It leaves a chain of partitions that covers the memory exactly, every header with a good
  checksum, with the configuration in the last system partition. A memory that has such a chain is
  left as it is; any other is reset.
\<close>

theorem nvconf_init_total:
  assumes "arch_nvram_get e w = (d, w1)" and "16 dvd length d" and "16 \<le> length d" and "length d < 2 ^ 20"
  shows "\<exists>s. nvconf_init e w = Some s \<and> nv_ready s \<and> length (nv_data s) = length d \<and>
    (if \<exists>ps. nvchain d 0 ps \<and> sys_parts d ps \<noteq> [] then nv_data s = d else zapped (nv_data s))"
proof -
  let ?s0 = "\<lparr>nv_data = d, nv_config = None, nv_config_size = 0, nv_world = w1\<rparr>"
  have init: "nvconf_init e w = nvconf_loop e 0 ?s0" using assms(1) by (simp add: nvconf_init_def)
  from scan_ok [of ?s0 e 0] assms(2,3) obtain err o1 s1 where s1: "nvconf_scan e None 0 ?s0 = Some (err, o1, s1)" "scanned 0 ?s0 err s1" by auto
  have d1: "nv_data s1 = d" using s1(2) by (simp add: scanned_def)
  show ?thesis
  proof (cases "\<exists>ps. nvchain d 0 ps \<and> sys_parts d ps \<noteq> []")
    case True
    then obtain ps where ps: "nvchain d 0 ps" "sys_parts d ps \<noteq> []" by blast
    then have "err = 0" using s1(2) by (auto simp: scanned_def)
    then have "nv_ready s1" "nv_config s1 \<noteq> None" using scanned_ready [of ?s0 s1 ps] s1(2) ps by auto
    moreover from this have "nvconf_loop e 0 ?s0 = Some s1" using s1(1) \<open>err = 0\<close> by (subst nvconf_loop.simps) auto
    ultimately show ?thesis using init d1 True by auto
  next
    case False
    have bad: "err \<noteq> 0 \<or> nv_config s1 = None"
    proof (cases "err = 0")
      case True
      then obtain ps where "nvchain d 0 ps" using s1(2) by (auto simp: scanned_def)
      moreover from this have "sys_parts d ps = []" using False by blast
      ultimately show ?thesis using s1(2) by (auto simp: scanned_def Let_def)
    qed simp
    let ?s2 = "s1\<lparr>nv_world := nv_printk e (''nvram error detected, zapping pram'' @ [CHR 0x0A]) (nv_world s1)\<rparr>"
    from zap_ok [of ?s2 e] assms(2-4) d1 obtain d3 where d3: "zap_nvram e ?s2 = Some (?s2\<lparr>nv_data := d3\<rparr>)" "length d3 = length d" "zapped d3" by auto
    define s3 where "s3 = (if o1 = 0 then ?s2\<lparr>nv_data := d3\<rparr>\<lparr>nv_world := set_defaults e (nv_world (?s2\<lparr>nv_data := d3\<rparr>))\<rparr> else ?s2\<lparr>nv_data := d3\<rparr>)"
    have "nvconf_loop e 0 ?s0 = nvconf_loop e (Suc o1) s3"
      using s1(1) bad d3(1) by (subst nvconf_loop.simps) (simp add: Let_def s3_def)
    moreover have s3: "nv_data s3 = d3" by (simp add: s3_def)
    moreover from scan_ok [of s3 e "Suc o1"] assms(2,3) s3 d3(2) obtain err2 o2 s4 where
      s4: "nvconf_scan e None (Suc o1) s3 = Some (err2, o2, s4)" "scanned 0 s3 err2 s4" by auto
    moreover from d3(3) obtain ps where ps: "nvchain d3 0 ps" "sys_parts d3 ps = [0]" by (auto simp: zapped_def)
    moreover from this have "err2 = 0" using s4(2) s3 by (auto simp: scanned_def)
    moreover from this have r: "nv_ready s4" "nv_config s4 \<noteq> None" using scanned_ready [of s3 s4 ps] s4(2) ps s3 by auto
    moreover from calculation have "nvconf_loop e (Suc o1) s3 = Some s4" by (subst nvconf_loop.simps) auto
    moreover have "nv_data s4 = d3" using s4(2) s3 by (simp add: scanned_def)
    ultimately show ?thesis using init False d3(2,3) by auto
  qed
qed

text \<open>A memory full of garbage.\<close>

theorem nvconf_init_total_witness:
  "\<exists>s. nvconf_init \<lparr>arch_nvram_get = \<lambda>w :: unit. (replicate 8192 0xff, w), arch_nvram_put = \<lambda>_ w. w, nvram_load_configs = \<lambda>_ _ w. w,
        nvram_store_configs = \<lambda>_ w. ([], w), set_defaults = id, nv_printk = \<lambda>_ w. w\<rparr> () = Some s \<and> nv_ready s \<and> length (nv_data s) = 8192"
proof -
  let ?e = "\<lparr>arch_nvram_get = \<lambda>w :: unit. (replicate 8192 0xff, w), arch_nvram_put = \<lambda>_ w. w, nvram_load_configs = \<lambda>_ _ w. w,
        nvram_store_configs = \<lambda>_ w. ([], w), set_defaults = id, nv_printk = \<lambda>_ w. w\<rparr>"
  have "arch_nvram_get ?e () = (replicate 8192 0xff, ())" "16 dvd length (replicate 8192 (0xff :: u8))"
    "16 \<le> length (replicate 8192 (0xff :: u8))" "length (replicate 8192 (0xff :: u8)) < 2 ^ 20" by simp_all
  from nvconf_init_total [OF this] show ?thesis by auto
qed

subsection \<open>Writing and reading back\<close>

lemma POP_PUSH_mem:
  "POP s = Some (v, s') \<Longrightarrow> mem s' = mem s" "PUSH v s = Some s' \<Longrightarrow> mem s' = mem s"
  by (auto simp: stack_defs bind_eq_Some_iff split: if_splits)

lemma pop2:
  assumes "ds_ok s" and "ds s = a # b # xs"
  obtains s1 s2 where "POP s = Some (a, s1)" "POP s1 = Some (b, s2)" "ds_ok s2" "ds s2 = xs" "mem s2 = mem s"
proof -
  from dstk.pop_item [OF assms] obtain s1 where 1: "POP s = Some (a, s1)" "ds_ok s1" "ds s1 = b # xs" by blast
  from dstk.pop_item [OF 1(2,3)] obtain s2 where "POP s1 = Some (b, s2)" "ds_ok s2" "ds s2 = xs" by blast
  then show ?thesis using that 1 POP_PUSH_mem(1) by metis
qed

lemma room: "ds_ok u \<Longrightarrow> ds u = ys \<Longrightarrow> ds_ok v \<Longrightarrow> ds v = a # b # ys \<Longrightarrow> length (ds u) < 511"
  using dstk.view_le [of v] by simp

lemma mark_less: "length d < 2 ^ 31 \<Longrightarrow> (mark :: u32) < of_nat (length d) \<longleftrightarrow> unat mark < length d"
  by (simp add: word_less_nat_alt unat_of_nat_small)

lemma mark_next: "length d < 2 ^ 31 \<Longrightarrow> unat (mark :: u32) < length d \<Longrightarrow> unat (mark + 1) = Suc (unat mark)"
  using unat_add_no_wrap [of mark 1] by simp

lemma write_loop_ok:
  assumes "length d < 2 ^ 31"
  shows "length d0 = length d \<Longrightarrow> k = min (nat (len - n)) (length d - unat mark) \<Longrightarrow> \<forall>i < k. m (p + of_nat i) = Some (bs ! i) \<Longrightarrow> length bs = k \<Longrightarrow>
    \<exists>d'. write_loop d0 mark p n len m = Some (d', mark + of_nat k, n + int k) \<and> length d' = length d \<and>
      (\<forall>j. get_byte d' j = (if unat mark \<le> j \<and> j < unat mark + k then Some (bs ! (j - unat mark)) else get_byte d0 j))"
proof (induction k arbitrary: d0 mark p n bs)
  case 0
  then have "\<not> (mark < of_nat (length d0) \<and> n < len)" using assms by (auto simp: mark_less)
  then show ?case using 0 by (subst write_loop.simps) auto
next
  case (Suc k)
  have g: "unat mark < length d0" "n < len" using Suc.prems(1,2) by linarith+
  have l0: "length d0 < 2 ^ 31" using assms Suc.prems(1) by simp
  note mk = mark_less [OF l0] mark_next [OF l0 g(1)]
  obtain b cs where bs: "bs = b # cs" "length cs = k" using Suc.prems(4) by (cases bs) auto
  have b: "m p = Some b" using Suc.prems(3) bs by (auto dest: spec [of _ 0])
  have tl: "\<forall>i < k. m (p + 1 + of_nat i) = Some (cs ! i)" using Suc.prems(3) bs by (auto simp: add.assoc dest: spec [of _ "Suc _"])
  obtain d1 where d1: "set_bytes (unat mark) [b] d0 = Some d1" "length d1 = length d0"
    "\<And>j. get_byte d1 j = (if j = unat mark then Some b else get_byte d0 j)" using set_byte [OF g(1)] by blast
  have k: "k = min (nat (len - (n + 1))) (length d - unat (mark + 1))" using Suc.prems(2) g mk(2) by linarith
  have "length d1 = length d" using d1(2) Suc.prems(1) by simp
  from Suc.IH [OF this k tl bs(2)] obtain d' where d': "write_loop d1 (mark + 1) (p + 1) (n + 1) len m = Some (d', mark + 1 + of_nat k, n + 1 + int k)"
    "length d' = length d" "\<forall>j. get_byte d' j = (if unat (mark + 1) \<le> j \<and> j < unat (mark + 1) + k then Some (cs ! (j - unat (mark + 1))) else get_byte d1 j)" by blast
  have "write_loop d0 mark p n len m = Some (d', mark + of_nat (Suc k), n + int (Suc k))"
    using g b d1(1) d'(1) mk(1) by (subst write_loop.simps) (simp add: read_byte_def algebra_simps)
  moreover have "get_byte d' j = (if unat mark \<le> j \<and> j < unat mark + Suc k then Some (bs ! (j - unat mark)) else get_byte d0 j)" for j
    using d'(3) d1(3) mk(2) bs(1) by (cases "j = unat mark") (auto simp: nth_Cons' Suc_diff_le)
  ultimately show ?case using d'(2) by blast
qed

lemma region_Suc: "in_region p (Suc k) x \<longleftrightarrow> x = p \<or> in_region (p + 1) k x \<and> x \<noteq> p"
proof (cases "x = p")
  case True
  then show ?thesis by (simp add: in_region_def)
next
  case False
  then have "unat (x - (p + 1)) = unat (x - p) - 1" "0 < unat (x - p)" using unat_minus_one [of "x - p"] by (simp_all add: algebra_simps unat_gt_0)
  then show ?thesis using False by (auto simp: in_region_def)
qed

lemma region_Suc_self: "Suc k \<le> 2 ^ 32 \<Longrightarrow> \<not> in_region (p + 1) k p"
  by (simp add: in_region_def unsigned_minus_1_eq_mask mask_eq_exp_minus_1)

lemma read_loop_ok:
  assumes l: "length d < 2 ^ 31"
  shows "k = min (nat (len - n)) (length d - unat mark) \<Longrightarrow> linear p k \<Longrightarrow> mapped m p k \<Longrightarrow>
    \<exists>m'. read_loop d mark p n len m = Some (mark + of_nat k, n + int k, m') \<and>
      (\<forall>i < k. m' (p + of_nat i) = Some (d ! (unat mark + i))) \<and> (\<forall>x. \<not> in_region p k x \<longrightarrow> m' x = m x)"
proof (induction k arbitrary: mark p n m)
  case 0
  then have "\<not> (mark < of_nat (length d) \<and> n < len)" using l by (auto simp: mark_less)
  then show ?case by (subst read_loop.simps) auto
next
  case (Suc k)
  have g: "unat mark < length d" "n < len" using Suc.prems(1) by linarith+
  note mk = mark_less [OF l] mark_next [OF l g(1)]
  have k: "k = min (nat (len - (n + 1))) (length d - unat (mark + 1))" using Suc.prems(1) g mk(2) by linarith
  have p: "m p \<noteq> None" using Suc.prems(3) by (auto simp: mapped_def dest: spec [of _ 0])
  let ?m = "m(p \<mapsto> d ! unat mark)"
  have mp: "mapped ?m (p + 1) k" using Suc.prems(3) by (auto simp: mapped_def add.assoc dest: spec [of _ "Suc _"])
  have lin: "linear (p + 1) k"
    using linear_Suc(1) [OF Suc.prems(2)] unsigned_less [of "p + 1", where ?'a = nat] by (cases "k = 0") (auto simp: linear_def)
  from Suc.IH [OF k lin mp] obtain m' where m': "read_loop d (mark + 1) (p + 1) (n + 1) len ?m = Some (mark + 1 + of_nat k, n + 1 + int k, m')"
    "\<forall>i < k. m' (p + 1 + of_nat i) = Some (d ! (unat (mark + 1) + i))" "\<forall>x. \<not> in_region (p + 1) k x \<longrightarrow> m' x = ?m x" by blast
  note reg = region_Suc [where k = k and p = p] region_Suc_self [OF linear_le [OF Suc.prems(2)]]
  have "read_loop d mark p n len m = Some (mark + of_nat (Suc k), n + int (Suc k), m')"
    using g p m'(1) mk(1) by (subst read_loop.simps) (simp add: get_byte_def write_byte_def algebra_simps)
  moreover have "m' (p + of_nat i) = Some (d ! (unat mark + i))" if "i < Suc k" for i
  proof (cases i)
    case 0
    then show ?thesis using m'(3) reg(2) by simp
  next
    case (Suc j)
    then show ?thesis using m'(2) that mk(2) by (simp add: add.assoc)
  qed
  moreover have "m' x = m x" if "\<not> in_region p (Suc k) x" for x using that reg(1) m'(3) by auto
  ultimately show ?case by blast
qed

text \<open>
  C24: the package's \<open>write\<close> and \<open>read\<close>. A write of \<open>len\<close> bytes at the mark stores as many as fit, pushes that
  number, and changes no other byte of the contents; a read from the same mark then gives these bytes
  back, to any memory, and pushes the same number.
\<close>

theorem nvram_write_read:
  assumes "length d < 2 ^ 31" and "ds_ok s" and "ds s = len # p # xs" and "k = min (nat (sint len)) (length d - unat (mark_lo nd))"
    and "mapped (mem s) p k"
  shows "\<exists>d' s'. nvram_write d nd s = Some (d', nd\<lparr>mark_lo := mark_lo nd + of_nat k\<rparr>, s') \<and> ds s' = of_nat k # xs \<and> mem s' = mem s \<and>
    length d' = length d \<and> (\<forall>j. j < unat (mark_lo nd) \<or> unat (mark_lo nd) + k \<le> j \<longrightarrow> get_byte d' j = get_byte d j) \<and>
    (\<forall>t q ys. ds_ok t \<and> ds t = len # q # ys \<and> linear q k \<and> mapped (mem t) q k \<longrightarrow>
       (\<exists>t'. nvram_read d' nd t = Some (nd\<lparr>mark_lo := mark_lo nd + of_nat k\<rparr>, t') \<and> ds t' = of_nat k # ys \<and>
          (\<forall>i < k. mem t' (q + of_nat i) = mem s (p + of_nat i)) \<and> (\<forall>x. \<not> in_region q k x \<longrightarrow> mem t' x = mem t x)))"
proof -
  let ?mk = "mark_lo nd"
  define bs where "bs = map (\<lambda>i. the (mem s (p + of_nat i))) [0..<k]"
  have bs: "\<forall>i < k. mem s (p + of_nat i) = Some (bs ! i)" "length bs = k" using assms(5) by (auto simp: bs_def mapped_def)
  have k: "k = min (nat (sint len - 0)) (length d - unat ?mk)" using assms(4) by simp
  from pop2 [OF assms(2,3)] obtain s1 s2 where s2: "POP s = Some (len, s1)" "POP s1 = Some (p, s2)" "ds_ok s2" "ds s2 = xs" "mem s2 = mem s" .
  from write_loop_ok [OF assms(1) refl k bs] obtain d' where d': "write_loop d ?mk p 0 (sint len) (mem s) = Some (d', ?mk + of_nat k, int k)"
    "length d' = length d" "\<And>j. get_byte d' j = (if unat ?mk \<le> j \<and> j < unat ?mk + k then Some (bs ! (j - unat ?mk)) else get_byte d j)" by auto
  from dstk.push_room [OF s2(3) room [OF s2(3,4) assms(2,3)], of "of_nat k"] obtain s3 where
    s3: "PUSH (of_nat k) s2 = Some s3" "ds s3 = of_nat k # xs" using s2(4) by auto
  have w: "nvram_write d nd s = Some (d', nd\<lparr>mark_lo := ?mk + of_nat k\<rparr>, s3)" "mem s3 = mem s"
    using s2 d'(1) s3(1) POP_PUSH_mem(2) [OF s3(1)] by (simp_all add: nvram_write_def)
  have rd: "\<exists>t'. nvram_read d' nd t = Some (nd\<lparr>mark_lo := ?mk + of_nat k\<rparr>, t') \<and> ds t' = of_nat k # ys \<and>
      (\<forall>i < k. mem t' (q + of_nat i) = mem s (p + of_nat i)) \<and> (\<forall>x. \<not> in_region q k x \<longrightarrow> mem t' x = mem t x)"
    if t: "ds_ok t" "ds t = len # q # ys" "linear q k" "mapped (mem t) q k" for t q ys
  proof -
    from pop2 [OF t(1,2)] obtain t1 t2 where t2: "POP t = Some (len, t1)" "POP t1 = Some (q, t2)" "ds_ok t2" "ds t2 = ys" "mem t2 = mem t" .
    have "length d' < 2 ^ 31" "k = min (nat (sint len - 0)) (length d' - unat ?mk)" using assms(1) k d'(2) by simp_all
    from read_loop_ok [OF this t(3,4)] obtain m' where m': "read_loop d' ?mk q 0 (sint len) (mem t) = Some (?mk + of_nat k, int k, m')"
      "\<And>i. i < k \<Longrightarrow> m' (q + of_nat i) = Some (d' ! (unat ?mk + i))" "\<And>x. \<not> in_region q k x \<Longrightarrow> m' x = mem t x" by auto
    have t3: "ds_ok (t2\<lparr>mem := m'\<rparr>)" "ds (t2\<lparr>mem := m'\<rparr>) = ys" using t2(3,4) by (simp_all add: ds_ok_def ds_def)
    from dstk.push_room [OF t3(1) room [OF t3 t(1,2)], of "of_nat k"] obtain t4 where
      t4: "PUSH (of_nat k) (t2\<lparr>mem := m'\<rparr>) = Some t4" "ds t4 = of_nat k # ys" using t3(2) by auto
    have "d' ! (unat ?mk + i) = bs ! i" if "i < k" for i
      using d'(3) [of "unat ?mk + i"] that k d'(2) by (auto simp: get_byte_def split: if_splits)
    then have "m' (q + of_nat i) = mem s (p + of_nat i)" if "i < k" for i using m'(2) [OF that] bs(1) that by simp
    moreover have "nvram_read d' nd t = Some (nd\<lparr>mark_lo := ?mk + of_nat k\<rparr>, t4)" "mem t4 = m'"
      using t2 m'(1) t4(1) POP_PUSH_mem(2) [OF t4(1)] by (simp_all add: nvram_read_def)
    ultimately show ?thesis using t4(2) m'(3) by auto
  qed
  show ?thesis using w s3(2) d'(2,3) rd by (intro exI [of _ d'] exI [of _ s3]) auto
qed

theorem nvram_write_read_witness:
  "\<exists>d' s'. nvram_write (replicate 32 0) \<lparr>mark_hi = 0, mark_lo = 30\<rparr>
       ((init_fstate (\<lambda>_. Some 7) ())\<lparr>dstackcnt := 2, dstack := (\<lambda>i. if i = 2 then 4 else 0x1000)\<rparr>) =
     Some (d', \<lparr>mark_hi = 0, mark_lo = 32\<rparr>, s') \<and> ds s' = [2] \<and>
     (\<exists>t'. nvram_read d' \<lparr>mark_hi = 0, mark_lo = 30\<rparr>
        ((init_fstate (\<lambda>_. Some 0) ())\<lparr>dstackcnt := 2, dstack := (\<lambda>i. if i = 2 then 4 else 0x2000)\<rparr>) =
      Some (\<lparr>mark_hi = 0, mark_lo = 32\<rparr>, t') \<and> ds t' = [2] \<and> mem t' 0x2001 = Some 7)"
proof -
  let ?nd = "\<lparr>mark_hi = 0, mark_lo = 30\<rparr>" let ?d = "replicate 32 0 :: u8 list"
  let ?s = "(init_fstate (\<lambda>_. Some 7) ())\<lparr>dstackcnt := 2, dstack := (\<lambda>i. if i = 2 then 4 else 0x1000)\<rparr>"
  let ?t = "(init_fstate (\<lambda>_. Some 0) ())\<lparr>dstackcnt := 2, dstack := (\<lambda>i. if i = 2 then 4 else 0x2000)\<rparr>"
  have h: "length ?d < 2 ^ 31" "ds_ok ?s" "ds ?s = [4, 0x1000]" "(2 :: nat) = min (nat (sint (4 :: cell))) (length ?d - unat (mark_lo ?nd))"
    "mapped (mem ?s) 0x1000 2" by (simp_all add: ds_ok_def ds_def init_fstate_def items_pred mapped_def)
  have t: "ds_ok ?t" "ds ?t = [4, 0x2000]" "linear 0x2000 2" "mapped (mem ?t) 0x2000 2"
    by (simp_all add: ds_ok_def ds_def init_fstate_def items_pred mapped_def linear_def)
  from nvram_write_read [OF h] obtain d' s' where
    w: "nvram_write ?d ?nd ?s = Some (d', ?nd\<lparr>mark_lo := mark_lo ?nd + of_nat 2\<rparr>, s')" "ds s' = [of_nat 2]"
    and r: "\<forall>(t :: unit fstate) q ys. ds_ok t \<and> ds t = 4 # q # ys \<and> linear q 2 \<and> mapped (mem t) q 2 \<longrightarrow>
       (\<exists>t'. nvram_read d' ?nd t = Some (?nd\<lparr>mark_lo := mark_lo ?nd + of_nat 2\<rparr>, t') \<and> ds t' = of_nat 2 # ys \<and>
          (\<forall>i < 2. mem t' (q + of_nat i) = mem ?s (0x1000 + of_nat i)) \<and> (\<forall>x. \<not> in_region q 2 x \<longrightarrow> mem t' x = mem t x))" by blast
  from r [rule_format, of ?t "0x2000" "[]"] t obtain t' where
    t': "nvram_read d' ?nd ?t = Some (?nd\<lparr>mark_lo := mark_lo ?nd + of_nat 2\<rparr>, t')" "ds t' = [of_nat 2]"
      "\<forall>i < 2. mem t' (0x2000 + of_nat i) = mem ?s (0x1000 + of_nat i)" by blast
  have "mem t' 0x2001 = Some 7" using t'(3) [rule_format, of 1] by (simp add: init_fstate_def)
  then show ?thesis using w t'(1,2) by simp
qed

end
