(* ===== verification/Ipchecksum.thy ===== *)
theory Ipchecksum
  imports Libc_String
begin

text \<open>
  \<open>libopenbios/ipchecksum.c\<close>: the internet checksum of a block of bytes and the composition of the
  checksums of two consecutive blocks. The bytes are read through a \<open>reader\<close>; \<open>unsigned long\<close> has 32
  bits, and the union of two bytes and a \<open>short\<close> is read as the big-endian target reads it. The theorems:
  the result is the one's complement of the one's complement sum of the big-endian 16-bit words
  (the reference definition \<open>ones_sum\<close>), and \<open>add_ipchksums\<close> computes the checksum of a
  concatenation.
\<close>

fun ipchksum_loop :: "reader \<Rightarrow> nat \<Rightarrow> nat \<Rightarrow> u32 \<Rightarrow> u32 option" where
  "ipchksum_loop ptr i 0 acc = Some acc"
| "ipchksum_loop ptr i (Suc n) acc =
     do { b \<leftarrow> ptr i;
          let val = (if odd i then push_bit 8 (ucast b) else ucast b);
          let acc = acc + val;
          ipchksum_loop ptr (Suc i) n (if 0xFFFF < acc then (acc + drop_bit 16 acc) AND 0xFFFF else acc) }"

definition ipchksum :: "reader \<Rightarrow> u32 \<Rightarrow> u16 option" where
  "ipchksum ptr len =
     do { acc \<leftarrow> ipchksum_loop ptr 0 (unat len) 0;
          let byte0 = (ucast acc :: u8);
          let byte1 = (ucast (drop_bit 8 acc) :: u8);
          Some (NOT (cat16 byte0 byte1)) }"

definition add_ipchksums :: "u32 \<Rightarrow> u16 \<Rightarrow> u16 \<Rightarrow> u16" where
  "add_ipchksums offset acc new =
     (let acc = NOT acc AND 0xFFFF;
          new = NOT new AND 0xFFFF;
          new = (if offset AND 1 \<noteq> 0 then push_bit 8 new OR drop_bit 8 new else new);
          checksum = (ucast acc + ucast new :: u32);
          checksum = (if 0xFFFF < checksum then checksum - 0xFFFF else checksum)
      in ucast (NOT checksum AND 0xFFFF))"

subsection \<open>One's complement arithmetic\<close>

text \<open>The 16-bit one's complement representative of a sum: 0 only for 0, otherwise in 1 to 65535.\<close>

definition oc :: "nat \<Rightarrow> nat" where
  "oc n = (if n = 0 then 0 else if n mod 65535 = 0 then 65535 else n mod 65535)"

fun be_words :: "u8 list \<Rightarrow> u16 list" where
  "be_words [] = []"
| "be_words [h] = [cat16 h 0]"
| "be_words (h # l # bs) = cat16 h l # be_words bs"

definition ones_sum :: "u16 list \<Rightarrow> nat" where
  "ones_sum ws = oc (sum_list (map unat ws))"

lemma oc_le: "oc n \<le> 65535"
proof -
  have "n mod 65535 < 65535" by simp
  then show ?thesis by (simp add: oc_def del: mod_less_divisor)
qed

lemma oc_small: "n \<le> 65535 \<Longrightarrow> oc n = n"
  by (cases "n = 65535") (auto simp: oc_def)

lemma oc_iff: "oc a = oc b \<longleftrightarrow> (a = 0 \<longleftrightarrow> b = 0) \<and> a mod 65535 = b mod 65535"
proof -
  have "a mod 65535 < 65535" and "b mod 65535 < 65535" by simp_all
  then have "a mod 65535 \<noteq> 65535" and "b mod 65535 \<noteq> 65535" by linarith+
  then show ?thesis by (auto simp: oc_def)
qed

lemma oc_mod: "oc n mod 65535 = n mod 65535" and oc_eq_0: "oc n = 0 \<longleftrightarrow> n = 0"
proof -
  have "oc (oc n) = oc n" by (rule oc_small [OF oc_le])
  then show "oc n mod 65535 = n mod 65535" by (simp add: oc_iff)
  show "oc n = 0 \<longleftrightarrow> n = 0" by (simp add: oc_def)
qed

lemma oc_add: "oc (oc a + b) = oc (a + b)" "oc (a + oc b) = oc (a + b)"
  using mod_add_cong [OF oc_mod [of a] refl, of b] mod_add_cong [OF refl oc_mod [of b], of a]
  by (auto simp only: oc_iff oc_eq_0 add_is_0)

lemma oc_times: "oc (k * oc a) = oc (k * a)"
  using mod_mult_cong [OF refl oc_mod [of a], of k] by (simp only: oc_iff oc_eq_0 mult_is_0)

lemma oc_wrap: "n \<le> 131070 \<Longrightarrow> oc n = (if 65535 < n then n - 65535 else n)"
proof -
  assume n: "n \<le> 131070"
  show ?thesis
  proof (cases "65535 < n")
    case True
    then have "oc n = oc (n - 65535)" using n by (auto simp: oc_iff le_mod_geq)
    with True n show ?thesis by (simp add: oc_small)
  qed (simp add: oc_small)
qed

lemma oc_swap: "oc (256 * (n mod 256) + n div 256) = oc (256 * n)"
proof -
  define q m where "q = n div 256" and "m = n mod 256"
  have n: "n = 256 * q + m" by (simp add: q_def m_def)
  have "256 * n = 256 * m + q + q * 65535" by (simp add: n)
  then have "(256 * m + q) mod 65535 = 256 * n mod 65535" by (simp only: mod_mult_self1)
  moreover have "256 * m + q = 0 \<longleftrightarrow> 256 * n = 0" by (auto simp: n)
  ultimately show ?thesis by (simp only: oc_iff q_def m_def)
qed

lemma and_FFFF: "(x :: 32 word) AND 0xFFFF = take_bit 16 x"
  by (simp add: take_bit_eq_mask mask_eq_exp_minus_1)

lemma fold_carry:
  fixes acc v :: u32
  assumes "unat acc \<le> 65535" and "unat v \<le> 0xFF00"
  shows "unat (if 0xFFFF < acc + v then (acc + v + drop_bit 16 (acc + v)) AND 0xFFFF else acc + v)
           = oc (unat acc + unat v)"
proof -
  let ?t = "acc + v"
  have t: "unat ?t = unat acc + unat v" using assms by (intro unat_add_no_wrap) simp
  have lt: "unat ?t < 131071" using assms t by simp
  have gt: "0xFFFF < ?t \<longleftrightarrow> 65535 < unat ?t" by (simp add: word_less_nat_alt)
  show ?thesis
  proof (cases "65535 < unat ?t")
    case True
    have d: "unat (drop_bit 16 ?t) = 1"
      unfolding unat_drop_bit_eq drop_bit_eq_div [of 16 "unat ?t"] by (rule div_nat_eqI) (use True lt in simp_all)
    then have "unat (?t + drop_bit 16 ?t) = unat ?t + 1"
      using lt by (subst unat_add_no_wrap) simp_all
    then have "unat (take_bit 16 (?t + drop_bit 16 ?t)) = (unat ?t + 1) mod 65536"
      by (simp only: unsigned_take_bit_eq) (simp add: take_bit_eq_mod)
    also have "\<dots> = unat ?t + 1 - 65536" using True lt by (simp add: le_mod_geq)
    finally show ?thesis using True t gt lt assms by (simp add: and_FFFF oc_wrap)
  next
    case False
    then show ?thesis using gt t by (simp add: oc_small)
  qed
qed

subsection \<open>The sum of a block\<close>

text \<open>The weight of the byte at position \<open>i\<close>, and the sum of a block that starts there.\<close>

fun weighted :: "nat \<Rightarrow> u8 list \<Rightarrow> nat" where
  "weighted i [] = 0"
| "weighted i (b # bs) = (if odd i then 256 else 1) * unat b + weighted (Suc i) bs"

lemma ipchksum_loop_sum:
  assumes "unat acc \<le> 65535" and "\<And>j. j < length bs \<Longrightarrow> ptr (i + j) = Some (bs ! j)"
  shows "\<exists>r. ipchksum_loop ptr i (length bs) acc = Some r \<and> unat r = oc (unat acc + weighted i bs)"
  using assms
proof (induction bs arbitrary: i acc)
  case Nil
  then show ?case by (simp add: oc_small)
next
  case (Cons b bs)
  define v :: u32 where "v = (if odd i then push_bit 8 (ucast b) else ucast b)"
  have ub: "unat b < 256" using unsigned_less [of b] by simp
  have v: "unat v = (if odd i then 256 else 1) * unat b"
    using ub by (auto simp: v_def unsigned_ucast_eq take_bit_nat_eq_self push_bit_eq_mult unat_word_ariths)
  have vle: "unat v \<le> 0xFF00" using v ub by (cases "odd i") auto
  define acc' where "acc' = (if 0xFFFF < acc + v then (acc + v + drop_bit 16 (acc + v)) AND 0xFFFF else acc + v)"
  have a': "unat acc' = oc (unat acc + unat v)"
    unfolding acc'_def by (rule fold_carry [OF Cons.prems(1) vle])
  have b0: "ptr i = Some b" using Cons.prems(2) [of 0] by simp
  have rest: "ptr (Suc i + j) = Some (bs ! j)" if "j < length bs" for j
    using Cons.prems(2) [of "Suc j"] that by simp
  from Cons.IH [of acc' "Suc i"] rest a' oc_le obtain r where
    r: "ipchksum_loop ptr (Suc i) (length bs) acc' = Some r" "unat r = oc (unat acc' + weighted (Suc i) bs)"
    by auto
  have "ipchksum_loop ptr i (length (b # bs)) acc = ipchksum_loop ptr (Suc i) (length bs) acc'"
    by (simp add: b0 Let_def v_def acc'_def)
  with r show ?case by (simp add: a' oc_add v add.assoc)
qed

lemma weighted_shift: "oc (256 * weighted i bs) = oc (weighted (Suc i) bs)"
proof (induction bs arbitrary: i)
  case Nil
  then show ?case by simp
next
  case (Cons b bs)
  have sw: "oc (256 * ((if odd i then 256 else 1) * unat b)) = oc ((if odd (Suc i) then 256 else 1) * unat b)"
  proof (cases "odd i")
    case True
    have "256 * (256 * unat b) = unat b + unat b * 65535" by simp
    then have "256 * (256 * unat b) mod 65535 = unat b mod 65535" by (simp only: mod_mult_self1)
    with True show ?thesis by (simp add: oc_iff)
  qed simp
  have "oc (256 * weighted i (b # bs)) = oc (oc (256 * ((if odd i then 256 else 1) * unat b)) + oc (256 * weighted (Suc i) bs))"
    by (simp only: oc_add weighted.simps distrib_left)
  also have "\<dots> = oc (weighted (Suc i) (b # bs))"
    by (simp only: sw Cons.IH oc_add weighted.simps)
  finally show ?case .
qed

lemma weighted_parity: "even i = even j \<Longrightarrow> weighted i bs = weighted j bs"
proof (induction bs arbitrary: i j)
  case (Cons b bs)
  from Cons.prems have "even (Suc i) = even (Suc j)" by simp
  then have "weighted (Suc i) bs = weighted (Suc j) bs" by (rule Cons.IH)
  with Cons.prems show ?case by simp
qed simp

lemma weighted_append: "weighted i (xs @ ys) = weighted i xs + weighted (i + length xs) ys"
  by (induction xs arbitrary: i) (simp_all)

lemma unat_cat16: "unat (cat16 h l) = 256 * unat h + unat l"
proof -
  have h: "unat h < 256" and l: "unat l < 256" using unsigned_less [of h] unsigned_less [of l] by simp_all
  have "cat16 h l = push_bit 8 (ucast h) + ucast l"
    unfolding cat16_def
    by (rule disjunctive_add_eq_or [symmetric]) (rule bit_word_eqI, auto simp: bit_simps dest: bit_imp_le_length)
  then show ?thesis using h l
    by (simp add: unat_word_ariths push_bit_eq_mult unsigned_ucast_eq take_bit_nat_eq_self)
qed

lemma weighted_be_words: "sum_list (map unat (be_words bs)) = weighted 1 bs"
proof (induction bs rule: be_words.induct)
  case (3 h l bs)
  have "weighted (Suc (Suc (Suc 0))) bs = weighted 1 bs" by (rule weighted_parity) simp
  with 3 show ?case by (simp add: unat_cat16)
qed (simp_all add: unat_cat16)

lemma weighted_0: "oc (256 * weighted 0 bs) = ones_sum (be_words bs)"
  by (simp add: ones_sum_def weighted_be_words weighted_shift)

lemma ipchksum_eq:
  assumes "length bs < 2 ^ 32" and "\<And>j. j < length bs \<Longrightarrow> ptr j = Some (bs ! j)"
  shows "ipchksum ptr (of_nat (length bs)) = Some (NOT (of_nat (ones_sum (be_words bs))))"
proof -
  have n: "unat (of_nat (length bs) :: u32) = length bs" using assms(1) by (simp add: unat_of_nat_small)
  obtain r where r: "ipchksum_loop ptr 0 (length bs) 0 = Some r" "unat r = oc (weighted 0 bs)"
    using ipchksum_loop_sum [of 0 bs ptr 0] assms(2) by auto
  let ?l = "ucast r :: u8" and ?h = "ucast (drop_bit 8 r) :: u8"
  have l: "unat ?l = unat r mod 256" by (simp add: unsigned_ucast_eq take_bit_eq_mod)
  have "unat (drop_bit 8 r) = unat r div 256"
    unfolding unat_drop_bit_eq drop_bit_eq_div [of 8 "unat r"] by simp
  moreover have "unat r div 256 < 256" using oc_le [of "weighted 0 bs"] by (simp add: r(2) less_mult_imp_div_less)
  ultimately have h: "unat ?h = unat r div 256" by (simp add: unsigned_ucast_eq take_bit_nat_eq_self)
  have "unat (cat16 ?l ?h) = oc (unat (cat16 ?l ?h))"
  proof -
    have "unat (cat16 ?l ?h) < 2 ^ LENGTH(16)" by (rule unsigned_less)
    then show ?thesis by (simp add: oc_small)
  qed
  also have "\<dots> = oc (256 * (unat r mod 256) + unat r div 256)" by (simp add: unat_cat16 l h)
  also have "\<dots> = oc (256 * unat r)" by (rule oc_swap)
  also have "\<dots> = ones_sum (be_words bs)" by (simp add: r(2) oc_times weighted_0)
  finally have "cat16 ?l ?h = of_nat (ones_sum (be_words bs))" by (rule eq_of_nat)
  then show ?thesis by (simp add: ipchksum_def n r(1) Let_def)
qed

lemma AND_FFFF: "(x :: u16) AND 0xFFFF = x"
proof -
  have "(0xFFFF :: u16) = - 1" by simp
  then show ?thesis by (simp only: and.right_neutral)
qed

lemma swap16: "unat (push_bit 8 x OR drop_bit 8 (x :: u16)) = oc (256 * unat x)"
proof -
  have x: "unat x < 65536" using unsigned_less [of x, where 'a = nat] by simp
  have "push_bit 8 x OR drop_bit 8 x = push_bit 8 x + drop_bit 8 x"
    by (rule disjunctive_add_eq_or [symmetric]) (rule bit_word_eqI, auto simp: bit_simps dest: bit_imp_le_length)
  moreover have "unat (push_bit 8 x) = 256 * (unat x mod 256)"
    using mult_mod_right [of 256 "unat x" 256] by (simp add: push_bit_eq_mult unat_word_ariths mult.commute)
  moreover have "unat (drop_bit 8 x) = unat x div 256"
    unfolding unat_drop_bit_eq drop_bit_eq_div [of 8 "unat x"] by simp
  ultimately have "unat (push_bit 8 x OR drop_bit 8 x) = 256 * (unat x mod 256) + unat x div 256"
    using x by (simp add: unat_word_ariths)
  also have "\<dots> = oc (256 * (unat x mod 256) + unat x div 256)"
  proof -
    have "unat x div 256 < 256" using x by (simp add: less_mult_imp_div_less)
    moreover have "unat x mod 256 < 256" by simp
    ultimately have "256 * (unat x mod 256) + unat x div 256 \<le> 65535" by linarith
    then show ?thesis by (simp only: oc_small)
  qed
  finally show ?thesis by (simp only: oc_swap)
qed

lemma NOT_low: 
  assumes "n \<le> 65535"
  shows "ucast (NOT (of_nat n :: u32) AND 0xFFFF) = (NOT (of_nat n) :: u16)"
proof -
  have "ucast (of_nat n :: u32) = (of_nat n :: u16)" using assms by (simp add: unsigned_of_nat take_bit_nat_eq_self)
  then show ?thesis unfolding and_FFFF
    by (intro bit_word_eqI) (auto simp: bit_simps bit_eq_iff)
qed

lemma add_ipchksums_ones:
  assumes "a \<le> 65535" and "b \<le> 65535"
  shows "add_ipchksums offset (NOT (of_nat a)) (NOT (of_nat b)) =
           NOT (of_nat (oc (a + (if odd (unat offset) then 256 else 1) * b)))"
proof -
  define new :: u16 where "new = (if offset AND 1 \<noteq> 0 then push_bit 8 (of_nat b) OR drop_bit 8 (of_nat b) else of_nat b)"
  define c :: u32 where "c = ucast (of_nat a :: u16) + ucast new"
  define c' where "c' = (if 0xFFFF < c then c - 0xFFFF else c)"
  have ua: "unat (of_nat a :: u16) = a" and ub: "unat (of_nat b :: u16) = b"
    using assms by (simp_all add: unat_of_nat_small)
  have odd: "offset AND 1 \<noteq> 0 \<longleftrightarrow> odd (unat offset)"
    by (simp add: and_one_eq even_iff_mod_2_eq_zero [symmetric] mod2_eq_if) (transfer, simp add: even_nat_iff)
  have n: "unat new = oc ((if odd (unat offset) then 256 else 1) * b)"
    using assms by (simp add: new_def odd swap16 ub oc_small)
  have c: "unat c = a + unat new"
    unfolding c_def using unsigned_less [of new, where 'a = nat] assms
    by (subst unat_add_no_wrap) (simp_all add: unsigned_ucast_eq ua take_bit_nat_eq_self)
  have le: "unat c \<le> 131070"
    using c n oc_le [of "(if odd (unat offset) then 256 else 1) * b"] assms(1) by linarith
  have "unat c' = oc (unat c)"
    using le by (simp add: c'_def oc_wrap word_less_nat_alt unat_sub word_le_nat_alt)
  then have "unat c' = oc (a + (if odd (unat offset) then 256 else 1) * b)"
    by (simp only: c n oc_add)
  then have "c' = of_nat (oc (a + (if odd (unat offset) then 256 else 1) * b))"
    by (rule eq_of_nat)
  moreover have "add_ipchksums offset (NOT (of_nat a)) (NOT (of_nat b)) = ucast (NOT c' AND 0xFFFF)"
    by (simp only: add_ipchksums_def Let_def AND_FFFF bit.double_compl new_def c_def c'_def)
  ultimately show ?thesis by (simp only: NOT_low oc_le)
qed

lemma ones_sum_append:
  "oc (ones_sum (be_words xs) + (if odd (length xs) then 256 else 1) * ones_sum (be_words ys))
     = ones_sum (be_words (xs @ ys))"
proof -
  let ?k = "if odd (length xs) then 256 else 1 :: nat"
  have "oc (?k * weighted 1 ys) = oc (weighted (1 + length xs) ys)"
  proof (cases "odd (length xs)")
    case True
    have "weighted (Suc 1) ys = weighted (1 + length xs) ys" by (rule weighted_parity) (use True in simp)
    with True show ?thesis using weighted_shift [of 1 ys] by simp
  next
    case False
    have "weighted 1 ys = weighted (1 + length xs) ys" by (rule weighted_parity) (use False in simp)
    with False show ?thesis by simp
  qed
  then have "oc (weighted 1 xs + ?k * weighted 1 ys) = oc (weighted 1 xs + weighted (1 + length xs) ys)"
    by (metis oc_add(2))
  then show ?thesis
    by (metis (no_types, lifting) oc_add oc_times ones_sum_def weighted_append weighted_be_words)
qed

subsection \<open>Properties\<close>

text \<open>
  C31: \<open>ipchksum\<close> returns for every block it may read, and the result is the internet checksum of RFC 1071: the one's complement of the
  one's complement sum of the block's big-endian 16-bit words, the last one padded with a zero byte
  when the length is odd.
\<close>

theorem ipchksum_correct:
  assumes "length bs < 2 ^ 32" and "\<forall>j < length bs. ptr j = Some (bs ! j)"
  shows "ipchksum ptr (of_nat (length bs)) = Some (NOT (of_nat (ones_sum (be_words bs))))"
  using assms by (intro ipchksum_eq) auto

theorem ipchksum_correct_witness:
  "ipchksum (lit_str [0x45, 0, 0, 0x73, 0xff]) 5 = Some (NOT (of_nat (ones_sum [0x4500, 0x73, 0xff00])))
   \<and> ones_sum [0x4500, 0x73, 0xff00] = 0x4474"
  using ipchksum_correct [of "[0x45, 0, 0, 0x73, 0xff]" "lit_str [0x45, 0, 0, 0x73, 0xff]"]
  by (simp add: lit_str_def nth_append All_less_Suc ones_sum_def oc_def cat16_def)

text \<open>
  C32: The checksum of two consecutive blocks is \<open>add_ipchksums\<close> of their checksums at the offset of the second,
  for even and odd offsets and with every carry.
\<close>

theorem add_ipchksums_append:
  assumes "length (xs @ ys) < 2 ^ 32"
    and "\<forall>j < length (xs @ ys). ptr j = Some ((xs @ ys) ! j)"
  shows "\<exists>cx cy. ipchksum ptr (of_nat (length xs)) = Some cx
           \<and> ipchksum (\<lambda>j. ptr (length xs + j)) (of_nat (length ys)) = Some cy
           \<and> ipchksum ptr (of_nat (length (xs @ ys))) = Some (add_ipchksums (of_nat (length xs)) cx cy)"
proof -
  have x: "ipchksum ptr (of_nat (length xs)) = Some (NOT (of_nat (ones_sum (be_words xs))))"
    using assms by (intro ipchksum_eq) (auto simp: nth_append)
  have y: "ipchksum (\<lambda>j. ptr (length xs + j)) (of_nat (length ys)) = Some (NOT (of_nat (ones_sum (be_words ys))))"
    using assms by (intro ipchksum_eq) (auto simp: nth_append)
  have xy: "ipchksum ptr (of_nat (length (xs @ ys))) = Some (NOT (of_nat (ones_sum (be_words (xs @ ys)))))"
    using assms by (intro ipchksum_eq) auto
  have n: "unat (of_nat (length xs) :: u32) = length xs" using assms(1) by (simp add: unat_of_nat_small)
  have "add_ipchksums (of_nat (length xs)) (NOT (of_nat (ones_sum (be_words xs)))) (NOT (of_nat (ones_sum (be_words ys))))
          = NOT (of_nat (ones_sum (be_words (xs @ ys))))"
    by (subst add_ipchksums_ones) (simp_all only: ones_sum_def oc_le n ones_sum_append [unfolded ones_sum_def])
  with x y xy show ?thesis by simp
qed

theorem add_ipchksums_append_witness:
  "\<exists>cx cy. ipchksum (lit_str [1, 2, 0xff, 4]) 3 = Some cx
     \<and> ipchksum (\<lambda>j. lit_str [1, 2, 0xff, 4] (length [1, 2, 0xff :: u8] + j)) 1 = Some cy
     \<and> ipchksum (lit_str [1, 2, 0xff, 4]) 4 = Some (add_ipchksums 3 cx cy)"
proof -
  have "\<forall>j < length ([1, 2, 0xff] @ [4 :: u8]). lit_str [1, 2, 0xff, 4] j = Some (([1, 2, 0xff] @ [4]) ! j)"
    by (simp add: lit_str_def All_less_Suc)
  from add_ipchksums_append [OF _ this] show ?thesis by simp
qed

end
