(* ===== verification/Bindings.thy ===== *)
theory Bindings
  imports Forth_Interp Dict Libc_Misc
begin

text \<open>
  \<open>libopenbios/bindings.c\<close>: how C code calls Forth. \<open>fword_raw\<close>, \<open>eword_raw\<close>, \<open>selfword_raw\<close> and
  \<open>parword_raw\<close> are the functions \<open>_fword\<close>, \<open>_eword\<close>, \<open>_selfword\<close>, \<open>_parword\<close> on the engine of
  \<open>Forth_Interp\<close>, with the call site's \<open>static xt_t cache_xt\<close> as argument and result. The macros
  \<open>fword(w)\<close> and so on are fields of an environment: what the words do (they are defined by the Forth
  sources, not by C) is what a client of this interface is given, as are the allocator, the addresses the
  linker gives to string literals and the C functions reached through a pointer. The rest of the file is
  definitions over that environment: every function pushes its arguments, runs one
  word and pops its results.
\<close>

subsection \<open>Running a word through its cache\<close>

definition fword_raw :: "'w env \<Rightarrow> nat \<Rightarrow> string \<Rightarrow> ucell \<Rightarrow> 'w fstate \<Rightarrow> (int \<times> ucell \<times> 'w fstate) option" where
  "fword_raw E fuel word cache_xt s =
     do { cache_xt \<leftarrow> (if cache_xt = 0 then findword s (cstr word) else Some cache_xt);
          if cache_xt \<noteq> 0
          then do { (_, s) \<leftarrow> enterforth E fuel cache_xt s; Some (0, cache_xt, s) }
          else Some (- 1, cache_xt, s) }"

definition eword_raw :: "'w env \<Rightarrow> nat \<Rightarrow> string \<Rightarrow> ucell \<Rightarrow> ucell \<Rightarrow> int \<Rightarrow> 'w fstate \<Rightarrow> (cell \<times> ucell \<times> ucell \<times> 'w fstate) option" where
  "eword_raw E fuel word catch_xt cache_xt nargs s =
     do { catch_xt \<leftarrow> (if catch_xt = 0 then findword s (cstr ''catch'') else Some catch_xt);
          cache_xt \<leftarrow> (if cache_xt = 0 then findword s (cstr word) else Some cache_xt);
          if cache_xt \<noteq> 0
          then do { s \<leftarrow> PUSH cache_xt s;
                    (_, s) \<leftarrow> enterforth E fuel catch_xt s;
                    (ret, s) \<leftarrow> POP s;
                    Some (ret, catch_xt, cache_xt, if ret \<noteq> 0 then s\<lparr>dstackcnt := dstackcnt s - nargs\<rparr> else s) }
          else Some (- 1, catch_xt, cache_xt, s) }"

subsection \<open>The environment of C code that calls Forth\<close>

record 'w pkg_env =
  fword :: "string \<Rightarrow> 'w fstate \<Rightarrow> 'w fstate option"
  eword :: "string \<Rightarrow> int \<Rightarrow> 'w fstate \<Rightarrow> (cell \<times> 'w fstate) option"
  selfword :: "string \<Rightarrow> 'w fstate \<Rightarrow> 'w fstate option"
  parword :: "string \<Rightarrow> 'w fstate \<Rightarrow> 'w fstate option"
  run_xt :: "ucell \<Rightarrow> 'w fstate \<Rightarrow> 'w fstate option"
  call1_func_addr :: ucell
  call_c :: "ucell \<Rightarrow> ucell \<Rightarrow> 'w fstate \<Rightarrow> 'w fstate option"
  malloc :: "u32 \<Rightarrow> 'w fstate \<Rightarrow> (ucell \<times> 'w fstate) option"
  free :: "ucell \<Rightarrow> 'w fstate \<Rightarrow> 'w fstate option"
  load :: "ucell \<Rightarrow> 'w fstate \<Rightarrow> 'w fstate option"
  lit :: "string \<Rightarrow> ucell"
  message :: "string \<Rightarrow> ucell list \<Rightarrow> 'w fstate \<Rightarrow> 'w fstate"

text \<open>A string in memory, or \<open>NULL\<close>; a literal, whose length the compiler knows.\<close>

definition push_str :: "ucell \<Rightarrow> 'w fstate \<Rightarrow> 'w fstate option" where
  "push_str str s =
     do { s \<leftarrow> PUSH str s;
          n \<leftarrow> (if str \<noteq> 0 then strlen (at (mem s) str) else Some 0);
          PUSH (of_nat n) s }"

definition push_lit :: "'w pkg_env \<Rightarrow> string \<Rightarrow> 'w fstate \<Rightarrow> 'w fstate option" where
  "push_lit p w s = do { s \<leftarrow> PUSH (lit p w) s; PUSH (of_nat (length w)) s }"

definition feval :: "'w pkg_env \<Rightarrow> string \<Rightarrow> 'w fstate \<Rightarrow> (cell \<times> 'w fstate) option" where
  "feval p str s = do { s \<leftarrow> push_lit p str s; eword p ''evaluate'' 2 s }"

definition bind_func :: "'w pkg_env \<Rightarrow> string \<Rightarrow> ucell \<Rightarrow> 'w fstate \<Rightarrow> 'w fstate option" where
  "bind_func p name func s = do { s \<leftarrow> PUSH func s; s \<leftarrow> push_lit p name s; fword p ''is-cfunc'' s }"

definition bind_xtfunc :: "'w pkg_env \<Rightarrow> string \<Rightarrow> ucell \<Rightarrow> ucell \<Rightarrow> ucell \<Rightarrow> 'w fstate \<Rightarrow> 'w fstate option" where
  "bind_xtfunc p name xt arg func s =
     do { s \<leftarrow> PUSH xt s; s \<leftarrow> PUSH arg s; s \<leftarrow> PUSH func s; s \<leftarrow> push_lit p name s; fword p ''is-xt-cfunc'' s }"

definition bind_noname_func :: "'w pkg_env \<Rightarrow> ucell \<Rightarrow> 'w fstate \<Rightarrow> (ucell \<times> 'w fstate) option" where
  "bind_noname_func p func s = do { s \<leftarrow> PUSH func s; s \<leftarrow> fword p ''is-noname-cfunc'' s; POP s }"

definition throw :: "'w pkg_env \<Rightarrow> cell \<Rightarrow> 'w fstate \<Rightarrow> 'w fstate option" where
  "throw p error s = do { s \<leftarrow> PUSH error s; fword p ''throw'' s }"

subsection \<open>Instances and methods\<close>

definition ih_to_phandle :: "'w pkg_env \<Rightarrow> ucell \<Rightarrow> 'w fstate \<Rightarrow> (ucell \<times> 'w fstate) option" where
  "ih_to_phandle p ih s = do { s \<leftarrow> PUSH ih s; s \<leftarrow> fword p ''ihandle>phandle'' s; POP s }"

definition my_parent :: "'w pkg_env \<Rightarrow> 'w fstate \<Rightarrow> (ucell \<times> 'w fstate) option" where
  "my_parent p s = do { s \<leftarrow> fword p ''my-parent'' s; POP s }"

definition my_self :: "'w pkg_env \<Rightarrow> 'w fstate \<Rightarrow> (ucell \<times> 'w fstate) option" where
  "my_self p s = do { s \<leftarrow> fword p ''my-self'' s; POP s }"

definition find_package_method :: "'w pkg_env \<Rightarrow> string option \<Rightarrow> ucell \<Rightarrow> 'w fstate \<Rightarrow> (ucell \<times> 'w fstate) option" where
  "find_package_method p method ph s =
     do { s \<leftarrow> (case method of None \<Rightarrow> push_lit p '''' s | Some m \<Rightarrow> push_lit p m s);
          s \<leftarrow> PUSH ph s;
          s \<leftarrow> fword p ''find-method'' s;
          (found, s) \<leftarrow> POP s;
          if found \<noteq> 0 then POP s else Some (0, s) }"

definition find_ih_method :: "'w pkg_env \<Rightarrow> string \<Rightarrow> ucell \<Rightarrow> 'w fstate \<Rightarrow> (ucell \<times> 'w fstate) option" where
  "find_ih_method p method ih s =
     do { (ph, s) \<leftarrow> ih_to_phandle p ih s; find_package_method p (Some method) ph s }"

definition find_parent_method :: "'w pkg_env \<Rightarrow> string \<Rightarrow> 'w fstate \<Rightarrow> (ucell \<times> 'w fstate) option" where
  "find_parent_method p method s = do { (ih, s) \<leftarrow> my_parent p s; find_ih_method p method ih s }"

definition selfword_raw :: "'w pkg_env \<Rightarrow> string \<Rightarrow> ucell \<Rightarrow> 'w fstate \<Rightarrow> (int \<times> ucell \<times> 'w fstate) option" where
  "selfword_raw p method cache_xt s =
     do { (cache_xt, s) \<leftarrow> (if cache_xt = 0 then do { (ih, s) \<leftarrow> my_self p s; find_ih_method p method ih s }
                            else Some (cache_xt, s));
          if cache_xt \<noteq> 0 then do { s \<leftarrow> run_xt p cache_xt s; Some (0, cache_xt, s) }
          else Some (- 1, cache_xt, s) }"

definition parword_raw :: "'w pkg_env \<Rightarrow> string \<Rightarrow> ucell \<Rightarrow> 'w fstate \<Rightarrow> (int \<times> ucell \<times> 'w fstate) option" where
  "parword_raw p method cache_xt s =
     do { (cache_xt, s) \<leftarrow> (if cache_xt = 0 then do { (ih, s) \<leftarrow> my_parent p s; find_ih_method p method ih s }
                            else Some (cache_xt, s));
          if cache_xt \<noteq> 0 then do { s \<leftarrow> run_xt p cache_xt s; Some (0, cache_xt, s) }
          else Some (- 1, cache_xt, s) }"

definition call_package :: "'w pkg_env \<Rightarrow> ucell \<Rightarrow> ucell \<Rightarrow> 'w fstate \<Rightarrow> 'w fstate option" where
  "call_package p xt ihandle s = do { s \<leftarrow> PUSH xt s; s \<leftarrow> PUSH ihandle s; fword p ''call-package'' s }"

definition call_parent :: "'w pkg_env \<Rightarrow> ucell \<Rightarrow> 'w fstate \<Rightarrow> 'w fstate option" where
  "call_parent p xt s = do { s \<leftarrow> PUSH xt s; fword p ''call-parent'' s }"

definition call_parent_method :: "'w pkg_env \<Rightarrow> string \<Rightarrow> 'w fstate \<Rightarrow> 'w fstate option" where
  "call_parent_method p method s = do { s \<leftarrow> push_lit p method s; fword p ''$call-parent'' s }"

definition open_dev :: "'w pkg_env \<Rightarrow> ucell \<Rightarrow> 'w fstate \<Rightarrow> (ucell \<times> 'w fstate) option" where
  "open_dev p spec s = do { s \<leftarrow> push_str spec s; s \<leftarrow> fword p ''open-dev'' s; POP s }"

definition close_dev :: "'w pkg_env \<Rightarrow> ucell \<Rightarrow> 'w fstate \<Rightarrow> 'w fstate option" where
  "close_dev p ih s = do { s \<leftarrow> PUSH ih s; fword p ''close-dev'' s }"

definition open_package :: "'w pkg_env \<Rightarrow> ucell \<Rightarrow> ucell \<Rightarrow> 'w fstate \<Rightarrow> (ucell \<times> 'w fstate) option" where
  "open_package p argstr ph s =
     do { s \<leftarrow> push_str argstr s; s \<leftarrow> PUSH ph s; s \<leftarrow> fword p ''open-package'' s; POP s }"

definition close_package :: "'w pkg_env \<Rightarrow> ucell \<Rightarrow> 'w fstate \<Rightarrow> 'w fstate option" where
  "close_package p ih s = do { s \<leftarrow> PUSH ih s; fword p ''close-package'' s }"

text \<open>\<open>len\<close> is an \<open>int\<close>; \<open>malloc\<close> and \<open>memcpy\<close> take it as an unsigned number.\<close>

definition pop_fstr_copy :: "'w pkg_env \<Rightarrow> 'w fstate \<Rightarrow> (ucell \<times> 'w fstate) option" where
  "pop_fstr_copy p s =
     do { (len, s) \<leftarrow> POP s;
          (q, s) \<leftarrow> POP s;
          if len = 0 then Some (0, s)
          else do { (str, s) \<leftarrow> malloc p (len + 1) s;
                    if str = 0 then Some (0, s)
                    else do { m \<leftarrow> memcpy (mem s) str q len;
                              m \<leftarrow> write_byte m (str + len) 0;
                              Some (str, s\<lparr>mem := m\<rparr>) } } }"

definition my_args_copy :: "'w pkg_env \<Rightarrow> 'w fstate \<Rightarrow> (ucell \<times> 'w fstate) option" where
  "my_args_copy p s = do { s \<leftarrow> fword p ''my-args'' s; pop_fstr_copy p s }"

subsection \<open>Properties of nodes\<close>

definition set_property :: "'w pkg_env \<Rightarrow> ucell \<Rightarrow> string \<Rightarrow> ucell \<Rightarrow> u32 \<Rightarrow> 'w fstate \<Rightarrow> 'w fstate option" where
  "set_property p ph name buf len s =
     (if ph = 0 then Some (message p (''set_property: NULL phandle'' @ [CHR 0x0A]) [] s)
      else do { s \<leftarrow> PUSH buf s; s \<leftarrow> PUSH len s; s \<leftarrow> push_lit p name s; s \<leftarrow> PUSH ph s;
                fword p ''set-property'' s })"

text \<open>\<open>retlen\<close>: the length the caller's \<open>int *retlen\<close> receives.\<close>

definition get_property :: "'w pkg_env \<Rightarrow> ucell \<Rightarrow> string \<Rightarrow> 'w fstate \<Rightarrow> (ucell \<times> cell \<times> 'w fstate) option" where
  "get_property p ph name s =
     do { s \<leftarrow> push_lit p name s;
          s \<leftarrow> PUSH ph s;
          s \<leftarrow> fword p ''get-package-property'' s;
          (failed, s) \<leftarrow> POP s;
          if failed \<noteq> 0 then Some (0, - 1, s)
          else do { (len, s) \<leftarrow> POP s; (buf, s) \<leftarrow> POP s; Some (buf, len, s) } }"

definition get_int_property :: "'w pkg_env \<Rightarrow> ucell \<Rightarrow> string \<Rightarrow> 'w fstate \<Rightarrow> (u32 \<times> cell \<times> 'w fstate) option" where
  "get_int_property p ph name s =
     do { (q, len, s) \<leftarrow> get_property p ph name s;
          if q = 0 then Some (0, len, s) else do { v \<leftarrow> read_long (mem s) q; Some (v, len, s) } }"

subsection \<open>Selecting and iterating over nodes\<close>

definition activate_dev :: "'w pkg_env \<Rightarrow> ucell \<Rightarrow> 'w fstate \<Rightarrow> 'w fstate option" where
  "activate_dev p ph s = do { s \<leftarrow> PUSH ph s; fword p ''active-package!'' s }"

definition find_dev :: "'w pkg_env \<Rightarrow> ucell \<Rightarrow> 'w fstate \<Rightarrow> (ucell \<times> 'w fstate) option" where
  "find_dev p path s =
     do { s \<leftarrow> push_str path s; s \<leftarrow> fword p ''(find-dev)'' s; (found, s) \<leftarrow> POP s;
          if found \<noteq> 0 then POP s else Some (0, s) }"

definition activate_device :: "'w pkg_env \<Rightarrow> ucell \<Rightarrow> 'w fstate \<Rightarrow> (ucell \<times> 'w fstate) option" where
  "activate_device p str s = do { (ph, s) \<leftarrow> find_dev p str s; s \<leftarrow> activate_dev p ph s; Some (ph, s) }"

definition device_end :: "'w pkg_env \<Rightarrow> 'w fstate \<Rightarrow> 'w fstate option" where
  "device_end p s = fword p ''device-end'' s"

definition get_cur_dev :: "'w pkg_env \<Rightarrow> 'w fstate \<Rightarrow> (ucell \<times> 'w fstate) option" where
  "get_cur_dev p s = do { s \<leftarrow> fword p ''active-package'' s; POP s }"

definition get_path_from_ph :: "'w pkg_env \<Rightarrow> ucell \<Rightarrow> 'w fstate \<Rightarrow> (ucell \<times> 'w fstate) option" where
  "get_path_from_ph p ph s = do { s \<leftarrow> PUSH ph s; s \<leftarrow> fword p ''get-package-path'' s; pop_fstr_copy p s }"

definition dt_iter_begin :: "'w pkg_env \<Rightarrow> 'w fstate \<Rightarrow> (ucell \<times> 'w fstate) option" where
  "dt_iter_begin p s = do { s \<leftarrow> fword p ''iterate-tree-begin'' s; POP s }"

definition dt_iterate :: "'w pkg_env \<Rightarrow> ucell \<Rightarrow> 'w fstate \<Rightarrow> (ucell \<times> 'w fstate) option" where
  "dt_iterate p last_tree s =
     (if last_tree = 0 then dt_iter_begin p s
      else do { s \<leftarrow> PUSH last_tree s; s \<leftarrow> fword p ''iterate-tree'' s; POP s })"

partial_function (option) iterate_type_loop :: "'w pkg_env \<Rightarrow> ucell \<Rightarrow> ucell \<Rightarrow> 'w fstate \<Rightarrow> (ucell \<times> 'w fstate) option" where
  "iterate_type_loop p last_tree type s =
     do { (last_tree, s) \<leftarrow> dt_iterate p last_tree s;
          if last_tree = 0 then Some (last_tree, s)
          else do { (str, _, s) \<leftarrow> get_property p last_tree ''device_type'' s;
                    hit \<leftarrow> (if str = 0 then Some False
                            else do { c \<leftarrow> strcmp (at (mem s) type) (at (mem s) str); Some (c = 0) });
                    if hit then Some (last_tree, s) else iterate_type_loop p last_tree type s } }"

definition dt_iterate_type :: "'w pkg_env \<Rightarrow> ucell \<Rightarrow> ucell \<Rightarrow> 'w fstate \<Rightarrow> (ucell \<times> 'w fstate) option" where
  "dt_iterate_type p last_tree type s =
     do { (last_tree, s) \<leftarrow> (if last_tree = 0 then dt_iter_begin p s else Some (last_tree, s));
          iterate_type_loop p last_tree type s }"

subsection \<open>Methods of nodes\<close>

text \<open>A method: its name (\<open>None\<close> for \<open>NULL\<close>, a static initialiser) and the address of the C function.\<close>

type_synonym method_t = "string option \<times> ucell"

partial_function (option) openable_loop :: "'w pkg_env \<Rightarrow> bool \<Rightarrow> 'w fstate \<Rightarrow> 'w fstate option" where
  "openable_loop p only_parents s =
     do { s \<leftarrow> (if only_parents then fword p ''parent'' s else Some s);
          (ph, s) \<leftarrow> POP s;
          if ph = 0 then Some s
          else do { s \<leftarrow> activate_dev p ph s;
                    s \<leftarrow> PUSH ph s;
                    s \<leftarrow> fword p ''is-open'' s;
                    openable_loop p True s } }"

definition make_openable :: "'w pkg_env \<Rightarrow> bool \<Rightarrow> 'w fstate \<Rightarrow> 'w fstate option" where
  "make_openable p only_parents s =
     do { (save_ph, s) \<leftarrow> get_cur_dev p s;
          s \<leftarrow> PUSH save_ph s;
          s \<leftarrow> openable_loop p only_parents s;
          activate_dev p save_ph s }"

definition call1_func :: "'w pkg_env \<Rightarrow> 'w fstate \<Rightarrow> 'w fstate option" where
  "call1_func p s = do { (func, s) \<leftarrow> POP s; (v, s) \<leftarrow> POP s; call_c p func v s }"

fun add_loop :: "'w pkg_env \<Rightarrow> u32 \<Rightarrow> ucell \<Rightarrow> method_t list \<Rightarrow> 'w fstate \<Rightarrow> 'w fstate option" where
  "add_loop p sz xt [] s = Some s"
| "add_loop p sz xt ((None, func) # ms) s =
     do { (buf, s) \<leftarrow> (if xt \<noteq> 0 then do { s \<leftarrow> run_xt p xt s; POP s } else Some (0, s));
          s \<leftarrow> call_c p func buf s;
          add_loop p sz xt ms s }"
| "add_loop p sz xt ((Some name, func) # ms) s =
     do { s \<leftarrow> (if sz = 0 then bind_func p name func s else bind_xtfunc p name xt func (call1_func_addr p) s);
          add_loop p sz xt ms s }"

definition add_methods :: "'w pkg_env \<Rightarrow> u32 \<Rightarrow> u32 \<Rightarrow> method_t list \<Rightarrow> 'w fstate \<Rightarrow> 'w fstate option" where
  "add_methods p flags sz methods s =
     do { name \<leftarrow> (case methods of [] \<Rightarrow> None | (name, _) # _ \<Rightarrow> Some name);
          (dev, s) \<leftarrow> get_cur_dev p s;
          (found, s) \<leftarrow> find_package_method p name dev s;
          if found \<noteq> 0 then Some s
          else do { (xt, s) \<leftarrow> (if sz \<noteq> 0 then do { s \<leftarrow> PUSH sz s; s \<leftarrow> fword p ''is-ibuf'' s; POP s }
                                else Some (0, s));
                    s \<leftarrow> add_loop p sz xt methods s;
                    if flags AND 1 \<noteq> 0 then make_openable p False s else Some s } }"

definition bind_node_methods :: "'w pkg_env \<Rightarrow> ucell \<Rightarrow> u32 \<Rightarrow> u32 \<Rightarrow> method_t list \<Rightarrow> 'w fstate \<Rightarrow> 'w fstate option" where
  "bind_node_methods p ph flags sz methods s =
     do { (save_ph, s) \<leftarrow> get_cur_dev p s;
          s \<leftarrow> activate_dev p ph s;
          s \<leftarrow> add_methods p flags sz methods s;
          activate_dev p save_ph s }"

partial_function (option) bind_type_loop :: "'w pkg_env \<Rightarrow> u32 \<Rightarrow> u32 \<Rightarrow> method_t list \<Rightarrow> ucell \<Rightarrow> ucell \<Rightarrow> 'w fstate \<Rightarrow> 'w fstate option" where
  "bind_type_loop p flags sz methods name ph s =
     do { (ph, s) \<leftarrow> dt_iterate_type p ph name s;
          if ph = 0 then Some s
          else do { s \<leftarrow> activate_dev p ph s;
                    s \<leftarrow> add_methods p flags sz methods s;
                    bind_type_loop p flags sz methods name ph s } }"

fun bind_paths :: "'w pkg_env \<Rightarrow> u32 \<Rightarrow> u32 \<Rightarrow> ucell list \<Rightarrow> method_t list \<Rightarrow> 'w fstate \<Rightarrow> 'w fstate option" where
  "bind_paths p flags sz [] methods s = Some s"
| "bind_paths p flags sz (name # paths) methods s =
     do { c \<leftarrow> read_byte (mem s) name;
          s \<leftarrow> (if c = ch CHR ''T'' then bind_type_loop p flags sz methods (name + 1) 0 s
               else do { (ph, s) \<leftarrow> activate_device p name s;
                         if ph \<noteq> 0 then add_methods p flags sz methods s
                         else do { c \<leftarrow> read_byte (mem s) name;
                                   if c = ch CHR ''+''
                                   then do { (ph, s) \<leftarrow> activate_device p (name + 1) s;
                                             s \<leftarrow> (if ph = 0 then do { s \<leftarrow> push_str (name + 1) s; fword p ''create-node'' s }
                                                  else Some s);
                                             add_methods p flags sz methods s }
                                   else Some s } });
          bind_paths p flags sz paths methods s }"

definition bind_node :: "'w pkg_env \<Rightarrow> u32 \<Rightarrow> u32 \<Rightarrow> ucell list \<Rightarrow> method_t list \<Rightarrow> 'w fstate \<Rightarrow> 'w fstate option" where
  "bind_node p flags sz paths methods s =
     do { (save_ph, s) \<leftarrow> get_cur_dev p s;
          s \<leftarrow> bind_paths p flags sz paths methods s;
          activate_dev p save_ph s }"

definition bind_new_node :: "'w pkg_env \<Rightarrow> u32 \<Rightarrow> u32 \<Rightarrow> ucell \<Rightarrow> method_t list \<Rightarrow> 'w fstate \<Rightarrow> (ucell \<times> 'w fstate) option" where
  "bind_new_node p flags sz name methods s =
     do { (save_ph, s) \<leftarrow> get_cur_dev p s;
          s \<leftarrow> push_str name s;
          s \<leftarrow> fword p ''create-node'' s;
          s \<leftarrow> add_methods p flags sz methods s;
          (new_ph, s) \<leftarrow> get_cur_dev p s;
          s \<leftarrow> activate_dev p save_ph s;
          Some (new_ph, s) }"

subsection \<open>Stack states\<close>

text \<open>The state after a push or a pop that succeeds, for stepping through a sequence of calls.\<close>

definition pushed :: "ucell \<Rightarrow> 'w fstate \<Rightarrow> 'w fstate" where
  "pushed v s = s\<lparr>dstackcnt := dstackcnt s + 1, dstack := (dstack s)(dstackcnt s + 1 := v)\<rparr>"

definition popped :: "'w fstate \<Rightarrow> 'w fstate" where
  "popped s = s\<lparr>dstackcnt := dstackcnt s - 1\<rparr>"

lemma push_step: "ds_ok s \<Longrightarrow> length (ds s) < 511 \<Longrightarrow> PUSH v s = Some (pushed v s)"
  by (auto simp: stack_defs pushed_def ds_ok_def ds_def)

lemma pop_step: "ds_ok s \<Longrightarrow> ds s = v # vs \<Longrightarrow> POP s = Some (v, popped s)"
  by (auto simp: stack_defs popped_def ds_ok_def ds_def items_Cons_iff)

lemma ds_pushed: "ds_ok s \<Longrightarrow> ds (pushed v s) = v # ds s"
  by (simp add: pushed_def ds_def ds_ok_def items_Suc)

lemma ds_popped: "ds_ok s \<Longrightarrow> ds s = v # vs \<Longrightarrow> ds (popped s) = vs"
  by (simp add: popped_def ds_def ds_ok_def items_Cons_iff)

lemma ds_ok_pushed: "ds_ok s \<Longrightarrow> length (ds s) < 511 \<Longrightarrow> ds_ok (pushed v s)"
  by (auto simp: pushed_def ds_ok_def ds_def)

lemma ds_ok_popped: "ds_ok s \<Longrightarrow> ds s = v # vs \<Longrightarrow> ds_ok (popped s)"
  by (auto simp: popped_def ds_ok_def ds_def items_Cons_iff)

lemma stack_frame [simp]:
  "mem (pushed v s) = mem s" "world (pushed v s) = world s"
  "mem (popped s) = mem s" "world (popped s) = world s"
  by (simp_all add: pushed_def popped_def)

lemma ds_mem [simp]: "ds (s\<lparr>mem := m\<rparr>) = ds s" "ds_ok (s\<lparr>mem := m\<rparr>) = ds_ok s"
  by (simp_all add: ds_def ds_ok_def)

lemmas stack_steps = push_step pop_step ds_pushed ds_popped ds_ok_pushed ds_ok_popped

end
