(* ===== verification/Deblocker.thy ===== *)
theory Deblocker
  imports Bindings "HOL-Library.Signed_Division"
begin

text \<open>
  \<open>packages/deblocker.c\<close>: byte reads and writes on top of a device that transfers whole blocks. The
  instance data is the record \<open>deblk_info\<close>; the parent's methods are reached by \<open>call_parent\<close>. A C
  \<open>int\<close> is an \<open>int\<close> whose overflow is undefined (\<open>cint\<close>); the mark is a 64-bit number.
\<close>

record deblk_info =
  mark_hi :: ucell
  mark_lo :: ucell
  dk_read_xt :: ucell
  dk_write_xt :: ucell
  max_xfer :: int
  blksize :: int
  dk_buf :: ucell

definition deblk_open :: "'w pkg_env \<Rightarrow> deblk_info \<Rightarrow> 'w fstate \<Rightarrow> (deblk_info \<times> 'w fstate) option" where
  "deblk_open p di s =
     do { (rx, s) \<leftarrow> find_parent_method p ''read-blocks'' s;
          (wx, s) \<leftarrow> find_parent_method p ''write-blocks'' s;
          let di = di\<lparr>dk_read_xt := rx, dk_write_xt := wx\<rparr>;
          if rx = 0 then do { s \<leftarrow> PUSH 0 s; Some (di, s) }
          else do {
            let di = di\<lparr>max_xfer := 512, blksize := 512\<rparr>;
            (xt, s) \<leftarrow> find_parent_method p ''block-size'' s;
            (di, s) \<leftarrow> (if xt \<noteq> 0
                        then do { s \<leftarrow> call_parent p xt s; (v, s) \<leftarrow> POP s; Some (di\<lparr>blksize := sint v\<rparr>, s) }
                        else Some (di, s));
            (xt, s) \<leftarrow> find_parent_method p ''max-transfer'' s;
            (di, s) \<leftarrow> (if xt \<noteq> 0
                        then do { s \<leftarrow> call_parent p xt s; (v, s) \<leftarrow> POP s; Some (di\<lparr>max_xfer := sint v\<rparr>, s) }
                        else Some (di, s));
            (b, s) \<leftarrow> malloc p (word_of_int (blksize di)) s;
            s \<leftarrow> PUSH (- 1) s;
            Some (di\<lparr>dk_buf := b\<rparr>, s) } }"

definition deblk_close :: "'w pkg_env \<Rightarrow> deblk_info \<Rightarrow> 'w fstate \<Rightarrow> (deblk_info \<times> 'w fstate) option" where
  "deblk_close p di s = do { s \<leftarrow> free p (dk_buf di) s; Some (di, s) }"

definition join_cells :: "ucell \<Rightarrow> ucell \<Rightarrow> ducell" where
  "join_cells hi lo = push_bit 32 (ucast hi) OR ucast lo"

definition deblk_seek :: "deblk_info \<Rightarrow> 'w fstate \<Rightarrow> (deblk_info \<times> 'w fstate) option" where
  "deblk_seek di s =
     do { (pos_hi, s) \<leftarrow> POP s;
          (pos_lo, s) \<leftarrow> POP s;
          let mark = join_cells pos_hi pos_lo;
          if mark = - 1 then do { s \<leftarrow> PUSH (- 1) s; Some (di, s) }
          else do { s \<leftarrow> PUSH 0 s; Some (di\<lparr>mark_hi := pos_hi, mark_lo := pos_lo\<rparr>, s) } }"

definition deblk_tell :: "deblk_info \<Rightarrow> 'w fstate \<Rightarrow> (deblk_info \<times> 'w fstate) option" where
  "deblk_tell di s = do { s \<leftarrow> PUSH (mark_lo di) s; s \<leftarrow> PUSH (mark_hi di) s; Some (di, s) }"

definition DO_IO :: "'w pkg_env \<Rightarrow> ucell \<Rightarrow> ucell \<Rightarrow> int \<Rightarrow> int \<Rightarrow> 'w fstate \<Rightarrow> (int \<times> 'w fstate) option" where
  "DO_IO p xt b blk n s =
     do { s \<leftarrow> PUSH b s; s \<leftarrow> PUSH (word_of_int blk) s; s \<leftarrow> PUSH (word_of_int n) s;
          s \<leftarrow> call_parent p xt s;
          (r, s) \<leftarrow> POP s;
          Some (sint r, s) }"

record work_t =
  blk_buf :: ucell
  nblks :: int
  w_offs :: int
  w_len :: int
  w_data :: ucell

definition mark_of :: "deblk_info \<Rightarrow> ducell" where
  "mark_of di = join_cells (mark_hi di) (mark_lo di)"

definition split_first :: "deblk_info \<Rightarrow> ucell \<Rightarrow> int \<Rightarrow> work_t option" where
  "split_first di data len =
     (let offs = sint (ucast (mark_of di mod word_of_int (blksize di)) :: u32)
      in if offs \<noteq> 0
         then do { room \<leftarrow> cint (blksize di - offs);
                   let n = min len room;
                   Some \<lparr>blk_buf = dk_buf di, nblks = (if n \<noteq> 0 then 1 else 0), w_offs = offs, w_len = n, w_data = data\<rparr> }
         else Some \<lparr>blk_buf = dk_buf di, nblks = 0, w_offs = offs, w_len = 0, w_data = data\<rparr>)"

definition split :: "deblk_info \<Rightarrow> ucell \<Rightarrow> int \<Rightarrow> (work_t \<times> work_t \<times> work_t) option" where
  "split di data len =
     (if blksize di = 0 then None
      else do {
        w0 \<leftarrow> split_first di data len;
        let data = data + word_of_int (w_len w0);
        len \<leftarrow> cint (len - w_len w0);
        k \<leftarrow> cint (len sdiv blksize di);
        n \<leftarrow> cint (k * blksize di);
        let w1 = \<lparr>blk_buf = data, nblks = k, w_offs = 0, w_len = n, w_data = 0\<rparr>;
        let data = data + word_of_int n;
        len \<leftarrow> cint (len - n);
        Some (w0, w1, \<lparr>blk_buf = dk_buf di, nblks = (if len \<noteq> 0 then 1 else 0), w_offs = 0, w_len = len, w_data = data\<rparr>) })"

fun work_loop :: "'w pkg_env \<Rightarrow> deblk_info \<Rightarrow> bool \<Rightarrow> ucell \<Rightarrow> (bool \<times> work_t) list \<Rightarrow> int \<Rightarrow> int \<Rightarrow> 'w fstate \<Rightarrow> (int \<times> 'w fstate) option" where
  "work_loop p di is_write xt [] blk retlen s = Some (retlen, s)"
| "work_loop p di is_write xt ((middle, w) # ws) blk retlen s =
     (if nblks w = 0 then work_loop p di is_write xt ws blk retlen s
      else do {
        s \<leftarrow> (if is_write \<and> \<not> middle
             then do { (_, s) \<leftarrow> DO_IO p (dk_read_xt di) (blk_buf w) blk (nblks w) s;
                       m \<leftarrow> memcpy (mem s) (blk_buf w + word_of_int (w_offs w)) (w_data w) (word_of_int (w_len w));
                       Some (s\<lparr>mem := m\<rparr>) }
             else Some s);
        (n, s) \<leftarrow> DO_IO p xt (blk_buf w) blk (nblks w) s;
        if n < 0 then Some (if retlen = 0 then - 1 else retlen, s)
        else do {
          len \<leftarrow> (if n \<noteq> nblks w then do { k \<leftarrow> cint (n * blksize di); Some (min k (w_len w)) } else Some (w_len w));
          s \<leftarrow> (if \<not> is_write \<and> \<not> middle
               then do { m \<leftarrow> memcpy (mem s) (w_data w) (blk_buf w + word_of_int (w_offs w)) (word_of_int len);
                         Some (s\<lparr>mem := m\<rparr>) }
               else Some s);
          retlen \<leftarrow> cint (retlen + len);
          blk \<leftarrow> cint (blk + n);
          if n \<noteq> nblks w then Some (retlen, s) else work_loop p di is_write xt ws blk retlen s } })"

definition do_readwrite :: "'w pkg_env \<Rightarrow> bool \<Rightarrow> ucell \<Rightarrow> deblk_info \<Rightarrow> 'w fstate \<Rightarrow> (int \<times> deblk_info \<times> 'w fstate) option" where
  "do_readwrite p is_write xt di s =
     do { (l, s) \<leftarrow> POP s;
          (dest, s) \<leftarrow> POP s;
          if xt = 0 then Some (- 1, di, s)
          else if blksize di = 0 then None
          else do {
            let blk = sint (ucast (mark_of di div word_of_int (blksize di)) :: u32);
            (w0, w1, w2) \<leftarrow> split di dest (sint l);
            (retlen, s) \<leftarrow> work_loop p di is_write xt [(False, w0), (True, w1), (False, w2)] blk 0 s;
            if retlen > 0
            then do { let mark = mark_of di + word_of_int retlen;
                      Some (retlen, di\<lparr>mark_hi := ucast (drop_bit 32 mark), mark_lo := ucast mark\<rparr>, s) }
            else Some (retlen, di, s) } }"

definition deblk_read :: "'w pkg_env \<Rightarrow> deblk_info \<Rightarrow> 'w fstate \<Rightarrow> (deblk_info \<times> 'w fstate) option" where
  "deblk_read p di s =
     do { (ret, di, s) \<leftarrow> do_readwrite p False (dk_read_xt di) di s;
          s \<leftarrow> PUSH (word_of_int ret) s;
          Some (di, s) }"

definition deblk_write :: "'w pkg_env \<Rightarrow> deblk_info \<Rightarrow> 'w fstate \<Rightarrow> (deblk_info \<times> 'w fstate) option" where
  "deblk_write p di s =
     do { (ret, di, s) \<leftarrow> do_readwrite p True (dk_write_xt di) di s;
          s \<leftarrow> PUSH (word_of_int ret) s;
          Some (di, s) }"

subsection \<open>Transfers\<close>

text \<open>
  The memory after a transfer: \<open>n\<close> bytes at \<open>a\<close> hold \<open>f\<close>, the scratch bytes \<open>B\<close> may hold anything, the
  rest and the mapped addresses are as before.
\<close>

definition filled :: "(ucell \<Rightarrow> bool) \<Rightarrow> memory \<Rightarrow> ucell \<Rightarrow> (nat \<Rightarrow> u8) \<Rightarrow> nat \<Rightarrow> memory \<Rightarrow> bool" where
  "filled B m a f n m' \<longleftrightarrow>
     (\<forall>x. (m' x = None) = (m x = None)) \<and>
     (\<forall>x. \<not> B x \<longrightarrow> m' x = (if in_region a n x then Some (f (unat (x - a))) else m x))"

lemma filled_0: "filled B m a f 0 m"
  by (simp add: filled_def)

lemma filled_mapped: "filled B m a f n m' \<Longrightarrow> mapped m' b k = mapped m b k"
  by (simp add: filled_def mapped_def)

lemma filled_append:
  assumes "filled B m a f n m1" and "filled B m1 (a + of_nat n) (\<lambda>i. f (n + i)) k m2" and "n + k < 2 ^ 32"
  shows "filled B m a f (n + k) m2"
  unfolding filled_def
proof (intro conjI allI impI)
  fix x
  show "(m2 x = None) = (m x = None)" using assms by (simp add: filled_def)
  assume x: "\<not> B x"
  have n: "unat (of_nat n :: ucell) = n" using assms(3) by (simp add: unat_of_nat_small)
  have d: "unat (x - a) = (n + unat (x - (a + of_nat n))) mod 2 ^ 32"
  proof -
    have e: "of_nat n + (x - (a + of_nat n)) = x - a" by simp
    show ?thesis using unat_word_ariths(1) [of "of_nat n" "x - (a + of_nat n)"] unfolding e n by simp
  qed
  have m2: "m2 x = (if in_region (a + of_nat n) k x then Some (f (n + unat (x - (a + of_nat n)))) else m1 x)"
    and m1: "m1 x = (if in_region a n x then Some (f (unat (x - a))) else m x)"
    using assms(1,2) x by (simp_all add: filled_def)
  show "m2 x = (if in_region a (n + k) x then Some (f (unat (x - a))) else m x)"
  proof (cases "in_region (a + of_nat n) k x")
    case True
    then have "unat (x - a) = n + unat (x - (a + of_nat n))" using d assms(3) by (simp add: in_region_def)
    with True m2 show ?thesis by (simp add: in_region_def)
  next
    case False
    have "in_region a (n + k) x \<longleftrightarrow> in_region a n x"
    proof
      assume "in_region a (n + k) x"
      then have lt: "unat (x - a) < n + k" by (simp add: in_region_def)
      show "in_region a n x"
      proof (rule ccontr)
        assume "\<not> in_region a n x"
        then have ge: "n \<le> unat (x - a)" by (simp add: in_region_def)
        have "unat (x - a - of_nat n) = unat (x - a) - n"
          using ge n by (subst unat_sub) (simp_all add: word_le_nat_alt)
        with False ge lt show False by (simp add: in_region_def diff_diff_eq)
      qed
    qed (simp add: in_region_def)
    with False m1 m2 show ?thesis by simp
  qed
qed

subsection \<open>What the parent promises\<close>

text \<open>
  A parent with \<open>nb\<close> blocks of \<open>bs\<close> bytes, whose contents in a given outside state are \<open>D\<close>: its
  \<open>read-blocks\<close> and \<open>write-blocks\<close> methods take \<open>( addr block# #blocks -- #done )\<close> and transfer all the blocks of a
  request that lies on the device.
\<close>

definition block_reads :: "'w pkg_env \<Rightarrow> ucell \<Rightarrow> nat \<Rightarrow> nat \<Rightarrow> ('w \<Rightarrow> nat \<Rightarrow> u8) \<Rightarrow> bool" where
  "block_reads p rx bs nb D \<longleftrightarrow>
     (\<forall>s a b n rest. ds_ok s \<and> ds s = n # b # a # rest \<and> length rest \<le> 500 \<and> unat b + unat n \<le> nb \<and>
        unat n * bs < 2 ^ 32 \<and> mapped (mem s) a (unat n * bs) \<longrightarrow>
        (\<exists>s'. call_parent p rx s = Some s' \<and> ds_ok s' \<and> ds s' = n # rest \<and> D (world s') = D (world s) \<and>
          (\<forall>x. mem s' x = (if in_region a (unat n * bs) x
                           then Some (D (world s) (unat b * bs + unat (x - a))) else mem s x))))"

definition stored :: "memory \<Rightarrow> ucell \<Rightarrow> nat \<Rightarrow> nat \<Rightarrow> (nat \<Rightarrow> u8) \<Rightarrow> nat \<Rightarrow> u8" where
  "stored m a pos n d i = (if pos \<le> i \<and> i < pos + n then the (m (a + of_nat (i - pos))) else d i)"

definition block_writes :: "'w pkg_env \<Rightarrow> ucell \<Rightarrow> nat \<Rightarrow> nat \<Rightarrow> ('w \<Rightarrow> nat \<Rightarrow> u8) \<Rightarrow> bool" where
  "block_writes p wx bs nb D \<longleftrightarrow>
     (\<forall>s a b n rest. ds_ok s \<and> ds s = n # b # a # rest \<and> length rest \<le> 500 \<and> unat b + unat n \<le> nb \<and>
        unat n * bs < 2 ^ 32 \<and> mapped (mem s) a (unat n * bs) \<longrightarrow>
        (\<exists>s'. call_parent p wx s = Some s' \<and> ds_ok s' \<and> ds s' = n # rest \<and> mem s' = mem s \<and>
          D (world s') = stored (mem s) a (unat b * bs) (unat n * bs) (D (world s))))"

lemma sint_of_nat:
  assumes "n < 2 ^ 31"
  shows "sint (of_nat n :: 32 word) = int n"
  using assms by (simp add: sint_eq_unat unat_of_nat_small)

lemma DO_IO_read:
  assumes "block_reads p rx bs nb D" and "ds_ok s" and "length (ds s) \<le> 500"
    and "b + n \<le> nb" and "nb < 2 ^ 31" and "n * bs < 2 ^ 32" and "mapped (mem s) a (n * bs)"
  shows "\<exists>s'. DO_IO p rx a (int b) (int n) s = Some (int n, s') \<and> ds_ok s' \<and> ds s' = ds s \<and> D (world s') = D (world s) \<and>
          (\<forall>x. mem s' x = (if in_region a (n * bs) x then Some (D (world s) (b * bs + unat (x - a))) else mem s x))"
proof -
  let ?s = "pushed (of_nat n) (pushed (of_nat b) (pushed a s))"
  have u: "unat (of_nat n :: ucell) = n" "unat (of_nat b :: ucell) = b"
    using assms(4,5) by (simp_all add: unat_of_nat_small)
  have ok: "ds_ok ?s" "ds ?s = of_nat n # of_nat b # a # ds s"
    using assms(2,3) by (simp_all add: ds_pushed ds_ok_pushed)
  from assms(1) [unfolded block_reads_def, rule_format, of ?s "of_nat n" "of_nat b" a "ds s"] ok u assms(3,4,6,7)
  obtain s' where s': "call_parent p rx ?s = Some s'" "ds_ok s'" "ds s' = of_nat n # ds s"
      "D (world s') = D (world s)"
      "\<forall>x. mem s' x = (if in_region a (n * bs) x then Some (D (world s) (b * bs + unat (x - a))) else mem s x)"
    by auto
  have "DO_IO p rx a (int b) (int n) s = Some (sint (of_nat n :: ucell), popped s')"
    using assms(2,3) s' by (simp add: DO_IO_def stack_steps)
  moreover have "sint (of_nat n :: ucell) = int n" using assms(4,5) by (intro sint_of_nat) simp
  ultimately show ?thesis using s' by (auto simp: stack_steps)
qed

lemma DO_IO_write:
  assumes "block_writes p wx bs nb D" and "ds_ok s" and "length (ds s) \<le> 500"
    and "b + n \<le> nb" and "nb < 2 ^ 31" and "n * bs < 2 ^ 32" and "mapped (mem s) a (n * bs)"
  shows "\<exists>s'. DO_IO p wx a (int b) (int n) s = Some (int n, s') \<and> ds_ok s' \<and> ds s' = ds s \<and> mem s' = mem s \<and>
          D (world s') = stored (mem s) a (b * bs) (n * bs) (D (world s))"
proof -
  let ?s = "pushed (of_nat n) (pushed (of_nat b) (pushed a s))"
  have u: "unat (of_nat n :: ucell) = n" "unat (of_nat b :: ucell) = b"
    using assms(4,5) by (simp_all add: unat_of_nat_small)
  have ok: "ds_ok ?s" "ds ?s = of_nat n # of_nat b # a # ds s"
    using assms(2,3) by (simp_all add: ds_pushed ds_ok_pushed)
  from assms(1) [unfolded block_writes_def, rule_format, of ?s "of_nat n" "of_nat b" a "ds s"] ok u assms(3,4,6,7)
  obtain s' where s': "call_parent p wx ?s = Some s'" "ds_ok s'" "ds s' = of_nat n # ds s"
      "mem s' = mem s" "D (world s') = stored (mem s) a (b * bs) (n * bs) (D (world s))"
    by auto
  have "DO_IO p wx a (int b) (int n) s = Some (sint (of_nat n :: ucell), popped s')"
    using assms(2,3) s' by (simp add: DO_IO_def stack_steps)
  moreover have "sint (of_nat n :: ucell) = int n" using assms(4,5) by (intro sint_of_nat) simp
  ultimately show ?thesis using s' by (auto simp: stack_steps)
qed

lemma in_region_sub: "in_region (a + of_nat o') l x \<Longrightarrow> o' + l \<le> n \<Longrightarrow> n \<le> 2 ^ 32 \<Longrightarrow> in_region a n x"
proof -
  assume x: "in_region (a + of_nat o') l x" and le: "o' + l \<le> n" "n \<le> 2 ^ 32"
  then obtain i where "i < l" "x = a + of_nat (o' + i)" by (auto simp: in_region_offset add.assoc)
  then show ?thesis using le in_region_add [of "o' + i" n a] by simp
qed

text \<open>How the request is cut at the block boundaries.\<close>

definition head_len :: "nat \<Rightarrow> nat \<Rightarrow> nat \<Rightarrow> nat" where
  "head_len bs pos n = (if pos mod bs \<noteq> 0 then min n (bs - pos mod bs) else 0)"

lemma head_len_le: "head_len bs pos n \<le> n"
  by (simp add: head_len_def)

lemma head_aligned:
  assumes "0 < bs" and "head_len bs pos n < n"
  shows "(pos div bs + (if head_len bs pos n \<noteq> 0 then 1 else 0)) * bs = pos + head_len bs pos n"
proof (cases "pos mod bs = 0")
  case True
  then have "head_len bs pos n = 0" by (simp add: head_len_def)
  then show ?thesis using True div_mult_mod_eq [of pos bs] by simp
next
  case False
  then have h: "head_len bs pos n = bs - pos mod bs" using assms(2) by (simp add: head_len_def)
  have lt: "pos mod bs < bs" using assms(1) by simp
  then have "(pos div bs + 1) * bs = pos div bs * bs + bs" by simp
  also have "\<dots> = pos + (bs - pos mod bs)" using div_mult_mod_eq [of pos bs] lt by linarith
  finally show ?thesis using h lt by simp
qed

lemma unat_mark_mod:
  assumes "0 < bs" and "bs < 2 ^ 31"
  shows "unat (m mod word_of_int (int bs) :: ducell) = unat m mod bs"
    and "unat (m div word_of_int (int bs) :: ducell) = unat m div bs"
proof -
  have "unat (of_nat bs :: ducell) = bs" using assms by (simp add: unat_of_nat_small)
  then show "unat (m mod word_of_int (int bs) :: ducell) = unat m mod bs"
    and "unat (m div word_of_int (int bs) :: ducell) = unat m div bs"
    by (simp_all add: unat_mod unat_div)
qed

lemma sint_ucast_small:
  assumes "unat (x :: ducell) < 2 ^ 31"
  shows "sint (ucast x :: u32) = int (unat x)"
proof -
  have "unat (ucast x :: u32) = unat x" using assms by (simp add: unsigned_ucast_eq take_bit_nat_eq_self)
  with assms show ?thesis by (simp add: sint_eq_unat)
qed

definition edge_piece :: "deblk_info \<Rightarrow> nat \<Rightarrow> nat \<Rightarrow> ucell \<Rightarrow> work_t" where
  "edge_piece di o' l d =
     \<lparr>blk_buf = dk_buf di, nblks = (if l \<noteq> 0 then 1 else 0), w_offs = int o', w_len = int l, w_data = d\<rparr>"

definition middle_piece :: "nat \<Rightarrow> nat \<Rightarrow> ucell \<Rightarrow> work_t" where
  "middle_piece bs k d = \<lparr>blk_buf = d, nblks = int k, w_offs = 0, w_len = int (k * bs), w_data = 0\<rparr>"

lemma split_eq:
  fixes di n
  defines "pos \<equiv> unat (mark_of di)"
  defines "h \<equiv> head_len (nat (blksize di)) pos n"
  assumes bs: "blksize di = int bs" "0 < bs" "bs < 2 ^ 31" and n: "n < 2 ^ 31"
  shows "split di d (int n) = Some
     (edge_piece di (pos mod bs) h d, middle_piece bs ((n - h) div bs) (d + of_nat h),
      edge_piece di 0 ((n - h) mod bs) (d + of_nat (h + (n - h) div bs * bs)))"
proof -
  have lt: "pos mod bs < bs" using bs(2) by simp
  have um: "unat (mark_of di mod word_of_int (int bs)) = pos mod bs"
    unfolding pos_def by (rule unat_mark_mod [OF bs(2,3)])
  then have "unat (mark_of di mod word_of_int (int bs)) < 2 ^ 31" using lt bs(3) by linarith
  from sint_ucast_small [OF this] have offs: "sint (ucast (mark_of di mod word_of_int (int bs)) :: u32) = int (pos mod bs)"
    by (simp only: um)
  have hn: "h \<le> n" by (simp add: h_def head_len_le)
  have room: "cint (int bs - int (pos mod bs)) = Some (int (bs - pos mod bs))"
    using lt bs(3) by (simp add: cint_def of_nat_diff)
  have hd: "h = (if pos mod bs \<noteq> 0 then min n (bs - pos mod bs) else 0)"
    by (simp add: h_def head_len_def bs(1))
  have rest: "cint (int n - int h) = Some (int (n - h))"
    using n hn by (simp add: cint_def of_nat_diff)
  have q: "int (n - h) sdiv int bs = int ((n - h) div bs)"
    unfolding signed_divide_int_def zdiv_int using bs(2) by (cases "n - h = 0") (simp_all add: sgn_if)
  have kb: "(n - h) div bs * bs \<le> n - h" by simp
  have k: "cint (int ((n - h) div bs)) = Some (int ((n - h) div bs))"
    using n div_le_dividend [of "n - h" bs] by (intro cint_nat) linarith
  have kk: "cint (int ((n - h) div bs) * int bs) = Some (int ((n - h) div bs * bs))"
    unfolding of_nat_mult [symmetric] using n kb by (intro cint_nat) linarith
  have we: "w_len (edge_piece di (pos mod bs) h d) = int h" by (simp add: edge_piece_def)
  have md: "n - h - (n - h) div bs * bs = (n - h) mod bs" using minus_div_mult_eq_mod by blast
  have last: "cint (int (n - h) - int ((n - h) div bs * bs)) = Some (int ((n - h) mod bs))"
  proof -
    have "int (n - h) - int ((n - h) div bs * bs) = int (n - h - (n - h) div bs * bs)" using kb by linarith
    moreover have "(n - h) mod bs < 2 ^ 31" using mod_less_divisor [OF bs(2), of "n - h"] bs(3) by linarith
    ultimately show ?thesis by (simp only: md cint_nat)
  qed
  have w0: "split_first di d (int n) = Some (edge_piece di (pos mod bs) h d)"
  proof (cases "pos mod bs = 0")
    case False
    then have "min (int n) (int (bs - pos mod bs)) = int h" unfolding hd by (simp add: of_nat_min)
    with False show ?thesis by (simp add: split_first_def bs(1) offs [simplified] room edge_piece_def)
  qed (simp add: split_first_def bs(1) offs [simplified] hd edge_piece_def)
  show ?thesis
    unfolding split_def Let_def w0 bs(1) bind.bind_lunit we rest q k kk last
    using bs(2) by (simp add: edge_piece_def middle_piece_def add.assoc)
qed

subsection \<open>A transfer in three pieces\<close>

text \<open>
  Reading and writing share the loop over the three pieces. What one piece has to do is the contract of this locale:
  \<open>T\<close> relates the states before and after a transfer of \<open>l\<close> bytes between memory at \<open>d\<close> and the device at
  \<open>pos\<close>; a piece inside one block goes through the block buffer, whole blocks go directly.
\<close>

definition deblk_ready :: "'w pkg_env \<Rightarrow> nat \<Rightarrow> nat \<Rightarrow> ('w \<Rightarrow> nat \<Rightarrow> u8) \<Rightarrow> deblk_info \<Rightarrow> 'w fstate \<Rightarrow> bool" where
  "deblk_ready p bs nb D di s \<longleftrightarrow>
     block_reads p (dk_read_xt di) bs nb D \<and> dk_read_xt di \<noteq> 0 \<and> blksize di = int bs \<and>
     0 < bs \<and> bs < 2 ^ 31 \<and> nb < 2 ^ 31 \<and> mapped (mem s) (dk_buf di) bs \<and> ds_ok s \<and> length (ds s) \<le> 500"

definition usable :: "deblk_info \<Rightarrow> nat \<Rightarrow> 'w fstate \<Rightarrow> ucell \<Rightarrow> nat \<Rightarrow> bool" where
  "usable di bs s d n \<longleftrightarrow> mapped (mem s) d n \<and> apart d n (dk_buf di) bs"

lemma usable_sub: "usable di bs s d n \<Longrightarrow> i + j \<le> n \<Longrightarrow> n \<le> 2 ^ 32 \<Longrightarrow> usable di bs s (d + of_nat i) j"
  by (auto simp: usable_def intro: mapped_sub apart_sub)

declare work_loop.simps(2) [simp del]

locale transfer =
  fixes wr :: bool
    and xt :: "deblk_info \<Rightarrow> ucell"
    and ready :: "'w pkg_env \<Rightarrow> nat \<Rightarrow> nat \<Rightarrow> ('w \<Rightarrow> nat \<Rightarrow> u8) \<Rightarrow> deblk_info \<Rightarrow> 'w fstate \<Rightarrow> bool"
    and T :: "('w \<Rightarrow> nat \<Rightarrow> u8) \<Rightarrow> (ucell \<Rightarrow> bool) \<Rightarrow> 'w fstate \<Rightarrow> ucell \<Rightarrow> nat \<Rightarrow> nat \<Rightarrow> 'w fstate \<Rightarrow> bool"
  assumes ready_imp: "ready p bs nb D di s \<Longrightarrow> deblk_ready p bs nb D di s \<and> xt di \<noteq> 0"
    and T_ready: "T D B s d pos l s' \<Longrightarrow> ready p bs nb D di s \<Longrightarrow> ready p bs nb D di s'"
    and T_stack: "T D B s d pos l s' \<Longrightarrow> ds s' = ds s"
    and T_usable: "T D B s d pos l s' \<Longrightarrow> usable di bs s' e n = usable di bs s e n"
    and T_0: "ready p bs nb D di s \<Longrightarrow> T D B s d pos 0 s"
    and T_append: "T D B s d pos l s1 \<Longrightarrow> T D B s1 (d + of_nat l) (pos + l) k s2 \<Longrightarrow> l + k < 2 ^ 32 \<Longrightarrow>
          \<forall>x. B x \<longrightarrow> \<not> in_region d (l + k) x \<Longrightarrow> T D B s d pos (l + k) s2"
    and edge: "ready p bs nb D di s \<Longrightarrow> b < nb \<Longrightarrow> o' + l \<le> bs \<Longrightarrow> 0 < l \<Longrightarrow> r + l < 2 ^ 31 \<Longrightarrow> usable di bs s d l \<Longrightarrow>
          \<exists>s'. work_loop p di wr (xt di) ((False, edge_piece di o' l d) # ws) (int b) (int r) s
                 = work_loop p di wr (xt di) ws (int (b + 1)) (int (r + l)) s' \<and>
               T D (in_region (dk_buf di) bs) s d (b * bs + o') l s'"
    and middle: "ready p bs nb D di s \<Longrightarrow> b + k \<le> nb \<Longrightarrow> 0 < k \<Longrightarrow> r + k * bs < 2 ^ 31 \<Longrightarrow> usable di bs s d (k * bs) \<Longrightarrow>
          \<exists>s'. work_loop p di wr (xt di) ((True, middle_piece bs k d) # ws) (int b) (int r) s
                 = work_loop p di wr (xt di) ws (int (b + k)) (int (r + k * bs)) s' \<and>
               T D (in_region (dk_buf di) bs) s d (b * bs) (k * bs) s'"
begin

lemma edge_or_skip:
  assumes "ready p bs nb D di s" and "o' + l \<le> bs" and "r + l < 2 ^ 31" and "usable di bs s d l"
    and "0 < l \<Longrightarrow> b < nb \<and> pos = b * bs + o'"
  shows "\<exists>s'. work_loop p di wr (xt di) ((False, edge_piece di o' l d) # ws) (int b) (int r) s
                = work_loop p di wr (xt di) ws (int (b + (if l \<noteq> 0 then 1 else 0))) (int (r + l)) s' \<and>
              T D (in_region (dk_buf di) bs) s d pos l s'"
proof (cases "l = 0")
  case True
  then show ?thesis using T_0 [OF assms(1)] by (auto simp: work_loop.simps edge_piece_def middle_piece_def)
next
  case False
  then show ?thesis using edge [OF assms(1) _ assms(2) _ assms(3,4), of b ws] assms(5) by auto
qed

lemma middle_or_skip:
  assumes "ready p bs nb D di s" and "r + k * bs < 2 ^ 31" and "usable di bs s d (k * bs)"
    and "0 < k \<Longrightarrow> b + k \<le> nb \<and> pos = b * bs"
  shows "\<exists>s'. work_loop p di wr (xt di) ((True, middle_piece bs k d) # ws) (int b) (int r) s
                = work_loop p di wr (xt di) ws (int (b + k)) (int (r + k * bs)) s' \<and>
              T D (in_region (dk_buf di) bs) s d pos (k * bs) s'"
proof (cases "k = 0")
  case True
  then show ?thesis using T_0 [OF assms(1)] by (auto simp: work_loop.simps edge_piece_def middle_piece_def)
next
  case False
  then show ?thesis using middle [OF assms(1) _ _ assms(2,3), of b ws] assms(4) by auto
qed

lemma pieces:
  fixes n bs pos :: nat
  defines "h \<equiv> head_len bs pos n"
  defines "k \<equiv> (n - h) div bs" and "r \<equiv> (n - h) mod bs"
  assumes rd: "ready p bs nb D di s" and n: "n < 2 ^ 31" and fits: "pos + n \<le> nb * bs" and u: "usable di bs s d n"
  shows "\<exists>s'. work_loop p di wr (xt di)
                [(False, edge_piece di (pos mod bs) h d), (True, middle_piece bs k (d + of_nat h)),
                 (False, edge_piece di 0 r (d + of_nat (h + k * bs)))] (int (pos div bs)) 0 s = Some (int n, s') \<and>
              T D (in_region (dk_buf di) bs) s d pos n s'"
proof -
  let ?B = "in_region (dk_buf di) bs" and ?b = "pos div bs"
  define b1 where "b1 = ?b + (if h \<noteq> 0 then 1 else 0)"
  from ready_imp [OF rd] have bs: "0 < bs" "bs < 2 ^ 31" by (auto simp: deblk_ready_def)
  have hn: "h \<le> n" by (simp add: h_def head_len_le)
  have cut: "n = h + k * bs + r" using hn by (simp add: k_def r_def)
  have hb: "pos mod bs + h \<le> bs"
    using mod_less_divisor [OF bs(1), of pos] by (auto simp: h_def head_len_def min_def)
  have pb: "pos div bs * bs + pos mod bs = pos" by simp
  have inb: "b < nb" if "b * bs < nb * bs" for b using that by simp
  have sub: "usable di bs s (d + of_nat i) j" if "i + j \<le> n" for i j
    by (rule usable_sub [OF u that]) (use n in simp)
  have sep: "\<forall>x. ?B x \<longrightarrow> \<not> in_region d j x" if "j \<le> n" for j
    using u that by (auto simp: usable_def apart_def in_region_def)
  have al: "b1 * bs = pos + h" if "h < n"
    using head_aligned [OF bs(1), of pos n] that by (simp add: b1_def h_def)
  obtain s1 where 1: "work_loop p di wr (xt di) [(False, edge_piece di (pos mod bs) h d), (True, middle_piece bs k (d + of_nat h)),
        (False, edge_piece di 0 r (d + of_nat (h + k * bs)))] (int ?b) (int 0) s
      = work_loop p di wr (xt di) [(True, middle_piece bs k (d + of_nat h)), (False, edge_piece di 0 r (d + of_nat (h + k * bs)))]
          (int b1) (int (0 + h)) s1" and T1: "T D ?B s d pos h s1"
    using edge_or_skip [OF rd hb, of 0 d ?b pos] sub [of 0 h] hn n pb fits inb [of ?b] unfolding b1_def by fastforce
  have u1: "ready p bs nb D di s1" "usable di bs s1 e j = usable di bs s e j" for e j
    using T_ready [OF T1 rd] T_usable [OF T1] by simp_all
  obtain s2 where 2: "work_loop p di wr (xt di) [(True, middle_piece bs k (d + of_nat h)), (False, edge_piece di 0 r (d + of_nat (h + k * bs)))]
          (int b1) (int h) s1
      = work_loop p di wr (xt di) [(False, edge_piece di 0 r (d + of_nat (h + k * bs)))] (int (b1 + k)) (int (h + k * bs)) s2"
    and T2: "T D ?B s1 (d + of_nat h) (pos + h) (k * bs) s2"
  proof -
    have "b1 + k \<le> nb \<and> pos + h = b1 * bs" if "0 < k"
    proof -
      have lt: "h < n" using that bs(1) cut by simp
      have "(b1 + k) * bs \<le> nb * bs" using al [OF lt] fits cut by (simp add: add_mult_distrib)
      then show ?thesis using bs(1) al [OF lt] by simp
    qed
    moreover have "h + k * bs < 2 ^ 31" "usable di bs s1 (d + of_nat h) (k * bs)"
      using sub [of h "k * bs"] u1(2) cut n by auto
    ultimately show ?thesis using middle_or_skip [OF u1(1)] that by blast
  qed
  have T12: "T D ?B s d pos (h + k * bs) s2"
    by (rule T_append [OF T1 T2]) (use cut n sep in auto)
  have u2: "ready p bs nb D di s2" "usable di bs s2 e j = usable di bs s e j" for e j
    using T_ready [OF T12 rd] T_usable [OF T12] by simp_all
  obtain s3 where 3: "work_loop p di wr (xt di) [(False, edge_piece di 0 r (d + of_nat (h + k * bs)))] (int (b1 + k)) (int (h + k * bs)) s2
      = Some (int (h + k * bs + r), s3)" and T3: "T D ?B s2 (d + of_nat (h + k * bs)) (pos + (h + k * bs)) r s3"
  proof -
    have "b1 + k < nb \<and> pos + (h + k * bs) = (b1 + k) * bs + 0" if "0 < r"
    proof -
      have lt: "h < n" using that cut by simp
      have "(b1 + k) * bs < nb * bs" using al [OF lt] fits cut that by (simp add: add_mult_distrib)
      then show ?thesis using al [OF lt] inb [of "b1 + k"] by (simp add: add_mult_distrib)
    qed
    moreover have "0 + r \<le> bs" using bs(1) by (simp add: r_def less_imp_le)
    moreover have "h + k * bs + r < 2 ^ 31" "usable di bs s2 (d + of_nat (h + k * bs)) r"
      using sub [of "h + k * bs" r] u2(2) cut n by auto
    ultimately have "\<exists>s3. work_loop p di wr (xt di) [(False, edge_piece di 0 r (d + of_nat (h + k * bs)))] (int (b1 + k)) (int (h + k * bs)) s2
        = work_loop p di wr (xt di) [] (int (b1 + k + (if r \<noteq> 0 then 1 else 0))) (int (h + k * bs + r)) s3
        \<and> T D ?B s2 (d + of_nat (h + k * bs)) (pos + (h + k * bs)) r s3"
      by (intro edge_or_skip [OF u2(1)])
    then show ?thesis using that by auto
  qed
  have "T D ?B s d pos (h + k * bs + r) s3"
    by (rule T_append [OF T12 T3]) (use cut n sep in auto)
  with 1 2 3 cut show ?thesis by auto
qed

lemma do_readwrite_eq:
  assumes "ds_ok s" and dst: "ds s = of_nat n # d # rest" and n: "n < 2 ^ 31"
    and rd: "ready p bs nb D di (popped (popped s))"
    and fits: "unat (mark_of di) + n \<le> nb * bs" and u: "usable di bs s d n"
  shows "\<exists>di' s'. do_readwrite p wr (xt di) di s = Some (int n, di', s') \<and>
           mark_of di' = mark_of di + of_nat n \<and> di' = di\<lparr>mark_hi := mark_hi di', mark_lo := mark_lo di'\<rparr> \<and>
           T D (in_region (dk_buf di) bs) (popped (popped s)) d (unat (mark_of di)) n s'"
proof -
  let ?s0 = "popped (popped s)" and ?pos = "unat (mark_of di)"
  from ready_imp [OF rd] have bs: "blksize di = int bs" "0 < bs" "bs < 2 ^ 31" "nb < 2 ^ 31" "xt di \<noteq> 0"
    by (auto simp: deblk_ready_def)
  have pops: "POP s = Some (of_nat n, popped s)" "POP (popped s) = Some (d, ?s0)"
    using assms(1) dst by (simp_all add: stack_steps)
  have u0: "usable di bs ?s0 d n" using u by (simp add: usable_def)
  have blk: "sint (ucast (mark_of di div word_of_int (int bs)) :: u32) = int (?pos div bs)"
  proof -
    have "?pos div bs \<le> nb" using fits bs(2) div_le_mono [of ?pos "nb * bs" bs] by simp
    then have "unat (mark_of di div word_of_int (int bs)) < 2 ^ 31"
      using bs(4) unat_mark_mod(2) [OF bs(2,3), of "mark_of di"] by simp
    from sint_ucast_small [OF this] show ?thesis by (simp only: unat_mark_mod(2) [OF bs(2,3)])
  qed
  note sp = split_eq [OF bs(1,2,3) n, of d, unfolded bs(1) nat_int]
  from pieces [OF rd n fits u0] obtain s' where
    w: "work_loop p di wr (xt di)
         [(False, edge_piece di (?pos mod bs) (head_len bs ?pos n) d),
          (True, middle_piece bs ((n - head_len bs ?pos n) div bs) (d + of_nat (head_len bs ?pos n))),
          (False, edge_piece di 0 ((n - head_len bs ?pos n) mod bs) (d + of_nat (head_len bs ?pos n + (n - head_len bs ?pos n) div bs * bs)))]
         (int (?pos div bs)) 0 ?s0 = Some (int n, s')"
    and T: "T D (in_region (dk_buf di) bs) ?s0 d ?pos n s'" by blast
  from sp w obtain w0 w1 w2 where sp': "split di d (int n) = Some (w0, w1, w2)"
    and w': "work_loop p di wr (xt di) [(False, w0), (True, w1), (False, w2)] (int (?pos div bs)) 0 ?s0 = Some (int n, s')"
    by blast
  define di' where "di' = (if 0 < n then di\<lparr>mark_hi := ucast (drop_bit 32 (mark_of di + of_nat n)), mark_lo := ucast (mark_of di + of_nat n)\<rparr> else di)"
  have "do_readwrite p wr (xt di) di s = Some (int n, di', s')"
    unfolding do_readwrite_def pops bs(1) sint_of_nat [OF n] blk Let_def di'_def
    using bs(2,5) by (simp add: pops sint_of_nat [OF n] sp' w')
  moreover have "mark_of di' = mark_of di + of_nat n"
    by (simp add: di'_def mark_of_def join_cells_def double_cell_join)
  moreover have "di' = di\<lparr>mark_hi := mark_hi di', mark_lo := mark_lo di'\<rparr>" by (simp add: di'_def)
  ultimately show ?thesis using T by blast
qed

end

subsection \<open>Reading\<close>

text \<open>A transfer of \<open>l\<close> bytes from position \<open>pos\<close> of the device to \<open>d\<close>.\<close>

definition got :: "('w \<Rightarrow> nat \<Rightarrow> u8) \<Rightarrow> (ucell \<Rightarrow> bool) \<Rightarrow> 'w fstate \<Rightarrow> ucell \<Rightarrow> nat \<Rightarrow> nat \<Rightarrow> 'w fstate \<Rightarrow> bool" where
  "got D B s d pos l s' \<longleftrightarrow>
     ds_ok s' \<and> ds s' = ds s \<and> D (world s') = D (world s) \<and>
     filled B (mem s) d (\<lambda>i. D (world s) (pos + i)) l (mem s')"

lemma got_0: "ds_ok s \<Longrightarrow> got D B s d pos 0 s"
  by (simp add: got_def filled_0)

lemma got_append:
  assumes "got D B s d pos l s1" and "got D B s1 (d + of_nat l) (pos + l) k s2" and "l + k < 2 ^ 32"
  shows "got D B s d pos (l + k) s2"
  using assms filled_append [of B "mem s" d "\<lambda>i. D (world s) (pos + i)" l "mem s1" k "mem s2"]
  by (simp add: got_def add.assoc)

lemma got_ready:
  assumes "got D B s d pos l s'" and "deblk_ready p bs nb D di s"
  shows "deblk_ready p bs nb D di s'"
  using assms by (auto simp: got_def deblk_ready_def dest: filled_mapped)

lemma read_edge:
  assumes ok: "deblk_ready p bs nb D di s"
    and b: "b < nb" and l: "o' + l \<le> bs" "0 < l" and r: "r + l < 2 ^ 31" and u: "usable di bs s d l"
  shows "\<exists>s'. work_loop p di False (dk_read_xt di) ((False, edge_piece di o' l d) # ws) (int b) (int r) s
                = work_loop p di False (dk_read_xt di) ws (int (b + 1)) (int (r + l)) s' \<and>
              got D (in_region (dk_buf di) bs) s d (b * bs + o') l s'"
proof -
  let ?buf = "dk_buf di"
  from ok have bs: "bs < 2 ^ 31" "nb < 2 ^ 31" "mapped (mem s) ?buf bs" and st: "ds_ok s" "length (ds s) \<le> 500"
    and rd: "block_reads p (dk_read_xt di) bs nb D" by (auto simp: deblk_ready_def)
  from u have d: "mapped (mem s) d l" "apart d l ?buf bs" by (simp_all add: usable_def)
  from DO_IO_read [OF rd st, of b 1 ?buf] b bs obtain s1 where
    s1: "DO_IO p (dk_read_xt di) ?buf (int b) 1 s = Some (1, s1)" "ds_ok s1" "ds s1 = ds s" "D (world s1) = D (world s)"
      and m1: "\<And>x. mem s1 x = (if in_region ?buf bs x then Some (D (world s) (b * bs + unat (x - ?buf))) else mem s x)"
    by auto
  have dom: "mapped (mem s1) a n" if "mapped (mem s) a n" for a n
    using that m1 by (simp add: mapped_def)
  have lt: "l < 2 ^ 32" "l \<le> 2 ^ 32" using l bs by simp_all
  have "apart d l (?buf + of_nat o') l"
    using d(2) in_region_sub [of ?buf o' l _ bs] l bs unfolding apart_def by fastforce
  from memcpy_apart [OF lt(1) dom [OF d(1)] mapped_sub [OF dom [OF bs(3)] l(1)] this] obtain m2 where
    m2: "memcpy (mem s1) d (?buf + of_nat o') (of_nat l) = Some m2" "copied (mem s1) d (?buf + of_nat o') l m2"
    by blast
  let ?s2 = "s1\<lparr>mem := m2\<rparr>"
  have "filled (in_region ?buf bs) (mem s) d (\<lambda>i. D (world s) (b * bs + o' + i)) l m2"
    unfolding filled_def
  proof (intro conjI allI impI)
    fix x
    have src: "m2 x = (if in_region d l x then Some (D (world s) (b * bs + o' + unat (x - d))) else mem s1 x)"
    proof (cases "in_region d l x")
      case True
      then have i: "unat (x - d) < l" by (simp add: in_region_def)
      let ?y = "?buf + of_nat o' + (x - d)"
      have "?y - ?buf = of_nat (o' + unat (x - d))" by simp
      then have y: "unat (?y - ?buf) = o' + unat (x - d)"
        using i l bs by (simp only:) (rule unat_of_nat_small, simp)
      then have "in_region ?buf bs ?y" using i l by (simp add: in_region_def)
      then have "mem s1 ?y = Some (D (world s) (b * bs + o' + unat (x - d)))"
        using m1 [of ?y] y by (simp add: add.assoc)
      with True m2(2) show ?thesis by (simp add: copied_def)
    next
      case False
      with m2(2) show ?thesis by (simp add: copied_def)
    qed
    have "mem s x \<noteq> None" if "in_region d l x"
      using that d(1) lt(2) by (simp add: mapped_iff)
    moreover have "mem s x \<noteq> None" if "in_region ?buf bs x"
      using that bs by (simp add: mapped_iff)
    ultimately show "(m2 x = None) = (mem s x = None)" using src m1 [of x] by auto
    assume "\<not> in_region ?buf bs x"
    with src m1 [of x] show "m2 x = (if in_region d l x then Some (D (world s) (b * bs + o' + unat (x - d))) else mem s x)"
      by simp
  qed
  then have g: "got D (in_region ?buf bs) s d (b * bs + o') l ?s2" using s1 by (simp add: got_def)
  have "work_loop p di False (dk_read_xt di) ((False, edge_piece di o' l d) # ws) (int b) (int r) s
          = work_loop p di False (dk_read_xt di) ws (int (b + 1)) (int (r + l)) ?s2"
  proof -
    have c: "cint (int r + int l) = Some (int (r + l))" "cint (int b + 1) = Some (int (b + 1))"
      using r b bs cint_nat [of "r + l"] cint_nat [of "b + 1"] by (simp_all add: add.commute)
    show ?thesis using s1(1) m2(1) l(2) by (simp add: work_loop.simps edge_piece_def middle_piece_def c)
  qed
  with g show ?thesis by blast
qed

lemma read_middle:
  assumes ok: "deblk_ready p bs nb D di s"
    and b: "b + k \<le> nb" and k: "0 < k" and r: "r + k * bs < 2 ^ 31" and u: "usable di bs s d (k * bs)"
  shows "\<exists>s'. work_loop p di False (dk_read_xt di) ((True, middle_piece bs k d) # ws) (int b) (int r) s
                = work_loop p di False (dk_read_xt di) ws (int (b + k)) (int (r + k * bs)) s' \<and>
              got D B s d (b * bs) (k * bs) s'"
proof -
  from ok have bs: "nb < 2 ^ 31" and st: "ds_ok s" "length (ds s) \<le> 500"
    and rd: "block_reads p (dk_read_xt di) bs nb D" by (auto simp: deblk_ready_def)
  from u have d: "mapped (mem s) d (k * bs)" by (simp add: usable_def)
  have l: "k * bs < 2 ^ 32" using r by simp
  from DO_IO_read [OF rd st b bs l d] obtain s1 where
    s1: "DO_IO p (dk_read_xt di) d (int b) (int k) s = Some (int k, s1)" "ds_ok s1" "ds s1 = ds s" "D (world s1) = D (world s)"
      and m1: "\<And>x. mem s1 x = (if in_region d (k * bs) x then Some (D (world s) (b * bs + unat (x - d))) else mem s x)"
    by auto
  have "filled B (mem s) d (\<lambda>i. D (world s) (b * bs + i)) (k * bs) (mem s1)"
    unfolding filled_def using m1 d l by (auto simp: mapped_iff)
  then have g: "got D B s d (b * bs) (k * bs) s1" using s1 by (simp add: got_def)
  have c: "cint (int r + int k * int bs) = Some (int (r + k * bs))" "cint (int b + int k) = Some (int (b + k))"
    using r b bs cint_nat [of "r + k * bs"] cint_nat [of "b + k"] by simp_all
  have "work_loop p di False (dk_read_xt di) ((True, middle_piece bs k d) # ws) (int b) (int r) s
          = work_loop p di False (dk_read_xt di) ws (int (b + k)) (int (r + k * bs)) s1"
    using s1(1) k by (simp add: work_loop.simps edge_piece_def middle_piece_def c)
  with g show ?thesis by blast
qed

interpretation rd: transfer False dk_read_xt deblk_ready got
proof
  fix p :: "'w pkg_env" and D B di and s s' s1 s2 :: "'w fstate" and d e :: ucell and bs nb pos l k b o' r n :: nat and ws
  show "deblk_ready p bs nb D di s \<Longrightarrow> deblk_ready p bs nb D di s \<and> dk_read_xt di \<noteq> 0"
    by (simp add: deblk_ready_def)
  show "got D B s d pos l s' \<Longrightarrow> ds s' = ds s" by (simp add: got_def)
  show "got D B s d pos l s' \<Longrightarrow> usable di bs s' e n = usable di bs s e n"
    by (auto simp: got_def usable_def dest: filled_mapped)
  show "deblk_ready p bs nb D di s \<Longrightarrow> got D B s d pos 0 s" by (simp add: deblk_ready_def got_0)
  show "got D B s d pos l s1 \<Longrightarrow> got D B s1 (d + of_nat l) (pos + l) k s2 \<Longrightarrow> l + k < 2 ^ 32 \<Longrightarrow>
          \<forall>x. B x \<longrightarrow> \<not> in_region d (l + k) x \<Longrightarrow> got D B s d pos (l + k) s2"
    by (rule got_append)
qed (rule read_edge read_middle got_ready; assumption)+

subsection \<open>Writing\<close>

text \<open>A transfer of \<open>l\<close> bytes from \<open>d\<close> to position \<open>pos\<close> of the device.\<close>

definition write_ready :: "'w pkg_env \<Rightarrow> nat \<Rightarrow> nat \<Rightarrow> ('w \<Rightarrow> nat \<Rightarrow> u8) \<Rightarrow> deblk_info \<Rightarrow> 'w fstate \<Rightarrow> bool" where
  "write_ready p bs nb D di s \<longleftrightarrow>
     deblk_ready p bs nb D di s \<and> block_writes p (dk_write_xt di) bs nb D \<and> dk_write_xt di \<noteq> 0"

definition gave :: "('w \<Rightarrow> nat \<Rightarrow> u8) \<Rightarrow> (ucell \<Rightarrow> bool) \<Rightarrow> 'w fstate \<Rightarrow> ucell \<Rightarrow> nat \<Rightarrow> nat \<Rightarrow> 'w fstate \<Rightarrow> bool" where
  "gave D B s d pos l s' \<longleftrightarrow>
     ds_ok s' \<and> ds s' = ds s \<and> (\<forall>x. (mem s' x = None) = (mem s x = None)) \<and>
     (\<forall>x. \<not> B x \<longrightarrow> mem s' x = mem s x) \<and> D (world s') = stored (mem s) d pos l (D (world s))"

lemma stored_0: "stored m d pos 0 f = f"
  by (auto simp: stored_def fun_eq_iff)

lemma stored_append:
  assumes "\<And>i. i < l + k \<Longrightarrow> m1 (d + of_nat i) = m (d + of_nat i)"
  shows "stored m1 (d + of_nat l) (pos + l) k (stored m d pos l D) = stored m d pos (l + k) D"
proof
  fix i
  show "stored m1 (d + of_nat l) (pos + l) k (stored m d pos l D) i = stored m d pos (l + k) D i"
  proof (cases "pos + l \<le> i \<and> i < pos + l + k")
    case True
    then have "d + of_nat l + of_nat (i - (pos + l)) = d + of_nat (i - pos)"
      using of_nat_add [of l "i - (pos + l)", where 'a = "32 word"] by (simp add: add.assoc)
    moreover have "m1 (d + of_nat (i - pos)) = m (d + of_nat (i - pos))" using True by (intro assms) arith
    ultimately show ?thesis using True by (simp add: stored_def add.assoc)
  next
    case False
    then show ?thesis by (auto simp: stored_def)
  qed
qed

lemma gave_append:
  assumes "gave D B s d pos l s1" and "gave D B s1 (d + of_nat l) (pos + l) k s2" and "l + k < 2 ^ 32"
    and "\<forall>x. B x \<longrightarrow> \<not> in_region d (l + k) x"
  shows "gave D B s d pos (l + k) s2"
proof -
  have "mem s1 (d + of_nat i) = mem s (d + of_nat i)" if "i < l + k" for i
    using in_region_add [OF that, of d] assms by (auto simp: gave_def)
  from stored_append [of l k "mem s1" d "mem s" pos, OF this] show ?thesis
    using assms(1,2) by (simp add: gave_def)
qed

lemma stored_block:
  assumes m1: "\<And>x. m1 x = (if in_region buf bs x then Some (D (b * bs + unat (x - buf))) else m x)"
    and m2: "copied m1 (buf + of_nat o') d l m2"
    and l: "o' + l \<le> bs" and bs: "bs < 2 ^ 31" and ap: "apart d l buf bs"
  shows "stored m2 buf (b * bs) bs D = stored m d (b * bs + o') l D"
proof
  fix i
  show "stored m2 buf (b * bs) bs D i = stored m d (b * bs + o') l D i"
  proof (cases "b * bs \<le> i \<and> i < b * bs + bs")
    case True
    define j where "j = i - b * bs"
    have j: "i = b * bs + j" "j < bs" using True by (auto simp: j_def)
    have u: "unat (of_nat j :: ucell) = j" using j(2) bs by (simp add: unat_of_nat_small)
    have reg: "in_region (buf + of_nat o') l (buf + of_nat j) \<longleftrightarrow> o' \<le> j \<and> j < o' + l"
    proof (cases "o' \<le> j")
      case True
      have "buf + of_nat j - (buf + of_nat o') = (of_nat (j - o') :: ucell)" using True by (simp add: of_nat_diff)
      moreover have "unat (of_nat (j - o') :: ucell) = j - o'" using j(2) bs by (intro unat_of_nat_small) simp
      ultimately show ?thesis unfolding in_region_def using True by (simp only:) arith
    next
      case False
      show ?thesis
      proof
        assume "in_region (buf + of_nat o') l (buf + of_nat j)"
        then obtain t where t: "t < l" "buf + of_nat j = buf + of_nat o' + of_nat t"
          using l bs by (auto simp: in_region_offset)
        then have "(of_nat j :: ucell) = of_nat (o' + t)" by (simp add: add.assoc)
        then have "j = o' + t" using u t(1) l bs unat_of_nat_small [of "o' + t", where 'a = 32] by simp
        then show "o' \<le> j \<and> j < o' + l" using False by simp
      qed (use False in simp)
    qed
    have old: "m1 (buf + of_nat j) = Some (D i)" using j u in_region_add [OF j(2), of buf] bs by (simp add: m1)
    show ?thesis
    proof (cases "o' \<le> j \<and> j < o' + l")
      case True
      have e: "d + (buf + of_nat j - (buf + of_nat o')) = d + of_nat (j - o')" using True by (simp add: of_nat_diff)
      have "in_region d l (d + of_nat (j - o'))" using True l bs by (intro in_region_add) auto
      then have "\<not> in_region buf bs (d + of_nat (j - o'))" using ap by (simp add: apart_def)
      then have "m2 (buf + of_nat j) = m (d + of_nat (j - o'))"
        using m2 reg True e by (simp add: copied_def m1)
      then show ?thesis using j True by (simp add: stored_def)
    next
      case False
      then have "m2 (buf + of_nat j) = Some (D i)" using m2 reg old by (auto simp: copied_def)
      then show ?thesis using j False by (auto simp: stored_def)
    qed
  next
    case False
    then show ?thesis using l by (auto simp: stored_def)
  qed
qed

lemma gave_ready:
  assumes "gave D B s d pos l s'" and "write_ready p bs nb D di s"
  shows "write_ready p bs nb D di s'"
  using assms by (auto simp: gave_def write_ready_def deblk_ready_def mapped_def)

lemma write_edge:
  assumes ok: "write_ready p bs nb D di s"
    and b: "b < nb" and l: "o' + l \<le> bs" "0 < l" and r: "r + l < 2 ^ 31" and u: "usable di bs s d l"
  shows "\<exists>s'. work_loop p di True (dk_write_xt di) ((False, edge_piece di o' l d) # ws) (int b) (int r) s
                = work_loop p di True (dk_write_xt di) ws (int (b + 1)) (int (r + l)) s' \<and>
              gave D (in_region (dk_buf di) bs) s d (b * bs + o') l s'"
proof -
  let ?buf = "dk_buf di"
  from ok have bs: "bs < 2 ^ 31" "nb < 2 ^ 31" "mapped (mem s) ?buf bs" and st: "ds_ok s" "length (ds s) \<le> 500"
    and rd: "block_reads p (dk_read_xt di) bs nb D" and wr: "block_writes p (dk_write_xt di) bs nb D"
    by (auto simp: deblk_ready_def write_ready_def)
  from u have d: "mapped (mem s) d l" "apart d l ?buf bs" by (simp_all add: usable_def)
  from DO_IO_read [OF rd st, of b 1 ?buf] b bs obtain s1 where
    s1: "DO_IO p (dk_read_xt di) ?buf (int b) 1 s = Some (1, s1)" "ds_ok s1" "ds s1 = ds s" "D (world s1) = D (world s)"
      and m1: "\<And>x. mem s1 x = (if in_region ?buf bs x then Some (D (world s) (b * bs + unat (x - ?buf))) else mem s x)"
    by auto
  have dom: "mapped (mem s1) a n" if "mapped (mem s) a n" for a n using that m1 by (simp add: mapped_def)
  have lt: "l < 2 ^ 32" using l bs by simp
  have sub: "in_region ?buf bs x" if "in_region (?buf + of_nat o') l x" for x
    using in_region_sub [OF that l(1)] bs by simp
  then have "apart (?buf + of_nat o') l d l" using d(2) unfolding apart_def by blast
  from memcpy_apart [OF lt mapped_sub [OF dom [OF bs(3)] l(1)] dom [OF d(1)] this] obtain m2 where
    m2: "memcpy (mem s1) (?buf + of_nat o') d (of_nat l) = Some m2" and c: "copied (mem s1) (?buf + of_nat o') d l m2"
    by blast
  have same: "m2 x = mem s x" if "\<not> in_region ?buf bs x" for x
    using that c sub m1 [of x] by (auto simp: copied_def)
  have dm: "(m2 x = None) = (mem s x = None)" for x
  proof (cases "in_region ?buf bs x")
    case True
    then have "mem s x \<noteq> None" "mem s1 x \<noteq> None" using bs m1 by (auto simp: mapped_iff)
    moreover have "mem s1 (d + (x - (?buf + of_nat o'))) \<noteq> None" if "in_region (?buf + of_nat o') l x"
      using that dom [OF d(1)] lt by (auto simp: mapped_iff in_region_def)
    ultimately show ?thesis using c by (auto simp: copied_def)
  qed (simp add: same)
  let ?s2 = "s1\<lparr>mem := m2\<rparr>"
  have "mapped m2 ?buf bs" using bs(3) dm by (simp add: mapped_def)
  with DO_IO_write [OF wr, of ?s2 b 1 ?buf] s1 st b bs obtain s3 where
    s3: "DO_IO p (dk_write_xt di) ?buf (int b) 1 ?s2 = Some (1, s3)" "ds_ok s3" "ds s3 = ds s" "mem s3 = m2"
      "D (world s3) = stored m2 ?buf (b * bs) bs (D (world s))" by auto
  have "gave D (in_region ?buf bs) s d (b * bs + o') l s3"
    using s3 same dm stored_block [OF m1 c l(1) bs(1) d(2)] by (simp add: gave_def)
  moreover have "work_loop p di True (dk_write_xt di) ((False, edge_piece di o' l d) # ws) (int b) (int r) s
          = work_loop p di True (dk_write_xt di) ws (int (b + 1)) (int (r + l)) s3"
  proof -
    have c: "cint (int r + int l) = Some (int (r + l))" "cint (int b + 1) = Some (int (b + 1))"
      using r b bs cint_nat [of "r + l"] cint_nat [of "b + 1"] by (simp_all add: add.commute)
    show ?thesis using s1(1) m2 s3(1) l(2) by (simp add: work_loop.simps edge_piece_def c)
  qed
  ultimately show ?thesis by blast
qed

lemma write_middle:
  assumes ok: "write_ready p bs nb D di s"
    and b: "b + k \<le> nb" and k: "0 < k" and r: "r + k * bs < 2 ^ 31" and u: "usable di bs s d (k * bs)"
  shows "\<exists>s'. work_loop p di True (dk_write_xt di) ((True, middle_piece bs k d) # ws) (int b) (int r) s
                = work_loop p di True (dk_write_xt di) ws (int (b + k)) (int (r + k * bs)) s' \<and>
              gave D B s d (b * bs) (k * bs) s'"
proof -
  from ok have bs: "nb < 2 ^ 31" and st: "ds_ok s" "length (ds s) \<le> 500"
    and wr: "block_writes p (dk_write_xt di) bs nb D" by (auto simp: deblk_ready_def write_ready_def)
  from u have d: "mapped (mem s) d (k * bs)" by (simp add: usable_def)
  have l: "k * bs < 2 ^ 32" using r by simp
  from DO_IO_write [OF wr st b bs l d] obtain s1 where
    s1: "DO_IO p (dk_write_xt di) d (int b) (int k) s = Some (int k, s1)" "ds_ok s1" "ds s1 = ds s" "mem s1 = mem s"
      "D (world s1) = stored (mem s) d (b * bs) (k * bs) (D (world s))" by auto
  have c: "cint (int r + int k * int bs) = Some (int (r + k * bs))" "cint (int b + int k) = Some (int (b + k))"
    using r b bs cint_nat [of "r + k * bs"] cint_nat [of "b + k"] by simp_all
  have "work_loop p di True (dk_write_xt di) ((True, middle_piece bs k d) # ws) (int b) (int r) s
          = work_loop p di True (dk_write_xt di) ws (int (b + k)) (int (r + k * bs)) s1"
    using s1(1) k by (simp add: work_loop.simps middle_piece_def c)
  moreover have "gave D B s d (b * bs) (k * bs) s1" using s1 by (simp add: gave_def)
  ultimately show ?thesis by blast
qed

interpretation wr: transfer True dk_write_xt write_ready gave
proof
  fix p :: "'w pkg_env" and D B di and s s' s1 s2 :: "'w fstate" and d e :: ucell and bs nb pos l k b o' r n :: nat and ws
  show "write_ready p bs nb D di s \<Longrightarrow> deblk_ready p bs nb D di s \<and> dk_write_xt di \<noteq> 0"
    by (simp add: write_ready_def)
  show "gave D B s d pos l s' \<Longrightarrow> ds s' = ds s" by (simp add: gave_def)
  show "gave D B s d pos l s' \<Longrightarrow> usable di bs s' e n = usable di bs s e n"
    by (auto simp: gave_def usable_def mapped_def)
  show "write_ready p bs nb D di s \<Longrightarrow> gave D B s d pos 0 s"
    by (simp add: write_ready_def deblk_ready_def gave_def stored_0)
qed (rule write_edge write_middle gave_ready gave_append; assumption)+

subsection \<open>Properties\<close>

text \<open>The stack and the region a call names, with room on the stack for the parent's arguments.\<close>

definition io_args :: "deblk_info \<Rightarrow> nat \<Rightarrow> 'w fstate \<Rightarrow> ucell \<Rightarrow> nat \<Rightarrow> cell list \<Rightarrow> bool" where
  "io_args di bs s d n rest \<longleftrightarrow> ds_ok s \<and> ds s = of_nat n # d # rest \<and> n < 2 ^ 31 \<and> usable di bs s d n"

lemma deblk_ready_pops:
  assumes "deblk_ready p bs nb D di s" and "ds s = x # y # rest"
  shows "deblk_ready p bs nb D di (popped (popped s))" "ds (popped (popped s)) = rest" "ds_ok (popped (popped s))"
  using assms by (auto simp: deblk_ready_def stack_steps)

lemma deblk_read_eq:
  assumes rd: "deblk_ready p bs nb D di s" and a: "io_args di bs s d n rest"
    and fits: "unat (mark_of di) + n \<le> nb * bs"
  shows "\<exists>di' s'. deblk_read p di s = Some (di', s') \<and> ds_ok s' \<and> ds s' = of_nat n # rest \<and>
           mark_of di' = mark_of di + of_nat n \<and> di' = di\<lparr>mark_hi := mark_hi di', mark_lo := mark_lo di'\<rparr> \<and>
           D (world s') = D (world s) \<and>
           filled (in_region (dk_buf di) bs) (mem s) d (\<lambda>i. D (world s) (unat (mark_of di) + i)) n (mem s')"
proof -
  note a' = a [unfolded io_args_def]
  have st: "ds_ok s" "ds s = of_nat n # d # rest" "n < 2 ^ 31" "usable di bs s d n" using a' by auto
  note pp = deblk_ready_pops [OF rd st(2)]
  from rd.do_readwrite_eq [OF st(1-3) pp(1) fits st(4)] obtain di' s' where
    1: "do_readwrite p False (dk_read_xt di) di s = Some (int n, di', s')" "mark_of di' = mark_of di + of_nat n"
      "di' = di\<lparr>mark_hi := mark_hi di', mark_lo := mark_lo di'\<rparr>"
      "got D (in_region (dk_buf di) bs) (popped (popped s)) d (unat (mark_of di)) n s'" by blast
  have s': "ds_ok s'" "ds s' = rest" "length (ds s') \<le> 500"
    using 1(4) pp rd by (auto simp: got_def deblk_ready_def st(2))
  then have "deblk_read p di s = Some (di', pushed (of_nat n) s')"
    by (simp add: deblk_read_def 1(1) push_step)
  moreover have "D (world s') = D (world s)" "filled (in_region (dk_buf di) bs) (mem s) d (\<lambda>i. D (world s) (unat (mark_of di) + i)) n (mem s')"
    using 1(4) by (simp_all add: got_def)
  ultimately show ?thesis using 1(2,3) s' by (auto simp: stack_steps)
qed

lemma deblk_write_eq:
  assumes rd: "write_ready p bs nb D di s" and a: "io_args di bs s d n rest"
    and fits: "unat (mark_of di) + n \<le> nb * bs"
  shows "\<exists>di' s'. deblk_write p di s = Some (di', s') \<and> ds_ok s' \<and> ds s' = of_nat n # rest \<and>
           mark_of di' = mark_of di + of_nat n \<and> di' = di\<lparr>mark_hi := mark_hi di', mark_lo := mark_lo di'\<rparr> \<and>
           D (world s') = stored (mem s) d (unat (mark_of di)) n (D (world s)) \<and>
           (\<forall>x. (mem s' x = None) = (mem s x = None)) \<and> (\<forall>x. \<not> in_region (dk_buf di) bs x \<longrightarrow> mem s' x = mem s x)"
proof -
  note a' = a [unfolded io_args_def]
  have st: "ds_ok s" "ds s = of_nat n # d # rest" "n < 2 ^ 31" "usable di bs s d n" using a' by auto
  have rd1: "deblk_ready p bs nb D di s" using rd by (simp add: write_ready_def)
  note pp = deblk_ready_pops [OF rd1 st(2)]
  have pr: "write_ready p bs nb D di (popped (popped s))" using rd pp by (simp add: write_ready_def)
  from wr.do_readwrite_eq [OF st(1-3) pr fits st(4)] obtain di' s' where
    1: "do_readwrite p True (dk_write_xt di) di s = Some (int n, di', s')" "mark_of di' = mark_of di + of_nat n"
      "di' = di\<lparr>mark_hi := mark_hi di', mark_lo := mark_lo di'\<rparr>"
      "gave D (in_region (dk_buf di) bs) (popped (popped s)) d (unat (mark_of di)) n s'" by blast
  have s': "ds_ok s'" "ds s' = rest" "length (ds s') \<le> 500"
    using 1(4) pp rd1 by (auto simp: gave_def deblk_ready_def st(2))
  then have "deblk_write p di s = Some (di', pushed (of_nat n) s')"
    by (simp add: deblk_write_def 1(1) push_step)
  then show ?thesis using 1(2-4) s' by (auto simp: stack_steps gave_def)
qed

lemma deblk_seek_eq:
  assumes "ds_ok s" and "ds s = hi # lo # rest" and "join_cells hi lo \<noteq> - 1"
  shows "\<exists>s'. deblk_seek di s = Some (di\<lparr>mark_hi := hi, mark_lo := lo\<rparr>, s') \<and> ds_ok s' \<and> ds s' = 0 # rest \<and>
           mem s' = mem s \<and> world s' = world s"
proof -
  have "length (ds s) \<le> 511" using assms(1) by (auto simp: ds_ok_def ds_def nat_le_iff)
  then show ?thesis using assms by (auto simp: deblk_seek_def stack_steps Let_def)
qed

text \<open>A concrete parent: a disk of bytes that answers \<open>read-blocks\<close> (token 1) and \<open>write-blocks\<close> (token 2).\<close>

definition disk_call :: "nat \<Rightarrow> (nat \<Rightarrow> u8) fstate \<Rightarrow> (nat \<Rightarrow> u8) fstate option" where
  "disk_call bs s =
     do { (xt, s) \<leftarrow> POP s; (n, s) \<leftarrow> POP s; (b, s) \<leftarrow> POP s; (a, s) \<leftarrow> POP s;
          let k = unat n * bs;
          let s = (if xt = 1
                   then s\<lparr>mem := (\<lambda>x. if in_region a k x then Some (world s (unat b * bs + unat (x - a))) else mem s x)\<rparr>
                   else s\<lparr>world := stored (mem s) a (unat b * bs) k (world s)\<rparr>);
          PUSH n s }"

definition disk_env :: "nat \<Rightarrow> (nat \<Rightarrow> u8) pkg_env" where
  "disk_env bs = \<lparr>fword = (\<lambda>w s. if w = ''call-parent'' then disk_call bs s else None),
     eword = (\<lambda>_ _ _. None), selfword = (\<lambda>_ _. None), parword = (\<lambda>_ _. None), run_xt = (\<lambda>_ _. None),
     call1_func_addr = 0, call_c = (\<lambda>_ _ _. None), malloc = (\<lambda>_ _. None), free = (\<lambda>_ s. Some s),
     load = (\<lambda>_ s. Some s), lit = (\<lambda>_. 0), message = (\<lambda>_ _ s. s)\<rparr>"

lemma ds_world [simp]: "ds (s\<lparr>world := w\<rparr>) = ds s" "ds_ok (s\<lparr>world := w\<rparr>) = ds_ok s"
  by (simp_all add: ds_def ds_ok_def)

lemma disk_reads: "block_reads (disk_env bs) 1 bs nb (\<lambda>w. w)"
  unfolding block_reads_def
  by (intro allI impI, elim conjE) (simp add: disk_env_def call_parent_def disk_call_def Let_def stack_steps)

lemma disk_writes: "block_writes (disk_env bs) 2 bs nb (\<lambda>w. w)"
  unfolding block_writes_def
  by (intro allI impI, elim conjE) (simp add: disk_env_def call_parent_def disk_call_def Let_def stack_steps)

definition demo_di :: deblk_info where
  "demo_di = \<lparr>mark_hi = 0, mark_lo = 3, dk_read_xt = 1, dk_write_xt = 2, max_xfer = 512, blksize = 4, dk_buf = 0x1000\<rparr>"

definition demo_fs :: "ucell \<Rightarrow> (nat \<Rightarrow> u8) \<Rightarrow> (nat \<Rightarrow> u8) fstate" where
  "demo_fs d f = pushed 7 (pushed d (init_fstate (\<lambda>x. Some (ucast x)) f))"

lemma demo_ready:
  "write_ready (disk_env 4) 4 16 (\<lambda>w. w) demo_di (demo_fs d f)" "deblk_ready (disk_env 4) 4 16 (\<lambda>w. w) demo_di (demo_fs d f)"
  "apart d 7 0x1000 4 \<Longrightarrow> io_args demo_di 4 (demo_fs d f) d 7 []" "unat (mark_of demo_di) = 3"
proof -
  let ?s = "init_fstate (\<lambda>x. Some (ucast x)) f"
  have "ds_ok ?s" "ds ?s = []" "mem ?s = (\<lambda>x. Some (ucast x))" by (simp_all add: init_fstate_def ds_ok_def ds_def)
  then have st: "ds_ok (demo_fs d f)" "ds (demo_fs d f) = [7, d]" "mem (demo_fs d f) = (\<lambda>x. Some (ucast x))"
    by (simp_all add: demo_fs_def ds_ok_pushed ds_pushed)
  show "deblk_ready (disk_env 4) 4 16 (\<lambda>w. w) demo_di (demo_fs d f)"
    using st disk_reads by (simp add: deblk_ready_def demo_di_def mapped_def)
  then show "write_ready (disk_env 4) 4 16 (\<lambda>w. w) demo_di (demo_fs d f)"
    using disk_writes by (simp add: write_ready_def demo_di_def)
  show "apart d 7 0x1000 4 \<Longrightarrow> io_args demo_di 4 (demo_fs d f) d 7 []"
    using st by (simp add: io_args_def usable_def demo_di_def mapped_def)
  show "unat (mark_of demo_di) = 3" by (simp add: mark_of_def demo_di_def join_cells_def)
qed

text \<open>
  C26: A read refines the read of a plain byte device. On a device of \<open>nb\<close> blocks of \<open>bs\<close> bytes with contents
  \<open>D\<close>, \<open>deblk_read\<close> at any mark and for any length that stays on the device returns the full length, puts exactly
  the bytes \<open>D mark, D (mark + 1), \<dots>\<close> at the address given, advances the mark by the length, and
  changes no other memory than its block buffer, whatever the alignment of the two ends.
\<close>

theorem deblk_read_refines:
  assumes "deblk_ready p bs nb D di s" and "io_args di bs s d n rest"
    and "unat (mark_of di) + n \<le> nb * bs"
  shows "\<exists>di' s'. deblk_read p di s = Some (di', s') \<and> ds s' = of_nat n # rest \<and>
           mark_of di' = mark_of di + of_nat n \<and> D (world s') = D (world s) \<and>
           (\<forall>i < n. mem s' (d + of_nat i) = Some (D (world s) (unat (mark_of di) + i))) \<and>
           (\<forall>x. \<not> in_region d n x \<and> \<not> in_region (dk_buf di) bs x \<longrightarrow> mem s' x = mem s x)"
proof -
  from deblk_read_eq [OF assms] obtain di' s' where
    1: "deblk_read p di s = Some (di', s')" "ds s' = of_nat n # rest" "mark_of di' = mark_of di + of_nat n"
      "D (world s') = D (world s)"
      "filled (in_region (dk_buf di) bs) (mem s) d (\<lambda>i. D (world s) (unat (mark_of di) + i)) n (mem s')" by blast
  have a: "apart d n (dk_buf di) bs" "n < 2 ^ 31" using assms(2) by (auto simp: io_args_def usable_def)
  have "mem s' (d + of_nat i) = Some (D (world s) (unat (mark_of di) + i))" if "i < n" for i
  proof -
    have "in_region d n (d + of_nat i)" using that a(2) by (intro in_region_add) auto
    moreover from this have "\<not> in_region (dk_buf di) bs (d + of_nat i)" using a(1) by (simp add: apart_def)
    moreover have "unat (of_nat i :: ucell) = i" using that a(2) by (simp add: unat_of_nat_small)
    ultimately show ?thesis using 1(5) by (simp add: filled_def)
  qed
  moreover have "mem s' x = mem s x" if "\<not> in_region d n x \<and> \<not> in_region (dk_buf di) bs x" for x
    using 1(5) that by (simp add: filled_def)
  ultimately show ?thesis using 1(1-4) by blast
qed

theorem deblk_read_refines_witness:
  "\<exists>di' s'. deblk_read (disk_env 4) demo_di (demo_fs 0x2000 of_nat) = Some (di', s') \<and> ds s' = [7] \<and>
     mark_of di' = 10 \<and> mem s' 0x2005 = Some 8"
proof -
  have ap: "apart 0x2000 7 0x1000 4" by (subst apart_sym) (rule apart_no_wrap, simp_all)
  have m: "mark_of demo_di = 3" by (simp add: mark_of_def demo_di_def join_cells_def)
  from deblk_read_refines [OF demo_ready(2) demo_ready(3) [OF ap, of of_nat]] obtain di' s' where
    1: "deblk_read (disk_env 4) demo_di (demo_fs 0x2000 of_nat) = Some (di', s')" "ds s' = [of_nat 7]"
      "mark_of di' = mark_of demo_di + of_nat 7"
      "\<forall>i < 7. mem s' (0x2000 + of_nat i) = Some (world (demo_fs 0x2000 of_nat) (unat (mark_of demo_di) + i))"
    using demo_ready(4) by auto
  have "mem s' (0x2000 + of_nat 5) = Some (of_nat 8)" using 1(4) [rule_format, of 5] demo_ready(4)
    by (simp add: demo_fs_def init_fstate_def)
  with 1 m show ?thesis by auto
qed

text \<open>
  C27: What was written is read back. \<open>deblk_write\<close> of \<open>n\<close> bytes at any mark, for any length that stays on the device,
  changes exactly those bytes of the device (also when both ends lie inside a block), and a later \<open>deblk_read\<close> of the same length from the same mark
  returns the bytes that were at the source address.
\<close>

theorem deblk_write_read:
  assumes "write_ready p bs nb D di s" and "io_args di bs s d n rest"
    and "unat (mark_of di) + n \<le> nb * bs"
  shows "\<exists>di1 s1. deblk_write p di s = Some (di1, s1) \<and> ds s1 = of_nat n # rest \<and>
           mark_of di1 = mark_of di + of_nat n \<and>
           D (world s1) = stored (mem s) d (unat (mark_of di)) n (D (world s)) \<and>
           (\<forall>di2 s2 e rest2. deblk_ready p bs nb D di2 s2 \<and> D (world s2) = D (world s1) \<and>
              mark_of di2 = mark_of di \<and> io_args di2 bs s2 e n rest2 \<longrightarrow>
              (\<exists>di3 s3. deblk_read p di2 s2 = Some (di3, s3) \<and> ds s3 = of_nat n # rest2 \<and>
                 (\<forall>i < n. mem s3 (e + of_nat i) = mem s (d + of_nat i))))"
proof -
  from deblk_write_eq [OF assms] obtain di1 s1 where
    1: "deblk_write p di s = Some (di1, s1)" "ds s1 = of_nat n # rest" "mark_of di1 = mark_of di + of_nat n"
      "D (world s1) = stored (mem s) d (unat (mark_of di)) n (D (world s))" by blast
  have "\<exists>di3 s3. deblk_read p di2 s2 = Some (di3, s3) \<and> ds s3 = of_nat n # rest2 \<and>
          (\<forall>i < n. mem s3 (e + of_nat i) = mem s (d + of_nat i))"
    if rd: "deblk_ready p bs nb D di2 s2" and w: "D (world s2) = D (world s1)" and m: "mark_of di2 = mark_of di"
      and a: "io_args di2 bs s2 e n rest2" for di2 s2 e rest2
  proof -
    from deblk_read_eq [OF rd a] assms(3) m obtain di3 s3 where
      3: "deblk_read p di2 s2 = Some (di3, s3)" "ds s3 = of_nat n # rest2"
        "filled (in_region (dk_buf di2) bs) (mem s2) e (\<lambda>i. D (world s2) (unat (mark_of di2) + i)) n (mem s3)" by auto
    have "mem s3 (e + of_nat i) = mem s (d + of_nat i)" if i: "i < n" for i
    proof -
      have n: "n < 2 ^ 31" and ap: "apart e n (dk_buf di2) bs" and mp: "mapped (mem s) d n"
        using a assms(2) by (auto simp: io_args_def usable_def)
      have r: "in_region e n (e + of_nat i)" using i n by (intro in_region_add) auto
      then have "\<not> in_region (dk_buf di2) bs (e + of_nat i)" using ap by (simp add: apart_def)
      moreover have "unat (of_nat i :: ucell) = i" using i n by (simp add: unat_of_nat_small)
      ultimately have "mem s3 (e + of_nat i) = Some (D (world s2) (unat (mark_of di) + i))"
        using 3(3) r m by (simp add: filled_def)
      also have "\<dots> = mem s (d + of_nat i)"
        using i mp by (auto simp: w 1(4) stored_def mapped_def)
      finally show ?thesis .
    qed
    with 3 show ?thesis by blast
  qed
  with 1 show ?thesis by blast
qed

theorem deblk_write_read_witness:
  "\<exists>di1 s1 di3 s3. deblk_write (disk_env 4) demo_di (demo_fs 0x2000 (\<lambda>_. 9)) = Some (di1, s1) \<and> ds s1 = [7] \<and>
     deblk_read (disk_env 4) demo_di (demo_fs 0x3000 (world s1)) = Some (di3, s3) \<and> mem s3 0x3005 = Some 5"
proof -
  have ap: "apart 0x2000 7 0x1000 4" "apart 0x3000 7 0x1000 4" by (subst apart_sym, rule apart_no_wrap, simp_all)+
  from deblk_write_read [OF demo_ready(1) demo_ready(3) [OF ap(1), of "\<lambda>_. 9"]] demo_ready(4) obtain di1 s1 where
    1: "deblk_write (disk_env 4) demo_di (demo_fs 0x2000 (\<lambda>_. 9)) = Some (di1, s1)" "ds s1 = [of_nat 7]"
      "\<forall>di2 s2 e rest2. deblk_ready (disk_env 4) 4 16 (\<lambda>w. w) di2 s2 \<and> world s2 = world s1 \<and>
              mark_of di2 = mark_of demo_di \<and> io_args di2 4 s2 e 7 rest2 \<longrightarrow>
              (\<exists>di3 s3. deblk_read (disk_env 4) di2 s2 = Some (di3, s3) \<and> ds s3 = of_nat 7 # rest2 \<and>
                 (\<forall>i < 7. mem s3 (e + of_nat i) = mem (demo_fs 0x2000 (\<lambda>_. 9)) (0x2000 + of_nat i)))" by auto
  have "world (demo_fs 0x3000 (world s1)) = world s1" by (simp add: demo_fs_def init_fstate_def)
  with 1(3) demo_ready(2) demo_ready(3) [OF ap(2), of "world s1"] obtain di3 s3 where
    3: "deblk_read (disk_env 4) demo_di (demo_fs 0x3000 (world s1)) = Some (di3, s3)"
      "\<forall>i < 7. mem s3 (0x3000 + of_nat i) = mem (demo_fs 0x2000 (\<lambda>_. 9)) (0x2000 + of_nat i)" by metis
  have "mem s3 0x3005 = mem (demo_fs 0x2000 (\<lambda>_. 9)) 0x2005" using 3(2) [rule_format, of 5] by simp
  also have "\<dots> = Some 5" by (simp add: demo_fs_def init_fstate_def)
  finally show ?thesis using 1 3(1) by auto
qed

end
