(* ===== verification/Parts.thy ===== *)
theory Parts
  imports Deblocker
begin

text \<open>
  The partition packages: \<open>packages/pc-parts.c\<close> and what it shares with \<open>mac-parts.c\<close> and \<open>sun-parts.c\<close>.
  An instance holds the parent's \<open>seek\<close> and \<open>read\<close> tokens and the byte offset and size of the partition.
  Automatic arrays and structures live in memory at an address \<open>fr\<close> of the caller's frame; multi-byte fields of the disk are read from there.
\<close>

record part_info =
  pt_seek_xt :: ucell
  pt_read_xt :: ucell
  offs_hi :: ucell
  offs_lo :: ucell
  size_hi :: ucell
  size_lo :: ucell
  filesystem_ph :: ucell

subsection \<open>What the packages share\<close>

definition bswap32 :: "u32 \<Rightarrow> u32" where
  "bswap32 x =
     (drop_bit 24 (x AND 0xff000000) OR drop_bit 8 (x AND 0x00ff0000) OR
      push_bit 8 (x AND 0x0000ff00) OR push_bit 24 (x AND 0x000000ff))"

definition strdup :: "'w pkg_env \<Rightarrow> ucell \<Rightarrow> 'w fstate \<Rightarrow> (ucell \<times> 'w fstate) option" where
  "strdup p str s =
     do { n \<leftarrow> strlen (at (mem s) str);
          (q, s) \<leftarrow> malloc p (of_nat n + 1) s;
          m \<leftarrow> strcpy (mem s) q str;
          Some (q, s\<lparr>mem := m\<rparr>) }"

definition atol :: "memory \<Rightarrow> ucell \<Rightarrow> int option" where
  "atol m nptr = do { (v, _) \<leftarrow> strtol (at m nptr) 10; Some v }"

definition SEEK :: "'w pkg_env \<Rightarrow> ('a part_info_scheme) \<Rightarrow> ducell \<Rightarrow> 'w fstate \<Rightarrow> (ucell \<times> 'w fstate) option" where
  "SEEK p di pos s = do { s \<leftarrow> DPUSH pos s; s \<leftarrow> call_parent p (pt_seek_xt di) s; POP s }"

definition READ :: "'w pkg_env \<Rightarrow> ('a part_info_scheme) \<Rightarrow> ucell \<Rightarrow> u32 \<Rightarrow> 'w fstate \<Rightarrow> (ucell \<times> 'w fstate) option" where
  "READ p di b sz s = do { s \<leftarrow> PUSH b s; s \<leftarrow> PUSH sz s; s \<leftarrow> call_parent p (pt_read_xt di) s; POP s }"

text \<open>The \<open>[(id)][,][filespec]\<close> arguments cut at the comma: the two halves, \<open>NULL\<close> when empty.\<close>

definition split_args :: "'w pkg_env \<Rightarrow> ucell \<Rightarrow> 'w fstate \<Rightarrow> (ucell \<times> ucell \<times> 'w fstate) option" where
  "split_args p str s =
     do { s \<leftarrow> push_str str s;
          s \<leftarrow> PUSH (ucast (ch CHR '','')) s;
          s \<leftarrow> fword p ''left-parse-string'' s;
          (parstr, s) \<leftarrow> pop_fstr_copy p s;
          (argstr, s) \<leftarrow> pop_fstr_copy p s;
          Some (parstr, argstr, s) }"

definition set_extent :: "ducell \<Rightarrow> ducell \<Rightarrow> ('a part_info_scheme) \<Rightarrow> ('a part_info_scheme)" where
  "set_extent offs sz di =
     di\<lparr>offs_hi := ucast (drop_bit 32 offs), offs_lo := ucast offs, size_hi := ucast (drop_bit 32 sz), size_lo := ucast sz\<rparr>"

definition part_offs :: "('a part_info_scheme) \<Rightarrow> ducell" where
  "part_offs di = join_cells (offs_hi di) (offs_lo di)"

definition part_size :: "('a part_info_scheme) \<Rightarrow> ducell" where
  "part_size di = join_cells (size_hi di) (size_lo di)"

definition probe_fs :: "'w pkg_env \<Rightarrow> ducell \<Rightarrow> 'w fstate \<Rightarrow> (ucell \<times> 'w fstate) option" where
  "probe_fs p offs s =
     do { s \<leftarrow> DPUSH offs s;
          (ih, s) \<leftarrow> my_parent p s;
          s \<leftarrow> PUSH ih s;
          s \<leftarrow> parword p ''find-filesystem'' s;
          POP s }"

definition interpose :: "'w pkg_env \<Rightarrow> ucell \<Rightarrow> ucell \<Rightarrow> 'w fstate \<Rightarrow> 'w fstate option" where
  "interpose p argstr ph s =
     do { n \<leftarrow> strlen (at (mem s) argstr);
          if n \<noteq> 0 then do { s \<leftarrow> push_str argstr s; s \<leftarrow> PUSH ph s; fword p ''interpose'' s } else Some s }"

text \<open>\<open>long long\<close> positions: the comparison with the size is signed.\<close>

definition part_seek :: "'w pkg_env \<Rightarrow> ('a part_info_scheme) \<Rightarrow> 'w fstate \<Rightarrow> 'w fstate option" where
  "part_seek p di s =
     do { (pos, s) \<leftarrow> DPOP s;
          let sz = part_size di;
          if sint sz < sint pos then PUSH (- 1) s
          else do { let offs = part_offs di + pos;
                    s \<leftarrow> DPUSH offs s;
                    (ih, s) \<leftarrow> my_parent p s;
                    call_package p (pt_seek_xt di) ih s } }"

definition part_read :: "'w pkg_env \<Rightarrow> ('a part_info_scheme) \<Rightarrow> 'w fstate \<Rightarrow> 'w fstate option" where
  "part_read p di s = do { (ih, s) \<leftarrow> my_parent p s; call_package p (pt_read_xt di) ih s }"

definition part_load :: "'w pkg_env \<Rightarrow> 'w fstate \<Rightarrow> 'w fstate option" where
  "part_load p s = do { (ih, s) \<leftarrow> my_self p s; load p ih s }"

definition part_dir :: "'w pkg_env \<Rightarrow> string \<Rightarrow> ('a part_info_scheme) \<Rightarrow> 'w fstate \<Rightarrow> 'w fstate option" where
  "part_dir p pkg di s =
     (if filesystem_ph di \<noteq> 0
      then do { (ih, s) \<leftarrow> my_self p s;
                s \<leftarrow> PUSH ih s;
                s \<leftarrow> push_lit p ''dir'' s;
                s \<leftarrow> PUSH (filesystem_ph di) s;
                s \<leftarrow> fword p ''find-method'' s;
                (_, s) \<leftarrow> POP s;
                fword p ''execute'' s }
      else do { let s = message p (pkg @ '': Unable to determine filesystem'' @ [CHR 0x0A]) [] s;
                (_, s) \<leftarrow> POP s;
                (_, s) \<leftarrow> POP s;
                Some s })"

definition part_get_info :: "cell \<Rightarrow> ('a part_info_scheme) \<Rightarrow> 'w fstate \<Rightarrow> 'w fstate option" where
  "part_get_info type di s =
     do { s \<leftarrow> PUSH type s; s \<leftarrow> PUSH (offs_lo di) s; s \<leftarrow> PUSH (offs_hi di) s; s \<leftarrow> PUSH (size_lo di) s; PUSH (size_hi di) s }"

definition part_initialize :: "'w pkg_env \<Rightarrow> 'w fstate \<Rightarrow> 'w fstate option" where
  "part_initialize p s = fword p ''register-partition-package'' s"

subsection \<open>PC partitions\<close>

definition has_pc_valid_partition :: "memory \<Rightarrow> ucell \<Rightarrow> bool option" where
  "has_pc_valid_partition m sect =
     do { a \<leftarrow> read_byte m (sect + 0x1c2); b \<leftarrow> read_byte m (sect + 0x1d2); c \<leftarrow> read_byte m (sect + 0x1e2);
          Some (a \<noteq> 0 \<or> b \<noteq> 0 \<or> c \<noteq> 0) }"

definition has_pc_part_magic :: "memory \<Rightarrow> ucell \<Rightarrow> bool option" where
  "has_pc_part_magic m sect =
     do { a \<leftarrow> read_byte m (sect + 0x1fe); b \<leftarrow> read_byte m (sect + 0x1ff); Some (a = 0x55 \<and> b = 0xAA) }"

definition is_pc_extended_part :: "u8 \<Rightarrow> bool" where
  "is_pc_extended_part type \<longleftrightarrow> type = 5 \<or> type = 0xf \<or> type = 0x85"

text \<open>The fields of \<open>struct pc_partition\<close> at \<open>q\<close>.\<close>

definition pc_type :: "memory \<Rightarrow> ucell \<Rightarrow> u8 option" where
  "pc_type m q = read_byte m (q + 4)"

definition start_sect :: "memory \<Rightarrow> ucell \<Rightarrow> u32 option" where
  "start_sect m q = do { v \<leftarrow> read_long m (q + 8); Some (bswap32 v) }"

definition nr_sects :: "memory \<Rightarrow> ucell \<Rightarrow> u32 option" where
  "nr_sects m q = do { v \<leftarrow> read_long m (q + 12); Some (bswap32 v) }"

definition pcparts_args :: "'w pkg_env \<Rightarrow> 'w fstate \<Rightarrow> (ucell \<times> ucell \<times> int \<times> 'w fstate) option" where
  "pcparts_args p s =
     do { (str, s) \<leftarrow> my_args_copy p s;
          (argstr, s) \<leftarrow> strdup p (lit p '''') s;
          (parstr, s) \<leftarrow> strdup p (lit p '''') s;
          n \<leftarrow> strlen (at (mem s) str);
          (parstr, argstr, parnum, s) \<leftarrow>
            (if n = 0 then Some (parstr, argstr, - 1, s)
             else do { c \<leftarrow> read_byte (mem s) str;
                       (parstr, argstr, s) \<leftarrow>
                         (if ch CHR ''0'' \<le> c \<and> c \<le> ch CHR ''7'' \<or> c = ch CHR '','' then split_args p str s
                          else Some (parstr, str, s));
                       k \<leftarrow> (if parstr = 0 then Some 0 else strlen (at (mem s) parstr));
                       parnum \<leftarrow> (if k = 0 then Some (- 1) else atol (mem s) parstr);
                       Some (parstr, argstr, parnum, s) });
          (argstr, s) \<leftarrow> (if argstr = 0 then strdup p (lit p '''') s else Some (argstr, s));
          s \<leftarrow> free p parstr s;
          Some (str, argstr, if parnum < 0 then 0 else parnum, s) }"

text \<open>
  What looking for the partition ends with: a flag to return at once, or the offset of a partition whose
  file system is to be probed.
\<close>

datatype found = Ret cell | Found ducell

definition pc_primary :: "ucell \<Rightarrow> ucell \<Rightarrow> nat \<Rightarrow> part_info \<Rightarrow> 'w fstate \<Rightarrow> (found \<times> part_info \<times> 'w fstate) option" where
  "pc_primary buf q parnum di s =
     do { m \<leftarrow> memcpy (mem s) q (buf + 0x1be + 16 * of_nat parnum) 16;
          let s = s\<lparr>mem := m\<rparr>;
          type \<leftarrow> pc_type m q;
          if type = 0 \<or> is_pc_extended_part type then Some (Ret 0, di, s)
          else do {
            st \<leftarrow> start_sect m q;
            nr \<leftarrow> nr_sects m q;
            let offs = ucast st * 512;
            let di = set_extent offs (ucast nr * 512) di;
            Some (if type = 0x41 then Ret (- 1) else Found offs, di, s) } }"

fun find_extended :: "memory \<Rightarrow> ucell \<Rightarrow> nat list \<Rightarrow> nat option option" where
  "find_extended m q [] = Some None"
| "find_extended m q (i # is) =
     do { type \<leftarrow> pc_type m (q + 16 * of_nat i);
          if is_pc_extended_part type then Some (Some i) else find_extended m q is }"

text \<open>
  The loop \<open>while (cur_part <= parnum)\<close>, with \<open>left\<close> = \<open>parnum - cur_part + 1\<close>: the last pass is that of the wanted
  partition. \<open>cur_table * bs\<close> is a product of 32-bit numbers.
\<close>

fun pc_logical :: "'w pkg_env \<Rightarrow> ucell \<Rightarrow> ucell \<Rightarrow> u32 \<Rightarrow> u32 \<Rightarrow> nat \<Rightarrow> part_info \<Rightarrow> 'w fstate \<Rightarrow> (found \<times> part_info \<times> 'w fstate) option" where
  "pc_logical p buf q ext_start cur_table 0 di s = Some (Ret 0, di, s)"
| "pc_logical p buf q ext_start cur_table (Suc left) di s =
     do { (_, s) \<leftarrow> SEEK p di (ucast (cur_table * 512)) s;
          (r, s) \<leftarrow> READ p di buf 4 s;
          if r \<noteq> 4 then Some (Ret 0, di, s)
          else do {
            magic \<leftarrow> has_pc_part_magic (mem s) buf;
            if \<not> magic then Some (Ret 0, di, s)
            else do {
              m \<leftarrow> memcpy (mem s) q (buf + 0x1be) 16;
              let s = s\<lparr>mem := m\<rparr>;
              if left = 0
              then do {
                type \<leftarrow> pc_type m q;
                if type = 0 then Some (Ret 0, di, s)
                else do {
                  st \<leftarrow> start_sect m q;
                  nr \<leftarrow> nr_sects m q;
                  let offs = ucast (cur_table + st) * 512;
                  let di = set_extent offs (ucast nr * 512) di;
                  Some (if type = 0x41 then Ret (- 1) else Found offs, di, s) } }
              else do {
                m \<leftarrow> memcpy m q (buf + 0x1ce) 16;
                let s = s\<lparr>mem := m\<rparr>;
                type \<leftarrow> pc_type m q;
                if \<not> is_pc_extended_part type then Some (Ret 0, di, s)
                else do { st \<leftarrow> start_sect m q;
                          pc_logical p buf q ext_start (ext_start + st) left di s } } } } }"

definition pc_extended :: "'w pkg_env \<Rightarrow> ucell \<Rightarrow> ucell \<Rightarrow> nat \<Rightarrow> part_info \<Rightarrow> 'w fstate \<Rightarrow> (found \<times> part_info \<times> 'w fstate) option" where
  "pc_extended p buf q parnum di s =
     do { i \<leftarrow> find_extended (mem s) q [0, 1, 2, 3];
          case i of
            None \<Rightarrow> Some (Ret 0, di, s)
          | Some i \<Rightarrow>
              do { ext_start \<leftarrow> start_sect (mem s) (q + 16 * of_nat i);
                   pc_logical p buf q ext_start ext_start (parnum - 3) di s } }"

text \<open>From the first \<open>SEEK\<close> on.\<close>

definition pc_locate :: "'w pkg_env \<Rightarrow> ucell \<Rightarrow> nat \<Rightarrow> part_info \<Rightarrow> 'w fstate \<Rightarrow> (found \<times> part_info \<times> 'w fstate) option" where
  "pc_locate p buf parnum di s =
     do { (_, s) \<leftarrow> SEEK p di 0 s;
          (r, s) \<leftarrow> READ p di buf 512 s;
          if r \<noteq> 512 then Some (Ret 0, di, s)
          else do {
            magic \<leftarrow> has_pc_part_magic (mem s) buf;
            if \<not> magic then Some (Ret 0, di, s)
            else do {
              (q, s) \<leftarrow> malloc p 16 s;
              (f, di, s) \<leftarrow> (if parnum < 4 then pc_primary buf q parnum di s else pc_extended p buf q parnum di s);
              case f of
                Ret v \<Rightarrow> Some (Ret v, di, s)
              | Found offs \<Rightarrow> do { s \<leftarrow> free p q s; Some (Found offs, di, s) } } } }"

definition pcparts_open :: "'w pkg_env \<Rightarrow> ucell \<Rightarrow> part_info \<Rightarrow> 'w fstate \<Rightarrow> (part_info \<times> 'w fstate) option" where
  "pcparts_open p fr di s =
     do { (str, argstr, parnum, s) \<leftarrow> pcparts_args p s;
          (rx, s) \<leftarrow> find_parent_method p ''read'' s;
          (sx, s) \<leftarrow> find_parent_method p ''seek'' s;
          let di = di\<lparr>filesystem_ph := 0, pt_read_xt := rx, pt_seek_xt := sx\<rparr>;
          (f, di, s) \<leftarrow> pc_locate p fr (nat parnum) di s;
          case f of
            Ret v \<Rightarrow> do { s \<leftarrow> PUSH v s; Some (di, s) }
          | Found offs \<Rightarrow>
              do { (ph, s) \<leftarrow> probe_fs p offs s;
                   let di = (if ph \<noteq> 0 then di\<lparr>filesystem_ph := ph\<rparr> else di);
                   s \<leftarrow> (if ph \<noteq> 0 then interpose p argstr ph s else Some s);
                   s \<leftarrow> free p str s;
                   s \<leftarrow> PUSH (- 1) s;
                   Some (di, s) } }"

definition pcparts_probe :: "'w fstate \<Rightarrow> 'w fstate option" where
  "pcparts_probe s =
     do { (buf, s) \<leftarrow> POP s;
          magic \<leftarrow> has_pc_part_magic (mem s) buf;
          ok \<leftarrow> (if magic then has_pc_valid_partition (mem s) buf else Some False);
          PUSH (c_bool ok) s }"

definition pcparts_get_info :: "part_info \<Rightarrow> 'w fstate \<Rightarrow> 'w fstate option" where
  "pcparts_get_info di s = part_get_info (- 1) di s"

definition pcparts_block_size :: "'w fstate \<Rightarrow> 'w fstate option" where
  "pcparts_block_size s = PUSH 512 s"

definition pcparts_initialize :: "'w pkg_env \<Rightarrow> 'w fstate \<Rightarrow> 'w fstate option" where
  "pcparts_initialize p s = part_initialize p s"

definition pcparts_seek :: "'w pkg_env \<Rightarrow> part_info \<Rightarrow> 'w fstate \<Rightarrow> 'w fstate option" where
  "pcparts_seek p di s = part_seek p di s"

definition pcparts_read :: "'w pkg_env \<Rightarrow> part_info \<Rightarrow> 'w fstate \<Rightarrow> 'w fstate option" where
  "pcparts_read p di s = part_read p di s"

definition pcparts_load :: "'w pkg_env \<Rightarrow> 'w fstate \<Rightarrow> 'w fstate option" where
  "pcparts_load p s = part_load p s"

definition pcparts_dir :: "'w pkg_env \<Rightarrow> part_info \<Rightarrow> 'w fstate \<Rightarrow> 'w fstate option" where
  "pcparts_dir p di s = part_dir p ''pc-parts'' di s"

end
