(* ===== verification/Parts_Props.thy ===== *)
theory Parts_Props
  imports Parts
begin

text \<open>
  Theorems on the partition packages. The parent is a byte device: the contract \<open>byte_device\<close> says what its
  \<open>seek\<close> and \<open>read\<close> methods do; the deblocker of \<open>Deblocker\<close> on a block device satisfies it
  (\<open>deblk_byte_device\<close>).
\<close>

subsection \<open>The parent of a partition\<close>

text \<open>
  \<open>D\<close> are the contents and \<open>P\<close> the position of the device in an outside state, \<open>N\<close> its size, \<open>B\<close> the
  memory it may scribble on, and \<open>R\<close> what it needs of the memory and the outside state.
\<close>

definition same_dom :: "memory \<Rightarrow> memory \<Rightarrow> bool" where
  "same_dom m m' \<longleftrightarrow> (\<forall>x. (m' x = None) = (m x = None))"

definition device_seek :: "'w pkg_env \<Rightarrow> ucell \<Rightarrow> ('w \<Rightarrow> nat \<Rightarrow> u8) \<Rightarrow> ('w \<Rightarrow> nat) \<Rightarrow> (memory \<Rightarrow> 'w \<Rightarrow> bool) \<Rightarrow> bool" where
  "device_seek p sx D P R \<longleftrightarrow>
     (\<forall>s hi lo rest. ds_ok s \<and> ds s = hi # lo # rest \<and> length rest \<le> 490 \<and> join_cells hi lo \<noteq> - 1 \<and> R (mem s) (world s) \<longrightarrow>
        (\<exists>s'. call_parent p sx s = Some s' \<and> ds_ok s' \<and> ds s' = 0 # rest \<and> mem s' = mem s \<and>
           D (world s') = D (world s) \<and> P (world s') = unat (join_cells hi lo) \<and> R (mem s') (world s')))"

definition device_read :: "'w pkg_env \<Rightarrow> ucell \<Rightarrow> nat \<Rightarrow> (ucell \<Rightarrow> bool) \<Rightarrow> ('w \<Rightarrow> nat \<Rightarrow> u8) \<Rightarrow> ('w \<Rightarrow> nat) \<Rightarrow> (memory \<Rightarrow> 'w \<Rightarrow> bool) \<Rightarrow> bool" where
  "device_read p rx N B D P R \<longleftrightarrow>
     (\<forall>s n a rest. ds_ok s \<and> ds s = of_nat n # a # rest \<and> length rest \<le> 490 \<and> R (mem s) (world s) \<and> n < 2 ^ 31 \<and>
        mapped (mem s) a n \<and> (\<forall>x. in_region a n x \<longrightarrow> \<not> B x) \<and> P (world s) + n \<le> N \<longrightarrow>
        (\<exists>s'. call_parent p rx s = Some s' \<and> ds_ok s' \<and> ds s' = of_nat n # rest \<and>
           filled B (mem s) a (\<lambda>i. D (world s) (P (world s) + i)) n (mem s') \<and>
           D (world s') = D (world s) \<and> P (world s') = P (world s) + n \<and> R (mem s') (world s')))"

definition byte_device :: "'w pkg_env \<Rightarrow> ucell \<Rightarrow> ucell \<Rightarrow> nat \<Rightarrow> (ucell \<Rightarrow> bool) \<Rightarrow> ('w \<Rightarrow> nat \<Rightarrow> u8) \<Rightarrow> ('w \<Rightarrow> nat) \<Rightarrow> (memory \<Rightarrow> 'w \<Rightarrow> bool) \<Rightarrow> bool" where
  "byte_device p sx rx N B D P R \<longleftrightarrow>
     device_seek p sx D P R \<and> device_read p rx N B D P R \<and> (\<forall>m m' w. same_dom m m' \<longrightarrow> R m w = R m' w)"

lemma byte_device_needs:
  assumes "byte_device p sx rx N B D P R" and "\<And>m m'. same_dom m m' \<Longrightarrow> Q m = Q m'"
  shows "byte_device p sx rx N B D P (\<lambda>m w. R m w \<and> Q m)"
proof -
  from assms(1) have sk: "device_seek p sx D P R" and rd: "device_read p rx N B D P R" by (simp_all add: byte_device_def)
  from sk have "device_seek p sx D P (\<lambda>m w. R m w \<and> Q m)" by (fastforce simp: device_seek_def)
  moreover have "device_read p rx N B D P (\<lambda>m w. R m w \<and> Q m)"
    unfolding device_read_def
  proof (intro allI impI)
    fix s n a rest
    assume *: "ds_ok s \<and> ds s = of_nat n # a # rest \<and> length rest \<le> 490 \<and> (R (mem s) (world s) \<and> Q (mem s)) \<and> n < 2 ^ 31 \<and>
        mapped (mem s) a n \<and> (\<forall>x. in_region a n x \<longrightarrow> \<not> B x) \<and> P (world s) + n \<le> N"
    then obtain s' where s': "call_parent p rx s = Some s'" "ds_ok s'" "ds s' = of_nat n # rest"
        "filled B (mem s) a (\<lambda>i. D (world s) (P (world s) + i)) n (mem s')"
        "D (world s') = D (world s)" "P (world s') = P (world s) + n" "R (mem s') (world s')"
      using rd unfolding device_read_def by blast
    have "same_dom (mem s) (mem s')" using s'(4) by (simp add: filled_def same_dom_def)
    then have "Q (mem s')" using assms(2) * by blast
    with s' show "\<exists>s'. call_parent p rx s = Some s' \<and> ds_ok s' \<and> ds s' = of_nat n # rest \<and>
        filled B (mem s) a (\<lambda>i. D (world s) (P (world s) + i)) n (mem s') \<and>
        D (world s') = D (world s) \<and> P (world s') = P (world s) + n \<and> R (mem s') (world s') \<and> Q (mem s')" by blast
  qed
  ultimately show ?thesis using assms by (auto simp: byte_device_def)
qed

lemma DPUSH_step:
  assumes "ds_ok s" and "length (ds s) < 510"
  shows "DPUSH v s = Some (pushed (ucast (drop_bit 32 v)) (pushed (ucast v) s))"
  using assms by (simp add: DPUSH_def push_step ds_ok_pushed ds_pushed)

lemma join_split: "join_cells (ucast (drop_bit 32 v)) (ucast v) = v"
  by (simp add: join_cells_def double_cell_join)

lemma SEEK_step:
  assumes dev: "byte_device p (pt_seek_xt di) rx N B D P R" and s: "ds_ok s" "length (ds s) \<le> 480" "R (mem s) (world s)"
    and "pos \<noteq> - 1"
  shows "\<exists>s'. SEEK p di pos s = Some (0, s') \<and> ds_ok s' \<and> ds s' = ds s \<and> mem s' = mem s \<and>
           D (world s') = D (world s) \<and> P (world s') = unat pos \<and> R (mem s') (world s')"
proof -
  let ?s = "pushed (ucast (drop_bit 32 pos)) (pushed (ucast pos) s)"
  have ok: "ds_ok ?s" "ds ?s = ucast (drop_bit 32 pos) # ucast pos # ds s"
    using s by (simp_all add: ds_pushed ds_ok_pushed)
  from dev have "device_seek p (pt_seek_xt di) D P R" by (simp add: byte_device_def)
  from this [unfolded device_seek_def, rule_format, of ?s "ucast (drop_bit 32 pos)" "ucast pos" "ds s"] ok s assms(5)
  obtain s' where s': "call_parent p (pt_seek_xt di) ?s = Some s'" "ds_ok s'" "ds s' = 0 # ds s" "mem s' = mem s"
      "D (world s') = D (world s)" "P (world s') = unat pos" "R (mem s') (world s')"
    by (auto simp: join_split)
  have "SEEK p di pos s = Some (0, popped s')"
    using s s' by (simp add: SEEK_def DPUSH_step pop_step)
  then show ?thesis using s' by (auto simp: stack_steps)
qed

lemma READ_step:
  assumes dev: "byte_device p sx (pt_read_xt di) N B D P R" and s: "ds_ok s" "length (ds s) \<le> 480" "R (mem s) (world s)"
    and n: "n < 2 ^ 31" "mapped (mem s) a n" "\<forall>x. in_region a n x \<longrightarrow> \<not> B x" "P (world s) + n \<le> N"
  shows "\<exists>s'. READ p di a (of_nat n) s = Some (of_nat n, s') \<and> ds_ok s' \<and> ds s' = ds s \<and>
           filled B (mem s) a (\<lambda>i. D (world s) (P (world s) + i)) n (mem s') \<and>
           D (world s') = D (world s) \<and> P (world s') = P (world s) + n \<and> R (mem s') (world s')"
proof -
  let ?s = "pushed (of_nat n) (pushed a s)"
  have ok: "ds_ok ?s" "ds ?s = of_nat n # a # ds s" using s by (simp_all add: ds_pushed ds_ok_pushed)
  from dev have "device_read p (pt_read_xt di) N B D P R" by (simp add: byte_device_def)
  from this [unfolded device_read_def, rule_format, of ?s n a "ds s"] ok s n obtain s' where
    s': "call_parent p (pt_read_xt di) ?s = Some s'" "ds_ok s'" "ds s' = of_nat n # ds s"
      "filled B (mem s) a (\<lambda>i. D (world s) (P (world s) + i)) n (mem s')"
      "D (world s') = D (world s)" "P (world s') = P (world s) + n" "R (mem s') (world s')" by auto
  have "READ p di a (of_nat n) s = Some (of_nat n, popped s')"
    using s s' by (simp add: READ_def stack_steps)
  then show ?thesis using s' by (auto simp: stack_steps)
qed

subsection \<open>Locating a primary partition\<close>

text \<open>The contract of the allocator, as far as it is used here: \<open>k\<close> mapped bytes of the heap \<open>H\<close>, only the heap touched.\<close>

definition allocates :: "'w pkg_env \<Rightarrow> nat \<Rightarrow> (ucell \<Rightarrow> bool) \<Rightarrow> (memory \<Rightarrow> 'w \<Rightarrow> bool) \<Rightarrow> bool" where
  "allocates p k H R \<longleftrightarrow>
     (\<forall>s. R (mem s) (world s) \<longrightarrow>
        (\<exists>q s'. malloc p (of_nat k) s = Some (q, s') \<and> dstackcnt s' = dstackcnt s \<and> dstack s' = dstack s \<and> world s' = world s \<and>
           same_dom (mem s) (mem s') \<and> (\<forall>x. \<not> H x \<longrightarrow> mem s' x = mem s x) \<and>
           mapped (mem s') q k \<and> (\<forall>x. in_region q k x \<longrightarrow> H x))) \<and>
     (\<forall>q s. \<exists>s'. free p q s = Some s' \<and> dstackcnt s' = dstackcnt s \<and> dstack s' = dstack s \<and> world s' = world s)"

text \<open>The disk's fields of primary entry \<open>k\<close>.\<close>

definition le32 :: "(nat \<Rightarrow> u8) \<Rightarrow> nat \<Rightarrow> u32" where
  "le32 d i = cat32 (d (i + 3)) (d (i + 2)) (d (i + 1)) (d i)"

definition mbr_entry :: "nat \<Rightarrow> nat" where
  "mbr_entry k = 0x1be + 16 * k"

lemma bswap32_masks:
  "bswap32 x = drop_bit 24 (x AND push_bit 24 (mask 8)) OR drop_bit 8 (x AND push_bit 16 (mask 8)) OR
     push_bit 8 (x AND push_bit 8 (mask 8)) OR push_bit 24 (x AND mask 8)"
proof -
  have "(0xff000000 :: u32) = push_bit 24 (mask 8)" "(0x00ff0000 :: u32) = push_bit 16 (mask 8)"
    "(0x0000ff00 :: u32) = push_bit 8 (mask 8)" "(0xff :: u32) = mask 8"
    by (simp_all add: mask_eq_exp_minus_1)
  then show ?thesis by (simp only: bswap32_def)
qed

lemma bswap32_cat: "bswap32 (cat32 a b c d) = cat32 d c b a"
proof (rule bit_word_eqI)
  fix n
  assume n: "n < LENGTH(32)"
  consider "n < 8" | "8 \<le> n" "n < 16" | "16 \<le> n" "n < 24" | "24 \<le> n" by linarith
  then show "bit (bswap32 (cat32 a b c d)) n = bit (cat32 d c b a) n"
    unfolding bswap32_masks cat32_def
    using n by cases (auto simp: bit_simps dest: bit_imp_le_length)
qed

lemma read_byte_at:
  assumes "\<forall>i < n. m (a + of_nat i) = Some (f i)" and "i < n"
  shows "read_byte m (a + of_nat i) = Some (f i)"
  using assms by (simp add: read_byte_def)

text \<open>Bytes \<open>0 .. n-1\<close> from \<open>a\<close> on.\<close>

definition holds :: "memory \<Rightarrow> ucell \<Rightarrow> nat \<Rightarrow> (nat \<Rightarrow> u8) \<Rightarrow> bool" where
  "holds m a n f \<longleftrightarrow> (\<forall>i < n. m (a + of_nat i) = Some (f i))"

lemma holdsD: "holds m a n f \<Longrightarrow> i < n \<Longrightarrow> m (a + of_nat i) = Some (f i)"
  by (simp add: holds_def)

lemma holds_sub:
  assumes "holds m a n f" and "j + k \<le> n"
  shows "holds m (a + of_nat j) k (\<lambda>i. f (j + i))"
  unfolding holds_def
proof (intro allI impI)
  fix i
  assume "i < k"
  then have "m (a + of_nat (j + i)) = Some (f (j + i))" by (intro holdsD [OF assms(1)]) (use assms(2) in simp)
  then show "m (a + of_nat j + of_nat i) = Some (f (j + i))" by (simp add: add.assoc)
qed

lemma holds_frame:
  assumes "holds m a n f" and "\<And>x. in_region a n x \<Longrightarrow> m' x = m x" and "n \<le> 2 ^ 32"
  shows "holds m' a n f"
  using assms in_region_add [of _ n a] by (simp add: holds_def)

lemma holds_filled:
  assumes "filled B m a f n m'" and "\<forall>x. in_region a n x \<longrightarrow> \<not> B x" and "n < 2 ^ 32"
  shows "holds m' a n f"
  using assms in_region_add [of _ n a] by (auto simp: holds_def filled_def unat_of_nat_small)

lemma holds_copied:
  assumes "copied m d s n m'" and "holds m s n f" and "n < 2 ^ 32"
  shows "holds m' d n f"
  using assms in_region_add [of _ n d] by (auto simp: holds_def copied_def)

lemma holds_mapped: "holds m a n f \<Longrightarrow> mapped m a n"
  by (simp add: holds_def mapped_def)

lemma entry_fields:
  assumes "holds m q 16 f"
  shows "pc_type m q = Some (f 4)" "start_sect m q = Some (le32 f 8)" "nr_sects m q = Some (le32 f 12)"
proof -
  have b: "m (q + of_nat i) = Some (f i)" if "i < 16" for i using assms that by (simp add: holds_def)
  have "m (q + 4) = Some (f 4)" "m (q + 8) = Some (f 8)" "m (q + 9) = Some (f 9)" "m (q + 10) = Some (f 10)"
    "m (q + 11) = Some (f 11)" "m (q + 12) = Some (f 12)" "m (q + 13) = Some (f 13)" "m (q + 14) = Some (f 14)"
    "m (q + 15) = Some (f 15)"
    using b [of 4] b [of 8] b [of 9] b [of 10] b [of 11] b [of 12] b [of 13] b [of 14] b [of 15] by simp_all
  then show "pc_type m q = Some (f 4)" "start_sect m q = Some (le32 f 8)" "nr_sects m q = Some (le32 f 12)"
    by (simp_all add: pc_type_def start_sect_def nr_sects_def read_byte_def read_long_def bswap32_cat le32_def add.assoc)
qed

lemma part_extent:
  "part_offs (set_extent o' z di) = o'" "part_size (set_extent o' z di) = z"
  "filesystem_ph (set_extent o' z di) = filesystem_ph di"
  "pt_seek_xt (set_extent o' z di) = pt_seek_xt di" "pt_read_xt (set_extent o' z di) = pt_read_xt di"
  by (simp_all add: part_offs_def part_size_def set_extent_def join_split)

definition has_magic :: "(nat \<Rightarrow> u8) \<Rightarrow> bool" where
  "has_magic d \<longleftrightarrow> d 0x1fe = 0x55 \<and> d 0x1ff = 0xAA"

lemma magic_eq:
  assumes "holds m a 512 f"
  shows "has_pc_part_magic m a = Some (has_magic f)"
proof -
  have "m (a + of_nat 0x1fe) = Some (f 0x1fe)" "m (a + of_nat 0x1ff) = Some (f 0x1ff)"
    by (rule holdsD [OF assms], simp)+
  then show ?thesis by (simp add: has_pc_part_magic_def read_byte_def has_magic_def)
qed

definition pc_outcome :: "(nat \<Rightarrow> u8) \<Rightarrow> nat \<Rightarrow> part_info \<Rightarrow> found \<times> part_info" where
  "pc_outcome f k di =
     (let e = mbr_entry k; offs = ucast (le32 f (e + 8)) * 512
      in if \<not> has_magic f \<or> f (e + 4) = 0 \<or> is_pc_extended_part (f (e + 4)) then (Ret 0, di)
         else (if f (e + 4) = 0x41 then Ret (- 1) else Found offs, set_extent offs (ucast (le32 f (e + 12)) * 512) di))"

lemma pc_primary_eq:
  assumes b: "holds (mem s) fr 512 f" and q: "mapped (mem s) q 16" "apart q 16 fr 512" and k: "k < 4"
    and mg: "has_magic f"
  shows "\<exists>m'. pc_primary fr q k di s = Some (fst (pc_outcome f k di), snd (pc_outcome f k di), s\<lparr>mem := m'\<rparr>)"
proof -
  define e where "e = mbr_entry k"
  have src: "fr + 0x1be + 16 * of_nat k = fr + of_nat e" by (simp add: e_def mbr_entry_def)
  have h: "holds (mem s) (fr + of_nat e) 16 (\<lambda>i. f (e + i))"
    by (rule holds_sub [OF b]) (use k in \<open>simp add: e_def mbr_entry_def\<close>)
  have "apart q 16 (fr + of_nat e) 16"
    using q(2) in_region_sub [of fr e 16 _ 512] k unfolding apart_def e_def mbr_entry_def by fastforce
  with memcpy_apart [of 16 "mem s" q "fr + of_nat e"] q(1) holds_mapped [OF h] obtain m' where
    m': "memcpy (mem s) q (fr + of_nat e) 16 = Some m'" "copied (mem s) q (fr + of_nat e) 16 m'" by auto
  have h': "holds m' q 16 (\<lambda>i. f (e + i))" by (rule holds_copied [OF m'(2) h]) simp
  have l: "le32 (\<lambda>i. f (e + i)) j = le32 f (e + j)" for j by (simp add: le32_def add.assoc)
  have "pc_primary fr q k di s = Some (fst (pc_outcome f k di), snd (pc_outcome f k di), s\<lparr>mem := m'\<rparr>)"
    unfolding pc_primary_def src pc_outcome_def e_def [symmetric]
    using mg by (simp add: m'(1) entry_fields [OF h'] l Let_def)
  then show ?thesis by blast
qed

text \<open>What \<open>pc_locate\<close> may rely on: the device, the allocator, and its buffer of 512 bytes.\<close>

definition pc_ready :: "'w pkg_env \<Rightarrow> nat \<Rightarrow> (ucell \<Rightarrow> bool) \<Rightarrow> (ucell \<Rightarrow> bool) \<Rightarrow> ('w \<Rightarrow> nat \<Rightarrow> u8) \<Rightarrow> ('w \<Rightarrow> nat) \<Rightarrow> (memory \<Rightarrow> 'w \<Rightarrow> bool) \<Rightarrow> ucell \<Rightarrow> part_info \<Rightarrow> 'w fstate \<Rightarrow> bool" where
  "pc_ready p N B H D P R fr di s \<longleftrightarrow>
     byte_device p (pt_seek_xt di) (pt_read_xt di) N B D P R \<and> allocates p 16 H R \<and> 512 \<le> N \<and>
     ds_ok s \<and> length (ds s) \<le> 480 \<and> R (mem s) (world s) \<and>
     mapped (mem s) fr 512 \<and> (\<forall>x. in_region fr 512 x \<longrightarrow> \<not> B x \<and> \<not> H x)"

lemma pc_locate_eq:
  assumes rd: "pc_ready p N B H D P R fr di s" and k: "k < 4"
  shows "\<exists>s'. pc_locate p fr k di s = Some (fst (pc_outcome (D (world s)) k di), snd (pc_outcome (D (world s)) k di), s') \<and>
           ds_ok s' \<and> ds s' = ds s \<and> D (world s') = D (world s)"
proof -
  let ?f = "D (world s)"
  from rd have dev: "byte_device p (pt_seek_xt di) (pt_read_xt di) N B D P R" and al: "allocates p 16 H R" and N: "512 \<le> N"
    and st: "ds_ok s" "length (ds s) \<le> 480" "R (mem s) (world s)" and fr: "mapped (mem s) fr 512"
    and sep: "\<forall>x. in_region fr 512 x \<longrightarrow> \<not> B x" "\<forall>x. in_region fr 512 x \<longrightarrow> \<not> H x" by (auto simp: pc_ready_def)
  from SEEK_step [OF dev st, of 0] obtain s1 where
    s1: "SEEK p di 0 s = Some (0, s1)" "ds_ok s1" "ds s1 = ds s" "mem s1 = mem s" "D (world s1) = ?f" "P (world s1) = 0"
      "R (mem s1) (world s1)" by auto
  from READ_step [OF dev s1(2) _ s1(7), of 512 fr] s1 st fr sep N obtain s2 where
    s2: "READ p di fr 512 s1 = Some (512, s2)" "ds_ok s2" "ds s2 = ds s" "D (world s2) = ?f" "R (mem s2) (world s2)"
      and fl: "filled B (mem s1) fr (\<lambda>i. ?f i) 512 (mem s2)" by auto
  have h2: "holds (mem s2) fr 512 ?f" by (rule holds_filled [OF fl sep(1)]) simp
  show ?thesis
  proof (cases "has_magic ?f")
    case False
    then have "pc_locate p fr k di s = Some (Ret 0, di, s2)"
      by (simp add: pc_locate_def s1(1) s2(1) magic_eq [OF h2])
    moreover have "pc_outcome ?f k di = (Ret 0, di)" using False by (simp add: pc_outcome_def Let_def)
    ultimately show ?thesis using s2 by auto
  next
    case True
    from al s2(5) obtain q s3 where
      s3: "malloc p 16 s2 = Some (q, s3)" "dstackcnt s3 = dstackcnt s2" "dstack s3 = dstack s2" "world s3 = world s2"
        "\<forall>x. \<not> H x \<longrightarrow> mem s3 x = mem s2 x" "mapped (mem s3) q 16" "\<forall>x. in_region q 16 x \<longrightarrow> H x"
      unfolding allocates_def by fastforce
    have d3: "ds_ok s3" "ds s3 = ds s" using s2 s3 by (simp_all add: ds_ok_def ds_def)
    have h3: "holds (mem s3) fr 512 ?f" by (rule holds_frame [OF h2]) (use s3(5) sep(2) in auto)
    have "apart q 16 fr 512" using s3(7) sep(2) by (auto simp: apart_def)
    from pc_primary_eq [OF h3 s3(6) this k True, of di] obtain m' where
      pr: "pc_primary fr q k di s3 = Some (fst (pc_outcome ?f k di), snd (pc_outcome ?f k di), s3\<lparr>mem := m'\<rparr>)" by blast
    from al obtain s4 where s4: "free p q (s3\<lparr>mem := m'\<rparr>) = Some s4" "dstackcnt s4 = dstackcnt s3" "dstack s4 = dstack s3" "world s4 = world s3"
      unfolding allocates_def by fastforce
    obtain f di' where o: "pc_outcome ?f k di = (f, di')" by force
    have "pc_locate p fr k di s = (case f of Ret v \<Rightarrow> Some (Ret v, di', s3\<lparr>mem := m'\<rparr>) | Found offs \<Rightarrow> Some (Found offs, di', s4))"
      using True k by (simp add: pc_locate_def s1(1) s2(1) magic_eq [OF h2] s3(1) pr o s4(1) split: found.split)
    then show ?thesis
      using o d3 s2(4) s3(4) s4 by (cases f) (auto simp: ds_ok_def ds_def)
  qed
qed

subsection \<open>The deblocker as a byte device\<close>

text \<open>
  A disk node whose \<open>seek\<close> (token \<open>sx\<close>) and \<open>read\<close> (token \<open>rx\<close>) methods are the deblocker's, its instance data
  kept in the outside state (\<open>gt\<close>, \<open>st\<close>), on top of a block device \<open>p\<close>; its children see it as the parent with handle \<open>ih\<close>.
\<close>

definition deblk_method :: "'w pkg_env \<Rightarrow> ('w \<Rightarrow> deblk_info) \<Rightarrow> (deblk_info \<Rightarrow> 'w \<Rightarrow> 'w) \<Rightarrow> ucell \<Rightarrow> ucell \<Rightarrow> ucell \<Rightarrow> 'w fstate \<Rightarrow> 'w fstate option" where
  "deblk_method p gt st sx rx xt s =
     (if xt = sx then do { (di, s) \<leftarrow> deblk_seek (gt (world s)) s; Some (s\<lparr>world := st di (world s)\<rparr>) }
      else if xt = rx then do { (di, s) \<leftarrow> deblk_read p (gt (world s)) s; Some (s\<lparr>world := st di (world s)\<rparr>) }
      else None)"

definition deblk_node :: "'w pkg_env \<Rightarrow> ('w \<Rightarrow> deblk_info) \<Rightarrow> (deblk_info \<Rightarrow> 'w \<Rightarrow> 'w) \<Rightarrow> ucell \<Rightarrow> ucell \<Rightarrow> ucell \<Rightarrow> 'w pkg_env" where
  "deblk_node p gt st sx rx ih =
     p\<lparr>fword := (\<lambda>w s.
        if w = ''call-parent'' then do { (xt, s) \<leftarrow> POP s; deblk_method p gt st sx rx xt s }
        else if w = ''call-package''
        then do { (h, s) \<leftarrow> POP s; (xt, s) \<leftarrow> POP s; if h = ih then deblk_method p gt st sx rx xt s else None }
        else if w = ''my-parent'' then PUSH ih s
        else fword p w s)\<rparr>"

definition deblk_inst :: "nat \<Rightarrow> ucell \<Rightarrow> ucell \<Rightarrow> ('w \<Rightarrow> deblk_info) \<Rightarrow> memory \<Rightarrow> 'w \<Rightarrow> bool" where
  "deblk_inst bs brx buf gt m w \<longleftrightarrow>
     blksize (gt w) = int bs \<and> dk_read_xt (gt w) = brx \<and> dk_buf (gt w) = buf \<and> mapped m buf bs"

definition block_disk :: "'w pkg_env \<Rightarrow> ucell \<Rightarrow> nat \<Rightarrow> nat \<Rightarrow> ('w \<Rightarrow> nat \<Rightarrow> u8) \<Rightarrow> ('w \<Rightarrow> deblk_info) \<Rightarrow> (deblk_info \<Rightarrow> 'w \<Rightarrow> 'w) \<Rightarrow> bool" where
  "block_disk p brx bs nb D gt st \<longleftrightarrow>
     block_reads p brx bs nb D \<and> brx \<noteq> 0 \<and> 0 < bs \<and> bs < 2 ^ 31 \<and> nb < 2 ^ 31 \<and>
     (\<forall>di w. gt (st di w) = di \<and> D (st di w) = D w)"

lemma call_parent_node:
  assumes "ds_ok s" and "length (ds s) < 511"
  shows "call_parent (deblk_node p gt st sx rx ih) xt s = deblk_method p gt st sx rx xt (popped (pushed xt s))"
  using assms by (simp add: call_parent_def deblk_node_def stack_steps)

lemma popped_pushed:
  assumes "ds_ok s" and "length (ds s) < 511"
  shows "ds_ok (popped (pushed v s))" "ds (popped (pushed v s)) = ds s"
  using assms by (auto simp: stack_steps)

lemma method_seek:
  assumes bd: "block_disk p brx bs nb D gt st" and s: "ds_ok s" "ds s = hi # lo # rest" "join_cells hi lo \<noteq> - 1"
    and R: "deblk_inst bs brx buf gt (mem s) (world s)"
  shows "\<exists>s'. deblk_method p gt st sx rx sx s = Some s' \<and> ds_ok s' \<and> ds s' = 0 # rest \<and> mem s' = mem s \<and>
      D (world s') = D (world s) \<and> mark_of (gt (world s')) = join_cells hi lo \<and> deblk_inst bs brx buf gt (mem s') (world s')"
proof -
  let ?di = "(gt (world s))\<lparr>mark_hi := hi, mark_lo := lo\<rparr>"
  from deblk_seek_eq [OF s, of "gt (world s)"] obtain s' where
    s': "deblk_seek (gt (world s)) s = Some (?di, s')" "ds_ok s'" "ds s' = 0 # rest" "mem s' = mem s" "world s' = world s" by auto
  then have "deblk_method p gt st sx rx sx s = Some (s'\<lparr>world := st ?di (world s)\<rparr>)"
    by (simp add: deblk_method_def)
  then show ?thesis using s' R bd by (auto simp: block_disk_def deblk_inst_def mark_of_def)
qed

lemma method_read:
  assumes bd: "block_disk p brx bs nb D gt st" and "sx \<noteq> rx"
    and s: "ds_ok s" "ds s = of_nat n # a # rest" "length rest \<le> 490" and R: "deblk_inst bs brx buf gt (mem s) (world s)"
    and n: "n < 2 ^ 31" "mapped (mem s) a n" "\<forall>x. in_region a n x \<longrightarrow> \<not> in_region buf bs x"
    and fits: "unat (mark_of (gt (world s))) + n \<le> nb * bs"
  shows "\<exists>s'. deblk_method p gt st sx rx rx s = Some s' \<and> ds_ok s' \<and> ds s' = of_nat n # rest \<and>
      filled (in_region buf bs) (mem s) a (\<lambda>i. D (world s) (unat (mark_of (gt (world s))) + i)) n (mem s') \<and>
      D (world s') = D (world s) \<and> unat (mark_of (gt (world s'))) = unat (mark_of (gt (world s))) + n \<and>
      deblk_inst bs brx buf gt (mem s') (world s')"
proof -
  let ?di = "gt (world s)"
  have bd': "bs < 2 ^ 31" "nb < 2 ^ 31" "\<And>di w. gt (st di w) = di" "\<And>di w. D (st di w) = D w" using bd by (auto simp: block_disk_def)
  have "deblk_ready p bs nb D ?di s" using bd R s by (auto simp: deblk_ready_def block_disk_def deblk_inst_def)
  moreover have "io_args ?di bs s a n rest" using s n R by (simp add: io_args_def usable_def apart_def deblk_inst_def)
  ultimately obtain di' s' where
    1: "deblk_read p ?di s = Some (di', s')" "ds_ok s'" "ds s' = of_nat n # rest" "mark_of di' = mark_of ?di + of_nat n"
      "di' = ?di\<lparr>mark_hi := mark_hi di', mark_lo := mark_lo di'\<rparr>" "D (world s') = D (world s)"
      "filled (in_region buf bs) (mem s) a (\<lambda>i. D (world s) (unat (mark_of ?di) + i)) n (mem s')"
    using deblk_read_eq [of p bs nb D ?di s a n rest] fits R by (auto simp: deblk_inst_def)
  have "blksize di' = blksize ?di" "dk_read_xt di' = dk_read_xt ?di" "dk_buf di' = dk_buf ?di"
    by (subst 1(5), simp)+
  moreover have "mapped (mem s') buf bs" using R filled_mapped [OF 1(7)] by (simp add: deblk_inst_def)
  ultimately have R': "deblk_inst bs brx buf gt (mem s') (st di' (world s'))" using R bd' by (simp add: deblk_inst_def)
  have "nb * bs < 2 ^ 31 * 2 ^ 31" using bd' by (intro mult_strict_mono) simp_all
  then have "unat (mark_of ?di + of_nat n) = unat (mark_of ?di) + n"
    using fits n(1) by (subst unat_add_no_wrap) (simp_all add: unat_of_nat_small)
  moreover have "deblk_method p gt st sx rx rx s = Some (s'\<lparr>world := st di' (world s')\<rparr>)"
    using 1(1) assms(2) by (simp add: deblk_method_def)
  ultimately show ?thesis using 1 R' bd' by auto
qed

lemma deblk_seek_device:
  assumes "block_disk p brx bs nb D gt st"
  shows "device_seek (deblk_node p gt st sx rx ih) sx D (\<lambda>w. unat (mark_of (gt w))) (deblk_inst bs brx buf gt)"
  unfolding device_seek_def
proof (intro allI impI, elim conjE)
  fix s :: "'a fstate" and hi lo rest
  assume s: "ds_ok s" "ds s = hi # lo # rest" "length rest \<le> 490" "join_cells hi lo \<noteq> - 1"
    and R: "deblk_inst bs brx buf gt (mem s) (world s)"
  have ok: "ds_ok (popped (pushed sx s))" "ds (popped (pushed sx s)) = hi # lo # rest" using popped_pushed [of s sx] s by simp_all
  show "\<exists>s'. call_parent (deblk_node p gt st sx rx ih) sx s = Some s' \<and> ds_ok s' \<and> ds s' = 0 # rest \<and> mem s' = mem s \<and>
      D (world s') = D (world s) \<and> unat (mark_of (gt (world s'))) = unat (join_cells hi lo) \<and> deblk_inst bs brx buf gt (mem s') (world s')"
    using method_seek [OF assms ok s(4), of buf sx rx] R s by (auto simp: call_parent_node)
qed

lemma deblk_read_device:
  assumes "block_disk p brx bs nb D gt st" and "sx \<noteq> rx"
  shows "device_read (deblk_node p gt st sx rx ih) rx (nb * bs) (in_region buf bs) D (\<lambda>w. unat (mark_of (gt w))) (deblk_inst bs brx buf gt)"
  unfolding device_read_def
proof (intro allI impI, elim conjE)
  fix s :: "'a fstate" and n a rest
  assume s: "ds_ok s" "ds s = of_nat n # a # rest" "length rest \<le> 490" and R: "deblk_inst bs brx buf gt (mem s) (world s)"
    and n: "n < 2 ^ 31" "mapped (mem s) a n" "\<forall>x. in_region a n x \<longrightarrow> \<not> in_region buf bs x"
    and fits: "unat (mark_of (gt (world s))) + n \<le> nb * bs"
  have ok: "ds_ok (popped (pushed rx s))" "ds (popped (pushed rx s)) = of_nat n # a # rest" using popped_pushed [of s rx] s by simp_all
  show "\<exists>s'. call_parent (deblk_node p gt st sx rx ih) rx s = Some s' \<and> ds_ok s' \<and> ds s' = of_nat n # rest \<and>
      filled (in_region buf bs) (mem s) a (\<lambda>i. D (world s) (unat (mark_of (gt (world s))) + i)) n (mem s') \<and>
      D (world s') = D (world s) \<and> unat (mark_of (gt (world s'))) = unat (mark_of (gt (world s))) + n \<and> deblk_inst bs brx buf gt (mem s') (world s')"
    using method_read [OF assms ok s(3)] R n fits s by (auto simp: call_parent_node)
qed

lemma deblk_byte_device:
  assumes "block_disk p brx bs nb D gt st" and "sx \<noteq> rx"
  shows "byte_device (deblk_node p gt st sx rx ih) sx rx (nb * bs) (in_region buf bs) D (\<lambda>w. unat (mark_of (gt w))) (deblk_inst bs brx buf gt)"
  using deblk_seek_device [OF assms(1)] deblk_read_device [OF assms]
  by (auto simp: byte_device_def same_dom_def deblk_inst_def mapped_def)

subsection \<open>Seeking and reading inside a partition\<close>

lemma call_package_node:
  assumes "ds_ok s" and "length (ds s) < 509"
  shows "do { (h, s) \<leftarrow> my_parent (deblk_node p gt st sx rx ih) s; call_package (deblk_node p gt st sx rx ih) xt h s }
           = deblk_method p gt st sx rx xt (popped (popped (pushed ih (pushed xt (popped (pushed ih s))))))"
  using assms by (simp add: my_parent_def call_package_def deblk_node_def stack_steps)

lemma two_pushed_popped:
  assumes "ds_ok s" and "length (ds s) < 509"
  shows "ds_ok (popped (popped (pushed u (pushed v (popped (pushed w s))))))"
    "ds (popped (popped (pushed u (pushed v (popped (pushed w s)))))) = ds s"
  using assms by (auto simp: stack_steps)

lemma DPOP_step:
  assumes "ds_ok s" and "ds s = hi # lo # rest"
  shows "DPOP s = Some (join_cells hi lo, popped (popped s))"
  using assms by (simp add: DPOP_def stack_steps join_cells_def)

lemma sint_small64: "unat (x :: ducell) < 2 ^ 63 \<Longrightarrow> sint x = int (unat x)"
proof -
  assume "unat x < 2 ^ 63"
  then have "int (unat x) < int (2 ^ 63)" by (simp only: of_nat_less_iff)
  then have lt: "uint x < 2 ^ 63" by simp
  have "- (2 ^ 63) \<le> uint x" by (rule order_trans [OF _ uint_ge_0]) simp
  then have "signed_take_bit 63 (uint x) = uint x" using lt by (rule signed_take_bit_int_eq_self)
  then show ?thesis by (simp add: sint_uint)
qed

lemma sint_large64:
  assumes "2 ^ 63 \<le> unat (x :: ducell)"
  shows "sint x < 0"
proof (rule ccontr)
  assume "\<not> sint x < 0"
  moreover have "sint x < 2 ^ 63" using sint_lt [of x] by simp
  moreover have "uint x = sint x mod 2 ^ 64" using uint_word_of_int [of "sint x", where ?'a = 64] by simp
  ultimately have "uint x < 2 ^ 63" by simp
  then have "int (unat x) < int (2 ^ 63)" by simp
  then show False using assms by (simp only: of_nat_less_iff)
qed

lemma part_seek_out:
  assumes "ds_ok s" and "ds s = hi # lo # rest" and "sint (part_size di) < sint (join_cells hi lo)"
  shows "\<exists>s'. part_seek p di s = Some s' \<and> ds s' = - 1 # rest \<and> mem s' = mem s \<and> world s' = world s"
proof -
  have "length (ds s) \<le> 511" using assms(1) by (auto simp: ds_ok_def ds_def nat_le_iff)
  with assms show ?thesis by (auto simp: part_seek_def DPOP_step Let_def stack_steps)
qed

text \<open>A position that passes the comparison moves the disk to offset plus position, modulo \<open>2 ^ 64\<close>; the deblocker refuses -1.\<close>

lemma part_seek_passes:
  assumes bd: "block_disk p brx bs nb D gt st" and di: "pt_seek_xt di = sx"
    and s: "ds_ok s" "ds s = hi # lo # rest" "length rest \<le> 480" and R: "deblk_inst bs brx buf gt (mem s) (world s)"
    and cmp: "\<not> sint (part_size di) < sint (join_cells hi lo)" and nm: "part_offs di + join_cells hi lo \<noteq> - 1"
  shows "\<exists>s'. part_seek (deblk_node p gt st sx rx ih) di s = Some s' \<and> ds_ok s' \<and> ds s' = 0 # rest \<and> mem s' = mem s \<and>
      D (world s') = D (world s) \<and> mark_of (gt (world s')) = part_offs di + join_cells hi lo \<and>
      deblk_inst bs brx buf gt (mem s') (world s')"
proof -
  let ?N = "deblk_node p gt st sx rx ih" and ?pos = "join_cells hi lo"
  define s1 where "s1 = pushed (ucast (drop_bit 32 (part_offs di + ?pos))) (pushed (ucast (part_offs di + ?pos)) (popped (popped s)))"
  have s1: "ds_ok s1" "ds s1 = ucast (drop_bit 32 (part_offs di + ?pos)) # ucast (part_offs di + ?pos) # rest" "mem s1 = mem s" "world s1 = world s"
    using s by (auto simp: s1_def stack_steps)
  let ?s2 = "popped (popped (pushed ih (pushed sx (popped (pushed ih s1)))))"
  have s2: "ds_ok ?s2" "ds ?s2 = ds s1" using two_pushed_popped [OF s1(1), of ih sx ih] s1(2) s(3) by simp_all
  have dp: "DPUSH (part_offs di + ?pos) (popped (popped s)) = Some s1"
    unfolding s1_def using s by (intro DPUSH_step) (auto simp: stack_steps)
  have "part_seek ?N di s = deblk_method p gt st sx rx sx ?s2"
    using cmp call_package_node [OF s1(1), of p gt st sx rx ih sx] s1(2) s
    by (simp add: part_seek_def DPOP_step [OF s(1,2)] Let_def dp di)
  moreover have "join_cells (ucast (drop_bit 32 (part_offs di + ?pos))) (ucast (part_offs di + ?pos)) \<noteq> - 1"
    using nm by (simp add: join_split)
  ultimately show ?thesis
    using method_seek [OF bd s2(1) s2(2) [unfolded s1(2)], of buf sx rx] R s1 by (auto simp: join_split)
qed

lemma part_seek_in:
  assumes bd: "block_disk p brx bs nb D gt st" and di: "pt_seek_xt di = sx"
    and s: "ds_ok s" "ds s = hi # lo # rest" "length rest \<le> 480" and R: "deblk_inst bs brx buf gt (mem s) (world s)"
    and pos: "unat (join_cells hi lo) \<le> unat (part_size di)" and fits: "unat (part_offs di) + unat (part_size di) \<le> nb * bs"
  shows "\<exists>s'. part_seek (deblk_node p gt st sx rx ih) di s = Some s' \<and> ds_ok s' \<and> ds s' = 0 # rest \<and> mem s' = mem s \<and>
      D (world s') = D (world s) \<and> unat (mark_of (gt (world s'))) = unat (part_offs di) + unat (join_cells hi lo) \<and>
      deblk_inst bs brx buf gt (mem s') (world s')"
proof -
  let ?pos = "join_cells hi lo"
  have "nb * bs < 2 ^ 31 * 2 ^ 31" using bd unfolding block_disk_def by (intro mult_strict_mono) auto
  then have small: "unat (part_offs di) + unat ?pos < 2 ^ 62" "unat (part_size di) < 2 ^ 62" using fits pos by simp_all
  have sum: "unat (part_offs di + ?pos) = unat (part_offs di) + unat ?pos"
    using small by (intro unat_add_no_wrap) simp
  have nm: "part_offs di + ?pos \<noteq> - 1"
  proof
    assume "part_offs di + ?pos = - 1"
    then have "unat (part_offs di + ?pos) = unat (- 1 :: ducell)" by (simp only:)
    moreover have "(- 1 :: ducell) = 0xFFFFFFFFFFFFFFFF" by simp
    ultimately have "unat (part_offs di + ?pos) = 0xFFFFFFFFFFFFFFFF" by (simp only:) simp
    with sum small show False by simp
  qed
  have "sint (part_size di) = int (unat (part_size di))" "sint ?pos = int (unat ?pos)"
    using small by (intro sint_small64; simp)+
  then have cmp: "\<not> sint (part_size di) < sint ?pos" using pos by linarith
  from part_seek_passes [OF bd di s R cmp nm, of rx ih] sum show ?thesis by auto
qed

lemma part_read_at:
  assumes bd: "block_disk p brx bs nb D gt st" and "sx \<noteq> rx" and di: "pt_read_xt di = rx"
    and s: "ds_ok s" "ds s = of_nat n # a # rest" "length rest \<le> 480" and R: "deblk_inst bs brx buf gt (mem s) (world s)"
    and n: "n < 2 ^ 31" "mapped (mem s) a n" "\<forall>x. in_region a n x \<longrightarrow> \<not> in_region buf bs x"
    and fits: "unat (mark_of (gt (world s))) + n \<le> nb * bs"
  shows "\<exists>s'. part_read (deblk_node p gt st sx rx ih) di s = Some s' \<and> ds s' = of_nat n # rest \<and>
      holds (mem s') a n (\<lambda>i. D (world s) (unat (mark_of (gt (world s))) + i))"
proof -
  let ?s2 = "popped (popped (pushed ih (pushed rx (popped (pushed ih s)))))"
  have s2: "ds_ok ?s2" "ds ?s2 = of_nat n # a # rest" using two_pushed_popped [OF s(1), of ih rx ih] s by simp_all
  have "part_read (deblk_node p gt st sx rx ih) di s = deblk_method p gt st sx rx rx ?s2"
    using call_package_node [OF s(1), of p gt st sx rx ih rx] s by (simp add: part_read_def di)
  with method_read [OF bd assms(2) s2, of buf] s(3) R n fits obtain s' where
    "part_read (deblk_node p gt st sx rx ih) di s = Some s'" "ds s' = of_nat n # rest"
    "filled (in_region buf bs) (mem s) a (\<lambda>i. D (world s) (unat (mark_of (gt (world s))) + i)) n (mem s')" by auto
  then show ?thesis using holds_filled [of "in_region buf bs"] n by fastforce
qed

subsection \<open>Properties\<close>

text \<open>The concrete disk of \<open>Deblocker\<close>, with the deblocker's instance beside its bytes.\<close>

type_synonym node_world = "deblk_info \<times> (nat \<Rightarrow> u8)"

definition node_call :: "nat \<Rightarrow> node_world fstate \<Rightarrow> node_world fstate option" where
  "node_call bs s =
     do { (xt, s) \<leftarrow> POP s; (n, s) \<leftarrow> POP s; (b, s) \<leftarrow> POP s; (a, s) \<leftarrow> POP s;
          let k = unat n * bs;
          PUSH n (s\<lparr>mem := (\<lambda>x. if in_region a k x then Some (snd (world s) (unat b * bs + unat (x - a))) else mem s x)\<rparr>) }"

definition node_env :: "nat \<Rightarrow> node_world pkg_env" where
  "node_env bs = \<lparr>fword = (\<lambda>w s. if w = ''call-parent'' then node_call bs s else None),
     eword = (\<lambda>_ _ _. None), selfword = (\<lambda>_ _. None), parword = (\<lambda>_ _. None), run_xt = (\<lambda>_ _. None),
     call1_func_addr = 0, call_c = (\<lambda>_ _ _. None), malloc = (\<lambda>_ s. Some (0x8000, s)), free = (\<lambda>_ s. Some s),
     load = (\<lambda>_ s. Some s), lit = (\<lambda>_. 0), message = (\<lambda>_ _ s. s)\<rparr>"

lemma node_disk: "block_disk (node_env 4) 1 4 0x10000 snd fst (\<lambda>di w. (di, snd w))"
proof -
  have "block_reads (node_env 4) 1 4 0x10000 snd"
    unfolding block_reads_def
    by (intro allI impI, elim conjE) (simp add: node_env_def call_parent_def node_call_def Let_def stack_steps)
  then show ?thesis by (simp add: block_disk_def)
qed

definition demo_node :: "node_world pkg_env" where
  "demo_node = deblk_node (node_env 4) fst (\<lambda>di w. (di, snd w)) 5 6 7"

definition demo_state :: "cell list \<Rightarrow> (nat \<Rightarrow> u8) \<Rightarrow> node_world fstate" where
  "demo_state xs f = fold pushed xs (init_fstate (\<lambda>x. Some (ucast x)) (demo_di, f))"

definition demo_part :: part_info where
  "demo_part = \<lparr>pt_seek_xt = 5, pt_read_xt = 6, offs_hi = 0, offs_lo = 0x200, size_hi = 0, size_lo = 0x400, filesystem_ph = 0\<rparr>"

lemma demo_state_facts:
  "length xs < 10 \<Longrightarrow> ds_ok (demo_state xs f) \<and> ds (demo_state xs f) = rev xs \<and>
     mem (demo_state xs f) = (\<lambda>x. Some (ucast x)) \<and> world (demo_state xs f) = (demo_di, f)"
proof (induction xs rule: rev_induct)
  case Nil
  then show ?case by (simp add: demo_state_def init_fstate_def ds_ok_def ds_def)
next
  case (snoc x xs)
  then show ?case by (simp add: demo_state_def ds_ok_pushed ds_pushed)
qed

text \<open>
  C28: Opening a primary PC partition. For every disk whose first sector carries the magic and whose entry
  \<open>k < 4\<close> is neither empty nor extended, the search ends with the partition found (or with success at once
  for a PReP boot partition), and the instance's offset and size are the little-endian sector numbers of that entry times 512,
  as 64-bit numbers; the rest of the instance data and the stack are as before.
\<close>

theorem pc_locate_primary:
  assumes "pc_ready p N B H D P R fr di s" and "k < 4" and "has_magic (D (world s))"
    and "D (world s) (mbr_entry k + 4) \<noteq> 0" and "\<not> is_pc_extended_part (D (world s) (mbr_entry k + 4))"
  shows "\<exists>f di' s'. pc_locate p fr k di s = Some (f, di', s') \<and> ds s' = ds s \<and> D (world s') = D (world s) \<and>
           f = (if D (world s) (mbr_entry k + 4) = 0x41 then Ret (- 1) else Found (part_offs di')) \<and>
           unat (part_offs di') = unat (le32 (D (world s)) (mbr_entry k + 8)) * 512 \<and>
           unat (part_size di') = unat (le32 (D (world s)) (mbr_entry k + 12)) * 512 \<and>
           di' = set_extent (part_offs di') (part_size di') di"
proof -
  have times: "unat (ucast (x :: u32) * 512 :: ducell) = unat x * 512" for x
  proof -
    have "unat x < 2 ^ LENGTH(32)" by (rule unsigned_less)
    then show ?thesis by (simp add: unat_word_ariths unsigned_ucast_eq take_bit_nat_eq_self)
  qed
  from pc_locate_eq [OF assms(1,2)] obtain s' where
    "pc_locate p fr k di s = Some (fst (pc_outcome (D (world s)) k di), snd (pc_outcome (D (world s)) k di), s')"
    "ds s' = ds s" "D (world s') = D (world s)" by blast
  then show ?thesis using assms(3-5) by (simp add: pc_outcome_def Let_def part_extent times)
qed

definition demo_mbr :: "nat \<Rightarrow> u8" where
  "demo_mbr i = (if i = 0x1fe then 0x55 else if i = 0x1ff then 0xAA else if i = 0x1c2 then 0x83 else if i = 0x1c6 then 2
                 else if i = 0x1ca then 1 else 0)"

abbreviation demo_needs :: "memory \<Rightarrow> node_world \<Rightarrow> bool" where
  "demo_needs m w \<equiv> deblk_inst 4 1 0x1000 fst m w \<and> mapped m 0x8000 16"

lemma demo_pc_ready:
  "pc_ready demo_node 0x40000 (in_region 0x1000 4) (in_region 0x8000 16) snd (\<lambda>w. unat (mark_of (fst w)))
     demo_needs 0x4000 demo_part (demo_state [] f)"
proof -
  have "byte_device demo_node 5 6 (0x10000 * 4) (in_region 0x1000 4) snd (\<lambda>w. unat (mark_of (fst w))) demo_needs"
    unfolding demo_node_def
    by (rule byte_device_needs [OF deblk_byte_device [OF node_disk]]) (simp_all add: same_dom_def mapped_def)
  moreover have "allocates demo_node 16 (in_region 0x8000 16) demo_needs"
    by (auto simp: allocates_def demo_node_def deblk_node_def node_env_def same_dom_def)
  moreover have "apart 0x4000 512 0x1000 4" by (subst apart_sym, rule apart_no_wrap) simp_all
  moreover have "apart 0x4000 512 0x8000 16" by (rule apart_no_wrap) simp_all
  ultimately show ?thesis
    using demo_state_facts [of "[]" f] by (simp add: pc_ready_def demo_part_def deblk_inst_def mapped_def demo_di_def apart_def)
qed

theorem pc_locate_primary_witness:
  "\<exists>di' s'. pc_locate demo_node 0x4000 0 demo_part (demo_state [] demo_mbr) = Some (Found 0x400, di', s') \<and>
     part_offs di' = 0x400 \<and> part_size di' = 0x200"
proof -
  have f: "world (demo_state [] demo_mbr) = (demo_di, demo_mbr)" using demo_state_facts [of "[]"] by simp
  have v: "has_magic demo_mbr" "demo_mbr (mbr_entry 0 + 4) = 0x83" "le32 demo_mbr (mbr_entry 0 + 8) = 2" "le32 demo_mbr (mbr_entry 0 + 12) = 1"
    by (simp_all add: has_magic_def demo_mbr_def mbr_entry_def le32_def cat32_def)
  from pc_locate_primary [OF demo_pc_ready, of 0 demo_mbr] f v obtain g di' s' where
    1: "pc_locate demo_node 0x4000 0 demo_part (demo_state [] demo_mbr) = Some (g, di', s')"
      "g = Found (part_offs di')" "unat (part_offs di') = 1024" "unat (part_size di') = 512"
    by (auto simp: is_pc_extended_part_def)
  have "part_offs di' = of_nat 1024" "part_size di' = of_nat 512" using 1(3,4) by (metis eq_of_nat)+
  with 1 show ?thesis by simp
qed

text \<open>
  C29: What is not a partition is refused. When the first sector lacks the magic, or the entry asked for is
  empty or an extended partition, the search ends with the flag 0 and leaves the instance data as it was.
\<close>

theorem pc_locate_rejects:
  assumes "pc_ready p N B H D P R fr di s" and "k < 4"
    and "has_magic (D (world s)) \<Longrightarrow>
           D (world s) (mbr_entry k + 4) = 0 \<or> is_pc_extended_part (D (world s) (mbr_entry k + 4))"
  shows "\<exists>s'. pc_locate p fr k di s = Some (Ret 0, di, s') \<and> ds s' = ds s \<and> D (world s') = D (world s)"
proof -
  have "pc_outcome (D (world s)) k di = (Ret 0, di)" using assms(3) by (auto simp: pc_outcome_def Let_def)
  with pc_locate_eq [OF assms(1,2)] show ?thesis by auto
qed

theorem pc_locate_rejects_witness:
  "(\<exists>s'. pc_locate demo_node 0x4000 1 demo_part (demo_state [] demo_mbr) = Some (Ret 0, demo_part, s')) \<and>
   (\<exists>s'. pc_locate demo_node 0x4000 0 demo_part (demo_state [] (\<lambda>_. 0)) = Some (Ret 0, demo_part, s'))"
proof -
  have f: "world (demo_state [] g) = (demo_di, g)" for g using demo_state_facts [of "[]"] by simp
  show ?thesis
    using pc_locate_rejects [OF demo_pc_ready, of 1 demo_mbr] pc_locate_rejects [OF demo_pc_ready, of 0 "\<lambda>_. 0"]
    by (auto simp: f demo_mbr_def mbr_entry_def has_magic_def)
qed

text \<open>
  C25: A partition is a window of its disk. On a disk node that is the deblocker on a block device, for a
  partition that lies on the device, a seek to any position up to the size, the size included, moves the disk to offset plus
  position, and a read that follows and ends within the partition puts the bytes of the disk at offset plus position into
  memory. A position beyond the size and below \<open>2 ^ 63\<close> is refused with -1 and neither memory nor the device changes. A
  position of \<open>2 ^ 63\<close> or more is negative in the signed comparison of the code and is not refused: unless the sum is -1,
  the disk moves to offset plus position modulo \<open>2 ^ 64\<close>, which may lie in front of the partition. The comment in the code
  calls reaching the end invalid; the code accepts the position that equals the size.
\<close>

theorem partition_window:
  assumes "block_disk p brx bs nb D gt st" and "sx \<noteq> rx" and "pt_seek_xt di = sx" and "pt_read_xt di = rx"
    and "unat (part_offs di) + unat (part_size di) \<le> nb * bs"
    and "ds_ok s" and "ds s = hi # lo # rest" and "length rest \<le> 480" and "deblk_inst bs brx buf gt (mem s) (world s)"
  shows "(unat (join_cells hi lo) \<le> unat (part_size di) \<longrightarrow>
           (\<exists>s1. part_seek (deblk_node p gt st sx rx ih) di s = Some s1 \<and> ds_ok s1 \<and> ds s1 = 0 # rest \<and> mem s1 = mem s \<and>
           unat (mark_of (gt (world s1))) = unat (part_offs di) + unat (join_cells hi lo) \<and>
           (\<forall>s2 a n rest2. ds_ok s2 \<and> ds s2 = of_nat n # a # rest2 \<and> length rest2 \<le> 480 \<and> world s2 = world s1 \<and>
              n < 2 ^ 31 \<and> mapped (mem s2) buf bs \<and> mapped (mem s2) a n \<and> apart a n buf bs \<and>
              unat (join_cells hi lo) + n \<le> unat (part_size di) \<longrightarrow>
              (\<exists>s3. part_read (deblk_node p gt st sx rx ih) di s2 = Some s3 \<and> ds s3 = of_nat n # rest2 \<and>
                 (\<forall>i < n. mem s3 (a + of_nat i) = Some (D (world s) (unat (part_offs di) + unat (join_cells hi lo) + i))))))) \<and>
         (unat (part_size di) < unat (join_cells hi lo) \<and> unat (join_cells hi lo) < 2 ^ 63 \<longrightarrow>
           (\<exists>s1. part_seek (deblk_node p gt st sx rx ih) di s = Some s1 \<and> ds s1 = - 1 # rest \<and> mem s1 = mem s \<and> world s1 = world s)) \<and>
         (2 ^ 63 \<le> unat (join_cells hi lo) \<and> part_offs di + join_cells hi lo \<noteq> - 1 \<longrightarrow>
           (\<exists>s1. part_seek (deblk_node p gt st sx rx ih) di s = Some s1 \<and> ds s1 = 0 # rest \<and> mem s1 = mem s \<and>
              mark_of (gt (world s1)) = part_offs di + join_cells hi lo))"
proof (intro conjI impI)
  assume in_part: "unat (join_cells hi lo) \<le> unat (part_size di)"
  from part_seek_in [OF assms(1,3,6-9) in_part assms(5), of rx ih] obtain s1 where
    1: "part_seek (deblk_node p gt st sx rx ih) di s = Some s1" "ds_ok s1" "ds s1 = 0 # rest" "mem s1 = mem s" "D (world s1) = D (world s)"
      "unat (mark_of (gt (world s1))) = unat (part_offs di) + unat (join_cells hi lo)" "deblk_inst bs brx buf gt (mem s1) (world s1)"
    by blast
  have "\<exists>s3. part_read (deblk_node p gt st sx rx ih) di s2 = Some s3 \<and> ds s3 = of_nat n # rest2 \<and>
      (\<forall>i < n. mem s3 (a + of_nat i) = Some (D (world s) (unat (part_offs di) + unat (join_cells hi lo) + i)))"
    if s2: "ds_ok s2" "ds s2 = of_nat n # a # rest2" "length rest2 \<le> 480" "world s2 = world s1" "n < 2 ^ 31"
      "mapped (mem s2) buf bs" "mapped (mem s2) a n" "apart a n buf bs" "unat (join_cells hi lo) + n \<le> unat (part_size di)"
    for s2 a n rest2
  proof -
    have "deblk_inst bs brx buf gt (mem s2) (world s2)" using 1(7) s2(4,6) by (simp add: deblk_inst_def)
    from part_read_at [OF assms(1,2,4) s2(1-3) this s2(5,7), of ih] s2(4,8,9) 1(5,6) assms(5) show ?thesis
      by (auto simp: apart_def holds_def)
  qed
  with 1 show "\<exists>s1. part_seek (deblk_node p gt st sx rx ih) di s = Some s1 \<and> ds_ok s1 \<and> ds s1 = 0 # rest \<and> mem s1 = mem s \<and>
      unat (mark_of (gt (world s1))) = unat (part_offs di) + unat (join_cells hi lo) \<and>
      (\<forall>s2 a n rest2. ds_ok s2 \<and> ds s2 = of_nat n # a # rest2 \<and> length rest2 \<le> 480 \<and> world s2 = world s1 \<and>
         n < 2 ^ 31 \<and> mapped (mem s2) buf bs \<and> mapped (mem s2) a n \<and> apart a n buf bs \<and>
         unat (join_cells hi lo) + n \<le> unat (part_size di) \<longrightarrow>
         (\<exists>s3. part_read (deblk_node p gt st sx rx ih) di s2 = Some s3 \<and> ds s3 = of_nat n # rest2 \<and>
            (\<forall>i < n. mem s3 (a + of_nat i) = Some (D (world s) (unat (part_offs di) + unat (join_cells hi lo) + i)))))" by auto
next
  assume out: "unat (part_size di) < unat (join_cells hi lo) \<and> unat (join_cells hi lo) < 2 ^ 63"
  then have "sint (part_size di) < sint (join_cells hi lo)"
    using sint_small64 [of "part_size di"] sint_small64 [of "join_cells hi lo"] by linarith
  from part_seek_out [OF assms(6,7) this]
  show "\<exists>s1. part_seek (deblk_node p gt st sx rx ih) di s = Some s1 \<and> ds s1 = - 1 # rest \<and> mem s1 = mem s \<and> world s1 = world s" .
next
  assume neg: "2 ^ 63 \<le> unat (join_cells hi lo) \<and> part_offs di + join_cells hi lo \<noteq> - 1"
  have "nb * bs < 2 ^ 31 * 2 ^ 31" using assms(1) unfolding block_disk_def by (intro mult_strict_mono) auto
  then have "0 \<le> sint (part_size di)" using assms(5) sint_small64 [of "part_size di"] by simp
  moreover have "sint (join_cells hi lo) < 0" using neg sint_large64 [of "join_cells hi lo"] by blast
  ultimately have "\<not> sint (part_size di) < sint (join_cells hi lo)" by linarith
  from part_seek_passes [OF assms(1,3,6-9) this conjunct2 [OF neg], of rx ih]
  show "\<exists>s1. part_seek (deblk_node p gt st sx rx ih) di s = Some s1 \<and> ds s1 = 0 # rest \<and> mem s1 = mem s \<and>
      mark_of (gt (world s1)) = part_offs di + join_cells hi lo" by blast
qed

theorem partition_window_witness:
  "(\<exists>s1 s3. part_seek demo_node demo_part (demo_state [0x10, 0] of_nat) = Some s1 \<and> ds s1 = [0] \<and>
      part_read demo_node demo_part (fold pushed [0x2000, 8] (popped s1)) = Some s3 \<and> mem s3 0x2003 = Some 0x13) \<and>
   (\<exists>s1. part_seek demo_node demo_part (demo_state [0x401, 0] of_nat) = Some s1 \<and> ds s1 = [- 1]) \<and>
   (\<exists>s1. part_seek demo_node demo_part (demo_state [0xFFFFFFF0, 0xFFFFFFFF] of_nat) = Some s1 \<and> mark_of (fst (world s1)) = 0x1F0)"
proof -
  have ex: "part_offs demo_part = 0x200" "part_size demo_part = 0x400" "join_cells 0 0x10 = 0x10" "join_cells 0 0x401 = 0x401"
    "join_cells 0xFFFFFFFF 0xFFFFFFF0 = 0xFFFFFFFFFFFFFFF0"
    by (simp_all add: part_offs_def part_size_def demo_part_def join_cells_def)
  have R: "deblk_inst 4 1 0x1000 fst (mem (demo_state xs of_nat)) (world (demo_state xs of_nat))" if "length xs < 10" for xs
    using demo_state_facts [OF that, of of_nat] by (simp add: deblk_inst_def demo_di_def mapped_def)
  note pw = partition_window [OF node_disk, of 5 6 demo_part _ _ _ _ "0x1000" 7, folded demo_node_def]
  have pt: "pt_seek_xt demo_part = 5" "pt_read_xt demo_part = 6" by (simp_all add: demo_part_def)
  have "\<exists>s1. part_seek demo_node demo_part (demo_state [0x10, 0] of_nat) = Some s1 \<and> ds_ok s1 \<and> ds s1 = [0] \<and> mem s1 = mem (demo_state [0x10, 0] of_nat) \<and>
      unat (mark_of (fst (world s1))) = 0x210 \<and>
      (\<forall>s2 a n rest2. ds_ok s2 \<and> ds s2 = of_nat n # a # rest2 \<and> length rest2 \<le> 480 \<and> world s2 = world s1 \<and>
         n < 2 ^ 31 \<and> mapped (mem s2) 0x1000 4 \<and> mapped (mem s2) a n \<and> apart a n 0x1000 4 \<and> 0x10 + n \<le> 0x400 \<longrightarrow>
         (\<exists>s3. part_read demo_node demo_part s2 = Some s3 \<and> ds s3 = of_nat n # rest2 \<and>
            (\<forall>i < n. mem s3 (a + of_nat i) = Some (of_nat (0x210 + i)))))"
    using conjunct1 [OF pw [of "demo_state [0x10, 0] of_nat" 0 "0x10" "[]"]] demo_state_facts [of "[0x10, 0]" of_nat] R [of "[0x10, 0]"] pt ex by simp
  then obtain s1 where 1: "part_seek demo_node demo_part (demo_state [0x10, 0] of_nat) = Some s1" "ds s1 = [0]" and ok1: "ds_ok s1"
      and mem1:
      "mem s1 = mem (demo_state [0x10, 0] of_nat)"
    and rd: "\<And>s2 a n rest2. ds_ok s2 \<and> ds s2 = of_nat n # a # rest2 \<and> length rest2 \<le> 480 \<and> world s2 = world s1 \<and>
         n < 2 ^ 31 \<and> mapped (mem s2) 0x1000 4 \<and> mapped (mem s2) a n \<and> apart a n 0x1000 4 \<and> 0x10 + n \<le> 0x400 \<Longrightarrow>
         \<exists>s3. part_read demo_node demo_part s2 = Some s3 \<and> ds s3 = of_nat n # rest2 \<and>
            (\<forall>i < n. mem s3 (a + of_nat i) = Some (of_nat (0x210 + i)))" by blast
  let ?s2 = "fold pushed [0x2000, 8] (popped s1)"
  have "ds_ok ?s2 \<and> ds ?s2 = [of_nat 8, 0x2000] \<and> world ?s2 = world s1 \<and> mem ?s2 = (\<lambda>x. Some (ucast x))"
    using ok1 1 mem1 demo_state_facts [of "[0x10, 0]" of_nat] by (simp add: ds_ok_pushed ds_pushed ds_popped ds_ok_popped)
  moreover have "apart 0x2000 8 0x1000 4" by (subst apart_sym, rule apart_no_wrap) simp_all
  ultimately have "\<exists>s3. part_read demo_node demo_part ?s2 = Some s3 \<and> ds s3 = of_nat 8 # [] \<and>
      (\<forall>i < 8. mem s3 (0x2000 + of_nat i) = Some (of_nat (0x210 + i)))"
    by (intro rd) (simp add: mapped_def)
  then obtain s3 where 3: "part_read demo_node demo_part ?s2 = Some s3"
    and m3: "\<forall>i < 8. mem s3 (0x2000 + of_nat i) = Some (of_nat (0x210 + i))" by blast
  have "mem s3 0x2003 = Some 0x13" using m3 [rule_format, of 3] by simp
  have "\<exists>s1. part_seek demo_node demo_part (demo_state [0x401, 0] of_nat) = Some s1 \<and> ds s1 = [- 1]"
    using conjunct1 [OF conjunct2 [OF pw [of "demo_state [0x401, 0] of_nat" 0 "0x401" "[]"]]]
      demo_state_facts [of "[0x401, 0]" of_nat] R [of "[0x401, 0]"] pt ex by auto
  moreover have "\<exists>s1. part_seek demo_node demo_part (demo_state [0xFFFFFFF0, 0xFFFFFFFF] of_nat) = Some s1 \<and> mark_of (fst (world s1)) = 0x1F0"
    using conjunct2 [OF conjunct2 [OF pw [of "demo_state [0xFFFFFFF0, 0xFFFFFFFF] of_nat" "0xFFFFFFFF" "0xFFFFFFF0" "[]"]]]
      demo_state_facts [of "[0xFFFFFFF0, 0xFFFFFFFF]" of_nat] R [of "[0xFFFFFFF0, 0xFFFFFFFF]"] pt ex by auto
  moreover note \<open>mem s3 0x2003 = Some 0x13\<close>
  ultimately show ?thesis using 1 3 by auto
qed

end
