(* ===== verification/Parts_More.thy ===== *)
theory Parts_More
  imports Parts_Props
begin

text \<open>
  \<open>packages/sun-parts.c\<close>, \<open>packages/mac-parts.c\<close> and \<open>packages/disk-label.c\<close>, in the style of \<open>Parts\<close>: the disk
  label of a Sun disk, the partition map of an Apple disk, and the package that chooses a partition handler.
\<close>

subsection \<open>Sun disk labels\<close>

record sunparts_info = part_info +
  sp_type :: int

text \<open>Offsets in \<open>struct sun_disklabel\<close>, 512 bytes.\<close>

abbreviation label_infos :: ucell where "label_infos \<equiv> 142"
abbreviation label_ntrks :: ucell where "label_ntrks \<equiv> 436"
abbreviation label_nsect :: ucell where "label_nsect \<equiv> 438"
abbreviation label_partitions :: ucell where "label_partitions \<equiv> 444"
abbreviation label_magic :: ucell where "label_magic \<equiv> 508"

fun csum_loop :: "memory \<Rightarrow> ucell \<Rightarrow> nat \<Rightarrow> u16 \<Rightarrow> u16 option" where
  "csum_loop m ush 0 csum = Some csum"
| "csum_loop m ush (Suc n) csum = do { w \<leftarrow> read_word m ush; csum_loop m (ush + 2) n (csum XOR w) }"

definition has_sun_part_magic :: "memory \<Rightarrow> ucell \<Rightarrow> bool option" where
  "has_sun_part_magic m sect =
     do { magic \<leftarrow> read_word m (sect + label_magic);
          if magic \<noteq> 0xDABE then Some False
          else do { csum \<leftarrow> csum_loop m sect 256 0; Some (csum = 0) } }"

definition sunparts_args :: "'w pkg_env \<Rightarrow> 'w fstate \<Rightarrow> (ucell \<times> ucell \<times> int \<times> 'w fstate) option" where
  "sunparts_args p s =
     do { (str, s) \<leftarrow> my_args_copy p s;
          n \<leftarrow> (if str = 0 then Some 0 else strlen (at (mem s) str));
          (argstr, parnum, s) \<leftarrow>
            (if n = 0 then Some (0, - 1, s)
             else do { c \<leftarrow> read_byte (mem s) str;
                       (parstr, argstr, s) \<leftarrow>
                         (if ch CHR ''0'' \<le> c \<and> c \<le> ch CHR ''9'' \<or> ch CHR ''a'' \<le> c \<and> c < ch CHR ''a'' + 8 \<or> c = ch CHR '',''
                          then split_args p str s else Some (0, str, s));
                       k \<leftarrow> (if parstr = 0 then Some 0 else strlen (at (mem s) parstr));
                       parnum \<leftarrow> (if k = 0 then Some (- 1)
                                  else do { d \<leftarrow> read_byte (mem s) parstr;
                                            if ch CHR ''a'' \<le> d \<and> d < ch CHR ''a'' + 8 then Some (uint (d - ch CHR ''a''))
                                            else atol (mem s) parstr });
                       Some (argstr, parnum, s) });
          (argstr, s) \<leftarrow> (if argstr = 0 then strdup p (lit p '''') s else Some (argstr, s));
          Some (str, argstr, parnum, s) }"

text \<open>From the first \<open>SEEK\<close> to the file system probe; \<open>parnum\<close> indexes the array of eight entries unchecked. The product
  of cylinders, tracks, sectors and 512 is taken modulo \<open>2 ^ 64\<close>; in C it is a \<open>long long\<close>, which only a label that describes
  \<open>2 ^ 63\<close> bytes or more overflows.\<close>

definition sun_locate :: "'w pkg_env \<Rightarrow> ucell \<Rightarrow> int \<Rightarrow> sunparts_info \<Rightarrow> 'w fstate \<Rightarrow> (found \<times> sunparts_info \<times> 'w fstate) option" where
  "sun_locate p buf parnum di s =
     do { (_, s) \<leftarrow> SEEK p di 0 s;
          (r, s) \<leftarrow> READ p di buf 512 s;
          if r \<noteq> 512 then Some (Ret 0, di, s)
          else do {
            magic \<leftarrow> has_sun_part_magic (mem s) buf;
            if \<not> magic then Some (Ret 0, di, s)
            else do {
              let parnum = (if parnum < 0 then 0 else parnum);
              let q = buf + label_partitions + 8 * word_of_int parnum;
              start_cylinder \<leftarrow> read_long (mem s) q;
              ntrks \<leftarrow> read_word (mem s) (buf + label_ntrks);
              nsect \<leftarrow> read_word (mem s) (buf + label_nsect);
              let offs = (ucast start_cylinder * ucast ntrks * ucast nsect * 512 :: ducell);
              let di = di\<lparr>offs_hi := ucast (drop_bit 32 offs), offs_lo := ucast offs\<rparr>;
              num_sectors \<leftarrow> read_long (mem s) (q + 4);
              let sz = (ucast num_sectors * 512 :: ducell);
              if sz = 0 then Some (Ret 0, di, s)
              else do {
                id \<leftarrow> read_word (mem s) (buf + label_infos + 4 * word_of_int parnum);
                Some (Found offs,
                      di\<lparr>size_hi := ucast (drop_bit 32 sz), size_lo := ucast sz, sp_type := uint id\<rparr>, s) } } } }"

definition sunparts_open :: "'w pkg_env \<Rightarrow> ucell \<Rightarrow> sunparts_info \<Rightarrow> 'w fstate \<Rightarrow> (sunparts_info \<times> 'w fstate) option" where
  "sunparts_open p fr di s =
     do { (str, argstr, parnum, s) \<leftarrow> sunparts_args p s;
          (rx, s) \<leftarrow> find_parent_method p ''read'' s;
          (sx, s) \<leftarrow> find_parent_method p ''seek'' s;
          let di = di\<lparr>filesystem_ph := 0, pt_read_xt := rx, pt_seek_xt := sx\<rparr>;
          (f, di, s) \<leftarrow> sun_locate p fr parnum di s;
          case f of
            Ret v \<Rightarrow> do { s \<leftarrow> free p str s; s \<leftarrow> PUSH v s; Some (di, s) }
          | Found offs \<Rightarrow>
              do { (ph, s) \<leftarrow> probe_fs p offs s;
                   (di, s) \<leftarrow>
                     (if ph \<noteq> 0
                      then do { s \<leftarrow> interpose p argstr ph s; Some (di\<lparr>filesystem_ph := ph\<rparr>, s) }
                      else do { s \<leftarrow> push_lit p ''ufs-file-system'' s;
                                (_, s) \<leftarrow> feval p ''find-package'' s;
                                (ph, s) \<leftarrow> POP s;
                                n \<leftarrow> strlen (at (mem s) argstr);
                                if n \<noteq> 0 \<and> ph \<noteq> 0
                                then do { (ph, s) \<leftarrow> POP s;
                                          s \<leftarrow> push_str argstr s;
                                          s \<leftarrow> PUSH ph s;
                                          s \<leftarrow> fword p ''interpose'' s;
                                          Some (di, s) }
                                else Some (di, s) });
                   s \<leftarrow> free p str s;
                   s \<leftarrow> PUSH (- 1) s;
                   Some (di, s) } }"

definition sunparts_probe :: "'w fstate \<Rightarrow> 'w fstate option" where
  "sunparts_probe s =
     do { (buf, s) \<leftarrow> POP s; ok \<leftarrow> has_sun_part_magic (mem s) buf; PUSH (c_bool ok) s }"

definition sunparts_get_info :: "sunparts_info \<Rightarrow> 'w fstate \<Rightarrow> 'w fstate option" where
  "sunparts_get_info di s = part_get_info (word_of_int (sp_type di)) di s"

definition sunparts_block_size :: "'w fstate \<Rightarrow> 'w fstate option" where
  "sunparts_block_size s = PUSH 512 s"

definition sunparts_initialize :: "'w pkg_env \<Rightarrow> 'w fstate \<Rightarrow> 'w fstate option" where
  "sunparts_initialize p s = part_initialize p s"

definition sunparts_seek :: "'w pkg_env \<Rightarrow> sunparts_info \<Rightarrow> 'w fstate \<Rightarrow> 'w fstate option" where
  "sunparts_seek p di s = part_seek p di s"

definition sunparts_read :: "'w pkg_env \<Rightarrow> sunparts_info \<Rightarrow> 'w fstate \<Rightarrow> 'w fstate option" where
  "sunparts_read p di s = part_read p di s"

definition sunparts_load :: "'w pkg_env \<Rightarrow> 'w fstate \<Rightarrow> 'w fstate option" where
  "sunparts_load p s = part_load p s"

definition sunparts_dir :: "'w pkg_env \<Rightarrow> sunparts_info \<Rightarrow> 'w fstate \<Rightarrow> 'w fstate option" where
  "sunparts_dir p di s = part_dir p ''sun-parts'' di s"

subsection \<open>Apple partition maps\<close>

record macparts_info = part_info +
  bootcode_addr :: ucell
  bootcode_entry :: ucell
  mp_blocksize :: u32

text \<open>
  \<open>desc_map_t\<close> lies at \<open>fr\<close>, \<open>part_entry_t\<close> at \<open>fr + 512\<close>; the fields are big-endian, as the machine is.
\<close>

abbreviation DESC_MAP_SIGNATURE :: u16 where "DESC_MAP_SIGNATURE \<equiv> 0x4552"
abbreviation DESC_PART_SIGNATURE :: u16 where "DESC_PART_SIGNATURE \<equiv> 0x504d"

definition pmSig :: "memory \<Rightarrow> ucell \<Rightarrow> u16 option" where "pmSig m par = read_word m par"
definition pmMapBlkCnt :: "memory \<Rightarrow> ucell \<Rightarrow> u32 option" where "pmMapBlkCnt m par = read_long m (par + 4)"
definition pmPyPartStart :: "memory \<Rightarrow> ucell \<Rightarrow> u32 option" where "pmPyPartStart m par = read_long m (par + 8)"
definition pmPartBlkCnt :: "memory \<Rightarrow> ucell \<Rightarrow> u32 option" where "pmPartBlkCnt m par = read_long m (par + 12)"
definition pmPartStatus :: "memory \<Rightarrow> ucell \<Rightarrow> u32 option" where "pmPartStatus m par = read_long m (par + 88)"
definition pmLgBootStart :: "memory \<Rightarrow> ucell \<Rightarrow> u32 option" where "pmLgBootStart m par = read_long m (par + 92)"
definition pmBootSize :: "memory \<Rightarrow> ucell \<Rightarrow> u32 option" where "pmBootSize m par = read_long m (par + 96)"
definition pmBootLoad :: "memory \<Rightarrow> ucell \<Rightarrow> u32 option" where "pmBootLoad m par = read_long m (par + 100)"
definition pmBootEntry :: "memory \<Rightarrow> ucell \<Rightarrow> u32 option" where "pmBootEntry m par = read_long m (par + 108)"

text \<open>\<open>kPartitionAUXIsValid\<close>, \<open>kPartitionAUXIsAllocated\<close>, \<open>kPartitionAUXIsReadable\<close>; \<open>kPartitionAUXIsBootValid\<close>.\<close>

definition aux_usable :: "u32 \<Rightarrow> bool" where
  "aux_usable st \<longleftrightarrow> st AND 1 \<noteq> 0 \<and> st AND 2 \<noteq> 0 \<and> st AND 16 \<noteq> 0"

definition aux_boot_valid :: "u32 \<Rightarrow> bool" where
  "aux_boot_valid st \<longleftrightarrow> st AND 8 \<noteq> 0"

definition str_is :: "memory \<Rightarrow> ucell \<Rightarrow> string \<Rightarrow> bool option" where
  "str_is m a w = do { c \<leftarrow> strcmp (at m a) (lit_str (cstr w)); Some (c = 0) }"

fun str_in :: "memory \<Rightarrow> ucell \<Rightarrow> string list \<Rightarrow> bool option" where
  "str_in m a [] = Some False"
| "str_in m a (w # ws) = do { b \<leftarrow> str_is m a w; if b then Some True else str_in m a ws }"

partial_function (option) lower_loop :: "memory \<Rightarrow> ucell \<Rightarrow> nat \<Rightarrow> memory option" where
  "lower_loop m a j =
     do { n \<leftarrow> strlen (at m a);
          if j < n
          then do { c \<leftarrow> read_byte m (a + of_nat j); m \<leftarrow> write_byte m (a + of_nat j) (tolower c); lower_loop m a (Suc j) }
          else Some m }"

definition macparts_args :: "'w pkg_env \<Rightarrow> 'w fstate \<Rightarrow> (ucell \<times> ucell \<times> int \<times> bool \<times> 'w fstate) option" where
  "macparts_args p s =
     do { (str, s) \<leftarrow> my_args_copy p s;
          n \<leftarrow> (if str = 0 then Some 0 else strlen (at (mem s) str));
          if n = 0 then Some (str, 0, - 1, False, s)
          else do {
            c \<leftarrow> read_byte (mem s) str;
            (parstr, argstr, s) \<leftarrow>
              (if ch CHR ''0'' \<le> c \<and> c \<le> ch CHR ''9'' \<or> c = ch CHR '','' then split_args p str s else Some (0, str, s));
            (argstr, s) \<leftarrow> (if argstr = 0 then strdup p (lit p '''') s else Some (argstr, s));
            k \<leftarrow> (if parstr = 0 then Some 0 else strlen (at (mem s) parstr));
            parnum \<leftarrow> (if k = 0 then Some (- 1) else atol (mem s) parstr);
            boot \<leftarrow> str_is (mem s) argstr ''%BOOT'';
            Some (str, argstr, parnum, boot, s) } }"

text \<open>
  One entry of the map, \<open>i\<close> from 1: whether it becomes the fallback partition and whether it becomes the
  chosen one. The loop bound is the count in the entry read last.
\<close>

definition scan_entry :: "ucell \<Rightarrow> int \<Rightarrow> int \<Rightarrow> int \<Rightarrow> 'w fstate \<Rightarrow> (int \<times> int \<times> 'w fstate) option" where
  "scan_entry par i parnum apple_parnum s =
     do { sig \<leftarrow> pmSig (mem s) par;
          blocks \<leftarrow> pmPartBlkCnt (mem s) par;
          if sig \<noteq> DESC_PART_SIGNATURE \<or> blocks = 0 then Some (parnum, apple_parnum, s)
          else do {
            hit \<leftarrow> (if apple_parnum = - 1
                    then str_in (mem s) (par + 48) [''Apple_Boot'', ''Apple_Bootstrap'', ''Apple_HFS'', ''DOS_FAT_'']
                    else Some False);
            let apple_parnum = (if hit then i else apple_parnum);
            st \<leftarrow> pmPartStatus (mem s) par;
            if aux_usable st
            then do { m \<leftarrow> lower_loop (mem s) (par + 120) 0;
                      let s = s\<lparr>mem := m\<rparr>;
                      st \<leftarrow> pmPartStatus m par;
                      ppc \<leftarrow> (if aux_boot_valid st then str_is m (par + 120) ''powerpc'' else Some False);
                      Some (if ppc then i else parnum, apple_parnum, s) }
            else Some (parnum, apple_parnum, s) } }"

partial_function (option) scan_map :: "'w pkg_env \<Rightarrow> macparts_info \<Rightarrow> ucell \<Rightarrow> int \<Rightarrow> int \<Rightarrow> int \<Rightarrow> int \<Rightarrow> 'w fstate \<Rightarrow> (int \<times> int \<times> 'w fstate) option" where
  "scan_map p di par bs i parnum apple_parnum s =
     do { cnt \<leftarrow> pmMapBlkCnt (mem s) par;
          if uint (word_of_int i :: u32) \<le> uint cnt
          then do { pos \<leftarrow> cint (bs * i);
                    (_, s) \<leftarrow> SEEK p di (word_of_int pos) s;
                    (_, s) \<leftarrow> READ p di par 512 s;
                    (parnum, apple_parnum, s) \<leftarrow> scan_entry par i parnum apple_parnum s;
                    i \<leftarrow> cint (i + 1);
                    scan_map p di par bs i parnum apple_parnum s }
          else Some (parnum, apple_parnum, s) }"

definition parlist :: "int \<Rightarrow> int \<Rightarrow> int list" where
  "parlist parnum apple_parnum =
     (if parnum > 0 then [parnum] else []) @ (if apple_parnum > 0 \<and> apple_parnum \<noteq> parnum then [apple_parnum] else [])"

definition selected_args :: "'w pkg_env \<Rightarrow> int \<Rightarrow> ucell \<Rightarrow> 'w fstate \<Rightarrow> 'w fstate option" where
  "selected_args p parnum argstr s =
     do { n \<leftarrow> strlen (at (mem s) argstr);
          (tmpstr, s) \<leftarrow> malloc p (of_nat n + 3) s;
          (_, m) \<leftarrow> (if n \<noteq> 0 then sprintf (mem s) tmpstr (lit_str (cstr ''%d,%s'')) [W32 (word_of_int parnum), W32 argstr]
                     else sprintf (mem s) tmpstr (lit_str (cstr ''%d'')) [W32 (word_of_int parnum)]);
          s \<leftarrow> push_str tmpstr (s\<lparr>mem := m\<rparr>);
          (_, s) \<leftarrow> feval p (''strdup encode-string '' @ [CHR 0x22] @ '' selected-partition-args'' @ [CHR 0x22] @ '' property'') s;
          free p tmpstr s }"

text \<open>The extent and boot code of the entry in \<open>par\<close>; \<open>None\<close> when boot code was asked for and there is none.\<close>

definition mac_extent :: "memory \<Rightarrow> ucell \<Rightarrow> int \<Rightarrow> bool \<Rightarrow> macparts_info \<Rightarrow> (ducell \<times> macparts_info) option option" where
  "mac_extent m par bs want_bootcode di =
     do { start \<leftarrow> pmPyPartStart m par;
          cnt \<leftarrow> pmPartBlkCnt m par;
          let offs = ucast start * word_of_int bs;
          let sz = ucast cnt * word_of_int bs;
          if want_bootcode
          then do { bsz \<leftarrow> pmBootSize m par;
                    if bsz = 0 then Some None
                    else do { lg \<leftarrow> pmLgBootStart m par;
                              let offs = offs + ucast lg * word_of_int bs;
                              ld \<leftarrow> pmBootLoad m par;
                              en \<leftarrow> pmBootEntry m par;
                              Some (Some (offs, set_extent offs (ucast bsz)
                                (di\<lparr>bootcode_addr := ld, bootcode_entry := en, mp_blocksize := word_of_int bs\<rparr>))) } }
          else Some (Some (offs, set_extent offs sz (di\<lparr>mp_blocksize := word_of_int bs\<rparr>))) }"

text \<open>The loop over \<open>parlist\<close>: the flag, and whether the code leaves by \<open>goto out\<close>.\<close>

fun try_parts :: "'w pkg_env \<Rightarrow> ucell \<Rightarrow> int \<Rightarrow> ucell \<Rightarrow> bool \<Rightarrow> int list \<Rightarrow> cell \<Rightarrow> macparts_info \<Rightarrow> 'w fstate \<Rightarrow> (bool \<times> cell \<times> macparts_info \<times> 'w fstate) option" where
  "try_parts p par bs argstr want_bootcode [] ret di s = Some (False, ret, di, s)"
| "try_parts p par bs argstr want_bootcode (parnum # ps) ret di s =
     do { pos \<leftarrow> cint (bs * parnum);
          (_, s) \<leftarrow> SEEK p di (word_of_int pos) s;
          (_, s) \<leftarrow> READ p di par 512 s;
          ext \<leftarrow> mac_extent (mem s) par bs want_bootcode di;
          case ext of
            None \<Rightarrow> Some (True, 0, di, s)
          | Some (offs, di) \<Rightarrow>
              if want_bootcode then Some (True, - 1, di, s)
              else do {
                (ph, s) \<leftarrow> probe_fs p offs s;
                if ph \<noteq> 0
                then do { s \<leftarrow> selected_args p parnum argstr s;
                          s \<leftarrow> interpose p argstr ph s;
                          Some (True, - 1, di\<lparr>filesystem_ph := ph\<rparr>, s) }
                else do { n \<leftarrow> strlen (at (mem s) argstr);
                          try_parts p par bs argstr want_bootcode ps (if n \<noteq> 0 then 0 else - 1) di s } } }"

definition mac_map :: "'w pkg_env \<Rightarrow> ucell \<Rightarrow> macparts_info \<Rightarrow> 'w fstate \<Rightarrow> (int option \<times> 'w fstate) option" where
  "mac_map p fr di s =
     do { let par = fr + 512;
          (_, s) \<leftarrow> SEEK p di 0 s;
          (r, s) \<leftarrow> READ p di fr 512 s;
          if r \<noteq> 512 then Some (None, s)
          else do {
            b \<leftarrow> read_word (mem s) (fr + 2);
            (bs, s) \<leftarrow> (if b \<noteq> 512
                       then do { (_, s) \<leftarrow> SEEK p di 512 s;
                                 (_, s) \<leftarrow> READ p di par 512 s;
                                 sig \<leftarrow> pmSig (mem s) par;
                                 Some (if sig = DESC_PART_SIGNATURE then 512 else uint b, s) }
                       else Some (uint b, s));
            (_, s) \<leftarrow> SEEK p di (word_of_int bs) s;
            (r, s) \<leftarrow> READ p di par 512 s;
            if r \<noteq> 512 then Some (None, s)
            else do { sig \<leftarrow> pmSig (mem s) par;
                      Some (if sig = DESC_PART_SIGNATURE then Some bs else None, s) } } }"

definition macparts_open :: "'w pkg_env \<Rightarrow> ucell \<Rightarrow> macparts_info \<Rightarrow> 'w fstate \<Rightarrow> (macparts_info \<times> 'w fstate) option" where
  "macparts_open p fr di s =
     do { (str, argstr, parnum, want_bootcode, s) \<leftarrow> macparts_args p s;
          (rx, s) \<leftarrow> find_parent_method p ''read'' s;
          (sx, s) \<leftarrow> find_parent_method p ''seek'' s;
          let di = di\<lparr>filesystem_ph := 0, pt_read_xt := rx, pt_seek_xt := sx\<rparr>;
          let par = fr + 512;
          (map, s) \<leftarrow> mac_map p fr di s;
          case map of
            None \<Rightarrow> do { s \<leftarrow> PUSH 0 s; Some (di, s) }
          | Some bs \<Rightarrow>
              if argstr = 0 \<or> parnum = 0
              then do { cnt \<leftarrow> read_long (mem s) (fr + 4);
                        s \<leftarrow> PUSH (- 1) s;
                        Some (set_extent 0 (ucast cnt * word_of_int bs) (di\<lparr>mp_blocksize := word_of_int bs\<rparr>), s) }
              else do {
                (ps, s) \<leftarrow> (if parnum = - 1
                           then do { (parnum, apple, s) \<leftarrow> scan_map p di par bs 1 (- 1) (- 1) s; Some (parlist parnum apple, s) }
                           else Some ([parnum], s));
                (out, ret, di, s) \<leftarrow> try_parts p par bs argstr want_bootcode ps 0 di s;
                s \<leftarrow> (if out then Some s else free p str s);
                s \<leftarrow> PUSH ret s;
                Some (di, s) } }"

definition macparts_probe :: "'w fstate \<Rightarrow> 'w fstate option" where
  "macparts_probe s =
     do { (dmap, s) \<leftarrow> POP s; sig \<leftarrow> read_word (mem s) dmap; PUSH (if sig \<noteq> DESC_MAP_SIGNATURE then 0 else - 1) s }"

definition macparts_get_info :: "macparts_info \<Rightarrow> 'w fstate \<Rightarrow> 'w fstate option" where
  "macparts_get_info di s = part_get_info (- 1) di s"

definition macparts_get_bootcode_info :: "macparts_info \<Rightarrow> 'w fstate \<Rightarrow> 'w fstate option" where
  "macparts_get_bootcode_info di s =
     do { s \<leftarrow> PUSH (size_lo di) s; s \<leftarrow> PUSH (bootcode_entry di) s; PUSH (bootcode_addr di) s }"

definition macparts_block_size :: "macparts_info \<Rightarrow> 'w fstate \<Rightarrow> 'w fstate option" where
  "macparts_block_size di s = PUSH (mp_blocksize di) s"

definition macparts_initialize :: "'w pkg_env \<Rightarrow> 'w fstate \<Rightarrow> 'w fstate option" where
  "macparts_initialize p s = part_initialize p s"

definition macparts_seek :: "'w pkg_env \<Rightarrow> macparts_info \<Rightarrow> 'w fstate \<Rightarrow> 'w fstate option" where
  "macparts_seek p di s = part_seek p di s"

definition macparts_read :: "'w pkg_env \<Rightarrow> macparts_info \<Rightarrow> 'w fstate \<Rightarrow> 'w fstate option" where
  "macparts_read p di s = part_read p di s"

definition macparts_load :: "'w pkg_env \<Rightarrow> 'w fstate \<Rightarrow> 'w fstate option" where
  "macparts_load p s = part_load p s"

definition macparts_dir :: "'w pkg_env \<Rightarrow> macparts_info \<Rightarrow> 'w fstate \<Rightarrow> 'w fstate option" where
  "macparts_dir p di s = part_dir p ''mac-parts'' di s"

subsection \<open>The disk-label package\<close>

record dlabel_info =
  parent_seek_xt :: ucell
  parent_tell_xt :: ucell
  parent_read_xt :: ucell
  part_ih :: ucell
  dl_filesystem_ph :: ucell

definition dlabel_open_block0 :: "'w pkg_env \<Rightarrow> ucell \<Rightarrow> dlabel_info \<Rightarrow> 'w fstate \<Rightarrow> (cell \<times> 'w fstate) option" where
  "dlabel_open_block0 p block0 di s =
     do { s \<leftarrow> DPUSH 0 s;
          (ih, s) \<leftarrow> my_parent p s;
          s \<leftarrow> call_package p (parent_seek_xt di) ih s;
          (_, s) \<leftarrow> POP s;
          s \<leftarrow> PUSH block0 s;
          s \<leftarrow> PUSH 512 s;
          (ih, s) \<leftarrow> my_parent p s;
          s \<leftarrow> call_package p (parent_read_xt di) ih s;
          POP s }"

text \<open>With arguments: the partition handler that claims the first block, or a file system on the whole disk.\<close>

definition dlabel_open_path :: "'w pkg_env \<Rightarrow> ucell \<Rightarrow> ucell \<Rightarrow> dlabel_info \<Rightarrow> 'w fstate \<Rightarrow> (bool \<times> dlabel_info \<times> 'w fstate) option" where
  "dlabel_open_path p block0 path di s =
     do { (status, s) \<leftarrow> dlabel_open_block0 p block0 di s;
          if status \<noteq> 512 then Some (False, di, s)
          else do {
            s \<leftarrow> PUSH block0 s;
            s \<leftarrow> selfword p ''find-part-handler'' s;
            (ph, s) \<leftarrow> POP s;
            if ph \<noteq> 0
            then do { s \<leftarrow> push_str path s; s \<leftarrow> PUSH ph s; s \<leftarrow> fword p ''interpose'' s; Some (True, di, s) }
            else do {
              s \<leftarrow> DPUSH 0 s;
              (ih, s) \<leftarrow> my_self p s;
              s \<leftarrow> PUSH ih s;
              s \<leftarrow> selfword p ''find-filesystem'' s;
              (ph, s) \<leftarrow> POP s;
              if ph \<noteq> 0
              then do { s \<leftarrow> interpose p path ph s; Some (True, di\<lparr>dl_filesystem_ph := ph\<rparr>, s) }
              else do { boot \<leftarrow> str_is (mem s) path ''%BOOT''; Some (boot, di, s) } } } }"

definition dlabel_open :: "'w pkg_env \<Rightarrow> ucell \<Rightarrow> dlabel_info \<Rightarrow> 'w fstate \<Rightarrow> (dlabel_info \<times> 'w fstate) option" where
  "dlabel_open p block0 di s =
     do { (path, s) \<leftarrow> my_args_copy p s;
          let di = di\<lparr>part_ih := 0, dl_filesystem_ph := 0\<rparr>;
          (sx, s) \<leftarrow> find_parent_method p ''seek'' s;
          (tx, s) \<leftarrow> find_parent_method p ''tell'' s;
          (rx, s) \<leftarrow> find_parent_method p ''read'' s;
          let di = di\<lparr>parent_seek_xt := sx, parent_tell_xt := tx, parent_read_xt := rx\<rparr>;
          n \<leftarrow> (if path = 0 then Some 0 else strlen (at (mem s) path));
          (success, di, s) \<leftarrow> (if n \<noteq> 0 then dlabel_open_path p block0 path di s else Some (True, di, s));
          s \<leftarrow> (if path \<noteq> 0 then free p path s else Some s);
          s \<leftarrow> PUSH (if success then - 1 else 0) s;
          Some (di, s) }"

definition dlabel_read :: "'w pkg_env \<Rightarrow> dlabel_info \<Rightarrow> 'w fstate \<Rightarrow> 'w fstate option" where
  "dlabel_read p di s = do { (ih, s) \<leftarrow> my_parent p s; call_package p (parent_read_xt di) ih s }"

definition dlabel_seek :: "'w pkg_env \<Rightarrow> dlabel_info \<Rightarrow> 'w fstate \<Rightarrow> 'w fstate option" where
  "dlabel_seek p di s = do { (ih, s) \<leftarrow> my_parent p s; call_package p (parent_seek_xt di) ih s }"

definition dlabel_tell :: "'w pkg_env \<Rightarrow> dlabel_info \<Rightarrow> 'w fstate \<Rightarrow> 'w fstate option" where
  "dlabel_tell p di s = do { (ih, s) \<leftarrow> my_parent p s; call_package p (parent_tell_xt di) ih s }"

definition dlabel_write :: "'w fstate \<Rightarrow> 'w fstate option" where
  "dlabel_write s = do { s \<leftarrow> DDROP s; PUSH (- 1) s }"

definition dlabel_load :: "'w pkg_env \<Rightarrow> dlabel_info \<Rightarrow> 'w fstate \<Rightarrow> 'w fstate option" where
  "dlabel_load p di s =
     (if part_ih di \<noteq> 0
      then do { (xt, s) \<leftarrow> find_ih_method p ''load'' (part_ih di) s;
                if xt = 0
                then PUSH 0 (message p (''load currently not implemented for ihandle %08x'' @ [CHR 0x0A]) [part_ih di] s)
                else call_package p xt (part_ih di) s }
      else do { (ih, s) \<leftarrow> my_self p s; load p ih s })"

definition dlabel_dir :: "'w pkg_env \<Rightarrow> dlabel_info \<Rightarrow> 'w fstate \<Rightarrow> 'w fstate option" where
  "dlabel_dir p di s =
     (if dl_filesystem_ph di \<noteq> 0
      then do { (ih, s) \<leftarrow> my_self p s;
                s \<leftarrow> PUSH ih s;
                s \<leftarrow> push_lit p ''dir'' s;
                s \<leftarrow> PUSH (dl_filesystem_ph di) s;
                s \<leftarrow> fword p ''find-method'' s;
                (_, s) \<leftarrow> POP s;
                fword p ''execute'' s }
      else do { let s = message p (''disk-label: Unable to determine filesystem'' @ [CHR 0x0A]) [] s;
                (_, s) \<leftarrow> POP s;
                (_, s) \<leftarrow> POP s;
                Some s })"

subsection \<open>What a Sun label says\<close>

definition be16 :: "(nat \<Rightarrow> u8) \<Rightarrow> nat \<Rightarrow> u16" where
  "be16 f i = cat16 (f i) (f (i + 1))"

definition be32 :: "(nat \<Rightarrow> u8) \<Rightarrow> nat \<Rightarrow> u32" where
  "be32 f i = cat32 (f i) (f (i + 1)) (f (i + 2)) (f (i + 3))"

lemma read_word_holds:
  assumes "holds m a n f" and "i + 2 \<le> n"
  shows "read_word m (a + of_nat i) = Some (be16 f i)"
  using holdsD [OF assms(1), of i] holdsD [OF assms(1), of "i + 1"] assms(2)
  by (simp add: read_word_def be16_def add_ac)

lemma read_long_holds:
  assumes "holds m a n f" and "i + 4 \<le> n"
  shows "read_long m (a + of_nat i) = Some (be32 f i)"
  using holdsD [OF assms(1), of i] holdsD [OF assms(1), of "i + 1"] holdsD [OF assms(1), of "i + 2"]
    holdsD [OF assms(1), of "i + 3"] assms(2)
  by (simp add: read_long_def be32_def add_ac)

definition label_xor :: "(nat \<Rightarrow> u8) \<Rightarrow> nat \<Rightarrow> u16" where
  "label_xor f n = fold (\<lambda>i c. c XOR be16 f (2 * i)) [0..<n] 0"

lemma csum_loop_eq:
  assumes "holds m a (2 * (k + n)) f"
  shows "csum_loop m (a + of_nat (2 * k)) n c = Some (fold (\<lambda>i c. c XOR be16 f (2 * i)) [k..<k + n] c)"
  using assms
proof (induction n arbitrary: k c)
  case 0
  then show ?case by simp
next
  case (Suc n)
  have w: "read_word m (a + of_nat (2 * k)) = Some (be16 f (2 * k))"
    by (rule read_word_holds [OF Suc.prems]) simp
  have nx: "a + of_nat (2 * k) + 2 = a + of_nat (2 * Suc k)" by (simp add: algebra_simps)
  have "csum_loop m (a + of_nat (2 * Suc k)) n (c XOR be16 f (2 * k))
          = Some (fold (\<lambda>i c. c XOR be16 f (2 * i)) [Suc k..<Suc k + n] (c XOR be16 f (2 * k)))"
    by (rule Suc.IH) (use Suc.prems in simp)
  moreover have "[k..<k + Suc n] = k # [Suc k..<Suc k + n]" by (simp add: upt_rec)
  ultimately show ?case by (simp only: csum_loop.simps w bind.bind_lunit nx fold_simps)
qed

definition sun_label :: "(nat \<Rightarrow> u8) \<Rightarrow> bool" where
  "sun_label f \<longleftrightarrow> be16 f 508 = 0xDABE \<and> label_xor f 256 = 0"

lemma sun_magic_eq:
  assumes "holds m a 512 f"
  shows "has_sun_part_magic m a = Some (sun_label f)"
proof -
  have "read_word m (a + of_nat 508) = Some (be16 f 508)" by (rule read_word_holds [OF assms]) simp
  moreover have "csum_loop m (a + of_nat (2 * 0)) 256 0 = Some (label_xor f 256)"
    using csum_loop_eq [of m a 0 256 f 0] assms by (simp add: label_xor_def)
  ultimately show ?thesis by (simp add: has_sun_part_magic_def sun_label_def)
qed

text \<open>The byte offset of slice \<open>k\<close>: cylinder times tracks times sectors times 512, in 64 bits.\<close>

definition sun_offs :: "(nat \<Rightarrow> u8) \<Rightarrow> nat \<Rightarrow> ducell" where
  "sun_offs f k = ucast (be32 f (444 + 8 * k)) * ucast (be16 f 436) * ucast (be16 f 438) * 512"

definition sun_sectors :: "(nat \<Rightarrow> u8) \<Rightarrow> nat \<Rightarrow> u32" where
  "sun_sectors f k = be32 f (448 + 8 * k)"

text \<open>
  C30: Opening a slice of a Sun disk. For slices 0 to 7 the search is complete and correct: without the magic \<open>0xDABE\<close> or
  with a label whose 256 words do not sum to zero under exclusive or, or for a slice of no sectors, it ends with the flag 0;
  otherwise with the slice found, and the instance holds its offset, its size in bytes and its type from the label.
\<close>

theorem sun_locate_correct:
  assumes "byte_device p (pt_seek_xt di) (pt_read_xt di) N B D P R" and "512 \<le> N"
    and "ds_ok s" and "length (ds s) \<le> 480" and "R (mem s) (world s)"
    and "mapped (mem s) fr 512" and "\<forall>x. in_region fr 512 x \<longrightarrow> \<not> B x" and "k < 8"
  shows "\<exists>f di' s'. sun_locate p fr (int k) di s = Some (f, di', s') \<and> ds s' = ds s \<and> D (world s') = D (world s) \<and>
     f = (if sun_label (D (world s)) \<and> sun_sectors (D (world s)) k \<noteq> 0 then Found (sun_offs (D (world s)) k) else Ret 0) \<and>
     (sun_label (D (world s)) \<and> sun_sectors (D (world s)) k \<noteq> 0 \<longrightarrow>
        part_offs di' = sun_offs (D (world s)) k \<and> unat (part_size di') = unat (sun_sectors (D (world s)) k) * 512 \<and>
        sp_type di' = uint (be16 (D (world s)) (142 + 4 * k)))"
proof -
  let ?f = "D (world s)"
  from SEEK_step [OF assms(1,3,4,5), of 0] obtain s1 where
    s1: "SEEK p di 0 s = Some (0, s1)" "ds_ok s1" "ds s1 = ds s" "mem s1 = mem s" "D (world s1) = ?f" "P (world s1) = 0"
      "R (mem s1) (world s1)" by auto
  from READ_step [OF assms(1) s1(2) _ s1(7), of 512 fr] s1 assms obtain s2 where
    s2: "READ p di fr 512 s1 = Some (512, s2)" "ds s2 = ds s" "D (world s2) = ?f"
      and fl: "filled B (mem s1) fr (\<lambda>i. ?f i) 512 (mem s2)" by auto
  have h: "holds (mem s2) fr 512 ?f" by (rule holds_filled [OF fl assms(7)]) simp
  have rd: "read_long (mem s2) (fr + 444 + 8 * of_nat k) = Some (be32 ?f (444 + 8 * k))"
    "read_long (mem s2) (fr + 444 + 8 * of_nat k + 4) = Some (be32 ?f (448 + 8 * k))"
    "read_word (mem s2) (fr + 436) = Some (be16 ?f 436)" "read_word (mem s2) (fr + 438) = Some (be16 ?f 438)"
    "read_word (mem s2) (fr + 142 + 4 * of_nat k) = Some (be16 ?f (142 + 4 * k))"
    using read_long_holds [OF h, of "444 + 8 * k"] read_long_holds [OF h, of "448 + 8 * k"] read_word_holds [OF h, of 436]
      read_word_holds [OF h, of 438] read_word_holds [OF h, of "142 + 4 * k"] assms(8) by (simp_all add: add_ac)
  have z: "unat (ucast (x :: u32) * 512 :: ducell) = unat x * 512" for x
  proof -
    have "unat x < 2 ^ LENGTH(32)" by (rule unsigned_less)
    then show ?thesis by (simp add: unat_word_ariths unsigned_ucast_eq take_bit_nat_eq_self)
  qed
  have z0: "(ucast (x :: u32) * 512 :: ducell) = 0 \<longleftrightarrow> x = 0" for x
    using z [of x] by (metis mult_zero_left unat_0 unat_eq_zero mult_eq_0_iff numeral_neq_zero unsigned_0)
  show ?thesis
    using assms(8) s2 rd sun_magic_eq [OF h] z z0
    by (auto simp: sun_locate_def s1(1) Let_def sun_offs_def sun_sectors_def part_offs_def part_size_def join_split)
qed

definition demo_label :: "nat \<Rightarrow> u8" where
  "demo_label i = (if i = 508 then 0xDA else if i = 509 then 0xBE else if i = 437 then 4 else if i = 439 then 8
     else if i = 447 then 3 else if i = 451 then 5 else if i = 143 then 2
     else if i = 510 then 0xDA else if i = 511 then 0xBE XOR 4 XOR 8 XOR 3 XOR 5 XOR 2 else 0)"

lemma demo_label_ok: "sun_label demo_label" "sun_sectors demo_label 0 = 5" "sun_offs demo_label 0 = 3 * 4 * 8 * 512"
  by code_simp+

theorem sun_locate_correct_witness:
  "\<exists>di' s'. sun_locate demo_node 0x4000 0 (part_info.extend demo_part \<lparr>sp_type = 0\<rparr>) (demo_state [] demo_label) = Some (Found 49152, di', s') \<and>
     part_offs di' = 49152 \<and> unat (part_size di') = 2560 \<and> sp_type di' = 2"
proof -
  let ?di = "part_info.extend demo_part \<lparr>sp_type = 0\<rparr> :: sunparts_info"
  from demo_pc_ready [of demo_label] have
    "byte_device demo_node 5 6 0x40000 (in_region 0x1000 4) snd (\<lambda>w. unat (mark_of (fst w))) demo_needs"
    "ds_ok (demo_state [] demo_label)" "length (ds (demo_state [] demo_label)) \<le> 480"
    "demo_needs (mem (demo_state [] demo_label)) (world (demo_state [] demo_label))"
    "mapped (mem (demo_state [] demo_label)) 0x4000 512" "\<forall>x. in_region 0x4000 512 x \<longrightarrow> \<not> in_region 0x1000 4 x"
    by (simp_all add: pc_ready_def demo_part_def)
  note 1 = this
  have xt: "pt_seek_xt ?di = 5" "pt_read_xt ?di = 6" by (simp_all add: part_info.defs demo_part_def)
  have w: "world (demo_state [] demo_label) = (demo_di, demo_label)" using demo_state_facts [of "[]"] by simp
  have ty: "uint (be16 demo_label 142) = 2" by code_simp
  from sun_locate_correct [of demo_node ?di, unfolded xt, OF 1(1) _ 1(2-6), of 0] show ?thesis
    by (auto simp: w demo_label_ok ty)
qed

end
