(* ===== verification/Diskio.thy ===== *)
theory Diskio
  imports Parts_More
begin

text \<open>
  \<open>libc/diskio.c\<close>: file descriptors on top of opened package instances. The table of descriptors is a static
  array of 32 pointers at the address \<open>file_descriptors\<close>; a descriptor is a \<open>priv_fd_t\<close> of ten cells on the heap.
  A method is called with \<open>call_package\<close>. Using an entry outside the array is undefined.
\<close>

record 'w io_env =
  pkg :: "'w pkg_env"
  file_descriptors :: ucell

subsection \<open>Descriptors\<close>

text \<open>The offsets of the fields of \<open>priv_fd_t\<close>.\<close>

abbreviation (input) "ih_off \<equiv> 0 :: ucell"
abbreviation (input) "do_close_off \<equiv> 4 :: ucell"
abbreviation (input) "read_xt_off \<equiv> 8 :: ucell"
abbreviation (input) "seek_xt_off \<equiv> 12 :: ucell"
abbreviation (input) "reopen_xt_off \<equiv> 16 :: ucell"
abbreviation (input) "tell_xt_off \<equiv> 20 :: ucell"
abbreviation (input) "get_path_xt_off \<equiv> 24 :: ucell"
abbreviation (input) "get_fstype_xt_off \<equiv> 28 :: ucell"
abbreviation (input) "open_nwrom_xt_off \<equiv> 32 :: ucell"
abbreviation (input) "volume_name_xt_off \<equiv> 36 :: ucell"

definition MAX_FD :: nat where
  "MAX_FD = 32"

definition fd_slot :: "'w io_env \<Rightarrow> int \<Rightarrow> ucell option" where
  "fd_slot E fd = (if 0 \<le> fd \<and> fd < int MAX_FD then Some (file_descriptors E + 4 * word_of_int fd) else None)"

definition fd_ptr :: "'w io_env \<Rightarrow> int \<Rightarrow> memory \<Rightarrow> ucell option" where
  "fd_ptr E fd m = do { a \<leftarrow> fd_slot E fd; read_long m a }"

text \<open>\<open>*xt\<close> is passed by value and returned.\<close>

definition lookup_xt :: "'w io_env \<Rightarrow> ucell \<Rightarrow> string \<Rightarrow> ucell \<Rightarrow> 'w fstate \<Rightarrow> (bool \<times> ucell \<times> 'w fstate) option" where
  "lookup_xt E ih method xt s =
     (if xt \<noteq> 0 then Some (False, xt, s)
      else do { (xt, s) \<leftarrow> find_ih_method (pkg E) method ih s; Some (xt = 0, xt, s) })"

text \<open>A method of an open descriptor whose token is cached in the field at \<open>f\<close>.\<close>

definition fd_method :: "'w io_env \<Rightarrow> ucell \<Rightarrow> ucell \<Rightarrow> string \<Rightarrow> 'w fstate \<Rightarrow> (bool \<times> 'w fstate) option" where
  "fd_method E fdp f method s =
     do { ih \<leftarrow> read_long (mem s) (fdp + ih_off);
          xt \<leftarrow> read_long (mem s) (fdp + f);
          (failed, xt, s) \<leftarrow> lookup_xt E ih method xt s;
          m \<leftarrow> write_long (mem s) (fdp + f) xt;
          Some (failed, s\<lparr>mem := m\<rparr>) }"

definition fd_call :: "'w io_env \<Rightarrow> ucell \<Rightarrow> ucell \<Rightarrow> 'w fstate \<Rightarrow> 'w fstate option" where
  "fd_call E fdp f s =
     do { xt \<leftarrow> read_long (mem s) (fdp + f);
          ih \<leftarrow> read_long (mem s) (fdp + ih_off);
          call_package (pkg E) xt ih s }"

subsection \<open>Opening and closing\<close>

fun free_fd :: "memory \<Rightarrow> ucell \<Rightarrow> nat \<Rightarrow> nat \<Rightarrow> nat option" where
  "free_fd m tab fd 0 = Some fd"
| "free_fd m tab fd (Suc left) =
     do { q \<leftarrow> read_long m (tab + 4 * of_nat fd);
          if q = 0 then Some fd else free_fd m tab (Suc fd) left }"

definition new_fd :: "'w io_env \<Rightarrow> nat \<Rightarrow> ucell \<Rightarrow> ucell \<Rightarrow> ucell \<Rightarrow> 'w fstate \<Rightarrow> 'w fstate option" where
  "new_fd E fd ih read_xt seek_xt s =
     do { (fdp, s) \<leftarrow> malloc (pkg E) 40 s;
          m \<leftarrow> memset (mem s) fdp 0 40;
          m \<leftarrow> write_long m (fdp + ih_off) ih;
          m \<leftarrow> write_long m (fdp + read_xt_off) read_xt;
          m \<leftarrow> write_long m (fdp + seek_xt_off) seek_xt;
          m \<leftarrow> write_long m (fdp + do_close_off) 0;
          m \<leftarrow> write_long m (file_descriptors E + 4 * of_nat fd) fdp;
          Some (s\<lparr>mem := m\<rparr>) }"

definition open_ih :: "'w io_env \<Rightarrow> ucell \<Rightarrow> 'w fstate \<Rightarrow> (int \<times> 'w fstate) option" where
  "open_ih E ih s =
     (if ih = 0 then Some (- 1, s)
      else do {
        (failed, read_xt, s) \<leftarrow> lookup_xt E ih ''read'' 0 s;
        if failed then Some (- 1, s)
        else do {
          (failed, seek_xt, s) \<leftarrow> lookup_xt E ih ''seek'' 0 s;
          if failed then Some (- 1, s)
          else do {
            fd \<leftarrow> free_fd (mem s) (file_descriptors E) 0 MAX_FD;
            if fd = MAX_FD then Some (- 1, s)
            else do { s \<leftarrow> new_fd E fd ih read_xt seek_xt s; Some (int fd, s) } } } })"

definition open_io :: "'w io_env \<Rightarrow> ucell \<Rightarrow> 'w fstate \<Rightarrow> (int \<times> 'w fstate) option" where
  "open_io E spec s =
     do { (ih, s) \<leftarrow> open_dev (pkg E) spec s;
          if ih = 0 then Some (- 1, s)
          else do {
            (fd, s) \<leftarrow> open_ih E ih s;
            if fd = - 1 then do { s \<leftarrow> close_dev (pkg E) ih s; Some (- 1, s) }
            else do { fdp \<leftarrow> fd_ptr E fd (mem s);
                      m \<leftarrow> write_long (mem s) (fdp + do_close_off) 1;
                      Some (fd, s\<lparr>mem := m\<rparr>) } } }"

definition close_io :: "'w io_env \<Rightarrow> int \<Rightarrow> 'w fstate \<Rightarrow> (int \<times> 'w fstate) option" where
  "close_io E fd s =
     (if fd \<noteq> - 1
      then do { slot \<leftarrow> fd_slot E fd;
                fdp \<leftarrow> read_long (mem s) slot;
                c \<leftarrow> read_long (mem s) (fdp + do_close_off);
                s \<leftarrow> (if c \<noteq> 0 then do { ih \<leftarrow> read_long (mem s) (fdp + ih_off); close_dev (pkg E) ih s } else Some s);
                s \<leftarrow> free (pkg E) fdp s;
                m \<leftarrow> write_long (mem s) slot 0;
                Some (0, s\<lparr>mem := m\<rparr>) }
      else Some (0, s))"

subsection \<open>The other methods\<close>

definition reopen :: "'w io_env \<Rightarrow> int \<Rightarrow> ucell \<Rightarrow> 'w fstate \<Rightarrow> (int \<times> 'w fstate) option" where
  "reopen E fd filename s =
     do { fdp \<leftarrow> fd_ptr E fd (mem s);
          (failed, s) \<leftarrow> fd_method E fdp reopen_xt_off ''reopen'' s;
          if failed then Some (- 1, s)
          else do { s \<leftarrow> push_str filename s;
                    s \<leftarrow> fd_call E fdp reopen_xt_off s;
                    (v, s) \<leftarrow> POP s;
                    Some (if v = - 1 then 0 else - 1, s) } }"

definition reopen_nwrom :: "'w io_env \<Rightarrow> int \<Rightarrow> 'w fstate \<Rightarrow> (int \<times> 'w fstate) option" where
  "reopen_nwrom E fd s =
     do { fdp \<leftarrow> fd_ptr E fd (mem s);
          (failed, s) \<leftarrow> fd_method E fdp open_nwrom_xt_off ''open-nwrom'' s;
          if failed then Some (- 1, s)
          else do { s \<leftarrow> fd_call E fdp open_nwrom_xt_off s;
                    (v, s) \<leftarrow> POP s;
                    Some (if v = - 1 then 0 else - 1, s) } }"

definition get_ih_from_fd :: "'w io_env \<Rightarrow> int \<Rightarrow> 'w fstate \<Rightarrow> ucell option" where
  "get_ih_from_fd E fd s = do { fdp \<leftarrow> fd_ptr E fd (mem s); read_long (mem s) (fdp + ih_off) }"

definition fd_string :: "'w io_env \<Rightarrow> ucell \<Rightarrow> string \<Rightarrow> int \<Rightarrow> 'w fstate \<Rightarrow> (ucell \<times> 'w fstate) option" where
  "fd_string E f method fd s =
     do { fdp \<leftarrow> fd_ptr E fd (mem s);
          (failed, s) \<leftarrow> fd_method E fdp f method s;
          if failed then Some (0, s) else do { s \<leftarrow> fd_call E fdp f s; POP s } }"

definition get_file_path :: "'w io_env \<Rightarrow> int \<Rightarrow> 'w fstate \<Rightarrow> (ucell \<times> 'w fstate) option" where
  "get_file_path E = fd_string E get_path_xt_off ''get-path''"

definition get_volume_name :: "'w io_env \<Rightarrow> int \<Rightarrow> 'w fstate \<Rightarrow> (ucell \<times> 'w fstate) option" where
  "get_volume_name E = fd_string E volume_name_xt_off ''volume-name''"

definition get_fstype :: "'w io_env \<Rightarrow> int \<Rightarrow> 'w fstate \<Rightarrow> (ucell \<times> 'w fstate) option" where
  "get_fstype E = fd_string E get_fstype_xt_off ''get-fstype''"

definition read_io :: "'w io_env \<Rightarrow> int \<Rightarrow> ucell \<Rightarrow> u32 \<Rightarrow> 'w fstate \<Rightarrow> (int \<times> 'w fstate) option" where
  "read_io E fd buf cnt s =
     (if fd \<noteq> - 1
      then do { fdp \<leftarrow> fd_ptr E fd (mem s);
                s \<leftarrow> PUSH buf s;
                s \<leftarrow> PUSH cnt s;
                s \<leftarrow> fd_call E fdp read_xt_off s;
                (ret, s) \<leftarrow> POP s;
                Some (if ret = 0 \<and> cnt \<noteq> 0 then - 1 else sint ret, s) }
      else Some (- 1, s))"

definition seek_io :: "'w io_env \<Rightarrow> int \<Rightarrow> ducell \<Rightarrow> 'w fstate \<Rightarrow> (int \<times> 'w fstate) option" where
  "seek_io E fd offs s =
     (if fd \<noteq> - 1
      then do { fdp \<leftarrow> fd_ptr E fd (mem s);
                s \<leftarrow> DPUSH offs s;
                s \<leftarrow> fd_call E fdp seek_xt_off s;
                (v, s) \<leftarrow> POP s;
                Some (if 0 \<le> sint v then 0 else - 1, s) }
      else Some (- 1, s))"

definition tell_fd :: "'w io_env \<Rightarrow> int \<Rightarrow> 'w fstate \<Rightarrow> (ducell \<times> 'w fstate) option" where
  "tell_fd E fd s =
     do { fdp \<leftarrow> fd_ptr E fd (mem s);
          (failed, s) \<leftarrow> fd_method E fdp tell_xt_off ''tell'' s;
          if failed then Some (- 1, s) else do { s \<leftarrow> fd_call E fdp tell_xt_off s; DPOP s } }"

end
