(* ===== verification/Ext2.thy ===== *)
theory Ext2
  imports Diskio
begin

text \<open>
  \<open>fs/ext2\<close>: the read-only second extended filesystem. Every structure of the code is in memory, reached by its
  address: the volume \<open>{fd, super, current, buffer}\<close>, an open file \<open>{volume, inode, offset, path}\<close>, an open directory
  \<open>{volume, inode, index}\<close>, the super block and inodes in host byte order. Automatic structures are in the frame at
  \<open>fr\<close>. \<open>off_t\<close> is a 32-bit \<open>int\<close>. Division by zero and signed overflow are undefined.
\<close>

record 'w ext2_env =
  io :: "'w io_env"
  link_buffer :: ucell
  dir_entry_at :: ucell

subsection \<open>Fields\<close>

definition bswap16 :: "u16 \<Rightarrow> u16" where
  "bswap16 x = drop_bit 8 (x AND 0xff00) OR push_bit 8 (x AND 0x00ff)"

text \<open>
  \<open>dst->f = conv(src->f)\<close> for the fields at the given offsets, in order; in place when \<open>dst = src\<close>. The
  conversions are \<open>__le32_to_cpu\<close> and \<open>__le16_to_cpu\<close>.
\<close>

fun to_cpu :: "(memory \<Rightarrow> ucell \<Rightarrow> 'v option) \<Rightarrow> (memory \<Rightarrow> ucell \<Rightarrow> 'v \<Rightarrow> memory option) \<Rightarrow> ('v \<Rightarrow> 'v) \<Rightarrow> ucell \<Rightarrow> ucell \<Rightarrow> nat list \<Rightarrow> memory \<Rightarrow> memory option" where
  "to_cpu rd wr conv dst src [] m = Some m"
| "to_cpu rd wr conv dst src (i # is) m =
     do { v \<leftarrow> rd m (src + of_nat i);
          m \<leftarrow> wr m (dst + of_nat i) (conv v);
          to_cpu rd wr conv dst src is m }"

definition le32_to_cpu :: "ucell \<Rightarrow> ucell \<Rightarrow> nat list \<Rightarrow> memory \<Rightarrow> memory option" where
  "le32_to_cpu = to_cpu read_long write_long bswap32"

definition le16_to_cpu :: "ucell \<Rightarrow> ucell \<Rightarrow> nat list \<Rightarrow> memory \<Rightarrow> memory option" where
  "le16_to_cpu = to_cpu read_word write_word bswap16"

definition le_at :: "memory \<Rightarrow> ucell \<Rightarrow> u32 \<Rightarrow> u32 option" where
  "le_at m b i = do { v \<leftarrow> read_long m (b + 4 * i); Some (bswap32 v) }"

definition vol_fd :: "memory \<Rightarrow> ucell \<Rightarrow> int option" where
  "vol_fd m volume = do { v \<leftarrow> read_long m volume; Some (sint v) }"

definition vol_super :: "memory \<Rightarrow> ucell \<Rightarrow> ucell option" where
  "vol_super m volume = read_long m (volume + 4)"

definition vol_current :: "memory \<Rightarrow> ucell \<Rightarrow> u32 option" where
  "vol_current m volume = read_long m (volume + 8)"

definition vol_buffer :: "memory \<Rightarrow> ucell \<Rightarrow> ucell option" where
  "vol_buffer m volume = read_long m (volume + 12)"

definition i_mode :: "memory \<Rightarrow> ucell \<Rightarrow> u16 option" where
  "i_mode m inode = read_word m inode"

definition i_size :: "memory \<Rightarrow> ucell \<Rightarrow> u32 option" where
  "i_size m inode = read_long m (inode + 4)"

definition i_block :: "memory \<Rightarrow> ucell \<Rightarrow> u32 \<Rightarrow> u32 option" where
  "i_block m inode k = read_long m (inode + 40 + 4 * k)"

definition S_ISLNK :: "u16 \<Rightarrow> bool" where
  "S_ISLNK m \<longleftrightarrow> m AND 0xF000 = 0xA000"

definition S_ISDIR :: "u16 \<Rightarrow> bool" where
  "S_ISDIR m \<longleftrightarrow> m AND 0xF000 = 0x4000"

text \<open>\<open>1024 << s_log_block_size\<close> is an \<open>int\<close>.\<close>

definition EXT2_BLOCK_SIZE :: "memory \<Rightarrow> ucell \<Rightarrow> u32 option" where
  "EXT2_BLOCK_SIZE m super =
     do { l \<leftarrow> read_long m (super + 24); if l < 21 then Some (push_bit (unat l) 1024) else None }"

definition EXT2_ADDR_PER_BLOCK :: "memory \<Rightarrow> ucell \<Rightarrow> u32 option" where
  "EXT2_ADDR_PER_BLOCK m super = do { b \<leftarrow> EXT2_BLOCK_SIZE m super; Some (b div 4) }"

definition EXT2_DESC_PER_BLOCK :: "memory \<Rightarrow> ucell \<Rightarrow> u32 option" where
  "EXT2_DESC_PER_BLOCK m super = do { b \<leftarrow> EXT2_BLOCK_SIZE m super; Some (b div 32) }"

definition EXT2_INODE_SIZE :: "memory \<Rightarrow> ucell \<Rightarrow> u32 option" where
  "EXT2_INODE_SIZE m super =
     do { rev \<leftarrow> read_long m (super + 76);
          if rev = 0 then Some 128 else do { n \<leftarrow> read_word m (super + 88); Some (ucast n) } }"

definition EXT2_INODES_PER_GROUP :: "memory \<Rightarrow> ucell \<Rightarrow> u32 option" where
  "EXT2_INODES_PER_GROUP m super = read_long m (super + 40)"

definition EXT2_SUPER_MAGIC :: u16 where
  "EXT2_SUPER_MAGIC = 0xEF53"

definition udiv :: "u32 \<Rightarrow> u32 \<Rightarrow> (u32 \<times> u32) option" where
  "udiv a b = (if b = 0 then None else Some (a div b, a mod b))"

subsection \<open>\<open>ext2_utils.c\<close>\<close>

definition ext2_probe :: "'w io_env \<Rightarrow> int \<Rightarrow> ducell \<Rightarrow> 'w fstate \<Rightarrow> (int \<times> 'w fstate) option" where
  "ext2_probe E fd offset s =
     do { (super, s) \<leftarrow> malloc (pkg E) 1024 s;
          (_, s) \<leftarrow> seek_io E fd (1024 + offset) s;
          (_, s) \<leftarrow> read_io E fd super 1024 s;
          g \<leftarrow> read_word (mem s) (super + 56);
          s \<leftarrow> free (pkg E) super s;
          Some (if bswap16 g \<noteq> EXT2_SUPER_MAGIC then 0 else - 1, s) }"

definition super_to_cpu :: "ucell \<Rightarrow> memory \<Rightarrow> memory option" where
  "super_to_cpu super m =
     do { m \<leftarrow> le32_to_cpu super super [0, 4, 8, 12, 16, 20, 24, 28, 32, 36, 40, 44, 48] m;
          m \<leftarrow> le16_to_cpu super super [52, 54, 56, 58, 60, 62] m;
          m \<leftarrow> le32_to_cpu super super [64, 68, 72, 76] m;
          m \<leftarrow> le16_to_cpu super super [80, 82] m;
          m \<leftarrow> le32_to_cpu super super [84] m;
          m \<leftarrow> le16_to_cpu super super [88, 90] m;
          le32_to_cpu super super [92, 96, 100, 200, 224, 228, 232, 236, 240, 244, 248, 256, 260] m }"

definition ext2_get_super :: "'w io_env \<Rightarrow> int \<Rightarrow> ucell \<Rightarrow> 'w fstate \<Rightarrow> 'w fstate option" where
  "ext2_get_super E fd super s =
     do { (_, s) \<leftarrow> seek_io E fd 1024 s;
          (_, s) \<leftarrow> read_io E fd super 1024 s;
          m \<leftarrow> super_to_cpu super (mem s);
          Some (s\<lparr>mem := m\<rparr>) }"

text \<open>The product of the block number and the block size is taken in 32 bits.\<close>

definition ext2_read_block :: "'w io_env \<Rightarrow> ucell \<Rightarrow> u32 \<Rightarrow> 'w fstate \<Rightarrow> 'w fstate option" where
  "ext2_read_block E volume fsblock s =
     do { current \<leftarrow> vol_current (mem s) volume;
          if fsblock = current then Some s
          else do {
            m \<leftarrow> write_long (mem s) (volume + 8) fsblock;
            super \<leftarrow> vol_super m volume;
            bs \<leftarrow> EXT2_BLOCK_SIZE m super;
            fd \<leftarrow> vol_fd m volume;
            (_, s) \<leftarrow> seek_io E fd (ucast (fsblock * bs)) (s\<lparr>mem := m\<rparr>);
            fd \<leftarrow> vol_fd (mem s) volume;
            buffer \<leftarrow> vol_buffer (mem s) volume;
            super \<leftarrow> vol_super (mem s) volume;
            bs \<leftarrow> EXT2_BLOCK_SIZE (mem s) super;
            (_, s) \<leftarrow> read_io E fd buffer bs s;
            Some s } }"

definition ext2_get_group_desc :: "'w io_env \<Rightarrow> ucell \<Rightarrow> u32 \<Rightarrow> ucell \<Rightarrow> 'w fstate \<Rightarrow> 'w fstate option" where
  "ext2_get_group_desc E volume group_id gdp s =
     do { super \<leftarrow> vol_super (mem s) volume;
          first \<leftarrow> read_long (mem s) (super + 20);
          per \<leftarrow> EXT2_DESC_PER_BLOCK (mem s) super;
          (k, _) \<leftarrow> udiv group_id per;
          s \<leftarrow> ext2_read_block E volume (1 + first + k) s;
          super \<leftarrow> vol_super (mem s) volume;
          per \<leftarrow> EXT2_DESC_PER_BLOCK (mem s) super;
          (_, r) \<leftarrow> udiv group_id per;
          buffer \<leftarrow> vol_buffer (mem s) volume;
          let le_gdp = buffer + r * 32;
          m \<leftarrow> le32_to_cpu gdp le_gdp [0, 4, 8] (mem s);
          m \<leftarrow> le16_to_cpu gdp le_gdp [12, 14, 16] m;
          Some (s\<lparr>mem := m\<rparr>) }"

definition inode_to_cpu :: "ucell \<Rightarrow> ucell \<Rightarrow> memory \<Rightarrow> memory option" where
  "inode_to_cpu inode le_inode m =
     do { m \<leftarrow> le16_to_cpu inode le_inode [0, 2] m;
          m \<leftarrow> le32_to_cpu inode le_inode [4, 8, 12, 16, 20] m;
          m \<leftarrow> le16_to_cpu inode le_inode [24, 26] m;
          m \<leftarrow> le32_to_cpu inode le_inode [28, 32] m;
          mode \<leftarrow> i_mode m inode;
          m \<leftarrow> (if S_ISLNK mode then memcpy m (inode + 40) (le_inode + 40) 60
               else le32_to_cpu inode le_inode (map (\<lambda>k. 40 + 4 * k) [0..<15]) m);
          m \<leftarrow> le32_to_cpu inode le_inode [100, 104, 108, 112] m;
          m \<leftarrow> to_cpu read_byte write_byte id inode le_inode [116, 117] m;
          le16_to_cpu inode le_inode [120, 122] m }"

text \<open>The group descriptor is in the frame at \<open>fr\<close>.\<close>

definition ext2_get_inode :: "'w io_env \<Rightarrow> ucell \<Rightarrow> ucell \<Rightarrow> u32 \<Rightarrow> ucell \<Rightarrow> 'w fstate \<Rightarrow> 'w fstate option" where
  "ext2_get_inode E fr volume ino inode s =
     do { super \<leftarrow> vol_super (mem s) volume;
          per \<leftarrow> EXT2_INODES_PER_GROUP (mem s) super;
          (group_id, _) \<leftarrow> udiv (ino - 1) per;
          s \<leftarrow> ext2_get_group_desc E volume group_id fr s;
          super \<leftarrow> vol_super (mem s) volume;
          per \<leftarrow> EXT2_INODES_PER_GROUP (mem s) super;
          (_, ino) \<leftarrow> udiv (ino - 1) per;
          table \<leftarrow> read_long (mem s) (fr + 8);
          bs \<leftarrow> EXT2_BLOCK_SIZE (mem s) super;
          isz \<leftarrow> EXT2_INODE_SIZE (mem s) super;
          (per_block, _) \<leftarrow> udiv bs isz;
          (k, _) \<leftarrow> udiv ino per_block;
          s \<leftarrow> ext2_read_block E volume (table + k) s;
          super \<leftarrow> vol_super (mem s) volume;
          bs \<leftarrow> EXT2_BLOCK_SIZE (mem s) super;
          isz \<leftarrow> EXT2_INODE_SIZE (mem s) super;
          (per_block, _) \<leftarrow> udiv bs isz;
          (_, r) \<leftarrow> udiv ino per_block;
          buffer \<leftarrow> vol_buffer (mem s) volume;
          m \<leftarrow> inode_to_cpu inode (buffer + r * isz) (mem s);
          Some (s\<lparr>mem := m\<rparr>) }"

definition ext2_get_block_addr :: "'w io_env \<Rightarrow> ucell \<Rightarrow> ucell \<Rightarrow> u32 \<Rightarrow> 'w fstate \<Rightarrow> (u32 \<times> 'w fstate) option" where
  "ext2_get_block_addr E volume inode logical s =
     (if logical < 12 then do { b \<leftarrow> i_block (mem s) inode logical; Some (b, s) }
      else do {
        let logical = logical - 12;
        super \<leftarrow> vol_super (mem s) volume;
        apb \<leftarrow> EXT2_ADDR_PER_BLOCK (mem s) super;
        if logical < apb
        then do { b \<leftarrow> i_block (mem s) inode 12;
                  s \<leftarrow> ext2_read_block E volume b s;
                  buffer \<leftarrow> vol_buffer (mem s) volume;
                  b \<leftarrow> le_at (mem s) buffer logical;
                  Some (b, s) }
        else do {
          let logical = logical - apb;
          if logical < apb * apb
          then do { b \<leftarrow> i_block (mem s) inode 13;
                    s \<leftarrow> ext2_read_block E volume b s;
                    (i, j) \<leftarrow> udiv logical apb;
                    buffer \<leftarrow> vol_buffer (mem s) volume;
                    b \<leftarrow> le_at (mem s) buffer i;
                    s \<leftarrow> ext2_read_block E volume b s;
                    buffer \<leftarrow> vol_buffer (mem s) volume;
                    b \<leftarrow> le_at (mem s) buffer j;
                    Some (b, s) }
          else do {
            let logical = logical - apb * apb;
            b \<leftarrow> i_block (mem s) inode 13;
            s \<leftarrow> ext2_read_block E volume b s;
            (i, logical) \<leftarrow> udiv logical (apb * apb);
            buffer \<leftarrow> vol_buffer (mem s) volume;
            b \<leftarrow> le_at (mem s) buffer i;
            s \<leftarrow> ext2_read_block E volume b s;
            (j, k) \<leftarrow> udiv logical apb;
            buffer \<leftarrow> vol_buffer (mem s) volume;
            b \<leftarrow> le_at (mem s) buffer j;
            s \<leftarrow> ext2_read_block E volume b s;
            buffer \<leftarrow> vol_buffer (mem s) volume;
            b \<leftarrow> le_at (mem s) buffer k;
            Some (b, s) } } })"

text \<open>The block with number \<open>logical\<close> of the file, in the volume's buffer.\<close>

definition load_block :: "'w io_env \<Rightarrow> ucell \<Rightarrow> ucell \<Rightarrow> u32 \<Rightarrow> 'w fstate \<Rightarrow> (ucell \<times> 'w fstate) option" where
  "load_block E volume inode logical s =
     do { (physical, s) \<leftarrow> ext2_get_block_addr E volume inode logical s;
          s \<leftarrow> ext2_read_block E volume physical s;
          buffer \<leftarrow> vol_buffer (mem s) volume;
          Some (buffer, s) }"

partial_function (option) data_loop :: "'w io_env \<Rightarrow> ucell \<Rightarrow> ucell \<Rightarrow> u32 \<Rightarrow> u32 \<Rightarrow> ucell \<Rightarrow> u32 \<Rightarrow> u32 \<Rightarrow> 'w fstate \<Rightarrow> (u32 \<times> 'w fstate) option" where
  "data_loop E volume inode blocksize logical buffer len read s =
     (if len = 0 then Some (read, s)
      else do {
        (b, s) \<leftarrow> load_block E volume inode logical s;
        if len < blocksize
        then do { m \<leftarrow> memcpy (mem s) buffer b len; Some (read + len, s\<lparr>mem := m\<rparr>) }
        else do { m \<leftarrow> memcpy (mem s) buffer b blocksize;
                  data_loop E volume inode blocksize (logical + 1) (buffer + blocksize) (len - blocksize) (read + blocksize)
                    (s\<lparr>mem := m\<rparr>) } })"

text \<open>
  \<open>offset\<close> is signed: it is compared with the size as an unsigned number and divided as a signed one.
  The result, a \<open>size_t\<close>, is returned as an \<open>int\<close>.
\<close>

definition ext2_read_data :: "'w io_env \<Rightarrow> ucell \<Rightarrow> ucell \<Rightarrow> int \<Rightarrow> ucell \<Rightarrow> u32 \<Rightarrow> 'w fstate \<Rightarrow> (int \<times> 'w fstate) option" where
  "ext2_read_data E volume inode offset buffer len s =
     do { super \<leftarrow> vol_super (mem s) volume;
          bs \<leftarrow> EXT2_BLOCK_SIZE (mem s) super;
          size \<leftarrow> i_size (mem s) inode;
          let uoffset = word_of_int offset;
          if size \<le> uoffset then Some (- 1, s)
          else do {
            let len = (if size \<le> uoffset + len then size - uoffset else len);
            let logical = word_of_int (offset sdiv sint bs);
            let shift = offset smod sint bs;
            if shift \<noteq> 0
            then do {
              (b, s) \<leftarrow> load_block E volume inode logical s;
              let rest = bs - word_of_int shift;
              if len < rest
              then do { m \<leftarrow> memcpy (mem s) buffer (b + word_of_int shift) len; Some (sint len, s\<lparr>mem := m\<rparr>) }
              else do {
                m \<leftarrow> memcpy (mem s) buffer (b + word_of_int shift) rest;
                (n, s) \<leftarrow> data_loop E volume inode bs (logical + 1) (buffer + rest) (len - rest) rest (s\<lparr>mem := m\<rparr>);
                Some (sint n, s) } }
            else do {
              (n, s) \<leftarrow> data_loop E volume inode bs logical buffer len 0 s;
              Some (sint n, s) } } }"

definition ext2_dir_entry :: "'w io_env \<Rightarrow> ucell \<Rightarrow> ucell \<Rightarrow> int \<Rightarrow> ucell \<Rightarrow> 'w fstate \<Rightarrow> (int \<times> 'w fstate) option" where
  "ext2_dir_entry E volume inode index entry s =
     do { (ret, s) \<leftarrow> ext2_read_data E volume inode index entry 264 s;
          if ret = - 1 then Some (- 1, s)
          else do { m \<leftarrow> le32_to_cpu entry entry [0] (mem s);
                    m \<leftarrow> le16_to_cpu entry entry [4] m;
                    rec_len \<leftarrow> read_word m (entry + 4);
                    index \<leftarrow> cint (index + uint rec_len);
                    Some (index, s\<lparr>mem := m\<rparr>) } }"

definition entry_matches :: "memory \<Rightarrow> ucell \<Rightarrow> ucell \<Rightarrow> bool option" where
  "entry_matches m entry name =
     do { l \<leftarrow> read_byte m (entry + 6);
          ret \<leftarrow> strncmp (at m name) (at m (entry + 8)) (unat l);
          if ret = 0 then do { c \<leftarrow> read_byte m (name + ucast l); Some (c = 0 \<or> c = 0x5C) } else Some False }"

partial_function (option) entry_loop :: "'w io_env \<Rightarrow> ucell \<Rightarrow> ucell \<Rightarrow> ucell \<Rightarrow> ucell \<Rightarrow> int \<Rightarrow> 'w fstate \<Rightarrow> (bool \<times> 'w fstate) option" where
  "entry_loop E volume inode entry name index s =
     do { (index, s) \<leftarrow> ext2_dir_entry E volume inode index entry s;
          if index = - 1 then Some (False, s)
          else do { hit \<leftarrow> entry_matches (mem s) entry name;
                    if hit then Some (True, s) else entry_loop E volume inode entry name index s } }"

partial_function (option) skip_separators :: "memory \<Rightarrow> ucell \<Rightarrow> ucell option" where
  "skip_separators m name = do { c \<leftarrow> read_byte m name; if c = 0x5C then skip_separators m (name + 1) else Some name }"

text \<open>The frame holds the inode (128 bytes) and the entry (264 bytes).\<close>

partial_function (option) seek_loop :: "'w io_env \<Rightarrow> ucell \<Rightarrow> ucell \<Rightarrow> u32 \<Rightarrow> ucell \<Rightarrow> 'w fstate \<Rightarrow> (u32 \<times> 'w fstate) option" where
  "seek_loop E fr volume ino name s =
     do { name \<leftarrow> skip_separators (mem s) name;
          c \<leftarrow> read_byte (mem s) name;
          if c = 0 then Some (ino, s)
          else do {
            s \<leftarrow> ext2_get_inode E (fr + 392) volume ino fr s;
            (found, s) \<leftarrow> entry_loop E volume fr (fr + 128) name 0 s;
            if \<not> found then Some (0, s)
            else do { ino \<leftarrow> read_long (mem s) (fr + 128);
                      l \<leftarrow> read_byte (mem s) (fr + 134);
                      seek_loop E fr volume ino (name + ucast l) s } } }"

definition EXT2_ROOT_INO :: u32 where
  "EXT2_ROOT_INO = 2"

definition ext2_seek_name :: "'w io_env \<Rightarrow> ucell \<Rightarrow> ucell \<Rightarrow> ucell \<Rightarrow> 'w fstate \<Rightarrow> (u32 \<times> 'w fstate) option" where
  "ext2_seek_name E fr volume name s = seek_loop E fr volume EXT2_ROOT_INO name s"

end
