(* ===== verification/Ext2_Files.thy ===== *)
theory Ext2_Files
  imports Ext2
begin

text \<open>
  The operations on volumes, files and directories of \<open>fs/ext2\<close> (\<open>ext2_mount.c\<close>, \<open>ext2_open.c\<close>, \<open>ext2_read.c\<close>,
  \<open>ext2_lseek.c\<close>, \<open>ext2_close.c\<close>, \<open>ext2_opendir.c\<close>, \<open>ext2_readdir.c\<close>, \<open>ext2_closedir.c\<close>) and the methods of the package
  \<open>/packages/ext2-files\<close> (\<open>ext2_fs.c\<close>). \<open>NULL\<close> is the address 0; the instance data \<open>ext2_info_t {volume, common}\<close> and
  \<open>ext2_COMMON {type, file or dir}\<close> are in memory.
\<close>

subsection \<open>Volumes\<close>

definition new_volume :: "'w io_env \<Rightarrow> int \<Rightarrow> ucell \<Rightarrow> ucell \<Rightarrow> ucell \<Rightarrow> 'w fstate \<Rightarrow> 'w fstate option" where
  "new_volume E fd super buffer volume s =
     do { m \<leftarrow> write_long (mem s) (volume + 12) buffer;
          m \<leftarrow> write_long m volume (word_of_int fd);
          m \<leftarrow> write_long m (volume + 4) super;
          m \<leftarrow> write_long m (volume + 8) (- 1);
          ext2_read_block E volume 0 (s\<lparr>mem := m\<rparr>) }"

definition ext2_mount :: "'w io_env \<Rightarrow> int \<Rightarrow> 'w fstate \<Rightarrow> (ucell \<times> 'w fstate) option" where
  "ext2_mount E fd s =
     do { (super, s) \<leftarrow> malloc (pkg E) 1024 s;
          if super = 0 then Some (0, s)
          else do {
            s \<leftarrow> ext2_get_super E fd super s;
            magic \<leftarrow> read_word (mem s) (super + 56);
            if magic \<noteq> EXT2_SUPER_MAGIC then do { s \<leftarrow> free (pkg E) super s; Some (0, s) }
            else do {
              bs \<leftarrow> EXT2_BLOCK_SIZE (mem s) super;
              (buffer, s) \<leftarrow> malloc (pkg E) bs s;
              if buffer = 0 then do { s \<leftarrow> free (pkg E) super s; Some (0, s) }
              else do {
                (volume, s) \<leftarrow> malloc (pkg E) 16 s;
                if volume = 0
                then do { s \<leftarrow> free (pkg E) super s; s \<leftarrow> free (pkg E) buffer s; Some (0, s) }
                else do { s \<leftarrow> new_volume E fd super buffer volume s; Some (volume, s) } } } } }"

definition ext2_umount :: "'w io_env \<Rightarrow> ucell \<Rightarrow> 'w fstate \<Rightarrow> (int \<times> 'w fstate) option" where
  "ext2_umount E volume s =
     (if volume = 0 then Some (- 1, s)
      else do { super \<leftarrow> vol_super (mem s) volume;
                s \<leftarrow> free (pkg E) super s;
                buffer \<leftarrow> vol_buffer (mem s) volume;
                s \<leftarrow> free (pkg E) buffer s;
                s \<leftarrow> free (pkg E) volume s;
                Some (0, s) })"

subsection \<open>Files\<close>

fun last_separator :: "memory \<Rightarrow> ucell \<Rightarrow> nat \<Rightarrow> nat \<Rightarrow> nat \<Rightarrow> nat option" where
  "last_separator m b i 0 sep = Some sep"
| "last_separator m b i (Suc left) sep =
     do { c \<leftarrow> read_byte m (b + of_nat i);
          last_separator m b (Suc i) left (if c = 0x5C then i else sep) }"

text \<open>The path of a link's target: the name after the last separator replaced by the text kept in the inode.\<close>

definition link_path :: "ucell \<Rightarrow> ucell \<Rightarrow> ucell \<Rightarrow> memory \<Rightarrow> memory option" where
  "link_path buffer pathname inode m =
     do { m \<leftarrow> strcpy m buffer pathname;
          n \<leftarrow> strlen (at m buffer);
          sep \<leftarrow> last_separator m buffer 0 n 0;
          m \<leftarrow> write_byte m (buffer + of_nat sep) 0x5C;
          strcpy m (buffer + of_nat sep + 1) (inode + 40) }"

definition new_file :: "'w io_env \<Rightarrow> ucell \<Rightarrow> ucell \<Rightarrow> ucell \<Rightarrow> 'w fstate \<Rightarrow> (ucell \<times> 'w fstate) option" where
  "new_file E volume inode pathname s =
     do { (file, s) \<leftarrow> malloc (pkg E) 16 s;
          if file = 0 then do { s \<leftarrow> free (pkg E) inode s; Some (0, s) }
          else do {
            m \<leftarrow> write_long (mem s) file volume;
            m \<leftarrow> write_long m (file + 4) inode;
            m \<leftarrow> write_long m (file + 8) 0;
            (path, s) \<leftarrow> strdup (pkg E) pathname (s\<lparr>mem := m\<rparr>);
            m \<leftarrow> write_long (mem s) (file + 12) path;
            Some (file, s\<lparr>mem := m\<rparr>) } }"

definition ext2_open :: "'w ext2_env \<Rightarrow> ucell \<Rightarrow> ucell \<Rightarrow> ucell \<Rightarrow> 'w fstate \<Rightarrow> (ucell \<times> 'w fstate) option" where
  "ext2_open X fr volume pathname s =
     do { let E = io X;
          (ino, s) \<leftarrow> ext2_seek_name E fr volume pathname s;
          if ino = 0 then Some (0, s)
          else do {
            (inode, s) \<leftarrow> malloc (pkg E) 128 s;
            if inode = 0 then Some (0, s)
            else do {
              s \<leftarrow> ext2_get_inode E fr volume ino inode s;
              mode \<leftarrow> i_mode (mem s) inode;
              if S_ISLNK mode
              then do {
                m \<leftarrow> link_path (link_buffer X) pathname inode (mem s);
                (ino, s) \<leftarrow> ext2_seek_name E fr volume (link_buffer X) (s\<lparr>mem := m\<rparr>);
                if ino = 0 then do { s \<leftarrow> free (pkg E) inode s; Some (0, s) }
                else do { s \<leftarrow> ext2_get_inode E fr volume ino inode s; new_file E volume inode pathname s } }
              else new_file E volume inode pathname s } } }"

definition ext2_close :: "'w io_env \<Rightarrow> ucell \<Rightarrow> 'w fstate \<Rightarrow> 'w fstate option" where
  "ext2_close E file s =
     (if file = 0 then Some s
      else do { inode \<leftarrow> read_long (mem s) (file + 4);
                s \<leftarrow> free (pkg E) inode s;
                path \<leftarrow> read_long (mem s) (file + 12);
                s \<leftarrow> free (pkg E) path s;
                free (pkg E) file s })"

definition file_offset :: "memory \<Rightarrow> ucell \<Rightarrow> int option" where
  "file_offset m file = do { v \<leftarrow> read_long m (file + 8); Some (sint v) }"

definition ext2_read :: "'w io_env \<Rightarrow> ucell \<Rightarrow> ucell \<Rightarrow> u32 \<Rightarrow> 'w fstate \<Rightarrow> (u32 \<times> 'w fstate) option" where
  "ext2_read E file buf cnt s =
     do { volume \<leftarrow> read_long (mem s) file;
          inode \<leftarrow> read_long (mem s) (file + 4);
          offset \<leftarrow> file_offset (mem s) file;
          (ret, s) \<leftarrow> ext2_read_data E volume inode offset buf cnt s;
          if ret = - 1 then Some (- 1, s)
          else do { offset \<leftarrow> file_offset (mem s) file;
                    offset \<leftarrow> cint (offset + ret);
                    m \<leftarrow> write_long (mem s) (file + 8) (word_of_int offset);
                    Some (word_of_int ret, s\<lparr>mem := m\<rparr>) } }"

definition SEEK_CUR :: int where
  "SEEK_CUR = 1"

definition SEEK_SET :: int where
  "SEEK_SET = 2"

definition SEEK_END :: int where
  "SEEK_END = 3"

text \<open>\<open>i_size + offset\<close> is unsigned and converted to \<open>long\<close>; the bound is compared unsigned.\<close>

definition ext2_lseek :: "ucell \<Rightarrow> int \<Rightarrow> int \<Rightarrow> memory \<Rightarrow> (int \<times> memory) option" where
  "ext2_lseek file offset whence m =
     do { new_offset \<leftarrow> (if whence = SEEK_SET then Some (Some offset)
                         else if whence = SEEK_CUR
                         then do { cur \<leftarrow> file_offset m file; n \<leftarrow> cint (cur + offset); Some (Some n) }
                         else if whence = SEEK_END
                         then do { inode \<leftarrow> read_long m (file + 4);
                                   size \<leftarrow> i_size m inode;
                                   Some (Some (sint (size + word_of_int offset))) }
                         else Some None);
          case new_offset of
            None \<Rightarrow> Some (- 1, m)
          | Some n \<Rightarrow>
              if n < 0 then Some (- 1, m)
              else do { inode \<leftarrow> read_long m (file + 4);
                        size \<leftarrow> i_size m inode;
                        if size < word_of_int n then Some (- 1, m)
                        else do { m \<leftarrow> write_long m (file + 8) (word_of_int n); Some (n, m) } } }"

subsection \<open>Directories\<close>

definition ext2_opendir :: "'w io_env \<Rightarrow> ucell \<Rightarrow> ucell \<Rightarrow> ucell \<Rightarrow> 'w fstate \<Rightarrow> (ucell \<times> 'w fstate) option" where
  "ext2_opendir E fr volume name s =
     do { (ino, s) \<leftarrow> ext2_seek_name E fr volume name s;
          if ino = 0 then Some (0, s)
          else do {
            (inode, s) \<leftarrow> malloc (pkg E) 128 s;
            if inode = 0 then Some (0, s)
            else do {
              s \<leftarrow> ext2_get_inode E fr volume ino inode s;
              mode \<leftarrow> i_mode (mem s) inode;
              if \<not> S_ISDIR mode then do { s \<leftarrow> free (pkg E) inode s; Some (0, s) }
              else do {
                (dir, s) \<leftarrow> malloc (pkg E) 12 s;
                if dir = 0 then do { s \<leftarrow> free (pkg E) inode s; Some (0, s) }
                else do { m \<leftarrow> write_long (mem s) dir volume;
                          m \<leftarrow> write_long m (dir + 4) inode;
                          m \<leftarrow> write_long m (dir + 8) 0;
                          Some (dir, s\<lparr>mem := m\<rparr>) } } } } }"

text \<open>The entry is a static structure; \<open>dir\<close> must not be \<open>NULL\<close>.\<close>

definition ext2_readdir :: "'w ext2_env \<Rightarrow> ucell \<Rightarrow> 'w fstate \<Rightarrow> (ucell \<times> 'w fstate) option" where
  "ext2_readdir X dir s =
     (if dir = 0 then None
      else do {
        let entry = dir_entry_at X;
        volume \<leftarrow> read_long (mem s) dir;
        inode \<leftarrow> read_long (mem s) (dir + 4);
        index \<leftarrow> read_long (mem s) (dir + 8);
        (ret, s) \<leftarrow> ext2_dir_entry (io X) volume inode (sint index) entry s;
        if ret = - 1 then Some (0, s)
        else do { m \<leftarrow> write_long (mem s) (dir + 8) (word_of_int ret);
                  l \<leftarrow> read_byte m (entry + 6);
                  m \<leftarrow> write_byte m (entry + 8 + ucast l) 0;
                  Some (entry, s\<lparr>mem := m\<rparr>) } })"

definition ext2_closedir :: "'w io_env \<Rightarrow> ucell \<Rightarrow> 'w fstate \<Rightarrow> 'w fstate option" where
  "ext2_closedir E dir s =
     (if dir = 0 then Some s
      else do { inode \<leftarrow> read_long (mem s) (dir + 4); s \<leftarrow> free (pkg E) inode s; free (pkg E) dir s })"

subsection \<open>Dates\<close>

definition days_month :: "u32 list" where
  "days_month = [31, 28, 31, 30, 31, 30, 31, 31, 30, 31, 30, 31]"

definition days_month_leap :: "u32 list" where
  "days_month_leap = [31, 29, 31, 30, 31, 30, 31, 31, 30, 31, 30, 31]"

definition is_leap :: "int \<Rightarrow> bool" where
  "is_leap year \<longleftrightarrow> (year smod 4 = 0 \<and> year smod 100 \<noteq> 0) \<or> year smod 400 = 0"

fun month_loop :: "u32 \<Rightarrow> u32 list \<Rightarrow> u32 \<Rightarrow> u32 \<Rightarrow> u32 \<times> u32" where
  "month_loop sec [] current month = (current, month)"
| "month_loop sec (d # days) current month =
     (if sec \<le> current + d then (current, month) else month_loop sec days (current + d) (month + 1))"

definition date_fields :: "u32 \<Rightarrow> u32 list" where
  "date_fields sec =
     (let second = sec mod 60; sec = sec div 60;
          minute = sec mod 60; sec = sec div 60;
          hour = sec mod 24; sec = sec div 24;
          year = sec * 100 div 36525;
          sec = sec - year * 36525 div 100;
          year = year + 1970;
          days = (if is_leap (sint year) then days_month_leap else days_month);
          (current, month) = month_loop sec days 0 0;
          month = month + 1;
          day = sec - current + 1
      in [year, month, day, hour, minute, second])"

definition print_date :: "'w io_env \<Rightarrow> u32 \<Rightarrow> 'w fstate \<Rightarrow> 'w fstate" where
  "print_date E sec s = message (pkg E) ''%d-%02d-%02d %02d:%02d:%02d '' (date_fields sec) s"

subsection \<open>The methods of the package\<close>

definition FILE_TYPE :: u32 where
  "FILE_TYPE = 0"

definition DIR_TYPE :: u32 where
  "DIR_TYPE = 1"

definition open_common :: "'w ext2_env \<Rightarrow> ucell \<Rightarrow> ucell \<Rightarrow> ucell \<Rightarrow> ucell \<Rightarrow> 'w fstate \<Rightarrow> 'w fstate option" where
  "open_common X fr common volume path s =
     do { let E = io X;
          (dir, s) \<leftarrow> ext2_opendir E fr volume path s;
          m \<leftarrow> write_long (mem s) (common + 4) dir;
          if dir = 0
          then do {
            (file, s) \<leftarrow> ext2_open X fr volume path (s\<lparr>mem := m\<rparr>);
            m \<leftarrow> write_long (mem s) (common + 4) file;
            if file = 0 then do { s \<leftarrow> free (pkg E) common (s\<lparr>mem := m\<rparr>); PUSH 0 s }
            else do { m \<leftarrow> write_long m common FILE_TYPE; PUSH (- 1) (s\<lparr>mem := m\<rparr>) } }
          else do { m \<leftarrow> write_long m common DIR_TYPE; PUSH (- 1) (s\<lparr>mem := m\<rparr>) } }"

definition ext2_files_open :: "'w ext2_env \<Rightarrow> ucell \<Rightarrow> ucell \<Rightarrow> 'w fstate \<Rightarrow> 'w fstate option" where
  "ext2_files_open X fr mi s =
     do { let E = io X;
          (path, s) \<leftarrow> my_args_copy (pkg E) s;
          (parent, s) \<leftarrow> my_parent (pkg E) s;
          (fd, s) \<leftarrow> open_ih E parent s;
          if fd = - 1 then do { s \<leftarrow> free (pkg E) path s; PUSH 0 s }
          else do {
            (volume, s) \<leftarrow> ext2_mount E fd s;
            m \<leftarrow> write_long (mem s) mi volume;
            let s = s\<lparr>mem := m\<rparr>;
            if volume = 0 then PUSH 0 s
            else do {
              (common, s) \<leftarrow> malloc (pkg E) 8 s;
              m \<leftarrow> write_long (mem s) (mi + 4) common;
              let s = s\<lparr>mem := m\<rparr>;
              if common = 0 then PUSH 0 s else open_common X fr common volume path s } } }"

definition ext2_files_close :: "'w ext2_env \<Rightarrow> ucell \<Rightarrow> 'w fstate \<Rightarrow> 'w fstate option" where
  "ext2_files_close X mi s =
     do { let E = io X;
          common \<leftarrow> read_long (mem s) (mi + 4);
          type \<leftarrow> read_long (mem s) common;
          object \<leftarrow> read_long (mem s) (common + 4);
          s \<leftarrow> (if type = FILE_TYPE then ext2_close E object s
               else if type = DIR_TYPE then ext2_closedir E object s
               else Some s);
          s \<leftarrow> free (pkg E) common s;
          volume \<leftarrow> read_long (mem s) mi;
          (_, s) \<leftarrow> ext2_umount E volume s;
          Some s }"

definition ext2_files_read :: "'w ext2_env \<Rightarrow> ucell \<Rightarrow> 'w fstate \<Rightarrow> 'w fstate option" where
  "ext2_files_read X mi s =
     do { (cnt, s) \<leftarrow> POP s;
          (buf, s) \<leftarrow> POP s;
          common \<leftarrow> read_long (mem s) (mi + 4);
          type \<leftarrow> read_long (mem s) common;
          if type \<noteq> FILE_TYPE then PUSH (- 1) s
          else do { file \<leftarrow> read_long (mem s) (common + 4);
                    (n, s) \<leftarrow> ext2_read (io X) file buf cnt s;
                    PUSH n s } }"

definition ext2_files_seek :: "'w ext2_env \<Rightarrow> ucell \<Rightarrow> 'w fstate \<Rightarrow> 'w fstate option" where
  "ext2_files_seek X mi s =
     do { (pos, s) \<leftarrow> DPOP s;
          let offs = sint (ucast pos :: u32);
          common \<leftarrow> read_long (mem s) (mi + 4);
          type \<leftarrow> read_long (mem s) common;
          if type \<noteq> FILE_TYPE then PUSH (- 1) s
          else do { file \<leftarrow> read_long (mem s) (common + 4);
                    (ret, m) \<leftarrow> ext2_lseek file offs SEEK_SET (mem s);
                    PUSH (if ret \<noteq> 0 then - 1 else 0) (s\<lparr>mem := m\<rparr>) } }"

definition ext2_files_load :: "'w ext2_env \<Rightarrow> ucell \<Rightarrow> 'w fstate \<Rightarrow> 'w fstate option" where
  "ext2_files_load X mi s =
     do { (buf, s) \<leftarrow> POP s;
          common \<leftarrow> read_long (mem s) (mi + 4);
          type \<leftarrow> read_long (mem s) common;
          if type \<noteq> FILE_TYPE then PUSH (- 1) s
          else do { file \<leftarrow> read_long (mem s) (common + 4);
                    (_, m) \<leftarrow> ext2_lseek file 0 SEEK_END (mem s);
                    cnt \<leftarrow> file_offset m file;
                    (_, m) \<leftarrow> ext2_lseek file 0 SEEK_SET m;
                    (n, s) \<leftarrow> ext2_read (io X) file buf (word_of_int cnt) (s\<lparr>mem := m\<rparr>);
                    PUSH n s } }"

definition ext2_files_get_path :: "'w ext2_env \<Rightarrow> ucell \<Rightarrow> 'w fstate \<Rightarrow> 'w fstate option" where
  "ext2_files_get_path X mi s =
     do { common \<leftarrow> read_long (mem s) (mi + 4);
          type \<leftarrow> read_long (mem s) common;
          if type \<noteq> FILE_TYPE then PUSH 0 s
          else do { file \<leftarrow> read_long (mem s) (common + 4);
                    path \<leftarrow> read_long (mem s) (file + 12);
                    (q, s) \<leftarrow> strdup (pkg (io X)) path s;
                    PUSH q s } }"

definition ext2_files_get_fstype :: "'w ext2_env \<Rightarrow> 'w fstate \<Rightarrow> 'w fstate option" where
  "ext2_files_get_fstype X s =
     do { (q, s) \<leftarrow> strdup (pkg (io X)) (lit (pkg (io X)) ''ext2'') s; PUSH q s }"

text \<open>The inode of the listed entry is in the frame at \<open>fr\<close>.\<close>

partial_function (option) dir_loop :: "'w ext2_env \<Rightarrow> ucell \<Rightarrow> ucell \<Rightarrow> 'w fstate \<Rightarrow> 'w fstate option" where
  "dir_loop X fr common s =
     do { let E = io X;
          dir \<leftarrow> read_long (mem s) (common + 4);
          (entry, s) \<leftarrow> ext2_readdir X dir s;
          if entry = 0 then Some s
          else do {
            dir \<leftarrow> read_long (mem s) (common + 4);
            volume \<leftarrow> read_long (mem s) dir;
            ino \<leftarrow> read_long (mem s) entry;
            s \<leftarrow> ext2_get_inode E (fr + 128) volume ino fr s;
            size \<leftarrow> i_size (mem s) fr;
            let s = message (pkg E) ''% 10d '' [size] s;
            mtime \<leftarrow> read_long (mem s) (fr + 16);
            let s = print_date E mtime s;
            mode \<leftarrow> i_mode (mem s) fr;
            let s = message (pkg E) (if S_ISDIR mode then ''%s'' @ [CHR 0x5C, CHR 0x0A] else ''%s'' @ [CHR 0x0A]) [entry + 8] s;
            dir_loop X fr common s } }"

definition ext2_files_dir :: "'w ext2_env \<Rightarrow> ucell \<Rightarrow> 'w fstate \<Rightarrow> 'w fstate option" where
  "ext2_files_dir X fr s =
     do { let E = io X;
          (ih, s) \<leftarrow> POP s;
          (path, s) \<leftarrow> pop_fstr_copy (pkg E) s;
          (fd, s) \<leftarrow> open_ih E ih s;
          if fd = - 1 then free (pkg E) path s
          else do {
            (volume, s) \<leftarrow> ext2_mount E fd s;
            if volume = 0 then Some s
            else do {
              (common, s) \<leftarrow> malloc (pkg E) 8 s;
              (dir, s) \<leftarrow> ext2_opendir E fr volume path s;
              m \<leftarrow> write_long (mem s) (common + 4) dir;
              let s = message (pkg E) [CHR 0x0A] [] (s\<lparr>mem := m\<rparr>);
              s \<leftarrow> dir_loop X fr common s;
              dir \<leftarrow> read_long (mem s) (common + 4);
              s \<leftarrow> ext2_closedir E dir s;
              (_, s) \<leftarrow> ext2_umount E volume s;
              (_, s) \<leftarrow> close_io E fd s;
              s \<leftarrow> free (pkg E) common s;
              free (pkg E) path s } } }"

definition ext2_files_probe :: "'w ext2_env \<Rightarrow> 'w fstate \<Rightarrow> 'w fstate option" where
  "ext2_files_probe X s =
     do { let E = io X;
          (ih, s) \<leftarrow> POP s;
          (offs, s) \<leftarrow> DPOP s;
          (fd, s) \<leftarrow> open_ih E ih s;
          if 0 \<le> fd
          then do { (r, s) \<leftarrow> ext2_probe E fd offs s;
                    (_, s) \<leftarrow> close_io E fd s;
                    PUSH (if r \<noteq> 0 then - 1 else 0) s }
          else PUSH (- 1) s }"

definition ext2_initializer :: "'w ext2_env \<Rightarrow> 'w fstate \<Rightarrow> 'w fstate option" where
  "ext2_initializer X s = fword (pkg (io X)) ''register-fs-package'' s"

end
