(* ===== verification/Ext2_Spec.thy ===== *)
theory Ext2_Spec
  imports Ext2_Files
begin

text \<open>
  Theorems on the ext2 filesystem, over a device reached through a file descriptor: \<open>disk\<close> names its package instance,
  its size and contents and what it may change; \<open>disk_device\<close> is what its \<open>seek\<close> and \<open>read\<close> methods promise, for a device
  whose size a signed double-cell position can express, and the deblocker on a block device keeps that promise
  (\<open>deblk_disk_device\<close>). The code multiplies the number and the size of a block in 32 bits, so the theorems ask that the
  blocks used end at or below 4 GB (\<open>on_disk\<close>), and it takes the square of the number of addresses in a block in 32 bits and has
  no working triply indirect case, so they ask that a file is in reach of its doubly indirect block (\<open>bmap_ok\<close>).
\<close>

subsection \<open>The device behind a descriptor\<close>

record 'w disk =
  d_ih :: ucell
  d_seek :: ucell
  d_read :: ucell
  d_size :: nat
  d_scratch :: "ucell \<Rightarrow> bool"
  d_data :: "'w \<Rightarrow> nat \<Rightarrow> u8"
  d_pos :: "'w \<Rightarrow> nat"
  d_needs :: "memory \<Rightarrow> 'w \<Rightarrow> bool"

definition serves_seeks :: "'w pkg_env \<Rightarrow> 'w disk \<Rightarrow> bool" where
  "serves_seeks p K \<longleftrightarrow>
     (\<forall>s hi lo rest. ds_ok s \<and> ds s = hi # lo # rest \<and> length rest \<le> 480 \<and> unat (join_cells hi lo) \<le> d_size K \<and> d_needs K (mem s) (world s) \<longrightarrow>
        (\<exists>s'. call_package p (d_seek K) (d_ih K) s = Some s' \<and> ds_ok s' \<and> ds s' = 0 # rest \<and> mem s' = mem s \<and>
           d_data K (world s') = d_data K (world s) \<and> d_pos K (world s') = unat (join_cells hi lo) \<and> d_needs K (mem s') (world s')))"

definition serves_reads :: "'w pkg_env \<Rightarrow> 'w disk \<Rightarrow> bool" where
  "serves_reads p K \<longleftrightarrow>
     (\<forall>s n a rest. ds_ok s \<and> ds s = of_nat n # a # rest \<and> length rest \<le> 480 \<and> d_needs K (mem s) (world s) \<and> n < 2 ^ 31 \<and>
        mapped (mem s) a n \<and> (\<forall>x. in_region a n x \<longrightarrow> \<not> d_scratch K x) \<and> d_pos K (world s) + n \<le> d_size K \<longrightarrow>
        (\<exists>s'. call_package p (d_read K) (d_ih K) s = Some s' \<and> ds_ok s' \<and> ds s' = of_nat n # rest \<and>
           filled (d_scratch K) (mem s) a (\<lambda>i. d_data K (world s) (d_pos K (world s) + i)) n (mem s') \<and>
           d_data K (world s') = d_data K (world s) \<and> d_pos K (world s') = d_pos K (world s) + n \<and> d_needs K (mem s') (world s')))"

definition disk_device :: "'w pkg_env \<Rightarrow> 'w disk \<Rightarrow> bool" where
  "disk_device p K \<longleftrightarrow>
     serves_seeks p K \<and> serves_reads p K \<and> d_size K \<le> 2 ^ 63 \<and>
     (\<forall>m m' w. same_dom m m' \<longrightarrow> d_needs K m w = d_needs K m' w)"

lemma write_long_dom: "write_long m a v = Some m' \<Longrightarrow> same_dom m m'"
  by (simp add: same_dom_def long_acc.wr_dom)

lemma write_long_mapped: "mapped m a 4 \<Longrightarrow> \<exists>m'. write_long m a v = Some m'"
  using long_acc.wr_succeeds [of m a v] by (auto simp: mapped_iff)

lemma read_long_mapped: "read_long m a = Some v \<Longrightarrow> mapped m a 4"
  using long_acc.rd_succeeds [of m a] by (auto simp: mapped_iff)

subsection \<open>Seeking and reading through a descriptor\<close>

text \<open>The cells of descriptor \<open>fd\<close>, kept at \<open>fdp\<close>.\<close>

definition fd_cells :: "'w io_env \<Rightarrow> 'w disk \<Rightarrow> nat \<Rightarrow> ucell \<Rightarrow> (ucell \<times> u32) list" where
  "fd_cells E K fd fdp =
     [(file_descriptors E + 4 * of_nat fd, fdp), (fdp, d_ih K), (fdp + read_xt_off, d_read K), (fdp + seek_xt_off, d_seek K)]"

definition cells_hold :: "memory \<Rightarrow> (ucell \<times> u32) list \<Rightarrow> bool" where
  "cells_hold m cs \<longleftrightarrow> (\<forall>(a, v) \<in> set cs. read_long m a = Some v)"

definition cells_clear :: "(ucell \<Rightarrow> bool) \<Rightarrow> (ucell \<times> u32) list \<Rightarrow> bool" where
  "cells_clear S cs \<longleftrightarrow> (\<forall>(a, v) \<in> set cs. \<forall>x. in_region a 4 x \<longrightarrow> \<not> S x)"

lemma cells_clear_append: "cells_clear S (cs @ cs') \<longleftrightarrow> cells_clear S cs \<and> cells_clear S cs'"
  by (auto simp: cells_clear_def)

lemma cells_clear_or: "cells_clear S cs \<Longrightarrow> cells_clear T cs \<Longrightarrow> cells_clear (\<lambda>x. S x \<or> T x) cs"
  by (fastforce simp: cells_clear_def)

lemma cells_clear_mono: "cells_clear T cs \<Longrightarrow> (\<And>x. S x \<Longrightarrow> T x) \<Longrightarrow> cells_clear S cs"
  by (fastforce simp: cells_clear_def)

lemma cells_hold_append: "cells_hold m (cs @ cs') \<longleftrightarrow> cells_hold m cs \<and> cells_hold m cs'"
  by (auto simp: cells_hold_def)

lemma fd_ptr_eq:
  assumes "cells_hold m (fd_cells E K fd fdp)" and "fd < 32"
  shows "fd_ptr E (int fd) m = Some fdp"
  using assms by (simp add: fd_ptr_def fd_slot_def MAX_FD_def cells_hold_def fd_cells_def)

lemma fd_call_eq:
  assumes "cells_hold (mem s) (fd_cells E K fd fdp)"
  shows "fd_call E fdp read_xt_off s = call_package (pkg E) (d_read K) (d_ih K) s"
    and "fd_call E fdp seek_xt_off s = call_package (pkg E) (d_seek K) (d_ih K) s"
  using assms by (simp_all add: fd_call_def cells_hold_def fd_cells_def)

lemma seek_io_step:
  assumes dev: "disk_device (pkg E) K" and c: "cells_hold (mem s) (fd_cells E K fd fdp)" "fd < 32"
    and s: "ds_ok s" "length (ds s) \<le> 480" "d_needs K (mem s) (world s)" and pos: "unat pos \<le> d_size K"
  shows "\<exists>s'. seek_io E (int fd) pos s = Some (0, s') \<and> ds_ok s' \<and> ds s' = ds s \<and> mem s' = mem s \<and>
           d_data K (world s') = d_data K (world s) \<and> d_pos K (world s') = unat pos \<and> d_needs K (mem s') (world s')"
proof -
  let ?s = "pushed (ucast (drop_bit 32 pos)) (pushed (ucast pos) s)"
  have ok: "ds_ok ?s" "ds ?s = ucast (drop_bit 32 pos) # ucast pos # ds s"
    using s by (simp_all add: ds_pushed ds_ok_pushed)
  from dev have "serves_seeks (pkg E) K" by (simp add: disk_device_def)
  from this [unfolded serves_seeks_def, rule_format, of ?s "ucast (drop_bit 32 pos)" "ucast pos" "ds s"] ok s pos
  obtain s' where s': "call_package (pkg E) (d_seek K) (d_ih K) ?s = Some s'" "ds_ok s'" "ds s' = 0 # ds s" "mem s' = mem s"
      "d_data K (world s') = d_data K (world s)" "d_pos K (world s') = unat pos" "d_needs K (mem s') (world s')"
    by (auto simp: join_split)
  have c': "cells_hold (mem ?s) (fd_cells E K fd fdp)" using c by simp
  have "int fd \<noteq> - 1" by simp
  then have "seek_io E (int fd) pos s = Some (0, popped s')"
    using s s' by (simp add: seek_io_def fd_ptr_eq [OF c] DPUSH_step fd_call_eq(2) [OF c'] pop_step)
  then show ?thesis using s' by (auto simp: stack_steps)
qed

lemma read_io_step:
  assumes dev: "disk_device (pkg E) K" and c: "cells_hold (mem s) (fd_cells E K fd fdp)" "fd < 32"
    and s: "ds_ok s" "length (ds s) \<le> 480" "d_needs K (mem s) (world s)"
    and n: "0 < n" "n < 2 ^ 31" "mapped (mem s) a n" "\<forall>x. in_region a n x \<longrightarrow> \<not> d_scratch K x" "d_pos K (world s) + n \<le> d_size K"
  shows "\<exists>s'. read_io E (int fd) a (of_nat n) s = Some (int n, s') \<and> ds_ok s' \<and> ds s' = ds s \<and>
           filled (d_scratch K) (mem s) a (\<lambda>i. d_data K (world s) (d_pos K (world s) + i)) n (mem s') \<and>
           d_data K (world s') = d_data K (world s) \<and> d_needs K (mem s') (world s')"
proof -
  let ?s = "pushed (of_nat n) (pushed a s)"
  have ok: "ds_ok ?s" "ds ?s = of_nat n # a # ds s" using s by (simp_all add: ds_pushed ds_ok_pushed)
  from dev have "serves_reads (pkg E) K" by (simp add: disk_device_def)
  from this [unfolded serves_reads_def, rule_format, of ?s n a "ds s"] ok s n obtain s' where
    s': "call_package (pkg E) (d_read K) (d_ih K) ?s = Some s'" "ds_ok s'" "ds s' = of_nat n # ds s"
      "filled (d_scratch K) (mem s) a (\<lambda>i. d_data K (world s) (d_pos K (world s) + i)) n (mem s')"
      "d_data K (world s') = d_data K (world s)" "d_needs K (mem s') (world s')" by auto
  have c': "cells_hold (mem ?s) (fd_cells E K fd fdp)" using c by simp
  have "unat (of_nat n :: ucell) = n" using n(2) by (simp add: unat_of_nat_small)
  then have nz: "(of_nat n :: ucell) \<noteq> 0" using n(1) by (metis less_numeral_extra(3) unat_0)
  have "int fd \<noteq> - 1" by simp
  then have "read_io E (int fd) a (of_nat n) s = Some (int n, popped s')"
    using s s' nz n(2)
    by (simp add: read_io_def fd_ptr_eq [OF c] fd_call_eq(1) [OF c'] stack_steps sint_of_nat)
  then show ?thesis using s' by (auto simp: stack_steps)
qed

subsection \<open>Volumes\<close>

text \<open>
  A mounted volume: its addresses, its descriptor and the logarithm of its block size. The cells are what
  the code reads to reach the device; reading a block may change the buffer, the number of the current block and what the
  device scribbles on.
\<close>

record vol =
  v_at :: ucell
  v_fd :: nat
  v_fdp :: ucell
  v_super :: ucell
  v_buffer :: ucell
  v_log :: nat

definition v_bs :: "vol \<Rightarrow> nat" where
  "v_bs V = 1024 * 2 ^ v_log V"

definition vol_cells :: "'w io_env \<Rightarrow> 'w disk \<Rightarrow> vol \<Rightarrow> (ucell \<times> u32) list" where
  "vol_cells E K V =
     [(v_at V, of_nat (v_fd V)), (v_at V + 4, v_super V), (v_at V + 12, v_buffer V), (v_super V + 24, of_nat (v_log V))] @
     fd_cells E K (v_fd V) (v_fdp V)"

definition vol_scratch :: "'w disk \<Rightarrow> vol \<Rightarrow> ucell \<Rightarrow> bool" where
  "vol_scratch K V x \<longleftrightarrow> in_region (v_buffer V) (v_bs V) x \<or> in_region (v_at V + 8) 4 x \<or> d_scratch K x"

definition vol_layout :: "'w io_env \<Rightarrow> 'w disk \<Rightarrow> vol \<Rightarrow> bool" where
  "vol_layout E K V \<longleftrightarrow>
     v_fd V < 32 \<and> v_log V < 21 \<and>
     cells_clear (vol_scratch K V) (vol_cells E K V) \<and>
     apart (v_at V + 8) 4 (v_buffer V) (v_bs V) \<and>
     (\<forall>x. in_region (v_at V + 8) 4 x \<or> in_region (v_buffer V) (v_bs V) x \<longrightarrow> \<not> d_scratch K x)"

text \<open>A block of the device that ends at or below 4 GB: \<open>ext2_read_block\<close> computes its place in 32 bits.\<close>

definition on_disk :: "'w disk \<Rightarrow> vol \<Rightarrow> u32 \<Rightarrow> bool" where
  "on_disk K V b \<longleftrightarrow> (unat b + 1) * v_bs V \<le> d_size K \<and> (unat b + 1) * v_bs V \<le> 2 ^ 32"

definition block_of :: "'w disk \<Rightarrow> vol \<Rightarrow> 'w \<Rightarrow> u32 \<Rightarrow> nat \<Rightarrow> u8" where
  "block_of K V w b i = d_data K w (unat b * v_bs V + i)"

text \<open>The buffer holds the block whose number is \<open>current\<close>, or that number is -1.\<close>

definition cache_ok :: "'w disk \<Rightarrow> vol \<Rightarrow> memory \<Rightarrow> 'w \<Rightarrow> bool" where
  "cache_ok K V m w \<longleftrightarrow>
     (\<exists>c. vol_current m (v_at V) = Some c \<and> (c \<noteq> - 1 \<longrightarrow> holds m (v_buffer V) (v_bs V) (block_of K V w c)))"

definition vol_ok :: "'w io_env \<Rightarrow> 'w disk \<Rightarrow> vol \<Rightarrow> 'w fstate \<Rightarrow> bool" where
  "vol_ok E K V s \<longleftrightarrow>
     vol_layout E K V \<and> cells_hold (mem s) (vol_cells E K V) \<and> mapped (mem s) (v_buffer V) (v_bs V) \<and>
     cache_ok K V (mem s) (world s) \<and> d_needs K (mem s) (world s) \<and> ds_ok s \<and> length (ds s) \<le> 480"

definition spares :: "'w disk \<Rightarrow> (ucell \<Rightarrow> bool) \<Rightarrow> 'w fstate \<Rightarrow> 'w fstate \<Rightarrow> bool" where
  "spares K S s s' \<longleftrightarrow>
     ds s' = ds s \<and> d_data K (world s') = d_data K (world s) \<and> same_dom (mem s) (mem s') \<and> (\<forall>x. \<not> S x \<longrightarrow> mem s' x = mem s x)"

lemma same_dom_refl [simp]: "same_dom m m"
  by (simp add: same_dom_def)

lemma same_dom_trans: "same_dom m m' \<Longrightarrow> same_dom m' m'' \<Longrightarrow> same_dom m m''"
  by (simp add: same_dom_def)

lemma same_dom_mapped: "same_dom m m' \<Longrightarrow> mapped m' a n = mapped m a n"
  by (simp add: same_dom_def mapped_def)

lemma spares_refl [simp]: "spares K S s s"
  by (simp add: spares_def)

lemma spares_trans: "spares K S s s' \<Longrightarrow> spares K S s' s'' \<Longrightarrow> spares K S s s''"
  by (auto simp: spares_def intro: same_dom_trans)

lemma spares_mono: "spares K S s s' \<Longrightarrow> (\<And>x. S x \<Longrightarrow> T x) \<Longrightarrow> spares K T s s'"
  by (auto simp: spares_def)

lemma spares_or: "spares K S s s' \<Longrightarrow> spares K T s' s'' \<Longrightarrow> spares K (\<lambda>x. S x \<or> T x) s s''"
  by (rule spares_trans; erule spares_mono; simp)

lemma spares_cells:
  assumes "spares K S s s'" and "cells_hold (mem s) cs" and "cells_clear S cs"
  shows "cells_hold (mem s') cs"
proof -
  have "read_long (mem s') a = read_long (mem s) a" if "(a, v) \<in> set cs" for a v
    by (rule long_acc.rd_local) (use assms that in \<open>auto simp: spares_def cells_clear_def\<close>)
  then show ?thesis using assms(2) by (auto simp: cells_hold_def)
qed

lemma spares_holds:
  assumes "spares K S s s'" and "holds (mem s) a n f" and "\<And>x. in_region a n x \<Longrightarrow> \<not> S x" and "n \<le> 2 ^ 32"
  shows "holds (mem s') a n f"
  by (rule holds_frame [OF assms(2) _ assms(4)]) (use assms in \<open>simp add: spares_def\<close>)

lemma v_bs_bounds:
  assumes "vol_layout E K V"
  shows "1024 \<le> v_bs V" "v_bs V < 2 ^ 31" "unat (of_nat (v_bs V) :: u32) = v_bs V" "sint (of_nat (v_bs V) :: u32) = int (v_bs V)"
proof -
  have "(2 :: nat) ^ v_log V \<le> 2 ^ 20" using assms by (intro power_increasing) (simp_all add: vol_layout_def)
  then show b: "1024 \<le> v_bs V" "v_bs V < 2 ^ 31" by (simp_all add: v_bs_def)
  then show "unat (of_nat (v_bs V) :: u32) = v_bs V" "sint (of_nat (v_bs V) :: u32) = int (v_bs V)"
    by (simp_all add: unat_of_nat_small sint_of_nat)
qed

lemma vol_fields:
  assumes "vol_layout E K V" and "cells_hold m (vol_cells E K V)"
  shows "vol_fd m (v_at V) = Some (int (v_fd V))" "vol_super m (v_at V) = Some (v_super V)"
    "vol_buffer m (v_at V) = Some (v_buffer V)" "EXT2_BLOCK_SIZE m (v_super V) = Some (of_nat (v_bs V))"
    "cells_hold m (fd_cells E K (v_fd V) (v_fdp V))"
proof -
  have f: "v_fd V < 32" "v_log V < 21" using assms(1) by (simp_all add: vol_layout_def)
  have c: "read_long m (v_at V) = Some (of_nat (v_fd V))" "read_long m (v_at V + 4) = Some (v_super V)"
    "read_long m (v_at V + 12) = Some (v_buffer V)" "read_long m (v_super V + 24) = Some (of_nat (v_log V))"
    and "cells_hold m (fd_cells E K (v_fd V) (v_fdp V))"
    using assms(2) by (simp_all add: vol_cells_def cells_hold_def)
  then show "cells_hold m (fd_cells E K (v_fd V) (v_fdp V))" by blast
  have l: "unat (of_nat (v_log V) :: u32) = v_log V" using f by (simp add: unat_of_nat_small)
  then have "(of_nat (v_log V) :: u32) < 21" using f by (simp add: word_less_nat_alt)
  moreover have "push_bit (v_log V) (1024 :: u32) = of_nat (v_bs V)" by (simp add: v_bs_def push_bit_eq_mult)
  ultimately show "EXT2_BLOCK_SIZE m (v_super V) = Some (of_nat (v_bs V))" using c(4) l by (simp add: EXT2_BLOCK_SIZE_def)
  show "vol_fd m (v_at V) = Some (int (v_fd V))" "vol_super m (v_at V) = Some (v_super V)"
    "vol_buffer m (v_at V) = Some (v_buffer V)"
    using c f by (simp_all add: vol_fd_def vol_super_def vol_buffer_def sint_of_nat)
qed

text \<open>Setting \<open>current\<close>, seeking and reading the block.\<close>

lemma on_disk_offset:
  assumes "vol_layout E K V" and "on_disk K V b"
  shows "unat (ucast (b * of_nat (v_bs V)) :: ducell) = unat b * v_bs V" "unat b * v_bs V + v_bs V \<le> d_size K" "b \<noteq> - 1"
proof -
  note bs = v_bs_bounds [OF assms(1)]
  show "unat b * v_bs V + v_bs V \<le> d_size K" using assms(2) by (simp add: on_disk_def)
  have le: "unat b * v_bs V + v_bs V \<le> 2 ^ 32" using assms(2) by (simp add: on_disk_def)
  then have lt: "unat b * v_bs V < 2 ^ 32" using bs(1) by simp
  then have "unat (b * of_nat (v_bs V)) = unat b * v_bs V" using bs(3) by (simp add: unat_word_ariths)
  then show "unat (ucast (b * of_nat (v_bs V)) :: ducell) = unat b * v_bs V" using lt by (simp add: unsigned_ucast_eq take_bit_nat_eq_self)
  show "b \<noteq> - 1"
  proof
    assume "b = - 1"
    then have "b = 0xFFFFFFFF" by simp
    then have "unat b = 2 ^ 32 - 1" by simp
    moreover have "unat b * 1 \<le> unat b * v_bs V" using bs(1) by (intro mult_le_mono2) simp
    ultimately show False using le bs(1) by simp
  qed
qed

lemma read_block_step:
  assumes dev: "disk_device (pkg E) K" and ok: "vol_ok E K V s" and b: "on_disk K V b"
  shows "\<exists>s'. ext2_read_block E (v_at V) b s = Some s' \<and> vol_ok E K V s' \<and> spares K (vol_scratch K V) s s' \<and>
           holds (mem s') (v_buffer V) (v_bs V) (block_of K V (world s) b)"
proof -
  from ok have lay: "vol_layout E K V" and cells: "cells_hold (mem s) (vol_cells E K V)" and map: "mapped (mem s) (v_buffer V) (v_bs V)"
    and st: "d_needs K (mem s) (world s)" "ds_ok s" "length (ds s) \<le> 480" and ca: "cache_ok K V (mem s) (world s)"
    by (simp_all add: vol_ok_def)
  note bs = v_bs_bounds [OF lay] and off = on_disk_offset [OF lay b]
  from ca obtain c where c: "vol_current (mem s) (v_at V) = Some c"
    "c \<noteq> - 1 \<longrightarrow> holds (mem s) (v_buffer V) (v_bs V) (block_of K V (world s) c)" by (auto simp: cache_ok_def)
  show ?thesis
  proof (cases "b = c")
    case True
    then show ?thesis using c ok off(3) by (intro exI [of _ s]) (simp add: ext2_read_block_def)
  next
    case False
    from c(1) have "mapped (mem s) (v_at V + 8) 4" by (simp add: vol_current_def read_long_mapped)
    then obtain m where m: "write_long (mem s) (v_at V + 8) b = Some m" using write_long_mapped by blast
    let ?s = "s\<lparr>mem := m\<rparr>"
    have k0: "spares K (vol_scratch K V) s ?s"
      using long_acc.wr_frame [OF m] write_long_dom [OF m] by (simp add: spares_def vol_scratch_def)
    from lay have sep: "cells_clear (vol_scratch K V) (vol_cells E K V)"
      by (simp add: vol_layout_def)
    have cells1: "cells_hold (mem ?s) (vol_cells E K V)" by (rule spares_cells [OF k0 cells sep])
    note f1 = vol_fields [OF lay cells1]
    have n1: "d_needs K (mem ?s) (world ?s)"
      using st(1) dev write_long_dom [OF m] unfolding disk_device_def by fastforce
    from seek_io_step [OF dev f1(5) _ _ _ n1, of "ucast (b * of_nat (v_bs V))"] off lay st obtain s2 where
      s2: "seek_io E (int (v_fd V)) (ucast (b * of_nat (v_bs V))) ?s = Some (0, s2)" "ds_ok s2" "ds s2 = ds s" "mem s2 = m"
        "d_data K (world s2) = d_data K (world s)" "d_pos K (world s2) = unat b * v_bs V" "d_needs K (mem s2) (world s2)"
      by (auto simp: vol_layout_def)
    have cells2: "cells_hold (mem s2) (vol_cells E K V)" using cells1 s2(4) by simp
    note f2 = vol_fields [OF lay cells2]
    have m2: "mapped (mem s2) (v_buffer V) (v_bs V)" using map same_dom_mapped [OF write_long_dom [OF m]] s2(4) by simp
    from read_io_step [OF dev f2(5) _ s2(2) _ s2(7) _ _ m2] lay s2 st off(2) bs obtain s3 where
      s3: "read_io E (int (v_fd V)) (v_buffer V) (of_nat (v_bs V)) s2 = Some (int (v_bs V), s3)" "ds_ok s3" "ds s3 = ds s"
        "filled (d_scratch K) m (v_buffer V) (\<lambda>i. d_data K (world s) (unat b * v_bs V + i)) (v_bs V) (mem s3)"
        "d_data K (world s3) = d_data K (world s)" "d_needs K (mem s3) (world s3)"
      by (auto simp: vol_layout_def)
    have run: "ext2_read_block E (v_at V) b s = Some s3"
      using False c(1) by (simp add: ext2_read_block_def m f1 [simplified] s2(1) f2 s3(1))
    have h3: "holds (mem s3) (v_buffer V) (v_bs V) (block_of K V (world s) b)"
      unfolding block_of_def by (rule holds_filled [OF s3(4)]) (use lay bs in \<open>auto simp: vol_layout_def\<close>)
    have "spares K (vol_scratch K V) s s3"
      unfolding spares_def
    proof (intro conjI allI impI)
      show "same_dom (mem s) (mem s3)"
        using s3(4) write_long_dom [OF m] by (auto simp: filled_def same_dom_def)
      fix x
      assume "\<not> vol_scratch K V x"
      then show "mem s3 x = mem s x"
        using s3(4) long_acc.wr_frame [OF m, of x] by (simp add: filled_def vol_scratch_def)
    qed (use s3 in simp_all)
    note k3 = this
    have cur: "vol_current (mem s3) (v_at V) = Some b"
    proof -
      have "read_long (mem s3) (v_at V + 8) = read_long m (v_at V + 8)"
        by (rule long_acc.rd_local) (use lay s3(4) in \<open>auto simp: vol_layout_def apart_def filled_def\<close>)
      then show ?thesis using long_acc.rd_wr_same [OF m] by (simp add: vol_current_def)
    qed
    have "block_of K V (world s3) b = block_of K V (world s) b" using s3(5) by (simp add: block_of_def fun_eq_iff)
    then have "cache_ok K V (mem s3) (world s3)" using cur h3 by (simp add: cache_ok_def)
    moreover have "mapped (mem s3) (v_buffer V) (v_bs V)" using map k3 same_dom_mapped [of "mem s" "mem s3"] by (simp add: spares_def)
    ultimately have "vol_ok E K V s3"
      using lay spares_cells [OF k3 cells sep] s3 st by (simp add: vol_ok_def)
    then show ?thesis using run k3 h3 by blast
  qed
qed

subsection \<open>The blocks of a file\<close>

text \<open>
  The inode in memory: its size and its fifteen block numbers. \<open>bmap\<close> is the block of the device that holds block \<open>n\<close>
  of the file: a direct block, one listed in the indirect block, or one listed in a block listed in the doubly indirect block.
\<close>

definition inode_cells :: "ucell \<Rightarrow> u32 \<Rightarrow> (nat \<Rightarrow> u32) \<Rightarrow> (ucell \<times> u32) list" where
  "inode_cells ia sz bl = (ia + 4, sz) # map (\<lambda>k. (ia + 40 + 4 * of_nat k, bl k)) [0..<15]"

definition v_apb :: "vol \<Rightarrow> nat" where
  "v_apb V = v_bs V div 4"

definition listed :: "'w disk \<Rightarrow> vol \<Rightarrow> 'w \<Rightarrow> u32 \<Rightarrow> nat \<Rightarrow> u32" where
  "listed K V w b i = le32 (block_of K V w b) (4 * i)"

definition bmap :: "'w disk \<Rightarrow> vol \<Rightarrow> 'w \<Rightarrow> (nat \<Rightarrow> u32) \<Rightarrow> nat \<Rightarrow> u32" where
  "bmap K V w bl n =
     (if n < 12 then bl n
      else if n - 12 < v_apb V then listed K V w (bl 12) (n - 12)
      else let r = n - 12 - v_apb V in listed K V w (listed K V w (bl 13) (r div v_apb V)) (r mod v_apb V))"

text \<open>
  Block \<open>n\<close> is in reach of the doubly indirect block, and it and the blocks on the way to it are on the device, below 4 GB.
  A block has at most 128 KB, so that the square of the number of addresses in it fits in 32 bits.
\<close>

definition bmap_ok :: "'w disk \<Rightarrow> vol \<Rightarrow> 'w \<Rightarrow> (nat \<Rightarrow> u32) \<Rightarrow> nat \<Rightarrow> bool" where
  "bmap_ok K V w bl n \<longleftrightarrow>
     v_log V < 8 \<and> n < 12 + v_apb V + v_apb V * v_apb V \<and> on_disk K V (bmap K V w bl n) \<and>
     (12 \<le> n \<and> n < 12 + v_apb V \<longrightarrow> on_disk K V (bl 12)) \<and>
     (12 + v_apb V \<le> n \<longrightarrow> on_disk K V (bl 13) \<and> on_disk K V (listed K V w (bl 13) ((n - 12 - v_apb V) div v_apb V)))"

lemma i_block_cell: "cells_hold m (inode_cells ia sz bl) \<Longrightarrow> k < 15 \<Longrightarrow> i_block m ia (of_nat k) = Some (bl k)"
  by (auto simp: cells_hold_def inode_cells_def i_block_def)

lemma le_at_holds:
  assumes "holds m b n f" and "4 * i + 4 \<le> n"
  shows "le_at m b (of_nat i) = Some (le32 f (4 * i))"
  using read_long_holds [OF assms] by (simp add: le_at_def be32_def le32_def bswap32_cat)

lemma v_apb_word:
  assumes "vol_layout E K V"
  shows "(of_nat (v_bs V) :: u32) div 4 = of_nat (v_apb V)" "256 \<le> v_apb V" "4 * v_apb V = v_bs V" "v_apb V < 2 ^ 29"
proof -
  note bs = v_bs_bounds [OF assms]
  show a: "4 * v_apb V = v_bs V" by (simp add: v_apb_def v_bs_def)
  show "256 \<le> v_apb V" "v_apb V < 2 ^ 29" using bs a by simp_all
  then have "unat (of_nat (v_bs V) div 4 :: u32) = unat (of_nat (v_apb V) :: u32)"
    using bs(3) by (simp add: unat_div v_apb_def unat_of_nat_small)
  then show "(of_nat (v_bs V) :: u32) div 4 = of_nat (v_apb V)" by (rule word_unat_eq_iff [THEN iffD2])
qed

lemma v_apb_square:
  assumes "v_log V < 8"
  shows "v_apb V * v_apb V \<le> 2 ^ 30"
proof -
  have "(2 :: nat) ^ v_log V \<le> 2 ^ 7" using assms by (intro power_increasing) simp_all
  then have "v_apb V \<le> 2 ^ 15" by (simp add: v_apb_def v_bs_def)
  then have "v_apb V * v_apb V \<le> 2 ^ 15 * 2 ^ 15" by (intro mult_le_mono)
  then show ?thesis by simp
qed

lemma vol_ok_fields:
  assumes "vol_ok E K V s"
  shows "vol_super (mem s) (v_at V) = Some (v_super V)" "vol_buffer (mem s) (v_at V) = Some (v_buffer V)"
    "EXT2_BLOCK_SIZE (mem s) (v_super V) = Some (of_nat (v_bs V))"
    "EXT2_ADDR_PER_BLOCK (mem s) (v_super V) = Some (of_nat (v_apb V))"
proof -
  from assms have lay: "vol_layout E K V" "cells_hold (mem s) (vol_cells E K V)" by (simp_all add: vol_ok_def)
  show "vol_super (mem s) (v_at V) = Some (v_super V)" "vol_buffer (mem s) (v_at V) = Some (v_buffer V)"
    "EXT2_BLOCK_SIZE (mem s) (v_super V) = Some (of_nat (v_bs V))"
    "EXT2_ADDR_PER_BLOCK (mem s) (v_super V) = Some (of_nat (v_apb V))"
    using vol_fields [OF lay] v_apb_word [OF lay(1)] by (simp_all add: EXT2_ADDR_PER_BLOCK_def)
qed

lemma spares_listed:
  assumes "spares K S s s'"
  shows "block_of K V (world s') = block_of K V (world s)" "listed K V (world s') = listed K V (world s)"
    "bmap K V (world s') = bmap K V (world s)" "bmap_ok K V (world s') = bmap_ok K V (world s)"
proof -
  show b: "block_of K V (world s') = block_of K V (world s)"
    using assms by (simp add: spares_def block_of_def fun_eq_iff)
  show l: "listed K V (world s') = listed K V (world s)" by (simp add: listed_def b fun_eq_iff)
  show m: "bmap K V (world s') = bmap K V (world s)" by (simp add: bmap_def l fun_eq_iff)
  show "bmap_ok K V (world s') = bmap_ok K V (world s)" by (simp add: bmap_ok_def l m fun_eq_iff)
qed

text \<open>A block that lists blocks, and one of its entries.\<close>

lemma listed_step:
  assumes "disk_device (pkg E) K" and "vol_ok E K V s" and "on_disk K V b" and "i < v_apb V"
  shows "\<exists>s'. ext2_read_block E (v_at V) b s = Some s' \<and> vol_ok E K V s' \<and> spares K (vol_scratch K V) s s' \<and>
           le_at (mem s') (v_buffer V) (of_nat i) = Some (listed K V (world s) b i)"
proof -
  from read_block_step [OF assms(1-3)] obtain s' where
    s': "ext2_read_block E (v_at V) b s = Some s'" "vol_ok E K V s'" "spares K (vol_scratch K V) s s'"
      "holds (mem s') (v_buffer V) (v_bs V) (block_of K V (world s) b)" by blast
  have "4 * v_apb V = v_bs V" using assms(2) v_apb_word by (auto simp: vol_ok_def)
  then have "4 * i + 4 \<le> v_bs V" using assms(4) by simp
  from le_at_holds [OF s'(4) this] s' show ?thesis by (auto simp: listed_def)
qed

lemma u32_less: "a < 2 ^ 32 \<Longrightarrow> b < 2 ^ 32 \<Longrightarrow> (of_nat a :: u32) < of_nat b \<longleftrightarrow> a < b"
  by (simp add: word_less_nat_alt unat_of_nat_small)

lemma udiv_of_nat:
  assumes "a < 2 ^ 32" and "b < 2 ^ 32" and "0 < b"
  shows "udiv (of_nat a) (of_nat b) = Some (of_nat (a div b), of_nat (a mod b))"
proof -
  have u: "unat (of_nat a :: u32) = a" "unat (of_nat b :: u32) = b" using assms by (simp_all add: unat_of_nat_small)
  have d: "a div b < 2 ^ 32" "a mod b < 2 ^ 32" using assms div_le_dividend [of a b] mod_less_eq_dividend [of a b] by linarith+
  have "(of_nat b :: u32) \<noteq> 0" using u(2) assms(3) by (metis less_numeral_extra(3) unat_0)
  moreover have "(of_nat a :: u32) div of_nat b = of_nat (a div b)" "(of_nat a :: u32) mod of_nat b = of_nat (a mod b)"
    using u d by (simp_all add: word_unat_eq_iff unat_div unat_mod unat_of_nat_small)
  ultimately show ?thesis by (simp add: udiv_def)
qed

lemma get_block_addr_step:
  assumes dev: "disk_device (pkg E) K" and ok: "vol_ok E K V s"
    and ino: "cells_hold (mem s) (inode_cells ia sz bl)" and sep: "cells_clear (vol_scratch K V) (inode_cells ia sz bl)"
    and n: "bmap_ok K V (world s) bl n"
  shows "\<exists>s'. ext2_get_block_addr E (v_at V) ia (of_nat n) s = Some (bmap K V (world s) bl n, s') \<and> vol_ok E K V s' \<and>
           spares K (vol_scratch K V) s s'"
proof -
  from ok have lay: "vol_layout E K V" by (simp add: vol_ok_def)
  note apb = v_apb_word [OF lay] and f = vol_ok_fields [OF ok]
  have sq: "v_apb V * v_apb V \<le> 2 ^ 30" using n by (intro v_apb_square) (simp add: bmap_ok_def)
  have ib: "i_block (mem s) ia 12 = Some (bl 12)" "i_block (mem s) ia 13 = Some (bl 13)"
    using i_block_cell [OF ino, of 12] i_block_cell [OF ino, of 13] by simp_all
  have n32: "n < 2 ^ 32" and nlt: "n < 12 + v_apb V + v_apb V * v_apb V" using n sq apb(4) by (auto simp: bmap_ok_def)
  have lt12: "(of_nat n :: u32) < 12 \<longleftrightarrow> n < 12" using u32_less [OF n32, of 12] by simp
  consider "n < 12" | "12 \<le> n" "n - 12 < v_apb V" | "12 \<le> n" "\<not> n - 12 < v_apb V" by linarith
  then show ?thesis
  proof cases
    case 1
    then show ?thesis
      using ok i_block_cell [OF ino, of n] lt12 by (intro exI [of _ s]) (simp add: ext2_get_block_addr_def bmap_def)
  next
    case 2
    define r where "r = n - 12"
    have r: "n = 12 + r" "r < v_apb V" using 2 by (simp_all add: r_def)
    have w: "of_nat n - (12 :: u32) = of_nat r" "(of_nat r :: u32) < of_nat (v_apb V)"
      using r apb(4) u32_less [of r "v_apb V"] by simp_all
    have "on_disk K V (bl 12)" using n r by (simp add: bmap_ok_def)
    from listed_step [OF dev ok this r(2)] obtain s' where
      s': "ext2_read_block E (v_at V) (bl 12) s = Some s'" "vol_ok E K V s'" "spares K (vol_scratch K V) s s'"
        "le_at (mem s') (v_buffer V) (of_nat r) = Some (listed K V (world s) (bl 12) r)" by blast
    have "bmap K V (world s) bl n = listed K V (world s) (bl 12) r" using r by (simp add: bmap_def)
    then have "ext2_get_block_addr E (v_at V) ia (of_nat n) s = Some (bmap K V (world s) bl n, s')"
      using 2(1) lt12 vol_ok_fields [OF s'(2)] by (simp add: ext2_get_block_addr_def Let_def f ib w s')
    with s' show ?thesis by blast
  next
    case 3
    define r where "r = n - 12 - v_apb V"
    have r: "n = 12 + v_apb V + r" "r < v_apb V * v_apb V" "r < 2 ^ 32" using 3 nlt sq by (auto simp: r_def)
    then have ij: "r div v_apb V < v_apb V" "r mod v_apb V < v_apb V" using apb(2) by (simp_all add: less_mult_imp_div_less)
    define q where "q = (of_nat (v_apb V + r) :: u32)"
    have w: "of_nat n - (12 :: u32) = q" "\<not> q < of_nat (v_apb V)"
      "q - of_nat (v_apb V) = (of_nat r :: u32)" "(of_nat r :: u32) < of_nat (v_apb V) * of_nat (v_apb V)"
      unfolding q_def
      using r sq apb(4) u32_less [of "v_apb V + r" "v_apb V"] u32_less [of r "v_apb V * v_apb V"] by simp_all
    have d: "udiv (of_nat r) (of_nat (v_apb V)) = Some (of_nat (r div v_apb V), of_nat (r mod v_apb V))"
      by (rule udiv_of_nat) (use r apb in simp_all)
    have od: "on_disk K V (bl 13)" "on_disk K V (listed K V (world s) (bl 13) (r div v_apb V))"
      using n r(1) by (simp_all add: bmap_ok_def)
    from listed_step [OF dev ok od(1) ij(1)] obtain s1 where
      s1: "ext2_read_block E (v_at V) (bl 13) s = Some s1" "vol_ok E K V s1" "spares K (vol_scratch K V) s s1"
        "le_at (mem s1) (v_buffer V) (of_nat (r div v_apb V)) = Some (listed K V (world s) (bl 13) (r div v_apb V))" by blast
    from listed_step [OF dev s1(2) od(2) ij(2)] obtain s2 where
      s2: "ext2_read_block E (v_at V) (listed K V (world s) (bl 13) (r div v_apb V)) s1 = Some s2" "vol_ok E K V s2"
        "spares K (vol_scratch K V) s1 s2"
        "le_at (mem s2) (v_buffer V) (of_nat (r mod v_apb V)) =
           Some (listed K V (world s) (listed K V (world s) (bl 13) (r div v_apb V)) (r mod v_apb V))"
      using spares_listed [OF s1(3)] by auto
    have "bmap K V (world s) bl n = listed K V (world s) (listed K V (world s) (bl 13) (r div v_apb V)) (r mod v_apb V)"
      using r(1) by (simp add: bmap_def Let_def)
    then have "ext2_get_block_addr E (v_at V) ia (of_nat n) s = Some (bmap K V (world s) bl n, s2)"
      using 3(1) lt12 vol_ok_fields [OF s1(2)] vol_ok_fields [OF s2(2)]
      by (simp add: ext2_get_block_addr_def Let_def f ib w d s1 s2)
    then show ?thesis using s2 spares_trans [OF s1(3) s2(3)] by blast
  qed
qed

lemma load_block_step:
  assumes "disk_device (pkg E) K" and "vol_ok E K V s"
    and "cells_hold (mem s) (inode_cells ia sz bl)" and "cells_clear (vol_scratch K V) (inode_cells ia sz bl)"
    and n: "bmap_ok K V (world s) bl n"
  shows "\<exists>s'. load_block E (v_at V) ia (of_nat n) s = Some (v_buffer V, s') \<and> vol_ok E K V s' \<and> spares K (vol_scratch K V) s s' \<and>
           holds (mem s') (v_buffer V) (v_bs V) (block_of K V (world s) (bmap K V (world s) bl n))"
proof -
  from get_block_addr_step [OF assms] obtain s1 where
    s1: "ext2_get_block_addr E (v_at V) ia (of_nat n) s = Some (bmap K V (world s) bl n, s1)" "vol_ok E K V s1"
      "spares K (vol_scratch K V) s s1" by blast
  have "on_disk K V (bmap K V (world s) bl n)" using n by (simp add: bmap_ok_def)
  from read_block_step [OF assms(1) s1(2) this] obtain s2 where
    s2: "ext2_read_block E (v_at V) (bmap K V (world s) bl n) s1 = Some s2" "vol_ok E K V s2" "spares K (vol_scratch K V) s1 s2"
      "holds (mem s2) (v_buffer V) (v_bs V) (block_of K V (world s) (bmap K V (world s) bl n))"
    using spares_listed(1) [OF s1(3), of V] by auto
  then have "load_block E (v_at V) ia (of_nat n) s = Some (v_buffer V, s2)"
    using s1(1) vol_ok_fields [OF s2(2)] by (simp add: load_block_def)
  with s2 spares_trans [OF s1(3) s2(3)] show ?thesis by blast
qed

subsection \<open>The bytes of a file\<close>

lemma region_split:
  assumes "n + k \<le> 2 ^ 32"
  shows "in_region a (n + k) x \<longleftrightarrow> in_region a n x \<or> in_region (a + of_nat n) k x"
proof -
  have "(\<exists>i < n + k. x = a + of_nat i) \<longleftrightarrow> (\<exists>i < n. x = a + of_nat i) \<or> (\<exists>i < k. x = a + of_nat n + of_nat i)" (is "?l \<longleftrightarrow> ?r")
  proof
    assume ?l
    then obtain i where i: "i < n + k" "x = a + of_nat i" by blast
    show ?r
    proof (cases "i < n")
      case False
      then have "i - n < k" "x = a + of_nat n + of_nat (i - n)" using i by (simp_all add: of_nat_diff)
      then show ?thesis by blast
    qed (use i in blast)
  next
    assume ?r
    moreover have "n + i < n + k \<and> x = a + of_nat (n + i)" if "i < k" "x = a + of_nat n + of_nat i" for i
      using that by (simp add: add.assoc)
    ultimately show ?l using trans_less_add1 by blast
  qed
  then show ?thesis using assms by (simp add: in_region_offset)
qed

lemma region_disjoint:
  assumes "n + k \<le> 2 ^ 32" and "in_region (a + of_nat n) k x"
  shows "\<not> in_region a n x"
proof -
  from assms obtain i where i: "i < k" "x = a + of_nat (n + i)" by (auto simp: in_region_offset add.assoc)
  then have "unat (x - a) = n + i" using assms(1) by (simp add: unat_of_nat_small del: of_nat_add)
  then show ?thesis by (simp add: in_region_def)
qed

lemma holds_append:
  assumes "holds m a n f" and "holds m (a + of_nat n) k (\<lambda>i. f (n + i))"
  shows "holds m a (n + k) f"
  unfolding holds_def
proof (intro allI impI)
  fix i
  assume i: "i < n + k"
  show "m (a + of_nat i) = Some (f i)"
  proof (cases "i < n")
    case False
    with i have "m (a + of_nat n + of_nat (i - n)) = Some (f (n + (i - n)))" by (intro holdsD [OF assms(2)]) simp
    with False show ?thesis by (simp add: of_nat_diff)
  qed (use holdsD [OF assms(1)] in simp)
qed

text \<open>A destination for the caller's bytes: clear of the volume, of its cells and of the inode.\<close>

definition dest_ok :: "'w io_env \<Rightarrow> 'w disk \<Rightarrow> vol \<Rightarrow> (ucell \<times> u32) list \<Rightarrow> memory \<Rightarrow> ucell \<Rightarrow> nat \<Rightarrow> bool" where
  "dest_ok E K V cs m a n \<longleftrightarrow>
     n < 2 ^ 32 \<and> mapped m a n \<and> cells_clear (in_region a n) (vol_cells E K V @ cs) \<and>
     (\<forall>x. in_region a n x \<longrightarrow> \<not> vol_scratch K V x)"

definition file_byte :: "'w disk \<Rightarrow> vol \<Rightarrow> 'w \<Rightarrow> (nat \<Rightarrow> u32) \<Rightarrow> nat \<Rightarrow> u8" where
  "file_byte K V w bl i = block_of K V w (bmap K V w bl (i div v_bs V)) (i mod v_bs V)"

lemma dest_ok_sub:
  assumes "dest_ok E K V cs m a n" and "j + k \<le> n"
  shows "dest_ok E K V cs m (a + of_nat j) k"
proof -
  have sub: "in_region a n x" if "in_region (a + of_nat j) k x" for x
    using in_region_sub [of a j k x n] that assms by (auto simp: dest_ok_def)
  with assms show ?thesis
    using mapped_sub [of m a n j k] cells_clear_mono [of "in_region a n" _ "in_region (a + of_nat j) k"] by (auto simp: dest_ok_def)
qed

lemma dest_ok_dom: "same_dom m m' \<Longrightarrow> dest_ok E K V cs m a n \<Longrightarrow> dest_ok E K V cs m' a n"
  by (simp add: dest_ok_def same_dom_mapped [of m m'])

lemma vol_ok_store:
  assumes dev: "disk_device (pkg E) K" and ok: "vol_ok E K V s" and d: "dest_ok E K V cs (mem s) a n"
    and m: "same_dom (mem s) m'" "\<And>x. \<not> in_region a n x \<Longrightarrow> m' x = mem s x"
  shows "vol_ok E K V (s\<lparr>mem := m'\<rparr>)" and "spares K (in_region a n) s (s\<lparr>mem := m'\<rparr>)"
proof -
  show k: "spares K (in_region a n) s (s\<lparr>mem := m'\<rparr>)" using m by (simp add: spares_def)
  from ok have lay: "vol_layout E K V" and cells: "cells_hold (mem s) (vol_cells E K V)" and ca: "cache_ok K V (mem s) (world s)"
    by (simp_all add: vol_ok_def)
  have c': "cells_hold m' (vol_cells E K V)"
    using spares_cells [OF k cells] d by (simp add: dest_ok_def cells_clear_append)
  have "vol_current m' (v_at V) = vol_current (mem s) (v_at V)"
    unfolding vol_current_def
    by (rule long_acc.rd_local) (use m(2) d in \<open>auto simp: dest_ok_def vol_scratch_def\<close>)
  moreover have "holds m' (v_buffer V) (v_bs V) f" if "holds (mem s) (v_buffer V) (v_bs V) f" for f
    by (rule holds_frame [OF that]) (use m(2) d v_bs_bounds [OF lay] in \<open>auto simp: dest_ok_def vol_scratch_def\<close>)
  ultimately have "cache_ok K V m' (world s)" using ca by (auto simp: cache_ok_def)
  moreover have "d_needs K m' (world s)" using ok dev m(1) by (auto simp: vol_ok_def disk_device_def)
  ultimately show "vol_ok E K V (s\<lparr>mem := m'\<rparr>)"
    using ok c' same_dom_mapped [OF m(1)] by (simp add: vol_ok_def)
qed

lemma copied_dom:
  assumes "copied m d s n m'" and "mapped m d n" and "mapped m s n" and "n \<le> 2 ^ 32"
  shows "same_dom m m'"
  unfolding same_dom_def
proof
  fix x
  show "(m' x = None) = (m x = None)"
  proof (cases "in_region d n x")
    case True
    then have "in_region s n (s + (x - d))" by (simp add: in_region_def)
    with True have "m (s + (x - d)) \<noteq> None" "m x \<noteq> None" using assms(2-4) by (simp_all add: mapped_iff)
    then show ?thesis using True assms(1) by (auto simp: copied_def)
  qed (use assms in \<open>simp add: copied_def\<close>)
qed

lemma copy_step:
  assumes dev: "disk_device (pkg E) K" and ok: "vol_ok E K V s" and d: "dest_ok E K V cs (mem s) a l"
    and h: "holds (mem s) (v_buffer V) (v_bs V) f" and l: "sh + l \<le> v_bs V"
  shows "\<exists>m'. memcpy (mem s) a (v_buffer V + of_nat sh) (of_nat l) = Some m' \<and> vol_ok E K V (s\<lparr>mem := m'\<rparr>) \<and>
           spares K (in_region a l) s (s\<lparr>mem := m'\<rparr>) \<and> holds m' a l (\<lambda>i. f (sh + i))"
proof -
  from ok have lay: "vol_layout E K V" by (simp add: vol_ok_def)
  note bs = v_bs_bounds [OF lay]
  have h': "holds (mem s) (v_buffer V + of_nat sh) l (\<lambda>i. f (sh + i))" by (rule holds_sub [OF h l])
  have "in_region (v_buffer V) (v_bs V) x" if "in_region (v_buffer V + of_nat sh) l x" for x
    using in_region_sub [OF that l] bs by simp
  then have "apart a l (v_buffer V + of_nat sh) l" using d by (auto simp: apart_def dest_ok_def vol_scratch_def)
  with memcpy_apart [of l "mem s" a "v_buffer V + of_nat sh"] d holds_mapped [OF h'] obtain m' where
    m': "memcpy (mem s) a (v_buffer V + of_nat sh) (of_nat l) = Some m'" "copied (mem s) a (v_buffer V + of_nat sh) l m'"
    by (auto simp: dest_ok_def)
  have dom: "same_dom (mem s) m'"
    by (rule copied_dom [OF m'(2)]) (use d holds_mapped [OF h'] in \<open>simp_all add: dest_ok_def\<close>)
  have fr: "m' x = mem s x" if "\<not> in_region a l x" for x using m'(2) that by (simp add: copied_def)
  have "holds m' a l (\<lambda>i. f (sh + i))" by (rule holds_copied [OF m'(2) h']) (use d in \<open>simp add: dest_ok_def\<close>)
  with vol_ok_store [OF dev ok d dom fr] m'(1) show ?thesis by blast
qed

text \<open>What a read leaves: the bytes at their place, nothing but them and the volume's scratch changed.\<close>

definition has_read :: "'w io_env \<Rightarrow> 'w disk \<Rightarrow> vol \<Rightarrow> 'w fstate \<Rightarrow> ucell \<Rightarrow> nat \<Rightarrow> (nat \<Rightarrow> u8) \<Rightarrow> 'w fstate \<Rightarrow> bool" where
  "has_read E K V s a n f s' \<longleftrightarrow>
     vol_ok E K V s' \<and> spares K (\<lambda>x. vol_scratch K V x \<or> in_region a n x) s s' \<and> holds (mem s') a n f"

lemma has_read_append:
  assumes "has_read E K V s a n f s1" and "has_read E K V s1 (a + of_nat n) k (\<lambda>i. f (n + i)) s2"
    and d: "dest_ok E K V cs (mem s) a (n + k)"
  shows "has_read E K V s a (n + k) f s2"
proof -
  have le: "n + k \<le> 2 ^ 32" and sep: "\<forall>x. in_region a (n + k) x \<longrightarrow> \<not> vol_scratch K V x" using d by (simp_all add: dest_ok_def)
  from assms(1) have k1: "spares K (\<lambda>x. vol_scratch K V x \<or> in_region a n x) s s1" and h1: "holds (mem s1) a n f"
    by (simp_all add: has_read_def)
  from assms(2) have ok: "vol_ok E K V s2" and k2: "spares K (\<lambda>x. vol_scratch K V x \<or> in_region (a + of_nat n) k x) s1 s2"
    and h2: "holds (mem s2) (a + of_nat n) k (\<lambda>i. f (n + i))" by (simp_all add: has_read_def)
  have "holds (mem s2) a n f"
    by (rule spares_holds [OF k2 h1]) (use le sep region_split [OF le] region_disjoint [OF le] in auto)
  then have "holds (mem s2) a (n + k) f" by (rule holds_append [OF _ h2])
  moreover have "spares K (\<lambda>x. vol_scratch K V x \<or> in_region a (n + k) x) s s2"
    by (rule spares_trans; rule spares_mono, (rule k1 k2), auto simp: region_split [OF le])
  ultimately show ?thesis using ok by (simp add: has_read_def)
qed

lemma load_copy_step:
  assumes dev: "disk_device (pkg E) K" and ok: "vol_ok E K V s"
    and ino: "cells_hold (mem s) (inode_cells ia sz bl)" and sep: "cells_clear (vol_scratch K V) (inode_cells ia sz bl)"
    and n: "bmap_ok K V (world s) bl n" and d: "dest_ok E K V (inode_cells ia sz bl) (mem s) a l" and l: "sh + l \<le> v_bs V"
  shows "\<exists>s1 m'. load_block E (v_at V) ia (of_nat n) s = Some (v_buffer V, s1) \<and>
           memcpy (mem s1) a (v_buffer V + of_nat sh) (of_nat l) = Some m' \<and>
           has_read E K V s a l (\<lambda>i. block_of K V (world s) (bmap K V (world s) bl n) (sh + i)) (s1\<lparr>mem := m'\<rparr>)"
proof -
  from load_block_step [OF dev ok ino sep n] obtain s1 where
    s1: "load_block E (v_at V) ia (of_nat n) s = Some (v_buffer V, s1)" "vol_ok E K V s1" "spares K (vol_scratch K V) s s1"
      "holds (mem s1) (v_buffer V) (v_bs V) (block_of K V (world s) (bmap K V (world s) bl n))" by blast
  have d1: "dest_ok E K V (inode_cells ia sz bl) (mem s1) a l" using dest_ok_dom d s1(3) by (auto simp: spares_def)
  from copy_step [OF dev s1(2) d1 s1(4) l] obtain m' where
    m': "memcpy (mem s1) a (v_buffer V + of_nat sh) (of_nat l) = Some m'" "vol_ok E K V (s1\<lparr>mem := m'\<rparr>)"
      "spares K (in_region a l) s1 (s1\<lparr>mem := m'\<rparr>)"
      "holds m' a l (\<lambda>i. block_of K V (world s) (bmap K V (world s) bl n) (sh + i))" by blast
  have "spares K (\<lambda>x. vol_scratch K V x \<or> in_region a l x) s (s1\<lparr>mem := m'\<rparr>)"
    by (rule spares_or [OF s1(3) m'(3)])
  then show ?thesis using s1(1) m' by (auto simp: has_read_def)
qed

text \<open>A file whose inode is in memory at \<open>ia\<close> and whose blocks \<open>lo .. hi-1\<close> are on the device.\<close>

definition file_ok :: "'w io_env \<Rightarrow> 'w disk \<Rightarrow> vol \<Rightarrow> ucell \<Rightarrow> u32 \<Rightarrow> (nat \<Rightarrow> u32) \<Rightarrow> nat \<Rightarrow> nat \<Rightarrow> 'w fstate \<Rightarrow> bool" where
  "file_ok E K V ia sz bl lo hi s \<longleftrightarrow>
     vol_ok E K V s \<and> cells_hold (mem s) (inode_cells ia sz bl) \<and> cells_clear (vol_scratch K V) (inode_cells ia sz bl) \<and>
     (\<forall>n. lo \<le> n \<and> n < hi \<longrightarrow> bmap_ok K V (world s) bl n)"

lemma has_read_file:
  assumes "has_read E K V s a n f s'" and "file_ok E K V ia sz bl lo hi s" and "dest_ok E K V (inode_cells ia sz bl) (mem s) a n"
  shows "file_ok E K V ia sz bl lo hi s'" "file_byte K V (world s') bl = file_byte K V (world s) bl" "same_dom (mem s) (mem s')"
proof -
  from assms(1) have k: "spares K (\<lambda>x. vol_scratch K V x \<or> in_region a n x) s s'" and ok: "vol_ok E K V s'" by (simp_all add: has_read_def)
  have "cells_clear (\<lambda>x. vol_scratch K V x \<or> in_region a n x) (inode_cells ia sz bl)"
    using assms(2,3) by (intro cells_clear_or) (simp_all add: file_ok_def dest_ok_def cells_clear_append)
  from spares_cells [OF k _ this] assms(2) have "cells_hold (mem s') (inode_cells ia sz bl)" by (simp add: file_ok_def)
  then show "file_ok E K V ia sz bl lo hi s'" using assms(2) ok spares_listed [OF k] by (simp add: file_ok_def)
  show "file_byte K V (world s') bl = file_byte K V (world s) bl" by (simp add: file_byte_def spares_listed [OF k] fun_eq_iff)
  show "same_dom (mem s) (mem s')" using k by (simp add: spares_def)
qed

lemma data_loop_step:
  assumes "disk_device (pkg E) K" and "file_ok E K V ia sz bl lo hi s"
    and "dest_ok E K V (inode_cells ia sz bl) (mem s) a l" and "lo * v_bs V + l \<le> hi * v_bs V"
  shows "\<exists>s'. data_loop E (v_at V) ia (of_nat (v_bs V)) (of_nat lo) a (of_nat l) r s = Some (r + of_nat l, s') \<and>
           has_read E K V s a l (\<lambda>i. file_byte K V (world s) bl (lo * v_bs V + i)) s'"
  using assms
proof (induction l arbitrary: lo a r s rule: less_induct)
  case (less l)
  note dev = less.prems(1) and fl = less.prems(2) and d = less.prems(3) and hi = less.prems(4)
  from fl have ok: "vol_ok E K V s" and ino: "cells_hold (mem s) (inode_cells ia sz bl)"
    and sep: "cells_clear (vol_scratch K V) (inode_cells ia sz bl)" by (simp_all add: file_ok_def)
  from ok have lay: "vol_layout E K V" by (simp add: vol_ok_def)
  note bs = v_bs_bounds [OF lay]
  have l32: "l < 2 ^ 32" using d by (simp add: dest_ok_def)
  then have u: "unat (of_nat l :: u32) = l" by (simp add: unat_of_nat_small)
  have fb: "file_byte K V (world s) bl (lo * v_bs V + i) = block_of K V (world s) (bmap K V (world s) bl lo) i" if "i < v_bs V" for i
    using that by (simp add: file_byte_def)
  show ?case
  proof (cases "l = 0")
    case True
    then show ?thesis
      using ok by (subst data_loop.simps) (simp add: has_read_def holds_def)
  next
    case False
    then have l0: "(of_nat l :: u32) \<noteq> 0" using u by (metis unat_0)
    have "lo * v_bs V < hi * v_bs V" using hi False by (meson less_add_same_cancel1 not_gr_zero order_less_le_trans)
    then have lohi: "lo < hi" by simp
    then have n: "bmap_ok K V (world s) bl lo" using fl by (simp add: file_ok_def)
    show ?thesis
    proof (cases "l < v_bs V")
      case True
      from load_copy_step [OF dev ok ino sep n d, of 0] True obtain s1 m' where
        s1: "load_block E (v_at V) ia (of_nat lo) s = Some (v_buffer V, s1)" "memcpy (mem s1) a (v_buffer V) (of_nat l) = Some m'"
          "has_read E K V s a l (block_of K V (world s) (bmap K V (world s) bl lo)) (s1\<lparr>mem := m'\<rparr>)" by auto
      have "(of_nat l :: u32) < of_nat (v_bs V)" using True u32_less [OF l32, of "v_bs V"] bs by simp
      then have "data_loop E (v_at V) ia (of_nat (v_bs V)) (of_nat lo) a (of_nat l) r s = Some (r + of_nat l, s1\<lparr>mem := m'\<rparr>)"
        using l0 by (subst data_loop.simps) (simp add: s1)
      moreover have "has_read E K V s a l (\<lambda>i. file_byte K V (world s) bl (lo * v_bs V + i)) (s1\<lparr>mem := m'\<rparr>)"
        using s1(3) True fb by (simp add: has_read_def holds_def)
      ultimately show ?thesis by blast
    next
      case False
      define k where "k = l - v_bs V"
      have k: "l = v_bs V + k" "k < l" using False bs \<open>l \<noteq> 0\<close> by (simp_all add: k_def)
      have d1: "dest_ok E K V (inode_cells ia sz bl) (mem s) a (v_bs V)"
        using dest_ok_sub [OF d, of 0 "v_bs V"] k by simp
      from load_copy_step [OF dev ok ino sep n d1, of 0] obtain s1 m' where
        s1: "load_block E (v_at V) ia (of_nat lo) s = Some (v_buffer V, s1)" "memcpy (mem s1) a (v_buffer V) (of_nat (v_bs V)) = Some m'"
          "has_read E K V s a (v_bs V) (block_of K V (world s) (bmap K V (world s) bl lo)) (s1\<lparr>mem := m'\<rparr>)" by auto
      have r1: "has_read E K V s a (v_bs V) (\<lambda>i. file_byte K V (world s) bl (lo * v_bs V + i)) (s1\<lparr>mem := m'\<rparr>)"
        using s1(3) fb by (simp add: has_read_def holds_def)
      note f1 = has_read_file [OF r1 fl d1]
      have file1: "file_ok E K V ia sz bl (Suc lo) hi (s1\<lparr>mem := m'\<rparr>)" using f1(1) by (simp add: file_ok_def)
      have d2: "dest_ok E K V (inode_cells ia sz bl) (mem (s1\<lparr>mem := m'\<rparr>)) (a + of_nat (v_bs V)) k"
        by (rule dest_ok_dom [OF f1(3)]) (rule dest_ok_sub [OF d], use k in simp)
      have "Suc lo * v_bs V + k \<le> hi * v_bs V" using hi k by simp
      from less.IH [OF k(2) dev file1 d2 this, of "r + of_nat (v_bs V)"] obtain s2 where
        s2: "data_loop E (v_at V) ia (of_nat (v_bs V)) (of_nat (Suc lo)) (a + of_nat (v_bs V)) (of_nat k) (r + of_nat (v_bs V)) (s1\<lparr>mem := m'\<rparr>)
               = Some (r + of_nat (v_bs V) + of_nat k, s2)"
          "has_read E K V (s1\<lparr>mem := m'\<rparr>) (a + of_nat (v_bs V)) k (\<lambda>i. file_byte K V (world s) bl (Suc lo * v_bs V + i)) s2"
        unfolding f1(2) by blast
      have "\<not> (of_nat l :: u32) < of_nat (v_bs V)" using False u32_less [OF l32, of "v_bs V"] bs by simp
      then have "data_loop E (v_at V) ia (of_nat (v_bs V)) (of_nat lo) a (of_nat l) r s = Some (r + of_nat l, s2)"
        using l0 s2(1) by (subst data_loop.simps) (simp add: s1 k(1) add_ac)
      moreover have "(\<lambda>i. file_byte K V (world s) bl (Suc lo * v_bs V + i)) = (\<lambda>i. file_byte K V (world s) bl (lo * v_bs V + (v_bs V + i)))"
        by (simp add: add_ac)
      then have "has_read E K V s a l (\<lambda>i. file_byte K V (world s) bl (lo * v_bs V + i)) s2"
        unfolding k(1) using s2(2) by (intro has_read_append [OF r1 _ d [unfolded k(1)]]) simp
      ultimately show ?thesis by blast
    qed
  qed
qed

definition file_blocks :: "vol \<Rightarrow> u32 \<Rightarrow> nat" where
  "file_blocks V sz = (unat sz + v_bs V - 1) div v_bs V"

lemma sdiv_nat: "int a sdiv int b = int (a div b)"
  by (cases "a = 0 \<or> b = 0") (auto simp: signed_divide_int_def sgn_if zdiv_int)

lemma smod_nat: "int a smod int b = int (a mod b)"
  by (cases "a = 0") (auto simp: signed_modulo_int_def sgn_if zmod_int)

lemma file_byte_block:
  assumes "i < v_bs V - o' mod v_bs V" and "0 < v_bs V"
  shows "file_byte K V w bl (o' + i) = block_of K V w (bmap K V w bl (o' div v_bs V)) (o' mod v_bs V + i)"
proof -
  have s: "o' mod v_bs V + i < v_bs V" using assms by simp
  have "o' + i = o' div v_bs V * v_bs V + (o' mod v_bs V + i)" by simp
  then have "(o' + i) div v_bs V = o' div v_bs V" "(o' + i) mod v_bs V = o' mod v_bs V + i"
    using s by (metis add.right_neutral div_less div_mult_self3 less_nat_zero_code not_gr_zero, metis mod_less mod_mult_self3)
  then show ?thesis by (simp add: file_byte_def)
qed

lemma read_data_past_end:
  assumes "vol_ok E K V s" and "cells_hold (mem s) (inode_cells ia sz bl)" and "sz \<le> word_of_int offset"
  shows "ext2_read_data E (v_at V) ia offset a len s = Some (- 1, s)"
proof -
  have "i_size (mem s) ia = Some sz" using assms(2) by (simp add: i_size_def cells_hold_def inode_cells_def)
  then show ?thesis using assms vol_ok_fields [OF assms(1)] by (simp add: ext2_read_data_def Let_def)
qed

text \<open>The read in terms of natural numbers: \<open>n\<close> bytes from block \<open>lo\<close>, byte \<open>sh\<close> on.\<close>

lemma read_length:
  assumes "unat (sz :: u32) < 2 ^ 31" and "o' < unat sz" and "o' + len < 2 ^ 32"
  shows "\<not> sz \<le> of_nat o'"
    "(if sz \<le> of_nat o' + of_nat len then sz - of_nat o' else of_nat len) = (of_nat (min len (unat sz - o')) :: u32)"
proof -
  show "\<not> sz \<le> of_nat o'" using assms by (simp add: word_le_nat_alt unat_of_nat_small)
  have u: "unat (of_nat o' + of_nat len :: u32) = o' + len"
    using assms(3) unat_of_nat_small [of "o' + len", where ?'a = 32] by simp
  have "sz = of_nat (unat sz)" by simp
  then have s: "sz - of_nat o' = of_nat (unat sz - o')" using assms(2) by (metis less_imp_le of_nat_diff)
  have "min len (unat sz - o') = (if unat sz \<le> o' + len then unat sz - o' else len)" using assms(2) by auto
  then show "(if sz \<le> of_nat o' + of_nat len then sz - of_nat o' else of_nat len) = (of_nat (min len (unat sz - o')) :: u32)"
    by (simp add: word_le_nat_alt u s)
qed

lemma read_data_eq:
  assumes ok: "vol_ok E K V s" and ino: "cells_hold (mem s) (inode_cells ia sz bl)" and sz: "unat sz < 2 ^ 31"
    and o': "o' < unat sz" and len: "o' + len < 2 ^ 32" and n: "n = min len (unat sz - o')"
    and lo: "lo = o' div v_bs V" and sh: "sh = o' mod v_bs V" and rest: "rest = v_bs V - sh"
  shows "ext2_read_data E (v_at V) ia (int o') a (of_nat len) s =
    (if sh = 0
     then do { (r, s) \<leftarrow> data_loop E (v_at V) ia (of_nat (v_bs V)) (of_nat lo) a (of_nat n) 0 s; Some (sint r, s) }
     else do { (b, s) \<leftarrow> load_block E (v_at V) ia (of_nat lo) s;
               if n < rest then do { m \<leftarrow> memcpy (mem s) a (b + of_nat sh) (of_nat n); Some (int n, s\<lparr>mem := m\<rparr>) }
               else do { m \<leftarrow> memcpy (mem s) a (b + of_nat sh) (of_nat rest);
                         (r, s) \<leftarrow> data_loop E (v_at V) ia (of_nat (v_bs V)) (of_nat (Suc lo)) (a + of_nat rest) (of_nat (n - rest))
                                    (of_nat rest) (s\<lparr>mem := m\<rparr>);
                         Some (sint r, s) } })"
proof -
  note bs = v_bs_bounds [of E K V] and f = vol_ok_fields [OF ok]
  from ok have lay: "vol_layout E K V" by (simp add: vol_ok_def)
  have size: "i_size (mem s) ia = Some sz" using ino by (simp add: i_size_def cells_hold_def inode_cells_def)
  have n': "n < 2 ^ 31" using n sz by simp
  have sd: "word_of_int (int o' sdiv sint (of_nat (v_bs V) :: u32)) = (of_nat lo :: u32)" "int o' smod sint (of_nat (v_bs V) :: u32) = int sh"
    unfolding bs(4) [OF lay] lo sh by (simp_all add: sdiv_nat smod_nat del: of_nat_div of_nat_mod)
  have "sh < v_bs V" using sh bs(1) [OF lay] by simp
  then have r: "of_nat (v_bs V) - of_nat sh = (of_nat rest :: u32)" "rest < 2 ^ 31" using rest bs(2) [OF lay] by (simp_all add: of_nat_diff)
  have cmp: "(of_nat n :: u32) < of_nat rest \<longleftrightarrow> n < rest" using u32_less [of n rest] n' r by simp
  have sub: "of_nat n - of_nat rest = (of_nat (n - rest) :: u32)" if "\<not> n < rest" using that by (simp add: of_nat_diff)
  have suc: "(of_nat lo + 1 :: u32) = of_nat (Suc lo)" by simp
  have ret: "sint (of_nat n :: u32) = int n" using n' by (simp add: sint_of_nat)
  have z: "int sh = 0 \<longleftrightarrow> sh = 0" by simp
  note rl = read_length(1) [OF sz o' len]
  note start = ext2_read_data_def f(1) size Option.bind_lunit f(3) Let_def sd of_int_of_nat_eq read_length [OF sz o' len]
    n [symmetric] r(1) cmp ret z suc
  consider "sh = 0" | "sh \<noteq> 0" "n < rest" | "sh \<noteq> 0" "\<not> n < rest" by blast
  then show ?thesis
  proof cases
    case 1
    then show ?thesis unfolding start by (simp only: rl if_False if_True not_True_eq_False not_False_eq_True simp_thms)
  next
    case 2
    then show ?thesis unfolding start by (simp only: rl if_False if_True not_True_eq_False not_False_eq_True simp_thms)
  next
    case 3
    then show ?thesis unfolding start sub [OF 3(2)] by (simp only: rl if_False if_True not_True_eq_False not_False_eq_True simp_thms)
  qed
qed

lemma file_extent:
  assumes "vol_layout E K V"
  shows "unat sz \<le> file_blocks V sz * v_bs V"
proof -
  note bs = v_bs_bounds [OF assms]
  have "unat sz + v_bs V - 1 < (file_blocks V sz + 1) * v_bs V"
    unfolding file_blocks_def using bs dividend_less_div_times [of "v_bs V" "unat sz + v_bs V - 1"] by (simp add: algebra_simps)
  then show ?thesis using bs by simp
qed

lemma file_ok_later: "file_ok E K V ia sz bl lo hi s \<Longrightarrow> lo \<le> lo' \<Longrightarrow> file_ok E K V ia sz bl lo' hi s"
  by (simp add: file_ok_def)

text \<open>The part of a read up to the end of the first block, when it starts inside one.\<close>

lemma first_piece:
  assumes dev: "disk_device (pkg E) K" and fl: "file_ok E K V ia sz bl lo hi s" and lo: "lo = o' div v_bs V" "lo < hi"
    and sh: "sh = o' mod v_bs V" and l: "sh + l \<le> v_bs V" and d: "dest_ok E K V (inode_cells ia sz bl) (mem s) a l"
  shows "\<exists>s1 m'. load_block E (v_at V) ia (of_nat lo) s = Some (v_buffer V, s1) \<and>
           memcpy (mem s1) a (v_buffer V + of_nat sh) (of_nat l) = Some m' \<and>
           has_read E K V s a l (\<lambda>i. file_byte K V (world s) bl (o' + i)) (s1\<lparr>mem := m'\<rparr>)"
proof -
  from fl have ok: "vol_ok E K V s" and ino: "cells_hold (mem s) (inode_cells ia sz bl)"
    and sep: "cells_clear (vol_scratch K V) (inode_cells ia sz bl)" and blk: "bmap_ok K V (world s) bl lo"
    using lo(2) by (simp_all add: file_ok_def)
  have "0 < v_bs V" using v_bs_bounds [of E K V] ok by (simp add: vol_ok_def)
  then have fb: "file_byte K V (world s) bl (o' + i) = block_of K V (world s) (bmap K V (world s) bl lo) (sh + i)" if "i < l" for i
    using file_byte_block [of i V o' K "world s" bl] that l by (simp add: lo sh)
  from load_copy_step [OF dev ok ino sep blk d l] obtain s1 m' where
    s1: "load_block E (v_at V) ia (of_nat lo) s = Some (v_buffer V, s1)" "memcpy (mem s1) a (v_buffer V + of_nat sh) (of_nat l) = Some m'"
      "has_read E K V s a l (\<lambda>i. block_of K V (world s) (bmap K V (world s) bl lo) (sh + i)) (s1\<lparr>mem := m'\<rparr>)" by blast
  then show ?thesis using fb by (auto simp: has_read_def holds_def)
qed

lemma read_data_in_file:
  assumes dev: "disk_device (pkg E) K" and fl: "file_ok E K V ia sz bl 0 (file_blocks V sz) s" and sz: "unat sz < 2 ^ 31"
    and o': "o' < unat sz" and len: "o' + len < 2 ^ 32" and n: "n = min len (unat sz - o')"
    and d: "dest_ok E K V (inode_cells ia sz bl) (mem s) a n"
  shows "\<exists>s'. ext2_read_data E (v_at V) ia (int o') a (of_nat len) s = Some (int n, s') \<and>
           has_read E K V s a n (\<lambda>i. file_byte K V (world s) bl (o' + i)) s'"
proof -
  from fl have ok: "vol_ok E K V s" and ino: "cells_hold (mem s) (inode_cells ia sz bl)" by (simp_all add: file_ok_def)
  from ok have lay: "vol_layout E K V" by (simp add: vol_ok_def)
  note bs = v_bs_bounds [OF lay]
  define lo sh rest where "lo = o' div v_bs V" and "sh = o' mod v_bs V" and "rest = v_bs V - sh"
  have os: "o' = lo * v_bs V + sh" "sh < v_bs V" "sh + rest = v_bs V" using bs by (simp_all add: lo_def sh_def rest_def)
  have n': "n < 2 ^ 31" "o' + n \<le> file_blocks V sz * v_bs V" using n sz o' file_extent [OF lay, of sz] by auto
  note eq = read_data_eq [OF ok ino sz o' len n lo_def sh_def rest_def]
  have ret: "sint (of_nat n :: u32) = int n" using n' by (simp add: sint_of_nat)
  have "lo * v_bs V < file_blocks V sz * v_bs V" using os o' file_extent [OF lay, of sz] by linarith
  then have hi: "lo < file_blocks V sz" by simp
  note first = first_piece [OF dev file_ok_later [OF fl le0] lo_def hi sh_def]
  consider "sh = 0" | "sh \<noteq> 0" "n < rest" | "sh \<noteq> 0" "\<not> n < rest" by blast
  then show ?thesis
  proof cases
    case 1
    have "lo * v_bs V + n \<le> file_blocks V sz * v_bs V" using os 1 n' by simp
    then obtain s' where
      "data_loop E (v_at V) ia (of_nat (v_bs V)) (of_nat lo) a (of_nat n) 0 s = Some (of_nat n, s')"
      "has_read E K V s a n (\<lambda>i. file_byte K V (world s) bl (lo * v_bs V + i)) s'"
      using data_loop_step [OF dev file_ok_later [OF fl le0] d, of lo 0] by auto
    then show ?thesis unfolding eq using 1 os(1) ret by simp
  next
    case 2
    from first [OF _ d] 2 os obtain s1 m' where
      "load_block E (v_at V) ia (of_nat lo) s = Some (v_buffer V, s1)" "memcpy (mem s1) a (v_buffer V + of_nat sh) (of_nat n) = Some m'"
      "has_read E K V s a n (\<lambda>i. file_byte K V (world s) bl (o' + i)) (s1\<lparr>mem := m'\<rparr>)" by auto
    then show ?thesis using 2 by (auto simp: eq)
  next
    case 3
    define k where "k = n - rest"
    have k: "n = rest + k" using 3 by (simp add: k_def)
    have d1: "dest_ok E K V (inode_cells ia sz bl) (mem s) a rest" using dest_ok_sub [OF d, of 0 rest] k by simp
    from first [OF _ d1] os obtain s1 m' where
      s1: "load_block E (v_at V) ia (of_nat lo) s = Some (v_buffer V, s1)" "memcpy (mem s1) a (v_buffer V + of_nat sh) (of_nat rest) = Some m'"
        "has_read E K V s a rest (\<lambda>i. file_byte K V (world s) bl (o' + i)) (s1\<lparr>mem := m'\<rparr>)" by auto
    note f1 = has_read_file [OF s1(3) fl d1]
    have d2: "dest_ok E K V (inode_cells ia sz bl) (mem (s1\<lparr>mem := m'\<rparr>)) (a + of_nat rest) k"
      by (rule dest_ok_dom [OF f1(3)]) (rule dest_ok_sub [OF d], use k in simp)
    have e: "Suc lo * v_bs V + i = o' + (rest + i)" for i using os by simp
    have "Suc lo * v_bs V + k \<le> file_blocks V sz * v_bs V" unfolding e using n' k by simp
    from data_loop_step [OF dev file_ok_later [OF f1(1) le0] d2 this, of "of_nat rest"] obtain s2 where
      s2: "data_loop E (v_at V) ia (of_nat (v_bs V)) (of_nat (Suc lo)) (a + of_nat rest) (of_nat k) (of_nat rest) (s1\<lparr>mem := m'\<rparr>)
             = Some (of_nat n, s2)"
        "has_read E K V (s1\<lparr>mem := m'\<rparr>) (a + of_nat rest) k (\<lambda>i. file_byte K V (world s) bl (o' + (rest + i))) s2"
      unfolding f1(2) e using k by auto
    have "ext2_read_data E (v_at V) ia (int o') a (of_nat len) s = Some (int n, s2)"
      unfolding eq using 3 by (simp add: s1(1,2) k_def [symmetric] s2(1) [simplified] ret)
    moreover have "has_read E K V s a n (\<lambda>i. file_byte K V (world s) bl (o' + i)) s2"
      unfolding k by (rule has_read_append [OF s1(3) s2(2) d [unfolded k]])
    ultimately show ?thesis by blast
  qed
qed

end
