(* ===== verification/Ext2_Names.thy ===== *)
theory Ext2_Names
  imports Ext2_Spec
begin

text \<open>
  Inodes and names: \<open>ext2_get_inode\<close> finds an inode through its group descriptor and delivers its fields in host
  byte order; \<open>ext2_seek_name\<close> resolves a path as the directories of the device say.
\<close>

subsection \<open>Converting structures\<close>

lemma fields_apart:
  assumes "i + a \<le> j" and "j + b \<le> 2 ^ 32"
  shows "apart (d + of_nat i) a (d + of_nat j) b"
proof -
  define c where "c = j - i"
  have c: "j = i + c" "a \<le> c" "c + b \<le> 2 ^ 32" using assms by (simp_all add: c_def)
  have "\<not> in_region (d + of_nat i) a x" if "in_region (d + of_nat j) b x" for x
    using region_disjoint [OF c(3), of "d + of_nat i" x] that c(1,2) by (simp add: add.assoc in_region_def)
  then show ?thesis by (auto simp: apart_def)
qed

lemma apart_parts:
  assumes "apart d n s k" and "i + a \<le> n" and "j + b \<le> k" and "n \<le> 2 ^ 32" and "k \<le> 2 ^ 32"
  shows "apart (d + of_nat i) a (s + of_nat j) b"
  using assms in_region_sub [of d i a _ n] in_region_sub [of s j b _ k] unfolding apart_def by blast

context accessor
begin

lemma to_cpu_step:
  assumes "\<forall>i \<in> set is. rd m (src + of_nat i) = Some (v i)"
    and "\<forall>i \<in> set is. \<forall>x. in_region (dst + of_nat i) span x \<longrightarrow> m x \<noteq> None"
    and "\<forall>i \<in> set is. \<forall>j \<in> set is. i < j \<longrightarrow> apart (dst + of_nat i) span (src + of_nat j) span"
    and "\<forall>i \<in> set is. \<forall>j \<in> set is. i < j \<longrightarrow> apart (dst + of_nat i) span (dst + of_nat j) span"
    and "sorted is" and "distinct is"
  shows "\<exists>m'. to_cpu rd wr conv dst src is m = Some m' \<and> (\<forall>x. (m' x = None) = (m x = None)) \<and>
           (\<forall>x. (\<forall>i \<in> set is. \<not> in_region (dst + of_nat i) span x) \<longrightarrow> m' x = m x) \<and>
           (\<forall>i \<in> set is. rd m' (dst + of_nat i) = Some (conv (v i)))"
  using assms
proof (induction "is" arbitrary: m)
  case (Cons i "is")
  from Cons.prems(2) have "wr m (dst + of_nat i) (conv (v i)) \<noteq> None" using wr_succeeds by auto
  then obtain m1 where m1: "wr m (dst + of_nat i) (conv (v i)) = Some m1" by blast
  have lt: "i < j" if "j \<in> set is" for j using Cons.prems(5,6) that by (auto simp: less_le)
  have rd1: "rd m1 (src + of_nat j) = Some (v j)" if "j \<in> set is" for j
    using rd_wr_apart [OF m1, of "src + of_nat j"] Cons.prems(1,3) lt that by simp
  have "\<exists>m'. to_cpu rd wr conv dst src is m1 = Some m' \<and> (\<forall>x. (m' x = None) = (m1 x = None)) \<and>
      (\<forall>x. (\<forall>i \<in> set is. \<not> in_region (dst + of_nat i) span x) \<longrightarrow> m' x = m1 x) \<and>
      (\<forall>i \<in> set is. rd m' (dst + of_nat i) = Some (conv (v i)))"
    by (rule Cons.IH) (use Cons.prems rd1 wr_dom [OF m1] in auto)
  then obtain m' where m': "to_cpu rd wr conv dst src is m1 = Some m'" "\<forall>x. (m' x = None) = (m1 x = None)"
    "\<forall>x. (\<forall>i \<in> set is. \<not> in_region (dst + of_nat i) span x) \<longrightarrow> m' x = m1 x"
    "\<forall>i \<in> set is. rd m' (dst + of_nat i) = Some (conv (v i))" by blast
  have "rd m' (dst + of_nat i) = rd m1 (dst + of_nat i)"
    by (rule rd_local) (use m'(3) Cons.prems(4) lt in \<open>auto simp: apart_def\<close>)
  then have "rd m' (dst + of_nat i) = Some (conv (v i))" using rd_wr_same [OF m1] by simp
  then show ?case using m' m1 Cons.prems(1) wr_dom [OF m1] wr_frame [OF m1] by auto
qed simp

text \<open>Fields that follow each other, from one structure to another one elsewhere.\<close>

lemma to_cpu_fields:
  assumes v: "\<forall>i \<in> set is. rd m (src + of_nat i) = Some (v i)" and dst: "mapped m dst n" and sep: "apart dst n src n"
    and n: "n \<le> 2 ^ 32" "\<forall>i \<in> set is. i + span \<le> n" and sp: "sorted_wrt (\<lambda>i j. i + span \<le> j) is" "0 < span"
  shows "\<exists>m'. to_cpu rd wr conv dst src is m = Some m' \<and> same_dom m m' \<and>
           (\<forall>x. (\<forall>i \<in> set is. \<not> in_region (dst + of_nat i) span x) \<longrightarrow> m' x = m x) \<and>
           (\<forall>i \<in> set is. rd m' (dst + of_nat i) = Some (conv (v i)))"
proof -
  have gap: "i + span \<le> j" if ij: "i \<in> set is" "j \<in> set is" "i < j" for i j
  proof -
    from ij obtain a b where ab: "a < length is" "b < length is" "i = is ! a" "j = is ! b" by (auto simp: in_set_conv_nth)
    have ord: "is ! a + span \<le> is ! b" if "a < b" "b < length is" for a b using sp(1) that by (simp add: sorted_wrt_iff_nth_less)
    show ?thesis using ij(3) ab ord [of a b] ord [of b a] by (cases a b rule: linorder_cases) auto
  qed
  have so: "sorted is" by (rule sorted_wrt_mono_rel [OF _ sp(1)]) simp
  have di: "distinct is" using sp by (induction "is") auto
  have "\<exists>m'. to_cpu rd wr conv dst src is m = Some m' \<and> (\<forall>x. (m' x = None) = (m x = None)) \<and>
           (\<forall>x. (\<forall>i \<in> set is. \<not> in_region (dst + of_nat i) span x) \<longrightarrow> m' x = m x) \<and>
           (\<forall>i \<in> set is. rd m' (dst + of_nat i) = Some (conv (v i)))"
  proof (rule to_cpu_step [OF v _ _ _ so di])
    show "\<forall>i \<in> set is. \<forall>x. in_region (dst + of_nat i) span x \<longrightarrow> m x \<noteq> None"
      using dst n in_region_sub [of dst _ span _ n] by (auto simp: mapped_iff)
    show "\<forall>i \<in> set is. \<forall>j \<in> set is. i < j \<longrightarrow> apart (dst + of_nat i) span (src + of_nat j) span"
      using apart_parts [OF sep] n by auto
    show "\<forall>i \<in> set is. \<forall>j \<in> set is. i < j \<longrightarrow> apart (dst + of_nat i) span (dst + of_nat j) span"
    proof (intro ballI impI)
      fix i j
      assume ij: "i \<in> set is" "j \<in> set is" "i < j"
      have "j + span \<le> 2 ^ 32" using n ij(2) by force
      then show "apart (dst + of_nat i) span (dst + of_nat j) span" by (rule fields_apart [OF gap [OF ij]])
    qed
  qed
  then show ?thesis by (simp add: same_dom_def)
qed

end

declare to_cpu.simps [simp del]

definition le16 :: "(nat \<Rightarrow> u8) \<Rightarrow> nat \<Rightarrow> u16" where
  "le16 d i = cat16 (d (i + 1)) (d i)"

lemma bswap16_cat: "bswap16 (cat16 a b) = cat16 b a"
proof (rule bit_word_eqI)
  fix n
  assume n: "n < LENGTH(16)"
  have "(0xff00 :: u16) = push_bit 8 (mask 8)" "(0x00ff :: u16) = mask 8" by (simp_all add: mask_eq_exp_minus_1)
  then have e: "bswap16 x = drop_bit 8 (x AND push_bit 8 (mask 8)) OR push_bit 8 (x AND mask 8)" for x
    by (simp only: bswap16_def)
  show "bit (bswap16 (cat16 a b)) n = bit (cat16 b a) n"
    unfolding e cat16_def using n by (cases "n < 8") (auto simp: bit_simps dest: bit_imp_le_length)
qed

lemma le_shift: "le32 (\<lambda>i. f (k + i)) j = le32 f (k + j)" "le16 (\<lambda>i. f (k + i)) j = le16 f (k + j)"
  by (simp_all add: le32_def le16_def add.assoc)

lemma bswap_be: "bswap32 (be32 f i) = le32 f i" "bswap16 (be16 f i) = le16 f i"
  by (simp_all add: be32_def le32_def bswap32_cat be16_def le16_def bswap16_cat)

text \<open>Only the fields of width \<open>w\<close> at the offsets \<open>is\<close> of a structure of \<open>n\<close> bytes at \<open>dst\<close> are written.\<close>

definition fields_written :: "nat \<Rightarrow> nat list \<Rightarrow> nat \<Rightarrow> ucell \<Rightarrow> memory \<Rightarrow> memory \<Rightarrow> bool" where
  "fields_written w is n dst m m' \<longleftrightarrow>
     same_dom m m' \<and> (\<forall>x. \<not> in_region dst n x \<longrightarrow> m' x = m x) \<and>
     (\<forall>j k. j + k \<le> n \<and> (\<forall>i \<in> set is. i + w \<le> j \<or> j + k \<le> i) \<longrightarrow> (\<forall>x. in_region (dst + of_nat j) k x \<longrightarrow> m' x = m x))"

lemma fields_writtenI:
  assumes "same_dom m m'" and fr: "\<forall>x. (\<forall>i \<in> set is. \<not> in_region (dst + of_nat i) w x) \<longrightarrow> m' x = m x"
    and n: "n \<le> 2 ^ 32" "\<forall>i \<in> set is. i + w \<le> n"
  shows "fields_written w is n dst m m'"
  unfolding fields_written_def
proof (intro conjI allI impI)
  fix x
  assume "\<not> in_region dst n x"
  then show "m' x = m x" using fr n in_region_sub [of dst _ w x n] by blast
next
  fix j k x
  assume jk: "j + k \<le> n \<and> (\<forall>i \<in> set is. i + w \<le> j \<or> j + k \<le> i)" and x: "in_region (dst + of_nat j) k x"
  have "\<not> in_region (dst + of_nat i) w x" if i: "i \<in> set is" for i
  proof (cases "i + w \<le> j")
    case True
    have "j + k \<le> 2 ^ 32" using jk n(1) by linarith
    from fields_apart [OF True this, of dst] x show ?thesis by (auto simp: apart_def)
  next
    case False
    have "i + w \<le> 2 ^ 32" using n i by force
    moreover have "j + k \<le> i" using jk i False by blast
    ultimately have "apart (dst + of_nat j) k (dst + of_nat i) w" by (intro fields_apart)
    with x show ?thesis by (auto simp: apart_def)
  qed
  then show "m' x = m x" using fr by blast
qed (use assms in simp)

lemma fields_written_frame:
  "fields_written w is n dst m m' \<Longrightarrow> (m' x = None) = (m x = None)"
  "fields_written w is n dst m m' \<Longrightarrow> \<not> in_region dst n x \<Longrightarrow> m' x = m x"
  by (simp_all add: fields_written_def same_dom_def)

lemma fields_written_read:
  assumes "fields_written w is n dst m m'" and "\<forall>i \<in> set is. i + w \<le> j \<or> j + k \<le> i" and "j + k \<le> n"
  shows "k = 4 \<Longrightarrow> read_long m' (dst + of_nat j) = read_long m (dst + of_nat j)"
    and "k = 2 \<Longrightarrow> read_word m' (dst + of_nat j) = read_word m (dst + of_nat j)"
proof -
  have "m' x = m x" if "in_region (dst + of_nat j) k x" for x using assms that unfolding fields_written_def by blast
  then show "k = 4 \<Longrightarrow> read_long m' (dst + of_nat j) = read_long m (dst + of_nat j)"
    and "k = 2 \<Longrightarrow> read_word m' (dst + of_nat j) = read_word m (dst + of_nat j)"
    by (auto intro: long_acc.rd_local word_acc.rd_local)
qed

text \<open>A structure \<open>src\<close> in disk byte order that holds \<open>f\<close>, and room for its host form at \<open>dst\<close>.\<close>

definition conv_ok :: "nat \<Rightarrow> ucell \<Rightarrow> ucell \<Rightarrow> (nat \<Rightarrow> u8) \<Rightarrow> memory \<Rightarrow> bool" where
  "conv_ok n dst src f m \<longleftrightarrow> n \<le> 2 ^ 32 \<and> holds m src n f \<and> mapped m dst n \<and> apart dst n src n"

lemma conv_ok_written: "fields_written w is n dst m m' \<Longrightarrow> conv_ok n dst src f m \<Longrightarrow> conv_ok n dst src f m'"
proof -
  assume w: "fields_written w is n dst m m'" and c: "conv_ok n dst src f m"
  have "holds m' src n f"
    by (rule holds_frame [of m]) (use w c in \<open>auto simp: conv_ok_def fields_written_def apart_def\<close>)
  then show ?thesis using w c same_dom_mapped [of m m'] by (auto simp: conv_ok_def fields_written_def)
qed

lemma long_fields:
  assumes c: "conv_ok n dst src f m" and "\<forall>i \<in> set is. i + 4 \<le> n" and "sorted_wrt (\<lambda>i j. i + 4 \<le> j) is"
  shows "\<exists>m'. le32_to_cpu dst src is m = Some m' \<and> fields_written 4 is n dst m m' \<and> conv_ok n dst src f m' \<and>
           (\<forall>i \<in> set is. read_long m' (dst + of_nat i) = Some (le32 f i))"
proof -
  have v: "\<forall>i \<in> set is. read_long m (src + of_nat i) = Some (be32 f i)"
    using c assms(2) read_long_holds by (auto simp: conv_ok_def)
  from long_acc.to_cpu_fields [OF v _ _ _ assms(2,3), where conv = bswap32 and dst = dst] c obtain m' where
    m': "le32_to_cpu dst src is m = Some m'" "same_dom m m'" "\<forall>x. (\<forall>i \<in> set is. \<not> in_region (dst + of_nat i) 4 x) \<longrightarrow> m' x = m x"
      "\<forall>i \<in> set is. read_long m' (dst + of_nat i) = Some (le32 f i)"
    by (auto simp: conv_ok_def le32_to_cpu_def bswap_be)
  have "fields_written 4 is n dst m m'" by (rule fields_writtenI [OF m'(2,3)]) (use c assms(2) in \<open>simp_all add: conv_ok_def\<close>)
  with m' conv_ok_written [OF _ c] show ?thesis by blast
qed

lemma word_fields:
  assumes c: "conv_ok n dst src f m" and "\<forall>i \<in> set is. i + 2 \<le> n" and "sorted_wrt (\<lambda>i j. i + 2 \<le> j) is"
  shows "\<exists>m'. le16_to_cpu dst src is m = Some m' \<and> fields_written 2 is n dst m m' \<and> conv_ok n dst src f m' \<and>
           (\<forall>i \<in> set is. read_word m' (dst + of_nat i) = Some (le16 f i))"
proof -
  have v: "\<forall>i \<in> set is. read_word m (src + of_nat i) = Some (be16 f i)"
    using c assms(2) read_word_holds by (auto simp: conv_ok_def)
  from word_acc.to_cpu_fields [OF v _ _ _ assms(2,3), where conv = bswap16 and dst = dst] c obtain m' where
    m': "le16_to_cpu dst src is m = Some m'" "same_dom m m'" "\<forall>x. (\<forall>i \<in> set is. \<not> in_region (dst + of_nat i) 2 x) \<longrightarrow> m' x = m x"
      "\<forall>i \<in> set is. read_word m' (dst + of_nat i) = Some (le16 f i)"
    by (auto simp: conv_ok_def le16_to_cpu_def bswap_be)
  have "fields_written 2 is n dst m m'" by (rule fields_writtenI [OF m'(2,3)]) (use c assms(2) in \<open>simp_all add: conv_ok_def\<close>)
  with m' conv_ok_written [OF _ c] show ?thesis by blast
qed

lemma byte_fields:
  assumes c: "conv_ok n dst src f m" and "\<forall>i \<in> set is. i + Suc 0 \<le> n" and "sorted_wrt (\<lambda>i j. i + Suc 0 \<le> j) is"
  shows "\<exists>m'. to_cpu read_byte write_byte id dst src is m = Some m' \<and> fields_written (Suc 0) is n dst m m' \<and> conv_ok n dst src f m'"
proof -
  have v: "\<forall>i \<in> set is. read_byte m (src + of_nat i) = Some (f i)"
    using c assms(2) by (auto simp: conv_ok_def read_byte_def holds_def)
  from byte_acc.to_cpu_fields [OF v _ _ _ assms(2,3), where conv = id and dst = dst] c obtain m' where
    m': "to_cpu read_byte write_byte id dst src is m = Some m'" "same_dom m m'"
      "\<forall>x. (\<forall>i \<in> set is. \<not> in_region (dst + of_nat i) (Suc 0) x) \<longrightarrow> m' x = m x"
    by (auto simp: conv_ok_def)
  have "fields_written (Suc 0) is n dst m m'"
    by (rule fields_writtenI [OF m'(2,3)]) (use c assms(2) in \<open>simp_all add: conv_ok_def\<close>)
  with m' conv_ok_written [OF _ c] show ?thesis by blast
qed

subsection \<open>Inodes\<close>

text \<open>The block numbers of a symbolic link are text and are not converted.\<close>

definition disk_block :: "(nat \<Rightarrow> u8) \<Rightarrow> nat \<Rightarrow> u32" where
  "disk_block f k = (if S_ISLNK (le16 f 0) then be32 f (40 + 4 * k) else le32 f (40 + 4 * k))"

lemma copy_blocks:
  assumes c: "conv_ok 128 ia le f m"
  shows "\<exists>m'. (if S_ISLNK (le16 f 0) then memcpy m (ia + 40) (le + 40) 60
               else le32_to_cpu ia le (map (\<lambda>k. 40 + 4 * k) [0..<15]) m) = Some m' \<and>
           fields_written 60 [40] 128 ia m m' \<and> conv_ok 128 ia le f m' \<and>
           (\<forall>k < 15. read_long m' (ia + of_nat (40 + 4 * k)) = Some (disk_block f k))"
proof (cases "S_ISLNK (le16 f 0)")
  case True
  have r: "mapped m (ia + of_nat 40) 60" "holds m (le + of_nat 40) 60 (\<lambda>i. f (40 + i))" "apart (ia + of_nat 40) 60 (le + of_nat 40) 60"
    using c mapped_sub [of m ia 128 40 60] holds_sub [of m le 128 f 40 60] apart_parts [of ia 128 le 128 40 60 40 60]
    by (simp_all add: conv_ok_def)
  from memcpy_apart [of 60 m "ia + of_nat 40" "le + of_nat 40"] r holds_mapped [OF r(2)] obtain m' where
    m': "memcpy m (ia + 40) (le + 40) 60 = Some m'" "copied m (ia + of_nat 40) (le + of_nat 40) 60 m'" by auto
  have w: "fields_written 60 [40] 128 ia m m'"
    by (rule fields_writtenI) (use copied_dom [OF m'(2) r(1) holds_mapped [OF r(2)]] m'(2) in \<open>auto simp: copied_def\<close>)
  have h: "holds m' (ia + of_nat 40) 60 (\<lambda>i. f (40 + i))" by (rule holds_copied [OF m'(2) r(2)]) simp
  have "read_long m' (ia + of_nat (40 + 4 * k)) = Some (be32 f (40 + 4 * k))" if "k < 15" for k
    using read_long_holds [OF h, of "4 * k"] that by (simp add: be32_def add.assoc)
  then show ?thesis using True m' w conv_ok_written [OF w c] by (auto simp: disk_block_def)
next
  case False
  let ?is = "map (\<lambda>k. 40 + 4 * k) [0..<15]"
  have "\<forall>i \<in> set ?is. i + 4 \<le> 128" by auto
  moreover have "sorted_wrt (\<lambda>i j. i + 4 \<le> j) ?is" by (simp add: sorted_wrt_iff_nth_less)
  ultimately obtain m' where m': "le32_to_cpu ia le ?is m = Some m'" "fields_written 4 ?is 128 ia m m'"
    "conv_ok 128 ia le f m'" "\<forall>i \<in> set ?is. read_long m' (ia + of_nat i) = Some (le32 f i)" using long_fields [OF c] by blast
  have "fields_written 60 [40] 128 ia m m'"
    using m'(2) unfolding fields_written_def by fastforce
  moreover have "read_long m' (ia + of_nat (40 + 4 * k)) = Some (le32 f (40 + 4 * k))" if "k < 15" for k
    using m'(4) that by (intro bspec [OF m'(4)]) auto
  ultimately show ?thesis using False m'(1,3) by (auto simp: disk_block_def)
qed

lemma inode_to_cpu_step:
  assumes c: "conv_ok 128 ia le f m"
  shows "\<exists>m'. inode_to_cpu ia le m = Some m' \<and> same_dom m m' \<and> (\<forall>x. \<not> in_region ia 128 x \<longrightarrow> m' x = m x) \<and>
           i_mode m' ia = Some (le16 f 0) \<and> cells_hold m' (inode_cells ia (le32 f 4) (disk_block f))"
proof -
  from word_fields [OF c, of "[0, 2]"] obtain m1 where
    1: "le16_to_cpu ia le [0, 2] m = Some m1" "fields_written 2 [0, 2] 128 ia m m1" "conv_ok 128 ia le f m1"
      "read_word m1 ia = Some (le16 f 0)" by auto
  from long_fields [OF 1(3), of "[4, 8, 12, 16, 20]"] obtain m2 where
    2: "le32_to_cpu ia le [4, 8, 12, 16, 20] m1 = Some m2" "fields_written 4 [4, 8, 12, 16, 20] 128 ia m1 m2" "conv_ok 128 ia le f m2"
      "read_long m2 (ia + 4) = Some (le32 f 4)" by auto
  from word_fields [OF 2(3), of "[24, 26]"] obtain m3 where
    3: "le16_to_cpu ia le [24, 26] m2 = Some m3" "fields_written 2 [24, 26] 128 ia m2 m3" "conv_ok 128 ia le f m3" by auto
  from long_fields [OF 3(3), of "[28, 32]"] obtain m4 where
    4: "le32_to_cpu ia le [28, 32] m3 = Some m4" "fields_written 4 [28, 32] 128 ia m3 m4" "conv_ok 128 ia le f m4" by auto
  from copy_blocks [OF 4(3)] obtain m5 where
    5: "(if S_ISLNK (le16 f 0) then memcpy m4 (ia + 40) (le + 40) 60
         else le32_to_cpu ia le (map (\<lambda>k. 40 + 4 * k) [0..<15]) m4) = Some m5"
      "fields_written 60 [40] 128 ia m4 m5" "conv_ok 128 ia le f m5"
      "\<forall>k < 15. read_long m5 (ia + of_nat (40 + 4 * k)) = Some (disk_block f k)" by blast
  from long_fields [OF 5(3), of "[100, 104, 108, 112]"] obtain m6 where
    6: "le32_to_cpu ia le [100, 104, 108, 112] m5 = Some m6" "fields_written 4 [100, 104, 108, 112] 128 ia m5 m6" "conv_ok 128 ia le f m6" by auto
  from byte_fields [OF 6(3), of "[116, 117]"] obtain m7 where
    7: "to_cpu read_byte write_byte id ia le [116, 117] m6 = Some m7" "fields_written (Suc 0) [116, 117] 128 ia m6 m7" "conv_ok 128 ia le f m7" by auto
  from word_fields [OF 7(3), of "[120, 122]"] obtain m8 where
    8: "le16_to_cpu ia le [120, 122] m7 = Some m8" "fields_written 2 [120, 122] 128 ia m7 m8" by auto
  note w = 2(2) 3(2) 4(2) 5(2) 6(2) 7(2) 8(2)
  have word0: "read_word m4 ia = Some (le16 f 0)" "read_word m8 ia = read_word m4 ia"
    using 1(4) w [THEN fields_written_read(2), of 0 2] by simp_all
  have size: "read_long m8 (ia + 4) = Some (le32 f 4)"
    using 2(4) w(2-7) [THEN fields_written_read(1), of 4 4] by simp
  have blocks: "read_long m8 (ia + of_nat (40 + 4 * k)) = Some (disk_block f k)" if "k < 15" for k
    using 5(4) that w(5-7) [THEN fields_written_read(1), of "40 + 4 * k" 4] by simp
  have "same_dom m m8 \<and> (\<forall>x. \<not> in_region ia 128 x \<longrightarrow> m8 x = m x)"
    using w [THEN fields_written_frame(1)] w [THEN fields_written_frame(2)] 1(2) [THEN fields_written_frame(1)]
      1(2) [THEN fields_written_frame(2)] by (simp add: same_dom_def)
  moreover have "inode_to_cpu ia le m = Some m8"
    using word0(1) 5(1) by (simp add: inode_to_cpu_def 1(1) 2(1) 3(1) 4(1) i_mode_def 6(1) 7(1) 8(1))
  ultimately show ?thesis
    using word0 size blocks by (auto simp: i_mode_def cells_hold_def inode_cells_def add.assoc)
qed

text \<open>
  The super block's say on where inodes are: the first data block, the inodes per group, the revision and the cell with
  the size of an inode; then the descriptor of group \<open>g\<close> and the bytes of inode \<open>ino\<close> on the device.
\<close>

record geo =
  g_first :: u32
  g_ipg :: nat
  g_rev :: u32
  g_sizes :: u32

definition geo_cells :: "vol \<Rightarrow> geo \<Rightarrow> (ucell \<times> u32) list" where
  "geo_cells V G =
     [(v_super V + 20, g_first G), (v_super V + 40, of_nat (g_ipg G)), (v_super V + 76, g_rev G), (v_super V + 88, g_sizes G)]"

definition g_isz :: "geo \<Rightarrow> nat" where
  "g_isz G = (if g_rev G = 0 then 128 else unat (drop_bit 16 (g_sizes G)))"

definition geo_ok :: "vol \<Rightarrow> geo \<Rightarrow> bool" where
  "geo_ok V G \<longleftrightarrow> 0 < g_ipg G \<and> g_ipg G < 2 ^ 32 \<and> 128 \<le> g_isz G \<and> g_isz G \<le> v_bs V"

definition group_block :: "vol \<Rightarrow> geo \<Rightarrow> nat \<Rightarrow> u32" where
  "group_block V G g = 1 + g_first G + of_nat (g div (v_bs V div 32))"

definition group_table :: "'w disk \<Rightarrow> vol \<Rightarrow> geo \<Rightarrow> 'w \<Rightarrow> nat \<Rightarrow> u32" where
  "group_table K V G w g = le32 (block_of K V w (group_block V G g)) (32 * (g mod (v_bs V div 32)) + 8)"

definition ino_block :: "'w disk \<Rightarrow> vol \<Rightarrow> geo \<Rightarrow> 'w \<Rightarrow> nat \<Rightarrow> u32" where
  "ino_block K V G w ino =
     group_table K V G w ((ino - 1) div g_ipg G) + of_nat ((ino - 1) mod g_ipg G div (v_bs V div g_isz G))"

definition disk_inode :: "'w disk \<Rightarrow> vol \<Rightarrow> geo \<Rightarrow> 'w \<Rightarrow> nat \<Rightarrow> nat \<Rightarrow> u8" where
  "disk_inode K V G w ino i =
     block_of K V w (ino_block K V G w ino) ((ino - 1) mod g_ipg G mod (v_bs V div g_isz G) * g_isz G + i)"

definition ino_ok :: "'w disk \<Rightarrow> vol \<Rightarrow> geo \<Rightarrow> 'w \<Rightarrow> nat \<Rightarrow> bool" where
  "ino_ok K V G w ino \<longleftrightarrow>
     0 < ino \<and> ino < 2 ^ 32 \<and> on_disk K V (group_block V G ((ino - 1) div g_ipg G)) \<and> on_disk K V (ino_block K V G w ino)"

lemma read_word_of_long:
  assumes "read_long m a = Some v"
  shows "read_word m a = Some (ucast (drop_bit 16 v))"
proof -
  from assms obtain b3 b2 b1 b0 where b: "m a = Some b3" "m (a + 1) = Some b2" "v = cat32 b3 b2 b1 b0"
    by (auto simp: read_long_def bind_eq_Some_conv)
  have "ucast (drop_bit 16 (cat32 b3 b2 b1 b0)) = cat16 b3 b2"
  proof (rule bit_word_eqI)
    fix n
    assume n: "n < LENGTH(16)"
    show "bit (ucast (drop_bit 16 (cat32 b3 b2 b1 b0)) :: u16) n = bit (cat16 b3 b2) n"
      unfolding cat32_def cat16_def using n by (auto simp: bit_simps dest: bit_imp_le_length)
  qed
  then show ?thesis using b by (simp add: read_word_def)
qed

lemma geo_fields:
  assumes "cells_hold m (geo_cells V G)"
  shows "read_long m (v_super V + 20) = Some (g_first G)" "EXT2_INODES_PER_GROUP m (v_super V) = Some (of_nat (g_ipg G))"
    "EXT2_INODE_SIZE m (v_super V) = Some (of_nat (g_isz G))"
proof -
  have c: "read_long m (v_super V + 20) = Some (g_first G)" "read_long m (v_super V + 40) = Some (of_nat (g_ipg G))"
    "read_long m (v_super V + 76) = Some (g_rev G)" "read_long m (v_super V + 88) = Some (g_sizes G)"
    using assms by (simp_all add: cells_hold_def geo_cells_def)
  show "read_long m (v_super V + 20) = Some (g_first G)" "EXT2_INODES_PER_GROUP m (v_super V) = Some (of_nat (g_ipg G))"
    using c by (simp_all add: EXT2_INODES_PER_GROUP_def)
  have "(ucast (ucast (drop_bit 16 (g_sizes G)) :: u16) :: u32) = drop_bit 16 (g_sizes G)"
    by (rule bit_word_eqI) (auto simp: bit_simps dest: bit_imp_le_length)
  then show "EXT2_INODE_SIZE m (v_super V) = Some (of_nat (g_isz G))"
    using c read_word_of_long [OF c(4)] by (simp add: EXT2_INODE_SIZE_def g_isz_def)
qed

definition geo_vol :: "'w io_env \<Rightarrow> 'w disk \<Rightarrow> vol \<Rightarrow> geo \<Rightarrow> 'w fstate \<Rightarrow> bool" where
  "geo_vol E K V G s \<longleftrightarrow>
     vol_ok E K V s \<and> geo_ok V G \<and> cells_hold (mem s) (geo_cells V G) \<and> cells_clear (vol_scratch K V) (geo_cells V G)"

lemma geo_vol_spares:
  assumes "spares K S s s'" and "vol_ok E K V s'" and "geo_vol E K V G s" and "cells_clear S (geo_cells V G)"
  shows "geo_vol E K V G s'"
  using assms spares_cells [OF assms(1)] by (simp add: geo_vol_def)

text \<open>
  Converting a structure that the buffer holds at \<open>o'\<close> into one of the caller's: the volume stays good.
\<close>

lemma buffer_conv_ok:
  assumes "dest_ok E K V cs (mem s) a n" and "holds (mem s) (v_buffer V) (v_bs V) f" and "o' + n \<le> v_bs V" and "vol_ok E K V s"
  shows "conv_ok n a (v_buffer V + of_nat o') (\<lambda>i. f (o' + i)) (mem s)"
proof -
  have bs: "v_bs V < 2 ^ 31" using assms(4) v_bs_bounds by (auto simp: vol_ok_def)
  have "apart a n (v_buffer V) (v_bs V)" using assms(1) by (auto simp: dest_ok_def apart_def vol_scratch_def)
  then have "apart (a + of_nat 0) n (v_buffer V + of_nat o') n"
    by (rule apart_parts) (use assms(1,3) bs in \<open>simp_all add: dest_ok_def\<close>)
  then show ?thesis using assms(1,2,3) holds_sub [OF assms(2,3)] by (simp add: conv_ok_def dest_ok_def)
qed

lemma store_after:
  assumes dev: "disk_device (pkg E) K" and s1: "vol_ok E K V s1" "spares K (vol_scratch K V) s s1"
    and d: "dest_ok E K V cs (mem s) a n" and m: "same_dom (mem s1) m'" "\<And>x. \<not> in_region a n x \<Longrightarrow> m' x = mem s1 x"
  shows "vol_ok E K V (s1\<lparr>mem := m'\<rparr>)" and "spares K (\<lambda>x. vol_scratch K V x \<or> in_region a n x) s (s1\<lparr>mem := m'\<rparr>)"
proof -
  have d1: "dest_ok E K V cs (mem s1) a n" using dest_ok_dom [OF _ d] s1(2) by (simp add: spares_def)
  note st = vol_ok_store [OF dev s1(1) d1 m]
  show "vol_ok E K V (s1\<lparr>mem := m'\<rparr>)" by (rule st(1)) simp_all
  have "spares K (in_region a n) s1 (s1\<lparr>mem := m'\<rparr>)" by (rule st(2)) simp_all
  then show "spares K (\<lambda>x. vol_scratch K V x \<or> in_region a n x) s (s1\<lparr>mem := m'\<rparr>)" by (rule spares_or [OF s1(2)])
qed

lemma get_group_desc_step:
  assumes dev: "disk_device (pkg E) K" and g: "geo_vol E K V G s" "g < 2 ^ 32" "on_disk K V (group_block V G g)"
    and d: "dest_ok E K V (geo_cells V G) (mem s) fr 32"
  shows "\<exists>s'. ext2_get_group_desc E (v_at V) (of_nat g) fr s = Some s' \<and> geo_vol E K V G s' \<and>
           spares K (\<lambda>x. vol_scratch K V x \<or> in_region fr 32 x) s s' \<and> read_long (mem s') (fr + 8) = Some (group_table K V G (world s) g)"
proof -
  from g(1) have ok: "vol_ok E K V s" and c: "cells_hold (mem s) (geo_cells V G)"
    and sep: "cells_clear (vol_scratch K V) (geo_cells V G)" by (simp_all add: geo_vol_def)
  from ok have lay: "vol_layout E K V" by (simp add: vol_ok_def)
  note bs = v_bs_bounds [OF lay]
  define per where "per = v_bs V div 32"
  have per: "0 < per" "per < 2 ^ 32" "32 * per = v_bs V" using bs by (auto simp: per_def v_bs_def)
  have "udiv (of_nat (v_bs V)) 32 = Some (of_nat per, of_nat (v_bs V mod 32))" using udiv_of_nat [of "v_bs V" 32] bs by (simp add: per_def)
  then have pw: "(of_nat (v_bs V) :: u32) div 32 = of_nat per" by (simp add: udiv_def)
  have q: "udiv (of_nat g) (of_nat per) = Some (of_nat (g div per), of_nat (g mod per))" by (rule udiv_of_nat) (use g per in simp_all)
  have blk: "1 + g_first G + of_nat (g div per) = group_block V G g" by (simp add: group_block_def per_def)
  from read_block_step [OF dev ok g(3)] obtain s1 where
    s1: "ext2_read_block E (v_at V) (group_block V G g) s = Some s1" "vol_ok E K V s1" "spares K (vol_scratch K V) s s1"
      "holds (mem s1) (v_buffer V) (v_bs V) (block_of K V (world s) (group_block V G g))" by blast
  have d1: "dest_ok E K V (geo_cells V G) (mem s1) fr 32" using dest_ok_dom [OF _ d] s1(3) by (simp add: spares_def)
  let ?src = "v_buffer V + of_nat (32 * (g mod per))" and ?f = "\<lambda>i. block_of K V (world s) (group_block V G g) (32 * (g mod per) + i)"
  have "g mod per + 1 \<le> per" using mod_less_divisor [OF per(1), of g] by linarith
  then have "32 * (g mod per + 1) \<le> 32 * per" by (rule mult_le_mono2)
  then have "32 * (g mod per) + 32 \<le> v_bs V" using per(3) by simp
  from buffer_conv_ok [OF d1 s1(4) this s1(2)] have cv: "conv_ok 32 fr ?src ?f (mem s1)" .
  from long_fields [OF cv, of "[0, 4, 8]"] obtain m2 where
    2: "le32_to_cpu fr ?src [0, 4, 8] (mem s1) = Some m2" "fields_written 4 [0, 4, 8] 32 fr (mem s1) m2" "conv_ok 32 fr ?src ?f m2"
      "read_long m2 (fr + 8) = Some (le32 ?f 8)" by auto
  from word_fields [OF 2(3), of "[12, 14, 16]"] obtain m3 where
    3: "le16_to_cpu fr ?src [12, 14, 16] m2 = Some m3" "fields_written 2 [12, 14, 16] 32 fr m2 m3" by auto
  have t: "read_long m3 (fr + 8) = Some (group_table K V G (world s) g)"
    using 2(4) fields_written_read(1) [OF 3(2), of 8 4] by (simp add: group_table_def per_def le_shift)
  have fr3: "m3 x = mem s1 x" if "\<not> in_region fr 32 x" for x
    using that fields_written_frame(2) [OF 2(2)] fields_written_frame(2) [OF 3(2)] by simp
  have "same_dom (mem s1) m3" using fields_written_frame(1) [OF 2(2)] fields_written_frame(1) [OF 3(2)] by (simp add: same_dom_def)
  note st = store_after [OF dev s1(2,3) d this fr3]
  have src: "of_nat (g mod per) * 32 = (of_nat (32 * (g mod per)) :: u32)" by simp
  have run: "ext2_get_group_desc E (v_at V) (of_nat g) fr s = Some (s1\<lparr>mem := m3\<rparr>)"
    unfolding ext2_get_group_desc_def EXT2_DESC_PER_BLOCK_def
    using vol_ok_fields [OF ok] vol_ok_fields [OF s1(2)] geo_fields(1) [OF c]
    by (simp add: Let_def pw q blk s1(1) src 2(1) 3(1) del: of_nat_mult)
  have "cells_clear (\<lambda>x. vol_scratch K V x \<or> in_region fr 32 x) (geo_cells V G)"
    using d sep by (intro cells_clear_or) (simp_all add: dest_ok_def cells_clear_append)
  from geo_vol_spares [OF st(2,1) g(1) this] st(2) run t show ?thesis by auto
qed

lemma spares_inode:
  assumes "spares K S s s'"
  shows "group_table K V G (world s') = group_table K V G (world s)" "ino_block K V G (world s') = ino_block K V G (world s)"
    "disk_inode K V G (world s') = disk_inode K V G (world s)" "ino_ok K V G (world s') = ino_ok K V G (world s)"
proof -
  note b = spares_listed(1) [OF assms]
  show g: "group_table K V G (world s') = group_table K V G (world s)" by (simp add: group_table_def b fun_eq_iff)
  show i: "ino_block K V G (world s') = ino_block K V G (world s)" by (simp add: ino_block_def g fun_eq_iff)
  show "disk_inode K V G (world s') = disk_inode K V G (world s)" by (simp add: disk_inode_def b i fun_eq_iff)
  show "ino_ok K V G (world s') = ino_ok K V G (world s)" by (simp add: ino_ok_def i fun_eq_iff)
qed

definition inode_loaded :: "ucell \<Rightarrow> (nat \<Rightarrow> u8) \<Rightarrow> memory \<Rightarrow> bool" where
  "inode_loaded ia f m \<longleftrightarrow> i_mode m ia = Some (le16 f 0) \<and> cells_hold m (inode_cells ia (le32 f 4) (disk_block f))"

text \<open>The second half of \<open>ext2_get_inode\<close>: the block of the inode table, and the conversion.\<close>

lemma load_inode_step:
  assumes dev: "disk_device (pkg E) K" and g: "geo_vol E K V G s" and b: "on_disk K V b"
    and o': "o' + 128 \<le> v_bs V" and d: "dest_ok E K V (geo_cells V G) (mem s) ia 128"
  shows "\<exists>s1 m'. ext2_read_block E (v_at V) b s = Some s1 \<and> geo_vol E K V G s1 \<and>
           inode_to_cpu ia (v_buffer V + of_nat o') (mem s1) = Some m' \<and> geo_vol E K V G (s1\<lparr>mem := m'\<rparr>) \<and>
           spares K (\<lambda>x. vol_scratch K V x \<or> in_region ia 128 x) s (s1\<lparr>mem := m'\<rparr>) \<and>
           inode_loaded ia (\<lambda>i. block_of K V (world s) b (o' + i)) m'"
proof -
  from g have ok: "vol_ok E K V s" and sep: "cells_clear (vol_scratch K V) (geo_cells V G)" by (simp_all add: geo_vol_def)
  from read_block_step [OF dev ok b] obtain s1 where
    s1: "ext2_read_block E (v_at V) b s = Some s1" "vol_ok E K V s1" "spares K (vol_scratch K V) s s1"
      "holds (mem s1) (v_buffer V) (v_bs V) (block_of K V (world s) b)" by blast
  have d1: "dest_ok E K V (geo_cells V G) (mem s1) ia 128" using dest_ok_dom [OF _ d] s1(3) by (simp add: spares_def)
  from inode_to_cpu_step [OF buffer_conv_ok [OF d1 s1(4) o' s1(2)]] obtain m' where
    m': "inode_to_cpu ia (v_buffer V + of_nat o') (mem s1) = Some m'" "same_dom (mem s1) m'" "\<forall>x. \<not> in_region ia 128 x \<longrightarrow> m' x = mem s1 x"
      "inode_loaded ia (\<lambda>i. block_of K V (world s) b (o' + i)) m'" unfolding inode_loaded_def by blast
  from m'(3) have fr: "m' x = mem s1 x" if "\<not> in_region ia 128 x" for x using that by blast
  note st = store_after [OF dev s1(2,3) d m'(2) fr]
  have "cells_clear (\<lambda>x. vol_scratch K V x \<or> in_region ia 128 x) (geo_cells V G)"
    using d sep by (intro cells_clear_or) (simp_all add: dest_ok_def cells_clear_append)
  from geo_vol_spares [OF st(2,1) g this] geo_vol_spares [OF s1(3,2) g sep] st(2) s1(1) m' show ?thesis by blast
qed

lemma geo_udiv:
  assumes "geo_vol E K V G s" and "0 < ino" and "ino < 2 ^ 32"
  shows "udiv (of_nat ino - 1) (of_nat (g_ipg G)) = Some (of_nat ((ino - 1) div g_ipg G), of_nat ((ino - 1) mod g_ipg G))"
    "udiv (of_nat (v_bs V)) (of_nat (g_isz G)) = Some (of_nat (v_bs V div g_isz G), of_nat (v_bs V mod g_isz G))"
    "udiv (of_nat ((ino - 1) mod g_ipg G)) (of_nat (v_bs V div g_isz G)) =
       Some (of_nat ((ino - 1) mod g_ipg G div (v_bs V div g_isz G)), of_nat ((ino - 1) mod g_ipg G mod (v_bs V div g_isz G)))"
    "(ino - 1) mod g_ipg G mod (v_bs V div g_isz G) * g_isz G + 128 \<le> v_bs V"
proof -
  have g: "0 < g_ipg G" "g_ipg G < 2 ^ 32" "128 \<le> g_isz G" "g_isz G \<le> v_bs V" and bs: "v_bs V < 2 ^ 31"
    using assms(1) v_bs_bounds by (auto simp: geo_vol_def geo_ok_def vol_ok_def)
  have e: "(of_nat ino :: u32) - 1 = of_nat (ino - 1)" using assms(2) by (cases ino) simp_all
  show "udiv (of_nat ino - 1) (of_nat (g_ipg G)) = Some (of_nat ((ino - 1) div g_ipg G), of_nat ((ino - 1) mod g_ipg G))"
    unfolding e by (rule udiv_of_nat) (use assms g in auto)
  show "udiv (of_nat (v_bs V)) (of_nat (g_isz G)) = Some (of_nat (v_bs V div g_isz G), of_nat (v_bs V mod g_isz G))"
    by (rule udiv_of_nat) (use g bs in auto)
  have p: "0 < v_bs V div g_isz G" using g by (simp add: div_greater_zero_iff)
  have "v_bs V div g_isz G < 2 ^ 32" by (rule le_less_trans [OF div_le_dividend]) (use bs in simp)
  moreover have "(ino - 1) mod g_ipg G < 2 ^ 32" by (rule less_trans [OF mod_less_divisor [OF g(1)] g(2)])
  ultimately show "udiv (of_nat ((ino - 1) mod g_ipg G)) (of_nat (v_bs V div g_isz G)) =
       Some (of_nat ((ino - 1) mod g_ipg G div (v_bs V div g_isz G)), of_nat ((ino - 1) mod g_ipg G mod (v_bs V div g_isz G)))"
    using p by (intro udiv_of_nat)
  let ?r = "(ino - 1) mod g_ipg G mod (v_bs V div g_isz G)"
  have "(?r + 1) * g_isz G \<le> v_bs V div g_isz G * g_isz G" using mod_less_divisor [OF p] by (intro mult_le_mono1) (simp add: Suc_le_eq)
  also have "\<dots> \<le> v_bs V" by simp
  finally show "?r * g_isz G + 128 \<le> v_bs V" using g(3) by simp
qed

lemma get_inode_step:
  assumes dev: "disk_device (pkg E) K" and g: "geo_vol E K V G s" and i: "ino_ok K V G (world s) ino"
    and d: "dest_ok E K V (geo_cells V G) (mem s) fr 32" "dest_ok E K V (geo_cells V G) (mem s) ia 128"
  shows "\<exists>s'. ext2_get_inode E fr (v_at V) (of_nat ino) ia s = Some s' \<and> geo_vol E K V G s' \<and>
           spares K (\<lambda>x. vol_scratch K V x \<or> in_region fr 32 x \<or> in_region ia 128 x) s s' \<and>
           inode_loaded ia (disk_inode K V G (world s) ino) (mem s')"
proof -
  define q r where "q = (ino - 1) div g_ipg G" and "r = (ino - 1) mod g_ipg G"
  from i have ib: "0 < ino" "ino < 2 ^ 32" "on_disk K V (group_block V G q)" "on_disk K V (ino_block K V G (world s) ino)"
    by (simp_all add: ino_ok_def q_def)
  note u = geo_udiv [OF g ib(1,2), folded q_def r_def]
  have "q < 2 ^ 32" using ib(2) div_le_dividend [of "ino - 1" "g_ipg G"] unfolding q_def by linarith
  from get_group_desc_step [OF dev g this ib(3) d(1)] obtain s1 where
    s1: "ext2_get_group_desc E (v_at V) (of_nat q) fr s = Some s1" "geo_vol E K V G s1"
      "spares K (\<lambda>x. vol_scratch K V x \<or> in_region fr 32 x) s s1" "read_long (mem s1) (fr + 8) = Some (group_table K V G (world s) q)"
    by blast
  have d1: "dest_ok E K V (geo_cells V G) (mem s1) ia 128" using dest_ok_dom [OF _ d(2)] s1(3) by (simp add: spares_def)
  from load_inode_step [OF dev s1(2) ib(4) u(4) d1] obtain s2 m' where
    s2: "ext2_read_block E (v_at V) (ino_block K V G (world s) ino) s1 = Some s2" "geo_vol E K V G s2"
      "inode_to_cpu ia (v_buffer V + of_nat (r mod (v_bs V div g_isz G) * g_isz G)) (mem s2) = Some m'"
      "geo_vol E K V G (s2\<lparr>mem := m'\<rparr>)" "spares K (\<lambda>x. vol_scratch K V x \<or> in_region ia 128 x) s1 (s2\<lparr>mem := m'\<rparr>)"
      "inode_loaded ia (disk_inode K V G (world s) ino) m'"
    unfolding disk_inode_def [abs_def] spares_listed(1) [OF s1(3)] r_def [symmetric] by blast
  have blk: "group_table K V G (world s) q + of_nat (r div (v_bs V div g_isz G)) = ino_block K V G (world s) ino"
    by (simp add: ino_block_def q_def r_def)
  have f: "vol_super (mem t) (v_at V) = Some (v_super V)" "vol_buffer (mem t) (v_at V) = Some (v_buffer V)"
    "EXT2_BLOCK_SIZE (mem t) (v_super V) = Some (of_nat (v_bs V))" "EXT2_INODES_PER_GROUP (mem t) (v_super V) = Some (of_nat (g_ipg G))"
    "EXT2_INODE_SIZE (mem t) (v_super V) = Some (of_nat (g_isz G))" if "geo_vol E K V G t" for t
    using that vol_ok_fields [of E K V t] geo_fields [of "mem t" V G] by (simp_all add: geo_vol_def)
  have "ext2_get_inode E fr (v_at V) (of_nat ino) ia s = Some (s2\<lparr>mem := m'\<rparr>)"
    unfolding ext2_get_inode_def
    using s2(1,3) by (simp add: f [OF g] f [OF s1(2)] f [OF s2(2)] u s1(1,4) blk)
  moreover have "spares K (\<lambda>x. vol_scratch K V x \<or> in_region fr 32 x \<or> in_region ia 128 x) s (s2\<lparr>mem := m'\<rparr>)"
    by (rule spares_mono [OF spares_or [OF s1(3) s2(5)]]) auto
  ultimately show ?thesis using s2(4,6) by auto
qed

end
