(* ===== verification/Ext2_Dirs.thy ===== *)
theory Ext2_Dirs
  imports Ext2_Names
begin

text \<open>
  Directories and paths: what the entries of a directory say, and that \<open>ext2_seek_name\<close> follows a path through them.
\<close>

subsection \<open>Names\<close>

lemma strncmp_loop_cong:
  assumes "\<And>k. i \<le> k \<Longrightarrow> k < i + n \<Longrightarrow> b k = b' k"
  shows "strncmp_loop a b i n r = strncmp_loop a b' i n r"
  using assms
proof (induction n arbitrary: i r)
  case (Suc n)
  have "strncmp_loop a b (Suc i) n x = strncmp_loop a b' (Suc i) n x" for x by (rule Suc.IH) (simp add: Suc.prems)
  moreover have "b i = b' i" by (rule Suc.prems) simp_all
  ultimately show ?case by (simp cong: if_cong)
qed simp

lemma strncmp_prefix:
  assumes "is_cstring a xs" and "\<forall>k < length ys. b k = Some (ys ! k)" and "0 \<notin> set ys"
  shows "\<exists>r. strncmp a b (length ys) = Some r \<and> (r = 0 \<longleftrightarrow> take (length ys) xs = ys)"
proof -
  note l = lit_str_is_cstring [OF assms(3)]
  have "strncmp_loop a b 0 (length ys) 0 = strncmp_loop a (lit_str ys) 0 (length ys) 0"
    by (rule strncmp_loop_cong) (use assms(2) in \<open>simp add: lit_str_def\<close>)
  then have "strncmp a b (length ys) = Some (sint (diff_at id (take (length ys) xs) ys))"
    using strncmp_loop_from [OF assms(1) l, of 0 "length ys"] by (simp add: strncmp_def)
  moreover have "0 \<notin> set (take (length ys) xs)" using assms(1) by (auto simp: is_cstring_def dest: in_set_takeD)
  ultimately show ?thesis using assms(3) by (simp add: sint_eq_0_iff diff_at_eq_0_iff [of id, simplified])
qed

abbreviation (input) sep :: u8 where
  "sep \<equiv> 0x5C"

text \<open>The first component of a path, and the test that the code makes with \<open>strncmp\<close> and the character that follows.\<close>

definition component :: "u8 list \<Rightarrow> u8 list" where
  "component q = takeWhile (\<lambda>c. c \<noteq> sep) q"

lemma component_iff:
  assumes "sep \<notin> set nm"
  shows "nm = component q \<longleftrightarrow>
    take (length nm) q = nm \<and> (length nm < length q \<longrightarrow> q ! length nm = sep) \<and> length nm \<le> length q"
proof
  assume l: "nm = component q"
  have "length nm \<le> length q" using l length_takeWhile_le [of _ q] by (simp add: component_def)
  moreover have "take (length nm) q = nm" using l takeWhile_eq_take [of "\<lambda>c. c \<noteq> sep" q] by (simp add: component_def)
  moreover have "q ! length nm = sep" if "length nm < length q"
    using l that nth_length_takeWhile [of "\<lambda>c. c \<noteq> sep" q] by (simp add: component_def)
  ultimately show "take (length nm) q = nm \<and> (length nm < length q \<longrightarrow> q ! length nm = sep) \<and> length nm \<le> length q" by blast
next
  assume r: "take (length nm) q = nm \<and> (length nm < length q \<longrightarrow> q ! length nm = sep) \<and> length nm \<le> length q"
  then have q: "q = nm @ drop (length nm) q" by (metis append_take_drop_id)
  have "takeWhile (\<lambda>c. c \<noteq> sep) q = nm @ takeWhile (\<lambda>c. c \<noteq> sep) (drop (length nm) q)"
    by (subst q) (rule takeWhile_append2, use assms in auto)
  moreover have "takeWhile (\<lambda>c. c \<noteq> sep) (drop (length nm) q) = []"
  proof (cases "length nm < length q")
    case True
    then have "drop (length nm) q = q ! length nm # drop (Suc (length nm)) q" by (simp add: Cons_nth_drop_Suc)
    then show ?thesis using r True by simp
  qed simp
  ultimately show "nm = component q" by (simp add: component_def)
qed

text \<open>A directory entry in memory at \<open>ea\<close>, in host byte order.\<close>

definition entry_is :: "ucell \<Rightarrow> u32 \<Rightarrow> u8 list \<Rightarrow> memory \<Rightarrow> bool" where
  "entry_is ea i nm m \<longleftrightarrow>
     read_long m ea = Some i \<and> read_byte m (ea + 6) = Some (of_nat (length nm)) \<and>
     (\<forall>k < length nm. m (ea + 8 + of_nat k) = Some (nm ! k)) \<and> length nm < 256"

lemma entry_matches_eq:
  assumes e: "entry_is ea i nm m" and q: "is_cstring (at m name) q" and nm: "0 \<notin> set nm" "sep \<notin> set nm"
  shows "entry_matches m ea name = Some (nm = component q)"
proof -
  have l: "unat (of_nat (length nm) :: u8) = length nm" "(ucast (of_nat (length nm) :: u8) :: u32) = of_nat (length nm)"
    using e by (simp_all add: entry_is_def unat_of_nat_small word_unat_eq_iff unsigned_ucast_eq take_bit_nat_eq_self)
  have "\<forall>k < length nm. at m (ea + 8) k = Some (nm ! k)" using e by (simp add: entry_is_def at_def)
  from strncmp_prefix [OF q this nm(1)] obtain r where
    r: "strncmp (at m name) (at m (ea + 8)) (length nm) = Some r" "r = 0 \<longleftrightarrow> take (length nm) q = nm" by blast
  have len: "read_byte m (ea + 6) = Some (of_nat (length nm))" using e by (simp add: entry_is_def)
  show ?thesis
  proof (cases "take (length nm) q = nm")
    case False
    then show ?thesis using r len l component_iff [OF nm(2), of q] by (simp add: entry_matches_def)
  next
    case True
    then have le: "length nm \<le> length q" by (metis length_take min.cobounded1)
    have "m (name + of_nat (length nm)) = Some (if length nm < length q then q ! length nm else 0)"
      using q le by (auto simp: is_cstring_def at_def)
    moreover have "q ! length nm \<noteq> 0" if "length nm < length q" using is_cstring_nth(2) [OF q that] .
    ultimately show ?thesis
      using r len l True le component_iff [OF nm(2), of q] by (auto simp: entry_matches_def read_byte_def)
  qed
qed

lemma spares_cstring:
  assumes "spares K S s s'" and "is_cstring (at (mem s) a) q" and "length q < 2 ^ 31"
    and "\<forall>y. in_region a (length q + 1) y \<longrightarrow> \<not> S y"
  shows "is_cstring (at (mem s') a) q"
proof -
  have "mem s' (a + of_nat k) = mem s (a + of_nat k)" if "k \<le> length q" for k
    using in_region_add [of k "length q + 1" a] that assms(1,3,4) by (simp add: spares_def)
  then show ?thesis using assms(2) by (simp add: is_cstring_def at_def)
qed

subsection \<open>The entries of a directory\<close>

text \<open>
  The bytes of a directory from \<open>x\<close> on are the given entries (inode, name, record length), one after the other.
  Names have neither a terminator nor a separator in them.
\<close>

type_synonym dirent = "u32 \<times> u8 list \<times> nat"

definition entry_at :: "(nat \<Rightarrow> u8) \<Rightarrow> nat \<Rightarrow> nat \<Rightarrow> dirent \<Rightarrow> bool" where
  "entry_at g sz x e \<longleftrightarrow>
     (case e of (i, nm, rl) \<Rightarrow>
        x + rl \<le> sz \<and> 8 + length nm \<le> rl \<and> rl < 2 ^ 16 \<and> length nm < 256 \<and> 0 \<notin> set nm \<and> sep \<notin> set nm \<and>
        le32 g x = i \<and> le16 g (x + 4) = of_nat rl \<and> g (x + 6) = of_nat (length nm) \<and> (\<forall>k < length nm. g (x + 8 + k) = nm ! k))"

fun dir_layout :: "(nat \<Rightarrow> u8) \<Rightarrow> nat \<Rightarrow> nat \<Rightarrow> dirent list \<Rightarrow> bool" where
  "dir_layout g sz x [] = (x = sz)"
| "dir_layout g sz x ((i, nm, rl) # es) = (entry_at g sz x (i, nm, rl) \<and> dir_layout g sz (x + rl) es)"

fun dir_lookup :: "dirent list \<Rightarrow> u8 list \<Rightarrow> u32 option" where
  "dir_lookup [] c = None"
| "dir_lookup ((i, nm, rl) # es) c = (if nm = c then Some i else dir_lookup es c)"

text \<open>The raw entry becomes one in host byte order.\<close>

lemma entry_to_cpu:
  assumes h: "holds m ea n (\<lambda>i. g (x + i))" and e: "entry_at g sz x (i, nm, rl)" and n: "8 + length nm \<le> n"
  shows "\<exists>m1 m2. le32_to_cpu ea ea [0] m = Some m1 \<and> le16_to_cpu ea ea [4] m1 = Some m2 \<and> same_dom m m2 \<and>
           (\<forall>y. \<not> in_region ea 8 y \<longrightarrow> m2 y = m y) \<and> read_word m2 (ea + 4) = Some (of_nat rl) \<and> entry_is ea i nm m2"
proof -
  have l: "read_long m (ea + of_nat 0) = Some (be32 (\<lambda>i. g (x + i)) 0)" by (rule read_long_holds [OF h]) (use n in simp)
  have w: "read_word m (ea + of_nat 4) = Some (be16 (\<lambda>i. g (x + i)) 4)" by (rule read_word_holds [OF h]) (use n in simp)
  have il: "bswap32 (be32 (\<lambda>i. g (x + i)) 0) = i" "bswap16 (be16 (\<lambda>i. g (x + i)) 4) = of_nat rl"
    using e by (simp_all add: bswap_be le_shift entry_at_def)
  from l write_long_mapped [OF read_long_mapped [of m ea], of _ i] obtain m1 where m1: "write_long m ea i = Some m1" by auto
  have w1: "read_word m1 (ea + 4) = Some (be16 (\<lambda>i. g (x + i)) 4)"
  proof -
    have "read_word m1 (ea + 4) = read_word m (ea + 4)"
      by (rule word_acc.rd_local) (use long_acc.wr_frame [OF m1] fields_apart [of 0 4 4 2 ea] in \<open>auto simp: apart_def\<close>)
    then show ?thesis using w by simp
  qed
  then have "read_word m1 (ea + 4) \<noteq> None" by simp
  then have "write_word m1 (ea + 4) (of_nat rl) \<noteq> None" by (simp only: word_acc.rd_succeeds word_acc.wr_succeeds)
  then obtain m2 where m2: "write_word m1 (ea + 4) (of_nat rl) = Some m2" by blast
  have r8: "in_region ea 8 y" if "in_region ea 4 y \<or> in_region (ea + 4) 2 y" for y
    using that in_region_sub [of ea 4 2 y 8] by (auto simp: in_region_def)
  have fr: "m2 y = m y" if "\<not> in_region ea 4 y" "\<not> in_region (ea + 4) 2 y" for y
    using that word_acc.wr_frame [OF m2] long_acc.wr_frame [OF m1] by simp
  have far: "m2 (ea + of_nat k) = Some (g (x + k))" if "6 \<le> k" "k < n" "k < 2 ^ 32" for k
  proof -
    have "unat (of_nat k :: u32) = k" using that by (simp add: unat_of_nat_small)
    moreover have "unat (of_nat k - 4 :: u32) = k - 4"
      using that unat_of_nat_small [of "k - 4", where ?'a = 32] by (simp add: of_nat_diff)
    ultimately have "\<not> in_region ea 4 (ea + of_nat k)" "\<not> in_region (ea + 4) 2 (ea + of_nat k)"
      using that by (simp_all add: in_region_def)
    then show ?thesis using fr holdsD [OF h that(2)] by simp
  qed
  have "read_long m2 ea = Some i"
  proof -
    have "read_long m2 ea = read_long m1 ea"
      by (rule long_acc.rd_local) (use word_acc.wr_frame [OF m2] fields_apart [of 0 4 4 2 ea] in \<open>auto simp: apart_def\<close>)
    then show ?thesis using long_acc.rd_wr_same [OF m1] by simp
  qed
  moreover have "m2 (ea + 8 + of_nat k) = Some (nm ! k)" if "k < length nm" for k
    using far [of "8 + k"] that e n by (auto simp: entry_at_def add.assoc)
  moreover have "read_byte m2 (ea + 6) = Some (of_nat (length nm))"
    using far [of 6] e n by (simp add: read_byte_def entry_at_def)
  ultimately have "entry_is ea i nm m2" using e by (simp add: entry_is_def entry_at_def)
  moreover have "same_dom m m2" using long_acc.wr_dom [OF m1] word_acc.wr_dom [OF m2] by (simp add: same_dom_def)
  moreover have "\<forall>y. \<not> in_region ea 8 y \<longrightarrow> m2 y = m y" using fr r8 by blast
  ultimately show ?thesis
    using l w1 m1 m2 il word_acc.rd_wr_same [OF m2] by (simp add: le32_to_cpu_def le16_to_cpu_def to_cpu.simps)
qed

text \<open>A directory open for reading: its inode at \<open>ia\<close>, room for an entry at \<open>ea\<close>, and its entries.\<close>

definition dir_open :: "'w io_env \<Rightarrow> 'w disk \<Rightarrow> vol \<Rightarrow> ucell \<Rightarrow> u32 \<Rightarrow> (nat \<Rightarrow> u32) \<Rightarrow> ucell \<Rightarrow> 'w fstate \<Rightarrow> bool" where
  "dir_open E K V ia sz bl ea s \<longleftrightarrow>
     file_ok E K V ia sz bl 0 (file_blocks V sz) s \<and> unat sz < 2 ^ 31 \<and> dest_ok E K V (inode_cells ia sz bl) (mem s) ea 264"

lemma dir_entry_step:
  assumes dev: "disk_device (pkg E) K" and o': "dir_open E K V ia sz bl ea s"
    and e: "entry_at (file_byte K V (world s) bl) (unat sz) x (i, nm, rl)"
  shows "\<exists>s'. ext2_dir_entry E (v_at V) ia (int x) ea s = Some (int (x + rl), s') \<and> dir_open E K V ia sz bl ea s' \<and>
           spares K (\<lambda>y. vol_scratch K V y \<or> in_region ea 264 y) s s' \<and> entry_is ea i nm (mem s')"
proof -
  from o' have fl: "file_ok E K V ia sz bl 0 (file_blocks V sz) s" and sz: "unat sz < 2 ^ 31"
    and d: "dest_ok E K V (inode_cells ia sz bl) (mem s) ea 264" by (simp_all add: dir_open_def)
  from e have x: "x < unat sz" "x + rl \<le> unat sz" "8 + length nm \<le> rl" "length nm < 256" "rl < 2 ^ 16" by (auto simp: entry_at_def)
  define n where "n = min 264 (unat sz - x)"
  have n: "n \<le> 264" "8 + length nm \<le> n" using x by (auto simp: n_def)
  have dn: "dest_ok E K V (inode_cells ia sz bl) (mem s) ea n" using dest_ok_sub [OF d, of 0 n] n by simp
  from read_data_in_file [OF dev fl sz x(1) _ n_def dn] x sz obtain s1 where
    s1: "ext2_read_data E (v_at V) ia (int x) ea 264 s = Some (int n, s1)"
      "has_read E K V s ea n (\<lambda>i. file_byte K V (world s) bl (x + i)) s1" by auto
  from s1(2) have h: "holds (mem s1) ea n (\<lambda>i. file_byte K V (world s) bl (x + i))" and ok1: "vol_ok E K V s1"
    and k1: "spares K (\<lambda>y. vol_scratch K V y \<or> in_region ea n y) s s1" by (simp_all add: has_read_def)
  from entry_to_cpu [OF h e n(2)] obtain m1 m2 where
    m: "le32_to_cpu ea ea [0] (mem s1) = Some m1" "le16_to_cpu ea ea [4] m1 = Some m2" "same_dom (mem s1) m2"
      "\<forall>y. \<not> in_region ea 8 y \<longrightarrow> m2 y = mem s1 y" "read_word m2 (ea + 4) = Some (of_nat rl)" "entry_is ea i nm m2" by blast
  have sub: "in_region ea 264 y" if "in_region ea k y" "k \<le> 264" for y k using that by (simp add: in_region_def)
  have d1: "dest_ok E K V (inode_cells ia sz bl) (mem s1) ea 264" using dest_ok_dom [OF _ d] k1 by (simp add: spares_def)
  have fr: "m2 y = mem s1 y" if "\<not> in_region ea 264 y" for y using m(4) sub [of 8 y] that by auto
  note st = vol_ok_store [OF dev ok1 d1 m(3) fr]
  have k: "spares K (\<lambda>y. vol_scratch K V y \<or> in_region ea 264 y) s (s1\<lparr>mem := m2\<rparr>)"
    by (rule spares_mono [OF spares_or [OF k1 st(2)]]) (use sub n(1) in auto)
  have "cells_clear (\<lambda>y. vol_scratch K V y \<or> in_region ea 264 y) (inode_cells ia sz bl)"
    using fl d by (intro cells_clear_or) (simp_all add: file_ok_def dest_ok_def cells_clear_append)
  then have "cells_hold m2 (inode_cells ia sz bl)" using spares_cells [OF k] fl by (simp add: file_ok_def)
  then have "dir_open E K V ia sz bl ea (s1\<lparr>mem := m2\<rparr>)"
    using st(1) fl sz spares_listed(4) [OF k] dest_ok_dom [OF m(3) d1] by (simp add: dir_open_def file_ok_def)
  moreover have "uint (of_nat rl :: u16) = int rl" using x(5) by (simp add: uint_nat unat_of_nat_small)
  then have "ext2_dir_entry E (v_at V) ia (int x) ea s = Some (int (x + rl), s1\<lparr>mem := m2\<rparr>)"
    using s1(1) m x sz by (simp add: ext2_dir_entry_def cint_def)
  ultimately show ?thesis using k m(6) by auto
qed

text \<open>Looking for the first component of the path \<open>q\<close> at \<open>name\<close>.\<close>

lemma entry_loop_step:
  assumes "disk_device (pkg E) K" and "dir_open E K V ia sz bl ea s" and "is_cstring (at (mem s) name) q"
    and "\<forall>y. in_region name (length q + 1) y \<longrightarrow> \<not> (vol_scratch K V y \<or> in_region ea 264 y)" and "length q < 2 ^ 31"
    and "dir_layout (file_byte K V (world s) bl) (unat sz) x es"
  shows "\<exists>s'. entry_loop E (v_at V) ia ea name (int x) s = Some (dir_lookup es (component q) \<noteq> None, s') \<and>
           dir_open E K V ia sz bl ea s' \<and> spares K (\<lambda>y. vol_scratch K V y \<or> in_region ea 264 y) s s' \<and>
           (\<forall>i. dir_lookup es (component q) = Some i \<longrightarrow> entry_is ea i (component q) (mem s'))"
  using assms
proof (induction es arbitrary: x s)
  case Nil
  then have ok: "vol_ok E K V s" "cells_hold (mem s) (inode_cells ia sz bl)" and x: "x = unat sz" by (simp_all add: dir_open_def file_ok_def)
  have "ext2_read_data E (v_at V) ia (int x) ea 264 s = Some (- 1, s)" by (rule read_data_past_end [OF ok]) (simp add: x)
  then have "ext2_dir_entry E (v_at V) ia (int x) ea s = Some (- 1, s)" by (simp add: ext2_dir_entry_def)
  then show ?case using Nil by (subst entry_loop.simps) simp
next
  case (Cons e es)
  obtain i nm rl where e: "e = (i, nm, rl)" by (cases e) auto
  with Cons.prems(6) have ea: "entry_at (file_byte K V (world s) bl) (unat sz) x (i, nm, rl)"
    and lay: "dir_layout (file_byte K V (world s) bl) (unat sz) (x + rl) es" by simp_all
  from dir_entry_step [OF Cons.prems(1,2) ea] obtain s1 where
    s1: "ext2_dir_entry E (v_at V) ia (int x) ea s = Some (int (x + rl), s1)" "dir_open E K V ia sz bl ea s1"
      "spares K (\<lambda>y. vol_scratch K V y \<or> in_region ea 264 y) s s1" "entry_is ea i nm (mem s1)" by blast
  have nm: "0 \<notin> set nm" "sep \<notin> set nm" using ea by (simp_all add: entry_at_def)
  have q1: "is_cstring (at (mem s1) name) q" by (rule spares_cstring [OF s1(3) Cons.prems(3,5,4)])
  have neg: "int (x + rl) \<noteq> - 1" by simp
  have step: "entry_loop E (v_at V) ia ea name (int x) s =
      (if nm = component q then Some (True, s1) else entry_loop E (v_at V) ia ea name (int (x + rl)) s1)"
    using neg by (subst entry_loop.simps) (simp add: s1(1) entry_matches_eq [OF s1(4) q1 nm] del: of_nat_add)
  show ?case
  proof (cases "nm = component q")
    case True
    then show ?thesis using step s1 e by auto
  next
    case False
    have fb: "file_byte K V (world s1) bl = file_byte K V (world s) bl" by (simp add: file_byte_def spares_listed [OF s1(3)] fun_eq_iff)
    from Cons.IH [OF Cons.prems(1) s1(2) q1 Cons.prems(4,5), of "x + rl"] lay fb obtain s2 where
      "entry_loop E (v_at V) ia ea name (int (x + rl)) s1 = Some (dir_lookup es (component q) \<noteq> None, s2)"
      "dir_open E K V ia sz bl ea s2" "spares K (\<lambda>y. vol_scratch K V y \<or> in_region ea 264 y) s1 s2"
      "\<forall>i. dir_lookup es (component q) = Some i \<longrightarrow> entry_is ea i (component q) (mem s2)" by auto
    then show ?thesis using step False e spares_trans [OF s1(3)] by auto
  qed
qed

subsection \<open>Paths\<close>

function path_components :: "u8 list \<Rightarrow> u8 list list" where
  "path_components p =
     (case dropWhile (\<lambda>c. c = sep) p of
        [] \<Rightarrow> []
      | c # q \<Rightarrow> component (c # q) # path_components (drop (length (component (c # q))) (c # q)))"
  by auto
termination
proof (relation "measure length", simp)
  fix p c and q :: "u8 list"
  assume p: "dropWhile (\<lambda>c. c = sep) p = c # q"
  then have "c \<noteq> sep" using hd_dropWhile [of "\<lambda>c. c = sep" p] by simp
  then have "length (drop (length (component (c # q))) (c # q)) < length (c # q)" by (simp add: component_def)
  also have "\<dots> \<le> length p" using p length_dropWhile_le [of "\<lambda>c. c = sep" p] by simp
  finally show "(drop (length (component (c # q))) (c # q), p) \<in> measure length" by simp
qed

declare path_components.simps [simp del]

lemma is_cstring_drop:
  assumes "is_cstring (at m a) p" and "k \<le> length p"
  shows "is_cstring (at m (a + of_nat k)) (drop k p)"
proof -
  have "at m (a + of_nat k) j = at m a (k + j)" for j by (simp add: at_def add.assoc)
  then show ?thesis using assms by (auto simp: is_cstring_def dest: in_set_dropD)
qed

lemma skip_separators_eq:
  assumes "is_cstring (at m name) p"
  shows "\<exists>k \<le> length p. skip_separators m name = Some (name + of_nat k) \<and> drop k p = dropWhile (\<lambda>c. c = sep) p"
  using assms
proof (induction p arbitrary: name)
  case Nil
  then show ?case by (subst skip_separators.simps) (simp add: is_cstring_def at_def read_byte_def)
next
  case (Cons c p)
  have c: "read_byte m name = Some c" using Cons.prems by (force simp: is_cstring_def at_def read_byte_def)
  show ?case
  proof (cases "c = sep")
    case True
    have "is_cstring (at m (name + of_nat 1)) (drop 1 (c # p))" by (rule is_cstring_drop [OF Cons.prems]) simp
    with Cons.IH [of "name + 1"] obtain k where
      "k \<le> length p" "skip_separators m (name + 1) = Some (name + 1 + of_nat k)" "drop k p = dropWhile (\<lambda>c. c = sep) p" by auto
    then show ?thesis
      using True c by (intro exI [of _ "Suc k"], subst skip_separators.simps) (simp add: add.assoc)
  next
    case False
    then show ?thesis using c by (intro exI [of _ 0], subst skip_separators.simps) simp
  qed
qed

text \<open>What the directories say: the directory of each inode on the way is well formed, and the path leads to an inode or nowhere.\<close>

definition dir_ok :: "'w disk \<Rightarrow> vol \<Rightarrow> geo \<Rightarrow> 'w \<Rightarrow> u32 \<Rightarrow> dirent list \<Rightarrow> bool" where
  "dir_ok K V G w ino es \<longleftrightarrow>
     (let f = disk_inode K V G w (unat ino); sz = le32 f 4; bl = disk_block f
      in ino_ok K V G w (unat ino) \<and> unat sz < 2 ^ 31 \<and> (\<forall>n < file_blocks V sz. bmap_ok K V w bl n) \<and>
         dir_layout (file_byte K V w bl) (unat sz) 0 es)"

fun walk_ok :: "'w disk \<Rightarrow> vol \<Rightarrow> geo \<Rightarrow> 'w \<Rightarrow> (u32 \<Rightarrow> dirent list) \<Rightarrow> u32 \<Rightarrow> u8 list list \<Rightarrow> bool" where
  "walk_ok K V G w T ino [] = True"
| "walk_ok K V G w T ino (c # cs) =
     (dir_ok K V G w ino (T ino) \<and> (case dir_lookup (T ino) c of None \<Rightarrow> True | Some i \<Rightarrow> walk_ok K V G w T i cs))"

fun resolve :: "(u32 \<Rightarrow> dirent list) \<Rightarrow> u32 \<Rightarrow> u8 list list \<Rightarrow> u32" where
  "resolve T ino [] = ino"
| "resolve T ino (c # cs) = (case dir_lookup (T ino) c of None \<Rightarrow> 0 | Some i \<Rightarrow> resolve T i cs)"

lemma spares_dirs:
  assumes "spares K S s s'"
  shows "dir_ok K V G (world s') = dir_ok K V G (world s)" "walk_ok K V G (world s') T ino cs = walk_ok K V G (world s) T ino cs"
proof -
  have "file_byte K V (world s') = file_byte K V (world s)" by (simp add: file_byte_def spares_listed [OF assms] fun_eq_iff)
  then show d: "dir_ok K V G (world s') = dir_ok K V G (world s)"
    by (intro ext) (simp add: dir_ok_def spares_inode [OF assms] spares_listed [OF assms])
  show "walk_ok K V G (world s') T ino cs = walk_ok K V G (world s) T ino cs"
    by (induction cs arbitrary: ino) (simp_all add: d split: option.split)
qed

lemma inode_cells_inside:
  assumes "(a, v) \<in> set (inode_cells ia sz bl)" and "in_region a 4 y"
  shows "in_region ia 128 y"
proof -
  from assms(1) obtain j where j: "a = ia + of_nat j" "j + 4 \<le> 128"
    by (auto simp: inode_cells_def intro: that [of 4] that [of "40 + 4 * k" for k])
  from in_region_sub [of ia j 4 y 128] j assms(2) show ?thesis by simp
qed

lemma inode_room:
  assumes "dest_ok E K V cs m fr 424"
  shows "cells_clear (vol_scratch K V) (inode_cells fr sz bl)" "dest_ok E K V (inode_cells fr sz bl) m (fr + 128) 264"
    "dest_ok E K V cs m fr 128" "dest_ok E K V cs m (fr + 392) 32"
proof -
  note sub = dest_ok_sub [OF assms]
  show r: "dest_ok E K V cs m fr 128" "dest_ok E K V cs m (fr + 392) 32" using sub [of 0 128] sub [of 392 32] by simp_all
  show "cells_clear (vol_scratch K V) (inode_cells fr sz bl)"
    using r(1) inode_cells_inside [of _ _ fr sz bl] by (fastforce simp: cells_clear_def dest_ok_def)
  have "apart fr 128 (fr + 128) 264" using fields_apart [of 0 128 128 264 fr] by simp
  then have "cells_clear (in_region (fr + 128) 264) (inode_cells fr sz bl)"
    using inode_cells_inside [of _ _ fr sz bl] by (fastforce simp: cells_clear_def apart_def)
  then show "dest_ok E K V (inode_cells fr sz bl) m (fr + 128) 264"
    using sub [of 128 264] by (simp add: dest_ok_def cells_clear_append)
qed

text \<open>One step of the walk: the inode of the directory, and the entry.\<close>

lemma walk_step:
  assumes dev: "disk_device (pkg E) K" and g: "geo_vol E K V G s" and fr: "dest_ok E K V (geo_cells V G) (mem s) fr 424"
    and q: "is_cstring (at (mem s) name) q" "length q < 2 ^ 31"
    and sep: "\<forall>y. in_region name (length q + 1) y \<longrightarrow> \<not> (vol_scratch K V y \<or> in_region fr 424 y)"
    and d: "dir_ok K V G (world s) ino es"
  shows "\<exists>s1 s2. ext2_get_inode E (fr + 392) (v_at V) ino fr s = Some s1 \<and>
           entry_loop E (v_at V) fr (fr + 128) name 0 s1 = Some (dir_lookup es (component q) \<noteq> None, s2) \<and> geo_vol E K V G s2 \<and>
           spares K (\<lambda>y. vol_scratch K V y \<or> in_region fr 424 y) s s2 \<and>
           (\<forall>i. dir_lookup es (component q) = Some i \<longrightarrow> entry_is (fr + 128) i (component q) (mem s2))"
proof -
  let ?f = "disk_inode K V G (world s) (unat ino)" and ?S = "\<lambda>y. vol_scratch K V y \<or> in_region fr 424 y"
  let ?sz = "le32 ?f 4" and ?bl = "disk_block ?f"
  from d have i: "ino_ok K V G (world s) (unat ino)" "unat ?sz < 2 ^ 31" "\<forall>n < file_blocks V ?sz. bmap_ok K V (world s) ?bl n"
    "dir_layout (file_byte K V (world s) ?bl) (unat ?sz) 0 es" by (simp_all add: dir_ok_def Let_def)
  note room = inode_room [OF fr]
  from get_inode_step [OF dev g i(1) room(4,3)] obtain s1 where
    s1: "ext2_get_inode E (fr + 392) (v_at V) ino fr s = Some s1" "geo_vol E K V G s1"
      "spares K (\<lambda>x. vol_scratch K V x \<or> in_region (fr + 392) 32 x \<or> in_region fr 128 x) s s1" "inode_loaded fr ?f (mem s1)" by auto
  have in1: "in_region fr 424 y" if "in_region (fr + 392) 32 y \<or> in_region fr 128 y \<or> in_region (fr + 128) 264 y" for y
    using that in_region_sub [of fr 392 32 y 424] in_region_sub [of fr 128 264 y 424] by (auto simp: in_region_def)
  have k1: "spares K ?S s s1" by (rule spares_mono [OF s1(3)]) (use in1 in auto)
  have fr1: "dest_ok E K V (geo_cells V G) (mem s1) fr 424" using dest_ok_dom [OF _ fr] k1 by (simp add: spares_def)
  have fb: "file_byte K V (world s1) = file_byte K V (world s)" by (simp add: file_byte_def spares_listed [OF k1] fun_eq_iff)
  have o1: "dir_open E K V fr ?sz ?bl (fr + 128) s1"
    using s1(2,4) i(2,3) inode_room(1,2) [OF fr1] spares_listed(4) [OF k1]
    by (simp add: dir_open_def file_ok_def geo_vol_def inode_loaded_def)
  have q1: "is_cstring (at (mem s1) name) q" by (rule spares_cstring [OF k1 q sep])
  have lay: "dir_layout (file_byte K V (world s1) ?bl) (unat ?sz) 0 es" unfolding fb by (rule i(4))
  have "\<forall>y. in_region name (length q + 1) y \<longrightarrow> \<not> (vol_scratch K V y \<or> in_region (fr + 128) 264 y)" using sep in1 by blast
  from entry_loop_step [OF dev o1 q1 this q(2) lay] obtain s2 where
    s2: "entry_loop E (v_at V) fr (fr + 128) name 0 s1 = Some (dir_lookup es (component q) \<noteq> None, s2)"
      "dir_open E K V fr ?sz ?bl (fr + 128) s2" "spares K (\<lambda>y. vol_scratch K V y \<or> in_region (fr + 128) 264 y) s1 s2"
      "\<forall>i. dir_lookup es (component q) = Some i \<longrightarrow> entry_is (fr + 128) i (component q) (mem s2)" by auto
  have k2: "spares K ?S s1 s2" by (rule spares_mono [OF s2(3)]) (use in1 in auto)
  have "cells_clear ?S (geo_cells V G)"
    using fr g by (intro cells_clear_or) (simp_all add: dest_ok_def geo_vol_def cells_clear_append)
  from geo_vol_spares [OF k2 _ s1(2) this] s2(2) have "geo_vol E K V G s2" by (simp add: dir_open_def file_ok_def)
  then show ?thesis using s1(1) s2(1,4) spares_trans [OF k1 k2] by blast
qed

text \<open>The separators before the first component, and what follows it.\<close>

lemma path_head:
  assumes "is_cstring (at m name) p"
  shows "\<exists>k \<le> length p. skip_separators m name = Some (name + of_nat k) \<and>
           path_components p = (if drop k p = [] then []
             else component (drop k p) # path_components (drop (k + length (component (drop k p))) p)) \<and>
           (drop k p \<noteq> [] \<longrightarrow> component (drop k p) \<noteq> [])"
proof -
  from skip_separators_eq [OF assms] obtain k where
    k: "k \<le> length p" "skip_separators m name = Some (name + of_nat k)" "drop k p = dropWhile (\<lambda>c. c = sep) p" by blast
  define r where "r = dropWhile (\<lambda>c. c = sep) p"
  have "path_components p = (if r = [] then [] else component r # path_components (drop (length (component r)) r))"
    by (subst path_components.simps, fold r_def) (cases r; simp)
  then have "path_components p = (if drop k p = [] then []
             else component (drop k p) # path_components (drop (length (component (drop k p))) (drop k p)))"
    unfolding r_def k(3) .
  moreover have "component r \<noteq> []" if "r \<noteq> []"
    using that hd_dropWhile [of "\<lambda>c. c = sep" p] unfolding r_def [symmetric] by (cases r) (simp_all add: component_def)
  then have "drop k p \<noteq> [] \<longrightarrow> component (drop k p) \<noteq> []" unfolding r_def k(3) by blast
  ultimately show ?thesis using k(1,2) by (intro exI [of _ k]) (simp add: add.commute)
qed

lemma name_rest:
  assumes "\<forall>y. in_region name (length p + 1) y \<longrightarrow> \<not> S y" and "length p < 2 ^ 31" and "j \<le> length p"
  shows "\<forall>y. in_region (name + of_nat j) (length (drop j p) + 1) y \<longrightarrow> \<not> S y"
proof -
  have "j + (length (drop j p) + 1) \<le> length p + 1" "length p + 1 \<le> 2 ^ 32" using assms(2,3) by simp_all
  from in_region_sub [OF _ this] assms(1) show ?thesis by blast
qed

lemma seek_loop_step:
  assumes "disk_device (pkg E) K" and "geo_vol E K V G s" and "dest_ok E K V (geo_cells V G) (mem s) fr 424"
    and "is_cstring (at (mem s) name) p" and "length p < 2 ^ 31"
    and "\<forall>y. in_region name (length p + 1) y \<longrightarrow> \<not> (vol_scratch K V y \<or> in_region fr 424 y)"
    and "walk_ok K V G (world s) T ino (path_components p)"
  shows "\<exists>s'. seek_loop E fr (v_at V) ino name s = Some (resolve T ino (path_components p), s') \<and> geo_vol E K V G s' \<and>
           spares K (\<lambda>y. vol_scratch K V y \<or> in_region fr 424 y) s s'"
  using assms
proof (induction "length p" arbitrary: p name ino s rule: less_induct)
  case less
  note dev = less.prems(1) and g = less.prems(2) and fr = less.prems(3) and p = less.prems(4) and lp = less.prems(5)
    and sep = less.prems(6)
  from path_head [OF p] obtain k where k: "k \<le> length p" "skip_separators (mem s) name = Some (name + of_nat k)"
    and pc: "path_components p = (if drop k p = [] then []
               else component (drop k p) # path_components (drop (k + length (component (drop k p))) p))"
    and comp: "drop k p \<noteq> [] \<longrightarrow> component (drop k p) \<noteq> []" by blast
  define q n where "q = drop k p" and "n = length (component q)"
  have q: "is_cstring (at (mem s) (name + of_nat k)) q" unfolding q_def by (rule is_cstring_drop [OF p k(1)])
  show ?case
  proof (cases "q = []")
    case True
    then have "read_byte (mem s) (name + of_nat k) = Some 0" using q by (simp add: is_cstring_def at_def read_byte_def)
    then show ?thesis using g True by (subst seek_loop.simps) (simp add: k(2) pc q_def)
  next
    case False
    then have c0: "read_byte (mem s) (name + of_nat k) = Some (q ! 0)" "q ! 0 \<noteq> 0"
      using is_cstring_nth [OF q, of 0] by (simp_all add: at_def read_byte_def)
    have n: "0 < n" "k + n \<le> length p"
      using comp False k(1) length_takeWhile_le [of "\<lambda>c. c \<noteq> sep" q] by (auto simp: n_def q_def component_def)
    have pcq: "path_components p = component q # path_components (drop (k + n) p)" using pc False by (simp add: q_def n_def)
    have w: "dir_ok K V G (world s) ino (T ino)" using less.prems(7) by (simp add: pcq)
    have "length q < 2 ^ 31" using lp by (simp add: q_def)
    from walk_step [OF dev g fr q this name_rest [OF sep lp k(1), folded q_def] w] obtain s1 s2 where
      s2: "ext2_get_inode E (fr + 392) (v_at V) ino fr s = Some s1"
        "entry_loop E (v_at V) fr (fr + 128) (name + of_nat k) 0 s1 = Some (dir_lookup (T ino) (component q) \<noteq> None, s2)" "geo_vol E K V G s2"
        "spares K (\<lambda>y. vol_scratch K V y \<or> in_region fr 424 y) s s2"
        "\<forall>i. dir_lookup (T ino) (component q) = Some i \<longrightarrow> entry_is (fr + 128) i (component q) (mem s2)" by blast
    show ?thesis
    proof (cases "dir_lookup (T ino) (component q)")
      case None
      then have "seek_loop E fr (v_at V) ino name s = Some (0, s2)"
        using c0 by (subst seek_loop.simps) (simp add: k(2) s2(1,2))
      then show ?thesis using None s2(3,4) by (simp add: pcq)
    next
      case (Some i)
      have e: "entry_is (fr + 128) i (component q) (mem s2)" using s2(5) Some by blast
      then have "(ucast (of_nat n :: u8) :: u32) = of_nat n"
        by (simp add: entry_is_def n_def word_unat_eq_iff unsigned_ucast_eq take_bit_nat_eq_self unat_of_nat_small)
      then have step: "seek_loop E fr (v_at V) ino name s = seek_loop E fr (v_at V) i (name + of_nat (k + n)) s2"
        using c0 e Some by (subst seek_loop.simps) (simp add: k(2) s2(1,2) entry_is_def n_def add.assoc)
      have p2: "is_cstring (at (mem s2) (name + of_nat (k + n))) (drop (k + n) p)"
        by (rule is_cstring_drop [OF spares_cstring [OF s2(4) p lp sep] n(2)])
      have fr2: "dest_ok E K V (geo_cells V G) (mem s2) fr 424" using dest_ok_dom [OF _ fr] s2(4) by (simp add: spares_def)
      have lt: "length (drop (k + n) p) < length p" "length (drop (k + n) p) < 2 ^ 31" using n lp by simp_all
      have w2: "walk_ok K V G (world s2) T i (path_components (drop (k + n) p))"
        using less.prems(7) Some by (simp add: pcq spares_dirs(2) [OF s2(4)])
      from less.hyps [OF lt(1) dev s2(3) fr2 p2 lt(2) name_rest [OF sep lp n(2)] w2] obtain s3 where
        "seek_loop E fr (v_at V) i (name + of_nat (k + n)) s2 = Some (resolve T i (path_components (drop (k + n) p)), s3)"
        "geo_vol E K V G s3" "spares K (\<lambda>y. vol_scratch K V y \<or> in_region fr 424 y) s2 s3" by blast
      then show ?thesis using step Some spares_trans [OF s2(4)] by (auto simp: pcq)
    qed
  qed
qed

end
