(* ===== verification/Ext2_Props.thy ===== *)
theory Ext2_Props
  imports Ext2_Dirs
begin

text \<open>
  The properties of the ext2 package: reading a file, resolving a path, loading a whole file, seeking and probing; and
  the deblocker as the device under a volume.
\<close>

subsection \<open>Open files\<close>

definition file_cells :: "vol \<Rightarrow> ucell \<Rightarrow> ucell \<Rightarrow> (ucell \<times> u32) list" where
  "file_cells V fa ia = [(fa, v_at V), (fa + 4, ia)]"

text \<open>What a buffer of the caller must be clear of: the inode and the \<open>ext2_FILE\<close>, its offset included.\<close>

definition file_parts :: "vol \<Rightarrow> ucell \<Rightarrow> ucell \<Rightarrow> u32 \<Rightarrow> (nat \<Rightarrow> u32) \<Rightarrow> (ucell \<times> u32) list" where
  "file_parts V fa ia sz bl = inode_cells ia sz bl @ file_cells V fa ia @ [(fa + 8, 0)]"

definition open_file :: "'w io_env \<Rightarrow> 'w disk \<Rightarrow> vol \<Rightarrow> ucell \<Rightarrow> ucell \<Rightarrow> u32 \<Rightarrow> (nat \<Rightarrow> u32) \<Rightarrow> 'w fstate \<Rightarrow> bool" where
  "open_file E K V fa ia sz bl s \<longleftrightarrow>
     file_ok E K V ia sz bl 0 (file_blocks V sz) s \<and> unat sz < 2 ^ 31 \<and> cells_hold (mem s) (file_cells V fa ia) \<and>
     cells_clear (vol_scratch K V) (file_cells V fa ia) \<and>
     dest_ok E K V (inode_cells ia sz bl @ file_cells V fa ia) (mem s) (fa + 8) 4"

lemma dest_ok_less: "dest_ok E K V (cs @ cs') m a n \<Longrightarrow> dest_ok E K V cs m a n" "dest_ok E K V (cs @ cs') m a n \<Longrightarrow> dest_ok E K V cs' m a n"
  by (simp_all add: dest_ok_def cells_clear_append)

lemma open_file_spares:
  assumes f: "open_file E K V fa ia sz bl s" and k: "spares K S s s'" and ok: "vol_ok E K V s'"
    and sep: "cells_clear S (inode_cells ia sz bl @ file_cells V fa ia)"
  shows "open_file E K V fa ia sz bl s'"
proof -
  from f have "cells_hold (mem s) (inode_cells ia sz bl @ file_cells V fa ia)" by (simp add: open_file_def file_ok_def cells_hold_append)
  from spares_cells [OF k this sep] have "cells_hold (mem s') (inode_cells ia sz bl @ file_cells V fa ia)" .
  moreover have "dest_ok E K V (inode_cells ia sz bl @ file_cells V fa ia) (mem s') (fa + 8) 4"
    by (rule dest_ok_dom [of "mem s"]) (use f k in \<open>simp_all add: open_file_def spares_def\<close>)
  ultimately show ?thesis
    using f ok spares_listed(4) [OF k] by (simp add: open_file_def file_ok_def cells_hold_append)
qed

text \<open>Storing the offset of an open file.\<close>

lemma set_offset:
  assumes dev: "disk_device (pkg E) K" and f: "open_file E K V fa ia sz bl s"
  shows "\<exists>m'. write_long (mem s) (fa + 8) v = Some m' \<and> open_file E K V fa ia sz bl (s\<lparr>mem := m'\<rparr>) \<and>
           spares K (in_region (fa + 8) 4) s (s\<lparr>mem := m'\<rparr>) \<and> read_long m' (fa + 8) = Some v"
proof -
  from f have d: "dest_ok E K V (inode_cells ia sz bl @ file_cells V fa ia) (mem s) (fa + 8) 4" and ok: "vol_ok E K V s"
    by (simp_all add: open_file_def file_ok_def)
  from d write_long_mapped obtain m' where m': "write_long (mem s) (fa + 8) v = Some m'" by (fastforce simp: dest_ok_def)
  note st = vol_ok_store [OF dev ok d write_long_dom [OF m'] long_acc.wr_frame [OF m']]
  have k: "spares K (in_region (fa + 8) 4) s (s\<lparr>mem := m'\<rparr>)" by (rule st(2)) simp_all
  have "open_file E K V fa ia sz bl (s\<lparr>mem := m'\<rparr>)"
    by (rule open_file_spares [OF f k]) (use st(1) d in \<open>simp_all add: dest_ok_def cells_clear_append\<close>)
  then show ?thesis using m' k long_acc.rd_wr_same [OF m'] by blast
qed

lemma open_file_fields:
  assumes "open_file E K V fa ia sz bl s"
  shows "read_long (mem s) fa = Some (v_at V)" "read_long (mem s) (fa + 4) = Some ia" "i_size (mem s) ia = Some sz"
  using assms by (simp_all add: open_file_def file_ok_def cells_hold_def file_cells_def i_size_def inode_cells_def)

lemma lseek_set:
  assumes "read_long m (fa + 4) = Some ia" and "i_size m ia = Some sz" and "unat sz < 2 ^ 31" and "offset < 2 ^ 31"
  shows "ext2_lseek fa offset SEEK_SET m =
    (if 0 \<le> offset \<and> offset \<le> int (unat sz)
     then do { m \<leftarrow> write_long m (fa + 8) (word_of_int offset); Some (offset, m) } else Some (- 1, m))"
proof (cases "offset < 0")
  case False
  then obtain n where n: "offset = int n" by (metis nonneg_int_cases not_le)
  then have "unat (of_nat n :: u32) = n" using assms(4) by (simp add: unat_of_nat_small)
  then have "sz < of_nat n \<longleftrightarrow> unat sz < n" by (simp add: word_less_nat_alt)
  moreover have "int n \<le> uint sz \<longleftrightarrow> n \<le> unat sz" by (simp only: uint_nat of_nat_le_iff)
  ultimately show ?thesis using n assms by (auto simp: ext2_lseek_def)
qed (simp add: ext2_lseek_def)

lemma lseek_end:
  assumes "read_long m (fa + 4) = Some ia" and "i_size m ia = Some sz" and "unat sz < 2 ^ 31"
  shows "ext2_lseek fa 0 SEEK_END m = do { m \<leftarrow> write_long m (fa + 8) sz; Some (int (unat sz), m) }"
proof -
  have "sint sz = int (unat sz)" using assms(3) sint_of_nat [of "unat sz"] by simp
  then show ?thesis using assms(1,2) by (simp add: ext2_lseek_def SEEK_END_def SEEK_SET_def SEEK_CUR_def)
qed

lemma read_step:
  assumes dev: "disk_device (pkg E) K" and f: "open_file E K V fa ia sz bl s" and off: "read_long (mem s) (fa + 8) = Some (of_nat o')"
    and o': "o' < unat sz" and len: "o' + len < 2 ^ 32" and n: "n = min len (unat sz - o')"
    and d: "dest_ok E K V (file_parts V fa ia sz bl) (mem s) a n"
  shows "\<exists>s'. ext2_read E fa a (of_nat len) s = Some (of_nat n, s') \<and> open_file E K V fa ia sz bl s' \<and>
           spares K (\<lambda>y. vol_scratch K V y \<or> in_region a n y \<or> in_region (fa + 8) 4 y) s s' \<and>
           read_long (mem s') (fa + 8) = Some (of_nat (o' + n)) \<and> holds (mem s') a n (\<lambda>i. file_byte K V (world s) bl (o' + i))"
proof -
  from f have fl: "file_ok E K V ia sz bl 0 (file_blocks V sz) s" and sz: "unat sz < 2 ^ 31" by (simp_all add: open_file_def)
  have di: "dest_ok E K V (inode_cells ia sz bl) (mem s) a n" using d dest_ok_less(1) by (fastforce simp: file_parts_def)
  from read_data_in_file [OF dev fl sz o' len n di] obtain s1 where
    s1: "ext2_read_data E (v_at V) ia (int o') a (of_nat len) s = Some (int n, s1)"
      "has_read E K V s a n (\<lambda>i. file_byte K V (world s) bl (o' + i)) s1" by blast
  then have k1: "spares K (\<lambda>y. vol_scratch K V y \<or> in_region a n y) s s1" and h1: "holds (mem s1) a n (\<lambda>i. file_byte K V (world s) bl (o' + i))"
    and ok1: "vol_ok E K V s1" by (simp_all add: has_read_def)
  have sepf: "cells_clear (in_region a n) (inode_cells ia sz bl @ file_cells V fa ia @ [(fa + 8, 0)])"
    using d by (simp add: dest_ok_def file_parts_def cells_clear_append)
  have "cells_clear (\<lambda>y. vol_scratch K V y \<or> in_region a n y) (inode_cells ia sz bl @ file_cells V fa ia)"
    using sepf fl f by (intro cells_clear_or) (simp_all add: cells_clear_append file_ok_def open_file_def)
  from open_file_spares [OF f k1 ok1 this] have f1: "open_file E K V fa ia sz bl s1" .
  have ap: "\<not> in_region a n y" "\<not> vol_scratch K V y" if "in_region (fa + 8) 4 y" for y
    using that sepf f by (auto simp: cells_clear_def open_file_def dest_ok_def)
  have off1: "read_long (mem s1) (fa + 8) = Some (of_nat o')"
    using long_acc.rd_local [of "fa + 8" "mem s1" "mem s"] k1 ap off by (simp add: spares_def)
  have b: "o' < 2 ^ 31" "o' + n < 2 ^ 31" using o' sz n by auto
  from set_offset [OF dev f1, of "of_nat (o' + n)"] obtain m' where
    m': "write_long (mem s1) (fa + 8) (of_nat (o' + n)) = Some m'" "open_file E K V fa ia sz bl (s1\<lparr>mem := m'\<rparr>)"
      "spares K (in_region (fa + 8) 4) s1 (s1\<lparr>mem := m'\<rparr>)" "read_long m' (fa + 8) = Some (of_nat (o' + n))" by blast
  have si: "sint (of_nat o' :: u32) = int o'" using b by (simp add: sint_of_nat)
  have ci: "cint (int o' + int n) = Some (int (o' + n))" using b by (simp add: cint_def)
  have "int n \<noteq> - 1" by simp
  then have run: "ext2_read E fa a (of_nat len) s = Some (of_nat n, s1\<lparr>mem := m'\<rparr>)"
    using s1(1) m'(1) by (simp add: ext2_read_def file_offset_def open_file_fields [OF f] off off1 si ci)
  have "spares K (\<lambda>y. vol_scratch K V y \<or> in_region a n y \<or> in_region (fa + 8) 4 y) s (s1\<lparr>mem := m'\<rparr>)"
    by (rule spares_mono [OF spares_or [OF k1 m'(3)]]) auto
  moreover have "holds m' a n (\<lambda>i. file_byte K V (world s) bl (o' + i))"
    using spares_holds [OF m'(3) h1] ap(1) d by (auto simp: dest_ok_def)
  ultimately show ?thesis using run m' by auto
qed

subsection \<open>The methods\<close>

text \<open>The instance: \<open>ext2_info_t\<close> at \<open>mi\<close>, its \<open>ext2_COMMON\<close> of type \<open>FILE\<close>.\<close>

definition instance_cells :: "ucell \<Rightarrow> ucell \<Rightarrow> ucell \<Rightarrow> (ucell \<times> u32) list" where
  "instance_cells mi common fa = [(mi + 4, common), (common, FILE_TYPE), (common + 4, fa)]"

lemma open_file_popped:
  assumes "open_file E K V fa ia sz bl s" and "ds s = v # vs"
  shows "open_file E K V fa ia sz bl (popped s)" "ds_ok s"
  using assms by (auto simp: open_file_def file_ok_def vol_ok_def ds_popped ds_ok_popped)

lemma load_step:
  assumes dev: "disk_device (pkg (io X)) K" and f: "open_file (io X) K V fa ia sz bl s" and sz: "0 < unat sz"
    and c: "cells_hold (mem s) (instance_cells mi common fa)" and st: "ds s = buf # rest"
    and d: "dest_ok (io X) K V (file_parts V fa ia sz bl) (mem s) buf (unat sz)"
  shows "\<exists>s'. ext2_files_load X mi s = Some s' \<and> ds s' = sz # rest \<and> open_file (io X) K V fa ia sz bl (popped s') \<and>
           read_long (mem s') (fa + 8) = Some sz \<and> holds (mem s') buf (unat sz) (file_byte K V (world s) bl)"
proof -
  note f0 = open_file_popped [OF f st]
  have szb: "unat sz < 2 ^ 31" using f by (simp add: open_file_def)
  from set_offset [OF dev f0(1), of sz] obtain m1 where
    m1: "write_long (mem s) (fa + 8) sz = Some m1" "open_file (io X) K V fa ia sz bl ((popped s)\<lparr>mem := m1\<rparr>)"
      "spares K (in_region (fa + 8) 4) (popped s) ((popped s)\<lparr>mem := m1\<rparr>)" "read_long m1 (fa + 8) = Some sz" by auto
  from set_offset [OF dev m1(2), of 0] obtain m2 where
    m2: "write_long m1 (fa + 8) 0 = Some m2" "open_file (io X) K V fa ia sz bl ((popped s)\<lparr>mem := m2\<rparr>)"
      "spares K (in_region (fa + 8) 4) ((popped s)\<lparr>mem := m1\<rparr>) ((popped s)\<lparr>mem := m2\<rparr>)" "read_long m2 (fa + 8) = Some 0" by auto
  have d2: "dest_ok (io X) K V (file_parts V fa ia sz bl) m2 buf (unat sz)"
    using dest_ok_dom [OF same_dom_trans d, of m1 m2] m1(3) m2(3) by (simp add: spares_def)
  from read_step [OF dev m2(2), of 0 "unat sz" "unat sz" buf] sz szb m2(4) d2 obtain s' where
    s': "ext2_read (io X) fa buf sz ((popped s)\<lparr>mem := m2\<rparr>) = Some (sz, s')" "open_file (io X) K V fa ia sz bl s'"
      "spares K (\<lambda>y. vol_scratch K V y \<or> in_region buf (unat sz) y \<or> in_region (fa + 8) 4 y) ((popped s)\<lparr>mem := m2\<rparr>) s'"
      "read_long (mem s') (fa + 8) = Some sz" "holds (mem s') buf (unat sz) (file_byte K V (world s) bl)" by auto
  have e: "ext2_lseek fa 0 SEEK_END (mem s) = Some (int (unat sz), m1)"
    using lseek_end [OF open_file_fields(2,3) [OF f] szb] m1(1) by simp
  have se: "ext2_lseek fa 0 SEEK_SET m1 = Some (0, m2)"
    using lseek_set [of m1 fa ia sz 0] open_file_fields(2,3) [OF m1(2)] szb m2(1) by simp
  have si: "word_of_int (sint sz) = sz" by simp
  have ds': "ds s' = rest" "ds_ok s'" "length (ds s') < 511"
    using s'(3) f0(2) st s'(2) by (auto simp: spares_def ds_popped open_file_def file_ok_def vol_ok_def)
  have c': "read_long (mem s) (mi + 4) = Some common" "read_long (mem s) common = Some FILE_TYPE" "read_long (mem s) (common + 4) = Some fa"
    using c by (simp_all add: cells_hold_def instance_cells_def)
  have "ext2_files_load X mi s = Some (pushed sz s')"
    using ds' by (simp add: ext2_files_load_def pop_step [OF f0(2) st] c' e se file_offset_def m1(4) si s'(1) push_step)
  moreover have "open_file (io X) K V fa ia sz bl (popped (pushed sz s'))"
    using s'(2) popped_pushed [OF ds'(2,3)] by (simp add: open_file_def file_ok_def vol_ok_def)
  ultimately show ?thesis using ds' s'(4,5) by (auto simp: ds_pushed)
qed

lemma join_cells_low: "(ucast (join_cells hi lo) :: u32) = lo"
  by (rule bit_word_eqI) (auto simp: join_cells_def bit_simps)

lemma seek_method_step:
  assumes dev: "disk_device (pkg (io X)) K" and f: "open_file (io X) K V fa ia sz bl s"
    and c: "cells_hold (mem s) (instance_cells mi common fa)" and st: "ds s = hi # lo # rest"
  shows "\<exists>s'. ext2_files_seek X mi s = Some s' \<and> ds s' = (if lo = 0 then 0 else - 1) # rest \<and>
           (if lo \<le> sz then read_long (mem s') (fa + 8) = Some lo \<and> open_file (io X) K V fa ia sz bl (popped s') else mem s' = mem s)"
proof -
  let ?s = "popped (popped s)"
  have ok: "ds_ok s" "ds_ok ?s" "ds ?s = rest" "length rest < 511"
    using f st by (auto simp: open_file_def file_ok_def vol_ok_def ds_popped ds_ok_popped)
  have f0: "open_file (io X) K V fa ia sz bl ?s"
    using open_file_popped(1) [OF open_file_popped(1) [OF f st], of lo rest] ok(1) st by (simp add: ds_popped)
  have szb: "unat sz < 2 ^ 31" using f by (simp add: open_file_def)
  have pop: "DPOP s = Some (join_cells hi lo, ?s)" by (rule DPOP_step [OF ok(1) st])
  have c': "read_long (mem s) (mi + 4) = Some common" "read_long (mem s) common = Some FILE_TYPE" "read_long (mem s) (common + 4) = Some fa"
    using c by (simp_all add: cells_hold_def instance_cells_def)
  note ls = lseek_set [OF open_file_fields(2,3) [OF f] szb, of "sint lo"]
  have lt: "sint lo < 2 ^ 31" using sint_lt [of lo] by simp
  show ?thesis
  proof (cases "lo \<le> sz")
    case True
    then have u: "unat lo \<le> unat sz" by (simp add: word_le_nat_alt)
    then have s: "sint lo = int (unat lo)" using szb sint_of_nat [of "unat lo"] by simp
    from set_offset [OF dev f0, of lo] obtain m' where
      m': "write_long (mem s) (fa + 8) lo = Some m'" "open_file (io X) K V fa ia sz bl (?s\<lparr>mem := m'\<rparr>)" "read_long m' (fa + 8) = Some lo" by auto
    have cond: "0 \<le> sint lo \<and> sint lo \<le> int (unat sz)" using u by (simp only: s of_nat_le_iff of_nat_0_le_iff simp_thms)
    have "ext2_lseek fa (sint lo) SEEK_SET (mem s) = Some (sint lo, m')" unfolding ls [OF lt] if_P [OF cond] using m'(1) by simp
    moreover have "sint lo = 0 \<longleftrightarrow> lo = 0" by (metis sint_0 signed_word_eqI)
    ultimately have "ext2_files_seek X mi s = Some (pushed (if lo = 0 then 0 else - 1) (?s\<lparr>mem := m'\<rparr>))"
      using ok by (simp add: ext2_files_seek_def pop join_cells_low c' push_step)
    moreover have "open_file (io X) K V fa ia sz bl (popped (pushed v (?s\<lparr>mem := m'\<rparr>)))" for v
      using m'(2) popped_pushed [of "?s\<lparr>mem := m'\<rparr>" v] ok by (simp add: open_file_def file_ok_def vol_ok_def)
    ultimately show ?thesis using True ok m'(3) by (auto simp: ds_pushed)
  next
    case False
    then have u: "unat sz < unat lo" by (simp add: word_le_nat_alt)
    have "\<not> (0 \<le> sint lo \<and> sint lo \<le> int (unat sz))"
    proof
      assume a: "0 \<le> sint lo \<and> sint lo \<le> int (unat sz)"
      then obtain k where k: "sint lo = int k" by (metis nonneg_int_cases)
      have "word_of_int (sint lo) = lo" by simp
      then have "lo = of_nat k" unfolding k by simp
      moreover have "k \<le> unat sz" using a by (simp only: k of_nat_le_iff)
      ultimately show False using u szb by (simp add: unat_of_nat_small)
    qed
    then have "ext2_lseek fa (sint lo) SEEK_SET (mem s) = Some (- 1, mem s)" unfolding ls [OF lt] by (rule if_not_P)
    moreover have "lo \<noteq> 0" using u by auto
    moreover have same: "?s\<lparr>mem := mem s\<rparr> = ?s" by (simp add: popped_def)
    ultimately have "ext2_files_seek X mi s = Some (pushed (- 1) ?s)"
      using ok by (simp add: same ext2_files_seek_def pop join_cells_low c' push_step)
    then show ?thesis using False \<open>lo \<noteq> 0\<close> ok by (auto simp: ds_pushed)
  qed
qed

text \<open>What probing needs: the descriptor, room on the heap \<open>H\<close> for a super block, and a super block on the device.\<close>

definition probe_ready :: "'w io_env \<Rightarrow> 'w disk \<Rightarrow> (ucell \<Rightarrow> bool) \<Rightarrow> nat \<Rightarrow> ucell \<Rightarrow> 'w fstate \<Rightarrow> bool" where
  "probe_ready E K H fd fdp s \<longleftrightarrow>
     disk_device (pkg E) K \<and> allocates (pkg E) 1024 H (d_needs K) \<and> fd < 32 \<and> cells_hold (mem s) (fd_cells E K fd fdp) \<and>
     cells_clear (\<lambda>x. H x \<or> d_scratch K x) (fd_cells E K fd fdp) \<and> (\<forall>x. H x \<longrightarrow> \<not> d_scratch K x) \<and>
     d_needs K (mem s) (world s) \<and> ds_ok s \<and> length (ds s) \<le> 480"

lemma probe_step:
  assumes r: "probe_ready E K H fd fdp s" and offs: "unat offs + 2048 \<le> d_size K"
  shows "\<exists>s'. ext2_probe E (int fd) offs s =
             Some (if le16 (d_data K (world s)) (unat offs + 1080) = EXT2_SUPER_MAGIC then - 1 else 0, s') \<and>
           ds s' = ds s \<and> d_data K (world s') = d_data K (world s)"
proof -
  from r have dev: "disk_device (pkg E) K" and al: "allocates (pkg E) 1024 H (d_needs K)" and c: "cells_hold (mem s) (fd_cells E K fd fdp)" "fd < 32"
    and sep: "cells_clear (\<lambda>x. H x \<or> d_scratch K x) (fd_cells E K fd fdp)" "\<forall>x. H x \<longrightarrow> \<not> d_scratch K x"
    and st: "ds_ok s" "length (ds s) \<le> 480" "d_needs K (mem s) (world s)" by (simp_all add: probe_ready_def)
  from al st(3) obtain q s1 where
    s1: "malloc (pkg E) 1024 s = Some (q, s1)" "dstackcnt s1 = dstackcnt s" "dstack s1 = dstack s" "world s1 = world s" "same_dom (mem s) (mem s1)"
      "\<forall>x. \<not> H x \<longrightarrow> mem s1 x = mem s x" "mapped (mem s1) q 1024" "\<forall>x. in_region q 1024 x \<longrightarrow> H x"
    unfolding allocates_def by fastforce
  have d1: "ds_ok s1" "ds s1 = ds s" using s1(2,3) st(1) by (simp_all add: ds_ok_def ds_def)
  have "spares K H s s1" using s1 d1 by (simp add: spares_def)
  from spares_cells [OF this c(1) cells_clear_mono [OF sep(1)]] have c1: "cells_hold (mem s1) (fd_cells E K fd fdp)" by simp
  have n1: "d_needs K (mem s1) (world s1)" using st(3) s1(4,5) dev by (auto simp: disk_device_def)
  have "d_size K \<le> 2 ^ 63" using dev by (simp add: disk_device_def)
  then have "1024 + unat offs < 2 ^ 64" using offs by simp
  then have pos: "unat (1024 + offs) = 1024 + unat offs" by (simp add: unat_word_ariths)
  then have "unat (1024 + offs) \<le> d_size K" using offs by simp
  from seek_io_step [OF dev c1 c(2) d1(1) _ n1 this] d1 st obtain s2 where
    s2: "seek_io E (int fd) (1024 + offs) s1 = Some (0, s2)" "ds_ok s2" "ds s2 = ds s" "mem s2 = mem s1"
      "d_data K (world s2) = d_data K (world s)" "d_pos K (world s2) = 1024 + unat offs" "d_needs K (mem s2) (world s2)"
    by (auto simp: pos s1(4))
  have c2: "cells_hold (mem s2) (fd_cells E K fd fdp)" using c1 s2(4) by simp
  have m2: "mapped (mem s2) q 1024" "\<forall>x. in_region q 1024 x \<longrightarrow> \<not> d_scratch K x" using s1(7,8) s2(4) sep(2) by auto
  from read_io_step [OF dev c2 c(2) s2(2) _ s2(7), of 1024 q] st(2) s2 m2 offs obtain s3 where
    s3: "read_io E (int fd) q 1024 s2 = Some (1024, s3)" "ds_ok s3" "ds s3 = ds s" "d_data K (world s3) = d_data K (world s)"
      "filled (d_scratch K) (mem s2) q (\<lambda>i. d_data K (world s) (1024 + unat offs + i)) 1024 (mem s3)" by auto
  have "holds (mem s3) q 1024 (\<lambda>i. d_data K (world s) (1024 + unat offs + i))" by (rule holds_filled [OF s3(5) m2(2)]) simp
  from read_word_holds [OF this, of 56] have g: "read_word (mem s3) (q + 56) = Some (be16 (\<lambda>i. d_data K (world s) (1024 + unat offs + i)) 56)" by simp
  from al obtain s4 where s4: "free (pkg E) q s3 = Some s4" "dstackcnt s4 = dstackcnt s3" "dstack s4 = dstack s3" "world s4 = world s3"
    unfolding allocates_def by fastforce
  have "ext2_probe E (int fd) offs s =
      Some (if le16 (d_data K (world s)) (unat offs + 1080) = EXT2_SUPER_MAGIC then - 1 else 0, s4)"
    by (simp add: ext2_probe_def s1(1) s2(1) s3(1) g s4(1) bswap_be le_shift add.commute [of "unat offs"])
  moreover have "ds s4 = ds s" using s4(2,3) s3(3) by (simp add: ds_def)
  ultimately show ?thesis using s3(4) s4(4) by auto
qed

subsection \<open>The deblocker under a volume\<close>

definition deblk_disk :: "nat \<Rightarrow> nat \<Rightarrow> ucell \<Rightarrow> ucell \<Rightarrow> ('w \<Rightarrow> nat \<Rightarrow> u8) \<Rightarrow> ('w \<Rightarrow> deblk_info) \<Rightarrow> ucell \<Rightarrow> ucell \<Rightarrow> ucell \<Rightarrow> 'w disk" where
  "deblk_disk bs nb brx buf D gt sx rx ih =
     \<lparr>d_ih = ih, d_seek = sx, d_read = rx, d_size = nb * bs, d_scratch = in_region buf bs, d_data = D,
      d_pos = (\<lambda>w. unat (mark_of (gt w))), d_needs = deblk_inst bs brx buf gt\<rparr>"

lemma call_package_deblk:
  assumes "ds_ok s" and "length (ds s) < 509"
  shows "call_package (deblk_node p gt st sx rx ih) xt ih s = deblk_method p gt st sx rx xt (popped (popped (pushed ih (pushed xt s))))"
    "ds_ok (popped (popped (pushed ih (pushed xt s))))" "ds (popped (popped (pushed ih (pushed xt s)))) = ds s"
  using assms by (auto simp: call_package_def deblk_node_def stack_steps)

lemma deblk_disk_device:
  assumes bd: "block_disk p brx bs nb D gt st" and "sx \<noteq> rx"
  shows "disk_device (deblk_node p gt st sx rx ih) (deblk_disk bs nb brx buf D gt sx rx ih)" (is "disk_device ?p ?K")
proof -
  have "nb * bs < 2 ^ 31 * 2 ^ 31" using bd unfolding block_disk_def by (intro mult_strict_mono) auto
  then have sz: "nb * bs \<le> 2 ^ 63" by simp
  have "serves_seeks ?p ?K"
    unfolding serves_seeks_def
  proof (intro allI impI, elim conjE)
    fix s :: "'a fstate" and hi lo rest
    assume s: "ds_ok s" "ds s = hi # lo # rest" "length rest \<le> 480" "unat (join_cells hi lo) \<le> d_size ?K" "d_needs ?K (mem s) (world s)"
    have l: "length (ds s) < 509" using s by simp
    note cp1 = call_package_deblk(1) [OF s(1) l, of p gt st sx rx ih sx]
    note cp = call_package_deblk(2,3) [OF s(1) l, of ih sx]
    have "join_cells hi lo \<noteq> - 1"
    proof
      assume "join_cells hi lo = - 1"
      then have "join_cells hi lo = 0xFFFFFFFFFFFFFFFF" by simp
      then have "unat (join_cells hi lo) = 0xFFFFFFFFFFFFFFFF" by simp
      then show False using s(4) sz by (simp add: deblk_disk_def)
    qed
    from method_seek [OF bd cp(1) cp(2) [unfolded s(2)] this, of buf sx rx] s(5) cp1
    show "\<exists>s'. call_package ?p (d_seek ?K) (d_ih ?K) s = Some s' \<and> ds_ok s' \<and> ds s' = 0 # rest \<and> mem s' = mem s \<and>
        d_data ?K (world s') = d_data ?K (world s) \<and> d_pos ?K (world s') = unat (join_cells hi lo) \<and> d_needs ?K (mem s') (world s')"
      by (auto simp: deblk_disk_def)
  qed
  moreover have "serves_reads ?p ?K"
    unfolding serves_reads_def
  proof (intro allI impI, elim conjE)
    fix s :: "'a fstate" and n a rest
    assume s: "ds_ok s" "ds s = of_nat n # a # rest" "length rest \<le> 480" "d_needs ?K (mem s) (world s)" "n < 2 ^ 31" "mapped (mem s) a n"
      "\<forall>x. in_region a n x \<longrightarrow> \<not> d_scratch ?K x" "d_pos ?K (world s) + n \<le> d_size ?K"
    have l: "length (ds s) < 509" "length rest \<le> 490" using s by simp_all
    note cp1 = call_package_deblk(1) [OF s(1) l(1), of p gt st sx rx ih rx]
    note cp = call_package_deblk(2,3) [OF s(1) l(1), of ih rx]
    from method_read [OF bd assms(2) cp(1) cp(2) [unfolded s(2)] l(2), of buf] s(4-8) cp1
    show "\<exists>s'. call_package ?p (d_read ?K) (d_ih ?K) s = Some s' \<and> ds_ok s' \<and> ds s' = of_nat n # rest \<and>
        filled (d_scratch ?K) (mem s) a (\<lambda>i. d_data ?K (world s) (d_pos ?K (world s) + i)) n (mem s') \<and>
        d_data ?K (world s') = d_data ?K (world s) \<and> d_pos ?K (world s') = d_pos ?K (world s) + n \<and> d_needs ?K (mem s') (world s')"
      by (auto simp: deblk_disk_def)
  qed
  ultimately show ?thesis using sz by (auto simp: disk_device_def deblk_disk_def same_dom_def deblk_inst_def mapped_def)
qed

lemma disk_device_needs:
  assumes dev: "disk_device p K" and Q: "\<And>m m'. same_dom m m' \<Longrightarrow> Q m = Q m'"
  shows "disk_device p (K\<lparr>d_needs := \<lambda>m w. d_needs K m w \<and> Q m\<rparr>)" (is "disk_device p ?K")
proof -
  have "serves_seeks p ?K"
    using dev unfolding disk_device_def serves_seeks_def by fastforce
  moreover have "serves_reads p ?K"
    unfolding serves_reads_def
  proof (intro allI impI)
    fix s n a rest
    assume *: "ds_ok s \<and> ds s = of_nat n # a # rest \<and> length rest \<le> 480 \<and> d_needs ?K (mem s) (world s) \<and> n < 2 ^ 31 \<and>
        mapped (mem s) a n \<and> (\<forall>x. in_region a n x \<longrightarrow> \<not> d_scratch ?K x) \<and> d_pos ?K (world s) + n \<le> d_size ?K"
    from dev have "serves_reads p K" by (simp add: disk_device_def)
    from this [unfolded serves_reads_def, rule_format, of s n a rest] * obtain s' where
      s': "call_package p (d_read K) (d_ih K) s = Some s'" "ds_ok s'" "ds s' = of_nat n # rest"
        "filled (d_scratch K) (mem s) a (\<lambda>i. d_data K (world s) (d_pos K (world s) + i)) n (mem s')"
        "d_data K (world s') = d_data K (world s)" "d_pos K (world s') = d_pos K (world s) + n" "d_needs K (mem s') (world s')" by auto
    have "same_dom (mem s) (mem s')" using s'(4) by (simp add: filled_def same_dom_def)
    then have "Q (mem s')" using Q * by auto
    with s' show "\<exists>s'. call_package p (d_read ?K) (d_ih ?K) s = Some s' \<and> ds_ok s' \<and> ds s' = of_nat n # rest \<and>
        filled (d_scratch ?K) (mem s) a (\<lambda>i. d_data ?K (world s) (d_pos ?K (world s) + i)) n (mem s') \<and>
        d_data ?K (world s') = d_data ?K (world s) \<and> d_pos ?K (world s') = d_pos ?K (world s) + n \<and> d_needs ?K (mem s') (world s')" by auto
  qed
  ultimately show ?thesis using dev Q by (auto simp: disk_device_def)
qed

subsection \<open>A concrete volume\<close>

text \<open>Memory that holds given cells, at increasing addresses.\<close>

fun poke_cells :: "(ucell \<times> u32) list \<Rightarrow> memory \<Rightarrow> memory" where
  "poke_cells [] m = m"
| "poke_cells ((a, v) # cs) m = the (write_long (poke_cells cs m) a v)"

fun spaced :: "nat \<Rightarrow> (ucell \<times> u32) list \<Rightarrow> bool" where
  "spaced n [] = (n \<le> 2 ^ 32)"
| "spaced n ((a, v) # cs) = (n \<le> unat a \<and> spaced (unat a + 4) cs)"

lemma spaced_le: "spaced n cs \<Longrightarrow> n \<le> 2 ^ 32"
  by (induction n cs rule: spaced.induct) auto

lemma spaced_bounds: "spaced n cs \<Longrightarrow> (a, v) \<in> set cs \<Longrightarrow> n \<le> unat a \<and> unat a + 4 \<le> 2 ^ 32"
  by (induction n cs rule: spaced.induct) (auto dest: spaced_le)

lemma poke_cells_frame:
  assumes "\<And>x. m x \<noteq> None"
  shows "poke_cells cs m x \<noteq> None" "\<forall>(a, v) \<in> set cs. \<not> in_region a 4 x \<Longrightarrow> poke_cells cs m x = m x"
proof -
  have "(\<forall>x. poke_cells cs m x \<noteq> None) \<and> (\<forall>x. (\<forall>(a, v) \<in> set cs. \<not> in_region a 4 x) \<longrightarrow> poke_cells cs m x = m x)"
  proof (induction cs)
    case (Cons c cs)
    obtain a v where c: "c = (a, v)" by (cases c)
    have "mapped (poke_cells cs m) a 4" using Cons by (simp add: mapped_def)
    then obtain m' where m': "write_long (poke_cells cs m) a v = Some m'" using write_long_mapped by blast
    then show ?case using Cons c long_acc.wr_frame [OF m'] long_acc.wr_dom [OF m'] by auto
  qed (use assms in simp)
  then show "poke_cells cs m x \<noteq> None" "\<forall>(a, v) \<in> set cs. \<not> in_region a 4 x \<Longrightarrow> poke_cells cs m x = m x" by blast+
qed

lemma poke_cells_hold:
  assumes "\<And>x. m x \<noteq> None" and "spaced n cs"
  shows "cells_hold (poke_cells cs m) cs"
  using assms(2)
proof (induction n cs rule: spaced.induct)
  case (2 n a v cs)
  have "mapped (poke_cells cs m) a 4" using poke_cells_frame(1) [OF assms(1)] by (simp add: mapped_def)
  then obtain m' where m': "write_long (poke_cells cs m) a v = Some m'" using write_long_mapped by blast
  have "read_long m' b = read_long (poke_cells cs m) b" if b: "(b, u) \<in> set cs" for b u
  proof -
    have "unat a + 4 \<le> unat b" "unat b + 4 \<le> 2 ^ 32" using spaced_bounds [of "unat a + 4" cs b u] 2(2) b by simp_all
    from long_acc.rd_wr_apart [OF m' apart_no_wrap [OF this]] show ?thesis .
  qed
  then show ?case using 2 m' long_acc.rd_wr_same [OF m'] by (auto simp: cells_hold_def)
qed (simp add: cells_hold_def)

text \<open>A region below or above every cell of a list.\<close>

definition clear_of :: "ucell \<Rightarrow> nat \<Rightarrow> (ucell \<times> u32) list \<Rightarrow> bool" where
  "clear_of b n cs \<longleftrightarrow>
     unat b + n \<le> 2 ^ 32 \<and> list_all (\<lambda>(a, v). unat a + 4 \<le> 2 ^ 32 \<and> (unat a + 4 \<le> unat b \<or> unat b + n \<le> unat a)) cs"

lemma clear_apart: "clear_of b n cs \<Longrightarrow> cells_clear (in_region b n) cs"
proof -
  assume c: "clear_of b n cs"
  have "\<not> in_region b n x" if av: "(a, v) \<in> set cs" and x: "in_region a 4 x" for a v x
  proof -
    from c av have "unat b + n \<le> 2 ^ 32" "unat a + 4 \<le> 2 ^ 32" "unat a + 4 \<le> unat b \<or> unat b + n \<le> unat a"
      by (auto simp: clear_of_def list_all_iff)
    then have "apart a 4 b n" using apart_no_wrap [of a 4 b n] apart_no_wrap [of b n a 4] apart_sym by blast
    with x show ?thesis by (auto simp: apart_def)
  qed
  then show ?thesis by (auto simp: cells_clear_def)
qed

definition demo_vol :: vol where
  "demo_vol = \<lparr>v_at = 0x300, v_fd = 0, v_fdp = 0x200, v_super = 0x400, v_buffer = 0x10000, v_log = 0\<rparr>"

definition demo_geo :: geo where
  "demo_geo = \<lparr>g_first = 1, g_ipg = 32, g_rev = 0, g_sizes = 0\<rparr>"

definition demo_io :: "node_world io_env" where
  "demo_io = \<lparr>pkg = demo_node, file_descriptors = 0x100\<rparr>"

definition demo_disk :: "node_world disk" where
  "demo_disk = (deblk_disk 4 0x10000 1 0x1000 snd fst 5 6 7)
     \<lparr>d_needs := \<lambda>m w. deblk_inst 4 1 0x1000 fst m w \<and> mapped m 0x8000 1024\<rparr>"

definition demo_cells :: "(ucell \<times> u32) list" where
  "demo_cells =
     [(0x100, 0x200), (0x200, 7), (0x208, 6), (0x20C, 5), (0x300, 0), (0x304, 0x400), (0x308, - 1), (0x30C, 0x10000),
      (0x414, 1), (0x418, 0), (0x428, 32), (0x44C, 0), (0x458, 0)] @
     inode_cells 0x2000 2500 (\<lambda>k. 40 + of_nat k) @
     [(0x2100, 0x300), (0x2104, 0x2000), (0x2108, 0), (0x2204, 0x2300), (0x2300, 0), (0x2304, 0x2100)]"

definition demo_memory :: memory where
  "demo_memory = poke_cells demo_cells (\<lambda>x. Some (if x = 0x3800 then 0x5C else if x = 0x3801 then 97 else 0))"

lemma demo_cells_spaced: "spaced 0 demo_cells"
  by (simp add: demo_cells_def inode_cells_def upt_rec [of _ 15])

lemmas demo_vol_simps = demo_vol_def demo_io_def demo_disk_def deblk_disk_def demo_geo_def

lemma demo_memory_facts: "demo_memory x \<noteq> None" "mapped demo_memory a n" "cells_hold demo_memory demo_cells"
proof -
  show "demo_memory x \<noteq> None" for x unfolding demo_memory_def by (rule poke_cells_frame(1)) simp
  then show "mapped demo_memory a n" by (simp add: mapped_def)
  show "cells_hold demo_memory demo_cells" unfolding demo_memory_def by (rule poke_cells_hold [OF _ demo_cells_spaced]) simp
qed

lemma demo_holds: "set cs \<subseteq> set demo_cells \<Longrightarrow> cells_hold demo_memory cs"
  using demo_memory_facts(3) by (auto simp: cells_hold_def)

lemma demo_device: "disk_device (pkg demo_io) demo_disk"
proof -
  have "disk_device demo_node (deblk_disk 4 0x10000 1 0x1000 snd fst 5 6 7)"
    unfolding demo_node_def by (rule deblk_disk_device [OF node_disk]) simp_all
  from disk_device_needs [OF this, of "\<lambda>m. mapped m 0x8000 1024"] show ?thesis
    by (auto simp: demo_io_def demo_disk_def deblk_disk_def mapped_def same_dom_def)
qed

lemma demo_vol_cells:
  "vol_cells demo_io demo_disk demo_vol =
     [(0x300, 0), (0x304, 0x400), (0x30C, 0x10000), (0x418, 0), (0x100, 0x200), (0x200, 7), (0x208, 6), (0x20C, 5)]"
  "geo_cells demo_vol demo_geo = [(0x414, 1), (0x428, 32), (0x44C, 0), (0x458, 0)]" "v_bs demo_vol = 1024"
  by (simp_all add: vol_cells_def fd_cells_def geo_cells_def v_bs_def demo_vol_simps)

lemma demo_scratch:
  "vol_scratch demo_disk demo_vol = (\<lambda>x. in_region 0x10000 1024 x \<or> in_region 0x308 4 x \<or> in_region 0x1000 4 x)"
  by (rule ext) (simp add: vol_scratch_def v_bs_def demo_vol_simps)

lemma demo_apart:
  "clear_of 0x10000 1024 cs \<Longrightarrow> clear_of 0x308 4 cs \<Longrightarrow> clear_of 0x1000 4 cs \<Longrightarrow> cells_clear (vol_scratch demo_disk demo_vol) cs"
  unfolding demo_scratch by (intro cells_clear_or clear_apart)

definition demo_ext2 :: "cell list \<Rightarrow> (nat \<Rightarrow> u8) \<Rightarrow> node_world fstate" where
  "demo_ext2 xs f = (demo_state xs f)\<lparr>mem := demo_memory\<rparr>"

lemma demo_ext2_facts:
  "length xs < 10 \<Longrightarrow> ds_ok (demo_ext2 xs f) \<and> ds (demo_ext2 xs f) = rev xs"
  "mem (demo_ext2 xs f) = demo_memory" "length xs < 10 \<Longrightarrow> world (demo_ext2 xs f) = (demo_di, f)"
  using demo_state_facts [of xs f] by (simp_all add: demo_ext2_def)

lemma demo_vol_ok:
  assumes "length xs < 10"
  shows "vol_ok demo_io demo_disk demo_vol (demo_ext2 xs f)"
proof -
  have "apart 0x308 4 0x10000 1024" "apart 0x308 4 0x1000 4" "apart 0x1000 4 0x10000 1024" by (rule apart_no_wrap; simp)+
  then have "vol_layout demo_io demo_disk demo_vol"
    using demo_apart [of "vol_cells demo_io demo_disk demo_vol"]
    by (auto simp: vol_layout_def demo_vol_cells clear_of_def apart_def) (auto simp: demo_vol_simps)
  moreover have "cells_hold demo_memory (vol_cells demo_io demo_disk demo_vol)"
    by (rule demo_holds) (simp add: demo_vol_cells demo_cells_def)
  moreover have "cells_hold demo_memory [(0x308, - 1)]" by (rule demo_holds) (simp add: demo_cells_def)
  then have "cache_ok demo_disk demo_vol demo_memory w" for w
    by (simp add: cache_ok_def vol_current_def cells_hold_def demo_vol_def)
  moreover have "d_needs demo_disk demo_memory (demo_di, f)"
    using demo_memory_facts(2) by (simp add: demo_vol_simps deblk_inst_def demo_di_def)
  ultimately show ?thesis
    using demo_ext2_facts [of xs f] assms demo_memory_facts(2) by (simp add: vol_ok_def)
qed

abbreviation demo_bl :: "nat \<Rightarrow> u32" where
  "demo_bl \<equiv> \<lambda>k. 40 + of_nat k"

lemma demo_inode_cells:
  "inode_cells 0x2000 2500 demo_bl =
     (0x2004, 2500) # map (\<lambda>k. (0x2028 + 4 * of_nat k, 40 + of_nat k)) [0, 1, 2, 3, 4, 5, 6, 7, 8, 9, 10, 11, 12, 13, 14]"
  by (simp add: inode_cells_def upt_rec [of _ 15])

lemma demo_file_ok:
  assumes "length xs < 10"
  shows "file_ok demo_io demo_disk demo_vol 0x2000 2500 demo_bl 0 (file_blocks demo_vol 2500) (demo_ext2 xs f)"
proof -
  have fb: "file_blocks demo_vol 2500 = 3" by (simp add: file_blocks_def demo_vol_cells)
  have "bmap_ok demo_disk demo_vol w demo_bl n" if "n < 3" for w n
  proof -
    have "n = 0 \<or> n = 1 \<or> n = 2" using that by linarith
    then show ?thesis by (auto simp: bmap_ok_def bmap_def on_disk_def demo_vol_cells v_apb_def) (simp_all add: demo_vol_simps)
  qed
  moreover have "cells_hold demo_memory (inode_cells 0x2000 2500 demo_bl)" by (rule demo_holds) (auto simp: demo_cells_def)
  moreover have "cells_clear (vol_scratch demo_disk demo_vol) (inode_cells 0x2000 2500 demo_bl)"
    by (rule demo_apart) (simp_all add: demo_inode_cells clear_of_def)
  ultimately show ?thesis
    using demo_vol_ok [OF assms, of f] demo_ext2_facts(2) [of xs f] by (simp add: file_ok_def fb)
qed

lemma demo_dest:
  assumes "clear_of a n (vol_cells demo_io demo_disk demo_vol @ cs)" and "0x10400 \<le> unat a \<or> unat a + n \<le> 0x10000 \<and> 0x1004 \<le> unat a"
  shows "dest_ok demo_io demo_disk demo_vol cs demo_memory a n"
proof -
  have le: "unat a + n \<le> 2 ^ 32" using assms(1) by (simp add: clear_of_def)
  have "apart 0x308 4 a n" "apart 0x1000 4 a n" by (rule apart_no_wrap; use assms(2) le in auto)+
  moreover have "apart 0x10000 1024 a n"
    using apart_no_wrap [of "0x10000" 1024 a n] apart_no_wrap [of a n "0x10000" 1024] assms(2) le apart_sym by fastforce
  moreover have "n < 2 ^ 32" using le assms(2) by auto
  ultimately show ?thesis
    using clear_apart [OF assms(1)] demo_memory_facts(2) by (auto simp: dest_ok_def demo_scratch apart_def)
qed

subsection \<open>Properties\<close>

text \<open>
  C36: Reading a file. Take a file shorter than 2 GB whose blocks are in reach of the direct, indirect and doubly indirect
  blocks and lie, with those, on the device below 4 GB (\<open>file_ok\<close>, \<open>on_disk\<close>), and an offset and a length whose sum is below
  \<open>2 ^ 32\<close>. A read from offset \<open>o'\<close> returns the number of bytes up to the length asked for or the end of the file, and leaves
  exactly the bytes of the file at the destination; nothing else but the volume's buffer changes and the volume stays good.
  At or past the end the read returns -1 and changes nothing. Outside these bounds the code is wrong: the sum of offset
  and length, by which it cuts a read at the end of the file, and the place of a block on the device wrap around in 32 bits,
  and triply indirect blocks are looked up in the doubly indirect tree.
\<close>

theorem ext2_read_data_correct:
  assumes "disk_device (pkg E) K" and "file_ok E K V ia sz bl 0 (file_blocks V sz) s" and "unat sz < 2 ^ 31"
    and "o' + len < 2 ^ 32" and "n = min len (unat sz - o')" and "dest_ok E K V (inode_cells ia sz bl) (mem s) a n"
  shows "if o' < unat sz
         then \<exists>s'. ext2_read_data E (v_at V) ia (int o') a (of_nat len) s = Some (int n, s') \<and> vol_ok E K V s' \<and> ds s' = ds s \<and>
           (\<forall>i < n. mem s' (a + of_nat i) = Some (file_byte K V (world s) bl (o' + i))) \<and>
           (\<forall>x. \<not> vol_scratch K V x \<and> \<not> in_region a n x \<longrightarrow> mem s' x = mem s x)
         else ext2_read_data E (v_at V) ia (int o') a (of_nat len) s = Some (- 1, s)"
proof (cases "o' < unat sz")
  case True
  from read_data_in_file [OF assms(1-3) True assms(4-6)] True show ?thesis
    by (auto simp: has_read_def spares_def holds_def)
next
  case False
  have "unat (of_nat o' :: u32) = o'" using assms(4) by (simp add: unat_of_nat_small)
  then have "sz \<le> word_of_int (int o')" using False by (simp add: word_le_nat_alt)
  with read_data_past_end [of E K V s ia sz bl "int o'"] assms(2) False show ?thesis by (simp add: file_ok_def)
qed

theorem ext2_read_data_correct_witness:
  "(\<exists>s'. ext2_read_data demo_io 0x300 0x2000 1000 0x20000 100 (demo_ext2 [] of_nat) = Some (100, s') \<and>
     mem s' 0x20000 = Some (of_nat (40 * 1024 + 1000)) \<and> mem s' (0x20000 + 30) = Some (of_nat (41 * 1024 + 6))) \<and>
   ext2_read_data demo_io 0x300 0x2000 2500 0x20000 100 (demo_ext2 [] of_nat) = Some (- 1, demo_ext2 [] of_nat)"
proof -
  have d: "dest_ok demo_io demo_disk demo_vol (inode_cells 0x2000 2500 demo_bl) (mem (demo_ext2 [] of_nat)) 0x20000 n" if "n \<le> 100" for n
    unfolding demo_ext2_facts(2) by (rule demo_dest) (use that in \<open>simp_all add: clear_of_def demo_vol_cells demo_inode_cells\<close>)
  have w: "world (demo_ext2 [] of_nat) = (demo_di, of_nat)" by (rule demo_ext2_facts(3)) simp
  have fb: "file_byte demo_disk demo_vol (demo_di, of_nat) demo_bl 1000 = of_nat (40 * 1024 + 1000)"
    "file_byte demo_disk demo_vol (demo_di, of_nat) demo_bl 1030 = of_nat (41 * 1024 + 6)"
    by (simp_all add: file_byte_def demo_vol_cells bmap_def block_of_def, simp_all add: demo_vol_simps)
  have fo: "file_ok demo_io demo_disk demo_vol 0x2000 2500 demo_bl 0 (file_blocks demo_vol 2500) (demo_ext2 [] of_nat)"
    by (rule demo_file_ok) simp
  note main = ext2_read_data_correct [OF demo_device fo]
  have v: "v_at demo_vol = 0x300" by (simp add: demo_vol_def)
  from main [where o' = 1000 and len = 100 and n = 100 and a = "0x20000"] d [of 100] obtain s' where
    1: "ext2_read_data demo_io 0x300 0x2000 1000 0x20000 100 (demo_ext2 [] of_nat) = Some (100, s')"
      "\<forall>i < 100. mem s' (0x20000 + of_nat i) = Some (file_byte demo_disk demo_vol (demo_di, of_nat) demo_bl (1000 + i))"
    by (auto simp: v w)
  from 1(2) [rule_format, of 0] 1(2) [rule_format, of 30] fb have "mem s' 0x20000 = Some (of_nat (40 * 1024 + 1000))"
    "mem s' (0x20000 + 30) = Some (of_nat (41 * 1024 + 6))" by simp_all
  moreover from main [where o' = 2500 and len = 100 and n = 0 and a = "0x20000"] d [of 0] have
    "ext2_read_data demo_io 0x300 0x2000 2500 0x20000 100 (demo_ext2 [] of_nat) = Some (- 1, demo_ext2 [] of_nat)" by (simp add: v)
  ultimately show ?thesis using 1(1) by blast
qed

text \<open>
  C37: Resolving a path. For a path in memory and directories that are well formed on the device (\<open>dir_ok\<close>; their blocks and
  those of the inodes in reach and below 4 GB, as for files), from the root along the components of the path, \<open>ext2_seek_name\<close> returns the inode the path leads to, taking in each directory the first entry
  whose name equals the component, and 0 when a component is not found; any number of separators may stand between
  components. Only the frame and the volume's buffer change.
\<close>

theorem ext2_seek_name_resolves:
  assumes "disk_device (pkg E) K" and "geo_vol E K V G s" and "dest_ok E K V (geo_cells V G) (mem s) fr 424"
    and "is_cstring (at (mem s) name) p" and "length p < 2 ^ 31"
    and "\<forall>y. in_region name (length p + 1) y \<longrightarrow> \<not> vol_scratch K V y \<and> \<not> in_region fr 424 y"
    and "walk_ok K V G (world s) T EXT2_ROOT_INO (path_components p)"
  shows "\<exists>s'. ext2_seek_name E fr (v_at V) name s = Some (resolve T EXT2_ROOT_INO (path_components p), s') \<and> geo_vol E K V G s' \<and>
           ds s' = ds s \<and> (\<forall>x. \<not> vol_scratch K V x \<and> \<not> in_region fr 424 x \<longrightarrow> mem s' x = mem s x)"
  using seek_loop_step [OF assms(1-5) _ assms(7)] assms(6) by (auto simp: ext2_seek_name_def spares_def)

definition demo_root :: "nat \<Rightarrow> u8" where
  "demo_root i =
     (if i = 2056 then 5 else if i = 5249 then 0x40 else if i = 5253 then 4 else if i = 5288 then 6
      else if i = 6144 then 2 else if i = 6148 then 12 else if i = 6150 then 1 else if i = 6151 then 2 else if i = 6152 then 46
      else if i = 6156 then 11 else if i = 6160 then 0xF4 else if i = 6161 then 3 else if i = 6162 then 1 else if i = 6163 then 1
      else if i = 6164 then 97 else 0)"

definition demo_dir :: "dirent list" where
  "demo_dir = [(2, [46], 12), (11, [97], 1012)]"

lemma demo_components: "path_components [0x5C, 97] = [[97]]" "path_components [0x5C, 98] = [[98]]"
  by (simp_all add: path_components.simps component_def)

lemma demo_dir_ok: "dir_ok demo_disk demo_vol demo_geo (demo_di, demo_root) 2 demo_dir"
proof -
  let ?w = "(demo_di, demo_root)"
  have blk: "block_of demo_disk demo_vol ?w b i = demo_root (unat b * 1024 + i)" for b i
    by (simp add: block_of_def demo_vol_cells demo_disk_def deblk_disk_def)
  have g: "g_ipg demo_geo = 32" "g_isz demo_geo = 128" "g_first demo_geo = 1" by (simp_all add: demo_geo_def g_isz_def)
  have tab: "group_block demo_vol demo_geo 0 = 2" "group_table demo_disk demo_vol demo_geo ?w 0 = 5"
    by (simp_all add: group_block_def group_table_def g demo_vol_cells blk le32_def demo_root_def cat32_def)
  have ib: "ino_block demo_disk demo_vol demo_geo ?w 2 = 5" by (simp add: ino_block_def g demo_vol_cells tab)
  define f where "f = disk_inode demo_disk demo_vol demo_geo ?w 2"
  have f: "f = (\<lambda>i. demo_root (5248 + i))" by (rule ext) (simp add: f_def disk_inode_def ib blk g demo_vol_cells)
  have sz: "le32 f 4 = 1024" "le16 f 0 = 0x4000" "disk_block f 0 = 6"
    by (simp_all add: f disk_block_def S_ISLNK_def le32_def le16_def demo_root_def cat32_def cat16_def)
  have fb: "file_byte demo_disk demo_vol ?w (disk_block f) i = demo_root (6144 + i)" if "i < 1024" for i
    using that sz(3) by (simp add: file_byte_def demo_vol_cells bmap_def blk)
  have "bmap_ok demo_disk demo_vol ?w (disk_block f) 0"
    using sz(3) by (simp add: bmap_ok_def bmap_def on_disk_def demo_vol_cells v_apb_def) (simp add: demo_vol_simps)
  moreover have "file_blocks demo_vol 1024 = 1" by (simp add: file_blocks_def demo_vol_cells)
  moreover have "ino_ok demo_disk demo_vol demo_geo ?w 2"
    using tab ib by (simp add: ino_ok_def g on_disk_def demo_vol_cells) (simp add: demo_vol_simps)
  moreover have "dir_layout (file_byte demo_disk demo_vol ?w (disk_block f)) 1024 0 demo_dir"
    by (simp add: demo_dir_def entry_at_def le32_def le16_def fb) (simp add: demo_root_def cat32_def cat16_def)
  ultimately show ?thesis by (simp add: dir_ok_def Let_def f_def [symmetric] sz)
qed

theorem ext2_seek_name_resolves_witness:
  "\<exists>s'. ext2_seek_name demo_io 0x4000 0x300 0x3800 (demo_ext2 [] demo_root) = Some (11, s') \<and> ds s' = []"
proof -
  let ?s = "demo_ext2 [] demo_root"
  have v: "v_at demo_vol = 0x300" by (simp add: demo_vol_def)
  have w: "world ?s = (demo_di, demo_root)" "ds ?s = []" using demo_ext2_facts [of "[]" demo_root] by simp_all
  have gc: "cells_hold demo_memory (geo_cells demo_vol demo_geo)" by (rule demo_holds) (simp add: demo_vol_cells demo_cells_def)
  have "cells_clear (vol_scratch demo_disk demo_vol) (geo_cells demo_vol demo_geo)"
    by (rule demo_apart) (simp_all add: demo_vol_cells clear_of_def)
  then have g: "geo_vol demo_io demo_disk demo_vol demo_geo ?s"
    using demo_vol_ok [of "[]" demo_root] gc by (simp add: geo_vol_def geo_ok_def demo_vol_cells demo_ext2_facts(2)) (simp add: demo_geo_def g_isz_def)
  have fr: "dest_ok demo_io demo_disk demo_vol (geo_cells demo_vol demo_geo) (mem ?s) 0x4000 424"
    unfolding demo_ext2_facts(2) by (rule demo_dest) (simp_all add: clear_of_def demo_vol_cells)
  have base: "demo_memory x = Some (if x = 0x3800 then 0x5C else if x = 0x3801 then 97 else 0)" if "in_region 0x3800 3 x" for x
  proof -
    have "cells_clear (in_region 0x3800 3) demo_cells"
      by (rule clear_apart) (simp add: demo_cells_def demo_inode_cells clear_of_def)
    with that show ?thesis unfolding demo_memory_def by (intro poke_cells_frame(2)) (auto simp: cells_clear_def)
  qed
  have b: "demo_memory 0x3800 = Some 0x5C" "demo_memory 0x3801 = Some 97" "demo_memory 0x3802 = Some 0"
    using base [of "0x3800"] base [of "0x3801"] base [of "0x3802"] by (simp_all add: in_region_def)
  have p: "is_cstring (at (mem ?s) 0x3800) [0x5C, 97]"
    by (simp add: is_cstring_def at_def demo_ext2_facts(2) All_less_Suc b)
  have "apart 0x308 4 0x3800 3" "apart 0x1000 4 0x3800 3" "apart 0x3800 3 0x10000 1024" "apart 0x3800 3 0x4000 424"
    by (rule apart_no_wrap; simp)+
  then have "\<forall>y. in_region 0x3800 3 y \<longrightarrow> \<not> vol_scratch demo_disk demo_vol y \<and> \<not> in_region 0x4000 424 y"
    by (auto simp: demo_scratch apart_def)
  moreover have "length [0x5C, 97 :: u8] + 1 = 3" by simp
  ultimately have sep: "\<forall>y. in_region 0x3800 (length [0x5C, 97 :: u8] + 1) y \<longrightarrow> \<not> vol_scratch demo_disk demo_vol y \<and> \<not> in_region 0x4000 424 y"
    by (simp only:)
  have walk: "walk_ok demo_disk demo_vol demo_geo (world ?s) (\<lambda>_. demo_dir) EXT2_ROOT_INO (path_components [0x5C, 97])"
    using demo_dir_ok by (simp add: w demo_components EXT2_ROOT_INO_def split: option.split)
  have "resolve (\<lambda>_. demo_dir) EXT2_ROOT_INO (path_components [0x5C, 97]) = 11"
    by (simp add: demo_components demo_dir_def)
  then show ?thesis
    using ext2_seek_name_resolves [OF demo_device g fr p _ sep walk] by (auto simp: v w)
qed

lemma demo_open_file:
  assumes "length xs < 10"
  shows "open_file demo_io demo_disk demo_vol 0x2100 0x2000 2500 demo_bl (demo_ext2 xs f)"
    "cells_hold (mem (demo_ext2 xs f)) (instance_cells 0x2200 0x2300 0x2100)"
proof -
  have fc: "file_cells demo_vol 0x2100 0x2000 = [(0x2100, 0x300), (0x2104, 0x2000)]" by (simp add: file_cells_def demo_vol_def)
  have "cells_hold demo_memory (file_cells demo_vol 0x2100 0x2000)" by (rule demo_holds) (auto simp: fc demo_cells_def)
  moreover have "cells_clear (vol_scratch demo_disk demo_vol) (file_cells demo_vol 0x2100 0x2000)"
    by (rule demo_apart) (simp_all add: fc clear_of_def)
  moreover have "dest_ok demo_io demo_disk demo_vol (inode_cells 0x2000 2500 demo_bl @ file_cells demo_vol 0x2100 0x2000) demo_memory 0x2108 4"
    by (rule demo_dest) (simp_all add: clear_of_def demo_vol_cells demo_inode_cells fc)
  ultimately show "open_file demo_io demo_disk demo_vol 0x2100 0x2000 2500 demo_bl (demo_ext2 xs f)"
    using demo_file_ok [OF assms, of f] by (simp add: open_file_def demo_ext2_facts(2))
  have "cells_hold demo_memory (instance_cells 0x2200 0x2300 0x2100)"
    by (rule demo_holds) (auto simp: instance_cells_def FILE_TYPE_def demo_cells_def)
  then show "cells_hold (mem (demo_ext2 xs f)) (instance_cells 0x2200 0x2300 0x2100)" by (simp add: demo_ext2_facts(2))
qed

definition demo_ext2_env :: "node_world ext2_env" where
  "demo_ext2_env = \<lparr>io = demo_io, link_buffer = 0x6000, dir_entry_at = 0x7000\<rparr>"

text \<open>
  C38: The \<open>load\<close> method. For an open file that is not empty, is shorter than 2 GB, and has all its blocks in reach of the
  doubly indirect block and on the device below 4 GB (\<open>open_file\<close>), \<open>load ( addr -- size )\<close> puts the whole file at the address,
  pushes its size and leaves the file's offset at its end, whatever the offset was before. Of files outside these bounds
  nothing is claimed: the code reads their far blocks from the wrong place.
\<close>

theorem ext2_files_load_whole:
  assumes "disk_device (pkg (io X)) K" and "open_file (io X) K V fa ia sz bl s" and "0 < unat sz"
    and "cells_hold (mem s) (instance_cells mi common fa)" and "ds s = buf # rest"
    and "dest_ok (io X) K V (file_parts V fa ia sz bl) (mem s) buf (unat sz)"
  shows "\<exists>s'. ext2_files_load X mi s = Some s' \<and> ds s' = sz # rest \<and> file_offset (mem s') fa = Some (int (unat sz)) \<and>
           (\<forall>i < unat sz. mem s' (buf + of_nat i) = Some (file_byte K V (world s) bl i)) \<and>
           open_file (io X) K V fa ia sz bl (popped s')"
proof -
  have "unat sz < 2 ^ 31" using assms(2) by (simp add: open_file_def)
  then have "sint sz = int (unat sz)" using sint_of_nat [of "unat sz"] by simp
  with load_step [OF assms] show ?thesis by (auto simp: file_offset_def holds_def)
qed

theorem ext2_files_load_whole_witness:
  "\<exists>s'. ext2_files_load demo_ext2_env 0x2200 (demo_ext2 [0x20000] of_nat) = Some s' \<and> ds s' = [2500] \<and>
     mem s' (0x20000 + 2048) = Some (of_nat (42 * 1024))"
proof -
  let ?s = "demo_ext2 [0x20000] of_nat"
  have e: "io demo_ext2_env = demo_io" by (simp add: demo_ext2_env_def)
  have d: "dest_ok demo_io demo_disk demo_vol (file_parts demo_vol 0x2100 0x2000 2500 demo_bl) (mem ?s) 0x20000 (unat (2500 :: u32))"
    unfolding demo_ext2_facts(2)
    by (rule demo_dest) (simp_all add: clear_of_def demo_vol_cells demo_inode_cells file_parts_def file_cells_def)
  have w: "world ?s = (demo_di, of_nat)" "ds ?s = [0x20000]" using demo_ext2_facts [of "[0x20000]" of_nat] by simp_all
  have fb: "file_byte demo_disk demo_vol (demo_di, of_nat) demo_bl 2048 = of_nat (42 * 1024)"
    by (simp add: file_byte_def demo_vol_cells bmap_def block_of_def, simp add: demo_vol_simps)
  have o': "open_file (io demo_ext2_env) demo_disk demo_vol 0x2100 0x2000 2500 demo_bl ?s" unfolding e by (rule demo_open_file(1)) simp
  have c: "cells_hold (mem ?s) (instance_cells 0x2200 0x2300 0x2100)" by (rule demo_open_file(2)) simp
  from ext2_files_load_whole [OF demo_device [folded e] o' _ c w(2) d [folded e]] obtain s' where
    1: "ext2_files_load demo_ext2_env 0x2200 ?s = Some s'" "ds s' = [2500]"
      "\<forall>i < unat (2500 :: u32). mem s' (0x20000 + of_nat i) = Some (file_byte demo_disk demo_vol (demo_di, of_nat) demo_bl i)"
    unfolding w(1) by (auto simp: unat_gt_0)
  from 1(3) [rule_format, of 2048] fb have "mem s' (0x20000 + 2048) = Some (of_nat (42 * 1024))" by simp
  with 1 show ?thesis by blast
qed



text \<open>
  C40: Probing. On a device with room for a super block at the given offset, \<open>ext2_probe\<close> answers -1 (yes) exactly when the
  little-endian number at byte 56 of that super block (byte 1080 from the offset) is the ext2 magic, and 0 otherwise; the stack and the device are as before.
\<close>

theorem ext2_probe_decides:
  assumes "probe_ready E K H fd fdp s" and "unat offs + 2048 \<le> d_size K"
  shows "\<exists>r s'. ext2_probe E (int fd) offs s = Some (r, s') \<and> ds s' = ds s \<and> d_data K (world s') = d_data K (world s) \<and>
           (r = - 1 \<longleftrightarrow> le16 (d_data K (world s)) (unat offs + 1080) = EXT2_SUPER_MAGIC) \<and> (r = - 1 \<or> r = 0)"
  using probe_step [OF assms] by (auto split: if_splits)

theorem ext2_probe_decides_witness:
  "(\<exists>s'. ext2_probe demo_io 0 512 (demo_ext2 [] (\<lambda>i. if i = 1592 then 0x53 else if i = 1593 then 0xEF else 0)) = Some (- 1, s')) \<and>
   (\<exists>s'. ext2_probe demo_io 0 512 (demo_ext2 [] (\<lambda>_. 0)) = Some (0, s'))"
proof -
  have r: "probe_ready demo_io demo_disk (in_region 0x8000 1024) 0 0x200 (demo_ext2 [] f)" for f
  proof -
    have "allocates (pkg demo_io) 1024 (in_region 0x8000 1024) (d_needs demo_disk)"
      by (auto simp: allocates_def demo_io_def demo_disk_def deblk_disk_def demo_node_def deblk_node_def node_env_def)
    moreover have c: "fd_cells demo_io demo_disk 0 0x200 = [(0x100, 0x200), (0x200, 7), (0x208, 6), (0x20C, 5)]"
      by (simp add: fd_cells_def demo_vol_simps)
    have "cells_clear (\<lambda>x. in_region 0x8000 1024 x \<or> d_scratch demo_disk x) (fd_cells demo_io demo_disk 0 0x200)"
      unfolding c by (intro cells_clear_or clear_apart) (simp_all add: clear_of_def, simp add: demo_vol_simps clear_apart clear_of_def)
    moreover have "cells_hold demo_memory (fd_cells demo_io demo_disk 0 0x200)" by (rule demo_holds) (simp add: c demo_cells_def)
    moreover have "apart 0x1000 4 0x8000 1024" by (rule apart_no_wrap) simp_all
    then have "\<forall>x. in_region 0x8000 1024 x \<longrightarrow> \<not> d_scratch demo_disk x" by (auto simp: demo_vol_simps apart_def)
    ultimately show ?thesis
      using demo_device demo_vol_ok [of "[]" f] by (simp add: probe_ready_def vol_ok_def demo_ext2_facts(2))
  qed
  have w: "world (demo_ext2 [] f) = (demo_di, f)" for f by (rule demo_ext2_facts(3)) simp
  have sz: "d_size demo_disk = 262144" "d_data demo_disk = snd" by (simp_all add: demo_vol_simps)
  note main = ext2_probe_decides [OF r, of 512]
  show ?thesis
    using main [of "\<lambda>i. if i = 1592 then 0x53 else if i = 1593 then 0xEF else 0"] main [of "\<lambda>_. 0"]
    by (auto simp: w sz le16_def cat16_def EXT2_SUPER_MAGIC_def)
qed

end
