(* ===== verification/Spec2Isabelle.thy ===== *)
theory Spec2Isabelle
  imports Forth_Mem Forth_Types Forthstrap_Spec Ofmem_Claims Libc_Misc Nvram Ipchecksum Ext2_Props
begin

text \<open>
  A verification library for OpenBIOS, the free implementation of IEEE 1275 Open Firmware, in the
  Wii branch of the repository. The configuration is the PowerPC one: 32-bit cells and pointers,
  big-endian memory, unsigned \<open>char\<close>, no debugging options, the firmware's build (not \<open>FCOMPILER\<close>)
  where a file is compiled for both.

  \<^bold>\<open>The program and its parts.\<close> OpenBIOS is a Forth system with a C kernel. The engine
  (\<open>kernel/forth.c\<close>, \<open>kernel/stack.c\<close>, \<open>include/kernel/stack.h\<close>, \<open>kernel/cross.h\<close>) interprets threaded
  code that lies in a dictionary in memory; \<open>kernel/dict.c\<close> searches the dictionary and loads it
  from a file; \<open>kernel/bootstrap.c\<close> builds the first dictionary, with a word for every primitive.
  Everything above runs on the engine and calls back into C. The C side rests on its own \<open>libc\<close>
  and \<open>libgcc\<close> and on the memory manager (\<open>libopenbios/ofmem_common.c\<close> with the hooks of
  \<open>arch/ppc/wii/ofmem.c\<close>), which serves \<open>malloc\<close>, the claims of memory that Open Firmware offers to
  its clients, and the address translations the page-fault handler uses.

  \<^bold>\<open>Conventions.\<close> A C function is an Isabelle function of the state it reads, with an \<open>option\<close>
  result where C may leave the behaviour undefined or a loop may not end (\<open>None\<close>). Error codes are
  values of the result. What is not C of this repository, or is inline assembly, is a field of an
  environment record: the console, the I/O ports and the C functions reached by \<open>call\<close> for the engine
  (\<open>env\<close>), the linker's \<open>_end\<close>, \<open>printk\<close> and the Forth word \<open>encode-property\<close> for the memory manager
  (\<open>ofenv\<close>). The evaluation order of \<open>POP() < POP()\<close> is left to right.

  \<^bold>\<open>Theories, in the order of their imports.\<close>
  \<^item> \<open>Prelude\<close>: machine types, options, words.
  \<^item> \<open>Memory\<close>: byte-addressed memory, the access layer of \<open>cross.h\<close> and the block operations of
    \<open>libc/string.c\<close>. The locale \<open>accessor\<close> is the contract of one access width, interpreted for bytes,
    words, longs and cells; \<open>memmove\<close> copies rightly whatever the overlap.
  \<^item> \<open>Libgcc\<close>: 64-bit division and shifts from 32-bit halves, equal to those of the double word.
  \<^item> \<open>Libc_String\<close>: the strings of \<open>libc/string.c\<close>, the character classes of \<open>ctype.c\<close>.
  \<^item> \<open>Libc_Format\<close>, \<open>Libc_Format_Spec\<close>: \<open>libc/vsprintf.c\<close> and its specification as a function from
    the format and the arguments to a text. \<open>Libc_Misc\<close>: \<open>libc/misc.c\<close>; \<open>qsort\<close> against the locale
    \<open>comparison\<close>, interpreted for \<open>memcmp\<close>, and \<open>strtol\<close> as the inverse of printing.
  \<^item> \<open>Forth_State\<close>: the state of the engine (\<open>fstate\<close>) and the stack macros of \<open>stack.h\<close>; the locale
    \<open>bounded_stack\<close> is the contract of a stack, interpreted for the data and the return stack.
  \<^item> \<open>Dict\<close>, \<open>Dict_Spec\<close>: \<open>dict.c\<close>; lookup finds the newest word of a name.
  \<^item> \<open>Forth_Prims\<close>, \<open>Forth_Interp\<close>: every primitive of \<open>words[]\<close>, the source debugger, the inner
    interpreters \<open>next\<close> and \<open>next_dbg\<close>, and \<open>enterforth\<close>. The interpreters run with fuel, a bound on
    the number of words executed.
  \<^item> \<open>Forth_Spec\<close>, \<open>Forth_Mem\<close>: specifications of the stack words and the memory words by name, which
    the table of primitives implements.
  \<^item> \<open>Forth_Run\<close>: a small structured language (numbers, stack words, calls, conditionals, counted
    loops), its compilation to threaded code, and the theorem that \<open>enterforth\<close> runs a compiled
    definition to its meaning. Fuel is not a restriction: there is an amount from which on every amount
    gives the result.
  \<^item> \<open>Forth_Types\<close>: a checker of stack effects for that language, and its soundness on the engine.
  \<^item> \<open>Bootstrap\<close>: the dictionary builder; \<open>build_dictionary\<close> returns and every primitive is found.
  \<^item> \<open>Dict_File\<close>: the relocation table and the dictionary files of \<open>bootstrap.c\<close>. What is compiled, written and read
    back by \<open>load_dictionary\<close> is as if compiled where it is loaded; bad files are refused.
  \<^item> \<open>Forth_Layout\<close>: the dictionary while it is compiled into, as a part of memory that is never written again,
    variables and free space; every step of the builder keeps this layout.
  \<^item> \<open>Forthstrap\<close>: the source interpreter of \<open>bootstrap.c\<close>, with the source files as streams, the include path, the words
    it knows itself and the two passes of \<open>main\<close>. \<open>Forthstrap_Spec\<close>: the words of a text and the meaning of a program
    of colon definitions; compiling its source and running a word gives that meaning, and undefined words are reported.
    The interpreter takes fuel, one for each word and file; for definitions the amount that is enough is given (\<open>turns_of\<close>).
  \<^item> \<open>Ofmem_Heap\<close>: the allocator on byte memory, with the free list threaded through the blocks; the
    step relation \<open>heap_step\<close> of a client and the safety of every sequence of calls whose sizes do not make the
    out-of-memory test wrap around (\<open>no_wrap\<close>).
  \<^item> \<open>Ofmem_Ranges\<close>: lists of claimed ranges as sets of addresses, the search for a free area in both directions.
  \<^item> \<open>Ofmem\<close>: claims, translations, properties, start-up and the page-fault path.
  \<^item> \<open>Ofmem_Props\<close>: the properties published to the device tree; \<open>available\<close> lists the free memory, but for two cases
    that the theorem names.
  \<^item> \<open>Ofmem_Trans\<close>: the list of translations as a partial function on addresses; \<open>ofmem_map\<close> and
    \<open>ofmem_unmap\<close> update it, \<open>ofmem_translate\<close> applies it.
  \<^item> \<open>Ofmem_Claims\<close>: sessions of claims and releases as a step relation, and the invariant that what is held
    never overlaps.
  \<^item> \<open>Nvram\<close>: the partitions of the non-volatile memory and the methods of its package; start-up
    returns whatever the device holds.
  \<^item> \<open>Ipchecksum\<close>: \<open>libopenbios/ipchecksum.c\<close> against the checksum of RFC 1071.
  \<^item> \<open>Bindings\<close>: \<open>libopenbios/bindings.c\<close>, the calls from C into the Forth device tree, with the words they
    reach as fields of the record \<open>pkg_env\<close>, and the stack steps they make.
  \<^item> \<open>Deblocker\<close>: \<open>packages/deblocker.c\<close>, bytes on a block device. The locale \<open>transfer\<close> is the contract of one
    transfer of blocks, interpreted for reading and writing; the package refines a file of bytes.
  \<^item> \<open>Parts\<close>, \<open>Parts_Props\<close>, \<open>Parts_More\<close>: the partition packages \<open>pc-parts.c\<close>, \<open>sun-parts.c\<close>, \<open>mac-parts.c\<close>
    and \<open>disk-label.c\<close>. A partition found has the extent its table gives; reading it through the deblocker
    gives the bytes of that window of the disk.
  \<^item> \<open>Diskio\<close>: \<open>libc/diskio.c\<close>, file descriptors on top of open package instances.
  \<^item> \<open>Ext2\<close>: \<open>fs/ext2/ext2_utils.c\<close>, blocks, group descriptors, inodes, the block map and the path search, on the
    structures in memory. \<open>Ext2_Files\<close>: mounting, files, directories and the methods of \<open>/packages/ext2-files\<close>.
  \<^item> \<open>Ext2_Spec\<close>: the contract \<open>disk_device\<close> of a device that serves seeks and reads, the invariant \<open>vol_ok\<close> of a mounted
    volume, and the bytes of a file as a function of the disk (\<open>bmap\<close>, \<open>file_byte\<close>). \<open>Ext2_Names\<close>: conversion of
    inodes to host order, for any access width. \<open>Ext2_Dirs\<close>: directories as lists of entries (\<open>dir_layout\<close>) and the
    resolution of a path over them (\<open>resolve\<close>). \<open>Ext2_Props\<close>: the deblocker meets the contract of the device; files are
    read, paths resolved and volumes recognised as specified. The loops are partial functions, and that they return is
    part of each theorem.
  This theory joins the builder, the lookup and the engine: a primitive looked up by name runs.

  \<^bold>\<open>Not modelled.\<close> The options, the
  hexadecimal output and the signal handler of \<open>forthstrap\<close>; the loaders and the client interface of \<open>libopenbios\<close>.
  The Forth sources are data of the C program. Files past the doubly indirect blocks are modelled but outside the
  theorems, since the code looks them up in the wrong tree. The other file systems (iso9660; FAT, HFS and the GRUB
  readers are third-party code), drivers, the other architectures, assembly files and host utilities are left out:
  device I/O, vendored code, or other configurations.
\<close>

subsection \<open>From a name to a result\<close>

lemma forth_init_frame:
  assumes "forth_init E s0 = Some s" and "apart (trampoline E) 16 x 1"
  shows "mem s x = mem s0 x"
proof -
  let ?T = "trampoline E"
  from assms obtain m1 m2 m3 where
    w: "write_ucell (mem s0) ?T 1 = Some m1" "write_ucell m1 (?T + 4) 0 = Some m2"
      "write_ucell m2 (?T + 8) (?T + 12) = Some m3" "write_ucell m3 (?T + 12) 0 = Some (mem s)"
    by (auto simp: forth_init_def init_trampoline_def bind_eq_Some_iff)
  have "\<not> in_region (?T + of_nat i) 4 x" if "i \<le> 12" for i
    using apart_sub [OF assms(2), of i 4] that by (auto simp: apart_def in_region_def)
  from this [of 0] this [of 4] this [of 8] this [of 12] w show ?thesis
    by (simp add: ucell_acc.wr_frame)
qed

lemma write_ucell_mapped: "mapped m a 4 \<Longrightarrow> \<exists>m'. write_ucell m a v = Some m' \<and> (\<forall>b n. mapped m b n \<longrightarrow> mapped m' b n)"
  using write_ucell_put [of m a v] put_dom by (auto simp: mapped_def)

lemma forth_init_mapped:
  assumes "mapped (mem s) (trampoline E) 16"
  shows "\<exists>m. forth_init E s = Some (s\<lparr>mem := m\<rparr>)"
proof -
  let ?T = "trampoline E"
  have "mapped (mem s) (?T + of_nat i) 4" if "i \<le> 12" for i
    using assms that by (auto simp: mapped_def add.assoc simp flip: of_nat_add)
  from this [of 0] this [of 4] this [of 8] this [of 12]
  have mp: "mapped (mem s) ?T 4" "mapped (mem s) (?T + 4) 4" "mapped (mem s) (?T + 8) 4" "mapped (mem s) (?T + 12) 4"
    by simp_all
  from write_ucell_mapped [OF mp(1), of 1] obtain m1 where
    1: "write_ucell (mem s) ?T 1 = Some m1" "\<And>b n. mapped (mem s) b n \<Longrightarrow> mapped m1 b n" by blast
  from write_ucell_mapped [OF 1(2) [OF mp(2)], of 0] obtain m2 where
    2: "write_ucell m1 (?T + 4) 0 = Some m2" "\<And>b n. mapped m1 b n \<Longrightarrow> mapped m2 b n" by blast
  from write_ucell_mapped [OF 2(2) [OF 1(2) [OF mp(3)]], of "?T + 12"] obtain m3 where
    3: "write_ucell m2 (?T + 8) (?T + 12) = Some m3" "\<And>b n. mapped m2 b n \<Longrightarrow> mapped m3 b n" by blast
  from write_ucell_mapped [OF 3(2) [OF 2(2) [OF 1(2) [OF mp(4)]]], of 0] obtain m4 where
    4: "write_ucell m3 (?T + 12) 0 = Some m4" by blast
  from 1(1) 2(1) 3(1) 4 have "forth_init E s = Some (s\<lparr>mem := m4\<rparr>)"
    by (simp add: forth_init_def init_trampoline_def)
  then show ?thesis by blast
qed

text \<open>
  C13: a primitive by its name. Build the dictionary in mapped memory, with the trampoline outside
  it, and run \<open>forth_init\<close>: both succeed. In the resulting state, whatever is then on the data
  stack, the name of a stack word leads through \<open>findword\<close> to an execution token on which \<open>enterforth\<close>
  returns with the word's result on the stack and the return stack as it was.
\<close>

theorem named_primitive_runs:
  assumes "linear (dict (eng b)) 0x40000" and "mapped (mem (eng b)) (dict (eng b)) 0x40000"
    and "mapped (mem (eng b)) lfa 4" and "apart (dict (eng b)) 0x40000 lfa 4"
    and "mapped (mem (eng b)) (trampoline E) 16" and "apart (trampoline E) 16 (dict (eng b)) 0x40000"
  shows "\<exists>b' s0. build_dictionary E lfa b = Some b' \<and> forth_init E (eng b') = Some s0 \<and>
     (\<forall>i < length wordnames. \<forall>s ys. wordnames ! i \<noteq> [] \<and> apply_word i (ds s) = Some ys \<and> ds_ok s \<and> rs_ok s \<and>
        rstackcnt s < 511 \<and> tl (debug_xt_list s) = [] \<and> mem s = mem s0 \<and> dict s = dict s0 \<and> last_word s = last_word s0 \<longrightarrow>
        (\<exists>xt N c f r m. findword s (cstr (wordnames ! i)) = Some xt \<and>
           (\<forall>fuel \<ge> N. enterforth E fuel xt s =
              Some (False, s\<lparr>mem := m, interruptforth := 0, dstackcnt := c, dstack := f, rstack := r\<rparr>)) \<and>
           items f c = ys \<and> items r (rstackcnt s) = rs s))"
proof -
  from build_dictionary_chain [OF assms(1) _ _ assms(2-4), of E] obtain b' ws where
    bd: "build_dictionary E lfa b = Some b'" and
    d: "dict (eng b') = dict (eng b)" "no_less b b'" "dict_ready 0x40000 ws (eng b')" "map entry ws = dict_entries" by auto
  have "mapped (mem (eng b')) (trampoline E) 16" using assms(5) d(2) by (auto simp: mapped_def no_less_def)
  from forth_init_mapped [OF this] obtain m0 where fi: "forth_init E (eng b') = Some ((eng b')\<lparr>mem := m0\<rparr>)" by blast
  let ?s0 = "(eng b')\<lparr>mem := m0\<rparr>"
  have out: "apart (trampoline E) 16 (dict (eng b) + of_nat j) n" if "j + n \<le> 0x40000" for j n
    using apart_sub [of "dict (eng b)" "0x40000" "trampoline E" 16 j n] assms(6) that by (simp add: apart_sym)
  have rd: "dict_ready 0x40000 ws ?s0"
    by (rule dict_ready_frame [OF d(3)]) (use forth_init_frame [OF fi out] d(1) in simp_all)
  have "\<exists>xt N c f r m. findword s (cstr (wordnames ! i)) = Some xt \<and>
           (\<forall>fuel \<ge> N. enterforth E fuel xt s =
              Some (False, s\<lparr>mem := m, interruptforth := 0, dstackcnt := c, dstack := f, rstack := r\<rparr>)) \<and>
           items f c = ys \<and> items r (rstackcnt s) = rs s"
    if i: "i < length wordnames" "wordnames ! i \<noteq> []" and run: "apply_word i (ds s) = Some ys" "ds_ok s" "rs_ok s"
      "rstackcnt s < 511" "tl (debug_xt_list s) = []" and s: "mem s = mem ?s0" "dict s = dict ?s0" "last_word s = last_word ?s0"
    for i s ys
  proof -
    have "dict_ready 0x40000 ws s" by (rule dict_ready_frame [OF rd]) (use s in simp_all)
    from primitive_found [OF this d(4) i] obtain xt where
      xt: "findword s (cstr (wordnames ! i)) = Some xt" "in_dict 0x40000 (dict s) xt" "read_ucell (mem s) xt = Some (of_nat i)"
      by blast
    have ap: "apart (trampoline E) 16 xt 4" using xt(2) out s(2) d(1) by (auto simp: in_dict_def)
    have ne: "i \<noteq> 1" using i(2) by (auto simp: wordnames_def)
    have "init_trampoline (trampoline E) (mem (eng b')) = Some m0"
      using fi by (auto simp: forth_init_def bind_eq_Some_iff dest: arg_cong [where f = mem])
    then have "forth_init E (s\<lparr>mem := mem (eng b')\<rparr>) = Some s"
      using s(1) by (simp add: forth_init_def)
    from enter_primitive [OF this xt(3) ne ap run] xt(1) show ?thesis by blast
  qed
  with bd fi show ?thesis by blast
qed

theorem named_primitive_runs_witness:
  "\<exists>b' s0 xt N c f r m. build_dictionary bare_env 16
       \<lparr>eng = (init_fstate (\<lambda>_. Some 0) ())\<lparr>dict := 0x100000\<rparr>, latest = 0, state_ptr = 0, base_ptr = 0\<rparr> = Some b' \<and>
     forth_init bare_env (eng b') = Some s0 \<and>
     (let s = (init_fstate (mem s0) ())\<lparr>dict := dict s0, last_word := last_word s0,
                 dstackcnt := 2, dstack := (\<lambda>i. if i = 1 then 40 else 2)\<rparr>
      in findword s (cstr ''+'') = Some xt \<and>
         (\<forall>fuel \<ge> N. enterforth bare_env fuel xt s =
            Some (False, s\<lparr>mem := m, interruptforth := 0, dstackcnt := c, dstack := f, rstack := r\<rparr>)) \<and> items f c = [42])"
proof -
  let ?b = "\<lparr>eng = (init_fstate (\<lambda>_. Some 0) ())\<lparr>dict := 0x100000\<rparr>, latest = 0, state_ptr = 0, base_ptr = 0\<rparr> :: unit boot"
  have m: "mapped (mem (eng ?b)) (dict (eng ?b)) 0x40000" "mapped (mem (eng ?b)) 16 4"
    "mapped (mem (eng ?b)) (trampoline bare_env) 16" by (simp_all add: mapped_def init_fstate_def)
  have l: "linear (dict (eng ?b)) 0x40000" by (simp add: linear_def)
  have a: "apart (dict (eng ?b)) 0x40000 16 4" "apart (trampoline bare_env) 16 (dict (eng ?b)) 0x40000"
    by (subst apart_sym, rule apart_no_wrap, simp_all) (rule apart_no_wrap, simp_all add: bare_env_def)
  from named_primitive_runs [where E = bare_env, OF l m(1,2) a(1) m(3) a(2)] obtain b' s0 where
    b: "build_dictionary bare_env 16 ?b = Some b'" "forth_init bare_env (eng b') = Some s0" and
    run: "\<And>i s ys. i < length wordnames \<Longrightarrow> wordnames ! i \<noteq> [] \<and> apply_word i (ds s) = Some ys \<and> ds_ok s \<and> rs_ok s \<and>
        rstackcnt s < 511 \<and> tl (debug_xt_list s) = [] \<and> mem s = mem s0 \<and> dict s = dict s0 \<and> last_word s = last_word s0 \<Longrightarrow>
        \<exists>xt N c f r m. findword s (cstr (wordnames ! i)) = Some xt \<and>
           (\<forall>fuel \<ge> N. enterforth bare_env fuel xt s =
              Some (False, s\<lparr>mem := m, interruptforth := 0, dstackcnt := c, dstack := f, rstack := r\<rparr>)) \<and>
           items f c = ys \<and> items r (rstackcnt s) = rs s"
    by blast
  let ?s = "(init_fstate (mem s0) ())\<lparr>dict := dict s0, last_word := last_word s0,
                 dstackcnt := 2, dstack := (\<lambda>i. if i = 1 then 40 else 2)\<rparr>"
  have "ds ?s = [2, 40]" by (simp add: ds_def items_pred)
  moreover have "apply_word 35 [2, 40] = Some [42]" by code_simp
  ultimately have "apply_word 35 (ds ?s) = Some [42]" by simp
  then have "wordnames ! 35 \<noteq> [] \<and> apply_word 35 (ds ?s) = Some [42] \<and> ds_ok ?s \<and> rs_ok ?s \<and>
        rstackcnt ?s < 511 \<and> tl (debug_xt_list ?s) = [] \<and> mem ?s = mem s0 \<and> dict ?s = dict s0 \<and> last_word ?s = last_word s0"
    by (simp add: init_fstate_def ds_ok_def rs_ok_def wordnames_def)
  from run [OF _ this] have "\<exists>xt N c f r m. findword ?s (cstr (wordnames ! 35)) = Some xt \<and>
           (\<forall>fuel \<ge> N. enterforth bare_env fuel xt ?s =
              Some (False, ?s\<lparr>mem := m, interruptforth := 0, dstackcnt := c, dstack := f, rstack := r\<rparr>)) \<and> items f c = [42]"
    by (simp add: words_length) blast
  moreover have "wordnames ! 35 = ''+''" by (simp add: wordnames_def)
  ultimately show ?thesis using b unfolding Let_def by metis
qed

end
